(* ===== verification/Prelude.thy ===== *)
theory Prelude
  imports Main "HOL-Library.Word" "HOL-Library.Monad_Syntax"
begin

text \<open>
  The shared vocabulary of the development: the machine integer types of
  \<^verbatim>\<open>rt-thread/include/rtdef.h\<close>, the error codes, the alignment macros, the one memory
  primitive (\<open>memcpy\<close>) the byte buffers use, and the generic lemmas on words and
  lists that the component theories share.  Facts that several components need are kept in
  the collections \<open>rt_simps\<close> (rewriting) and \<open>word_bits\<close> (bit-level normal forms).
\<close>

unbundle bit_operations_syntax

named_theorems rt_simps \<open>rewrite rules of the kernel primitives\<close>
named_theorems word_bits \<open>bit-level rewrite rules\<close>

section \<open>Machine integers\<close>

type_synonym u8 = "8 word"
type_synonym u16 = "16 word"
type_synonym u32 = "32 word"

text \<open>\<^verbatim>\<open>rt_err_t\<close> is a signed machine word; the code returns the negated error code.\<close>

type_synonym rt_err = int

definition RT_EOK :: rt_err where "RT_EOK = 0"
definition RT_ERROR :: rt_err where "RT_ERROR = 1"
definition RT_ETIMEOUT :: rt_err where "RT_ETIMEOUT = 2"
definition RT_EFULL :: rt_err where "RT_EFULL = 3"
definition RT_EEMPTY :: rt_err where "RT_EEMPTY = 4"
definition RT_ENOMEM :: rt_err where "RT_ENOMEM = 5"
definition RT_EINTR :: rt_err where "RT_EINTR = 9"

lemmas rt_err_defs = RT_EOK_def RT_ERROR_def RT_ETIMEOUT_def RT_EFULL_def RT_EEMPTY_def
  RT_ENOMEM_def RT_EINTR_def

text \<open>The value of an integer stored into an \<^verbatim>\<open>rt_int16_t\<close>.\<close>

definition to_s16 :: "int \<Rightarrow> int" where "to_s16 x = (x + 2 ^ 15) mod 2 ^ 16 - 2 ^ 15"

lemma to_s16_small: "\<lbrakk>- (2 ^ 15) \<le> x; x < 2 ^ 15\<rbrakk> \<Longrightarrow> to_s16 x = x"
  by (simp add: to_s16_def)

text \<open>The macros \<^verbatim>\<open>RT_ALIGN\<close> and \<^verbatim>\<open>RT_ALIGN_DOWN\<close> at \<^verbatim>\<open>RT_ALIGN_SIZE = 4\<close>.\<close>

definition RT_ALIGN_DOWN :: "nat \<Rightarrow> nat" where
  "RT_ALIGN_DOWN n = n - n mod 4"

definition RT_ALIGN :: "nat \<Rightarrow> nat" where
  "RT_ALIGN n = RT_ALIGN_DOWN (n + 3)"

lemma RT_ALIGN_DOWN_le [simp]: "RT_ALIGN_DOWN n \<le> n"
  by (simp add: RT_ALIGN_DOWN_def)

lemma RT_ALIGN_DOWN_dvd [simp]: "4 dvd RT_ALIGN_DOWN n"
  by (simp add: RT_ALIGN_DOWN_def minus_mod_eq_mult_div)

lemma RT_ALIGN_ge [simp]: "n \<le> RT_ALIGN n"
  unfolding RT_ALIGN_def RT_ALIGN_DOWN_def by presburger

lemma RT_ALIGN_dvd [simp]: "4 dvd RT_ALIGN n"
  by (simp add: RT_ALIGN_def)

lemma RT_ALIGN_less: "RT_ALIGN n < n + 4"
  unfolding RT_ALIGN_def RT_ALIGN_DOWN_def by presburger

lemma RT_ALIGN_DOWN_id [simp]: "4 dvd n \<Longrightarrow> RT_ALIGN_DOWN n = n"
  by (simp add: RT_ALIGN_DOWN_def)

lemma RT_ALIGN_id [simp]: "4 dvd n \<Longrightarrow> RT_ALIGN n = n"
  unfolding RT_ALIGN_def RT_ALIGN_DOWN_def by presburger

section \<open>Byte memory\<close>

text \<open>
  \<open>memcpy dst di src si n\<close> copies \<open>n\<close> bytes of the block \<open>src\<close> from offset
  \<open>si\<close> into the block \<open>dst\<close> at offset \<open>di\<close>.  An access outside a block, or a
  negative count (a huge \<^verbatim>\<open>size_t\<close>), is undefined behaviour in C and \<open>None\<close> here, so
  that memory safety is a theorem and not an assumption.
\<close>

definition memcpy :: "'a list \<Rightarrow> int \<Rightarrow> 'a list \<Rightarrow> int \<Rightarrow> int \<Rightarrow> 'a list option" where
  "memcpy dst di src si n =
     (if 0 \<le> n \<and> 0 \<le> di \<and> 0 \<le> si \<and> di + n \<le> int (length dst) \<and> si + n \<le> int (length src)
      then Some (take (nat di) dst @ take (nat n) (drop (nat si) src) @ drop (nat (di + n)) dst)
      else None)"

lemma memcpy_Some:
  assumes "0 \<le> n" "0 \<le> di" "0 \<le> si" "di + n \<le> int (length dst)" "si + n \<le> int (length src)"
  shows "memcpy dst di src si n =
    Some (take (nat di) dst @ take (nat n) (drop (nat si) src) @ drop (nat (di + n)) dst)"
  using assms by (simp add: memcpy_def)

lemma memcpy_length: "memcpy dst di src si n = Some r \<Longrightarrow> length r = length dst"
  by (auto simp: memcpy_def split: if_splits)

lemma memcpy_nth:
  assumes "memcpy dst di src si n = Some r" "i < length dst"
  shows "r ! i = (if nat di \<le> i \<and> i < nat (di + n) then src ! (nat si + (i - nat di)) else dst ! i)"
proof -
  from assms(1) have b: "0 \<le> n" "0 \<le> di" "0 \<le> si" "di + n \<le> int (length dst)"
      "si + n \<le> int (length src)"
    and r: "r = take (nat di) dst @ take (nat n) (drop (nat si) src) @ drop (nat (di + n)) dst"
    by (auto simp: memcpy_def split: if_splits)
  from b(1-3) obtain a k c where e: "di = int a" "n = int k" "si = int c"
    by (metis nonneg_int_cases)
  have d: "a + k \<le> length dst" and s: "c + k \<le> length src"
    using b(4,5) by (simp_all add: e)
  have r': "r = take a dst @ take k (drop c src) @ drop (a + k) dst"
    by (simp add: r e flip: of_nat_add)
  have len: "length (take k (drop c src)) = k" using s by simp
  have nn: "nat di = a" "nat (di + n) = a + k" "nat si = c" by (simp_all add: e flip: of_nat_add)
  consider "i < a" | "a \<le> i" "i < a + k" | "a + k \<le> i" by linarith
  then show ?thesis
  proof cases
    case 1
    then show ?thesis using assms(2) by (simp add: r' nn nth_append)
  next
    case 2
    then have "i - a < k" by linarith
    with 2 show ?thesis using d s len by (simp add: r' nn nth_append min_absorb2)
  next
    case 3
    then have "\<not> i < a" "\<not> i - a < k" by linarith+
    with 3 show ?thesis using d s assms(2) by (simp add: r' nn nth_append min_absorb2)
  qed
qed

section \<open>Words and bits\<close>

lemma word_split_low: "(x :: 'a::len word) = push_bit n (drop_bit n x) XOR (x AND mask n)"
  by (rule bit_eqI) (auto simp: bit_simps)

lemma xor_left_cancel [simp]: "(a XOR x = a XOR y) \<longleftrightarrow> (x = (y :: 'a::len word))"
proof
  assume "a XOR x = a XOR y"
  then have "a XOR (a XOR x) = a XOR (a XOR y)" by simp
  then show "x = y" by (simp flip: xor.assoc)
qed simp

lemma xor_right_cancel [simp]: "(x XOR a = y XOR a) \<longleftrightarrow> (x = (y :: 'a::len word))"
  by (metis xor.commute xor_left_cancel)

lemma ucast_u8_inj:
  assumes "8 \<le> LENGTH('a)" and "(ucast (b :: u8) :: 'a::len word) = ucast b'"
  shows "b = b'"
proof (rule bit_word_eqI)
  fix n assume n: "n < LENGTH(8)"
  have "bit (ucast b :: 'a word) n = bit (ucast b' :: 'a word) n" using assms(2) by simp
  with n assms(1) show "bit b n = bit b' n" by (simp add: bit_simps)
qed

lemma bit_u8_less: "bit (b :: u8) n \<Longrightarrow> n < 8"
  by (drule bit_imp_le_length) simp

lemma unat_ucast_u8_less [simp]: "unat (x :: u8) < 256"
  using unsigned_less [of x, where ?'a = nat] by simp

section \<open>Lists\<close>

lemma mod_of_sum: "\<lbrakk>(r::nat) < n; i \<le> n\<rbrakk> \<Longrightarrow> (r + i) mod n = (if r + i < n then r + i else r + i - n)"
  by (simp add: mod_if)

lemma takeWhile_dropWhile_split:
  "xs = takeWhile P xs @ dropWhile P xs"
  by simp

section \<open>Rings\<close>

lemma mod_sum_inj:
  assumes "(r + i) mod s = (r + j) mod s" "i < s" "j < (s::nat)"
  shows "i = j"
proof -
  have le: "a = b" if "(r + a) mod s = (r + b) mod s" "a \<le> b" "b < s" for a b
  proof -
    have "s dvd (r + b) - (r + a)" using that by (subst mod_eq_dvd_iff_nat [symmetric]) simp_all
    then have "s dvd b - a" by simp
    then show ?thesis using that by (auto dest: dvd_imp_le)
  qed
  show ?thesis using le [of i j] le [of j i] assms by (cases "i \<le> j") auto
qed

text \<open>The \<open>cnt\<close> elements of a ring of \<open>n\<close> slots from slot \<open>out\<close> on.\<close>

definition ring_list :: "'a list \<Rightarrow> nat \<Rightarrow> nat \<Rightarrow> nat \<Rightarrow> 'a list" where
  "ring_list pool n out cnt = map (\<lambda>i. pool ! ((out + i) mod n)) [0..<cnt]"

lemma ring_list_length [simp]: "length (ring_list pool n out cnt) = cnt"
  by (simp add: ring_list_def)

lemma ring_list_0 [simp]: "ring_list pool n out 0 = []"
  by (simp add: ring_list_def)

lemma ring_list_push:
  assumes "cnt < n" "n \<le> length pool"
  shows "ring_list (pool[(out + cnt) mod n := v]) n out (Suc cnt) = ring_list pool n out cnt @ [v]"
proof -
  have "(out + cnt) mod n < n" using assms(1) by simp
  then have "(out + cnt) mod n < length pool" using assms(2) by linarith
  moreover have "(out + cnt) mod n \<noteq> (out + i) mod n" if "i < cnt" for i
    using mod_sum_inj [of out i n cnt] that assms by auto
  ultimately show ?thesis by (simp add: ring_list_def)
qed

lemma ring_list_pop:
  assumes "0 < cnt" "out < n"
  shows "ring_list pool n out cnt = pool ! out # ring_list pool n ((out + 1) mod n) (cnt - 1)"
proof -
  obtain k where k: "cnt = Suc k" using assms(1) by (cases cnt) auto
  have "ring_list pool n out (Suc k) = pool ! (out mod n) # map (\<lambda>i. pool ! ((out + Suc i) mod n)) [0..<k]"
    unfolding ring_list_def by (subst upt_conv_Cons) (simp_all add: map_Suc_upt [symmetric] o_def del: upt_Suc map_Suc_upt)
  also have "\<dots> = pool ! out # ring_list pool n ((out + 1) mod n) k"
    using assms(2) by (simp add: ring_list_def mod_simps)
  finally show ?thesis by (simp add: k)
qed

lemma unat_u16_less [simp]: "unat (x :: u16) < 65536"
  using unsigned_less [of x, where ?'a = nat] by simp

text \<open>Advancing a 16-bit ring index.\<close>

lemma ring_step:
  fixes i n :: u16
  assumes "i < n"
  shows "unat (if i + 1 \<ge> n then 0 else i + 1) = (unat i + 1) mod unat n"
proof -
  have "unat i + 1 < 65536" using assms unat_u16_less [of n] unfolding word_less_nat_alt by linarith
  then have "unat (i + 1) = unat i + 1" by (simp add: unat_word_ariths)
  moreover have "unat (i + 1) = unat n" if "n \<le> i + 1"
    using that assms calculation unfolding word_less_nat_alt word_le_nat_alt by linarith
  ultimately show ?thesis using assms unfolding word_less_nat_alt by (auto simp: not_le word_less_nat_alt)
qed

end
