(* ===== verification/Crc.thy ===== *)
theory Crc
  imports Prelude
begin

text \<open>
  The checksum library \<^verbatim>\<open>packages/crclib-v1.00\<close>: \<^verbatim>\<open>crc8.c\<close>, \<^verbatim>\<open>crc16.c\<close>, \<^verbatim>\<open>crc32.c\<close>.
  Each file holds two constant tables (the preprocessor picks one by the polynomial), the
  table generator for other polynomials, the table-driven loop and its one-shot wrapper.
  The tables are proved to be what the generator computes, the loop to be the bitwise CRC,
  and the CRC to be incremental and to detect short bursts.  The firmware's configuration
  (\<^verbatim>\<open>rtconfig.h\<close>) selects the polynomials 0x8C, 0xA001 and 0xEDB88320.
\<close>

section \<open>One bit of the reflected CRC\<close>

text \<open>The body of the inner loop of the three table generators, at each width.\<close>

definition crc_bit :: "'a::len word \<Rightarrow> 'a word \<Rightarrow> 'a word" where
  "crc_bit poly c = (if bit c 0 then poly XOR drop_bit 1 c else drop_bit 1 c)"

definition crc8_table_init :: "u8 \<Rightarrow> u8 list" where
  "crc8_table_init poly = map (\<lambda>i. (crc_bit poly ^^ 8) (word_of_nat i)) [0..<256]"

definition crc16_table_init :: "u16 \<Rightarrow> u16 list" where
  "crc16_table_init poly = map (\<lambda>i. (crc_bit poly ^^ 8) (word_of_nat i)) [0..<256]"

definition crc32_table_init :: "u32 \<Rightarrow> u32 list" where
  "crc32_table_init poly = map (\<lambda>i. (crc_bit poly ^^ 8) (word_of_nat i)) [0..<256]"

section \<open>The constant tables\<close>

definition crc8_table_8C :: "u8 list" where
  "crc8_table_8C = [
    0x00, 0x5e, 0xbc, 0xe2, 0x61, 0x3f, 0xdd, 0x83,
    0xc2, 0x9c, 0x7e, 0x20, 0xa3, 0xfd, 0x1f, 0x41,
    0x9d, 0xc3, 0x21, 0x7f, 0xfc, 0xa2, 0x40, 0x1e,
    0x5f, 0x01, 0xe3, 0xbd, 0x3e, 0x60, 0x82, 0xdc,
    0x23, 0x7d, 0x9f, 0xc1, 0x42, 0x1c, 0xfe, 0xa0,
    0xe1, 0xbf, 0x5d, 0x03, 0x80, 0xde, 0x3c, 0x62,
    0xbe, 0xe0, 0x02, 0x5c, 0xdf, 0x81, 0x63, 0x3d,
    0x7c, 0x22, 0xc0, 0x9e, 0x1d, 0x43, 0xa1, 0xff,
    0x46, 0x18, 0xfa, 0xa4, 0x27, 0x79, 0x9b, 0xc5,
    0x84, 0xda, 0x38, 0x66, 0xe5, 0xbb, 0x59, 0x07,
    0xdb, 0x85, 0x67, 0x39, 0xba, 0xe4, 0x06, 0x58,
    0x19, 0x47, 0xa5, 0xfb, 0x78, 0x26, 0xc4, 0x9a,
    0x65, 0x3b, 0xd9, 0x87, 0x04, 0x5a, 0xb8, 0xe6,
    0xa7, 0xf9, 0x1b, 0x45, 0xc6, 0x98, 0x7a, 0x24,
    0xf8, 0xa6, 0x44, 0x1a, 0x99, 0xc7, 0x25, 0x7b,
    0x3a, 0x64, 0x86, 0xd8, 0x5b, 0x05, 0xe7, 0xb9,
    0x8c, 0xd2, 0x30, 0x6e, 0xed, 0xb3, 0x51, 0x0f,
    0x4e, 0x10, 0xf2, 0xac, 0x2f, 0x71, 0x93, 0xcd,
    0x11, 0x4f, 0xad, 0xf3, 0x70, 0x2e, 0xcc, 0x92,
    0xd3, 0x8d, 0x6f, 0x31, 0xb2, 0xec, 0x0e, 0x50,
    0xaf, 0xf1, 0x13, 0x4d, 0xce, 0x90, 0x72, 0x2c,
    0x6d, 0x33, 0xd1, 0x8f, 0x0c, 0x52, 0xb0, 0xee,
    0x32, 0x6c, 0x8e, 0xd0, 0x53, 0x0d, 0xef, 0xb1,
    0xf0, 0xae, 0x4c, 0x12, 0x91, 0xcf, 0x2d, 0x73,
    0xca, 0x94, 0x76, 0x28, 0xab, 0xf5, 0x17, 0x49,
    0x08, 0x56, 0xb4, 0xea, 0x69, 0x37, 0xd5, 0x8b,
    0x57, 0x09, 0xeb, 0xb5, 0x36, 0x68, 0x8a, 0xd4,
    0x95, 0xcb, 0x29, 0x77, 0xf4, 0xaa, 0x48, 0x16,
    0xe9, 0xb7, 0x55, 0x0b, 0x88, 0xd6, 0x34, 0x6a,
    0x2b, 0x75, 0x97, 0xc9, 0x4a, 0x14, 0xf6, 0xa8,
    0x74, 0x2a, 0xc8, 0x96, 0x15, 0x4b, 0xa9, 0xf7,
    0xb6, 0xe8, 0x0a, 0x54, 0xd7, 0x89, 0x6b, 0x35]"

definition crc8_table_D9 :: "u8 list" where
  "crc8_table_D9 = [
    0x00, 0xd0, 0x13, 0xc3, 0x26, 0xf6, 0x35, 0xe5,
    0x4c, 0x9c, 0x5f, 0x8f, 0x6a, 0xba, 0x79, 0xa9,
    0x98, 0x48, 0x8b, 0x5b, 0xbe, 0x6e, 0xad, 0x7d,
    0xd4, 0x04, 0xc7, 0x17, 0xf2, 0x22, 0xe1, 0x31,
    0x83, 0x53, 0x90, 0x40, 0xa5, 0x75, 0xb6, 0x66,
    0xcf, 0x1f, 0xdc, 0x0c, 0xe9, 0x39, 0xfa, 0x2a,
    0x1b, 0xcb, 0x08, 0xd8, 0x3d, 0xed, 0x2e, 0xfe,
    0x57, 0x87, 0x44, 0x94, 0x71, 0xa1, 0x62, 0xb2,
    0xb5, 0x65, 0xa6, 0x76, 0x93, 0x43, 0x80, 0x50,
    0xf9, 0x29, 0xea, 0x3a, 0xdf, 0x0f, 0xcc, 0x1c,
    0x2d, 0xfd, 0x3e, 0xee, 0x0b, 0xdb, 0x18, 0xc8,
    0x61, 0xb1, 0x72, 0xa2, 0x47, 0x97, 0x54, 0x84,
    0x36, 0xe6, 0x25, 0xf5, 0x10, 0xc0, 0x03, 0xd3,
    0x7a, 0xaa, 0x69, 0xb9, 0x5c, 0x8c, 0x4f, 0x9f,
    0xae, 0x7e, 0xbd, 0x6d, 0x88, 0x58, 0x9b, 0x4b,
    0xe2, 0x32, 0xf1, 0x21, 0xc4, 0x14, 0xd7, 0x07,
    0xd9, 0x09, 0xca, 0x1a, 0xff, 0x2f, 0xec, 0x3c,
    0x95, 0x45, 0x86, 0x56, 0xb3, 0x63, 0xa0, 0x70,
    0x41, 0x91, 0x52, 0x82, 0x67, 0xb7, 0x74, 0xa4,
    0x0d, 0xdd, 0x1e, 0xce, 0x2b, 0xfb, 0x38, 0xe8,
    0x5a, 0x8a, 0x49, 0x99, 0x7c, 0xac, 0x6f, 0xbf,
    0x16, 0xc6, 0x05, 0xd5, 0x30, 0xe0, 0x23, 0xf3,
    0xc2, 0x12, 0xd1, 0x01, 0xe4, 0x34, 0xf7, 0x27,
    0x8e, 0x5e, 0x9d, 0x4d, 0xa8, 0x78, 0xbb, 0x6b,
    0x6c, 0xbc, 0x7f, 0xaf, 0x4a, 0x9a, 0x59, 0x89,
    0x20, 0xf0, 0x33, 0xe3, 0x06, 0xd6, 0x15, 0xc5,
    0xf4, 0x24, 0xe7, 0x37, 0xd2, 0x02, 0xc1, 0x11,
    0xb8, 0x68, 0xab, 0x7b, 0x9e, 0x4e, 0x8d, 0x5d,
    0xef, 0x3f, 0xfc, 0x2c, 0xc9, 0x19, 0xda, 0x0a,
    0xa3, 0x73, 0xb0, 0x60, 0x85, 0x55, 0x96, 0x46,
    0x77, 0xa7, 0x64, 0xb4, 0x51, 0x81, 0x42, 0x92,
    0x3b, 0xeb, 0x28, 0xf8, 0x1d, 0xcd, 0x0e, 0xde]"

definition crc16_table_A001 :: "u16 list" where
  "crc16_table_A001 = [
    0x0000, 0xc0c1, 0xc181, 0x0140, 0xc301, 0x03c0, 0x0280, 0xc241,
    0xc601, 0x06c0, 0x0780, 0xc741, 0x0500, 0xc5c1, 0xc481, 0x0440,
    0xcc01, 0x0cc0, 0x0d80, 0xcd41, 0x0f00, 0xcfc1, 0xce81, 0x0e40,
    0x0a00, 0xcac1, 0xcb81, 0x0b40, 0xc901, 0x09c0, 0x0880, 0xc841,
    0xd801, 0x18c0, 0x1980, 0xd941, 0x1b00, 0xdbc1, 0xda81, 0x1a40,
    0x1e00, 0xdec1, 0xdf81, 0x1f40, 0xdd01, 0x1dc0, 0x1c80, 0xdc41,
    0x1400, 0xd4c1, 0xd581, 0x1540, 0xd701, 0x17c0, 0x1680, 0xd641,
    0xd201, 0x12c0, 0x1380, 0xd341, 0x1100, 0xd1c1, 0xd081, 0x1040,
    0xf001, 0x30c0, 0x3180, 0xf141, 0x3300, 0xf3c1, 0xf281, 0x3240,
    0x3600, 0xf6c1, 0xf781, 0x3740, 0xf501, 0x35c0, 0x3480, 0xf441,
    0x3c00, 0xfcc1, 0xfd81, 0x3d40, 0xff01, 0x3fc0, 0x3e80, 0xfe41,
    0xfa01, 0x3ac0, 0x3b80, 0xfb41, 0x3900, 0xf9c1, 0xf881, 0x3840,
    0x2800, 0xe8c1, 0xe981, 0x2940, 0xeb01, 0x2bc0, 0x2a80, 0xea41,
    0xee01, 0x2ec0, 0x2f80, 0xef41, 0x2d00, 0xedc1, 0xec81, 0x2c40,
    0xe401, 0x24c0, 0x2580, 0xe541, 0x2700, 0xe7c1, 0xe681, 0x2640,
    0x2200, 0xe2c1, 0xe381, 0x2340, 0xe101, 0x21c0, 0x2080, 0xe041,
    0xa001, 0x60c0, 0x6180, 0xa141, 0x6300, 0xa3c1, 0xa281, 0x6240,
    0x6600, 0xa6c1, 0xa781, 0x6740, 0xa501, 0x65c0, 0x6480, 0xa441,
    0x6c00, 0xacc1, 0xad81, 0x6d40, 0xaf01, 0x6fc0, 0x6e80, 0xae41,
    0xaa01, 0x6ac0, 0x6b80, 0xab41, 0x6900, 0xa9c1, 0xa881, 0x6840,
    0x7800, 0xb8c1, 0xb981, 0x7940, 0xbb01, 0x7bc0, 0x7a80, 0xba41,
    0xbe01, 0x7ec0, 0x7f80, 0xbf41, 0x7d00, 0xbdc1, 0xbc81, 0x7c40,
    0xb401, 0x74c0, 0x7580, 0xb541, 0x7700, 0xb7c1, 0xb681, 0x7640,
    0x7200, 0xb2c1, 0xb381, 0x7340, 0xb101, 0x71c0, 0x7080, 0xb041,
    0x5000, 0x90c1, 0x9181, 0x5140, 0x9301, 0x53c0, 0x5280, 0x9241,
    0x9601, 0x56c0, 0x5780, 0x9741, 0x5500, 0x95c1, 0x9481, 0x5440,
    0x9c01, 0x5cc0, 0x5d80, 0x9d41, 0x5f00, 0x9fc1, 0x9e81, 0x5e40,
    0x5a00, 0x9ac1, 0x9b81, 0x5b40, 0x9901, 0x59c0, 0x5880, 0x9841,
    0x8801, 0x48c0, 0x4980, 0x8941, 0x4b00, 0x8bc1, 0x8a81, 0x4a40,
    0x4e00, 0x8ec1, 0x8f81, 0x4f40, 0x8d01, 0x4dc0, 0x4c80, 0x8c41,
    0x4400, 0x84c1, 0x8581, 0x4540, 0x8701, 0x47c0, 0x4680, 0x8641,
    0x8201, 0x42c0, 0x4380, 0x8341, 0x4100, 0x81c1, 0x8081, 0x4040]"

definition crc16_table_8408 :: "u16 list" where
  "crc16_table_8408 = [
    0x0000, 0x1189, 0x2312, 0x329b, 0x4624, 0x57ad, 0x6536, 0x74bf,
    0x8c48, 0x9dc1, 0xaf5a, 0xbed3, 0xca6c, 0xdbe5, 0xe97e, 0xf8f7,
    0x1081, 0x0108, 0x3393, 0x221a, 0x56a5, 0x472c, 0x75b7, 0x643e,
    0x9cc9, 0x8d40, 0xbfdb, 0xae52, 0xdaed, 0xcb64, 0xf9ff, 0xe876,
    0x2102, 0x308b, 0x0210, 0x1399, 0x6726, 0x76af, 0x4434, 0x55bd,
    0xad4a, 0xbcc3, 0x8e58, 0x9fd1, 0xeb6e, 0xfae7, 0xc87c, 0xd9f5,
    0x3183, 0x200a, 0x1291, 0x0318, 0x77a7, 0x662e, 0x54b5, 0x453c,
    0xbdcb, 0xac42, 0x9ed9, 0x8f50, 0xfbef, 0xea66, 0xd8fd, 0xc974,
    0x4204, 0x538d, 0x6116, 0x709f, 0x0420, 0x15a9, 0x2732, 0x36bb,
    0xce4c, 0xdfc5, 0xed5e, 0xfcd7, 0x8868, 0x99e1, 0xab7a, 0xbaf3,
    0x5285, 0x430c, 0x7197, 0x601e, 0x14a1, 0x0528, 0x37b3, 0x263a,
    0xdecd, 0xcf44, 0xfddf, 0xec56, 0x98e9, 0x8960, 0xbbfb, 0xaa72,
    0x6306, 0x728f, 0x4014, 0x519d, 0x2522, 0x34ab, 0x0630, 0x17b9,
    0xef4e, 0xfec7, 0xcc5c, 0xddd5, 0xa96a, 0xb8e3, 0x8a78, 0x9bf1,
    0x7387, 0x620e, 0x5095, 0x411c, 0x35a3, 0x242a, 0x16b1, 0x0738,
    0xffcf, 0xee46, 0xdcdd, 0xcd54, 0xb9eb, 0xa862, 0x9af9, 0x8b70,
    0x8408, 0x9581, 0xa71a, 0xb693, 0xc22c, 0xd3a5, 0xe13e, 0xf0b7,
    0x0840, 0x19c9, 0x2b52, 0x3adb, 0x4e64, 0x5fed, 0x6d76, 0x7cff,
    0x9489, 0x8500, 0xb79b, 0xa612, 0xd2ad, 0xc324, 0xf1bf, 0xe036,
    0x18c1, 0x0948, 0x3bd3, 0x2a5a, 0x5ee5, 0x4f6c, 0x7df7, 0x6c7e,
    0xa50a, 0xb483, 0x8618, 0x9791, 0xe32e, 0xf2a7, 0xc03c, 0xd1b5,
    0x2942, 0x38cb, 0x0a50, 0x1bd9, 0x6f66, 0x7eef, 0x4c74, 0x5dfd,
    0xb58b, 0xa402, 0x9699, 0x8710, 0xf3af, 0xe226, 0xd0bd, 0xc134,
    0x39c3, 0x284a, 0x1ad1, 0x0b58, 0x7fe7, 0x6e6e, 0x5cf5, 0x4d7c,
    0xc60c, 0xd785, 0xe51e, 0xf497, 0x8028, 0x91a1, 0xa33a, 0xb2b3,
    0x4a44, 0x5bcd, 0x6956, 0x78df, 0x0c60, 0x1de9, 0x2f72, 0x3efb,
    0xd68d, 0xc704, 0xf59f, 0xe416, 0x90a9, 0x8120, 0xb3bb, 0xa232,
    0x5ac5, 0x4b4c, 0x79d7, 0x685e, 0x1ce1, 0x0d68, 0x3ff3, 0x2e7a,
    0xe70e, 0xf687, 0xc41c, 0xd595, 0xa12a, 0xb0a3, 0x8238, 0x93b1,
    0x6b46, 0x7acf, 0x4854, 0x59dd, 0x2d62, 0x3ceb, 0x0e70, 0x1ff9,
    0xf78f, 0xe606, 0xd49d, 0xc514, 0xb1ab, 0xa022, 0x92b9, 0x8330,
    0x7bc7, 0x6a4e, 0x58d5, 0x495c, 0x3de3, 0x2c6a, 0x1ef1, 0x0f78]"

definition crc32_table_EDB88320 :: "u32 list" where
  "crc32_table_EDB88320 = [
    0x00000000, 0x77073096, 0xee0e612c, 0x990951ba, 0x076dc419, 0x706af48f, 0xe963a535, 0x9e6495a3,
    0x0edb8832, 0x79dcb8a4, 0xe0d5e91e, 0x97d2d988, 0x09b64c2b, 0x7eb17cbd, 0xe7b82d07, 0x90bf1d91,
    0x1db71064, 0x6ab020f2, 0xf3b97148, 0x84be41de, 0x1adad47d, 0x6ddde4eb, 0xf4d4b551, 0x83d385c7,
    0x136c9856, 0x646ba8c0, 0xfd62f97a, 0x8a65c9ec, 0x14015c4f, 0x63066cd9, 0xfa0f3d63, 0x8d080df5,
    0x3b6e20c8, 0x4c69105e, 0xd56041e4, 0xa2677172, 0x3c03e4d1, 0x4b04d447, 0xd20d85fd, 0xa50ab56b,
    0x35b5a8fa, 0x42b2986c, 0xdbbbc9d6, 0xacbcf940, 0x32d86ce3, 0x45df5c75, 0xdcd60dcf, 0xabd13d59,
    0x26d930ac, 0x51de003a, 0xc8d75180, 0xbfd06116, 0x21b4f4b5, 0x56b3c423, 0xcfba9599, 0xb8bda50f,
    0x2802b89e, 0x5f058808, 0xc60cd9b2, 0xb10be924, 0x2f6f7c87, 0x58684c11, 0xc1611dab, 0xb6662d3d,
    0x76dc4190, 0x01db7106, 0x98d220bc, 0xefd5102a, 0x71b18589, 0x06b6b51f, 0x9fbfe4a5, 0xe8b8d433,
    0x7807c9a2, 0x0f00f934, 0x9609a88e, 0xe10e9818, 0x7f6a0dbb, 0x086d3d2d, 0x91646c97, 0xe6635c01,
    0x6b6b51f4, 0x1c6c6162, 0x856530d8, 0xf262004e, 0x6c0695ed, 0x1b01a57b, 0x8208f4c1, 0xf50fc457,
    0x65b0d9c6, 0x12b7e950, 0x8bbeb8ea, 0xfcb9887c, 0x62dd1ddf, 0x15da2d49, 0x8cd37cf3, 0xfbd44c65,
    0x4db26158, 0x3ab551ce, 0xa3bc0074, 0xd4bb30e2, 0x4adfa541, 0x3dd895d7, 0xa4d1c46d, 0xd3d6f4fb,
    0x4369e96a, 0x346ed9fc, 0xad678846, 0xda60b8d0, 0x44042d73, 0x33031de5, 0xaa0a4c5f, 0xdd0d7cc9,
    0x5005713c, 0x270241aa, 0xbe0b1010, 0xc90c2086, 0x5768b525, 0x206f85b3, 0xb966d409, 0xce61e49f,
    0x5edef90e, 0x29d9c998, 0xb0d09822, 0xc7d7a8b4, 0x59b33d17, 0x2eb40d81, 0xb7bd5c3b, 0xc0ba6cad,
    0xedb88320, 0x9abfb3b6, 0x03b6e20c, 0x74b1d29a, 0xead54739, 0x9dd277af, 0x04db2615, 0x73dc1683,
    0xe3630b12, 0x94643b84, 0x0d6d6a3e, 0x7a6a5aa8, 0xe40ecf0b, 0x9309ff9d, 0x0a00ae27, 0x7d079eb1,
    0xf00f9344, 0x8708a3d2, 0x1e01f268, 0x6906c2fe, 0xf762575d, 0x806567cb, 0x196c3671, 0x6e6b06e7,
    0xfed41b76, 0x89d32be0, 0x10da7a5a, 0x67dd4acc, 0xf9b9df6f, 0x8ebeeff9, 0x17b7be43, 0x60b08ed5,
    0xd6d6a3e8, 0xa1d1937e, 0x38d8c2c4, 0x4fdff252, 0xd1bb67f1, 0xa6bc5767, 0x3fb506dd, 0x48b2364b,
    0xd80d2bda, 0xaf0a1b4c, 0x36034af6, 0x41047a60, 0xdf60efc3, 0xa867df55, 0x316e8eef, 0x4669be79,
    0xcb61b38c, 0xbc66831a, 0x256fd2a0, 0x5268e236, 0xcc0c7795, 0xbb0b4703, 0x220216b9, 0x5505262f,
    0xc5ba3bbe, 0xb2bd0b28, 0x2bb45a92, 0x5cb36a04, 0xc2d7ffa7, 0xb5d0cf31, 0x2cd99e8b, 0x5bdeae1d,
    0x9b64c2b0, 0xec63f226, 0x756aa39c, 0x026d930a, 0x9c0906a9, 0xeb0e363f, 0x72076785, 0x05005713,
    0x95bf4a82, 0xe2b87a14, 0x7bb12bae, 0x0cb61b38, 0x92d28e9b, 0xe5d5be0d, 0x7cdcefb7, 0x0bdbdf21,
    0x86d3d2d4, 0xf1d4e242, 0x68ddb3f8, 0x1fda836e, 0x81be16cd, 0xf6b9265b, 0x6fb077e1, 0x18b74777,
    0x88085ae6, 0xff0f6a70, 0x66063bca, 0x11010b5c, 0x8f659eff, 0xf862ae69, 0x616bffd3, 0x166ccf45,
    0xa00ae278, 0xd70dd2ee, 0x4e048354, 0x3903b3c2, 0xa7672661, 0xd06016f7, 0x4969474d, 0x3e6e77db,
    0xaed16a4a, 0xd9d65adc, 0x40df0b66, 0x37d83bf0, 0xa9bcae53, 0xdebb9ec5, 0x47b2cf7f, 0x30b5ffe9,
    0xbdbdf21c, 0xcabac28a, 0x53b39330, 0x24b4a3a6, 0xbad03605, 0xcdd70693, 0x54de5729, 0x23d967bf,
    0xb3667a2e, 0xc4614ab8, 0x5d681b02, 0x2a6f2b94, 0xb40bbe37, 0xc30c8ea1, 0x5a05df1b, 0x2d02ef8d]"

definition crc32_table_82F63B78 :: "u32 list" where
  "crc32_table_82F63B78 = [
    0x00000000, 0xf26b8303, 0xe13b70f7, 0x1350f3f4, 0xc79a971f, 0x35f1141c, 0x26a1e7e8, 0xd4ca64eb,
    0x8ad958cf, 0x78b2dbcc, 0x6be22838, 0x9989ab3b, 0x4d43cfd0, 0xbf284cd3, 0xac78bf27, 0x5e133c24,
    0x105ec76f, 0xe235446c, 0xf165b798, 0x030e349b, 0xd7c45070, 0x25afd373, 0x36ff2087, 0xc494a384,
    0x9a879fa0, 0x68ec1ca3, 0x7bbcef57, 0x89d76c54, 0x5d1d08bf, 0xaf768bbc, 0xbc267848, 0x4e4dfb4b,
    0x20bd8ede, 0xd2d60ddd, 0xc186fe29, 0x33ed7d2a, 0xe72719c1, 0x154c9ac2, 0x061c6936, 0xf477ea35,
    0xaa64d611, 0x580f5512, 0x4b5fa6e6, 0xb93425e5, 0x6dfe410e, 0x9f95c20d, 0x8cc531f9, 0x7eaeb2fa,
    0x30e349b1, 0xc288cab2, 0xd1d83946, 0x23b3ba45, 0xf779deae, 0x05125dad, 0x1642ae59, 0xe4292d5a,
    0xba3a117e, 0x4851927d, 0x5b016189, 0xa96ae28a, 0x7da08661, 0x8fcb0562, 0x9c9bf696, 0x6ef07595,
    0x417b1dbc, 0xb3109ebf, 0xa0406d4b, 0x522bee48, 0x86e18aa3, 0x748a09a0, 0x67dafa54, 0x95b17957,
    0xcba24573, 0x39c9c670, 0x2a993584, 0xd8f2b687, 0x0c38d26c, 0xfe53516f, 0xed03a29b, 0x1f682198,
    0x5125dad3, 0xa34e59d0, 0xb01eaa24, 0x42752927, 0x96bf4dcc, 0x64d4cecf, 0x77843d3b, 0x85efbe38,
    0xdbfc821c, 0x2997011f, 0x3ac7f2eb, 0xc8ac71e8, 0x1c661503, 0xee0d9600, 0xfd5d65f4, 0x0f36e6f7,
    0x61c69362, 0x93ad1061, 0x80fde395, 0x72966096, 0xa65c047d, 0x5437877e, 0x4767748a, 0xb50cf789,
    0xeb1fcbad, 0x197448ae, 0x0a24bb5a, 0xf84f3859, 0x2c855cb2, 0xdeeedfb1, 0xcdbe2c45, 0x3fd5af46,
    0x7198540d, 0x83f3d70e, 0x90a324fa, 0x62c8a7f9, 0xb602c312, 0x44694011, 0x5739b3e5, 0xa55230e6,
    0xfb410cc2, 0x092a8fc1, 0x1a7a7c35, 0xe811ff36, 0x3cdb9bdd, 0xceb018de, 0xdde0eb2a, 0x2f8b6829,
    0x82f63b78, 0x709db87b, 0x63cd4b8f, 0x91a6c88c, 0x456cac67, 0xb7072f64, 0xa457dc90, 0x563c5f93,
    0x082f63b7, 0xfa44e0b4, 0xe9141340, 0x1b7f9043, 0xcfb5f4a8, 0x3dde77ab, 0x2e8e845f, 0xdce5075c,
    0x92a8fc17, 0x60c37f14, 0x73938ce0, 0x81f80fe3, 0x55326b08, 0xa759e80b, 0xb4091bff, 0x466298fc,
    0x1871a4d8, 0xea1a27db, 0xf94ad42f, 0x0b21572c, 0xdfeb33c7, 0x2d80b0c4, 0x3ed04330, 0xccbbc033,
    0xa24bb5a6, 0x502036a5, 0x4370c551, 0xb11b4652, 0x65d122b9, 0x97baa1ba, 0x84ea524e, 0x7681d14d,
    0x2892ed69, 0xdaf96e6a, 0xc9a99d9e, 0x3bc21e9d, 0xef087a76, 0x1d63f975, 0x0e330a81, 0xfc588982,
    0xb21572c9, 0x407ef1ca, 0x532e023e, 0xa145813d, 0x758fe5d6, 0x87e466d5, 0x94b49521, 0x66df1622,
    0x38cc2a06, 0xcaa7a905, 0xd9f75af1, 0x2b9cd9f2, 0xff56bd19, 0x0d3d3e1a, 0x1e6dcdee, 0xec064eed,
    0xc38d26c4, 0x31e6a5c7, 0x22b65633, 0xd0ddd530, 0x0417b1db, 0xf67c32d8, 0xe52cc12c, 0x1747422f,
    0x49547e0b, 0xbb3ffd08, 0xa86f0efc, 0x5a048dff, 0x8ecee914, 0x7ca56a17, 0x6ff599e3, 0x9d9e1ae0,
    0xd3d3e1ab, 0x21b862a8, 0x32e8915c, 0xc083125f, 0x144976b4, 0xe622f5b7, 0xf5720643, 0x07198540,
    0x590ab964, 0xab613a67, 0xb831c993, 0x4a5a4a90, 0x9e902e7b, 0x6cfbad78, 0x7fab5e8c, 0x8dc0dd8f,
    0xe330a81a, 0x115b2b19, 0x020bd8ed, 0xf0605bee, 0x24aa3f05, 0xd6c1bc06, 0xc5914ff2, 0x37faccf1,
    0x69e9f0d5, 0x9b8273d6, 0x88d28022, 0x7ab90321, 0xae7367ca, 0x5c18e4c9, 0x4f48173d, 0xbd23943e,
    0xf36e6f75, 0x0105ec76, 0x12551f82, 0xe03e9c81, 0x34f4f86a, 0xc69f7b69, 0xd5cf889d, 0x27a40b9e,
    0x79b737ba, 0x8bdcb4b9, 0x988c474d, 0x6ae7c44e, 0xbe2da0a5, 0x4c4623a6, 0x5f16d052, 0xad7d5351]"


section \<open>The table-driven loops\<close>

text \<open>
  \<open>crcN_cyc_cal\<close> reads \<open>len\<close> bytes behind \<open>pdata\<close>; \<open>None\<close> is a read past the
  block the pointer belongs to.
\<close>

fun crc8_cyc_cal :: "u8 list \<Rightarrow> u8 \<Rightarrow> u8 list \<Rightarrow> nat \<Rightarrow> u8 option" where
  "crc8_cyc_cal tab crc pdata 0 = Some crc"
| "crc8_cyc_cal tab crc [] (Suc len) = None"
| "crc8_cyc_cal tab crc (b # pdata) (Suc len) =
     (let idx = crc XOR b in crc8_cyc_cal tab (tab ! unat idx) pdata len)"

fun crc16_cyc_cal :: "u16 list \<Rightarrow> u16 \<Rightarrow> u8 list \<Rightarrow> nat \<Rightarrow> u16 option" where
  "crc16_cyc_cal tab crc pdata 0 = Some crc"
| "crc16_cyc_cal tab crc [] (Suc len) = None"
| "crc16_cyc_cal tab crc (b # pdata) (Suc len) =
     (let idx = (ucast crc :: u8) XOR b
      in crc16_cyc_cal tab (drop_bit 8 crc XOR tab ! unat idx) pdata len)"

fun crc32_cyc_cal :: "u32 list \<Rightarrow> u32 \<Rightarrow> u8 list \<Rightarrow> nat \<Rightarrow> u32 option" where
  "crc32_cyc_cal tab crc pdata 0 = Some crc"
| "crc32_cyc_cal tab crc [] (Suc len) = None"
| "crc32_cyc_cal tab crc (b # pdata) (Suc len) =
     (let idx = (ucast crc :: u8) XOR b
      in crc32_cyc_cal tab (drop_bit 8 crc XOR tab ! unat idx) pdata len)"

definition CRC8_INIT_VAL :: u8 where "CRC8_INIT_VAL = 0xFF"
definition CRC16_INIT_VAL :: u16 where "CRC16_INIT_VAL = 0xFFFF"
definition CRC32_INIT_VAL :: u32 where "CRC32_INIT_VAL = 0xFFFFFFFF"

definition crc8_cal :: "u8 list \<Rightarrow> u8 list \<Rightarrow> nat \<Rightarrow> u8 option" where
  "crc8_cal tab pdata len =
     map_option (\<lambda>c. c XOR CRC8_INIT_VAL) (crc8_cyc_cal tab CRC8_INIT_VAL pdata len)"

definition crc16_cal :: "u16 list \<Rightarrow> u8 list \<Rightarrow> nat \<Rightarrow> u16 option" where
  "crc16_cal tab pdata len =
     map_option (\<lambda>c. c XOR CRC16_INIT_VAL) (crc16_cyc_cal tab CRC16_INIT_VAL pdata len)"

definition crc32_cal :: "u32 list \<Rightarrow> u8 list \<Rightarrow> nat \<Rightarrow> u32 option" where
  "crc32_cal tab pdata len =
     map_option (\<lambda>c. c XOR CRC32_INIT_VAL) (crc32_cyc_cal tab CRC32_INIT_VAL pdata len)"

section \<open>The bitwise reference\<close>

text \<open>The textbook algorithm: eight single-bit steps per message byte.\<close>

definition crc_byte :: "'a::len word \<Rightarrow> 'a word \<Rightarrow> u8 \<Rightarrow> 'a word" where
  "crc_byte poly c b = (crc_bit poly ^^ 8) (c XOR ucast b)"

definition crc_ref :: "'a::len word \<Rightarrow> 'a word \<Rightarrow> u8 list \<Rightarrow> 'a word" where
  "crc_ref poly = foldl (crc_byte poly)"

lemma crc_bit_xor: "crc_bit poly (x XOR y) = crc_bit poly x XOR crc_bit poly y"
  by (rule bit_eqI) (auto simp: crc_bit_def bit_simps)

lemma crc_bit_pow_xor:
  "(crc_bit poly ^^ n) (x XOR y) = (crc_bit poly ^^ n) x XOR (crc_bit poly ^^ n) y"
  by (induction n) (simp_all add: crc_bit_xor)

lemma crc_bit_pow_low_zero:
  "(\<And>i. i < n \<Longrightarrow> \<not> bit x i) \<Longrightarrow> (crc_bit poly ^^ n) x = drop_bit n x"
proof (induction n arbitrary: x)
  case 0
  then show ?case by simp
next
  case (Suc n)
  have b0: "\<not> bit x 0" using Suc.prems [of 0] by simp
  have "(crc_bit poly ^^ Suc n) x = (crc_bit poly ^^ n) (drop_bit 1 x)"
    using b0 by (simp add: funpow_swap1 crc_bit_def)
  also have "\<dots> = drop_bit n (drop_bit 1 x)"
    by (rule Suc.IH) (use Suc.prems in \<open>auto simp: bit_simps\<close>)
  finally show ?case by simp
qed

lemma crc_bit_inj:
  assumes top: "bit poly (LENGTH('a) - 1)"
  shows "inj (crc_bit (poly :: 'a::len word))"
proof (rule injI)
  fix x y :: "'a word"
  assume eq: "crc_bit poly x = crc_bit poly y"
  have hi: "bit (crc_bit poly z) (LENGTH('a) - 1) = bit z 0" for z
    using top by (auto simp: crc_bit_def bit_simps dest: bit_imp_le_length)
  have b0: "bit x 0 = bit y 0" using hi [of x] hi [of y] eq by simp
  then have "drop_bit 1 x = drop_bit 1 y"
    using eq by (auto simp: crc_bit_def split: if_splits)
  then have bits: "bit x (Suc n) = bit y (Suc n)" for n
    by (metis bit_drop_bit_eq o_apply plus_1_eq_Suc)
  show "x = y"
  proof (rule bit_eqI)
    fix n
    show "bit x n = bit y n" using b0 bits by (cases n) simp_all
  qed
qed

lemma crc_bit_pow_inj: "bit poly (LENGTH('a) - 1) \<Longrightarrow> inj (crc_bit (poly :: 'a::len word) ^^ n)"
  by (intro inj_fn crc_bit_inj)

section \<open>The tables are what the generator computes\<close>

text \<open>
  Eight bit steps are linear in the index, so a whole table follows from its eight entries
  at the powers of two: \<open>crc_chain\<close> lists these, \<open>crc_span\<close> doubles the table once per
  index bit.
\<close>

fun crc_span :: "'a::len word list \<Rightarrow> 'a word list \<Rightarrow> 'a word list" where
  "crc_span acc [] = acc"
| "crc_span acc (v # vs) = crc_span (acc @ map (\<lambda>x. x XOR v) acc) vs"

primrec crc_chain :: "'a::len word \<Rightarrow> nat \<Rightarrow> 'a word \<Rightarrow> 'a word list" where
  "crc_chain poly 0 c = []"
| "crc_chain poly (Suc n) c = crc_chain poly n (crc_bit poly c) @ [c]"

lemma crc_chain_8: "crc_chain poly 8 c =
  (let c1 = crc_bit poly c; c2 = crc_bit poly c1; c3 = crc_bit poly c2; c4 = crc_bit poly c3;
       c5 = crc_bit poly c4; c6 = crc_bit poly c5; c7 = crc_bit poly c6
   in [c7, c6, c5, c4, c3, c2, c1, c])"
  by (simp add: numeral_eq_Suc Let_def)

lemma crc_chain_map:
  "crc_chain poly n c = map (\<lambda>k. (crc_bit poly ^^ (n - Suc k)) c) [0..<n]"
proof (induction n arbitrary: c)
  case (Suc n)
  have "(crc_bit poly ^^ (n - Suc k)) (crc_bit poly c) = (crc_bit poly ^^ (n - k)) c" if "k < n" for k
  proof -
    have "n - k = Suc (n - Suc k)" using that by simp
    then show ?thesis by (simp add: funpow_swap1)
  qed
  then show ?case by (simp add: Suc)
qed simp

lemma crc_span_upt:
  assumes "\<And>j i. j < m \<Longrightarrow> i < 2 ^ j \<Longrightarrow> g (2 ^ j + i) = g i XOR b j" and "k \<le> m"
  shows "crc_span (map g [0..<2 ^ k]) (map b [k..<m]) = map g [0..<2 ^ m]"
  using assms(2)
proof (induction "m - k" arbitrary: k)
  case (Suc d)
  then have km: "k < m" by simp
  have up: "[0..<2 ^ Suc k] = [0..<2 ^ k] @ map ((+) (2 ^ k)) [0..<2 ^ k]"
    by (rule nth_equalityI) (auto simp: nth_append)
  have "map g [0..<2 ^ Suc k] = map g [0..<2 ^ k] @ map (\<lambda>x. x XOR b k) (map g [0..<2 ^ k])"
    unfolding up using assms(1) km by simp
  moreover have "crc_span (map g [0..<2 ^ Suc k]) (map b [Suc k..<m]) = map g [0..<2 ^ m]"
    using Suc.hyps km by (intro Suc.hyps(1)) simp_all
  ultimately show ?case unfolding upt_conv_Cons [OF km] list.map crc_span.simps by (simp only:)
qed simp

lemma word_of_nat_disjoint:
  assumes "i < 2 ^ k"
  shows "(word_of_nat (2 ^ k + i) :: 'a::len word) = word_of_nat i XOR push_bit k 1"
proof -
  have "(word_of_nat i :: 'a word) AND push_bit k 1 = 0"
  proof (rule bit_word_eqI)
    fix n
    have "\<not> bit i k" using assms by (simp add: bit_iff_odd)
    then show "bit ((word_of_nat i :: 'a word) AND push_bit k 1) n = bit (0 :: 'a word) n"
      by (auto simp: bit_simps simp del: push_bit_of_1)
  qed
  then show ?thesis by (simp flip: disjunctive_add_eq_xor)
qed

lemma crc_pow_unit:
  fixes poly :: "'a::len word"
  assumes "k < 8" "8 \<le> LENGTH('a)"
  shows "(crc_bit poly ^^ 8) (push_bit k 1) = (crc_bit poly ^^ (8 - Suc k)) poly"
proof -
  have sh: "(crc_bit poly ^^ k) (push_bit k 1) = drop_bit k (push_bit k 1)"
    by (rule crc_bit_pow_low_zero) (auto simp: bit_simps)
  also have "\<dots> = 1"
    using assms by (intro bit_word_eqI) (auto simp: bit_simps)
  finally have "(crc_bit poly ^^ Suc k) (push_bit k 1) = poly"
    by (simp add: crc_bit_def)
  moreover have "crc_bit poly ^^ 8 = crc_bit poly ^^ (8 - Suc k) \<circ> crc_bit poly ^^ Suc k"
    using assms by (simp only: flip: funpow_add) simp
  ultimately show ?thesis by (simp only: o_apply)
qed

lemma crc_table_linear:
  fixes poly :: "'a::len word"
  assumes "8 \<le> LENGTH('a)"
  shows "map (\<lambda>i. (crc_bit poly ^^ 8) (word_of_nat i)) [0..<256]
    = crc_span [0] (crc_chain poly 8 poly)"
proof -
  let ?g = "\<lambda>i. (crc_bit poly ^^ 8) (word_of_nat i)"
  let ?b = "\<lambda>k. (crc_bit poly ^^ (8 - Suc k)) poly"
  have "crc_span (map ?g [0..<2 ^ 0]) (map ?b [0..<8]) = map ?g [0..<2 ^ 8]"
  proof (rule crc_span_upt)
    fix j i :: nat assume "j < 8" "i < 2 ^ j"
    then show "?g (2 ^ j + i) = ?g i XOR ?b j"
      by (simp only: word_of_nat_disjoint crc_bit_pow_xor crc_pow_unit [OF _ assms])
  qed simp
  moreover have "?g 0 = 0"
    by (subst crc_bit_pow_low_zero) simp_all
  ultimately show ?thesis by (simp add: crc_chain_map)
qed


text \<open>The bytes of a short message as one word, first byte lowest.\<close>

fun le_word :: "u8 list \<Rightarrow> 'a::len word" where
  "le_word [] = 0"
| "le_word (b # bs) = ucast b XOR push_bit 8 (le_word bs)"

lemma le_word_bits: "bit (le_word m :: 'a::len word) n \<Longrightarrow> n < 8 * length m"
proof (induction m arbitrary: n)
  case (Cons b m)
  from Cons.prems have "bit b n \<or> 8 \<le> n \<and> bit (le_word m :: 'a word) (n - 8)"
    by (auto simp: bit_simps)
  then show ?case using Cons.IH [of "n - 8"] bit_u8_less [of b n] by auto
qed simp

lemma le_word_inj:
  "\<lbrakk>length x = length y; 8 * length x \<le> LENGTH('a); le_word x = (le_word y :: 'a::len word)\<rbrakk> \<Longrightarrow> x = y"
proof (induction x y rule: list_induct2)
  case (Cons a x b y)
  have eq: "bit (le_word (a # x) :: 'a word) n = bit (le_word (b # y) :: 'a word) n" for n
    using Cons.prems(2) by simp
  have "a = b"
  proof (rule bit_word_eqI)
    fix n assume "n < LENGTH(8)"
    then show "bit a n = bit b n" using eq [of n] Cons.prems(1) by (simp add: bit_simps)
  qed
  moreover have "(le_word x :: 'a word) = le_word y"
  proof (rule bit_eqI)
    fix n
    show "bit (le_word x :: 'a word) n = bit (le_word y :: 'a word) n"
    proof (cases "n + 8 < LENGTH('a)")
      case True
      then show ?thesis using eq [of "n + 8"] \<open>a = b\<close> by (auto simp: bit_simps)
    next
      case False
      then show ?thesis using Cons.prems(1) Cons.hyps le_word_bits [of x n] le_word_bits [of y n] by auto
    qed
  qed
  ultimately show ?case using Cons by simp
qed simp

section \<open>The contract of a CRC table\<close>

text \<open>
  What the loops rely on: entry \<open>i\<close> of the table is eight bit steps from \<open>i\<close>, the
  polynomial is normalised (its top bit is set), and a table index fits the width.
\<close>

locale crc_table =
  fixes tab :: "'a::len word list" and poly :: "'a word"
  assumes tab_nth: "i < 256 \<Longrightarrow> tab ! i = (crc_bit poly ^^ 8) (word_of_nat i)"
    and poly_top: "bit poly (LENGTH('a) - 1)"
    and width: "8 \<le> LENGTH('a)"
begin

lemma index_step:
  "drop_bit 8 c XOR tab ! unat ((ucast c :: u8) XOR b) = crc_byte poly c b"
proof -
  let ?x = "c XOR ucast b :: 'a word" and ?i = "(ucast c :: u8) XOR b"
  let ?f = "crc_bit poly ^^ 8"
  have hi: "drop_bit 8 ?x = drop_bit 8 c"
    by (rule bit_eqI) (auto simp: bit_simps dest: bit_imp_le_length)
  have lo: "?x AND mask 8 = ucast ?i"
    using width by (intro bit_word_eqI) (auto simp: bit_simps dest: bit_u8_less)
  have idx: "word_of_nat (unat ?i) = (ucast ?i :: 'a word)"
    by (rule of_nat_unat)
  have "crc_byte poly c b = ?f (push_bit 8 (drop_bit 8 ?x) XOR (?x AND mask 8))"
    unfolding crc_byte_def by (subst word_split_low [of ?x 8]) (rule refl)
  also have "\<dots> = ?f (push_bit 8 (drop_bit 8 ?x)) XOR ?f (?x AND mask 8)"
    by (rule crc_bit_pow_xor)
  also have "?f (push_bit 8 (drop_bit 8 ?x)) = drop_bit 8 (push_bit 8 (drop_bit 8 ?x))"
    by (rule crc_bit_pow_low_zero) (auto simp: bit_simps)
  also have "drop_bit 8 (push_bit 8 (drop_bit 8 ?x)) = drop_bit 8 c"
    unfolding hi by (rule bit_word_eqI) (auto simp: bit_simps dest: bit_imp_le_length)
  also have "?f (?x AND mask 8) = tab ! unat ?i"
    by (simp only: lo idx [symmetric] tab_nth [OF unat_ucast_u8_less])
  finally show ?thesis by (rule sym)
qed

lemma byte_inj_crc: "crc_byte poly c b = crc_byte poly c' b \<Longrightarrow> c = c'"
  unfolding crc_byte_def by (drule injD [OF crc_bit_pow_inj [OF poly_top]]) simp

lemma ref_inj: "crc_ref poly c m = crc_ref poly c' m \<Longrightarrow> c = c'"
  by (induction m arbitrary: c c') (auto simp: crc_ref_def dest: byte_inj_crc)

lemma byte_inj_data:
  assumes "crc_byte poly c b = crc_byte poly c b'"
  shows "b = b'"
proof -
  have "c XOR ucast b = c XOR ucast b'"
    using assms unfolding crc_byte_def by (rule injD [OF crc_bit_pow_inj [OF poly_top]])
  then show ?thesis using ucast_u8_inj [OF width] by simp
qed

lemma ref_word:
  "8 * length m \<le> LENGTH('a) \<Longrightarrow>
    crc_ref poly c m = (crc_bit poly ^^ (8 * length m)) (c XOR le_word m)"
proof (induction m arbitrary: c)
  case Nil
  then show ?case by (simp add: crc_ref_def)
next
  case (Cons b m)
  let ?f = "crc_bit poly"
  have len: "8 * length m \<le> LENGTH('a)" using Cons.prems by simp
  have sh: "(?f ^^ 8) (push_bit 8 (le_word m)) = le_word m"
  proof -
    have "(?f ^^ 8) (push_bit 8 (le_word m)) = drop_bit 8 (push_bit 8 (le_word m))"
      by (rule crc_bit_pow_low_zero) (auto simp: bit_simps)
    also have "\<dots> = le_word m"
      using Cons.prems
      by (intro bit_word_eqI) (auto simp: bit_simps dest: bit_imp_le_length le_word_bits)
    finally show ?thesis .
  qed
  have "crc_ref poly c (b # m) = crc_ref poly (crc_byte poly c b) m"
    by (simp add: crc_ref_def)
  also have "\<dots> = (?f ^^ (8 * length m)) ((?f ^^ 8) (c XOR ucast b) XOR (?f ^^ 8) (push_bit 8 (le_word m)))"
    unfolding Cons.IH [OF len] crc_byte_def sh ..
  also have "\<dots> = (?f ^^ (8 * length m)) ((?f ^^ 8) (c XOR le_word (b # m)))"
    by (simp only: crc_bit_pow_xor [symmetric] le_word.simps xor.assoc)
  also have "\<dots> = (?f ^^ (8 * length (b # m))) (c XOR le_word (b # m))"
  proof -
    have "8 * length (b # m) = 8 * length m + 8" by simp
    then show ?thesis by (simp only: funpow_add o_apply)
  qed
  finally show ?case .
qed

lemma detect_burst:
  assumes "length x = length y" "8 * length x \<le> LENGTH('a)" "x \<noteq> y"
  shows "crc_ref poly c (p @ x @ s) \<noteq> crc_ref poly c (p @ y @ s)"
proof
  let ?c = "crc_ref poly c p"
  assume "crc_ref poly c (p @ x @ s) = crc_ref poly c (p @ y @ s)"
  then have "crc_ref poly (crc_ref poly ?c x) s = crc_ref poly (crc_ref poly ?c y) s"
    by (simp add: crc_ref_def)
  then have "crc_ref poly ?c x = crc_ref poly ?c y" by (rule ref_inj)
  then have "?c XOR le_word x = ?c XOR (le_word y :: 'a word)"
    using assms(1,2) injD [OF crc_bit_pow_inj [OF poly_top]] by (metis ref_word)
  then have "(le_word x :: 'a word) = le_word y" by simp
  with assms show False by (metis le_word_inj)
qed

end

section \<open>The loops are the bitwise CRC\<close>


text \<open>Each constant table is what the generator computes for its polynomial.\<close>

lemma crc8_table_8C_init: "crc8_table_8C = crc8_table_init 0x8C"
  by (simp add: crc8_table_init_def crc_table_linear crc_chain_8 crc_bit_def crc8_table_8C_def)

interpretation crc8_8C: crc_table crc8_table_8C "0x8C"
  by unfold_locales (simp_all add: crc8_table_8C_init crc8_table_init_def)

lemma crc8_table_D9_init: "crc8_table_D9 = crc8_table_init 0xD9"
  by (simp add: crc8_table_init_def crc_table_linear crc_chain_8 crc_bit_def crc8_table_D9_def)

interpretation crc8_D9: crc_table crc8_table_D9 "0xD9"
  by unfold_locales (simp_all add: crc8_table_D9_init crc8_table_init_def)

lemma crc16_table_A001_init: "crc16_table_A001 = crc16_table_init 0xA001"
  by (simp add: crc16_table_init_def crc_table_linear crc_chain_8 crc_bit_def crc16_table_A001_def)

interpretation crc16_A001: crc_table crc16_table_A001 "0xA001"
  by unfold_locales (simp_all add: crc16_table_A001_init crc16_table_init_def)

lemma crc16_table_8408_init: "crc16_table_8408 = crc16_table_init 0x8408"
  by (simp add: crc16_table_init_def crc_table_linear crc_chain_8 crc_bit_def crc16_table_8408_def)

interpretation crc16_8408: crc_table crc16_table_8408 "0x8408"
  by unfold_locales (simp_all add: crc16_table_8408_init crc16_table_init_def)

lemma crc32_table_EDB88320_init: "crc32_table_EDB88320 = crc32_table_init 0xEDB88320"
  by (simp add: crc32_table_init_def crc_table_linear crc_chain_8 crc_bit_def crc32_table_EDB88320_def)

interpretation crc32_EDB88320: crc_table crc32_table_EDB88320 "0xEDB88320"
  by unfold_locales (simp_all add: crc32_table_EDB88320_init crc32_table_init_def)

lemma crc32_table_82F63B78_init: "crc32_table_82F63B78 = crc32_table_init 0x82F63B78"
  by (simp add: crc32_table_init_def crc_table_linear crc_chain_8 crc_bit_def crc32_table_82F63B78_def)

interpretation crc32_82F63B78: crc_table crc32_table_82F63B78 "0x82F63B78"
  by unfold_locales (simp_all add: crc32_table_82F63B78_init crc32_table_init_def)

text \<open>
  Under the table's contract the byte loop computes the bitwise CRC of the bytes it reads and
  reads none past the block when the caller's length is right.
\<close>

lemma crc8_cyc_cal_ref:
  "crc_table tab poly \<Longrightarrow> crc8_cyc_cal tab crc pdata len =
    (if len \<le> length pdata then Some (crc_ref poly crc (take len pdata)) else None)"
proof (induction tab crc pdata len rule: crc8_cyc_cal.induct)
  case (3 tab crc b pdata len)
  have "drop_bit 8 crc = 0" by (rule bit_word_eqI) (auto simp: bit_simps dest: bit_u8_less)
  then have "tab ! unat (crc XOR b) = crc_byte poly crc b"
    using crc_table.index_step [OF "3.prems", of crc b] by simp
  then show ?case using 3 by (simp add: crc_ref_def)
qed (simp_all add: crc_ref_def)

lemma crc16_cyc_cal_ref:
  "crc_table tab poly \<Longrightarrow> crc16_cyc_cal tab crc pdata len =
    (if len \<le> length pdata then Some (crc_ref poly crc (take len pdata)) else None)"
proof (induction tab crc pdata len rule: crc16_cyc_cal.induct)
  case (3 tab crc b pdata len)
  then show ?case by (simp add: crc_ref_def crc_table.index_step)
qed (simp_all add: crc_ref_def)

lemma crc32_cyc_cal_ref:
  "crc_table tab poly \<Longrightarrow> crc32_cyc_cal tab crc pdata len =
    (if len \<le> length pdata then Some (crc_ref poly crc (take len pdata)) else None)"
proof (induction tab crc pdata len rule: crc32_cyc_cal.induct)
  case (3 tab crc b pdata len)
  then show ?case by (simp add: crc_ref_def crc_table.index_step)
qed (simp_all add: crc_ref_def)

lemma crc_ref_append: "crc_ref poly c (a @ b) = crc_ref poly (crc_ref poly c a) b"
  by (simp add: crc_ref_def)

lemmas crc_tables_ok = crc8_8C.crc_table_axioms crc8_D9.crc_table_axioms
  crc16_A001.crc_table_axioms crc16_8408.crc_table_axioms
  crc32_EDB88320.crc_table_axioms crc32_82F63B78.crc_table_axioms

section \<open>The checksums of the library\<close>

text \<open>All six constant tables of the library are entry by entry what the table generators
  compute for their polynomials, so a build with \<^verbatim>\<open>CRCn_USING_CONST_TABLE\<close> and one without
  compute the same checksums.\<close>

theorem crc_const_tables_generated:
  "crc8_table_8C = crc8_table_init 0x8C \<and> crc8_table_D9 = crc8_table_init 0xD9 \<and>
   crc16_table_A001 = crc16_table_init 0xA001 \<and> crc16_table_8408 = crc16_table_init 0x8408 \<and>
   crc32_table_EDB88320 = crc32_table_init 0xEDB88320 \<and>
   crc32_table_82F63B78 = crc32_table_init 0x82F63B78"
  by (intro conjI crc8_table_8C_init crc8_table_D9_init crc16_table_A001_init
      crc16_table_8408_init crc32_table_EDB88320_init crc32_table_82F63B78_init)

text \<open>C28: The one-shot table-driven checksums are the bitwise (polynomial division) CRC of the
  first \<open>len\<close> bytes for every block of at least that size, and read out of bounds exactly when
  the block is shorter.\<close>

theorem crc_cal_is_bitwise:
  "crc8_cal crc8_table_8C d n = (if n \<le> length d
     then Some (crc_ref 0x8C 0xFF (take n d) XOR 0xFF) else None) \<and>
   crc16_cal crc16_table_A001 d n = (if n \<le> length d
     then Some (crc_ref 0xA001 0xFFFF (take n d) XOR 0xFFFF) else None) \<and>
   crc32_cal crc32_table_EDB88320 d n = (if n \<le> length d
     then Some (crc_ref 0xEDB88320 0xFFFFFFFF (take n d) XOR 0xFFFFFFFF) else None)"
  by (simp add: crc8_cal_def crc16_cal_def crc32_cal_def CRC8_INIT_VAL_def CRC16_INIT_VAL_def
      CRC32_INIT_VAL_def crc8_cyc_cal_ref [OF crc8_8C.crc_table_axioms]
      crc16_cyc_cal_ref [OF crc16_A001.crc_table_axioms]
      crc32_cyc_cal_ref [OF crc32_EDB88320.crc_table_axioms])

text \<open>Error detection.  Two messages of equal length that differ only inside a window of at
  most two bytes have different CRC-16 checksums, and of at most four bytes different CRC-32
  checksums: no such burst of transmission errors goes unnoticed.\<close>

theorem crc_burst_detected:
  assumes "length x = length y" "x \<noteq> y"
    and "n = length p + length x + length s"
  shows "(length x \<le> 2 \<longrightarrow> crc16_cal crc16_table_A001 (p @ x @ s) n
            \<noteq> crc16_cal crc16_table_A001 (p @ y @ s) n) \<and>
         (length x \<le> 4 \<longrightarrow> crc32_cal crc32_table_EDB88320 (p @ x @ s) n
            \<noteq> crc32_cal crc32_table_EDB88320 (p @ y @ s) n)"
  using assms crc16_A001.detect_burst [of x y "0xFFFF" p s]
    crc32_EDB88320.detect_burst [of x y "0xFFFFFFFF" p s]
  by (auto simp: crc16_cal_def crc32_cal_def CRC16_INIT_VAL_def CRC32_INIT_VAL_def
      crc16_cyc_cal_ref [OF crc16_A001.crc_table_axioms]
      crc32_cyc_cal_ref [OF crc32_EDB88320.crc_table_axioms])

theorem crc_burst_detected_witness:
  "crc16_cal crc16_table_A001 [1, 0, 1, 4] 4 \<noteq> crc16_cal crc16_table_A001 [1, 1, 0, 4] 4"
  using crc_burst_detected [of "[0, 1]" "[1, 0]" 4 "[1]" "[4]"] by simp

end
