(* ===== verification/Fifo.thy ===== *)
theory Fifo
  imports Prelude
begin

text \<open>
  The contract the queues of the firmware share.  \<open>block_fifo\<close> is a bounded queue with block
  transfers, \<open>fifo\<close> one with single elements; the first gives the second (a sublocale).  The
  operations return \<open>None\<close> for a memory error, which the contracts exclude.  The lemmas of
  both locales are about whole histories: what was delivered, followed by what is still
  queued, is what was queued before, followed by what was accepted.
\<close>

section \<open>Histories\<close>

datatype 'e fifo_op = Put 'e | Get

fun fifo_run :: "('s \<Rightarrow> 'e \<Rightarrow> ('s \<times> bool) option) \<Rightarrow> ('s \<Rightarrow> ('s \<times> 'e option) option) \<Rightarrow>
    's \<Rightarrow> 'e fifo_op list \<Rightarrow> ('s \<times> 'e list \<times> 'e list) option" where
  "fifo_run put get s [] = Some (s, [], [])"
| "fifo_run put get s (Put x # ops) = do {
     (s', ok) \<leftarrow> put s x;
     (s'', acc, del) \<leftarrow> fifo_run put get s' ops;
     Some (s'', (if ok then x # acc else acc), del)
   }"
| "fifo_run put get s (Get # ops) = do {
     (s', r) \<leftarrow> get s;
     (s'', acc, del) \<leftarrow> fifo_run put get s' ops;
     Some (s'', acc, (case r of Some x \<Rightarrow> x # del | None \<Rightarrow> del))
   }"

datatype 'e block_op = PutBlock "'e list" | GetBlock nat

fun block_run :: "('s \<Rightarrow> 'e list \<Rightarrow> ('s \<times> nat) option) \<Rightarrow> ('s \<Rightarrow> nat \<Rightarrow> ('s \<times> 'e list) option) \<Rightarrow>
    's \<Rightarrow> 'e block_op list \<Rightarrow> ('s \<times> 'e list \<times> 'e list) option" where
  "block_run put get s [] = Some (s, [], [])"
| "block_run put get s (PutBlock xs # ops) = do {
     (s', n) \<leftarrow> put s xs;
     (s'', acc, del) \<leftarrow> block_run put get s' ops;
     Some (s'', take n xs @ acc, del)
   }"
| "block_run put get s (GetBlock n # ops) = do {
     (s', xs) \<leftarrow> get s n;
     (s'', acc, del) \<leftarrow> block_run put get s' ops;
     Some (s'', acc, xs @ del)
   }"

section \<open>The contracts\<close>

locale fifo =
  fixes inv :: "'s \<Rightarrow> bool" and cont :: "'s \<Rightarrow> 'e list" and cap :: "'s \<Rightarrow> nat"
    and put :: "'s \<Rightarrow> 'e \<Rightarrow> ('s \<times> bool) option" and get :: "'s \<Rightarrow> ('s \<times> 'e option) option"
  assumes bounded: "inv s \<Longrightarrow> length (cont s) \<le> cap s"
    and put_room: "\<lbrakk>inv s; length (cont s) < cap s\<rbrakk> \<Longrightarrow>
      \<exists>s'. put s x = Some (s', True) \<and> inv s' \<and> cont s' = cont s @ [x] \<and> cap s' = cap s"
    and put_full: "\<lbrakk>inv s; length (cont s) = cap s\<rbrakk> \<Longrightarrow>
      \<exists>s'. put s x = Some (s', False) \<and> inv s' \<and> cont s' = cont s \<and> cap s' = cap s"
    and get_some: "\<lbrakk>inv s; cont s = x # xs\<rbrakk> \<Longrightarrow>
      \<exists>s'. get s = Some (s', Some x) \<and> inv s' \<and> cont s' = xs \<and> cap s' = cap s"
    and get_none: "\<lbrakk>inv s; cont s = []\<rbrakk> \<Longrightarrow>
      \<exists>s'. get s = Some (s', None) \<and> inv s' \<and> cont s' = [] \<and> cap s' = cap s"
begin

lemma put_cases:
  assumes "inv s"
  obtains s' ok where "put s x = Some (s', ok)" "inv s'" "cap s' = cap s"
    "cont s' = cont s @ (if ok then [x] else [])" "ok \<longleftrightarrow> length (cont s) < cap s"
proof (cases "length (cont s) < cap s")
  case True
  then show ?thesis using put_room [OF assms True, of x] that [of _ True] by auto
next
  case False
  then have "length (cont s) = cap s" using bounded [OF assms] by simp
  then show ?thesis using put_full [OF assms, of x] that [of _ False] by auto
qed

lemma get_cases:
  assumes "inv s"
  obtains s' r where "get s = Some (s', r)" "inv s'" "cap s' = cap s"
    "cont s = (case r of None \<Rightarrow> [] | Some x \<Rightarrow> [x]) @ cont s'" "r = None \<longleftrightarrow> cont s = []"
proof (cases "cont s")
  case Nil
  then show ?thesis using get_none [OF assms Nil] that [of _ None] by auto
next
  case (Cons x xs)
  then show ?thesis using get_some [OF assms Cons] that [of _ "Some x"] by auto
qed

lemma run_history:
  "inv s \<Longrightarrow> \<exists>s' acc del. fifo_run put get s ops = Some (s', acc, del) \<and> inv s' \<and> cap s' = cap s \<and>
     cont s @ acc = del @ cont s'"
proof (induction ops arbitrary: s)
  case (Cons op ops)
  show ?case
  proof (cases op)
    case (Put x)
    obtain s1 ok where p: "put s x = Some (s1, ok)" "inv s1" "cap s1 = cap s"
      "cont s1 = cont s @ (if ok then [x] else [])"
      using put_cases [OF Cons.prems] by metis
    obtain s2 acc del where "fifo_run put get s1 ops = Some (s2, acc, del)" "inv s2" "cap s2 = cap s1"
      "cont s1 @ acc = del @ cont s2"
      using Cons.IH [OF p(2)] by blast
    with p show ?thesis by (cases ok) (simp_all add: Put)
  next
    case Get
    obtain s1 r where g: "get s = Some (s1, r)" "inv s1" "cap s1 = cap s"
      "cont s = (case r of None \<Rightarrow> [] | Some x \<Rightarrow> [x]) @ cont s1"
      using get_cases [OF Cons.prems] by metis
    obtain s2 acc del where "fifo_run put get s1 ops = Some (s2, acc, del)" "inv s2" "cap s2 = cap s1"
      "cont s1 @ acc = del @ cont s2"
      using Cons.IH [OF g(2)] by blast
    with g show ?thesis by (cases r) (simp_all add: Get)
  qed
qed simp

end

locale block_fifo =
  fixes inv :: "'s \<Rightarrow> bool" and cont :: "'s \<Rightarrow> 'e list" and cap :: "'s \<Rightarrow> nat"
    and put :: "'s \<Rightarrow> 'e list \<Rightarrow> ('s \<times> nat) option" and get :: "'s \<Rightarrow> nat \<Rightarrow> ('s \<times> 'e list) option"
  assumes block_bounded: "inv s \<Longrightarrow> length (cont s) \<le> cap s"
    and put_block: "\<lbrakk>inv s; n = min (length xs) (cap s - length (cont s))\<rbrakk> \<Longrightarrow>
      \<exists>s'. put s xs = Some (s', n) \<and> inv s' \<and> cont s' = cont s @ take n xs \<and> cap s' = cap s"
    and get_block: "inv s \<Longrightarrow>
      \<exists>s'. get s n = Some (s', take n (cont s)) \<and> inv s' \<and> cont s' = drop n (cont s) \<and> cap s' = cap s"
begin

lemma block_history:
  "inv s \<Longrightarrow> \<exists>s' acc del. block_run put get s ops = Some (s', acc, del) \<and> inv s' \<and> cap s' = cap s \<and>
     cont s @ acc = del @ cont s'"
proof (induction ops arbitrary: s)
  case (Cons op ops)
  show ?case
  proof (cases op)
    case (PutBlock xs)
    obtain s1 n where p: "put s xs = Some (s1, n)" "inv s1" "cap s1 = cap s"
      "cont s1 = cont s @ take n xs"
      using put_block [OF Cons.prems refl] by blast
    obtain s2 acc del where "block_run put get s1 ops = Some (s2, acc, del)" "inv s2" "cap s2 = cap s1"
      "cont s1 @ acc = del @ cont s2"
      using Cons.IH [OF p(2)] by blast
    with p show ?thesis by (simp add: PutBlock)
  next
    case (GetBlock n)
    obtain s1 where g: "get s n = Some (s1, take n (cont s))" "inv s1" "cap s1 = cap s"
      "cont s1 = drop n (cont s)"
      using get_block [OF Cons.prems] by blast
    obtain s2 acc del where r: "block_run put get s1 ops = Some (s2, acc, del)" "inv s2" "cap s2 = cap s1"
      "cont s1 @ acc = del @ cont s2"
      using Cons.IH [OF g(2)] by blast
    have "cont s @ acc = take n (cont s) @ cont s1 @ acc" by (simp add: g(4))
    with g r show ?thesis by (simp add: GetBlock)
  qed
qed simp

lemma put_get:
  assumes "inv s" "length (cont s) + length xs \<le> cap s"
  shows "\<exists>s' s''. put s xs = Some (s', length xs) \<and>
    get s' (length (cont s) + length xs) = Some (s'', cont s @ xs) \<and> cont s'' = []"
proof -
  obtain s' where p: "put s xs = Some (s', length xs)" "inv s'" "cont s' = cont s @ xs"
    using put_block [OF assms(1), of "length xs" xs] assms(2) by auto
  with get_block [OF p(2), of "length (cont s) + length xs"] show ?thesis by auto
qed

end

text \<open>A block queue is a queue: transfer one element at a time.\<close>

definition single_put :: "('s \<Rightarrow> 'e list \<Rightarrow> ('s \<times> nat) option) \<Rightarrow> 's \<Rightarrow> 'e \<Rightarrow> ('s \<times> bool) option" where
  "single_put put s x = map_option (\<lambda>(s', n). (s', n = 1)) (put s [x])"

definition single_get :: "('s \<Rightarrow> nat \<Rightarrow> ('s \<times> 'e list) option) \<Rightarrow> 's \<Rightarrow> ('s \<times> 'e option) option" where
  "single_get get s = map_option (\<lambda>(s', xs). (s', case xs of [] \<Rightarrow> None | x # _ \<Rightarrow> Some x)) (get s 1)"

sublocale block_fifo \<subseteq> single: fifo inv cont cap "single_put put" "single_get get"
proof
  fix s x xs
  assume i: "inv s"
  show "length (cont s) \<le> cap s" by (rule block_bounded [OF i])
  show "\<exists>s'. single_put put s x = Some (s', True) \<and> inv s' \<and> cont s' = cont s @ [x] \<and> cap s' = cap s"
    if "length (cont s) < cap s"
    using put_block [OF i, of 1 "[x]"] that by (auto simp: single_put_def)
  show "\<exists>s'. single_put put s x = Some (s', False) \<and> inv s' \<and> cont s' = cont s \<and> cap s' = cap s"
    if "length (cont s) = cap s"
    using put_block [OF i, of 0 "[x]"] that by (auto simp: single_put_def)
  show "\<exists>s'. single_get get s = Some (s', Some x) \<and> inv s' \<and> cont s' = xs \<and> cap s' = cap s"
    if "cont s = x # xs"
    using get_block [OF i, of 1] that by (auto simp: single_get_def)
  show "\<exists>s'. single_get get s = Some (s', None) \<and> inv s' \<and> cont s' = [] \<and> cap s' = cap s"
    if "cont s = []"
    using get_block [OF i, of 1] that by (auto simp: single_get_def)
qed

end
