(* ===== verification/Ringbuffer.thy ===== *)
theory Ringbuffer
  imports Fifo
begin

text \<open>
  The byte ring buffer of \<^verbatim>\<open>rt-thread/components/drivers/src/ringbuffer.c\<close>, used by the serial
  framework under every UART of the charging pile.  Indices are 15-bit fields beside a
  one-bit mirror flag; equal indices mean empty when the mirrors agree and full when they
  differ.  The model keeps the fields at their width, the C integer arithmetic of each
  expression, and the bounds of every \<^verbatim>\<open>memcpy\<close>.  A length argument stands for the value of the
  \<^verbatim>\<open>rt_uint16_t\<close> parameter, so a block that is handed over has fewer than 65536 bytes.  The operations are shown to be memory safe and
  to refine a bounded first-in first-out byte queue (locale \<open>block_fifo\<close>).
\<close>

section \<open>State\<close>

record rt_ringbuffer =
  buffer_ptr :: "u8 list"
  read_mirror :: bool
  read_index :: nat
  write_mirror :: bool
  write_index :: nat
  buffer_size :: int

datatype rt_ringbuffer_state = RT_RINGBUFFER_EMPTY | RT_RINGBUFFER_FULL | RT_RINGBUFFER_HALFFULL

text \<open>Stores into a 15-bit field, into \<^verbatim>\<open>rt_uint16_t\<close> and into \<^verbatim>\<open>rt_size_t\<close>.\<close>

definition bf15 :: "int \<Rightarrow> nat" where "bf15 x = nat (x mod 2 ^ 15)"
definition to_u16 :: "int \<Rightarrow> nat" where "to_u16 x = nat (x mod 2 ^ 16)"

definition to_size :: "int \<Rightarrow> nat" where "to_size x = nat (x mod 2 ^ 32)"

text \<open>\<open>buffer_ptr[i] = ch\<close> and \<open>buffer_ptr[i]\<close>; \<open>None\<close> outside the pool.\<close>

definition store_byte :: "u8 list \<Rightarrow> nat \<Rightarrow> u8 \<Rightarrow> u8 list option" where
  "store_byte buf i ch = (if i < length buf then Some (buf[i := ch]) else None)"

definition load_byte :: "u8 list \<Rightarrow> nat \<Rightarrow> u8 option" where
  "load_byte buf i = (if i < length buf then Some (buf ! i) else None)"

section \<open>Operations\<close>

definition rt_ringbuffer_status :: "rt_ringbuffer \<Rightarrow> rt_ringbuffer_state" where
  "rt_ringbuffer_status rb =
     (if read_index rb = write_index rb
      then (if read_mirror rb = write_mirror rb then RT_RINGBUFFER_EMPTY else RT_RINGBUFFER_FULL)
      else RT_RINGBUFFER_HALFFULL)"

text \<open>\<open>sz\<close> is the \<^verbatim>\<open>rt_int16_t\<close> argument; \<^verbatim>\<open>RT_ALIGN_DOWN\<close> clears its two low bits.\<close>

definition rt_ringbuffer_init :: "u8 list \<Rightarrow> int \<Rightarrow> rt_ringbuffer" where
  "rt_ringbuffer_init pool sz =
     \<lparr>buffer_ptr = pool, read_mirror = False, read_index = 0, write_mirror = False,
      write_index = 0, buffer_size = sz - sz mod 4\<rparr>"

definition rt_ringbuffer_data_len :: "rt_ringbuffer \<Rightarrow> nat" where
  "rt_ringbuffer_data_len rb =
     (case rt_ringbuffer_status rb of
        RT_RINGBUFFER_EMPTY \<Rightarrow> 0
      | RT_RINGBUFFER_FULL \<Rightarrow> to_size (buffer_size rb)
      | RT_RINGBUFFER_HALFFULL \<Rightarrow>
          (if write_index rb > read_index rb
           then to_size (int (write_index rb) - int (read_index rb))
           else to_size (buffer_size rb - (int (read_index rb) - int (write_index rb)))))"

definition rt_ringbuffer_space_len :: "rt_ringbuffer \<Rightarrow> nat" where
  "rt_ringbuffer_space_len rb = to_size (buffer_size rb - int (rt_ringbuffer_data_len rb))"

definition rt_ringbuffer_get_size :: "rt_ringbuffer \<Rightarrow> nat" where
  "rt_ringbuffer_get_size rb = to_u16 (buffer_size rb)"

definition rt_ringbuffer_put :: "rt_ringbuffer \<Rightarrow> u8 list \<Rightarrow> nat \<Rightarrow> (rt_ringbuffer \<times> nat) option" where
  "rt_ringbuffer_put rb ptr len0 =
     (let size = to_u16 (int (rt_ringbuffer_space_len rb)) in
      if size = 0 then Some (rb, 0)
      else
        let len = (if size < len0 then size else len0);
            w = int (write_index rb);
            room = buffer_size rb - w
        in if room > int len
           then do {
             buf \<leftarrow> memcpy (buffer_ptr rb) w ptr 0 (int len);
             Some (rb\<lparr>buffer_ptr := buf, write_index := bf15 (w + int len)\<rparr>, len)
           }
           else do {
             buf \<leftarrow> memcpy (buffer_ptr rb) w ptr 0 room;
             buf' \<leftarrow> memcpy buf 0 ptr room (int len - room);
             Some (rb\<lparr>buffer_ptr := buf', write_mirror := \<not> write_mirror rb,
                      write_index := bf15 (int len - room)\<rparr>, len)
           })"

definition rt_ringbuffer_put_force :: "rt_ringbuffer \<Rightarrow> u8 list \<Rightarrow> nat \<Rightarrow> (rt_ringbuffer \<times> nat) option" where
  "rt_ringbuffer_put_force rb ptr0 len0 =
     (let space_length = to_u16 (int (rt_ringbuffer_space_len rb));
          (ptr, len) = (if int len0 > buffer_size rb
                        then (drop (nat (int len0 - buffer_size rb)) ptr0, to_u16 (buffer_size rb))
                        else (ptr0, len0));
          w = int (write_index rb);
          room = buffer_size rb - w
      in if room > int len
         then do {
           buf \<leftarrow> memcpy (buffer_ptr rb) w ptr 0 (int len);
           let w' = bf15 (w + int len);
           Some (rb\<lparr>buffer_ptr := buf, write_index := w',
                    read_index := (if len > space_length then w' else read_index rb)\<rparr>, len)
         }
         else do {
           buf \<leftarrow> memcpy (buffer_ptr rb) w ptr 0 room;
           buf' \<leftarrow> memcpy buf 0 ptr room (int len - room);
           let w' = bf15 (int len - room);
           let rb' = rb\<lparr>buffer_ptr := buf', write_mirror := \<not> write_mirror rb, write_index := w'\<rparr>;
           Some (if len > space_length
                 then rb'\<lparr>read_mirror := \<not> read_mirror rb, read_index := w'\<rparr>
                 else rb', len)
         })"

text \<open>\<open>rt_ringbuffer_get\<close> returns the destination block after the copy.\<close>

definition rt_ringbuffer_get ::
    "rt_ringbuffer \<Rightarrow> u8 list \<Rightarrow> nat \<Rightarrow> (rt_ringbuffer \<times> u8 list \<times> nat) option" where
  "rt_ringbuffer_get rb ptr len0 =
     (let size = rt_ringbuffer_data_len rb in
      if size = 0 then Some (rb, ptr, 0)
      else
        let len = (if size < len0 then size else len0);
            r = int (read_index rb);
            room = buffer_size rb - r
        in if room > int len
           then do {
             ptr' \<leftarrow> memcpy ptr 0 (buffer_ptr rb) r (int len);
             Some (rb\<lparr>read_index := bf15 (r + int len)\<rparr>, ptr', len)
           }
           else do {
             ptr' \<leftarrow> memcpy ptr 0 (buffer_ptr rb) r room;
             ptr'' \<leftarrow> memcpy ptr' room (buffer_ptr rb) 0 (int len - room);
             Some (rb\<lparr>read_mirror := \<not> read_mirror rb, read_index := bf15 (int len - room)\<rparr>,
                   ptr'', len)
           })"

definition rt_ringbuffer_putchar :: "rt_ringbuffer \<Rightarrow> u8 \<Rightarrow> (rt_ringbuffer \<times> nat) option" where
  "rt_ringbuffer_putchar rb ch =
     (if rt_ringbuffer_space_len rb = 0 then Some (rb, 0)
      else do {
        buf \<leftarrow> store_byte (buffer_ptr rb) (write_index rb) ch;
        Some (if int (write_index rb) = buffer_size rb - 1
              then rb\<lparr>buffer_ptr := buf, write_mirror := \<not> write_mirror rb, write_index := 0\<rparr>
              else rb\<lparr>buffer_ptr := buf, write_index := bf15 (int (write_index rb) + 1)\<rparr>, 1)
      })"

definition rt_ringbuffer_putchar_force :: "rt_ringbuffer \<Rightarrow> u8 \<Rightarrow> (rt_ringbuffer \<times> nat) option" where
  "rt_ringbuffer_putchar_force rb ch =
     (let old_state = rt_ringbuffer_status rb in do {
        buf \<leftarrow> store_byte (buffer_ptr rb) (write_index rb) ch;
        Some (if int (write_index rb) = buffer_size rb - 1
              then let rb' = rb\<lparr>buffer_ptr := buf, write_mirror := \<not> write_mirror rb, write_index := 0\<rparr>
                   in if old_state = RT_RINGBUFFER_FULL
                      then rb'\<lparr>read_mirror := \<not> read_mirror rb, read_index := 0\<rparr> else rb'
              else let w' = bf15 (int (write_index rb) + 1);
                       rb' = rb\<lparr>buffer_ptr := buf, write_index := w'\<rparr>
                   in if old_state = RT_RINGBUFFER_FULL then rb'\<lparr>read_index := w'\<rparr> else rb', 1)
      })"

text \<open>\<open>rt_ringbuffer_getchar\<close> returns the byte it stores through \<open>ch\<close>, if it stores one.\<close>

definition rt_ringbuffer_getchar :: "rt_ringbuffer \<Rightarrow> (rt_ringbuffer \<times> u8 option \<times> nat) option" where
  "rt_ringbuffer_getchar rb =
     (if rt_ringbuffer_data_len rb = 0 then Some (rb, None, 0)
      else do {
        ch \<leftarrow> load_byte (buffer_ptr rb) (read_index rb);
        Some (if int (read_index rb) = buffer_size rb - 1
              then rb\<lparr>read_mirror := \<not> read_mirror rb, read_index := 0\<rparr>
              else rb\<lparr>read_index := bf15 (int (read_index rb) + 1)\<rparr>, Some ch, 1)
      })"

definition rt_ringbuffer_reset :: "rt_ringbuffer \<Rightarrow> rt_ringbuffer" where
  "rt_ringbuffer_reset rb =
     rb\<lparr>read_mirror := False, read_index := 0, write_mirror := False, write_index := 0\<rparr>"

text \<open>\<open>rt_ringbuffer_create\<close>: the two results of \<^verbatim>\<open>rt_malloc\<close> are arguments (\<open>rb_ok\<close>: the
  control block was allocated; \<open>pool\<close>: the block returned for a request of the aligned size).\<close>

definition rt_ringbuffer_create :: "bool \<Rightarrow> (nat \<Rightarrow> u8 list option) \<Rightarrow> nat \<Rightarrow> rt_ringbuffer option" where
  "rt_ringbuffer_create rb_ok rt_malloc sz0 =
     (let sz = RT_ALIGN_DOWN sz0 in
      if \<not> rb_ok then None
      else case rt_malloc sz of
             None \<Rightarrow> None
           | Some pool \<Rightarrow> Some (rt_ringbuffer_init pool (to_s16 (int sz))))"

section \<open>The invariant and the queue a ring buffer stands for\<close>

definition rb_size :: "rt_ringbuffer \<Rightarrow> nat" where "rb_size rb = nat (buffer_size rb)"

definition rb_inv :: "rt_ringbuffer \<Rightarrow> bool" where
  "rb_inv rb \<longleftrightarrow> 0 < buffer_size rb \<and> buffer_size rb < 2 ^ 15 \<and>
     buffer_size rb \<le> int (length (buffer_ptr rb)) \<and>
     int (read_index rb) < buffer_size rb \<and> int (write_index rb) < buffer_size rb \<and>
     (if read_mirror rb = write_mirror rb then read_index rb \<le> write_index rb
      else write_index rb \<le> read_index rb)"

definition rb_contents :: "rt_ringbuffer \<Rightarrow> u8 list" where
  "rb_contents rb = map (\<lambda>i. buffer_ptr rb ! ((read_index rb + i) mod rb_size rb))
                        [0..<rt_ringbuffer_data_len rb]"

lemma to_small [simp]:
  "\<lbrakk>0 \<le> x; x < 2 ^ 15\<rbrakk> \<Longrightarrow> bf15 x = nat x"
  "\<lbrakk>0 \<le> x; x < 2 ^ 15\<rbrakk> \<Longrightarrow> to_u16 x = nat x"
  "\<lbrakk>0 \<le> x; x < 2 ^ 15\<rbrakk> \<Longrightarrow> to_size x = nat x"
  "\<lbrakk>0 \<le> x; x < 2 ^ 15\<rbrakk> \<Longrightarrow> to_s16 x = x"
  by (simp_all add: bf15_def to_u16_def to_size_def to_s16_def)

text \<open>The same in one linear equation: \<open>rb_view rb s d\<close> says that the size is \<open>s\<close> and that
  \<open>d\<close> bytes are queued.\<close>

definition rb_view :: "rt_ringbuffer \<Rightarrow> nat \<Rightarrow> nat \<Rightarrow> bool" where
  "rb_view rb s d \<longleftrightarrow> buffer_size rb = int s \<and> 0 < s \<and> s < 2 ^ 15 \<and> s \<le> length (buffer_ptr rb) \<and>
     read_index rb < s \<and> write_index rb < s \<and> d \<le> s \<and>
     read_index rb + d = write_index rb + (if read_mirror rb = write_mirror rb then 0 else s)"

lemma rb_view_inv: "rb_view rb s d \<Longrightarrow> rb_inv rb"
  by (auto simp: rb_view_def rb_inv_def split: if_splits)

lemma rb_view_data_len: "rb_view rb s d \<Longrightarrow> rt_ringbuffer_data_len rb = d"
  by (auto simp: rb_view_def rt_ringbuffer_data_len_def rt_ringbuffer_status_def split: if_splits)

lemma rb_inv_view:
  assumes "rb_inv rb"
  obtains s where "rb_view rb s (rt_ringbuffer_data_len rb)"
proof -
  obtain s where s: "buffer_size rb = int s"
    using assms unfolding rb_inv_def by (metis zero_le_imp_eq_int less_imp_le)
  define d where "d = write_index rb + (if read_mirror rb = write_mirror rb then 0 else s) - read_index rb"
  have v: "rb_view rb s d"
    using assms by (auto simp: rb_view_def rb_inv_def s d_def split: if_splits)
  then show ?thesis by (intro that) (simp add: rb_view_data_len)
qed

lemma rb_view_simps:
  assumes "rb_view rb s d"
  shows "rt_ringbuffer_data_len rb = d" "rt_ringbuffer_space_len rb = s - d"
    "buffer_size rb = int s" "rb_size rb = s" "write_index rb = (read_index rb + d) mod s"
    "to_u16 (int (rt_ringbuffer_space_len rb)) = s - d"
  using rb_view_data_len [OF assms] assms
  by (auto simp: rb_view_def rt_ringbuffer_space_len_def rb_size_def)

text \<open>Writing \<open>n\<close> bytes at the write index and nothing else appends them to the contents.\<close>

lemma ring_append:
  assumes "r < s" "len + n \<le> s" "n \<le> length ptr" "w = (r + len) mod s"
    and new: "\<And>k. k < n \<Longrightarrow> nb ! ((w + k) mod s) = ptr ! k"
    and old: "\<And>j. j < s \<Longrightarrow> (\<And>k. k < n \<Longrightarrow> j \<noteq> (w + k) mod s) \<Longrightarrow> nb ! j = buf ! j"
  shows "map (\<lambda>i. nb ! ((r + i) mod s)) [0..<len + n]
    = map (\<lambda>i. buf ! ((r + i) mod s)) [0..<len] @ take n ptr"
proof (rule nth_equalityI)
  fix i assume "i < length (map (\<lambda>i. nb ! ((r + i) mod s)) [0..<len + n])"
  then have i: "i < len + n" by simp
  show "map (\<lambda>i. nb ! ((r + i) mod s)) [0..<len + n] ! i
    = (map (\<lambda>i. buf ! ((r + i) mod s)) [0..<len] @ take n ptr) ! i"
  proof (cases "i < len")
    case True
    have "(r + i) mod s \<noteq> (w + k) mod s" if "k < n" for k
    proof
      assume "(r + i) mod s = (w + k) mod s"
      then have "(r + i) mod s = (r + (len + k)) mod s" by (simp add: assms(4) mod_simps add.assoc)
      then have "i = len + k" by (rule mod_sum_inj) (use assms i that in auto)
      then show False using True by simp
    qed
    then have "nb ! ((r + i) mod s) = buf ! ((r + i) mod s)" using assms(1) by (intro old) auto
    then show ?thesis using True i by (simp add: nth_append)
  next
    case False
    have "(w + (i - len)) mod s = (r + len + (i - len)) mod s"
      unfolding assms(4) by (rule mod_add_left_eq)
    then have "(r + i) mod s = (w + (i - len)) mod s" using False by simp
    then have "nb ! ((r + i) mod s) = ptr ! (i - len)" using new [of "i - len"] i False by simp
    then show ?thesis using False i assms(3) by (simp add: nth_append)
  qed
qed (use assms in auto)

text \<open>The two copies of a wrapping write, seen as one write modulo the size.\<close>

lemma memcpy_wrap:
  assumes "w < s" "s \<le> length buf" "n \<le> s" "s - w \<le> n" "n \<le> length ptr"
  obtains b1 b2 where "memcpy buf (int w) ptr 0 (int (s - w)) = Some b1"
    "memcpy b1 0 ptr (int (s - w)) (int (n - (s - w))) = Some b2"
    "length b2 = length buf"
    "\<And>k. k < n \<Longrightarrow> b2 ! ((w + k) mod s) = ptr ! k"
    "\<And>j. j < s \<Longrightarrow> (\<And>k. k < n \<Longrightarrow> j \<noteq> (w + k) mod s) \<Longrightarrow> b2 ! j = buf ! j"
proof -
  obtain b1 where b1: "memcpy buf (int w) ptr 0 (int (s - w)) = Some b1"
    using assms by (subst (asm) memcpy_Some) auto
  then have l1: "length b1 = length buf" by (rule memcpy_length)
  obtain b2 where b2: "memcpy b1 0 ptr (int (s - w)) (int (n - (s - w))) = Some b2"
    using assms l1 by (subst (asm) memcpy_Some) auto
  then have l2: "length b2 = length buf" using l1 memcpy_length by fastforce
  have nth: "b2 ! j = (if j < n - (s - w) then ptr ! (s - w + j)
      else if w \<le> j then ptr ! (j - w) else buf ! j)" if "j < s" for j
    using memcpy_nth [OF b1, of j] memcpy_nth [OF b2, of j] that l1 assms
    by (simp flip: of_nat_add del: of_nat_diff)
  show ?thesis
  proof (rule that [OF b1 b2 l2])
    fix k assume k: "k < n"
    show "b2 ! ((w + k) mod s) = ptr ! k"
    proof (cases "w + k < s")
      case True
      then show ?thesis using nth [of "w + k"] assms by auto
    next
      case False
      then have "(w + k) mod s = w + k - s" using k assms by (simp add: mod_if)
      then show ?thesis using False k assms nth [of "w + k - s"] by auto
    qed
  next
    fix j assume j: "j < s" and out: "\<And>k. k < n \<Longrightarrow> j \<noteq> (w + k) mod s"
    have "\<not> w \<le> j"
    proof
      assume a: "w \<le> j"
      then have "j - w < n" using j assms(4) by linarith
      then show False using out [of "j - w"] j a by simp
    qed
    moreover have "\<not> j < n - (s - w)"
    proof
      assume "j < n - (s - w)"
      then have "s - w + j < n" by linarith
      then show False using out [of "s - w + j"] j assms(1) by simp
    qed
    ultimately show "b2 ! j = buf ! j" using nth [OF j] by simp
  qed
qed

lemma memcpy_flat:
  assumes "w + n \<le> s" "s \<le> length buf" "n \<le> length ptr"
  obtains b1 where "memcpy buf (int w) ptr 0 (int n) = Some b1" "length b1 = length buf"
    "\<And>k. k < n \<Longrightarrow> b1 ! ((w + k) mod s) = ptr ! k"
    "\<And>j. j < s \<Longrightarrow> (\<And>k. k < n \<Longrightarrow> j \<noteq> (w + k) mod s) \<Longrightarrow> b1 ! j = buf ! j"
proof -
  obtain b1 where b1: "memcpy buf (int w) ptr 0 (int n) = Some b1"
    using assms by (auto simp: memcpy_def)
  then have l1: "length b1 = length buf" by (rule memcpy_length)
  have nth: "b1 ! j = (if w \<le> j \<and> j < w + n then ptr ! (j - w) else buf ! j)" if "j < s" for j
    using memcpy_nth [OF b1, of j] that assms by (auto simp flip: of_nat_add)
  show ?thesis
  proof (rule that [OF b1 l1])
    fix k assume "k < n"
    then show "b1 ! ((w + k) mod s) = ptr ! k" using nth [of "w + k"] assms by simp
  next
    fix j assume j: "j < s" and out: "\<And>k. k < n \<Longrightarrow> j \<noteq> (w + k) mod s"
    have "\<not> (w \<le> j \<and> j < w + n)"
    proof
      assume a: "w \<le> j \<and> j < w + n"
      then have "j - w < n" by linarith
      then show False using out [of "j - w"] j a by simp
    qed
    then show "b1 ! j = buf ! j" using nth [OF j] by presburger
  qed
qed


lemma rb_contents_length [simp]: "length (rb_contents rb) = rt_ringbuffer_data_len rb"
  by (simp add: rb_contents_def)

lemma rb_contents_empty [simp]: "rt_ringbuffer_data_len rb = 0 \<Longrightarrow> rb_contents rb = []"
  by (simp add: rb_contents_def)

text \<open>A state after a write of \<open>n\<close> bytes at the write index: the mirror flips on a wrap.\<close>

definition rb_wrote :: "rt_ringbuffer \<Rightarrow> u8 list \<Rightarrow> nat \<Rightarrow> rt_ringbuffer \<Rightarrow> bool" where
  "rb_wrote rb ptr n rb' \<longleftrightarrow> (\<exists>nb. length nb = length (buffer_ptr rb) \<and>
     rb' = rb\<lparr>buffer_ptr := nb,
       write_mirror := (if write_index rb + n < rb_size rb then write_mirror rb else \<not> write_mirror rb),
       write_index := (write_index rb + n) mod rb_size rb\<rparr> \<and>
     (\<forall>k < n. nb ! ((write_index rb + k) mod rb_size rb) = ptr ! k) \<and>
     (\<forall>j < rb_size rb. (\<forall>k < n. j \<noteq> (write_index rb + k) mod rb_size rb)
        \<longrightarrow> nb ! j = buffer_ptr rb ! j))"

lemma rb_wrote_append:
  assumes v: "rb_view rb s d" and n: "d + n \<le> s" "n \<le> length ptr" and wr: "rb_wrote rb ptr n rb'"
  shows "rb_view rb' s (d + n)" "rb_contents rb' = rb_contents rb @ take n ptr"
proof -
  note vs = rb_view_simps [OF v]
  from wr obtain nb where nb: "length nb = length (buffer_ptr rb)"
    "rb' = rb\<lparr>buffer_ptr := nb,
       write_mirror := (if write_index rb + n < s then write_mirror rb else \<not> write_mirror rb),
       write_index := (write_index rb + n) mod s\<rparr>"
    "\<And>k. k < n \<Longrightarrow> nb ! ((write_index rb + k) mod s) = ptr ! k"
    "\<And>j. j < s \<Longrightarrow> (\<And>k. k < n \<Longrightarrow> j \<noteq> (write_index rb + k) mod s) \<Longrightarrow> nb ! j = buffer_ptr rb ! j"
    unfolding rb_wrote_def vs by blast
  have w: "(write_index rb + n) mod s = (if write_index rb + n < s then write_index rb + n
      else write_index rb + n - s)"
    by (rule mod_of_sum) (use v n in \<open>auto simp: rb_view_def\<close>)
  show v': "rb_view rb' s (d + n)"
    using v n
    by (cases "write_index rb + n < s"; cases "read_mirror rb = write_mirror rb")
       (simp_all add: rb_view_def nb(1,2) w, linarith?)
  have r: "read_index rb < s" using v by (simp add: rb_view_def)
  have "rb_contents rb' = map (\<lambda>i. nb ! ((read_index rb + i) mod s)) [0..<d + n]"
    unfolding rb_contents_def rb_view_simps(1,4) [OF v'] by (simp add: nb(2))
  also have "\<dots> = map (\<lambda>i. buffer_ptr rb ! ((read_index rb + i) mod s)) [0..<d] @ take n ptr"
    using nb(3,4) by (rule ring_append [OF r n vs(5)])
  finally show "rb_contents rb' = rb_contents rb @ take n ptr"
    by (simp add: rb_contents_def vs(1,4))
qed

text \<open>The copying code of \<open>put\<close> and \<open>put_force\<close>: one copy, or two when it wraps.\<close>

lemma rb_copy_flat:
  assumes v: "rb_view rb s d" and n: "write_index rb + n < s" "n \<le> length ptr"
  obtains b where "memcpy (buffer_ptr rb) (int (write_index rb)) ptr 0 (int n) = Some b"
    "rb_wrote rb ptr n (rb\<lparr>buffer_ptr := b, write_index := bf15 (int (write_index rb) + int n)\<rparr>)"
proof -
  have "write_index rb + n \<le> s" "s \<le> length (buffer_ptr rb)" using v n by (auto simp: rb_view_def)
  then obtain b where b: "memcpy (buffer_ptr rb) (int (write_index rb)) ptr 0 (int n) = Some b"
    "length b = length (buffer_ptr rb)"
    "\<And>k. k < n \<Longrightarrow> b ! ((write_index rb + k) mod s) = ptr ! k"
    "\<And>j. j < s \<Longrightarrow> (\<And>k. k < n \<Longrightarrow> j \<noteq> (write_index rb + k) mod s) \<Longrightarrow> b ! j = buffer_ptr rb ! j"
    using memcpy_flat n(2) by blast
  have "bf15 (int (write_index rb) + int n) = write_index rb + n"
    using v n by (simp add: rb_view_def flip: of_nat_add)
  then have "rb_wrote rb ptr n (rb\<lparr>buffer_ptr := b, write_index := bf15 (int (write_index rb) + int n)\<rparr>)"
    unfolding rb_wrote_def rb_view_simps(4) [OF v] using n b(2-) by (intro exI [of _ b]) simp
  then show ?thesis by (rule that [OF b(1)])
qed

lemma rb_copy_wrap:
  assumes v: "rb_view rb s d" and n: "s \<le> write_index rb + n" "n \<le> s" "n \<le> length ptr"
  obtains b b' where
    "memcpy (buffer_ptr rb) (int (write_index rb)) ptr 0 (int s - int (write_index rb)) = Some b"
    "memcpy b 0 ptr (int s - int (write_index rb)) (int n - (int s - int (write_index rb))) = Some b'"
    "rb_wrote rb ptr n (rb\<lparr>buffer_ptr := b', write_mirror := \<not> write_mirror rb,
       write_index := bf15 (int n - (int s - int (write_index rb)))\<rparr>)"
proof -
  let ?w = "write_index rb"
  have w: "?w < s" "s \<le> length (buffer_ptr rb)" "s < 2 ^ 15" using v by (auto simp: rb_view_def)
  have i: "int s - int ?w = int (s - ?w)" "int n - int (s - ?w) = int (n - (s - ?w))"
    using n w by auto
  have "s - ?w \<le> n" using n by simp
  then obtain b b' where b: "memcpy (buffer_ptr rb) (int ?w) ptr 0 (int (s - ?w)) = Some b"
    "memcpy b 0 ptr (int (s - ?w)) (int (n - (s - ?w))) = Some b'"
    "length b' = length (buffer_ptr rb)"
    "\<And>k. k < n \<Longrightarrow> b' ! ((?w + k) mod s) = ptr ! k"
    "\<And>j. j < s \<Longrightarrow> (\<And>k. k < n \<Longrightarrow> j \<noteq> (?w + k) mod s) \<Longrightarrow> b' ! j = buffer_ptr rb ! j"
    using memcpy_wrap [OF w(1,2) n(2) _ n(3)] by blast
  have "bf15 (int (n - (s - ?w))) = (?w + n) mod s"
    using n w by (subst mod_of_sum) (simp_all del: of_nat_diff)
  then have "rb_wrote rb ptr n (rb\<lparr>buffer_ptr := b', write_mirror := \<not> write_mirror rb,
       write_index := bf15 (int n - (int s - int ?w))\<rparr>)"
    unfolding rb_wrote_def rb_view_simps(4) [OF v] i using n b(3-) by (intro exI [of _ b']) simp
  then show ?thesis using b(1,2) by (intro that [of b b']) (simp_all only: i)
qed

lemma put_wrote:
  assumes v: "rb_view rb s d" and n: "n = min len (s - d)" and len: "len \<le> length ptr"
  obtains rb' where "rt_ringbuffer_put rb ptr len = Some (rb', n)"
    "n = 0 \<and> rb' = rb \<or> rb_wrote rb ptr n rb'"
proof -
  note put = rt_ringbuffer_put_def [of rb ptr len] rb_view_simps(3,6) [OF v] Let_def
  have nl: "(if s - d < len then s - d else len) = n" "n \<le> s" "n \<le> length ptr" using n len by auto
  consider "s - d = 0" | "s - d \<noteq> 0" "write_index rb + n < s" | "s - d \<noteq> 0" "s \<le> write_index rb + n"
    by linarith
  then show ?thesis
  proof cases
    case 1
    then show ?thesis using that [of rb] n by (simp add: put)
  next
    case 2
    then have g: "int s - int (write_index rb) > int n" by linarith
    show ?thesis
      by (rule rb_copy_flat [OF v 2(2) nl(3)]) (rule that, use 2 g in \<open>simp add: put nl\<close>, blast)
  next
    case 3
    then have g: "\<not> int s - int (write_index rb) > int n" by linarith
    show ?thesis
      by (rule rb_copy_wrap [OF v 3(2) nl(2,3)]) (rule that, use 3 g in \<open>simp add: put nl\<close>, blast)
  qed
qed

text \<open>A state after \<open>n\<close> bytes were consumed at the read index.\<close>

definition rb_advance :: "rt_ringbuffer \<Rightarrow> nat \<Rightarrow> rt_ringbuffer" where
  "rb_advance rb n = rb\<lparr>
     read_mirror := (if read_index rb + n < rb_size rb then read_mirror rb else \<not> read_mirror rb),
     read_index := (read_index rb + n) mod rb_size rb\<rparr>"

lemma rb_advance_drop:
  assumes v: "rb_view rb s d" and n: "n \<le> d"
  shows "rb_view (rb_advance rb n) s (d - n)" "rb_contents (rb_advance rb n) = drop n (rb_contents rb)"
proof -
  note vs = rb_view_simps [OF v]
  have r: "(read_index rb + n) mod s = (if read_index rb + n < s then read_index rb + n
      else read_index rb + n - s)"
    by (rule mod_of_sum) (use v n in \<open>auto simp: rb_view_def\<close>)
  show v': "rb_view (rb_advance rb n) s (d - n)"
    using v n
    by (cases "read_index rb + n < s"; cases "read_mirror rb = write_mirror rb";
        simp add: rb_view_def rb_advance_def vs(4) r; (intro conjI)?; linarith?)
  have "rb_contents (rb_advance rb n)
      = map (\<lambda>i. buffer_ptr rb ! (((read_index rb + n) mod s + i) mod s)) [0..<d - n]"
    unfolding rb_contents_def rb_view_simps(1,4) [OF v'] by (simp add: rb_advance_def vs(4))
  also have "\<dots> = map (\<lambda>i. buffer_ptr rb ! ((read_index rb + (n + i)) mod s)) [0..<d - n]"
    by (simp add: mod_add_left_eq add.assoc)
  also have "\<dots> = drop n (map (\<lambda>i. buffer_ptr rb ! ((read_index rb + i) mod s)) [0..<d])"
  proof (rule nth_equalityI)
    fix i assume "i < length (map (\<lambda>i. buffer_ptr rb ! ((read_index rb + (n + i)) mod s)) [0..<d - n])"
    then have "n + i < d" "i < d - n" by auto
    then show "map (\<lambda>i. buffer_ptr rb ! ((read_index rb + (n + i)) mod s)) [0..<d - n] ! i
      = drop n (map (\<lambda>i. buffer_ptr rb ! ((read_index rb + i) mod s)) [0..<d]) ! i" by simp
  qed simp
  finally show "rb_contents (rb_advance rb n) = drop n (rb_contents rb)"
    by (simp add: rb_contents_def vs(1,4))
qed

text \<open>The copying code of \<open>get\<close>.\<close>

lemma rb_load_flat:
  assumes v: "rb_view rb s d" and n: "read_index rb + n < s" "n \<le> d" "n \<le> length ptr"
  shows "memcpy ptr 0 (buffer_ptr rb) (int (read_index rb)) (int n)
      = Some (take n (rb_contents rb) @ drop n ptr)"
    and "bf15 (int (read_index rb) + int n) = (read_index rb + n) mod s"
proof -
  note vs = rb_view_simps [OF v]
  have s: "s \<le> length (buffer_ptr rb)" "s < 2 ^ 15" using v by (auto simp: rb_view_def)
  have "take n (drop (read_index rb) (buffer_ptr rb)) = take n (rb_contents rb)"
    using n s by (intro nth_equalityI) (simp_all add: rb_contents_def vs(1,4) min_absorb2)
  then show "memcpy ptr 0 (buffer_ptr rb) (int (read_index rb)) (int n)
      = Some (take n (rb_contents rb) @ drop n ptr)"
    using n s by (simp add: memcpy_def flip: of_nat_add)
  show "bf15 (int (read_index rb) + int n) = (read_index rb + n) mod s"
    using n s by (simp flip: of_nat_add)
qed

lemma rb_load_wrap:
  assumes v: "rb_view rb s d" and n: "s \<le> read_index rb + n" "n \<le> d" "n \<le> length ptr"
  obtains p1 where "memcpy ptr 0 (buffer_ptr rb) (int (read_index rb)) (int s - int (read_index rb)) = Some p1"
    "memcpy p1 (int s - int (read_index rb)) (buffer_ptr rb) 0 (int n - (int s - int (read_index rb)))
      = Some (take n (rb_contents rb) @ drop n ptr)"
    "bf15 (int n - (int s - int (read_index rb))) = (read_index rb + n) mod s"
proof -
  note vs = rb_view_simps [OF v]
  define m where "m = s - read_index rb"
  have s: "s \<le> length (buffer_ptr rb)" "s < 2 ^ 15" "read_index rb + m = s" "0 < m" "m \<le> n" "n \<le> s"
    using v n by (auto simp: rb_view_def m_def)
  have i: "int s - int (read_index rb) = int m" "int n - int m = int (n - m)" using s by auto
  define c1 where "c1 = take m (drop (read_index rb) (buffer_ptr rb))"
  have l1: "length c1 = m" using s by (simp add: c1_def)
  have e1: "memcpy ptr 0 (buffer_ptr rb) (int (read_index rb)) (int m) = Some (c1 @ drop m ptr)"
    using s n by (simp add: memcpy_def c1_def flip: of_nat_add)
  have parts: "take n (rb_contents rb) = c1 @ take (n - m) (buffer_ptr rb)"
  proof (rule nth_equalityI)
    fix j assume "j < length (take n (rb_contents rb))"
    then have j: "j < n" "j < d" using n by (simp_all add: vs(1))
    have "(read_index rb + j) mod s = (if j < m then read_index rb + j else j - m)"
      using s j n by (subst mod_of_sum) auto
    then show "take n (rb_contents rb) ! j = (c1 @ take (n - m) (buffer_ptr rb)) ! j"
      using j s n by (simp add: rb_contents_def vs(1,4) nth_append l1) (simp add: c1_def)
  qed (use s n l1 in \<open>simp add: vs(1)\<close>)
  have e2: "memcpy (c1 @ drop m ptr) (int m) (buffer_ptr rb) 0 (int (n - m))
      = Some (take n (rb_contents rb) @ drop n ptr)"
    using s n l1 by (simp add: memcpy_def parts del: of_nat_diff flip: of_nat_add)
  have "bf15 (int (n - m)) = (read_index rb + n) mod s"
    using s n by (subst mod_of_sum) (auto simp del: of_nat_diff)
  then show ?thesis using e1 e2 by (intro that [of "c1 @ drop m ptr"]) (simp_all only: i)
qed

lemma get_refines:
  assumes v: "rb_view rb s d" and n: "n = min len d" and len: "len \<le> length ptr"
  shows "rt_ringbuffer_get rb ptr len = Some (rb_advance rb n, take n (rb_contents rb) @ drop n ptr, n)"
proof -
  note get = rt_ringbuffer_get_def [of rb ptr len] rb_view_simps(1,3) [OF v] Let_def
  note adv = rb_advance_def rb_view_simps(4) [OF v]
  have nl: "(if d < len then d else len) = n" "n \<le> d" "n \<le> length ptr" using n len by auto
  consider "d = 0" | "d \<noteq> 0" "read_index rb + n < s" | "d \<noteq> 0" "s \<le> read_index rb + n"
    by linarith
  then show ?thesis
  proof cases
    case 1
    moreover have "read_index rb < s" using v by (simp add: rb_view_def)
    ultimately show ?thesis using n by (simp add: get adv)
  next
    case 2
    then have g: "int s - int (read_index rb) > int n" by linarith
    show ?thesis using rb_load_flat [OF v 2(2) nl(2,3)] 2 g by (simp add: get nl adv)
  next
    case 3
    then have g: "\<not> int s - int (read_index rb) > int n" by linarith
    show ?thesis
      by (rule rb_load_wrap [OF v 3(2) nl(2,3)]) (use 3 g in \<open>simp add: get nl adv\<close>)
  qed
qed


lemma store_wrote:
  assumes v: "rb_view rb s d"
  shows "store_byte (buffer_ptr rb) (write_index rb) ch = Some ((buffer_ptr rb)[write_index rb := ch])"
    and "int (write_index rb) = buffer_size rb - 1 \<Longrightarrow>
      rb_wrote rb [ch] 1 (rb\<lparr>buffer_ptr := (buffer_ptr rb)[write_index rb := ch],
        write_mirror := \<not> write_mirror rb, write_index := 0\<rparr>)"
    and "int (write_index rb) \<noteq> buffer_size rb - 1 \<Longrightarrow>
      rb_wrote rb [ch] 1 (rb\<lparr>buffer_ptr := (buffer_ptr rb)[write_index rb := ch],
        write_index := bf15 (int (write_index rb) + 1)\<rparr>)"
proof -
  let ?w = "write_index rb"
  note vs = rb_view_simps [OF v]
  have w: "?w < s" "s \<le> length (buffer_ptr rb)" "s < 2 ^ 15" using v by (auto simp: rb_view_def)
  then show "store_byte (buffer_ptr rb) ?w ch = Some ((buffer_ptr rb)[?w := ch])"
    by (simp add: store_byte_def)
  show "rb_wrote rb [ch] 1 (rb\<lparr>buffer_ptr := (buffer_ptr rb)[?w := ch],
        write_mirror := \<not> write_mirror rb, write_index := 0\<rparr>)" if "int ?w = buffer_size rb - 1"
  proof -
    have "Suc ?w = s" using that w vs(3) by linarith
    then show ?thesis unfolding rb_wrote_def vs(4) using w by (intro exI [of _ "(buffer_ptr rb)[?w := ch]"]) auto
  qed
  show "rb_wrote rb [ch] 1 (rb\<lparr>buffer_ptr := (buffer_ptr rb)[?w := ch],
        write_index := bf15 (int ?w + 1)\<rparr>)" if "int ?w \<noteq> buffer_size rb - 1"
  proof -
    have "Suc ?w < s" using that w vs(3) by linarith
    moreover from this have "bf15 (int ?w + 1) = Suc ?w" using w by simp
    ultimately show ?thesis
      unfolding rb_wrote_def vs(4) using w by (intro exI [of _ "(buffer_ptr rb)[?w := ch]"]) auto
  qed
qed

lemma putchar_wrote:
  assumes v: "rb_view rb s d"
  obtains rb' where "rt_ringbuffer_putchar rb ch = Some (rb', min 1 (s - d))"
    "s - d = 0 \<and> rb' = rb \<or> rb_wrote rb [ch] (min 1 (s - d)) rb'"
proof (cases "s - d = 0")
  case True
  then show ?thesis using rb_view_simps(2) [OF v] that [of rb] by (simp add: rt_ringbuffer_putchar_def)
next
  case False
  then have m: "min 1 (s - d) = 1" by simp
  show ?thesis
    using False store_wrote [OF v, of ch] rb_view_simps(2) [OF v]
    by (cases "int (write_index rb) = buffer_size rb - 1")
       (auto simp: rt_ringbuffer_putchar_def m intro!: that)
qed

lemma getchar_refines:
  assumes v: "rb_view rb s d"
  shows "rt_ringbuffer_getchar rb = Some (rb_advance rb (min 1 d),
    (case rb_contents rb of [] \<Rightarrow> None | c # _ \<Rightarrow> Some c), min 1 d)"
proof -
  let ?r = "read_index rb"
  note vs = rb_view_simps [OF v]
  have r: "?r < s" "s \<le> length (buffer_ptr rb)" "s < 2 ^ 15" using v by (auto simp: rb_view_def)
  show ?thesis
  proof (cases d)
    case 0
    then have "rb_contents rb = []" using vs(1) by (simp add: rb_contents_def)
    then show ?thesis using 0 r
      by (simp add: rt_ringbuffer_getchar_def vs(1) rb_advance_def vs(4))
  next
    case (Suc k)
    have c: "rb_contents rb = buffer_ptr rb ! ?r # tl (rb_contents rb)"
      using r by (simp add: rb_contents_def vs(1,4) Suc upt_conv_Cons del: upt_Suc)
    have b: "bf15 (int ?r + 1) = Suc ?r" if "Suc ?r < s" using that r by simp
    have "(int ?r = int s - 1) = (Suc ?r = s)" by linarith
    then show ?thesis using r Suc b
      by (subst c) (auto simp: rt_ringbuffer_getchar_def vs(1,3) load_byte_def rb_advance_def vs(4))
  qed
qed

lemma status_full_iff: "rb_view rb s d \<Longrightarrow> rt_ringbuffer_status rb = RT_RINGBUFFER_FULL \<longleftrightarrow> d = s"
  by (auto simp: rb_view_def rt_ringbuffer_status_def)

lemma rb_wrote_advance:
  assumes "rb_wrote rb ptr n rb'" "rb_size rb = s"
  shows "rb_wrote (rb_advance rb k) ptr n (rb'\<lparr>
     read_mirror := (if read_index rb + k < s then read_mirror rb else \<not> read_mirror rb),
     read_index := (read_index rb + k) mod s\<rparr>)"
  using assms unfolding rb_wrote_def rb_advance_def rb_size_def
  by (elim exE, rule_tac x = nb in exI) simp

lemma putchar_force_wrote:
  assumes v: "rb_view rb s d"
  obtains rb' where "rt_ringbuffer_putchar_force rb ch = Some (rb', 1)"
    "if d = s then rb_wrote (rb_advance rb 1) [ch] 1 rb' else rb_wrote rb [ch] 1 rb'"
proof -
  note vs = rb_view_simps [OF v] and st = store_wrote [OF v, of ch]
  note adv = rb_wrote_advance [OF _ vs(4), of "[ch]" 1 _ 1]
  note pf = rt_ringbuffer_putchar_force_def Let_def status_full_iff [OF v] st(1)
  have w: "int (write_index rb) = buffer_size rb - 1 \<longleftrightarrow> Suc (write_index rb) = s" using vs(3) by linarith
  have s: "write_index rb < s" "s < 2 ^ 15" using v by (auto simp: rb_view_def)
  have rw: "read_index rb = write_index rb" if "d = s"
    using v that by (auto simp: rb_view_def split: if_splits)
  have b: "bf15 (int (write_index rb) + 1) = Suc (write_index rb)" if "Suc (write_index rb) < s"
    using that s by simp
  show ?thesis
  proof (cases "Suc (write_index rb) = s")
    case True
    then show ?thesis using st(2) adv [OF st(2)] rw w by (cases "d = s") (auto simp: pf intro!: that)
  next
    case False
    then have "Suc (write_index rb) < s" using s by simp
    then show ?thesis using False st(3) adv [OF st(3)] rw w b
      by (cases "d = s") (auto simp: pf intro!: that)
  qed
qed

text \<open>After clipping, \<open>put_force\<close> writes \<open>n\<close> bytes; the three outcomes by the space left.\<close>

definition forced :: "rt_ringbuffer \<Rightarrow> u8 list \<Rightarrow> nat \<Rightarrow> nat \<Rightarrow> nat \<Rightarrow> rt_ringbuffer \<Rightarrow> bool" where
  "forced rb ptr n s d rb' \<longleftrightarrow>
     (if n \<le> s - d then rb_wrote rb ptr n rb'
      else if read_mirror rb \<noteq> write_mirror rb then rb_wrote (rb_advance rb (d + n - s)) ptr n rb'
      else rb_view rb' s 0)"

lemma put_force_flat:
  assumes v: "rb_view rb s d" and n: "write_index rb + n < s" "n \<le> length ptr"
    and b: "memcpy (buffer_ptr rb) (int (write_index rb)) ptr 0 (int n) = Some b"
    and wr: "rb_wrote rb ptr n (rb\<lparr>buffer_ptr := b, write_index := bf15 (int (write_index rb) + int n)\<rparr>)"
      (is "rb_wrote _ _ _ ?rb")
  shows "forced rb ptr n s d (?rb\<lparr>read_index := if n > s - d then write_index ?rb else read_index rb\<rparr>)"
proof (cases "n \<le> s - d")
  case True
  then show ?thesis using wr by (simp add: forced_def)
next
  case False
  have m: "read_mirror rb \<noteq> write_mirror rb" "read_index rb + (d + n - s) = write_index rb + n"
    using v n False by (auto simp: rb_view_def split: if_splits)
  have w: "write_index ?rb = (write_index rb + n) mod s"
    using v n by (simp add: rb_view_def flip: of_nat_add)
  have "rb_wrote (rb_advance rb (d + n - s)) ptr n (?rb\<lparr>read_index := (write_index rb + n) mod s\<rparr>)"
    using rb_wrote_advance [OF wr rb_view_simps(4) [OF v], of "d + n - s"] n(1) unfolding m(2) by simp
  then show ?thesis using False m(1) w by (simp add: forced_def)
qed

lemma put_force_wrap:
  assumes v: "rb_view rb s d" and n: "s \<le> write_index rb + n" "n \<le> s" "n \<le> length ptr"
    and wr: "rb_wrote rb ptr n rb'" and w: "write_index rb' = write_index rb + n - s"
    and f: "rb' = rb\<lparr>buffer_ptr := b, write_mirror := \<not> write_mirror rb, write_index := wi\<rparr>"
  shows "forced rb ptr n s d (if n > s - d
     then rb'\<lparr>read_mirror := \<not> read_mirror rb, read_index := write_index rb'\<rparr> else rb')"
proof (cases "n \<le> s - d")
  case True
  then show ?thesis using wr by (simp add: forced_def)
next
  case False
  have len: "length b = length (buffer_ptr rb)" 
  proof -
    have "length (buffer_ptr rb') = length (buffer_ptr rb)" using wr by (auto simp: rb_wrote_def)
    then show ?thesis by (simp add: f)
  qed
  show ?thesis
  proof (cases "read_mirror rb = write_mirror rb")
    case True
    have "write_index rb + n - s < s" using v n by (auto simp: rb_view_def)
    then have "rb_view (rb'\<lparr>read_mirror := \<not> read_mirror rb, read_index := write_index rb'\<rparr>) s 0"
      using v True w len by (simp add: f rb_view_def)
    then show ?thesis using False True by (simp add: forced_def)
  next
    case nm: False
    have m: "read_index rb + (d + n - s) = write_index rb + n"
      using v False nm by (auto simp: rb_view_def split: if_splits)
    have "(write_index rb + n) mod s = write_index rb'"
      unfolding w using v n by (subst mod_of_sum) (auto simp: rb_view_def)
    then have "rb_wrote (rb_advance rb (d + n - s)) ptr n
        (rb'\<lparr>read_mirror := \<not> read_mirror rb, read_index := write_index rb'\<rparr>)"
      using rb_wrote_advance [OF wr rb_view_simps(4) [OF v], of "d + n - s"] n(1) unfolding m by simp
    then show ?thesis using False nm by (simp add: forced_def)
  qed
qed

lemma put_force_forced:
  assumes v: "rb_view rb s d" and len: "len \<le> length ptr"
    and n: "n = min len s" and p: "p = drop (len - s) ptr"
  obtains rb' where "rt_ringbuffer_put_force rb ptr len = Some (rb', n)" "forced rb p n s d rb'"
proof -
  note vs = rb_view_simps [OF v]
  have s: "s < 2 ^ 15" "write_index rb < s" using v by (auto simp: rb_view_def)
  have clip: "(if int len > buffer_size rb then (drop (nat (int len - buffer_size rb)) ptr, to_u16 (buffer_size rb))
      else (ptr, len)) = (p, n)"
    using s by (auto simp: vs(3) p n nat_diff_distrib)
  have np: "n \<le> s" "n \<le> length p" using n p len by auto
  note pf = rt_ringbuffer_put_force_def [of rb ptr len, unfolded clip Let_def, unfolded vs(3,6) prod.case]
  consider "write_index rb + n < s" | "s \<le> write_index rb + n" by linarith
  then show ?thesis
  proof cases
    case 1
    then have g: "int s - int (write_index rb) > int n" by linarith
    obtain b where b: "memcpy (buffer_ptr rb) (int (write_index rb)) p 0 (int n) = Some b"
      "rb_wrote rb p n (rb\<lparr>buffer_ptr := b, write_index := bf15 (int (write_index rb) + int n)\<rparr>)"
      using rb_copy_flat [OF v 1 np(2)] by blast
    show ?thesis
      by (rule that [OF _ put_force_flat [OF v 1 np(2) b]]) (use g b(1) in \<open>simp add: pf\<close>)
  next
    case 2
    then have g: "\<not> int s - int (write_index rb) > int n" by linarith
    let ?w = "bf15 (int n - (int s - int (write_index rb)))"
    obtain b b' where b: "memcpy (buffer_ptr rb) (int (write_index rb)) p 0 (int s - int (write_index rb)) = Some b"
      "memcpy b 0 p (int s - int (write_index rb)) (int n - (int s - int (write_index rb))) = Some b'"
      and wr: "rb_wrote rb p n (rb\<lparr>buffer_ptr := b', write_mirror := \<not> write_mirror rb, write_index := ?w\<rparr>)"
      using rb_copy_wrap [OF v 2 np] by blast
    have "int n - (int s - int (write_index rb)) = int (write_index rb + n - s)" using 2 by simp
    then have w: "?w = write_index rb + n - s" using s np by (simp del: of_nat_diff of_nat_add)
    show ?thesis
      by (rule that [OF _ put_force_wrap [OF v 2 np wr _ refl]]) (use g b w in \<open>simp_all add: pf\<close>)
  qed
qed

section \<open>The ring buffer is a bounded queue\<close>

lemma put_contents:
  assumes v: "rb_view rb s d" and n: "n = min len (s - d)" and len: "len \<le> length ptr"
  shows "\<exists>rb'. rt_ringbuffer_put rb ptr len = Some (rb', n) \<and> rb_view rb' s (d + n) \<and>
    rb_contents rb' = rb_contents rb @ take n ptr"
proof (rule put_wrote [OF v n len])
  fix rb' assume e: "rt_ringbuffer_put rb ptr len = Some (rb', n)"
    and c: "n = 0 \<and> rb' = rb \<or> rb_wrote rb ptr n rb'"
  have "d + n \<le> s" "n \<le> length ptr" using v n len by (auto simp: rb_view_def)
  then have "rb_view rb' s (d + n)" "rb_contents rb' = rb_contents rb @ take n ptr"
    using c v rb_wrote_append [OF v, of n ptr rb'] by auto
  with e show ?thesis by blast
qed

text \<open>Whole-block transfers as a client of the queue sees them.\<close>

definition rb_put_all :: "rt_ringbuffer \<Rightarrow> u8 list \<Rightarrow> (rt_ringbuffer \<times> nat) option" where
  "rb_put_all rb xs = rt_ringbuffer_put rb xs (length xs)"

definition rb_get_upto :: "rt_ringbuffer \<Rightarrow> nat \<Rightarrow> (rt_ringbuffer \<times> u8 list) option" where
  "rb_get_upto rb n = map_option (\<lambda>(rb', out, k). (rb', take k out))
     (rt_ringbuffer_get rb (replicate n 0) n)"

interpretation rb: block_fifo rb_inv rb_contents rb_size rb_put_all rb_get_upto
proof
  fix rb :: rt_ringbuffer and n :: nat and xs :: "u8 list"
  assume i: "rb_inv rb"
  obtain s where v: "rb_view rb s (rt_ringbuffer_data_len rb)" by (rule rb_inv_view [OF i])
  let ?d = "rt_ringbuffer_data_len rb"
  note vs = rb_view_simps [OF v]
  show "length (rb_contents rb) \<le> rb_size rb"
    using v by (simp add: vs(4)) (simp add: rb_view_def)
  show "\<exists>rb'. rb_put_all rb xs = Some (rb', n) \<and> rb_inv rb' \<and>
      rb_contents rb' = rb_contents rb @ take n xs \<and> rb_size rb' = rb_size rb"
    if "n = min (length xs) (rb_size rb - length (rb_contents rb))"
  proof -
    have "n = min (length xs) (s - ?d)" using that by (simp add: vs(4))
    from put_contents [OF v this order.refl] show ?thesis
      by (auto simp: rb_put_all_def vs(4) rb_view_simps(4) dest: rb_view_inv)
  qed
  show "\<exists>rb'. rb_get_upto rb n = Some (rb', take n (rb_contents rb)) \<and> rb_inv rb' \<and>
      rb_contents rb' = drop n (rb_contents rb) \<and> rb_size rb' = rb_size rb"
  proof -
    let ?k = "min n ?d"
    have g: "rb_get_upto rb n = Some (rb_advance rb ?k, take ?k (rb_contents rb))"
      by (simp add: rb_get_upto_def get_refines [OF v refl])
    have a: "rb_view (rb_advance rb ?k) s (?d - ?k)"
      "rb_contents (rb_advance rb ?k) = drop ?k (rb_contents rb)"
      by (rule rb_advance_drop [OF v]; simp)+
    have td: "take ?k (rb_contents rb) = take n (rb_contents rb)"
      "drop ?k (rb_contents rb) = drop n (rb_contents rb)" by (simp_all add: min_def)
    show ?thesis using g a rb_view_inv [OF a(1)] by (simp add: td vs(4) rb_view_simps(4) [OF a(1)])
  qed
qed

section \<open>Properties of the ring buffer\<close>

text \<open>\<^verbatim>\<open>rt_ringbuffer_put\<close> is memory safe on every state of the invariant and every source
  block of at least the given length; it appends the longest prefix that fits, returns its
  length, and keeps the invariant and the size.\<close>

theorem rt_ringbuffer_put_correct:
  assumes "rb_inv rb" "len \<le> length ptr"
  shows "\<exists>rb'. rt_ringbuffer_put rb ptr len = Some (rb', min len (rt_ringbuffer_space_len rb)) \<and>
    rb_inv rb' \<and> buffer_size rb' = buffer_size rb \<and>
    rb_contents rb' = rb_contents rb @ take (min len (rt_ringbuffer_space_len rb)) ptr"
proof -
  obtain s where v: "rb_view rb s (rt_ringbuffer_data_len rb)" by (rule rb_inv_view [OF assms(1)])
  show ?thesis
    using put_contents [OF v refl assms(2)] rb_view_simps(2,3) [OF v] rb_view_simps(3)
    by (metis rb_view_inv)
qed

definition rb_demo :: rt_ringbuffer where
  "rb_demo = rt_ringbuffer_init (replicate 9 0) 9"

lemma rb_demo_inv [simp]: "rb_inv rb_demo"
  by (simp add: rb_demo_def rt_ringbuffer_init_def rb_inv_def)

theorem rt_ringbuffer_put_correct_witness:
  "\<exists>rb'. rt_ringbuffer_put rb_demo [1, 2, 3] 3 = Some (rb', 3) \<and> rb_contents rb' = [1, 2, 3]"
proof -
  have "rt_ringbuffer_space_len rb_demo = 8" "rb_contents rb_demo = []"
    by (simp_all add: rb_demo_def rt_ringbuffer_init_def rt_ringbuffer_space_len_def rb_contents_def
        rt_ringbuffer_data_len_def rt_ringbuffer_status_def)
  then show ?thesis using rt_ringbuffer_put_correct [OF rb_demo_inv, of 3 "[1, 2, 3]"] by auto
qed

text \<open>\<^verbatim>\<open>rt_ringbuffer_get\<close> is memory safe for every destination block of at least the given
  length; it moves the oldest bytes, in order, to the front of the block, leaves the rest of
  the block alone and keeps the invariant.\<close>

theorem rt_ringbuffer_get_correct:
  assumes "rb_inv rb" "len \<le> length ptr"
  shows "\<exists>rb'. rt_ringbuffer_get rb ptr len =
      Some (rb', take len (rb_contents rb) @ drop (min len (rt_ringbuffer_data_len rb)) ptr,
            min len (rt_ringbuffer_data_len rb)) \<and>
    rb_inv rb' \<and> buffer_size rb' = buffer_size rb \<and> rb_contents rb' = drop len (rb_contents rb)"
proof -
  obtain s where v: "rb_view rb s (rt_ringbuffer_data_len rb)" by (rule rb_inv_view [OF assms(1)])
  let ?k = "min len (rt_ringbuffer_data_len rb)"
  have a: "rb_view (rb_advance rb ?k) s (rt_ringbuffer_data_len rb - ?k)"
    "rb_contents (rb_advance rb ?k) = drop ?k (rb_contents rb)"
    by (rule rb_advance_drop [OF v]; simp)+
  have "take ?k (rb_contents rb) = take len (rb_contents rb)"
    "drop ?k (rb_contents rb) = drop len (rb_contents rb)" by (simp_all add: min_def)
  then show ?thesis
    using get_refines [OF v refl assms(2)] a rb_view_inv [OF a(1)]
    by (simp add: rb_advance_def)
qed

theorem rt_ringbuffer_get_correct_witness:
  "\<exists>rb'. rt_ringbuffer_get rb_demo [7, 7] 2 = Some (rb', [7, 7], 0) \<and> rb_inv rb'"
proof -
  have "rt_ringbuffer_data_len rb_demo = 0" "rb_contents rb_demo = []"
    by (simp_all add: rb_demo_def rt_ringbuffer_init_def rb_contents_def
        rt_ringbuffer_data_len_def rt_ringbuffer_status_def)
  then show ?thesis using rt_ringbuffer_get_correct [OF rb_demo_inv, of 2 "[7, 7]"] by auto
qed

text \<open>C27: Stream integrity.  Over any history of block writes and reads that starts in a
  state of the invariant no access leaves the pool, and the bytes delivered followed by those
  still buffered are the bytes buffered at the start followed by those accepted: nothing is
  lost, duplicated or reordered.\<close>

theorem rt_ringbuffer_stream:
  assumes "rb_inv rb"
  shows "\<exists>rb' acc del. block_run rb_put_all rb_get_upto rb ops = Some (rb', acc, del) \<and>
    rb_inv rb' \<and> rb_contents rb @ acc = del @ rb_contents rb'"
  using rb.block_history [OF assms, of ops] by blast

theorem rt_ringbuffer_stream_witness:
  "\<exists>rb' acc del. block_run rb_put_all rb_get_upto rb_demo
     [PutBlock [1, 2, 3, 4, 5, 6], GetBlock 4, PutBlock [7, 8, 9], GetBlock 9] = Some (rb', acc, del) \<and>
    rb_contents rb_demo @ acc = del @ rb_contents rb'"
  using rt_ringbuffer_stream [OF rb_demo_inv,
      of "[PutBlock [1, 2, 3, 4, 5, 6], GetBlock 4, PutBlock [7, 8, 9], GetBlock 9]"] by blast

text \<open>The single-byte operations.  \<^verbatim>\<open>putchar\<close> appends the byte when there is room and does
  nothing otherwise; \<^verbatim>\<open>getchar\<close> removes the oldest byte when there is one; \<^verbatim>\<open>putchar_force\<close>
  always appends, dropping exactly the oldest byte of a full buffer.\<close>

theorem rt_ringbuffer_char_ops:
  assumes "rb_inv rb"
  shows "(\<exists>rb'. rt_ringbuffer_putchar rb ch = Some (rb', min 1 (rt_ringbuffer_space_len rb)) \<and>
      rb_inv rb' \<and> rb_contents rb' =
        (if rt_ringbuffer_space_len rb = 0 then rb_contents rb else rb_contents rb @ [ch])) \<and>
    (\<exists>rb'. rt_ringbuffer_getchar rb = Some (rb', (case rb_contents rb of [] \<Rightarrow> None | c # _ \<Rightarrow> Some c),
        min 1 (rt_ringbuffer_data_len rb)) \<and> rb_inv rb' \<and> rb_contents rb' = tl (rb_contents rb)) \<and>
    (\<exists>rb'. rt_ringbuffer_putchar_force rb ch = Some (rb', 1) \<and> rb_inv rb' \<and> rb_contents rb' =
        (if rt_ringbuffer_space_len rb = 0 then tl (rb_contents rb) else rb_contents rb) @ [ch])"
proof (intro conjI)
  let ?d = "rt_ringbuffer_data_len rb"
  obtain s where v: "rb_view rb s ?d" by (rule rb_inv_view [OF assms])
  have sp: "rt_ringbuffer_space_len rb = s - ?d" and ds: "?d \<le> s" "0 < s"
    using rb_view_simps(2) [OF v] v by (auto simp: rb_view_def)
  have adv: "rb_view (rb_advance rb (min 1 ?d)) s (?d - min 1 ?d)"
    "rb_contents (rb_advance rb (min 1 ?d)) = tl (rb_contents rb)"
    using rb_advance_drop [OF v, of "min 1 ?d"]
    by (auto simp: drop_Suc min_def rb_contents_def split: if_splits)
  show "\<exists>rb'. rt_ringbuffer_putchar rb ch = Some (rb', min 1 (rt_ringbuffer_space_len rb)) \<and>
      rb_inv rb' \<and> rb_contents rb' =
        (if rt_ringbuffer_space_len rb = 0 then rb_contents rb else rb_contents rb @ [ch])"
  proof (rule putchar_wrote [OF v, of ch])
    fix rb' assume "rt_ringbuffer_putchar rb ch = Some (rb', min 1 (s - ?d))"
      "s - ?d = 0 \<and> rb' = rb \<or> rb_wrote rb [ch] (min 1 (s - ?d)) rb'"
    then show ?thesis
      using rb_wrote_append [OF v, of "min 1 (s - ?d)" "[ch]" rb'] assms sp ds rb_view_inv
      by (cases "s - ?d = 0") auto
  qed
  show "\<exists>rb'. rt_ringbuffer_getchar rb = Some (rb', (case rb_contents rb of [] \<Rightarrow> None | c # _ \<Rightarrow> Some c),
        min 1 ?d) \<and> rb_inv rb' \<and> rb_contents rb' = tl (rb_contents rb)"
    using getchar_refines [OF v] adv rb_view_inv [OF adv(1)] by simp
  show "\<exists>rb'. rt_ringbuffer_putchar_force rb ch = Some (rb', 1) \<and> rb_inv rb' \<and> rb_contents rb' =
        (if rt_ringbuffer_space_len rb = 0 then tl (rb_contents rb) else rb_contents rb) @ [ch]"
  proof (rule putchar_force_wrote [OF v, of ch])
    fix rb' assume e: "rt_ringbuffer_putchar_force rb ch = Some (rb', 1)"
      and c: "if ?d = s then rb_wrote (rb_advance rb 1) [ch] 1 rb' else rb_wrote rb [ch] 1 rb'"
    show ?thesis
    proof (cases "?d = s")
      case True
      then show ?thesis
        using e c adv ds sp rb_view_inv rb_wrote_append [of "rb_advance rb 1" s "s - 1" 1 "[ch]" rb']
        by (auto simp: min_def split: if_splits)
    next
      case False
      then show ?thesis using e c ds sp rb_view_inv rb_wrote_append [OF v, of 1 "[ch]" rb'] by auto
    qed
  qed
qed

theorem rt_ringbuffer_char_ops_witness:
  "\<exists>rb'. rt_ringbuffer_putchar rb_demo 5 = Some (rb', 1) \<and> rb_contents rb' = [5]"
proof -
  have "rt_ringbuffer_space_len rb_demo = 8" "rb_contents rb_demo = []"
    by (simp_all add: rb_demo_def rt_ringbuffer_init_def rt_ringbuffer_space_len_def rb_contents_def
        rt_ringbuffer_data_len_def rt_ringbuffer_status_def)
  then show ?thesis using rt_ringbuffer_char_ops [OF rb_demo_inv, of 5] by auto
qed

text \<open>\<^verbatim>\<open>rt_ringbuffer_put_force\<close>.  When the block fits, or when the write index is already in
  the other mirror, the buffer afterwards holds the last \<open>buffer_size\<close> bytes of the old
  contents followed by the block.  In the remaining case (both indices in the same mirror and
  not enough room) the code flips both mirrors and the buffer reads as empty: all queued
  bytes, the new ones included, are lost.\<close>

theorem rt_ringbuffer_put_force_correct:
  assumes "rb_inv rb" "len \<le> length ptr"
  shows "\<exists>rb'. rt_ringbuffer_put_force rb ptr len = Some (rb', min len (rb_size rb)) \<and> rb_inv rb' \<and>
    rb_contents rb' =
      (let all = rb_contents rb @ take len ptr in
       if min len (rb_size rb) \<le> rt_ringbuffer_space_len rb \<or> read_mirror rb \<noteq> write_mirror rb
       then drop (length all - rb_size rb) all else [])"
proof -
  let ?d = "rt_ringbuffer_data_len rb" and ?p = "take len ptr"
  obtain s where v: "rb_view rb s ?d" by (rule rb_inv_view [OF assms(1)])
  let ?n = "min len s" and ?q = "drop (len - s) ptr"
  note vs = rb_view_simps [OF v]
  have ds: "?d \<le> s" using v by (simp add: rb_view_def)
  have q: "?n \<le> length ?q" "take ?n ?q = drop (len - s) ?p" using assms(2) by (auto simp: drop_take min_def)
  obtain rb' where e: "rt_ringbuffer_put_force rb ptr len = Some (rb', ?n)" and f: "forced rb ?q ?n s ?d rb'"
    using put_force_forced [OF v assms(2) refl refl] by blast
  have "rb_inv rb' \<and> rb_contents rb' = (let all = rb_contents rb @ ?p in
      if ?n \<le> s - ?d \<or> read_mirror rb \<noteq> write_mirror rb then drop (length all - s) all else [])"
  proof (cases "?n \<le> s - ?d")
    case True
    then have "?d + ?n \<le> s" using ds by simp
    moreover have "len \<le> s \<or> ?d = 0" using True ds by (auto simp: min_def split: if_splits)
    ultimately show ?thesis
      using f True q rb_wrote_append [OF v _ q(1), of rb'] rb_view_inv assms(2)
      by (auto simp: forced_def)
  next
    case no: False
    show ?thesis
    proof (cases "read_mirror rb = write_mirror rb")
      case True
      then have "rb_view rb' s 0" using f no by (simp add: forced_def)
      then show ?thesis using True no rb_view_inv by (simp add: rb_contents_def rb_view_data_len)
    next
      case False
      let ?k = "?d + ?n - s"
      have wr: "rb_wrote (rb_advance rb ?k) ?q ?n rb'" using f no False by (simp add: forced_def)
      have k: "?k \<le> ?d" by simp
      have "?d - ?k + ?n \<le> s" using no by simp
      note w = rb_wrote_append [OF rb_advance_drop(1) [OF v k] this q(1) wr]
      have "?d + len - s - ?d = len - s" "?k = ?d \<or> len \<le> s" using ds by (auto simp: min_def)
      then have "rb_contents rb' = drop (?d + len - s) (rb_contents rb @ ?p)"
        using w(2) rb_advance_drop(2) [OF v k] q(2) by (auto simp: min_def)
      then show ?thesis using w(1) rb_view_inv False assms(2) by (simp add: min_absorb2)
    qed
  qed
  then show ?thesis unfolding vs(4) vs(2) using e by blast
qed

definition rb_demo_mid :: rt_ringbuffer where
  "rb_demo_mid = \<lparr>buffer_ptr = [0, 1, 2, 3, 4, 5, 6, 7], read_mirror = False, read_index = 2,
     write_mirror = False, write_index = 6, buffer_size = 8\<rparr>"

theorem rt_ringbuffer_put_force_correct_witness:
  "\<exists>rb'. rt_ringbuffer_put_force rb_demo_mid [10, 11, 12, 13, 14, 15] 6 = Some (rb', 6) \<and>
    rb_contents rb' = []"
proof -
  have "rb_inv rb_demo_mid" "rb_size rb_demo_mid = 8" "rt_ringbuffer_space_len rb_demo_mid = 4"
    by (simp_all add: rb_demo_mid_def rb_inv_def rb_size_def rt_ringbuffer_space_len_def
        rt_ringbuffer_data_len_def rt_ringbuffer_status_def)
  moreover have "read_mirror rb_demo_mid = write_mirror rb_demo_mid" by (simp add: rb_demo_mid_def)
  ultimately show ?thesis
    using rt_ringbuffer_put_force_correct [of rb_demo_mid 6 "[10, 11, 12, 13, 14, 15]"] by auto
qed

text \<open>Initialisation, creation and reset give empty buffers of the aligned size.\<close>

lemma rt_ringbuffer_init_ok:
  assumes "4 \<le> sz" "sz < 2 ^ 15" "sz \<le> int (length pool)"
  shows "rb_inv (rt_ringbuffer_init pool sz)" "rb_contents (rt_ringbuffer_init pool sz) = []"
    "rb_size (rt_ringbuffer_init pool sz) = RT_ALIGN_DOWN (nat sz)"
proof -
  have "sz mod 4 < 4" "0 \<le> sz mod 4" by simp_all
  with assms show "rb_inv (rt_ringbuffer_init pool sz)"
    by (auto simp: rb_inv_def rt_ringbuffer_init_def)
  show "rb_contents (rt_ringbuffer_init pool sz) = []"
    by (simp add: rt_ringbuffer_init_def rt_ringbuffer_data_len_def rt_ringbuffer_status_def)
  show "rb_size (rt_ringbuffer_init pool sz) = RT_ALIGN_DOWN (nat sz)"
    using assms by (simp add: rt_ringbuffer_init_def rb_size_def RT_ALIGN_DOWN_def nat_diff_distrib nat_mod_distrib)
qed

lemma rt_ringbuffer_reset_ok:
  "rb_inv rb \<Longrightarrow> rb_inv (rt_ringbuffer_reset rb)"
  "rb_contents (rt_ringbuffer_reset rb) = []"
  "rb_size (rt_ringbuffer_reset rb) = rb_size rb"
  by (auto simp: rb_inv_def rb_size_def rt_ringbuffer_reset_def rt_ringbuffer_data_len_def
      rt_ringbuffer_status_def split: if_splits)

lemma rt_ringbuffer_create_ok:
  assumes "4 \<le> sz" "sz < 2 ^ 15" "\<And>n p. rt_malloc n = Some p \<Longrightarrow> n \<le> length p"
    and "rt_ringbuffer_create rb_ok rt_malloc sz = Some rb"
  shows "rb_inv rb \<and> rb_contents rb = [] \<and> rb_size rb = RT_ALIGN_DOWN sz"
proof -
  let ?s = "RT_ALIGN_DOWN sz"
  obtain pool where p: "rt_malloc ?s = Some pool" "rb = rt_ringbuffer_init pool (to_s16 (int ?s))"
    using assms(4) by (auto simp: rt_ringbuffer_create_def Let_def split: if_splits option.splits)
  have "?s < 2 ^ 15" using assms(2) by (rule le_less_trans [OF RT_ALIGN_DOWN_le])
  moreover have "4 \<le> ?s" using assms(1) unfolding RT_ALIGN_DOWN_def by presburger
  ultimately show ?thesis
    using rt_ringbuffer_init_ok [of "int ?s" pool] assms(3) [OF p(1)] p(2) by simp
qed

end
