(* ===== verification/Kstate.thy ===== *)
theory Kstate
  imports Prelude
begin

text \<open>
  The state of the RT-Thread kernel as the scheduler, the timers, the threads and the object
  container share it: the structures of \<^verbatim>\<open>rt-thread/include/rtdef.h\<close> and the globals of
  \<^verbatim>\<open>scheduler.c\<close>, \<^verbatim>\<open>timer.c\<close>, \<^verbatim>\<open>clock.c\<close> and \<^verbatim>\<open>object.c\<close>.

  Intrusive doubly linked lists are kept as the sequence of their nodes (\<open>tlists\<close>, \<open>tmlists\<close>,
  \<open>object_list\<close>); the embedded list node of a thread, a timer or an object is the name of the
  list it is linked into (\<open>None\<close>: the node points to itself).  Linking a node that is already
  linked corrupts two lists in C; here it raises \<open>fault\<close>, as do a failing \<^verbatim>\<open>RT_ASSERT\<close> and a
  null dereference, so that \<open>fault\<close> staying clear is part of what is proved.
\<close>

section \<open>Constants\<close>

abbreviation (input) RT_THREAD_INIT :: u8 where "RT_THREAD_INIT \<equiv> 0"
abbreviation (input) RT_THREAD_READY :: u8 where "RT_THREAD_READY \<equiv> 1"
abbreviation (input) RT_THREAD_SUSPEND :: u8 where "RT_THREAD_SUSPEND \<equiv> 2"
abbreviation (input) RT_THREAD_RUNNING :: u8 where "RT_THREAD_RUNNING \<equiv> 3"
abbreviation (input) RT_THREAD_CLOSE :: u8 where "RT_THREAD_CLOSE \<equiv> 4"
abbreviation (input) RT_THREAD_STAT_MASK :: u8 where "RT_THREAD_STAT_MASK \<equiv> 7"
abbreviation (input) RT_THREAD_STAT_YIELD :: u8 where "RT_THREAD_STAT_YIELD \<equiv> 8"

abbreviation (input) RT_TIMER_FLAG_ACTIVATED :: u8 where "RT_TIMER_FLAG_ACTIVATED \<equiv> 1"
abbreviation (input) RT_TIMER_FLAG_PERIODIC :: u8 where "RT_TIMER_FLAG_PERIODIC \<equiv> 2"
abbreviation (input) RT_TIMER_FLAG_SOFT_TIMER :: u8 where "RT_TIMER_FLAG_SOFT_TIMER \<equiv> 4"

abbreviation (input) RT_TICK_HALF :: u32 where "RT_TICK_HALF \<equiv> 0x7fffffff"

definition RT_Object_Class_Thread :: u8 where "RT_Object_Class_Thread = 1"
definition RT_Object_Class_Semaphore :: u8 where "RT_Object_Class_Semaphore = 2"
definition RT_Object_Class_Mutex :: u8 where "RT_Object_Class_Mutex = 3"
definition RT_Object_Class_Event :: u8 where "RT_Object_Class_Event = 4"
definition RT_Object_Class_MailBox :: u8 where "RT_Object_Class_MailBox = 5"
definition RT_Object_Class_MessageQueue :: u8 where "RT_Object_Class_MessageQueue = 6"
definition RT_Object_Class_MemPool :: u8 where "RT_Object_Class_MemPool = 8"
definition RT_Object_Class_Device :: u8 where "RT_Object_Class_Device = 9"
definition RT_Object_Class_Timer :: u8 where "RT_Object_Class_Timer = 10"
definition RT_Object_Class_Unknown :: u8 where "RT_Object_Class_Unknown = 12"
definition RT_Object_Class_Static :: u8 where "RT_Object_Class_Static = 0x80"

definition RT_NAME_MAX :: nat where "RT_NAME_MAX = 8"

section \<open>Structures\<close>

text \<open>Objects are named by their kind and address; the timer inside a thread has its own name.\<close>

type_synonym tid = nat

datatype tmid = Thread_Timer tid | Timer nat

datatype oref = Thread_Obj tid | Timer_Obj tmid | Sem_Obj nat | Mutex_Obj nat | Event_Obj nat
  | Mailbox_Obj nat | Mq_Obj nat | Mempool_Obj nat | Dataq_Obj nat | Device_Obj nat

text \<open>The lists a thread's \<^verbatim>\<open>tlist\<close> node can be in: a ready queue, the waiters (or waiting senders)
  of an IPC object, or the list of defunct threads.\<close>

datatype lid = Ready nat | Suspend_Thread oref | Suspend_Sender oref | Defunct

datatype tlid = Hard_Timers | Soft_Timers

text \<open>Timer callbacks: \<^verbatim>\<open>rt_thread_timeout\<close> with its thread, or a function of the application.\<close>

datatype timeout_fn = Thread_Timeout tid | User_Timeout nat

record rt_thread =
  stat :: u8
  current_priority :: u8
  init_priority :: u8
  number_mask :: u32
  event_set :: u32
  event_info :: u8
  init_tick :: u32
  remaining_tick :: u32
  error :: rt_err
  has_cleanup :: bool
  tlist :: "lid option"

record rt_timer =
  timer_flag :: u8
  timeout_func :: timeout_fn
  timer_init_tick :: u32
  timeout_tick :: u32
  row :: "tlid option"

record rt_object =
  obj_name :: string
  obj_type :: u8
  obj_node :: "u8 option"

record kernel =
  thr :: "tid \<Rightarrow> rt_thread"
  tlists :: "lid \<Rightarrow> tid list"
  rt_thread_ready_priority_group :: u32
  rt_current_thread :: "tid option"
  rt_current_priority :: u8
  rt_scheduler_lock_nest :: int
  rt_tick :: u32
  tmr :: "tmid \<Rightarrow> rt_timer"
  tmlists :: "tlid \<Rightarrow> tmid list"
  random_nr :: u32
  objs :: "oref \<Rightarrow> rt_object"
  object_list :: "u8 \<Rightarrow> oref list"
  fault :: bool

section \<open>Primitive updates\<close>

definition rt_assert :: "bool \<Rightarrow> kernel \<Rightarrow> kernel" where
  "rt_assert b s = (if b then s else s\<lparr>fault := True\<rparr>)"

definition upd_thr :: "tid \<Rightarrow> (rt_thread \<Rightarrow> rt_thread) \<Rightarrow> kernel \<Rightarrow> kernel" where
  "upd_thr t f s = s\<lparr>thr := (thr s)(t := f (thr s t))\<rparr>"

definition upd_tmr :: "tmid \<Rightarrow> (rt_timer \<Rightarrow> rt_timer) \<Rightarrow> kernel \<Rightarrow> kernel" where
  "upd_tmr m f s = s\<lparr>tmr := (tmr s)(m := f (tmr s m))\<rparr>"

definition upd_obj :: "oref \<Rightarrow> (rt_object \<Rightarrow> rt_object) \<Rightarrow> kernel \<Rightarrow> kernel" where
  "upd_obj o' f s = s\<lparr>objs := (objs s)(o' := f (objs s o'))\<rparr>"

text \<open>\<^verbatim>\<open>thread->stat = v | (thread->stat & ~RT_THREAD_STAT_MASK)\<close>\<close>

definition set_stat :: "u8 \<Rightarrow> u8 \<Rightarrow> u8" where
  "set_stat v x = v OR (x AND NOT RT_THREAD_STAT_MASK)"

abbreviation tstat :: "kernel \<Rightarrow> tid \<Rightarrow> u8" where
  "tstat s t \<equiv> stat (thr s t) AND RT_THREAD_STAT_MASK"

text \<open>\<^verbatim>\<open>rt_list_remove(&thread->tlist)\<close>, and insertion of the node into a list that becomes \<open>xs\<close>.\<close>

definition thread_unlink :: "tid \<Rightarrow> kernel \<Rightarrow> kernel" where
  "thread_unlink t s =
     (case tlist (thr s t) of
        None \<Rightarrow> s
      | Some l \<Rightarrow> upd_thr t (\<lambda>x. x\<lparr>tlist := None\<rparr>) s\<lparr>tlists := (tlists s)(l := remove1 t (tlists s l))\<rparr>)"

definition thread_link :: "lid \<Rightarrow> tid list \<Rightarrow> tid \<Rightarrow> kernel \<Rightarrow> kernel" where
  "thread_link l xs t s =
     (case tlist (thr s t) of
        None \<Rightarrow> upd_thr t (\<lambda>x. x\<lparr>tlist := Some l\<rparr>) s\<lparr>tlists := (tlists s)(l := xs)\<rparr>
      | Some _ \<Rightarrow> s\<lparr>fault := True\<rparr>)"

definition thread_insert_before :: "lid \<Rightarrow> tid \<Rightarrow> kernel \<Rightarrow> kernel" where
  "thread_insert_before l t s = thread_link l (tlists s l @ [t]) t s"

definition thread_insert_after :: "lid \<Rightarrow> tid \<Rightarrow> kernel \<Rightarrow> kernel" where
  "thread_insert_after l t s = thread_link l (t # tlists s l) t s"

text \<open>The same for the one row of a timer (\<^verbatim>\<open>RT_TIMER_SKIP_LIST_LEVEL\<close> is 1).\<close>

definition timer_unlink :: "tmid \<Rightarrow> kernel \<Rightarrow> kernel" where
  "timer_unlink m s =
     (case row (tmr s m) of
        None \<Rightarrow> s
      | Some l \<Rightarrow> upd_tmr m (\<lambda>x. x\<lparr>row := None\<rparr>) s\<lparr>tmlists := (tmlists s)(l := remove1 m (tmlists s l))\<rparr>)"

definition timer_link :: "tlid \<Rightarrow> tmid list \<Rightarrow> tmid \<Rightarrow> kernel \<Rightarrow> kernel" where
  "timer_link l xs m s =
     (case row (tmr s m) of
        None \<Rightarrow> upd_tmr m (\<lambda>x. x\<lparr>row := Some l\<rparr>) s\<lparr>tmlists := (tmlists s)(l := xs)\<rparr>
      | Some _ \<Rightarrow> s\<lparr>fault := True\<rparr>)"

text \<open>The same for the container node of an object.\<close>

definition object_unlink :: "oref \<Rightarrow> kernel \<Rightarrow> kernel" where
  "object_unlink o' s =
     (case obj_node (objs s o') of
        None \<Rightarrow> s
      | Some c \<Rightarrow> upd_obj o' (\<lambda>x. x\<lparr>obj_node := None\<rparr>)
                    s\<lparr>object_list := (object_list s)(c := remove1 o' (object_list s c))\<rparr>)"

definition object_insert_after :: "u8 \<Rightarrow> oref \<Rightarrow> kernel \<Rightarrow> kernel" where
  "object_insert_after c o' s =
     (case obj_node (objs s o') of
        None \<Rightarrow> upd_obj o' (\<lambda>x. x\<lparr>obj_node := Some c\<rparr>)
                  s\<lparr>object_list := (object_list s)(c := o' # object_list s c)\<rparr>
      | Some _ \<Rightarrow> s\<lparr>fault := True\<rparr>)"

section \<open>Basic facts\<close>

lemma stat_masks [simp]:
  "set_stat RT_THREAD_READY x AND RT_THREAD_STAT_MASK = RT_THREAD_READY"
  "set_stat RT_THREAD_SUSPEND x AND RT_THREAD_STAT_MASK = RT_THREAD_SUSPEND"
  "set_stat RT_THREAD_RUNNING x AND RT_THREAD_STAT_MASK = RT_THREAD_RUNNING"
  by (simp_all add: set_stat_def bit.conj_disj_distrib2 and.assoc)

lemma stat_mask_yield [simp]:
  "(x OR RT_THREAD_STAT_YIELD) AND RT_THREAD_STAT_MASK = x AND RT_THREAD_STAT_MASK"
  "(x AND - 9) AND RT_THREAD_STAT_MASK = x AND RT_THREAD_STAT_MASK"
proof -
  show "(x OR RT_THREAD_STAT_YIELD) AND RT_THREAD_STAT_MASK = x AND RT_THREAD_STAT_MASK"
    by (simp add: bit.conj_disj_distrib2)
  show "(x AND - 9) AND RT_THREAD_STAT_MASK = x AND RT_THREAD_STAT_MASK"
    by (simp add: and.assoc)
qed

lemma stat_ne [simp]:
  "RT_THREAD_READY \<noteq> RT_THREAD_SUSPEND" "RT_THREAD_READY \<noteq> RT_THREAD_RUNNING"
  "RT_THREAD_SUSPEND \<noteq> RT_THREAD_RUNNING" "RT_THREAD_READY \<noteq> RT_THREAD_CLOSE"
  "RT_THREAD_SUSPEND \<noteq> RT_THREAD_CLOSE" "RT_THREAD_RUNNING \<noteq> RT_THREAD_CLOSE"
  "RT_THREAD_SUSPEND \<noteq> RT_THREAD_READY" "RT_THREAD_RUNNING \<noteq> RT_THREAD_READY"
  "RT_THREAD_RUNNING \<noteq> RT_THREAD_SUSPEND" "RT_THREAD_CLOSE \<noteq> RT_THREAD_READY"
  "RT_THREAD_CLOSE \<noteq> RT_THREAD_SUSPEND" "RT_THREAD_CLOSE \<noteq> RT_THREAD_RUNNING"
  by simp_all

lemma rt_assert_True [simp]: "rt_assert True s = s"
  by (simp add: rt_assert_def)

lemma rt_assert_holds: "b \<Longrightarrow> rt_assert b s = s"
  by (simp add: rt_assert_def)

end
