(* ===== verification/Ffs.thy ===== *)
theory Ffs
  imports Prelude
begin

text \<open>
  Find-first-set, \<^verbatim>\<open>__rt_ffs\<close> of \<^verbatim>\<open>rt-thread/src/kservice.c\<close>, with its 256-entry table.  The
  scheduler turns the bitmap of ready priorities into the highest ready priority with it, so
  its correctness is what makes the selection a search for the minimum.
\<close>

definition lowest_bit_bitmap :: "nat list" where
  "lowest_bit_bitmap = [
     0, 0, 1, 0, 2, 0, 1, 0, 3, 0, 1, 0, 2, 0, 1, 0,
     4, 0, 1, 0, 2, 0, 1, 0, 3, 0, 1, 0, 2, 0, 1, 0,
     5, 0, 1, 0, 2, 0, 1, 0, 3, 0, 1, 0, 2, 0, 1, 0,
     4, 0, 1, 0, 2, 0, 1, 0, 3, 0, 1, 0, 2, 0, 1, 0,
     6, 0, 1, 0, 2, 0, 1, 0, 3, 0, 1, 0, 2, 0, 1, 0,
     4, 0, 1, 0, 2, 0, 1, 0, 3, 0, 1, 0, 2, 0, 1, 0,
     5, 0, 1, 0, 2, 0, 1, 0, 3, 0, 1, 0, 2, 0, 1, 0,
     4, 0, 1, 0, 2, 0, 1, 0, 3, 0, 1, 0, 2, 0, 1, 0,
     7, 0, 1, 0, 2, 0, 1, 0, 3, 0, 1, 0, 2, 0, 1, 0,
     4, 0, 1, 0, 2, 0, 1, 0, 3, 0, 1, 0, 2, 0, 1, 0,
     5, 0, 1, 0, 2, 0, 1, 0, 3, 0, 1, 0, 2, 0, 1, 0,
     4, 0, 1, 0, 2, 0, 1, 0, 3, 0, 1, 0, 2, 0, 1, 0,
     6, 0, 1, 0, 2, 0, 1, 0, 3, 0, 1, 0, 2, 0, 1, 0,
     4, 0, 1, 0, 2, 0, 1, 0, 3, 0, 1, 0, 2, 0, 1, 0,
     5, 0, 1, 0, 2, 0, 1, 0, 3, 0, 1, 0, 2, 0, 1, 0,
     4, 0, 1, 0, 2, 0, 1, 0, 3, 0, 1, 0, 2, 0, 1, 0]"

definition rt_ffs :: "u32 \<Rightarrow> nat" where
  "rt_ffs v =
     (if v = 0 then 0
      else if v AND 0xff \<noteq> 0 then lowest_bit_bitmap ! unat (v AND 0xff) + 1
      else if v AND 0xff00 \<noteq> 0 then lowest_bit_bitmap ! unat (drop_bit 8 (v AND 0xff00)) + 9
      else if v AND 0xff0000 \<noteq> 0 then lowest_bit_bitmap ! unat (drop_bit 16 (v AND 0xff0000)) + 17
      else lowest_bit_bitmap ! unat (drop_bit 24 (v AND 0xff000000)) + 25)"

section \<open>The table\<close>

definition is_lowest :: "nat \<Rightarrow> nat \<Rightarrow> bool" where
  "is_lowest i v \<longleftrightarrow> bit i v \<and> (\<forall>k < v. \<not> bit i k)"

text \<open>The table doubles with every index bit: the upper half repeats the lower one but for its
  first entry.\<close>

fun lowest_table :: "nat \<Rightarrow> nat list" where
  "lowest_table 0 = [0]"
| "lowest_table (Suc k) = lowest_table k @ k # tl (lowest_table k)"

lemma lowest_table_length [simp]: "length (lowest_table k) = 2 ^ k"
  by (induction k) simp_all

lemma bit_add_pow:
  assumes "j < 2 ^ k"
  shows "bit (2 ^ k + j :: nat) n \<longleftrightarrow> (if n < k then bit j n else n = k)"
proof -
  have "bit j k = False" "\<And>m. k \<le> m \<Longrightarrow> \<not> bit j m" using assms
    by (simp_all add: bit_iff_odd div_less order.strict_trans2 power_increasing)
  moreover have "2 ^ k + j = (2 ^ k :: nat) OR j"
    using calculation by (intro disjunctive_add_eq_or [THEN trans, OF _ refl] bit_eqI) (auto simp: bit_simps)
  ultimately show ?thesis by (auto simp: bit_simps)
qed

lemma lowest_table_correct: "\<lbrakk>0 < i; i < 2 ^ k\<rbrakk> \<Longrightarrow> is_lowest i (lowest_table k ! i)"
proof (induction k arbitrary: i)
  case (Suc k)
  consider "i < 2 ^ k" | "i = 2 ^ k" | j where "i = 2 ^ k + j" "0 < j" "j < 2 ^ k"
    using Suc.prems by (metis add_less_cancel_left le_add_diff_inverse mult_2 not_less_iff_gr_or_eq
        power_Suc zero_less_diff nat_less_le)
  then show ?case
  proof cases
    case 1
    then show ?thesis using Suc by (simp add: nth_append)
  next
    case 2
    then show ?thesis by (auto simp: nth_append is_lowest_def bit_simps)
  next
    case (3 j)
    then have "is_lowest j (lowest_table k ! j)" by (intro Suc.IH)
    moreover have "lowest_table (Suc k) ! i = lowest_table k ! j"
      using 3 by (simp add: nth_append nth_tl nth_Cons')
    moreover have "lowest_table k ! j < k"
    proof (rule ccontr)
      assume "\<not> lowest_table k ! j < k"
      then have "(2::nat) ^ k \<le> 2 ^ (lowest_table k ! j)" by (intro power_increasing) auto
      then have "j < 2 ^ (lowest_table k ! j)" using 3(3) by linarith
      then have "\<not> bit j (lowest_table k ! j)" by (simp add: bit_iff_odd)
      then show False using calculation(1) by (simp add: is_lowest_def)
    qed
    ultimately show ?thesis using 3 bit_add_pow [OF 3(3)] by (simp add: is_lowest_def)
  qed
qed simp

lemma lowest_bit_bitmap_table: "lowest_bit_bitmap = lowest_table 8"
  by (simp add: lowest_bit_bitmap_def numeral_eq_Suc)

section \<open>Correctness\<close>

lemma ffs_byte:
  fixes v :: u32
  assumes "unat (drop_bit n (v AND push_bit n 0xff)) = i" "v AND push_bit n 0xff \<noteq> 0" "n \<le> 24"
    and low: "\<And>k. k < n \<Longrightarrow> \<not> bit v k"
  shows "bit v (lowest_bit_bitmap ! i + n) \<and> (\<forall>k < lowest_bit_bitmap ! i + n. \<not> bit v k)"
proof -
  have ff: "(0xff :: u32) = mask 8" by (simp add: mask_eq_exp_minus_1)
  have b: "bit i k \<longleftrightarrow> k < 8 \<and> bit v (n + k)" for k
    using assms(3) unfolding assms(1) [symmetric] ff
    by (auto simp: bit_simps dest: bit_imp_le_length)
  have lt: "i < 2 ^ 8"
  proof -
    have "take_bit 8 i = i" by (rule bit_eqI) (auto simp: bit_simps b)
    then show ?thesis by (metis take_bit_nat_less_exp)
  qed
  have "0 < i"
  proof (rule ccontr)
    assume "\<not> 0 < i"
    then have "\<not> bit v (n + k)" if "k < 8" for k using b [of k] that by simp
    then have "v AND push_bit n 0xff = 0"
      unfolding ff by (intro bit_word_eqI) (auto simp: bit_simps, metis le_add_diff_inverse)
    then show False using assms(2) by simp
  qed
  then have "is_lowest i (lowest_bit_bitmap ! i)"
    unfolding lowest_bit_bitmap_table using lt by (rule lowest_table_correct)
  then have l: "bit i (lowest_bit_bitmap ! i)" "\<And>k. k < lowest_bit_bitmap ! i \<Longrightarrow> \<not> bit i k"
    by (auto simp: is_lowest_def)
  have "\<not> bit v k" if "k < lowest_bit_bitmap ! i + n" for k
  proof (cases "k < n")
    case False
    then have "\<not> bit i (k - n)" using that l(2) by simp
    moreover have "k - n < 8" using that l(1) b [of "lowest_bit_bitmap ! i"] False by linarith
    ultimately show ?thesis using b [of "k - n"] False by simp
  qed (rule low)
  then show ?thesis using l(1) b [of "lowest_bit_bitmap ! i"] by (auto simp: add.commute)
qed

lemma no_low_bits:
  fixes v :: u32
  assumes "v AND push_bit n 0xff = 0" "n \<le> 24" "k < n + 8" and low: "\<And>k. k < n \<Longrightarrow> \<not> bit v k"
  shows "\<not> bit v k"
proof (cases "k < n")
  case False
  have ff: "(0xff :: u32) = mask 8" by (simp add: mask_eq_exp_minus_1)
  have "bit (v AND push_bit n 0xff) k = bit v k"
    unfolding ff using False assms(2,3) by (auto simp: bit_simps)
  then show ?thesis using assms(1) by simp
qed (rule low)

lemma word_eq_0_bits: "(v :: 'a::len word) \<noteq> 0 \<Longrightarrow> \<exists>k < LENGTH('a). bit v k"
  by (metis bit_word_eqI bit_0_eq bot_apply bot_bool_def)

lemma ffs_lowest:
  assumes v: "v \<noteq> 0"
  shows "bit v (rt_ffs v - 1)" "\<And>k. k < rt_ffs v - 1 \<Longrightarrow> \<not> bit v k" "0 < rt_ffs v" "rt_ffs v \<le> 32"
proof -
  have r: "bit v (rt_ffs v - 1) \<and> (\<forall>k < rt_ffs v - 1. \<not> bit v k) \<and> 0 < rt_ffs v"
  proof -
    have p: "push_bit 0 0xff = (0xff :: u32)" "push_bit 8 0xff = (0xff00 :: u32)"
      "push_bit 16 0xff = (0xff0000 :: u32)" "push_bit 24 0xff = (0xff000000 :: u32)" by simp_all
    note byte = ffs_byte [where v = v] and low = no_low_bits [where v = v]
    show ?thesis
    proof (cases "v AND 0xff = 0")
      case False
      then show ?thesis using byte [of 0] v by (simp add: rt_ffs_def)
    next
      case b0: True
      have l0: "\<not> bit v k" if "k < 8" for k using low [of 0 k] that b0 by simp
      show ?thesis
      proof (cases "v AND 0xff00 = 0")
        case False
        then show ?thesis using byte [of 8, unfolded p] v b0 l0 by (simp add: rt_ffs_def add.commute)
      next
        case b1: True
        have l1: "\<not> bit v k" if "k < 16" for k using low [of 8 k, unfolded p] that b1 l0 by simp
        show ?thesis
        proof (cases "v AND 0xff0000 = 0")
          case False
          then show ?thesis using byte [of 16, unfolded p] v b0 b1 l1 by (simp add: rt_ffs_def add.commute)
        next
          case b2: True
          have l2: "\<not> bit v k" if "k < 24" for k using low [of 16 k, unfolded p] that b2 l1 by simp
          have "v AND 0xff000000 \<noteq> 0"
          proof
            assume "v AND 0xff000000 = 0"
            then have "\<not> bit v k" if "k < 32" for k using low [of 24 k, unfolded p] that l2 by simp
            then show False using word_eq_0_bits [OF v] by auto
          qed
          then show ?thesis using byte [of 24, unfolded p] v b0 b1 b2 l2 by (simp add: rt_ffs_def add.commute)
        qed
      qed
    qed
  qed
  then show "bit v (rt_ffs v - 1)" "\<And>k. k < rt_ffs v - 1 \<Longrightarrow> \<not> bit v k" "0 < rt_ffs v" by auto
  have "rt_ffs v - 1 < 32" using r bit_imp_le_length [of v "rt_ffs v - 1"] by simp
  then show "rt_ffs v \<le> 32" by simp
qed

text \<open>Find-first-set.  For a non-zero bitmap \<^verbatim>\<open>__rt_ffs\<close> returns one more than the number of
  the lowest set bit (for zero it returns zero), so \<^verbatim>\<open>__rt_ffs(group) - 1\<close> is the smallest
  priority number present in the group.\<close>

theorem rt_ffs_lowest:
  "(rt_ffs 0 = 0) \<and> (v \<noteq> 0 \<longrightarrow> 0 < rt_ffs v \<and> rt_ffs v \<le> 32 \<and> bit v (rt_ffs v - 1) \<and>
     (\<forall>k < rt_ffs v - 1. \<not> bit v k))"
  using ffs_lowest [of v] by (auto simp: rt_ffs_def)

theorem rt_ffs_lowest_witness: "(0x50 :: u32) \<noteq> 0 \<and> bit (0x50 :: u32) (rt_ffs 0x50 - 1)"
  using rt_ffs_lowest [of "0x50"] by simp

end
