(* ===== verification/Sched.thy ===== *)
theory Sched
  imports Kstate Ffs
begin

text \<open>
  The single-core scheduler of \<^verbatim>\<open>rt-thread/src/scheduler.c\<close>: the ready queues with their
  bitmap, the selection of the next thread and the scheduler lock.  The kernel invariant
  \<open>kinv\<close> of this theory ties the bitmap, the queues, the list nodes and the thread states
  together; every operation here is shown to keep it, and \<^verbatim>\<open>rt_schedule\<close> to leave a thread
  running that no ready thread outranks.
\<close>

section \<open>Operations\<close>

text \<open>\<open>None\<close> is the entry computed from the head of an empty ready queue.\<close>

definition get_highest_priority_thread :: "kernel \<Rightarrow> nat \<times> tid option" where
  "get_highest_priority_thread s =
     (let highest_ready_priority = rt_ffs (rt_thread_ready_priority_group s) - 1 in
      (highest_ready_priority,
       case tlists s (Ready highest_ready_priority) of [] \<Rightarrow> None | t # _ \<Rightarrow> Some t))"

definition rt_schedule_insert_thread :: "tid \<Rightarrow> kernel \<Rightarrow> kernel" where
  "rt_schedule_insert_thread t s =
     (if rt_current_thread s = Some t
      then upd_thr t (\<lambda>x. x\<lparr>stat := set_stat RT_THREAD_RUNNING (stat x)\<rparr>) s
      else
        let s1 = upd_thr t (\<lambda>x. x\<lparr>stat := set_stat RT_THREAD_READY (stat x)\<rparr>) s;
            s2 = thread_insert_before (Ready (unat (current_priority (thr s1 t)))) t s1
        in s2\<lparr>rt_thread_ready_priority_group :=
               rt_thread_ready_priority_group s2 OR number_mask (thr s2 t)\<rparr>)"

definition rt_schedule_remove_thread :: "tid \<Rightarrow> kernel \<Rightarrow> kernel" where
  "rt_schedule_remove_thread t s =
     (let s1 = thread_unlink t s in
      if tlists s1 (Ready (unat (current_priority (thr s1 t)))) = []
      then s1\<lparr>rt_thread_ready_priority_group :=
                rt_thread_ready_priority_group s1 AND NOT (number_mask (thr s1 t))\<rparr>
      else s1)"

definition rt_schedule :: "kernel \<Rightarrow> kernel" where
  "rt_schedule s =
     (if rt_scheduler_lock_nest s = 0 \<and> rt_thread_ready_priority_group s \<noteq> 0
      then
        let (highest_ready_priority, highest) = get_highest_priority_thread s in
        case (rt_current_thread s, highest) of
          (Some c, Some h) \<Rightarrow>
            let cur = thr s c;
                running = stat cur AND RT_THREAD_STAT_MASK = RT_THREAD_RUNNING;
                prio = unat (current_priority cur);
                keep = running \<and>
                  (prio < highest_ready_priority \<or>
                   (prio = highest_ready_priority \<and> stat cur AND RT_THREAD_STAT_YIELD = 0));
                s1 = (if running \<and> \<not> keep
                      then upd_thr c (\<lambda>x. x\<lparr>stat := stat x AND NOT RT_THREAD_STAT_YIELD\<rparr>) s else s);
                need_insert_from_thread = running \<and> \<not> keep;
                to_thread = (if keep then c else h)
            in if to_thread \<noteq> c
               then
                 let s2 = s1\<lparr>rt_current_priority := word_of_nat highest_ready_priority,
                             rt_current_thread := Some to_thread\<rparr>;
                     s3 = (if need_insert_from_thread then rt_schedule_insert_thread c s2 else s2);
                     s4 = rt_schedule_remove_thread to_thread s3
                 in upd_thr to_thread (\<lambda>x. x\<lparr>stat := set_stat RT_THREAD_RUNNING (stat x)\<rparr>) s4
               else
                 upd_thr c (\<lambda>x. x\<lparr>stat := set_stat RT_THREAD_RUNNING (stat x)\<rparr>)
                   (rt_schedule_remove_thread c s1)
        | _ \<Rightarrow> s\<lparr>fault := True\<rparr>
      else s)"

definition rt_system_scheduler_init :: "kernel \<Rightarrow> kernel" where
  "rt_system_scheduler_init s =
     s\<lparr>rt_scheduler_lock_nest := 0,
       tlists := (\<lambda>l. case l of Ready p \<Rightarrow> if p < 32 then [] else tlists s l | Defunct \<Rightarrow> []
                   | _ \<Rightarrow> tlists s l),
       rt_thread_ready_priority_group := 0\<rparr>"

definition rt_system_scheduler_start :: "kernel \<Rightarrow> kernel" where
  "rt_system_scheduler_start s =
     (case snd (get_highest_priority_thread s) of
        None \<Rightarrow> s\<lparr>fault := True\<rparr>
      | Some to_thread \<Rightarrow>
          upd_thr to_thread (\<lambda>x. x\<lparr>stat := RT_THREAD_RUNNING\<rparr>)
            (rt_schedule_remove_thread to_thread (s\<lparr>rt_current_thread := Some to_thread\<rparr>)))"

definition rt_enter_critical :: "kernel \<Rightarrow> kernel" where
  "rt_enter_critical s = s\<lparr>rt_scheduler_lock_nest := to_s16 (rt_scheduler_lock_nest s + 1)\<rparr>"

definition rt_exit_critical :: "kernel \<Rightarrow> kernel" where
  "rt_exit_critical s =
     (let n = to_s16 (rt_scheduler_lock_nest s - 1) in
      if n \<le> 0
      then let s1 = s\<lparr>rt_scheduler_lock_nest := 0\<rparr>
           in (if rt_current_thread s1 \<noteq> None then rt_schedule s1 else s1)
      else s\<lparr>rt_scheduler_lock_nest := n\<rparr>)"

definition rt_critical_level :: "kernel \<Rightarrow> nat" where
  "rt_critical_level s = nat (rt_scheduler_lock_nest s mod 2 ^ 16)"

section \<open>The kernel invariant\<close>

text \<open>The list nodes and the lists agree.\<close>

definition links_ok :: "kernel \<Rightarrow> bool" where
  "links_ok s \<longleftrightarrow> (\<forall>l. distinct (tlists s l) \<and> set (tlists s l) = {t. tlist (thr s t) = Some l})"

text \<open>A priority is ready in the bitmap exactly when its queue has a thread.\<close>

definition bitmap_ok :: "kernel \<Rightarrow> bool" where
  "bitmap_ok s \<longleftrightarrow> (\<forall>p. bit (rt_thread_ready_priority_group s) p \<longleftrightarrow> tlists s (Ready p) \<noteq> [])"

text \<open>One thread: \<open>c\<close> tells whether it is the current one, \<open>m\<close> whether its timer is queued.
  READY means queued at its own priority, waiters and sleepers are SUSPENDed, only the current
  thread is RUNNING, and the priority mask of a started thread is the bit of its current
  priority.\<close>

definition mask_ok :: "rt_thread \<Rightarrow> bool" where
  "mask_ok x \<longleftrightarrow> unat (current_priority x) < 32 \<and> number_mask x = push_bit (unat (current_priority x)) 1"

definition node_ok :: "lid option \<Rightarrow> u8 \<Rightarrow> nat \<Rightarrow> bool" where
  "node_ok l st prio \<longleftrightarrow>
     (case l of
        None \<Rightarrow> st \<noteq> RT_THREAD_READY
      | Some (Ready p) \<Rightarrow> st = RT_THREAD_READY \<and> p = prio
      | Some (Suspend_Thread _) \<Rightarrow> st = RT_THREAD_SUSPEND
      | Some (Suspend_Sender _) \<Rightarrow> st = RT_THREAD_SUSPEND
      | Some Defunct \<Rightarrow> st = RT_THREAD_CLOSE)"

definition thread_ok :: "bool \<Rightarrow> bool \<Rightarrow> rt_thread \<Rightarrow> bool" where
  "thread_ok c m x \<longleftrightarrow>
     (let st = stat x AND RT_THREAD_STAT_MASK in
      node_ok (tlist x) st (unat (current_priority x)) \<and>
      (st = RT_THREAD_RUNNING \<longrightarrow> c) \<and> (c \<longrightarrow> st \<noteq> RT_THREAD_READY) \<and>
      (m \<longrightarrow> st = RT_THREAD_SUSPEND) \<and>
      (if st \<in> {RT_THREAD_READY, RT_THREAD_SUSPEND, RT_THREAD_RUNNING}
       then mask_ok x else mask_ok x \<or> number_mask x = 0))"

text \<open>The other fields of a thread do not matter.\<close>

lemma mask_ok_fields [simp]:
  "mask_ok (x\<lparr>stat := st\<rparr>) = mask_ok x" "mask_ok (x\<lparr>tlist := l\<rparr>) = mask_ok x"
  "mask_ok (x\<lparr>error := e\<rparr>) = mask_ok x" "mask_ok (x\<lparr>event_set := ev\<rparr>) = mask_ok x"
  "mask_ok (x\<lparr>event_info := ei\<rparr>) = mask_ok x" "mask_ok (x\<lparr>remaining_tick := rt\<rparr>) = mask_ok x"
  by (simp_all add: mask_ok_def)

lemma thread_ok_stat:
  "st AND RT_THREAD_STAT_MASK = stat x AND RT_THREAD_STAT_MASK \<Longrightarrow> thread_ok c m (x\<lparr>stat := st\<rparr>) = thread_ok c m x"
  by (simp add: thread_ok_def)

lemma thread_ok_fields [simp]:
  "thread_ok c m (x\<lparr>error := e\<rparr>) = thread_ok c m x"
  "thread_ok c m (x\<lparr>event_set := ev\<rparr>) = thread_ok c m x"
  "thread_ok c m (x\<lparr>event_info := ei\<rparr>) = thread_ok c m x"
  "thread_ok c m (x\<lparr>remaining_tick := rt\<rparr>) = thread_ok c m x"
  "thread_ok c m (x\<lparr>init_tick := it\<rparr>) = thread_ok c m x"
  "thread_ok c m (x\<lparr>init_priority := ip\<rparr>) = thread_ok c m x"
  "thread_ok c m (x\<lparr>has_cleanup := cl\<rparr>) = thread_ok c m x"
  by (simp_all add: thread_ok_def mask_ok_def)

text \<open>Timers: the rows and the lists agree, a queued timer is active and in the list its flag
  names, and the timer of a thread is a one-shot hard timer that wakes this thread.\<close>

definition timer_links_ok :: "kernel \<Rightarrow> bool" where
  "timer_links_ok s \<longleftrightarrow> (\<forall>l. distinct (tmlists s l) \<and> set (tmlists s l) = {m. row (tmr s m) = Some l})"

definition timer_ok :: "tmid \<Rightarrow> rt_timer \<Rightarrow> bool" where
  "timer_ok m x \<longleftrightarrow>
     (row x \<noteq> None \<longrightarrow> bit (timer_flag x) 0 \<and> (row x = Some Soft_Timers \<longleftrightarrow> bit (timer_flag x) 2)) \<and>
     (case m of
        Thread_Timer t \<Rightarrow> row x \<noteq> None \<longrightarrow>
          timeout_func x = Thread_Timeout t \<and> \<not> bit (timer_flag x) 1 \<and> \<not> bit (timer_flag x) 2
      | Timer _ \<Rightarrow> \<forall>t. timeout_func x \<noteq> Thread_Timeout t)"

text \<open>The invariant with the threads of \<open>X\<close> exempt (operations break it for the threads they
  move between lists), and the invariant itself.\<close>

abbreviation timer_queued :: "kernel \<Rightarrow> tid \<Rightarrow> bool" where
  "timer_queued s t \<equiv> row (tmr s (Thread_Timer t)) \<noteq> None"

definition kinv_but :: "tid set \<Rightarrow> kernel \<Rightarrow> bool" where
  "kinv_but X s \<longleftrightarrow> links_ok s \<and> bitmap_ok s \<and> timer_links_ok s \<and> (\<forall>m. timer_ok m (tmr s m)) \<and>
     (\<forall>t. t \<notin> X \<longrightarrow> thread_ok (rt_current_thread s = Some t) (timer_queued s t) (thr s t))"

definition kinv :: "kernel \<Rightarrow> bool" where
  "kinv s = kinv_but {} s"

lemma kinv_butD:
  assumes "kinv_but X s"
  shows "links_ok s" "bitmap_ok s" "timer_links_ok s" "timer_ok m (tmr s m)"
    "t \<notin> X \<Longrightarrow> thread_ok (rt_current_thread s = Some t) (timer_queued s t) (thr s t)"
  using assms by (simp_all add: kinv_but_def)

lemma kinv_butI:
  assumes "links_ok s" "bitmap_ok s" "timer_links_ok s" "\<And>m. timer_ok m (tmr s m)"
    "\<And>t. t \<notin> X \<Longrightarrow> thread_ok (rt_current_thread s = Some t) (timer_queued s t) (thr s t)"
  shows "kinv_but X s"
  using assms by (simp add: kinv_but_def)

lemma kinv_but_mono: "kinv_but X s \<Longrightarrow> X \<subseteq> Y \<Longrightarrow> kinv_but Y s"
  by (auto simp: kinv_but_def)

section \<open>Frame rules of the primitive updates\<close>

lemma upd_thr_simps [simp]:
  "thr (upd_thr t f s) = (thr s)(t := f (thr s t))" "tlists (upd_thr t f s) = tlists s"
  "rt_thread_ready_priority_group (upd_thr t f s) = rt_thread_ready_priority_group s"
  "rt_current_thread (upd_thr t f s) = rt_current_thread s"
  "rt_current_priority (upd_thr t f s) = rt_current_priority s"
  "rt_scheduler_lock_nest (upd_thr t f s) = rt_scheduler_lock_nest s" "rt_tick (upd_thr t f s) = rt_tick s"
  "tmr (upd_thr t f s) = tmr s" "tmlists (upd_thr t f s) = tmlists s" "random_nr (upd_thr t f s) = random_nr s"
  "objs (upd_thr t f s) = objs s" "object_list (upd_thr t f s) = object_list s"
  "fault (upd_thr t f s) = fault s"
  by (simp_all add: upd_thr_def)

lemma upd_tmr_simps [simp]:
  "tmr (upd_tmr t f s) = (tmr s)(t := f (tmr s t))" "tlists (upd_tmr t f s) = tlists s"
  "rt_thread_ready_priority_group (upd_tmr t f s) = rt_thread_ready_priority_group s"
  "rt_current_thread (upd_tmr t f s) = rt_current_thread s"
  "rt_current_priority (upd_tmr t f s) = rt_current_priority s"
  "rt_scheduler_lock_nest (upd_tmr t f s) = rt_scheduler_lock_nest s" "rt_tick (upd_tmr t f s) = rt_tick s"
  "thr (upd_tmr t f s) = thr s" "tmlists (upd_tmr t f s) = tmlists s" "random_nr (upd_tmr t f s) = random_nr s"
  "objs (upd_tmr t f s) = objs s" "object_list (upd_tmr t f s) = object_list s"
  "fault (upd_tmr t f s) = fault s"
  by (simp_all add: upd_tmr_def)

lemma thread_unlink_simps [simp]:
  "thr (thread_unlink t s) = (thr s)(t := (thr s t)\<lparr>tlist := None\<rparr>)"
  "tlists (thread_unlink t s) l =
     (if tlist (thr s t) = Some l then remove1 t (tlists s l) else tlists s l)"
  "rt_thread_ready_priority_group (thread_unlink t s) = rt_thread_ready_priority_group s"
  "rt_current_thread (thread_unlink t s) = rt_current_thread s"
  "rt_current_priority (thread_unlink t s) = rt_current_priority s"
  "rt_scheduler_lock_nest (thread_unlink t s) = rt_scheduler_lock_nest s"
  "rt_tick (thread_unlink t s) = rt_tick s"
  "tmr (thread_unlink t s) = tmr s" "tmlists (thread_unlink t s) = tmlists s"
  "random_nr (thread_unlink t s) = random_nr s"
  "objs (thread_unlink t s) = objs s" "object_list (thread_unlink t s) = object_list s"
  "fault (thread_unlink t s) = fault s"
  by (auto simp: thread_unlink_def fun_eq_iff split: option.splits)

lemma thread_link_simps:
  assumes "tlist (thr s t) = None"
  shows
  "thr (thread_link l xs t s) = (thr s)(t := (thr s t)\<lparr>tlist := Some l\<rparr>)"
  "tlists (thread_link l xs t s) = (tlists s)(l := xs)"
  "fault (thread_link l xs t s) = fault s"
  using assms by (simp_all add: thread_link_def)

lemma thread_link_frame [simp]:
  "rt_thread_ready_priority_group (thread_link l xs t s) = rt_thread_ready_priority_group s"
  "rt_current_thread (thread_link l xs t s) = rt_current_thread s"
  "rt_current_priority (thread_link l xs t s) = rt_current_priority s"
  "rt_scheduler_lock_nest (thread_link l xs t s) = rt_scheduler_lock_nest s"
  "rt_tick (thread_link l xs t s) = rt_tick s"
  "tmr (thread_link l xs t s) = tmr s" "tmlists (thread_link l xs t s) = tmlists s"
  "random_nr (thread_link l xs t s) = random_nr s"
  "objs (thread_link l xs t s) = objs s" "object_list (thread_link l xs t s) = object_list s"
  by (simp_all add: thread_link_def split: option.splits)

lemma links_ok_unlink: "links_ok s \<Longrightarrow> links_ok (thread_unlink t s)"
  by (auto simp: links_ok_def distinct_remove1)

lemma links_ok_link:
  assumes "links_ok s" "tlist (thr s t) = None" "distinct xs" "set xs = insert t (set (tlists s l))"
  shows "links_ok (thread_link l xs t s)"
  using assms by (auto simp: links_ok_def thread_link_simps)

section \<open>Insertion and removal keep the invariant\<close>

lemma thread_ok_mask:
  "thread_ok c m x \<Longrightarrow> mask_ok x \<or> number_mask x = 0"
  "\<lbrakk>thread_ok c m x; stat x AND RT_THREAD_STAT_MASK \<in> {RT_THREAD_READY, RT_THREAD_SUSPEND, RT_THREAD_RUNNING}\<rbrakk>
    \<Longrightarrow> mask_ok x"
  by (auto simp: thread_ok_def Let_def split: if_splits)

lemma bit_mask_ok: "mask_ok x \<Longrightarrow> bit (number_mask x) p \<longleftrightarrow> p = unat (current_priority x)"
  by (auto simp: mask_ok_def bit_simps)

lemma bit_mask_any: "\<lbrakk>mask_ok x \<or> number_mask x = 0; bit (number_mask x) p\<rbrakk> \<Longrightarrow> p = unat (current_priority x)"
  by (auto simp: bit_mask_ok)

lemma remove_thread_simps [simp]:
  "thr (rt_schedule_remove_thread t s) = (thr s)(t := (thr s t)\<lparr>tlist := None\<rparr>)"
  "tlists (rt_schedule_remove_thread t s) l =
     (if tlist (thr s t) = Some l then remove1 t (tlists s l) else tlists s l)"
  "rt_current_thread (rt_schedule_remove_thread t s) = rt_current_thread s"
  "rt_current_priority (rt_schedule_remove_thread t s) = rt_current_priority s"
  "rt_scheduler_lock_nest (rt_schedule_remove_thread t s) = rt_scheduler_lock_nest s"
  "rt_tick (rt_schedule_remove_thread t s) = rt_tick s"
  "tmr (rt_schedule_remove_thread t s) = tmr s" "tmlists (rt_schedule_remove_thread t s) = tmlists s"
  "random_nr (rt_schedule_remove_thread t s) = random_nr s"
  "objs (rt_schedule_remove_thread t s) = objs s" "object_list (rt_schedule_remove_thread t s) = object_list s"
  "fault (rt_schedule_remove_thread t s) = fault s"
  by (simp_all add: rt_schedule_remove_thread_def Let_def)

lemma links_ok_cong: "\<lbrakk>links_ok s; thr s' = thr s; tlists s' = tlists s\<rbrakk> \<Longrightarrow> links_ok s'"
  by (simp add: links_ok_def)

lemma links_ok_remove: "links_ok s \<Longrightarrow> links_ok (rt_schedule_remove_thread t s)"
  by (auto simp: links_ok_def distinct_remove1)

lemma bitmap_ok_remove:
  assumes "links_ok s" "bitmap_ok s" "mask_ok (thr s t) \<or> number_mask (thr s t) = 0"
    and rdy: "\<And>p. tlist (thr s t) = Some (Ready p) \<Longrightarrow> mask_ok (thr s t) \<and> p = unat (current_priority (thr s t))"
  shows "bitmap_ok (rt_schedule_remove_thread t s)"
proof -
  let ?p = "unat (current_priority (thr s t))"
  let ?s = "rt_schedule_remove_thread t s"
  have g: "rt_thread_ready_priority_group ?s = (if tlists ?s (Ready ?p) = []
      then rt_thread_ready_priority_group s AND NOT (number_mask (thr s t))
      else rt_thread_ready_priority_group s)"
    by (simp add: rt_schedule_remove_thread_def Let_def)
  show ?thesis
    unfolding bitmap_ok_def
  proof
    fix p
    have old: "bit (rt_thread_ready_priority_group s) p \<longleftrightarrow> tlists s (Ready p) \<noteq> []"
      using assms(2) by (simp add: bitmap_ok_def)
    have len: "p < 32" if "bit (rt_thread_ready_priority_group s) p"
      using bit_imp_le_length [OF that] by simp
    show "bit (rt_thread_ready_priority_group ?s) p \<longleftrightarrow> tlists ?s (Ready p) \<noteq> []"
    proof (cases "p = ?p")
      case True
      show ?thesis
      proof (cases "tlists ?s (Ready ?p) = []")
        case E: True
        have "\<not> bit (rt_thread_ready_priority_group s AND NOT (number_mask (thr s t))) p"
        proof (cases "mask_ok (thr s t)")
          case m: True
          then show ?thesis using bit_mask_ok [OF m, of p] True by (simp add: bit_simps)
        next
          case False
          then have "tlists s (Ready p) = []" using E rdy True by (simp split: if_splits)
          then show ?thesis using old by (simp add: bit_simps)
        qed
        then show ?thesis using E True unfolding g by simp
      next
        case False
        then have "tlists s (Ready ?p) \<noteq> []" by (auto split: if_splits)
        then show ?thesis using False old True unfolding g by simp
      qed
    next
      case False
      then have "tlists ?s (Ready p) = tlists s (Ready p)" using rdy by auto
      then show ?thesis using old len False bit_mask_any [OF assms(3), of p] unfolding g
        by (auto simp: bit_simps)
    qed
  qed
qed

lemma kinv_but_remove:
  assumes "kinv_but X s" "t \<notin> X \<or> mask_ok (thr s t) \<and> (\<forall>p. tlist (thr s t) = Some (Ready p) \<longrightarrow> p = unat (current_priority (thr s t)))"
  shows "kinv_but (insert t X) (rt_schedule_remove_thread t s)"
proof (rule kinv_butI)
  note k = kinv_butD [OF assms(1)]
  show "links_ok (rt_schedule_remove_thread t s)" by (rule links_ok_remove [OF k(1)])
  show "bitmap_ok (rt_schedule_remove_thread t s)"
  proof (rule bitmap_ok_remove [OF k(1,2)])
    show "mask_ok (thr s t) \<or> number_mask (thr s t) = 0"
      using assms(2) thread_ok_mask(1) k(5) by blast
    fix p assume "tlist (thr s t) = Some (Ready p)"
    then show "mask_ok (thr s t) \<and> p = unat (current_priority (thr s t))"
      using assms(2) k(5) [of t] thread_ok_mask(2) [OF k(5), of t]
      by (auto simp: thread_ok_def node_ok_def Let_def)
  qed
  show "timer_links_ok (rt_schedule_remove_thread t s)" using k(3) by (simp add: timer_links_ok_def)
qed (use kinv_butD(4,5) [OF assms(1)] in auto)

lemma links_ok_upd:
  assumes "tlist (f (thr s t)) = tlist (thr s t)"
  shows "links_ok (upd_thr t f s) = links_ok s"
proof -
  have "tlist (((thr s)(t := f (thr s t))) x) = tlist (thr s x)" for x using assms by simp
  then show ?thesis unfolding links_ok_def upd_thr_simps by simp
qed

lemma kinv_but_upd:
  assumes "kinv_but X s" "tlist (f (thr s t)) = tlist (thr s t)"
    and "\<And>t'. t' \<notin> Y \<Longrightarrow> t' = t \<or> t' \<notin> X"
    and "t \<notin> Y \<Longrightarrow> thread_ok (rt_current_thread s = Some t) (timer_queued s t) (f (thr s t))"
  shows "kinv_but Y (upd_thr t f s)"
proof (rule kinv_butI)
  note k = kinv_butD [OF assms(1)]
  show "links_ok (upd_thr t f s)" using k(1) links_ok_upd [of f s t] assms(2) by simp
  show "bitmap_ok (upd_thr t f s)" using k(2) by (simp add: bitmap_ok_def)
  show "timer_links_ok (upd_thr t f s)" using k(3) by (simp add: timer_links_ok_def)
  show "timer_ok m (tmr (upd_thr t f s) m)" for m using k(4) by simp
  fix t' assume y: "t' \<notin> Y"
  show "thread_ok (rt_current_thread (upd_thr t f s) = Some t') (timer_queued (upd_thr t f s) t')
      (thr (upd_thr t f s) t')"
    using assms(3) [OF y] assms(4) k(5) [of t'] y by (cases "t' = t") auto
qed

lemma kinv_but_thread:
  assumes "kinv_but X s" "tlist (f (thr s t)) = tlist (thr s t)"
    and "thread_ok (rt_current_thread s = Some t) (timer_queued s t) (f (thr s t))"
  shows "kinv_but (X - {t}) (upd_thr t f s)"
  by (rule kinv_but_upd [OF assms(1)]) (use assms(2,3) in auto)

lemma kinv_but_thread':
  assumes "kinv_but X s" "tlist (f (thr s t)) = tlist (thr s t)" "t \<in> X"
  shows "kinv_but X (upd_thr t f s)"
  by (rule kinv_but_upd [OF assms(1)]) (use assms(2,3) in auto)

lemma kinv_but_cong:
  assumes "kinv_but X s" "thr s' = thr s" "tlists s' = tlists s" "tmr s' = tmr s" "tmlists s' = tmlists s"
    "rt_thread_ready_priority_group s' = rt_thread_ready_priority_group s"
    "\<And>t. t \<notin> X \<Longrightarrow> (rt_current_thread s' = Some t) = (rt_current_thread s = Some t)"
  shows "kinv_but X s'"
proof (rule kinv_butI)
  note k = kinv_butD [OF assms(1)]
  show "links_ok s'" using k(1) by (simp add: links_ok_def assms(2-))
  show "bitmap_ok s'" using k(2) by (simp add: bitmap_ok_def assms(2-))
  show "timer_links_ok s'" using k(3) by (simp add: timer_links_ok_def assms(2-))
  show "timer_ok m (tmr s' m)" for m using k(4) by (simp add: assms(4))
  show "thread_ok (rt_current_thread s' = Some t) (timer_queued s' t) (thr s' t)" if "t \<notin> X" for t
    using k(5) [OF that] assms(7) [OF that] by (simp add: assms(2,4))
qed

lemma insert_thread_simps:
  assumes "tlist (thr s t) = None"
  shows "rt_current_thread s = Some t \<Longrightarrow> rt_schedule_insert_thread t s =
      upd_thr t (\<lambda>x. x\<lparr>stat := set_stat RT_THREAD_RUNNING (stat x)\<rparr>) s"
    and "rt_current_thread s \<noteq> Some t \<Longrightarrow> rt_schedule_insert_thread t s =
      (let p = unat (current_priority (thr s t)) in
       upd_thr t (\<lambda>x. x\<lparr>stat := set_stat RT_THREAD_READY (stat x), tlist := Some (Ready p)\<rparr>)
       s\<lparr>tlists := (tlists s)(Ready p := tlists s (Ready p) @ [t]),
         rt_thread_ready_priority_group := rt_thread_ready_priority_group s OR number_mask (thr s t)\<rparr>)"
  using assms
  by (simp_all add: rt_schedule_insert_thread_def thread_insert_before_def thread_link_def upd_thr_def Let_def)

lemma insert_thread_fault [simp]:
  "tlist (thr s t) = None \<Longrightarrow> fault (rt_schedule_insert_thread t s) = fault s"
  by (cases "rt_current_thread s = Some t") (simp_all add: insert_thread_simps Let_def)

lemma kinv_but_insert:
  assumes k: "kinv_but X s" and free: "tlist (thr s t) = None" and m: "mask_ok (thr s t)"
    and tm: "\<not> timer_queued s t"
  shows "kinv_but (X - {t}) (rt_schedule_insert_thread t s)"
proof (cases "rt_current_thread s = Some t")
  case True
  show ?thesis unfolding insert_thread_simps(1) [OF free True]
    by (rule kinv_but_thread [OF k]) (use True free m tm in \<open>auto simp: thread_ok_def node_ok_def mask_ok_def\<close>)
next
  case False
  let ?p = "unat (current_priority (thr s t))" and ?s = "rt_schedule_insert_thread t s"
  note e = insert_thread_simps(2) [OF free False, unfolded Let_def] and kd = kinv_butD [OF k]
  show ?thesis
  proof (rule kinv_butI)
    show "links_ok ?s" using kd(1) free by (auto simp: links_ok_def e)
    show "bitmap_ok ?s" using kd(2) bit_mask_ok [OF m] by (auto simp: bitmap_ok_def e bit_simps)
    show "timer_links_ok ?s" using kd(3) by (simp add: timer_links_ok_def e)
    show "timer_ok m (tmr ?s m)" for m using kd(4) by (simp add: e)
    show "thread_ok (rt_current_thread ?s = Some t') (timer_queued ?s t') (thr ?s t')" if "t' \<notin> X - {t}" for t'
    proof (cases "t' = t")
      case True
      then show ?thesis using False m tm by (simp add: e thread_ok_def node_ok_def mask_ok_def)
    next
      case False
      then show ?thesis using that kd(5) [of t'] by (simp add: e)
    qed
  qed
qed

section \<open>The schedule\<close>

lemma insert_thread_frame [simp]:
  "rt_current_thread (rt_schedule_insert_thread t s) = rt_current_thread s"
  "rt_current_priority (rt_schedule_insert_thread t s) = rt_current_priority s"
  "rt_scheduler_lock_nest (rt_schedule_insert_thread t s) = rt_scheduler_lock_nest s"
  "rt_tick (rt_schedule_insert_thread t s) = rt_tick s"
  "tmr (rt_schedule_insert_thread t s) = tmr s" "tmlists (rt_schedule_insert_thread t s) = tmlists s"
  "random_nr (rt_schedule_insert_thread t s) = random_nr s"
  "objs (rt_schedule_insert_thread t s) = objs s"
  "object_list (rt_schedule_insert_thread t s) = object_list s"
  by (simp_all add: rt_schedule_insert_thread_def thread_insert_before_def Let_def)

lemma rt_schedule_frame [simp]:
  "rt_scheduler_lock_nest (rt_schedule s) = rt_scheduler_lock_nest s"
  "rt_tick (rt_schedule s) = rt_tick s"
  "tmr (rt_schedule s) = tmr s" "tmlists (rt_schedule s) = tmlists s"
  "random_nr (rt_schedule s) = random_nr s"
  "objs (rt_schedule s) = objs s" "object_list (rt_schedule s) = object_list s"
  by (simp_all add: rt_schedule_def Let_def split: prod.split option.split)

text \<open>The highest ready priority: the first thread of the first non-empty queue.\<close>

lemma highest_ready:
  assumes "bitmap_ok s" "rt_thread_ready_priority_group s \<noteq> 0"
  obtains p h rest where "get_highest_priority_thread s = (p, Some h)" "p < 32"
    "tlists s (Ready p) = h # rest" "\<And>q. q < p \<Longrightarrow> tlists s (Ready q) = []"
proof -
  let ?g = "rt_thread_ready_priority_group s"
  define p where "p = rt_ffs ?g - 1"
  have f: "bit ?g p" "\<And>k. k < p \<Longrightarrow> \<not> bit ?g k" "rt_ffs ?g \<le> 32" "0 < rt_ffs ?g"
    using ffs_lowest [OF assms(2)] by (auto simp: p_def)
  have "tlists s (Ready p) \<noteq> []" "\<And>q. q < p \<Longrightarrow> tlists s (Ready q) = []"
    using assms(1) f(1,2) by (auto simp: bitmap_ok_def)
  moreover from this(1) obtain h rest where "tlists s (Ready p) = h # rest" by (cases "tlists s (Ready p)") auto
  moreover have "p < 32" using f(3,4) by (simp add: p_def)
  ultimately show ?thesis
    using that [of p h rest] by (simp add: get_highest_priority_thread_def p_def)
qed

lemma ready_thread:
  assumes "kinv s" "tlists s (Ready p) = h # rest"
  shows "tlist (thr s h) = Some (Ready p)" "tstat s h = RT_THREAD_READY"
    "unat (current_priority (thr s h)) = p" "rt_current_thread s \<noteq> Some h" "mask_ok (thr s h)"
    "\<not> timer_queued s h"
proof -
  note k = kinv_butD [OF assms(1) [unfolded kinv_def]]
  have "h \<in> {t. tlist (thr s t) = Some (Ready p)}"
    using k(1) assms(2) unfolding links_ok_def by (metis list.set_intros(1))
  then show l: "tlist (thr s h) = Some (Ready p)" by simp
  have ok: "thread_ok (rt_current_thread s = Some h) (timer_queued s h) (thr s h)" by (rule k(5)) simp
  then show st: "tstat s h = RT_THREAD_READY" "unat (current_priority (thr s h)) = p"
      "rt_current_thread s \<noteq> Some h" "\<not> timer_queued s h"
    using l by (auto simp: thread_ok_def node_ok_def Let_def)
  show "mask_ok (thr s h)" using thread_ok_mask(2) [OF ok] st(1) by simp
qed

lemma ready_in_queue:
  assumes "kinv s" "tstat s t = RT_THREAD_READY"
  shows "tlist (thr s t) = Some (Ready (unat (current_priority (thr s t))))"
    "t \<in> set (tlists s (Ready (unat (current_priority (thr s t)))))"
proof -
  note k = kinv_butD [OF assms(1) [unfolded kinv_def]]
  show l: "tlist (thr s t) = Some (Ready (unat (current_priority (thr s t))))"
    using k(5) [of t] assms(2)
    by (auto simp: thread_ok_def node_ok_def Let_def split: option.splits lid.splits)
  show "t \<in> set (tlists s (Ready (unat (current_priority (thr s t)))))"
    using k(1) l by (simp add: links_ok_def)
qed

text \<open>The decision of \<^verbatim>\<open>rt_schedule\<close>: the running thread \<open>c\<close> keeps the processor against the
  highest ready priority \<open>p\<close>.\<close>

definition keeps_cpu :: "rt_thread \<Rightarrow> nat \<Rightarrow> bool" where
  "keeps_cpu x p \<longleftrightarrow> stat x AND RT_THREAD_STAT_MASK = RT_THREAD_RUNNING \<and>
     (unat (current_priority x) < p \<or>
      unat (current_priority x) = p \<and> stat x AND RT_THREAD_STAT_YIELD = 0)"

lemma set_stat_running_id:
  assumes "stat x AND RT_THREAD_STAT_MASK = RT_THREAD_RUNNING"
  shows "set_stat RT_THREAD_RUNNING (stat x) = stat x"
proof -
  have "set_stat RT_THREAD_RUNNING (stat x) = (stat x AND 7) OR (stat x AND NOT 7)"
    using assms by (simp add: set_stat_def)
  also have "\<dots> = stat x" by (simp flip: bit.conj_disj_distrib)
  finally show ?thesis .
qed

lemma schedule_keep:
  assumes k: "kinv s" and c: "rt_current_thread s = Some c" and l: "rt_scheduler_lock_nest s = 0"
    and g: "get_highest_priority_thread s = (p, Some h)" and keep: "keeps_cpu (thr s c) p"
  shows "rt_schedule s = s"
proof -
  note kd = kinv_butD [OF k [unfolded kinv_def]]
  have st: "tstat s c = RT_THREAD_RUNNING" using keep by (simp add: keeps_cpu_def)
  have ok: "thread_ok True (timer_queued s c) (thr s c)" using kd(5) [of c] c by simp
  have n: "tlist (thr s c) = None" and m: "mask_ok (thr s c)"
    using ok st thread_ok_mask(2) [OF ok]
    by (auto simp: thread_ok_def node_ok_def Let_def split: option.splits lid.splits)
  have "rt_thread_ready_priority_group s AND NOT (number_mask (thr s c)) = rt_thread_ready_priority_group s"
    if "tlists s (Ready (unat (current_priority (thr s c)))) = []"
    using kd(2) that bit_mask_ok [OF m]
    by (intro bit_word_eqI) (auto simp: bitmap_ok_def bit_simps)
  moreover have "thread_unlink c s = s" by (simp add: thread_unlink_def n)
  ultimately have "rt_schedule_remove_thread c s = s"
    by (simp add: rt_schedule_remove_thread_def Let_def)
  moreover have "upd_thr c (\<lambda>x. x\<lparr>stat := set_stat RT_THREAD_RUNNING (stat x)\<rparr>) s = s"
    using set_stat_running_id [OF st] by (simp add: upd_thr_def)
  ultimately show ?thesis
    using keep by (auto simp: rt_schedule_def c l g keeps_cpu_def Let_def split: if_splits)
qed

lemma kinv_but_drop:
  "\<lbrakk>kinv_but X s; thread_ok (rt_current_thread s = Some t) (timer_queued s t) (thr s t)\<rbrakk>
    \<Longrightarrow> kinv_but (X - {t}) s"
  by (auto simp: kinv_but_def)

lemma thread_ok_demote:
  "\<lbrakk>thread_ok True m x; stat x AND RT_THREAD_STAT_MASK \<noteq> RT_THREAD_RUNNING\<rbrakk> \<Longrightarrow> thread_ok False m x"
  by (auto simp: thread_ok_def Let_def)

text \<open>The state after the running (or already blocked) thread \<open>c\<close> was switched for \<open>h\<close>.\<close>

definition switched :: "tid \<Rightarrow> tid \<Rightarrow> nat \<Rightarrow> kernel \<Rightarrow> kernel" where
  "switched c h p s =
     (let s1 = (if tstat s c = RT_THREAD_RUNNING
                then upd_thr c (\<lambda>x. x\<lparr>stat := stat x AND NOT RT_THREAD_STAT_YIELD\<rparr>) s else s);
          s2 = s1\<lparr>rt_current_priority := word_of_nat p, rt_current_thread := Some h\<rparr>;
          s3 = (if tstat s c = RT_THREAD_RUNNING then rt_schedule_insert_thread c s2 else s2)
      in upd_thr h (\<lambda>x. x\<lparr>stat := set_stat RT_THREAD_RUNNING (stat x)\<rparr>) (rt_schedule_remove_thread h s3))"

lemma schedule_switch:
  assumes "rt_current_thread s = Some c" "rt_scheduler_lock_nest s = 0"
    "rt_thread_ready_priority_group s \<noteq> 0" "get_highest_priority_thread s = (p, Some h)"
    "\<not> keeps_cpu (thr s c) p" "h \<noteq> c"
  shows "rt_schedule s = switched c h p s"
  using assms by (auto simp: rt_schedule_def switched_def keeps_cpu_def Let_def)

lemma current_ok:
  assumes "kinv s" "rt_current_thread s = Some c"
  shows "thread_ok True (timer_queued s c) (thr s c)"
  using kinv_butD(5) [OF assms(1) [unfolded kinv_def], of c] assms(2) by simp

lemma running_thread:
  assumes "kinv s" "tstat s c = RT_THREAD_RUNNING"
  shows "tlist (thr s c) = None" "mask_ok (thr s c)" "\<not> timer_queued s c" "rt_current_thread s = Some c"
proof -
  have ok: "thread_ok (rt_current_thread s = Some c) (timer_queued s c) (thr s c)"
    using kinv_butD(5) [OF assms(1) [unfolded kinv_def], of c] by simp
  then show "tlist (thr s c) = None" "\<not> timer_queued s c" "rt_current_thread s = Some c"
    using assms(2)
    by (auto simp: thread_ok_def node_ok_def Let_def split: option.splits lid.splits)
  show "mask_ok (thr s c)" using thread_ok_mask(2) [OF ok] assms(2) by simp
qed

lemma switched_thr:
  assumes k: "kinv s" and c: "rt_current_thread s = Some c" and q: "tlists s (Ready p) = h # rest"
  shows "thr (switched c h p s) = (thr s)(
      c := (if tstat s c = RT_THREAD_RUNNING
            then (thr s c)\<lparr>stat := set_stat RT_THREAD_READY (stat (thr s c) AND NOT RT_THREAD_STAT_YIELD),
                           tlist := Some (Ready (unat (current_priority (thr s c))))\<rparr> else thr s c),
      h := (thr s h)\<lparr>stat := set_stat RT_THREAD_RUNNING (stat (thr s h)), tlist := None\<rparr>)"
    and "fault (switched c h p s) = fault s"
    and "rt_current_thread (switched c h p s) = Some h"
    and "\<And>l. tlists (switched c h p s) l =
      (let xs = (if tstat s c = RT_THREAD_RUNNING \<and> l = Ready (unat (current_priority (thr s c)))
                 then tlists s l @ [c] else tlists s l)
       in if l = Ready p then tl xs else xs)"
    and "rt_current_priority (switched c h p s) = word_of_nat p"
proof -
  note h = ready_thread [OF k q]
  have ne: "c \<noteq> h" "h \<noteq> c" using h(4) c by auto
  note R = running_thread(1) [OF k, of c]
  show "thr (switched c h p s) = (thr s)(
      c := (if tstat s c = RT_THREAD_RUNNING
            then (thr s c)\<lparr>stat := set_stat RT_THREAD_READY (stat (thr s c) AND NOT RT_THREAD_STAT_YIELD),
                           tlist := Some (Ready (unat (current_priority (thr s c))))\<rparr> else thr s c),
      h := (thr s h)\<lparr>stat := set_stat RT_THREAD_RUNNING (stat (thr s h)), tlist := None\<rparr>)"
    using ne R by (cases "tstat s c = RT_THREAD_RUNNING")
      (simp_all add: switched_def Let_def insert_thread_simps(2) fun_eq_iff)
  show "fault (switched c h p s) = fault s" "rt_current_thread (switched c h p s) = Some h"
    "rt_current_priority (switched c h p s) = word_of_nat p"
    using ne R by (cases "tstat s c = RT_THREAD_RUNNING";
      simp add: switched_def Let_def insert_thread_simps(2))+
  show "tlists (switched c h p s) l =
      (let xs = (if tstat s c = RT_THREAD_RUNNING \<and> l = Ready (unat (current_priority (thr s c)))
                 then tlists s l @ [c] else tlists s l)
       in if l = Ready p then tl xs else xs)" for l
    using ne R h(1) q by (cases "tstat s c = RT_THREAD_RUNNING")
      (auto simp: switched_def Let_def insert_thread_simps(2))
qed

lemma switched_kinv:
  assumes k: "kinv s" and c: "rt_current_thread s = Some c" and q: "tlists s (Ready p) = h # rest"
  shows "kinv (switched c h p s)"
proof -
  note h = ready_thread [OF k q]
  have ne: "h \<noteq> c" using h(4) c by auto
  let ?r = "tstat s c = RT_THREAD_RUNNING"
  let ?s1 = "if ?r then upd_thr c (\<lambda>x. x\<lparr>stat := stat x AND NOT RT_THREAD_STAT_YIELD\<rparr>) s else s"
  let ?s2 = "?s1\<lparr>rt_current_priority := word_of_nat p, rt_current_thread := Some h\<rparr>"
  let ?s3 = "if ?r then rt_schedule_insert_thread c ?s2 else ?s2"
  have h3: "thr ?s3 h = thr s h" "tlist (thr ?s2 c) = tlist (thr s c)" using ne
    by (auto simp: rt_schedule_insert_thread_def thread_insert_before_def thread_link_def Let_def
        split: option.splits)
  have "kinv_but ({} - {c}) ?s1"
    using k current_ok [OF k c] c kinv_but_thread [of "{}" s "\<lambda>x. x\<lparr>stat := stat x AND NOT RT_THREAD_STAT_YIELD\<rparr>" c]
    by (auto simp: kinv_def thread_ok_def Let_def mask_ok_def)
  then have "kinv_but {c, h} ?s1" by (rule kinv_but_mono) auto
  then have k2: "kinv_but {c, h} ?s2" by (rule kinv_but_cong) (use c ne in auto)
  have k3: "kinv_but ({c, h} - {c}) ?s3"
  proof (cases ?r)
    case True
    then show ?thesis
      using kinv_but_insert [OF k2, of c] running_thread [OF k True] by (simp add: mask_ok_def)
  next
    case False
    have "thread_ok False (timer_queued s c) (thr s c)"
      by (rule thread_ok_demote [OF current_ok [OF k c] False])
    then show ?thesis using kinv_but_drop [OF k2, of c] False ne by simp
  qed
  have "kinv_but (insert h ({c, h} - {c})) (rt_schedule_remove_thread h ?s3)"
    by (rule kinv_but_remove [OF k3]) (use h h3 ne in auto)
  then have "kinv_but (insert h ({c, h} - {c}) - {h})
      (upd_thr h (\<lambda>x. x\<lparr>stat := set_stat RT_THREAD_RUNNING (stat x)\<rparr>) (rt_schedule_remove_thread h ?s3))"
    by (rule kinv_but_thread) (use h h3 ne in \<open>auto simp: thread_ok_def node_ok_def mask_ok_def\<close>)
  moreover have "insert h ({c, h} - {c}) - {h} = {}" by auto
  ultimately show ?thesis unfolding kinv_def switched_def Let_def by (simp only:)
qed

text \<open>Every outcome of \<^verbatim>\<open>rt_schedule\<close>.\<close>

lemma schedule_cases:
  assumes k: "kinv s" and c: "rt_current_thread s = Some c"
  obtains (none) "rt_schedule s = s" "rt_scheduler_lock_nest s \<noteq> 0 \<or> rt_thread_ready_priority_group s = 0"
  | (keep) p h rest where "rt_schedule s = s" "tlists s (Ready p) = h # rest" "keeps_cpu (thr s c) p"
      "\<And>q. q < p \<Longrightarrow> tlists s (Ready q) = []"
  | (switch) p h rest where "rt_schedule s = switched c h p s" "tlists s (Ready p) = h # rest"
      "\<not> keeps_cpu (thr s c) p" "\<And>q. q < p \<Longrightarrow> tlists s (Ready q) = []" "h \<noteq> c"
proof (cases "rt_scheduler_lock_nest s \<noteq> 0 \<or> rt_thread_ready_priority_group s = 0")
  case True
  then show ?thesis using none by (auto simp: rt_schedule_def)
next
  case False
  have b: "bitmap_ok s" using kinv_butD(2) [OF k [unfolded kinv_def]] .
  obtain p h rest where g: "get_highest_priority_thread s = (p, Some h)" "p < 32"
    "tlists s (Ready p) = h # rest" "\<And>q. q < p \<Longrightarrow> tlists s (Ready q) = []"
    using highest_ready [OF b] False by blast
  have ne: "h \<noteq> c" using ready_thread(4) [OF k g(3)] c by auto
  show ?thesis
  proof (cases "keeps_cpu (thr s c) p")
    case True
    then show ?thesis using keep [OF schedule_keep [OF k c _ g(1)] g(3)] False g(4) by blast
  next
    case nk: False
    then show ?thesis using switch [OF schedule_switch [OF c _ _ g(1) nk ne] g(3) nk g(4) ne] False by blast
  qed
qed

lemma schedule_kinv:
  assumes "kinv s" "rt_current_thread s \<noteq> None"
  shows "kinv (rt_schedule s)" "fault (rt_schedule s) = fault s" "rt_current_thread (rt_schedule s) \<noteq> None"
proof -
  obtain c where c: "rt_current_thread s = Some c" using assms(2) by auto
  show "kinv (rt_schedule s)" "fault (rt_schedule s) = fault s" "rt_current_thread (rt_schedule s) \<noteq> None"
    by (rule schedule_cases [OF assms(1) c];
        use assms switched_kinv [OF assms(1) c] switched_thr [OF assms(1) c] in simp)+
qed

lemma schedule_not_ready:
  assumes k: "kinv s" and c: "rt_current_thread s \<noteq> None"
    and t: "tstat s t \<noteq> RT_THREAD_READY" "tstat s t \<noteq> RT_THREAD_RUNNING"
  shows "thr (rt_schedule s) t = thr s t"
proof -
  obtain c where c: "rt_current_thread s = Some c" using c by auto
  show ?thesis
  proof (rule schedule_cases [OF k c])
    fix p h rest assume s: "rt_schedule s = switched c h p s" and q: "tlists s (Ready p) = h # rest"
    show ?thesis using t ready_thread(2) [OF k q] by (auto simp: s switched_thr(1) [OF k c q])
  qed simp_all
qed

lemma schedule_thr_fields:
  assumes k: "kinv s" and c: "rt_current_thread s \<noteq> None"
  shows "\<exists>st l. thr (rt_schedule s) t = (thr s t)\<lparr>stat := st, tlist := l\<rparr>"
proof -
  obtain c where c: "rt_current_thread s = Some c" using c by auto
  have id: "\<exists>st l. x = x\<lparr>stat := st, tlist := l\<rparr>" for x :: rt_thread
    by (rule exI [of _ "stat x"], rule exI [of _ "tlist x"]) simp
  show ?thesis
  proof (rule schedule_cases [OF k c])
    fix p h rest assume s: "rt_schedule s = switched c h p s" and q: "tlists s (Ready p) = h # rest"
    show ?thesis using id [of "thr s t"] by (auto simp: s switched_thr(1) [OF k c q])
  qed (use id in simp_all)
qed

lemma schedule_lists:
  assumes k: "kinv s" and c: "rt_current_thread s \<noteq> None" and l: "\<And>p. l \<noteq> Ready p"
  shows "tlists (rt_schedule s) l = tlists s l"
proof -
  obtain c where c: "rt_current_thread s = Some c" using c by auto
  show ?thesis
  proof (rule schedule_cases [OF k c])
    fix p h rest assume s: "rt_schedule s = switched c h p s" and q: "tlists s (Ready p) = h # rest"
    show ?thesis using l by (simp add: s switched_thr(4) [OF k c q])
  qed simp_all
qed

section \<open>Properties of the scheduler\<close>

lemma not_ready_below:
  assumes "kinv s" "\<And>q. q < p \<Longrightarrow> tlists s (Ready q) = []" "tstat s t = RT_THREAD_READY"
  shows "p \<le> unat (current_priority (thr s t))"
  using ready_in_queue(2) [OF assms(1,3)] assms(2)
  by (metis empty_iff list.set(1) not_le)

text \<open>C25: The scheduler picks by priority.  With the scheduler unlocked and at least one ready
  thread, \<^verbatim>\<open>rt_schedule\<close> leaves a RUNNING current thread that no READY thread outranks, keeps the
  kernel invariant and raises no fault; it leaves every thread that is neither READY nor
  RUNNING untouched.\<close>

theorem rt_schedule_highest_priority:
  assumes k: "kinv s" and c: "rt_current_thread s = Some c" and l: "rt_scheduler_lock_nest s = 0"
    and r: "tstat s r = RT_THREAD_READY"
  shows "kinv (rt_schedule s) \<and> fault (rt_schedule s) = fault s \<and>
    (\<exists>n. rt_current_thread (rt_schedule s) = Some n \<and> tstat (rt_schedule s) n = RT_THREAD_RUNNING \<and>
       (\<forall>t. tstat (rt_schedule s) t = RT_THREAD_READY \<longrightarrow>
          unat (current_priority (thr (rt_schedule s) n)) \<le> unat (current_priority (thr (rt_schedule s) t)))) \<and>
    (\<forall>t. tstat s t \<noteq> RT_THREAD_READY \<and> tstat s t \<noteq> RT_THREAD_RUNNING \<longrightarrow> thr (rt_schedule s) t = thr s t)"
proof (intro conjI allI impI)
  have cn: "rt_current_thread s \<noteq> None" using c by simp
  note ki = schedule_kinv [OF k cn]
  show "kinv (rt_schedule s)" "fault (rt_schedule s) = fault s" by (fact ki)+
  show "thr (rt_schedule s) t = thr s t"
    if "tstat s t \<noteq> RT_THREAD_READY \<and> tstat s t \<noteq> RT_THREAD_RUNNING" for t
    using schedule_not_ready [OF k cn] that by blast
  have gn: "rt_thread_ready_priority_group s \<noteq> 0"
    using ready_in_queue(2) [OF k r] kinv_butD(2) [OF k [unfolded kinv_def]]
    unfolding bitmap_ok_def by (metis bit_0_eq bot_apply bot_bool_def empty_iff list.set(1))
  show "\<exists>n. rt_current_thread (rt_schedule s) = Some n \<and> tstat (rt_schedule s) n = RT_THREAD_RUNNING \<and>
       (\<forall>t. tstat (rt_schedule s) t = RT_THREAD_READY \<longrightarrow>
          unat (current_priority (thr (rt_schedule s) n)) \<le> unat (current_priority (thr (rt_schedule s) t)))"
  proof (rule schedule_cases [OF k c])
    assume "rt_scheduler_lock_nest s \<noteq> 0 \<or> rt_thread_ready_priority_group s = 0"
    then show ?thesis using l gn by simp
  next
    fix p h rest
    assume s: "rt_schedule s = s" and keep: "keeps_cpu (thr s c) p"
      and low: "\<And>q. q < p \<Longrightarrow> tlists s (Ready q) = []"
    have "unat (current_priority (thr s c)) \<le> p" "tstat s c = RT_THREAD_RUNNING"
      using keep by (auto simp: keeps_cpu_def)
    then show ?thesis using c not_ready_below [OF k low] unfolding s by (meson order_trans)
  next
    fix p h rest
    assume s: "rt_schedule s = switched c h p s" and q: "tlists s (Ready p) = h # rest"
      and nk: "\<not> keeps_cpu (thr s c) p" and low: "\<And>q. q < p \<Longrightarrow> tlists s (Ready q) = []" and ne: "h \<noteq> c"
    note T = switched_thr [OF k c q] and H = ready_thread [OF k q]
    have "p \<le> unat (current_priority (thr (rt_schedule s) t))"
      if rd: "tstat (rt_schedule s) t = RT_THREAD_READY" for t
    proof -
      consider "t = h" | "t = c" "tstat s c = RT_THREAD_RUNNING" | "t \<noteq> h" "tstat s t = RT_THREAD_READY" "thr (rt_schedule s) t = thr s t"
        using rd by (cases "t = h"; cases "t = c"; cases "tstat s c = RT_THREAD_RUNNING") (auto simp: s T(1))
      then show ?thesis
      proof cases
        case 1
        then show ?thesis using H by (simp add: s T(1))
      next
        case 2
        then show ?thesis using nk ne by (auto simp: s T(1) keeps_cpu_def)
      next
        case 3
        then show ?thesis using not_ready_below [OF k low] by simp
      qed
    qed
    then show ?thesis using H by (simp add: s T)
  qed
qed

text \<open>A concrete kernel: thread 1 runs at the idle priority, thread 2 is ready at priority 5.\<close>

definition thread0 :: rt_thread where
  "thread0 = \<lparr>stat = RT_THREAD_INIT, current_priority = 0, init_priority = 0, number_mask = 0,
     event_set = 0, event_info = 0, init_tick = 0, remaining_tick = 0, error = 0, has_cleanup = False,
     tlist = None\<rparr>"

definition timer0 :: "tmid \<Rightarrow> rt_timer" where
  "timer0 m = \<lparr>timer_flag = 0, timeout_func = (case m of Thread_Timer t \<Rightarrow> Thread_Timeout t | Timer n \<Rightarrow> User_Timeout n),
     timer_init_tick = 0, timeout_tick = 0, row = None\<rparr>"

definition kernel0 :: kernel where
  "kernel0 = \<lparr>thr = (\<lambda>_. thread0), tlists = (\<lambda>_. []), rt_thread_ready_priority_group = 0,
     rt_current_thread = None, rt_current_priority = 0, rt_scheduler_lock_nest = 0, rt_tick = 0,
     tmr = timer0, tmlists = (\<lambda>_. []), random_nr = 0,
     objs = (\<lambda>_. \<lparr>obj_name = [], obj_type = 0, obj_node = None\<rparr>), object_list = (\<lambda>_. []), fault = False\<rparr>"

definition demo_base :: kernel where
  "demo_base = kernel0\<lparr>rt_current_thread := Some 1, thr := (\<lambda>_. thread0)
     (1 := thread0\<lparr>stat := RT_THREAD_RUNNING, current_priority := 31, number_mask := 0x80000000\<rparr>,
      2 := thread0\<lparr>stat := RT_THREAD_SUSPEND, current_priority := 5, number_mask := 0x20\<rparr>)\<rparr>"

definition demo_ready :: kernel where
  "demo_ready = rt_schedule_insert_thread 2 demo_base"

lemma kernel0_kinv: "kinv kernel0"
  unfolding kinv_def
  by (rule kinv_butI)
     (auto simp: kernel0_def links_ok_def bitmap_ok_def timer_links_ok_def timer_ok_def thread_ok_def
       node_ok_def thread0_def timer0_def split: tmid.splits)

lemma demo_base_kinv: "kinv demo_base"
  unfolding kinv_def
  by (rule kinv_butI)
     (auto simp: demo_base_def kernel0_def links_ok_def bitmap_ok_def timer_links_ok_def timer_ok_def
       thread_ok_def node_ok_def mask_ok_def thread0_def timer0_def split: tmid.splits)

lemma demo_ready_kinv: "kinv demo_ready"
proof -
  have "kinv_but ({} - {2}) (rt_schedule_insert_thread 2 demo_base)"
    by (rule kinv_but_insert [OF demo_base_kinv [unfolded kinv_def]])
       (simp_all add: demo_base_def kernel0_def thread0_def timer0_def mask_ok_def)
  then show ?thesis by (simp add: kinv_def demo_ready_def)
qed

lemma demo_ready_facts:
  "rt_current_thread demo_ready = Some 1" "rt_scheduler_lock_nest demo_ready = 0"
  "tstat demo_ready 2 = RT_THREAD_READY" "fault demo_ready = False"
  by (simp_all add: demo_ready_def insert_thread_simps(2) demo_base_def kernel0_def thread0_def Let_def)

theorem rt_schedule_highest_priority_witness:
  "kinv (rt_schedule demo_ready) \<and> (\<exists>n. rt_current_thread (rt_schedule demo_ready) = Some n \<and>
     tstat (rt_schedule demo_ready) n = RT_THREAD_RUNNING)"
  using rt_schedule_highest_priority [OF demo_ready_kinv demo_ready_facts(1-3)] by blast

text \<open>Round robin.  When the running thread's time slice is used up (YIELD flag) and the first
  ready thread has the same priority, \<^verbatim>\<open>rt_schedule\<close> hands the processor to that thread and
  queues the old one behind all ready threads of the priority, with the flag cleared; without
  the flag the running thread keeps the processor and nothing changes.\<close>

theorem rt_schedule_round_robin:
  assumes k: "kinv s" and run: "tstat s c = RT_THREAD_RUNNING" and l: "rt_scheduler_lock_nest s = 0"
    and q: "tlists s (Ready (unat (current_priority (thr s c)))) = h # rest"
    and top: "\<forall>q < unat (current_priority (thr s c)). tlists s (Ready q) = []"
  shows "(stat (thr s c) AND RT_THREAD_STAT_YIELD \<noteq> 0 \<longrightarrow>
      rt_current_thread (rt_schedule s) = Some h \<and>
      tlists (rt_schedule s) (Ready (unat (current_priority (thr s c)))) = rest @ [c] \<and>
      tstat (rt_schedule s) c = RT_THREAD_READY \<and>
      stat (thr (rt_schedule s) c) AND RT_THREAD_STAT_YIELD = 0) \<and>
    (stat (thr s c) AND RT_THREAD_STAT_YIELD = 0 \<longrightarrow> rt_schedule s = s)"
proof -
  let ?p = "unat (current_priority (thr s c))"
  have c: "rt_current_thread s = Some c" by (rule running_thread(4) [OF k run])
  have grp: "rt_thread_ready_priority_group s \<noteq> 0"
    using q kinv_butD(2) [OF k [unfolded kinv_def]] unfolding bitmap_ok_def
    by (metis bit_0_eq bot_apply bot_bool_def list.distinct(1))
  obtain p h' rest' where g: "get_highest_priority_thread s = (p, Some h')"
    "tlists s (Ready p) = h' # rest'" "\<And>q. q < p \<Longrightarrow> tlists s (Ready q) = []"
    using highest_ready [OF kinv_butD(2) [OF k [unfolded kinv_def]] grp] by metis
  have p: "p = ?p" using g(2,3) q top by (metis list.distinct(1) linorder_neqE_nat)
  then have h: "h' = h" "rest' = rest" using g(2) q by auto
  have ne: "h \<noteq> c" using ready_thread(4) [OF k q] c by auto
  note T = switched_thr [OF k c q]
  have y: "set_stat 1 (x AND NOT 8) AND 8 = 0" for x :: u8
    by (simp add: set_stat_def bit.conj_disj_distrib2 and.assoc)
  show ?thesis
  proof (intro conjI impI)
    assume "stat (thr s c) AND RT_THREAD_STAT_YIELD \<noteq> 0"
    then have nk: "\<not> keeps_cpu (thr s c) ?p" by (simp add: keeps_cpu_def)
    have e: "rt_schedule s = switched c h ?p s"
      by (rule schedule_switch [OF c l grp g(1) [unfolded h p] nk ne])
    show "rt_current_thread (rt_schedule s) = Some h" "tstat (rt_schedule s) c = RT_THREAD_READY"
      "tlists (rt_schedule s) (Ready ?p) = rest @ [c]"
      using ne run by (simp_all add: e T q)
    show "stat (thr (rt_schedule s) c) AND RT_THREAD_STAT_YIELD = 0"
      using ne run y [of "stat (thr s c)"] by (simp add: e T)
  next
    assume "stat (thr s c) AND RT_THREAD_STAT_YIELD = 0"
    then have "keeps_cpu (thr s c) p" using run by (simp add: keeps_cpu_def p)
    then show "rt_schedule s = s" by (rule schedule_keep [OF k c l g(1)])
  qed
qed

text \<open>Two threads of priority 5: thread 2 runs with its time slice used up, thread 1 is ready.\<close>

definition demo_slice_base :: kernel where
  "demo_slice_base = kernel0\<lparr>rt_current_thread := Some 2, thr := (\<lambda>_. thread0)
     (1 := thread0\<lparr>stat := RT_THREAD_SUSPEND, current_priority := 5, number_mask := 0x20\<rparr>,
      2 := thread0\<lparr>stat := 0xb, current_priority := 5, number_mask := 0x20\<rparr>)\<rparr>"

definition demo_slice :: kernel where
  "demo_slice = rt_schedule_insert_thread 1 demo_slice_base"

lemma demo_slice_kinv: "kinv demo_slice"
proof -
  have "kinv demo_slice_base"
    unfolding kinv_def
    by (rule kinv_butI)
       (auto simp: demo_slice_base_def kernel0_def links_ok_def bitmap_ok_def timer_links_ok_def timer_ok_def
         thread_ok_def node_ok_def mask_ok_def thread0_def timer0_def split: tmid.splits)
  then have "kinv_but ({} - {1}) (rt_schedule_insert_thread 1 demo_slice_base)"
    unfolding kinv_def
    by (rule kinv_but_insert)
       (simp_all add: demo_slice_base_def kernel0_def thread0_def timer0_def mask_ok_def)
  then show ?thesis by (simp add: kinv_def demo_slice_def)
qed

theorem rt_schedule_round_robin_witness:
  "rt_current_thread (rt_schedule demo_slice) = Some 1 \<and> tlists (rt_schedule demo_slice) (Ready 5) = [2]"
proof -
  note d = demo_slice_def insert_thread_simps(2) demo_slice_base_def kernel0_def thread0_def Let_def
  have "tstat demo_slice 2 = RT_THREAD_RUNNING" "rt_scheduler_lock_nest demo_slice = 0"
    "tlists demo_slice (Ready (unat (current_priority (thr demo_slice 2)))) = [1]"
    "\<forall>q < unat (current_priority (thr demo_slice 2)). tlists demo_slice (Ready q) = []"
    "stat (thr demo_slice 2) AND RT_THREAD_STAT_YIELD \<noteq> 0"
    "unat (current_priority (thr demo_slice 2)) = 5"
    by (simp_all add: d)
  then show ?thesis using rt_schedule_round_robin [OF demo_slice_kinv, of 2 1 "[]"] by auto
qed

section \<open>Critical sections and the start of the scheduler\<close>

lemma kinv_cong:
  assumes "kinv s" "thr s' = thr s" "tlists s' = tlists s" "tmr s' = tmr s" "tmlists s' = tmlists s"
    "rt_thread_ready_priority_group s' = rt_thread_ready_priority_group s"
    "rt_current_thread s' = rt_current_thread s"
  shows "kinv s'"
  using kinv_but_cong [OF assms(1) [unfolded kinv_def] assms(2-6)] assms(7) by (simp add: kinv_def)

lemma enter_critical_kinv: "kinv s \<Longrightarrow> kinv (rt_enter_critical s)"
  by (erule kinv_cong) (simp_all add: rt_enter_critical_def)

lemma exit_critical_kinv:
  assumes "kinv s"
  shows "kinv (rt_exit_critical s)" "fault (rt_exit_critical s) = fault s"
proof -
  have k: "kinv (s\<lparr>rt_scheduler_lock_nest := n\<rparr>)" for n
    by (rule kinv_cong [OF assms]) simp_all
  show "kinv (rt_exit_critical s)" "fault (rt_exit_critical s) = fault s"
    using k schedule_kinv [OF k [of 0]] by (simp_all add: rt_exit_critical_def Let_def)
qed

lemma critical_nesting:
  assumes "0 \<le> rt_scheduler_lock_nest s" "rt_scheduler_lock_nest s < 2 ^ 15 - 1" "rt_scheduler_lock_nest s \<noteq> 0"
  shows "rt_exit_critical (rt_enter_critical s) = s" "rt_schedule (rt_enter_critical s) = rt_enter_critical s"
  using assms by (simp_all add: rt_exit_critical_def rt_enter_critical_def to_s16_small rt_schedule_def)

lemma scheduler_start_kinv:
  assumes k: "kinv s" and c: "rt_current_thread s = None" and g: "rt_thread_ready_priority_group s \<noteq> 0"
  shows "kinv (rt_system_scheduler_start s)" "fault (rt_system_scheduler_start s) = fault s"
    "\<exists>h. rt_current_thread (rt_system_scheduler_start s) = Some h \<and>
      tstat (rt_system_scheduler_start s) h = RT_THREAD_RUNNING \<and>
      (\<forall>t. tstat s t = RT_THREAD_READY \<longrightarrow>
        unat (current_priority (thr s h)) \<le> unat (current_priority (thr s t)))"
proof -
  obtain p h rest where h: "get_highest_priority_thread s = (p, Some h)" "tlists s (Ready p) = h # rest"
      "\<And>q. q < p \<Longrightarrow> tlists s (Ready q) = []"
    using highest_ready [OF kinv_butD(2) [OF k [unfolded kinv_def]] g] by metis
  note H = ready_thread [OF k h(2)]
  have e: "rt_system_scheduler_start s = upd_thr h (\<lambda>x. x\<lparr>stat := RT_THREAD_RUNNING\<rparr>)
      (rt_schedule_remove_thread h (s\<lparr>rt_current_thread := Some h\<rparr>))"
    by (simp add: rt_system_scheduler_start_def h(1))
  have "kinv_but {h} (s\<lparr>rt_current_thread := Some h\<rparr>)"
    by (rule kinv_but_cong [OF kinv_but_mono [OF k [unfolded kinv_def]]]) (use c in auto)
  then have "kinv_but (insert h {h}) (rt_schedule_remove_thread h (s\<lparr>rt_current_thread := Some h\<rparr>))"
    by (rule kinv_but_remove) (use H in auto)
  then have "kinv_but (insert h {h} - {h}) (rt_system_scheduler_start s)" unfolding e
    by (rule kinv_but_thread) (use H in \<open>auto simp: thread_ok_def node_ok_def mask_ok_def\<close>)
  then show "kinv (rt_system_scheduler_start s)" by (simp add: kinv_def)
  show "fault (rt_system_scheduler_start s) = fault s" by (simp add: e)
  show "\<exists>h. rt_current_thread (rt_system_scheduler_start s) = Some h \<and>
      tstat (rt_system_scheduler_start s) h = RT_THREAD_RUNNING \<and>
      (\<forall>t. tstat s t = RT_THREAD_READY \<longrightarrow>
        unat (current_priority (thr s h)) \<le> unat (current_priority (thr s t)))"
    using not_ready_below [OF k h(3)] H(3) by (intro exI [of _ h]) (simp add: e)
qed

end
