(* ===== verification/Kobject.thy ===== *)
theory Kobject
  imports Sched
begin

text \<open>
  The kernel object container of \<^verbatim>\<open>rt-thread/src/object.c\<close> (every thread, timer and IPC object is
  registered in a list by its class and found by name there), with the two string routines of
  \<^verbatim>\<open>kservice.c\<close> it uses.  Names are eight bytes, padded with NUL; a C string argument is the
  list of its characters before the terminating NUL.
\<close>

section \<open>Strings\<close>

abbreviation NUL :: char where "NUL \<equiv> CHR 0x00"

fun rt_strncpy :: "string \<Rightarrow> nat \<Rightarrow> string" where
  "rt_strncpy src 0 = []"
| "rt_strncpy [] (Suc n) = NUL # replicate n NUL"
| "rt_strncpy (c # src) (Suc n) = c # rt_strncpy src n"

text \<open>The character a C string pointer points at; past the last one it is the terminator.\<close>

fun chr_at :: "string \<Rightarrow> char" where
  "chr_at [] = NUL"
| "chr_at (c # _) = c"

definition to_s8 :: "int \<Rightarrow> int" where "to_s8 x = (x + 2 ^ 7) mod 2 ^ 8 - 2 ^ 7"

fun rt_strncmp :: "string \<Rightarrow> string \<Rightarrow> nat \<Rightarrow> int" where
  "rt_strncmp cs ct 0 = 0"
| "rt_strncmp cs ct (Suc n) =
     (let res = to_s8 (of_char (chr_at cs) - of_char (chr_at ct)) in
      if res \<noteq> 0 \<or> chr_at cs = NUL then res
      else if n = 0 then res else rt_strncmp (tl cs) (tl ct) n)"

section \<open>Operations\<close>

text \<open>The classes that have an entry in \<^verbatim>\<open>rt_object_container\<close>.\<close>

definition rt_object_get_information :: "u8 \<Rightarrow> u8 option" where
  "rt_object_get_information type =
     (if type \<in> {RT_Object_Class_Thread, RT_Object_Class_Semaphore, RT_Object_Class_Mutex,
        RT_Object_Class_Event, RT_Object_Class_MailBox, RT_Object_Class_MessageQueue,
        RT_Object_Class_MemPool, RT_Object_Class_Device, RT_Object_Class_Timer}
      then Some type else None)"

definition rt_object_init :: "oref \<Rightarrow> u8 \<Rightarrow> string \<Rightarrow> kernel \<Rightarrow> kernel" where
  "rt_object_init object type name s =
     (case rt_object_get_information type of
        None \<Rightarrow> s\<lparr>fault := True\<rparr>
      | Some information \<Rightarrow>
          let s1 = rt_enter_critical s;
              s2 = rt_assert (object \<notin> set (object_list s1 information)) s1;
              s3 = rt_exit_critical s2;
              s4 = upd_obj object (\<lambda>x. x\<lparr>obj_type := type OR RT_Object_Class_Static,
                                         obj_name := rt_strncpy name RT_NAME_MAX\<rparr>) s3
          in object_insert_after information object s4)"

definition rt_object_detach :: "oref \<Rightarrow> kernel \<Rightarrow> kernel" where
  "rt_object_detach object s = object_unlink object (upd_obj object (\<lambda>x. x\<lparr>obj_type := 0\<rparr>) s)"

text \<open>\<^verbatim>\<open>rt_object_allocate\<close>: \<open>mem\<close> is the result of \<^verbatim>\<open>RT_KERNEL_MALLOC\<close>, a fresh object or none; the
  memory is cleared, so the new header is in no list.\<close>

definition rt_object_allocate :: "oref option \<Rightarrow> u8 \<Rightarrow> string \<Rightarrow> kernel \<Rightarrow> kernel \<times> oref option" where
  "rt_object_allocate mem type name s =
     (case rt_object_get_information type of
        None \<Rightarrow> (s\<lparr>fault := True\<rparr>, None)
      | Some information \<Rightarrow>
          (case mem of
             None \<Rightarrow> (s, None)
           | Some object \<Rightarrow>
               (object_insert_after information object
                  (upd_obj object (\<lambda>x. \<lparr>obj_name = rt_strncpy name RT_NAME_MAX, obj_type = type,
                                        obj_node = None\<rparr>) s),
                Some object)))"

definition rt_object_delete :: "oref \<Rightarrow> kernel \<Rightarrow> kernel" where
  "rt_object_delete object s =
     (let s1 = rt_assert (obj_type (objs s object) AND RT_Object_Class_Static = 0) s
      in object_unlink object (upd_obj object (\<lambda>x. x\<lparr>obj_type := 0\<rparr>) s1))"

definition rt_object_is_systemobject :: "oref \<Rightarrow> kernel \<Rightarrow> bool" where
  "rt_object_is_systemobject object s \<longleftrightarrow> obj_type (objs s object) AND RT_Object_Class_Static \<noteq> 0"

definition rt_object_get_type :: "oref \<Rightarrow> kernel \<Rightarrow> u8" where
  "rt_object_get_type object s = obj_type (objs s object) AND NOT RT_Object_Class_Static"

fun find_named :: "kernel \<Rightarrow> string \<Rightarrow> oref list \<Rightarrow> oref option" where
  "find_named s name [] = None"
| "find_named s name (object # rest) =
     (if rt_strncmp (obj_name (objs s object)) name RT_NAME_MAX = 0
      then Some object else find_named s name rest)"

definition rt_object_find :: "string option \<Rightarrow> u8 \<Rightarrow> kernel \<Rightarrow> kernel \<times> oref option" where
  "rt_object_find name type s =
     (case name of
        None \<Rightarrow> (s, None)
      | Some nm \<Rightarrow>
          if type > RT_Object_Class_Unknown then (s, None)
          else
            let s1 = rt_enter_critical s in
            case rt_object_get_information type of
              None \<Rightarrow> (s1\<lparr>fault := True\<rparr>, None)
            | Some information \<Rightarrow>
                (rt_exit_critical s1, find_named s1 nm (object_list s1 information)))"

section \<open>Names\<close>

lemma rt_strncpy_length [simp]: "length (rt_strncpy src n) = n"
  by (induction src n rule: rt_strncpy.induct) simp_all

lemma to_s8_0_iff: "\<lbrakk>(x::int) < 256; y < 256; 0 \<le> x; 0 \<le> y\<rbrakk> \<Longrightarrow> to_s8 (x - y) = 0 \<longleftrightarrow> x = y"
proof
  assume xy: "x < 256" "y < 256" "0 \<le> x" "0 \<le> y" and "to_s8 (x - y) = 0"
  then have "(x - y + 128) mod 256 = 128 mod 256" by (simp add: to_s8_def)
  then have "256 dvd x - y" unfolding mod_eq_dvd_iff by simp
  then show "x = y" using zdvd_imp_le [of 256 "x - y"] zdvd_imp_le [of 256 "y - x"] xy
    by (cases x y rule: linorder_cases) (auto simp: dvd_diff_commute)
qed (simp add: to_s8_def)

lemma to_s8_diff_0: "to_s8 (of_char a - of_char b) = 0 \<longleftrightarrow> a = b"
proof -
  have b: "(of_char a :: int) < 256" "(of_char b :: int) < 256" "0 \<le> (of_char a :: int)" "0 \<le> (of_char b :: int)"
    using nat_of_char_less_256 [of a] nat_of_char_less_256 [of b]
    by (simp_all flip: of_nat_of_char [where 'a = int])
  then show ?thesis using to_s8_0_iff [OF b] by simp
qed

lemma to_s8_NUL: "to_s8 0 = 0" "to_s8 (- of_char a) = 0 \<longleftrightarrow> a = NUL"
  "to_s8 (of_char a) = 0 \<longleftrightarrow> a = NUL"
  using to_s8_diff_0 [of NUL a] to_s8_diff_0 [of a NUL] by (auto simp: to_s8_def)

text \<open>Comparing eight bytes of a stored name with a string: they are equal exactly when the string
  pads to the stored name.\<close>

lemma rt_strncmp_strncpy:
  assumes "NUL \<notin> set a" "NUL \<notin> set b"
  shows "rt_strncmp (rt_strncpy a n) b n = 0 \<longleftrightarrow> take n a = take n b"
  using assms
proof (induction n arbitrary: a b)
  case (Suc n)
  note ih = Suc.IH
  show ?case
  proof (cases a)
    case Nil
    then show ?thesis using Suc.prems by (cases b) (auto simp: Let_def to_s8_diff_0 to_s8_NUL)
  next
    case (Cons x a')
    then have "x \<noteq> NUL" using Suc.prems by auto
    then show ?thesis using Suc.prems Cons ih [of a' "tl b"]
      by (cases b; cases n) (auto simp: Let_def to_s8_diff_0 to_s8_NUL)
  qed
qed simp

section \<open>The container invariant\<close>

definition objects_ok :: "kernel \<Rightarrow> bool" where
  "objects_ok s \<longleftrightarrow>
     (\<forall>c. distinct (object_list s c) \<and> set (object_list s c) = {o'. obj_node (objs s o') = Some c})"

lemma upd_obj_simps [simp]:
  "objs (upd_obj o' f s) = (objs s)(o' := f (objs s o'))" "object_list (upd_obj o' f s) = object_list s"
  "thr (upd_obj o' f s) = thr s" "tlists (upd_obj o' f s) = tlists s"
  "rt_thread_ready_priority_group (upd_obj o' f s) = rt_thread_ready_priority_group s"
  "rt_current_thread (upd_obj o' f s) = rt_current_thread s"
  "rt_scheduler_lock_nest (upd_obj o' f s) = rt_scheduler_lock_nest s" "rt_tick (upd_obj o' f s) = rt_tick s"
  "tmr (upd_obj o' f s) = tmr s" "tmlists (upd_obj o' f s) = tmlists s" "fault (upd_obj o' f s) = fault s"
  by (simp_all add: upd_obj_def)

lemma rt_assert_simps [simp]:
  "objs (rt_assert b s) = objs s" "object_list (rt_assert b s) = object_list s"
  "thr (rt_assert b s) = thr s" "tlists (rt_assert b s) = tlists s"
  "rt_thread_ready_priority_group (rt_assert b s) = rt_thread_ready_priority_group s"
  "rt_current_thread (rt_assert b s) = rt_current_thread s"
  "rt_current_priority (rt_assert b s) = rt_current_priority s"
  "rt_scheduler_lock_nest (rt_assert b s) = rt_scheduler_lock_nest s" "rt_tick (rt_assert b s) = rt_tick s"
  "tmr (rt_assert b s) = tmr s" "tmlists (rt_assert b s) = tmlists s" "random_nr (rt_assert b s) = random_nr s"
  "fault (rt_assert b s) \<longleftrightarrow> fault s \<or> \<not> b"
  by (simp_all add: rt_assert_def)

lemma critical_frame [simp]:
  "objs (rt_enter_critical s) = objs s" "object_list (rt_enter_critical s) = object_list s"
  "objs (rt_exit_critical s) = objs s" "object_list (rt_exit_critical s) = object_list s"
  "tmr (rt_enter_critical s) = tmr s" "tmlists (rt_enter_critical s) = tmlists s"
  "tmr (rt_exit_critical s) = tmr s" "tmlists (rt_exit_critical s) = tmlists s"
  "rt_tick (rt_enter_critical s) = rt_tick s" "rt_tick (rt_exit_critical s) = rt_tick s"
  "fault (rt_enter_critical s) = fault s" "thr (rt_enter_critical s) = thr s"
  "tlists (rt_enter_critical s) = tlists s" "rt_current_thread (rt_enter_critical s) = rt_current_thread s"
  by (simp_all add: rt_enter_critical_def rt_exit_critical_def Let_def)

lemma object_ops_frame [simp]:
  "thr (object_unlink o' s) = thr s" "tlists (object_unlink o' s) = tlists s"
  "tmr (object_unlink o' s) = tmr s" "tmlists (object_unlink o' s) = tmlists s"
  "rt_thread_ready_priority_group (object_unlink o' s) = rt_thread_ready_priority_group s"
  "rt_current_thread (object_unlink o' s) = rt_current_thread s" "rt_tick (object_unlink o' s) = rt_tick s"
  "rt_scheduler_lock_nest (object_unlink o' s) = rt_scheduler_lock_nest s" "fault (object_unlink o' s) = fault s"
  "thr (object_insert_after c o' s) = thr s" "tlists (object_insert_after c o' s) = tlists s"
  "tmr (object_insert_after c o' s) = tmr s" "tmlists (object_insert_after c o' s) = tmlists s"
  "rt_thread_ready_priority_group (object_insert_after c o' s) = rt_thread_ready_priority_group s"
  "rt_current_thread (object_insert_after c o' s) = rt_current_thread s"
  "rt_tick (object_insert_after c o' s) = rt_tick s"
  "rt_scheduler_lock_nest (object_insert_after c o' s) = rt_scheduler_lock_nest s"
  by (simp_all add: object_unlink_def object_insert_after_def split: option.splits)

lemma objects_ok_cong: "\<lbrakk>objects_ok s; objs s' = objs s; object_list s' = object_list s\<rbrakk> \<Longrightarrow> objects_ok s'"
  by (simp add: objects_ok_def)

lemma objects_ok_unlink: "objects_ok s \<Longrightarrow> objects_ok (object_unlink o' s)"
  by (auto simp: objects_ok_def object_unlink_def distinct_remove1 split: option.splits)

lemma objects_ok_insert:
  "\<lbrakk>objects_ok s; obj_node (objs s o') = None\<rbrakk> \<Longrightarrow> objects_ok (object_insert_after c o' s)"
  by (auto simp: objects_ok_def object_insert_after_def)

lemma objects_ok_upd:
  assumes "objects_ok s" "obj_node (f (objs s o')) = obj_node (objs s o')"
  shows "objects_ok (upd_obj o' f s)"
proof -
  have "obj_node (((objs s)(o' := f (objs s o'))) x) = obj_node (objs s x)" for x using assms(2) by simp
  then show ?thesis using assms(1) unfolding objects_ok_def upd_obj_simps by simp
qed

lemma kinv_assert: "kinv s \<Longrightarrow> kinv (rt_assert b s)"
  by (erule kinv_cong) simp_all

text \<open>The object operations keep both invariants.\<close>

lemma object_init_kinv:
  assumes "kinv s"
  shows "kinv (rt_object_init object type name s)"
proof (cases "rt_object_get_information type")
  case None
  have "kinv (s\<lparr>fault := True\<rparr>)" by (rule kinv_cong [OF assms]) simp_all
  then show ?thesis using None by (simp add: rt_object_init_def)
next
  case (Some c)
  let ?s2 = "rt_assert (object \<notin> set (object_list s c)) (rt_enter_critical s)"
  have "kinv (rt_exit_critical ?s2)"
    by (intro exit_critical_kinv kinv_assert enter_critical_kinv assms)
  then show ?thesis by (rule kinv_cong) (simp_all add: rt_object_init_def Some Let_def)
qed

lemma object_detach_kinv: "kinv s \<Longrightarrow> kinv (rt_object_detach object s)"
  by (erule kinv_cong) (simp_all add: rt_object_detach_def)

lemma object_delete_kinv: "kinv s \<Longrightarrow> kinv (rt_object_delete object s)"
  by (erule kinv_cong) (simp_all add: rt_object_delete_def)

lemma object_allocate_kinv: "kinv s \<Longrightarrow> kinv (fst (rt_object_allocate mem type name s))"
  by (erule kinv_cong) (auto simp: rt_object_allocate_def split: option.splits)

lemma object_detach_ok: "objects_ok s \<Longrightarrow> objects_ok (rt_object_detach object s)"
  by (simp add: rt_object_detach_def objects_ok_unlink objects_ok_upd)

lemma object_delete_ok: "objects_ok s \<Longrightarrow> objects_ok (rt_object_delete object s)"
  unfolding rt_object_delete_def Let_def
  by (intro objects_ok_unlink objects_ok_upd objects_ok_cong [of s "rt_assert _ s"]) simp_all

section \<open>Registration and lookup\<close>

lemma object_init_result:
  assumes "rt_object_get_information type = Some c" "obj_node (objs s object) = None"
  shows "objs (rt_object_init object type name s) =
      (objs s)(object := (objs s object)\<lparr>obj_type := type OR RT_Object_Class_Static,
         obj_name := rt_strncpy name RT_NAME_MAX, obj_node := Some c\<rparr>)"
    "object_list (rt_object_init object type name s) = (object_list s)(c := object # object_list s c)"
  using assms by (simp_all add: rt_object_init_def Let_def object_insert_after_def)

lemma object_init_fault:
  assumes "kinv s" "rt_object_get_information type = Some c" "objects_ok s" "obj_node (objs s object) = None"
  shows "fault (rt_object_init object type name s) = fault s"
proof -
  have n: "object \<notin> set (object_list s c)" using assms(3,4) by (simp add: objects_ok_def)
  have "kinv (rt_assert (object \<notin> set (object_list s c)) (rt_enter_critical s))"
    by (intro kinv_assert enter_critical_kinv assms)
  from exit_critical_kinv(2) [OF this] show ?thesis
    using assms n by (simp add: rt_object_init_def Let_def object_insert_after_def)
qed

lemma object_init_ok:
  assumes "objects_ok s" "rt_object_get_information type = Some c" "obj_node (objs s object) = None"
  shows "objects_ok (rt_object_init object type name s)"
  using assms object_init_result [OF assms(2,3)] by (auto simp: objects_ok_def)

text \<open>Objects are found by name.  Registering an object that is in no container keeps the
  kernel and container invariants, raises no fault, and a lookup of any name that agrees with
  the registered one in the first eight characters returns that object; detaching it takes it
  out of the container again.\<close>

theorem rt_object_init_find:
  assumes "kinv s" "objects_ok s" "rt_object_get_information type = Some c"
    and "obj_node (objs s object) = None" "NUL \<notin> set name" "NUL \<notin> set name'"
    and "take RT_NAME_MAX name = take RT_NAME_MAX name'"
  defines "s' \<equiv> rt_object_init object type name s"
  shows "kinv s' \<and> objects_ok s' \<and> fault s' = fault s \<and>
    snd (rt_object_find (Some name') type s') = Some object \<and>
    rt_object_is_systemobject object s' \<and> rt_object_get_type object s' = type \<and>
    object \<notin> set (object_list (rt_object_detach object s') c)"
proof -
  note r = object_init_result [OF assms(3,4), of name, folded s'_def]
  have le: "\<not> type > RT_Object_Class_Unknown"
    using assms(3) by (auto simp: rt_object_get_information_def RT_Object_Class_Unknown_def
        RT_Object_Class_Thread_def RT_Object_Class_Semaphore_def RT_Object_Class_Mutex_def
        RT_Object_Class_Event_def RT_Object_Class_MailBox_def RT_Object_Class_MessageQueue_def
        RT_Object_Class_MemPool_def RT_Object_Class_Device_def RT_Object_Class_Timer_def split: if_splits)
  have ty: "rt_object_get_type object s' = type"
    using assms(3) by (auto simp: rt_object_get_type_def r rt_object_get_information_def RT_Object_Class_Static_def
        RT_Object_Class_Thread_def RT_Object_Class_Semaphore_def RT_Object_Class_Mutex_def
        RT_Object_Class_Event_def RT_Object_Class_MailBox_def RT_Object_Class_MessageQueue_def
        RT_Object_Class_MemPool_def RT_Object_Class_Device_def RT_Object_Class_Timer_def split: if_splits)
  have sys: "rt_object_is_systemobject object s'"
  proof -
    have "(type OR 0x80) AND 0x80 = 0x80" by (rule bit_word_eqI) (auto simp: bit_simps)
    then show ?thesis by (simp add: rt_object_is_systemobject_def r RT_Object_Class_Static_def)
  qed
  have "rt_strncmp (obj_name (objs s' object)) name' RT_NAME_MAX = 0"
    using rt_strncmp_strncpy [OF assms(5,6), of RT_NAME_MAX] assms(7) by (simp add: r)
  then have fnd: "snd (rt_object_find (Some name') type s') = Some object"
    using le assms(3) r by (simp add: rt_object_find_def Let_def)
  have "object \<notin> set (object_list (rt_object_detach object s') c)"
    using object_detach_ok [OF object_init_ok [OF assms(2-4)], of object name, folded s'_def]
    by (auto simp: objects_ok_def rt_object_detach_def object_unlink_def split: option.splits)
  with ty sys fnd show ?thesis
    using object_init_kinv [OF assms(1)] object_init_ok [OF assms(2-4)]
      object_init_fault [OF assms(1,3,2,4)] unfolding s'_def by blast
qed

lemma kernel0_objects_ok: "objects_ok kernel0"
  by (simp add: objects_ok_def kernel0_def)

theorem rt_object_init_find_witness:
  "snd (rt_object_find (Some ''current_limiter'') RT_Object_Class_Timer
     (rt_object_init (Timer_Obj (Timer 7)) RT_Object_Class_Timer ''current_limit'' kernel0)) =
   Some (Timer_Obj (Timer 7))"
  using rt_object_init_find [OF kernel0_kinv kernel0_objects_ok, of RT_Object_Class_Timer RT_Object_Class_Timer
      "Timer_Obj (Timer 7)" "''current_limit''" "''current_limiter''"]
  by (simp add: rt_object_get_information_def kernel0_def RT_NAME_MAX_def)

end
