(* ===== verification/Ktimer.thy ===== *)
theory Ktimer
  imports Kobject
begin

text \<open>
  The timers of \<^verbatim>\<open>rt-thread/src/timer.c\<close> and, because timers and threads call each other, the
  suspension, resumption and timeout of threads of \<^verbatim>\<open>thread.c\<close>.  A queued timer sits in a list
  ordered by expiry; \<^verbatim>\<open>rt_timer_check\<close> runs in the tick interrupt and fires every expired one.
  The callbacks of the application are an argument (\<open>cb\<close>); the loop over expired timers takes
  fuel, because a periodic timer of period zero keeps it running for ever.
\<close>

section \<open>Stopping and controlling a timer\<close>

definition is_timer :: "tmid \<Rightarrow> kernel \<Rightarrow> bool" where
  "is_timer m s \<longleftrightarrow> rt_object_get_type (Timer_Obj m) s = RT_Object_Class_Timer"

definition is_thread :: "tid \<Rightarrow> kernel \<Rightarrow> bool" where
  "is_thread t s \<longleftrightarrow> rt_object_get_type (Thread_Obj t) s = RT_Object_Class_Thread"

definition rt_timer_init_fields :: "tmid \<Rightarrow> timeout_fn \<Rightarrow> u32 \<Rightarrow> u8 \<Rightarrow> kernel \<Rightarrow> kernel" where
  "rt_timer_init_fields timer timeout time flag s =
     (let s1 = rt_assert (row (tmr s timer) = None) s
      in upd_tmr timer (\<lambda>x. x\<lparr>timer_flag := flag AND NOT RT_TIMER_FLAG_ACTIVATED, timeout_func := timeout,
            timeout_tick := 0, timer_init_tick := time\<rparr>) s1)"

definition rt_timer_list_next_timeout :: "tlid \<Rightarrow> kernel \<Rightarrow> u32" where
  "rt_timer_list_next_timeout l s =
     (case tmlists s l of [] \<Rightarrow> 0xffffffff | m # _ \<Rightarrow> timeout_tick (tmr s m))"

definition rt_timer_init :: "tmid \<Rightarrow> string \<Rightarrow> timeout_fn \<Rightarrow> u32 \<Rightarrow> u8 \<Rightarrow> kernel \<Rightarrow> kernel" where
  "rt_timer_init timer name timeout time flag s =
     rt_timer_init_fields timer timeout time flag (rt_object_init (Timer_Obj timer) RT_Object_Class_Timer name s)"

definition rt_timer_detach :: "tmid \<Rightarrow> kernel \<Rightarrow> kernel" where
  "rt_timer_detach timer s =
     (let s1 = rt_assert (is_timer timer s) s;
          s2 = rt_assert (rt_object_is_systemobject (Timer_Obj timer) s1) s1
      in rt_object_detach (Timer_Obj timer) (timer_unlink timer s2))"

definition rt_timer_create ::
    "tmid option \<Rightarrow> string \<Rightarrow> timeout_fn \<Rightarrow> u32 \<Rightarrow> u8 \<Rightarrow> kernel \<Rightarrow> kernel \<times> tmid option" where
  "rt_timer_create mem name timeout time flag s =
     (let (s1, r) = rt_object_allocate (map_option Timer_Obj mem) RT_Object_Class_Timer name s in
      case r of
        Some (Timer_Obj timer) \<Rightarrow> (rt_timer_init_fields timer timeout time flag s1, Some timer)
      | _ \<Rightarrow> (s1, None))"

definition rt_timer_delete :: "tmid \<Rightarrow> kernel \<Rightarrow> kernel" where
  "rt_timer_delete timer s =
     (let s1 = rt_assert (is_timer timer s) s;
          s2 = rt_assert (\<not> rt_object_is_systemobject (Timer_Obj timer) s1) s1
      in rt_object_delete (Timer_Obj timer) (timer_unlink timer s2))"

definition rt_timer_stop :: "tmid \<Rightarrow> kernel \<Rightarrow> kernel \<times> rt_err" where
  "rt_timer_stop timer s =
     (let s0 = rt_assert (is_timer timer s) s in
      if timer_flag (tmr s0 timer) AND RT_TIMER_FLAG_ACTIVATED = 0 then (s0, - RT_ERROR)
      else (upd_tmr timer (\<lambda>x. x\<lparr>timer_flag := timer_flag x AND NOT RT_TIMER_FLAG_ACTIVATED\<rparr>)
              (timer_unlink timer s0), RT_EOK))"

text \<open>The commands of \<^verbatim>\<open>rt_timer_control\<close>: SET_TIME 0, GET_TIME 1, SET_ONESHOT 2, SET_PERIODIC 3.  The
  second result is what \<open>*arg\<close> holds afterwards.\<close>

definition rt_timer_control :: "tmid \<Rightarrow> int \<Rightarrow> u32 \<Rightarrow> kernel \<Rightarrow> kernel \<times> u32" where
  "rt_timer_control timer cmd arg s =
     (let s0 = rt_assert (is_timer timer s) s in
      if cmd = 1 then (s0, timer_init_tick (tmr s0 timer))
      else if cmd = 0 then (upd_tmr timer (\<lambda>x. x\<lparr>timer_init_tick := arg\<rparr>) s0, arg)
      else if cmd = 2 then
        (upd_tmr timer (\<lambda>x. x\<lparr>timer_flag := timer_flag x AND NOT RT_TIMER_FLAG_PERIODIC\<rparr>) s0, arg)
      else if cmd = 3 then
        (upd_tmr timer (\<lambda>x. x\<lparr>timer_flag := timer_flag x OR RT_TIMER_FLAG_PERIODIC\<rparr>) s0, arg)
      else (s0, arg))"

section \<open>Suspending and resuming a thread\<close>

definition rt_thread_suspend :: "tid \<Rightarrow> kernel \<Rightarrow> kernel \<times> rt_err" where
  "rt_thread_suspend thread s =
     (let s0 = rt_assert (is_thread thread s) s;
          st = tstat s0 thread
      in if st \<noteq> RT_THREAD_READY \<and> st \<noteq> RT_THREAD_RUNNING then (s0, - RT_ERROR)
         else
           let s1 = (if st = RT_THREAD_RUNNING
                     then rt_assert (rt_current_thread s0 = Some thread) s0 else s0);
               s2 = rt_schedule_remove_thread thread s1;
               s3 = upd_thr thread (\<lambda>x. x\<lparr>stat := set_stat RT_THREAD_SUSPEND (stat x)\<rparr>) s2
           in (fst (rt_timer_stop (Thread_Timer thread) s3), RT_EOK))"

definition rt_thread_resume :: "tid \<Rightarrow> kernel \<Rightarrow> kernel \<times> rt_err" where
  "rt_thread_resume thread s =
     (let s0 = rt_assert (is_thread thread s) s in
      if tstat s0 thread \<noteq> RT_THREAD_SUSPEND then (s0, - RT_ERROR)
      else
        let s1 = thread_unlink thread s0;
            s2 = fst (rt_timer_stop (Thread_Timer thread) s1)
        in (rt_schedule_insert_thread thread s2, RT_EOK))"

definition rt_thread_timeout :: "tid \<Rightarrow> kernel \<Rightarrow> kernel" where
  "rt_thread_timeout thread s =
     (let s0 = rt_assert (tstat s thread = RT_THREAD_SUSPEND) s;
          s1 = rt_assert (is_thread thread s0) s0;
          s2 = upd_thr thread (\<lambda>x. x\<lparr>error := - RT_ETIMEOUT\<rparr>) s1;
          s3 = rt_schedule_insert_thread thread (thread_unlink thread s2)
      in rt_schedule s3)"

section \<open>Starting a timer and firing expired ones\<close>

text \<open>The search loop of \<^verbatim>\<open>rt_timer_start\<close>: pass the timers that expire earlier or at the same time.\<close>

fun timer_insert :: "(tmid \<Rightarrow> u32) \<Rightarrow> tmid \<Rightarrow> u32 \<Rightarrow> tmid list \<Rightarrow> tmid list" where
  "timer_insert tick_of timer x [] = [timer]"
| "timer_insert tick_of timer x (t # ts) =
     (if tick_of t - x = 0 then t # timer_insert tick_of timer x ts
      else if tick_of t - x < RT_TICK_HALF then timer # t # ts
      else t # timer_insert tick_of timer x ts)"

text \<open>The static thread that serves the soft timers.\<close>

definition timer_thread :: tid where "timer_thread = 0"

definition rt_timer_start :: "tmid \<Rightarrow> kernel \<Rightarrow> kernel \<times> rt_err" where
  "rt_timer_start timer s =
     (let s0 = rt_assert (is_timer timer s) s;
          s1 = upd_tmr timer (\<lambda>x. x\<lparr>timer_flag := timer_flag x AND NOT RT_TIMER_FLAG_ACTIVATED\<rparr>)
                 (timer_unlink timer s0);
          s2 = rt_assert (timer_init_tick (tmr s1 timer) < RT_TICK_HALF) s1;
          s3 = upd_tmr timer (\<lambda>x. x\<lparr>timeout_tick := rt_tick s2 + timer_init_tick x\<rparr>) s2;
          l = (if timer_flag (tmr s3 timer) AND RT_TIMER_FLAG_SOFT_TIMER \<noteq> 0 then Soft_Timers else Hard_Timers);
          s4 = s3\<lparr>random_nr := random_nr s3 + 1\<rparr>;
          s5 = timer_link l (timer_insert (\<lambda>t. timeout_tick (tmr s4 t)) timer (timeout_tick (tmr s4 timer))
                               (tmlists s4 l)) timer s4;
          s6 = upd_tmr timer (\<lambda>x. x\<lparr>timer_flag := timer_flag x OR RT_TIMER_FLAG_ACTIVATED\<rparr>) s5
      in (if timer_flag (tmr s6 timer) AND RT_TIMER_FLAG_SOFT_TIMER \<noteq> 0 \<and>
             tstat s6 timer_thread = RT_THREAD_SUSPEND
          then rt_schedule (fst (rt_thread_resume timer_thread s6))
          else s6, RT_EOK))"

text \<open>The callback of an expired timer.\<close>

definition call_timeout :: "(nat \<Rightarrow> kernel \<Rightarrow> kernel) \<Rightarrow> timeout_fn \<Rightarrow> kernel \<Rightarrow> kernel" where
  "call_timeout cb f s = (case f of Thread_Timeout t \<Rightarrow> rt_thread_timeout t s | User_Timeout n \<Rightarrow> cb n s)"

text \<open>What both check loops do with an expired timer after its callback.\<close>

definition timer_rearm :: "tmid \<Rightarrow> kernel \<Rightarrow> kernel" where
  "timer_rearm t s =
     (let s1 = upd_tmr t (\<lambda>x. x\<lparr>timer_flag := timer_flag x AND NOT RT_TIMER_FLAG_ACTIVATED\<rparr>) s in
      if timer_flag (tmr s t) AND RT_TIMER_FLAG_PERIODIC \<noteq> 0 \<and> timer_flag (tmr s t) AND RT_TIMER_FLAG_ACTIVATED \<noteq> 0
      then fst (rt_timer_start t s1) else s1)"

fun timer_check_loop :: "(nat \<Rightarrow> kernel \<Rightarrow> kernel) \<Rightarrow> nat \<Rightarrow> u32 \<Rightarrow> kernel \<Rightarrow> kernel option" where
  "timer_check_loop cb 0 current_tick s = None"
| "timer_check_loop cb (Suc fuel) current_tick s =
     (case tmlists s Hard_Timers of
        [] \<Rightarrow> Some s
      | t # _ \<Rightarrow>
          if current_tick - timeout_tick (tmr s t) < RT_TICK_HALF
          then
            let s1 = timer_unlink t s;
                s2 = call_timeout cb (timeout_func (tmr s1 t)) s1
            in timer_check_loop cb fuel (rt_tick s2) (timer_rearm t s2)
          else Some s)"

definition rt_timer_check :: "(nat \<Rightarrow> kernel \<Rightarrow> kernel) \<Rightarrow> nat \<Rightarrow> kernel \<Rightarrow> kernel option" where
  "rt_timer_check cb fuel s = timer_check_loop cb fuel (rt_tick s) s"

definition rt_timer_next_timeout_tick :: "kernel \<Rightarrow> u32" where
  "rt_timer_next_timeout_tick s = rt_timer_list_next_timeout Hard_Timers s"

text \<open>\<^verbatim>\<open>n->next\<close> of a node of the soft timer list: its successor, the head (\<open>None\<close>) after the last
  one, and the node itself when it is not linked.\<close>

fun succ_in :: "'a \<Rightarrow> 'a list \<Rightarrow> 'a option" where
  "succ_in x [] = Some x"
| "succ_in x (y # ys) = (if x = y then (case ys of [] \<Rightarrow> None | z # _ \<Rightarrow> Some z) else succ_in x ys)"

fun soft_check_loop :: "(nat \<Rightarrow> kernel \<Rightarrow> kernel) \<Rightarrow> nat \<Rightarrow> u32 \<Rightarrow> tmid option \<Rightarrow> kernel \<Rightarrow> kernel option" where
  "soft_check_loop cb 0 current_tick n s = None"
| "soft_check_loop cb (Suc fuel) current_tick n s =
     (case n of
        None \<Rightarrow> Some s
      | Some t \<Rightarrow>
          if current_tick - timeout_tick (tmr s t) < RT_TICK_HALF
          then
            let n' = succ_in t (tmlists s Soft_Timers);
                s1 = rt_exit_critical (timer_unlink t s);
                s2 = call_timeout cb (timeout_func (tmr s1 t)) s1;
                s3 = rt_enter_critical s2
            in soft_check_loop cb fuel (rt_tick s2) n' (timer_rearm t s3)
          else Some s)"

definition rt_soft_timer_check :: "(nat \<Rightarrow> kernel \<Rightarrow> kernel) \<Rightarrow> nat \<Rightarrow> kernel \<Rightarrow> kernel option" where
  "rt_soft_timer_check cb fuel s =
     map_option rt_exit_critical
       (soft_check_loop cb fuel (rt_tick s)
          (case tmlists s Soft_Timers of [] \<Rightarrow> None | t # _ \<Rightarrow> Some t) (rt_enter_critical s))"

definition rt_system_timer_init :: "kernel \<Rightarrow> kernel" where
  "rt_system_timer_init s = s\<lparr>tmlists := (tmlists s)(Hard_Timers := [])\<rparr>"

section \<open>Frame rules\<close>

lemma timer_unlink_simps [simp]:
  "tmr (timer_unlink m s) = (tmr s)(m := (tmr s m)\<lparr>row := None\<rparr>)"
  "tmlists (timer_unlink m s) l = (if row (tmr s m) = Some l then remove1 m (tmlists s l) else tmlists s l)"
  "thr (timer_unlink m s) = thr s" "tlists (timer_unlink m s) = tlists s"
  "rt_thread_ready_priority_group (timer_unlink m s) = rt_thread_ready_priority_group s"
  "rt_current_thread (timer_unlink m s) = rt_current_thread s"
  "rt_scheduler_lock_nest (timer_unlink m s) = rt_scheduler_lock_nest s"
  "rt_tick (timer_unlink m s) = rt_tick s" "random_nr (timer_unlink m s) = random_nr s"
  "objs (timer_unlink m s) = objs s" "object_list (timer_unlink m s) = object_list s"
  "fault (timer_unlink m s) = fault s"
  by (auto simp: timer_unlink_def fun_eq_iff split: option.splits)

lemma timer_link_simps:
  assumes "row (tmr s m) = None"
  shows "tmr (timer_link l xs m s) = (tmr s)(m := (tmr s m)\<lparr>row := Some l\<rparr>)"
    "tmlists (timer_link l xs m s) = (tmlists s)(l := xs)" "fault (timer_link l xs m s) = fault s"
  using assms by (simp_all add: timer_link_def)

lemma timer_link_frame [simp]:
  "thr (timer_link l xs m s) = thr s" "tlists (timer_link l xs m s) = tlists s"
  "rt_thread_ready_priority_group (timer_link l xs m s) = rt_thread_ready_priority_group s"
  "rt_current_thread (timer_link l xs m s) = rt_current_thread s"
  "rt_scheduler_lock_nest (timer_link l xs m s) = rt_scheduler_lock_nest s"
  "rt_tick (timer_link l xs m s) = rt_tick s"
  "objs (timer_link l xs m s) = objs s" "object_list (timer_link l xs m s) = object_list s"
  by (simp_all add: timer_link_def split: option.splits)

lemma timer_stop_frame [simp]:
  "thr (fst (rt_timer_stop m s)) = thr s" "tlists (fst (rt_timer_stop m s)) = tlists s"
  "rt_thread_ready_priority_group (fst (rt_timer_stop m s)) = rt_thread_ready_priority_group s"
  "rt_current_thread (fst (rt_timer_stop m s)) = rt_current_thread s"
  "rt_scheduler_lock_nest (fst (rt_timer_stop m s)) = rt_scheduler_lock_nest s"
  "rt_tick (fst (rt_timer_stop m s)) = rt_tick s"
  "objs (fst (rt_timer_stop m s)) = objs s" "object_list (fst (rt_timer_stop m s)) = object_list s"
  "is_timer m s \<Longrightarrow> fault (fst (rt_timer_stop m s)) = fault s"
  by (simp_all add: rt_timer_stop_def Let_def)

lemma is_timer_cong: "objs s' = objs s \<Longrightarrow> is_timer m s' = is_timer m s"
  by (simp add: is_timer_def rt_object_get_type_def)

lemma is_thread_cong: "objs s' = objs s \<Longrightarrow> is_thread t s' = is_thread t s"
  by (simp add: is_thread_def rt_object_get_type_def)

lemma suspend_resume_frame [simp]:
  "rt_tick (fst (rt_thread_resume t s)) = rt_tick s" "objs (fst (rt_thread_resume t s)) = objs s"
  "object_list (fst (rt_thread_resume t s)) = object_list s"
  "rt_current_thread (fst (rt_thread_resume t s)) = rt_current_thread s"
  "rt_scheduler_lock_nest (fst (rt_thread_resume t s)) = rt_scheduler_lock_nest s"
  "rt_tick (fst (rt_thread_suspend t s)) = rt_tick s" "objs (fst (rt_thread_suspend t s)) = objs s"
  "object_list (fst (rt_thread_suspend t s)) = object_list s"
  "rt_current_thread (fst (rt_thread_suspend t s)) = rt_current_thread s"
  "rt_scheduler_lock_nest (fst (rt_thread_suspend t s)) = rt_scheduler_lock_nest s"
  by (simp_all add: rt_thread_resume_def rt_thread_suspend_def Let_def)

section \<open>The invariant\<close>

lemma thread_ok_unqueue: "thread_ok c m x \<Longrightarrow> thread_ok c False x"
  by (auto simp: thread_ok_def Let_def)

lemma timer_ok_unlinked:
  "timer_ok m x \<Longrightarrow> timer_ok m (x\<lparr>row := None, timer_flag := fl, timeout_tick := a, timer_init_tick := b\<rparr>)"
  by (auto simp: timer_ok_def split: tmid.splits)

lemma timer_links_unlink: "timer_links_ok s \<Longrightarrow> timer_links_ok (timer_unlink m s)"
  by (auto simp: timer_links_ok_def distinct_remove1)

lemma kinv_but_timer_unlink:
  assumes "kinv_but X s"
  shows "kinv_but X (timer_unlink m s)"
proof (rule kinv_butI)
  note k = kinv_butD [OF assms]
  show "links_ok (timer_unlink m s)" using k(1) by (simp add: links_ok_def)
  show "bitmap_ok (timer_unlink m s)" using k(2) by (simp add: bitmap_ok_def)
  show "timer_links_ok (timer_unlink m s)" by (rule timer_links_unlink [OF k(3)])
  show "timer_ok m' (tmr (timer_unlink m s) m')" for m'
    using k(4) [of m'] timer_ok_unlinked [OF k(4) [of m], where fl = "timer_flag (tmr s m)" and a = "timeout_tick (tmr s m)"
        and b = "timer_init_tick (tmr s m)"]
    by simp
  show "thread_ok (rt_current_thread (timer_unlink m s) = Some t) (timer_queued (timer_unlink m s) t)
      (thr (timer_unlink m s) t)" if "t \<notin> X" for t
    using k(5) [OF that] thread_ok_unqueue by auto
qed

text \<open>Updating fields of a timer that is in no list.\<close>

lemma kinv_but_timer_upd:
  assumes "kinv_but X s" "row (f (tmr s m)) = row (tmr s m)" "timer_ok m (f (tmr s m))"
  shows "kinv_but X (upd_tmr m f s)"
proof (rule kinv_butI)
  note k = kinv_butD [OF assms(1)]
  have r: "row (((tmr s)(m := f (tmr s m))) x) = row (tmr s x)" for x using assms(2) by simp
  show "links_ok (upd_tmr m f s)" using k(1) by (simp add: links_ok_def)
  show "bitmap_ok (upd_tmr m f s)" using k(2) by (simp add: bitmap_ok_def)
  show "timer_links_ok (upd_tmr m f s)" using k(3) r unfolding timer_links_ok_def upd_tmr_simps by simp
  show "timer_ok m' (tmr (upd_tmr m f s) m')" for m' using k(4) [of m'] assms(3) by simp
  show "thread_ok (rt_current_thread (upd_tmr m f s) = Some t) (timer_queued (upd_tmr m f s) t)
      (thr (upd_tmr m f s) t)" if "t \<notin> X" for t
    using k(5) [OF that] r unfolding upd_tmr_simps by simp
qed

lemma kinv_but_assert: "kinv_but X s \<Longrightarrow> kinv_but X (rt_assert b s)"
  by (erule kinv_but_cong) simp_all

lemma flag_bits:
  "(fl :: u8) AND 1 = 0 \<longleftrightarrow> \<not> bit fl 0" "fl AND 2 = 0 \<longleftrightarrow> \<not> bit fl 1" "fl AND 4 = 0 \<longleftrightarrow> \<not> bit fl 2"
  using bit_iff_and_push_bit_not_eq_0 [of fl 0] bit_iff_and_push_bit_not_eq_0 [of fl 1]
    bit_iff_and_push_bit_not_eq_0 [of fl 2]
  by simp_all

lemma timer_stop_kinv:
  assumes "kinv_but X s"
  shows "kinv_but X (fst (rt_timer_stop m s))" "row (tmr (fst (rt_timer_stop m s)) m) = None"
    "m' \<noteq> m \<Longrightarrow> tmr (fst (rt_timer_stop m s)) m' = tmr s m'"
proof -
  note k = kinv_but_timer_unlink [OF kinv_but_assert [OF assms, of "is_timer m s"], of m]
  have "timer_ok m ((tmr s m)\<lparr>row := None, timer_flag := timer_flag (tmr s m) AND NOT 1,
      timeout_tick := timeout_tick (tmr s m), timer_init_tick := timer_init_tick (tmr s m)\<rparr>)"
    by (rule timer_ok_unlinked [OF kinv_butD(4) [OF assms]])
  then have "kinv_but X (upd_tmr m (\<lambda>x. x\<lparr>timer_flag := timer_flag x AND NOT RT_TIMER_FLAG_ACTIVATED\<rparr>)
      (timer_unlink m (rt_assert (is_timer m s) s)))"
    by (intro kinv_but_timer_upd [OF k]) simp_all
  then show "kinv_but X (fst (rt_timer_stop m s))"
    using kinv_but_assert [OF assms] by (simp add: rt_timer_stop_def Let_def)
  show "row (tmr (fst (rt_timer_stop m s)) m) = None"
    using kinv_butD(4) [OF assms, of m] by (auto simp: rt_timer_stop_def Let_def flag_bits timer_ok_def)
  show "m' \<noteq> m \<Longrightarrow> tmr (fst (rt_timer_stop m s)) m' = tmr s m'"
    by (simp add: rt_timer_stop_def Let_def)
qed

section \<open>Suspend and resume\<close>

lemma suspend_error:
  "tstat s t \<noteq> RT_THREAD_READY \<and> tstat s t \<noteq> RT_THREAD_RUNNING \<Longrightarrow>
    rt_thread_suspend t s = (rt_assert (is_thread t s) s, - RT_ERROR)"
  by (simp add: rt_thread_suspend_def Let_def)

lemma suspend_state:
  assumes k: "kinv s" and st: "tstat s t = RT_THREAD_READY \<or> tstat s t = RT_THREAD_RUNNING"
  defines "s' \<equiv> fst (rt_thread_suspend t s)"
  shows "thr s' = (thr s)(t := (thr s t)\<lparr>tlist := None, stat := set_stat RT_THREAD_SUSPEND (stat (thr s t))\<rparr>)"
    "\<And>l. tlists s' l = (if tlist (thr s t) = Some l then remove1 t (tlists s l) else tlists s l)"
    "rt_current_thread s' = rt_current_thread s" "rt_scheduler_lock_nest s' = rt_scheduler_lock_nest s"
    "rt_tick s' = rt_tick s" "objs s' = objs s" "object_list s' = object_list s"
    "\<And>m. m \<noteq> Thread_Timer t \<Longrightarrow> tmr s' m = tmr s m"
    "row (tmr s' (Thread_Timer t)) = None"
    "kinv s'" "snd (rt_thread_suspend t s) = RT_EOK"
    "\<lbrakk>is_thread t s; is_timer (Thread_Timer t) s\<rbrakk> \<Longrightarrow> fault s' = fault s"
proof -
  let ?s0 = "rt_assert (is_thread t s) s"
  let ?s1 = "if tstat ?s0 t = RT_THREAD_RUNNING then rt_assert (rt_current_thread ?s0 = Some t) ?s0 else ?s0"
  let ?s3 = "upd_thr t (\<lambda>x. x\<lparr>stat := set_stat RT_THREAD_SUSPEND (stat x)\<rparr>) (rt_schedule_remove_thread t ?s1)"
  have e: "s' = fst (rt_timer_stop (Thread_Timer t) ?s3)" "snd (rt_thread_suspend t s) = RT_EOK"
    using st by (auto simp: s'_def rt_thread_suspend_def Let_def)
  have ok: "thread_ok (rt_current_thread s = Some t) (timer_queued s t) (thr s t)"
    using kinv_butD(5) [OF k [unfolded kinv_def], of t] by simp
  have m: "mask_ok (thr s t)" using thread_ok_mask(2) [OF ok] st by auto
  have k1: "kinv_but {} ?s1" using k kinv_but_assert unfolding kinv_def by simp
  have "kinv_but ({t} - {t}) ?s3"
    by (rule kinv_but_thread [OF kinv_but_remove [OF k1]])
       (use m st ok in \<open>auto simp: thread_ok_def node_ok_def mask_ok_def Let_def\<close>)
  then have k3: "kinv_but {} ?s3" by simp
  show "kinv s'" unfolding e kinv_def by (rule timer_stop_kinv(1) [OF k3])
  show "row (tmr s' (Thread_Timer t)) = None" unfolding e by (rule timer_stop_kinv(2) [OF k3])
  show "tmr s' m = tmr s m" if "m \<noteq> Thread_Timer t" for m
    unfolding e using timer_stop_kinv(3) [OF k3 that] by simp
  show "thr s' = (thr s)(t := (thr s t)\<lparr>tlist := None, stat := set_stat RT_THREAD_SUSPEND (stat (thr s t))\<rparr>)"
    "\<And>l. tlists s' l = (if tlist (thr s t) = Some l then remove1 t (tlists s l) else tlists s l)"
    "rt_current_thread s' = rt_current_thread s" "rt_scheduler_lock_nest s' = rt_scheduler_lock_nest s"
    "rt_tick s' = rt_tick s" "objs s' = objs s" "object_list s' = object_list s"
    unfolding e by simp_all
  show "snd (rt_thread_suspend t s) = RT_EOK" by (rule e(2))
  show "fault s' = fault s" if "is_thread t s" "is_timer (Thread_Timer t) s"
  proof -
    have "is_timer (Thread_Timer t) ?s3" using that(2) by (simp add: is_timer_def rt_object_get_type_def)
    then show ?thesis unfolding e using that(1) running_thread(4) [OF k] by auto
  qed
qed

lemma resume_error:
  "tstat s t \<noteq> RT_THREAD_SUSPEND \<Longrightarrow> rt_thread_resume t s = (rt_assert (is_thread t s) s, - RT_ERROR)"
  by (simp add: rt_thread_resume_def Let_def)

lemma kinv_but_unlink:
  assumes k: "kinv_but X s" and n: "\<And>p. tlist (thr s t) \<noteq> Some (Ready p)"
  shows "kinv_but (insert t X) (thread_unlink t s)"
proof (rule kinv_butI)
  note kd = kinv_butD [OF k]
  show "links_ok (thread_unlink t s)" by (rule links_ok_unlink [OF kd(1)])
  show "bitmap_ok (thread_unlink t s)" using kd(2) n by (simp add: bitmap_ok_def)
  show "timer_links_ok (thread_unlink t s)" using kd(3) by (simp add: timer_links_ok_def)
qed (use kinv_butD(4,5) [OF k] in auto)

lemma suspended_thread:
  assumes "kinv s" "tstat s t = RT_THREAD_SUSPEND"
  shows "mask_ok (thr s t)" "\<And>p. tlist (thr s t) \<noteq> Some (Ready p)" "tlist (thr s t) \<noteq> Some Defunct"
proof -
  have ok: "thread_ok (rt_current_thread s = Some t) (timer_queued s t) (thr s t)"
    using kinv_butD(5) [OF assms(1) [unfolded kinv_def], of t] by simp
  show "mask_ok (thr s t)" using thread_ok_mask(2) [OF ok] assms(2) by auto
  show "\<And>p. tlist (thr s t) \<noteq> Some (Ready p)" "tlist (thr s t) \<noteq> Some Defunct"
    using ok assms(2) by (auto simp: thread_ok_def node_ok_def Let_def)
qed

lemma resume_state:
  assumes k: "kinv s" and st: "tstat s t = RT_THREAD_SUSPEND"
  defines "s' \<equiv> fst (rt_thread_resume t s)"
  defines "p \<equiv> Ready (unat (current_priority (thr s t)))"
  shows "thr s' = (thr s)(t := (if rt_current_thread s = Some t
      then (thr s t)\<lparr>tlist := None, stat := set_stat RT_THREAD_RUNNING (stat (thr s t))\<rparr>
      else (thr s t)\<lparr>stat := set_stat RT_THREAD_READY (stat (thr s t)), tlist := Some p\<rparr>))"
    "\<And>l. tlists s' l = (if tlist (thr s t) = Some l then remove1 t (tlists s l)
      else if rt_current_thread s \<noteq> Some t \<and> l = p then tlists s l @ [t] else tlists s l)"
    "rt_current_thread s' = rt_current_thread s" "rt_scheduler_lock_nest s' = rt_scheduler_lock_nest s"
    "rt_tick s' = rt_tick s" "objs s' = objs s" "object_list s' = object_list s"
    "\<And>m. m \<noteq> Thread_Timer t \<Longrightarrow> tmr s' m = tmr s m" "\<not> timer_queued s' t"
    "kinv s'" "snd (rt_thread_resume t s) = RT_EOK"
    "\<lbrakk>is_thread t s; is_timer (Thread_Timer t) s\<rbrakk> \<Longrightarrow> fault s' = fault s"
proof -
  let ?s0 = "rt_assert (is_thread t s) s"
  let ?s1 = "thread_unlink t ?s0"
  let ?s2 = "fst (rt_timer_stop (Thread_Timer t) ?s1)"
  have e: "s' = rt_schedule_insert_thread t ?s2" "snd (rt_thread_resume t s) = RT_EOK"
    using st by (simp_all add: s'_def rt_thread_resume_def Let_def)
  note S = suspended_thread [OF k st]
  have k1: "kinv_but {t} ?s1"
    using kinv_but_unlink [OF kinv_but_assert [OF k [unfolded kinv_def]], where t = t] S(2) by simp
  note stop = timer_stop_kinv [OF k1, where m = "Thread_Timer t"]
  have free: "tlist (thr ?s2 t) = None" by simp
  have "kinv_but ({t} - {t}) (rt_schedule_insert_thread t ?s2)"
    by (rule kinv_but_insert [OF stop(1)]) (use S(1) stop(2) in \<open>simp_all add: mask_ok_def\<close>)
  then show "kinv s'" unfolding e kinv_def by simp
  note ins = insert_thread_simps [OF free, unfolded Let_def]
  show "thr s' = (thr s)(t := (if rt_current_thread s = Some t
      then (thr s t)\<lparr>tlist := None, stat := set_stat RT_THREAD_RUNNING (stat (thr s t))\<rparr>
      else (thr s t)\<lparr>stat := set_stat RT_THREAD_READY (stat (thr s t)), tlist := Some p\<rparr>))"
    unfolding e by (cases "rt_current_thread s = Some t") (simp_all add: ins p_def)
  show "tlists s' l = (if tlist (thr s t) = Some l then remove1 t (tlists s l)
      else if rt_current_thread s \<noteq> Some t \<and> l = p then tlists s l @ [t] else tlists s l)" for l
    unfolding e using S(2) by (cases "rt_current_thread s = Some t") (auto simp: ins p_def)
  show "rt_current_thread s' = rt_current_thread s" "rt_scheduler_lock_nest s' = rt_scheduler_lock_nest s"
    "rt_tick s' = rt_tick s" "objs s' = objs s" "object_list s' = object_list s"
    unfolding e by simp_all
  show "tmr s' m = tmr s m" if "m \<noteq> Thread_Timer t" for m
    unfolding e using stop(3) [OF that] by simp
  show "\<not> timer_queued s' t" unfolding e using stop(2) by simp
  show "snd (rt_thread_resume t s) = RT_EOK" by (rule e(2))
  show "fault s' = fault s" if "is_thread t s" "is_timer (Thread_Timer t) s"
  proof -
    have "is_timer (Thread_Timer t) ?s1" using that(2) by (simp add: is_timer_def rt_object_get_type_def)
    then have f: "fault ?s2 = fault s" using that(1) by simp
    show ?thesis unfolding e using f by (cases "rt_current_thread s = Some t") (simp_all add: ins)
  qed
qed

section \<open>Timeouts and starting timers\<close>

lemma timeout_state:
  assumes k: "kinv s" and st: "tstat s t = RT_THREAD_SUSPEND" and q: "\<not> timer_queued s t"
    and c: "rt_current_thread s \<noteq> None"
  obtains s3 where "rt_thread_timeout t s = rt_schedule s3" "kinv s3" "rt_current_thread s3 = rt_current_thread s"
    "error (thr s3 t) = - RT_ETIMEOUT" "\<And>t'. t' \<noteq> t \<Longrightarrow> thr s3 t' = thr s t'"
    "tstat s3 t = (if rt_current_thread s = Some t then RT_THREAD_RUNNING else RT_THREAD_READY)"
    "tmr s3 = tmr s" "tmlists s3 = tmlists s" "rt_tick s3 = rt_tick s" "objs s3 = objs s"
    "is_thread t s \<Longrightarrow> fault s3 = fault s"
    "\<And>l. (\<And>p. l \<noteq> Ready p) \<Longrightarrow> tlists s3 l = (if tlist (thr s t) = Some l then remove1 t (tlists s l) else tlists s l)"
proof -
  let ?s1 = "rt_assert (is_thread t (rt_assert (tstat s t = RT_THREAD_SUSPEND) s)) (rt_assert (tstat s t = RT_THREAD_SUSPEND) s)"
  let ?s2 = "thread_unlink t (upd_thr t (\<lambda>x. x\<lparr>error := - RT_ETIMEOUT\<rparr>) ?s1)"
  note S = suspended_thread [OF k st]
  have k1: "kinv_but {} ?s1" using k unfolding kinv_def by (intro kinv_but_assert)
  have ok: "thread_ok (rt_current_thread s = Some t) (timer_queued s t) (thr s t)"
    using kinv_butD(5) [OF k [unfolded kinv_def], of t] by simp
  have "kinv_but ({} - {t}) (upd_thr t (\<lambda>x. x\<lparr>error := - RT_ETIMEOUT\<rparr>) ?s1)"
    by (rule kinv_but_thread [OF k1]) (use ok in simp_all)
  then have "kinv_but (insert t ({} - {t})) ?s2" by (rule kinv_but_unlink) (use S(2) in simp)
  then have k2: "kinv_but {t} ?s2" by simp
  have free: "tlist (thr ?s2 t) = None" by simp
  have "kinv_but ({t} - {t}) (rt_schedule_insert_thread t ?s2)"
    by (rule kinv_but_insert [OF k2 free]) (use S(1) q in \<open>simp_all add: mask_ok_def\<close>)
  then have k3: "kinv (rt_schedule_insert_thread t ?s2)" by (simp add: kinv_def)
  note ins = insert_thread_simps [OF free, unfolded Let_def]
  show ?thesis
  proof (rule that)
    show "rt_thread_timeout t s = rt_schedule (rt_schedule_insert_thread t ?s2)"
      by (simp add: rt_thread_timeout_def Let_def)
    show "kinv (rt_schedule_insert_thread t ?s2)" by (rule k3)
    show "error (thr (rt_schedule_insert_thread t ?s2) t) = - RT_ETIMEOUT"
      by (cases "rt_current_thread s = Some t") (simp_all add: ins)
    show "thr (rt_schedule_insert_thread t ?s2) t' = thr s t'" if "t' \<noteq> t" for t'
      using that by (cases "rt_current_thread s = Some t") (simp_all add: ins)
    show "tstat (rt_schedule_insert_thread t ?s2) t = (if rt_current_thread s = Some t then RT_THREAD_RUNNING else RT_THREAD_READY)"
      by (cases "rt_current_thread s = Some t") (simp_all add: ins)
    show "fault (rt_schedule_insert_thread t ?s2) = fault s" if "is_thread t s"
      using that st by (simp add: is_thread_def rt_object_get_type_def)
    show "tlists (rt_schedule_insert_thread t ?s2) l =
        (if tlist (thr s t) = Some l then remove1 t (tlists s l) else tlists s l)"
      if "\<And>p. l \<noteq> Ready p" for l
      using that by (cases "rt_current_thread s = Some t") (simp_all add: ins)
  qed simp_all
qed

lemma timeout_kinv:
  assumes "kinv s" "tstat s t = RT_THREAD_SUSPEND" "\<not> timer_queued s t" "rt_current_thread s \<noteq> None"
  shows "kinv (rt_thread_timeout t s)" "is_thread t s \<Longrightarrow> fault (rt_thread_timeout t s) = fault s"
    "rt_current_thread (rt_thread_timeout t s) \<noteq> None" "tmr (rt_thread_timeout t s) = tmr s"
    "tmlists (rt_thread_timeout t s) = tmlists s" "rt_tick (rt_thread_timeout t s) = rt_tick s"
    "objs (rt_thread_timeout t s) = objs s"
  by (rule timeout_state [OF assms]; use schedule_kinv assms(4) in force)+

lemma timer_insert_set [simp]: "set (timer_insert f m x xs) = insert m (set xs)"
  by (induction xs) auto

lemma timer_insert_distinct [simp]: "distinct (timer_insert f m x xs) \<longleftrightarrow> m \<notin> set xs \<and> distinct xs"
  by (induction xs) auto

lemma kinv_but_timer_link:
  assumes k: "kinv_but X s" and n: "row (tmr s m) = None"
    and xs: "set xs = insert m (set (tmlists s l))" "distinct xs"
    and f: "row (f ((tmr s m)\<lparr>row := Some l\<rparr>)) = Some l" "timer_ok m (f ((tmr s m)\<lparr>row := Some l\<rparr>))"
    and t: "\<And>t. m = Thread_Timer t \<Longrightarrow> t \<notin> X \<Longrightarrow> tstat s t = RT_THREAD_SUSPEND"
  shows "kinv_but X (upd_tmr m f (timer_link l xs m s))"
proof (rule kinv_butI)
  note kd = kinv_butD [OF k]
  let ?s = "upd_tmr m f (timer_link l xs m s)"
  have T: "tmr ?s = (tmr s)(m := f ((tmr s m)\<lparr>row := Some l\<rparr>))" "tmlists ?s = (tmlists s)(l := xs)"
    using n by (simp_all add: timer_link_simps)
  show "links_ok ?s" using kd(1) by (simp add: links_ok_def)
  show "bitmap_ok ?s" using kd(2) by (simp add: bitmap_ok_def)
  show "timer_links_ok ?s"
    unfolding timer_links_ok_def T using kd(3) n xs f(1) by (auto simp: timer_links_ok_def)
  show "timer_ok m' (tmr ?s m')" for m' unfolding T using kd(4) [of m'] f(2) by simp
  show "thread_ok (rt_current_thread ?s = Some t') (timer_queued ?s t') (thr ?s t')" if "t' \<notin> X" for t'
  proof (cases "m = Thread_Timer t'")
    case True
    have "thread_ok c b x \<Longrightarrow> stat x AND 7 = 2 \<Longrightarrow> thread_ok c b' x" for c b b' x
      by (simp add: thread_ok_def Let_def)
    then show ?thesis using kd(5) [OF that] t [OF True that] by simp
  next
    case False
    then show ?thesis unfolding T using kd(5) [OF that] by simp
  qed
qed

text \<open>The state just before the timer thread is woken.\<close>

definition timer_started :: "tmid \<Rightarrow> kernel \<Rightarrow> kernel" where
  "timer_started timer s =
     (let s1 = upd_tmr timer (\<lambda>x. x\<lparr>timer_flag := timer_flag x AND NOT RT_TIMER_FLAG_ACTIVATED\<rparr>)
                 (timer_unlink timer (rt_assert (is_timer timer s) s));
          s2 = rt_assert (timer_init_tick (tmr s1 timer) < RT_TICK_HALF) s1;
          s3 = upd_tmr timer (\<lambda>x. x\<lparr>timeout_tick := rt_tick s2 + timer_init_tick x\<rparr>) s2;
          l = (if timer_flag (tmr s3 timer) AND RT_TIMER_FLAG_SOFT_TIMER \<noteq> 0 then Soft_Timers else Hard_Timers);
          s4 = s3\<lparr>random_nr := random_nr s3 + 1\<rparr>;
          s5 = timer_link l (timer_insert (\<lambda>t. timeout_tick (tmr s4 t)) timer (timeout_tick (tmr s4 timer))
                               (tmlists s4 l)) timer s4
      in upd_tmr timer (\<lambda>x. x\<lparr>timer_flag := timer_flag x OR RT_TIMER_FLAG_ACTIVATED\<rparr>) s5)"

lemma timer_start_eq:
  "rt_timer_start timer s =
     (if timer_flag (tmr (timer_started timer s) timer) AND RT_TIMER_FLAG_SOFT_TIMER \<noteq> 0 \<and>
         tstat (timer_started timer s) timer_thread = RT_THREAD_SUSPEND
      then rt_schedule (fst (rt_thread_resume timer_thread (timer_started timer s)))
      else timer_started timer s, RT_EOK)"
  unfolding rt_timer_start_def timer_started_def Let_def by (rule refl)

lemma flag_arith [simp]:
  "bit ((fl :: u8) AND - 2) n \<longleftrightarrow> bit fl n \<and> n \<noteq> 0"
  "bit ((fl :: u8) AND NOT 1) n \<longleftrightarrow> bit fl n \<and> n \<noteq> 0"
  "bit ((fl :: u8) OR 1) n \<longleftrightarrow> bit fl n \<or> n = 0"
proof -
  have "- 2 = NOT (1 :: u8)" by simp
  then show "bit (fl AND - 2) n \<longleftrightarrow> bit fl n \<and> n \<noteq> 0" "bit (fl AND NOT 1) n \<longleftrightarrow> bit fl n \<and> n \<noteq> 0"
    by (auto simp only: bit_and_iff bit_not_iff bit_1_iff intro: bit_imp_possible_bit)
  show "bit (fl OR 1) n \<longleftrightarrow> bit fl n \<or> n = 0" by (auto simp: bit_simps)
qed

definition timer_list_of :: "rt_timer \<Rightarrow> tlid" where
  "timer_list_of x = (if bit (timer_flag x) 2 then Soft_Timers else Hard_Timers)"

lemma timer_started_state:
  fixes m s
  defines "s' \<equiv> timer_started m s" and "l \<equiv> timer_list_of (tmr s m)"
    and "x \<equiv> rt_tick s + timer_init_tick (tmr s m)"
  shows "thr s' = thr s" "tlists s' = tlists s" "rt_current_thread s' = rt_current_thread s"
    "rt_thread_ready_priority_group s' = rt_thread_ready_priority_group s"
    "rt_scheduler_lock_nest s' = rt_scheduler_lock_nest s" "rt_tick s' = rt_tick s"
    "objs s' = objs s" "object_list s' = object_list s"
    "\<And>m'. m' \<noteq> m \<Longrightarrow> tmr s' m' = tmr s m'"
    "row (tmr s' m) = Some l" "timeout_tick (tmr s' m) = x" "timeout_func (tmr s' m) = timeout_func (tmr s m)"
    "timer_init_tick (tmr s' m) = timer_init_tick (tmr s m)"
    "bit (timer_flag (tmr s' m)) n \<longleftrightarrow> n = 0 \<or> bit (timer_flag (tmr s m)) n"
    "\<lbrakk>is_timer m s; timer_init_tick (tmr s m) < RT_TICK_HALF\<rbrakk> \<Longrightarrow> fault s' = fault s"
  by (auto simp: s'_def timer_started_def Let_def timer_link_simps l_def timer_list_of_def x_def flag_bits)

lemma timer_started_kinv:
  assumes k: "kinv_but X s"
    and th: "\<And>t. m = Thread_Timer t \<Longrightarrow> (t \<in> X \<or> tstat s t = RT_THREAD_SUSPEND) \<and>
      timeout_func (tmr s m) = Thread_Timeout t \<and> \<not> bit (timer_flag (tmr s m)) 1 \<and> \<not> bit (timer_flag (tmr s m)) 2"
  shows "kinv_but X (timer_started m s)"
proof -
  let ?x = "tmr s m"
  let ?s0 = "timer_unlink m (rt_assert (is_timer m s) s)"
  let ?s1 = "upd_tmr m (\<lambda>x. x\<lparr>timer_flag := timer_flag x AND NOT RT_TIMER_FLAG_ACTIVATED\<rparr>) ?s0"
  let ?s2 = "rt_assert (timer_init_tick (tmr ?s1 m) < RT_TICK_HALF) ?s1"
  let ?s3 = "upd_tmr m (\<lambda>x. x\<lparr>timeout_tick := rt_tick ?s2 + timer_init_tick x\<rparr>) ?s2"
  let ?s4 = "?s3\<lparr>random_nr := random_nr ?s3 + 1\<rparr>"
  let ?l = "if timer_flag (tmr ?s3 m) AND RT_TIMER_FLAG_SOFT_TIMER \<noteq> 0 then Soft_Timers else Hard_Timers"
  let ?xs = "timer_insert (\<lambda>t. timeout_tick (tmr ?s4 t)) m (timeout_tick (tmr ?s4 m)) (tmlists ?s4 ?l)"
  have ok: "timer_ok m ?x" by (rule kinv_butD(4) [OF k])
  have k0: "kinv_but X ?s0" by (intro kinv_but_timer_unlink kinv_but_assert k)
  have k1: "kinv_but X ?s1"
    by (rule kinv_but_timer_upd [OF k0]) (use ok in \<open>auto simp: timer_ok_def split: tmid.splits\<close>)
  have k2: "kinv_but X ?s2" by (rule kinv_but_assert [OF k1])
  have k3: "kinv_but X ?s3"
    by (rule kinv_but_timer_upd [OF k2]) (use ok in \<open>auto simp: timer_ok_def split: tmid.splits\<close>)
  have k4: "kinv_but X ?s4" by (rule kinv_but_cong [OF k3]) simp_all
  have n4: "row (tmr ?s4 m) = None" by simp
  have "m \<notin> set (tmlists ?s4 l)" "distinct (tmlists ?s4 l)" for l
    using kinv_butD(3) [OF k4] n4 unfolding timer_links_ok_def by simp_all
  then have d: "distinct ?xs" "set ?xs = insert m (set (tmlists ?s4 ?l))" by simp_all
  have "kinv_but X (upd_tmr m (\<lambda>x. x\<lparr>timer_flag := timer_flag x OR RT_TIMER_FLAG_ACTIVATED\<rparr>)
      (timer_link ?l ?xs m ?s4))"
  proof (rule kinv_but_timer_link [OF k4 n4 d(2,1)])
    show "timer_ok m ((tmr ?s4 m\<lparr>row := Some ?l\<rparr>)\<lparr>timer_flag := timer_flag (tmr ?s4 m\<lparr>row := Some ?l\<rparr>) OR 1\<rparr>)"
      using ok th by (auto simp: timer_ok_def flag_bits split: tmid.splits)
    show "tstat ?s4 t = RT_THREAD_SUSPEND" if "m = Thread_Timer t" "t \<notin> X" for t
      using th [OF that(1)] that(2) by simp
  qed simp
  then show ?thesis unfolding timer_started_def Let_def .
qed

lemma timer_start_hard:
  "\<not> bit (timer_flag (tmr s m)) 2 \<Longrightarrow> rt_timer_start m s = (timer_started m s, RT_EOK)"
  by (simp add: timer_start_eq flag_bits timer_started_state(14))

lemma timer_start_kinv:
  assumes k: "kinv s" and c: "rt_current_thread s \<noteq> None"
    and th: "\<And>t. m = Thread_Timer t \<Longrightarrow> tstat s t = RT_THREAD_SUSPEND \<and>
      timeout_func (tmr s m) = Thread_Timeout t \<and> \<not> bit (timer_flag (tmr s m)) 1 \<and> \<not> bit (timer_flag (tmr s m)) 2"
  shows "kinv (fst (rt_timer_start m s))" "rt_current_thread (fst (rt_timer_start m s)) \<noteq> None"
proof -
  have k1: "kinv (timer_started m s)"
    unfolding kinv_def by (rule timer_started_kinv [OF k [unfolded kinv_def]]) (use th in auto)
  have c1: "rt_current_thread (timer_started m s) \<noteq> None" using c by (simp add: timer_started_state)
  show "kinv (fst (rt_timer_start m s))" "rt_current_thread (fst (rt_timer_start m s)) \<noteq> None"
    using k1 c1 resume_state [OF k1, of timer_thread]
      schedule_kinv [of "fst (rt_thread_resume timer_thread (timer_started m s))"]
    by (auto simp: timer_start_eq)
qed

section \<open>Expiry order\<close>

text \<open>The distance of a timeout from one tick before now; a queue is in order when the distances
  ascend and stay below half of the tick range.\<close>

definition dist :: "u32 \<Rightarrow> u32 \<Rightarrow> nat" where
  "dist now x = unat (x - now + 1)"

definition in_order :: "tlid \<Rightarrow> kernel \<Rightarrow> bool" where
  "in_order l s \<longleftrightarrow>
     sorted (map (\<lambda>m. dist (rt_tick s) (timeout_tick (tmr s m))) (tmlists s l)) \<and>
     (\<forall>m \<in> set (tmlists s l). dist (rt_tick s) (timeout_tick (tmr s m)) \<le> 0x7fffffff)"

lemma unat_sub_small:
  fixes a b :: u32
  shows "unat (a - b) = (if unat b \<le> unat a then unat a - unat b else unat a + 2 ^ 32 - unat b)"
  using unat_sub_if_size [of a b] by (auto simp: word_size word_le_nat_alt)

lemma dist_diff:
  assumes "dist now a \<le> 0x7fffffff" "1 \<le> dist now b" "dist now b \<le> 0x7fffffff"
  shows "a - b = 0 \<longleftrightarrow> dist now a = dist now b"
    "1 \<le> dist now a \<Longrightarrow> a - b < RT_TICK_HALF \<longleftrightarrow> dist now b \<le> dist now a"
proof -
  have e: "a - b = (a - now + 1) - (b - now + 1)" by simp
  have u: "unat (a - b) = (if dist now b \<le> dist now a then dist now a - dist now b
      else dist now a + 2 ^ 32 - dist now b)"
    unfolding e dist_def by (rule unat_sub_small)
  show "a - b = 0 \<longleftrightarrow> dist now a = dist now b"
    using assms unfolding unat_eq_zero [symmetric] u by auto
  show "a - b < RT_TICK_HALF \<longleftrightarrow> dist now b \<le> dist now a" if "1 \<le> dist now a"
    using assms that unfolding word_less_nat_alt u by auto
qed

lemma timer_insert_sorted:
  assumes "sorted (map (\<lambda>m. dist now (f m)) xs)" "\<forall>m \<in> set xs. 1 \<le> dist now (f m) \<and> dist now (f m) \<le> 0x7fffffff"
    and "1 \<le> dist now (f m)" "dist now (f m) \<le> 0x7fffffff"
  shows "sorted (map (\<lambda>m. dist now (f m)) (timer_insert f m (f m) xs))"
  using assms(1,2)
proof (induction xs)
  case (Cons t ts)
  have t: "1 \<le> dist now (f t)" "dist now (f t) \<le> 0x7fffffff" using Cons.prems by auto
  note d = dist_diff [OF t(2) assms(3,4)]
  show ?case using Cons d(1) d(2) [OF t(1)] by (auto simp: not_le)
qed simp

text \<open>The new timer goes behind those that expire earlier or at the same time and in front of those that expire later.\<close>

lemma timer_insert_place:
  assumes "sorted (map (\<lambda>m. dist now (f m)) xs)" "\<forall>m \<in> set xs. 1 \<le> dist now (f m) \<and> dist now (f m) \<le> 0x7fffffff"
    and "1 \<le> dist now (f m)" "dist now (f m) \<le> 0x7fffffff"
  shows "\<exists>us vs. timer_insert f m (f m) xs = us @ m # vs \<and> (\<forall>t \<in> set us. dist now (f t) \<le> dist now (f m)) \<and>
    (\<forall>t \<in> set vs. dist now (f m) < dist now (f t))"
  using assms(1,2)
proof (induction xs)
  case (Cons t ts)
  have t: "1 \<le> dist now (f t)" "dist now (f t) \<le> 0x7fffffff" using Cons.prems by auto
  note d = dist_diff(1) [OF t(2) assms(3,4)] dist_diff(2) [OF t(2) assms(3,4) t(1)]
  show ?case
  proof (cases "dist now (f m) < dist now (f t)")
    case True
    then have "timer_insert f m (f m) (t # ts) = [] @ m # t # ts" using d by simp
    moreover have "\<forall>u \<in> set (t # ts). dist now (f m) < dist now (f u)" using Cons.prems(1) True by auto
    ultimately show ?thesis by (metis empty_iff empty_set)
  next
    case False
    then have e: "timer_insert f m (f m) (t # ts) = t # timer_insert f m (f m) ts" using d by auto
    obtain us vs where "timer_insert f m (f m) ts = us @ m # vs" "\<forall>u \<in> set us. dist now (f u) \<le> dist now (f m)"
      "\<forall>u \<in> set vs. dist now (f m) < dist now (f u)" using Cons by auto
    then show ?thesis using e False by (intro exI [of _ "t # us"] exI [of _ vs]) auto
  qed
qed (rule exI [of _ "[]"], simp)

section \<open>The tick interrupt wakes the sleepers that are due\<close>

abbreviation awake :: "kernel \<Rightarrow> tid \<Rightarrow> bool" where
  "awake s t \<equiv> tstat s t \<in> {RT_THREAD_READY, RT_THREAD_RUNNING}"

lemma schedule_awake:
  assumes k: "kinv s" and c: "rt_current_thread s \<noteq> None" and a: "awake s t"
  shows "awake (rt_schedule s) t" "error (thr (rt_schedule s) t) = error (thr s t)"
proof -
  show "error (thr (rt_schedule s) t) = error (thr s t)"
    using schedule_thr_fields [OF k c, of t] by (metis rt_thread.select_convs(9) rt_thread.surjective
        rt_thread.update_convs(1) rt_thread.update_convs(11))
  obtain c where c: "rt_current_thread s = Some c" using c by auto
  show "awake (rt_schedule s) t"
  proof (rule schedule_cases [OF k c])
    fix p h rest assume s: "rt_schedule s = switched c h p s" and q: "tlists s (Ready p) = h # rest"
    show ?thesis using a by (auto simp: s switched_thr(1) [OF k c q])
  qed (use a in simp_all)
qed

lemma timeout_effect:
  assumes k: "kinv s" and st: "tstat s t = RT_THREAD_SUSPEND" and q: "\<not> timer_queued s t"
    and c: "rt_current_thread s \<noteq> None"
  defines "s' \<equiv> rt_thread_timeout t s"
  shows "error (thr s' t) = - RT_ETIMEOUT" "awake s' t"
    "\<lbrakk>t' \<noteq> t; awake s t'\<rbrakk> \<Longrightarrow> awake s' t' \<and> error (thr s' t') = error (thr s t')"
    "\<lbrakk>t' \<noteq> t; tstat s t' = RT_THREAD_SUSPEND\<rbrakk> \<Longrightarrow> thr s' t' = thr s t'"
proof -
  obtain s3 where s3: "s' = rt_schedule s3" "kinv s3" "rt_current_thread s3 = rt_current_thread s"
    "error (thr s3 t) = - RT_ETIMEOUT" "\<And>t'. t' \<noteq> t \<Longrightarrow> thr s3 t' = thr s t'"
    "tstat s3 t = (if rt_current_thread s = Some t then RT_THREAD_RUNNING else RT_THREAD_READY)"
    using timeout_state [OF k st q c] unfolding s'_def by metis
  have c3: "rt_current_thread s3 \<noteq> None" using c s3(3) by simp
  note sa = schedule_awake [OF s3(2) c3]
  have at: "awake s3 t" using s3(6) by simp
  show "error (thr s' t) = - RT_ETIMEOUT" "awake s' t" using sa [OF at] s3(4) unfolding s3(1) by simp_all
  show "awake s' t' \<and> error (thr s' t') = error (thr s t')" if "t' \<noteq> t" "awake s t'"
    using sa [of t'] s3(5) [OF that(1)] that(2) unfolding s3(1) by simp
  show "thr s' t' = thr s t'" if "t' \<noteq> t" "tstat s t' = RT_THREAD_SUSPEND"
    using schedule_not_ready [OF s3(2) c3, of t'] s3(5) [OF that(1)] that(2) unfolding s3(1) by simp
qed

text \<open>A timer is due when its distance is at most one.\<close>

abbreviation due :: "kernel \<Rightarrow> tmid \<Rightarrow> bool" where
  "due s m \<equiv> dist (rt_tick s) (timeout_tick (tmr s m)) \<le> 1"

lemma due_iff:
  assumes "dist now x \<le> 0x7fffffff"
  shows "now - x < RT_TICK_HALF \<longleftrightarrow> dist now x \<le> 1"
proof -
  have e: "now - x = 1 - (x - now + 1)" by simp
  have "unat (now - x) = (if dist now x \<le> 1 then 1 - dist now x else 1 + 2 ^ 32 - dist now x)"
    unfolding e dist_def by (subst unat_sub_small) simp
  then show ?thesis using assms unfolding word_less_nat_alt by auto
qed

text \<open>One round of the check loop on the timer of a sleeping thread.\<close>

lemma check_round:
  fixes cb :: "nat \<Rightarrow> kernel \<Rightarrow> kernel"
  assumes k: "kinv s" and c: "rt_current_thread s \<noteq> None"
    and q: "tmlists s Hard_Timers = Thread_Timer t # ms"
  defines "s2 \<equiv> timer_rearm (Thread_Timer t)
      (call_timeout cb (timeout_func (tmr (timer_unlink (Thread_Timer t) s) (Thread_Timer t)))
        (timer_unlink (Thread_Timer t) s))"
  shows "s2 = upd_tmr (Thread_Timer t) (\<lambda>x. x\<lparr>timer_flag := timer_flag x AND NOT RT_TIMER_FLAG_ACTIVATED\<rparr>)
      (rt_thread_timeout t (timer_unlink (Thread_Timer t) s))"
    "kinv s2" "rt_current_thread s2 \<noteq> None" "tmlists s2 Hard_Timers = ms" "rt_tick s2 = rt_tick s"
    "\<And>m. m \<noteq> Thread_Timer t \<Longrightarrow> tmr s2 m = tmr s m" "objs s2 = objs s"
    "error (thr s2 t) = - RT_ETIMEOUT" "awake s2 t"
    "\<And>t'. t' \<noteq> t \<Longrightarrow> awake s t' \<Longrightarrow> awake s2 t' \<and> error (thr s2 t') = error (thr s t')"
    "\<And>t'. t' \<noteq> t \<Longrightarrow> tstat s t' = RT_THREAD_SUSPEND \<Longrightarrow> thr s2 t' = thr s t'"
    "is_thread t s \<Longrightarrow> fault s2 = fault s"
proof -
  let ?m = "Thread_Timer t" and ?s1 = "timer_unlink (Thread_Timer t) s"
  note kd = kinv_butD [OF k [unfolded kinv_def]]
  have "?m \<in> {m. row (tmr s m) = Some Hard_Timers}"
    using kd(3) q unfolding timer_links_ok_def by (metis list.set_intros(1))
  then have r: "row (tmr s ?m) = Some Hard_Timers" by simp
  have f: "timeout_func (tmr s ?m) = Thread_Timeout t" "\<not> bit (timer_flag (tmr s ?m)) 1"
    using kd(4) [of ?m] r by (auto simp: timer_ok_def)
  have st: "tstat ?s1 t = RT_THREAD_SUSPEND" using kd(5) [of t] r by (auto simp: thread_ok_def Let_def)
  have k1: "kinv ?s1" using kinv_but_timer_unlink [OF k [unfolded kinv_def]] by (simp add: kinv_def)
  have nq: "\<not> timer_queued ?s1 t" and c1: "rt_current_thread ?s1 \<noteq> None" using c by simp_all
  note T = timeout_kinv [OF k1 st nq c1] and E = timeout_effect [OF k1 st nq c1]
  show e: "s2 = upd_tmr ?m (\<lambda>x. x\<lparr>timer_flag := timer_flag x AND NOT RT_TIMER_FLAG_ACTIVATED\<rparr>)
      (rt_thread_timeout t ?s1)"
    using f by (simp add: s2_def call_timeout_def timer_rearm_def Let_def T(4) flag_bits)
  have "kinv_but {} s2" unfolding e
    by (rule kinv_but_timer_upd [OF T(1) [unfolded kinv_def]])
       (use kd(4) [of ?m] in \<open>auto simp: T(4) timer_ok_def\<close>)
  then show "kinv s2" by (simp add: kinv_def)
  show "rt_current_thread s2 \<noteq> None" "rt_tick s2 = rt_tick s" "objs s2 = objs s"
    "\<And>m. m \<noteq> ?m \<Longrightarrow> tmr s2 m = tmr s m"
    using T(3,4,6,7) by (simp_all add: e)
  show "tmlists s2 Hard_Timers = ms" using T(5) q r by (simp add: e)
  show "error (thr s2 t) = - RT_ETIMEOUT" "awake s2 t" using E(1,2) by (simp_all add: e)
  show "awake s2 t' \<and> error (thr s2 t') = error (thr s t')" if "t' \<noteq> t" "awake s t'" for t'
    using E(3) [of t'] that by (simp add: e)
  show "thr s2 t' = thr s t'" if "t' \<noteq> t" "tstat s t' = RT_THREAD_SUSPEND" for t'
    using E(4) [of t'] that by (simp add: e)
  show "fault s2 = fault s" if "is_thread t s"
    using T(2) that by (simp add: e is_thread_def rt_object_get_type_def)
qed

lemma check_thread_timers:
  "\<lbrakk>tmlists s Hard_Timers = xs; kinv s; rt_current_thread s \<noteq> None; in_order Hard_Timers s;
    \<forall>m \<in> set xs. \<exists>t. m = Thread_Timer t \<and> is_thread t s; length xs < fuel\<rbrakk> \<Longrightarrow>
   \<exists>s'. timer_check_loop cb fuel (rt_tick s) s = Some s' \<and> kinv s' \<and> rt_current_thread s' \<noteq> None \<and>
     rt_tick s' = rt_tick s \<and> fault s' = fault s \<and>
     tmlists s' Hard_Timers = filter (\<lambda>m. \<not> due s m) xs \<and>
     (\<forall>t. Thread_Timer t \<in> set xs \<and> due s (Thread_Timer t) \<longrightarrow>
        awake s' t \<and> error (thr s' t) = - RT_ETIMEOUT) \<and>
     (\<forall>t. Thread_Timer t \<notin> set xs \<and> awake s t \<longrightarrow> awake s' t \<and> error (thr s' t) = error (thr s t)) \<and>
     (\<forall>t. \<not> (Thread_Timer t \<in> set xs \<and> due s (Thread_Timer t)) \<and> tstat s t = RT_THREAD_SUSPEND \<longrightarrow>
        thr s' t = thr s t)"
proof (induction xs arbitrary: s fuel)
  case Nil
  then show ?case by (cases fuel) auto
next
  case (Cons m ms)
  obtain t where m: "m = Thread_Timer t" "is_thread t s" using Cons.prems(5) by auto
  obtain fu where fu: "fuel = Suc fu" "length ms < fu" using Cons.prems(6) by (cases fuel) auto
  note q = Cons.prems(1) [unfolded m]
  have sd: "dist (rt_tick s) (timeout_tick (tmr s m)) \<le> 0x7fffffff"
    "\<forall>m' \<in> set ms. dist (rt_tick s) (timeout_tick (tmr s m)) \<le> dist (rt_tick s) (timeout_tick (tmr s m'))"
    "sorted (map (\<lambda>m. dist (rt_tick s) (timeout_tick (tmr s m))) ms)"
    "\<forall>m' \<in> set ms. dist (rt_tick s) (timeout_tick (tmr s m')) \<le> 0x7fffffff"
    using Cons.prems(4) unfolding in_order_def Cons.prems(1) by auto
  show ?case
  proof (cases "due s m")
    case False
    then have "filter (\<lambda>m'. \<not> due s m') (m # ms) = m # ms" using sd(2) by (fastforce simp: filter_id_conv)
    moreover have nd: "\<not> due s m'" if "m' \<in> set (m # ms)" for m' using False sd(2) that by force
    moreover have "timer_check_loop cb fuel (rt_tick s) s = Some s"
      using False due_iff [OF sd(1)] Cons.prems(1) by (simp add: fu)
    ultimately show ?thesis using Cons.prems(1-3) by (intro exI [of _ s] conjI) (blast | simp only:)+
  next
    case True
    define s2 where "s2 = timer_rearm (Thread_Timer t)
      (call_timeout cb (timeout_func (tmr (timer_unlink (Thread_Timer t) s) (Thread_Timer t)))
        (timer_unlink (Thread_Timer t) s))"
    note R = check_round [OF Cons.prems(2,3) q, where cb = cb, folded s2_def]
    have "distinct (m # ms)" using kinv_butD(3) [OF Cons.prems(2) [unfolded kinv_def]] Cons.prems(1)
      unfolding timer_links_ok_def by metis
    then have nm: "m \<notin> set ms" by simp
    have same: "tmr s2 m' = tmr s m'" if "m' \<in> set ms" for m' by (rule R(6)) (use that nm m in auto)
    have io: "in_order Hard_Timers s2"
      unfolding in_order_def R(4,5) using sd(3,4) same by (auto cong: map_cong)
    have tl: "\<forall>m' \<in> set ms. \<exists>t. m' = Thread_Timer t \<and> is_thread t s2"
      using Cons.prems(5) R(7) by (simp add: is_thread_def rt_object_get_type_def)
    have step: "timer_check_loop cb fuel (rt_tick s) s = timer_check_loop cb fu (rt_tick s2) s2"
    proof -
      have "rt_tick (call_timeout cb (timeout_func (tmr (timer_unlink (Thread_Timer t) s) (Thread_Timer t)))
        (timer_unlink (Thread_Timer t) s)) = rt_tick s2"
        by (simp add: s2_def timer_rearm_def Let_def timer_start_eq timer_started_state)
      then show ?thesis using True due_iff [OF sd(1)] q by (simp add: fu Let_def m s2_def)
    qed
    obtain s' where s': "timer_check_loop cb fu (rt_tick s2) s2 = Some s'" "kinv s'" "rt_current_thread s' \<noteq> None"
      "rt_tick s' = rt_tick s2" "fault s' = fault s2"
      "tmlists s' Hard_Timers = filter (\<lambda>m. \<not> due s2 m) ms"
      "\<And>t. Thread_Timer t \<in> set ms \<Longrightarrow> due s2 (Thread_Timer t) \<Longrightarrow> awake s' t \<and> error (thr s' t) = - RT_ETIMEOUT"
      "\<And>t. Thread_Timer t \<notin> set ms \<Longrightarrow> awake s2 t \<Longrightarrow> awake s' t \<and> error (thr s' t) = error (thr s2 t)"
      "\<And>t. \<not> (Thread_Timer t \<in> set ms \<and> due s2 (Thread_Timer t)) \<Longrightarrow> tstat s2 t = RT_THREAD_SUSPEND \<Longrightarrow> thr s' t = thr s2 t"
      using Cons.IH [OF R(4,2,3) io tl fu(2)] by blast
    have due2: "due s2 m' = due s m'" if "m' \<in> set ms" for m' using same [OF that] R(5) by simp
    have fil: "tmlists s' Hard_Timers = filter (\<lambda>m. \<not> due s m) (m # ms)"
      using s'(6) due2 True by (auto intro!: filter_cong)
    have w: "awake s' t' \<and> error (thr s' t') = - RT_ETIMEOUT"
      if "Thread_Timer t' \<in> set (m # ms)" "due s (Thread_Timer t')" for t'
      using s'(7) [of t'] s'(8) [of t] R(8,9) that due2 nm m by auto
    have a: "awake s' t' \<and> error (thr s' t') = error (thr s t')"
      if "Thread_Timer t' \<notin> set (m # ms)" "awake s t'" for t'
      using s'(8) [of t'] R(10) [of t'] that m by auto
    have u: "thr s' t' = thr s t'"
      if "\<not> (Thread_Timer t' \<in> set (m # ms) \<and> due s (Thread_Timer t'))" "tstat s t' = RT_THREAD_SUSPEND" for t'
      using s'(9) [of t'] R(11) [of t'] that m due2 True by fastforce
    show ?thesis
    proof (intro exI [of _ s'] conjI allI impI)
      show "timer_check_loop cb fuel (rt_tick s) s = Some s'" by (simp only: step s'(1))
      show "rt_tick s' = rt_tick s" "fault s' = fault s" using s'(4,5) R(5,12) m(2) by simp_all
    qed (fact s'(2) s'(3) fil | rule w [THEN conjunct1] w [THEN conjunct2] a [THEN conjunct1] a [THEN conjunct2] u; simp)+
  qed
qed

section \<open>Properties of the timers\<close>

text \<open>A kernel whose objects are registered: thread 1 runs, thread 2 is suspended.\<close>

definition demo_objs :: "oref \<Rightarrow> rt_object" where
  "demo_objs o' = \<lparr>obj_name = [], obj_type = (case o' of Thread_Obj _ \<Rightarrow> 0x81 | Timer_Obj _ \<Rightarrow> 0x8a | Sem_Obj _ \<Rightarrow> 0x82
     | Mutex_Obj _ \<Rightarrow> 0x83 | Event_Obj _ \<Rightarrow> 0x84 | Mailbox_Obj _ \<Rightarrow> 0x85 | Mq_Obj _ \<Rightarrow> 0x86 | Mempool_Obj _ \<Rightarrow> 0x88 | _ \<Rightarrow> 0),
     obj_node = None\<rparr>"

definition demo_typed :: kernel where
  "demo_typed = demo_base\<lparr>objs := demo_objs\<rparr>"

lemma demo_typed_kinv: "kinv demo_typed"
  by (rule kinv_cong [OF demo_base_kinv]) (simp_all add: demo_typed_def)

lemma demo_typed_facts:
  "rt_current_thread demo_typed = Some 1" "tstat demo_typed 2 = RT_THREAD_SUSPEND" "is_thread t demo_typed"
  "is_timer m demo_typed" "tmr demo_typed = timer0" "tmlists demo_typed = (\<lambda>_. [])" "rt_tick demo_typed = 0"
  "fault demo_typed = False" "rt_scheduler_lock_nest demo_typed = 0"
  by (simp_all add: demo_typed_def demo_base_def kernel0_def demo_objs_def is_thread_def is_timer_def
      rt_object_get_type_def thread0_def RT_Object_Class_Static_def RT_Object_Class_Thread_def
      RT_Object_Class_Timer_def)

lemma dist_start: "i < RT_TICK_HALF \<Longrightarrow> dist now (now + i) = Suc (unat i)"
proof -
  assume "i < RT_TICK_HALF"
  then have "unat i + 1 < 2 ^ 32" by (simp add: word_less_nat_alt)
  then show ?thesis by (simp add: dist_def unat_word_ariths)
qed

lemma started_list:
  assumes "kinv s" and l: "l = timer_list_of (tmr s m)"
  shows "tmlists (timer_started m s) l =
    timer_insert (\<lambda>t. if t = m then rt_tick s + timer_init_tick (tmr s m) else timeout_tick (tmr s t)) m
      (rt_tick s + timer_init_tick (tmr s m)) (if row (tmr s m) = Some l then remove1 m (tmlists s l) else tmlists s l)"
proof -
  have "timer_insert f m x xs = timer_insert g m x xs" if "\<And>t. t \<in> set xs \<Longrightarrow> f t = g t" for f g x xs
    using that by (induction xs) auto
  note ic = this
  show ?thesis unfolding l
    by (auto simp: timer_started_def Let_def timer_link_simps timer_list_of_def flag_bits intro!: ic)
qed

text \<open>C26: Timers expire in order.  If no queued hard timer is overdue, starting a hard timer whose period is below half the tick range keeps
  the list ordered by expiry, counted modulo the 32-bit tick, also across the wrap of the
  tick counter; the timer is queued and active, behind every timer that expires earlier or at the
  same tick and in front of every timer that expires later, and no other timer moves.\<close>

theorem rt_timer_start_in_order:
  assumes k: "kinv s" and io: "in_order Hard_Timers s"
    and pos: "\<forall>m' \<in> set (tmlists s Hard_Timers). 1 \<le> dist (rt_tick s) (timeout_tick (tmr s m'))"
    and hard: "\<not> bit (timer_flag (tmr s m)) 2" and period: "timer_init_tick (tmr s m) < RT_TICK_HALF"
  defines "s' \<equiv> fst (rt_timer_start m s)"
  shows "in_order Hard_Timers s' \<and> m \<in> set (tmlists s' Hard_Timers) \<and> bit (timer_flag (tmr s' m)) 0 \<and>
    timeout_tick (tmr s' m) = rt_tick s + timer_init_tick (tmr s m) \<and>
    (\<exists>us vs. tmlists s' Hard_Timers = us @ m # vs \<and>
       (\<forall>t \<in> set us. dist (rt_tick s) (timeout_tick (tmr s' t)) \<le> dist (rt_tick s) (timeout_tick (tmr s' m))) \<and>
       (\<forall>t \<in> set vs. dist (rt_tick s) (timeout_tick (tmr s' m)) < dist (rt_tick s) (timeout_tick (tmr s' t)))) \<and>
    filter (\<lambda>x. x \<noteq> m) (tmlists s' Hard_Timers) = filter (\<lambda>x. x \<noteq> m) (tmlists s Hard_Timers)"
proof -
  have s': "s' = timer_started m s" using hard by (simp add: s'_def timer_start_hard)
  have l: "Hard_Timers = timer_list_of (tmr s m)" using hard by (simp add: timer_list_of_def)
  define xs where "xs = (if row (tmr s m) = Some Hard_Timers then remove1 m (tmlists s Hard_Timers) else tmlists s Hard_Timers)"
  define f where "f = (\<lambda>t. if t = m then rt_tick s + timer_init_tick (tmr s m) else timeout_tick (tmr s t))"
  have L: "tmlists s' Hard_Timers = timer_insert f m (f m) xs"
    using started_list [OF k l] by (simp add: s' f_def xs_def)
  note links = kinv_butD(3) [OF k [unfolded kinv_def], unfolded timer_links_ok_def, rule_format, of Hard_Timers]
  have xm: "m \<notin> set xs" using links by (auto simp: xs_def)
  have sub: "set xs \<subseteq> set (tmlists s Hard_Timers)" by (auto simp: xs_def dest: set_remove1_subset [THEN subsetD])
  have fx: "map (\<lambda>t. dist (rt_tick s) (f t)) xs = map (\<lambda>t. dist (rt_tick s) (timeout_tick (tmr s t))) xs"
    using xm by (auto simp: f_def)
  have sorted: "sorted (map (\<lambda>t. dist (rt_tick s) (f t)) xs)"
    unfolding fx using io by (auto simp: in_order_def xs_def intro: sorted_map_remove1)
  have dm: "dist (rt_tick s) (f m) = Suc (unat (timer_init_tick (tmr s m)))"
    using dist_start [OF period] by (simp add: f_def)
  have u: "unat (timer_init_tick (tmr s m)) < 0x7fffffff" using period by (simp add: word_less_nat_alt)
  have rng: "\<forall>t \<in> set xs. 1 \<le> dist (rt_tick s) (f t) \<and> dist (rt_tick s) (f t) \<le> 0x7fffffff"
    using io pos sub xm by (auto simp: in_order_def f_def)
  have "sorted (map (\<lambda>t. dist (rt_tick s) (f t)) (timer_insert f m (f m) xs))"
    by (rule timer_insert_sorted [OF sorted rng]) (use dm u in auto)
  moreover have place: "\<exists>us vs. timer_insert f m (f m) xs = us @ m # vs \<and> (\<forall>t \<in> set us. dist (rt_tick s) (f t) \<le> dist (rt_tick s) (f m)) \<and>
      (\<forall>t \<in> set vs. dist (rt_tick s) (f m) < dist (rt_tick s) (f t))"
    by (rule timer_insert_place [OF sorted rng]) (use dm u in auto)
  moreover have tick: "timeout_tick (tmr s' t) = f t" for t
    by (cases "t = m") (simp_all add: s' f_def timer_started_state)
  ultimately have "in_order Hard_Timers s'"
    unfolding in_order_def L using rng dm u by (auto simp: tick s' timer_started_state(6))
  moreover have "filter (\<lambda>x. x \<noteq> m) (timer_insert f m (f m) xs) = filter (\<lambda>x. x \<noteq> m) xs" for xs
    by (induction xs) auto
  moreover have "filter (\<lambda>x. x \<noteq> m) xs = filter (\<lambda>x. x \<noteq> m) (tmlists s Hard_Timers)"
    unfolding xs_def by (simp add: filter_remove1)
  moreover have "bit (timer_flag (tmr s' m)) 0" "m \<in> set (tmlists s' Hard_Timers)" "f m = rt_tick s + timer_init_tick (tmr s m)"
    using L by (simp_all add: s' timer_started_state f_def)
  ultimately show ?thesis using place unfolding tick L by simp
qed

theorem rt_timer_start_in_order_witness:
  "in_order Hard_Timers (fst (rt_timer_start (Thread_Timer 2) demo_typed))"
  using rt_timer_start_in_order [OF demo_typed_kinv, of "Thread_Timer 2"]
  by (simp add: in_order_def demo_typed_facts timer0_def)

text \<open>Wake-ups by time.  If the queued hard timers are those of sleeping threads and in order,
  \<^verbatim>\<open>rt_timer_check\<close> returns (fuel above the number of queued timers is enough), raises no fault
  and keeps the kernel invariant; exactly the timers that are due leave the queue, and exactly
  their threads are woken, with error \<^verbatim>\<open>-RT_ETIMEOUT\<close>; every other sleeping thread is untouched.\<close>

theorem rt_timer_check_wakes_due:
  assumes "kinv s" "rt_current_thread s \<noteq> None" "in_order Hard_Timers s"
    and "\<forall>m \<in> set (tmlists s Hard_Timers). \<exists>t. m = Thread_Timer t \<and> is_thread t s"
    and "length (tmlists s Hard_Timers) < fuel"
  shows "\<exists>s'. rt_timer_check cb fuel s = Some s' \<and> kinv s' \<and> fault s' = fault s \<and>
    tmlists s' Hard_Timers = filter (\<lambda>m. \<not> due s m) (tmlists s Hard_Timers) \<and>
    (\<forall>t. Thread_Timer t \<in> set (tmlists s Hard_Timers) \<and> due s (Thread_Timer t) \<longrightarrow>
        awake s' t \<and> error (thr s' t) = - RT_ETIMEOUT) \<and>
    (\<forall>t. \<not> (Thread_Timer t \<in> set (tmlists s Hard_Timers) \<and> due s (Thread_Timer t)) \<and>
        tstat s t = RT_THREAD_SUSPEND \<longrightarrow> thr s' t = thr s t)"
  unfolding rt_timer_check_def using check_thread_timers [OF refl assms, of cb] by blast

definition demo_sleep :: kernel where
  "demo_sleep = fst (rt_timer_start (Thread_Timer 2) demo_typed)"

theorem rt_timer_check_wakes_due_witness:
  "\<exists>s'. rt_timer_check (\<lambda>_ s. s) 2 demo_sleep = Some s' \<and> awake s' 2 \<and> error (thr s' 2) = - RT_ETIMEOUT"
proof -
  have d: "demo_sleep = timer_started (Thread_Timer 2) demo_typed"
    by (simp add: demo_sleep_def timer_start_hard demo_typed_facts timer0_def)
  have k: "kinv demo_sleep" and c: "rt_current_thread demo_sleep \<noteq> None"
    unfolding demo_sleep_def
    by (rule timer_start_kinv [OF demo_typed_kinv]; simp add: demo_typed_facts timer0_def)+
  have l: "tmlists demo_sleep Hard_Timers = [Thread_Timer 2]"
    using started_list [OF demo_typed_kinv, of Hard_Timers "Thread_Timer 2"]
    by (simp add: d timer_list_of_def demo_typed_facts timer0_def)
  have tk: "dist (rt_tick demo_sleep) (timeout_tick (tmr demo_sleep (Thread_Timer 2))) = 1"
    by (simp add: d timer_started_state demo_typed_facts timer0_def dist_def)
  have "is_thread 2 demo_sleep" using demo_typed_facts(3) [of 2]
    by (simp add: d is_thread_def rt_object_get_type_def timer_started_state)
  then show ?thesis
    using rt_timer_check_wakes_due [OF k c, of 2 "\<lambda>_ s. s"] l tk by (auto simp: in_order_def)
qed

text \<open>A one-shot timer that its own callback starts again.  After \<^verbatim>\<open>rt_timer_check\<close> the timer is
  queued but marked inactive, because the check clears the flag after the callback has set
  it: \<^verbatim>\<open>rt_timer_stop\<close> then refuses with \<^verbatim>\<open>-RT_ERROR\<close> and the timer stays queued, so an application
  cannot cancel it.\<close>

theorem rt_timer_restart_cannot_stop:
  assumes k: "kinv s" and q: "tmlists s Hard_Timers = [Timer n]"
    and f: "timeout_func (tmr s (Timer n)) = User_Timeout i" "\<not> bit (timer_flag (tmr s (Timer n))) 1"
    and d: "due s (Timer n)"
    and p: "0 < timer_init_tick (tmr s (Timer n))" "timer_init_tick (tmr s (Timer n)) < RT_TICK_HALF"
    and cb: "cb i = (\<lambda>s. fst (rt_timer_start (Timer n) s))"
  shows "\<exists>s'. rt_timer_check cb (Suc (Suc fuel)) s = Some s' \<and>
    Timer n \<in> set (tmlists s' Hard_Timers) \<and> snd (rt_timer_stop (Timer n) s') = - RT_ERROR \<and>
    Timer n \<in> set (tmlists (fst (rt_timer_stop (Timer n) s')) Hard_Timers)"
proof -
  let ?m = "Timer n"
  let ?s1 = "timer_unlink ?m s"
  let ?s2 = "timer_started ?m ?s1"
  let ?s3 = "upd_tmr ?m (\<lambda>x. x\<lparr>timer_flag := timer_flag x AND NOT RT_TIMER_FLAG_ACTIVATED\<rparr>) ?s2"
  note kd = kinv_butD [OF k [unfolded kinv_def]]
  have "?m \<in> {m. row (tmr s m) = Some Hard_Timers}"
    using kd(3) q unfolding timer_links_ok_def by (metis list.set_intros(1))
  then have r: "row (tmr s ?m) = Some Hard_Timers" by simp
  have h: "\<not> bit (timer_flag (tmr s ?m)) 2" using kd(4) [of ?m] r by (auto simp: timer_ok_def)
  have k1: "kinv ?s1" using kinv_but_timer_unlink [OF k [unfolded kinv_def]] by (simp add: kinv_def)
  have l2: "tmlists ?s2 Hard_Timers = [?m]"
    using started_list [OF k1, of Hard_Timers ?m] h q r by (simp add: timer_list_of_def)
  have dd: "now - x < RT_TICK_HALF" if "dist now x \<le> 1" for now x using due_iff [of now x] that by simp
  have c2: "call_timeout cb (timeout_func (tmr ?s1 ?m)) ?s1 = ?s2"
    using f(1) h by (simp add: call_timeout_def cb timer_start_hard)
  have r2: "timer_rearm ?m ?s2 = ?s3"
    using f(2) by (simp add: timer_rearm_def Let_def flag_bits timer_started_state(14))
  have "dist (rt_tick s) (timeout_tick (tmr ?s2 ?m)) = Suc (unat (timer_init_tick (tmr s ?m)))"
    using dist_start [OF p(2), of "rt_tick s"] by (simp add: timer_started_state)
  moreover have "0 < unat (timer_init_tick (tmr s ?m))" "unat (timer_init_tick (tmr s ?m)) < 0x7fffffff"
    using p by (simp_all add: word_less_nat_alt unat_gt_0)
  ultimately have nd: "\<not> rt_tick s - timeout_tick (tmr ?s2 ?m) < RT_TICK_HALF"
    by (subst due_iff) auto
  have e: "rt_timer_check cb (Suc (Suc fuel)) s = Some ?s3"
    using q dd [OF d] nd l2 unfolding rt_timer_check_def
    by (simp add: Let_def c2 r2 timer_started_state(6) del: timer_unlink_simps(1))
  have "timer_flag (tmr ?s3 ?m) AND RT_TIMER_FLAG_ACTIVATED = 0" by (simp add: flag_bits)
  then show ?thesis using e l2 by (intro exI [of _ ?s3]) (simp add: rt_timer_stop_def Let_def)
qed

definition demo_oneshot :: kernel where
  "demo_oneshot = fst (rt_timer_start (Timer 7)
     (upd_tmr (Timer 7) (\<lambda>x. x\<lparr>timer_init_tick := 10\<rparr>) demo_typed))\<lparr>rt_tick := 10\<rparr>"

theorem rt_timer_restart_cannot_stop_witness:
  "\<exists>s'. rt_timer_check (\<lambda>_ s. fst (rt_timer_start (Timer 7) s)) (Suc (Suc 0)) demo_oneshot = Some s' \<and>
    snd (rt_timer_stop (Timer 7) s') = - RT_ERROR"
proof -
  let ?s0 = "upd_tmr (Timer 7) (\<lambda>x. x\<lparr>timer_init_tick := 10\<rparr>) demo_typed"
  have k0: "kinv ?s0"
    using kinv_but_timer_upd [OF demo_typed_kinv [unfolded kinv_def], of "\<lambda>x. x\<lparr>timer_init_tick := 10\<rparr>" "Timer 7"]
      kinv_butD(4) [OF demo_typed_kinv [unfolded kinv_def], of "Timer 7"]
    by (simp add: kinv_def timer_ok_def)
  have d: "demo_oneshot = (timer_started (Timer 7) ?s0)\<lparr>rt_tick := 10\<rparr>"
    by (simp add: demo_oneshot_def timer_start_hard demo_typed_facts timer0_def)
  have "kinv (timer_started (Timer 7) ?s0)"
    using timer_started_kinv [OF k0 [unfolded kinv_def], of "Timer 7"] by (simp add: kinv_def)
  then have k: "kinv demo_oneshot" unfolding d by (rule kinv_cong) simp_all
  have l: "tmlists demo_oneshot Hard_Timers = [Timer 7]"
    using started_list [OF k0, of Hard_Timers "Timer 7"]
    by (simp add: d timer_list_of_def demo_typed_facts timer0_def)
  have t: "timer_init_tick (tmr demo_oneshot (Timer 7)) = 10" "timeout_tick (tmr demo_oneshot (Timer 7)) = 10"
    "timeout_func (tmr demo_oneshot (Timer 7)) = User_Timeout 7" "\<not> bit (timer_flag (tmr demo_oneshot (Timer 7))) 1"
    "rt_tick demo_oneshot = 10"
    by (simp_all add: d timer_started_state demo_typed_facts timer0_def)
  show ?thesis
    using rt_timer_restart_cannot_stop [OF k l t(3,4), of "\<lambda>_ s. fst (rt_timer_start (Timer 7) s)" 0]
    by (auto simp: t dist_def)
qed

end
