(* ===== verification/Kthread.thy ===== *)
theory Kthread
  imports Ktimer
begin

text \<open>
  Threads: the rest of \<^verbatim>\<open>rt-thread/src/thread.c\<close>, the tick of \<^verbatim>\<open>clock.c\<close>, the soft timer thread of
  \<^verbatim>\<open>timer.c\<close> and the cleanup of \<^verbatim>\<open>idle.c\<close>.  A call that blocks (a sleep) is split at its
  \<^verbatim>\<open>rt_schedule()\<close>: the part up to it is the \<open>_call\<close> definition, the part that runs once the thread
  is scheduled again the \<open>_return\<close> definition.
\<close>

section \<open>Life cycle\<close>

definition rt_thread_init_fields :: "tid \<Rightarrow> string \<Rightarrow> u8 \<Rightarrow> u32 \<Rightarrow> kernel \<Rightarrow> kernel" where
  "rt_thread_init_fields thread name priority tick s =
     (let s1 = rt_assert (tlist (thr s thread) = None) s;
          s2 = rt_assert (unat priority < 32) s1;
          s3 = upd_thr thread (\<lambda>x. x\<lparr>init_priority := priority, current_priority := priority,
                 number_mask := 0, init_tick := tick, remaining_tick := tick, error := RT_EOK,
                 stat := RT_THREAD_INIT, has_cleanup := False\<rparr>) s2
      in rt_timer_init (Thread_Timer thread) name (Thread_Timeout thread) 0 0 s3)"

definition rt_thread_init :: "tid \<Rightarrow> string \<Rightarrow> bool \<Rightarrow> u8 \<Rightarrow> u32 \<Rightarrow> kernel \<Rightarrow> kernel \<times> rt_err" where
  "rt_thread_init thread name stack_ok priority tick s =
     (let s1 = rt_assert stack_ok s;
          s2 = rt_object_init (Thread_Obj thread) RT_Object_Class_Thread name s1
      in (rt_thread_init_fields thread name priority tick s2, RT_EOK))"

definition rt_thread_self :: "kernel \<Rightarrow> tid option" where
  "rt_thread_self s = rt_current_thread s"

definition rt_thread_startup :: "tid \<Rightarrow> kernel \<Rightarrow> kernel \<times> rt_err" where
  "rt_thread_startup thread s =
     (let s1 = rt_assert (tstat s thread = RT_THREAD_INIT) s;
          s2 = rt_assert (is_thread thread s1) s1;
          s3 = upd_thr thread (\<lambda>x. x\<lparr>current_priority := init_priority x,
                 number_mask := push_bit (unat (init_priority x)) 1, stat := RT_THREAD_SUSPEND\<rparr>) s2;
          s4 = fst (rt_thread_resume thread s3)
      in (if rt_thread_self s4 \<noteq> None then rt_schedule s4 else s4, RT_EOK))"

text \<open>What \<^verbatim>\<open>rt_thread_exit\<close> and \<^verbatim>\<open>rt_thread_detach\<close> do with a closed thread.\<close>

definition thread_close :: "tid \<Rightarrow> kernel \<Rightarrow> kernel" where
  "thread_close thread s =
     (if rt_object_is_systemobject (Thread_Obj thread) s \<and> \<not> has_cleanup (thr s thread)
      then rt_object_detach (Thread_Obj thread) s
      else thread_insert_after Defunct thread s)"

definition rt_thread_exit :: "kernel \<Rightarrow> kernel" where
  "rt_thread_exit s =
     (case rt_thread_self s of
        None \<Rightarrow> s\<lparr>fault := True\<rparr>
      | Some thread \<Rightarrow>
          let s1 = rt_schedule_remove_thread thread s;
              s2 = upd_thr thread (\<lambda>x. x\<lparr>stat := RT_THREAD_CLOSE\<rparr>) s1;
              s3 = rt_timer_detach (Thread_Timer thread) s2
          in rt_schedule (thread_close thread s3))"

definition rt_thread_detach :: "tid \<Rightarrow> kernel \<Rightarrow> kernel \<times> rt_err" where
  "rt_thread_detach thread s =
     (let s1 = rt_assert (is_thread thread s) s;
          s2 = rt_assert (rt_object_is_systemobject (Thread_Obj thread) s1) s1;
          s3 = (if tstat s2 thread \<noteq> RT_THREAD_INIT then rt_schedule_remove_thread thread s2 else s2);
          s4 = rt_timer_detach (Thread_Timer thread) s3;
          s5 = upd_thr thread (\<lambda>x. x\<lparr>stat := RT_THREAD_CLOSE\<rparr>) s4
      in (thread_close thread s5, RT_EOK))"

definition rt_thread_create ::
    "tid option \<Rightarrow> bool \<Rightarrow> string \<Rightarrow> u8 \<Rightarrow> u32 \<Rightarrow> kernel \<Rightarrow> kernel \<times> tid option" where
  "rt_thread_create mem stack_ok name priority tick s =
     (let (s1, r) = rt_object_allocate (map_option Thread_Obj mem) RT_Object_Class_Thread name s in
      case r of
        Some (Thread_Obj thread) \<Rightarrow>
          if \<not> stack_ok then (rt_object_delete (Thread_Obj thread) s1, None)
          else (rt_thread_init_fields thread name priority tick s1, Some thread)
      | _ \<Rightarrow> (s1, None))"

definition rt_thread_delete :: "tid \<Rightarrow> kernel \<Rightarrow> kernel \<times> rt_err" where
  "rt_thread_delete thread s =
     (let s1 = rt_assert (is_thread thread s) s;
          s2 = rt_assert (\<not> rt_object_is_systemobject (Thread_Obj thread) s1) s1;
          s3 = (if tstat s2 thread \<noteq> RT_THREAD_INIT then rt_schedule_remove_thread thread s2 else s2);
          s4 = rt_timer_detach (Thread_Timer thread) s3;
          s5 = upd_thr thread (\<lambda>x. x\<lparr>stat := RT_THREAD_CLOSE\<rparr>) s4
      in (thread_insert_after Defunct thread s5, RT_EOK))"

section \<open>Yielding, sleeping and control\<close>

definition rt_thread_yield :: "kernel \<Rightarrow> kernel \<times> rt_err" where
  "rt_thread_yield s = (rt_schedule s, RT_EOK)"

text \<open>Reset the timeout of the thread timer and start it; then suspend the caller for \<open>tick\<close> ticks
  and schedule.\<close>

definition arm_timer :: "tid \<Rightarrow> u32 \<Rightarrow> kernel \<Rightarrow> kernel" where
  "arm_timer thread tick s =
     fst (rt_timer_start (Thread_Timer thread) (fst (rt_timer_control (Thread_Timer thread) 0 tick s)))"

definition sleep_for :: "tid \<Rightarrow> u32 \<Rightarrow> kernel \<Rightarrow> kernel" where
  "sleep_for thread tick s = rt_schedule (arm_timer thread tick (fst (rt_thread_suspend thread s)))"

definition rt_thread_sleep_call :: "u32 \<Rightarrow> kernel \<Rightarrow> kernel" where
  "rt_thread_sleep_call tick s =
     (case rt_thread_self s of
        None \<Rightarrow> s\<lparr>fault := True\<rparr>
      | Some thread \<Rightarrow> sleep_for thread tick (rt_assert (is_thread thread s) s))"

definition rt_thread_sleep_return :: "tid \<Rightarrow> kernel \<Rightarrow> kernel \<times> rt_err" where
  "rt_thread_sleep_return thread s =
     (if error (thr s thread) = - RT_ETIMEOUT then upd_thr thread (\<lambda>x. x\<lparr>error := RT_EOK\<rparr>) s else s, RT_EOK)"

text \<open>\<^verbatim>\<open>rt_thread_delay_until\<close>: the second result of the call is the value it stores in \<open>*tick\<close> and
  sleeps for, if it sleeps at all; the return stores the wake-up tick there.\<close>

definition rt_thread_delay_until_call :: "u32 \<Rightarrow> u32 \<Rightarrow> kernel \<Rightarrow> kernel \<times> u32 option" where
  "rt_thread_delay_until_call tick inc_tick s =
     (case rt_thread_self s of
        None \<Rightarrow> (s\<lparr>fault := True\<rparr>, None)
      | Some thread \<Rightarrow>
          let s0 = rt_assert (is_thread thread s) s in
          if rt_tick s0 - tick < inc_tick
          then let tick' = rt_tick s0 - tick + inc_tick in (sleep_for thread tick' s0, Some tick')
          else (s0, None))"

definition rt_thread_delay_until_return :: "tid \<Rightarrow> u32 option \<Rightarrow> kernel \<Rightarrow> kernel \<times> u32 \<times> rt_err" where
  "rt_thread_delay_until_return thread slept s =
     (let s1 = (if slept \<noteq> None then fst (rt_thread_sleep_return thread s) else s)
      in (s1, rt_tick s1, RT_EOK))"

definition rt_tick_from_millisecond :: "int \<Rightarrow> u32" where
  "rt_tick_from_millisecond ms =
     (if ms < 0 then 0xffffffff
      else word_of_int (1000 * (ms div 1000)) + word_of_int ((1000 * (ms mod 1000) + 999) div 1000))"

definition rt_thread_mdelay_call :: "int \<Rightarrow> kernel \<Rightarrow> kernel" where
  "rt_thread_mdelay_call ms s = rt_thread_sleep_call (rt_tick_from_millisecond ms) s"

text \<open>The commands of \<^verbatim>\<open>rt_thread_control\<close>: STARTUP 0, CLOSE 1, CHANGE_PRIORITY 2.\<close>

definition set_priority :: "u8 \<Rightarrow> rt_thread \<Rightarrow> rt_thread" where
  "set_priority prio x = x\<lparr>current_priority := prio, number_mask := push_bit (unat prio) 1\<rparr>"

definition change_priority :: "tid \<Rightarrow> u8 \<Rightarrow> kernel \<Rightarrow> kernel" where
  "change_priority thread prio s =
     (if tstat s thread = RT_THREAD_READY
      then rt_schedule_insert_thread thread
             (upd_thr thread (set_priority prio) (rt_schedule_remove_thread thread s))
      else upd_thr thread (set_priority prio) s)"

definition rt_thread_control :: "tid \<Rightarrow> int \<Rightarrow> u8 \<Rightarrow> kernel \<Rightarrow> kernel \<times> rt_err" where
  "rt_thread_control thread cmd arg s =
     (let s0 = rt_assert (is_thread thread s) s in
      if cmd = 2 then (change_priority thread arg s0, RT_EOK)
      else if cmd = 0 then rt_thread_startup thread s0
      else if cmd = 1 then rt_thread_delete thread s0
      else (s0, RT_EOK))"

definition rt_thread_find :: "string \<Rightarrow> kernel \<Rightarrow> kernel \<times> oref option" where
  "rt_thread_find name s =
     (let s1 = (if rt_thread_self s \<noteq> None then rt_enter_critical s else s);
          r = find_named s1 name (object_list s1 RT_Object_Class_Thread)
      in (if rt_thread_self s1 \<noteq> None then rt_exit_critical s1 else s1, r))"

section \<open>The tick\<close>

definition rt_tick_get :: "kernel \<Rightarrow> u32" where "rt_tick_get s = rt_tick s"

definition rt_tick_set :: "u32 \<Rightarrow> kernel \<Rightarrow> kernel" where "rt_tick_set tick s = s\<lparr>rt_tick := tick\<rparr>"

text \<open>The time slice part of \<^verbatim>\<open>rt_tick_increase\<close>.\<close>

definition tick_slice :: "tid \<Rightarrow> kernel \<Rightarrow> kernel" where
  "tick_slice thread s =
     (let s1 = upd_thr thread (\<lambda>x. x\<lparr>remaining_tick := remaining_tick x - 1\<rparr>) s in
      if remaining_tick (thr s1 thread) = 0
      then fst (rt_thread_yield
             (upd_thr thread (\<lambda>x. x\<lparr>remaining_tick := init_tick x, stat := stat x OR RT_THREAD_STAT_YIELD\<rparr>) s1))
      else s1)"

definition rt_tick_increase :: "(nat \<Rightarrow> kernel \<Rightarrow> kernel) \<Rightarrow> nat \<Rightarrow> kernel \<Rightarrow> kernel option" where
  "rt_tick_increase cb fuel s =
     (let s1 = s\<lparr>rt_tick := rt_tick s + 1\<rparr> in
      case rt_thread_self s1 of
        None \<Rightarrow> Some (s1\<lparr>fault := True\<rparr>)
      | Some thread \<Rightarrow> rt_timer_check cb fuel (tick_slice thread s1))"

section \<open>The soft timer thread and the idle thread\<close>

text \<open>One round of \<^verbatim>\<open>rt_thread_timer_entry\<close> up to its blocking call; the second result tells whether
  it blocks.  The round ends with \<open>rt_soft_timer_check\<close>.\<close>

definition rt_thread_timer_entry_call :: "kernel \<Rightarrow> kernel \<times> bool" where
  "rt_thread_timer_entry_call s =
     (let next_timeout = rt_timer_list_next_timeout Soft_Timers s in
      if next_timeout = 0xffffffff
      then (rt_schedule (fst (rt_thread_suspend timer_thread s)), True)
      else if next_timeout - rt_tick s < RT_TICK_HALF
      then (rt_thread_sleep_call (next_timeout - rt_tick s) s, True)
      else (s, False))"

definition rt_system_timer_thread_init :: "kernel \<Rightarrow> kernel" where
  "rt_system_timer_thread_init s =
     (let s1 = s\<lparr>tmlists := (tmlists s)(Soft_Timers := [])\<rparr>;
          s2 = fst (rt_thread_init timer_thread ''timer'' True 4 10 s1)
      in fst (rt_thread_startup timer_thread s2))"

text \<open>\<^verbatim>\<open>rt_thread_idle_excute\<close>: \<open>cleanup\<close> stands for the cleanup functions of the application's
  threads; freeing the stack and the control block does not touch the kernel state.\<close>

fun rt_thread_idle_excute :: "(tid \<Rightarrow> kernel \<Rightarrow> kernel) \<Rightarrow> nat \<Rightarrow> kernel \<Rightarrow> kernel option" where
  "rt_thread_idle_excute cleanup 0 s = None"
| "rt_thread_idle_excute cleanup (Suc fuel) s =
     (case tlists s Defunct of
        [] \<Rightarrow> Some s
      | thread # _ \<Rightarrow>
          let s1 = rt_enter_critical (thread_unlink thread s);
              s2 = (if has_cleanup (thr s1 thread) then cleanup thread s1 else s1)
          in if rt_object_is_systemobject (Thread_Obj thread) s2
             then Some (rt_exit_critical (rt_object_detach (Thread_Obj thread) s2))
             else rt_thread_idle_excute cleanup fuel
                    (rt_object_delete (Thread_Obj thread) (rt_exit_critical s2)))"

section \<open>The invariant\<close>

text \<open>Linking a thread into a list other than a ready queue.\<close>

lemma kinv_but_link:
  assumes k: "kinv_but X s" and n: "tlist (thr s t) = None" and d: "distinct xs"
    and xs: "set xs = insert t (set (tlists s l))" and nr: "\<And>p. l \<noteq> Ready p"
    and ok: "thread_ok (rt_current_thread s = Some t) (timer_queued s t) ((thr s t)\<lparr>tlist := Some l\<rparr>)"
  shows "kinv_but (X - {t}) (thread_link l xs t s)"
proof (rule kinv_butI)
  note kd = kinv_butD [OF k] and T = thread_link_simps [OF n]
  show "links_ok (thread_link l xs t s)" by (rule links_ok_link [OF kd(1) n d xs])
  show "bitmap_ok (thread_link l xs t s)" using kd(2) nr by (auto simp: bitmap_ok_def T)
  show "timer_links_ok (thread_link l xs t s)" using kd(3) by (simp add: timer_links_ok_def)
  show "timer_ok m (tmr (thread_link l xs t s) m)" for m using kd(4) by simp
  show "thread_ok (rt_current_thread (thread_link l xs t s) = Some t') (timer_queued (thread_link l xs t s) t')
      (thr (thread_link l xs t s) t')" if "t' \<notin> X - {t}" for t'
    using ok kd(5) [of t'] that by (cases "t' = t") (simp_all add: T)
qed

lemma object_detach_frame [simp]:
  "thr (rt_object_detach o' s) = thr s" "tlists (rt_object_detach o' s) = tlists s"
  "rt_current_thread (rt_object_detach o' s) = rt_current_thread s" "tmr (rt_object_detach o' s) = tmr s"
  "tmlists (rt_object_detach o' s) = tmlists s"
  "rt_thread_ready_priority_group (rt_object_detach o' s) = rt_thread_ready_priority_group s"
  "rt_scheduler_lock_nest (rt_object_detach o' s) = rt_scheduler_lock_nest s"
  "rt_tick (rt_object_detach o' s) = rt_tick s" "fault (rt_object_detach o' s) = fault s"
  by (simp_all add: rt_object_detach_def)

lemma object_detach_kinv_but: "kinv_but X s \<Longrightarrow> kinv_but X (rt_object_detach o' s)"
  by (erule kinv_but_cong) simp_all

lemma timer_detach_frame [simp]:
  "thr (rt_timer_detach m s) = thr s" "tlists (rt_timer_detach m s) = tlists s"
  "rt_current_thread (rt_timer_detach m s) = rt_current_thread s"
  "tmr (rt_timer_detach m s) = (tmr s)(m := (tmr s m)\<lparr>row := None\<rparr>)"
  "rt_scheduler_lock_nest (rt_timer_detach m s) = rt_scheduler_lock_nest s"
  "rt_tick (rt_timer_detach m s) = rt_tick s"
  by (simp_all add: rt_timer_detach_def Let_def)

lemma timer_detach_kinv: "kinv_but X s \<Longrightarrow> kinv_but X (rt_timer_detach m s)"
  unfolding rt_timer_detach_def Let_def
  by (intro object_detach_kinv_but kinv_but_timer_unlink kinv_but_assert)

lemma timer_detach_fault:
  "\<lbrakk>is_timer m s; rt_object_is_systemobject (Timer_Obj m) s\<rbrakk> \<Longrightarrow> fault (rt_timer_detach m s) = fault s"
  by (simp add: rt_timer_detach_def Let_def)

lemma thread_close_kinv:
  assumes k: "kinv_but {t} s" and n: "tlist (thr s t) = None" and st: "stat (thr s t) = RT_THREAD_CLOSE"
    and m: "mask_ok (thr s t) \<or> number_mask (thr s t) = 0" and q: "\<not> timer_queued s t"
  shows "kinv (thread_insert_after Defunct t s)" "kinv (thread_close t s)"
proof -
  have t1: "t \<notin> set (tlists s Defunct)" and d: "distinct (tlists s Defunct)"
    using kinv_butD(1) [OF k] n by (simp_all add: links_ok_def)
  have "kinv_but ({t} - {t}) (thread_link Defunct (t # tlists s Defunct) t s)"
    by (rule kinv_but_link [OF k n])
       (use t1 d st m q in \<open>auto simp: thread_ok_def node_ok_def mask_ok_def\<close>)
  then show 1: "kinv (thread_insert_after Defunct t s)" by (simp add: kinv_def thread_insert_after_def)
  have "kinv_but ({t} - {t}) s"
    by (rule kinv_but_drop [OF k]) (use n st m q in \<open>auto simp: thread_ok_def node_ok_def mask_ok_def\<close>)
  then have "kinv (rt_object_detach (Thread_Obj t) s)"
    using object_detach_kinv_but by (simp add: kinv_def)
  with 1 show "kinv (thread_close t s)" by (simp add: thread_close_def)
qed

lemma thread_mask_any:
  assumes "kinv s"
  shows "mask_ok (thr s t) \<or> number_mask (thr s t) = 0"
  using thread_ok_mask(1) [OF kinv_butD(5) [OF assms [unfolded kinv_def], of t]] by simp

lemma init_thread_unlinked:
  assumes "kinv s" "tstat s t = RT_THREAD_INIT"
  shows "tlist (thr s t) = None" "\<not> timer_queued s t"
  using kinv_butD(5) [OF assms(1) [unfolded kinv_def], of t] assms(2)
  by (auto simp: thread_ok_def node_ok_def Let_def split: option.splits lid.splits)

text \<open>Removing a thread from the scheduler before it is closed.\<close>

lemma close_prepare:
  fixes t :: tid
  assumes k: "kinv s"
  defines "s1 \<equiv> (if tstat s t \<noteq> RT_THREAD_INIT then rt_schedule_remove_thread t s else s)"
  shows "kinv_but {t} s1" "tlist (thr s1 t) = None" "mask_ok (thr s1 t) \<or> number_mask (thr s1 t) = 0"
proof -
  have "kinv_but {t} (rt_schedule_remove_thread t s)"
    using kinv_but_remove [OF k [unfolded kinv_def], of t] by simp
  moreover have "kinv_but {t} s" by (rule kinv_but_mono [OF k [unfolded kinv_def]]) simp
  ultimately show "kinv_but {t} s1" by (simp add: s1_def)
  show "tlist (thr s1 t) = None" using init_thread_unlinked(1) [OF k] by (simp add: s1_def)
  show "mask_ok (thr s1 t) \<or> number_mask (thr s1 t) = 0"
    using thread_mask_any [OF k, of t] by (auto simp: s1_def mask_ok_def)
qed

lemma schedule_leaves:
  assumes k: "kinv s" and c: "rt_current_thread s = Some t" and n: "tstat s t \<noteq> RT_THREAD_RUNNING"
    and r: "tstat s r = RT_THREAD_READY" and l: "rt_scheduler_lock_nest s = 0"
  shows "rt_current_thread (rt_schedule s) \<noteq> Some t"
proof (rule schedule_cases [OF k c])
  assume "rt_scheduler_lock_nest s \<noteq> 0 \<or> rt_thread_ready_priority_group s = 0"
  moreover have "tlists s (Ready (unat (current_priority (thr s r)))) \<noteq> []"
    using ready_in_queue(2) [OF k r] by auto
  ultimately show ?thesis using l kinv_butD(2) [OF k [unfolded kinv_def]]
    unfolding bitmap_ok_def by (metis bit_0_eq bot_apply bot_bool_def)
next
  fix p h rest assume "keeps_cpu (thr s t) p"
  then show ?thesis using n by (simp add: keeps_cpu_def)
next
  fix p h rest assume "rt_schedule s = switched t h p s" "tlists s (Ready p) = h # rest" "h \<noteq> t"
  then show ?thesis using switched_thr(3) [OF k c] by simp
qed

lemma thread_exit_kinv:
  assumes k: "kinv s" and c: "rt_current_thread s = Some t"
  shows "kinv (rt_thread_exit s)" "tstat (rt_thread_exit s) t = RT_THREAD_CLOSE"
    "rt_current_thread (rt_thread_exit s) \<noteq> None"
    "\<lbrakk>is_timer (Thread_Timer t) s; rt_object_is_systemobject (Timer_Obj (Thread_Timer t)) s\<rbrakk>
      \<Longrightarrow> fault (rt_thread_exit s) = fault s"
    "\<lbrakk>tstat s r = RT_THREAD_READY; r \<noteq> t; rt_scheduler_lock_nest s = 0\<rbrakk>
      \<Longrightarrow> rt_current_thread (rt_thread_exit s) \<noteq> Some t"
proof -
  let ?s1 = "rt_schedule_remove_thread t s"
  let ?s2 = "upd_thr t (\<lambda>x. x\<lparr>stat := RT_THREAD_CLOSE\<rparr>) ?s1"
  let ?s3 = "rt_timer_detach (Thread_Timer t) ?s2"
  have e: "rt_thread_exit s = rt_schedule (thread_close t ?s3)"
    by (simp add: rt_thread_exit_def rt_thread_self_def c Let_def)
  have "kinv_but {t} ?s1" using kinv_but_remove [OF k [unfolded kinv_def], of t] by simp
  then have "kinv_but {t} ?s2" by (rule kinv_but_thread') simp_all
  then have k3: "kinv_but {t} ?s3" by (rule timer_detach_kinv)
  have k4: "kinv (thread_close t ?s3)"
    by (rule thread_close_kinv(2) [OF k3]) (use thread_mask_any [OF k, of t] in \<open>auto simp: mask_ok_def\<close>)
  have c4: "rt_current_thread (thread_close t ?s3) = Some t" "stat (thr (thread_close t ?s3) t) = RT_THREAD_CLOSE"
    using c by (simp_all add: thread_close_def thread_insert_after_def thread_link_simps)
  have f4: "fault (thread_close t ?s3) = fault ?s3"
    by (simp add: thread_close_def thread_insert_after_def thread_link_simps)
  have cn: "rt_current_thread (thread_close t ?s3) \<noteq> None" using c4(1) by simp
  note S = schedule_kinv [OF k4 cn]
  show "kinv (rt_thread_exit s)" "rt_current_thread (rt_thread_exit s) \<noteq> None" unfolding e by (fact S)+
  have "thr (rt_schedule (thread_close t ?s3)) t = thr (thread_close t ?s3) t"
    by (rule schedule_not_ready [OF k4 cn]) (simp_all add: c4(2))
  then show "tstat (rt_thread_exit s) t = RT_THREAD_CLOSE" unfolding e using c4(2) by simp
  show "fault (rt_thread_exit s) = fault s"
    if "is_timer (Thread_Timer t) s" "rt_object_is_systemobject (Timer_Obj (Thread_Timer t)) s"
    unfolding e S(2) f4 using that
    by (subst timer_detach_fault) (simp_all add: is_timer_def rt_object_get_type_def rt_object_is_systemobject_def)
  show "rt_current_thread (rt_thread_exit s) \<noteq> Some t"
    if r: "tstat s r = RT_THREAD_READY" "r \<noteq> t" "rt_scheduler_lock_nest s = 0"
    unfolding e
  proof (rule schedule_leaves [OF k4 c4(1)])
    show "tstat (thread_close t ?s3) t \<noteq> RT_THREAD_RUNNING" by (simp add: c4(2))
    show "tstat (thread_close t ?s3) r = RT_THREAD_READY" "rt_scheduler_lock_nest (thread_close t ?s3) = 0"
      using r by (simp_all add: thread_close_def thread_insert_after_def thread_link_simps)
  qed
qed

lemma thread_detach_kinv:
  assumes k: "kinv s"
  shows "kinv (fst (rt_thread_detach t s))" "kinv (fst (rt_thread_delete t s))"
proof -
  have core: "kinv (thread_close t (upd_thr t (\<lambda>x. x\<lparr>stat := RT_THREAD_CLOSE\<rparr>) (rt_timer_detach (Thread_Timer t) s3))) \<and>
      kinv (thread_insert_after Defunct t (upd_thr t (\<lambda>x. x\<lparr>stat := RT_THREAD_CLOSE\<rparr>) (rt_timer_detach (Thread_Timer t) s3)))"
    if s3: "kinv s2" "s3 = (if tstat s2 t \<noteq> RT_THREAD_INIT then rt_schedule_remove_thread t s2 else s2)" for s2 s3
  proof -
    note P = close_prepare [OF s3(1), of t, folded s3(2)]
    let ?s = "upd_thr t (\<lambda>x. x\<lparr>stat := RT_THREAD_CLOSE\<rparr>) (rt_timer_detach (Thread_Timer t) s3)"
    have "kinv_but {t} ?s" by (rule kinv_but_thread' [OF timer_detach_kinv [OF P(1)]]) simp_all
    then show ?thesis using thread_close_kinv [of t ?s] P(2,3) by (auto simp: mask_ok_def)
  qed
  have a: "kinv (rt_assert b (rt_assert b' s))" for b b' using k by (intro kinv_assert)
  show "kinv (fst (rt_thread_detach t s))" "kinv (fst (rt_thread_delete t s))"
    unfolding rt_thread_detach_def rt_thread_delete_def Let_def fst_conv
    by (rule core [OF a refl, THEN conjunct1] core [OF a refl, THEN conjunct2])+
qed


lemma timer_init_kinv:
  assumes k: "kinv s" and n: "row (tmr s m) = None"
    and f: "\<And>n. m = Timer n \<Longrightarrow> \<exists>i. f = User_Timeout i"
  shows "kinv (rt_timer_init m name f time fl s)"
proof -
  let ?s = "rt_object_init (Timer_Obj m) RT_Object_Class_Timer name s"
  have k1: "kinv ?s" by (rule object_init_kinv [OF k])
  have tm: "tmr ?s = tmr s" by (simp add: rt_object_init_def Let_def split: option.splits)
  have "kinv_but {} (rt_timer_init m name f time fl s)"
    unfolding rt_timer_init_def rt_timer_init_fields_def Let_def
    by (rule kinv_but_timer_upd [OF kinv_but_assert [OF k1 [unfolded kinv_def]]])
       (use n f in \<open>auto simp: tm timer_ok_def split: tmid.splits\<close>)
  then show ?thesis by (simp add: kinv_def)
qed

lemma object_init_frame:
  assumes "kinv s" "rt_current_thread s = None \<or> tstat s t \<noteq> RT_THREAD_READY \<and> tstat s t \<noteq> RT_THREAD_RUNNING"
  shows "thr (rt_object_init o' type name s) t = thr s t"
proof (cases "rt_object_get_information type")
  case (Some c)
  let ?s = "rt_assert (o' \<notin> set (object_list s c)) (rt_enter_critical s)"
  have k: "kinv (?s\<lparr>rt_scheduler_lock_nest := n\<rparr>)" for n
    by (rule kinv_cong [OF assms(1)]) (simp_all add: rt_enter_critical_def)
  have "thr (rt_exit_critical ?s) t = thr s t"
    using assms(2) schedule_not_ready [OF k [of 0], of t] by (auto simp: rt_exit_critical_def Let_def)
  then show ?thesis by (simp add: rt_object_init_def Some Let_def)
qed (simp add: rt_object_init_def)

lemma object_init_tmr [simp]:
  "tmr (rt_object_init o' type name s) = tmr s" "tmlists (rt_object_init o' type name s) = tmlists s"
  "rt_tick (rt_object_init o' type name s) = rt_tick s"
  by (simp_all add: rt_object_init_def Let_def split: option.splits)

text \<open>Initialising a thread that is in no list and has no pending timer.\<close>

lemma thread_init_fields_kinv:
  assumes k: "kinv s" and n: "tlist (thr s t) = None" "\<not> timer_queued s t"
  shows "kinv (rt_thread_init_fields t name prio tick s)"
proof -
  let ?f = "\<lambda>x. x\<lparr>init_priority := prio, current_priority := prio,
                 number_mask := 0, init_tick := tick, remaining_tick := tick, error := RT_EOK,
                 stat := RT_THREAD_INIT, has_cleanup := False\<rparr>"
  have "kinv_but ({} - {t}) (upd_thr t ?f (rt_assert (unat prio < 32) (rt_assert (tlist (thr s t) = None) s)))"
    by (rule kinv_but_thread [OF kinv_but_assert [OF kinv_but_assert [OF k [unfolded kinv_def]]]])
       (use n in \<open>auto simp: thread_ok_def node_ok_def\<close>)
  then have "kinv (upd_thr t ?f (rt_assert (unat prio < 32) (rt_assert (tlist (thr s t) = None) s)))"
    by (simp add: kinv_def)
  then show ?thesis
    unfolding rt_thread_init_fields_def Let_def by (rule timer_init_kinv) (use n in simp_all)
qed

lemma startup_ready:
  assumes k: "kinv s" and st: "tstat s t = RT_THREAD_INIT" and p: "unat (init_priority (thr s t)) < 32"
  defines "s3 \<equiv> upd_thr t (\<lambda>x. x\<lparr>current_priority := init_priority x,
       number_mask := push_bit (unat (init_priority x)) 1, stat := RT_THREAD_SUSPEND\<rparr>)
       (rt_assert (is_thread t s) s)"
  shows "kinv s3" "tstat s3 t = RT_THREAD_SUSPEND"
    "fst (rt_thread_startup t s) =
      (let s4 = fst (rt_thread_resume t s3) in if rt_current_thread s4 \<noteq> None then rt_schedule s4 else s4)"
proof -
  note U = init_thread_unlinked [OF k st]
  have "kinv_but ({} - {t}) s3" unfolding s3_def
    by (rule kinv_but_thread [OF kinv_but_assert [OF k [unfolded kinv_def]]])
       (use U p in \<open>auto simp: thread_ok_def node_ok_def mask_ok_def\<close>)
  then show "kinv s3" by (simp add: kinv_def)
  show "tstat s3 t = RT_THREAD_SUSPEND" by (simp add: s3_def)
  show "fst (rt_thread_startup t s) =
      (let s4 = fst (rt_thread_resume t s3) in if rt_current_thread s4 \<noteq> None then rt_schedule s4 else s4)"
    by (simp add: rt_thread_startup_def Let_def s3_def rt_thread_self_def rt_assert_def st)
qed

lemma startup_kinv:
  assumes "kinv s" "tstat s t = RT_THREAD_INIT" "unat (init_priority (thr s t)) < 32"
  shows "kinv (fst (rt_thread_startup t s))"
proof -
  note S = startup_ready [OF assms]
  have "kinv (fst (rt_thread_resume t (upd_thr t (\<lambda>x. x\<lparr>current_priority := init_priority x,
       number_mask := push_bit (unat (init_priority x)) 1, stat := RT_THREAD_SUSPEND\<rparr>)
       (rt_assert (is_thread t s) s))))" by (rule resume_state(10) [OF S(1,2)])
  then show ?thesis unfolding S(3) Let_def using schedule_kinv(1) by simp
qed

lemma change_priority_kinv:
  assumes k: "kinv s" and p: "unat prio < 32"
  shows "kinv (change_priority t prio s)"
proof (cases "tstat s t = RT_THREAD_READY")
  case True
  have ok: "thread_ok (rt_current_thread s = Some t) (timer_queued s t) (thr s t)"
    using kinv_butD(5) [OF k [unfolded kinv_def], of t] by simp
  have k1: "kinv_but {t} (rt_schedule_remove_thread t s)"
    using kinv_but_remove [OF k [unfolded kinv_def], of t] by simp
  then have "kinv_but {t} (upd_thr t (set_priority prio) (rt_schedule_remove_thread t s))"
    by (rule kinv_but_thread') (simp_all add: set_priority_def)
  then have "kinv_but ({t} - {t}) (rt_schedule_insert_thread t
      (upd_thr t (set_priority prio) (rt_schedule_remove_thread t s)))"
    by (rule kinv_but_insert)
       (use p ok True in \<open>auto simp: set_priority_def mask_ok_def thread_ok_def Let_def\<close>)
  then show ?thesis using True by (simp add: change_priority_def kinv_def)
next
  case False
  have ok: "thread_ok (rt_current_thread s = Some t) (timer_queued s t) (thr s t)"
    using kinv_butD(5) [OF k [unfolded kinv_def], of t] by simp
  have "node_ok (tlist (thr s t)) (tstat s t) (unat prio)"
    using ok False
    by (auto simp: thread_ok_def node_ok_def Let_def split: option.splits lid.splits)
  then have "kinv_but ({} - {t}) (upd_thr t (set_priority prio) s)"
    by (intro kinv_but_thread [OF k [unfolded kinv_def]])
       (use p ok in \<open>auto simp: set_priority_def mask_ok_def thread_ok_def Let_def\<close>)
  then show ?thesis using False by (simp add: change_priority_def kinv_def)
qed


section \<open>Sleeping\<close>

text \<open>A thread whose control block and timer went through \<^verbatim>\<open>rt_thread_init\<close>.\<close>

definition registered :: "tid \<Rightarrow> kernel \<Rightarrow> bool" where
  "registered t s \<longleftrightarrow> is_thread t s \<and> is_timer (Thread_Timer t) s \<and>
     timeout_func (tmr s (Thread_Timer t)) = Thread_Timeout t \<and>
     \<not> bit (timer_flag (tmr s (Thread_Timer t))) 1 \<and> \<not> bit (timer_flag (tmr s (Thread_Timer t))) 2"

lemma registeredD:
  "registered t s \<Longrightarrow> is_thread t s" "registered t s \<Longrightarrow> is_timer (Thread_Timer t) s"
  by (simp_all add: registered_def)

lemma registered_cong:
  assumes "objs s' = objs s" "timeout_func (tmr s' (Thread_Timer t)) = timeout_func (tmr s (Thread_Timer t))"
    "\<And>n. n = 1 \<or> n = 2 \<Longrightarrow>
      bit (timer_flag (tmr s' (Thread_Timer t))) n = bit (timer_flag (tmr s (Thread_Timer t))) n"
  shows "registered t s' = registered t s"
  using assms by (simp add: registered_def is_thread_def is_timer_def rt_object_get_type_def)

lemma registered_same: "\<lbrakk>objs s' = objs s; tmr s' = tmr s\<rbrakk> \<Longrightarrow> registered t s' = registered t s"
  by (rule registered_cong) simp_all

lemma stop_flags:
  "bit (timer_flag (tmr (fst (rt_timer_stop m s)) m')) n =
    (bit (timer_flag (tmr s m')) n \<and> \<not> (m' = m \<and> n = 0))"
  "timeout_func (tmr (fst (rt_timer_stop m s)) m') = timeout_func (tmr s m')"
  by (auto simp: rt_timer_stop_def Let_def flag_bits intro!: gr0I)

lemma registered_suspend [simp]: "registered t (fst (rt_thread_suspend t' s)) = registered t s"
  by (rule registered_cong) (auto simp: rt_thread_suspend_def Let_def stop_flags)

lemma registered_resume [simp]: "registered t (fst (rt_thread_resume t' s)) = registered t s"
  by (rule registered_cong) (auto simp: rt_thread_resume_def Let_def stop_flags)

lemma registered_schedule [simp]: "registered t (rt_schedule s) = registered t s"
  by (rule registered_same) simp_all

lemma arm_timer_state:
  fixes time :: u32
  assumes k: "kinv s" and st: "tstat s t = RT_THREAD_SUSPEND" and r: "registered t s"
  defines "s' \<equiv> arm_timer t time s"
  shows "kinv s'" "thr s' = thr s" "tlists s' = tlists s" "rt_current_thread s' = rt_current_thread s"
    "rt_scheduler_lock_nest s' = rt_scheduler_lock_nest s" "rt_tick s' = rt_tick s" "objs s' = objs s"
    "object_list s' = object_list s"
    "\<And>m. m \<noteq> Thread_Timer t \<Longrightarrow> tmr s' m = tmr s m"
    "row (tmr s' (Thread_Timer t)) = Some Hard_Timers" "timeout_tick (tmr s' (Thread_Timer t)) = rt_tick s + time"
    "time < RT_TICK_HALF \<Longrightarrow> fault s' = fault s" "registered t' s' = registered t' s"
    "rt_thread_ready_priority_group s' = rt_thread_ready_priority_group s"
proof -
  let ?m = "Thread_Timer t"
  let ?s1 = "upd_tmr ?m (\<lambda>x. x\<lparr>timer_init_tick := time\<rparr>) s"
  have tt: "is_timer ?m s" "timeout_func (tmr s ?m) = Thread_Timeout t" "\<not> bit (timer_flag (tmr s ?m)) 1"
    "\<not> bit (timer_flag (tmr s ?m)) 2" using r by (simp_all add: registered_def)
  have c: "fst (rt_timer_control ?m 0 time s) = ?s1" using tt(1) by (simp add: rt_timer_control_def)
  have e: "s' = timer_started ?m ?s1" using tt(4) by (simp add: s'_def arm_timer_def c timer_start_hard)
  have k1: "kinv_but {} ?s1"
    by (rule kinv_but_timer_upd [OF k [unfolded kinv_def]])
       (use kinv_butD(4) [OF k [unfolded kinv_def], of ?m] in \<open>auto simp: timer_ok_def\<close>)
  have "kinv_but {} s'" unfolding e by (rule timer_started_kinv [OF k1]) (use st tt in auto)
  then show "kinv s'" by (simp add: kinv_def)
  note T = timer_started_state [where m = ?m and s = ?s1, folded e]
  show "thr s' = thr s" "tlists s' = tlists s" "rt_current_thread s' = rt_current_thread s"
    "rt_scheduler_lock_nest s' = rt_scheduler_lock_nest s" "rt_tick s' = rt_tick s" "objs s' = objs s"
    "object_list s' = object_list s" "rt_thread_ready_priority_group s' = rt_thread_ready_priority_group s"
    "timeout_tick (tmr s' ?m) = rt_tick s + time"
    "row (tmr s' ?m) = Some Hard_Timers"
    using tt(4) by (simp_all add: T timer_list_of_def)
  show o: "tmr s' m = tmr s m" if "m \<noteq> ?m" for m using T(9) [OF that] that by simp
  show "fault s' = fault s" if "time < RT_TICK_HALF"
    using T(15) tt(1) that by (simp add: is_timer_def rt_object_get_type_def)
  show "registered t' s' = registered t' s"
  proof (rule registered_cong)
    show "objs s' = objs s" by (simp add: T)
    show "timeout_func (tmr s' (Thread_Timer t')) = timeout_func (tmr s (Thread_Timer t'))"
      using o [of "Thread_Timer t'"] by (cases "t' = t") (simp_all add: T)
    show "bit (timer_flag (tmr s' (Thread_Timer t'))) n = bit (timer_flag (tmr s (Thread_Timer t'))) n"
      if "n = 1 \<or> n = 2" for n
      using o [of "Thread_Timer t'"] that T(14) [where n = n] by (cases "t' = t") auto
  qed
qed

lemma sleep_state:
  assumes k: "kinv s" and st: "tstat s t = RT_THREAD_RUNNING" and r: "registered t s" and b: "tick < RT_TICK_HALF"
  obtains s3 where "sleep_for t tick s = rt_schedule s3" "kinv s3" "rt_current_thread s3 = Some t"
    "tstat s3 t = RT_THREAD_SUSPEND" "tlist (thr s3 t) = None" "\<forall>t'. t' \<noteq> t \<longrightarrow> thr s3 t' = thr s t'"
    "row (tmr s3 (Thread_Timer t)) = Some Hard_Timers" "timeout_tick (tmr s3 (Thread_Timer t)) = rt_tick s + tick"
    "fault s3 = fault s" "rt_tick s3 = rt_tick s" "\<forall>m. m \<noteq> Thread_Timer t \<longrightarrow> tmr s3 m = tmr s m"
proof -
  let ?s1 = "fst (rt_thread_suspend t s)"
  have c: "rt_current_thread s = Some t" by (rule running_thread(4) [OF k st])
  note S = suspend_state [OF k disjI2 [OF st]]
  have st1: "tstat ?s1 t = RT_THREAD_SUSPEND" by (simp add: S(1))
  note A = arm_timer_state [OF S(10) st1, where time = tick]
  have r1: "registered t ?s1" using r by simp
  show ?thesis
    by (rule that [of "arm_timer t tick ?s1"])
       (use A [OF r1] S c b registeredD [OF r] in \<open>auto simp: sleep_for_def\<close>)
qed


section \<open>The tick\<close>

lemma tick_slice_state:
  assumes k: "kinv s" and c: "rt_current_thread s = Some c"
  shows "kinv (tick_slice c s)" "rt_current_thread (tick_slice c s) \<noteq> None" "fault (tick_slice c s) = fault s"
    "tmr (tick_slice c s) = tmr s" "tmlists (tick_slice c s) = tmlists s" "rt_tick (tick_slice c s) = rt_tick s"
    "objs (tick_slice c s) = objs s"
    "tstat s t = RT_THREAD_SUSPEND \<Longrightarrow> t \<noteq> c \<Longrightarrow> thr (tick_slice c s) t = thr s t"
proof -
  let ?s1 = "upd_thr c (\<lambda>x. x\<lparr>remaining_tick := remaining_tick x - 1\<rparr>) s"
  let ?s2 = "upd_thr c (\<lambda>x. x\<lparr>remaining_tick := init_tick x, stat := stat x OR RT_THREAD_STAT_YIELD\<rparr>) ?s1"
  have ok: "thread_ok True (timer_queued s c) (thr s c)" by (rule current_ok [OF k c])
  have "kinv_but ({} - {c}) ?s1"
    by (rule kinv_but_thread [OF k [unfolded kinv_def]]) (use ok c in simp_all)
  then have k1: "kinv ?s1" by (simp add: kinv_def)
  have "kinv_but ({} - {c}) ?s2"
    by (rule kinv_but_thread [OF k1 [unfolded kinv_def]])
       (use ok c in \<open>simp_all add: thread_ok_stat\<close>)
  then have k2: "kinv ?s2" by (simp add: kinv_def)
  have c2: "rt_current_thread ?s2 \<noteq> None" using c by simp
  note S = schedule_kinv [OF k2 c2]
  show "kinv (tick_slice c s)" "rt_current_thread (tick_slice c s) \<noteq> None" "fault (tick_slice c s) = fault s"
    using k1 S c by (simp_all add: tick_slice_def rt_thread_yield_def Let_def)
  show "tmr (tick_slice c s) = tmr s" "tmlists (tick_slice c s) = tmlists s" "rt_tick (tick_slice c s) = rt_tick s"
    "objs (tick_slice c s) = objs s"
    by (simp_all add: tick_slice_def rt_thread_yield_def Let_def)
  show "thr (tick_slice c s) t = thr s t" if "tstat s t = RT_THREAD_SUSPEND" "t \<noteq> c"
    using schedule_not_ready [OF k2 c2, of t] that
    by (simp add: tick_slice_def rt_thread_yield_def Let_def)
qed

lemma dist_Suc:
  assumes "1 \<le> dist now x"
  shows "dist (now + 1) x = dist now x - 1"
proof -
  have e: "x - (now + 1) + 1 = (x - now + 1) - 1" by simp
  show ?thesis unfolding dist_def e using assms unfolding dist_def by (subst unat_sub_small) simp
qed

text \<open>The hard timers between two ticks: only sleeping threads wait, in order, none overdue.\<close>

definition sleepers_ok :: "kernel \<Rightarrow> bool" where
  "sleepers_ok s \<longleftrightarrow> in_order Hard_Timers s \<and>
     (\<forall>m \<in> set (tmlists s Hard_Timers). 1 \<le> dist (rt_tick s) (timeout_tick (tmr s m)) \<and>
        (\<exists>t. m = Thread_Timer t \<and> is_thread t s))"

lemma in_order_tick:
  assumes "sleepers_ok s"
  shows "in_order Hard_Timers (s\<lparr>rt_tick := rt_tick s + 1\<rparr>)"
proof -
  have d: "dist (rt_tick s + 1) (timeout_tick (tmr s m)) = dist (rt_tick s) (timeout_tick (tmr s m)) - 1"
    if "m \<in> set (tmlists s Hard_Timers)" for m
    using assms that by (intro dist_Suc) (auto simp: sleepers_ok_def)
  have "sorted (map (\<lambda>m. dist (rt_tick s) (timeout_tick (tmr s m)) - 1) (tmlists s Hard_Timers))"
    using assms unfolding sleepers_ok_def in_order_def sorted_wrt_map
    by (elim conjE, elim sorted_wrt_mono_rel [rotated]) (rule diff_le_mono)
  then have "sorted (map (\<lambda>m. dist (rt_tick s + 1) (timeout_tick (tmr s m))) (tmlists s Hard_Timers))"
    using d by (simp cong: map_cong)
  then show ?thesis using assms d by (auto simp: in_order_def sleepers_ok_def)
qed


lemma tick_increase_result:
  assumes k: "kinv s" and c: "rt_current_thread s = Some c" and sl: "sleepers_ok s"
    and fuel: "length (tmlists s Hard_Timers) < fuel" and run: "tstat s c \<noteq> RT_THREAD_SUSPEND"
  shows "\<exists>s'. rt_tick_increase cb fuel s = Some s' \<and> kinv s' \<and> fault s' = fault s \<and> rt_tick s' = rt_tick s + 1 \<and>
    (\<forall>t. timer_queued s t \<and> timeout_tick (tmr s (Thread_Timer t)) \<in> {rt_tick s, rt_tick s + 1} \<longrightarrow>
        awake s' t \<and> error (thr s' t) = - RT_ETIMEOUT) \<and>
    (\<forall>t. tstat s t = RT_THREAD_SUSPEND \<and> \<not> (timer_queued s t \<and>
        timeout_tick (tmr s (Thread_Timer t)) \<in> {rt_tick s, rt_tick s + 1}) \<longrightarrow> thr s' t = thr s t)"
proof -
  let ?s0 = "s\<lparr>rt_tick := rt_tick s + 1\<rparr>"
  let ?s1 = "tick_slice c ?s0"
  have k0: "kinv ?s0" by (rule kinv_cong [OF k]) simp_all
  have c0: "rt_current_thread ?s0 = Some c" using c by simp
  note T = tick_slice_state [OF k0 c0]
  have io: "in_order Hard_Timers ?s1"
    using in_order_tick [OF sl] by (simp add: in_order_def T(4-6))
  have al: "\<forall>m \<in> set (tmlists ?s1 Hard_Timers). \<exists>t. m = Thread_Timer t \<and> is_thread t ?s1"
    using sl by (auto simp: sleepers_ok_def T(5,7) is_thread_def rt_object_get_type_def)
  have "length (tmlists ?s1 Hard_Timers) < fuel" using fuel by (simp add: T(5))
  from check_thread_timers [OF refl T(1,2) io al this, of cb] obtain s' where
    s': "timer_check_loop cb fuel (rt_tick ?s1) ?s1 = Some s'" "kinv s'" "rt_tick s' = rt_tick ?s1" "fault s' = fault ?s1"
    "\<And>t. Thread_Timer t \<in> set (tmlists ?s1 Hard_Timers) \<and> due ?s1 (Thread_Timer t) \<Longrightarrow>
        awake s' t \<and> error (thr s' t) = - RT_ETIMEOUT"
    "\<And>t. \<not> (Thread_Timer t \<in> set (tmlists ?s1 Hard_Timers) \<and> due ?s1 (Thread_Timer t)) \<and> tstat ?s1 t = RT_THREAD_SUSPEND \<Longrightarrow>
        thr s' t = thr ?s1 t" by blast
  have q: "Thread_Timer t \<in> set (tmlists s Hard_Timers) \<longleftrightarrow> timer_queued s t" for t
  proof
    assume "timer_queued s t"
    then obtain l where l: "row (tmr s (Thread_Timer t)) = Some l" by auto
    then have "l = Hard_Timers"
      using kinv_butD(4) [OF k [unfolded kinv_def], of "Thread_Timer t"] by (cases l) (auto simp: timer_ok_def)
    then show "Thread_Timer t \<in> set (tmlists s Hard_Timers)"
      using l kinv_butD(3) [OF k [unfolded kinv_def]] by (simp add: timer_links_ok_def)
  qed (use kinv_butD(3) [OF k [unfolded kinv_def]] in \<open>simp add: timer_links_ok_def\<close>)
  have due: "due ?s1 (Thread_Timer t) \<longleftrightarrow> timeout_tick (tmr s (Thread_Timer t)) \<in> {rt_tick s, rt_tick s + 1}"
    if "timer_queued s t" for t
  proof -
    let ?x = "timeout_tick (tmr s (Thread_Timer t))"
    have "1 \<le> dist (rt_tick s) ?x" using sl that q by (auto simp: sleepers_ok_def)
    then have "due ?s1 (Thread_Timer t) \<longleftrightarrow> dist (rt_tick s) ?x = 1 \<or> dist (rt_tick s) ?x = 2"
      using dist_Suc [of "rt_tick s" ?x] by (auto simp: T(4,6))
    also have "\<dots> \<longleftrightarrow> ?x - rt_tick s + 1 = 1 \<or> ?x - rt_tick s + 1 = 2"
      unfolding dist_def by (simp add: word_unat_eq_iff)
    also have "\<dots> \<longleftrightarrow> ?x \<in> {rt_tick s, rt_tick s + 1}" by (auto simp: algebra_simps diff_eq_eq)
    finally show ?thesis .
  qed
  have e: "rt_tick_increase cb fuel s = Some s'"
    using s'(1) c by (simp add: rt_tick_increase_def rt_thread_self_def rt_timer_check_def Let_def)
  have thr1: "thr ?s1 t = thr s t" if "tstat s t = RT_THREAD_SUSPEND" for t
  proof -
    have "t \<noteq> c" using that run by auto
    then show ?thesis using T(8) [of t] that by simp
  qed
  show ?thesis
  proof (intro exI [of _ s'] conjI allI impI)
    show "rt_tick_increase cb fuel s = Some s'" "kinv s'" by (fact e s'(2))+
    show "fault s' = fault s" "rt_tick s' = rt_tick s + 1" using s'(3,4) T(3,6) by simp_all
    fix t
    assume a: "timer_queued s t \<and> timeout_tick (tmr s (Thread_Timer t)) \<in> {rt_tick s, rt_tick s + 1}"
    then have "Thread_Timer t \<in> set (tmlists ?s1 Hard_Timers) \<and> due ?s1 (Thread_Timer t)"
      using q due by (simp add: T(5))
    then show "awake s' t" "error (thr s' t) = - RT_ETIMEOUT" using s'(5) by blast+
  next
    fix t
    assume a: "tstat s t = RT_THREAD_SUSPEND \<and> \<not> (timer_queued s t \<and>
        timeout_tick (tmr s (Thread_Timer t)) \<in> {rt_tick s, rt_tick s + 1})"
    then have "\<not> (Thread_Timer t \<in> set (tmlists ?s1 Hard_Timers) \<and> due ?s1 (Thread_Timer t))"
      using q due unfolding T(5) by auto
    then show "thr s' t = thr s t" using s'(6) [of t] thr1 [of t] a by auto
  qed
qed


section \<open>Properties of threads and the tick\<close>

lemma demo_typed_registered: "registered t demo_typed"
  by (cases "Thread_Timer t") (simp_all add: registered_def demo_typed_facts timer0_def)

lemma demo_typed_running: "tstat demo_typed (Suc 0) = RT_THREAD_RUNNING"
  by (simp add: demo_typed_def demo_base_def)

text \<open>Sleeping.  \<^verbatim>\<open>rt_thread_sleep\<close> of a running thread, for fewer than half of the tick range,
  suspends it in no waiting list, queues its timer for exactly \<open>tick\<close> ticks from now, keeps the
  kernel invariant, raises no fault, and hands the processor to another thread if one is
  ready; after the timeout the call clears the timeout error and returns \<^verbatim>\<open>RT_EOK\<close>.\<close>

theorem rt_thread_sleep_correct:
  assumes k: "kinv s" and st: "tstat s t = RT_THREAD_RUNNING" and r: "registered t s"
    and b: "tick < RT_TICK_HALF"
  defines "s' \<equiv> rt_thread_sleep_call tick s"
  shows "kinv s' \<and> fault s' = fault s \<and> tstat s' t = RT_THREAD_SUSPEND \<and> tlist (thr s' t) = None \<and>
    timer_queued s' t \<and> timeout_tick (tmr s' (Thread_Timer t)) = rt_tick s + tick \<and>
    ((\<exists>r. tstat s r = RT_THREAD_READY) \<and> rt_scheduler_lock_nest s' = 0 \<longrightarrow> rt_current_thread s' \<noteq> Some t) \<and>
    (\<forall>w. error (thr w t) = - RT_ETIMEOUT \<longrightarrow>
       error (thr (fst (rt_thread_sleep_return t w)) t) = RT_EOK \<and> snd (rt_thread_sleep_return t w) = RT_EOK)"
proof -
  have c: "rt_current_thread s = Some t" by (rule running_thread(4) [OF k st])
  have e: "s' = sleep_for t tick s"
    using registeredD(1) [OF r] by (simp add: s'_def rt_thread_sleep_call_def rt_thread_self_def c)
  obtain s3 where s3: "s' = rt_schedule s3" "kinv s3" "rt_current_thread s3 = Some t"
    "tstat s3 t = RT_THREAD_SUSPEND" "tlist (thr s3 t) = None" "\<forall>t'. t' \<noteq> t \<longrightarrow> thr s3 t' = thr s t'"
    "row (tmr s3 (Thread_Timer t)) = Some Hard_Timers" "timeout_tick (tmr s3 (Thread_Timer t)) = rt_tick s + tick"
    "fault s3 = fault s" "rt_tick s3 = rt_tick s" "\<forall>m. m \<noteq> Thread_Timer t \<longrightarrow> tmr s3 m = tmr s m"
    unfolding e by (rule sleep_state [OF k st r b])
  have cn: "rt_current_thread s3 \<noteq> None" using s3(3) by simp
  have t3: "thr s' t = thr s3 t" unfolding s3(1) by (rule schedule_not_ready [OF s3(2) cn]) (use s3(4) in simp_all)
  have sw: "rt_current_thread s' \<noteq> Some t" if "tstat s r = RT_THREAD_READY" "rt_scheduler_lock_nest s' = 0" for r
    unfolding s3(1) using schedule_leaves [OF s3(2,3), of r] s3(4,6) that st
    by (metis rt_schedule_frame(1) s3(1) stat_ne(3,8))
  show ?thesis
    using schedule_kinv [OF s3(2) cn] s3 t3 sw
    by (auto simp: s3(1) rt_thread_sleep_return_def)
qed

theorem rt_thread_sleep_correct_witness:
  "tstat (rt_thread_sleep_call 100 demo_typed) 1 = RT_THREAD_SUSPEND \<and>
   timeout_tick (tmr (rt_thread_sleep_call 100 demo_typed) (Thread_Timer 1)) = 100"
  using rt_thread_sleep_correct [OF demo_typed_kinv demo_typed_running demo_typed_registered, of 100]
  by (simp add: demo_typed_facts)

text \<open>The tick interrupt.  When only sleeping threads wait on the hard timers, \<^verbatim>\<open>rt_tick_increase\<close>
  returns with fuel above their number, advances the tick by one, keeps the invariant and
  raises no fault; it wakes exactly the sleepers whose timeout is the old or the new tick, with
  error \<^verbatim>\<open>-RT_ETIMEOUT\<close>, and leaves every other suspended thread as it is.\<close>

theorem rt_tick_increase_wakes:
  assumes "kinv s" "rt_current_thread s = Some c" "sleepers_ok s"
    and "length (tmlists s Hard_Timers) < fuel" "tstat s c \<noteq> RT_THREAD_SUSPEND"
  shows "\<exists>s'. rt_tick_increase cb fuel s = Some s' \<and> kinv s' \<and> fault s' = fault s \<and> rt_tick s' = rt_tick s + 1 \<and>
    (\<forall>t. timer_queued s t \<and> timeout_tick (tmr s (Thread_Timer t)) \<in> {rt_tick s, rt_tick s + 1} \<longrightarrow>
        awake s' t \<and> error (thr s' t) = - RT_ETIMEOUT) \<and>
    (\<forall>t. tstat s t = RT_THREAD_SUSPEND \<and> \<not> (timer_queued s t \<and>
        timeout_tick (tmr s (Thread_Timer t)) \<in> {rt_tick s, rt_tick s + 1}) \<longrightarrow> thr s' t = thr s t)"
  by (rule tick_increase_result [OF assms])

theorem rt_tick_increase_wakes_witness:
  "\<exists>s'. rt_tick_increase (\<lambda>_ s. s) 1 demo_typed = Some s' \<and> kinv s' \<and> thr s' 2 = thr demo_typed 2"
proof -
  have "sleepers_ok demo_typed" by (simp add: sleepers_ok_def in_order_def demo_typed_facts)
  moreover have "tstat demo_typed 1 \<noteq> RT_THREAD_SUSPEND" "\<not> timer_queued demo_typed 2"
    using demo_typed_running by (simp_all add: demo_typed_facts timer0_def)
  ultimately show ?thesis
    using rt_tick_increase_wakes [OF demo_typed_kinv demo_typed_facts(1), of 1 "\<lambda>_ s. s"] demo_typed_facts(2)
    by (auto simp: demo_typed_facts(6))
qed

text \<open>Starting a thread.  \<^verbatim>\<open>rt_thread_startup\<close> of an initialised thread makes it ready or running,
  keeps the kernel invariant and raises no fault; with the scheduler unlocked the thread that
  runs afterwards is not outranked by the new one, which therefore preempts every thread of
  lower priority.\<close>

theorem rt_thread_startup_correct:
  assumes k: "kinv s" and c: "rt_current_thread s = Some c" "c \<noteq> t" and st: "tstat s t = RT_THREAD_INIT"
    and r: "registered t s" and p: "unat (init_priority (thr s t)) < 32" and l: "rt_scheduler_lock_nest s = 0"
  defines "s' \<equiv> fst (rt_thread_startup t s)"
  shows "kinv s' \<and> fault s' = fault s \<and> awake s' t \<and>
    (\<exists>n. rt_current_thread s' = Some n \<and> tstat s' n = RT_THREAD_RUNNING \<and>
      unat (current_priority (thr s' n)) \<le> unat (init_priority (thr s t)))"
proof -
  define s3 where "s3 = upd_thr t (\<lambda>x. x\<lparr>current_priority := init_priority x,
       number_mask := push_bit (unat (init_priority x)) 1, stat := RT_THREAD_SUSPEND\<rparr>) (rt_assert (is_thread t s) s)"
  note S = startup_ready [OF k st p, folded s3_def]
  let ?s4 = "fst (rt_thread_resume t s3)"
  note R = resume_state [OF S(1,2)]
  have rg: "registered t s3" using r registered_same [of s3 s t] by (simp add: s3_def)
  have c4: "rt_current_thread ?s4 = Some c" using c R(3) by (simp add: s3_def)
  have e: "s' = rt_schedule ?s4" unfolding s'_def S(3) using c4 by (simp add: Let_def)
  have f4: "fault ?s4 = fault s" using R(12) registeredD [OF rg] registeredD [OF r] by (simp add: s3_def)
  have rd: "tstat ?s4 t = RT_THREAD_READY" "unat (current_priority (thr ?s4 t)) = unat (init_priority (thr s t))"
    using R(1) c by (simp_all add: s3_def)
  have cn: "rt_current_thread ?s4 \<noteq> None" using c4 by simp
  have l4: "rt_scheduler_lock_nest ?s4 = 0" using l R(4) by (simp add: s3_def)
  have q: "t \<in> set (tlists ?s4 (Ready (unat (init_priority (thr s t)))))"
    using ready_in_queue(2) [OF R(10) rd(1)] rd(2) by simp
  have run: "\<exists>n. rt_current_thread s' = Some n \<and> tstat s' n = RT_THREAD_RUNNING \<and>
      unat (current_priority (thr s' n)) \<le> unat (init_priority (thr s t))"
  proof (rule schedule_cases [OF R(10) c4])
    assume "rt_scheduler_lock_nest ?s4 \<noteq> 0 \<or> rt_thread_ready_priority_group ?s4 = 0"
    then show ?thesis using l4 q kinv_butD(2) [OF R(10) [unfolded kinv_def]]
      unfolding bitmap_ok_def by (metis bit_0_eq bot_apply bot_bool_def empty_iff list.set(1))
  next
    fix p h rest assume s: "rt_schedule ?s4 = ?s4" and keep: "keeps_cpu (thr ?s4 c) p"
      and low: "\<And>q. q < p \<Longrightarrow> tlists ?s4 (Ready q) = []"
    have "p \<le> unat (init_priority (thr s t))" using not_ready_below [OF R(10) low rd(1)] rd(2) by simp
    then show ?thesis using keep c4 unfolding e s keeps_cpu_def by auto
  next
    fix p h rest assume s: "rt_schedule ?s4 = switched c h p ?s4" and qu: "tlists ?s4 (Ready p) = h # rest"
      and low: "\<And>q. q < p \<Longrightarrow> tlists ?s4 (Ready q) = []"
    have "p \<le> unat (init_priority (thr s t))" using not_ready_below [OF R(10) low rd(1)] rd(2) by simp
    then show ?thesis using switched_thr [OF R(10) c4 qu] ready_thread(3) [OF R(10) qu] unfolding e s by simp
  qed
  have "awake s' t" unfolding e by (rule schedule_awake(1) [OF R(10) cn]) (use rd in simp)
  then show ?thesis using schedule_kinv [OF R(10) cn] f4 run unfolding e by simp
qed

definition demo_init :: kernel where
  "demo_init = upd_thr 3 (\<lambda>x. x\<lparr>init_priority := 7\<rparr>) demo_typed"

theorem rt_thread_startup_correct_witness:
  "kinv (fst (rt_thread_startup 3 demo_init)) \<and> awake (fst (rt_thread_startup 3 demo_init)) 3"
proof -
  have "kinv_but ({} - {3}) demo_init" unfolding demo_init_def
    by (rule kinv_but_thread [OF demo_typed_kinv [unfolded kinv_def]])
       (use kinv_butD(5) [OF demo_typed_kinv [unfolded kinv_def], of 3] in simp_all)
  then have k: "kinv demo_init" by (simp add: kinv_def)
  have "registered 3 demo_init" using demo_typed_registered [of 3] registered_same [of demo_init demo_typed 3]
    by (simp add: demo_init_def)
  moreover have "rt_current_thread demo_init = Some 1" "tstat demo_init 3 = RT_THREAD_INIT"
    "unat (init_priority (thr demo_init 3)) < 32" "rt_scheduler_lock_nest demo_init = 0"
    by (simp_all add: demo_init_def demo_typed_facts) (simp_all add: demo_typed_def demo_base_def thread0_def)
  ultimately show ?thesis using rt_thread_startup_correct [OF k, of 1 3] by simp
qed

text \<open>Ending a thread.  \<^verbatim>\<open>rt_thread_exit\<close> closes the calling thread for good: it keeps the kernel
  invariant, raises no fault, leaves the thread CLOSEd and unqueued from timers, and if the
  scheduler is unlocked and a thread is ready the processor goes to another thread.\<close>

theorem rt_thread_exit_correct:
  assumes k: "kinv s" and c: "rt_current_thread s = Some t"
    and r: "is_timer (Thread_Timer t) s" "rt_object_is_systemobject (Timer_Obj (Thread_Timer t)) s"
  defines "s' \<equiv> rt_thread_exit s"
  shows "kinv s' \<and> fault s' = fault s \<and> tstat s' t = RT_THREAD_CLOSE \<and> \<not> timer_queued s' t \<and>
    (rt_scheduler_lock_nest s = 0 \<and> (\<exists>r. r \<noteq> t \<and> tstat s r = RT_THREAD_READY) \<longrightarrow> rt_current_thread s' \<noteq> Some t)"
proof -
  note X = thread_exit_kinv [OF k c, folded s'_def]
  have "\<not> timer_queued s' t"
    using kinv_butD(5) [OF X(1) [unfolded kinv_def], of t] X(2) by (auto simp: thread_ok_def Let_def)
  then show ?thesis using X(1,2,5) X(4) [OF r] by auto
qed

theorem rt_thread_exit_correct_witness:
  "kinv (rt_thread_exit demo_typed) \<and> tstat (rt_thread_exit demo_typed) 1 = RT_THREAD_CLOSE"
  using rt_thread_exit_correct [OF demo_typed_kinv demo_typed_facts(1,4)]
  by (simp add: rt_object_is_systemobject_def demo_typed_def demo_objs_def RT_Object_Class_Static_def)

text \<open>\<^verbatim>\<open>rt_thread_yield\<close> does not yield.  For a running thread whose time slice is not used up and
  which no ready thread outranks, the call changes nothing at all, although ready threads of
  the same priority may be waiting.\<close>

theorem rt_thread_yield_keeps_running:
  assumes k: "kinv s" and run: "tstat s c = RT_THREAD_RUNNING" and y: "stat (thr s c) AND RT_THREAD_STAT_YIELD = 0"
    and top: "\<forall>t. tstat s t = RT_THREAD_READY \<longrightarrow> unat (current_priority (thr s c)) \<le> unat (current_priority (thr s t))"
  shows "rt_thread_yield s = (s, RT_EOK)"
proof -
  have c: "rt_current_thread s = Some c" by (rule running_thread(4) [OF k run])
  have "rt_schedule s = s"
  proof (rule schedule_cases [OF k c])
    fix p h rest assume "\<not> keeps_cpu (thr s c) p" and q: "tlists s (Ready p) = h # rest"
    then have "\<not> unat (current_priority (thr s c)) \<le> p" using run y by (auto simp: keeps_cpu_def)
    then show ?thesis using top ready_thread(2,3) [OF k q] by blast
  qed
  then show ?thesis by (simp add: rt_thread_yield_def)
qed

definition demo_equal :: kernel where
  "demo_equal = upd_thr 2 (\<lambda>x. x\<lparr>stat := 3\<rparr>) demo_slice"

theorem rt_thread_yield_keeps_running_witness:
  "rt_thread_yield demo_equal = (demo_equal, RT_EOK) \<and> tlists demo_equal (Ready 5) = [1]"
proof -
  note d = demo_slice_def insert_thread_simps(2) demo_slice_base_def kernel0_def thread0_def Let_def
  have c: "rt_current_thread demo_slice = Some 2" "tstat demo_slice 2 = RT_THREAD_RUNNING"
    "tlists demo_slice (Ready 5) = [1]" by (simp_all add: d)
  have "kinv_but ({} - {2}) demo_equal" unfolding demo_equal_def
    by (rule kinv_but_thread [OF demo_slice_kinv [unfolded kinv_def]])
       (use current_ok [OF demo_slice_kinv c(1)] c in \<open>simp_all add: thread_ok_stat\<close>)
  then have k: "kinv demo_equal" by (simp add: kinv_def)
  have "tstat demo_equal 2 = RT_THREAD_RUNNING" "stat (thr demo_equal 2) AND RT_THREAD_STAT_YIELD = 0"
    by (simp_all add: demo_equal_def)
  moreover have "\<forall>t. tstat demo_equal t = RT_THREAD_READY \<longrightarrow>
      unat (current_priority (thr demo_equal 2)) \<le> unat (current_priority (thr demo_equal t))"
    by (simp add: demo_equal_def d)
  ultimately show ?thesis using rt_thread_yield_keeps_running [OF k, of 2] c by (simp add: demo_equal_def)
qed

text \<open>\<^verbatim>\<open>rt_thread_delay_until\<close> sleeps too long.  Called \<open>e\<close> ticks after the reference \<open>*tick\<close>, with
  \<open>e\<close> below the increment, it arms the timer for \<open>inc_tick + e\<close> ticks, so it wakes \<open>2 e\<close> ticks
  after the intended \<open>*tick + inc_tick\<close>; only for \<open>e = 0\<close> is the wake-up on time.\<close>

theorem rt_thread_delay_until_late:
  assumes k: "kinv s" and st: "tstat s t = RT_THREAD_RUNNING" and r: "registered t s"
    and e: "e = rt_tick s - tick" "e < inc_tick" "inc_tick + e < RT_TICK_HALF" "inc_tick < RT_TICK_HALF"
  defines "s' \<equiv> fst (rt_thread_delay_until_call tick inc_tick s)"
  shows "snd (rt_thread_delay_until_call tick inc_tick s) = Some (inc_tick + e) \<and>
    timer_queued s' t \<and> timeout_tick (tmr s' (Thread_Timer t)) = (tick + inc_tick) + 2 * e \<and>
    (e \<noteq> 0 \<longrightarrow> timeout_tick (tmr s' (Thread_Timer t)) \<noteq> tick + inc_tick)"
proof -
  have c: "rt_current_thread s = Some t" by (rule running_thread(4) [OF k st])
  have d: "rt_thread_delay_until_call tick inc_tick s = (sleep_for t (inc_tick + e) s, Some (inc_tick + e))"
    using e registeredD(1) [OF r]
    by (simp add: rt_thread_delay_until_call_def rt_thread_self_def c Let_def add.commute)
  have "\<exists>s3. s' = rt_schedule s3 \<and> row (tmr s3 (Thread_Timer t)) = Some Hard_Timers \<and>
      timeout_tick (tmr s3 (Thread_Timer t)) = rt_tick s + (inc_tick + e)"
    unfolding s'_def d fst_conv by (rule sleep_state [OF k st r e(3)]) metis
  then obtain s3 where s3: "s' = rt_schedule s3" "row (tmr s3 (Thread_Timer t)) = Some Hard_Timers"
    "timeout_tick (tmr s3 (Thread_Timer t)) = rt_tick s + (inc_tick + e)"
    by blast
  have w: "timeout_tick (tmr s' (Thread_Timer t)) = (tick + inc_tick) + 2 * e"
    unfolding rt_schedule_frame s3(1) s3(3) e(1) by simp
  have "2 * e \<noteq> 0" if "e \<noteq> 0"
  proof -
    have "unat e < 2 ^ 31" using e(2,4) by (simp add: word_less_nat_alt)
    then have "unat (2 * e) = 2 * unat e" by (simp add: unat_word_ariths)
    then show ?thesis using that by (metis mult_eq_0_iff unat_eq_zero zero_neq_numeral)
  qed
  then show ?thesis using d w s3(2) unfolding s3(1) by simp
qed

theorem rt_thread_delay_until_late_witness:
  "snd (rt_thread_delay_until_call (- 3) 10 demo_typed) = Some 13"
  using rt_thread_delay_until_late [OF demo_typed_kinv demo_typed_running demo_typed_registered, of 3 "- 3" 10]
  by (simp add: demo_typed_facts)

text \<open>Milliseconds to ticks.  With 1000 ticks per second the conversion is exact for every
  non-negative argument of 32 bits, and a negative one means to wait for ever.\<close>

theorem rt_tick_from_millisecond_exact:
  "(0 \<le> ms \<longrightarrow> rt_tick_from_millisecond ms = word_of_int ms) \<and>
   (ms < 0 \<longrightarrow> rt_tick_from_millisecond ms = - 1)"
proof -
  have "(1000 * (ms mod 1000) + 999) div 1000 = ms mod 1000"
    by (simp add: div_add1_eq)
  moreover have "1000 * word_of_int (ms div 1000) + word_of_int (ms mod 1000) = (word_of_int ms :: u32)"
    using arg_cong [OF mult_div_mod_eq [of 1000 ms], of "word_of_int :: int \<Rightarrow> u32"] 
    by (simp only: of_int_add of_int_mult of_int_numeral)
  ultimately show ?thesis by (auto simp: rt_tick_from_millisecond_def)
qed

theorem rt_tick_from_millisecond_exact_witness:
  "rt_tick_from_millisecond 250 = 250"
  using rt_tick_from_millisecond_exact [of 250] by simp

end
