(* ===== verification/Ipc.thy ===== *)
theory Ipc
  imports Kthread
begin

text \<open>
  The part of \<^verbatim>\<open>rt-thread/src/ipc.c\<close> that all IPC objects share: joining the waiting list of an
  object in FIFO or priority order, waking the first waiter and waking all of them.  An IPC
  object is passed as its structure, its waiting lists are lists of the kernel state.  A call
  that may block is split at its \<^verbatim>\<open>rt_schedule()\<close>: the part before it yields an \<open>outcome\<close>,
  the part after it is a definition of its own.
\<close>

section \<open>Definitions\<close>

abbreviation (input) RT_IPC_FLAG_FIFO :: u8 where "RT_IPC_FLAG_FIFO \<equiv> 0"
abbreviation (input) RT_IPC_FLAG_PRIO :: u8 where "RT_IPC_FLAG_PRIO \<equiv> 1"
abbreviation (input) RT_IPC_CMD_RESET :: int where "RT_IPC_CMD_RESET \<equiv> 1"

text \<open>A call returned with an error code, or the thread is suspended in it.\<close>

datatype outcome = Return rt_err | Blocked tid

fun prio_insert :: "(tid \<Rightarrow> u8) \<Rightarrow> tid \<Rightarrow> tid list \<Rightarrow> tid list" where
  "prio_insert prio thread [] = [thread]"
| "prio_insert prio thread (sthread # n) =
     (if prio thread < prio sthread then thread # sthread # n
      else sthread # prio_insert prio thread n)"

definition rt_ipc_object_init :: "lid \<Rightarrow> kernel \<Rightarrow> kernel" where
  "rt_ipc_object_init list s = s\<lparr>tlists := (tlists s)(list := [])\<rparr>"

definition rt_ipc_list_suspend :: "lid \<Rightarrow> tid \<Rightarrow> u8 \<Rightarrow> kernel \<Rightarrow> kernel" where
  "rt_ipc_list_suspend list thread flag s =
     (let s1 = fst (rt_thread_suspend thread s) in
      if flag = RT_IPC_FLAG_FIFO then thread_insert_before list thread s1
      else if flag = RT_IPC_FLAG_PRIO
      then thread_link list (prio_insert (\<lambda>t. current_priority (thr s1 t)) thread (tlists s1 list)) thread s1
      else s1)"

definition rt_ipc_list_resume :: "lid \<Rightarrow> kernel \<Rightarrow> kernel" where
  "rt_ipc_list_resume list s =
     (case tlists s list of [] \<Rightarrow> s\<lparr>fault := True\<rparr> | thread # _ \<Rightarrow> fst (rt_thread_resume thread s))"

fun rt_ipc_list_resume_all :: "nat \<Rightarrow> lid \<Rightarrow> kernel \<Rightarrow> kernel option" where
  "rt_ipc_list_resume_all 0 list s = None"
| "rt_ipc_list_resume_all (Suc fuel) list s =
     (case tlists s list of
        [] \<Rightarrow> Some s
      | thread # _ \<Rightarrow>
          rt_ipc_list_resume_all fuel list
            (fst (rt_thread_resume thread (upd_thr thread (\<lambda>x. x\<lparr>error := - RT_ERROR\<rparr>) s))))"

text \<open>Suspend the caller on a list, with a timeout if \<open>time\<close> is positive.\<close>

definition wait_on :: "lid \<Rightarrow> tid \<Rightarrow> u8 \<Rightarrow> int \<Rightarrow> kernel \<Rightarrow> kernel" where
  "wait_on list thread flag time s =
     (let s1 = rt_ipc_list_suspend list thread flag s in
      if time > 0 then arm_timer thread (word_of_int time) s1 else s1)"

text \<open>The body of the waiting loops of mailboxes and message queues: reset the error of the calling
  thread, suspend it and schedule.\<close>

definition block_self :: "lid \<Rightarrow> tid option \<Rightarrow> u8 \<Rightarrow> int \<Rightarrow> kernel \<Rightarrow> kernel \<times> outcome" where
  "block_self list self flag time s =
     (case self of
        None \<Rightarrow> (s\<lparr>fault := True\<rparr>, Return (- RT_ERROR))
      | Some thread \<Rightarrow>
          (rt_schedule (wait_on list thread flag time (upd_thr thread (\<lambda>x. x\<lparr>error := RT_EOK\<rparr>) s)), Blocked thread))"

text \<open>Giving up in such a loop with the thread's error set to \<open>e\<close>.\<close>

definition give_up :: "tid option \<Rightarrow> rt_err \<Rightarrow> kernel \<Rightarrow> kernel" where
  "give_up self e s = (case self of None \<Rightarrow> s\<lparr>fault := True\<rparr> | Some thread \<Rightarrow> upd_thr thread (\<lambda>x. x\<lparr>error := e\<rparr>) s)"

text \<open>The rest of a bounded wait, in the 32-bit arithmetic of \<^verbatim>\<open>timeout -= tick_delta\<close>.\<close>

definition wait_left :: "int \<Rightarrow> u32 \<Rightarrow> u32 \<Rightarrow> int" where
  "wait_left timeout start now =
     (if timeout > 0
      then let t = sint (word_of_int timeout - (now - start)) in if t < 0 then 0 else t
      else timeout)"

section \<open>Order in a waiting list\<close>

lemma prio_insert_set [simp]: "set (prio_insert prio t ts) = insert t (set ts)"
  by (induction ts) auto

lemma prio_insert_distinct [simp]: "distinct (prio_insert prio t ts) \<longleftrightarrow> t \<notin> set ts \<and> distinct ts"
  by (induction ts) auto

text \<open>The new waiter goes behind all waiters that are at least as urgent, ahead of the others.\<close>

lemma prio_insert_sorted:
  assumes "sorted (map (\<lambda>u. unat (prio u)) ts)"
  shows "prio_insert prio t ts =
    filter (\<lambda>u. prio u \<le> prio t) ts @ t # filter (\<lambda>u. prio t < prio u) ts"
  using assms
proof (induction ts)
  case (Cons u ts)
  then have "filter (\<lambda>v. prio v \<le> prio t) ts = []" "filter (\<lambda>v. prio t < prio v) ts = ts"
    if "prio t < prio u" using that
    by (auto simp: filter_empty_conv filter_id_conv word_less_nat_alt word_le_nat_alt)
  then show ?case using Cons by auto
qed simp

definition waiters_sorted :: "kernel \<Rightarrow> tid list \<Rightarrow> bool" where
  "waiters_sorted s ts \<longleftrightarrow> sorted (map (\<lambda>u. unat (current_priority (thr s u))) ts)"

lemma prio_insert_keeps_sorted:
  "sorted (map (\<lambda>u. unat (prio u)) ts) \<Longrightarrow> sorted (map (\<lambda>u. unat (prio u)) (prio_insert prio t ts))"
  by (induction ts) (auto simp: word_less_nat_alt)

text \<open>The waiting list after a thread joined it.\<close>

definition joined :: "u8 \<Rightarrow> kernel \<Rightarrow> tid \<Rightarrow> tid list \<Rightarrow> tid list" where
  "joined flag s t ts =
     (if flag = RT_IPC_FLAG_FIFO then ts @ [t] else prio_insert (\<lambda>u. current_priority (thr s u)) t ts)"

lemma joined_set [simp]: "set (joined flag s t ts) = insert t (set ts)"
  by (simp add: joined_def)

lemma joined_distinct [simp]: "distinct (joined flag s t ts) \<longleftrightarrow> t \<notin> set ts \<and> distinct ts"
  by (auto simp: joined_def)

lemma joined_not_Nil [simp]: "joined flag s t ts \<noteq> []"
  using joined_set [of flag s t ts] by (metis empty_iff insertI1 list.set(1))

section \<open>Waiting lists\<close>

lemma upd_error_kinv: "kinv s \<Longrightarrow> kinv (upd_thr t (\<lambda>x. x\<lparr>error := e\<rparr>) s)"
  using kinv_but_thread [of "{}" s "\<lambda>x. x\<lparr>error := e\<rparr>" t] kinv_butD(5) [of "{}" s t]
  by (simp add: kinv_def)

text \<open>Thread \<open>t\<close> has blocked in a waiting list: it is suspended there, its timer runs if the
  wait is bounded, and the processor went to another thread if one was ready.\<close>

definition blocked_in :: "lid \<Rightarrow> int \<Rightarrow> kernel \<Rightarrow> tid \<Rightarrow> kernel \<Rightarrow> bool" where
  "blocked_in l time s t s' \<longleftrightarrow>
     tstat s' t = RT_THREAD_SUSPEND \<and> tlist (thr s' t) = Some l \<and>
     (timer_queued s' t \<longleftrightarrow> 0 < time) \<and>
     (0 < time \<longrightarrow> timeout_tick (tmr s' (Thread_Timer t)) = rt_tick s + word_of_int time) \<and>
     ((\<exists>r. tstat s r = RT_THREAD_READY) \<and> rt_scheduler_lock_nest s = 0 \<longrightarrow> rt_current_thread s' \<noteq> Some t)"

lemma blocked_in_cong:
  assumes "rt_tick s1 = rt_tick s" "rt_scheduler_lock_nest s1 = rt_scheduler_lock_nest s"
    "\<And>r. tstat s1 r = tstat s r"
  shows "blocked_in l time s1 t s' = blocked_in l time s t s'"
  by (simp add: blocked_in_def assms)

lemma joined_cong:
  assumes "\<And>u. u \<in> insert t (set ts) \<Longrightarrow> current_priority (thr s1 u) = current_priority (thr s u)"
  shows "joined flag s1 t ts = joined flag s t ts"
proof -
  have "prio_insert f t xs = prio_insert g t xs" if "\<And>u. u \<in> insert t (set xs) \<Longrightarrow> f u = g u" for f g xs
    using that by (induction xs) auto
  from this [of ts "\<lambda>u. current_priority (thr s1 u)" "\<lambda>u. current_priority (thr s u)"] assms
  show ?thesis by (simp add: joined_def)
qed

text \<open>Suspending a thread on a list whose order becomes \<open>js\<close>, perhaps with a timeout.\<close>

definition suspend_as :: "lid \<Rightarrow> tid list \<Rightarrow> tid \<Rightarrow> kernel \<Rightarrow> kernel" where
  "suspend_as l js t s = thread_link l js t (fst (rt_thread_suspend t s))"

definition wait_as :: "lid \<Rightarrow> tid list \<Rightarrow> tid \<Rightarrow> int \<Rightarrow> kernel \<Rightarrow> kernel" where
  "wait_as l js t time s =
     (let s1 = suspend_as l js t s in if time > 0 then arm_timer t (word_of_int time) s1 else s1)"

text \<open>What every waiting list of an IPC object provides, whatever the object.\<close>

locale waiting_list =
  fixes wl :: lid
  assumes not_ready: "wl \<noteq> Ready p" and not_defunct: "wl \<noteq> Defunct"
begin

lemma waiter_suspended:
  assumes k: "kinv s" and t: "t \<in> set (tlists s wl)"
  shows "tlist (thr s t) = Some wl" "tstat s t = RT_THREAD_SUSPEND"
proof -
  show w: "tlist (thr s t) = Some wl"
    using kinv_butD(1) [OF k [unfolded kinv_def]] t by (auto simp: links_ok_def)
  then show "tstat s t = RT_THREAD_SUSPEND"
    using kinv_butD(5) [OF k [unfolded kinv_def], of t] not_ready not_defunct
    by (auto simp: thread_ok_def node_ok_def Let_def split: lid.splits)
qed

lemma running_not_waiting:
  assumes "kinv s" "tstat s t = RT_THREAD_RUNNING"
  shows "t \<notin> set (tlists s l)"
  using kinv_butD(1) [OF assms(1) [unfolded kinv_def]] running_thread(1) [OF assms] by (auto simp: links_ok_def)

lemma suspend_as_state:
  assumes k: "kinv s" and st: "tstat s t = RT_THREAD_RUNNING" and js: "set js = insert t (set (tlists s wl))" "distinct js"
  defines "s' \<equiv> suspend_as wl js t s"
  shows "kinv s'"
    "thr s' = (thr s)(t := (thr s t)\<lparr>stat := set_stat RT_THREAD_SUSPEND (stat (thr s t)), tlist := Some wl\<rparr>)"
    "tlists s' = (tlists s)(wl := js)"
    "rt_current_thread s' = Some t" "rt_scheduler_lock_nest s' = rt_scheduler_lock_nest s"
    "rt_tick s' = rt_tick s" "objs s' = objs s" "object_list s' = object_list s"
    "\<And>m. m \<noteq> Thread_Timer t \<Longrightarrow> tmr s' m = tmr s m" "\<not> timer_queued s' t"
    "registered u s' = registered u s"
    "registered t s \<Longrightarrow> fault s' = fault s"
proof -
  let ?s1 = "fst (rt_thread_suspend t s)"
  note S = suspend_state [OF k disjI2 [OF st]]
  have n: "tlist (thr s t) = None" "rt_current_thread s = Some t" by (rule running_thread [OF k st])+
  have tl: "tlists ?s1 = tlists s" using S(2) n by auto
  have n1: "tlist (thr ?s1 t) = None" by (simp add: S(1))
  have e: "s' = thread_link wl js t ?s1" by (simp add: s'_def suspend_as_def)
  have ok: "thread_ok (rt_current_thread ?s1 = Some t) (timer_queued ?s1 t) ((thr ?s1 t)\<lparr>tlist := Some wl\<rparr>)"
    using kinv_butD(5) [OF S(10) [unfolded kinv_def], of t] not_ready not_defunct n
    by (auto simp: thread_ok_def node_ok_def Let_def S(1) split: lid.splits)
  have "kinv_but ({} - {t}) s'" unfolding e
    by (rule kinv_but_link [OF S(10) [unfolded kinv_def] n1]) (use js tl ok not_ready in auto)
  then show "kinv s'" by (simp add: kinv_def)
  note T = thread_link_simps [OF n1]
  show "thr s' = (thr s)(t := (thr s t)\<lparr>stat := set_stat RT_THREAD_SUSPEND (stat (thr s t)), tlist := Some wl\<rparr>)"
    "tlists s' = (tlists s)(wl := js)"
    "rt_current_thread s' = Some t" "rt_scheduler_lock_nest s' = rt_scheduler_lock_nest s"
    "rt_tick s' = rt_tick s" "objs s' = objs s" "object_list s' = object_list s"
    "\<And>m. m \<noteq> Thread_Timer t \<Longrightarrow> tmr s' m = tmr s m" "\<not> timer_queued s' t"
    unfolding e using S n(2) by (simp_all add: T tl)
  show "registered u s' = registered u s" unfolding e
    using registered_same [of "thread_link wl js t ?s1" ?s1 u] by simp
  show "fault s' = fault s" if "registered t s"
    unfolding e T using S(12) registeredD [OF that] by simp
qed

lemma wait_as_state:
  assumes k: "kinv s" and st: "tstat s t = RT_THREAD_RUNNING" and js: "set js = insert t (set (tlists s wl))" "distinct js"
    and r: "registered t s" and b: "time < 0x7fffffff"
  defines "s' \<equiv> wait_as wl js t time s"
  shows "kinv s'"
    "thr s' = (thr s)(t := (thr s t)\<lparr>stat := set_stat RT_THREAD_SUSPEND (stat (thr s t)), tlist := Some wl\<rparr>)"
    "tlists s' = (tlists s)(wl := js)"
    "rt_current_thread s' = Some t" "rt_scheduler_lock_nest s' = rt_scheduler_lock_nest s"
    "rt_tick s' = rt_tick s" "objs s' = objs s" "object_list s' = object_list s"
    "\<And>m. m \<noteq> Thread_Timer t \<Longrightarrow> tmr s' m = tmr s m" "timer_queued s' t \<longleftrightarrow> 0 < time"
    "0 < time \<Longrightarrow> timeout_tick (tmr s' (Thread_Timer t)) = rt_tick s + word_of_int time"
    "registered u s' = registered u s" "fault s' = fault s"
proof -
  let ?s1 = "suspend_as wl js t s"
  note S = suspend_as_state [OF k st js]
  have st1: "tstat ?s1 t = RT_THREAD_SUSPEND" by (simp add: S(2))
  have r1: "registered t ?s1" using r S(11) [of t] by simp
  note A = arm_timer_state [OF S(1) st1 r1, where time = "word_of_int time"]
  have h: "word_of_int time < RT_TICK_HALF" if "0 < time"
    using that b by (simp add: word_less_def uint_word_of_int_eq take_bit_int_eq_self)
  show "kinv s'"
    "thr s' = (thr s)(t := (thr s t)\<lparr>stat := set_stat RT_THREAD_SUSPEND (stat (thr s t)), tlist := Some wl\<rparr>)"
    "tlists s' = (tlists s)(wl := js)"
    "rt_current_thread s' = Some t" "rt_scheduler_lock_nest s' = rt_scheduler_lock_nest s"
    "rt_tick s' = rt_tick s" "objs s' = objs s" "object_list s' = object_list s"
    "\<And>m. m \<noteq> Thread_Timer t \<Longrightarrow> tmr s' m = tmr s m" "timer_queued s' t \<longleftrightarrow> 0 < time"
    "registered u s' = registered u s" "fault s' = fault s"
    unfolding s'_def wait_as_def Let_def using S A h r by simp_all
  show "timeout_tick (tmr s' (Thread_Timer t)) = rt_tick s + word_of_int time" if "0 < time"
    using that S A unfolding s'_def wait_as_def by simp
qed

lemma block_as_state:
  assumes k: "kinv s" and st: "tstat s t = RT_THREAD_RUNNING" and js: "set js = insert t (set (tlists s wl))" "distinct js"
    and r: "registered t s" and b: "time < 0x7fffffff"
  defines "s' \<equiv> rt_schedule (wait_as wl js t time s)"
  shows "kinv s'" "fault s' = fault s" "blocked_in wl time s t s'"
    "thr s' t = (thr s t)\<lparr>stat := set_stat RT_THREAD_SUSPEND (stat (thr s t)), tlist := Some wl\<rparr>"
    "tlists s' wl = js"
    "\<And>l. (\<And>p. l \<noteq> Ready p) \<Longrightarrow> l \<noteq> wl \<Longrightarrow> tlists s' l = tlists s l"
    "rt_current_thread s' \<noteq> None" "registered u s' = registered u s" "objs s' = objs s"
proof -
  let ?s1 = "wait_as wl js t time s"
  note W = wait_as_state [OF k st js r b]
  have c: "rt_current_thread ?s1 \<noteq> None" using W(4) by simp
  have st1: "tstat ?s1 t = RT_THREAD_SUSPEND" by (simp add: W(2))
  note S = schedule_kinv [OF W(1) c]
  show "kinv s'" "fault s' = fault s" "rt_current_thread s' \<noteq> None" unfolding s'_def using S W(13) by simp_all
  have t: "thr s' t = thr ?s1 t" unfolding s'_def by (rule schedule_not_ready [OF W(1) c]) (use st1 in simp_all)
  then show "thr s' t = (thr s t)\<lparr>stat := set_stat RT_THREAD_SUSPEND (stat (thr s t)), tlist := Some wl\<rparr>"
    by (simp add: W(2))
  have l: "tlists s' l = tlists ?s1 l" if "\<And>p. l \<noteq> Ready p" for l
    unfolding s'_def by (rule schedule_lists [OF W(1) c that])
  show "tlists s' wl = js" using l not_ready W(3) by simp
  show "tlists s' l = tlists s l" if "\<And>p. l \<noteq> Ready p" "l \<noteq> wl" for l using l that W(3) by simp
  have "rt_current_thread s' \<noteq> Some t" if u: "tstat s u = RT_THREAD_READY" "rt_scheduler_lock_nest s = 0" for u
    unfolding s'_def
    by (rule schedule_leaves [OF W(1,4), of u]) (use st1 u st W(5) in \<open>auto simp: W(2)\<close>)
  then show "blocked_in wl time s t s'" using W(10,11) t unfolding blocked_in_def
    by (auto simp: W(2) s'_def)
  show "registered u s' = registered u s" "objs s' = objs s" unfolding s'_def using W(7,12) by simp_all
qed

text \<open>Joining in FIFO or priority order.\<close>

lemma joins:
  assumes k: "kinv s" and st: "tstat s t = RT_THREAD_RUNNING" and f: "flag = RT_IPC_FLAG_FIFO \<or> flag = RT_IPC_FLAG_PRIO"
  shows "set (joined flag s t (tlists s wl)) = insert t (set (tlists s wl))" "distinct (joined flag s t (tlists s wl))"
    "wait_on wl t flag time s = wait_as wl (joined flag s t (tlists s wl)) t time s"
proof -
  let ?s1 = "fst (rt_thread_suspend t s)"
  note S = suspend_state [OF k disjI2 [OF st]]
  have n: "tlist (thr s t) = None" by (rule running_thread [OF k st])
  have tl: "tlists ?s1 = tlists s" using S(2) n by auto
  have pr: "(\<lambda>u. current_priority (thr ?s1 u)) = (\<lambda>u. current_priority (thr s u))" by (auto simp: S(1))
  have jo: "joined flag ?s1 t (tlists ?s1 wl) = joined flag s t (tlists s wl)"
    unfolding tl joined_def by (rule arg_cong2 [where f = "\<lambda>p q. if flag = 0 then q else p"]) (simp_all add: pr)
  have "rt_ipc_list_suspend wl t flag s = suspend_as wl (joined flag s t (tlists s wl)) t s"
    using f jo by (auto simp: suspend_as_def rt_ipc_list_suspend_def thread_insert_before_def joined_def)
  then show "wait_on wl t flag time s = wait_as wl (joined flag s t (tlists s wl)) t time s"
    by (simp add: wait_on_def wait_as_def)
  show "set (joined flag s t (tlists s wl)) = insert t (set (tlists s wl))" by simp
  show "distinct (joined flag s t (tlists s wl))"
    using running_not_waiting [OF k st] kinv_butD(1) [OF k [unfolded kinv_def]] by (auto simp: links_ok_def)
qed

lemma wait_on_state:
  assumes k: "kinv s" and st: "tstat s t = RT_THREAD_RUNNING" and f: "flag = RT_IPC_FLAG_FIFO \<or> flag = RT_IPC_FLAG_PRIO"
    and r: "registered t s" and b: "time < 0x7fffffff"
  defines "s' \<equiv> wait_on wl t flag time s"
  shows "kinv s'"
    "thr s' = (thr s)(t := (thr s t)\<lparr>stat := set_stat RT_THREAD_SUSPEND (stat (thr s t)), tlist := Some wl\<rparr>)"
    "tlists s' = (tlists s)(wl := joined flag s t (tlists s wl))"
    "rt_current_thread s' = Some t" "rt_scheduler_lock_nest s' = rt_scheduler_lock_nest s"
    "rt_tick s' = rt_tick s" "objs s' = objs s" "object_list s' = object_list s"
    "\<And>m. m \<noteq> Thread_Timer t \<Longrightarrow> tmr s' m = tmr s m" "timer_queued s' t \<longleftrightarrow> 0 < time"
    "0 < time \<Longrightarrow> timeout_tick (tmr s' (Thread_Timer t)) = rt_tick s + word_of_int time"
    "registered u s' = registered u s" "fault s' = fault s"
  unfolding s'_def joins(3) [OF k st f] by (rule wait_as_state [OF k st joins(1,2) [OF k st f] r b]; assumption)+

lemma block_state:
  assumes k: "kinv s" and st: "tstat s t = RT_THREAD_RUNNING" and f: "flag = RT_IPC_FLAG_FIFO \<or> flag = RT_IPC_FLAG_PRIO"
    and r: "registered t s" and b: "time < 0x7fffffff"
  defines "s' \<equiv> rt_schedule (wait_on wl t flag time s)"
  shows "kinv s'" "fault s' = fault s" "blocked_in wl time s t s'"
    "thr s' t = (thr s t)\<lparr>stat := set_stat RT_THREAD_SUSPEND (stat (thr s t)), tlist := Some wl\<rparr>"
    "tlists s' wl = joined flag s t (tlists s wl)"
    "\<And>l. (\<And>p. l \<noteq> Ready p) \<Longrightarrow> l \<noteq> wl \<Longrightarrow> tlists s' l = tlists s l"
    "rt_current_thread s' \<noteq> None" "registered u s' = registered u s"
  unfolding s'_def joins(3) [OF k st f] by (rule block_as_state [OF k st joins(1,2) [OF k st f] r b]; assumption)+

lemma block_self_state:
  assumes k: "kinv s" and st: "tstat s t = RT_THREAD_RUNNING" and f: "flag = RT_IPC_FLAG_FIFO \<or> flag = RT_IPC_FLAG_PRIO"
    and r: "registered t s" and b: "time < 0x7fffffff"
  obtains s' where "block_self wl (Some t) flag time s = (s', Blocked t)" "kinv s'" "fault s' = fault s"
    "blocked_in wl time s t s'" "error (thr s' t) = RT_EOK" "tlists s' wl = joined flag s t (tlists s wl)"
    "\<forall>l. (\<forall>p. l \<noteq> Ready p) \<longrightarrow> l \<noteq> wl \<longrightarrow> tlists s' l = tlists s l"
    "rt_current_thread s' \<noteq> None" "\<forall>u. registered u s' = registered u s" "objs s' = objs s"
proof -
  let ?s1 = "upd_thr t (\<lambda>x. x\<lparr>error := RT_EOK\<rparr>) s"
  have k1: "kinv ?s1" by (rule upd_error_kinv [OF k])
  have rg: "registered u ?s1 = registered u s" for u using registered_same [of ?s1 s u] by simp
  have st1: "tstat ?s1 t = RT_THREAD_RUNNING" "registered t ?s1" using st r rg by simp_all
  note B = block_state [OF k1 st1(1) f st1(2) b] and W = wait_on_state [OF k1 st1(1) f st1(2) b]
  let ?s' = "rt_schedule (wait_on wl t flag time ?s1)"
  show ?thesis
  proof (rule that [of ?s'])
    show "block_self wl (Some t) flag time s = (?s', Blocked t)" by (simp add: block_self_def)
    show "kinv ?s'" "rt_current_thread ?s' \<noteq> None" by (fact B)+
    show "fault ?s' = fault s" "error (thr ?s' t) = RT_EOK" "objs ?s' = objs s" using B W(7) by simp_all
    show "blocked_in wl time s t ?s'" by (rule iffD1 [OF blocked_in_cong B(3)]) simp_all
    show "tlists ?s' wl = joined flag s t (tlists s wl)"
      using B(5) joined_cong [where ?s1.0 = ?s1 and s = s] by simp
    show "\<forall>l. (\<forall>p. l \<noteq> Ready p) \<longrightarrow> l \<noteq> wl \<longrightarrow> tlists ?s' l = tlists s l" using B(6) by simp
    show "\<forall>u. registered u ?s' = registered u s" using B(8) rg by simp
  qed
qed

text \<open>Waking the first waiter and scheduling.\<close>

lemma wake_first:
  assumes k: "kinv s" and c: "rt_current_thread s \<noteq> None" and q: "tlists s wl = t # rest" and r: "registered t s"
  defines "s' \<equiv> rt_schedule (rt_ipc_list_resume wl s)"
  shows "kinv s'" "rt_current_thread s' \<noteq> None" "fault s' = fault s" "tlists s' wl = rest" "awake s' t"
    "error (thr s' t) = error (thr s t)" "\<And>u. registered u s' = registered u s" "objs s' = objs s"
    "\<And>l. (\<And>p. l \<noteq> Ready p) \<Longrightarrow> l \<noteq> wl \<Longrightarrow> tlists s' l = tlists s l"
proof -
  have w: "tlist (thr s t) = Some wl" "tstat s t = RT_THREAD_SUSPEND"
    using waiter_suspended [OF k, of t] q by simp_all
  note R = resume_state [OF k w(2)]
  have e: "rt_ipc_list_resume wl s = fst (rt_thread_resume t s)" by (simp add: rt_ipc_list_resume_def q)
  have c1: "rt_current_thread (rt_ipc_list_resume wl s) \<noteq> None" using c by (simp add: e R(3))
  have k1: "kinv (rt_ipc_list_resume wl s)" using R(10) by (simp add: e)
  note S = schedule_kinv [OF k1 c1] and L = schedule_lists [OF k1 c1]
  show "kinv s'" "rt_current_thread s' \<noteq> None" unfolding s'_def by (fact S)+
  show "fault s' = fault s" unfolding s'_def using S(2) R(12) registeredD [OF r] by (simp add: e)
  show "tlists s' wl = rest" unfolding s'_def using L [OF not_ready] R(2) w(1) q by (simp add: e)
  have a: "awake (rt_ipc_list_resume wl s) t" by (simp add: e R(1))
  show "awake s' t" "error (thr s' t) = error (thr s t)" unfolding s'_def
    using schedule_awake [OF k1 c1 a] by (simp_all add: e R(1))
  show "registered u s' = registered u s" for u by (simp add: s'_def e)
  show "objs s' = objs s" by (simp add: s'_def e R(6))
  show "tlists s' l = tlists s l" if "\<And>p. l \<noteq> Ready p" "l \<noteq> wl" for l
    unfolding s'_def using L [OF that(1)] R(2) w(1) that by (simp add: e)
qed

lemma resume_first:
  assumes k: "kinv s" and q: "tlists s wl = t # rest" and c: "rt_current_thread s \<noteq> Some t"
  defines "s' \<equiv> rt_ipc_list_resume wl s"
  defines "p \<equiv> Ready (unat (current_priority (thr s t)))"
  shows "kinv s'"
    "thr s' = (thr s)(t := (thr s t)\<lparr>stat := set_stat RT_THREAD_READY (stat (thr s t)), tlist := Some p\<rparr>)"
    "tlists s' = (tlists s)(wl := rest, p := tlists s p @ [t])"
    "rt_current_thread s' = rt_current_thread s" "rt_scheduler_lock_nest s' = rt_scheduler_lock_nest s"
    "rt_tick s' = rt_tick s" "objs s' = objs s" "object_list s' = object_list s"
    "\<And>m. m \<noteq> Thread_Timer t \<Longrightarrow> tmr s' m = tmr s m" "\<not> timer_queued s' t"
    "registered u s' = registered u s" "registered t s \<Longrightarrow> fault s' = fault s"
proof -
  have w: "tlist (thr s t) = Some wl" "tstat s t = RT_THREAD_SUSPEND"
    using waiter_suspended [OF k, of t] q by simp_all
  note R = resume_state [OF k w(2)]
  have e: "s' = fst (rt_thread_resume t s)" by (simp add: s'_def rt_ipc_list_resume_def q)
  show "tlists s' = (tlists s)(wl := rest, p := tlists s p @ [t])"
    unfolding e p_def using R(2) w(1) c q not_ready by (auto simp: fun_eq_iff)
  show "kinv s'"
    "thr s' = (thr s)(t := (thr s t)\<lparr>stat := set_stat RT_THREAD_READY (stat (thr s t)), tlist := Some p\<rparr>)"
    "rt_current_thread s' = rt_current_thread s" "rt_scheduler_lock_nest s' = rt_scheduler_lock_nest s"
    "rt_tick s' = rt_tick s" "objs s' = objs s" "object_list s' = object_list s"
    "\<And>m. m \<noteq> Thread_Timer t \<Longrightarrow> tmr s' m = tmr s m" "\<not> timer_queued s' t"
    "registered u s' = registered u s" "registered t s \<Longrightarrow> fault s' = fault s"
    unfolding e p_def using R c registeredD [of t s] by simp_all
qed

lemma resume_first_any:
  assumes k: "kinv s" and q: "tlists s wl = t # rest"
  defines "s' \<equiv> rt_ipc_list_resume wl s"
  shows "kinv s'" "tlists s' wl = rest" "rt_current_thread s' = rt_current_thread s" "awake s' t"
    "\<And>u. u \<noteq> t \<Longrightarrow> thr s' u = thr s u" "error (thr s' t) = error (thr s t)"
    "registered t s \<Longrightarrow> fault s' = fault s"
proof -
  have w: "tlist (thr s t) = Some wl" "tstat s t = RT_THREAD_SUSPEND"
    using waiter_suspended [OF k, of t] q by simp_all
  note R = resume_state [OF k w(2)]
  have e: "s' = fst (rt_thread_resume t s)" by (simp add: s'_def rt_ipc_list_resume_def q)
  show "kinv s'" "tlists s' wl = rest" "rt_current_thread s' = rt_current_thread s" "awake s' t"
    "\<And>u. u \<noteq> t \<Longrightarrow> thr s' u = thr s u" "error (thr s' t) = error (thr s t)"
    "registered t s \<Longrightarrow> fault s' = fault s"
    unfolding e using R w q registeredD [of t s] by simp_all
qed

lemma resume_all:
  assumes "kinv s" "length (tlists s wl) < fuel" "\<forall>t \<in> set (tlists s wl). registered t s"
  shows "\<exists>s'. rt_ipc_list_resume_all fuel wl s = Some s' \<and> kinv s' \<and> tlists s' wl = [] \<and> fault s' = fault s \<and>
    rt_current_thread s' = rt_current_thread s \<and> rt_scheduler_lock_nest s' = rt_scheduler_lock_nest s \<and>
    rt_tick s' = rt_tick s \<and> objs s' = objs s \<and>
    (\<forall>t \<in> set (tlists s wl). awake s' t \<and> error (thr s' t) = - RT_ERROR) \<and>
    (\<forall>t. t \<notin> set (tlists s wl) \<longrightarrow> thr s' t = thr s t) \<and> (\<forall>t. registered t s' = registered t s)"
  using assms
proof (induction fuel arbitrary: s)
  case (Suc fuel)
  show ?case
  proof (cases "tlists s wl")
    case (Cons t rest)
    let ?s1 = "upd_thr t (\<lambda>x. x\<lparr>error := - RT_ERROR\<rparr>) s"
    let ?s2 = "fst (rt_thread_resume t ?s1)"
    have w: "tlist (thr s t) = Some wl" "tstat s t = RT_THREAD_SUSPEND"
      using waiter_suspended [OF Suc.prems(1), of t] Cons by simp_all
    have "kinv_but ({} - {t}) ?s1" by (rule kinv_but_thread [OF Suc.prems(1) [unfolded kinv_def]])
        (use kinv_butD(5) [OF Suc.prems(1) [unfolded kinv_def], of t] in simp_all)
    then have k1: "kinv ?s1" by (simp add: kinv_def)
    note R = resume_state [OF k1, of t]
    have st1: "tstat ?s1 t = RT_THREAD_SUSPEND" using w by simp
    have tl: "tlists ?s2 wl = rest" using R(2) [OF st1] w(1) Cons by simp
    have d: "t \<notin> set rest" using kinv_butD(1) [OF Suc.prems(1) [unfolded kinv_def]] Cons
      unfolding links_ok_def by (metis distinct.simps(2))
    have rg: "registered u ?s1 = registered u s" for u using registered_same [of ?s1 s u] by simp
    have "registered t s" "\<forall>u \<in> set rest. registered u ?s2" using Suc.prems(3) Cons by (simp_all add: rg)
    then obtain s' where s': "rt_ipc_list_resume_all fuel wl ?s2 = Some s'" "kinv s'" "tlists s' wl = []"
      "fault s' = fault ?s2" "rt_current_thread s' = rt_current_thread ?s2"
      "rt_scheduler_lock_nest s' = rt_scheduler_lock_nest ?s2" "rt_tick s' = rt_tick ?s2" "objs s' = objs ?s2"
      "\<forall>u \<in> set rest. awake s' u \<and> error (thr s' u) = - RT_ERROR"
      "\<forall>u. u \<notin> set rest \<longrightarrow> thr s' u = thr ?s2 u" "\<forall>u. registered u s' = registered u ?s2"
      using Suc.IH [OF R(10) [OF st1]] Suc.prems(2) Cons tl by auto
    have "fault ?s2 = fault s"
      using R(12) [OF st1] registeredD [of t ?s1] \<open>registered t s\<close> by (simp add: rg)
    moreover have "awake s' t \<and> error (thr s' t) = - RT_ERROR" using s'(10) d R(1) [OF st1] by simp
    moreover have "thr s' u = thr s u" if "u \<noteq> t" "u \<notin> set rest" for u using s'(10) that R(1) [OF st1] by simp
    ultimately show ?thesis using s' R(3-6) [OF st1] Cons by (simp add: rg)
  qed (use Suc.prems in simp)
qed simp

end

interpretation wt: waiting_list "Suspend_Thread ob" for ob
  by unfold_locales simp_all

interpretation ws: waiting_list "Suspend_Sender ob" for ob
  by unfold_locales simp_all

section \<open>Objects with waiting receivers and senders\<close>

text \<open>The kernel side of the invariant of a mailbox or a message queue \<open>ob\<close>.\<close>

definition ipc_ok :: "oref \<Rightarrow> u8 \<Rightarrow> kernel \<Rightarrow> bool" where
  "ipc_ok ob flag s \<longleftrightarrow> kinv s \<and> rt_current_thread s \<noteq> None \<and> (flag = RT_IPC_FLAG_FIFO \<or> flag = RT_IPC_FLAG_PRIO) \<and>
     (\<forall>t \<in> set (tlists s (Suspend_Thread ob)) \<union> set (tlists s (Suspend_Sender ob)). registered t s)"

lemma ipc_okD:
  assumes "ipc_ok ob flag s"
  shows "kinv s" "rt_current_thread s \<noteq> None" "flag = RT_IPC_FLAG_FIFO \<or> flag = RT_IPC_FLAG_PRIO"
    "t \<in> set (tlists s (Suspend_Thread ob)) \<Longrightarrow> registered t s" "t \<in> set (tlists s (Suspend_Sender ob)) \<Longrightarrow> registered t s"
  using assms by (auto simp: ipc_ok_def)

text \<open>What a call does to the first thread waiting on a list.\<close>

definition woken :: "lid \<Rightarrow> kernel \<Rightarrow> kernel \<Rightarrow> bool" where
  "woken l s s' \<longleftrightarrow>
     (case tlists s l of
        [] \<Rightarrow> s' = s
      | w # ws \<Rightarrow> awake s' w \<and> error (thr s' w) = error (thr s w) \<and> tlists s' l = ws)"

definition wake :: "lid \<Rightarrow> kernel \<Rightarrow> kernel" where
  "wake l s = (if tlists s l \<noteq> [] then rt_schedule (rt_ipc_list_resume l s) else s)"

lemma ipc_wake:
  assumes o: "ipc_ok ob flag s" and l: "l = Suspend_Thread ob \<or> l = Suspend_Sender ob"
  shows "ipc_ok ob flag (wake l s)" "fault (wake l s) = fault s" "woken l s (wake l s)" "objs (wake l s) = objs s"
    "l' = Suspend_Thread ob \<or> l' = Suspend_Sender ob \<Longrightarrow> l' \<noteq> l \<Longrightarrow> tlists (wake l s) l' = tlists s l'"
proof -
  note O = ipc_okD [OF o]
  have all: "ipc_ok ob flag (wake l s) \<and> fault (wake l s) = fault s \<and> woken l s (wake l s) \<and> objs (wake l s) = objs s \<and>
      (\<forall>l'. l' = Suspend_Thread ob \<or> l' = Suspend_Sender ob \<longrightarrow> l' \<noteq> l \<longrightarrow> tlists (wake l s) l' = tlists s l')"
  proof (cases "tlists s l")
    case (Cons w ws)
    have r: "registered w s" using O(4,5) [of w] l Cons by auto
    have wl: "waiting_list l" using l by (auto intro: wt.waiting_list_axioms ws.waiting_list_axioms)
    note W = waiting_list.wake_first [OF wl O(1,2) Cons r]
    have e: "wake l s = rt_schedule (rt_ipc_list_resume l s)" by (simp add: wake_def Cons)
    have lists: "tlists (wake l s) (Suspend_Thread ob) = (if l = Suspend_Thread ob then ws else tlists s (Suspend_Thread ob))"
      "tlists (wake l s) (Suspend_Sender ob) = (if l = Suspend_Sender ob then ws else tlists s (Suspend_Sender ob))"
      unfolding e using W(4) W(9) [of "Suspend_Thread ob"] W(9) [of "Suspend_Sender ob"] l by auto
    have "set ws \<subseteq> set (tlists s l)" using Cons by auto
    then have "ipc_ok ob flag (wake l s)" using O W(1,2,7) lists l unfolding ipc_ok_def e by auto
    then show ?thesis using W(3-6,8) lists Cons unfolding e woken_def by auto
  qed (use o in \<open>auto simp: wake_def woken_def\<close>)
  then show "ipc_ok ob flag (wake l s)" "fault (wake l s) = fault s" "woken l s (wake l s)" "objs (wake l s) = objs s"
    by blast+
  show "l' = Suspend_Thread ob \<or> l' = Suspend_Sender ob \<Longrightarrow> l' \<noteq> l \<Longrightarrow> tlists (wake l s) l' = tlists s l'"
    using all by blast
qed

lemma ipc_blocks:
  assumes o: "ipc_ok ob flag s" and l: "l = Suspend_Thread ob \<or> l = Suspend_Sender ob"
    and st: "tstat s t = RT_THREAD_RUNNING" and r: "registered t s" and b: "time < 0x7fffffff"
  obtains s' where "block_self l (Some t) flag time s = (s', Blocked t)" "ipc_ok ob flag s'" "fault s' = fault s"
    "blocked_in l time s t s'" "tlists s' l = joined flag s t (tlists s l)" "objs s' = objs s"
proof -
  note O = ipc_okD [OF o]
  have wl: "waiting_list l" using l by (auto intro: wt.waiting_list_axioms ws.waiting_list_axioms)
  show ?thesis
  proof (rule waiting_list.block_self_state [OF wl O(1) st O(3) r b])
    fix s' assume s': "block_self l (Some t) flag time s = (s', Blocked t)" "kinv s'" "fault s' = fault s"
      "blocked_in l time s t s'" "tlists s' l = joined flag s t (tlists s l)"
      "\<forall>l'. (\<forall>p. l' \<noteq> Ready p) \<longrightarrow> l' \<noteq> l \<longrightarrow> tlists s' l' = tlists s l'"
      "rt_current_thread s' \<noteq> None" "\<forall>u. registered u s' = registered u s" "objs s' = objs s"
    have "set (tlists s' l') \<subseteq> insert t (set (tlists s l'))" if "l' = Suspend_Thread ob \<or> l' = Suspend_Sender ob" for l'
      using s'(5,6) that by (cases "l' = l") auto
    then have "\<forall>u \<in> set (tlists s' (Suspend_Thread ob)) \<union> set (tlists s' (Suspend_Sender ob)). registered u s'"
      using O(4,5) r s'(8) by blast
    then have "ipc_ok ob flag s'" using O s'(2,7) by (simp add: ipc_ok_def)
    then show ?thesis using that [OF s'(1) _ s'(3-5)] s'(9) by blast
  qed
qed

lemma ipc_give_up:
  assumes "ipc_ok ob flag s"
  shows "ipc_ok ob flag (give_up (Some t) e s)" "fault (give_up (Some t) e s) = fault s" "objs (give_up (Some t) e s) = objs s"
  using assms upd_error_kinv [of s t e] registered_same [of "upd_thr t (\<lambda>x. x\<lparr>error := e\<rparr>) s" s]
  by (simp_all add: ipc_ok_def give_up_def)

text \<open>A reset wakes everybody who waits, receivers first; one round per waiter is enough.\<close>

lemma ipc_reset:
  assumes o: "ipc_ok ob flag s"
    and f: "length (tlists s (Suspend_Thread ob)) < fuel" "length (tlists s (Suspend_Sender ob)) < fuel"
  obtains s' where
    "Option.bind (rt_ipc_list_resume_all fuel (Suspend_Thread ob) s) (rt_ipc_list_resume_all fuel (Suspend_Sender ob)) = Some s'"
    "ipc_ok ob flag s'" "tlists s' (Suspend_Thread ob) = []" "tlists s' (Suspend_Sender ob) = []" "fault s' = fault s"
    "objs s' = objs s"
    "\<forall>t \<in> set (tlists s (Suspend_Thread ob)) \<union> set (tlists s (Suspend_Sender ob)). awake s' t \<and> error (thr s' t) = - RT_ERROR"
proof -
  let ?R = "Suspend_Thread ob" and ?S = "Suspend_Sender ob"
  note O = ipc_okD [OF o]
  have in_list: "t \<in> set (tlists s1 l) \<longleftrightarrow> tlist (thr s1 t) = Some l" "distinct (tlists s1 l)" if "kinv s1" for s1 t l
    using kinv_butD(1) [OF that [unfolded kinv_def]] by (auto simp: links_ok_def)
  obtain s1 where s1: "rt_ipc_list_resume_all fuel ?R s = Some s1" "kinv s1" "tlists s1 ?R = []" "fault s1 = fault s"
    "rt_current_thread s1 = rt_current_thread s" "objs s1 = objs s"
    "\<forall>t \<in> set (tlists s ?R). awake s1 t \<and> error (thr s1 t) = - RT_ERROR" "\<forall>t. t \<notin> set (tlists s ?R) \<longrightarrow> thr s1 t = thr s t"
    "\<forall>t. registered t s1 = registered t s"
    using wt.resume_all [OF O(1) f(1)] O(4) by metis
  have aw: "t \<notin> set (tlists s1 ?S)" if "t \<in> set (tlists s ?R)" for t
    using ws.waiter_suspended(2) [OF s1(2), of t ob] s1(7) that by auto
  have st: "t \<in> set (tlists s1 ?S) \<longleftrightarrow> t \<in> set (tlists s ?S)" for t
  proof (cases "t \<in> set (tlists s ?R)")
    case True
    then have "tlist (thr s t) = Some ?R" using in_list(1) [OF O(1)] by blast
    then show ?thesis using aw [OF True] in_list(1) [OF O(1), of t ?S] by simp
  next
    case False
    then show ?thesis using s1(8) in_list(1) [OF s1(2), of t ?S] in_list(1) [OF O(1), of t ?S] by simp
  qed
  have "length (tlists s1 ?S) = length (tlists s ?S)"
    using st in_list(2) [OF s1(2), of ?S] in_list(2) [OF O(1), of ?S] distinct_card by (metis set_eqI)
  then have f2: "length (tlists s1 ?S) < fuel" using f(2) by simp
  have rg: "registered t s1" if "t \<in> set (tlists s1 ?S)" for t using O(5) st that s1(9) by simp
  obtain s2 where s2: "rt_ipc_list_resume_all fuel ?S s1 = Some s2" "kinv s2" "tlists s2 ?S = []" "fault s2 = fault s1"
    "rt_current_thread s2 = rt_current_thread s1" "objs s2 = objs s1"
    "\<forall>t \<in> set (tlists s1 ?S). awake s2 t \<and> error (thr s2 t) = - RT_ERROR" "\<forall>t. t \<notin> set (tlists s1 ?S) \<longrightarrow> thr s2 t = thr s1 t"
    using ws.resume_all [OF s1(2) f2] rg by metis
  have "t \<notin> set (tlists s2 ?R)" for t
  proof (cases "t \<in> set (tlists s1 ?S)")
    case True
    then show ?thesis using wt.waiter_suspended(2) [OF s2(2), of t ob] s2(7) by auto
  next
    case False
    then show ?thesis using s2(8) s1(3) in_list(1) [OF s2(2), of t ?R] in_list(1) [OF s1(2), of t ?R] by simp
  qed
  then have e: "tlists s2 ?R = []" by (metis list.set_intros(1) neq_Nil_conv)
  then have "ipc_ok ob flag s2" using s2(2,3,5) s1(5) O(2,3) by (simp add: ipc_ok_def)
  moreover have "awake s2 t \<and> error (thr s2 t) = - RT_ERROR" if "t \<in> set (tlists s ?R) \<union> set (tlists s ?S)" for t
    using that s2(7,8) s1(7) aw st by (cases "t \<in> set (tlists s1 ?S)") auto
  ultimately show ?thesis using that [of s2] s1 s2 e by auto
qed

section \<open>The rest of a wait\<close>

lemma wait_left_exact:
  assumes "0 < timeout" "timeout < 2 ^ 31" "unat (now - start) < 2 ^ 31"
  shows "wait_left timeout start now = max 0 (timeout - int (unat (now - start)))"
proof -
  let ?d = "now - start"
  have d: "?d = word_of_int (int (unat ?d))" by simp
  have n: "int (unat ?d) < 2 ^ 31" "0 \<le> int (unat ?d)"
    using assms(3) by (metis of_nat_less_iff of_nat_numeral of_nat_power, simp)
  have si: "sint (word_of_int x :: u32) = x" if "- (2 ^ 31) \<le> x" "x < 2 ^ 31" for x
    using that by (simp add: sint_sbintrunc' signed_take_bit_int_eq_self)
  have "word_of_int timeout - ?d = word_of_int (timeout - int (unat ?d))"
    by (subst d) (simp only: of_int_diff)
  also have "sint \<dots> = timeout - int (unat ?d)"
    by (rule si) (use assms(1,2) n in linarith)+
  finally show ?thesis using assms(1) by (simp add: wait_left_def max_def)
qed

section \<open>A concrete state\<close>

text \<open>Thread 1 runs and thread 2, of higher priority, waits on an object.\<close>

definition demo_wait :: "oref \<Rightarrow> kernel" where
  "demo_wait ob = thread_insert_before (Suspend_Thread ob) 2 demo_typed"

lemma demo_wait_kinv: "kinv (demo_wait ob)"
proof -
  have n: "tlist (thr demo_typed 2) = None" by (simp add: demo_typed_def demo_base_def thread0_def)
  have "kinv_but ({} - {2}) (demo_wait ob)" unfolding demo_wait_def thread_insert_before_def
    by (rule kinv_but_link [OF demo_typed_kinv [unfolded kinv_def] n])
       (simp_all add: demo_typed_def demo_base_def kernel0_def thread0_def timer0_def thread_ok_def node_ok_def mask_ok_def)
  then show ?thesis by (simp add: kinv_def)
qed

lemma demo_wait_facts:
  "tlists (demo_wait ob) (Suspend_Thread ob) = [2]" "rt_current_thread (demo_wait ob) = Some 1"
  "thr (demo_wait ob) 1 = thr demo_typed 1" "tstat (demo_wait ob) 1 = RT_THREAD_RUNNING"
  "error (thr (demo_wait ob) 2) = RT_EOK" "objs (demo_wait ob) = demo_objs"
  "rt_scheduler_lock_nest (demo_wait ob) = 0"
  by (simp_all add: demo_wait_def thread_insert_before_def thread_link_def demo_typed_def demo_base_def kernel0_def
      thread0_def RT_EOK_def)

lemma demo_wait_registered: "registered t (demo_wait ob)"
  using demo_typed_registered [of t] registered_same [of "demo_wait ob" demo_typed t]
  by (simp add: demo_wait_def thread_insert_before_def)

end
