(* ===== verification/Semaphore.thy ===== *)
theory Semaphore
  imports Ipc
begin

text \<open>
  The counting semaphore of \<^verbatim>\<open>rt-thread/src/ipc.c\<close>.  Its count is 16 bits wide; the waiting
  threads are the list \<open>Suspend_Thread (Sem_Obj a)\<close> of the kernel state.
\<close>

section \<open>Definitions\<close>

record rt_semaphore =
  sem_value :: u16
  sem_flag :: u8

abbreviation sem_list :: "nat \<Rightarrow> lid" where "sem_list a \<equiv> Suspend_Thread (Sem_Obj a)"

definition is_sem :: "nat \<Rightarrow> kernel \<Rightarrow> bool" where
  "is_sem a s \<longleftrightarrow> rt_object_get_type (Sem_Obj a) s = RT_Object_Class_Semaphore"

definition rt_sem_init :: "nat \<Rightarrow> string \<Rightarrow> u32 \<Rightarrow> u8 \<Rightarrow> kernel \<Rightarrow> kernel \<times> rt_semaphore" where
  "rt_sem_init a name val flag s =
     (let s1 = rt_assert (val < 0x10000) s;
          s2 = rt_object_init (Sem_Obj a) RT_Object_Class_Semaphore name s1;
          s3 = rt_ipc_object_init (sem_list a) s2
      in (s3, \<lparr>sem_value = ucast val, sem_flag = flag\<rparr>))"

definition rt_sem_detach :: "nat \<Rightarrow> nat \<Rightarrow> kernel \<Rightarrow> kernel option" where
  "rt_sem_detach fuel a s =
     (let s1 = rt_assert (is_sem a s) s;
          s2 = rt_assert (rt_object_is_systemobject (Sem_Obj a) s1) s1
      in map_option (rt_object_detach (Sem_Obj a)) (rt_ipc_list_resume_all fuel (sem_list a) s2))"

definition rt_sem_create ::
    "nat option \<Rightarrow> string \<Rightarrow> u32 \<Rightarrow> u8 \<Rightarrow> kernel \<Rightarrow> kernel \<times> (nat \<times> rt_semaphore) option" where
  "rt_sem_create mem name val flag s =
     (let s0 = rt_assert (val < 0x10000) s;
          (s1, r) = rt_object_allocate (map_option Sem_Obj mem) RT_Object_Class_Semaphore name s0 in
      case r of
        Some (Sem_Obj a) \<Rightarrow> (rt_ipc_object_init (sem_list a) s1, Some (a, \<lparr>sem_value = ucast val, sem_flag = flag\<rparr>))
      | _ \<Rightarrow> (s1, None))"

definition rt_sem_delete :: "nat \<Rightarrow> nat \<Rightarrow> kernel \<Rightarrow> kernel option" where
  "rt_sem_delete fuel a s =
     (let s1 = rt_assert (is_sem a s) s;
          s2 = rt_assert (\<not> rt_object_is_systemobject (Sem_Obj a) s1) s1
      in map_option (rt_object_delete (Sem_Obj a)) (rt_ipc_list_resume_all fuel (sem_list a) s2))"

definition rt_sem_take_call ::
    "nat \<Rightarrow> int \<Rightarrow> rt_semaphore \<Rightarrow> kernel \<Rightarrow> kernel \<times> rt_semaphore \<times> outcome" where
  "rt_sem_take_call a time sem s =
     (let s0 = rt_assert (is_sem a s) s in
      if sem_value sem > 0 then (s0, sem\<lparr>sem_value := sem_value sem - 1\<rparr>, Return RT_EOK)
      else if time = 0 then (s0, sem, Return (- RT_ETIMEOUT))
      else case rt_thread_self s0 of
        None \<Rightarrow> (s0\<lparr>fault := True\<rparr>, sem, Return (- RT_ERROR))
      | Some thread \<Rightarrow>
          let s1 = upd_thr thread (\<lambda>x. x\<lparr>error := RT_EOK\<rparr>) s0;
              s2 = wait_on (sem_list a) thread (sem_flag sem) time s1
          in (rt_schedule s2, sem, Blocked thread))"

definition rt_sem_take_return :: "tid \<Rightarrow> kernel \<Rightarrow> rt_err" where
  "rt_sem_take_return thread s = (if error (thr s thread) \<noteq> RT_EOK then error (thr s thread) else RT_EOK)"

definition rt_sem_trytake :: "nat \<Rightarrow> rt_semaphore \<Rightarrow> kernel \<Rightarrow> kernel \<times> rt_semaphore \<times> outcome" where
  "rt_sem_trytake a sem s = rt_sem_take_call a 0 sem s"

definition rt_sem_release :: "nat \<Rightarrow> rt_semaphore \<Rightarrow> kernel \<Rightarrow> kernel \<times> rt_semaphore" where
  "rt_sem_release a sem s =
     (let s0 = rt_assert (is_sem a s) s in
      if tlists s0 (sem_list a) \<noteq> [] then (rt_schedule (rt_ipc_list_resume (sem_list a) s0), sem)
      else (s0, sem\<lparr>sem_value := sem_value sem + 1\<rparr>))"

definition rt_sem_control ::
    "nat \<Rightarrow> nat \<Rightarrow> int \<Rightarrow> u32 \<Rightarrow> rt_semaphore \<Rightarrow> kernel \<Rightarrow> (kernel \<times> rt_semaphore \<times> rt_err) option" where
  "rt_sem_control fuel a cmd arg sem s =
     (let s0 = rt_assert (is_sem a s) s in
      if cmd = RT_IPC_CMD_RESET
      then map_option (\<lambda>s1. (rt_schedule s1, sem\<lparr>sem_value := ucast arg\<rparr>, RT_EOK))
             (rt_ipc_list_resume_all fuel (sem_list a) s0)
      else Some (s0, sem, - RT_ERROR))"

section \<open>Taking and releasing\<close>

text \<open>No token is left while a thread waits.\<close>

definition sem_ok :: "nat \<Rightarrow> rt_semaphore \<Rightarrow> kernel \<Rightarrow> bool" where
  "sem_ok a sem s \<longleftrightarrow> kinv s \<and> rt_current_thread s \<noteq> None \<and> is_sem a s \<and>
     (sem_flag sem = RT_IPC_FLAG_FIFO \<or> sem_flag sem = RT_IPC_FLAG_PRIO) \<and>
     (sem_value sem > 0 \<longrightarrow> tlists s (sem_list a) = [])"

lemma sem_okD:
  assumes "sem_ok a sem s"
  shows "kinv s" "rt_current_thread s \<noteq> None" "is_sem a s"
    "sem_flag sem = RT_IPC_FLAG_FIFO \<or> sem_flag sem = RT_IPC_FLAG_PRIO"
    "sem_value sem > 0 \<Longrightarrow> tlists s (sem_list a) = []"
  using assms by (simp_all add: sem_ok_def)

lemma sem_take_blocks:
  assumes o: "sem_ok a sem s" and v: "sem_value sem = 0" and st: "tstat s t = RT_THREAD_RUNNING"
    and r: "registered t s" and b: "time < 0x7fffffff" "time \<noteq> 0"
  obtains s' where "rt_sem_take_call a time sem s = (s', sem, Blocked t)" "sem_ok a sem s'" "fault s' = fault s"
    "blocked_in (sem_list a) time s t s'" "error (thr s' t) = RT_EOK"
    "tlists s' (sem_list a) = joined (sem_flag sem) s t (tlists s (sem_list a))"
proof -
  let ?s1 = "upd_thr t (\<lambda>x. x\<lparr>error := RT_EOK\<rparr>) s"
  let ?s' = "rt_schedule (wait_on (sem_list a) t (sem_flag sem) time ?s1)"
  note O = sem_okD [OF o]
  have c: "rt_current_thread s = Some t" by (rule running_thread(4) [OF O(1) st])
  have k1: "kinv ?s1" by (rule upd_error_kinv [OF O(1)])
  have st1: "tstat ?s1 t = RT_THREAD_RUNNING" and r1: "registered t ?s1"
    using st r registered_same [of ?s1 s t] by simp_all
  note B = wt.block_state [OF k1 st1 O(4) r1 b(1), where ob = "Sem_Obj a"]
  note W = wt.wait_on_state [OF k1 st1 O(4) r1 b(1), where ob = "Sem_Obj a"]
  have e: "rt_sem_take_call a time sem s = (?s', sem, Blocked t)"
    using v b(2) O(3) c by (simp add: rt_sem_take_call_def rt_thread_self_def rt_assert_holds Let_def)
  show ?thesis
  proof (rule that [OF e])
    show "sem_ok a sem ?s'"
      using O v B(1,7) W(7) by (simp add: sem_ok_def is_sem_def rt_object_get_type_def)
    show "fault ?s' = fault s" "error (thr ?s' t) = RT_EOK" using B by simp_all
    show "blocked_in (sem_list a) time s t ?s'"
      by (rule iffD1 [OF blocked_in_cong B(3)]) simp_all
    show "tlists ?s' (sem_list a) = joined (sem_flag sem) s t (tlists s (sem_list a))"
      using B(5) joined_cong [where ?s1.0 = ?s1 and s = s] by simp
  qed
qed

lemma sem_release_wakes:
  assumes o: "sem_ok a sem s" and q: "tlists s (sem_list a) = w # ws" and r: "registered w s"
  defines "s' \<equiv> rt_schedule (rt_ipc_list_resume (sem_list a) s)"
  shows "rt_sem_release a sem s = (s', sem)" "sem_ok a sem s'" "fault s' = fault s" "awake s' w"
    "error (thr s' w) = error (thr s w)" "tlists s' (sem_list a) = ws" "sem_value sem = 0"
proof -
  note O = sem_okD [OF o]
  note R = wt.resume_first_any [OF O(1) q]
  have c: "rt_current_thread (rt_ipc_list_resume (sem_list a) s) \<noteq> None" using R(3) O(2) by simp
  note S = schedule_kinv [OF R(1) c] and A = schedule_awake [OF R(1) c R(4)]
  show "rt_sem_release a sem s = (s', sem)"
    using q O(3) by (simp add: rt_sem_release_def rt_assert_holds s'_def)
  show v: "sem_value sem = 0" using O(5) q by (metis list.distinct(1) word_neq_0_conv)
  have w: "tstat s w = RT_THREAD_SUSPEND" by (rule wt.waiter_suspended(2) [OF O(1), where ob = "Sem_Obj a"]) (simp add: q)
  have "objs (rt_ipc_list_resume (sem_list a) s) = objs s"
    using resume_state(6) [OF O(1) w] by (simp add: rt_ipc_list_resume_def q)
  then show "sem_ok a sem s'" using S O v unfolding s'_def sem_ok_def
    by (simp add: is_sem_def rt_object_get_type_def)
  show "fault s' = fault s" "awake s' w" "error (thr s' w) = error (thr s w)"
    unfolding s'_def using S A R r by simp_all
  show "tlists s' (sem_list a) = ws" unfolding s'_def
    using schedule_lists [OF R(1) c, of "sem_list a"] R(2) by simp
qed

lemma sem_reset_wakes:
  assumes o: "sem_ok a sem s" and fu: "length (tlists s (sem_list a)) < fuel"
    and r: "\<forall>t \<in> set (tlists s (sem_list a)). registered t s"
  obtains s1 where "rt_ipc_list_resume_all fuel (sem_list a) s = Some s1" "kinv s1" "tlists s1 (sem_list a) = []"
    "fault s1 = fault s" "rt_current_thread s1 = rt_current_thread s" "objs s1 = objs s"
    "\<forall>t \<in> set (tlists s (sem_list a)). awake s1 t \<and> error (thr s1 t) = - RT_ERROR"
  using wt.resume_all [OF sem_okD(1) [OF o] fu r] by metis

text \<open>A reset wakes every waiter with \<^verbatim>\<open>-RT_ERROR\<close> and installs the new count.\<close>

lemma sem_control_reset:
  assumes o: "sem_ok a sem s" and fu: "length (tlists s (sem_list a)) < fuel"
    and r: "\<forall>t \<in> set (tlists s (sem_list a)). registered t s"
  obtains s' where "rt_sem_control fuel a RT_IPC_CMD_RESET arg sem s = Some (s', sem\<lparr>sem_value := ucast arg\<rparr>, RT_EOK)"
    "sem_ok a (sem\<lparr>sem_value := ucast arg\<rparr>) s'" "fault s' = fault s"
    "\<forall>t \<in> set (tlists s (sem_list a)). awake s' t \<and> rt_sem_take_return t s' = - RT_ERROR"
proof -
  obtain s1 where s1: "rt_ipc_list_resume_all fuel (sem_list a) s = Some s1" "kinv s1" "tlists s1 (sem_list a) = []"
    "fault s1 = fault s" "rt_current_thread s1 = rt_current_thread s" "objs s1 = objs s"
    "\<forall>t \<in> set (tlists s (sem_list a)). awake s1 t \<and> error (thr s1 t) = - RT_ERROR"
    by (rule sem_reset_wakes [OF o fu r])
  note O = sem_okD [OF o]
  have c: "rt_current_thread s1 \<noteq> None" using s1(5) O(2) by simp
  note S = schedule_kinv [OF s1(2) c] and A = schedule_awake [OF s1(2) c]
  show ?thesis
  proof (rule that [of "rt_schedule s1"])
    show "rt_sem_control fuel a RT_IPC_CMD_RESET arg sem s = Some (rt_schedule s1, sem\<lparr>sem_value := ucast arg\<rparr>, RT_EOK)"
      using O(3) s1(1) by (simp add: rt_sem_control_def rt_assert_holds)
    show "sem_ok a (sem\<lparr>sem_value := ucast arg\<rparr>) (rt_schedule s1)"
      using S O s1(3,6) schedule_lists [OF s1(2) c, of "sem_list a"]
      by (simp add: sem_ok_def is_sem_def rt_object_get_type_def)
    show "fault (rt_schedule s1) = fault s" using S(2) s1(4) by simp
    show "\<forall>t \<in> set (tlists s (sem_list a)). awake (rt_schedule s1) t \<and> rt_sem_take_return t (rt_schedule s1) = - RT_ERROR"
      using A s1(7) by (auto simp: rt_sem_take_return_def rt_err_defs)
  qed
qed

section \<open>Histories\<close>

text \<open>The states a semaphore goes through: \<open>released\<close> counts the calls of \<^verbatim>\<open>rt_sem_release\<close> and
  \<open>granted\<close> the tokens handed out, either by a \<^verbatim>\<open>rt_sem_take\<close> that returns at once or by waking
  a waiter.  In between the rest of the kernel may do anything that keeps the kernel invariant
  and adds no waiter, a timeout of waiters included.\<close>

inductive sem_reach :: "nat \<Rightarrow> u16 \<Rightarrow> rt_semaphore \<Rightarrow> kernel \<Rightarrow> nat \<Rightarrow> nat \<Rightarrow> bool" for a init where
  start: "\<lbrakk>sem_ok a sem s; sem_value sem = init; tlists s (sem_list a) = []\<rbrakk> \<Longrightarrow> sem_reach a init sem s 0 0"
| take: "\<lbrakk>sem_reach a init sem s released granted; tstat s t = RT_THREAD_RUNNING; registered t s;
    time < 0x7fffffff; rt_sem_take_call a time sem s = (s', sem', out)\<rbrakk>
    \<Longrightarrow> sem_reach a init sem' s' released (if out = Return RT_EOK then granted + 1 else granted)"
| release: "\<lbrakk>sem_reach a init sem s released granted; \<forall>t \<in> set (tlists s (sem_list a)). registered t s;
    rt_sem_release a sem s = (s', sem')\<rbrakk>
    \<Longrightarrow> sem_reach a init sem' s' (released + 1) (if tlists s (sem_list a) \<noteq> [] then granted + 1 else granted)"
| other: "\<lbrakk>sem_reach a init sem s released granted; kinv s'; rt_current_thread s' \<noteq> None; is_sem a s';
    set (tlists s' (sem_list a)) \<subseteq> set (tlists s (sem_list a))\<rbrakk> \<Longrightarrow> sem_reach a init sem s' released granted"

lemma sem_take_available:
  assumes "sem_ok a sem s" "sem_value sem > 0"
  shows "rt_sem_take_call a time sem s = (s, sem\<lparr>sem_value := sem_value sem - 1\<rparr>, Return RT_EOK)"
    "sem_ok a (sem\<lparr>sem_value := sem_value sem - 1\<rparr>) s"
  using assms by (auto simp: rt_sem_take_call_def sem_ok_def rt_assert_holds)

lemma sem_take_refused:
  assumes "sem_ok a sem s" "sem_value sem = 0"
  shows "rt_sem_take_call a 0 sem s = (s, sem, Return (- RT_ETIMEOUT))"
  using assms by (simp add: rt_sem_take_call_def sem_ok_def rt_assert_holds)

lemma sem_release_counts:
  assumes "sem_ok a sem s" "tlists s (sem_list a) = []"
  shows "rt_sem_release a sem s = (s, sem\<lparr>sem_value := sem_value sem + 1\<rparr>)"
    "sem_ok a (sem\<lparr>sem_value := sem_value sem + 1\<rparr>) s"
  using assms by (simp_all add: rt_sem_release_def sem_ok_def rt_assert_holds)

lemma sem_reach_account:
  assumes "sem_reach a init sem s released granted" "unat init + released < 2 ^ 16"
  shows "sem_ok a sem s \<and> unat (sem_value sem) + granted = unat init + released"
  using assms
proof (induction)
  case (take sem s released granted t time s' sem' out)
  then have o: "sem_ok a sem s" and n: "unat (sem_value sem) + granted = unat init + released" by simp_all
  consider (av) "sem_value sem > 0" | (no) "sem_value sem = 0" "time = 0" | (bl) "sem_value sem = 0" "time \<noteq> 0"
    using word_gt_0 by auto
  then show ?case
  proof cases
    case av
    have "unat (sem_value sem - 1) = unat (sem_value sem) - 1"
      using av by (simp add: unat_minus_one)
    moreover have "0 < unat (sem_value sem)" using av by (simp add: unat_gt_0)
    ultimately show ?thesis using sem_take_available [OF o av] take.hyps(5) n by auto
  next
    case no
    then show ?thesis using sem_take_refused [OF o no(1)] take.hyps(5) o n by (auto simp: rt_err_defs)
  next
    case bl
    show ?thesis
      by (rule sem_take_blocks [OF o bl(1) take.hyps(2-4) bl(2)]) (use take.hyps(5) n in auto)
  qed
next
  case (release sem s released granted s' sem')
  then have o: "sem_ok a sem s" and n: "unat (sem_value sem) + granted = unat init + released" by simp_all
  show ?case
  proof (cases "tlists s (sem_list a)")
    case Nil
    have "unat (sem_value sem) + 1 < 2 ^ 16" using release.prems n by simp
    then have "unat (sem_value sem + 1) = unat (sem_value sem) + 1" by (simp add: unat_word_ariths)
    then show ?thesis using sem_release_counts [OF o Nil] release.hyps(3) n Nil by auto
  next
    case (Cons w ws)
    then have "registered w s" using release.hyps(2) by simp
    then show ?thesis using sem_release_wakes(1,2) [OF o Cons] release.hyps(3) n Cons by auto
  qed
next
  case (other sem s released granted s')
  then show ?case by (auto simp: sem_ok_def)
qed simp

section \<open>Properties\<close>

text \<open>Taking a semaphore.  For the running thread \<^verbatim>\<open>rt_sem_take\<close> takes a token if there is one,
  refuses with \<^verbatim>\<open>-RT_ETIMEOUT\<close> if the caller does not want to wait, and otherwise blocks the caller
  in the waiting list, at the end or behind the waiters of at least its priority according to
  the flag, with the timeout armed for a bounded wait; no other outcome exists, the kernel and
  semaphore invariant is kept and no fault is raised.\<close>

theorem rt_sem_take_correct:
  assumes o: "sem_ok a sem s" and st: "tstat s t = RT_THREAD_RUNNING" and r: "registered t s"
    and b: "time < 0x7fffffff"
  shows "(sem_value sem > 0 \<longrightarrow>
       rt_sem_take_call a time sem s = (s, sem\<lparr>sem_value := sem_value sem - 1\<rparr>, Return RT_EOK)) \<and>
    (sem_value sem = 0 \<and> time = 0 \<longrightarrow> rt_sem_take_call a time sem s = (s, sem, Return (- RT_ETIMEOUT))) \<and>
    (sem_value sem = 0 \<and> time \<noteq> 0 \<longrightarrow>
       (\<exists>s'. rt_sem_take_call a time sem s = (s', sem, Blocked t) \<and> sem_ok a sem s' \<and> fault s' = fault s \<and>
          blocked_in (sem_list a) time s t s' \<and>
          tlists s' (sem_list a) =
            (if sem_flag sem = RT_IPC_FLAG_FIFO then tlists s (sem_list a) @ [t]
             else prio_insert (\<lambda>u. current_priority (thr s u)) t (tlists s (sem_list a)))))"
proof -
  have "\<exists>s'. rt_sem_take_call a time sem s = (s', sem, Blocked t) \<and> sem_ok a sem s' \<and> fault s' = fault s \<and>
      blocked_in (sem_list a) time s t s' \<and>
      tlists s' (sem_list a) = joined (sem_flag sem) s t (tlists s (sem_list a))"
    if "sem_value sem = 0" "time \<noteq> 0"
    by (rule sem_take_blocks [OF o that(1) st r b that(2)]) blast
  then show ?thesis using sem_take_available(1) [OF o] sem_take_refused [OF o] by (auto simp: joined_def)
qed

lemma demo_sem_ok:
  "sem_ok a \<lparr>sem_value = 0, sem_flag = 0\<rparr> (demo_wait (Sem_Obj a))" "sem_ok a \<lparr>sem_value = 3, sem_flag = 0\<rparr> demo_typed"
  by (simp_all add: sem_ok_def demo_wait_kinv demo_wait_facts demo_typed_kinv demo_typed_facts is_sem_def
      rt_object_get_type_def demo_objs_def RT_Object_Class_Static_def RT_Object_Class_Semaphore_def)
     (simp_all add: demo_typed_def demo_base_def kernel0_def demo_objs_def)

theorem rt_sem_take_correct_witness:
  "\<exists>s'. rt_sem_take_call 7 100 \<lparr>sem_value = 0, sem_flag = 0\<rparr> (demo_wait (Sem_Obj 7)) =
     (s', \<lparr>sem_value = 0, sem_flag = 0\<rparr>, Blocked 1) \<and> tlists s' (sem_list 7) = [2, 1]"
  using rt_sem_take_correct [OF demo_sem_ok(1) demo_wait_facts(4) demo_wait_registered, of 100 7]
  by (auto simp: demo_wait_facts)

text \<open>Releasing a semaphore.  If threads wait, \<^verbatim>\<open>rt_sem_release\<close> wakes exactly the first one, whose
  pending \<^verbatim>\<open>rt_sem_take\<close> then returns \<^verbatim>\<open>RT_EOK\<close>, and leaves the count alone; otherwise it adds one
  to the 16-bit count, which wraps from 65535 to 0.\<close>

theorem rt_sem_release_correct:
  assumes o: "sem_ok a sem s" and r: "\<forall>t \<in> set (tlists s (sem_list a)). registered t s \<and> error (thr s t) = RT_EOK"
  defines "s' \<equiv> fst (rt_sem_release a sem s)" and "sem' \<equiv> snd (rt_sem_release a sem s)"
  shows "sem_ok a sem' s' \<and> fault s' = fault s \<and>
    (case tlists s (sem_list a) of
       [] \<Rightarrow> s' = s \<and> unat (sem_value sem') = (unat (sem_value sem) + 1) mod 65536
     | w # ws \<Rightarrow> sem' = sem \<and> tlists s' (sem_list a) = ws \<and> awake s' w \<and> rt_sem_take_return w s' = RT_EOK)"
proof (cases "tlists s (sem_list a)")
  case Nil
  then show ?thesis using sem_release_counts [OF o Nil] unfolding s'_def sem'_def
    by (simp add: unat_word_ariths)
next
  case (Cons w ws)
  then have "registered w s" "error (thr s w) = RT_EOK" using r by simp_all
  then show ?thesis using sem_release_wakes [OF o Cons] Cons unfolding s'_def sem'_def
    by (simp add: rt_sem_take_return_def)
qed

theorem rt_sem_release_correct_witness:
  "rt_sem_take_return 2 (fst (rt_sem_release 7 \<lparr>sem_value = 0, sem_flag = 0\<rparr> (demo_wait (Sem_Obj 7)))) = RT_EOK"
  using rt_sem_release_correct [OF demo_sem_ok(1), of 7]
  by (simp add: demo_wait_facts demo_wait_registered)

text \<open>C29: Tokens are conserved.  In every state a semaphore reaches through takes, releases, timeouts
  and steps of the kernel that keep its invariant and the semaphore and add no waiter (resets of the semaphore are
  not part of a history), as long as initial count and releases together stay below 65536,
  the count plus the tokens granted is the initial count plus the releases, and no thread waits
  while a token is left.\<close>

theorem rt_sem_tokens_conserved:
  assumes "sem_reach a init sem s released granted" "unat init + released < 2 ^ 16"
  shows "unat (sem_value sem) + granted = unat init + released \<and>
    (sem_value sem > 0 \<longrightarrow> tlists s (sem_list a) = []) \<and> kinv s"
  using sem_reach_account [OF assms] by (simp add: sem_ok_def)

theorem rt_sem_tokens_conserved_witness:
  "\<exists>sem s. sem_reach 7 3 sem s 1 0 \<and> unat (sem_value sem) + 0 = unat (3::u16) + 1 \<and> kinv s"
proof -
  let ?sem = "\<lparr>sem_value = 3, sem_flag = 0\<rparr>" and ?sem' = "\<lparr>sem_value = 4, sem_flag = 0\<rparr>"
  have e: "tlists demo_typed (sem_list 7) = []" by (simp add: demo_typed_def demo_base_def kernel0_def)
  have "sem_reach 7 3 ?sem demo_typed 0 0" by (rule sem_reach.start [OF demo_sem_ok(2)]) (simp_all add: e)
  moreover have "rt_sem_release 7 ?sem demo_typed = (demo_typed, ?sem')"
    using sem_release_counts(1) [OF demo_sem_ok(2) e] by simp
  ultimately have "sem_reach 7 3 ?sem' demo_typed 1 0"
    using sem_reach.release [of 7 3 ?sem demo_typed 0 0 demo_typed ?sem'] e by simp
  then show ?thesis using rt_sem_tokens_conserved [of 7 3 ?sem' demo_typed 1 0]
    by (intro exI [of _ ?sem'] exI [of _ demo_typed]) simp
qed

end
