(* ===== verification/Mutex.thy ===== *)
theory Mutex
  imports Ipc
begin

text \<open>
  The recursive mutex of \<^verbatim>\<open>rt-thread/src/ipc.c\<close> with priority inheritance: while a thread waits,
  the owner runs at least at the waiter's priority, and it gets its own priority back when it
  releases the mutex.
\<close>

section \<open>Definitions\<close>

record rt_mutex =
  mutex_value :: u16
  original_priority :: u8
  hold :: u8
  owner :: "tid option"
  mutex_flag :: u8

abbreviation mutex_list :: "nat \<Rightarrow> lid" where "mutex_list a \<equiv> Suspend_Thread (Mutex_Obj a)"

definition is_mutex :: "nat \<Rightarrow> kernel \<Rightarrow> bool" where
  "is_mutex a s \<longleftrightarrow> rt_object_get_type (Mutex_Obj a) s = RT_Object_Class_Mutex"

definition mutex_fresh :: "u8 \<Rightarrow> rt_mutex" where
  "mutex_fresh flag = \<lparr>mutex_value = 1, original_priority = 0xFF, hold = 0, owner = None, mutex_flag = flag\<rparr>"

definition rt_mutex_init :: "nat \<Rightarrow> string \<Rightarrow> u8 \<Rightarrow> kernel \<Rightarrow> kernel \<times> rt_mutex" where
  "rt_mutex_init a name flag s =
     (rt_ipc_object_init (mutex_list a) (rt_object_init (Mutex_Obj a) RT_Object_Class_Mutex name s), mutex_fresh flag)"

definition rt_mutex_detach :: "nat \<Rightarrow> nat \<Rightarrow> kernel \<Rightarrow> kernel option" where
  "rt_mutex_detach fuel a s =
     (let s1 = rt_assert (is_mutex a s) s;
          s2 = rt_assert (rt_object_is_systemobject (Mutex_Obj a) s1) s1
      in map_option (rt_object_detach (Mutex_Obj a)) (rt_ipc_list_resume_all fuel (mutex_list a) s2))"

definition rt_mutex_create :: "nat option \<Rightarrow> string \<Rightarrow> u8 \<Rightarrow> kernel \<Rightarrow> kernel \<times> (nat \<times> rt_mutex) option" where
  "rt_mutex_create mem name flag s =
     (let (s1, r) = rt_object_allocate (map_option Mutex_Obj mem) RT_Object_Class_Mutex name s in
      case r of
        Some (Mutex_Obj a) \<Rightarrow> (rt_ipc_object_init (mutex_list a) s1, Some (a, mutex_fresh flag))
      | _ \<Rightarrow> (s1, None))"

definition rt_mutex_delete :: "nat \<Rightarrow> nat \<Rightarrow> kernel \<Rightarrow> kernel option" where
  "rt_mutex_delete fuel a s =
     (let s1 = rt_assert (is_mutex a s) s;
          s2 = rt_assert (\<not> rt_object_is_systemobject (Mutex_Obj a) s1) s1
      in map_option (rt_object_delete (Mutex_Obj a)) (rt_ipc_list_resume_all fuel (mutex_list a) s2))"

text \<open>\<^verbatim>\<open>rt_mutex_take\<close> from its label \<^verbatim>\<open>__again\<close> on, up to the schedule.\<close>

definition mutex_again ::
    "nat \<Rightarrow> int \<Rightarrow> tid \<Rightarrow> rt_mutex \<Rightarrow> kernel \<Rightarrow> kernel \<times> rt_mutex \<times> outcome" where
  "mutex_again a time thread mutex s =
     (if mutex_value mutex > 0
      then (s, mutex\<lparr>mutex_value := mutex_value mutex - 1, owner := Some thread,
                original_priority := current_priority (thr s thread), hold := hold mutex + 1\<rparr>, Return RT_EOK)
      else if time = 0
      then (upd_thr thread (\<lambda>x. x\<lparr>error := - RT_ETIMEOUT\<rparr>) s, mutex, Return (- RT_ETIMEOUT))
      else case owner mutex of
        None \<Rightarrow> (s\<lparr>fault := True\<rparr>, mutex, Return (- RT_ERROR))
      | Some ow \<Rightarrow>
          let s1 = (if current_priority (thr s thread) < current_priority (thr s ow)
                    then fst (rt_thread_control ow 2 (current_priority (thr s thread)) s) else s);
              s2 = wait_on (mutex_list a) thread (mutex_flag mutex) time s1
          in (rt_schedule s2, mutex, Blocked thread))"

definition rt_mutex_take_call ::
    "nat \<Rightarrow> int \<Rightarrow> rt_mutex \<Rightarrow> kernel \<Rightarrow> kernel \<times> rt_mutex \<times> outcome" where
  "rt_mutex_take_call a time mutex s =
     (let s0 = rt_assert (is_mutex a s) s in
      case rt_thread_self s0 of
        None \<Rightarrow> (s0\<lparr>fault := True\<rparr>, mutex, Return (- RT_ERROR))
      | Some thread \<Rightarrow>
          let s1 = upd_thr thread (\<lambda>x. x\<lparr>error := RT_EOK\<rparr>) s0 in
          if owner mutex = Some thread then (s1, mutex\<lparr>hold := hold mutex + 1\<rparr>, Return RT_EOK)
          else mutex_again a time thread mutex s1)"

definition rt_mutex_take_return ::
    "nat \<Rightarrow> int \<Rightarrow> tid \<Rightarrow> rt_mutex \<Rightarrow> kernel \<Rightarrow> kernel \<times> rt_mutex \<times> outcome" where
  "rt_mutex_take_return a time thread mutex s =
     (if error (thr s thread) \<noteq> RT_EOK
      then if error (thr s thread) = - RT_EINTR then mutex_again a time thread mutex s
           else (s, mutex, Return (error (thr s thread)))
      else (s, mutex, Return RT_EOK))"

definition rt_mutex_release :: "nat \<Rightarrow> rt_mutex \<Rightarrow> kernel \<Rightarrow> kernel \<times> rt_mutex \<times> rt_err" where
  "rt_mutex_release a mutex s =
     (let s0 = rt_assert (is_mutex a s) s in
      case rt_thread_self s0 of
        None \<Rightarrow> (s0\<lparr>fault := True\<rparr>, mutex, - RT_ERROR)
      | Some thread \<Rightarrow>
          if owner mutex \<noteq> Some thread
          then (upd_thr thread (\<lambda>x. x\<lparr>error := - RT_ERROR\<rparr>) s0, mutex, - RT_ERROR)
          else
            let mutex1 = mutex\<lparr>hold := hold mutex - 1\<rparr> in
            if hold mutex1 \<noteq> 0 then (s0, mutex1, RT_EOK)
            else
              let s1 = (if original_priority mutex1 \<noteq> current_priority (thr s0 thread)
                        then fst (rt_thread_control thread 2 (original_priority mutex1) s0) else s0)
              in case tlists s1 (mutex_list a) of
                   w # _ \<Rightarrow>
                     (rt_schedule (rt_ipc_list_resume (mutex_list a) s1),
                      mutex1\<lparr>owner := Some w, original_priority := current_priority (thr s1 w), hold := hold mutex1 + 1\<rparr>,
                      RT_EOK)
                 | [] \<Rightarrow>
                     (s1, mutex1\<lparr>mutex_value := mutex_value mutex1 + 1, owner := None, original_priority := 0xff\<rparr>, RT_EOK))"

definition rt_mutex_control :: "nat \<Rightarrow> kernel \<Rightarrow> kernel \<times> rt_err" where
  "rt_mutex_control a s = (rt_assert (is_mutex a s) s, - RT_ERROR)"

section \<open>Changing a priority\<close>

lemma change_priority_state:
  fixes t :: tid
  assumes k: "kinv s" and p: "unat prio < 32"
  defines "s' \<equiv> change_priority t prio s"
  shows "kinv s'" "current_priority (thr s' t) = prio" "\<And>u. u \<noteq> t \<Longrightarrow> thr s' u = thr s u"
    "tstat s' u = tstat s u" "error (thr s' u) = error (thr s u)"
    "\<And>l. (\<And>q. l \<noteq> Ready q) \<Longrightarrow> tlists s' l = tlists s l"
    "rt_current_thread s' = rt_current_thread s" "rt_scheduler_lock_nest s' = rt_scheduler_lock_nest s"
    "rt_tick s' = rt_tick s" "objs s' = objs s" "tmr s' = tmr s" "fault s' = fault s"
proof -
  have n: "tstat s t \<noteq> RT_THREAD_READY \<or> rt_current_thread s \<noteq> Some t"
    using kinv_butD(5) [OF k [unfolded kinv_def], of t] by (auto simp: thread_ok_def Let_def)
  show "kinv s'" unfolding s'_def by (rule change_priority_kinv [OF k p])
  have r: "tlist (thr s t) = Some l \<Longrightarrow> \<exists>q. l = Ready q" if "tstat s t = RT_THREAD_READY" for l
    using kinv_butD(5) [OF k [unfolded kinv_def], of t] that
    by (auto simp: thread_ok_def node_ok_def Let_def split: lid.splits)
  show "current_priority (thr s' t) = prio" "\<And>u. u \<noteq> t \<Longrightarrow> thr s' u = thr s u"
    "tstat s' u = tstat s u" "error (thr s' u) = error (thr s u)"
    "\<And>l. (\<And>q. l \<noteq> Ready q) \<Longrightarrow> tlists s' l = tlists s l"
    "rt_current_thread s' = rt_current_thread s" "rt_scheduler_lock_nest s' = rt_scheduler_lock_nest s"
    "rt_tick s' = rt_tick s" "objs s' = objs s" "tmr s' = tmr s" "fault s' = fault s"
    unfolding s'_def change_priority_def using n r
    by (auto simp: set_priority_def insert_thread_simps Let_def)
qed

section \<open>The invariant\<close>

text \<open>Free, or owned by one thread that does not wait for the mutex itself.\<close>

definition mutex_ok :: "nat \<Rightarrow> rt_mutex \<Rightarrow> kernel \<Rightarrow> bool" where
  "mutex_ok a m s \<longleftrightarrow> kinv s \<and> rt_current_thread s \<noteq> None \<and> is_mutex a s \<and>
     (mutex_flag m = RT_IPC_FLAG_FIFO \<or> mutex_flag m = RT_IPC_FLAG_PRIO) \<and>
     (case owner m of
        None \<Rightarrow> mutex_value m = 1 \<and> hold m = 0 \<and> tlists s (mutex_list a) = []
      | Some ow \<Rightarrow> mutex_value m = 0 \<and> hold m \<noteq> 0 \<and> unat (original_priority m) < 32 \<and>
          ow \<notin> set (tlists s (mutex_list a)) \<and> registered ow s)"

text \<open>Priority inheritance: no waiter outranks the owner.\<close>

definition inherits :: "nat \<Rightarrow> rt_mutex \<Rightarrow> kernel \<Rightarrow> bool" where
  "inherits a m s \<longleftrightarrow> (\<forall>ow. owner m = Some ow \<longrightarrow>
     (\<forall>w \<in> set (tlists s (mutex_list a)). current_priority (thr s ow) \<le> current_priority (thr s w)))"

lemma mutex_okD:
  assumes "mutex_ok a m s"
  shows "kinv s" "rt_current_thread s \<noteq> None" "is_mutex a s"
    "mutex_flag m = RT_IPC_FLAG_FIFO \<or> mutex_flag m = RT_IPC_FLAG_PRIO"
    "owner m = None \<Longrightarrow> mutex_value m = 1 \<and> hold m = 0 \<and> tlists s (mutex_list a) = []"
    "owner m = Some ow \<Longrightarrow> mutex_value m = 0 \<and> hold m \<noteq> 0 \<and> unat (original_priority m) < 32 \<and>
       ow \<notin> set (tlists s (mutex_list a)) \<and> registered ow s"
  using assms by (simp_all add: mutex_ok_def)

lemma schedule_priority:
  assumes "kinv s" "rt_current_thread s \<noteq> None"
  shows "current_priority (thr (rt_schedule s) t) = current_priority (thr s t)"
  using schedule_thr_fields [OF assms, of t] by auto

lemma is_mutex_objs: "objs s' = objs s \<Longrightarrow> is_mutex a s \<Longrightarrow> is_mutex a s'"
  by (simp add: is_mutex_def rt_object_get_type_def)

text \<open>Raising the owner to the priority of a waiter.\<close>

definition boosted :: "tid \<Rightarrow> tid \<Rightarrow> kernel \<Rightarrow> kernel" where
  "boosted t ow s = (if current_priority (thr s t) < current_priority (thr s ow)
     then fst (rt_thread_control ow 2 (current_priority (thr s t)) s) else s)"

lemma boosted_state:
  assumes k: "kinv s" and st: "tstat s t = RT_THREAD_RUNNING" and r: "registered ow s" and d: "ow \<noteq> t"
  defines "s' \<equiv> boosted t ow s"
  shows "kinv s'" "current_priority (thr s' ow) = min (current_priority (thr s t)) (current_priority (thr s ow))"
    "\<And>u. u \<noteq> ow \<Longrightarrow> thr s' u = thr s u" "\<And>u. tstat s' u = tstat s u" "error (thr s' u) = error (thr s u)"
    "\<And>l. (\<And>q. l \<noteq> Ready q) \<Longrightarrow> tlists s' l = tlists s l"
    "rt_current_thread s' = rt_current_thread s" "rt_scheduler_lock_nest s' = rt_scheduler_lock_nest s"
    "rt_tick s' = rt_tick s" "objs s' = objs s" "tmr s' = tmr s" "fault s' = fault s"
proof -
  have p: "unat (current_priority (thr s t)) < 32"
    using running_thread(2) [OF k st] by (simp add: mask_ok_def)
  have e: "s' = (if current_priority (thr s t) < current_priority (thr s ow)
      then change_priority ow (current_priority (thr s t)) s else s)"
    using registeredD(1) [OF r] by (simp add: s'_def boosted_def rt_thread_control_def)
  note C = change_priority_state [OF k p, where t = ow]
  show "kinv s'" "current_priority (thr s' ow) = min (current_priority (thr s t)) (current_priority (thr s ow))"
    "\<And>u. u \<noteq> ow \<Longrightarrow> thr s' u = thr s u" "\<And>u. tstat s' u = tstat s u" "error (thr s' u) = error (thr s u)"
    "\<And>l. (\<And>q. l \<noteq> Ready q) \<Longrightarrow> tlists s' l = tlists s l"
    "rt_current_thread s' = rt_current_thread s" "rt_scheduler_lock_nest s' = rt_scheduler_lock_nest s"
    "rt_tick s' = rt_tick s" "objs s' = objs s" "tmr s' = tmr s" "fault s' = fault s"
    unfolding e using C k by (simp_all add: min_def)
qed

lemma mutex_take_blocks:
  assumes o: "mutex_ok a m s" and ow: "owner m = Some ow" "ow \<noteq> t" and st: "tstat s t = RT_THREAD_RUNNING"
    and r: "registered t s" and b: "time < 0x7fffffff" "time \<noteq> 0"
  obtains s' where "rt_mutex_take_call a time m s = (s', m, Blocked t)" "mutex_ok a m s'" "fault s' = fault s"
    "blocked_in (mutex_list a) time s t s'"
    "tlists s' (mutex_list a) = joined (mutex_flag m) s t (tlists s (mutex_list a))"
    "current_priority (thr s' ow) = min (current_priority (thr s t)) (current_priority (thr s ow))"
    "\<forall>u. u \<noteq> ow \<longrightarrow> current_priority (thr s' u) = current_priority (thr s u)"
proof -
  let ?s1 = "upd_thr t (\<lambda>x. x\<lparr>error := RT_EOK\<rparr>) s"
  let ?s2 = "boosted t ow ?s1"
  let ?s3 = "wait_on (mutex_list a) t (mutex_flag m) time ?s2"
  note O = mutex_okD [OF o]
  have m: "mutex_value m = 0" "hold m \<noteq> 0" "unat (original_priority m) < 32" "registered ow s"
    "ow \<notin> set (tlists s (mutex_list a))"
    using O(6) [OF ow(1)] by simp_all
  have c: "rt_current_thread s = Some t" by (rule running_thread(4) [OF O(1) st])
  have k1: "kinv ?s1" by (rule upd_error_kinv [OF O(1)])
  have r1: "registered u ?s1 = registered u s" for u using registered_same [of ?s1 s u] by simp
  have st1: "tstat ?s1 t = RT_THREAD_RUNNING" "registered ow ?s1" using st m(4) by (simp_all add: r1)
  note S = boosted_state [OF k1 st1 ow(2)]
  have r2: "registered u ?s2 = registered u s" for u using registered_same [OF S(10,11), of u] r1 by simp
  have st2: "tstat ?s2 t = RT_THREAD_RUNNING" "registered t ?s2" using st1 S(4) r r2 by simp_all
  note B = wt.block_state [OF S(1) st2(1) O(4) st2(2) b(1), where ob = "Mutex_Obj a"]
  note W = wt.wait_on_state [OF S(1) st2(1) O(4) st2(2) b(1), where ob = "Mutex_Obj a"]
  have e: "rt_mutex_take_call a time m s = (rt_schedule ?s3, m, Blocked t)"
    using m(1) b(2) O(3) c ow by (simp add: rt_mutex_take_call_def rt_thread_self_def rt_assert_holds Let_def
        mutex_again_def boosted_def)
  have cp: "current_priority (thr (rt_schedule ?s3) u) = current_priority (thr ?s2 u)" for u
    using schedule_priority [OF W(1), of u] W(2,4) by simp
  have tl: "tlists ?s2 (mutex_list a) = tlists s (mutex_list a)" using S(6) by simp
  have j: "tlists (rt_schedule ?s3) (mutex_list a) = joined (mutex_flag m) s t (tlists s (mutex_list a))"
    unfolding B(5) tl
  proof (rule joined_cong)
    fix u assume "u \<in> insert t (set (tlists s (mutex_list a)))"
    then have "u \<noteq> ow" using m(5) ow(2) by auto
    then show "current_priority (thr ?s2 u) = current_priority (thr s u)" by (simp add: S(3))
  qed
  show ?thesis
  proof (rule that [OF e])
    show "tlists (rt_schedule ?s3) (mutex_list a) = joined (mutex_flag m) s t (tlists s (mutex_list a))" by (rule j)
    show "mutex_ok a m (rt_schedule ?s3)"
      using O(3,4) m ow j B(1,7,8) r2 is_mutex_objs [of "rt_schedule ?s3" s a] W(7) S(10) by (simp add: mutex_ok_def)
    show "fault (rt_schedule ?s3) = fault s" using B(2) S(12) by simp
    show "blocked_in (mutex_list a) time s t (rt_schedule ?s3)"
      by (rule iffD1 [OF blocked_in_cong B(3)]) (use S(4,8,9) in simp_all)
    show "current_priority (thr (rt_schedule ?s3) ow) = min (current_priority (thr s t)) (current_priority (thr s ow))"
      unfolding cp S(2) using ow(2) by simp
    show "\<forall>u. u \<noteq> ow \<longrightarrow> current_priority (thr (rt_schedule ?s3) u) = current_priority (thr s u)"
      unfolding cp using S(3) by simp
  qed
qed

lemma mutex_take_free:
  assumes o: "mutex_ok a m s" and ow: "owner m = None" and st: "tstat s t = RT_THREAD_RUNNING" and r: "registered t s"
  defines "s' \<equiv> upd_thr t (\<lambda>x. x\<lparr>error := RT_EOK\<rparr>) s"
  defines "m' \<equiv> m\<lparr>mutex_value := 0, owner := Some t, original_priority := current_priority (thr s t), hold := 1\<rparr>"
  shows "rt_mutex_take_call a time m s = (s', m', Return RT_EOK)" "mutex_ok a m' s'"
proof -
  note O = mutex_okD [OF o]
  have c: "rt_current_thread s = Some t" and mk: "mask_ok (thr s t)" by (rule running_thread [OF O(1) st])+
  have m: "mutex_value m = 1" "hold m = 0" "tlists s (mutex_list a) = []" using O(5) [OF ow] by simp_all
  show "rt_mutex_take_call a time m s = (s', m', Return RT_EOK)"
    using m O(3) c ow by (simp add: rt_mutex_take_call_def rt_thread_self_def rt_assert_holds Let_def
        mutex_again_def s'_def m'_def)
  have "registered t s'" unfolding s'_def using r registered_same [of "upd_thr t (\<lambda>x. x\<lparr>error := RT_EOK\<rparr>) s" s t] by simp
  then show "mutex_ok a m' s'"
    using O(3,4) m c mk upd_error_kinv [OF O(1), of t RT_EOK] is_mutex_objs [of s' s a]
    by (simp add: mutex_ok_def m'_def s'_def mask_ok_def)
qed

lemma mutex_take_owned:
  assumes o: "mutex_ok a m s" and ow: "owner m = Some t" and st: "tstat s t = RT_THREAD_RUNNING"
    and h: "hold m \<noteq> 0xff"
  defines "s' \<equiv> upd_thr t (\<lambda>x. x\<lparr>error := RT_EOK\<rparr>) s"
  shows "rt_mutex_take_call a time m s = (s', m\<lparr>hold := hold m + 1\<rparr>, Return RT_EOK)"
    "mutex_ok a (m\<lparr>hold := hold m + 1\<rparr>) s'"
proof -
  note O = mutex_okD [OF o]
  have c: "rt_current_thread s = Some t" by (rule running_thread [OF O(1) st])
  show "rt_mutex_take_call a time m s = (s', m\<lparr>hold := hold m + 1\<rparr>, Return RT_EOK)"
    using O(3) c ow by (simp add: rt_mutex_take_call_def rt_thread_self_def rt_assert_holds Let_def s'_def)
  have "hold m + 1 \<noteq> 0" 
  proof
    assume "hold m + 1 = 0"
    then have "hold m = - 1" by (simp add: add_eq_0_iff2)
    also have "\<dots> = 0xff" by simp
    finally show False using h by simp
  qed
  then show "mutex_ok a (m\<lparr>hold := hold m + 1\<rparr>) s'"
    using O(3,4) O(6) [OF ow] c ow upd_error_kinv [OF O(1), of t RT_EOK] is_mutex_objs [of s' s a]
      registered_same [of s' s t]
    by (simp add: mutex_ok_def s'_def)
qed

section \<open>Releasing\<close>

text \<open>The owner with its own priority again.\<close>

definition restored :: "tid \<Rightarrow> u8 \<Rightarrow> kernel \<Rightarrow> kernel" where
  "restored t prio s = (if prio \<noteq> current_priority (thr s t) then fst (rt_thread_control t 2 prio s) else s)"

lemma restored_state:
  assumes k: "kinv s" and p: "unat prio < 32" and r: "registered t s"
  defines "s' \<equiv> restored t prio s"
  shows "kinv s'" "current_priority (thr s' t) = prio" "\<And>u. u \<noteq> t \<Longrightarrow> thr s' u = thr s u"
    "\<And>u. tstat s' u = tstat s u" "\<And>u. error (thr s' u) = error (thr s u)"
    "\<And>l. (\<And>q. l \<noteq> Ready q) \<Longrightarrow> tlists s' l = tlists s l"
    "rt_current_thread s' = rt_current_thread s" "rt_scheduler_lock_nest s' = rt_scheduler_lock_nest s"
    "rt_tick s' = rt_tick s" "objs s' = objs s" "tmr s' = tmr s" "fault s' = fault s"
proof -
  have e: "s' = (if prio \<noteq> current_priority (thr s t) then change_priority t prio s else s)"
    using registeredD(1) [OF r] by (simp add: s'_def restored_def rt_thread_control_def)
  note C = change_priority_state [OF k p, where t = t]
  show "kinv s'" "current_priority (thr s' t) = prio" "\<And>u. u \<noteq> t \<Longrightarrow> thr s' u = thr s u"
    "\<And>u. tstat s' u = tstat s u" "\<And>u. error (thr s' u) = error (thr s u)"
    "\<And>l. (\<And>q. l \<noteq> Ready q) \<Longrightarrow> tlists s' l = tlists s l"
    "rt_current_thread s' = rt_current_thread s" "rt_scheduler_lock_nest s' = rt_scheduler_lock_nest s"
    "rt_tick s' = rt_tick s" "objs s' = objs s" "tmr s' = tmr s" "fault s' = fault s"
    unfolding e using C k by simp_all
qed

lemma mutex_release_nested:
  assumes o: "mutex_ok a m s" and ow: "owner m = Some t" and c: "rt_current_thread s = Some t" and h: "hold m \<noteq> 1"
  shows "rt_mutex_release a m s = (s, m\<lparr>hold := hold m - 1\<rparr>, RT_EOK)" "mutex_ok a (m\<lparr>hold := hold m - 1\<rparr>) s"
  using mutex_okD [OF o] mutex_okD(6) [OF o ow] ow c h
  by (simp_all add: rt_mutex_release_def rt_thread_self_def rt_assert_holds mutex_ok_def)

lemma mutex_release_last:
  assumes o: "mutex_ok a m s" and ow: "owner m = Some t" and c: "rt_current_thread s = Some t" and h: "hold m = 1"
    and q: "tlists s (mutex_list a) = []"
  defines "s' \<equiv> restored t (original_priority m) s"
  defines "m' \<equiv> m\<lparr>hold := 0, mutex_value := 1, owner := None, original_priority := 0xff\<rparr>"
  shows "rt_mutex_release a m s = (s', m', RT_EOK)" "mutex_ok a m' s'"
    "current_priority (thr s' t) = original_priority m" "fault s' = fault s"
proof -
  note O = mutex_okD [OF o]
  have m: "mutex_value m = 0" "unat (original_priority m) < 32" "registered t s" using O(6) [OF ow] by simp_all
  note R = restored_state [OF O(1) m(2,3), folded s'_def]
  have tl: "tlists s' (mutex_list a) = []" using R(6) q by simp
  show "rt_mutex_release a m s = (s', m', RT_EOK)"
    using O(3) c ow h m tl unfolding s'_def restored_def
    by (cases "original_priority m = current_priority (thr s t)")
       (simp_all add: rt_mutex_release_def rt_thread_self_def rt_assert_holds m'_def Let_def)
  show "mutex_ok a m' s'"
    using O(2-4) R(1,7,10) tl is_mutex_objs [of s' s a] by (simp add: mutex_ok_def m'_def)
  show "current_priority (thr s' t) = original_priority m" "fault s' = fault s" using R(2,12) by simp_all
qed

lemma mutex_release_hands_over:
  assumes o: "mutex_ok a m s" and ow: "owner m = Some t" and c: "rt_current_thread s = Some t" and h: "hold m = 1"
    and q: "tlists s (mutex_list a) = w # ws" and r: "registered w s"
  defines "s' \<equiv> rt_schedule (rt_ipc_list_resume (mutex_list a) (restored t (original_priority m) s))"
  defines "m' \<equiv> m\<lparr>hold := 1, owner := Some w, original_priority := current_priority (thr s w)\<rparr>"
  shows "rt_mutex_release a m s = (s', m', RT_EOK)" "mutex_ok a m' s'" "tlists s' (mutex_list a) = ws"
    "awake s' w" "error (thr s' w) = error (thr s w)" "fault s' = fault s"
    "current_priority (thr s' t) = original_priority m"
    "\<And>u. u \<noteq> t \<Longrightarrow> current_priority (thr s' u) = current_priority (thr s u)"
proof -
  let ?s1 = "restored t (original_priority m) s"
  let ?s2 = "rt_ipc_list_resume (mutex_list a) ?s1"
  note O = mutex_okD [OF o]
  have m: "mutex_value m = 0" "unat (original_priority m) < 32" "registered t s" "t \<notin> set (w # ws)"
    using O(6) [OF ow] q by simp_all
  note R = restored_state [OF O(1) m(2,3)]
  have tl: "tlists ?s1 (mutex_list a) = w # ws" using R(6) q by simp
  have rg: "registered u ?s1 = registered u s" for u by (rule registered_same [OF R(10,11)])
  have cw: "rt_current_thread ?s1 \<noteq> Some w" using R(7) c m(4) by auto
  note F = wt.resume_first [OF R(1) tl cw] and A = wt.resume_first_any [OF R(1) tl]
  have c2: "rt_current_thread ?s2 \<noteq> None" using F(4) R(7) c by simp
  note S = schedule_kinv [OF F(1) c2] and W = schedule_awake [OF F(1) c2 A(4)]
  show "rt_mutex_release a m s = (s', m', RT_EOK)"
    using O(3) c ow h m tl R(3) [of w] unfolding s'_def restored_def
    by (cases "original_priority m = current_priority (thr s t)")
       (auto simp: rt_mutex_release_def rt_thread_self_def rt_assert_holds m'_def Let_def)
  show l: "tlists s' (mutex_list a) = ws" unfolding s'_def using schedule_lists [OF F(1) c2, of "mutex_list a"] A(2) by simp
  have d: "w \<notin> set ws" using kinv_butD(1) [OF O(1) [unfolded kinv_def]] q
    unfolding links_ok_def by (metis distinct.simps(2))
  have "unat (current_priority (thr s w)) < 32"
  proof -
    have "w \<in> set (tlists s (mutex_list a))" by (simp add: q)
    then have "tstat s w = RT_THREAD_SUSPEND" by (rule wt.waiter_suspended(2) [OF O(1)])
    then show ?thesis using kinv_butD(5) [OF O(1) [unfolded kinv_def], of w]
      by (auto simp: thread_ok_def mask_ok_def Let_def)
  qed
  then show "mutex_ok a m' s'"
    using S O(3,4) m d l F(8,11) R(10) rg r is_mutex_objs [of s' s a] F(7) unfolding s'_def
    by (simp add: mutex_ok_def m'_def)
  show "awake s' w" "error (thr s' w) = error (thr s w)" "fault s' = fault s"
    unfolding s'_def using W A(6) R(5) S(2) F(12) R(12) rg r by simp_all
  have "current_priority (thr s' u) = current_priority (thr ?s1 u)" for u
    unfolding s'_def using schedule_priority [OF F(1) c2, of u] F(2) by simp
  then show "current_priority (thr s' t) = original_priority m"
    "\<And>u. u \<noteq> t \<Longrightarrow> current_priority (thr s' u) = current_priority (thr s u)"
    using R(2,3) by simp_all
qed

lemma mutex_take_refused:
  assumes o: "mutex_ok a m s" and ow: "owner m = Some ow" "ow \<noteq> t" and st: "tstat s t = RT_THREAD_RUNNING"
  defines "s' \<equiv> upd_thr t (\<lambda>x. x\<lparr>error := - RT_ETIMEOUT\<rparr>) s"
  shows "rt_mutex_take_call a 0 m s = (s', m, Return (- RT_ETIMEOUT))" "mutex_ok a m s'"
proof -
  note O = mutex_okD [OF o]
  have c: "rt_current_thread s = Some t" by (rule running_thread [OF O(1) st])
  show "rt_mutex_take_call a 0 m s = (s', m, Return (- RT_ETIMEOUT))"
    using O(3) O(6) [OF ow(1)] c ow
    by (simp add: rt_mutex_take_call_def rt_thread_self_def rt_assert_holds Let_def mutex_again_def s'_def upd_thr_def)
  show "mutex_ok a m s'"
    using O(3,4) O(6) [OF ow(1)] c ow upd_error_kinv [OF O(1), of t "- RT_ETIMEOUT"] is_mutex_objs [of s' s a]
      registered_same [of s' s ow]
    by (simp add: mutex_ok_def s'_def)
qed

lemma mutex_release_refused:
  assumes o: "mutex_ok a m s" and ow: "owner m \<noteq> Some t" and c: "rt_current_thread s = Some t"
  defines "s' \<equiv> upd_thr t (\<lambda>x. x\<lparr>error := - RT_ERROR\<rparr>) s"
  shows "rt_mutex_release a m s = (s', m, - RT_ERROR)" "mutex_ok a m s'"
proof -
  note O = mutex_okD [OF o]
  show "rt_mutex_release a m s = (s', m, - RT_ERROR)"
    using O(3) c ow by (simp add: rt_mutex_release_def rt_thread_self_def rt_assert_holds s'_def)
  show "mutex_ok a m s'"
    using o upd_error_kinv [OF O(1), of t "- RT_ERROR"] is_mutex_objs [of s' s a] registered_same [of s' s]
    by (simp add: mutex_ok_def s'_def split: option.splits)
qed

section \<open>Histories\<close>

text \<open>The states a mutex goes through.  \<open>holds\<close> counts, for each thread, the takes that succeeded and
  were not yet released; a waiter that is handed the mutex holds it once.  A thread nests at most 255
  takes, the range of the counter \<^verbatim>\<open>hold\<close>.  In between the rest of the kernel may do anything that keeps
  the kernel invariant, the mutex and its owner, drops waiters (timeouts) but adds none; \<open>steady\<close> says whether it has
  left the priorities of the owner and the waiters alone, which \<^verbatim>\<open>rt_thread_control\<close> and other mutexes need not do.\<close>

inductive mutex_reach :: "nat \<Rightarrow> rt_mutex \<Rightarrow> kernel \<Rightarrow> (tid \<Rightarrow> nat) \<Rightarrow> bool \<Rightarrow> bool" for a where
  start: "\<lbrakk>mutex_ok a m s; owner m = None\<rbrakk> \<Longrightarrow> mutex_reach a m s (\<lambda>_. 0) True"
| take: "\<lbrakk>mutex_reach a m s holds steady; tstat s t = RT_THREAD_RUNNING; registered t s; time < 0x7fffffff;
    holds t < 255; rt_mutex_take_call a time m s = (s', m', out)\<rbrakk>
    \<Longrightarrow> mutex_reach a m' s' (if out = Return RT_EOK then holds(t := holds t + 1) else holds) steady"
| release: "\<lbrakk>mutex_reach a m s holds steady; tstat s t = RT_THREAD_RUNNING;
    \<forall>w \<in> set (tlists s (mutex_list a)). registered w s; rt_mutex_release a m s = (s', m', err)\<rbrakk>
    \<Longrightarrow> mutex_reach a m' s'
      (if err \<noteq> RT_EOK then holds
       else case owner m' of
         None \<Rightarrow> holds(t := holds t - 1)
       | Some w \<Rightarrow> if w = t then holds(t := holds t - 1) else holds(t := holds t - 1, w := holds w + 1)) steady"
| other: "\<lbrakk>mutex_reach a m s holds steady; kinv s'; rt_current_thread s' \<noteq> None; is_mutex a s';
    tlists s' (mutex_list a) = filter P (tlists s (mutex_list a)); \<forall>ow. owner m = Some ow \<longrightarrow> registered ow s'\<rbrakk>
    \<Longrightarrow> mutex_reach a m s' holds
      (steady \<and> (\<forall>ow. owner m = Some ow \<longrightarrow> current_priority (thr s' ow) = current_priority (thr s ow)) \<and>
       (\<forall>w \<in> set (tlists s' (mutex_list a)). current_priority (thr s' w) = current_priority (thr s w)))"

definition mutex_inv :: "nat \<Rightarrow> rt_mutex \<Rightarrow> kernel \<Rightarrow> (tid \<Rightarrow> nat) \<Rightarrow> bool \<Rightarrow> bool" where
  "mutex_inv a m s holds steady \<longleftrightarrow> mutex_ok a m s \<and>
     holds = (\<lambda>t. if owner m = Some t then unat (hold m) else 0) \<and>
     (steady \<and> mutex_flag m = RT_IPC_FLAG_PRIO \<longrightarrow> inherits a m s \<and> waiters_sorted s (tlists s (mutex_list a)))"

lemma waiters_sorted_cong:
  "\<lbrakk>\<And>w. w \<in> set ts \<Longrightarrow> current_priority (thr s' w) = current_priority (thr s w)\<rbrakk>
    \<Longrightarrow> waiters_sorted s' ts = waiters_sorted s ts"
  by (simp add: waiters_sorted_def cong: map_cong)

lemma upd_error_waiters [simp]:
  "waiters_sorted (upd_thr t (\<lambda>x. x\<lparr>error := e\<rparr>) s) ts = waiters_sorted s ts"
  "inherits a m (upd_thr t (\<lambda>x. x\<lparr>error := e\<rparr>) s) = inherits a m s"
  by (rule waiters_sorted_cong) (auto simp: inherits_def)

lemma mutex_inv_take:
  assumes inv: "mutex_inv a m s holds steady" and st: "tstat s t = RT_THREAD_RUNNING" and r: "registered t s"
    and b: "time < 0x7fffffff" and h: "holds t < 255" and e: "rt_mutex_take_call a time m s = (s', m', out)"
  shows "mutex_inv a m' s' (if out = Return RT_EOK then holds(t := holds t + 1) else holds) steady"
proof -
  have o: "mutex_ok a m s" and hs: "holds = (\<lambda>t. if owner m = Some t then unat (hold m) else 0)"
    and pi: "steady \<Longrightarrow> mutex_flag m = RT_IPC_FLAG_PRIO \<Longrightarrow> inherits a m s \<and> waiters_sorted s (tlists s (mutex_list a))"
    using inv by (simp_all add: mutex_inv_def)
  consider (free) "owner m = None" | (own) "owner m = Some t"
    | (no) ow where "owner m = Some ow" "ow \<noteq> t" "time = 0" | (bl) ow where "owner m = Some ow" "ow \<noteq> t" "time \<noteq> 0"
    by (cases "owner m") auto
  then show ?thesis
  proof cases
    case free
    have "tlists s (mutex_list a) = []" using mutex_okD(5) [OF o free] by simp
    then show ?thesis using mutex_take_free [OF o free st r] e hs free
      by (auto simp: mutex_inv_def inherits_def waiters_sorted_def fun_eq_iff)
  next
    case own
    have "unat (hold m) < 255" using h hs own by simp
    then have "unat (hold m + 1) = unat (hold m) + 1" "hold m \<noteq> 0xff" by (auto simp: unat_word_ariths)
    then show ?thesis using mutex_take_owned [OF o own st] e hs own pi
      by (auto simp: mutex_inv_def inherits_def fun_eq_iff)
  next
    case no
    then show ?thesis using mutex_take_refused [OF o no(1,2) st] e hs pi
      by (auto simp: mutex_inv_def rt_err_defs)
  next
    case bl
    obtain s1 where s1: "rt_mutex_take_call a time m s = (s1, m, Blocked t)" "mutex_ok a m s1" "fault s1 = fault s"
      "blocked_in (mutex_list a) time s t s1"
      "tlists s1 (mutex_list a) = joined (mutex_flag m) s t (tlists s (mutex_list a))"
      "current_priority (thr s1 ow) = min (current_priority (thr s t)) (current_priority (thr s ow))"
      "\<forall>u. u \<noteq> ow \<longrightarrow> current_priority (thr s1 u) = current_priority (thr s u)"
      by (rule mutex_take_blocks [OF o bl(1,2) st r b bl(3)])
    have nw: "ow \<notin> set (tlists s (mutex_list a))" using mutex_okD(6) [OF o bl(1)] by simp
    have "inherits a m s1 \<and> waiters_sorted s1 (tlists s1 (mutex_list a))" if f: "steady" "mutex_flag m = RT_IPC_FLAG_PRIO"
    proof
      have "current_priority (thr s1 ow) \<le> current_priority (thr s1 w)" if "w \<in> insert t (set (tlists s (mutex_list a)))" for w
      proof (cases "w = t")
        case False
        then have "current_priority (thr s ow) \<le> current_priority (thr s w)" "w \<noteq> ow"
          using pi [OF f] bl(1) that nw unfolding inherits_def by auto
        then show ?thesis using s1(6,7) by (simp add: min.coboundedI2)
      qed (use s1(6,7) bl(2) in simp)
      then show "inherits a m s1" using s1(5) bl(1) by (simp add: inherits_def)
      have "waiters_sorted s1 (tlists s1 (mutex_list a)) = waiters_sorted s (tlists s1 (mutex_list a))"
        by (rule waiters_sorted_cong) (use s1(5,7) nw bl(2) in auto)
      then show "waiters_sorted s1 (tlists s1 (mutex_list a))"
        using pi [OF f] s1(5) f(2) prio_insert_keeps_sorted [of "\<lambda>u. current_priority (thr s u)"]
        by (simp add: waiters_sorted_def joined_def)
    qed
    then show ?thesis using s1(1,2) e hs by (simp add: mutex_inv_def)
  qed
qed

lemma mutex_inv_release:
  assumes inv: "mutex_inv a m s holds steady" and st: "tstat s t = RT_THREAD_RUNNING"
    and r: "\<forall>w \<in> set (tlists s (mutex_list a)). registered w s" and e: "rt_mutex_release a m s = (s', m', err)"
  shows "mutex_inv a m' s'
      (if err \<noteq> RT_EOK then holds
       else case owner m' of
         None \<Rightarrow> holds(t := holds t - 1)
       | Some w \<Rightarrow> if w = t then holds(t := holds t - 1) else holds(t := holds t - 1, w := holds w + 1)) steady"
proof -
  have o: "mutex_ok a m s" and hs: "holds = (\<lambda>t. if owner m = Some t then unat (hold m) else 0)"
    and pi: "steady \<Longrightarrow> mutex_flag m = RT_IPC_FLAG_PRIO \<Longrightarrow> inherits a m s \<and> waiters_sorted s (tlists s (mutex_list a))"
    using inv by (simp_all add: mutex_inv_def)
  have c: "rt_current_thread s = Some t" by (rule running_thread(4) [OF mutex_okD(1) [OF o] st])
  consider (no) "owner m \<noteq> Some t" | (nest) "owner m = Some t" "hold m \<noteq> 1"
    | (last) "owner m = Some t" "hold m = 1" "tlists s (mutex_list a) = []"
    | (hand) w ws where "owner m = Some t" "hold m = 1" "tlists s (mutex_list a) = w # ws"
    by (cases "tlists s (mutex_list a)") auto
  then show ?thesis
  proof cases
    case no
    then show ?thesis using mutex_release_refused [OF o no c] e hs pi
      by (auto simp: mutex_inv_def rt_err_defs)
  next
    case nest
    have "unat (hold m - 1) = unat (hold m) - 1" using mutex_okD(6) [OF o nest(1)] by (simp add: unat_minus_one)
    then show ?thesis using mutex_release_nested [OF o nest(1) c nest(2)] e hs pi nest(1)
      by (auto simp: mutex_inv_def inherits_def fun_eq_iff)
  next
    case last
    have "tlists (restored t (original_priority m) s) (mutex_list a) = []"
      using mutex_okD(5) [OF mutex_release_last(2) [OF o last(1) c last(2,3)]] by simp
    then show ?thesis using mutex_release_last [OF o last(1) c last(2,3)] e hs last
      by (auto simp: mutex_inv_def inherits_def waiters_sorted_def fun_eq_iff)
  next
    case hand
    have w: "registered w s" "t \<notin> set (w # ws)" using r hand mutex_okD(6) [OF o hand(1)] by simp_all
    note H = mutex_release_hands_over [OF o hand(1) c hand(2,3) w(1)]
    have cp: "current_priority (thr s' u) = current_priority (thr s u)" if "u \<in> set (w # ws)" for u
      using H(8) [of u] H(1) e that w(2) by auto
    have l: "tlists s' (mutex_list a) = ws" "owner m' = Some w" "hold m' = 1" "mutex_flag m' = mutex_flag m"
      using H(1,3) e by auto
    have "inherits a m' s' \<and> waiters_sorted s' ws" if f: "steady" "mutex_flag m = RT_IPC_FLAG_PRIO"
    proof -
      have "waiters_sorted s (w # ws)" using pi [OF f] hand by simp
      then have "waiters_sorted s' (w # ws)" using waiters_sorted_cong [of "w # ws" s' s] cp by simp
      then show ?thesis using l by (auto simp: inherits_def waiters_sorted_def word_le_nat_alt)
    qed
    then show ?thesis using H(1,2) e hs hand l w(2) by (auto simp: mutex_inv_def fun_eq_iff)
  qed
qed

lemma mutex_reach_inv:
  assumes "mutex_reach a m s holds steady"
  shows "mutex_inv a m s holds steady"
  using assms
proof (induction)
  case (start m s)
  then show ?case using mutex_okD(5) [OF start(1,2)] by (simp add: mutex_inv_def inherits_def waiters_sorted_def)
next
  case (take m s holds steady t time s' m' out)
  then show ?case by (intro mutex_inv_take)
next
  case (release m s holds steady t s' m' err)
  then show ?case by (intro mutex_inv_release)
next
  case (other m s holds steady s' P)
  have "waiters_sorted s' (tlists s' (mutex_list a))"
    if "waiters_sorted s (tlists s (mutex_list a))" "\<forall>w \<in> set (tlists s' (mutex_list a)). current_priority (thr s' w) = current_priority (thr s w)"
    using that waiters_sorted_cong [of "tlists s' (mutex_list a)" s' s] other.hyps(5)
    by (simp add: waiters_sorted_def sorted_filter)
  then show ?case using other by (auto simp: mutex_inv_def mutex_ok_def inherits_def split: option.splits)
qed

section \<open>Properties\<close>

text \<open>C30: Mutual exclusion and priority inheritance.  In every state a mutex reaches through takes, nested at most 255
  deep, releases, timeouts, and steps of the kernel that keep the mutex and its owner and add no waiter, at
  most one thread holds it and holds it exactly as often as \<^verbatim>\<open>hold\<close> says, the owner does not wait for
  it, and a free mutex has no waiters.  With the priority flag no waiter outranks the owner, as
  long as nobody else has changed the priority of the owner or of a waiter.\<close>

theorem rt_mutex_exclusion:
  assumes "mutex_reach a m s holds steady"
  shows "kinv s \<and> (\<forall>t u. 0 < holds t \<and> 0 < holds u \<longrightarrow> t = u) \<and>
    (\<forall>t. 0 < holds t \<longrightarrow> owner m = Some t \<and> holds t = unat (hold m) \<and> t \<notin> set (tlists s (mutex_list a))) \<and>
    ((\<forall>t. holds t = 0) \<longrightarrow> owner m = None \<and> tlists s (mutex_list a) = []) \<and>
    (steady \<and> mutex_flag m = RT_IPC_FLAG_PRIO \<longrightarrow> (\<forall>t. 0 < holds t \<longrightarrow>
       (\<forall>w \<in> set (tlists s (mutex_list a)). current_priority (thr s t) \<le> current_priority (thr s w))))"
proof -
  have i: "mutex_ok a m s" "holds = (\<lambda>t. if owner m = Some t then unat (hold m) else 0)"
    "steady \<Longrightarrow> mutex_flag m = RT_IPC_FLAG_PRIO \<Longrightarrow> inherits a m s"
    using mutex_reach_inv [OF assms] by (simp_all add: mutex_inv_def)
  have "owner m = None" if "\<forall>t. holds t = 0"
  proof (rule ccontr)
    assume "owner m \<noteq> None"
    then obtain u where u: "owner m = Some u" by auto
    then have "holds u = unat (hold m)" using i(2) by simp
    then show False using that mutex_okD(6) [OF i(1) u] by (simp add: unat_eq_zero)
  qed
  then have z: "owner m = None \<and> tlists s (mutex_list a) = []" if "\<forall>t. holds t = 0"
    using that mutex_okD(5) [OF i(1)] by blast
  have w: "owner m = Some t \<and> holds t = unat (hold m) \<and> t \<notin> set (tlists s (mutex_list a))" if "0 < holds t" for t
    using that i(2) mutex_okD(6) [OF i(1), of t] by (cases "owner m = Some t") auto
  then have "t = u" if "0 < holds t" "0 < holds u" for t u using that by (metis option.inject)
  moreover have "current_priority (thr s t) \<le> current_priority (thr s x)"
    if "steady" "mutex_flag m = RT_IPC_FLAG_PRIO" "0 < holds t" "x \<in> set (tlists s (mutex_list a))" for t x
    using i(3) that w [of t] by (simp add: inherits_def)
  ultimately show ?thesis using mutex_okD(1) [OF i(1)] z w by blast
qed

lemma demo_mutex_ok:
  "mutex_ok a (mutex_fresh 1) demo_typed"
  "mutex_ok a \<lparr>mutex_value = 0, original_priority = 9, hold = 1, owner = Some 3, mutex_flag = 1\<rparr> (demo_wait (Mutex_Obj a))"
  "mutex_ok a \<lparr>mutex_value = 0, original_priority = 9, hold = 1, owner = Some 1, mutex_flag = 1\<rparr> (demo_wait (Mutex_Obj a))"
  by (simp_all add: mutex_ok_def mutex_fresh_def demo_wait_kinv demo_wait_facts demo_wait_registered demo_typed_kinv
      demo_typed_facts is_mutex_def rt_object_get_type_def demo_objs_def RT_Object_Class_Static_def RT_Object_Class_Mutex_def)
     (simp add: demo_typed_def demo_base_def kernel0_def demo_objs_def)

theorem rt_mutex_exclusion_witness:
  "\<exists>m s holds. mutex_reach 4 m s holds True \<and> holds 1 = (1::nat) \<and> owner m = Some 1 \<and> kinv s"
proof -
  let ?m = "mutex_fresh 1"
  have f: "owner ?m = None" by (simp add: mutex_fresh_def)
  obtain s' m' where e: "rt_mutex_take_call 4 0 ?m demo_typed = (s', m', Return RT_EOK)"
    using mutex_take_free(1) [OF demo_mutex_ok(1) f demo_typed_running demo_typed_registered] by blast
  have "mutex_reach 4 ?m demo_typed (\<lambda>_. 0) True"
    by (rule mutex_reach.start [OF demo_mutex_ok(1)]) (simp add: mutex_fresh_def)
  then have h: "mutex_reach 4 m' s' ((\<lambda>_. 0)(1 := 1)) True"
    using mutex_reach.take [of 4 ?m demo_typed "\<lambda>_. 0" True 1 0 s' m' "Return RT_EOK"]
      demo_typed_running demo_typed_registered [of 1] e by simp
  have "kinv s'" using rt_mutex_exclusion [OF h] by blast
  moreover have "owner m' = Some 1" using rt_mutex_exclusion [OF h] by (metis fun_upd_same zero_less_one)
  ultimately show ?thesis using h by (metis fun_upd_same)
qed

text \<open>Taking a mutex.  For the running thread \<^verbatim>\<open>rt_mutex_take\<close> takes a free mutex, nests a mutex it
  already owns, refuses with \<^verbatim>\<open>-RT_ETIMEOUT\<close> if it may not wait, and otherwise blocks the caller
  after raising the owner to the caller's priority if that is the more urgent one; the
  invariants are kept and no fault is raised.\<close>

theorem rt_mutex_take_correct:
  assumes o: "mutex_ok a m s" and st: "tstat s t = RT_THREAD_RUNNING" and r: "registered t s"
    and b: "time < 0x7fffffff" and h: "hold m \<noteq> 0xff"
  defines "s' \<equiv> fst (rt_mutex_take_call a time m s)" and "m' \<equiv> fst (snd (rt_mutex_take_call a time m s))"
    and "out \<equiv> snd (snd (rt_mutex_take_call a time m s))"
  shows "mutex_ok a m' s' \<and> fault s' = fault s \<and>
    (case owner m of
       None \<Rightarrow> out = Return RT_EOK \<and> owner m' = Some t \<and> hold m' = 1 \<and> original_priority m' = current_priority (thr s t)
     | Some ow \<Rightarrow>
         if ow = t then out = Return RT_EOK \<and> m' = m\<lparr>hold := hold m + 1\<rparr>
         else if time = 0 then out = Return (- RT_ETIMEOUT) \<and> m' = m
         else out = Blocked t \<and> m' = m \<and> blocked_in (mutex_list a) time s t s' \<and>
           current_priority (thr s' ow) = min (current_priority (thr s t)) (current_priority (thr s ow)))"
proof (cases "owner m")
  case None
  then show ?thesis using mutex_take_free [OF o None st r] unfolding s'_def m'_def out_def by simp
next
  case (Some ow)
  consider "ow = t" | "ow \<noteq> t" "time = 0" | (bl) "ow \<noteq> t" "time \<noteq> 0" by blast
  then show ?thesis
  proof cases
    case bl
    show ?thesis by (rule mutex_take_blocks [OF o Some bl(1) st r b bl(2)])
        (use Some bl in \<open>simp add: s'_def m'_def out_def\<close>)
  qed (use Some mutex_take_owned [OF o _ st h] mutex_take_refused [OF o Some _ st] in
        \<open>simp_all add: s'_def m'_def out_def\<close>)
qed

theorem rt_mutex_take_correct_witness:
  "snd (snd (rt_mutex_take_call 4 50 \<lparr>mutex_value = 0, original_priority = 9, hold = 1, owner = Some 3, mutex_flag = 1\<rparr>
     (demo_wait (Mutex_Obj 4)))) = Blocked 1"
  using rt_mutex_take_correct [OF demo_mutex_ok(2) demo_wait_facts(4) demo_wait_registered, of 50 4] by simp

text \<open>Releasing a mutex.  Only the owner can release; a nested release just counts down.  The last
  release gives the owner its original priority back and either frees the mutex or hands it,
  without ever freeing it, to the first waiter, which is woken, holds it once and sees its
  pending \<^verbatim>\<open>rt_mutex_take\<close> return its error code.\<close>

theorem rt_mutex_release_correct:
  assumes o: "mutex_ok a m s" and c: "rt_current_thread s = Some t"
    and r: "\<forall>w \<in> set (tlists s (mutex_list a)). registered w s"
  defines "s' \<equiv> fst (rt_mutex_release a m s)" and "m' \<equiv> fst (snd (rt_mutex_release a m s))"
    and "err \<equiv> snd (snd (rt_mutex_release a m s))"
  shows "mutex_ok a m' s' \<and> fault s' = fault s \<and>
    (if owner m \<noteq> Some t then err = - RT_ERROR \<and> m' = m \<and> error (thr s' t) = - RT_ERROR
     else if hold m \<noteq> 1 then err = RT_EOK \<and> m' = m\<lparr>hold := hold m - 1\<rparr> \<and> s' = s
     else err = RT_EOK \<and> current_priority (thr s' t) = original_priority m \<and>
       (case tlists s (mutex_list a) of
          [] \<Rightarrow> m' = mutex_fresh (mutex_flag m)
        | w # ws \<Rightarrow> mutex_value m' = 0 \<and> owner m' = Some w \<and> hold m' = 1 \<and> original_priority m' = current_priority (thr s w) \<and>
            awake s' w \<and> error (thr s' w) = error (thr s w) \<and> tlists s' (mutex_list a) = ws))"
proof -
  consider (no) "owner m \<noteq> Some t" | (nest) "owner m = Some t" "hold m \<noteq> 1"
    | (last) "owner m = Some t" "hold m = 1" "tlists s (mutex_list a) = []"
    | (hand) w ws where "owner m = Some t" "hold m = 1" "tlists s (mutex_list a) = w # ws"
    by (cases "tlists s (mutex_list a)") auto
  then show ?thesis
  proof cases
    case no
    then show ?thesis using mutex_release_refused [OF o no c] unfolding s'_def m'_def err_def by simp
  next
    case nest
    then show ?thesis using mutex_release_nested [OF o nest(1) c nest(2)] unfolding s'_def m'_def err_def by simp
  next
    case last
    then show ?thesis using mutex_release_last [OF o last(1) c last(2,3)] unfolding s'_def m'_def err_def
      by (simp add: mutex_fresh_def)
  next
    case hand
    then have "registered w s" using r by simp
    note H = mutex_release_hands_over [OF o hand(1) c hand(2,3) this]
    then show ?thesis using mutex_okD(6) [OF o hand(1)] unfolding s'_def m'_def err_def by (simp add: hand)
  qed
qed

theorem rt_mutex_release_correct_witness:
  "owner (fst (snd (rt_mutex_release 4 \<lparr>mutex_value = 0, original_priority = 9, hold = 1, owner = Some 1, mutex_flag = 1\<rparr>
     (demo_wait (Mutex_Obj 4))))) = Some 2"
  using rt_mutex_release_correct [OF demo_mutex_ok(3) demo_wait_facts(2), of 4]
  by (simp add: demo_wait_facts demo_wait_registered)

text \<open>Priority inversion with the FIFO flag.  When the mutex is handed to the longest waiter and a
  more urgent thread waits behind it, the new owner keeps its own lower priority: the waiter
  outranks the owner, and nothing raises the owner before the next take.\<close>

theorem rt_mutex_fifo_inversion:
  assumes o: "mutex_ok a m s" and ow: "owner m = Some t" and c: "rt_current_thread s = Some t" and h: "hold m = 1"
    and q: "tlists s (mutex_list a) = w # v # ws" and r: "registered w s"
    and p: "current_priority (thr s v) < current_priority (thr s w)"
  defines "s' \<equiv> fst (rt_mutex_release a m s)" and "m' \<equiv> fst (snd (rt_mutex_release a m s))"
  shows "owner m' = Some w \<and> v \<in> set (tlists s' (mutex_list a)) \<and>
    current_priority (thr s' v) < current_priority (thr s' w) \<and> current_priority (thr s' w) = original_priority m'"
proof -
  note H = mutex_release_hands_over [OF o ow c h q r]
  have "t \<noteq> w" "t \<noteq> v" using mutex_okD(6) [OF o ow] q by auto
  then show ?thesis using H(1,3) H(8) [of w] H(8) [of v] p unfolding s'_def m'_def by simp
qed

definition demo_two :: "oref \<Rightarrow> kernel" where
  "demo_two ob = thread_insert_before (Suspend_Thread ob) 3
     (upd_thr 3 (\<lambda>x. x\<lparr>stat := RT_THREAD_SUSPEND, current_priority := 3, number_mask := 8\<rparr>) (demo_wait ob))"

lemma demo_two_kinv: "kinv (demo_two ob)"
proof -
  let ?s = "upd_thr 3 (\<lambda>x. x\<lparr>stat := RT_THREAD_SUSPEND, current_priority := 3, number_mask := 8\<rparr>) (demo_wait ob)"
  have t: "thr (demo_wait ob) 3 = thread0" "tmr (demo_wait ob) = timer0"
    by (simp_all add: demo_wait_def thread_insert_before_def thread_link_def demo_typed_def demo_base_def kernel0_def thread0_def)
  have "kinv_but {3} ?s"
    by (rule kinv_but_thread' [OF kinv_but_mono [OF demo_wait_kinv [unfolded kinv_def]]]) (simp_all add: t thread0_def)
  then have "kinv_but ({3} - {3}) (demo_two ob)" unfolding demo_two_def thread_insert_before_def
    by (rule kinv_but_link)
       (auto simp: demo_wait_facts t thread0_def timer0_def thread_ok_def node_ok_def mask_ok_def)
  then show ?thesis by (simp add: kinv_def)
qed

lemma demo_two_facts:
  "tlists (demo_two ob) (Suspend_Thread ob) = [2, 3]" "rt_current_thread (demo_two ob) = Some 1"
  "current_priority (thr (demo_two ob) 3) < current_priority (thr (demo_two ob) 2)"
  "objs (demo_two ob) = demo_objs" "registered t (demo_two ob)"
proof -
  let ?s = "upd_thr 3 (\<lambda>x. x\<lparr>stat := RT_THREAD_SUSPEND, current_priority := 3, number_mask := 8\<rparr>) (demo_wait ob)"
  have n: "tlist (thr ?s 3) = None" "current_priority (thr (demo_wait ob) 2) = 5"
    by (simp_all add: demo_wait_def thread_insert_before_def thread_link_def demo_typed_def demo_base_def kernel0_def thread0_def)
  note T = thread_link_simps [OF n(1)]
  show "tlists (demo_two ob) (Suspend_Thread ob) = [2, 3]" "rt_current_thread (demo_two ob) = Some 1"
    "current_priority (thr (demo_two ob) 3) < current_priority (thr (demo_two ob) 2)"
    "objs (demo_two ob) = demo_objs"
    by (simp_all add: demo_two_def thread_insert_before_def T demo_wait_facts n(2))
  show "registered t (demo_two ob)"
    using demo_wait_registered [of t ob] registered_same [of "demo_two ob" "demo_wait ob" t]
    by (simp add: demo_two_def thread_insert_before_def)
qed

theorem rt_mutex_fifo_inversion_witness:
  "owner (fst (snd (rt_mutex_release 4 \<lparr>mutex_value = 0, original_priority = 9, hold = 1, owner = Some 1, mutex_flag = 0\<rparr>
     (demo_two (Mutex_Obj 4))))) = Some 2"
proof -
  let ?m = "\<lparr>mutex_value = 0, original_priority = 9, hold = 1, owner = Some 1, mutex_flag = 0\<rparr>"
  have "mutex_ok 4 ?m (demo_two (Mutex_Obj 4))"
    by (simp add: mutex_ok_def demo_two_kinv demo_two_facts is_mutex_def rt_object_get_type_def demo_objs_def
        RT_Object_Class_Static_def RT_Object_Class_Mutex_def)
  then show ?thesis
    using rt_mutex_fifo_inversion [of 4 ?m "demo_two (Mutex_Obj 4)" 1 2 3 "[]"] demo_two_facts by simp
qed

end
