(* ===== verification/Event.thy ===== *)
theory Event
  imports Ipc
begin

text \<open>
  The event sets of \<^verbatim>\<open>rt-thread/src/ipc.c\<close>: 32 flags; a receiver waits for all (AND) or for one
  (OR) of the flags it names and may ask for the received flags to be cleared.  One send can
  wake several receivers.
\<close>

section \<open>Definitions\<close>

record rt_event =
  ev_set :: u32
  ev_flag :: u8

abbreviation (input) RT_EVENT_FLAG_AND :: u8 where "RT_EVENT_FLAG_AND \<equiv> 1"
abbreviation (input) RT_EVENT_FLAG_OR :: u8 where "RT_EVENT_FLAG_OR \<equiv> 2"
abbreviation (input) RT_EVENT_FLAG_CLEAR :: u8 where "RT_EVENT_FLAG_CLEAR \<equiv> 4"

abbreviation event_list :: "nat \<Rightarrow> lid" where "event_list a \<equiv> Suspend_Thread (Event_Obj a)"

definition is_event :: "nat \<Rightarrow> kernel \<Rightarrow> bool" where
  "is_event a s \<longleftrightarrow> rt_object_get_type (Event_Obj a) s = RT_Object_Class_Event"

definition rt_event_init :: "nat \<Rightarrow> string \<Rightarrow> u8 \<Rightarrow> kernel \<Rightarrow> kernel \<times> rt_event" where
  "rt_event_init a name flag s =
     (rt_ipc_object_init (event_list a) (rt_object_init (Event_Obj a) RT_Object_Class_Event name s),
      \<lparr>ev_set = 0, ev_flag = flag\<rparr>)"

definition rt_event_detach :: "nat \<Rightarrow> nat \<Rightarrow> kernel \<Rightarrow> kernel option" where
  "rt_event_detach fuel a s =
     (let s1 = rt_assert (is_event a s) s;
          s2 = rt_assert (rt_object_is_systemobject (Event_Obj a) s1) s1
      in map_option (rt_object_detach (Event_Obj a)) (rt_ipc_list_resume_all fuel (event_list a) s2))"

definition rt_event_create :: "nat option \<Rightarrow> string \<Rightarrow> u8 \<Rightarrow> kernel \<Rightarrow> kernel \<times> (nat \<times> rt_event) option" where
  "rt_event_create mem name flag s =
     (let (s1, r) = rt_object_allocate (map_option Event_Obj mem) RT_Object_Class_Event name s in
      case r of
        Some (Event_Obj a) \<Rightarrow> (rt_ipc_object_init (event_list a) s1, Some (a, \<lparr>ev_set = 0, ev_flag = flag\<rparr>))
      | _ \<Rightarrow> (s1, None))"

definition rt_event_delete :: "nat \<Rightarrow> nat \<Rightarrow> kernel \<Rightarrow> kernel option" where
  "rt_event_delete fuel a s =
     (let s1 = rt_assert (is_event a s) s;
          s2 = rt_assert (\<not> rt_object_is_systemobject (Event_Obj a) s1) s1
      in map_option (rt_object_delete (Event_Obj a)) (rt_ipc_list_resume_all fuel (event_list a) s2))"

text \<open>The test of a waiter against the event set; \<open>Some\<close> the flags it receives.\<close>

definition event_match :: "u8 \<Rightarrow> u32 \<Rightarrow> u32 \<Rightarrow> u32 option" where
  "event_match info want cur =
     (if info AND RT_EVENT_FLAG_AND \<noteq> 0 then (if want AND cur = want then Some want else None)
      else if info AND RT_EVENT_FLAG_OR \<noteq> 0 then (if want AND cur \<noteq> 0 then Some (want AND cur) else None)
      else None)"

text \<open>The walk of \<^verbatim>\<open>rt_event_send\<close> over the waiters; the next node is read before the thread is resumed.
  The result holds the event set, the kernel and whether a thread was resumed.\<close>

fun event_scan :: "tid list \<Rightarrow> u32 \<Rightarrow> kernel \<Rightarrow> u32 \<times> kernel \<times> bool" where
  "event_scan [] cur s = (cur, s, False)"
| "event_scan (thread # n) cur s =
     (case event_match (event_info (thr s thread)) (event_set (thr s thread)) cur of
        None \<Rightarrow> event_scan n cur s
      | Some ev \<Rightarrow>
          let s1 = upd_thr thread (\<lambda>x. x\<lparr>event_set := ev\<rparr>) s;
              cur1 = (if event_info (thr s1 thread) AND RT_EVENT_FLAG_CLEAR \<noteq> 0 then cur AND NOT ev else cur);
              (cur2, s2, _) = event_scan n cur1 (fst (rt_thread_resume thread s1))
          in (cur2, s2, True))"

definition rt_event_send :: "nat \<Rightarrow> u32 \<Rightarrow> rt_event \<Rightarrow> kernel \<Rightarrow> kernel \<times> rt_event \<times> rt_err" where
  "rt_event_send a set1 event s =
     (let s0 = rt_assert (is_event a s) s in
      if set1 = 0 then (s0, event, - RT_ERROR)
      else
        let (cur, s1, need_schedule) = event_scan (tlists s0 (event_list a)) (ev_set event OR set1) s0
        in (if need_schedule then rt_schedule s1 else s1, event\<lparr>ev_set := cur\<rparr>, RT_EOK))"

text \<open>\<^verbatim>\<open>rt_event_recv\<close>; the last result is what it stores in \<^verbatim>\<open>*recved\<close>.\<close>

definition rt_event_recv_call ::
    "nat \<Rightarrow> u32 \<Rightarrow> u8 \<Rightarrow> int \<Rightarrow> rt_event \<Rightarrow> kernel \<Rightarrow> kernel \<times> rt_event \<times> outcome \<times> u32 option" where
  "rt_event_recv_call a set1 option1 timeout event s =
     (let s0 = rt_assert (is_event a s) s in
      if set1 = 0 then (s0, event, Return (- RT_ERROR), None)
      else case rt_thread_self s0 of
        None \<Rightarrow> (s0\<lparr>fault := True\<rparr>, event, Return (- RT_ERROR), None)
      | Some thread \<Rightarrow>
          let s1 = upd_thr thread (\<lambda>x. x\<lparr>error := RT_EOK\<rparr>) s0;
              s2 = rt_assert (option1 AND RT_EVENT_FLAG_AND \<noteq> 0 \<or> option1 AND RT_EVENT_FLAG_OR \<noteq> 0) s1
          in if event_match option1 set1 (ev_set event) \<noteq> None
             then (s2, if option1 AND RT_EVENT_FLAG_CLEAR \<noteq> 0 then event\<lparr>ev_set := ev_set event AND NOT set1\<rparr> else event,
                   Return (error (thr s2 thread)), Some (ev_set event AND set1))
             else if timeout = 0
             then (upd_thr thread (\<lambda>x. x\<lparr>error := - RT_ETIMEOUT\<rparr>) s2, event, Return (- RT_ETIMEOUT), None)
             else
               let s3 = upd_thr thread (\<lambda>x. x\<lparr>event_set := set1, event_info := option1\<rparr>) s2;
                   s4 = wait_on (event_list a) thread (ev_flag event) timeout s3
               in (rt_schedule s4, event, Blocked thread, None))"

definition rt_event_recv_return :: "tid \<Rightarrow> kernel \<Rightarrow> rt_err \<times> u32 option" where
  "rt_event_recv_return thread s =
     (if error (thr s thread) \<noteq> RT_EOK then (error (thr s thread), None)
      else (error (thr s thread), Some (event_set (thr s thread))))"

definition rt_event_control ::
    "nat \<Rightarrow> nat \<Rightarrow> int \<Rightarrow> rt_event \<Rightarrow> kernel \<Rightarrow> (kernel \<times> rt_event \<times> rt_err) option" where
  "rt_event_control fuel a cmd event s =
     (let s0 = rt_assert (is_event a s) s in
      if cmd = RT_IPC_CMD_RESET
      then map_option (\<lambda>s1. (rt_schedule s1, event\<lparr>ev_set := 0\<rparr>, RT_EOK))
             (rt_ipc_list_resume_all fuel (event_list a) s0)
      else Some (s0, event, - RT_ERROR))"

section \<open>Delivery\<close>

text \<open>The specification of a send: the waiters are served in list order, each seeing the flags that
  earlier ones have left; the result is the final set and who received what.\<close>

fun deliver :: "(tid \<Rightarrow> rt_thread) \<Rightarrow> tid list \<Rightarrow> u32 \<Rightarrow> u32 \<times> (tid \<times> u32) list" where
  "deliver th [] cur = (cur, [])"
| "deliver th (t # ts) cur =
     (case event_match (event_info (th t)) (event_set (th t)) cur of
        None \<Rightarrow> deliver th ts cur
      | Some ev \<Rightarrow>
          let (cur', ds) = deliver th ts (if event_info (th t) AND RT_EVENT_FLAG_CLEAR \<noteq> 0 then cur AND NOT ev else cur)
          in (cur', (t, ev) # ds))"

lemma deliver_cong:
  "(\<And>t. t \<in> set ts \<Longrightarrow> th t = th' t) \<Longrightarrow> deliver th ts cur = deliver th' ts cur"
  by (induction ts arbitrary: cur) (auto split: option.splits)

lemma deliver_set: "fst ` set (snd (deliver th ts cur)) \<subseteq> set ts"
proof (induction ts arbitrary: cur)
  case (Cons t ts)
  have "fst ` set (snd (deliver th ts c)) \<subseteq> insert t (set ts)" for c using Cons.IH [of c] by blast
  then show ?case by (auto simp: case_prod_beta Let_def split: option.splits)
qed simp

text \<open>Fewer flags never satisfy a waiter that more flags do not.\<close>

lemma event_match_mono:
  assumes "event_match info want cur = None" "cur' AND cur = cur'"
  shows "event_match info want cur' = None"
proof -
  have "want AND cur = want" if "want AND cur' = want"
  proof -
    have "want AND cur = (want AND cur') AND cur" using that by simp
    also have "\<dots> = want AND (cur' AND cur)" by (simp add: and.assoc)
    also have "\<dots> = want" using assms(2) that by simp
    finally show ?thesis .
  qed
  moreover have "want AND cur' = 0" if "want AND cur = 0"
  proof -
    have "want AND cur' = want AND (cur' AND cur)" using assms(2) by simp
    also have "\<dots> = (want AND cur) AND cur'" by (simp add: ac_simps)
    finally show ?thesis using that by simp
  qed
  ultimately show ?thesis using assms(1) by (auto simp: event_match_def split: if_splits)
qed

lemma deliver_shrinks: "fst (deliver th ts cur) AND cur = fst (deliver th ts cur)"
proof (induction ts arbitrary: cur)
  case (Cons t ts)
  show ?case
  proof (cases "event_match (event_info (th t)) (event_set (th t)) cur")
    case (Some ev)
    define c1 where "c1 = (if event_info (th t) AND RT_EVENT_FLAG_CLEAR \<noteq> 0 then cur AND NOT ev else cur)"
    have c1: "c1 AND cur = c1" by (simp add: c1_def and.commute and.left_commute)
    have "fst (deliver th ts c1) AND cur = fst (deliver th ts c1) AND (c1 AND cur)"
      using Cons.IH [of c1] by (metis and.assoc)
    then show ?thesis using Some c1 Cons.IH [of c1] by (simp add: c1_def case_prod_beta)
  qed (simp add: Cons.IH)
qed simp

text \<open>Waiters that received nothing are not satisfied by the final set either.\<close>

lemma deliver_rest:
  assumes "distinct ts" "t \<in> set ts" "t \<notin> fst ` set (snd (deliver th ts cur))"
  shows "event_match (event_info (th t)) (event_set (th t)) (fst (deliver th ts cur)) = None"
  using assms
proof (induction ts arbitrary: cur)
  case (Cons u ts)
  then show ?case
  proof (cases "event_match (event_info (th u)) (event_set (th u)) cur")
    case None
    show ?thesis
    proof (cases "t = u")
      case True
      then show ?thesis using event_match_mono [OF _ deliver_shrinks] None by simp
    next
      case False
      then show ?thesis using Cons None by simp
    qed
  next
    case (Some ev)
    then show ?thesis using Cons by (auto simp: case_prod_beta Let_def)
  qed
qed simp

lemma event_match_Some:
  assumes "event_match info want cur = Some ev"
  shows "ev AND cur = ev" "ev AND want = ev"
    "info AND RT_EVENT_FLAG_AND \<noteq> 0 \<Longrightarrow> ev = want" "info AND RT_EVENT_FLAG_AND = 0 \<Longrightarrow> ev \<noteq> 0"
  using assms by (auto simp: event_match_def and.commute and.left_commute split: if_splits)

lemma deliver_got:
  assumes "(t, ev) \<in> set (snd (deliver th ts cur))"
  shows "\<exists>cur'. cur' AND cur = cur' \<and> event_match (event_info (th t)) (event_set (th t)) cur' = Some ev"
  using assms
proof (induction ts arbitrary: cur)
  case (Cons u ts)
  show ?case
  proof (cases "event_match (event_info (th u)) (event_set (th u)) cur")
    case None
    then show ?thesis using Cons by simp
  next
    case (Some e)
    define c1 where "c1 = (if event_info (th u) AND RT_EVENT_FLAG_CLEAR \<noteq> 0 then cur AND NOT e else cur)"
    have c1: "c1 AND cur = c1" by (simp add: c1_def and.commute and.left_commute)
    consider "t = u" "ev = e" | "(t, ev) \<in> set (snd (deliver th ts c1))"
      using Cons.prems Some by (auto simp: case_prod_beta Let_def c1_def)
    then show ?thesis
    proof cases
      case 1
      then show ?thesis using Some by (intro exI [of _ cur]) simp
    next
      case 2
      then obtain c where c: "c AND c1 = c" "event_match (event_info (th t)) (event_set (th t)) c = Some ev"
        using Cons.IH by blast
      have "c AND cur = c" using c(1) c1 by (metis and.assoc)
      then show ?thesis using c(2) by blast
    qed
  qed
qed simp

section \<open>The walk delivers\<close>

lemma resume_waiter:
  assumes k: "kinv s" and t: "t \<in> set (tlists s (Suspend_Thread ob))"
  defines "s' \<equiv> fst (rt_thread_resume t s)"
  shows "kinv s'" "tlists s' (Suspend_Thread ob) = remove1 t (tlists s (Suspend_Thread ob))"
    "rt_current_thread s' = rt_current_thread s" "awake s' t" "\<And>u. u \<noteq> t \<Longrightarrow> thr s' u = thr s u"
    "error (thr s' t) = error (thr s t)" "event_set (thr s' t) = event_set (thr s t)" "objs s' = objs s"
    "registered t s \<Longrightarrow> fault s' = fault s"
proof -
  note w = wt.waiter_suspended [OF k t]
  note R = resume_state [OF k w(2)]
  show "kinv s'" "tlists s' (Suspend_Thread ob) = remove1 t (tlists s (Suspend_Thread ob))"
    "rt_current_thread s' = rt_current_thread s" "awake s' t" "\<And>u. u \<noteq> t \<Longrightarrow> thr s' u = thr s u"
    "error (thr s' t) = error (thr s t)" "event_set (thr s' t) = event_set (thr s t)" "objs s' = objs s"
    "registered t s \<Longrightarrow> fault s' = fault s"
    unfolding s'_def using R w registeredD [of t s] by simp_all
qed

lemma upd_event_kinv: "kinv s \<Longrightarrow> kinv (upd_thr t (\<lambda>x. x\<lparr>event_set := e\<rparr>) s)"
  using kinv_but_thread [of "{}" s "\<lambda>x. x\<lparr>event_set := e\<rparr>" t] kinv_butD(5) [of "{}" s t]
  by (simp add: kinv_def)

lemma event_scan_delivers:
  fixes cur :: u32
  assumes "kinv s" "set ts \<subseteq> set (tlists s (event_list a))" "distinct ts" "\<forall>t \<in> set ts. registered t s"
  defines "ds \<equiv> snd (deliver (thr s) ts cur)"
  shows "\<exists>s'. event_scan ts cur s = (fst (deliver (thr s) ts cur), s', ds \<noteq> []) \<and> kinv s' \<and> fault s' = fault s \<and>
    rt_current_thread s' = rt_current_thread s \<and> objs s' = objs s \<and>
    tlists s' (event_list a) = filter (\<lambda>t. t \<notin> fst ` set ds) (tlists s (event_list a)) \<and>
    (\<forall>(t, ev) \<in> set ds. awake s' t \<and> error (thr s' t) = error (thr s t) \<and> event_set (thr s' t) = ev) \<and>
    (\<forall>t. t \<notin> fst ` set ds \<longrightarrow> thr s' t = thr s t)"
  using assms(1-4) unfolding ds_def
proof (induction ts arbitrary: s cur)
  case (Cons t ts)
  let ?l = "event_list a"
  show ?case
  proof (cases "event_match (event_info (thr s t)) (event_set (thr s t)) cur")
    case None
    then show ?thesis using Cons.IH [of s cur] Cons.prems by simp
  next
    case (Some ev)
    define c1 where "c1 = (if event_info (thr s t) AND RT_EVENT_FLAG_CLEAR \<noteq> 0 then cur AND NOT ev else cur)"
    let ?s1 = "upd_thr t (\<lambda>x. x\<lparr>event_set := ev\<rparr>) s"
    let ?s2 = "fst (rt_thread_resume t ?s1)"
    let ?d = "deliver (thr s) ts c1"
    have k1: "kinv ?s1" by (rule upd_event_kinv [OF Cons.prems(1)])
    have t1: "t \<in> set (tlists ?s1 ?l)" using Cons.prems(2) by simp
    note R = resume_waiter [OF k1 t1]
    have rg: "registered u ?s1 = registered u s" for u using registered_same [of ?s1 s u] by simp
    have d: "distinct (tlists s ?l)" using kinv_butD(1) [OF Cons.prems(1) [unfolded kinv_def]] by (simp add: links_ok_def)
    have tl: "tlists ?s2 ?l = filter (\<lambda>u. u \<noteq> t) (tlists s ?l)"
      using R(2) d by (auto simp: distinct_remove1_removeAll removeAll_filter_not_eq intro: filter_cong)
    have dc: "deliver (thr ?s2) ts c1 = ?d"
    proof (rule deliver_cong)
      fix u assume "u \<in> set ts"
      then have "u \<noteq> t" using Cons.prems(3) by auto
      then show "thr ?s2 u = thr s u" by (simp add: R(5))
    qed
    have "set ts \<subseteq> set (tlists ?s2 ?l)" "\<forall>u \<in> set ts. registered u ?s2"
      using Cons.prems(2,3,4) tl by (auto simp: rg)
    then obtain s' where s': "event_scan ts c1 ?s2 = (fst ?d, s', snd ?d \<noteq> [])" "kinv s'" "fault s' = fault ?s2"
      "rt_current_thread s' = rt_current_thread ?s2" "objs s' = objs ?s2"
      "tlists s' ?l = filter (\<lambda>t. t \<notin> fst ` set (snd ?d)) (tlists ?s2 ?l)"
      "\<forall>(t, ev) \<in> set (snd ?d). awake s' t \<and> error (thr s' t) = error (thr ?s2 t) \<and> event_set (thr s' t) = ev"
      "\<forall>t. t \<notin> fst ` set (snd ?d) \<longrightarrow> thr s' t = thr ?s2 t"
      using Cons.IH [OF R(1), of c1] Cons.prems(3) unfolding dc by auto
    have D: "deliver (thr s) (t # ts) cur = (fst ?d, (t, ev) # snd ?d)"
      using Some by (simp add: c1_def case_prod_beta)
    have nt: "t \<notin> fst ` set (snd ?d)" using deliver_set [of "thr s" ts c1] Cons.prems(3) by auto
    have E: "event_scan (t # ts) cur s = (fst ?d, s', True)"
      using Some s'(1) by (simp add: Let_def c1_def)
    have "fault ?s2 = fault s" using R(9) Cons.prems(4) rg by simp
    moreover have "error (thr ?s2 u) = error (thr s u)" if "u \<in> fst ` set (snd ?d)" for u
      using R(5) that nt by (cases "u = t") auto
    ultimately have "\<forall>(u, e) \<in> set (snd ?d). awake s' u \<and> error (thr s' u) = error (thr s u) \<and> event_set (thr s' u) = e"
      using s'(7) by (force simp: case_prod_beta)
    moreover have "awake s' t" "error (thr s' t) = error (thr s t)" "event_set (thr s' t) = ev"
      using s'(8) nt R(4,6,7) by simp_all
    moreover have "thr s' u = thr s u" if "u \<noteq> t" "u \<notin> fst ` set (snd ?d)" for u
      using s'(8) that R(5) by simp
    moreover have "tlists s' ?l = filter (\<lambda>u. u \<notin> insert t (fst ` set (snd ?d))) (tlists s ?l)"
      unfolding s'(6) tl by (auto intro: filter_cong)
    ultimately show ?thesis unfolding D E using s'(2,3,4,5) R(3,8) \<open>fault ?s2 = fault s\<close> by simp
  qed
qed simp

section \<open>The invariant\<close>

text \<open>No thread waits for flags that are already there.\<close>

definition event_ok :: "nat \<Rightarrow> rt_event \<Rightarrow> kernel \<Rightarrow> bool" where
  "event_ok a ev s \<longleftrightarrow> kinv s \<and> rt_current_thread s \<noteq> None \<and> is_event a s \<and>
     (ev_flag ev = RT_IPC_FLAG_FIFO \<or> ev_flag ev = RT_IPC_FLAG_PRIO) \<and>
     (\<forall>w \<in> set (tlists s (event_list a)). event_match (event_info (thr s w)) (event_set (thr s w)) (ev_set ev) = None)"

lemma event_okD:
  assumes "event_ok a ev s"
  shows "kinv s" "rt_current_thread s \<noteq> None" "is_event a s"
    "ev_flag ev = RT_IPC_FLAG_FIFO \<or> ev_flag ev = RT_IPC_FLAG_PRIO"
    "w \<in> set (tlists s (event_list a)) \<Longrightarrow> event_match (event_info (thr s w)) (event_set (thr s w)) (ev_set ev) = None"
  using assms by (simp_all add: event_ok_def)

lemma schedule_event_set:
  assumes "kinv s" "rt_current_thread s \<noteq> None"
  shows "event_set (thr (rt_schedule s) t) = event_set (thr s t)"
  using schedule_thr_fields [OF assms, of t] by auto

lemma event_send_delivers:
  fixes set1 :: u32
  assumes o: "event_ok a ev s" and n: "set1 \<noteq> 0" and r: "\<forall>t \<in> set (tlists s (event_list a)). registered t s"
  defines "ds \<equiv> snd (deliver (thr s) (tlists s (event_list a)) (ev_set ev OR set1))"
    and "ev' \<equiv> ev\<lparr>ev_set := fst (deliver (thr s) (tlists s (event_list a)) (ev_set ev OR set1))\<rparr>"
  obtains s' where "rt_event_send a set1 ev s = (s', ev', RT_EOK)" "event_ok a ev' s'" "fault s' = fault s"
    "tlists s' (event_list a) = filter (\<lambda>t. t \<notin> fst ` set ds) (tlists s (event_list a))"
    "\<forall>(t, e) \<in> set ds. awake s' t \<and> error (thr s' t) = error (thr s t) \<and> event_set (thr s' t) = e"
    "\<forall>t \<in> set (tlists s' (event_list a)). thr s' t = thr s t"
proof -
  let ?l = "event_list a"
  note O = event_okD [OF o]
  have d: "distinct (tlists s ?l)" using kinv_butD(1) [OF O(1) [unfolded kinv_def]] by (simp add: links_ok_def)
  obtain s1 where s1: "event_scan (tlists s ?l) (ev_set ev OR set1) s = (ev_set ev', s1, ds \<noteq> [])" "kinv s1"
    "fault s1 = fault s" "rt_current_thread s1 = rt_current_thread s" "objs s1 = objs s"
    "tlists s1 ?l = filter (\<lambda>t. t \<notin> fst ` set ds) (tlists s ?l)"
    "\<forall>(t, e) \<in> set ds. awake s1 t \<and> error (thr s1 t) = error (thr s t) \<and> event_set (thr s1 t) = e"
    "\<forall>t. t \<notin> fst ` set ds \<longrightarrow> thr s1 t = thr s t"
    using event_scan_delivers [OF O(1) subset_refl d r, of "ev_set ev OR set1"] unfolding ds_def ev'_def by auto
  define s' where "s' = (if ds \<noteq> [] then rt_schedule s1 else s1)"
  have c1: "rt_current_thread s1 \<noteq> None" using s1(4) O(2) by simp
  note S = schedule_kinv [OF s1(2) c1] and A = schedule_awake [OF s1(2) c1] and E = schedule_event_set [OF s1(2) c1]
  have tl: "tlists s' ?l = filter (\<lambda>t. t \<notin> fst ` set ds) (tlists s ?l)"
    using s1(6) schedule_lists [OF s1(2) c1, of ?l] by (simp add: s'_def)
  have keep: "thr s' t = thr s t" if "t \<in> set (tlists s' ?l)" for t
  proof -
    have t: "t \<in> set (tlists s1 ?l)" "thr s1 t = thr s t" using that tl s1(6,8) by auto
    have "tstat s1 t = RT_THREAD_SUSPEND" by (rule wt.waiter_suspended(2) [OF s1(2) t(1)])
    then have "thr (rt_schedule s1) t = thr s1 t" by (intro schedule_not_ready [OF s1(2) c1]) simp_all
    then show ?thesis using t(2) by (simp add: s'_def)
  qed
  show ?thesis
  proof (rule that)
    show "rt_event_send a set1 ev s = (s', ev', RT_EOK)"
      using O(3) n s1(1) by (simp add: rt_event_send_def rt_assert_holds s'_def ev'_def)
    have "event_match (event_info (thr s w)) (event_set (thr s w)) (ev_set ev') = None" if "w \<in> set (tlists s' ?l)" for w
      using deliver_rest [OF d, of w "thr s" "ev_set ev OR set1"] that unfolding tl ds_def ev'_def by auto
    then show "event_ok a ev' s'"
      using O(3,4) S s1(2,5) c1 keep by (simp add: event_ok_def s'_def ev'_def is_event_def rt_object_get_type_def)
    show "fault s' = fault s" using S(2) s1(3) by (simp add: s'_def)
    show "tlists s' ?l = filter (\<lambda>t. t \<notin> fst ` set ds) (tlists s ?l)" by (rule tl)
    have "awake s' t \<and> error (thr s' t) = error (thr s t) \<and> event_set (thr s' t) = e" if "(t, e) \<in> set ds" for t e
    proof -
      have "awake s1 t" "error (thr s1 t) = error (thr s t)" "event_set (thr s1 t) = e" using bspec [OF s1(7) that] by simp_all
      then show ?thesis using A [of t] E [of t] unfolding s'_def by simp
    qed
    then show "\<forall>(t, e) \<in> set ds. awake s' t \<and> error (thr s' t) = error (thr s t) \<and> event_set (thr s' t) = e" by blast
    show "\<forall>t \<in> set (tlists s' ?l). thr s' t = thr s t" using keep by blast
  qed
qed

lemma event_recv_blocks:
  assumes o: "event_ok a ev s" and st: "tstat s t = RT_THREAD_RUNNING" and r: "registered t s"
    and b: "time < 0x7fffffff" "time \<noteq> 0" and n: "set1 \<noteq> 0"
    and op: "opt AND RT_EVENT_FLAG_AND \<noteq> 0 \<or> opt AND RT_EVENT_FLAG_OR \<noteq> 0"
    and m: "event_match opt set1 (ev_set ev) = None"
  obtains s' where "rt_event_recv_call a set1 opt time ev s = (s', ev, Blocked t, None)" "event_ok a ev s'"
    "fault s' = fault s" "blocked_in (event_list a) time s t s'" "event_set (thr s' t) = set1"
    "event_info (thr s' t) = opt" "error (thr s' t) = RT_EOK"
    "tlists s' (event_list a) = joined (ev_flag ev) s t (tlists s (event_list a))"
proof -
  let ?l = "event_list a"
  let ?s3 = "upd_thr t (\<lambda>x. x\<lparr>event_set := set1, event_info := opt\<rparr>) (upd_thr t (\<lambda>x. x\<lparr>error := RT_EOK\<rparr>) s)"
  let ?s4 = "wait_on ?l t (ev_flag ev) time ?s3"
  note O = event_okD [OF o]
  have c: "rt_current_thread s = Some t" by (rule running_thread(4) [OF O(1) st])
  have "kinv_but ({} - {t}) ?s3"
    by (rule kinv_but_thread [OF upd_error_kinv [OF O(1), unfolded kinv_def]])
       (use kinv_butD(5) [OF O(1) [unfolded kinv_def], of t] in simp_all)
  then have k3: "kinv ?s3" by (simp add: kinv_def)
  have st3: "tstat ?s3 t = RT_THREAD_RUNNING" "registered t ?s3"
    using st r registered_same [of ?s3 s t] by simp_all
  note B = wt.block_state [OF k3 st3(1) O(4) st3(2) b(1), where ob = "Event_Obj a"]
  note W = wt.wait_on_state [OF k3 st3(1) O(4) st3(2) b(1), where ob = "Event_Obj a"]
  have e: "rt_event_recv_call a set1 opt time ev s = (rt_schedule ?s4, ev, Blocked t, None)"
    using n m b(2) O(3) c op by (auto simp: rt_event_recv_call_def rt_thread_self_def rt_assert_holds Let_def)
  have c4: "rt_current_thread ?s4 \<noteq> None" using W(4) by simp
  have j: "tlists (rt_schedule ?s4) ?l = joined (ev_flag ev) s t (tlists s ?l)"
    using B(5) joined_cong [where ?s1.0 = ?s3 and s = s] by simp
  have wm: "event_match (event_info (thr (rt_schedule ?s4) w)) (event_set (thr (rt_schedule ?s4) w)) (ev_set ev) = None"
    if "w \<in> insert t (set (tlists s ?l))" for w
  proof (cases "w = t")
    case True
    then show ?thesis using B(4) m by simp
  next
    case False
    have "tstat s w = RT_THREAD_SUSPEND" by (rule wt.waiter_suspended(2) [OF O(1)]) (use that False in simp)
    then have "thr (rt_schedule ?s4) w = thr s w"
      using False schedule_not_ready [OF W(1) c4, of w] by (simp add: W(2))
    then show ?thesis using O(5) that False by simp
  qed
  show ?thesis
  proof (rule that [OF e])
    show "event_ok a ev (rt_schedule ?s4)"
      using O(3,4) B(1,7) W(7) j wm by (simp add: event_ok_def is_event_def rt_object_get_type_def)
    show "fault (rt_schedule ?s4) = fault s" using B(2) by simp
    show "blocked_in ?l time s t (rt_schedule ?s4)"
      by (rule iffD1 [OF blocked_in_cong B(3)]) simp_all
    show "event_set (thr (rt_schedule ?s4) t) = set1" "event_info (thr (rt_schedule ?s4) t) = opt"
      "error (thr (rt_schedule ?s4) t) = RT_EOK" using B(4) by simp_all
    show "tlists (rt_schedule ?s4) ?l = joined (ev_flag ev) s t (tlists s ?l)" by (rule j)
  qed
qed

section \<open>Properties\<close>

text \<open>C31: Sending events.  \<^verbatim>\<open>rt_event_send\<close> of a non-empty set serves the waiters in list order exactly
  as the specification \<open>deliver\<close> says: every served waiter is woken with the flags it received, all
  it asked for (AND) or the non-empty part that is set (OR); the others stay queued in order and
  are not satisfied by the flags that are left, so no event is missed.\<close>

theorem rt_event_send_correct:
  assumes o: "event_ok a ev s" and n: "set1 \<noteq> 0" and r: "\<forall>t \<in> set (tlists s (event_list a)). registered t s"
  shows "case deliver (thr s) (tlists s (event_list a)) (ev_set ev OR set1) of (cur, ds) \<Rightarrow>
    \<exists>s'. rt_event_send a set1 ev s = (s', ev\<lparr>ev_set := cur\<rparr>, RT_EOK) \<and> event_ok a (ev\<lparr>ev_set := cur\<rparr>) s' \<and>
      fault s' = fault s \<and> cur AND (ev_set ev OR set1) = cur \<and>
      tlists s' (event_list a) = filter (\<lambda>t. t \<notin> fst ` set ds) (tlists s (event_list a)) \<and>
      (\<forall>(t, e) \<in> set ds. awake s' t \<and> event_set (thr s' t) = e \<and> error (thr s' t) = error (thr s t) \<and>
         e AND (ev_set ev OR set1) = e \<and>
         (if event_info (thr s t) AND RT_EVENT_FLAG_AND \<noteq> 0 then e = event_set (thr s t)
          else e \<noteq> 0 \<and> e AND event_set (thr s t) = e))"
proof -
  let ?ts = "tlists s (event_list a)" and ?c = "ev_set ev OR set1"
  let ?d = "deliver (thr s) ?ts ?c"
  have got: "e AND ?c = e \<and> (if event_info (thr s t) AND RT_EVENT_FLAG_AND \<noteq> 0 then e = event_set (thr s t)
      else e \<noteq> 0 \<and> e AND event_set (thr s t) = e)" if te: "(t, e) \<in> set (snd ?d)" for t e
  proof -
    obtain c where c: "c AND ?c = c" "event_match (event_info (thr s t)) (event_set (thr s t)) c = Some e"
      using deliver_got [OF te] by blast
    note M = event_match_Some [OF c(2)]
    have "e AND ?c = e" using M(1) c(1) by (metis and.assoc)
    then show ?thesis using M by simp
  qed
  obtain s' where s': "rt_event_send a set1 ev s = (s', ev\<lparr>ev_set := fst ?d\<rparr>, RT_EOK)"
    "event_ok a (ev\<lparr>ev_set := fst ?d\<rparr>) s'" "fault s' = fault s"
    "tlists s' (event_list a) = filter (\<lambda>t. t \<notin> fst ` set (snd ?d)) ?ts"
    "\<forall>(t, e) \<in> set (snd ?d). awake s' t \<and> error (thr s' t) = error (thr s t) \<and> event_set (thr s' t) = e"
    "\<forall>t \<in> set (tlists s' (event_list a)). thr s' t = thr s t"
    by (rule event_send_delivers [OF o n r])
  have "\<forall>(t, e) \<in> set (snd ?d). awake s' t \<and> event_set (thr s' t) = e \<and> error (thr s' t) = error (thr s t) \<and>
      e AND ?c = e \<and> (if event_info (thr s t) AND RT_EVENT_FLAG_AND \<noteq> 0 then e = event_set (thr s t)
      else e \<noteq> 0 \<and> e AND event_set (thr s t) = e)"
  proof (rule ballI, rule case_prodI2)
    fix p t e assume "p \<in> set (snd ?d)" "p = (t, e)"
    then have te: "(t, e) \<in> set (snd ?d)" by simp
    show "awake s' t \<and> event_set (thr s' t) = e \<and> error (thr s' t) = error (thr s t) \<and>
      e AND ?c = e \<and> (if event_info (thr s t) AND RT_EVENT_FLAG_AND \<noteq> 0 then e = event_set (thr s t)
      else e \<noteq> 0 \<and> e AND event_set (thr s t) = e)"
      using bspec [OF s'(5) te] got [OF te] by simp
  qed
  then show ?thesis unfolding case_prod_beta using s'(1-4) deliver_shrinks [of "thr s" ?ts ?c] by blast
qed

definition demo_event :: "nat \<Rightarrow> kernel" where
  "demo_event a = upd_thr 2 (\<lambda>x. x\<lparr>event_set := 6, event_info := 5\<rparr>) (demo_wait (Event_Obj a))"

lemma demo_event_facts:
  "kinv (demo_event a)" "tlists (demo_event a) (event_list a) = [2]" "rt_current_thread (demo_event a) = Some 1"
  "event_info (thr (demo_event a) 2) = 5" "event_set (thr (demo_event a) 2) = 6" "is_event a (demo_event a)"
  "registered t (demo_event a)" "tstat (demo_event a) 1 = RT_THREAD_RUNNING"
proof -
  have "kinv_but ({} - {2}) (demo_event a)" unfolding demo_event_def
    by (rule kinv_but_thread [OF demo_wait_kinv [unfolded kinv_def]])
       (use kinv_butD(5) [OF demo_wait_kinv [unfolded kinv_def], of 2] in simp_all)
  then show "kinv (demo_event a)" by (simp add: kinv_def)
  show "registered t (demo_event a)"
    using demo_wait_registered [of t] registered_same [of "demo_event a" "demo_wait (Event_Obj a)" t]
    by (simp add: demo_event_def)
  show "tstat (demo_event a) 1 = RT_THREAD_RUNNING" using demo_wait_facts(4) by (simp add: demo_event_def)
qed (simp_all add: demo_event_def demo_wait_facts is_event_def rt_object_get_type_def demo_objs_def
    RT_Object_Class_Static_def RT_Object_Class_Event_def)

lemma demo_event_ok: "event_ok a \<lparr>ev_set = 2, ev_flag = 0\<rparr> (demo_event a)"
  by (simp add: event_ok_def demo_event_facts event_match_def)

theorem rt_event_send_correct_witness:
  "\<exists>s'. rt_event_send 3 4 \<lparr>ev_set = 2, ev_flag = 0\<rparr> (demo_event 3) = (s', \<lparr>ev_set = 0, ev_flag = 0\<rparr>, RT_EOK) \<and>
     tlists s' (event_list 3) = [] \<and> event_set (thr s' 2) = 6"
  using rt_event_send_correct [OF demo_event_ok [of 3], of 4]
  by (auto simp: demo_event_facts event_match_def)

text \<open>Receiving events.  For the running thread and a non-empty set with AND or OR, \<^verbatim>\<open>rt_event_recv\<close>
  succeeds at once exactly when the flags satisfy the request, reporting the requested flags
  that are set and clearing the request if asked to; otherwise it refuses or blocks, and a
  blocked receiver is recorded with its request.  No thread ever waits for flags that are set.\<close>

theorem rt_event_recv_correct:
  assumes o: "event_ok a ev s" and st: "tstat s t = RT_THREAD_RUNNING" and r: "registered t s"
    and b: "time < 0x7fffffff" and n: "set1 \<noteq> 0"
    and op: "opt AND RT_EVENT_FLAG_AND \<noteq> 0 \<or> opt AND RT_EVENT_FLAG_OR \<noteq> 0"
  shows "\<exists>s' ev' out recved. rt_event_recv_call a set1 opt time ev s = (s', ev', out, recved) \<and>
    event_ok a ev' s' \<and> fault s' = fault s \<and>
    (if event_match opt set1 (ev_set ev) \<noteq> None
     then out = Return RT_EOK \<and> recved = Some (ev_set ev AND set1) \<and>
       ev' = (if opt AND RT_EVENT_FLAG_CLEAR \<noteq> 0 then ev\<lparr>ev_set := ev_set ev AND NOT set1\<rparr> else ev)
     else ev' = ev \<and> recved = None \<and>
       (if time = 0 then out = Return (- RT_ETIMEOUT)
        else out = Blocked t \<and> blocked_in (event_list a) time s t s' \<and>
          event_set (thr s' t) = set1 \<and> event_info (thr s' t) = opt))"
proof -
  note O = event_okD [OF o]
  have c: "rt_current_thread s = Some t" by (rule running_thread(4) [OF O(1) st])
  have upd: "event_ok a ev (upd_thr t (\<lambda>x. x\<lparr>error := e\<rparr>) s)" for e
    using O upd_error_kinv [OF O(1)] by (auto simp: event_ok_def is_event_def rt_object_get_type_def)
  consider (now) "event_match opt set1 (ev_set ev) \<noteq> None" | (no) "event_match opt set1 (ev_set ev) = None" "time = 0"
    | (bl) "event_match opt set1 (ev_set ev) = None" "time \<noteq> 0" by blast
  then show ?thesis
  proof cases
    case now
    have "event_match info want (ev_set ev AND NOT set1) = None" if "event_match info want (ev_set ev) = None" for info want
      by (rule event_match_mono [OF that]) (simp add: and.commute and.left_commute)
    then have "event_ok a (ev\<lparr>ev_set := ev_set ev AND NOT set1\<rparr>) (upd_thr t (\<lambda>x. x\<lparr>error := RT_EOK\<rparr>) s)"
      using upd [of RT_EOK] by (auto simp: event_ok_def)
    then show ?thesis using now upd [of RT_EOK] O(3) c n op
      by (auto simp: rt_event_recv_call_def rt_thread_self_def rt_assert_holds Let_def)
  next
    case no
    then show ?thesis using upd [of "- RT_ETIMEOUT"] O(3) c n op
      by (auto simp: rt_event_recv_call_def rt_thread_self_def rt_assert_holds Let_def upd_thr_def)
  next
    case bl
    show ?thesis by (rule event_recv_blocks [OF o st r b bl(2) n op bl(1)]) (use bl in auto)
  qed
qed

theorem rt_event_recv_correct_witness:
  "\<exists>s'. rt_event_recv_call 3 3 6 0 \<lparr>ev_set = 2, ev_flag = 0\<rparr> (demo_event 3) =
     (s', \<lparr>ev_set = 0, ev_flag = 0\<rparr>, Return RT_EOK, Some 2)"
  using rt_event_recv_correct [OF demo_event_ok demo_event_facts(8,7), of 0 3 6 3]
  by (auto simp: event_match_def)

end
