(* ===== verification/Mailbox.thy ===== *)
theory Mailbox
  imports Ipc Fifo
begin

text \<open>
  The mailbox of \<^verbatim>\<open>rt-thread/src/ipc.c\<close>: a bounded ring of machine words with a waiting list of
  receivers and one of senders.  A store outside the message pool raises \<open>fault\<close>.
\<close>

section \<open>Definitions\<close>

record rt_mailbox =
  mb_pool :: "u32 list"
  mb_size :: u16
  mb_entry :: u16
  mb_in :: u16
  mb_out :: u16
  mb_flag :: u8

abbreviation mb_list :: "nat \<Rightarrow> lid" where "mb_list a \<equiv> Suspend_Thread (Mailbox_Obj a)"
abbreviation mb_senders :: "nat \<Rightarrow> lid" where "mb_senders a \<equiv> Suspend_Sender (Mailbox_Obj a)"

definition is_mailbox :: "nat \<Rightarrow> kernel \<Rightarrow> bool" where
  "is_mailbox a s \<longleftrightarrow> rt_object_get_type (Mailbox_Obj a) s = RT_Object_Class_MailBox"

definition rt_mb_init :: "nat \<Rightarrow> string \<Rightarrow> u32 list \<Rightarrow> u32 \<Rightarrow> u8 \<Rightarrow> kernel \<Rightarrow> kernel \<times> rt_mailbox" where
  "rt_mb_init a name msgpool size1 flag s =
     (let s1 = rt_object_init (Mailbox_Obj a) RT_Object_Class_MailBox name s;
          s2 = rt_ipc_object_init (mb_list a) s1;
          s3 = rt_ipc_object_init (mb_senders a) s2
      in (s3, \<lparr>mb_pool = msgpool, mb_size = ucast size1, mb_entry = 0, mb_in = 0, mb_out = 0, mb_flag = flag\<rparr>))"

definition mb_resume_all :: "nat \<Rightarrow> nat \<Rightarrow> kernel \<Rightarrow> kernel option" where
  "mb_resume_all fuel a s =
     Option.bind (rt_ipc_list_resume_all fuel (mb_list a) s) (rt_ipc_list_resume_all fuel (mb_senders a))"

definition rt_mb_detach :: "nat \<Rightarrow> nat \<Rightarrow> kernel \<Rightarrow> kernel option" where
  "rt_mb_detach fuel a s =
     (let s1 = rt_assert (is_mailbox a s) s;
          s2 = rt_assert (rt_object_is_systemobject (Mailbox_Obj a) s1) s1
      in map_option (rt_object_detach (Mailbox_Obj a)) (mb_resume_all fuel a s2))"

text \<open>\<open>pool\<close> is the memory \<^verbatim>\<open>RT_KERNEL_MALLOC\<close> returns for the messages.\<close>

definition rt_mb_create ::
    "nat option \<Rightarrow> u32 list option \<Rightarrow> string \<Rightarrow> u32 \<Rightarrow> u8 \<Rightarrow> kernel \<Rightarrow> kernel \<times> (nat \<times> rt_mailbox) option" where
  "rt_mb_create mem pool name size1 flag s =
     (let (s1, r) = rt_object_allocate (map_option Mailbox_Obj mem) RT_Object_Class_MailBox name s in
      case r of
        Some (Mailbox_Obj a) \<Rightarrow>
          let s2 = rt_ipc_object_init (mb_list a) s1 in
          (case pool of
             None \<Rightarrow> (rt_object_delete (Mailbox_Obj a) s2, None)
           | Some p \<Rightarrow> (rt_ipc_object_init (mb_senders a) s2,
               Some (a, \<lparr>mb_pool = p, mb_size = ucast size1, mb_entry = 0, mb_in = 0, mb_out = 0, mb_flag = flag\<rparr>)))
      | _ \<Rightarrow> (s1, None))"

definition rt_mb_delete :: "nat \<Rightarrow> nat \<Rightarrow> kernel \<Rightarrow> kernel option" where
  "rt_mb_delete fuel a s =
     (let s1 = rt_assert (is_mailbox a s) s;
          s2 = rt_assert (\<not> rt_object_is_systemobject (Mailbox_Obj a) s1) s1
      in map_option (rt_object_delete (Mailbox_Obj a)) (mb_resume_all fuel a s2))"

text \<open>Storing a message behind the waiting loop, and waking the first receiver.\<close>

definition mb_put :: "u32 \<Rightarrow> rt_mailbox \<Rightarrow> rt_mailbox" where
  "mb_put v mb = mb\<lparr>mb_pool := (mb_pool mb)[unat (mb_in mb) := v],
     mb_in := (if mb_in mb + 1 \<ge> mb_size mb then 0 else mb_in mb + 1), mb_entry := mb_entry mb + 1\<rparr>"

definition mb_deposit :: "nat \<Rightarrow> u32 \<Rightarrow> rt_mailbox \<Rightarrow> kernel \<Rightarrow> kernel \<times> rt_mailbox \<times> outcome" where
  "mb_deposit a v mb s =
     (let s1 = rt_assert (unat (mb_in mb) < length (mb_pool mb)) s in
      (wake (mb_list a) s1, mb_put v mb, Return RT_EOK))"

text \<open>The waiting loop of \<^verbatim>\<open>rt_mb_send_wait\<close>, up to the schedule or the end of the call.\<close>

definition mb_send_loop :: "nat \<Rightarrow> u32 \<Rightarrow> int \<Rightarrow> tid option \<Rightarrow> rt_mailbox \<Rightarrow> kernel \<Rightarrow> kernel \<times> rt_mailbox \<times> outcome" where
  "mb_send_loop a v timeout self mb s =
     (if mb_entry mb = mb_size mb
      then if timeout = 0 then (give_up self RT_EOK s, mb, Return (- RT_EFULL))
           else let (s1, out) = block_self (mb_senders a) self (mb_flag mb) timeout s in (s1, mb, out)
      else mb_deposit a v mb s)"

definition rt_mb_send_wait_call :: "nat \<Rightarrow> u32 \<Rightarrow> int \<Rightarrow> rt_mailbox \<Rightarrow> kernel \<Rightarrow> kernel \<times> rt_mailbox \<times> outcome" where
  "rt_mb_send_wait_call a v timeout mb s =
     (let s0 = rt_assert (is_mailbox a s) s in
      if mb_entry mb = mb_size mb \<and> timeout = 0 then (s0, mb, Return (- RT_EFULL))
      else mb_send_loop a v timeout (rt_thread_self s0) mb s0)"

text \<open>\<open>start\<close> is the tick at which the thread blocked.\<close>

definition rt_mb_send_wait_return ::
    "nat \<Rightarrow> u32 \<Rightarrow> int \<Rightarrow> u32 \<Rightarrow> tid \<Rightarrow> rt_mailbox \<Rightarrow> kernel \<Rightarrow> kernel \<times> rt_mailbox \<times> outcome" where
  "rt_mb_send_wait_return a v timeout start thread mb s =
     (if error (thr s thread) \<noteq> RT_EOK then (s, mb, Return (error (thr s thread)))
      else mb_send_loop a v (wait_left timeout start (rt_tick s)) (Some thread) mb s)"

definition rt_mb_send :: "nat \<Rightarrow> u32 \<Rightarrow> rt_mailbox \<Rightarrow> kernel \<Rightarrow> kernel \<times> rt_mailbox \<times> outcome" where
  "rt_mb_send a v mb s = rt_mb_send_wait_call a v 0 mb s"

definition mb_take :: "rt_mailbox \<Rightarrow> rt_mailbox" where
  "mb_take mb = mb\<lparr>mb_out := (if mb_out mb + 1 \<ge> mb_size mb then 0 else mb_out mb + 1), mb_entry := mb_entry mb - 1\<rparr>"

definition mb_fetch :: "nat \<Rightarrow> rt_mailbox \<Rightarrow> kernel \<Rightarrow> kernel \<times> rt_mailbox \<times> outcome \<times> u32 option" where
  "mb_fetch a mb s =
     (let s1 = rt_assert (unat (mb_out mb) < length (mb_pool mb)) s;
          v = (if unat (mb_out mb) < length (mb_pool mb) then mb_pool mb ! unat (mb_out mb) else 0)
      in (wake (mb_senders a) s1, mb_take mb, Return RT_EOK, Some v))"

definition mb_recv_loop ::
    "nat \<Rightarrow> int \<Rightarrow> tid option \<Rightarrow> rt_mailbox \<Rightarrow> kernel \<Rightarrow> kernel \<times> rt_mailbox \<times> outcome \<times> u32 option" where
  "mb_recv_loop a timeout self mb s =
     (if mb_entry mb = 0
      then if timeout = 0 then (give_up self (- RT_ETIMEOUT) s, mb, Return (- RT_ETIMEOUT), None)
           else let (s1, out) = block_self (mb_list a) self (mb_flag mb) timeout s in (s1, mb, out, None)
      else mb_fetch a mb s)"

definition rt_mb_recv_call :: "nat \<Rightarrow> int \<Rightarrow> rt_mailbox \<Rightarrow> kernel \<Rightarrow> kernel \<times> rt_mailbox \<times> outcome \<times> u32 option" where
  "rt_mb_recv_call a timeout mb s =
     (let s0 = rt_assert (is_mailbox a s) s in
      if mb_entry mb = 0 \<and> timeout = 0 then (s0, mb, Return (- RT_ETIMEOUT), None)
      else mb_recv_loop a timeout (rt_thread_self s0) mb s0)"

definition rt_mb_recv_return ::
    "nat \<Rightarrow> int \<Rightarrow> u32 \<Rightarrow> tid \<Rightarrow> rt_mailbox \<Rightarrow> kernel \<Rightarrow> kernel \<times> rt_mailbox \<times> outcome \<times> u32 option" where
  "rt_mb_recv_return a timeout start thread mb s =
     (if error (thr s thread) \<noteq> RT_EOK then (s, mb, Return (error (thr s thread)), None)
      else mb_recv_loop a (wait_left timeout start (rt_tick s)) (Some thread) mb s)"

definition rt_mb_control :: "nat \<Rightarrow> nat \<Rightarrow> int \<Rightarrow> rt_mailbox \<Rightarrow> kernel \<Rightarrow> (kernel \<times> rt_mailbox \<times> rt_err) option" where
  "rt_mb_control fuel a cmd mb s =
     (let s0 = rt_assert (is_mailbox a s) s in
      if cmd = RT_IPC_CMD_RESET
      then map_option (\<lambda>s1. (rt_schedule s1, mb\<lparr>mb_entry := 0, mb_in := 0, mb_out := 0\<rparr>, RT_EOK)) (mb_resume_all fuel a s0)
      else Some (s0, mb, - RT_ERROR))"

section \<open>The ring of messages\<close>

definition mb_inv :: "rt_mailbox \<Rightarrow> bool" where
  "mb_inv mb \<longleftrightarrow> 0 < mb_size mb \<and> unat (mb_size mb) \<le> length (mb_pool mb) \<and> mb_entry mb \<le> mb_size mb \<and>
     mb_out mb < mb_size mb \<and> unat (mb_in mb) = (unat (mb_out mb) + unat (mb_entry mb)) mod unat (mb_size mb)"

definition mb_contents :: "rt_mailbox \<Rightarrow> u32 list" where
  "mb_contents mb = ring_list (mb_pool mb) (unat (mb_size mb)) (unat (mb_out mb)) (unat (mb_entry mb))"

lemma mb_contents_length [simp]: "length (mb_contents mb) = unat (mb_entry mb)"
  by (simp add: mb_contents_def)

lemma mb_inv_nat:
  "mb_inv mb \<longleftrightarrow> 0 < unat (mb_size mb) \<and> unat (mb_size mb) \<le> length (mb_pool mb) \<and>
     unat (mb_entry mb) \<le> unat (mb_size mb) \<and> unat (mb_out mb) < unat (mb_size mb) \<and>
     unat (mb_in mb) = (unat (mb_out mb) + unat (mb_entry mb)) mod unat (mb_size mb)"
  unfolding mb_inv_def word_less_nat_alt word_le_nat_alt unat_0 ..

lemma mb_put_correct:
  assumes i: "mb_inv mb" and n: "mb_entry mb \<noteq> mb_size mb"
  shows "unat (mb_in mb) < length (mb_pool mb)" "mb_inv (mb_put v mb)"
    "mb_contents (mb_put v mb) = mb_contents mb @ [v]" "mb_size (mb_put v mb) = mb_size mb" "mb_flag (mb_put v mb) = mb_flag mb"
proof -
  let ?n = "unat (mb_size mb)" and ?o = "unat (mb_out mb)" and ?e = "unat (mb_entry mb)"
  have "?e \<noteq> ?n" using n by (simp add: word_unat_eq_iff)
  then have I: "0 < ?n" "?n \<le> length (mb_pool mb)" "?e < ?n" "?o < ?n" "unat (mb_in mb) = (?o + ?e) mod ?n"
    using i by (auto simp: mb_inv_nat)
  have b: "unat (mb_in mb) < ?n" using I by simp
  then show m: "unat (mb_in mb) < length (mb_pool mb)" using I(2) by linarith
  have "?e + 1 < 65536" using I(3) unat_u16_less [of "mb_size mb"] by linarith
  then have e: "unat (mb_entry mb + 1) = Suc ?e" by (simp add: unat_word_ariths)
  have w: "unat (if mb_in mb + 1 \<ge> mb_size mb then 0 else mb_in mb + 1) = (?o + Suc ?e) mod ?n"
    using ring_step [of "mb_in mb" "mb_size mb"] b I(5) by (simp add: word_less_nat_alt mod_simps)
  show "mb_inv (mb_put v mb)" unfolding mb_inv_nat using I w by (simp add: mb_put_def e)
  show "mb_contents (mb_put v mb) = mb_contents mb @ [v]"
    using ring_list_push [OF I(3,2), of ?o v] I(5) by (simp add: mb_contents_def mb_put_def e)
  show "mb_size (mb_put v mb) = mb_size mb" "mb_flag (mb_put v mb) = mb_flag mb" by (simp_all add: mb_put_def)
qed

lemma mb_take_correct:
  assumes i: "mb_inv mb" and n: "mb_entry mb \<noteq> 0"
  shows "unat (mb_out mb) < length (mb_pool mb)" "mb_inv (mb_take mb)"
    "mb_contents mb = mb_pool mb ! unat (mb_out mb) # mb_contents (mb_take mb)"
    "mb_size (mb_take mb) = mb_size mb" "mb_flag (mb_take mb) = mb_flag mb"
proof -
  let ?n = "unat (mb_size mb)" and ?o = "unat (mb_out mb)" and ?e = "unat (mb_entry mb)"
  have I: "0 < ?n" "?n \<le> length (mb_pool mb)" "?e \<le> ?n" "?o < ?n" "unat (mb_in mb) = (?o + ?e) mod ?n"
    using i by (auto simp: mb_inv_nat)
  then show "?o < length (mb_pool mb)" by linarith
  have e: "unat (mb_entry mb - 1) = ?e - 1" "0 < ?e" using n by (simp_all add: unat_minus_one unat_gt_0)
  have w: "unat (if mb_out mb + 1 \<ge> mb_size mb then 0 else mb_out mb + 1) = (?o + 1) mod ?n"
    by (rule ring_step) (use I(4) in \<open>simp add: word_less_nat_alt\<close>)
  have "((?o + 1) mod ?n + (?e - 1)) mod ?n = (?o + 1 + (?e - 1)) mod ?n" by (rule mod_add_left_eq)
  also have "?o + 1 + (?e - 1) = ?o + ?e" using e(2) by simp
  finally have "((?o + 1) mod ?n + (?e - 1)) mod ?n = (?o + ?e) mod ?n" .
  then show "mb_inv (mb_take mb)" unfolding mb_inv_nat using I w by (simp add: mb_take_def e)
  show "mb_contents mb = mb_pool mb ! ?o # mb_contents (mb_take mb)"
    using ring_list_pop [OF e(2) I(4)] w by (simp add: mb_contents_def mb_take_def e(1))
  show "mb_size (mb_take mb) = mb_size mb" "mb_flag (mb_take mb) = mb_flag mb" by (simp_all add: mb_take_def)
qed

section \<open>The invariant\<close>

definition mailbox_ok :: "nat \<Rightarrow> rt_mailbox \<Rightarrow> kernel \<Rightarrow> bool" where
  "mailbox_ok a mb s \<longleftrightarrow> ipc_ok (Mailbox_Obj a) (mb_flag mb) s \<and> is_mailbox a s \<and> mb_inv mb"

lemma is_mailbox_objs: "is_mailbox a s \<Longrightarrow> objs s' = objs s \<Longrightarrow> is_mailbox a s'"
  by (simp add: is_mailbox_def rt_object_get_type_def)

lemma mb_deposit_state:
  assumes o: "mailbox_ok a mb s" and n: "mb_entry mb \<noteq> mb_size mb"
  obtains s' where "mb_deposit a v mb s = (s', mb_put v mb, Return RT_EOK)" "mailbox_ok a (mb_put v mb) s'"
    "fault s' = fault s" "woken (mb_list a) s s'" "tlists s' (mb_senders a) = tlists s (mb_senders a)"
proof -
  have O: "ipc_ok (Mailbox_Obj a) (mb_flag mb) s" "is_mailbox a s" "mb_inv mb" using o by (simp_all add: mailbox_ok_def)
  note P = mb_put_correct [OF O(3) n]
  note W = ipc_wake [OF O(1) disjI1 [OF refl]]
  show ?thesis
  proof (rule that [of "wake (mb_list a) s"])
    show "mb_deposit a v mb s = (wake (mb_list a) s, mb_put v mb, Return RT_EOK)"
      using P(1) by (simp add: mb_deposit_def rt_assert_holds)
    show "mailbox_ok a (mb_put v mb) (wake (mb_list a) s)"
      using W(1) is_mailbox_objs [OF O(2) W(4)] P by (simp add: mailbox_ok_def)
  qed (use W in auto)
qed

lemma mb_fetch_state:
  assumes o: "mailbox_ok a mb s" and n: "mb_entry mb \<noteq> 0"
  obtains s' v where "mb_fetch a mb s = (s', mb_take mb, Return RT_EOK, Some v)" "mailbox_ok a (mb_take mb) s'"
    "mb_contents mb = v # mb_contents (mb_take mb)"
    "fault s' = fault s" "woken (mb_senders a) s s'" "tlists s' (mb_list a) = tlists s (mb_list a)"
proof -
  have O: "ipc_ok (Mailbox_Obj a) (mb_flag mb) s" "is_mailbox a s" "mb_inv mb" using o by (simp_all add: mailbox_ok_def)
  note P = mb_take_correct [OF O(3) n]
  note W = ipc_wake [OF O(1) disjI2 [OF refl]]
  show ?thesis
  proof (rule that [of "wake (mb_senders a) s"])
    show "mb_fetch a mb s = (wake (mb_senders a) s, mb_take mb, Return RT_EOK, Some (mb_pool mb ! unat (mb_out mb)))"
      using P(1) by (simp add: mb_fetch_def rt_assert_holds Let_def)
    show "mailbox_ok a (mb_take mb) (wake (mb_senders a) s)"
      using W(1) is_mailbox_objs [OF O(2) W(4)] P by (simp add: mailbox_ok_def)
  qed (use W P(3) in auto)
qed

lemma mailbox_blocks:
  assumes o: "mailbox_ok a mb s" and l: "l = mb_list a \<or> l = mb_senders a" and st: "tstat s t = RT_THREAD_RUNNING"
    and r: "registered t s" and b: "time < 0x7fffffff"
  obtains s' where "block_self l (Some t) (mb_flag mb) time s = (s', Blocked t)" "mailbox_ok a mb s'" "fault s' = fault s"
    "blocked_in l time s t s'" "tlists s' l = joined (mb_flag mb) s t (tlists s l)"
proof -
  have O: "ipc_ok (Mailbox_Obj a) (mb_flag mb) s" "is_mailbox a s" "mb_inv mb" using o by (simp_all add: mailbox_ok_def)
  show ?thesis
    by (rule ipc_blocks [OF O(1) l st r b]) (rule that; use is_mailbox_objs [OF O(2)] O(3) in \<open>simp add: mailbox_ok_def\<close>)
qed

section \<open>A queue of messages\<close>

text \<open>The non-blocking calls as the operations of a bounded queue.\<close>

definition mb_send_op :: "nat \<Rightarrow> kernel \<times> rt_mailbox \<Rightarrow> u32 \<Rightarrow> ((kernel \<times> rt_mailbox) \<times> bool) option" where
  "mb_send_op a st v =
     (case rt_mb_send a v (snd st) (fst st) of (s', mb', out) \<Rightarrow>
        if fault s' then None else Some ((s', mb'), out = Return RT_EOK))"

definition mb_recv_op :: "nat \<Rightarrow> kernel \<times> rt_mailbox \<Rightarrow> ((kernel \<times> rt_mailbox) \<times> u32 option) option" where
  "mb_recv_op a st =
     (case rt_mb_recv_call a 0 (snd st) (fst st) of (s', mb', out, v) \<Rightarrow> if fault s' then None else Some ((s', mb'), v))"

lemma mb_send_room:
  assumes o: "mailbox_ok a mb s" and n: "mb_entry mb \<noteq> mb_size mb"
  obtains s' where "rt_mb_send_wait_call a v time mb s = (s', mb_put v mb, Return RT_EOK)" "mailbox_ok a (mb_put v mb) s'"
    "fault s' = fault s" "woken (mb_list a) s s'" "tlists s' (mb_senders a) = tlists s (mb_senders a)"
proof (rule mb_deposit_state [OF o n, where v = v])
  have e: "rt_mb_send_wait_call a v time mb s = mb_deposit a v mb s"
    using o n by (simp add: rt_mb_send_wait_call_def mb_send_loop_def mailbox_ok_def rt_assert_holds)
  fix s' assume "mb_deposit a v mb s = (s', mb_put v mb, Return RT_EOK)" "mailbox_ok a (mb_put v mb) s'"
    "fault s' = fault s" "woken (mb_list a) s s'" "tlists s' (mb_senders a) = tlists s (mb_senders a)"
  then show ?thesis using that e by simp
qed

lemma mb_recv_some:
  assumes o: "mailbox_ok a mb s" and n: "mb_entry mb \<noteq> 0"
  obtains s' v where "rt_mb_recv_call a time mb s = (s', mb_take mb, Return RT_EOK, Some v)" "mailbox_ok a (mb_take mb) s'"
    "mb_contents mb = v # mb_contents (mb_take mb)"
    "fault s' = fault s" "woken (mb_senders a) s s'" "tlists s' (mb_list a) = tlists s (mb_list a)"
proof (rule mb_fetch_state [OF o n])
  have e: "rt_mb_recv_call a time mb s = mb_fetch a mb s"
    using o n by (simp add: rt_mb_recv_call_def mb_recv_loop_def mailbox_ok_def rt_assert_holds)
  fix s' v assume "mb_fetch a mb s = (s', mb_take mb, Return RT_EOK, Some v)" "mailbox_ok a (mb_take mb) s'"
    "mb_contents mb = v # mb_contents (mb_take mb)"
    "fault s' = fault s" "woken (mb_senders a) s s'" "tlists s' (mb_list a) = tlists s (mb_list a)"
  then show ?thesis using that e by simp
qed

interpretation mbq: fifo "\<lambda>st. mailbox_ok a (snd st) (fst st) \<and> \<not> fault (fst st)" "\<lambda>st. mb_contents (snd st)"
  "\<lambda>st. unat (mb_size (snd st))" "mb_send_op a" "mb_recv_op a" for a
proof
  fix st :: "kernel \<times> rt_mailbox" and v x xs
  assume i: "mailbox_ok a (snd st) (fst st) \<and> \<not> fault (fst st)"
  obtain s mb where st: "st = (s, mb)" by (cases st)
  have o: "mailbox_ok a mb s" "\<not> fault s" using i st by simp_all
  have iv: "mb_inv mb" "is_mailbox a s" using o(1) by (simp_all add: mailbox_ok_def)
  show "length (mb_contents (snd st)) \<le> unat (mb_size (snd st))" using iv(1) st by (simp add: mb_inv_nat)
  show "\<exists>st'. mb_send_op a st v = Some (st', True) \<and> (mailbox_ok a (snd st') (fst st') \<and> \<not> fault (fst st')) \<and>
      mb_contents (snd st') = mb_contents (snd st) @ [v] \<and> unat (mb_size (snd st')) = unat (mb_size (snd st))"
    if "length (mb_contents (snd st)) < unat (mb_size (snd st))"
  proof -
    have n: "mb_entry mb \<noteq> mb_size mb" using that st by auto
    note P = mb_put_correct(3,4) [OF iv(1) n]
    show ?thesis
      by (rule mb_send_room [OF o(1) n, where v = v and time = 0])
         (use P o(2) in \<open>auto simp: mb_send_op_def rt_mb_send_def st\<close>)
  qed
  show "\<exists>st'. mb_send_op a st v = Some (st', False) \<and> (mailbox_ok a (snd st') (fst st') \<and> \<not> fault (fst st')) \<and>
      mb_contents (snd st') = mb_contents (snd st) \<and> unat (mb_size (snd st')) = unat (mb_size (snd st))"
    if "length (mb_contents (snd st)) = unat (mb_size (snd st))"
  proof -
    have "mb_entry mb = mb_size mb" using that st by (simp add: word_unat_eq_iff)
    then show ?thesis using o iv(2)
      by (auto simp: mb_send_op_def rt_mb_send_def st rt_mb_send_wait_call_def rt_assert_holds rt_err_defs)
  qed
  show "\<exists>st'. mb_recv_op a st = Some (st', Some x) \<and> (mailbox_ok a (snd st') (fst st') \<and> \<not> fault (fst st')) \<and>
      mb_contents (snd st') = xs \<and> unat (mb_size (snd st')) = unat (mb_size (snd st))"
    if "mb_contents (snd st) = x # xs"
  proof -
    have n: "mb_entry mb \<noteq> 0" using that st by (auto simp: mb_contents_def)
    note P = mb_take_correct(4) [OF iv(1) n]
    show ?thesis
      by (rule mb_recv_some [OF o(1) n, where time = 0]) (use P o(2) that in \<open>auto simp: mb_recv_op_def st\<close>)
  qed
  show "\<exists>st'. mb_recv_op a st = Some (st', None) \<and> (mailbox_ok a (snd st') (fst st') \<and> \<not> fault (fst st')) \<and>
      mb_contents (snd st') = [] \<and> unat (mb_size (snd st')) = unat (mb_size (snd st))"
    if "mb_contents (snd st) = []"
  proof -
    have "length (mb_contents mb) = 0" using that st by simp
    then have "mb_entry mb = 0" by (simp add: unat_eq_zero)
    then show ?thesis using o iv(2) that by (simp add: mb_recv_op_def st rt_mb_recv_call_def rt_assert_holds)
  qed
qed

section \<open>Properties\<close>

text \<open>C32: A mailbox is a bounded queue.  Over any history of \<^verbatim>\<open>rt_mb_send\<close> and non-blocking \<^verbatim>\<open>rt_mb_recv\<close>
  calls, whatever threads wait on it, the mailbox stays memory safe, keeps its invariant and the
  kernel's, and delivers the accepted messages in order, none lost and none twice.\<close>

theorem rt_mb_stream:
  assumes "mailbox_ok a mb s" "\<not> fault s"
  shows "\<exists>s' mb' acc del. fifo_run (mb_send_op a) (mb_recv_op a) (s, mb) ops = Some ((s', mb'), acc, del) \<and>
    mailbox_ok a mb' s' \<and> \<not> fault s' \<and> mb_size mb' = mb_size mb \<and> mb_contents mb @ acc = del @ mb_contents mb'"
  using mbq.run_history [of a "(s, mb)" ops] assms by (auto simp: word_unat_eq_iff)

definition demo_mb :: rt_mailbox where
  "demo_mb = \<lparr>mb_pool = [7, 8], mb_size = 2, mb_entry = 2, mb_in = 1, mb_out = 1, mb_flag = 0\<rparr>"

lemma demo_mb_ok: "mailbox_ok a demo_mb (demo_wait (Mailbox_Obj a))" "mailbox_ok a (mb_take demo_mb) (demo_wait (Mailbox_Obj a))"
  by (simp_all add: mailbox_ok_def ipc_ok_def mb_inv_def demo_mb_def mb_take_def demo_wait_kinv demo_wait_facts demo_wait_registered
      is_mailbox_def rt_object_get_type_def demo_objs_def RT_Object_Class_Static_def RT_Object_Class_MailBox_def)

lemma demo_wait_fault: "\<not> fault (demo_wait ob)"
  by (simp add: demo_wait_def thread_insert_before_def thread_link_def demo_typed_def demo_base_def kernel0_def thread0_def)

theorem rt_mb_stream_witness:
  "\<exists>s' mb' acc del. fifo_run (mb_send_op 4) (mb_recv_op 4) (demo_wait (Mailbox_Obj 4), demo_mb) [Get, Put 9, Get] =
     Some ((s', mb'), acc, del) \<and> [8, 7] @ acc = del @ mb_contents mb'"
proof -
  have "mb_contents demo_mb = [8, 7]" by (simp add: mb_contents_def demo_mb_def ring_list_def upt_rec)
  then show ?thesis using rt_mb_stream [OF demo_mb_ok(1) demo_wait_fault, of 4 "[Get, Put 9, Get]"] by auto
qed

text \<open>Sending to a mailbox with a timeout.  With room the message is appended and the first waiting
  receiver is woken; on a full mailbox the call refuses with \<^verbatim>\<open>-RT_EFULL\<close> or blocks the sender in
  the list of senders and keeps the messages.  A blocked sender that wakes up without error tries
  again with the rest of its timeout, any other returns the error of its thread.\<close>

theorem rt_mb_send_wait_correct:
  assumes o: "mailbox_ok a mb s" and st: "tstat s t = RT_THREAD_RUNNING" and r: "registered t s" and b: "time < 0x7fffffff"
  shows "\<exists>s' mb' out. rt_mb_send_wait_call a v time mb s = (s', mb', out) \<and> mailbox_ok a mb' s' \<and> fault s' = fault s \<and>
    (if unat (mb_entry mb) < unat (mb_size mb)
     then out = Return RT_EOK \<and> mb_contents mb' = mb_contents mb @ [v] \<and> woken (mb_list a) s s'
     else mb' = mb \<and>
       (if time = 0 then out = Return (- RT_EFULL) \<and> s' = s
        else out = Blocked t \<and> blocked_in (mb_senders a) time s t s' \<and>
          (\<forall>w. rt_mb_send_wait_return a v time (rt_tick s) t mb w =
             (if error (thr w t) \<noteq> RT_EOK then (w, mb, Return (error (thr w t)))
              else mb_send_loop a v (wait_left time (rt_tick s) (rt_tick w)) (Some t) mb w))))"
proof -
  have O: "ipc_ok (Mailbox_Obj a) (mb_flag mb) s" "is_mailbox a s" "mb_inv mb" using o by (simp_all add: mailbox_ok_def)
  have c: "rt_current_thread s = Some t" by (rule running_thread(4) [OF ipc_okD(1) [OF O(1)] st])
  have full: "unat (mb_entry mb) < unat (mb_size mb) \<longleftrightarrow> mb_entry mb \<noteq> mb_size mb"
    using O(3) by (auto simp: mb_inv_nat word_unat_eq_iff)
  consider (room) "mb_entry mb \<noteq> mb_size mb" | (no) "mb_entry mb = mb_size mb" "time = 0"
    | (bl) "mb_entry mb = mb_size mb" "time \<noteq> 0" by blast
  then show ?thesis
  proof cases
    case room
    show ?thesis
      by (rule mb_send_room [OF o room, where v = v and time = time])
         (use room mb_put_correct(3) [OF O(3) room] full in simp)
  next
    case no
    then show ?thesis using o O(2) full by (simp add: rt_mb_send_wait_call_def rt_assert_holds)
  next
    case bl
    show ?thesis
      by (rule mailbox_blocks [OF o disjI2 [OF refl] st r b])
         (use bl O(2) c full in \<open>simp add: rt_mb_send_wait_call_def mb_send_loop_def rt_assert_holds rt_thread_self_def
            rt_mb_send_wait_return_def\<close>)
  qed
qed

theorem rt_mb_send_wait_correct_witness:
  "snd (snd (rt_mb_send_wait_call 4 9 50 demo_mb (demo_wait (Mailbox_Obj 4)))) = Blocked 1"
  using rt_mb_send_wait_correct [OF demo_mb_ok(1) demo_wait_facts(4) demo_wait_registered, of 50 4 9]
  by (auto simp: demo_mb_def)

text \<open>Receiving from a mailbox.  The oldest message is delivered and the first waiting sender is
  woken; on an empty mailbox the call refuses with \<^verbatim>\<open>-RT_ETIMEOUT\<close> or blocks the receiver.\<close>

theorem rt_mb_recv_correct:
  assumes o: "mailbox_ok a mb s" and st: "tstat s t = RT_THREAD_RUNNING" and r: "registered t s" and b: "time < 0x7fffffff"
  shows "\<exists>s' mb' out v. rt_mb_recv_call a time mb s = (s', mb', out, v) \<and> mailbox_ok a mb' s' \<and> fault s' = fault s \<and>
    (case mb_contents mb of
       x # xs \<Rightarrow> out = Return RT_EOK \<and> v = Some x \<and> mb_contents mb' = xs \<and> woken (mb_senders a) s s'
     | [] \<Rightarrow> mb' = mb \<and> v = None \<and>
       (if time = 0 then out = Return (- RT_ETIMEOUT) \<and> s' = s
        else out = Blocked t \<and> blocked_in (mb_list a) time s t s'))"
proof -
  have O: "ipc_ok (Mailbox_Obj a) (mb_flag mb) s" "is_mailbox a s" "mb_inv mb" using o by (simp_all add: mailbox_ok_def)
  have c: "rt_current_thread s = Some t" by (rule running_thread(4) [OF ipc_okD(1) [OF O(1)] st])
  have em: "mb_contents mb = []" if "mb_entry mb = 0" using that by (simp add: mb_contents_def)
  consider (some) "mb_entry mb \<noteq> 0" | (no) "mb_entry mb = 0" "time = 0" | (bl) "mb_entry mb = 0" "time \<noteq> 0" by blast
  then show ?thesis
  proof cases
    case some
    show ?thesis by (rule mb_recv_some [OF o some, where time = time]) simp
  next
    case no
    then show ?thesis using o O(2) em by (simp add: rt_mb_recv_call_def rt_assert_holds)
  next
    case bl
    show ?thesis
      by (rule mailbox_blocks [OF o disjI1 [OF refl] st r b])
         (use bl O(2) c em in \<open>simp add: rt_mb_recv_call_def mb_recv_loop_def rt_assert_holds rt_thread_self_def\<close>)
  qed
qed

theorem rt_mb_recv_correct_witness:
  "snd (snd (snd (rt_mb_recv_call 4 50 demo_mb (demo_wait (Mailbox_Obj 4))))) = Some 8"
proof -
  have "mb_contents demo_mb = [8, 7]" by (simp add: mb_contents_def demo_mb_def ring_list_def upt_rec)
  then show ?thesis
    using rt_mb_recv_correct [OF demo_mb_ok(1) demo_wait_facts(4) demo_wait_registered, of 50 4] by auto
qed

text \<open>The rest of a bounded wait.  A thread that was woken \<open>e\<close> ticks after it blocked, with \<open>e\<close> below
  half the tick range, waits again for what is left of its timeout and never for longer: the
  mixed signed and unsigned arithmetic gives \<open>max 0 (timeout - e)\<close>, also across a wrap of the tick.\<close>

theorem wait_left_bounds:
  assumes "0 < timeout" "timeout < 2 ^ 31" "unat (now - start) < 2 ^ 31"
  shows "wait_left timeout start now = max 0 (timeout - int (unat (now - start))) \<and>
    0 \<le> wait_left timeout start now \<and> wait_left timeout start now \<le> timeout"
  using wait_left_exact [OF assms] assms(1) by simp

theorem wait_left_bounds_witness: "wait_left 100 (- 10) 20 = 70"
  using wait_left_bounds [of 100 20 "- 10"] by simp

end
