(* ===== verification/Chain.thy ===== *)
theory Chain
  imports Prelude
begin

text \<open>
  Singly linked lists as the message queues and memory pools keep them: a head and a \<open>next\<close> link
  per node.  \<open>chain nxt p xs\<close> says that the nodes reached from \<open>p\<close> are \<open>xs\<close>, ending in a null link.
\<close>

fun chain :: "('a \<Rightarrow> 'a option) \<Rightarrow> 'a option \<Rightarrow> 'a list \<Rightarrow> bool" where
  "chain nxt p [] \<longleftrightarrow> p = None"
| "chain nxt p (x # xs) \<longleftrightarrow> p = Some x \<and> chain nxt (nxt x) xs"

lemma chain_None [simp]: "chain nxt None xs \<longleftrightarrow> xs = []"
  by (cases xs) auto

lemma chain_Some: "chain nxt (Some x) xs \<longleftrightarrow> (\<exists>ys. xs = x # ys \<and> chain nxt (nxt x) ys)"
  by (cases xs) auto

lemma chain_unique: "chain nxt p xs \<Longrightarrow> chain nxt p ys \<Longrightarrow> xs = ys"
proof (induction xs arbitrary: p ys)
  case (Cons x xs)
  then show ?case by (cases ys) auto
qed simp

lemma chain_cong: "(\<And>x. x \<in> set xs \<Longrightarrow> nxt x = nxt' x) \<Longrightarrow> chain nxt p xs = chain nxt' p xs"
  by (induction xs arbitrary: p) auto

lemma chain_upd [simp]: "x \<notin> set xs \<Longrightarrow> chain (nxt(x := y)) p xs = chain nxt p xs"
  by (rule chain_cong) auto

text \<open>Appending a node behind the last one.\<close>

lemma chain_snoc:
  "\<lbrakk>chain nxt p xs; xs \<noteq> []; x \<notin> set xs; distinct xs; nxt x = None\<rbrakk> \<Longrightarrow> chain (nxt(last xs := Some x)) p (xs @ [x])"
proof (induction xs arbitrary: p)
  case (Cons y ys)
  show ?case
  proof (cases ys)
    case Nil
    then show ?thesis using Cons.prems by auto
  next
    case (Cons z zs)
    then show ?thesis using Cons.IH [of "nxt y"] Cons.prems by auto
  qed
qed simp

text \<open>Walking a chain for at most \<open>n\<close> nodes.\<close>

fun walk :: "nat \<Rightarrow> ('a \<Rightarrow> 'a option) \<Rightarrow> 'a option \<Rightarrow> 'a list" where
  "walk 0 nxt p = []"
| "walk (Suc n) nxt p = (case p of None \<Rightarrow> [] | Some x \<Rightarrow> x # walk n nxt (nxt x))"

lemma walk_chain: "chain nxt p xs \<Longrightarrow> length xs \<le> n \<Longrightarrow> walk n nxt p = xs"
proof (induction xs arbitrary: p n)
  case Nil
  then show ?case by (cases n) simp_all
next
  case (Cons x xs)
  then show ?case by (cases n) auto
qed

text \<open>Threading fresh nodes onto a free list one by one, the last one first.\<close>

definition thread_free :: "'a list \<Rightarrow> ('a \<Rightarrow> 'a option) \<Rightarrow> ('a \<Rightarrow> 'a option) \<times> 'a option" where
  "thread_free xs nxt = fold (\<lambda>x (nx, free). (nx(x := free), Some x)) xs (nxt, None)"

lemma thread_free_chain:
  "distinct xs \<Longrightarrow> chain (fst (thread_free xs nxt)) (snd (thread_free xs nxt)) (rev xs)"
proof (induction xs rule: rev_induct)
  case (snoc x xs)
  have e: "thread_free (xs @ [x]) nxt = ((fst (thread_free xs nxt))(x := snd (thread_free xs nxt)), Some x)"
    by (simp add: thread_free_def case_prod_beta)
  have "chain ((fst (thread_free xs nxt))(x := snd (thread_free xs nxt))) (snd (thread_free xs nxt)) (rev xs)"
    using snoc by (subst chain_upd) auto
  then show ?case unfolding e by (simp add: fun_upd_def)
qed (simp add: thread_free_def)

end
