(* ===== verification/Msgqueue.thy ===== *)
theory Msgqueue
  imports Ipc Chain
begin

text \<open>
  The message queue of \<^verbatim>\<open>rt-thread/src/ipc.c\<close> with its message pool: \<open>max_msgs\<close> slots of \<open>msg_size\<close>
  bytes, chained by their \<^verbatim>\<open>next\<close> pointers into the queue of messages or the free list.  A slot is
  named by its index in the pool.  The functions copy the message with interrupts enabled,
  between two critical sections; each section is a definition of its own.
\<close>

section \<open>Definitions\<close>

record rt_messagequeue =
  mq_next :: "nat \<Rightarrow> nat option"
  mq_data :: "nat \<Rightarrow> u8 list"
  mq_msg_size :: u16
  mq_max_msgs :: u16
  mq_entry :: u16
  mq_head :: "nat option"
  mq_tail :: "nat option"
  mq_free :: "nat option"
  mq_flag :: u8

abbreviation mq_list :: "nat \<Rightarrow> lid" where "mq_list a \<equiv> Suspend_Thread (Mq_Obj a)"
abbreviation mq_senders :: "nat \<Rightarrow> lid" where "mq_senders a \<equiv> Suspend_Sender (Mq_Obj a)"

definition is_mq :: "nat \<Rightarrow> kernel \<Rightarrow> bool" where
  "is_mq a s \<longleftrightarrow> rt_object_get_type (Mq_Obj a) s = RT_Object_Class_MessageQueue"

text \<open>The queue after its pool was threaded onto the free list; \<open>nxt\<close> and \<open>data\<close> are the old contents
  of the pool memory.\<close>

definition mq_fresh :: "(nat \<Rightarrow> nat option) \<Rightarrow> (nat \<Rightarrow> u8 list) \<Rightarrow> u16 \<Rightarrow> u16 \<Rightarrow> u8 \<Rightarrow> rt_messagequeue" where
  "mq_fresh nxt data1 msg_size max_msgs flag =
     (let (nx, free) = thread_free [0..<unat max_msgs] nxt
      in \<lparr>mq_next = nx, mq_data = data1, mq_msg_size = msg_size, mq_max_msgs = max_msgs, mq_entry = 0,
          mq_head = None, mq_tail = None, mq_free = free, mq_flag = flag\<rparr>)"

definition rt_mq_init ::
    "nat \<Rightarrow> string \<Rightarrow> (nat \<Rightarrow> nat option) \<Rightarrow> (nat \<Rightarrow> u8 list) \<Rightarrow> u32 \<Rightarrow> u32 \<Rightarrow> u8 \<Rightarrow> kernel \<Rightarrow> kernel \<times> rt_messagequeue" where
  "rt_mq_init a name nxt data1 msg_size pool_size flag s =
     (let s1 = rt_object_init (Mq_Obj a) RT_Object_Class_MessageQueue name s;
          s2 = rt_ipc_object_init (mq_senders a) (rt_ipc_object_init (mq_list a) s1);
          sz = word_of_nat (RT_ALIGN (unat msg_size));
          mx = word_of_nat (unat pool_size div (unat sz + 4))
      in (s2, mq_fresh nxt data1 sz mx flag))"

definition mq_resume_all :: "nat \<Rightarrow> nat \<Rightarrow> kernel \<Rightarrow> kernel option" where
  "mq_resume_all fuel a s =
     Option.bind (rt_ipc_list_resume_all fuel (mq_list a) s) (rt_ipc_list_resume_all fuel (mq_senders a))"

definition rt_mq_detach :: "nat \<Rightarrow> nat \<Rightarrow> kernel \<Rightarrow> kernel option" where
  "rt_mq_detach fuel a s =
     (let s1 = rt_assert (is_mq a s) s;
          s2 = rt_assert (rt_object_is_systemobject (Mq_Obj a) s1) s1
      in map_option (rt_object_detach (Mq_Obj a)) (mq_resume_all fuel a s2))"

text \<open>\<open>pool\<close> is the memory \<^verbatim>\<open>RT_KERNEL_MALLOC\<close> returns.\<close>

definition rt_mq_create ::
    "nat option \<Rightarrow> ((nat \<Rightarrow> nat option) \<times> (nat \<Rightarrow> u8 list)) option \<Rightarrow> string \<Rightarrow> u32 \<Rightarrow> u32 \<Rightarrow> u8 \<Rightarrow> kernel \<Rightarrow>
      kernel \<times> (nat \<times> rt_messagequeue) option" where
  "rt_mq_create mem pool name msg_size max_msgs flag s =
     (let (s1, r) = rt_object_allocate (map_option Mq_Obj mem) RT_Object_Class_MessageQueue name s in
      case r of
        Some (Mq_Obj a) \<Rightarrow>
          let s2 = rt_ipc_object_init (mq_list a) s1 in
          (case pool of
             None \<Rightarrow> (rt_object_delete (Mq_Obj a) s2, None)
           | Some (nxt, data1) \<Rightarrow> (rt_ipc_object_init (mq_senders a) s2,
               Some (a, mq_fresh nxt data1 (word_of_nat (RT_ALIGN (unat msg_size))) (ucast max_msgs) flag)))
      | _ \<Rightarrow> (s1, None))"

definition rt_mq_delete :: "nat \<Rightarrow> nat \<Rightarrow> kernel \<Rightarrow> kernel option" where
  "rt_mq_delete fuel a s =
     (let s1 = rt_assert (is_mq a s) s;
          s2 = rt_assert (\<not> rt_object_is_systemobject (Mq_Obj a) s1) s1
      in map_option (rt_object_delete (Mq_Obj a)) (mq_resume_all fuel a s2))"

text \<open>The critical sections on the pool: take the first free slot, store the bytes (\<open>None\<close> on an access
  outside the slot or the buffer), link the slot behind the tail or before the head, take the
  first message and give its slot back.\<close>

definition mq_alloc :: "nat \<Rightarrow> rt_messagequeue \<Rightarrow> rt_messagequeue" where
  "mq_alloc msg mq = mq\<lparr>mq_free := mq_next mq msg\<rparr>"

definition mq_store :: "nat \<Rightarrow> u8 list \<Rightarrow> nat \<Rightarrow> rt_messagequeue \<Rightarrow> rt_messagequeue option" where
  "mq_store msg buffer size1 mq =
     map_option (\<lambda>d. mq\<lparr>mq_data := (mq_data mq)(msg := d)\<rparr>) (memcpy (mq_data mq msg) 0 buffer 0 (int size1))"

definition mq_link_tail :: "nat \<Rightarrow> rt_messagequeue \<Rightarrow> rt_messagequeue" where
  "mq_link_tail msg mq =
     (let mq1 = (case mq_tail mq of None \<Rightarrow> mq | Some t \<Rightarrow> mq\<lparr>mq_next := (mq_next mq)(t := Some msg)\<rparr>)
      in mq1\<lparr>mq_tail := Some msg, mq_head := (if mq_head mq1 = None then Some msg else mq_head mq1),
             mq_entry := mq_entry mq1 + 1\<rparr>)"

definition mq_link_head :: "nat \<Rightarrow> rt_messagequeue \<Rightarrow> rt_messagequeue" where
  "mq_link_head msg mq =
     mq\<lparr>mq_next := (mq_next mq)(msg := mq_head mq), mq_head := Some msg,
        mq_tail := (if mq_tail mq = None then Some msg else mq_tail mq), mq_entry := mq_entry mq + 1\<rparr>"

definition mq_unlink :: "nat \<Rightarrow> rt_messagequeue \<Rightarrow> rt_messagequeue" where
  "mq_unlink msg mq =
     mq\<lparr>mq_head := mq_next mq msg, mq_tail := (if mq_tail mq = Some msg then None else mq_tail mq),
        mq_entry := mq_entry mq - 1\<rparr>"

definition mq_give_back :: "nat \<Rightarrow> rt_messagequeue \<Rightarrow> rt_messagequeue" where
  "mq_give_back msg mq = mq\<lparr>mq_next := (mq_next mq)(msg := mq_free mq), mq_free := Some msg\<rparr>"

text \<open>Sending into a free slot.\<close>

definition mq_deposit :: "nat \<Rightarrow> nat \<Rightarrow> u8 list \<Rightarrow> nat \<Rightarrow> rt_messagequeue \<Rightarrow> kernel \<Rightarrow> kernel \<times> rt_messagequeue \<times> outcome" where
  "mq_deposit a msg buffer size1 mq s =
     (let mq1 = mq_alloc msg mq;
          mq2 = mq1\<lparr>mq_next := (mq_next mq1)(msg := None)\<rparr>
      in case mq_store msg buffer size1 mq2 of
           None \<Rightarrow> (s\<lparr>fault := True\<rparr>, mq2, Return RT_EOK)
         | Some mq3 \<Rightarrow> (wake (mq_list a) s, mq_link_tail msg mq3, Return RT_EOK))"

definition mq_send_loop ::
    "nat \<Rightarrow> u8 list \<Rightarrow> nat \<Rightarrow> int \<Rightarrow> tid option \<Rightarrow> rt_messagequeue \<Rightarrow> kernel \<Rightarrow> kernel \<times> rt_messagequeue \<times> outcome" where
  "mq_send_loop a buffer size1 timeout self mq s =
     (case mq_free mq of
        None \<Rightarrow>
          if timeout = 0 then (give_up self RT_EOK s, mq, Return (- RT_EFULL))
          else let (s1, out) = block_self (mq_senders a) self (mq_flag mq) timeout s in (s1, mq, out)
      | Some msg \<Rightarrow> mq_deposit a msg buffer size1 mq s)"

definition rt_mq_send_wait_call ::
    "nat \<Rightarrow> u8 list \<Rightarrow> nat \<Rightarrow> int \<Rightarrow> rt_messagequeue \<Rightarrow> kernel \<Rightarrow> kernel \<times> rt_messagequeue \<times> outcome" where
  "rt_mq_send_wait_call a buffer size1 timeout mq s =
     (let s0 = rt_assert (size1 \<noteq> 0) (rt_assert (is_mq a s) s) in
      if size1 > unat (mq_msg_size mq) then (s0, mq, Return (- RT_ERROR))
      else if mq_free mq = None \<and> timeout = 0 then (s0, mq, Return (- RT_EFULL))
      else mq_send_loop a buffer size1 timeout (rt_thread_self s0) mq s0)"

definition rt_mq_send_wait_return ::
    "nat \<Rightarrow> u8 list \<Rightarrow> nat \<Rightarrow> int \<Rightarrow> u32 \<Rightarrow> tid \<Rightarrow> rt_messagequeue \<Rightarrow> kernel \<Rightarrow> kernel \<times> rt_messagequeue \<times> outcome" where
  "rt_mq_send_wait_return a buffer size1 timeout start thread mq s =
     (if error (thr s thread) \<noteq> RT_EOK then (s, mq, Return (error (thr s thread)))
      else mq_send_loop a buffer size1 (wait_left timeout start (rt_tick s)) (Some thread) mq s)"

definition rt_mq_send :: "nat \<Rightarrow> u8 list \<Rightarrow> nat \<Rightarrow> rt_messagequeue \<Rightarrow> kernel \<Rightarrow> kernel \<times> rt_messagequeue \<times> outcome" where
  "rt_mq_send a buffer size1 mq s = rt_mq_send_wait_call a buffer size1 0 mq s"

definition rt_mq_urgent :: "nat \<Rightarrow> u8 list \<Rightarrow> nat \<Rightarrow> rt_messagequeue \<Rightarrow> kernel \<Rightarrow> kernel \<times> rt_messagequeue \<times> rt_err" where
  "rt_mq_urgent a buffer size1 mq s =
     (let s0 = rt_assert (size1 \<noteq> 0) (rt_assert (is_mq a s) s) in
      if size1 > unat (mq_msg_size mq) then (s0, mq, - RT_ERROR)
      else case mq_free mq of
        None \<Rightarrow> (s0, mq, - RT_EFULL)
      | Some msg \<Rightarrow>
          (case mq_store msg buffer size1 (mq_alloc msg mq) of
             None \<Rightarrow> (s0\<lparr>fault := True\<rparr>, mq_alloc msg mq, RT_EOK)
           | Some mq2 \<Rightarrow> (wake (mq_list a) s0, mq_link_head msg mq2, RT_EOK)))"

text \<open>Receiving the first message; the last result is the filled buffer.\<close>

definition mq_fetch ::
    "nat \<Rightarrow> u8 list \<Rightarrow> nat \<Rightarrow> rt_messagequeue \<Rightarrow> kernel \<Rightarrow> kernel \<times> rt_messagequeue \<times> outcome \<times> u8 list option" where
  "mq_fetch a buffer size1 mq s =
     (case mq_head mq of
        None \<Rightarrow> (s\<lparr>fault := True\<rparr>, mq, Return RT_EOK, None)
      | Some msg \<Rightarrow>
          let mq1 = mq_unlink msg mq;
              n = (if size1 > unat (mq_msg_size mq1) then unat (mq_msg_size mq1) else size1)
          in case memcpy buffer 0 (mq_data mq1 msg) 0 (int n) of
               None \<Rightarrow> (s\<lparr>fault := True\<rparr>, mq1, Return RT_EOK, None)
             | Some b \<Rightarrow> (wake (mq_senders a) s, mq_give_back msg mq1, Return RT_EOK, Some b))"

definition mq_recv_loop ::
    "nat \<Rightarrow> u8 list \<Rightarrow> nat \<Rightarrow> int \<Rightarrow> tid option \<Rightarrow> rt_messagequeue \<Rightarrow> kernel \<Rightarrow>
      kernel \<times> rt_messagequeue \<times> outcome \<times> u8 list option" where
  "mq_recv_loop a buffer size1 timeout self mq s =
     (if mq_entry mq = 0
      then if timeout = 0 then (give_up self (- RT_ETIMEOUT) s, mq, Return (- RT_ETIMEOUT), None)
           else let (s1, out) = block_self (mq_list a) self (mq_flag mq) timeout s in (s1, mq, out, None)
      else mq_fetch a buffer size1 mq s)"

definition rt_mq_recv_call ::
    "nat \<Rightarrow> u8 list \<Rightarrow> nat \<Rightarrow> int \<Rightarrow> rt_messagequeue \<Rightarrow> kernel \<Rightarrow> kernel \<times> rt_messagequeue \<times> outcome \<times> u8 list option" where
  "rt_mq_recv_call a buffer size1 timeout mq s =
     (let s0 = rt_assert (size1 \<noteq> 0) (rt_assert (is_mq a s) s) in
      if mq_entry mq = 0 \<and> timeout = 0 then (s0, mq, Return (- RT_ETIMEOUT), None)
      else mq_recv_loop a buffer size1 timeout (rt_thread_self s0) mq s0)"

definition rt_mq_recv_return ::
    "nat \<Rightarrow> u8 list \<Rightarrow> nat \<Rightarrow> int \<Rightarrow> u32 \<Rightarrow> tid \<Rightarrow> rt_messagequeue \<Rightarrow> kernel \<Rightarrow>
      kernel \<times> rt_messagequeue \<times> outcome \<times> u8 list option" where
  "rt_mq_recv_return a buffer size1 timeout start thread mq s =
     (if error (thr s thread) \<noteq> RT_EOK then (s, mq, Return (error (thr s thread)), None)
      else mq_recv_loop a buffer size1 (wait_left timeout start (rt_tick s)) (Some thread) mq s)"

text \<open>The loop of a reset that moves every message to the free list; it needs one round per message.\<close>

fun mq_drain :: "nat \<Rightarrow> rt_messagequeue \<Rightarrow> rt_messagequeue option" where
  "mq_drain 0 mq = None"
| "mq_drain (Suc fuel) mq =
     (case mq_head mq of
        None \<Rightarrow> Some mq
      | Some msg \<Rightarrow>
          mq_drain fuel (mq_give_back msg
            (mq\<lparr>mq_head := mq_next mq msg, mq_tail := (if mq_tail mq = Some msg then None else mq_tail mq)\<rparr>)))"

definition rt_mq_control ::
    "nat \<Rightarrow> nat \<Rightarrow> int \<Rightarrow> rt_messagequeue \<Rightarrow> kernel \<Rightarrow> (kernel \<times> rt_messagequeue \<times> rt_err) option" where
  "rt_mq_control fuel a cmd mq s =
     (let s0 = rt_assert (is_mq a s) s in
      if cmd = RT_IPC_CMD_RESET
      then Option.bind (mq_resume_all fuel a s0) (\<lambda>s1.
             map_option (\<lambda>mq1. (rt_schedule s1, mq1\<lparr>mq_entry := 0\<rparr>, RT_EOK)) (mq_drain fuel mq))
      else Some (s0, mq, - RT_ERROR))"

section \<open>The pool\<close>

text \<open>The slots \<open>q\<close> hold the queued messages, \<open>fr\<close> are free; slots in neither belong to a call that is
  copying.\<close>

definition mq_rep :: "rt_messagequeue \<Rightarrow> nat list \<Rightarrow> nat list \<Rightarrow> bool" where
  "mq_rep mq q fr \<longleftrightarrow> chain (mq_next mq) (mq_head mq) q \<and> chain (mq_next mq) (mq_free mq) fr \<and>
     mq_tail mq = (if q = [] then None else Some (last q)) \<and> distinct (q @ fr) \<and>
     set (q @ fr) \<subseteq> {..<unat (mq_max_msgs mq)} \<and> unat (mq_entry mq) = length q \<and>
     (\<forall>x < unat (mq_max_msgs mq). length (mq_data mq x) = unat (mq_msg_size mq))"

lemma mq_rep_count:
  assumes "mq_rep mq q fr" "x \<notin> set (q @ fr)" "x < unat (mq_max_msgs mq)"
  shows "unat (mq_entry mq + 1) = length q + 1" "length q + length fr < unat (mq_max_msgs mq)"
proof -
  have "card (set (x # q @ fr)) \<le> card {..<unat (mq_max_msgs mq)}"
    using assms by (intro card_mono) (auto simp: mq_rep_def)
  moreover have "distinct (x # q @ fr)" using assms by (auto simp: mq_rep_def)
  then have "card (set (x # q @ fr)) = length q + length fr + 1" by (subst distinct_card) simp_all
  ultimately show l: "length q + length fr < unat (mq_max_msgs mq)" by simp
  have "length q + 1 < 65536" using l unat_u16_less [of "mq_max_msgs mq"] by linarith
  then show "unat (mq_entry mq + 1) = length q + 1" using assms(1) by (simp add: mq_rep_def unat_word_ariths)
qed

lemma mq_rep_alloc:
  assumes "mq_rep mq q (x # fr)"
  shows "mq_rep (mq_alloc x mq) q fr" "mq_free mq = Some x" "x < unat (mq_max_msgs mq)" "x \<notin> set (q @ fr)"
  using assms by (auto simp: mq_rep_def mq_alloc_def)

lemma mq_rep_clear:
  "\<lbrakk>mq_rep mq q fr; x \<notin> set (q @ fr)\<rbrakk> \<Longrightarrow> mq_rep (mq\<lparr>mq_next := (mq_next mq)(x := y)\<rparr>) q fr"
  by (simp add: mq_rep_def)

lemma mq_rep_store:
  assumes r: "mq_rep mq q fr" and x: "x < unat (mq_max_msgs mq)" and n: "n \<le> unat (mq_msg_size mq)" "n \<le> length buffer"
  obtains d where "mq_store x buffer n mq = Some (mq\<lparr>mq_data := (mq_data mq)(x := d)\<rparr>)"
    "mq_rep (mq\<lparr>mq_data := (mq_data mq)(x := d)\<rparr>) q fr" "take n d = take n buffer" "drop n d = drop n (mq_data mq x)"
    "length d = unat (mq_msg_size mq)"
proof -
  have l: "length (mq_data mq x) = unat (mq_msg_size mq)" using r x by (simp add: mq_rep_def)
  let ?d = "take n buffer @ drop n (mq_data mq x)"
  show ?thesis
  proof (rule that [of ?d])
    show "mq_store x buffer n mq = Some (mq\<lparr>mq_data := (mq_data mq)(x := ?d)\<rparr>)"
      using n unfolding mq_store_def memcpy_def l [symmetric] by simp
    show "mq_rep (mq\<lparr>mq_data := (mq_data mq)(x := ?d)\<rparr>) q fr" using r n l by (auto simp: mq_rep_def)
  qed (use n l in simp_all)
qed

lemma mq_rep_link_tail:
  assumes r: "mq_rep mq q fr" and x: "x \<notin> set (q @ fr)" "x < unat (mq_max_msgs mq)" "mq_next mq x = None"
  shows "mq_rep (mq_link_tail x mq) (q @ [x]) fr"
proof (cases "q = []")
  case True
  then show ?thesis using r x mq_rep_count(1) [OF r x(1,2)] by (auto simp: mq_rep_def mq_link_tail_def Let_def)
next
  case False
  then have l: "mq_tail mq = Some (last q)" "last q \<in> set q" using r by (simp_all add: mq_rep_def)
  have "set q \<inter> set fr = {}" using r by (simp add: mq_rep_def)
  then have n: "last q \<notin> set fr" using l(2) by blast
  have n2: "mq_head mq \<noteq> None" using r False by (auto simp: mq_rep_def)
  have "chain ((mq_next mq)(last q := Some x)) (mq_head mq) (q @ [x])"
    by (rule chain_snoc) (use r x False in \<open>auto simp: mq_rep_def\<close>)
  moreover have "chain ((mq_next mq)(last q := Some x)) (mq_free mq) fr" using r n by (simp add: mq_rep_def)
  ultimately show ?thesis using r x l(1) n2 mq_rep_count(1) [OF r x(1,2)]
    by (auto simp: mq_rep_def mq_link_tail_def Let_def)
qed

lemma mq_rep_link_head:
  assumes r: "mq_rep mq q fr" and x: "x \<notin> set (q @ fr)" "x < unat (mq_max_msgs mq)"
  shows "mq_rep (mq_link_head x mq) (x # q) fr"
  using r x mq_rep_count(1) [OF r x] by (auto simp: mq_rep_def mq_link_head_def)

lemma mq_rep_unlink:
  assumes r: "mq_rep mq (x # q) fr"
  shows "mq_rep (mq_unlink x mq) q fr" "mq_head mq = Some x" "x < unat (mq_max_msgs mq)" "x \<notin> set (q @ fr)"
proof -
  have "mq_entry mq \<noteq> 0" using r by (auto simp: mq_rep_def)
  then have "unat (mq_entry mq - 1) = length q" using r by (simp add: mq_rep_def unat_minus_one)
  then show "mq_rep (mq_unlink x mq) q fr" using r by (auto simp: mq_rep_def mq_unlink_def)
qed (use r in \<open>auto simp: mq_rep_def\<close>)

lemma mq_rep_give_back:
  assumes "mq_rep mq q fr" "x \<notin> set (q @ fr)" "x < unat (mq_max_msgs mq)"
  shows "mq_rep (mq_give_back x mq) q (x # fr)"
  using assms by (auto simp: mq_rep_def mq_give_back_def)

lemma mq_rep_fresh:
  assumes "\<forall>x < unat mx. length (data1 x) = unat sz"
  shows "mq_rep (mq_fresh nxt data1 sz mx flag) [] (rev [0..<unat mx])"
  using assms thread_free_chain [of "[0..<unat mx]" nxt]
  by (auto simp: mq_rep_def mq_fresh_def case_prod_beta Let_def)

text \<open>The loop of a reset; only the counter of messages is off until the end.\<close>

lemma mq_rep_drain:
  assumes "mq_rep (mq\<lparr>mq_entry := word_of_nat (length q)\<rparr>) q fr" "length q < fuel"
  obtains mq' where "mq_drain fuel mq = Some mq'" "mq_rep (mq'\<lparr>mq_entry := 0\<rparr>) [] (rev q @ fr)"
    "mq_max_msgs mq' = mq_max_msgs mq" "mq_flag mq' = mq_flag mq"
proof -
  have "\<exists>mq'. mq_drain fuel mq = Some mq' \<and> mq_rep (mq'\<lparr>mq_entry := 0\<rparr>) [] (rev q @ fr) \<and>
      mq_max_msgs mq' = mq_max_msgs mq \<and> mq_flag mq' = mq_flag mq"
    using assms
  proof (induction q arbitrary: mq fr fuel)
    case Nil
    then obtain f where "fuel = Suc f" by (cases fuel) auto
    then show ?case using Nil by (simp add: mq_rep_def)
  next
    case (Cons x q)
    obtain f where f: "fuel = Suc f" "length q < f" using Cons.prems(2) by (cases fuel) auto
    let ?m = "mq\<lparr>mq_entry := word_of_nat (length (x # q))\<rparr>"
    let ?n = "mq_give_back x (mq\<lparr>mq_head := mq_next mq x, mq_tail := (if mq_tail mq = Some x then None else mq_tail mq)\<rparr>)"
    note U = mq_rep_unlink [OF Cons.prems(1)]
    have "mq_rep (mq_give_back x (mq_unlink x ?m)) q (x # fr)"
      by (rule mq_rep_give_back [OF U(1)]) (use U(3,4) in \<open>simp_all add: mq_unlink_def\<close>)
    moreover have "mq_give_back x (mq_unlink x ?m) = ?n\<lparr>mq_entry := word_of_nat (length q)\<rparr>"
      by (simp add: mq_give_back_def mq_unlink_def)
    ultimately have "mq_rep (?n\<lparr>mq_entry := word_of_nat (length q)\<rparr>) q (x # fr)" by simp
    from Cons.IH [OF this f(2)] obtain mq' where "mq_drain f ?n = Some mq'" "mq_rep (mq'\<lparr>mq_entry := 0\<rparr>) [] (rev q @ x # fr)"
        "mq_max_msgs mq' = mq_max_msgs ?n" "mq_flag mq' = mq_flag ?n" by blast
    then show ?case using f(1) U(2) by (simp add: mq_give_back_def)
  qed
  then show ?thesis using that by blast
qed

section \<open>The queue of messages\<close>

definition mq_inv :: "rt_messagequeue \<Rightarrow> bool" where
  "mq_inv mq \<longleftrightarrow> (\<exists>q fr. mq_rep mq q fr \<and> length q + length fr = unat (mq_max_msgs mq))"

text \<open>The queued messages, each with the \<open>msg_size\<close> bytes of its slot.\<close>

definition mq_msgs :: "rt_messagequeue \<Rightarrow> u8 list list" where
  "mq_msgs mq = map (mq_data mq) (walk (unat (mq_max_msgs mq)) (mq_next mq) (mq_head mq))"

lemma mq_rep_msgs:
  assumes r: "mq_rep mq q fr"
  shows "mq_msgs mq = map (mq_data mq) q" "length q + length fr \<le> unat (mq_max_msgs mq)"
proof -
  have "card (set (q @ fr)) \<le> card {..<unat (mq_max_msgs mq)}" using r by (intro card_mono) (auto simp: mq_rep_def)
  moreover have "card (set (q @ fr)) = length (q @ fr)" by (rule distinct_card) (use r in \<open>simp add: mq_rep_def\<close>)
  ultimately show "length q + length fr \<le> unat (mq_max_msgs mq)" by simp
  then show "mq_msgs mq = map (mq_data mq) q"
    unfolding mq_msgs_def using r by (subst walk_chain [of _ _ q]) (auto simp: mq_rep_def)
qed

text \<open>Sending: the slot is taken, cleared, filled and linked.\<close>

lemma mq_deposit_pool:
  assumes r: "mq_rep mq q (x # fr)" and n: "n \<le> unat (mq_msg_size mq)" "n \<le> length buffer"
  obtains mq2 where
    "mq_store x buffer n ((mq_alloc x mq)\<lparr>mq_next := (mq_next (mq_alloc x mq))(x := None)\<rparr>) = Some mq2"
    "mq_rep (mq_link_tail x mq2) (q @ [x]) fr" "take n (mq_data mq2 x) = take n buffer"
    "length (mq_data mq2 x) = unat (mq_msg_size mq)"
    "mq_msgs (mq_link_tail x mq2) = mq_msgs mq @ [mq_data mq2 x]"
    "mq_flag (mq_link_tail x mq2) = mq_flag mq" "mq_msg_size (mq_link_tail x mq2) = mq_msg_size mq"
    "mq_max_msgs (mq_link_tail x mq2) = mq_max_msgs mq"
proof -
  let ?mq1 = "(mq_alloc x mq)\<lparr>mq_next := (mq_next (mq_alloc x mq))(x := None)\<rparr>"
  note A = mq_rep_alloc [OF r]
  have r1: "mq_rep ?mq1 q fr" by (rule mq_rep_clear [OF A(1,4)])
  have c: "mq_max_msgs ?mq1 = mq_max_msgs mq" "mq_msg_size ?mq1 = mq_msg_size mq" "mq_data ?mq1 = mq_data mq"
    "mq_next ?mq1 x = None" "mq_flag ?mq1 = mq_flag mq" by (simp_all add: mq_alloc_def)
  obtain d where d: "mq_store x buffer n ?mq1 = Some (?mq1\<lparr>mq_data := (mq_data ?mq1)(x := d)\<rparr>)"
    "mq_rep (?mq1\<lparr>mq_data := (mq_data ?mq1)(x := d)\<rparr>) q fr" "take n d = take n buffer"
    "length d = unat (mq_msg_size mq)"
    using mq_rep_store [OF r1, of x n buffer] A(3) n unfolding c by metis
  let ?mq2 = "?mq1\<lparr>mq_data := (mq_data ?mq1)(x := d)\<rparr>"
  have r2: "mq_rep (mq_link_tail x ?mq2) (q @ [x]) fr"
    by (rule mq_rep_link_tail [OF d(2) A(4)]) (use A(3) c in simp_all)
  have e: "mq_data (mq_link_tail x ?mq2) = (mq_data mq)(x := d)" "mq_flag (mq_link_tail x ?mq2) = mq_flag mq"
    "mq_msg_size (mq_link_tail x ?mq2) = mq_msg_size mq" "mq_max_msgs (mq_link_tail x ?mq2) = mq_max_msgs mq"
    using c by (simp_all add: mq_link_tail_def Let_def split: option.splits)
  have "mq_msgs (mq_link_tail x ?mq2) = mq_msgs mq @ [d]"
    unfolding mq_rep_msgs(1) [OF r2] mq_rep_msgs(1) [OF r] e using A(4) by simp
  then show ?thesis using that [OF d(1) r2] d e by simp
qed

lemma mq_urgent_pool:
  assumes r: "mq_rep mq q (x # fr)" and n: "n \<le> unat (mq_msg_size mq)" "n \<le> length buffer"
  obtains mq2 where "mq_store x buffer n (mq_alloc x mq) = Some mq2"
    "mq_rep (mq_link_head x mq2) (x # q) fr" "take n (mq_data mq2 x) = take n buffer"
    "length (mq_data mq2 x) = unat (mq_msg_size mq)"
    "mq_msgs (mq_link_head x mq2) = mq_data mq2 x # mq_msgs mq"
    "mq_flag (mq_link_head x mq2) = mq_flag mq" "mq_msg_size (mq_link_head x mq2) = mq_msg_size mq"
    "mq_max_msgs (mq_link_head x mq2) = mq_max_msgs mq"
proof -
  let ?mq1 = "mq_alloc x mq"
  note A = mq_rep_alloc [OF r]
  have c: "mq_max_msgs ?mq1 = mq_max_msgs mq" "mq_msg_size ?mq1 = mq_msg_size mq" "mq_data ?mq1 = mq_data mq"
    "mq_flag ?mq1 = mq_flag mq" by (simp_all add: mq_alloc_def)
  obtain d where d: "mq_store x buffer n ?mq1 = Some (?mq1\<lparr>mq_data := (mq_data ?mq1)(x := d)\<rparr>)"
    "mq_rep (?mq1\<lparr>mq_data := (mq_data ?mq1)(x := d)\<rparr>) q fr" "take n d = take n buffer"
    "length d = unat (mq_msg_size mq)"
    using mq_rep_store [OF A(1), of x n buffer] A(3) n unfolding c by metis
  let ?mq2 = "?mq1\<lparr>mq_data := (mq_data ?mq1)(x := d)\<rparr>"
  have r2: "mq_rep (mq_link_head x ?mq2) (x # q) fr"
    by (rule mq_rep_link_head [OF d(2) A(4)]) (use A(3) c in simp)
  have e: "mq_data (mq_link_head x ?mq2) = (mq_data mq)(x := d)" "mq_flag (mq_link_head x ?mq2) = mq_flag mq"
    "mq_msg_size (mq_link_head x ?mq2) = mq_msg_size mq" "mq_max_msgs (mq_link_head x ?mq2) = mq_max_msgs mq"
    using c by (simp_all add: mq_link_head_def)
  have "mq_msgs (mq_link_head x ?mq2) = d # mq_msgs mq"
    unfolding mq_rep_msgs(1) [OF r2] mq_rep_msgs(1) [OF r] e using A(4) by auto
  then show ?thesis using that [OF d(1) r2] d e by simp
qed

text \<open>Receiving: the first slot is unlinked, read and given back.\<close>

lemma mq_fetch_pool:
  assumes r: "mq_rep mq (x # q) fr"
  defines "mq' \<equiv> mq_give_back x (mq_unlink x mq)"
  shows "mq_rep mq' q (x # fr)" "mq_msgs mq = mq_data mq x # mq_msgs mq'" "mq_flag mq' = mq_flag mq"
    "mq_msg_size mq' = mq_msg_size mq" "mq_max_msgs mq' = mq_max_msgs mq"
    "length (mq_data mq x) = unat (mq_msg_size mq)"
proof -
  note U = mq_rep_unlink [OF r]
  show r': "mq_rep mq' q (x # fr)" unfolding mq'_def
    by (rule mq_rep_give_back [OF U(1,4)]) (use U(3) in \<open>simp add: mq_unlink_def\<close>)
  show "mq_msgs mq = mq_data mq x # mq_msgs mq'"
    unfolding mq_rep_msgs(1) [OF r] mq_rep_msgs(1) [OF r'] by (simp add: mq'_def mq_unlink_def mq_give_back_def)
  show "mq_flag mq' = mq_flag mq" "mq_msg_size mq' = mq_msg_size mq" "mq_max_msgs mq' = mq_max_msgs mq"
    by (simp_all add: mq'_def mq_unlink_def mq_give_back_def)
  show "length (mq_data mq x) = unat (mq_msg_size mq)" using r U(3) by (simp add: mq_rep_def)
qed

section \<open>The invariant\<close>

definition mqueue_ok :: "nat \<Rightarrow> rt_messagequeue \<Rightarrow> kernel \<Rightarrow> bool" where
  "mqueue_ok a mq s \<longleftrightarrow> ipc_ok (Mq_Obj a) (mq_flag mq) s \<and> is_mq a s \<and> mq_inv mq"

lemma is_mq_objs: "is_mq a s \<Longrightarrow> objs s' = objs s \<Longrightarrow> is_mq a s'"
  by (simp add: is_mq_def rt_object_get_type_def)

lemma mq_inv_cases:
  assumes "mq_inv mq"
  obtains q fr where "mq_rep mq q fr" "length q + length fr = unat (mq_max_msgs mq)"
    "mq_msgs mq = map (mq_data mq) q" "mq_free mq = None \<longleftrightarrow> fr = []" "mq_entry mq = 0 \<longleftrightarrow> q = []"
proof -
  obtain q fr where r: "mq_rep mq q fr" "length q + length fr = unat (mq_max_msgs mq)"
    using assms by (auto simp: mq_inv_def)
  have "mq_free mq = None \<longleftrightarrow> fr = []" using r by (cases fr) (auto simp: mq_rep_def)
  moreover have "mq_entry mq = 0 \<longleftrightarrow> q = []" using r by (auto simp: mq_rep_def unat_eq_0)
  ultimately show ?thesis by (rule that [OF r mq_rep_msgs(1) [OF r(1)]])
qed

lemma mq_inv_full:
  assumes "mq_inv mq"
  shows "length (mq_msgs mq) < unat (mq_max_msgs mq) \<longleftrightarrow> mq_free mq \<noteq> None"
proof (rule mq_inv_cases [OF assms])
  fix q fr
  assume "length q + length fr = unat (mq_max_msgs mq)" "mq_msgs mq = map (mq_data mq) q" "mq_free mq = None \<longleftrightarrow> fr = []"
  then show ?thesis by (cases fr) auto
qed

lemma mqueue_blocks:
  assumes o: "mqueue_ok a mq s" and l: "l = mq_list a \<or> l = mq_senders a" and st: "tstat s t = RT_THREAD_RUNNING"
    and r: "registered t s" and b: "time < 0x7fffffff"
  obtains s' where "block_self l (Some t) (mq_flag mq) time s = (s', Blocked t)" "mqueue_ok a mq s'" "fault s' = fault s"
    "blocked_in l time s t s'" "tlists s' l = joined (mq_flag mq) s t (tlists s l)"
proof -
  have O: "ipc_ok (Mq_Obj a) (mq_flag mq) s" "is_mq a s" "mq_inv mq" using o by (simp_all add: mqueue_ok_def)
  show ?thesis
    by (rule ipc_blocks [OF O(1) l st r b]) (rule that; use is_mq_objs [OF O(2)] O(3) in \<open>simp add: mqueue_ok_def\<close>)
qed

lemma mq_send_room:
  assumes o: "mqueue_ok a mq s" and f: "mq_free mq \<noteq> None"
    and n: "n \<noteq> 0" "n \<le> unat (mq_msg_size mq)" "n \<le> length buffer"
  obtains s' mq' m where "rt_mq_send_wait_call a buffer n time mq s = (s', mq', Return RT_EOK)" "mqueue_ok a mq' s'"
    "fault s' = fault s" "woken (mq_list a) s s'" "mq_msgs mq' = mq_msgs mq @ [m]" "take n m = take n buffer"
    "length m = unat (mq_msg_size mq)" "mq_msg_size mq' = mq_msg_size mq" "mq_max_msgs mq' = mq_max_msgs mq"
proof -
  have O: "ipc_ok (Mq_Obj a) (mq_flag mq) s" "is_mq a s" "mq_inv mq" using o by (simp_all add: mqueue_ok_def)
  obtain q fr0 where r0: "mq_rep mq q fr0" "length q + length fr0 = unat (mq_max_msgs mq)" "mq_free mq = None \<longleftrightarrow> fr0 = []"
    by (rule mq_inv_cases [OF O(3)])
  then obtain x fr where fr: "fr0 = x # fr" using f by (cases fr0) auto
  have r: "mq_rep mq q (x # fr)" using r0 fr by simp
  note W = ipc_wake [OF O(1) disjI1 [OF refl]]
  show ?thesis
  proof (rule mq_deposit_pool [OF r n(2,3)])
    fix mq2
    assume p: "mq_store x buffer n ((mq_alloc x mq)\<lparr>mq_next := (mq_next (mq_alloc x mq))(x := None)\<rparr>) = Some mq2"
      "mq_rep (mq_link_tail x mq2) (q @ [x]) fr" "take n (mq_data mq2 x) = take n buffer"
      "length (mq_data mq2 x) = unat (mq_msg_size mq)" "mq_msgs (mq_link_tail x mq2) = mq_msgs mq @ [mq_data mq2 x]"
      "mq_flag (mq_link_tail x mq2) = mq_flag mq" "mq_msg_size (mq_link_tail x mq2) = mq_msg_size mq"
      "mq_max_msgs (mq_link_tail x mq2) = mq_max_msgs mq"
    have e: "rt_mq_send_wait_call a buffer n time mq s = (wake (mq_list a) s, mq_link_tail x mq2, Return RT_EOK)"
      using p(1) O(2) n f mq_rep_alloc(2) [OF r]
      by (simp add: rt_mq_send_wait_call_def mq_send_loop_def mq_deposit_def rt_assert_holds Let_def)
    have "mq_inv (mq_link_tail x mq2)" using p(2,8) r0(2) fr unfolding mq_inv_def by fastforce
    then have "mqueue_ok a (mq_link_tail x mq2) (wake (mq_list a) s)"
      using W(1) is_mq_objs [OF O(2) W(4)] p(6) by (simp add: mqueue_ok_def)
    then show ?thesis using that [OF e _ W(2,3) p(5,3,4,7,8)] by blast
  qed
qed

lemma mq_urgent_room:
  assumes o: "mqueue_ok a mq s" and f: "mq_free mq \<noteq> None"
    and n: "n \<noteq> 0" "n \<le> unat (mq_msg_size mq)" "n \<le> length buffer"
  obtains s' mq' m where "rt_mq_urgent a buffer n mq s = (s', mq', RT_EOK)" "mqueue_ok a mq' s'"
    "fault s' = fault s" "woken (mq_list a) s s'" "mq_msgs mq' = m # mq_msgs mq" "take n m = take n buffer"
    "length m = unat (mq_msg_size mq)"
proof -
  have O: "ipc_ok (Mq_Obj a) (mq_flag mq) s" "is_mq a s" "mq_inv mq" using o by (simp_all add: mqueue_ok_def)
  obtain q fr0 where r0: "mq_rep mq q fr0" "length q + length fr0 = unat (mq_max_msgs mq)" "mq_free mq = None \<longleftrightarrow> fr0 = []"
    by (rule mq_inv_cases [OF O(3)])
  then obtain x fr where fr: "fr0 = x # fr" using f by (cases fr0) auto
  have r: "mq_rep mq q (x # fr)" using r0 fr by simp
  note W = ipc_wake [OF O(1) disjI1 [OF refl]]
  show ?thesis
  proof (rule mq_urgent_pool [OF r n(2,3)])
    fix mq2
    assume p: "mq_store x buffer n (mq_alloc x mq) = Some mq2"
      "mq_rep (mq_link_head x mq2) (x # q) fr" "take n (mq_data mq2 x) = take n buffer"
      "length (mq_data mq2 x) = unat (mq_msg_size mq)" "mq_msgs (mq_link_head x mq2) = mq_data mq2 x # mq_msgs mq"
      "mq_flag (mq_link_head x mq2) = mq_flag mq" "mq_max_msgs (mq_link_head x mq2) = mq_max_msgs mq"
    have e: "rt_mq_urgent a buffer n mq s = (wake (mq_list a) s, mq_link_head x mq2, RT_EOK)"
      using p(1) O(2) n mq_rep_alloc(2) [OF r] by (simp add: rt_mq_urgent_def rt_assert_holds Let_def)
    have "mq_inv (mq_link_head x mq2)" using p(2,7) r0(2) fr unfolding mq_inv_def by fastforce
    then have "mqueue_ok a (mq_link_head x mq2) (wake (mq_list a) s)"
      using W(1) is_mq_objs [OF O(2) W(4)] p(6) by (simp add: mqueue_ok_def)
    then show ?thesis using that [OF e _ W(2,3) p(5,3,4)] by blast
  qed
qed

lemma mq_recv_some:
  assumes o: "mqueue_ok a mq s" and e: "mq_msgs mq = m # ms" and n: "n \<noteq> 0" "n \<le> length buffer"
  obtains s' mq' where
    "rt_mq_recv_call a buffer n time mq s =
       (s', mq', Return RT_EOK, Some (take (min n (unat (mq_msg_size mq))) m @ drop (min n (unat (mq_msg_size mq))) buffer))"
    "mqueue_ok a mq' s'" "fault s' = fault s" "woken (mq_senders a) s s'" "mq_msgs mq' = ms"
    "mq_msg_size mq' = mq_msg_size mq" "mq_max_msgs mq' = mq_max_msgs mq" "mq_free mq' \<noteq> None"
proof -
  have O: "ipc_ok (Mq_Obj a) (mq_flag mq) s" "is_mq a s" "mq_inv mq" using o by (simp_all add: mqueue_ok_def)
  obtain q0 fr where r0: "mq_rep mq q0 fr" "length q0 + length fr = unat (mq_max_msgs mq)" "mq_msgs mq = map (mq_data mq) q0"
    "mq_entry mq = 0 \<longleftrightarrow> q0 = []"
    by (rule mq_inv_cases [OF O(3)])
  then obtain x q where q: "q0 = x # q" using e by (cases q0) auto
  have r: "mq_rep mq (x # q) fr" using r0 q by simp
  let ?mq = "mq_give_back x (mq_unlink x mq)"
  note P = mq_fetch_pool [OF r]
  note W = ipc_wake [OF O(1) disjI2 [OF refl]]
  have m: "mq_data mq x = m" "mq_msgs ?mq = ms" using P(2) e by simp_all
  let ?k = "min n (unat (mq_msg_size mq))"
  have k: "(if n > unat (mq_msg_size mq) then unat (mq_msg_size mq) else n) = ?k" by auto
  have l: "?k \<le> length buffer" "?k \<le> length m" using n(2) P(6) m(1) by auto
  have cpy: "memcpy buffer 0 m 0 (int ?k) = Some (take ?k m @ drop ?k buffer)"
    using l unfolding memcpy_def by (simp del: of_nat_min)
  have u: "mq_msg_size (mq_unlink x mq) = mq_msg_size mq" "mq_data (mq_unlink x mq) x = m"
    using m(1) by (simp_all add: mq_unlink_def)
  have "mq_fetch a buffer n mq s = (wake (mq_senders a) s, ?mq, Return RT_EOK, Some (take ?k m @ drop ?k buffer))"
    unfolding mq_fetch_def Let_def mq_rep_unlink(2) [OF r] option.case u k cpy ..
  then have e1: "rt_mq_recv_call a buffer n time mq s =
      (wake (mq_senders a) s, ?mq, Return RT_EOK, Some (take ?k m @ drop ?k buffer))"
    using O(2) n r0(4) q by (simp add: rt_mq_recv_call_def mq_recv_loop_def rt_assert_holds)
  have "mq_inv ?mq" using P(1,5) r0(2) q unfolding mq_inv_def by fastforce
  then have "mqueue_ok a ?mq (wake (mq_senders a) s)"
    using W(1) is_mq_objs [OF O(2) W(4)] P(3) by (simp add: mqueue_ok_def)
  moreover have "mq_free ?mq \<noteq> None" by (simp add: mq_give_back_def)
  ultimately show ?thesis using that [OF e1 _ W(2,3) m(2) P(4,5)] by blast
qed

section \<open>Interleaving\<close>

text \<open>The critical sections of concurrent senders and receivers in any order.  \<open>F\<close> are the slots taken
  by calls that are copying, \<open>C\<close> those among them whose next pointer was cleared.\<close>

inductive mq_reach :: "rt_messagequeue \<Rightarrow> nat set \<Rightarrow> nat set \<Rightarrow> bool" where
  start: "mq_inv mq \<Longrightarrow> mq_reach mq {} {}"
| alloc: "\<lbrakk>mq_reach mq F C; mq_free mq = Some x\<rbrakk> \<Longrightarrow> mq_reach (mq_alloc x mq) (insert x F) C"
| clear: "\<lbrakk>mq_reach mq F C; x \<in> F\<rbrakk> \<Longrightarrow> mq_reach (mq\<lparr>mq_next := (mq_next mq)(x := None)\<rparr>) F (insert x C)"
| store: "\<lbrakk>mq_reach mq F C; x \<in> F; n \<le> unat (mq_msg_size mq); mq_store x buffer n mq = Some mq'\<rbrakk> \<Longrightarrow> mq_reach mq' F C"
| link_tail: "\<lbrakk>mq_reach mq F C; x \<in> C\<rbrakk> \<Longrightarrow> mq_reach (mq_link_tail x mq) (F - {x}) (C - {x})"
| link_head: "\<lbrakk>mq_reach mq F C; x \<in> F\<rbrakk> \<Longrightarrow> mq_reach (mq_link_head x mq) (F - {x}) (C - {x})"
| unlink: "\<lbrakk>mq_reach mq F C; mq_head mq = Some x\<rbrakk> \<Longrightarrow> mq_reach (mq_unlink x mq) (insert x F) C"
| give_back: "\<lbrakk>mq_reach mq F C; x \<in> F\<rbrakk> \<Longrightarrow> mq_reach (mq_give_back x mq) (F - {x}) (C - {x})"

definition mq_shared :: "rt_messagequeue \<Rightarrow> nat set \<Rightarrow> nat set \<Rightarrow> bool" where
  "mq_shared mq F C \<longleftrightarrow> (\<exists>q fr. mq_rep mq q fr \<and> set (q @ fr) \<union> F = {..<unat (mq_max_msgs mq)} \<and>
     set (q @ fr) \<inter> F = {} \<and> C \<subseteq> F \<and> (\<forall>x \<in> C. mq_next mq x = None))"

lemma mq_sharedI:
  "\<lbrakk>mq_rep mq q fr; set (q @ fr) \<union> F = {..<unat (mq_max_msgs mq)}; set (q @ fr) \<inter> F = {}; C \<subseteq> F;
    \<forall>x \<in> C. mq_next mq x = None\<rbrakk> \<Longrightarrow> mq_shared mq F C"
  unfolding mq_shared_def by blast

lemma mq_sharedE:
  assumes "mq_shared mq F C"
  obtains q fr where "mq_rep mq q fr" "set (q @ fr) \<union> F = {..<unat (mq_max_msgs mq)}" "set (q @ fr) \<inter> F = {}"
    "C \<subseteq> F" "\<forall>x \<in> C. mq_next mq x = None"
  using assms unfolding mq_shared_def by blast

lemma mq_shared_start:
  assumes h: "mq_inv mq"
  shows "mq_shared mq {} {}"
proof -
  obtain q fr where r: "mq_rep mq q fr" "length q + length fr = unat (mq_max_msgs mq)" using h by (auto simp: mq_inv_def)
  have "card (set (q @ fr)) = card {..<unat (mq_max_msgs mq)}"
    using r by (subst distinct_card) (simp_all add: mq_rep_def)
  then have "set (q @ fr) = {..<unat (mq_max_msgs mq)}"
    using r(1) by (intro card_subset_eq) (simp_all add: mq_rep_def)
  then show ?thesis using r(1) by (intro mq_sharedI [of mq q fr]) auto
qed

lemma mq_shared_alloc:
  assumes s: "mq_shared mq F C" and h: "mq_free mq = Some x"
  shows "mq_shared (mq_alloc x mq) (insert x F) C"
proof -
  obtain q fr where r: "mq_rep mq q fr" "set (q @ fr) \<union> F = {..<unat (mq_max_msgs mq)}" "set (q @ fr) \<inter> F = {}"
    "C \<subseteq> F" "\<forall>x \<in> C. mq_next mq x = None" by (rule mq_sharedE [OF s])
  then obtain fr' where fr: "fr = x # fr'" using h by (auto simp: mq_rep_def chain_Some)
  note A = mq_rep_alloc [OF r(1) [unfolded fr]]
  show ?thesis by (rule mq_sharedI [OF A(1)]) (use r A(3,4) fr in \<open>auto simp: mq_alloc_def\<close>)
qed

lemma mq_shared_clear:
  assumes s: "mq_shared mq F C" and h: "x \<in> F"
  shows "mq_shared (mq\<lparr>mq_next := (mq_next mq)(x := None)\<rparr>) F (insert x C)"
proof -
  obtain q fr where r: "mq_rep mq q fr" "set (q @ fr) \<union> F = {..<unat (mq_max_msgs mq)}" "set (q @ fr) \<inter> F = {}"
    "C \<subseteq> F" "\<forall>x \<in> C. mq_next mq x = None" by (rule mq_sharedE [OF s])
  have x: "x \<notin> set (q @ fr)" using h r(3) by blast
  show ?thesis by (rule mq_sharedI [OF mq_rep_clear [OF r(1) x]]) (use r h in auto)
qed

lemma mq_shared_store:
  assumes s: "mq_shared mq F C" and h: "x \<in> F" and e: "mq_store x buffer n mq = Some mq'"
  shows "mq_shared mq' F C"
proof -
  obtain q fr where r: "mq_rep mq q fr" "set (q @ fr) \<union> F = {..<unat (mq_max_msgs mq)}" "set (q @ fr) \<inter> F = {}"
    "C \<subseteq> F" "\<forall>x \<in> C. mq_next mq x = None" by (rule mq_sharedE [OF s])
  have x: "x < unat (mq_max_msgs mq)" using h r(2) by blast
  obtain d where d: "memcpy (mq_data mq x) 0 buffer 0 (int n) = Some d" "mq' = mq\<lparr>mq_data := (mq_data mq)(x := d)\<rparr>"
    using e by (auto simp: mq_store_def)
  have "mq_rep mq' q fr" using r(1) x memcpy_length [OF d(1)] unfolding d(2) by (auto simp: mq_rep_def)
  then show ?thesis by (rule mq_sharedI) (use r d(2) in auto)
qed

lemma mq_shared_link_tail:
  assumes s: "mq_shared mq F C" and h: "x \<in> C"
  shows "mq_shared (mq_link_tail x mq) (F - {x}) (C - {x})"
proof -
  obtain q fr where r: "mq_rep mq q fr" "set (q @ fr) \<union> F = {..<unat (mq_max_msgs mq)}" "set (q @ fr) \<inter> F = {}"
    "C \<subseteq> F" "\<forall>x \<in> C. mq_next mq x = None" by (rule mq_sharedE [OF s])
  have x: "x \<notin> set (q @ fr)" "x < unat (mq_max_msgs mq)" "mq_next mq x = None" using h r by blast+
  have "mq_next (mq_link_tail x mq) y = mq_next mq y" if "y \<in> C" for y
  proof -
    have "y \<notin> set q" using that r(3,4) by auto
    then have "mq_tail mq \<noteq> Some y" using r(1) by (auto simp: mq_rep_def split: if_splits)
    then show ?thesis by (auto simp: mq_link_tail_def Let_def split: option.splits)
  qed
  moreover have "mq_max_msgs (mq_link_tail x mq) = mq_max_msgs mq"
    by (simp add: mq_link_tail_def Let_def split: option.splits)
  ultimately show ?thesis
    by (intro mq_sharedI [OF mq_rep_link_tail [OF r(1) x]]) (use r x h in auto)
qed

lemma mq_shared_link_head:
  assumes s: "mq_shared mq F C" and h: "x \<in> F"
  shows "mq_shared (mq_link_head x mq) (F - {x}) (C - {x})"
proof -
  obtain q fr where r: "mq_rep mq q fr" "set (q @ fr) \<union> F = {..<unat (mq_max_msgs mq)}" "set (q @ fr) \<inter> F = {}"
    "C \<subseteq> F" "\<forall>x \<in> C. mq_next mq x = None" by (rule mq_sharedE [OF s])
  have x: "x \<notin> set (q @ fr)" "x < unat (mq_max_msgs mq)" using h r by blast+
  show ?thesis by (rule mq_sharedI [OF mq_rep_link_head [OF r(1) x]])
      (use r x h in \<open>auto simp: mq_link_head_def\<close>)
qed

lemma mq_shared_unlink:
  assumes s: "mq_shared mq F C" and h: "mq_head mq = Some x"
  shows "mq_shared (mq_unlink x mq) (insert x F) C"
proof -
  obtain q fr where r: "mq_rep mq q fr" "set (q @ fr) \<union> F = {..<unat (mq_max_msgs mq)}" "set (q @ fr) \<inter> F = {}"
    "C \<subseteq> F" "\<forall>x \<in> C. mq_next mq x = None" by (rule mq_sharedE [OF s])
  then obtain q' where q: "q = x # q'" using h by (auto simp: mq_rep_def chain_Some)
  note U = mq_rep_unlink [OF r(1) [unfolded q]]
  show ?thesis by (rule mq_sharedI [OF U(1)]) (use r U(3,4) q in \<open>auto simp: mq_unlink_def\<close>)
qed

lemma mq_shared_give_back:
  assumes s: "mq_shared mq F C" and h: "x \<in> F"
  shows "mq_shared (mq_give_back x mq) (F - {x}) (C - {x})"
proof -
  obtain q fr where r: "mq_rep mq q fr" "set (q @ fr) \<union> F = {..<unat (mq_max_msgs mq)}" "set (q @ fr) \<inter> F = {}"
    "C \<subseteq> F" "\<forall>x \<in> C. mq_next mq x = None" by (rule mq_sharedE [OF s])
  have x: "x \<notin> set (q @ fr)" "x < unat (mq_max_msgs mq)" using h r by blast+
  show ?thesis by (rule mq_sharedI [OF mq_rep_give_back [OF r(1) x]])
      (use r x h in \<open>auto simp: mq_give_back_def\<close>)
qed

lemma mq_reach_shared: "mq_reach mq F C \<Longrightarrow> mq_shared mq F C"
  by (induction rule: mq_reach.induct)
     (blast intro: mq_shared_start mq_shared_alloc mq_shared_clear mq_shared_store mq_shared_link_tail
       mq_shared_link_head mq_shared_unlink mq_shared_give_back)+

section \<open>Properties\<close>

text \<open>Sending to a message queue.  A message that does not fit a slot is refused; with a free slot the
  queue of messages grows by one at its end, whose first bytes are the sent ones, and the first
  waiting receiver is woken; on a full queue the call refuses or blocks the sender.  The copies
  stay inside slot and buffer.\<close>

theorem rt_mq_send_correct:
  assumes o: "mqueue_ok a mq s" and st: "tstat s t = RT_THREAD_RUNNING" and r: "registered t s" and b: "time < 0x7fffffff"
    and n: "n \<noteq> 0" "n \<le> length buffer"
  shows "\<exists>s' mq' out. rt_mq_send_wait_call a buffer n time mq s = (s', mq', out) \<and> mqueue_ok a mq' s' \<and> fault s' = fault s \<and>
    (if unat (mq_msg_size mq) < n then out = Return (- RT_ERROR) \<and> mq' = mq \<and> s' = s
     else if length (mq_msgs mq) < unat (mq_max_msgs mq)
     then out = Return RT_EOK \<and> woken (mq_list a) s s' \<and>
       (\<exists>m. mq_msgs mq' = mq_msgs mq @ [m] \<and> take n m = take n buffer \<and> length m = unat (mq_msg_size mq))
     else mq' = mq \<and> (if time = 0 then out = Return (- RT_EFULL) \<and> s' = s
       else out = Blocked t \<and> blocked_in (mq_senders a) time s t s'))"
proof -
  have O: "ipc_ok (Mq_Obj a) (mq_flag mq) s" "is_mq a s" "mq_inv mq" using o by (simp_all add: mqueue_ok_def)
  have c: "rt_current_thread s = Some t" by (rule running_thread(4) [OF ipc_okD(1) [OF O(1)] st])
  note full = mq_inv_full [OF O(3)]
  consider (big) "unat (mq_msg_size mq) < n" | (room) "n \<le> unat (mq_msg_size mq)" "mq_free mq \<noteq> None"
    | (no) "n \<le> unat (mq_msg_size mq)" "mq_free mq = None" "time = 0"
    | (bl) "n \<le> unat (mq_msg_size mq)" "mq_free mq = None" "time \<noteq> 0" by linarith
  then show ?thesis
  proof cases
    case room
    show ?thesis
      by (rule mq_send_room [OF o room(2) n(1) room(1) n(2), where time = time]) (use room full in auto)
  next
    case bl
    show ?thesis
      by (rule mqueue_blocks [OF o disjI2 [OF refl] st r b])
         (use bl O(2) c n full in \<open>simp add: rt_mq_send_wait_call_def mq_send_loop_def rt_assert_holds rt_thread_self_def\<close>)
  qed (use o O(2) n full in \<open>simp_all add: rt_mq_send_wait_call_def rt_assert_holds\<close>)
qed

definition demo_mq :: rt_messagequeue where
  "demo_mq = mq_fresh (\<lambda>_. None) (\<lambda>_. [0, 0, 0, 0]) 4 2 0"

lemma demo_mq_rep: "mq_rep demo_mq [] [Suc 0, 0]"
  using mq_rep_fresh [of 2 "\<lambda>_. [0, 0, 0, 0]" 4 "\<lambda>_. None" 0] by (simp add: demo_mq_def upt_rec)

lemma demo_mq_facts: "mq_msg_size demo_mq = 4" "mq_max_msgs demo_mq = 2" "mq_msgs demo_mq = []" "mq_flag demo_mq = 0"
  using mq_rep_msgs(1) [OF demo_mq_rep] by (simp_all add: demo_mq_def mq_fresh_def case_prod_beta Let_def)

lemma demo_mq_ok: "mqueue_ok a demo_mq (demo_wait (Mq_Obj a))"
proof -
  have "mq_inv demo_mq" unfolding mq_inv_def
    by (intro exI [of _ "[]"] exI [of _ "[Suc 0, 0]"]) (simp add: demo_mq_rep demo_mq_facts)
  then show ?thesis
    by (simp add: demo_mq_facts mqueue_ok_def ipc_ok_def demo_wait_kinv demo_wait_facts demo_wait_registered
        is_mq_def rt_object_get_type_def demo_objs_def RT_Object_Class_Static_def RT_Object_Class_MessageQueue_def)
qed

theorem rt_mq_send_correct_witness:
  "\<exists>s' mq' m. rt_mq_send_wait_call 6 [1, 2, 3] 3 0 demo_mq (demo_wait (Mq_Obj 6)) = (s', mq', Return RT_EOK) \<and>
     mq_msgs mq' = [m] \<and> take 3 m = [1, 2, 3]"
  using rt_mq_send_correct [OF demo_mq_ok demo_wait_facts(4) demo_wait_registered, of 0 3 "[1, 2, 3]" 6]
  by (auto simp: demo_mq_facts)

text \<open>An urgent message goes to the front of the queue.\<close>

lemma rt_mq_urgent_correct:
  assumes o: "mqueue_ok a mq s" and n: "n \<noteq> 0" "n \<le> length buffer"
  shows "\<exists>s' mq' e. rt_mq_urgent a buffer n mq s = (s', mq', e) \<and> mqueue_ok a mq' s' \<and> fault s' = fault s \<and>
    (if unat (mq_msg_size mq) < n then e = - RT_ERROR \<and> mq' = mq \<and> s' = s
     else if length (mq_msgs mq) < unat (mq_max_msgs mq)
     then e = RT_EOK \<and> woken (mq_list a) s s' \<and>
       (\<exists>m. mq_msgs mq' = m # mq_msgs mq \<and> take n m = take n buffer \<and> length m = unat (mq_msg_size mq))
     else e = - RT_EFULL \<and> mq' = mq \<and> s' = s)"
proof -
  have O: "is_mq a s" "mq_inv mq" using o by (simp_all add: mqueue_ok_def)
  note full = mq_inv_full [OF O(2)]
  consider (big) "unat (mq_msg_size mq) < n" | (room) "n \<le> unat (mq_msg_size mq)" "mq_free mq \<noteq> None"
    | (no) "n \<le> unat (mq_msg_size mq)" "mq_free mq = None" by linarith
  then show ?thesis
  proof cases
    case room
    show ?thesis by (rule mq_urgent_room [OF o room(2) n(1) room(1) n(2)]) (use room full in auto)
  qed (use o O(1) n full in \<open>simp_all add: rt_mq_urgent_def rt_assert_holds\<close>)
qed

text \<open>Receiving from a message queue.  The first message is removed, as many of its bytes as fit the
  buffer are delivered and the rest of the buffer is left alone, its slot is free again and the
  first waiting sender is woken; on an empty queue the call refuses or blocks the receiver.\<close>

theorem rt_mq_recv_correct:
  assumes o: "mqueue_ok a mq s" and st: "tstat s t = RT_THREAD_RUNNING" and r: "registered t s" and b: "time < 0x7fffffff"
    and n: "n \<noteq> 0" "n \<le> length buffer"
  shows "\<exists>s' mq' out res. rt_mq_recv_call a buffer n time mq s = (s', mq', out, res) \<and> mqueue_ok a mq' s' \<and> fault s' = fault s \<and>
    (case mq_msgs mq of
       m # ms \<Rightarrow> out = Return RT_EOK \<and> mq_msgs mq' = ms \<and> mq_free mq' \<noteq> None \<and> woken (mq_senders a) s s' \<and>
         res = Some (take (min n (unat (mq_msg_size mq))) m @ drop (min n (unat (mq_msg_size mq))) buffer)
     | [] \<Rightarrow> mq' = mq \<and> res = None \<and>
         (if time = 0 then out = Return (- RT_ETIMEOUT) \<and> s' = s
          else out = Blocked t \<and> blocked_in (mq_list a) time s t s'))"
proof -
  have O: "ipc_ok (Mq_Obj a) (mq_flag mq) s" "is_mq a s" "mq_inv mq" using o by (simp_all add: mqueue_ok_def)
  have c: "rt_current_thread s = Some t" by (rule running_thread(4) [OF ipc_okD(1) [OF O(1)] st])
  have em: "mq_entry mq = 0 \<longleftrightarrow> mq_msgs mq = []" by (rule mq_inv_cases [OF O(3)]) simp
  consider (some) m ms where "mq_msgs mq = m # ms" | (no) "mq_msgs mq = []" "time = 0" | (bl) "mq_msgs mq = []" "time \<noteq> 0"
    by (cases "mq_msgs mq") auto
  then show ?thesis
  proof cases
    case some
    show ?thesis by (rule mq_recv_some [OF o some n, where time = time]) (use some in auto)
  next
    case no
    then show ?thesis using o O(2) em n by (simp add: rt_mq_recv_call_def rt_assert_holds)
  next
    case bl
    show ?thesis
      by (rule mqueue_blocks [OF o disjI1 [OF refl] st r b])
         (use bl O(2) c n em in \<open>simp add: rt_mq_recv_call_def mq_recv_loop_def rt_assert_holds rt_thread_self_def\<close>)
  qed
qed

theorem rt_mq_recv_correct_witness:
  "fst (snd (snd (rt_mq_recv_call 6 [0, 0] 2 25 demo_mq (demo_wait (Mq_Obj 6))))) = Blocked 1"
  using rt_mq_recv_correct [OF demo_mq_ok demo_wait_facts(4) demo_wait_registered, of 25 2 "[0, 0]" 6]
  by (auto simp: demo_mq_facts)

text \<open>C33: Interleaved senders and receivers.  Whatever the order of the critical sections of concurrent
  sends, urgent sends and receives, the queue and the free list stay proper chains, \<^verbatim>\<open>entry\<close> is the
  number of queued messages, and every slot is at every moment exactly one of queued, free or in
  the hands of a call that copies; no slot is shared or lost.\<close>

theorem rt_mq_slots_disjoint:
  assumes "mq_reach mq F C"
  shows "\<exists>q fr. chain (mq_next mq) (mq_head mq) q \<and> chain (mq_next mq) (mq_free mq) fr \<and> distinct (q @ fr) \<and>
    unat (mq_entry mq) = length q \<and> mq_tail mq = (if q = [] then None else Some (last q)) \<and>
    set q \<union> set fr \<union> F = {..<unat (mq_max_msgs mq)} \<and> (set q \<union> set fr) \<inter> F = {}"
proof -
  obtain q fr where "mq_rep mq q fr" "set (q @ fr) \<union> F = {..<unat (mq_max_msgs mq)}" "set (q @ fr) \<inter> F = {}"
    by (rule mq_sharedE [OF mq_reach_shared [OF assms]])
  then show ?thesis unfolding mq_rep_def by (intro exI [of _ q] exI [of _ fr]) auto
qed

theorem rt_mq_slots_disjoint_witness:
  "\<exists>mq x. mq_reach mq {x} {} \<and> x < 2 \<and> unat (mq_max_msgs mq) = 2"
proof -
  have "mq_inv demo_mq" using demo_mq_ok [of 0] by (simp add: mqueue_ok_def)
  then have "mq_reach demo_mq {} {}" by (rule mq_reach.start)
  moreover have f: "mq_free demo_mq = Some (Suc 0)" by (rule mq_rep_alloc(2) [OF demo_mq_rep])
  ultimately have a: "mq_reach (mq_alloc (Suc 0) demo_mq) {Suc 0} {}" by (rule mq_reach.alloc)
  have m: "unat (mq_max_msgs (mq_alloc (Suc 0) demo_mq)) = 2" by (simp add: mq_alloc_def demo_mq_facts)
  have "Suc 0 \<in> {..<unat (mq_max_msgs (mq_alloc (Suc 0) demo_mq))}" using rt_mq_slots_disjoint [OF a] by blast
  then have "Suc 0 < 2" unfolding m by simp
  with a m show ?thesis by blast
qed

text \<open>C39: A reset ends.  With more rounds than there are waiters and messages the loops of the reset come to
  their end: the queue is empty again with all its slots free, every thread that waited for a message or
  for room is awake with the error \<^verbatim>\<open>-RT_ERROR\<close>, and nobody waits any more.\<close>

theorem rt_mq_reset_terminates:
  assumes o: "mqueue_ok a mq s" and f: "length (tlists s (mq_list a)) < fuel" "length (tlists s (mq_senders a)) < fuel"
      "length (mq_msgs mq) < fuel"
  shows "\<exists>s' mq'. rt_mq_control fuel a RT_IPC_CMD_RESET mq s = Some (s', mq', RT_EOK) \<and> mqueue_ok a mq' s' \<and>
    mq_msgs mq' = [] \<and> fault s' = fault s \<and> tlists s' (mq_list a) = [] \<and> tlists s' (mq_senders a) = [] \<and>
    (\<forall>t \<in> set (tlists s (mq_list a)) \<union> set (tlists s (mq_senders a)). awake s' t \<and> error (thr s' t) = - RT_ERROR)"
proof -
  have O: "ipc_ok (Mq_Obj a) (mq_flag mq) s" "is_mq a s" "mq_inv mq" using o by (simp_all add: mqueue_ok_def)
  obtain s1 where s1: "mq_resume_all fuel a s = Some s1" "ipc_ok (Mq_Obj a) (mq_flag mq) s1" "tlists s1 (mq_list a) = []"
    "tlists s1 (mq_senders a) = []" "fault s1 = fault s" "objs s1 = objs s"
    "\<forall>t \<in> set (tlists s (mq_list a)) \<union> set (tlists s (mq_senders a)). awake s1 t \<and> error (thr s1 t) = - RT_ERROR"
    by (rule ipc_reset [OF O(1) f(1,2)]) (auto simp: mq_resume_all_def)
  obtain q fr where q: "mq_rep mq q fr" "length q + length fr = unat (mq_max_msgs mq)" "mq_msgs mq = map (mq_data mq) q"
    by (rule mq_inv_cases [OF O(3)])
  have "length q = unat (mq_entry mq)" using q(1) by (simp add: mq_rep_def)
  then have "mq_entry mq = word_of_nat (length q)" by simp
  then have "mq_rep (mq\<lparr>mq_entry := word_of_nat (length q)\<rparr>) q fr" using q(1) by (simp add: mq_rep_def)
  then obtain mq1 where m: "mq_drain fuel mq = Some mq1" "mq_rep (mq1\<lparr>mq_entry := 0\<rparr>) [] (rev q @ fr)"
      "mq_max_msgs mq1 = mq_max_msgs mq" "mq_flag mq1 = mq_flag mq"
    by (rule mq_rep_drain) (use f(3) q(3) in simp)
  let ?s' = "rt_schedule s1" and ?mq' = "mq1\<lparr>mq_entry := 0\<rparr>"
  note I = ipc_okD [OF s1(2)]
  note S = schedule_kinv [OF I(1,2)] and A = schedule_awake [OF I(1,2)] and L = schedule_lists [OF I(1,2)]
  have inv: "mq_inv ?mq'" unfolding mq_inv_def
    by (rule exI [of _ "[]"], rule exI [of _ "rev q @ fr"]) (use m(2,3) q(2) in simp)
  have em: "mq_msgs ?mq' = []" using mq_rep_msgs(1) [OF m(2)] by simp
  have l: "tlists ?s' (mq_list a) = []" "tlists ?s' (mq_senders a) = []" using L s1(3,4) by simp_all
  have "ipc_ok (Mq_Obj a) (mq_flag mq) ?s'" using S I(3) l by (simp add: ipc_ok_def)
  then have "mqueue_ok a ?mq' ?s'" using inv is_mq_objs [OF O(2), of ?s'] s1(6) m(4) by (simp add: mqueue_ok_def)
  moreover have "rt_mq_control fuel a RT_IPC_CMD_RESET mq s = Some (?s', ?mq', RT_EOK)"
    using O(2) s1(1) m(1) by (simp add: rt_mq_control_def rt_assert_holds)
  ultimately show ?thesis using em l S(2) s1(5,7) A by (intro exI [of _ ?s'] exI [of _ ?mq']) auto
qed

theorem rt_mq_reset_terminates_witness:
  "\<exists>s' mq'. rt_mq_control 2 6 RT_IPC_CMD_RESET demo_mq (demo_wait (Mq_Obj 6)) = Some (s', mq', RT_EOK) \<and> awake s' 2 \<and> error (thr s' 2) = - RT_ERROR"
proof -
  have "tlists (demo_wait (Mq_Obj 6)) (mq_senders 6) = []"
    by (simp add: demo_wait_def thread_insert_before_def thread_link_def demo_typed_def demo_base_def kernel0_def thread0_def)
  then show ?thesis using rt_mq_reset_terminates [OF demo_mq_ok, of 6 2] by (auto simp: demo_mq_facts demo_wait_facts)
qed

end
