(* ===== verification/Alloc.thy ===== *)
theory Alloc
  imports Prelude
begin

text \<open>
  The contract of a memory allocator, shared by the system heap (\<^verbatim>\<open>mem.c\<close>) and the memory pools
  (\<^verbatim>\<open>mempool.c\<close>), and what it gives to the callers: blocks that are in use do not overlap, and a byte
  of a block keeps the value its owner stored last, whatever the other owners and the allocator do.
\<close>

type_synonym memory = "nat \<Rightarrow> u8"

section \<open>Machine words in memory\<close>

definition ld16 :: "memory \<Rightarrow> nat \<Rightarrow> u16" where
  "ld16 m a = ucast (m a) OR push_bit 8 (ucast (m (a + 1)))"

definition st16 :: "nat \<Rightarrow> u16 \<Rightarrow> memory \<Rightarrow> memory" where
  "st16 a v m = m(a := ucast v, a + 1 := ucast (drop_bit 8 v))"

definition ld32 :: "memory \<Rightarrow> nat \<Rightarrow> u32" where
  "ld32 m a = ucast (ld16 m a) OR push_bit 16 (ucast (ld16 m (a + 2)))"

definition st32 :: "nat \<Rightarrow> u32 \<Rightarrow> memory \<Rightarrow> memory" where
  "st32 a v m = st16 (a + 2) (ucast (drop_bit 16 v)) (st16 a (ucast v) m)"

lemma ld16_st16 [simp]: "ld16 (st16 a v m) a = v"
  by (rule bit_word_eqI) (auto simp: ld16_def st16_def bit_simps)

lemma ld16_st16_other [simp]: "a + 2 \<le> b \<or> b + 2 \<le> a \<Longrightarrow> ld16 (st16 a v m) b = ld16 m b"
  by (auto simp: ld16_def st16_def)

lemma ld32_st32 [simp]: "ld32 (st32 a v m) a = v"
  by (rule bit_word_eqI) (auto simp: ld32_def st32_def bit_simps)

lemma ld32_st32_other [simp]: "a + 4 \<le> b \<or> b + 4 \<le> a \<Longrightarrow> ld32 (st32 a v m) b = ld32 m b"
  by (auto simp: ld32_def st32_def)

lemma ld32_st16_other [simp]: "a + 2 \<le> b \<or> b + 4 \<le> a \<Longrightarrow> ld32 (st16 a v m) b = ld32 m b"
  by (auto simp: ld32_def)

lemma ld16_st32_other [simp]: "a + 4 \<le> b \<or> b + 2 \<le> a \<Longrightarrow> ld16 (st32 a v m) b = ld16 m b"
  by (auto simp: st32_def)

lemma st16_frame [simp]: "i < a \<or> a + 2 \<le> i \<Longrightarrow> st16 a v m i = m i"
  by (auto simp: st16_def)

lemma st32_frame [simp]: "i < a \<or> a + 4 \<le> i \<Longrightarrow> st32 a v m i = m i"
  by (auto simp: st32_def)

lemma ld_cong:
  "(\<And>i. a \<le> i \<Longrightarrow> i < a + 2 \<Longrightarrow> m' i = m i) \<Longrightarrow> ld16 m' a = ld16 m a"
  "(\<And>i. a \<le> i \<Longrightarrow> i < a + 4 \<Longrightarrow> m' i = m i) \<Longrightarrow> ld32 m' a = ld32 m a"
  by (simp_all add: ld16_def ld32_def)

text \<open>\<^verbatim>\<open>RT_ALIGN\<close> and \<^verbatim>\<open>RT_ALIGN_DOWN\<close> in the 32-bit arithmetic of \<^verbatim>\<open>rt_size_t\<close>.\<close>

definition align32 :: "u32 \<Rightarrow> u32" where
  "align32 n = (n + 4 - 1) AND NOT (4 - 1)"

definition align_down32 :: "u32 \<Rightarrow> u32" where
  "align_down32 n = n AND NOT (4 - 1)"

lemma unat_align_down32: "unat (align_down32 w) = RT_ALIGN_DOWN (unat w)"
proof -
  have "w AND NOT (mask 2) = push_bit 2 (drop_bit 2 w)"
    by (rule bit_word_eqI) (auto simp: bit_simps simp del: add_2_eq_Suc add_2_eq_Suc')
  moreover have "align_down32 w = w AND NOT (mask 2)" by (simp add: align_down32_def mask_eq_exp_minus_1)
  ultimately have "unat (align_down32 w) = take_bit 32 (push_bit 2 (drop_bit 2 (unat w)))"
    by (simp only: unsigned_push_bit_eq unat_drop_bit_eq) simp
  also have "\<dots> = 4 * (unat w div 4)"
  proof -
    have "unat w div 4 * 4 < 2 ^ 32" using unsigned_less [of w, where ?'a = nat] div_times_less_eq_dividend [of "unat w" 4]
      by (simp add: order.strict_trans1)
    then show ?thesis by (simp add: push_bit_eq_mult drop_bit_eq_div take_bit_nat_eq_self)
  qed
  finally show ?thesis by (simp add: RT_ALIGN_DOWN_def minus_mod_eq_mult_div)
qed

lemma align32_eq: "align32 n = align_down32 (n + 3)"
  by (simp add: align32_def align_down32_def algebra_simps)

lemma align32_dvd: "4 dvd unat (align32 n)"
  by (simp add: align32_eq unat_align_down32)

lemma unat_align32: "unat n + 3 < 2 ^ 32 \<Longrightarrow> unat (align32 n) = RT_ALIGN (unat n)"
  by (simp add: align32_eq unat_align_down32 RT_ALIGN_def unat_word_ariths)

section \<open>Blocks\<close>

text \<open>Blocks in use are given as a map from their address to their length.\<close>

type_synonym block_map = "nat \<Rightarrow> nat option"

definition separate :: "block_map \<Rightarrow> bool" where
  "separate M \<longleftrightarrow> (\<forall>a b n k. M a = Some n \<longrightarrow> M b = Some k \<longrightarrow> a \<noteq> b \<longrightarrow> a + n \<le> b \<or> b + k \<le> a)"

definition same_bytes :: "block_map \<Rightarrow> memory \<Rightarrow> memory \<Rightarrow> bool" where
  "same_bytes M m m' \<longleftrightarrow> (\<forall>a n i. M a = Some n \<longrightarrow> i < n \<longrightarrow> m' (a + i) = m (a + i))"

text \<open>A block of \<open>n\<close> bytes at \<open>a\<close> is nobody's and overlaps nobody's.\<close>

definition unclaimed :: "block_map \<Rightarrow> nat \<Rightarrow> nat \<Rightarrow> bool" where
  "unclaimed A a n \<longleftrightarrow> A a = None \<and> (\<forall>b k. A b = Some k \<longrightarrow> a + n \<le> b \<or> b + k \<le> a)"

text \<open>\<open>M\<close> grants exactly the blocks that the callers hold, perhaps with more room than they asked for.\<close>

definition grants :: "block_map \<Rightarrow> block_map \<Rightarrow> bool" where
  "grants M A \<longleftrightarrow> dom M = dom A \<and> (\<forall>a n. A a = Some n \<longrightarrow> (\<exists>k \<ge> n. M a = Some k))"

lemma separateD: "\<lbrakk>separate M; M a = Some n; M b = Some k; i < n; j < k; a + i = b + j\<rbrakk> \<Longrightarrow> a = b"
  unfolding separate_def by (rule ccontr) (use not_less in fastforce)

lemma separate_grants:
  assumes "separate M" "grants M A"
  shows "separate A"
  unfolding separate_def
proof (intro allI impI)
  fix a b n k assume a: "A a = Some n" "A b = Some k" "a \<noteq> b"
  obtain n' k' where "n \<le> n'" "M a = Some n'" "k \<le> k'" "M b = Some k'" using assms(2) a by (meson grants_def)
  then show "a + n \<le> b \<or> b + k \<le> a" using assms(1) a(3) unfolding separate_def by (meson add_left_mono order_trans)
qed

lemma grantsD: "\<lbrakk>grants M A; A a = Some n\<rbrakk> \<Longrightarrow> \<exists>k \<ge> n. M a = Some k"
  by (simp add: grants_def)

lemma unclaimed_grants:
  assumes "separate (M(a \<mapsto> k))" "n \<le> k" "M a = None" "grants M A"
  shows "unclaimed A a n"
proof -
  have "A a = None" using assms(3,4) unfolding grants_def by (metis domIff)
  moreover have "a + n \<le> b \<or> b + j \<le> a" if b: "A b = Some j" for b j
  proof -
    obtain j' where j: "j \<le> j'" "M b = Some j'" using grantsD [OF assms(4) b] by blast
    have "b \<noteq> a" using j(2) assms(3) by auto
    then have "a + k \<le> b \<or> b + j' \<le> a" using assms(1) j(2) unfolding separate_def by (metis fun_upd_apply)
    then show ?thesis using j(1) assms(2) by linarith
  qed
  ultimately show ?thesis by (simp add: unclaimed_def)
qed

text \<open>
  A history of the callers.  \<open>A\<close> are the blocks they hold, with the length they asked for, and \<open>C\<close> the
  values they stored last, \<open>None\<close> where nothing was stored since the block was handed out.  Nothing is
  assumed of the address that the allocator returns: that it is \<open>unclaimed\<close> in every state of every
  history is part of what is shown.
\<close>

inductive alloc_run ::
    "('r \<Rightarrow> bool) \<Rightarrow> ('r \<Rightarrow> nat) \<Rightarrow> ('r \<Rightarrow> 's \<Rightarrow> ('s \<times> nat option) option) \<Rightarrow> (nat \<Rightarrow> 's \<Rightarrow> 's) \<Rightarrow> (nat \<Rightarrow> u8 \<Rightarrow> 's \<Rightarrow> 's) \<Rightarrow>
      's \<Rightarrow> 's \<Rightarrow> block_map \<Rightarrow> (nat \<Rightarrow> u8 option) \<Rightarrow> bool"
  for valid need alloc release store s0 where
  start: "alloc_run valid need alloc release store s0 s0 Map.empty (\<lambda>_. None)"
| grant: "\<lbrakk>alloc_run valid need alloc release store s0 s A C; valid r; alloc r s = Some (s', Some a)\<rbrakk>
    \<Longrightarrow> alloc_run valid need alloc release store s0 s' (A(a \<mapsto> need r)) (\<lambda>x. if a \<le> x \<and> x < a + need r then None else C x)"
| refuse: "\<lbrakk>alloc_run valid need alloc release store s0 s A C; valid r; alloc r s = Some (s', None)\<rbrakk>
    \<Longrightarrow> alloc_run valid need alloc release store s0 s' A C"
| give_back: "\<lbrakk>alloc_run valid need alloc release store s0 s A C; A a = Some n\<rbrakk>
    \<Longrightarrow> alloc_run valid need alloc release store s0 (release a s) (A(a := None)) C"
| update: "\<lbrakk>alloc_run valid need alloc release store s0 s A C; A a = Some n; i < n\<rbrakk>
    \<Longrightarrow> alloc_run valid need alloc release store s0 (store (a + i) v s) A (C(a + i \<mapsto> v))"

text \<open>The contents agree with what was stored.\<close>

definition intact :: "block_map \<Rightarrow> (nat \<Rightarrow> u8 option) \<Rightarrow> memory \<Rightarrow> bool" where
  "intact A C m \<longleftrightarrow> (\<forall>a n i v. A a = Some n \<longrightarrow> i < n \<longrightarrow> C (a + i) = Some v \<longrightarrow> m (a + i) = v)"

lemma intactD: "\<lbrakk>intact A C m; A a = Some n; i < n; C (a + i) = Some v\<rbrakk> \<Longrightarrow> m (a + i) = v"
  by (simp add: intact_def)

lemma same_bytes_grants:
  assumes "grants M A" "same_bytes M m m'"
  shows "same_bytes A m m'"
  using assms unfolding grants_def same_bytes_def by (meson less_le_trans)

lemma intact_same: "same_bytes A m m' \<Longrightarrow> intact A C m \<Longrightarrow> intact A C m'"
  unfolding same_bytes_def intact_def by metis

locale allocator =
  fixes holds :: "'s \<Rightarrow> block_map \<Rightarrow> bool" and mem :: "'s \<Rightarrow> memory"
    and valid :: "'r \<Rightarrow> bool" and need :: "'r \<Rightarrow> nat" and alloc :: "'r \<Rightarrow> 's \<Rightarrow> ('s \<times> nat option) option"
    and release :: "nat \<Rightarrow> 's \<Rightarrow> 's" and store :: "nat \<Rightarrow> u8 \<Rightarrow> 's \<Rightarrow> 's"
  assumes holds_separate: "holds s M \<Longrightarrow> separate M"
    and alloc_returns: "\<lbrakk>holds s M; valid r\<rbrakk> \<Longrightarrow> alloc r s \<noteq> None"
    and alloc_some: "\<lbrakk>holds s M; valid r; alloc r s = Some (s', Some a)\<rbrakk> \<Longrightarrow>
      M a = None \<and> same_bytes M (mem s) (mem s') \<and> (\<exists>n \<ge> need r. holds s' (M(a \<mapsto> n)))"
    and alloc_none: "\<lbrakk>holds s M; valid r; alloc r s = Some (s', None)\<rbrakk> \<Longrightarrow> holds s' M \<and> same_bytes M (mem s) (mem s')"
    and release_ok: "\<lbrakk>holds s M; M a = Some n\<rbrakk> \<Longrightarrow>
      holds (release a s) (M(a := None)) \<and> same_bytes (M(a := None)) (mem s) (mem (release a s))"
    and store_ok: "\<lbrakk>holds s M; M a = Some n; i < n\<rbrakk> \<Longrightarrow>
      holds (store (a + i) v s) M \<and> mem (store (a + i) v s) = (mem s)(a + i := v)"
begin

lemma run_holds:
  assumes "alloc_run valid need alloc release store s0 s A C" "holds s0 Map.empty"
  shows "\<exists>M. holds s M \<and> grants M A \<and> intact A C (mem s)"
  using assms
proof (induction)
  case start
  then show ?case by (auto simp: grants_def intact_def)
next
  case (grant s A C r s' a)
  then obtain M where M: "holds s M" "grants M A" "intact A C (mem s)" by blast
  from alloc_some [OF M(1) grant.hyps(2,3)] obtain n where
    n: "M a = None" "same_bytes M (mem s) (mem s')" "need r \<le> n" "holds s' (M(a \<mapsto> n))" by blast
  have g: "grants (M(a \<mapsto> n)) (A(a \<mapsto> need r))" using M(2) n(3) by (auto simp: grants_def)
  have "intact A C (mem s')" using intact_same [OF same_bytes_grants [OF M(2) n(2)] M(3)] .
  then have "intact (A(a \<mapsto> need r)) (\<lambda>x. if a \<le> x \<and> x < a + need r then None else C x) (mem s')"
    by (auto simp: intact_def split: if_splits)
  then show ?case using n(4) g by blast
next
  case (refuse s A C r s')
  then obtain M where M: "holds s M" "grants M A" "intact A C (mem s)" by blast
  then show ?case using alloc_none [OF M(1) refuse.hyps(2,3)] intact_same same_bytes_grants by blast
next
  case (give_back s A C a n)
  then obtain M where M: "holds s M" "grants M A" "intact A C (mem s)" by blast
  then obtain k where k: "M a = Some k" using grantsD [OF M(2) give_back.hyps(2)] by blast
  note r = release_ok [OF M(1) k]
  have g: "grants (M(a := None)) (A(a := None))" using M(2) by (auto simp: grants_def)
  have "intact (A(a := None)) C (mem s)" using M(3) by (auto simp: intact_def)
  then show ?case using r g intact_same same_bytes_grants by blast
next
  case (update s A C a n i v)
  then obtain M where M: "holds s M" "grants M A" "intact A C (mem s)" by blast
  obtain k where k: "M a = Some k" "n \<le> k" using grantsD [OF M(2) update.hyps(2)] by blast
  have st: "holds (store (a + i) v s) M" "mem (store (a + i) v s) = (mem s)(a + i := v)"
    using store_ok [OF M(1) k(1)] k(2) update.hyps(3) by auto
  have "intact A (C(a + i \<mapsto> v)) ((mem s)(a + i := v))" using M(3) by (auto simp: intact_def)
  then show ?case using st M(2) by metis
qed

lemma run_integrity:
  assumes "alloc_run valid need alloc release store s0 s A C" "holds s0 Map.empty"
  shows "separate A" "intact A C (mem s)" "valid r \<Longrightarrow> alloc r s \<noteq> None"
    "valid r \<Longrightarrow> alloc r s = Some (s', Some a) \<Longrightarrow> unclaimed A a (need r)"
proof -
  obtain M where M: "holds s M" "grants M A" "intact A C (mem s)" using run_holds [OF assms] by blast
  show "separate A" using separate_grants [OF holds_separate [OF M(1)] M(2)] .
  show "intact A C (mem s)" by (rule M(3))
  show "valid r \<Longrightarrow> alloc r s \<noteq> None" by (rule alloc_returns [OF M(1)])
  assume "valid r" "alloc r s = Some (s', Some a)"
  then obtain n where "M a = None" "need r \<le> n" "holds s' (M(a \<mapsto> n))" using alloc_some [OF M(1)] by blast
  then show "unclaimed A a (need r)" using unclaimed_grants [OF holds_separate _ _ M(2)] by blast
qed

end

end
