(* ===== verification/Kheap.thy ===== *)
theory Kheap
  imports Alloc
begin

text \<open>
  The system heap of \<^verbatim>\<open>rt-thread/src/mem.c\<close> (\<^verbatim>\<open>RT_USING_SMALL_MEM\<close>).  The memory is a map from
  addresses to bytes, in which the block headers lie as the code writes them, so that headers and
  user data share the memory.  Pointers are addresses, \<open>None\<close> is the null pointer; sizes and the
  links in the headers are 32-bit words.  Each operation is the body of its critical section under
  \<^verbatim>\<open>heap_sem\<close>.  A loop that does not end gives \<open>None\<close>.
\<close>

section \<open>Headers in memory\<close>

text \<open>\<^verbatim>\<open>struct heap_mem\<close>, twelve bytes, at address \<open>a\<close>.\<close>

abbreviation magic :: "memory \<Rightarrow> nat \<Rightarrow> u16" where "magic m a \<equiv> ld16 m a"
abbreviation used :: "memory \<Rightarrow> nat \<Rightarrow> u16" where "used m a \<equiv> ld16 m (a + 2)"
abbreviation next1 :: "memory \<Rightarrow> nat \<Rightarrow> u32" where "next1 m a \<equiv> ld32 m (a + 4)"
abbreviation prev1 :: "memory \<Rightarrow> nat \<Rightarrow> u32" where "prev1 m a \<equiv> ld32 m (a + 8)"

section \<open>Definitions\<close>

abbreviation (input) HEAP_MAGIC :: u16 where "HEAP_MAGIC \<equiv> 0x1ea0"
abbreviation (input) MIN_SIZE_ALIGNED :: u32 where "MIN_SIZE_ALIGNED \<equiv> 12"
abbreviation (input) SIZEOF_STRUCT_MEM :: u32 where "SIZEOF_STRUCT_MEM \<equiv> 12"

record heap =
  bytes :: memory
  heap_ptr :: nat
  heap_end :: nat
  lfree :: nat
  mem_size_aligned :: u32
  used_mem :: u32
  max_mem :: u32
  heap_fault :: bool

definition heap_assert :: "bool \<Rightarrow> heap \<Rightarrow> heap" where
  "heap_assert b h = (if b then h else h\<lparr>heap_fault := True\<rparr>)"

definition upd_bytes :: "(memory \<Rightarrow> memory) \<Rightarrow> heap \<Rightarrow> heap" where
  "upd_bytes f h = h\<lparr>bytes := f (bytes h)\<rparr>"

text \<open>The two halves of \<^verbatim>\<open>plug_holes\<close>.\<close>

definition plug_forward :: "nat \<Rightarrow> heap \<Rightarrow> heap" where
  "plug_forward mem h =
     (let nmem = heap_ptr h + unat (next1 (bytes h) mem) in
      if mem \<noteq> nmem \<and> used (bytes h) nmem = 0 \<and> nmem \<noteq> heap_end h
      then let h1 = (if lfree h = nmem then h\<lparr>lfree := mem\<rparr> else h);
               h2 = upd_bytes (st32 (mem + 4) (next1 (bytes h1) nmem)) h1
           in upd_bytes (st32 (heap_ptr h2 + unat (next1 (bytes h2) nmem) + 8) (word_of_nat (mem - heap_ptr h2))) h2
      else h)"

definition plug_backward :: "nat \<Rightarrow> heap \<Rightarrow> heap" where
  "plug_backward mem h =
     (let pmem = heap_ptr h + unat (prev1 (bytes h) mem) in
      if pmem \<noteq> mem \<and> used (bytes h) pmem = 0
      then let h1 = (if lfree h = mem then h\<lparr>lfree := pmem\<rparr> else h);
               h2 = upd_bytes (st32 (pmem + 4) (next1 (bytes h1) mem)) h1
           in upd_bytes (st32 (heap_ptr h2 + unat (next1 (bytes h2) mem) + 8) (word_of_nat (pmem - heap_ptr h2))) h2
      else h)"

definition plug_holes :: "nat \<Rightarrow> heap \<Rightarrow> heap" where
  "plug_holes mem h =
     plug_backward mem (plug_forward mem
       (heap_assert (used (bytes h) mem = 0) (heap_assert (mem < heap_end h) (heap_assert (mem \<ge> heap_ptr h) h))))"

definition rt_system_heap_init :: "u32 \<Rightarrow> u32 \<Rightarrow> heap \<Rightarrow> heap" where
  "rt_system_heap_init begin_addr end_addr h =
     (let begin_align = align32 begin_addr; end_align = align_down32 end_addr in
      if end_align > 2 * SIZEOF_STRUCT_MEM \<and> end_align - 2 * SIZEOF_STRUCT_MEM \<ge> begin_align
      then
        let msa = end_align - begin_align - 2 * SIZEOF_STRUCT_MEM;
            hp = unat begin_align; nx = msa + SIZEOF_STRUCT_MEM; he = hp + unat nx;
            m1 = st16 (hp + 2) 0 (st32 (hp + 8) 0 (st32 (hp + 4) nx (st16 hp HEAP_MAGIC (bytes h))));
            m2 = st32 (he + 8) nx (st32 (he + 4) nx (st16 (he + 2) 1 (st16 he HEAP_MAGIC m1)))
        in h\<lparr>bytes := m2, heap_ptr := hp, heap_end := he, lfree := hp, mem_size_aligned := msa\<rparr>
      else h)"

text \<open>The search loop of \<^verbatim>\<open>rt_malloc\<close>: the inner result is the block found.\<close>

partial_function (option) heap_scan :: "u32 \<Rightarrow> u32 \<Rightarrow> heap \<Rightarrow> u32 option option" where
  "heap_scan size1 ptr h =
     (if ptr < mem_size_aligned h - size1
      then if used (bytes h) (heap_ptr h + unat ptr) = 0 \<and>
              next1 (bytes h) (heap_ptr h + unat ptr) - (ptr + SIZEOF_STRUCT_MEM) \<ge> size1
           then Some (Some ptr)
           else heap_scan size1 (next1 (bytes h) (heap_ptr h + unat ptr)) h
      else Some None)"

text \<open>The search for the next free block after the lowest one was taken.\<close>

partial_function (option) next_free :: "nat \<Rightarrow> heap \<Rightarrow> nat option" where
  "next_free lf h =
     (if used (bytes h) lf \<noteq> 0 \<and> lf \<noteq> heap_end h
      then next_free (heap_ptr h + unat (next1 (bytes h) lf)) h
      else Some lf)"

definition count_used :: "u32 \<Rightarrow> heap \<Rightarrow> heap" where
  "count_used n h =
     (let u = used_mem h + n in h\<lparr>used_mem := u, max_mem := (if max_mem h < u then u else max_mem h)\<rparr>)"

text \<open>A header for the rest of a block is put at offset \<open>ptr2\<close>, between the block at \<open>ptr\<close> and its
  successor.\<close>

definition split_block :: "u32 \<Rightarrow> u32 \<Rightarrow> heap \<Rightarrow> heap" where
  "split_block ptr ptr2 h =
     (let mem = heap_ptr h + unat ptr; mem2 = heap_ptr h + unat ptr2; nx = next1 (bytes h) mem;
          h1 = upd_bytes (\<lambda>m. st32 (mem2 + 8) ptr (st32 (mem2 + 4) nx (st16 (mem2 + 2) 0 (st16 mem2 HEAP_MAGIC m)))) h;
          h2 = upd_bytes (st32 (mem + 4) ptr2) h1
      in if nx \<noteq> mem_size_aligned h2 + SIZEOF_STRUCT_MEM
         then upd_bytes (st32 (heap_ptr h2 + unat nx + 8) ptr2) h2 else h2)"

definition take_block :: "u32 \<Rightarrow> u32 \<Rightarrow> heap \<Rightarrow> heap" where
  "take_block size1 ptr h =
     (let mem = heap_ptr h + unat ptr;
          h1 = (if next1 (bytes h) mem - (ptr + SIZEOF_STRUCT_MEM) \<ge> size1 + SIZEOF_STRUCT_MEM + MIN_SIZE_ALIGNED
                then count_used (size1 + SIZEOF_STRUCT_MEM)
                       (upd_bytes (st16 (mem + 2) 1) (split_block ptr (ptr + SIZEOF_STRUCT_MEM + size1) h))
                else let h' = upd_bytes (st16 (mem + 2) 1) h
                     in count_used (next1 (bytes h') mem - word_of_nat (mem - heap_ptr h')) h')
      in upd_bytes (st16 mem HEAP_MAGIC) h1)"

definition rt_malloc :: "u32 \<Rightarrow> heap \<Rightarrow> (heap \<times> nat option) option" where
  "rt_malloc size0 h =
     (if size0 = 0 then Some (h, None)
      else if align32 size0 > mem_size_aligned h then Some (h, None)
      else
        let size1 = (if align32 size0 < MIN_SIZE_ALIGNED then MIN_SIZE_ALIGNED else align32 size0) in
        Option.bind (heap_scan size1 (word_of_nat (lfree h - heap_ptr h)) h) (\<lambda>r.
          case r of
            None \<Rightarrow> Some (h, None)
          | Some ptr \<Rightarrow>
              let mem = heap_ptr h + unat ptr; h1 = take_block size1 ptr h
              in Option.bind (if mem = lfree h1
                              then map_option (\<lambda>lf. heap_assert (lf = heap_end h1 \<or> used (bytes h1) lf = 0) (h1\<lparr>lfree := lf\<rparr>))
                                     (next_free (lfree h1) h1)
                              else Some h1)
                   (\<lambda>h2. Some (heap_assert (mem mod 4 = 0)
                           (heap_assert (mem + 12 + unat size1 \<le> heap_end h2) h2), Some (mem + 12)))))"

definition rt_free :: "nat option \<Rightarrow> heap \<Rightarrow> heap" where
  "rt_free rmem h =
     (case rmem of
        None \<Rightarrow> h
      | Some r \<Rightarrow>
          let h0 = heap_assert (heap_ptr h \<le> r \<and> r < heap_end h) (heap_assert (r mod 4 = 0) h) in
          if r < heap_ptr h0 \<or> r \<ge> heap_end h0 then h0
          else
            let mem = r - 12;
                h1 = heap_assert (magic (bytes h0) mem = HEAP_MAGIC) (heap_assert (used (bytes h0) mem \<noteq> 0) h0);
                h2 = upd_bytes (\<lambda>m. st16 mem HEAP_MAGIC (st16 (mem + 2) 0 m)) h1;
                h3 = (if mem < lfree h2 then h2\<lparr>lfree := mem\<rparr> else h2);
                h4 = h3\<lparr>used_mem := used_mem h3 - (next1 (bytes h3) mem - word_of_int (int mem - int (heap_ptr h3)))\<rparr>
            in plug_holes mem h4)"

text \<open>\<^verbatim>\<open>rt_memcpy\<close> and \<^verbatim>\<open>rt_memset\<close> on blocks that do not overlap.\<close>

definition mem_copy :: "nat \<Rightarrow> nat \<Rightarrow> nat \<Rightarrow> memory \<Rightarrow> memory" where
  "mem_copy dst src n m = (\<lambda>i. if dst \<le> i \<and> i < dst + n then m (src + (i - dst)) else m i)"

definition mem_fill :: "nat \<Rightarrow> u8 \<Rightarrow> nat \<Rightarrow> memory \<Rightarrow> memory" where
  "mem_fill dst v n m = (\<lambda>i. if dst \<le> i \<and> i < dst + n then v else m i)"

definition rt_realloc :: "nat option \<Rightarrow> u32 \<Rightarrow> heap \<Rightarrow> (heap \<times> nat option) option" where
  "rt_realloc rmem newsize0 h =
     (let newsize = align32 newsize0 in
      if newsize > mem_size_aligned h then Some (h, None)
      else if newsize = 0 then Some (rt_free rmem h, None)
      else case rmem of
        None \<Rightarrow> rt_malloc newsize h
      | Some r \<Rightarrow>
          if r < heap_ptr h \<or> r \<ge> heap_end h then Some (h, Some r)
          else
            let mem = r - 12; ptr = word_of_int (int mem - int (heap_ptr h));
                size1 = next1 (bytes h) mem - ptr - SIZEOF_STRUCT_MEM
            in if size1 = newsize then Some (h, Some r)
               else if newsize + SIZEOF_STRUCT_MEM + 12 < size1
               then let ptr2 = ptr + SIZEOF_STRUCT_MEM + newsize;
                        h1 = split_block ptr ptr2 (h\<lparr>used_mem := used_mem h - (size1 - newsize)\<rparr>)
                    in Some (plug_holes (heap_ptr h1 + unat ptr2) h1, Some r)
               else Option.bind (rt_malloc newsize h) (\<lambda>(h1, nm).
                      case nm of
                        None \<Rightarrow> Some (h1, None)
                      | Some nmem \<Rightarrow>
                          Some (rt_free (Some r)
                            (upd_bytes (mem_copy nmem r (unat (if size1 < newsize then size1 else newsize))) h1), Some nmem)))"

definition rt_calloc :: "u32 \<Rightarrow> u32 \<Rightarrow> heap \<Rightarrow> (heap \<times> nat option) option" where
  "rt_calloc count size1 h =
     map_option (\<lambda>(h1, p).
       (case p of None \<Rightarrow> h1 | Some a \<Rightarrow> upd_bytes (mem_fill a 0 (unat (count * size1))) h1, p))
       (rt_malloc (count * size1) h)"

definition rt_memory_info :: "heap \<Rightarrow> u32 \<times> u32 \<times> u32" where
  "rt_memory_info h = (mem_size_aligned h, used_mem h, max_mem h)"


section \<open>Chains of blocks\<close>

text \<open>
  The links of the headers alone: \<open>B\<close> are the offsets of the headers, \<open>E\<close> that of the last one, which
  marks the end of the heap.
\<close>

definition shape :: "nat \<Rightarrow> nat set \<Rightarrow> (nat \<Rightarrow> nat) \<Rightarrow> (nat \<Rightarrow> nat) \<Rightarrow> bool" where
  "shape E B nx pv \<longleftrightarrow> 0 \<in> B \<and> E \<in> B \<and> 0 < E \<and> B \<subseteq> {..E} \<and> (\<forall>p \<in> B. 4 dvd p) \<and> pv 0 = 0 \<and>
     (\<forall>p \<in> B - {E}. nx p \<in> B \<and> p + 12 \<le> nx p \<and> B \<inter> {p<..<nx p} = {} \<and> (nx p \<noteq> E \<longrightarrow> pv (nx p) = p))"

definition apart :: "nat \<Rightarrow> nat \<Rightarrow> bool" where
  "apart p q \<longleftrightarrow> p + 12 \<le> q \<or> q + 12 \<le> p"

lemma apart_sym: "apart p q \<Longrightarrow> apart q p"
  by (auto simp: apart_def)

lemma shapeD:
  assumes "shape E B nx pv"
  shows "0 \<in> B" "E \<in> B" "0 < E" "p \<in> B \<Longrightarrow> p \<le> E" "p \<in> B \<Longrightarrow> 4 dvd p" "pv 0 = 0" "finite B"
    "\<lbrakk>p \<in> B; p \<noteq> E\<rbrakk> \<Longrightarrow> nx p \<in> B" "\<lbrakk>p \<in> B; p \<noteq> E\<rbrakk> \<Longrightarrow> p + 12 \<le> nx p"
    "\<lbrakk>p \<in> B; p \<noteq> E; q \<in> B; p < q\<rbrakk> \<Longrightarrow> nx p \<le> q"
    "\<lbrakk>p \<in> B; p \<noteq> E; nx p \<noteq> E\<rbrakk> \<Longrightarrow> pv (nx p) = p" "p \<in> B \<Longrightarrow> p < E \<longleftrightarrow> p \<noteq> E"
proof -
  show "finite B" using assms finite_subset [of B "{..E}"] by (auto simp: shape_def)
  show "nx p \<le> q" if "p \<in> B" "p \<noteq> E" "q \<in> B" "p < q"
  proof (rule ccontr)
    assume "\<not> nx p \<le> q"
    then have "q \<in> B \<inter> {p<..<nx p}" using that by simp
    then show False using assms that unfolding shape_def by blast
  qed
  show "p \<in> B \<Longrightarrow> p < E \<longleftrightarrow> p \<noteq> E" using assms by (auto simp: shape_def)
qed (use assms in \<open>auto simp: shape_def\<close>)

lemma shapeI:
  assumes "0 \<in> B" "E \<in> B" "0 < E" "B \<subseteq> {..E}" "\<And>r. r \<in> B \<Longrightarrow> 4 dvd r" "pv 0 = 0"
    "\<And>r. r \<in> B \<Longrightarrow> r \<noteq> E \<Longrightarrow>
       nx r \<in> B \<and> r + 12 \<le> nx r \<and> B \<inter> {r<..<nx r} = {} \<and> (nx r \<noteq> E \<longrightarrow> pv (nx r) = r)"
  shows "shape E B nx pv"
  using assms unfolding shape_def by blast

lemma shape_apart:
  assumes s: "shape E B nx pv" and "p \<in> B" "q \<in> B" "p \<noteq> q"
  shows "apart p q"
proof -
  have *: "p + 12 \<le> q" if "p \<in> B" "q \<in> B" "p < q" for p q
  proof -
    have "p \<noteq> E" using shapeD(4) [OF s that(2)] that(3) by simp
    then show ?thesis using shapeD(9) [OF s that(1)] shapeD(10) [OF s that(1) _ that(2,3)] by simp
  qed
  show ?thesis using * [of p q] * [of q p] assms(2-4) unfolding apart_def by linarith
qed

lemma shape_next_inj:
  assumes s: "shape E B nx pv" and "p \<in> B" "p \<noteq> E" "q \<in> B" "q \<noteq> E" "nx p = nx q"
  shows "p = q"
proof -
  have *: "\<not> p < q" if "p \<in> B" "p \<noteq> E" "q \<in> B" "q \<noteq> E" "nx p = nx q" for p q
    using shapeD(10) [OF s that(1-3)] shapeD(9) [OF s that(3,4)] that(5) by auto
  show ?thesis using * [of p q] * [of q p] assms(2-6) by simp
qed

lemma shape_pred:
  assumes s: "shape E B nx pv" and p: "p \<in> B" "p \<noteq> 0"
  obtains q where "q \<in> B" "q \<noteq> E" "nx q = p"
proof -
  let ?L = "B \<inter> {..<p}"
  have f: "finite ?L" "?L \<noteq> {}" using shapeD(1,7) [OF s] p by auto
  define q where "q = Max ?L"
  have q: "q \<in> B" "q < p" using Max_in [OF f] by (auto simp: q_def)
  have e: "q \<noteq> E" using q(2) shapeD(4) [OF s p(1)] by simp
  have "nx q \<le> p" by (rule shapeD(10) [OF s q(1) e p(1) q(2)])
  moreover have "\<not> nx q < p"
  proof
    assume "nx q < p"
    then have "nx q \<le> q" using shapeD(8) [OF s q(1) e] f Max_ge [of ?L "nx q"] by (simp add: q_def)
    then show False using shapeD(9) [OF s q(1) e] by simp
  qed
  ultimately show ?thesis using that [OF q(1) e] by simp
qed

lemma shape_pv:
  assumes s: "shape E B nx pv" and p: "p \<in> B" "p \<noteq> 0" "p \<noteq> E"
  shows "pv p \<in> B" "pv p \<noteq> E" "nx (pv p) = p" "pv p + 12 \<le> p"
proof -
  obtain q where q: "q \<in> B" "q \<noteq> E" "nx q = p" by (rule shape_pred [OF s p(1,2)])
  have "pv p = q" using shapeD(11) [OF s q(1,2)] q(3) p(3) by simp
  then show "pv p \<in> B" "pv p \<noteq> E" "nx (pv p) = p" "pv p + 12 \<le> p" using q shapeD(9) [OF s q(1,2)] by simp_all
qed

text \<open>Splitting a block and merging a block with its successor.\<close>

lemma shape_split:
  assumes s: "shape E B nx pv" and p: "p \<in> B" "p \<noteq> E" and q: "p + 12 \<le> q" "q + 12 \<le> nx p" "4 dvd q"
    and nx': "\<And>r. r \<in> insert q B \<Longrightarrow> nx' r = (if r = p then q else if r = q then nx p else nx r)"
    and pv': "\<And>r. r \<in> insert q B \<Longrightarrow> r \<noteq> E \<Longrightarrow> pv' r = (if r = q then p else if r = nx p then q else pv r)"
  shows "shape E (insert q B) nx' pv'"
proof (rule shapeI)
  note D = shapeD [OF s]
  have qB: "q \<notin> B" "q \<noteq> E" "p < q" "nx p \<le> E" using D(10) [of p q] D(8,4,2) p q by fastforce+
  show "0 \<in> insert q B" "E \<in> insert q B" "0 < E" "insert q B \<subseteq> {..E}" using D(1-4) qB q by auto
  show "4 dvd r" if "r \<in> insert q B" for r using that D(5) q by auto
  show "pv' 0 = 0" using pv' [of 0] D(1,3,6) q p by auto
  fix r assume r: "r \<in> insert q B" "r \<noteq> E"
  consider "r = p" | "r = q" | "r \<in> B" "r \<noteq> p" "r \<noteq> q" using r by blast
  then show "nx' r \<in> insert q B \<and> r + 12 \<le> nx' r \<and> insert q B \<inter> {r<..<nx' r} = {} \<and> (nx' r \<noteq> E \<longrightarrow> pv' (nx' r) = r)"
  proof cases
    case 1
    have "B \<inter> {p<..<q} = {}" using D(10) [OF p] q by fastforce
    then show ?thesis using 1 p q nx' [of p] pv' [of q] qB by auto
  next
    case 2
    have "B \<inter> {q<..<nx p} = {}" using D(10) [OF p] qB by fastforce
    then show ?thesis using 2 p q nx' [of q] pv' [of "nx p"] qB D(8) [OF p] by auto
  next
    case 3
    have rE: "r \<noteq> E" using r by simp
    have n: "nx' r = nx r" "nx r \<in> B" "r + 12 \<le> nx r" using 3 nx' [of r] D(8,9) [OF _ rE] by auto
    have u: "nx r \<noteq> nx p" using shape_next_inj [OF s 3(1) rE p] 3 by blast
    have "q \<notin> {r<..<nx r}"
    proof
      assume a: "q \<in> {r<..<nx r}"
      show False
      proof (cases "r < p")
        case True
        then show False using D(10) [OF 3(1) rE p(1)] a qB by simp
      next
        case False
        then show False using D(10) [OF p 3(1)] 3(2) a q by simp
      qed
    qed
    moreover have "B \<inter> {r<..<nx r} = {}" using D(10) [OF 3(1) rE] by fastforce
    ultimately show ?thesis using n u pv' [of "nx r"] D(11) [OF 3(1) rE] qB by auto
  qed
qed

lemma shape_merge:
  assumes s: "shape E B nx pv" and p: "p \<in> B" "p \<noteq> E" and q: "nx p = q" "q \<noteq> E"
    and nx': "\<And>r. r \<in> B - {q} \<Longrightarrow> nx' r = (if r = p then nx q else nx r)"
    and pv': "\<And>r. r \<in> B - {q} \<Longrightarrow> r \<noteq> E \<Longrightarrow> pv' r = (if r = nx q then p else pv r)"
  shows "shape E (B - {q}) nx' pv'"
proof (rule shapeI)
  note D = shapeD [OF s]
  have qB: "q \<in> B" "p + 12 \<le> q" "q + 12 \<le> nx q" "nx q \<in> B" using D(8,9) [OF p] D(8,9) [of q] q by auto
  show "0 \<in> B - {q}" "E \<in> B - {q}" "0 < E" "B - {q} \<subseteq> {..E}" using D(1-4) qB q by auto
  show "4 dvd r" if "r \<in> B - {q}" for r using that D(5) by auto
  show "pv' 0 = 0" using pv' [of 0] D(1,3,6) qB by auto
  fix r assume r: "r \<in> B - {q}" "r \<noteq> E"
  show "nx' r \<in> B - {q} \<and> r + 12 \<le> nx' r \<and> (B - {q}) \<inter> {r<..<nx' r} = {} \<and> (nx' r \<noteq> E \<longrightarrow> pv' (nx' r) = r)"
  proof (cases "r = p")
    case True
    have "(B - {q}) \<inter> {p<..<nx q} = {}"
    proof (rule ccontr)
      assume "(B - {q}) \<inter> {p<..<nx q} \<noteq> {}"
      then obtain x where "x \<in> (B - {q}) \<inter> {p<..<nx q}" by blast
      then have x: "x \<in> B" "x \<noteq> q" "p < x" "x < nx q" by simp_all
      have "q < x" using D(10) [OF p x(1,3)] q x(2) by simp
      then show False using D(10) [OF qB(1) q(2) x(1)] x(4) by simp
    qed
    then show ?thesis using True p q qB nx' [of p] pv' [of "nx q"] by auto
  next
    case False
    have rB: "r \<in> B" "r \<noteq> E" using r by auto
    have n: "nx' r = nx r" "nx r \<in> B" "r + 12 \<le> nx r" using False r nx' [of r] D(8,9) [OF rB] by auto
    have u: "nx r \<noteq> q" "nx r \<noteq> nx q" using shape_next_inj [OF s rB p] shape_next_inj [OF s rB qB(1) q(2)] False r q by auto
    have "B \<inter> {r<..<nx r} = {}" using D(10) [OF rB] by fastforce
    then show ?thesis using n u pv' [of "nx r"] D(11) [OF rB] by auto
  qed
qed

lemma shape_cong:
  assumes "shape E B nx pv" "\<And>r. r \<in> B \<Longrightarrow> nx' r = nx r" "\<And>r. r \<in> B \<Longrightarrow> pv' r = pv r"
  shows "shape E B nx' pv'"
  using assms unfolding shape_def by (smt (verit) Diff_iff)

section \<open>The headers of a heap\<close>

definition nx :: "heap \<Rightarrow> nat \<Rightarrow> nat" where "nx h p = unat (next1 (bytes h) (heap_ptr h + p))"
definition pv :: "heap \<Rightarrow> nat \<Rightarrow> nat" where "pv h p = unat (prev1 (bytes h) (heap_ptr h + p))"
definition us :: "heap \<Rightarrow> nat \<Rightarrow> bool" where "us h p \<longleftrightarrow> used (bytes h) (heap_ptr h + p) \<noteq> 0"
definition mg :: "heap \<Rightarrow> nat \<Rightarrow> bool" where "mg h p \<longleftrightarrow> magic (bytes h) (heap_ptr h + p) = HEAP_MAGIC"
definition eo :: "heap \<Rightarrow> nat" where "eo h = unat (mem_size_aligned h) + 12"

lemma upd_bytes_simps [simp]:
  "bytes (upd_bytes f h) = f (bytes h)" "heap_ptr (upd_bytes f h) = heap_ptr h" "heap_end (upd_bytes f h) = heap_end h"
  "lfree (upd_bytes f h) = lfree h" "mem_size_aligned (upd_bytes f h) = mem_size_aligned h"
  "used_mem (upd_bytes f h) = used_mem h" "max_mem (upd_bytes f h) = max_mem h" "heap_fault (upd_bytes f h) = heap_fault h"
  by (simp_all add: upd_bytes_def)

lemma eo_upd [simp]: "eo (upd_bytes f h) = eo h" "eo (h\<lparr>bytes := m\<rparr>) = eo h" "eo (h\<lparr>lfree := l\<rparr>) = eo h"
  "eo (h\<lparr>used_mem := u\<rparr>) = eo h"
  by (simp_all add: eo_def)

lemma fields_lfree [simp]:
  "nx (h\<lparr>lfree := l\<rparr>) = nx h" "pv (h\<lparr>lfree := l\<rparr>) = pv h" "us (h\<lparr>lfree := l\<rparr>) = us h" "mg (h\<lparr>lfree := l\<rparr>) = mg h"
  "nx (h\<lparr>used_mem := u\<rparr>) = nx h" "pv (h\<lparr>used_mem := u\<rparr>) = pv h" "us (h\<lparr>used_mem := u\<rparr>) = us h" "mg (h\<lparr>used_mem := u\<rparr>) = mg h"
  by (simp_all add: fun_eq_iff nx_def pv_def us_def mg_def)

text \<open>A header is not cut by another one.\<close>

definition clear :: "nat \<Rightarrow> nat \<Rightarrow> bool" where
  "clear p r \<longleftrightarrow> r = p \<or> apart p r"

lemma clear_refl [simp]: "clear p p"
  by (simp add: clear_def)

lemma apart_clear: "apart p r \<Longrightarrow> clear p r" "apart p r \<Longrightarrow> clear r p"
  by (auto simp: clear_def apart_def)

lemma set_next:
  assumes "heap_ptr h = b" "clear p r"
  shows "nx (upd_bytes (st32 (b + p + 4) v) h) r = (if r = p then unat v else nx h r)"
    "pv (upd_bytes (st32 (b + p + 4) v) h) r = pv h r"
    "us (upd_bytes (st32 (b + p + 4) v) h) r = us h r"
    "mg (upd_bytes (st32 (b + p + 4) v) h) r = mg h r"
  using assms by (auto simp: nx_def pv_def us_def mg_def apart_def clear_def)

lemma set_prev:
  assumes "heap_ptr h = b" "clear p r"
  shows "pv (upd_bytes (st32 (b + p + 8) v) h) r = (if r = p then unat v else pv h r)"
    "nx (upd_bytes (st32 (b + p + 8) v) h) r = nx h r"
    "us (upd_bytes (st32 (b + p + 8) v) h) r = us h r"
    "mg (upd_bytes (st32 (b + p + 8) v) h) r = mg h r"
  using assms by (auto simp: nx_def pv_def us_def mg_def apart_def clear_def)

lemma set_used:
  assumes "heap_ptr h = b" "clear p r"
  shows "us (upd_bytes (st16 (b + p + 2) v) h) r = (if r = p then v \<noteq> 0 else us h r)"
    "nx (upd_bytes (st16 (b + p + 2) v) h) r = nx h r"
    "pv (upd_bytes (st16 (b + p + 2) v) h) r = pv h r"
    "mg (upd_bytes (st16 (b + p + 2) v) h) r = mg h r"
  using assms by (auto simp: nx_def pv_def us_def mg_def apart_def clear_def)

lemma set_magic:
  assumes "heap_ptr h = b" "clear p r"
  shows "mg (upd_bytes (st16 (b + p) v) h) r = (if r = p then v = HEAP_MAGIC else mg h r)"
    "nx (upd_bytes (st16 (b + p) v) h) r = nx h r"
    "pv (upd_bytes (st16 (b + p) v) h) r = pv h r"
    "us (upd_bytes (st16 (b + p) v) h) r = us h r"
  using assms by (auto simp: nx_def pv_def us_def mg_def apart_def clear_def)

lemmas set_fields = set_next set_prev set_used set_magic

text \<open>Bytes outside a set of headers.\<close>

definition outside :: "heap \<Rightarrow> nat set \<Rightarrow> nat \<Rightarrow> bool" where
  "outside h S i \<longleftrightarrow> (\<forall>p \<in> S. i < heap_ptr h + p \<or> heap_ptr h + p + 12 \<le> i)"

text \<open>The structure of the heap: \<open>B\<close> are the offsets of its headers.\<close>

definition heap_struct :: "heap \<Rightarrow> nat set \<Rightarrow> bool" where
  "heap_struct h B \<longleftrightarrow> heap_end h = heap_ptr h + eo h \<and> heap_ptr h + eo h + 12 < 2 ^ 32 \<and> 4 dvd heap_ptr h \<and>
     shape (eo h) B (nx h) (pv h) \<and> us h (eo h) \<and> (\<forall>p \<in> B. mg h p)"

lemma heap_structD:
  assumes "heap_struct h B"
  shows "heap_end h = heap_ptr h + eo h" "heap_ptr h + eo h + 12 < 2 ^ 32" "4 dvd heap_ptr h"
    "shape (eo h) B (nx h) (pv h)" "us h (eo h)" "p \<in> B \<Longrightarrow> mg h p"
  using assms by (auto simp: heap_struct_def)

lemma heap_struct_cong:
  assumes "heap_struct h B" "heap_ptr h' = heap_ptr h" "heap_end h' = heap_end h" "mem_size_aligned h' = mem_size_aligned h"
    "\<And>r. r \<in> B \<Longrightarrow> nx h' r = nx h r" "\<And>r. r \<in> B \<Longrightarrow> pv h' r = pv h r" "us h' (eo h)" "\<And>r. r \<in> B \<Longrightarrow> mg h' r"
  shows "heap_struct h' B"
proof -
  have e: "eo h' = eo h" using assms(4) by (simp add: eo_def)
  show ?thesis using assms shape_cong [of "eo h" B "nx h" "pv h" "nx h'" "pv h'"] unfolding heap_struct_def e by auto
qed

lemma msa_end: "heap_struct h B \<Longrightarrow> unat (mem_size_aligned h + 12) = eo h"
  using heap_structD(2) [of h B] by (simp add: eo_def unat_word_ariths)

lemma heap_offset:
  assumes "heap_struct h B" "p \<in> B"
  shows "unat (word_of_nat p :: u32) = p" "p \<le> eo h" "p < 2 ^ 32"
proof -
  show "p \<le> eo h" using shapeD(4) [OF heap_structD(4) [OF assms(1)] assms(2)] .
  then show "p < 2 ^ 32" using heap_structD(2) [OF assms(1)] by simp
  then show "unat (word_of_nat p :: u32) = p" by (simp add: unat_of_nat)
qed

section \<open>Splitting and merging\<close>

lemma split_block_struct:
  assumes s: "heap_struct h B" and p: "unat ptr \<in> B" "unat ptr \<noteq> eo h" and q: "unat ptr + 12 \<le> unat ptr2"
    "unat ptr2 + 12 \<le> nx h (unat ptr)" "4 dvd unat ptr2"
  defines "h' \<equiv> split_block ptr ptr2 h"
  shows "heap_struct h' (insert (unat ptr2) B)"
    "\<And>r. r \<in> insert (unat ptr2) B \<Longrightarrow> nx h' r = (if r = unat ptr then unat ptr2 else if r = unat ptr2 then nx h (unat ptr) else nx h r)"
    "\<And>r. r \<in> insert (unat ptr2) B \<Longrightarrow> us h' r = (r \<noteq> unat ptr2 \<and> us h r)"
    "\<And>i. outside h {unat ptr, unat ptr2, nx h (unat ptr)} i \<Longrightarrow> bytes h' i = bytes h i"
    "heap_ptr h' = heap_ptr h" "heap_end h' = heap_end h" "lfree h' = lfree h" "mem_size_aligned h' = mem_size_aligned h"
    "used_mem h' = used_mem h" "heap_fault h' = heap_fault h" "unat ptr2 \<notin> B"
proof -
  let ?p = "unat ptr" and ?q = "unat ptr2"
  let ?n = "nx h ?p"
  note H = heap_structD [OF s]
  note D = shapeD [OF H(4)]
  have nB: "?n \<in> B" using D(8) [OF p] .
  have qB: "?q \<notin> B" using D(10) [OF p, of ?q] q by auto
  have ap: "apart ?p ?q" "apart ?q ?n" "apart ?p ?n" "?p \<noteq> ?q" "?q \<noteq> ?n" "?p \<noteq> ?n" using q by (auto simp: apart_def)
  have aq: "apart ?q r" if "r \<in> B" for r
  proof (cases "r \<le> ?p")
    case True
    then show ?thesis using q by (simp add: apart_def)
  next
    case False
    then show ?thesis using D(10) [OF p that] q by (simp add: apart_def)
  qed
  have ab: "apart x r" if "x \<in> B" "r \<in> B" "x \<noteq> r" for x r by (rule shape_apart [OF H(4) that])
  have ne: "next1 (bytes h) (heap_ptr h + ?p) \<noteq> mem_size_aligned h + 12 \<longleftrightarrow> ?n \<noteq> eo h"
    using msa_end [OF s] by (metis nx_def word_unat_eq_iff)
  let ?h1 = "upd_bytes (st32 (heap_ptr h + ?q + 8) ptr) (upd_bytes (st32 (heap_ptr h + ?q + 4) (next1 (bytes h) (heap_ptr h + ?p)))
      (upd_bytes (st16 (heap_ptr h + ?q + 2) 0) (upd_bytes (st16 (heap_ptr h + ?q) HEAP_MAGIC) h)))"
  let ?h2 = "upd_bytes (st32 (heap_ptr h + ?p + 4) ptr2) ?h1"
  have e: "h' = (if ?n \<noteq> eo h then upd_bytes (st32 (heap_ptr h + ?n + 8) ptr2) ?h2 else ?h2)"
    using ne by (simp add: h'_def split_block_def Let_def upd_bytes_def nx_def)
  show "heap_ptr h' = heap_ptr h" "heap_end h' = heap_end h" "lfree h' = lfree h" "mem_size_aligned h' = mem_size_aligned h"
    "used_mem h' = used_mem h" "heap_fault h' = heap_fault h" by (simp_all add: e)
  have nv: "unat (next1 (bytes h) (heap_ptr h + ?p)) = ?n" by (simp add: nx_def)
  have F: "nx h' r = (if r = ?p then ?q else if r = ?q then ?n else nx h r)"
    "pv h' r = (if r = ?q then ?p else if r = ?n \<and> ?n \<noteq> eo h then ?q else pv h r)"
    "us h' r = (r \<noteq> ?q \<and> us h r)" "mg h' r = (r = ?q \<or> mg h r)" if r: "r \<in> insert ?q B" for r
  proof -
    have a: "clear ?q r" "clear ?p r" "clear ?n r"
      using r aq ab [OF p(1), of r] ab [OF nB, of r] ap apart_sym by (auto simp: clear_def)
    show "nx h' r = (if r = ?p then ?q else if r = ?q then ?n else nx h r)"
      "pv h' r = (if r = ?q then ?p else if r = ?n \<and> ?n \<noteq> eo h then ?q else pv h r)"
      "us h' r = (r \<noteq> ?q \<and> us h r)" "mg h' r = (r = ?q \<or> mg h r)"
      using a apart_clear [OF ap(1)] apart_clear [OF ap(2)] apart_clear [OF ap(3)] ap(4-6) unfolding e
      by (simp_all add: set_fields nv del: add_2_eq_Suc')
  qed
  show "nx h' r = (if r = ?p then ?q else if r = ?q then ?n else nx h r)" "us h' r = (r \<noteq> ?q \<and> us h r)"
    if "r \<in> insert ?q B" for r by (fact F [OF that])+
  have sh: "shape (eo h) (insert ?q B) (nx h') (pv h')"
    by (rule shape_split [OF H(4) p q F(1)]) (simp_all add: F)
  have "eo h' = eo h" by (simp add: e)
  then show "heap_struct h' (insert ?q B)"
    using H sh F(3) [of "eo h"] F(4) D(2) qB by (auto simp: heap_struct_def e)
  show "?q \<notin> B" by (fact qB)
  show "bytes h' i = bytes h i" if "outside h {?p, ?q, ?n} i" for i
    using that by (auto simp: e outside_def)
qed

text \<open>The block at \<open>p\<close> swallows its successor at \<open>q\<close>.\<close>

definition merge_at :: "nat \<Rightarrow> nat \<Rightarrow> heap \<Rightarrow> heap" where
  "merge_at p q h = upd_bytes (st32 (heap_ptr h + nx h q + 8) (word_of_nat p))
     (upd_bytes (st32 (heap_ptr h + p + 4) (next1 (bytes h) (heap_ptr h + q))) h)"

lemma merge_at_simps [simp]:
  "heap_ptr (merge_at p q h) = heap_ptr h" "heap_end (merge_at p q h) = heap_end h" "lfree (merge_at p q h) = lfree h"
  "mem_size_aligned (merge_at p q h) = mem_size_aligned h" "used_mem (merge_at p q h) = used_mem h"
  "heap_fault (merge_at p q h) = heap_fault h" "eo (merge_at p q h) = eo h"
  by (simp_all add: merge_at_def)

lemma merge_struct:
  assumes s: "heap_struct h B" and p: "p \<in> B" "p \<noteq> eo h" and q: "nx h p = q" "q \<noteq> eo h"
  defines "h' \<equiv> merge_at p q h"
  shows "heap_struct h' (B - {q})" "\<And>r. r \<in> B - {q} \<Longrightarrow> nx h' r = (if r = p then nx h q else nx h r)"
    "\<And>r. r \<in> B - {q} \<Longrightarrow> us h' r = us h r" "\<And>i. outside h B i \<Longrightarrow> bytes h' i = bytes h i"
    "\<And>r. r \<in> B - {q} \<Longrightarrow> r \<noteq> nx h q \<Longrightarrow> pv h' r = pv h r"
proof -
  note H = heap_structD [OF s]
  note D = shapeD [OF H(4)]
  have qB: "q \<in> B" "nx h q \<in> B" "p + 12 \<le> q" "q + 12 \<le> nx h q" using D(8,9) [OF p] D(8,9) [of q] q by auto
  have ab: "clear x r" if "x \<in> B" "r \<in> B" for x r using shape_apart [OF H(4) that] by (auto simp: clear_def)
  have nv: "unat (next1 (bytes h) (heap_ptr h + q)) = nx h q" by (simp add: nx_def)
  have F: "nx h' r = (if r = p then nx h q else nx h r)" "pv h' r = (if r = nx h q then p else pv h r)"
    "us h' r = us h r" "mg h' r = mg h r" if "r \<in> B" for r
    unfolding h'_def merge_at_def using ab [OF p(1) that] ab [OF qB(2) that] heap_offset(1) [OF s p(1)]
    by (simp_all add: set_fields nv del: add_2_eq_Suc')
  then show "nx h' r = (if r = p then nx h q else nx h r)" "us h' r = us h r" if "r \<in> B - {q}" for r using that by auto
  show "pv h' r = pv h r" if "r \<in> B - {q}" "r \<noteq> nx h q" for r using that F by auto
  have sh: "shape (eo h) (B - {q}) (nx h') (pv h')"
    by (rule shape_merge [OF H(4) p q]) (use F in auto)
  have e: "eo h' = eo h" "heap_ptr h' = heap_ptr h" "heap_end h' = heap_end h" by (simp_all add: h'_def)
  show "heap_struct h' (B - {q})" using H sh F(3) [OF D(2)] F(4) unfolding heap_struct_def e by simp
  show "bytes h' i = bytes h i" if "outside h B i" for i
  proof -
    have "i < heap_ptr h + p \<or> heap_ptr h + p + 12 \<le> i" "i < heap_ptr h + nx h q \<or> heap_ptr h + nx h q + 12 \<le> i"
      using that p(1) qB(2) by (auto simp: outside_def)
    then show ?thesis by (auto simp: h'_def merge_at_def)
  qed
qed

text \<open>Blocks that are in use and their bytes are left alone.\<close>

definition keeps :: "heap \<Rightarrow> nat set \<Rightarrow> heap \<Rightarrow> nat set \<Rightarrow> bool" where
  "keeps h B h' B' \<longleftrightarrow> heap_ptr h' = heap_ptr h \<and> heap_end h' = heap_end h \<and> mem_size_aligned h' = mem_size_aligned h \<and>
     used_mem h' = used_mem h \<and> heap_fault h' = heap_fault h \<and> B' \<subseteq> B \<and>
     (\<forall>x \<in> B. us h x \<longrightarrow> x \<in> B' \<and> nx h' x = nx h x) \<and> (\<forall>x \<in> B'. us h' x = us h x) \<and>
     (\<forall>i. outside h B i \<longrightarrow> bytes h' i = bytes h i)"

lemma keeps_refl [simp]: "keeps h B h B"
  by (simp add: keeps_def)

lemma keeps_trans:
  assumes a: "keeps h B h1 B1" and b: "keeps h1 B1 h2 B2"
  shows "keeps h B h2 B2"
proof -
  have "outside h1 B1 i" if "outside h B i" for i using that a unfolding outside_def keeps_def by auto
  then show ?thesis using a b unfolding keeps_def by (smt (verit) subset_iff)
qed

lemma keeps_lfree [simp]: "keeps h B (h'\<lparr>lfree := l\<rparr>) B' = keeps h B h' B'" "keeps (h\<lparr>lfree := l\<rparr>) B h' B' = keeps h B h' B'"
  by (simp_all add: keeps_def outside_def)

lemma heap_struct_lfree [simp]: "heap_struct (h\<lparr>lfree := l\<rparr>) B = heap_struct h B"
  by (simp add: heap_struct_def)

lemma merge_keeps:
  assumes s: "heap_struct h B" and p: "p \<in> B" "p \<noteq> eo h" "\<not> us h p" and q: "nx h p = q" "q \<noteq> eo h" "\<not> us h q"
  shows "keeps h B (merge_at p q h) (B - {q})"
proof -
  note M = merge_struct [OF s p(1,2) q(1,2)]
  have "x \<in> B - {q} \<and> x \<noteq> p" if "x \<in> B" "us h x" for x using that p q by blast
  then show ?thesis unfolding keeps_def using M(2,3,4) by auto
qed

lemma plug_forward_eq:
  assumes s: "heap_struct h B" and p: "p \<in> B" "p \<noteq> eo h"
  shows "plug_forward (heap_ptr h + p) h =
    (if \<not> us h (nx h p) \<and> nx h p \<noteq> eo h
     then (merge_at p (nx h p) h)\<lparr>lfree := (if lfree h = heap_ptr h + nx h p then heap_ptr h + p else lfree h)\<rparr>
     else h)"
proof -
  note H = heap_structD [OF s]
  have n: "p + 12 \<le> nx h p" using shapeD(9) [OF H(4) p] .
  have l: "ld32 (st32 (heap_ptr h + p + 4) v m) (heap_ptr h + nx h p + 4) = ld32 m (heap_ptr h + nx h p + 4)" for v m
    using n by simp
  show ?thesis unfolding plug_forward_def
    using n by (simp add: merge_at_def Let_def upd_bytes_def l H(1) us_def flip: nx_def)
qed

lemma plug_backward_eq:
  assumes s: "heap_struct h B" and p: "p \<in> B" "p \<noteq> eo h"
  shows "plug_backward (heap_ptr h + p) h =
    (if p \<noteq> 0 \<and> \<not> us h (pv h p)
     then (merge_at (pv h p) p h)\<lparr>lfree := (if lfree h = heap_ptr h + p then heap_ptr h + pv h p else lfree h)\<rparr>
     else h)"
proof -
  note H = heap_structD [OF s]
  have z: "pv h p = p \<longleftrightarrow> p = 0"
  proof (cases "p = 0")
    case True
    then show ?thesis using shapeD(6) [OF H(4)] by simp
  next
    case False
    then show ?thesis using shape_pv(4) [OF H(4) p(1) False p(2)] by simp
  qed
  have l: "ld32 (st32 (heap_ptr h + pv h p + 4) v m) (heap_ptr h + p + 4) = ld32 m (heap_ptr h + p + 4)" if "p \<noteq> 0" for v m
    using shape_pv(4) [OF H(4) p(1) that p(2)] by simp
  show ?thesis unfolding plug_backward_def
    using z by (auto simp: merge_at_def Let_def upd_bytes_def l us_def simp flip: nx_def pv_def)
qed

text \<open>No two free blocks are neighbours; \<^verbatim>\<open>lfree\<close> points to a free block or to the end; it is the lowest
  free block.\<close>

definition nofrag :: "heap \<Rightarrow> nat set \<Rightarrow> bool" where
  "nofrag h B \<longleftrightarrow> (\<forall>x \<in> B. x \<noteq> eo h \<longrightarrow> us h x \<or> us h (nx h x))"

definition lf_ok :: "heap \<Rightarrow> nat set \<Rightarrow> bool" where
  "lf_ok h B \<longleftrightarrow> (\<exists>L \<in> B. lfree h = heap_ptr h + L \<and> (L = eo h \<or> \<not> us h L))"

definition lowest :: "heap \<Rightarrow> nat set \<Rightarrow> bool" where
  "lowest h B \<longleftrightarrow> (\<forall>x \<in> B. \<not> us h x \<longrightarrow> lfree h \<le> heap_ptr h + x)"

lemma merge_lfree:
  assumes s: "heap_struct h B" and p: "p \<in> B" "p \<noteq> eo h" "\<not> us h p" and q: "nx h p = q" "q \<noteq> eo h" "\<not> us h q"
    and l: "lf_ok h B"
  defines "h' \<equiv> (merge_at p q h)\<lparr>lfree := (if lfree h = heap_ptr h + q then heap_ptr h + p else lfree h)\<rparr>"
  shows "lf_ok h' (B - {q})" "lowest h B \<Longrightarrow> lowest h' (B - {q})"
proof -
  note M = merge_struct [OF s p(1,2) q(1,2)]
  have pq: "p + 12 \<le> q" using shapeD(9) [OF heap_structD(4) [OF s] p(1,2)] q by simp
  obtain L where L: "L \<in> B" "lfree h = heap_ptr h + L" "L = eo h \<or> \<not> us h L" using l by (auto simp: lf_ok_def)
  show "lf_ok h' (B - {q})" unfolding lf_ok_def
    by (rule bexI [of _ "if L = q then p else L"]) (use L M(3) pq p q in \<open>auto simp: h'_def\<close>)
  show "lowest h' (B - {q})" if "lowest h B"
    using that M(3) L pq p by (fastforce simp: lowest_def h'_def)
qed

lemma plug_forward_state:
  assumes s: "heap_struct h B" and p: "p \<in> B" "p \<noteq> eo h" "\<not> us h p" and l: "lf_ok h B"
    and f: "\<And>x. \<lbrakk>x \<in> B; x \<noteq> eo h; x \<noteq> p; nx h x \<noteq> p\<rbrakk> \<Longrightarrow> us h x \<or> us h (nx h x)"
  defines "h' \<equiv> plug_forward (heap_ptr h + p) h"
  obtains B' where "heap_struct h' B'" "keeps h B h' B'" "p \<in> B'" "us h' (nx h' p)" "lf_ok h' B'"
    "lowest h B \<Longrightarrow> lowest h' B'"
    "\<And>x. \<lbrakk>x \<in> B'; x \<noteq> eo h'; x \<noteq> p; nx h' x \<noteq> p\<rbrakk> \<Longrightarrow> us h' x \<or> us h' (nx h' x)"
proof (cases "\<not> us h (nx h p) \<and> nx h p \<noteq> eo h")
  case True
  let ?q = "nx h p"
  note H = heap_structD [OF s]
  note D = shapeD [OF H(4)]
  have e: "h' = (merge_at p ?q h)\<lparr>lfree := (if lfree h = heap_ptr h + ?q then heap_ptr h + p else lfree h)\<rparr>"
    using True by (simp add: h'_def plug_forward_eq [OF s p(1,2)])
  note M = merge_struct [OF s p(1,2) refl, simplified] and K = merge_keeps [OF s p refl] and L = merge_lfree [OF s p refl _ _ l]
  have q: "?q \<in> B" "p + 12 \<le> ?q" "?q + 12 \<le> nx h ?q" "nx h ?q \<in> B" using D(8,9) p(1,2) True by auto
  have F: "nx h' r = (if r = p then nx h ?q else nx h r)" "us h' r = us h r" if "r \<in> B" "r \<noteq> ?q" for r
    using M(2,3) that True by (auto simp: e)
  show ?thesis
  proof (rule that [of "B - {?q}"])
    show "heap_struct h' (B - {?q})" "keeps h B h' (B - {?q})" "p \<in> B - {?q}" using M(1) K True q p(1) by (auto simp: e)
    show "lf_ok h' (B - {?q})" "lowest h B \<Longrightarrow> lowest h' (B - {?q})" unfolding e by (rule L; use True in simp)+
    show "us h' (nx h' p)" using F [of p] F(2) [of "nx h ?q"] f [of ?q] True q p by auto
    fix x assume x: "x \<in> B - {?q}" "x \<noteq> eo h'" "x \<noteq> p" "nx h' x \<noteq> p"
    have xE: "x \<in> B" "x \<noteq> eo h" using x(1,2) by (auto simp: e)
    have "nx h x \<noteq> ?q" using shape_next_inj [OF H(4) xE p(1,2)] x(3) by blast
    then show "us h' x \<or> us h' (nx h' x)" using f [OF xE x(3)] x F [of x] F(2) [of "nx h x"] D(8) [OF xE] by auto
  qed
next
  case False
  then have e: "h' = h" by (auto simp: h'_def plug_forward_eq [OF s p(1,2)])
  show ?thesis by (rule that [of B]) (use s p l f False heap_structD(5) [OF s] in \<open>auto simp: e\<close>)
qed

lemma plug_backward_state:
  assumes s: "heap_struct h B" and p: "p \<in> B" "p \<noteq> eo h" "\<not> us h p" and l: "lf_ok h B" and n: "us h (nx h p)"
    and f: "\<And>x. \<lbrakk>x \<in> B; x \<noteq> eo h; x \<noteq> p; nx h x \<noteq> p\<rbrakk> \<Longrightarrow> us h x \<or> us h (nx h x)"
  defines "h' \<equiv> plug_backward (heap_ptr h + p) h"
  obtains B' where "heap_struct h' B'" "keeps h B h' B'" "lf_ok h' B'" "nofrag h' B'" "lowest h B \<Longrightarrow> lowest h' B'"
proof (cases "p \<noteq> 0 \<and> \<not> us h (pv h p)")
  case True
  let ?r = "pv h p"
  note H = heap_structD [OF s]
  note D = shapeD [OF H(4)]
  have r: "?r \<in> B" "?r \<noteq> eo h" "nx h ?r = p" "?r + 12 \<le> p" using shape_pv [OF H(4) p(1) _ p(2)] True by auto
  have e: "h' = (merge_at ?r p h)\<lparr>lfree := (if lfree h = heap_ptr h + p then heap_ptr h + ?r else lfree h)\<rparr>"
    using True by (simp add: h'_def plug_backward_eq [OF s p(1,2)])
  have ru: "\<not> us h ?r" using True by simp
  note M = merge_struct [OF s r(1-3) p(2)] and K = merge_keeps [OF s r(1,2) ru r(3) p(2,3)]
    and L = merge_lfree [OF s r(1,2) ru r(3) p(2,3) l]
  have F: "nx h' x = (if x = ?r then nx h p else nx h x)" "us h' x = us h x" if "x \<in> B" "x \<noteq> p" for x
    using M(2,3) that by (auto simp: e)
  have np: "nx h p \<in> B" "p + 12 \<le> nx h p" using D(8,9) p by auto
  show ?thesis
  proof (rule that [of "B - {p}"])
    show "heap_struct h' (B - {p})" "keeps h B h' (B - {p})" using M(1) K by (auto simp: e)
    show "lf_ok h' (B - {p})" "lowest h B \<Longrightarrow> lowest h' (B - {p})" unfolding e by (rule L)+
    show "nofrag h' (B - {p})" unfolding nofrag_def
    proof (intro ballI impI)
      fix x assume x: "x \<in> B - {p}" "x \<noteq> eo h'"
      have xE: "x \<in> B" "x \<noteq> eo h" "x \<noteq> p" using x by (auto simp: e)
      show "us h' x \<or> us h' (nx h' x)"
      proof (cases "x = ?r")
        case True
        then show ?thesis using F(1) [of x] F(2) [of "nx h p"] n np xE by simp
      next
        case False
        have "nx h x \<noteq> p" using shape_next_inj [OF H(4) xE(1,2) r(1,2)] r(3) False by auto
        then show ?thesis using f [OF xE] F [OF xE(1,3)] F(2) [of "nx h x"] D(8) [OF xE(1,2)] False by simp
      qed
    qed
  qed
next
  case False
  then have e: "h' = h" by (auto simp: h'_def plug_backward_eq [OF s p(1,2)])
  note H = heap_structD [OF s]
  have "us h x" if "x \<in> B" "x \<noteq> eo h" "nx h x = p" for x
  proof -
    have "pv h p = x" using shapeD(11) [OF H(4) that(1,2)] that(3) p(2) by simp
    moreover have "p \<noteq> 0" using shapeD(9) [OF H(4) that(1,2)] that(3) by auto
    ultimately show ?thesis using False by simp
  qed
  then have "nofrag h B" using f n unfolding nofrag_def by blast
  then show ?thesis using that [of B] s l by (simp add: e)
qed

lemma plug_holes_state:
  assumes s: "heap_struct h B" and p: "p \<in> B" "p \<noteq> eo h" "\<not> us h p" and l: "lf_ok h B"
    and f: "\<And>x. \<lbrakk>x \<in> B; x \<noteq> eo h; x \<noteq> p; nx h x \<noteq> p\<rbrakk> \<Longrightarrow> us h x \<or> us h (nx h x)"
  defines "h' \<equiv> plug_holes (heap_ptr h + p) h"
  obtains B' where "heap_struct h' B'" "keeps h B h' B'" "lf_ok h' B'" "nofrag h' B'" "lowest h B \<Longrightarrow> lowest h' B'"
proof -
  note H = heap_structD [OF s]
  have a: "heap_ptr h + p < heap_end h" "used (bytes h) (heap_ptr h + p) = 0"
    using shapeD(4) [OF H(4) p(1)] p H(1) by (simp_all add: us_def)
  let ?h1 = "plug_forward (heap_ptr h + p) h"
  have e: "h' = plug_backward (heap_ptr h + p) ?h1" using a by (simp add: h'_def plug_holes_def heap_assert_def)
  show ?thesis
  proof (rule plug_forward_state [OF s p l f])
    fix B1
    assume B1: "heap_struct ?h1 B1" "keeps h B ?h1 B1" "p \<in> B1" "us ?h1 (nx ?h1 p)" "lf_ok ?h1 B1" "lowest h B \<Longrightarrow> lowest ?h1 B1"
      "\<And>x. \<lbrakk>x \<in> B1; x \<noteq> eo ?h1; x \<noteq> p; nx ?h1 x \<noteq> p\<rbrakk> \<Longrightarrow> us ?h1 x \<or> us ?h1 (nx ?h1 x)"
    have k: "heap_ptr ?h1 = heap_ptr h" "eo ?h1 = eo h" "\<not> us ?h1 p" using B1(2,3) p(3) by (simp_all add: keeps_def eo_def)
    have pE: "p \<noteq> eo ?h1" using p(2) k(2) by simp
    show ?thesis
    proof (rule plug_backward_state [OF B1(1,3) pE k(3) B1(5,4,7)])
      fix B2
      assume "heap_struct (plug_backward (heap_ptr ?h1 + p) ?h1) B2" "keeps ?h1 B1 (plug_backward (heap_ptr ?h1 + p) ?h1) B2"
        "lf_ok (plug_backward (heap_ptr ?h1 + p) ?h1) B2" "nofrag (plug_backward (heap_ptr ?h1 + p) ?h1) B2"
        "lowest ?h1 B1 \<Longrightarrow> lowest (plug_backward (heap_ptr ?h1 + p) ?h1) B2"
      then show ?thesis using that [of B2] B1(2,6) keeps_trans [OF B1(2)] unfolding e k by blast
    qed
  qed
qed

section \<open>Searching\<close>

text \<open>The search loop ends and finds the first block at or above its start that it accepts.\<close>

definition accepts :: "heap \<Rightarrow> nat \<Rightarrow> nat \<Rightarrow> bool" where
  "accepts h n p \<longleftrightarrow> \<not> us h p \<and> p + 12 + n \<le> nx h p \<and> p + n < unat (mem_size_aligned h)"

lemma heap_scan_first:
  assumes s: "heap_struct h B" and z: "size1 \<le> mem_size_aligned h" and p: "p \<in> B"
  shows "\<exists>r. heap_scan size1 (word_of_nat p) h = Some r \<and>
    (case r of
       None \<Rightarrow> \<forall>x \<in> B. p \<le> x \<longrightarrow> \<not> accepts h (unat size1) x
     | Some w \<Rightarrow> unat w \<in> B \<and> p \<le> unat w \<and> unat w \<noteq> eo h \<and> accepts h (unat size1) (unat w) \<and>
         (\<forall>x \<in> B. p \<le> x \<longrightarrow> x < unat w \<longrightarrow> \<not> accepts h (unat size1) x))"
  using p
proof (induction "eo h - p" arbitrary: p rule: less_induct)
  case less
  note H = heap_structD [OF s]
  note D = shapeD [OF H(4)]
  have w: "unat (word_of_nat p :: u32) = p" by (rule heap_offset(1) [OF s less.prems])
  have c: "(word_of_nat p :: u32) < mem_size_aligned h - size1 \<longleftrightarrow> p + unat size1 < unat (mem_size_aligned h)"
    using z by (simp add: word_less_nat_alt unat_sub w) arith
  show ?case
  proof (cases "p + unat size1 < unat (mem_size_aligned h)")
    case False
    then have "\<not> accepts h (unat size1) x" if "p \<le> x" for x using that by (simp add: accepts_def)
    then show ?thesis using False by (subst heap_scan.simps) (simp add: c)
  next
    case True
    have pE: "p \<noteq> eo h" using True by (auto simp: eo_def)
    have n: "p + 12 \<le> nx h p" "nx h p \<in> B" "nx h p \<le> eo h" using D(9,8) [OF less.prems pE] D(4) by auto
    have p12: "unat (word_of_nat p + 12 :: u32) = p + 12"
      using w H(2) D(4) [OF less.prems] by (simp add: unat_word_ariths)
    have fit: "next1 (bytes h) (heap_ptr h + p) - (word_of_nat p + 12) \<ge> size1 \<longleftrightarrow> p + 12 + unat size1 \<le> nx h p"
    proof -
      have "(word_of_nat p + 12 :: u32) \<le> next1 (bytes h) (heap_ptr h + p)"
        using n(1) by (simp add: word_le_nat_alt p12 nx_def)
      then show ?thesis using n(1) by (simp add: word_le_nat_alt unat_sub p12 nx_def) arith
    qed
    show ?thesis
    proof (cases "accepts h (unat size1) p")
      case a: True
      then have "heap_scan size1 (word_of_nat p) h = Some (Some (word_of_nat p))"
        using True by (subst heap_scan.simps) (simp add: c w fit accepts_def us_def)
      then show ?thesis using less.prems pE a w by simp
    next
      case a: False
      have e: "heap_scan size1 (word_of_nat p) h = heap_scan size1 (word_of_nat (nx h p)) h"
        using True a by (subst heap_scan.simps) (auto simp: c w fit accepts_def us_def nx_def)
      have sk: "\<not> accepts h (unat size1) x" if "x \<in> B" "p \<le> x" "x < nx h p" for x
        using D(10) [OF less.prems pE that(1)] that a by (cases "x = p") auto
      have "eo h - nx h p < eo h - p" using n pE D(4) [OF less.prems] by arith
      from less.hyps [OF this n(2)] obtain r where r: "heap_scan size1 (word_of_nat (nx h p)) h = Some r"
        "case r of None \<Rightarrow> \<forall>x \<in> B. nx h p \<le> x \<longrightarrow> \<not> accepts h (unat size1) x
         | Some w \<Rightarrow> unat w \<in> B \<and> nx h p \<le> unat w \<and> unat w \<noteq> eo h \<and> accepts h (unat size1) (unat w) \<and>
           (\<forall>x \<in> B. nx h p \<le> x \<longrightarrow> x < unat w \<longrightarrow> \<not> accepts h (unat size1) x)" by blast
      then show ?thesis using sk n(1) unfolding e by (cases r) (auto simp: not_le [symmetric])
    qed
  qed
qed

lemma next_free_first:
  assumes s: "heap_struct h B" and p: "p \<in> B"
  shows "\<exists>q \<in> B. next_free (heap_ptr h + p) h = Some (heap_ptr h + q) \<and> p \<le> q \<and> (q = eo h \<or> \<not> us h q) \<and>
    (\<forall>x \<in> B. p \<le> x \<longrightarrow> x < q \<longrightarrow> us h x)"
  using p
proof (induction "eo h - p" arbitrary: p rule: less_induct)
  case less
  note H = heap_structD [OF s]
  note D = shapeD [OF H(4)]
  show ?case
  proof (cases "us h p \<and> p \<noteq> eo h")
    case False
    then have "next_free (heap_ptr h + p) h = Some (heap_ptr h + p)"
      by (subst next_free.simps) (auto simp: us_def H(1))
    then show ?thesis using less.prems False by (intro bexI [of _ p]) auto
  next
    case True
    have n: "p + 12 \<le> nx h p" "nx h p \<in> B" "nx h p \<le> eo h" using D(9,8) [OF less.prems] D(4) True by auto
    have e: "next_free (heap_ptr h + p) h = next_free (heap_ptr h + nx h p) h"
      using True by (subst next_free.simps) (simp add: us_def H(1) nx_def)
    have "eo h - nx h p < eo h - p" using n D(4) [OF less.prems] by arith
    from less.hyps [OF this n(2)] obtain q where q: "q \<in> B" "next_free (heap_ptr h + nx h p) h = Some (heap_ptr h + q)"
      "nx h p \<le> q" "q = eo h \<or> \<not> us h q" "\<forall>x \<in> B. nx h p \<le> x \<longrightarrow> x < q \<longrightarrow> us h x" by blast
    have "us h x" if "x \<in> B" "p \<le> x" "x < q" for x
      using q(5) that True D(10) [OF less.prems _ that(1)] by (cases "x = p") auto
    then show ?thesis unfolding e using q n(1) by (intro bexI [of _ q]) auto
  qed
qed

section \<open>Taking a block\<close>

lemma mark_used:
  assumes s: "heap_struct h B" and p: "p \<in> B" and f: "f = st16 (heap_ptr h + p + 2) v" and e: "p \<noteq> eo h"
  shows "heap_struct (upd_bytes f h) B" "\<And>r. r \<in> B \<Longrightarrow> nx (upd_bytes f h) r = nx h r"
    "\<And>r. r \<in> B \<Longrightarrow> us (upd_bytes f h) r = (if r = p then v \<noteq> 0 else us h r)"
    "\<And>i. outside h {p} i \<Longrightarrow> bytes (upd_bytes f h) i = bytes h i"
proof -
  note H = heap_structD [OF s]
  have c: "clear p r" if "r \<in> B" for r using shape_apart [OF H(4) p that] by (auto simp: clear_def)
  note F = set_used [OF refl c, where h = h and v = v]
  show "nx (upd_bytes f h) r = nx h r" "us (upd_bytes f h) r = (if r = p then v \<noteq> 0 else us h r)" if "r \<in> B" for r
    unfolding f by (rule F [OF that])+
  show "heap_struct (upd_bytes f h) B" unfolding f
    by (rule heap_struct_cong [OF s]) (use F H(5,6) e shapeD(2) [OF H(4)] in \<open>auto simp del: add_2_eq_Suc'\<close>)
  show "bytes (upd_bytes f h) i = bytes h i" if "outside h {p} i" for i using that by (auto simp: f outside_def)
qed

lemma mark_magic:
  assumes s: "heap_struct h B" and p: "p \<in> B" and f: "f = st16 (heap_ptr h + p) HEAP_MAGIC"
  shows "heap_struct (upd_bytes f h) B" "\<And>r. r \<in> B \<Longrightarrow> nx (upd_bytes f h) r = nx h r"
    "\<And>r. r \<in> B \<Longrightarrow> us (upd_bytes f h) r = us h r"
    "\<And>i. outside h {p} i \<Longrightarrow> bytes (upd_bytes f h) i = bytes h i"
proof -
  note H = heap_structD [OF s]
  have c: "clear p r" if "r \<in> B" for r using shape_apart [OF H(4) p that] by (auto simp: clear_def)
  note F = set_magic [OF refl c, where h = h and v = HEAP_MAGIC]
  show "nx (upd_bytes f h) r = nx h r" "us (upd_bytes f h) r = us h r" if "r \<in> B" for r
    unfolding f by (rule F [OF that])+
  show "heap_struct (upd_bytes f h) B" unfolding f
    by (rule heap_struct_cong [OF s]) (use F H(5,6) shapeD(2) [OF H(4)] in auto)
  show "bytes (upd_bytes f h) i = bytes h i" if "outside h {p} i" for i using that by (auto simp: f outside_def)
qed

lemma count_used_simps [simp]:
  "bytes (count_used n h) = bytes h" "heap_ptr (count_used n h) = heap_ptr h" "heap_end (count_used n h) = heap_end h"
  "lfree (count_used n h) = lfree h" "mem_size_aligned (count_used n h) = mem_size_aligned h"
  "used_mem (count_used n h) = used_mem h + n" "heap_fault (count_used n h) = heap_fault h" "eo (count_used n h) = eo h"
  "nx (count_used n h) = nx h" "pv (count_used n h) = pv h" "us (count_used n h) = us h" "mg (count_used n h) = mg h"
  by (simp_all add: count_used_def Let_def eo_def fun_eq_iff nx_def pv_def us_def mg_def)

lemma heap_struct_count [simp]: "heap_struct (count_used n h) B = heap_struct h B"
  by (simp add: heap_struct_def)

text \<open>The block at \<open>p\<close> is in use now, with room for \<open>n\<close> bytes; what was in use before is as it was.\<close>

definition taken :: "heap \<Rightarrow> nat set \<Rightarrow> nat \<Rightarrow> nat \<Rightarrow> heap \<Rightarrow> nat set \<Rightarrow> bool" where
  "taken h B p n h' B' \<longleftrightarrow> B \<subseteq> B' \<and> us h' p \<and> p + 12 + n \<le> nx h' p \<and>
     (\<forall>x \<in> B. x \<noteq> p \<longrightarrow> us h' x = us h x \<and> nx h' x = nx h x) \<and>
     (\<forall>x \<in> B' - B. x = nx h' p \<and> \<not> us h' x \<and> nx h' x = nx h p) \<and>
     used_mem h' = used_mem h + word_of_nat (nx h' p - p) \<and>
     heap_ptr h' = heap_ptr h \<and> heap_end h' = heap_end h \<and> lfree h' = lfree h \<and> mem_size_aligned h' = mem_size_aligned h \<and>
     heap_fault h' = heap_fault h \<and> (\<forall>i. outside h B' i \<longrightarrow> bytes h' i = bytes h i)"

lemma take_block_state:
  assumes s: "heap_struct h B" and p: "unat ptr \<in> B" "unat ptr \<noteq> eo h" and a: "accepts h (unat size1) (unat ptr)"
    and z: "4 dvd unat size1" "size1 \<le> mem_size_aligned h"
  obtains B' where "heap_struct (take_block size1 ptr h) B'" "taken h B (unat ptr) (unat size1) (take_block size1 ptr h) B'"
proof -
  let ?p = "unat ptr" and ?n = "unat size1"
  let ?q = "?p + 12 + ?n"
  note H = heap_structD [OF s]
  note D = shapeD [OF H(4)]
  have n: "?p + 12 \<le> nx h ?p" "nx h ?p \<in> B" "nx h ?p \<le> eo h" "?q \<le> nx h ?p" using D(9,8) [OF p] D(4) a by (auto simp: accepts_def)
  have E: "nx h ?p < 2 ^ 32" "?n + 24 < 2 ^ 32" using n(3) H(2) z(2) by (auto simp: eo_def word_le_nat_alt)
  have p2: "unat (ptr + 12 + size1) = ?q" using n(4) E(1) by (simp add: unat_word_ariths)
  have q4: "4 dvd ?q" using D(5) [OF p(1)] z(1) by (simp add: numeral_2_eq_2 dvd_add)
  have room: "size1 + 12 + 12 \<le> next1 (bytes h) (heap_ptr h + ?p) - (ptr + 12) \<longleftrightarrow> ?q + 24 \<le> nx h ?p"
  proof -
    have "unat (ptr + 12) = ?p + 12" using n(1) E(1) by (simp add: unat_word_ariths)
    moreover have "unat (size1 + 12 + 12) = ?n + 24" using E(2) by (simp add: unat_word_ariths)
    ultimately show ?thesis using n(1) by (simp add: word_le_nat_alt unat_sub nx_def) arith
  qed
  show ?thesis
  proof (cases "?q + 24 \<le> nx h ?p")
    case True
    let ?h1 = "split_block ptr (ptr + 12 + size1) h"
    let ?h2 = "upd_bytes (st16 (heap_ptr h + ?p + 2) 1) ?h1"
    let ?h3 = "count_used (size1 + 12) ?h2"
    have e: "take_block size1 ptr h = upd_bytes (st16 (heap_ptr h + ?p) HEAP_MAGIC) ?h3"
      using True room by (simp add: take_block_def Let_def)
    have S: "heap_struct ?h1 (insert ?q B)"
        "\<And>r. r \<in> insert ?q B \<Longrightarrow> nx ?h1 r = (if r = ?p then ?q else if r = ?q then nx h ?p else nx h r)"
        "\<And>r. r \<in> insert ?q B \<Longrightarrow> us ?h1 r = (r \<noteq> ?q \<and> us h r)"
        "\<And>i. outside h {?p, ?q, nx h ?p} i \<Longrightarrow> bytes ?h1 i = bytes h i"
        "heap_ptr ?h1 = heap_ptr h" "heap_end ?h1 = heap_end h" "lfree ?h1 = lfree h" "mem_size_aligned ?h1 = mem_size_aligned h"
        "used_mem ?h1 = used_mem h" "heap_fault ?h1 = heap_fault h" "?q \<notin> B"
      using split_block_struct [OF s p, of "ptr + 12 + size1", unfolded p2] True q4 by auto
    have e1: "eo ?h1 = eo h" by (simp add: eo_def S)
    have pq: "?p \<in> insert ?q B" "?p \<noteq> ?q" "?p \<noteq> eo ?h1" using p by (simp_all add: e1)
    note U = mark_used [OF S(1) pq(1) _ pq(3), of "st16 (heap_ptr h + ?p + 2) 1" 1, unfolded S(5), OF refl]
    have s3: "heap_struct ?h3 (insert ?q B)" using U(1) by simp
    note G = mark_magic [OF s3 pq(1), of "st16 (heap_ptr h + ?p) HEAP_MAGIC"]
    show ?thesis
    proof (rule that [of "insert ?q B"])
      show "heap_struct (take_block size1 ptr h) (insert ?q B)" unfolding e by (rule G) (simp add: S(5))
      have N: "nx (take_block size1 ptr h) r = (if r = ?p then ?q else if r = ?q then nx h ?p else nx h r)"
        "us (take_block size1 ptr h) r = (r = ?p \<or> r \<noteq> ?q \<and> us h r)" if "r \<in> insert ?q B" for r
        unfolding e using G(2,3) [OF _ that] U(2,3) [OF that] S(2,3) [OF that] S(5) by simp_all
      have F: "bytes (take_block size1 ptr h) i = bytes h i" if "outside h (insert ?q B) i" for i
      proof -
        have "outside h {?p, ?q, nx h ?p} i" "outside h {?p} i" using that p n(2) by (auto simp: outside_def)
        then show ?thesis unfolding e using G(4) [of i] U(4) [of i] S(4,5) by (simp add: outside_def)
      qed
      have "word_of_nat (?q - ?p) = size1 + 12" by simp
      then show "taken h B ?p ?n (take_block size1 ptr h) (insert ?q B)"
        unfolding taken_def using N F p pq S(11) by (auto simp: e S)
    qed
  next
    case False
    let ?h1 = "upd_bytes (st16 (heap_ptr h + ?p + 2) 1) h"
    let ?k = "next1 (bytes ?h1) (heap_ptr h + ?p) - word_of_nat ?p"
    let ?h2 = "count_used ?k ?h1"
    have e: "take_block size1 ptr h = upd_bytes (st16 (heap_ptr h + ?p) HEAP_MAGIC) ?h2"
      using False room by (simp add: take_block_def Let_def)
    note U = mark_used [OF s p(1) refl p(2), where v = 1]
    have s2: "heap_struct ?h2 B" using U(1) by simp
    note G = mark_magic [OF s2 p(1), of "st16 (heap_ptr h + ?p) HEAP_MAGIC"]
    show ?thesis
    proof (rule that [of B])
      show "heap_struct (take_block size1 ptr h) B" unfolding e by (rule G) simp
      have N: "nx (take_block size1 ptr h) r = nx h r" "us (take_block size1 ptr h) r = (r = ?p \<or> us h r)" if "r \<in> B" for r
        unfolding e using G(2,3) [OF _ that] U(2,3) [OF that] by simp_all
      have F: "bytes (take_block size1 ptr h) i = bytes h i" if "outside h B i" for i
      proof -
        have "outside h {?p} i" using that p by (auto simp: outside_def)
        then show ?thesis unfolding e using G(4) [of i] U(4) [of i] by (simp add: outside_def)
      qed
      have "?k = word_of_nat (nx h ?p - ?p)"
        using n(1) U(2) [OF p(1)] by (simp add: nx_def of_nat_diff)
      then show "taken h B ?p ?n (take_block size1 ptr h) B"
        unfolding taken_def using N F p n(4) by (auto simp: e)
    qed
  qed
qed

section \<open>The heap as a map of blocks\<close>

definition live :: "heap \<Rightarrow> nat set \<Rightarrow> nat set" where
  "live h B = {x \<in> B. x \<noteq> eo h \<and> us h x}"

text \<open>The invariant: the structure is intact, free blocks are merged, \<^verbatim>\<open>lfree\<close> points to a free block or
  the end, and \<^verbatim>\<open>used_mem\<close> is the memory in use.\<close>

definition heap_rep :: "heap \<Rightarrow> nat set \<Rightarrow> bool" where
  "heap_rep h B \<longleftrightarrow> heap_struct h B \<and> nofrag h B \<and> lf_ok h B \<and> 12 \<le> mem_size_aligned h \<and>
     used_mem h = word_of_nat (\<Sum>x \<in> live h B. nx h x - x) \<and> (\<forall>x \<in> live h B. x + 12 < nx h x)"

lemma heap_repD:
  assumes "heap_rep h B"
  shows "heap_struct h B" "nofrag h B" "lf_ok h B" "12 \<le> mem_size_aligned h"
    "used_mem h = word_of_nat (\<Sum>x \<in> live h B. nx h x - x)" "x \<in> live h B \<Longrightarrow> x + 12 < nx h x"
  using assms by (simp_all add: heap_rep_def)

text \<open>The blocks in use, by the address the caller was given, with their length.\<close>

definition blocks :: "heap \<Rightarrow> nat set \<Rightarrow> block_map" where
  "blocks h B a = (if heap_ptr h + 12 \<le> a \<and> a - (heap_ptr h + 12) \<in> live h B
     then Some (heap_ptr h + nx h (a - (heap_ptr h + 12)) - a) else None)"

lemma blocks_Some:
  "blocks h B a = Some n \<longleftrightarrow> (\<exists>x \<in> live h B. a = heap_ptr h + x + 12 \<and> n = nx h x - (x + 12))"
proof
  assume b: "blocks h B a = Some n"
  then obtain k where k: "a = heap_ptr h + 12 + k" by (auto simp: blocks_def le_iff_add split: if_splits)
  then show "\<exists>x \<in> live h B. a = heap_ptr h + x + 12 \<and> n = nx h x - (x + 12)"
    using b by (intro bexI [of _ k]) (auto simp: blocks_def split: if_splits)
qed (auto simp: blocks_def)

lemma blocks_take:
  assumes l: "live h' B' = insert p (live h B)" and n: "\<And>x. x \<in> live h B \<Longrightarrow> x \<noteq> p \<Longrightarrow> nx h' x = nx h x"
    and e: "heap_ptr h' = heap_ptr h"
  shows "blocks h' B' = (blocks h B)(heap_ptr h + p + 12 \<mapsto> nx h' p - (p + 12))"
proof
  fix a
  show "blocks h' B' a = ((blocks h B)(heap_ptr h + p + 12 \<mapsto> nx h' p - (p + 12))) a"
  proof (cases "a = heap_ptr h + p + 12")
    case True
    then show ?thesis by (simp add: blocks_def l e)
  next
    case False
    then have "heap_ptr h + 12 \<le> a \<Longrightarrow> a - (heap_ptr h + 12) \<noteq> p" by auto
    then show ?thesis using False n by (auto simp: blocks_def l e)
  qed
qed

lemma blocks_drop:
  assumes l: "live h' B' = live h B - {p}" and n: "\<And>x. x \<in> live h B \<Longrightarrow> x \<noteq> p \<Longrightarrow> nx h' x = nx h x"
    and e: "heap_ptr h' = heap_ptr h"
  shows "blocks h' B' = (blocks h B)(heap_ptr h + p + 12 := None)"
proof
  fix a
  show "blocks h' B' a = ((blocks h B)(heap_ptr h + p + 12 := None)) a"
  proof (cases "a = heap_ptr h + p + 12")
    case True
    then show ?thesis by (simp add: blocks_def l e)
  next
    case False
    then have "heap_ptr h + 12 \<le> a \<Longrightarrow> a - (heap_ptr h + 12) \<noteq> p" by auto
    then show ?thesis using False n by (auto simp: blocks_def l e)
  qed
qed

text \<open>Bytes of blocks in use lie outside every header.\<close>

lemma live_outside:
  assumes s: "heap_struct h B" and x: "x \<in> B" "x \<noteq> eo h" and i: "heap_ptr h + x + 12 \<le> i" "i < heap_ptr h + nx h x"
  shows "outside h B i"
  unfolding outside_def
proof
  fix p assume p: "p \<in> B"
  note D = shapeD [OF heap_structD(4) [OF s]]
  show "i < heap_ptr h + p \<or> heap_ptr h + p + 12 \<le> i"
  proof (cases "p \<le> x")
    case True
    then show ?thesis using i by simp
  next
    case False
    then show ?thesis using D(10) [OF x p] i by simp
  qed
qed

abbreviation same_data :: "block_map \<Rightarrow> heap \<Rightarrow> heap \<Rightarrow> bool" where
  "same_data M h h' \<equiv> same_bytes M (bytes h) (bytes h')"

text \<open>The blocks in use are disjoint, inside the heap and aligned.\<close>

lemma blocks_separate:
  assumes s: "heap_struct h B"
  shows "separate (blocks h B)"
    "blocks h B a = Some n \<Longrightarrow> heap_ptr h + 12 \<le> a \<and> a + n \<le> heap_end h \<and> 4 dvd a"
proof -
  note H = heap_structD [OF s]
  note D = shapeD [OF H(4)]
  have o: "x + 12 + (nx h x - (x + 12)) \<le> y" if "x \<in> live h B" "y \<in> B" "x < y" for x y
    using that D(9,10) [of x] by (auto simp: live_def)
  show "separate (blocks h B)"
    unfolding separate_def blocks_Some
  proof (intro allI impI, elim bexE conjE)
    fix a b n k x y
    assume x: "a \<noteq> b" "x \<in> live h B" "a = heap_ptr h + x + 12" "n = nx h x - (x + 12)"
      "y \<in> live h B" "b = heap_ptr h + y + 12" "k = nx h y - (y + 12)"
    show "a + n \<le> b \<or> b + k \<le> a"
      using o [OF x(2), of y] o [OF x(5), of x] x by (cases "x < y") (auto simp: live_def)
  qed
  assume "blocks h B a = Some n"
  then obtain x where x: "x \<in> live h B" "a = heap_ptr h + x + 12" "n = nx h x - (x + 12)" by (auto simp: blocks_Some)
  have xB: "x \<in> B" "x \<noteq> eo h" using x(1) by (auto simp: live_def)
  have "nx h x \<le> eo h" "x + 12 \<le> nx h x" using D(4) [OF D(8) [OF xB]] D(9) [OF xB] by auto
  moreover have "4 dvd heap_ptr h + x + 12" using H(3) D(5) [OF xB(1)] by (simp add: dvd_add)
  ultimately show "heap_ptr h + 12 \<le> a \<and> a + n \<le> heap_end h \<and> 4 dvd a" using x(2,3) H(1) by simp
qed

section \<open>Allocation\<close>

lemma taken_rep:
  assumes R: "heap_rep h B" and p: "p \<in> B" "p \<noteq> eo h" "\<not> us h p" and s1: "heap_struct h1 B1" and t: "taken h B p n h1 B1"
  shows "nofrag h1 B1" "live h1 B1 = insert p (live h B)" "p \<notin> live h B"
    "used_mem h1 = word_of_nat (\<Sum>x \<in> live h1 B1. nx h1 x - x)"
    "blocks h1 B1 = (blocks h B)(heap_ptr h + p + 12 \<mapsto> nx h1 p - (p + 12))" "same_data (blocks h B) h h1"
proof -
  note H = heap_structD [OF heap_repD(1) [OF R]] and H1 = heap_structD [OF s1]
  note D = shapeD [OF H(4)]
  have T: "B \<subseteq> B1" "us h1 p" "p + 12 + n \<le> nx h1 p" "\<And>x. x \<in> B \<Longrightarrow> x \<noteq> p \<Longrightarrow> us h1 x = us h x"
    "\<And>x. x \<in> B \<Longrightarrow> x \<noteq> p \<Longrightarrow> nx h1 x = nx h x" "\<And>x. x \<in> B1 - B \<Longrightarrow> \<not> us h1 x \<and> nx h1 x = nx h p"
    "used_mem h1 = used_mem h + word_of_nat (nx h1 p - p)" "heap_ptr h1 = heap_ptr h" "eo h1 = eo h"
    "\<And>i. outside h B1 i \<Longrightarrow> bytes h1 i = bytes h i"
    using t by (auto simp: taken_def eo_def)
  have np: "us h (nx h p)" "nx h p \<in> B" "nx h p \<noteq> p" using heap_repD(2) [OF R] p D(8,9) [OF p(1,2)] by (auto simp: nofrag_def)
  show "nofrag h1 B1" unfolding nofrag_def
  proof (intro ballI impI)
    fix x assume x: "x \<in> B1" "x \<noteq> eo h1"
    consider "x = p" | "x \<in> B" "x \<noteq> p" | "x \<in> B1 - B" using x by blast
    then show "us h1 x \<or> us h1 (nx h1 x)"
    proof cases
      case 2
      have "us h x \<or> us h (nx h x)" "nx h x \<in> B" using heap_repD(2) [OF R] 2 x T(9) D(8) [of x] by (auto simp: nofrag_def)
      then show ?thesis using 2 T(2,4,5) by (cases "nx h x = p") auto
    qed (use T np in auto)
  qed
  show l: "live h1 B1 = insert p (live h B)" using T p by (auto simp: live_def)
  show nl: "p \<notin> live h B" using p by (simp add: live_def)
  have f: "finite (live h B)" using D(7) by (simp add: live_def)
  have n: "nx h1 x = nx h x" if "x \<in> live h B" "x \<noteq> p" for x using that T(5) by (simp add: live_def)
  have "(\<Sum>x \<in> live h B. nx h1 x - x) = (\<Sum>x \<in> live h B. nx h x - x)" by (rule sum.cong [OF refl]) (use n nl in metis)
  then show "used_mem h1 = word_of_nat (\<Sum>x \<in> live h1 B1. nx h1 x - x)"
    using f nl T(7) heap_repD(5) [OF R] by (simp add: l algebra_simps)
  show "blocks h1 B1 = (blocks h B)(heap_ptr h + p + 12 \<mapsto> nx h1 p - (p + 12))" by (rule blocks_take [OF l n T(8)])
  show "same_data (blocks h B) h h1" unfolding same_bytes_def blocks_Some
  proof (intro allI impI, elim bexE conjE)
    fix a k i x assume x: "i < k" "x \<in> live h B" "a = heap_ptr h + x + 12" "k = nx h x - (x + 12)"
    have "x \<in> B1" "x \<noteq> eo h1" "nx h1 x = nx h x" using x(2) nl T(1,9) n [of x] by (auto simp: live_def)
    then have "outside h1 B1 (a + i)" using live_outside [OF s1] x T(8) by simp
    then show "bytes h1 (a + i) = bytes h (a + i)" using T(8,10) by (simp add: outside_def)
  qed
qed

lemma heap_struct_any_lfree: "heap_rep (h\<lparr>lfree := l\<rparr>) B \<longleftrightarrow>
    heap_struct h B \<and> nofrag h B \<and> lf_ok (h\<lparr>lfree := l\<rparr>) B \<and> 12 \<le> mem_size_aligned h \<and>
    used_mem h = word_of_nat (\<Sum>x \<in> live h B. nx h x - x) \<and> (\<forall>x \<in> live h B. x + 12 < nx h x)"
  by (simp add: heap_rep_def nofrag_def live_def)

lemma blocks_lfree [simp]: "blocks (h\<lparr>lfree := l\<rparr>) B = blocks h B"
  by (simp add: blocks_def live_def fun_eq_iff)

text \<open>The second half of \<^verbatim>\<open>rt_malloc\<close>: the lowest free block is looked for again if it was taken.\<close>

lemma taken_lfree:
  assumes R: "heap_rep h B" and p: "p \<in> B" "p \<noteq> eo h" "\<not> us h p" and s1: "heap_struct h1 B1" and t: "taken h B p n h1 B1"
    and n0: "0 < n"
  obtains l where
    "(if heap_ptr h + p = lfree h1
      then map_option (\<lambda>lf. heap_assert (lf = heap_end h1 \<or> used (bytes h1) lf = 0) (h1\<lparr>lfree := lf\<rparr>)) (next_free (lfree h1) h1)
      else Some h1) = Some (h1\<lparr>lfree := l\<rparr>)"
    "heap_rep (h1\<lparr>lfree := l\<rparr>) B1" "lowest h B \<longrightarrow> lowest (h1\<lparr>lfree := l\<rparr>) B1"
proof -
  note TR = taken_rep [OF R p s1 t] and H1 = heap_structD [OF s1]
  have T: "B \<subseteq> B1" "us h1 p" "p + 12 + n \<le> nx h1 p" "\<And>x. x \<in> B \<Longrightarrow> x \<noteq> p \<Longrightarrow> us h1 x = us h x"
    "\<And>x. x \<in> B1 - B \<Longrightarrow> x = nx h1 p" "heap_ptr h1 = heap_ptr h" "eo h1 = eo h" "lfree h1 = lfree h"
    "mem_size_aligned h1 = mem_size_aligned h"
    using t by (auto simp: taken_def eo_def)
  have m: "12 \<le> mem_size_aligned h1" using heap_repD(4) [OF R] T(9) by simp
  have rep: "heap_rep (h1\<lparr>lfree := l\<rparr>) B1" if "lf_ok (h1\<lparr>lfree := l\<rparr>) B1" for l
  proof -
    have "x + 12 < nx h1 x" if "x \<in> live h1 B1" for x
      using that heap_repD(6) [OF R, of x] T(3) t n0 unfolding TR(2) by (auto simp: taken_def live_def)
    then show ?thesis using that s1 TR(1,4) m by (simp add: heap_struct_any_lfree)
  qed
  obtain L where L: "L \<in> B" "lfree h = heap_ptr h + L" "L = eo h \<or> \<not> us h L" using heap_repD(3) [OF R] by (auto simp: lf_ok_def)
  show ?thesis
  proof (cases "L = p")
    case True
    have pB: "p \<in> B1" using p T(1) by auto
    obtain q where q: "q \<in> B1" "next_free (heap_ptr h1 + p) h1 = Some (heap_ptr h1 + q)" "p \<le> q" "q = eo h1 \<or> \<not> us h1 q"
      "\<forall>x \<in> B1. p \<le> x \<longrightarrow> x < q \<longrightarrow> us h1 x" using next_free_first [OF s1 pB] by blast
    show ?thesis
    proof (rule that [of "heap_ptr h1 + q"])
      show "(if heap_ptr h + p = lfree h1
        then map_option (\<lambda>lf. heap_assert (lf = heap_end h1 \<or> used (bytes h1) lf = 0) (h1\<lparr>lfree := lf\<rparr>)) (next_free (lfree h1) h1)
        else Some h1) = Some (h1\<lparr>lfree := heap_ptr h1 + q\<rparr>)"
        using q(2,4) L(2) True T(6,8) H1(1) by (auto simp: heap_assert_def us_def)
      show "heap_rep (h1\<lparr>lfree := heap_ptr h1 + q\<rparr>) B1" by (rule rep) (use q in \<open>auto simp: lf_ok_def\<close>)
      have "q \<le> x" if "lowest h B" "x \<in> B1" "\<not> us h1 x" for x
      proof -
        have "p \<le> x" using that T(2-5) L(2) True by (cases "x \<in> B") (auto simp: lowest_def)
        then show ?thesis using q(5) that by (meson not_le)
      qed
      then show "lowest h B \<longrightarrow> lowest (h1\<lparr>lfree := heap_ptr h1 + q\<rparr>) B1" by (simp add: lowest_def)
    qed
  next
    case False
    show ?thesis
    proof (rule that [of "lfree h1"])
      show "(if heap_ptr h + p = lfree h1
        then map_option (\<lambda>lf. heap_assert (lf = heap_end h1 \<or> used (bytes h1) lf = 0) (h1\<lparr>lfree := lf\<rparr>)) (next_free (lfree h1) h1)
        else Some h1) = Some (h1\<lparr>lfree := lfree h1\<rparr>)" using False L(2) T(8) by simp
      have "lf_ok h1 B1" unfolding lf_ok_def using L T(1,4,6,7,8) False by (intro bexI [of _ L]) auto
      then show "heap_rep (h1\<lparr>lfree := lfree h1\<rparr>) B1" by (intro rep) simp
      have "lfree h \<le> heap_ptr h + x" if lo: "lowest h B" and "x \<in> B1" "\<not> us h1 x" for x
      proof (cases "x \<in> B")
        case True
        then show ?thesis using lo that T(2,4) by (cases "x = p") (auto simp: lowest_def)
      next
        case False
        then have "p < x" using T(3,5) that by auto
        moreover have "lfree h \<le> heap_ptr h + p" using lo p by (simp add: lowest_def)
        ultimately show ?thesis by simp
      qed
      then show "lowest h B \<longrightarrow> lowest (h1\<lparr>lfree := lfree h1\<rparr>) B1" using T(6,8) by (simp add: lowest_def)
    qed
  qed
qed

text \<open>The size that is looked for.\<close>

definition want :: "u32 \<Rightarrow> u32" where
  "want n = (if align32 n < MIN_SIZE_ALIGNED then MIN_SIZE_ALIGNED else align32 n)"

lemma want_dvd: "4 dvd unat (want n)"
  by (simp add: want_def align32_dvd)

lemma want_pos: "0 < unat (want n)"
  by (simp add: want_def word_less_nat_alt)

lemma want_ge: "unat n + 3 < 2 ^ 32 \<Longrightarrow> unat n \<le> unat (want n)"
  using unat_align32 [of n] RT_ALIGN_ge [of "unat n"] by (simp add: want_def word_less_nat_alt del: RT_ALIGN_ge)

lemma malloc_state:
  assumes R: "heap_rep h B" and n: "n \<noteq> 0" "align32 n \<le> mem_size_aligned h"
  shows "(rt_malloc n h = Some (h, None) \<and> (\<forall>x \<in> B. lfree h \<le> heap_ptr h + x \<longrightarrow> \<not> accepts h (unat (want n)) x)) \<or>
    (\<exists>p h' B'. rt_malloc n h = Some (h', Some (heap_ptr h + p + 12)) \<and> p \<in> B \<and> lfree h \<le> heap_ptr h + p \<and>
       accepts h (unat (want n)) p \<and> (\<forall>x \<in> B. lfree h \<le> heap_ptr h + x \<longrightarrow> x < p \<longrightarrow> \<not> accepts h (unat (want n)) x) \<and>
       heap_rep h' B' \<and> (lowest h B \<longrightarrow> lowest h' B') \<and> heap_fault h' = heap_fault h \<and> same_data (blocks h B) h h' \<and>
       heap_ptr h' = heap_ptr h \<and> heap_end h' = heap_end h \<and> mem_size_aligned h' = mem_size_aligned h \<and>
       blocks h B (heap_ptr h + p + 12) = None \<and>
       (\<exists>k \<ge> unat (want n). blocks h' B' = (blocks h B)(heap_ptr h + p + 12 \<mapsto> k)))"
proof -
  note s = heap_repD(1) [OF R] and H = heap_structD [OF heap_repD(1) [OF R]]
  have z: "want n \<le> mem_size_aligned h" using n(2) heap_repD(4) [OF R] by (simp add: want_def)
  obtain L where L: "L \<in> B" "lfree h = heap_ptr h + L" using heap_repD(3) [OF R] by (auto simp: lf_ok_def)
  obtain r where r: "heap_scan (want n) (word_of_nat L) h = Some r"
    "case r of None \<Rightarrow> \<forall>x \<in> B. L \<le> x \<longrightarrow> \<not> accepts h (unat (want n)) x
     | Some w \<Rightarrow> unat w \<in> B \<and> L \<le> unat w \<and> unat w \<noteq> eo h \<and> accepts h (unat (want n)) (unat w) \<and>
         (\<forall>x \<in> B. L \<le> x \<longrightarrow> x < unat w \<longrightarrow> \<not> accepts h (unat (want n)) x)"
    using heap_scan_first [OF s z L(1)] by blast
  have e: "rt_malloc n h = Option.bind (heap_scan (want n) (word_of_nat L) h) (\<lambda>r.
      case r of
        None \<Rightarrow> Some (h, None)
      | Some ptr \<Rightarrow>
          let mem = heap_ptr h + unat ptr; h1 = take_block (want n) ptr h
          in Option.bind (if mem = lfree h1
                          then map_option (\<lambda>lf. heap_assert (lf = heap_end h1 \<or> used (bytes h1) lf = 0) (h1\<lparr>lfree := lf\<rparr>))
                                 (next_free (lfree h1) h1)
                          else Some h1)
               (\<lambda>h2. Some (heap_assert (mem mod 4 = 0)
                       (heap_assert (mem + 12 + unat (want n) \<le> heap_end h2) h2), Some (mem + 12))))"
    using n(1) leD [OF n(2)] L(2) unfolding rt_malloc_def Let_def want_def by simp
  show ?thesis
  proof (cases r)
    case None
    then show ?thesis using r L(2) by (intro disjI1) (simp add: e)
  next
    case (Some w)
    let ?p = "unat w"
    have p: "?p \<in> B" "L \<le> ?p" "?p \<noteq> eo h" "accepts h (unat (want n)) ?p" "\<not> us h ?p"
      "\<forall>x \<in> B. L \<le> x \<longrightarrow> x < ?p \<longrightarrow> \<not> accepts h (unat (want n)) x"
      using r(2) Some by (auto simp: accepts_def)
    let ?h1 = "take_block (want n) w h"
    obtain B1 where B1: "heap_struct ?h1 B1" "taken h B ?p (unat (want n)) ?h1 B1"
      by (rule take_block_state [OF s p(1,3,4) want_dvd z])
    obtain l where l: "(if heap_ptr h + ?p = lfree ?h1
        then map_option (\<lambda>lf. heap_assert (lf = heap_end ?h1 \<or> used (bytes ?h1) lf = 0) (?h1\<lparr>lfree := lf\<rparr>)) (next_free (lfree ?h1) ?h1)
        else Some ?h1) = Some (?h1\<lparr>lfree := l\<rparr>)"
      "heap_rep (?h1\<lparr>lfree := l\<rparr>) B1" "lowest h B \<longrightarrow> lowest (?h1\<lparr>lfree := l\<rparr>) B1"
      by (rule taken_lfree [OF R p(1,3,5) B1 want_pos])
    note TR = taken_rep [OF R p(1,3,5) B1]
    have T: "?p + 12 + unat (want n) \<le> nx ?h1 ?p" "heap_ptr ?h1 = heap_ptr h" "heap_end ?h1 = heap_end h"
      "mem_size_aligned ?h1 = mem_size_aligned h" "heap_fault ?h1 = heap_fault h" "?p \<in> B1" "eo ?h1 = eo h"
      using B1(2) p(1) by (auto simp: taken_def eo_def)
    have "nx ?h1 ?p \<le> eo h" using shapeD(4,8) [OF heap_structD(4) [OF B1(1)]] T(6,7) p(3) by metis
    then have a: "heap_ptr h + ?p + 12 + unat (want n) \<le> heap_end ?h1" using T(1,3) H(1) by simp
    have m: "(heap_ptr h + ?p) mod 4 = 0" using H(3) shapeD(5) [OF H(4) p(1)] by (simp add: dvd_add mod_0_imp_dvd)
    have q: "rt_malloc n h = Some (?h1\<lparr>lfree := l\<rparr>, Some (heap_ptr h + ?p + 12))"
      unfolding e r(1) Some option.case Option.bind.bind_lunit Let_def l(1) using a m by (simp add: heap_assert_def)
    have "blocks h B (heap_ptr h + ?p + 12) = None" using TR(3) by (simp add: blocks_def)
    moreover have "unat (want n) \<le> nx ?h1 ?p - (?p + 12)" using T(1) by simp
    ultimately show ?thesis using q p l(2,3) L(2) T TR(5,6)
      by (intro disjI2 exI [of _ ?p] exI [of _ "?h1\<lparr>lfree := l\<rparr>"] exI [of _ B1]) auto
  qed
qed

section \<open>Release\<close>

lemma keeps_live:
  assumes "keeps h B h' B'"
  shows "live h' B' = live h B" "x \<in> live h B \<Longrightarrow> nx h' x = nx h x" "eo h' = eo h"
proof -
  have e: "eo h' = eo h" using assms by (simp add: keeps_def eo_def)
  have k: "B' \<subseteq> B" "\<And>x. x \<in> B \<Longrightarrow> us h x \<Longrightarrow> x \<in> B' \<and> nx h' x = nx h x" "\<And>x. x \<in> B' \<Longrightarrow> us h' x = us h x"
    using assms by (auto simp: keeps_def)
  show "eo h' = eo h" by (fact e)
  show "live h' B' = live h B" unfolding live_def e using k by blast
  show "nx h' x = nx h x" if "x \<in> live h B" using that k(2) by (simp add: live_def)
qed

lemma free_state:
  assumes R: "heap_rep h B" and p: "p \<in> live h B"
  defines "r \<equiv> heap_ptr h + p + 12"
  defines "h' \<equiv> rt_free (Some r) h"
  obtains B' where "heap_rep h' B'" "lowest h B \<longrightarrow> lowest h' B'" "heap_fault h' = heap_fault h"
    "blocks h' B' = (blocks h B)(r := None)" "same_data (blocks h' B') h h'"
    "heap_ptr h' = heap_ptr h" "heap_end h' = heap_end h" "mem_size_aligned h' = mem_size_aligned h"
proof -
  note s = heap_repD(1) [OF R] and H = heap_structD [OF heap_repD(1) [OF R]]
  note D = shapeD [OF H(4)]
  have pB: "p \<in> B" "p \<noteq> eo h" "us h p" using p by (auto simp: live_def)
  have np: "p + 12 < nx h p" "nx h p \<le> eo h" using heap_repD(6) [OF R p] D(4) [OF D(8) [OF pB(1,2)]] by auto
  let ?h1 = "upd_bytes (st16 (heap_ptr h + p + 2) 0) h"
  let ?h2 = "upd_bytes (st16 (heap_ptr h + p) HEAP_MAGIC) ?h1"
  let ?l = "if heap_ptr h + p < lfree h then heap_ptr h + p else lfree h"
  let ?k = "next1 (bytes ?h2) (heap_ptr h + p) - word_of_int (int (heap_ptr h + p) - int (heap_ptr h))"
  let ?h4 = "?h2\<lparr>lfree := ?l, used_mem := used_mem h - ?k\<rparr>"
  note U = mark_used [OF s pB(1) refl pB(2), where v = 0]
  note G = mark_magic [OF U(1) pB(1), of "st16 (heap_ptr h + p) HEAP_MAGIC"]
  have s4: "heap_struct ?h4 B" using G(1) by (simp add: heap_struct_def)
  have N: "nx ?h4 x = nx h x" "us ?h4 x = (x \<noteq> p \<and> us h x)" if "x \<in> B" for x
    using G(2,3) [OF _ that] U(2,3) [OF that] by simp_all
  have F: "bytes ?h4 i = bytes h i" if "outside h B i" for i
  proof -
    have "outside h {p} i" using that pB(1) by (auto simp: outside_def)
    then show ?thesis using G(4) [of i] U(4) [of i] by (simp add: outside_def)
  qed
  have asrt: "r mod 4 = 0" "heap_ptr h \<le> r" "r < heap_end h" "magic (bytes h) (heap_ptr h + p) = HEAP_MAGIC"
    "used (bytes h) (heap_ptr h + p) \<noteq> 0"
    using H(3) D(5) [OF pB(1)] np H(1) H(6) [OF pB(1)] pB(3) by (auto simp: r_def us_def mg_def dvd_add mod_0_imp_dvd)
  have e: "h' = plug_holes (heap_ptr ?h4 + p) ?h4"
    using asrt unfolding h'_def rt_free_def by (simp add: r_def Let_def heap_assert_def upd_bytes_def)
  have lv4: "live ?h4 B = live h B - {p}" using N by (auto simp: live_def)
  have lf: "lf_ok ?h4 B"
  proof -
    obtain L where L: "L \<in> B" "lfree h = heap_ptr h + L" "L = eo h \<or> \<not> us h L" using heap_repD(3) [OF R] by (auto simp: lf_ok_def)
    show ?thesis unfolding lf_ok_def
      by (rule bexI [of _ "if p < L then p else L"]) (use L pB N in \<open>auto simp: eo_def\<close>)
  qed
  have fr: "us ?h4 x \<or> us ?h4 (nx ?h4 x)" if "x \<in> B" "x \<noteq> eo ?h4" "x \<noteq> p" "nx ?h4 x \<noteq> p" for x
  proof -
    have "x \<noteq> eo h" using that(2) by (simp add: eo_def)
    then have "us h x \<or> us h (nx h x)" "nx h x \<in> B" using heap_repD(2) [OF R] that(1) D(8) by (auto simp: nofrag_def)
    then show ?thesis using that N [OF that(1)] N(2) [of "nx h x"] by auto
  qed
  have pE: "p \<noteq> eo ?h4" "\<not> us ?h4 p" using pB N by (simp_all add: eo_def)
  have lo: "lowest h B \<Longrightarrow> lowest ?h4 B" using N by (fastforce simp: lowest_def)
  show ?thesis
  proof (rule plug_holes_state [OF s4 pB(1) pE lf fr])
    fix B'
    assume P: "heap_struct (plug_holes (heap_ptr ?h4 + p) ?h4) B'" "keeps ?h4 B (plug_holes (heap_ptr ?h4 + p) ?h4) B'"
      "lf_ok (plug_holes (heap_ptr ?h4 + p) ?h4) B'" "nofrag (plug_holes (heap_ptr ?h4 + p) ?h4) B'"
      "lowest ?h4 B \<Longrightarrow> lowest (plug_holes (heap_ptr ?h4 + p) ?h4) B'"
    note P' = P [folded e] and K = keeps_live [OF P(2) [folded e]]
    have sc: "heap_ptr h' = heap_ptr h" "heap_end h' = heap_end h" "mem_size_aligned h' = mem_size_aligned h"
      "heap_fault h' = heap_fault h" "used_mem h' = used_mem h - ?k" using P'(2) by (simp_all add: keeps_def)
    have lv: "live h' B' = live h B - {p}" using K(1) lv4 by simp
    have nxl: "nx h' x = nx h x" if "x \<in> live h B - {p}" for x
      using K(2) [of x] that lv4 N(1) [of x] by (auto simp: live_def)
    have fin: "finite (live h B)" using D(7) by (simp add: live_def)
    have "?k = word_of_nat (nx h p - p)"
      using N(1) [OF pB(1)] np by (simp add: nx_def of_nat_diff)
    moreover have "(\<Sum>x \<in> live h B. nx h x - x) = (nx h p - p) + (\<Sum>x \<in> live h B - {p}. nx h x - x)"
      by (rule sum.remove [OF fin p])
    moreover have "(\<Sum>x \<in> live h' B'. nx h' x - x) = (\<Sum>x \<in> live h B - {p}. nx h x - x)"
      unfolding lv by (rule sum.cong [OF refl]) (simp add: nxl)
    ultimately have um: "used_mem h' = word_of_nat (\<Sum>x \<in> live h' B'. nx h' x - x)"
      using sc(5) heap_repD(5) [OF R] by simp
    have bl: "blocks h' B' = (blocks h B)(r := None)" unfolding r_def
      by (rule blocks_drop [OF lv _ sc(1)]) (use nxl in auto)
    have sd: "same_data (blocks h' B') h h'" unfolding same_bytes_def blocks_Some
    proof (intro allI impI, elim bexE conjE)
      fix a k i x assume x: "i < k" "x \<in> live h' B'" "a = heap_ptr h' + x + 12" "k = nx h' x - (x + 12)"
      have xB: "x \<in> B" "x \<noteq> eo h" "nx h' x = nx h x" using x(2) nxl lv by (auto simp: live_def)
      then have o: "outside h B (a + i)" using live_outside [OF s xB(1,2)] x(1,3,4) sc(1) by simp
      then have "bytes h' (a + i) = bytes ?h4 (a + i)" using P'(2) unfolding keeps_def outside_def by simp
      then show "bytes h' (a + i) = bytes h (a + i)" using F [OF o] by simp
    qed
    have "heap_rep h' B'" unfolding heap_rep_def
      using P'(1,3,4) um heap_repD(4,6) [OF R] sc(3) nxl lv by auto
    then show ?thesis using that bl sd sc P'(5) lo by blast
  qed
qed

section \<open>Writing into blocks and resizing them\<close>

text \<open>Writes outside the headers keep the invariant and the map of blocks.\<close>

lemma write_rep:
  assumes R: "heap_rep h B" and w: "\<And>i. \<not> outside h B i \<Longrightarrow> m i = bytes h i"
  defines "h' \<equiv> h\<lparr>bytes := m\<rparr>"
  shows "heap_rep h' B" "blocks h' B = blocks h B" "lowest h' B = lowest h B"
proof -
  have c: "m i = bytes h i" if "p \<in> B" "heap_ptr h + p \<le> i" "i < heap_ptr h + p + 12" for p i
    by (rule w) (use that in \<open>auto simp: outside_def not_less not_le\<close>)
  have F: "nx h' p = nx h p" "pv h' p = pv h p" "us h' p = us h p" "mg h' p = mg h p" if "p \<in> B" for p
    unfolding nx_def pv_def us_def mg_def h'_def using c [OF that] by (simp_all add: ld_cong [of _ m "bytes h"])
  have e: "eo h' = eo h" "heap_ptr h' = heap_ptr h" "heap_end h' = heap_end h" "mem_size_aligned h' = mem_size_aligned h"
    "lfree h' = lfree h" "used_mem h' = used_mem h" by (simp_all add: h'_def)
  note H = heap_structD [OF heap_repD(1) [OF R]]
  have s: "heap_struct h' B" by (rule heap_struct_cong [OF heap_repD(1) [OF R]])
      (use e F H(5,6) shapeD(2) [OF H(4)] in auto)
  have l: "live h' B = live h B" using F(3) e(1) by (auto simp: live_def)
  have "nx h x \<in> B" if "x \<in> B" "x \<noteq> eo h" for x using shapeD(8) [OF H(4) that] .
  then have "nofrag h' B" using heap_repD(2) [OF R] F e by (auto simp: nofrag_def)
  moreover have "lf_ok h' B" using heap_repD(3) [OF R] F e by (auto simp: lf_ok_def)
  moreover have "(\<Sum>x \<in> live h B. nx h' x - x) = (\<Sum>x \<in> live h B. nx h x - x)"
    by (rule sum.cong [OF refl]) (use F in \<open>auto simp: live_def\<close>)
  moreover have "x + 12 < nx h' x" if "x \<in> live h B" for x using heap_repD(6) [OF R that] F that by (simp add: live_def)
  ultimately show "heap_rep h' B" using s heap_repD(4,5) [OF R] unfolding heap_rep_def l e by simp
  show "blocks h' B = blocks h B" unfolding blocks_def l e using F(1) by (auto simp: fun_eq_iff live_def)
  show "lowest h' B = lowest h B" using F(3) e by (simp add: lowest_def)
qed

lemma block_outside:
  assumes s: "heap_struct h B" and b: "blocks h B a = Some n" and i: "i < n"
  shows "outside h B (a + i)"
proof -
  obtain x where x: "x \<in> live h B" "a = heap_ptr h + x + 12" "n = nx h x - (x + 12)" using b by (auto simp: blocks_Some)
  show ?thesis by (rule live_outside [OF s, of x]) (use x i in \<open>auto simp: live_def\<close>)
qed

text \<open>Cutting the end off a block that is in use.\<close>

lemma shrink_state:
  assumes R: "heap_rep h B" and p: "p \<in> live h B" and m: "4 dvd unat m" "0 < unat m" "p + 12 + unat m + 24 < nx h p"
  defines "h1 \<equiv> split_block (word_of_nat p) (word_of_nat p + 12 + m)
      (h\<lparr>used_mem := used_mem h - (word_of_nat (nx h p - (p + 12)) - m)\<rparr>)"
  defines "h2 \<equiv> plug_holes (heap_ptr h1 + unat (word_of_nat p + 12 + m)) h1"
  obtains B' where "heap_rep h2 B'" "heap_fault h2 = heap_fault h" "heap_ptr h2 = heap_ptr h" "heap_end h2 = heap_end h"
    "mem_size_aligned h2 = mem_size_aligned h"
    "blocks h2 B' = (blocks h B)(heap_ptr h + p + 12 \<mapsto> unat m)" "same_data (blocks h2 B') h h2"
proof -
  let ?h0 = "h\<lparr>used_mem := used_mem h - (word_of_nat (nx h p - (p + 12)) - m)\<rparr>"
  let ?q = "p + 12 + unat m"
  note s = heap_repD(1) [OF R] and H = heap_structD [OF heap_repD(1) [OF R]]
  note D = shapeD [OF H(4)]
  have pB: "p \<in> B" "p \<noteq> eo h" "us h p" using p by (auto simp: live_def)
  have s0: "heap_struct ?h0 B" using s by (simp add: heap_struct_def)
  have up: "unat (word_of_nat p :: u32) = p" by (rule heap_offset(1) [OF s pB(1)])
  have uq: "unat (word_of_nat p + 12 + m) = ?q"
    using m(3) D(4) [OF D(8) [OF pB(1,2)]] H(2) up by (simp add: unat_word_ariths)
  have q4: "4 dvd ?q" using D(5) [OF pB(1)] m(1) by (simp add: dvd_add)
  have pE: "unat (word_of_nat p :: u32) \<in> B" "unat (word_of_nat p :: u32) \<noteq> eo ?h0" using pB up by simp_all
  have c: "p + 12 \<le> ?q" "?q + 12 \<le> nx ?h0 p" using m(3) by simp_all
  have S: "heap_struct h1 (insert ?q B)"
      "\<And>r. r \<in> insert ?q B \<Longrightarrow> nx h1 r = (if r = p then ?q else if r = ?q then nx h p else nx h r)"
      "\<And>r. r \<in> insert ?q B \<Longrightarrow> us h1 r = (r \<noteq> ?q \<and> us h r)"
      "\<And>i. outside h {p, ?q, nx h p} i \<Longrightarrow> bytes h1 i = bytes h i"
      "heap_ptr h1 = heap_ptr h" "heap_end h1 = heap_end h" "lfree h1 = lfree h" "mem_size_aligned h1 = mem_size_aligned h"
      "used_mem h1 = used_mem h - (word_of_nat (nx h p - (p + 12)) - m)" "heap_fault h1 = heap_fault h" "?q \<notin> B"
    using split_block_struct [OF s0 pE, of "word_of_nat p + 12 + m", unfolded uq up, OF c q4] unfolding h1_def outside_def by simp_all
  have e1: "eo h1 = eo h" by (simp add: eo_def S)
  have qq: "?q \<in> insert ?q B" "?q \<noteq> eo h1" "\<not> us h1 ?q" using S(3,11) D(2) by (auto simp: e1)
  have lf: "lf_ok h1 (insert ?q B)" using heap_repD(3) [OF R] S(3,5,7,11) unfolding lf_ok_def e1 by auto
  have fr: "us h1 x \<or> us h1 (nx h1 x)" if "x \<in> insert ?q B" "x \<noteq> eo h1" "x \<noteq> ?q" "nx h1 x \<noteq> ?q" for x
  proof -
    have x: "x \<in> B" "x \<noteq> eo h" "x \<noteq> p" using that S(2) [of p] pB(1) by (auto simp: e1)
    have "us h x \<or> us h (nx h x)" "nx h x \<in> B" using heap_repD(2) [OF R] x D(8) by (auto simp: nofrag_def)
    then show ?thesis using S(2) [of x] S(3) [of x] S(3) [of "nx h x"] S(11) x that by auto
  qed
  show ?thesis
  proof (rule plug_holes_state [OF S(1) qq lf fr])
    fix B'
    assume P: "heap_struct (plug_holes (heap_ptr h1 + ?q) h1) B'" "keeps h1 (insert ?q B) (plug_holes (heap_ptr h1 + ?q) h1) B'"
      "lf_ok (plug_holes (heap_ptr h1 + ?q) h1) B'" "nofrag (plug_holes (heap_ptr h1 + ?q) h1) B'"
    have e: "h2 = plug_holes (heap_ptr h1 + ?q) h1" by (simp add: h2_def uq)
    note P' = P [folded e] and K = keeps_live [OF P(2) [folded e]]
    have sc: "heap_ptr h2 = heap_ptr h" "heap_end h2 = heap_end h" "mem_size_aligned h2 = mem_size_aligned h"
      "heap_fault h2 = heap_fault h" "used_mem h2 = used_mem h1" using P'(2) S by (simp_all add: keeps_def)
    have lv1: "live h1 (insert ?q B) = live h B" using S(3,11) by (auto simp: live_def e1)
    have lv: "live h2 B' = live h B" using K(1) lv1 by simp
    have N: "nx h2 x = (if x = p then ?q else nx h x)" if "x \<in> live h B" for x
    proof -
      have x: "x \<in> insert ?q B" "x \<noteq> ?q" using that S(11) by (auto simp: live_def)
      have "nx h2 x = nx h1 x" by (rule K(2)) (use that lv1 in simp)
      then show ?thesis using S(2) [OF x(1)] x(2) by simp
    qed
    have fin: "finite (live h B)" using D(7) by (simp add: live_def)
    let ?r = "\<Sum>x \<in> live h B - {p}. nx h x - x"
    have a: "(\<Sum>x \<in> live h B. nx h x - x) = (nx h p - p) + ?r" by (rule sum.remove [OF fin p])
    have "(\<Sum>x \<in> live h B. nx h2 x - x) = (nx h2 p - p) + (\<Sum>x \<in> live h B - {p}. nx h2 x - x)" by (rule sum.remove [OF fin p])
    moreover have "(\<Sum>x \<in> live h B - {p}. nx h2 x - x) = ?r" by (rule sum.cong [OF refl]) (simp add: N)
    ultimately have b: "(\<Sum>x \<in> live h2 B'. nx h2 x - x) = 12 + unat m + ?r" using N [OF p] by (simp add: lv)
    have k: "nx h p - p = (nx h p - (p + 12)) + 12" using m(3) by simp
    have w: "word_of_nat (k + 12 + r) - (word_of_nat k - m) = word_of_nat (12 + unat m + r)" for k r by simp
    have "used_mem h2 = word_of_nat (\<Sum>x \<in> live h2 B'. nx h2 x - x)"
      unfolding b sc(5) S(9) heap_repD(5) [OF R] a k by (rule w)
    moreover have "x + 12 < nx h2 x" if "x \<in> live h2 B'" for x using that N heap_repD(6) [OF R] m(2) by (auto simp: lv)
    ultimately have rep: "heap_rep h2 B'" using P'(1,3,4) heap_repD(4) [OF R] sc(3) by (simp add: heap_rep_def)
    have "blocks h2 B' = (blocks h B)(heap_ptr h + p + 12 \<mapsto> nx h2 p - (p + 12))"
      by (rule blocks_take [OF _ _ sc(1)]) (use lv p N in auto)
    then have bl: "blocks h2 B' = (blocks h B)(heap_ptr h + p + 12 \<mapsto> unat m)" using N [OF p] by simp
    have "same_data (blocks h2 B') h h2" unfolding same_bytes_def
    proof (intro allI impI)
      fix a k i assume x: "blocks h2 B' a = Some k" "i < k"
      obtain x where xl: "x \<in> live h B" "a = heap_ptr h + x + 12" "k = nx h2 x - (x + 12)"
        using x(1) lv sc(1) by (auto simp: blocks_Some)
      have "outside h1 (insert ?q B) (a + i)"
        by (rule live_outside [OF S(1), of x]) (use xl x(2) N S(2) [of x] S(5,11) in \<open>auto simp: live_def e1\<close>)
      then have "outside h {p, ?q, nx h p} (a + i)" "bytes h2 (a + i) = bytes h1 (a + i)"
        using P'(2) S(5) pB(1) D(8) [OF pB(1,2)] by (auto simp: outside_def keeps_def)
      then show "bytes h2 (a + i) = bytes h (a + i)" using S(4) by simp
    qed
    then show ?thesis using that rep sc bl by blast
  qed
qed

section \<open>Initialisation\<close>

lemma shape_start: "\<lbrakk>0 < E; 12 \<le> E; 4 dvd E; f 0 = E; g 0 = 0\<rbrakk> \<Longrightarrow> shape E {0, E} f g"
  by (rule shapeI) auto

lemma init_fields:
  assumes E: "12 \<le> E" and h: "heap_ptr h' = hp"
    "bytes h' = st32 (hp + E + 8) w (st32 (hp + E + 4) w (st16 (hp + E + 2) 1 (st16 (hp + E) HEAP_MAGIC
       (st16 (hp + 2) 0 (st32 (hp + 8) 0 (st32 (hp + 4) w (st16 hp HEAP_MAGIC m)))))))"
  shows "nx h' 0 = unat w" "pv h' 0 = 0" "us h' E" "\<not> us h' 0" "mg h' 0" "mg h' E"
  using E by (simp_all add: h nx_def pv_def us_def mg_def)

lemma heap_init_state:
  assumes b: "unat b + 3 < 2 ^ 32" "RT_ALIGN (unat b) + 36 \<le> RT_ALIGN_DOWN (unat e)" and u: "used_mem h = 0"
  defines "h' \<equiv> rt_system_heap_init b e h"
  shows "heap_rep h' {0, eo h'}" "lowest h' {0, eo h'}" "blocks h' {0, eo h'} = Map.empty" "heap_fault h' = heap_fault h"
    "heap_ptr h' = RT_ALIGN (unat b)" "unat (mem_size_aligned h') = RT_ALIGN_DOWN (unat e) - RT_ALIGN (unat b) - 24"
    "nx h' 0 = eo h'" "\<not> us h' 0" "lfree h' = heap_ptr h'"
proof -
  let ?hp = "RT_ALIGN (unat b)" and ?en = "RT_ALIGN_DOWN (unat e)"
  let ?msa = "align_down32 e - align32 b - 24"
  have A: "unat (align32 b) = ?hp" "unat (align_down32 e) = ?en" using b(1) by (simp_all add: unat_align32 unat_align_down32)
  have en: "?en < 2 ^ 32" using A(2) unsigned_less [of "align_down32 e", where ?'a = nat] by simp
  have g: "align_down32 e > 24" "align_down32 e - 24 \<ge> align32 b"
    using b(2) A by (simp_all add: word_less_nat_alt word_le_nat_alt unat_sub)
  have m: "unat ?msa = ?en - ?hp - 24"
  proof -
    have "align32 b \<le> align_down32 e" using b(2) A by (simp add: word_le_nat_alt)
    then have "unat (align_down32 e - align32 b) = ?en - ?hp" by (simp add: unat_sub A)
    moreover from this have "24 \<le> align_down32 e - align32 b" using b(2) by (simp add: word_le_nat_alt)
    ultimately show ?thesis by (simp add: unat_sub)
  qed
  define E where "E = ?en - ?hp - 12"
  have nE: "unat (?msa + 12) = E"
  proof -
    have "unat (w + 12) = unat w + 12" if "unat w + 12 < 2 ^ 32" for w :: u32 using that by (simp add: unat_word_ariths)
    from this [of ?msa] show ?thesis using m b(2) en unfolding E_def by linarith
  qed
  define m2 where "m2 = st32 (?hp + E + 8) (?msa + 12) (st32 (?hp + E + 4) (?msa + 12) (st16 (?hp + E + 2) 1 (st16 (?hp + E) HEAP_MAGIC
       (st16 (?hp + 2) 0 (st32 (?hp + 8) 0 (st32 (?hp + 4) (?msa + 12) (st16 ?hp HEAP_MAGIC (bytes h))))))))"
  have h': "h' = h\<lparr>bytes := m2, heap_ptr := ?hp, heap_end := ?hp + E, lfree := ?hp, mem_size_aligned := ?msa\<rparr>"
    unfolding h'_def rt_system_heap_init_def Let_def m2_def using g by (simp add: A nE [simplified])
  have E: "24 \<le> E" "4 dvd E" "?hp + E + 12 < 2 ^ 32" using b(2) en by (simp_all add: E_def dvd_diff_nat)
  have eo: "eo h' = E" using m b(2) by (simp add: h' eo_def E_def)
  have F: "nx h' 0 = E" "pv h' 0 = 0" "us h' E" "\<not> us h' 0" "mg h' 0" "mg h' E"
    using init_fields [of E h' ?hp "?msa + 12" "bytes h"] E(1) unfolding nE by (simp_all add: h' m2_def)
  have s: "heap_struct h' {0, E}" unfolding heap_struct_def eo
    using E F shape_start [of E "nx h'" "pv h'"] by (auto simp: h')
  have l: "live h' {0, E} = {}" using F(4) unfolding live_def eo by blast
  have "12 \<le> mem_size_aligned h'" using m b(2) by (simp add: h' word_le_nat_alt)
  then show "heap_rep h' {0, eo h'}" using s l F u unfolding eo heap_rep_def nofrag_def lf_ok_def by (simp add: h')
  show "lowest h' {0, eo h'}" unfolding eo lowest_def by (simp add: h')
  show "blocks h' {0, eo h'} = Map.empty" unfolding eo blocks_def by (simp add: l fun_eq_iff)
  show "heap_fault h' = heap_fault h" "heap_ptr h' = RT_ALIGN (unat b)" "lfree h' = heap_ptr h'" by (simp_all add: h')
  show "unat (mem_size_aligned h') = ?en - ?hp - 24" using m by (simp add: h')
  show "nx h' 0 = eo h'" "\<not> us h' 0" using F eo by simp_all
qed

section \<open>Contract\<close>

text \<open>The heap \<open>h\<close> implements the map \<open>M\<close> of blocks in use.\<close>

definition heap_holds :: "heap \<Rightarrow> block_map \<Rightarrow> bool" where
  "heap_holds h M \<longleftrightarrow> (\<exists>B. heap_rep h B \<and> M = blocks h B)"

definition heap_valid :: "u32 \<Rightarrow> bool" where
  "heap_valid n \<longleftrightarrow> n \<noteq> 0 \<and> n \<le> 0xfffffffc"

lemma heap_valid_bound: "heap_valid n \<Longrightarrow> n \<noteq> 0 \<and> unat n + 3 < 2 ^ 32"
  by (simp add: heap_valid_def word_le_nat_alt)

definition heap_store :: "nat \<Rightarrow> u8 \<Rightarrow> heap \<Rightarrow> heap" where
  "heap_store x v = upd_bytes (\<lambda>m. m(x := v))"

lemma holds_bounds:
  assumes "heap_holds h M" "M a = Some n"
  shows "heap_ptr h + 12 \<le> a \<and> a + n \<le> heap_end h \<and> 4 dvd a"
  using assms blocks_separate(2) heap_repD(1) unfolding heap_holds_def by blast

lemma malloc_holds:
  assumes h: "heap_holds h M" and n: "heap_valid n"
  obtains (none) "rt_malloc n h = Some (h, None)"
  | (some) h' a k where "rt_malloc n h = Some (h', Some a)" "heap_holds h' (M(a \<mapsto> k))" "unat n \<le> k" "M a = None"
      "same_data M h h'" "heap_fault h' = heap_fault h" "heap_ptr h' = heap_ptr h" "heap_end h' = heap_end h"
      "mem_size_aligned h' = mem_size_aligned h"
proof -
  obtain B where B: "heap_rep h B" "M = blocks h B" using h by (auto simp: heap_holds_def)
  have v: "n \<noteq> 0" "unat n \<le> unat (want n)" using heap_valid_bound [OF n] want_ge by auto
  show ?thesis
  proof (cases "align32 n \<le> mem_size_aligned h")
    case False
    then show ?thesis using none v(1) by (simp add: rt_malloc_def not_le)
  next
    case True
    show ?thesis
      using malloc_state [OF B(1) v(1) True]
    proof (elim disjE conjE exE)
      fix p h' B' k
      assume A: "rt_malloc n h = Some (h', Some (heap_ptr h + p + 12))" "heap_rep h' B'" "heap_fault h' = heap_fault h"
        "same_data (blocks h B) h h'" "blocks h B (heap_ptr h + p + 12) = None" "unat (want n) \<le> k"
        "blocks h' B' = (blocks h B)(heap_ptr h + p + 12 \<mapsto> k)" "heap_ptr h' = heap_ptr h" "heap_end h' = heap_end h"
        "mem_size_aligned h' = mem_size_aligned h"
      have "heap_holds h' (M(heap_ptr h + p + 12 \<mapsto> k))" using A(2,7) B(2) by (metis heap_holds_def)
      moreover have "unat n \<le> k" using A(6) v(2) by simp
      ultimately show ?thesis using some [OF A(1) _ _ _ _ A(3) A(8-10)] A(4,5) B(2) by blast
    qed (use none in simp)
  qed
qed

lemma free_holds:
  assumes h: "heap_holds h M" and a: "M a = Some n"
  shows "heap_holds (rt_free (Some a) h) (M(a := None))" "same_data (M(a := None)) h (rt_free (Some a) h)"
    "heap_fault (rt_free (Some a) h) = heap_fault h"
proof -
  obtain B where B: "heap_rep h B" "M = blocks h B" using h by (auto simp: heap_holds_def)
  obtain p where p: "p \<in> live h B" "a = heap_ptr h + p + 12" using a B(2) by (auto simp: blocks_Some)
  obtain B' where "heap_rep (rt_free (Some a) h) B'" "blocks (rt_free (Some a) h) B' = (blocks h B)(a := None)"
    "same_data (blocks (rt_free (Some a) h) B') h (rt_free (Some a) h)" "heap_fault (rt_free (Some a) h) = heap_fault h"
    using free_state [OF B(1) p(1)] unfolding p(2) by metis
  then show "heap_holds (rt_free (Some a) h) (M(a := None))" "same_data (M(a := None)) h (rt_free (Some a) h)"
    "heap_fault (rt_free (Some a) h) = heap_fault h" using B(2) by (auto simp: heap_holds_def)
qed

lemma write_holds:
  assumes h: "heap_holds h M" and w: "\<And>i. m i \<noteq> bytes h i \<Longrightarrow> \<exists>a n. M a = Some n \<and> a \<le> i \<and> i < a + n"
  shows "heap_holds (h\<lparr>bytes := m\<rparr>) M"
proof -
  obtain B where B: "heap_rep h B" "M = blocks h B" using h by (auto simp: heap_holds_def)
  have "m i = bytes h i" if "\<not> outside h B i" for i
  proof (rule ccontr)
    assume "m i \<noteq> bytes h i"
    then obtain a n where a: "M a = Some n" "a \<le> i" "i < a + n" using w by blast
    have "outside h B (a + (i - a))" by (rule block_outside [OF heap_repD(1) [OF B(1)]]) (use a B(2) in auto)
    then show False using that a(2) by simp
  qed
  then show ?thesis using write_rep [OF B(1), of m] B(2) by (auto simp: heap_holds_def)
qed

lemma store_holds:
  assumes "heap_holds h M" "M a = Some n" "i < n"
  shows "heap_holds (heap_store (a + i) v h) M" "bytes (heap_store (a + i) v h) = (bytes h)(a + i := v)"
proof -
  have "heap_holds (h\<lparr>bytes := (bytes h)(a + i := v)\<rparr>) M"
  proof (rule write_holds [OF assms(1)])
    fix x assume "((bytes h)(a + i := v)) x \<noteq> bytes h x"
    then have "x = a + i" by (auto split: if_splits)
    then show "\<exists>a n. M a = Some n \<and> a \<le> x \<and> x < a + n" using assms(2,3) by (intro exI [of _ a] exI [of _ n]) simp
  qed
  then show "heap_holds (heap_store (a + i) v h) M" "bytes (heap_store (a + i) v h) = (bytes h)(a + i := v)"
    by (simp_all add: heap_store_def upd_bytes_def)
qed

interpretation kheap: allocator heap_holds bytes heap_valid unat rt_malloc "\<lambda>a. rt_free (Some a)" heap_store
proof
  fix s M r s' a n i v
  show "heap_holds s M \<Longrightarrow> separate M" using blocks_separate(1) heap_repD(1) unfolding heap_holds_def by blast
  show "heap_holds s M \<Longrightarrow> heap_valid r \<Longrightarrow> rt_malloc r s \<noteq> None" by (rule malloc_holds [of s M r]) auto
  show "M a = None \<and> same_data M s s' \<and> (\<exists>n \<ge> unat r. heap_holds s' (M(a \<mapsto> n)))"
    if "heap_holds s M" "heap_valid r" "rt_malloc r s = Some (s', Some a)"
    using that(3) by (rule_tac malloc_holds [OF that(1,2)]) auto
  show "heap_holds s' M \<and> same_data M s s'"
    if "heap_holds s M" "heap_valid r" "rt_malloc r s = Some (s', None)"
    using that by (rule_tac malloc_holds [OF that(1,2)]) (auto simp: same_bytes_def)
  show "heap_holds (rt_free (Some a) s) (M(a := None)) \<and> same_data (M(a := None)) s (rt_free (Some a) s)"
    if "heap_holds s M" "M a = Some n" using free_holds [OF that] by simp
  show "heap_holds (heap_store (a + i) v s) M \<and> bytes (heap_store (a + i) v s) = (bytes s)(a + i := v)"
    if "heap_holds s M" "M a = Some n" "i < n" using store_holds [OF that] by simp
qed

section \<open>Resizing\<close>

text \<open>What a resize promises: \<open>r'\<close> is the block that replaces \<open>r\<close>.\<close>

definition moved :: "block_map \<Rightarrow> nat \<Rightarrow> nat \<Rightarrow> nat \<Rightarrow> heap \<Rightarrow> heap \<Rightarrow> nat \<Rightarrow> bool" where
  "moved M r n m h h' r' \<longleftrightarrow> (\<exists>k \<ge> m. heap_holds h' ((M(r := None))(r' \<mapsto> k))) \<and> (r' = r \<or> M r' = None) \<and>
     same_data (M(r := None)) h h' \<and> (\<forall>i < min n m. bytes h' (r' + i) = bytes h (r + i))"

lemma realloc_copy:
  assumes h: "heap_holds h M" and r: "M r = Some n" and m: "heap_valid w"
    and a: "rt_malloc w h = Some (h1, Some nm)" and c: "c \<le> n" "c \<le> unat w" "min n m \<le> c" "m \<le> unat w"
  defines "h2 \<equiv> upd_bytes (mem_copy nm r c) h1"
  shows "moved M r n m h (rt_free (Some r) h2) nm" "heap_fault (rt_free (Some r) h2) = heap_fault h"
proof -
  obtain k where k: "heap_holds h1 (M(nm \<mapsto> k))" "unat w \<le> k" "M nm = None" "same_data M h h1" "heap_fault h1 = heap_fault h"
    by (rule malloc_holds [OF h m]) (use a in auto)
  have ne: "nm \<noteq> r" using k(3) r by auto
  have b2: "bytes h2 x = (if nm \<le> x \<and> x < nm + c then bytes h1 (r + (x - nm)) else bytes h1 x)" for x
    by (simp add: h2_def mem_copy_def)
  have h2: "heap_holds h2 (M(nm \<mapsto> k))"
  proof -
    have "heap_holds (h1\<lparr>bytes := bytes h2\<rparr>) (M(nm \<mapsto> k))"
      by (rule write_holds [OF k(1)]) (use c(2) k(2) in \<open>auto simp: b2 intro!: exI [of _ nm] split: if_splits\<close>)
    then show ?thesis by (simp add: h2_def upd_bytes_def)
  qed
  have r2: "(M(nm \<mapsto> k)) r = Some n" using r ne by simp
  note F = free_holds [OF h2 r2]
  let ?h3 = "rt_free (Some r) h2"
  have e: "(M(nm \<mapsto> k))(r := None) = (M(r := None))(nm \<mapsto> k)" using ne by (rule fun_upd_twist)
  have sep: "separate (M(nm \<mapsto> k))" by (rule kheap.holds_separate [OF h2])
  have d: "bytes ?h3 (b + i) = bytes h (b + i)" if "M b = Some j" "i < j" "b \<noteq> r" for b j i
  proof -
    have bn: "b \<noteq> nm" using that(1) k(3) by auto
    have "bytes ?h3 (b + i) = bytes h2 (b + i)" using F(2) that bn by (simp add: same_bytes_def)
    also have "\<dots> = bytes h1 (b + i)"
    proof -
      have "\<not> (nm \<le> b + i \<and> b + i < nm + c)"
        using separateD [OF sep, of b j nm k i "b + i - nm"] that bn c(2) k(2) by auto
      then show ?thesis unfolding b2 by (rule if_not_P)
    qed
    also have "\<dots> = bytes h (b + i)" using k(4) that by (simp add: same_bytes_def)
    finally show ?thesis .
  qed
  have t: "bytes ?h3 (nm + i) = bytes h (r + i)" if "i < min n m" for i
  proof -
    have i: "i < c" "i < k" "i < n" using that c k(2) by auto
    have "bytes ?h3 (nm + i) = bytes h2 (nm + i)" using F(2) i ne by (simp add: same_bytes_def)
    also have "\<dots> = bytes h1 (r + i)" using i by (simp add: b2)
    also have "\<dots> = bytes h (r + i)" using k(4) r i by (simp add: same_bytes_def)
    finally show ?thesis .
  qed
  have "same_data (M(r := None)) h ?h3" using d by (auto simp: same_bytes_def split: if_splits)
  moreover have "heap_holds ?h3 ((M(r := None))(nm \<mapsto> k))" using F(1) unfolding e .
  moreover have "m \<le> k" using c(4) k(2) by simp
  ultimately show "moved M r n m h ?h3 nm" using k(3) t unfolding moved_def by blast
  show "heap_fault ?h3 = heap_fault h" using F(3) k(5) by (simp add: h2_def)
qed

lemma align_valid:
  assumes "heap_valid m"
  shows "unat m \<le> unat (align32 m)" "0 < unat m" "4 dvd unat (align32 m)" "align32 m \<noteq> 0"
proof -
  have 1: "unat (align32 m) = RT_ALIGN (unat m)" by (rule unat_align32) (use heap_valid_bound [OF assms] in blast)
  show 2: "unat m \<le> unat (align32 m)" unfolding 1 by (rule RT_ALIGN_ge)
  show 3: "0 < unat m" using heap_valid_bound [OF assms] by (simp add: unat_gt_0)
  show "4 dvd unat (align32 m)" by (rule align32_dvd)
  show "align32 m \<noteq> 0" using 2 3 by (metis le_zero_eq less_irrefl unat_0)
qed

lemma realloc_eq:
  assumes R: "heap_rep h B" and p: "p \<in> live h B" and m: "heap_valid m"
  defines "r \<equiv> heap_ptr h + p + 12" and "size1 \<equiv> word_of_nat (nx h p - (p + 12))"
  shows "unat size1 = nx h p - (p + 12)"
    "rt_realloc (Some r) m h = (if align32 m > mem_size_aligned h then Some (h, None)
      else if size1 = align32 m then Some (h, Some r)
      else if align32 m + 12 + 12 < size1
      then Some (let h1 = split_block (word_of_nat p) (word_of_nat p + 12 + align32 m) (h\<lparr>used_mem := used_mem h - (size1 - align32 m)\<rparr>)
                 in plug_holes (heap_ptr h1 + unat (word_of_nat p + 12 + align32 m)) h1, Some r)
      else Option.bind (rt_malloc (align32 m) h) (\<lambda>(h1, nm).
             case nm of None \<Rightarrow> Some (h1, None)
             | Some nmem \<Rightarrow> Some (rt_free (Some r)
                 (upd_bytes (mem_copy nmem r (unat (if size1 < align32 m then size1 else align32 m))) h1), Some nmem)))"
proof -
  note H = heap_structD [OF heap_repD(1) [OF R]]
  have pB: "p \<in> B" "p \<noteq> eo h" using p(1) by (auto simp: live_def)
  have np: "p + 12 < nx h p" "nx h p \<le> eo h"
    using heap_repD(6) [OF R p] shapeD(4) [OF H(4) shapeD(8) [OF H(4) pB]] by auto
  have "nx h p - (p + 12) < 2 ^ 32" using np H(2) by simp
  then show "unat size1 = nx h p - (p + 12)" by (simp only: size1_def unat_of_nat) simp
  have rng: "\<not> (r < heap_ptr h \<or> r \<ge> heap_end h)" using np H(1) by (simp add: r_def)
  have ptr: "word_of_int (int (r - 12) - int (heap_ptr h)) = (word_of_nat p :: u32)" by (simp add: r_def)
  have "next1 (bytes h) (r - 12) = word_of_nat (nx h p)" by (simp add: r_def nx_def)
  then have sz: "next1 (bytes h) (r - 12) - word_of_nat p - 12 = size1" unfolding size1_def using np by (simp add: of_nat_diff)
  show "rt_realloc (Some r) m h = (if align32 m > mem_size_aligned h then Some (h, None)
      else if size1 = align32 m then Some (h, Some r)
      else if align32 m + 12 + 12 < size1
      then Some (let h1 = split_block (word_of_nat p) (word_of_nat p + 12 + align32 m) (h\<lparr>used_mem := used_mem h - (size1 - align32 m)\<rparr>)
                 in plug_holes (heap_ptr h1 + unat (word_of_nat p + 12 + align32 m)) h1, Some r)
      else Option.bind (rt_malloc (align32 m) h) (\<lambda>(h1, nm).
             case nm of None \<Rightarrow> Some (h1, None)
             | Some nmem \<Rightarrow> Some (rt_free (Some r)
                 (upd_bytes (mem_copy nmem r (unat (if size1 < align32 m then size1 else align32 m))) h1), Some nmem)))"
    unfolding rt_realloc_def Let_def option.case ptr sz using align_valid(4) [OF m] rng by simp
qed

lemma align_room:
  assumes "heap_rep h B" "\<not> align32 m > mem_size_aligned h"
  shows "unat (align32 m + 12 + 12) = unat (align32 m) + 24"
  using assms(2) heap_structD(2) [OF heap_repD(1) [OF assms(1)]] by (simp add: unat_word_ariths word_less_nat_alt eo_def)

lemma realloc_holds:
  assumes h: "heap_holds h M" and r: "M r = Some n" and m: "heap_valid m"
  shows "\<exists>h' res. rt_realloc (Some r) m h = Some (h', res) \<and> heap_fault h' = heap_fault h \<and>
    (case res of None \<Rightarrow> h' = h | Some r' \<Rightarrow> moved M r n (unat m) h h' r')"
proof -
  obtain B where B: "heap_rep h B" "M = blocks h B" using h by (auto simp: heap_holds_def)
  obtain p where p: "p \<in> live h B" "r = heap_ptr h + p + 12" "n = nx h p - (p + 12)" using r B(2) by (auto simp: blocks_Some)
  note H = heap_structD [OF heap_repD(1) [OF B(1)]]
  let ?N = "align32 m"
  note N = align_valid [OF m]
  define size1 :: u32 where "size1 = word_of_nat n"
  have sz: "unat size1 = n" using realloc_eq(1) [OF B(1) p(1) m] by (simp add: size1_def p(3))
  note e = realloc_eq(2) [OF B(1) p(1) m, folded p(2,3) size1_def]
  consider (big) "?N > mem_size_aligned h" | (same) "\<not> ?N > mem_size_aligned h" "size1 = ?N"
    | (shrink) "\<not> ?N > mem_size_aligned h" "size1 \<noteq> ?N" "?N + 12 + 12 < size1"
    | (move) "\<not> ?N > mem_size_aligned h" "size1 \<noteq> ?N" "\<not> ?N + 12 + 12 < size1" by blast
  then show ?thesis
  proof cases
    case same
    have "moved M r n (unat m) h h r" unfolding moved_def
      using h r N(1) same(2) sz by (auto simp: same_bytes_def map_upd_triv intro!: exI [of _ n])
    then show ?thesis using same unfolding e by simp
  next
    case shrink
    have c: "p + 12 + unat ?N + 24 < nx h p"
      using shrink(3) align_room [OF B(1) shrink(1)] sz p(3) by (simp add: word_less_nat_alt)
    show ?thesis
    proof (rule shrink_state [OF B(1) p(1) N(3) _ c])
      let ?h1 = "split_block (word_of_nat p) (word_of_nat p + 12 + ?N)
        (h\<lparr>used_mem := used_mem h - (word_of_nat (nx h p - (p + 12)) - ?N)\<rparr>)"
      let ?h2 = "plug_holes (heap_ptr ?h1 + unat (word_of_nat p + 12 + ?N)) ?h1"
      show "0 < unat ?N" using N(1,2) by simp
      fix B'
      assume S: "heap_rep ?h2 B'" "heap_fault ?h2 = heap_fault h" "blocks ?h2 B' = (blocks h B)(heap_ptr h + p + 12 \<mapsto> unat ?N)"
        "same_data (blocks ?h2 B') h ?h2"
      have bl: "blocks ?h2 B' = (M(r := None))(r \<mapsto> unat ?N)" using S(3) B(2) p(2) by simp
      have "moved M r n (unat m) h ?h2 r"
        unfolding moved_def heap_holds_def using S(1,4) bl N(1)
        by (auto simp: same_bytes_def split: if_splits intro!: exI [of _ "unat ?N"] exI [of _ B'])
      then show ?thesis using shrink S(2) unfolding e Let_def size1_def p(3) by simp
    qed
  next
    case move
    have v: "heap_valid ?N" using N(4) move(1) H(2) by (simp add: heap_valid_def word_le_nat_alt word_less_nat_alt eo_def)
    show ?thesis
    proof (rule malloc_holds [OF h v])
      assume "rt_malloc ?N h = Some (h, None)"
      then show ?thesis using move unfolding e by simp
    next
      fix h1 nm k assume a: "rt_malloc ?N h = Some (h1, Some nm)"
      let ?c = "unat (if size1 < ?N then size1 else ?N)"
      have c: "?c \<le> n" "?c \<le> unat ?N" "min n (unat m) \<le> ?c" using sz N(1) by (auto simp: word_less_nat_alt)
      show ?thesis using realloc_copy [OF h r v a c N(1)] move a unfolding e by simp
    qed
  qed (simp add: e)
qed

text \<open>Shrinking a block in front of one that is in use merges nothing.\<close>

lemma realloc_leaves_gap:
  assumes R: "heap_rep h B" and p: "p \<in> live h B" and u: "us h (nx h p)" and l: "heap_ptr h + p < lfree h"
    and m: "heap_valid m" "p + 12 + unat (align32 m) + 24 < nx h p"
  defines "q \<equiv> p + 12 + unat (align32 m)"
  obtains h' where "rt_realloc (Some (heap_ptr h + p + 12)) m h = Some (h', Some (heap_ptr h + p + 12))"
    "lfree h' = lfree h" "heap_ptr h' + q < lfree h'" "\<not> us h' q" "nx h' q = nx h p"
proof -
  note s = heap_repD(1) [OF R] and H = heap_structD [OF heap_repD(1) [OF R]]
  note D = shapeD [OF H(4)]
  let ?N = "align32 m"
  define h0 where "h0 = h\<lparr>used_mem := used_mem h - (word_of_nat (nx h p - (p + 12)) - ?N)\<rparr>"
  define h1 where "h1 = split_block (word_of_nat p) (word_of_nat p + 12 + ?N) h0"
  have pB: "p \<in> B" "p \<noteq> eo h" "us h p" using p by (auto simp: live_def)
  have up: "unat (word_of_nat p :: u32) = p" by (rule heap_offset(1) [OF s pB(1)])
  have nxp: "nx h p \<in> B" "nx h p \<le> eo h" using D(8) [OF pB(1,2)] D(4) by auto
  have uq: "unat (word_of_nat p + 12 + ?N) = q" using m(2) nxp(2) H(2) up by (simp add: q_def unat_word_ariths)
  have s0: "heap_struct h0 B" "nx h0 = nx h" "us h0 = us h" "heap_ptr h0 = heap_ptr h" "lfree h0 = lfree h" "eo h0 = eo h"
    using s by (simp_all add: h0_def heap_struct_def)
  have c: "p \<noteq> eo h0" "p + 12 \<le> q" "q + 12 \<le> nx h0 p" "4 dvd q"
    using pB m(2) D(5) [OF pB(1)] align_valid(3) [OF m(1)] by (simp_all add: s0 q_def dvd_add)
  note S = split_block_struct [OF s0(1), of "word_of_nat p" "word_of_nat p + 12 + ?N", unfolded uq up, OF pB(1) c]
  have S': "heap_struct h1 (insert q B)" "nx h1 p = q" "nx h1 q = nx h p" "\<not> us h1 q" "us h1 p" "us h1 (nx h p)"
      "heap_ptr h1 = heap_ptr h" "lfree h1 = lfree h" "eo h1 = eo h" "q \<notin> B"
    using S(1) S(2) [of p] S(2) [of q] S(3) [of q] S(3) [of p] S(3) [of "nx h p"] S(5,7,8,11) pB u nxp c
    by (auto simp: h1_def s0 eo_def h0_def)
  have qE: "q \<noteq> eo h1" "q < lfree h - heap_ptr h"
  proof -
    show "q \<noteq> eo h1" using S'(10) D(2) by (auto simp: S'(9))
    obtain L where L: "L \<in> B" "lfree h = heap_ptr h + L" using heap_repD(3) [OF R] by (auto simp: lf_ok_def)
    then have "nx h p \<le> L" using D(10) [OF pB(1,2) L(1)] l by simp
    then show "q < lfree h - heap_ptr h" using L(2) m(2) by (simp add: q_def)
  qed
  have pv: "pv h1 q = p" using shapeD(11) [OF heap_structD(4) [OF S'(1)], of p] S'(2,9) pB(1,2) qE(1) by simp
  have f: "plug_forward (heap_ptr h1 + q) h1 = h1"
    unfolding plug_forward_eq [OF S'(1) _ qE(1), simplified] by (simp add: S')
  have b: "plug_backward (heap_ptr h1 + q) h1 = h1"
    unfolding plug_backward_eq [OF S'(1) _ qE(1), simplified] by (simp add: S' pv)
  have "heap_ptr h1 + q < heap_end h1" using heap_structD(1) [OF S'(1)] S'(3) m(2) nxp(2) by (simp add: S' q_def)
  then have ph: "plug_holes (heap_ptr h1 + q) h1 = h1"
    using S'(4) unfolding plug_holes_def by (simp add: heap_assert_def us_def f b)
  have le: "\<not> ?N > mem_size_aligned h" using m(2) nxp(2) by (simp add: word_less_nat_alt eo_def)
  have "word_of_nat (nx h p - (p + 12)) \<noteq> ?N" "?N + 12 + 12 < word_of_nat (nx h p - (p + 12))"
    using realloc_eq(1) [OF R p m(1)] align_room [OF R le] m(2) by (auto simp: word_less_nat_alt)
  then have "rt_realloc (Some (heap_ptr h + p + 12)) m h = Some (h1, Some (heap_ptr h + p + 12))"
    using le ph unfolding realloc_eq(2) [OF R p m(1)] Let_def h0_def [symmetric] h1_def [symmetric] uq by simp
  moreover have "heap_ptr h1 + q < lfree h1" using qE(2) S'(7,8) by simp
  ultimately show ?thesis using that S'(3,4,8) by blast
qed

section \<open>A sample heap\<close>

text \<open>Two blocks in use, of 100 and 12 bytes, and the rest free.\<close>

definition put_header :: "nat \<Rightarrow> u16 \<Rightarrow> u32 \<Rightarrow> u32 \<Rightarrow> memory \<Rightarrow> memory" where
  "put_header a u n p m = st32 (a + 8) p (st32 (a + 4) n (st16 (a + 2) u (st16 a HEAP_MAGIC m)))"

definition demo_heap :: heap where
  "demo_heap = \<lparr>bytes = put_header 0x20000000 1 112 0 (put_header 0x20000070 1 136 0 (put_header 0x20000088 0 1012 112
       (put_header 0x200003f4 1 1012 1012 (\<lambda>_. 0)))), heap_ptr = 0x20000000, heap_end = 0x200003f4, lfree = 0x20000088,
     mem_size_aligned = 1000, used_mem = 136, max_mem = 136, heap_fault = False\<rparr>"

lemma demo_fields:
  "heap_ptr demo_heap = 0x20000000" "heap_end demo_heap = 0x200003f4" "eo demo_heap = 1012" "lfree demo_heap = 0x20000088"
  "mem_size_aligned demo_heap = 1000" "used_mem demo_heap = 136" "heap_fault demo_heap = False"
  "nx demo_heap 0 = 112" "nx demo_heap 112 = 136" "nx demo_heap 136 = 1012" "pv demo_heap 0 = 0" "pv demo_heap 112 = 0"
  "pv demo_heap 136 = 112" "us demo_heap 0" "us demo_heap 112" "\<not> us demo_heap 136" "us demo_heap 1012"
  "mg demo_heap 0" "mg demo_heap 112" "mg demo_heap 136" "mg demo_heap 1012"
  by (simp_all add: demo_heap_def put_header_def eo_def nx_def pv_def us_def mg_def)

lemma demo_heap_rep: "heap_rep demo_heap {0, 112, 136, 1012}" "lowest demo_heap {0, 112, 136, 1012}"
  "live demo_heap {0, 112, 136, 1012} = {0, 112}"
proof -
  note F = demo_fields
  have "shape 1012 {0, 112, 136, 1012} (nx demo_heap) (pv demo_heap)"
    by (rule shapeI) (auto simp: F)
  then have s: "heap_struct demo_heap {0, 112, 136, 1012}" by (simp add: heap_struct_def F)
  show l: "live demo_heap {0, 112, 136, 1012} = {0, 112}" unfolding live_def using F(14-17) by (auto simp: F)
  have "nofrag demo_heap {0, 112, 136, 1012}" "lf_ok demo_heap {0, 112, 136, 1012}" by (simp_all add: nofrag_def lf_ok_def F)
  then show "heap_rep demo_heap {0, 112, 136, 1012}" using s by (simp add: heap_rep_def l F)
  show "lowest demo_heap {0, 112, 136, 1012}" by (simp add: lowest_def F)
qed

lemma demo_heap_holds:
  obtains M where "heap_holds demo_heap M" "M 0x2000000c = Some 100" "M 0x2000007c = Some 12"
proof
  show "heap_holds demo_heap (blocks demo_heap {0, 112, 136, 1012})" using demo_heap_rep(1) by (auto simp: heap_holds_def)
  show "blocks demo_heap {0, 112, 136, 1012} 0x2000000c = Some 100" "blocks demo_heap {0, 112, 136, 1012} 0x2000007c = Some 12"
    by (simp_all add: blocks_Some demo_heap_rep(3) demo_fields)
qed

section \<open>Properties\<close>

text \<open>C35: Allocation from the system heap.  A call for any size from 1 to \<open>2 ^ 32 - 4\<close> returns.  It returns null exactly if
  the size is larger than the whole heap or no block from \<^verbatim>\<open>lfree\<close> on is free, large enough and placed where the
  search still looks; the heap is then unchanged.  Otherwise it takes the first such block: the address is
  aligned, lies inside the heap and was not in use, and the block has at least the size asked for and overlaps no block in
  use; the contents of all blocks in use are unchanged and the heap stays well formed.\<close>

theorem rt_malloc_correct:
  assumes "heap_rep h B" "heap_valid n"
  shows "\<exists>h' res. rt_malloc n h = Some (h', res) \<and> heap_fault h' = heap_fault h \<and> same_data (blocks h B) h h' \<and>
    (res = None \<longleftrightarrow> mem_size_aligned h < align32 n \<or>
       (\<forall>p \<in> B. lfree h \<le> heap_ptr h + p \<longrightarrow> \<not> accepts h (unat (want n)) p)) \<and>
    (case res of
       None \<Rightarrow> h' = h
     | Some a \<Rightarrow> blocks h B a = None \<and> 4 dvd a \<and>
         (\<exists>p \<in> B. a = heap_ptr h + p + 12 \<and> lfree h \<le> heap_ptr h + p \<and> accepts h (unat (want n)) p \<and>
            (\<forall>x \<in> B. lfree h \<le> heap_ptr h + x \<longrightarrow> x < p \<longrightarrow> \<not> accepts h (unat (want n)) x)) \<and>
         (\<exists>k \<ge> unat n. a + k \<le> heap_end h \<and> heap_holds h' ((blocks h B)(a \<mapsto> k)) \<and> separate ((blocks h B)(a \<mapsto> k))))"
proof (cases "align32 n \<le> mem_size_aligned h")
  case False
  then have "rt_malloc n h = Some (h, None)" using assms(2) by (simp add: rt_malloc_def heap_valid_def not_le)
  moreover have "mem_size_aligned h < align32 n" using False by (simp add: not_le)
  ultimately show ?thesis by (simp add: same_bytes_def)
next
  case True
  have v: "n \<noteq> 0" "unat n \<le> unat (want n)" using heap_valid_bound [OF assms(2)] want_ge by auto
  show ?thesis
    using malloc_state [OF assms(1) v(1) True]
  proof (elim disjE conjE exE)
    fix p h' B' k
    assume A: "rt_malloc n h = Some (h', Some (heap_ptr h + p + 12))" "p \<in> B" "lfree h \<le> heap_ptr h + p"
      "accepts h (unat (want n)) p" "\<forall>x \<in> B. lfree h \<le> heap_ptr h + x \<longrightarrow> x < p \<longrightarrow> \<not> accepts h (unat (want n)) x"
      "heap_rep h' B'" "heap_fault h' = heap_fault h" "same_data (blocks h B) h h'" "heap_end h' = heap_end h"
      "blocks h B (heap_ptr h + p + 12) = None" "unat (want n) \<le> k" "blocks h' B' = (blocks h B)(heap_ptr h + p + 12 \<mapsto> k)"
    have H: "heap_holds h' ((blocks h B)(heap_ptr h + p + 12 \<mapsto> k))" using A(6,12) by (metis heap_holds_def)
    have c: "\<not> (mem_size_aligned h < align32 n \<or> (\<forall>p \<in> B. lfree h \<le> heap_ptr h + p \<longrightarrow> \<not> accepts h (unat (want n)) p))"
      using A(2-4) True not_less by blast
    have b: "heap_ptr h + p + 12 + k \<le> heap_end h" "4 dvd heap_ptr h + p + 12" "unat n \<le> k"
      using holds_bounds [OF H, of "heap_ptr h + p + 12" k] A(9,11) v(2) by simp_all
    show ?thesis
      by (rule exI [of _ h'], rule exI [of _ "Some (heap_ptr h + p + 12)"], unfold option.case)
        (use A(1-5,7,8,10) b c H kheap.holds_separate [OF H] in blast)
  qed (use True in \<open>simp add: same_bytes_def not_less\<close>)
qed

text \<open>The search passes the block of twelve bytes and takes the one behind it; a request for more than the heap is refused.\<close>

theorem rt_malloc_correct_witness:
  "(\<exists>h'. rt_malloc 20 demo_heap = Some (h', Some 0x20000094)) \<and> rt_malloc 2000 demo_heap = Some (demo_heap, None)"
proof
  have n: "align32 20 = 20" "want 20 = 20" "align32 2000 = 2000" "heap_valid 20" "heap_valid 2000"
    by (simp_all add: align32_def want_def heap_valid_def)
  have a: "accepts demo_heap 20 x \<longleftrightarrow> x = 136" if "x \<in> {0, 112, 136, 1012}" for x
    using that by (auto simp: accepts_def demo_fields)
  have f: "lfree demo_heap \<le> heap_ptr demo_heap + 136" "\<not> mem_size_aligned demo_heap < 20" "mem_size_aligned demo_heap < 2000"
    "heap_ptr demo_heap + 136 + 12 = 0x20000094"
    by (simp_all add: demo_fields)
  obtain h' res where r: "rt_malloc 20 demo_heap = Some (h', res)" "res \<noteq> None"
      "\<And>b. res = Some b \<Longrightarrow> \<exists>p \<in> {0, 112, 136, 1012}. b = heap_ptr demo_heap + p + 12 \<and> accepts demo_heap 20 p"
    using rt_malloc_correct [OF demo_heap_rep(1) n(4)] a f unfolding n(1,2) by fastforce
  then show "\<exists>h'. rt_malloc 20 demo_heap = Some (h', Some 0x20000094)" using a f(4) by fastforce
  obtain h' res where "rt_malloc 2000 demo_heap = Some (h', res)" "res = None" "res = None \<Longrightarrow> h' = demo_heap"
    using rt_malloc_correct [OF demo_heap_rep(1) n(5)] f(3) unfolding n(3) by fastforce
  then show "rt_malloc 2000 demo_heap = Some (demo_heap, None)" by simp
qed

text \<open>Allocation is first fit.  While \<^verbatim>\<open>lfree\<close> is the lowest free block, a request that fits the heap
  at all is refused only if no free block is accepted, and otherwise takes the accepted block of
  the lowest address; \<^verbatim>\<open>lfree\<close> is the lowest free block again afterwards.\<close>

theorem rt_malloc_first_fit:
  assumes R: "heap_rep h B" and l: "lowest h B" and n: "n \<noteq> 0" "align32 n \<le> mem_size_aligned h"
  shows "(rt_malloc n h = Some (h, None) \<and> (\<forall>x \<in> B. \<not> accepts h (unat (want n)) x)) \<or>
    (\<exists>p h' B'. rt_malloc n h = Some (h', Some (heap_ptr h + p + 12)) \<and> p \<in> B \<and> accepts h (unat (want n)) p \<and>
       (\<forall>x \<in> B. x < p \<longrightarrow> \<not> accepts h (unat (want n)) x) \<and> heap_rep h' B' \<and> lowest h' B')"
proof -
  have "lfree h \<le> heap_ptr h + x" if "x \<in> B" "accepts h k x" for x k using l that by (auto simp: lowest_def accepts_def)
  then show ?thesis using malloc_state [OF R n] l by blast
qed

theorem rt_malloc_first_fit_witness:
  "\<exists>h'. rt_malloc 20 demo_heap = Some (h', Some 0x20000094)"
proof -
  have n: "align32 20 = 20" "want 20 = 20" by (simp_all add: align32_def want_def)
  have a: "accepts demo_heap 20 x \<longleftrightarrow> x = 136" if "x \<in> {0, 112, 136, 1012}" for x
    using that by (auto simp: accepts_def demo_fields)
  have "\<not> (\<forall>x \<in> {0, 112, 136, 1012}. \<not> accepts demo_heap 20 x)" by (auto simp: accepts_def demo_fields)
  then obtain p h' where "rt_malloc 20 demo_heap = Some (h', Some (heap_ptr demo_heap + p + 12))" "p \<in> {0, 112, 136, 1012}"
      "accepts demo_heap 20 p"
    using rt_malloc_first_fit [OF demo_heap_rep(1,2), of 20, unfolded n] by (auto simp: demo_fields)
  then show ?thesis using a [of p] by (auto simp: demo_fields)
qed

text \<open>Release to the system heap.  Freeing a block in use takes exactly that block out of the map of
  blocks in use, leaves the contents of all others alone and keeps the heap well formed, with free
  neighbours merged.\<close>

theorem rt_free_correct:
  assumes "heap_holds h M" "M a = Some n"
  shows "heap_holds (rt_free (Some a) h) (M(a := None)) \<and> same_data (M(a := None)) h (rt_free (Some a) h) \<and>
    heap_fault (rt_free (Some a) h) = heap_fault h"
  using free_holds [OF assms] by simp

theorem rt_free_correct_witness:
  "\<exists>M. M 0x2000007c = Some 12 \<and> heap_holds (rt_free (Some 0x2000000c) demo_heap) M \<and> M 0x2000000c = None"
proof (rule demo_heap_holds)
  fix M assume M: "heap_holds demo_heap M" "M 0x2000000c = Some 100" "M 0x2000007c = Some 12"
  show ?thesis by (rule exI [of _ "M(0x2000000c := None)"]) (use rt_free_correct [OF M(1,2)] M(3) in simp)
qed

text \<open>Resizing.  \<^verbatim>\<open>rt_realloc\<close> of a block in use returns.  It either refuses and changes nothing, or
  the block is replaced by one of at least the new size, at the same or another free address, that
  holds the old bytes up to the smaller of both sizes; every other block is untouched.\<close>

theorem rt_realloc_correct:
  assumes "heap_holds h M" "M r = Some n" "heap_valid m"
  shows "\<exists>h' res. rt_realloc (Some r) m h = Some (h', res) \<and> heap_fault h' = heap_fault h \<and>
    (case res of None \<Rightarrow> h' = h | Some r' \<Rightarrow> moved M r n (unat m) h h' r')"
  by (rule realloc_holds [OF assms])

theorem rt_realloc_correct_witness:
  "\<exists>h' res. rt_realloc (Some 0x2000000c) 200 demo_heap = Some (h', res) \<and> \<not> heap_fault h'"
proof (rule demo_heap_holds)
  fix M assume M: "heap_holds demo_heap M" "M 0x2000000c = Some 100"
  have "heap_valid 200" by (simp add: heap_valid_def)
  then show ?thesis using rt_realloc_correct [OF M, of 200] by (auto simp: demo_fields)
qed

text \<open>C34: Integrity of the heap.  From the initialised heap on, for any history of allocations, releases of
  blocks that are held and stores inside held blocks, the blocks held never overlap, every byte of
  them has the value its owner stored last, and a further call of \<^verbatim>\<open>rt_malloc\<close> returns; if it returns a block,
  that block is held by nobody and overlaps no block that is held.  Sizes are from 1 to \<open>2 ^ 32 - 4\<close>, and
  \<^verbatim>\<open>rt_realloc\<close> is not part of the histories.\<close>

theorem rt_heap_integrity:
  assumes "unat b + 3 < 2 ^ 32" "RT_ALIGN (unat b) + 36 \<le> RT_ALIGN_DOWN (unat e)" "used_mem h = 0"
    and "alloc_run heap_valid unat rt_malloc (\<lambda>a. rt_free (Some a)) heap_store (rt_system_heap_init b e h) s A C"
  shows "separate A \<and> intact A C (bytes s) \<and>
    (\<forall>n. heap_valid n \<longrightarrow> rt_malloc n s \<noteq> None \<and> (\<forall>s' a. rt_malloc n s = Some (s', Some a) \<longrightarrow> unclaimed A a (unat n)))"
proof -
  note I = heap_init_state [OF assms(1-3)]
  have "heap_holds (rt_system_heap_init b e h) Map.empty" using I(1,3) unfolding heap_holds_def by metis
  from kheap.run_integrity [OF assms(4) this] show ?thesis by blast
qed

definition blank_heap :: heap where
  "blank_heap = \<lparr>bytes = (\<lambda>_. 0), heap_ptr = 0, heap_end = 0, lfree = 0, mem_size_aligned = 0, used_mem = 0, max_mem = 0,
     heap_fault = False\<rparr>"

lemma first_malloc: "\<exists>h'. rt_malloc 20 (rt_system_heap_init 0x20000000 0x20000400 blank_heap) = Some (h', Some 0x2000000c)"
proof -
  let ?h = "rt_system_heap_init 0x20000000 0x20000400 blank_heap"
  have b: "unat (0x20000000 :: u32) + 3 < 2 ^ 32" "RT_ALIGN (unat (0x20000000 :: u32)) + 36 \<le> RT_ALIGN_DOWN (unat (0x20000400 :: u32))"
    "used_mem blank_heap = 0" by (simp_all add: blank_heap_def RT_ALIGN_DOWN_def RT_ALIGN_def)
  note I = heap_init_state [OF b]
  have hp: "heap_ptr ?h = 0x20000000" "unat (mem_size_aligned ?h) = 1000" "eo ?h = 1012"
    using I(5,6) by (simp_all add: RT_ALIGN_DOWN_def RT_ALIGN_def eo_def)
  have n: "align32 20 = 20" "want 20 = 20" by (simp_all add: align32_def want_def)
  have us: "us ?h 1012" using heap_structD(5) [OF heap_repD(1) [OF I(1)]] by (simp add: hp)
  have a: "accepts ?h 20 x \<longleftrightarrow> x = 0" if "x \<in> {0, 1012}" for x
    using that I(7,8) us hp by (auto simp: accepts_def)
  have m: "(20 :: u32) \<noteq> 0" "align32 20 \<le> mem_size_aligned ?h" using hp(2) by (simp_all add: n word_le_nat_alt)
  show ?thesis using malloc_state [OF I(1) m, unfolded n hp(3)] a I(9) by (auto simp: hp)
qed

theorem rt_heap_integrity_witness:
  "\<exists>s A C. alloc_run heap_valid unat rt_malloc (\<lambda>a. rt_free (Some a)) heap_store
       (rt_system_heap_init 0x20000000 0x20000400 blank_heap) s A C \<and> A 0x2000000c = Some 20 \<and> bytes s 0x2000000c = 7"
proof -
  let ?h = "rt_system_heap_init 0x20000000 0x20000400 blank_heap"
  let ?run = "alloc_run heap_valid unat rt_malloc (\<lambda>a. rt_free (Some a)) heap_store ?h"
  have b: "unat (0x20000000 :: u32) + 3 < 2 ^ 32" "RT_ALIGN (unat (0x20000000 :: u32)) + 36 \<le> RT_ALIGN_DOWN (unat (0x20000400 :: u32))"
    "used_mem blank_heap = 0" by (simp_all add: blank_heap_def RT_ALIGN_DOWN_def RT_ALIGN_def)
  obtain h' where h': "rt_malloc 20 ?h = Some (h', Some 0x2000000c)" using first_malloc by blast
  have v: "heap_valid 20" by (simp add: heap_valid_def)
  define A :: block_map where "A = [0x2000000c \<mapsto> 20]"
  obtain C where "?run h' A C"
    using alloc_run.grant [where valid = heap_valid and need = unat and alloc = rt_malloc and release = "\<lambda>a. rt_free (Some a)"
        and store = heap_store and ?s0.0 = ?h, OF alloc_run.start v h'] by (simp add: A_def)
  then have r: "?run (heap_store (0x2000000c + 0) 7 h') A (C(0x2000000c + 0 \<mapsto> 7))"
    by (rule alloc_run.update [where n = 20]) (simp_all add: A_def)
  have "intact A (C(0x2000000c + 0 \<mapsto> 7)) (bytes (heap_store (0x2000000c + 0) 7 h'))"
    using rt_heap_integrity [OF b r] by blast
  then have "bytes (heap_store (0x2000000c + 0) 7 h') (0x2000000c + 0) = 7"
    by (rule intactD [where n = 20]) (simp_all add: A_def)
  then have "bytes (heap_store (0x2000000c + 0) 7 h') 0x2000000c = 7" by simp
  moreover have "A 0x2000000c = Some 20" by (simp add: A_def)
  ultimately show ?thesis using r by blast
qed

text \<open>A request whose size wraps to zero when it is aligned is served like one of 12 bytes instead of
  being refused.\<close>

theorem rt_malloc_size_wrap:
  assumes "n \<ge> 0xfffffffd" "12 \<le> mem_size_aligned h"
  shows "rt_malloc n h = rt_malloc 12 h"
proof -
  have "0xfffffffd \<le> unat n" using assms(1) by (simp add: word_le_nat_alt)
  moreover have "unat n < 0x100000000" using unsigned_less [of n, where ?'a = nat] by simp
  ultimately have "unat n \<in> {0xfffffffd, 0xfffffffe, 0xffffffff}" by auto
  then have "n \<in> {0xfffffffd, 0xfffffffe, 0xffffffff}" by (auto simp: word_unat_eq_iff)
  then have a: "align32 n = 0" "n \<noteq> 0" by (auto simp: align32_def)
  have b: "align32 12 = 12" by (simp add: align32_def)
  show ?thesis unfolding rt_malloc_def Let_def a(1) b using a(2) leD [OF assms(2)] by simp
qed

theorem rt_malloc_size_wrap_witness: "rt_malloc 0xffffffff demo_heap = rt_malloc 12 demo_heap"
  by (rule rt_malloc_size_wrap) (simp_all add: demo_fields)

text \<open>The remainder of a block that \<^verbatim>\<open>rt_realloc\<close> shrinks below \<^verbatim>\<open>lfree\<close>, in front of a block in use, is a
  free block that \<^verbatim>\<open>lfree\<close> passes by: the search of \<^verbatim>\<open>rt_malloc\<close> starts behind it.\<close>

theorem rt_realloc_skips_lowest:
  assumes R: "heap_rep h B" and p: "p \<in> live h B" and u: "us h (nx h p)" and l: "heap_ptr h + p < lfree h"
    and m: "heap_valid m" "p + 12 + unat (align32 m) + 24 < nx h p"
  defines "q \<equiv> p + 12 + unat (align32 m)"
  shows "\<exists>h'. rt_realloc (Some (heap_ptr h + p + 12)) m h = Some (h', Some (heap_ptr h + p + 12)) \<and>
    lfree h' = lfree h \<and> heap_ptr h' + q < lfree h' \<and> \<not> us h' q \<and> nx h' q = nx h p"
  by (rule realloc_leaves_gap [OF assms(1-6), folded q_def]) blast

theorem rt_realloc_skips_lowest_witness:
  "\<exists>h'. rt_realloc (Some 0x2000000c) 12 demo_heap = Some (h', Some 0x2000000c) \<and> heap_ptr h' + 24 < lfree h' \<and> \<not> us h' 24"
proof -
  have a: "align32 12 = 12" by (simp add: align32_def)
  have "0 \<in> live demo_heap {0, 112, 136, 1012}" "us demo_heap (nx demo_heap 0)" "heap_ptr demo_heap + 0 < lfree demo_heap"
    "heap_valid 12" "0 + 12 + unat (align32 12) + 24 < nx demo_heap 0"
    by (simp_all add: demo_heap_rep(3) demo_fields heap_valid_def a)
  from rt_realloc_skips_lowest [OF demo_heap_rep(1) this] show ?thesis by (auto simp: a demo_fields)
qed

end
