(* ===== verification/Mempool.thy ===== *)
theory Mempool
  imports Ipc Chain Kheap
begin

text \<open>
  Memory pools, \<^verbatim>\<open>rt-thread/src/mempool.c\<close>: blocks of one size, each with a pointer in front of it that
  links the free blocks and, while a block is in use, points to the pool.  The memory is the byte
  memory of \<open>Alloc\<close>; pointers are 32-bit words and 0 is the null pointer.  A call that may block is
  split at its \<^verbatim>\<open>rt_schedule()\<close>.
\<close>

section \<open>Definitions\<close>

text \<open>\<open>mp_self\<close> is the address of the structure itself.\<close>

record rt_mempool =
  mp_self :: u32
  start_address :: u32
  mp_size :: u32
  block_size :: u32
  block_list :: u32
  block_total_count :: u32
  block_free_count :: u32

abbreviation mp_list :: "nat \<Rightarrow> lid" where "mp_list a \<equiv> Suspend_Thread (Mempool_Obj a)"

definition is_mp :: "nat \<Rightarrow> kernel \<Rightarrow> bool" where
  "is_mp a s \<longleftrightarrow> rt_object_get_type (Mempool_Obj a) s = RT_Object_Class_MemPool"

text \<open>The loop that links the blocks, and the null pointer in the last one.\<close>

definition mp_thread :: "u32 \<Rightarrow> u32 \<Rightarrow> u32 \<Rightarrow> memory \<Rightarrow> memory" where
  "mp_thread block_ptr block_size1 count m =
     st32 (unat (block_ptr + (count - 1) * (block_size1 + 4))) 0
       (fold (\<lambda>offset m. st32 (unat (block_ptr + offset * (block_size1 + 4))) (block_ptr + (offset + 1) * (block_size1 + 4)) m)
         (map word_of_nat [0..<unat count]) m)"

definition rt_mp_init ::
    "nat \<Rightarrow> string \<Rightarrow> u32 \<Rightarrow> u32 \<Rightarrow> u32 \<Rightarrow> u32 \<Rightarrow> memory \<Rightarrow> kernel \<Rightarrow> kernel \<times> rt_mempool \<times> memory" where
  "rt_mp_init a name self start size1 block_size1 m s =
     (let s0 = rt_assert (size1 > 0 \<and> block_size1 > 0) (rt_assert (start \<noteq> 0) s);
          s1 = rt_object_init (Mempool_Obj a) RT_Object_Class_MemPool name s0;
          sz = align_down32 size1; bs = align32 block_size1; count = sz div (bs + 4)
      in (rt_ipc_object_init (mp_list a) s1,
          \<lparr>mp_self = self, start_address = start, mp_size = sz, block_size = bs, block_list = start,
            block_total_count = count, block_free_count = count\<rparr>,
          mp_thread start bs count m))"

definition rt_mp_detach :: "nat \<Rightarrow> nat \<Rightarrow> kernel \<Rightarrow> kernel option" where
  "rt_mp_detach fuel a s =
     (let s1 = rt_assert (is_mp a s) s;
          s2 = rt_assert (rt_object_is_systemobject (Mempool_Obj a) s1) s1
      in map_option (rt_object_detach (Mempool_Obj a)) (rt_ipc_list_resume_all fuel (mp_list a) s2))"

text \<open>The pool of a created object is a block of the heap \<open>h\<close>; \<open>mem\<close> is the memory of the object itself.\<close>

definition rt_mp_create ::
    "nat option \<Rightarrow> string \<Rightarrow> u32 \<Rightarrow> u32 \<Rightarrow> u32 \<Rightarrow> heap \<Rightarrow> kernel \<Rightarrow> (kernel \<times> (nat \<times> rt_mempool) option \<times> heap) option" where
  "rt_mp_create mem name self block_count block_size0 h s =
     (let s0 = rt_assert (block_count > 0 \<and> block_size0 > 0) s;
          (s1, r) = rt_object_allocate (map_option Mempool_Obj mem) RT_Object_Class_MemPool name s0 in
      case r of
        Some (Mempool_Obj a) \<Rightarrow>
          let bs = align32 block_size0 in
          Option.bind (rt_malloc ((bs + 4) * block_count) h) (\<lambda>(h1, p).
            case p of
              None \<Rightarrow> Some (rt_object_delete (Mempool_Obj a) s1, None, h1)
            | Some pool \<Rightarrow>
                let start = word_of_nat pool in
                Some (rt_ipc_object_init (mp_list a) s1,
                  Some (a, \<lparr>mp_self = self, start_address = start, mp_size = (bs + 4) * block_count, block_size = bs,
                    block_list = start, block_total_count = block_count, block_free_count = block_count\<rparr>),
                  upd_bytes (mp_thread start bs block_count) h1))
      | _ \<Rightarrow> Some (s1, None, h))"

definition rt_mp_delete :: "nat \<Rightarrow> nat \<Rightarrow> rt_mempool \<Rightarrow> heap \<Rightarrow> kernel \<Rightarrow> (kernel \<times> heap) option" where
  "rt_mp_delete fuel a mp h s =
     (let s1 = rt_assert (is_mp a s) s;
          s2 = rt_assert (\<not> rt_object_is_systemobject (Mempool_Obj a) s1) s1
      in map_option (\<lambda>s3. (rt_object_delete (Mempool_Obj a) s3, rt_free (Some (unat (start_address mp))) h))
           (rt_ipc_list_resume_all fuel (mp_list a) s2))"

text \<open>Taking the first free block.\<close>

definition mp_take :: "rt_mempool \<Rightarrow> memory \<Rightarrow> rt_mempool \<times> memory \<times> u32" where
  "mp_take mp m =
     (let block_ptr = block_list mp
      in (mp\<lparr>block_free_count := block_free_count mp - 1, block_list := ld32 m (unat block_ptr)\<rparr>,
          st32 (unat block_ptr) (mp_self mp) m, block_ptr + 4))"

text \<open>The waiting loop of \<^verbatim>\<open>rt_mp_alloc\<close>; the last result is the block.\<close>

definition mp_alloc_loop ::
    "nat \<Rightarrow> int \<Rightarrow> tid option \<Rightarrow> rt_mempool \<Rightarrow> memory \<Rightarrow> kernel \<Rightarrow> kernel \<times> rt_mempool \<times> memory \<times> outcome \<times> u32" where
  "mp_alloc_loop a time self mp m s =
     (if block_free_count mp = 0
      then if time = 0 then (give_up self (- RT_ETIMEOUT) s, mp, m, Return (- RT_ETIMEOUT), 0)
           else (case self of
             None \<Rightarrow> (s\<lparr>fault := True\<rparr>, mp, m, Return (- RT_ERROR), 0)
           | Some thread \<Rightarrow>
               let s1 = fst (rt_thread_suspend thread (upd_thr thread (\<lambda>x. x\<lparr>error := RT_EOK\<rparr>) s));
                   s2 = thread_insert_after (mp_list a) thread s1;
                   s3 = (if time > 0 then arm_timer thread (word_of_int time) s2 else s2)
               in (rt_schedule s3, mp, m, Blocked thread, 0))
      else let (mp1, m1, b) = mp_take mp m in (rt_assert (block_list mp \<noteq> 0) s, mp1, m1, Return RT_EOK, b))"

definition rt_mp_alloc_call ::
    "nat \<Rightarrow> int \<Rightarrow> rt_mempool \<Rightarrow> memory \<Rightarrow> kernel \<Rightarrow> kernel \<times> rt_mempool \<times> memory \<times> outcome \<times> u32" where
  "rt_mp_alloc_call a time mp m s = mp_alloc_loop a time (rt_thread_self s) mp m s"

definition rt_mp_alloc_return ::
    "nat \<Rightarrow> int \<Rightarrow> u32 \<Rightarrow> tid \<Rightarrow> rt_mempool \<Rightarrow> memory \<Rightarrow> kernel \<Rightarrow> kernel \<times> rt_mempool \<times> memory \<times> outcome \<times> u32" where
  "rt_mp_alloc_return a time before_sleep thread mp m s =
     (if error (thr s thread) \<noteq> RT_EOK then (s, mp, m, Return (error (thr s thread)), 0)
      else mp_alloc_loop a (wait_left time before_sleep (rt_tick s)) (Some thread) mp m s)"

definition mp_wake :: "nat \<Rightarrow> kernel \<Rightarrow> kernel" where
  "mp_wake a s =
     (case tlists s (mp_list a) of
        [] \<Rightarrow> s
      | thread # _ \<Rightarrow> rt_schedule (fst (rt_thread_resume thread (upd_thr thread (\<lambda>x. x\<lparr>error := RT_EOK\<rparr>) s))))"

text \<open>\<open>mp\<close> is the pool the block belongs to; a block that does not point to it is a fault.\<close>

definition rt_mp_free :: "nat \<Rightarrow> u32 \<Rightarrow> rt_mempool \<Rightarrow> memory \<Rightarrow> kernel \<Rightarrow> kernel \<times> rt_mempool \<times> memory" where
  "rt_mp_free a block mp m s =
     (if block = 0 then (s, mp, m)
      else
        let block_ptr = block - 4;
            s0 = rt_assert (ld32 m (unat block_ptr) = mp_self mp) s
        in (mp_wake a s0, mp\<lparr>block_free_count := block_free_count mp + 1, block_list := block_ptr\<rparr>,
            st32 (unat block_ptr) (block_list mp) m))"

section \<open>The pool\<close>

text \<open>A pointer as an address.\<close>

definition ptr :: "u32 \<Rightarrow> nat option" where
  "ptr w = (if w = 0 then None else Some (unat w))"

definition nxt :: "memory \<Rightarrow> nat \<Rightarrow> nat option" where
  "nxt m x = ptr (ld32 m x)"

definition stride :: "rt_mempool \<Rightarrow> nat" where
  "stride mp = unat (block_size mp) + 4"

definition mp_blocks :: "rt_mempool \<Rightarrow> nat set" where
  "mp_blocks mp = (\<lambda>i. unat (start_address mp) + i * stride mp) ` {..<unat (block_total_count mp)}"

text \<open>\<open>fr\<close> are the free blocks, in the order of the list; all others point to the pool.\<close>

definition mp_rep :: "rt_mempool \<Rightarrow> memory \<Rightarrow> nat list \<Rightarrow> bool" where
  "mp_rep mp m fr \<longleftrightarrow> start_address mp \<noteq> 0 \<and>
     unat (start_address mp) + unat (block_total_count mp) * stride mp < 2 ^ 32 \<and>
     chain (nxt m) (ptr (block_list mp)) fr \<and> distinct fr \<and> set fr \<subseteq> mp_blocks mp \<and>
     unat (block_free_count mp) = length fr \<and> (\<forall>x \<in> mp_blocks mp - set fr. ld32 m x = mp_self mp)"

lemma mp_repD:
  assumes "mp_rep mp m fr"
  shows "start_address mp \<noteq> 0" "unat (start_address mp) + unat (block_total_count mp) * stride mp < 2 ^ 32"
    "chain (nxt m) (ptr (block_list mp)) fr" "distinct fr" "set fr \<subseteq> mp_blocks mp" "unat (block_free_count mp) = length fr"
    "\<lbrakk>x \<in> mp_blocks mp; x \<notin> set fr\<rbrakk> \<Longrightarrow> ld32 m x = mp_self mp"
  using assms by (auto simp: mp_rep_def)

lemma mp_blocks_bounds:
  assumes r: "mp_rep mp m fr" and x: "x \<in> mp_blocks mp"
  shows "0 < x" "x + stride mp < 2 ^ 32" "unat (start_address mp) \<le> x"
    "x + stride mp \<le> unat (start_address mp) + unat (block_total_count mp) * stride mp"
    "unat (word_of_nat x :: u32) = x" "ptr (word_of_nat x) = Some x"
proof -
  obtain i where i: "i < unat (block_total_count mp)" "x = unat (start_address mp) + i * stride mp"
    using x by (auto simp: mp_blocks_def)
  have "Suc i * stride mp \<le> unat (block_total_count mp) * stride mp" using i(1) by (intro mult_le_mono1) simp
  then show b: "x + stride mp \<le> unat (start_address mp) + unat (block_total_count mp) * stride mp" using i(2) by simp
  then show c: "x + stride mp < 2 ^ 32" using mp_repD(2) [OF r] by linarith
  show "unat (start_address mp) \<le> x" using i(2) by simp
  moreover have "0 < unat (start_address mp)" using mp_repD(1) [OF r] by (simp add: unat_gt_0)
  ultimately show p: "0 < x" by linarith
  have "x < 2 ^ 32" using c by linarith
  then show u: "unat (word_of_nat x :: u32) = x" by (simp add: unat_of_nat)
  then show "ptr (word_of_nat x) = Some x" using p unfolding ptr_def by (metis unat_0 less_irrefl)
qed

lemma mp_blocks_apart:
  assumes "x \<in> mp_blocks mp" "y \<in> mp_blocks mp" "x \<noteq> y"
  shows "x + stride mp \<le> y \<or> y + stride mp \<le> x"
proof -
  obtain i j where i: "x = unat (start_address mp) + i * stride mp" "y = unat (start_address mp) + j * stride mp"
    using assms(1,2) by (auto simp: mp_blocks_def)
  have "Suc i \<le> j \<or> Suc j \<le> i" using assms(3) i by (cases i j rule: linorder_cases) auto
  then have "Suc i * stride mp \<le> j * stride mp \<or> Suc j * stride mp \<le> i * stride mp" using mult_le_mono1 by blast
  then show ?thesis using i by auto
qed

lemma mp_stride: "4 \<le> stride mp"
  by (simp add: stride_def)

lemma header_apart:
  assumes "x \<in> mp_blocks mp" "y \<in> mp_blocks mp" "x \<noteq> y"
  shows "x + 4 \<le> y \<or> y + 4 \<le> x"
  using mp_blocks_apart [OF assms] mp_stride [of mp] by linarith

lemma chain_st32:
  assumes "chain (nxt m) p xs" "x \<notin> set xs" "set xs \<subseteq> mp_blocks mp" "x \<in> mp_blocks mp"
  shows "chain (nxt (st32 x v m)) p xs"
proof -
  have "nxt m y = nxt (st32 x v m) y" if "y \<in> set xs" for y
  proof -
    have "x + 4 \<le> y \<or> y + 4 \<le> x" by (rule header_apart [of x mp y]) (use assms that in auto)
    then show ?thesis by (simp add: nxt_def)
  qed
  then show ?thesis using assms(1) chain_cong [of xs "nxt m" "nxt (st32 x v m)" p] by simp
qed

text \<open>Taking the first free block.\<close>

lemma mp_take_rep:
  assumes r: "mp_rep mp m (x # fr)"
  obtains mp' where "mp_take mp m = (mp', st32 x (mp_self mp) m, word_of_nat x + 4)"
    "mp_rep mp' (st32 x (mp_self mp) m) fr" "mp_blocks mp' = mp_blocks mp" "block_size mp' = block_size mp"
    "mp_self mp' = mp_self mp" "block_list mp \<noteq> 0" "unat (word_of_nat x + 4 :: u32) = x + 4"
proof -
  note R = mp_repD [OF r]
  have x: "x \<in> mp_blocks mp" using R(5) by simp
  note X = mp_blocks_bounds [OF r x]
  have bl: "block_list mp \<noteq> 0" "unat (block_list mp) = x" using R(3) by (auto simp: ptr_def split: if_splits)
  then have e: "block_list mp = word_of_nat x" by auto
  let ?mp = "mp\<lparr>block_free_count := block_free_count mp - 1, block_list := ld32 m x\<rparr>"
  have b: "mp_blocks ?mp = mp_blocks mp" "stride ?mp = stride mp" by (simp_all add: mp_blocks_def stride_def)
  have c: "chain (nxt m) (ptr (ld32 m x)) fr" using R(3) bl by (auto simp: nxt_def ptr_def)
  have "chain (nxt (st32 x (mp_self mp) m)) (ptr (ld32 m x)) fr"
    by (rule chain_st32 [OF c _ _ x]) (use R(4,5) in auto)
  moreover have "unat (block_free_count mp - 1) = length fr"
    using R(6) unat_minus_one [of "block_free_count mp"] by (cases "block_free_count mp = 0") auto
  moreover have "ld32 (st32 x (mp_self mp) m) y = mp_self mp" if "y \<in> mp_blocks mp" "y \<notin> set fr" for y
    using that R(7) [of y] header_apart [OF x that(1)] by (cases "y = x") auto
  ultimately have "mp_rep ?mp (st32 x (mp_self mp) m) fr" using R unfolding mp_rep_def b by simp
  moreover have "unat (word_of_nat x + 4 :: u32) = x + 4" using X(2,5) mp_stride [of mp] by (simp add: unat_word_ariths)
  ultimately show ?thesis using that [of ?mp] bl b(1) by (simp add: mp_take_def Let_def e X(5))
qed

text \<open>Putting a block back in front.\<close>

lemma mp_put_rep:
  assumes r: "mp_rep mp m fr" and x: "x \<in> mp_blocks mp" "x \<notin> set fr"
  defines "mp' \<equiv> mp\<lparr>block_free_count := block_free_count mp + 1, block_list := word_of_nat x\<rparr>"
  shows "mp_rep mp' (st32 x (block_list mp) m) (x # fr)" "mp_blocks mp' = mp_blocks mp" "stride mp' = stride mp"
proof -
  note R = mp_repD [OF r] and X = mp_blocks_bounds [OF r x(1)]
  show b: "mp_blocks mp' = mp_blocks mp" "stride mp' = stride mp" by (simp_all add: mp'_def mp_blocks_def stride_def)
  have "chain (nxt (st32 x (block_list mp) m)) (ptr (block_list mp)) fr" by (rule chain_st32 [OF R(3) x(2) R(5) x(1)])
  then have c: "chain (nxt (st32 x (block_list mp) m)) (ptr (word_of_nat x)) (x # fr)" by (simp add: X(6) nxt_def)
  have "card (set (x # fr)) \<le> card (mp_blocks mp)" using R(5) x by (intro card_mono) (auto simp: mp_blocks_def)
  also have "\<dots> \<le> unat (block_total_count mp)" unfolding mp_blocks_def by (rule order_trans [OF card_image_le]) simp_all
  finally have "length (x # fr) \<le> unat (block_total_count mp)" using R(4) x(2) by (simp add: distinct_card)
  also have "\<dots> < 2 ^ 32" using unsigned_less [of "block_total_count mp", where ?'a = nat] by simp
  finally have "unat (block_free_count mp + 1) = length (x # fr)" using R(6) by (simp add: unat_word_ariths)
  moreover have "ld32 (st32 x (block_list mp) m) y = mp_self mp" if "y \<in> mp_blocks mp" "y \<notin> set (x # fr)" for y
    using that R(7) [of y] header_apart [OF x(1) that(1)] by auto
  ultimately show "mp_rep mp' (st32 x (block_list mp) m) (x # fr)"
    using R c x unfolding mp_rep_def b by (simp add: mp'_def)
qed

text \<open>Linking the blocks of a new pool.\<close>

lemma mp_thread_rep:
  fixes start bs count :: u32
  assumes s: "start \<noteq> 0" "unat start + unat count * (unat bs + 4) < 2 ^ 32" "count \<noteq> 0"
    and mp: "start_address mp = start" "block_size mp = bs" "block_total_count mp = count" "block_free_count mp = count"
      "block_list mp = start"
  shows "mp_rep mp (mp_thread start bs count m) (map (\<lambda>i. unat start + i * stride mp) [0..<unat count])"
proof -
  define A where "A i = unat start + i * stride mp" for i
  define n where "n = unat count"
  have st: "stride mp = unat bs + 4" using mp by (simp add: stride_def)
  have n0: "0 < n" using s(3) by (simp add: n_def unat_gt_0)
  have lt: "A i < 2 ^ 32" if "i \<le> n" for i
  proof -
    have "i * stride mp \<le> n * stride mp" using that by (rule mult_le_mono1)
    then show ?thesis using s(2) unfolding A_def n_def st by linarith
  qed
  have w: "start + word_of_nat i * (bs + 4) = (word_of_nat (A i) :: u32)" for i by (simp add: A_def st)
  have u: "unat (word_of_nat (A i) :: u32) = A i" if "i \<le> n" for i using lt [OF that] by (simp add: unat_of_nat)
  have ap: "A i + 4 \<le> A j" if "i < j" for i j
  proof -
    have "Suc i * stride mp \<le> j * stride mp" using that by (intro mult_le_mono1) simp
    then show ?thesis by (simp add: A_def st)
  qed
  let ?f = "\<lambda>offset m. st32 (unat (start + offset * (bs + 4))) (start + (offset + 1) * (bs + 4)) m"
  have fl: "ld32 (fold ?f (map word_of_nat [0..<k]) m) (A i) = word_of_nat (A (Suc i))" if "i < k" "k \<le> n" for i k
    using that
  proof (induction k)
    case (Suc k)
    have e: "?f (word_of_nat k) m' = st32 (A k) (word_of_nat (A (Suc k))) m'" for m'
      using w [of k] w [of "Suc k"] u [of k] Suc.prems(2) by (simp add: add.commute)
    show ?case
    proof (cases "i = k")
      case False
      then show ?thesis using Suc ap [of i k] by (simp add: e)
    qed (simp add: e)
  qed simp
  let ?m = "mp_thread start bs count m"
  have m: "?m = st32 (A (n - 1)) 0 (fold ?f (map word_of_nat [0..<n]) m)"
  proof -
    have "count - 1 = word_of_nat (n - 1)" using n0 by (simp add: n_def of_nat_diff)
    then have "unat (start + (count - 1) * (bs + 4)) = A (n - 1)" using w [of "n - 1"] u [of "n - 1"] by simp
    then show ?thesis by (simp add: mp_thread_def n_def)
  qed
  have ld: "ld32 ?m (A i) = (if Suc i = n then 0 else word_of_nat (A (Suc i)))" if "i < n" for i
    using that fl [of i n] ap [of i "n - 1"] unfolding m by (cases "Suc i = n") auto
  have pA: "ptr (word_of_nat (A i)) = Some (A i)" if "i \<le> n" for i
    using u [OF that] s(1) unfolding ptr_def A_def by (metis add_is_0 unat_0 unat_eq_0)
  have ch: "chain (nxt ?m) (Some (A i)) (map A [i..<n])" if "i < n" for i
    using that
  proof (induction "n - i" arbitrary: i)
    case (Suc k)
    have e: "[i..<n] = i # [Suc i..<n]" using Suc.prems by (rule upt_conv_Cons)
    show ?case
    proof (cases "Suc i = n")
      case True
      then show ?thesis using ld [OF Suc.prems] unfolding e by (simp add: nxt_def ptr_def)
    next
      case False
      have "chain (nxt ?m) (Some (A (Suc i))) (map A [Suc i..<n])" by (rule Suc.hyps(1)) (use Suc False in auto)
      then show ?thesis using ld [OF Suc.prems] pA [of "Suc i"] False Suc.prems unfolding e by (simp add: nxt_def)
    qed
  qed simp
  have "inj_on A {0..<n}" by (rule inj_onI) (simp add: A_def st)
  then have d: "distinct (map A [0..<n])" by (simp add: distinct_map)
  have bl: "mp_blocks mp = set (map A [0..<n])" by (auto simp: mp_blocks_def A_def n_def mp)
  have "ptr (block_list mp) = Some (A 0)" using s(1) by (simp add: mp ptr_def A_def)
  then have "mp_rep mp ?m (map A [0..<n])"
    using s d bl ch [OF n0] unfolding mp_rep_def by (simp add: mp st n_def)
  then show ?thesis by (simp add: A_def [abs_def] n_def)
qed

lemma mp_thread_frame:
  fixes start bs count :: u32
  assumes s: "unat start + unat count * (unat bs + 4) < 2 ^ 32" "count \<noteq> 0"
    and i: "i < unat start \<or> unat start + unat count * (unat bs + 4) \<le> i"
  shows "mp_thread start bs count m i = m i"
proof -
  define A where "A j = unat (start + word_of_nat j * (bs + 4))" for j
  have a: "i < A j \<or> A j + 4 \<le> i" if "j < unat count" for j
  proof -
    have "Suc j * (unat bs + 4) \<le> unat count * (unat bs + 4)" using that by (intro mult_le_mono1) simp
    then have lt: "unat start + j * (unat bs + 4) + 4 \<le> unat start + unat count * (unat bs + 4)" by simp
    have w: "start + word_of_nat j * (bs + 4) = word_of_nat (unat start + j * (unat bs + 4))" by simp
    have "unat start + j * (unat bs + 4) < 2 ^ 32" using s(1) lt by linarith
    then have "A j = unat start + j * (unat bs + 4)" unfolding A_def w by (simp only: unat_of_nat) simp
    then show ?thesis using i lt by linarith
  qed
  have "fold (\<lambda>offset m. st32 (unat (start + offset * (bs + 4))) (start + (offset + 1) * (bs + 4)) m)
      (map word_of_nat [0..<k]) m i = m i" if "k \<le> unat count" for k
    using that
  proof (induction k)
    case (Suc k)
    then show ?case using a [of k] unfolding A_def by simp
  qed simp
  moreover have "unat (start + (count - 1) * (bs + 4)) = A (unat count - 1)"
  proof -
    have "count - 1 = word_of_nat (unat count - 1)" using s(2) by (simp add: of_nat_diff Suc_le_eq unat_gt_0)
    then show ?thesis by (simp add: A_def)
  qed
  ultimately show ?thesis using a [of "unat count - 1"] s(2) by (simp add: mp_thread_def unat_gt_0)
qed

section \<open>Pools on the heap\<close>

lemma mp_blocks_inside:
  assumes "x \<in> mp_blocks mp"
  shows "unat (start_address mp) \<le> x \<and> x + stride mp \<le> unat (start_address mp) + unat (block_total_count mp) * stride mp"
proof -
  obtain i where i: "i < unat (block_total_count mp)" "x = unat (start_address mp) + i * stride mp"
    using assms by (auto simp: mp_blocks_def)
  have "Suc i * stride mp \<le> unat (block_total_count mp) * stride mp" using i(1) by (intro mult_le_mono1) simp
  then show ?thesis using i(2) by simp
qed

text \<open>Linking a pool inside one block of the heap is a write to that block.\<close>

lemma mp_thread_holds:
  fixes bs count :: u32
  assumes h: "heap_holds h M" and p: "M p = Some k" "unat count * (unat bs + 4) \<le> k" "count \<noteq> 0"
  defines "h' \<equiv> upd_bytes (mp_thread (word_of_nat p) bs count) h"
  shows "heap_holds h' M" "unat (word_of_nat p :: u32) = p" "p \<noteq> 0" "p + unat count * (unat bs + 4) < 2 ^ 32"
    "same_bytes (M(p := None)) (bytes h) (bytes h')"
proof -
  obtain B where B: "heap_rep h B" "M = blocks h B" using h by (auto simp: heap_holds_def)
  have b: "heap_ptr h + 12 \<le> p" "p + k \<le> heap_end h" using holds_bounds [OF h p(1)] by auto
  then have lt: "p + unat count * (unat bs + 4) < 2 ^ 32"
    using heap_structD(1,2) [OF heap_repD(1) [OF B(1)]] p(2) by linarith
  then show u: "unat (word_of_nat p :: u32) = p" by (simp add: unat_of_nat)
  show "p \<noteq> 0" "p + unat count * (unat bs + 4) < 2 ^ 32" using b lt by simp_all
  have fr: "bytes h' i = bytes h i" if "i < p \<or> p + k \<le> i" for i
    using mp_thread_frame [of "word_of_nat p" count bs i "bytes h"] lt u p(2,3) that by (auto simp: h'_def upd_bytes_def)
  have "heap_holds (h\<lparr>bytes := bytes h'\<rparr>) M" by (rule write_holds [OF h]) (use fr p(1) in \<open>meson not_le_imp_less\<close>)
  then show "heap_holds h' M" by (simp add: h'_def upd_bytes_def)
  have "bytes h' (a + i) = bytes h (a + i)" if "(M(p := None)) a = Some n" "i < n" for a n i
  proof (rule fr)
    have "separate M" by (rule kheap.holds_separate [OF h])
    moreover have "a \<noteq> p" "M a = Some n" using that(1) by (auto split: if_splits)
    ultimately have "a + n \<le> p \<or> p + k \<le> a" using p(1) unfolding separate_def by blast
    then show "a + i < p \<or> p + k \<le> a + i" using that(2) by linarith
  qed
  then show "same_bytes (M(p := None)) (bytes h) (bytes h')" by (auto simp: same_bytes_def)
qed

section \<open>Waiting for a block\<close>

definition mpool_ok :: "nat \<Rightarrow> kernel \<Rightarrow> bool" where
  "mpool_ok a s \<longleftrightarrow> kinv s \<and> rt_current_thread s \<noteq> None \<and> (\<forall>t \<in> set (tlists s (mp_list a)). registered t s)"

lemma error_ok:
  assumes "mpool_ok a s"
  shows "mpool_ok a (upd_thr t (\<lambda>x. x\<lparr>error := e\<rparr>) s)"
  using assms upd_error_kinv [of s t e] registered_same [of "upd_thr t (\<lambda>x. x\<lparr>error := e\<rparr>) s" s]
  by (simp add: mpool_ok_def)

lemma mp_blocks_caller:
  assumes o: "mpool_ok a s" and st: "tstat s t = RT_THREAD_RUNNING" and r: "registered t s" and b: "time < 0x7fffffff"
    and f: "block_free_count mp = 0" "time \<noteq> 0"
  obtains s' where "mp_alloc_loop a time (Some t) mp m s = (s', mp, m, Blocked t, 0)" "mpool_ok a s'" "fault s' = fault s"
    "blocked_in (mp_list a) time s t s'" "tlists s' (mp_list a) = t # tlists s (mp_list a)"
proof -
  let ?s1 = "upd_thr t (\<lambda>x. x\<lparr>error := RT_EOK\<rparr>) s"
  let ?js = "t # tlists s (mp_list a)"
  let ?s' = "rt_schedule (wait_as (mp_list a) ?js t time ?s1)"
  have k: "kinv ?s1" using error_ok [OF o] by (simp add: mpool_ok_def)
  have rg: "registered u ?s1 = registered u s" for u using registered_same [of ?s1 s u] by simp
  have st1: "tstat ?s1 t = RT_THREAD_RUNNING" "registered t ?s1" using st r rg by simp_all
  have js: "set ?js = insert t (set (tlists ?s1 (mp_list a)))" "distinct ?js"
    using wt.running_not_waiting [OF k st1(1)] kinv_butD(1) [OF k [unfolded kinv_def]] by (auto simp: links_ok_def)
  note B = wt.block_as_state [OF k st1(1) js st1(2) b]
  have tl: "tlists (fst (rt_thread_suspend t ?s1)) (mp_list a) = tlists s (mp_list a)"
    using suspend_state(2) [OF k disjI2 [OF st1(1)]] running_thread(1) [OF k st1(1)] by simp
  have e: "mp_alloc_loop a time (Some t) mp m s = (?s', mp, m, Blocked t, 0)"
    using f tl by (simp add: mp_alloc_loop_def wait_as_def suspend_as_def thread_insert_after_def Let_def)
  have "mpool_ok a ?s'" using B(1,5,7,8) o r rg by (auto simp: mpool_ok_def)
  moreover have "blocked_in (mp_list a) time s t ?s'" by (rule iffD1 [OF blocked_in_cong B(3)]) simp_all
  ultimately show ?thesis using that [OF e] B(2,5) by simp
qed

lemma mp_wake_ok:
  assumes o: "mpool_ok a s"
  shows "mpool_ok a (mp_wake a s)" "fault (mp_wake a s) = fault s"
    "case tlists s (mp_list a) of
       [] \<Rightarrow> mp_wake a s = s
     | w # ws \<Rightarrow> awake (mp_wake a s) w \<and> error (thr (mp_wake a s) w) = RT_EOK \<and> tlists (mp_wake a s) (mp_list a) = ws"
proof -
  have "mpool_ok a (mp_wake a s) \<and> fault (mp_wake a s) = fault s \<and>
    (case tlists s (mp_list a) of
       [] \<Rightarrow> mp_wake a s = s
     | w # ws \<Rightarrow> awake (mp_wake a s) w \<and> error (thr (mp_wake a s) w) = RT_EOK \<and> tlists (mp_wake a s) (mp_list a) = ws)"
  proof (cases "tlists s (mp_list a)")
    case (Cons w ws)
    let ?s1 = "upd_thr w (\<lambda>x. x\<lparr>error := RT_EOK\<rparr>) s"
    have o1: "mpool_ok a ?s1" by (rule error_ok [OF o])
    have q: "tlists ?s1 (mp_list a) = w # ws" using Cons by simp
    have e: "mp_wake a s = rt_schedule (rt_ipc_list_resume (mp_list a) ?s1)"
      by (simp add: mp_wake_def Cons rt_ipc_list_resume_def)
    have k: "kinv ?s1" "rt_current_thread ?s1 \<noteq> None" "registered w ?s1" using o1 q by (auto simp: mpool_ok_def)
    note W = wt.wake_first [OF k(1,2) q k(3)]
    have "mpool_ok a (mp_wake a s)" using W(1,2,4,7) o1 q unfolding mpool_ok_def e by auto
    then show ?thesis using W(3-6) Cons unfolding e by simp
  qed (use o in \<open>simp add: mp_wake_def\<close>)
  then show "mpool_ok a (mp_wake a s)" "fault (mp_wake a s) = fault s"
    "case tlists s (mp_list a) of
       [] \<Rightarrow> mp_wake a s = s
     | w # ws \<Rightarrow> awake (mp_wake a s) w \<and> error (thr (mp_wake a s) w) = RT_EOK \<and> tlists (mp_wake a s) (mp_list a) = ws"
    by blast+
qed

section \<open>Creation and deletion\<close>

lemma ipc_object_init_empty: "tlists s l = [] \<Longrightarrow> rt_ipc_object_init l s = s"
  by (simp add: rt_ipc_object_init_def fun_upd_idem)

lemma mp_allocate_ok:
  fixes name :: string
  assumes o: "mpool_ok a s" and e: "tlists s (mp_list a) = []"
  defines "s1 \<equiv> fst (rt_object_allocate (Some (Mempool_Obj a)) RT_Object_Class_MemPool name s)"
  shows "rt_object_allocate (Some (Mempool_Obj a)) RT_Object_Class_MemPool name s = (s1, Some (Mempool_Obj a))"
    "mpool_ok a s1" "tlists s1 (mp_list a) = []" "is_mp a s1" "\<not> rt_object_is_systemobject (Mempool_Obj a) s1"
    "fault s1 = fault s"
proof -
  show "rt_object_allocate (Some (Mempool_Obj a)) RT_Object_Class_MemPool name s = (s1, Some (Mempool_Obj a))"
    by (simp add: s1_def rt_object_allocate_def rt_object_get_information_def RT_Object_Class_MemPool_def)
  show "is_mp a s1" "\<not> rt_object_is_systemobject (Mempool_Obj a) s1" "fault s1 = fault s" "tlists s1 (mp_list a) = []"
    using e by (simp_all add: s1_def is_mp_def rt_object_allocate_def rt_object_get_information_def object_insert_after_def
        rt_object_get_type_def rt_object_is_systemobject_def RT_Object_Class_MemPool_def RT_Object_Class_Static_def)
  moreover have "rt_current_thread s1 = rt_current_thread s"
    by (simp add: s1_def rt_object_allocate_def rt_object_get_information_def RT_Object_Class_MemPool_def)
  ultimately show "mpool_ok a s1" using o object_allocate_kinv [of s] by (simp add: mpool_ok_def s1_def)
qed

lemma mp_delete_state:
  assumes o: "mpool_ok a s" "is_mp a s" "\<not> rt_object_is_systemobject (Mempool_Obj a) s"
    and f: "length (tlists s (mp_list a)) < fuel" and h: "heap_holds h M" "M (unat (start_address mp)) = Some k"
  obtains s' h' where "rt_mp_delete fuel a mp h s = Some (s', h')" "mpool_ok a s'" "tlists s' (mp_list a) = []"
    "fault s' = fault s" "heap_fault h' = heap_fault h"
    "\<forall>t \<in> set (tlists s (mp_list a)). awake s' t \<and> error (thr s' t) = - RT_ERROR"
    "heap_holds h' (M(unat (start_address mp) := None))"
    "same_bytes (M(unat (start_address mp) := None)) (bytes h) (bytes h')"
proof -
  have r: "kinv s" "rt_current_thread s \<noteq> None" "\<forall>t \<in> set (tlists s (mp_list a)). registered t s"
    using o(1) by (simp_all add: mpool_ok_def)
  obtain s2 where s2: "rt_ipc_list_resume_all fuel (mp_list a) s = Some s2" "kinv s2" "tlists s2 (mp_list a) = []"
    "fault s2 = fault s" "rt_current_thread s2 = rt_current_thread s" "objs s2 = objs s"
    "\<forall>t \<in> set (tlists s (mp_list a)). awake s2 t \<and> error (thr s2 t) = - RT_ERROR"
    using wt.resume_all [OF r(1) f r(3)] by blast
  let ?s' = "rt_object_delete (Mempool_Obj a) s2" and ?h' = "rt_free (Some (unat (start_address mp))) h"
  have "rt_mp_delete fuel a mp h s = Some (?s', ?h')"
    using o(2,3) s2(1) by (simp add: rt_mp_delete_def rt_assert_holds)
  moreover have "fault ?s' = fault s" using o(3) s2(4,6) by (simp add: rt_object_delete_def rt_object_is_systemobject_def)
  moreover have "mpool_ok a ?s'" using s2(2,3,5) r(2) object_delete_kinv [of s2] by (simp add: mpool_ok_def rt_object_delete_def)
  ultimately show ?thesis using that [of ?s' ?h'] s2(3,7) free_holds [OF h] by (simp add: rt_object_delete_def)
qed

section \<open>The pool as an allocator\<close>

text \<open>The blocks in use by the address the caller was given.\<close>

definition mp_used :: "rt_mempool \<Rightarrow> nat list \<Rightarrow> block_map" where
  "mp_used mp fr x = (if 4 \<le> x \<and> x - 4 \<in> mp_blocks mp - set fr then Some (unat (block_size mp)) else None)"

lemma mp_used_Some: "mp_used mp fr x = Some n \<longleftrightarrow> (\<exists>y \<in> mp_blocks mp - set fr. x = y + 4 \<and> n = unat (block_size mp))"
proof
  assume u: "mp_used mp fr x = Some n"
  then have "4 \<le> x" by (simp add: mp_used_def split: if_splits)
  then obtain y where "x = y + 4" by (metis add.commute le_iff_add)
  then show "\<exists>y \<in> mp_blocks mp - set fr. x = y + 4 \<and> n = unat (block_size mp)"
    using u by (simp add: mp_used_def split: if_splits)
qed (auto simp: mp_used_def)

lemma mp_used_separate: "separate (mp_used mp fr)"
  unfolding separate_def mp_used_Some
proof (intro allI impI, elim bexE conjE)
  fix a b n k x y
  assume "a \<noteq> b" "x \<in> mp_blocks mp - set fr" "a = x + 4" "n = unat (block_size mp)"
    "y \<in> mp_blocks mp - set fr" "b = y + 4" "k = unat (block_size mp)"
  then show "a + n \<le> b \<or> b + k \<le> a" using mp_blocks_apart [of x mp y] by (auto simp: stride_def)
qed

text \<open>Headers are not part of the blocks.\<close>

lemma header_outside:
  assumes x: "x \<in> mp_blocks mp" and u: "mp_used mp fr y = Some n" "i < n"
  shows "y + i < x \<or> x + 4 \<le> y + i"
proof -
  obtain z where z: "z \<in> mp_blocks mp" "y = z + 4" "n = unat (block_size mp)" using u(1) by (auto simp: mp_used_Some)
  show ?thesis using mp_blocks_apart [OF x z(1)] z(2,3) u(2) by (cases "x = z") (auto simp: stride_def)
qed

type_synonym mp_state = "kernel \<times> rt_mempool \<times> memory"

text \<open>What a pool sees: a call of \<^verbatim>\<open>rt_mp_alloc\<close> with any waiting time, the continuation of one that has slept, and
  the rest of the kernel, which may take any state and touches neither the structure nor the memory of the pool.\<close>

datatype mp_request = Mp_Call int | Mp_Return int u32 tid | Mp_Kernel kernel

definition mp_holds :: "nat \<Rightarrow> mp_state \<Rightarrow> block_map \<Rightarrow> bool" where
  "mp_holds bs st M \<longleftrightarrow> (case st of (s, mp, m) \<Rightarrow>
     unat (block_size mp) = bs \<and> (\<exists>fr. mp_rep mp m fr \<and> M = mp_used mp fr))"

definition mp_alloc_op :: "nat \<Rightarrow> mp_request \<Rightarrow> mp_state \<Rightarrow> (mp_state \<times> nat option) option" where
  "mp_alloc_op a r st =
     (case st of (s, mp, m) \<Rightarrow>
        case (case r of
                Mp_Call time \<Rightarrow> rt_mp_alloc_call a time mp m s
              | Mp_Return time before_sleep thread \<Rightarrow> rt_mp_alloc_return a time before_sleep thread mp m s
              | Mp_Kernel s' \<Rightarrow> (s', mp, m, Return RT_EOK, 0)) of
          (s', mp', m', _, b) \<Rightarrow> Some ((s', mp', m'), ptr b))"

definition mp_free_op :: "nat \<Rightarrow> nat \<Rightarrow> mp_state \<Rightarrow> mp_state" where
  "mp_free_op a x st = (case st of (s, mp, m) \<Rightarrow> rt_mp_free a (word_of_nat x) mp m s)"

definition mp_store :: "nat \<Rightarrow> u8 \<Rightarrow> mp_state \<Rightarrow> mp_state" where
  "mp_store x v st = (case st of (s, mp, m) \<Rightarrow> (s, mp, m(x := v)))"

lemma mp_free_state:
  assumes r: "mp_rep mp m fr" and x: "x \<in> mp_blocks mp" "x \<notin> set fr"
  shows "rt_mp_free a (word_of_nat (x + 4)) mp m s =
    (mp_wake a s, mp\<lparr>block_free_count := block_free_count mp + 1, block_list := word_of_nat x\<rparr>, st32 x (block_list mp) m)"
proof -
  note X = mp_blocks_bounds [OF r x(1)]
  have "x + 4 < 2 ^ 32" using X(2) mp_stride [of mp] by linarith
  then have u: "unat (word_of_nat (x + 4) :: u32) = x + 4" by (simp only: unat_of_nat) simp
  then have n: "(word_of_nat (x + 4) :: u32) \<noteq> 0" by (metis add_is_0 unat_0 zero_neq_numeral)
  have e: "word_of_nat (x + 4) - 4 = (word_of_nat x :: u32)" by simp
  show ?thesis unfolding rt_mp_free_def Let_def e X(5) using n mp_repD(7) [OF r x] by (simp add: rt_assert_holds)
qed

lemma mp_write_rep:
  assumes r: "mp_rep mp m fr" and u: "mp_used mp fr y = Some n" "i < n"
  shows "mp_rep mp (m(y + i := v)) fr"
proof -
  have l: "ld32 (m(y + i := v)) x = ld32 m x" if "x \<in> mp_blocks mp" for x
    by (rule ld_cong) (use header_outside [OF that u] in auto)
  have "chain (nxt (m(y + i := v))) p fr = chain (nxt m) p fr" for p
    by (rule chain_cong) (use l mp_repD(5) [OF r] in \<open>auto simp: nxt_def\<close>)
  then show ?thesis using r l unfolding mp_rep_def by auto
qed

text \<open>The loop hands out the first free block or leaves pool and memory alone, whatever the kernel does.\<close>

lemma mp_alloc_cases:
  assumes r: "mp_rep mp m fr"
  obtains (none) s' out where "fr = []" "mp_alloc_loop a time self mp m s = (s', mp, m, out, 0)"
  | (some) x fr' mp' where "fr = x # fr'" "mp_alloc_loop a time self mp m s = (s, mp', st32 x (mp_self mp) m, Return RT_EOK, word_of_nat x + 4)"
      "mp_rep mp' (st32 x (mp_self mp) m) fr'" "mp_blocks mp' = mp_blocks mp" "block_size mp' = block_size mp"
      "unat (word_of_nat x + 4 :: u32) = x + 4"
proof (cases fr)
  case Nil
  then have "block_free_count mp = 0" using mp_repD(6) [OF r] by (simp add: unat_eq_0)
  then have "\<exists>s' out. mp_alloc_loop a time self mp m s = (s', mp, m, out, 0)"
    by (cases "time = 0"; cases self) (simp_all add: mp_alloc_loop_def Let_def)
  then show ?thesis using none Nil by blast
next
  case (Cons x fr')
  have f: "block_free_count mp \<noteq> 0" using mp_repD(6) [OF r] Cons by auto
  show ?thesis
    by (rule mp_take_rep [OF r [unfolded Cons]]) (use some Cons f in \<open>auto simp: mp_alloc_loop_def rt_assert_holds\<close>)
qed

text \<open>A request is a run of that loop, or nothing.\<close>

lemma mp_alloc_op_cases:
  obtains (idle) s' where "mp_alloc_op a r (s, mp, m) = Some ((s', mp, m), None)" "\<And>time. r \<noteq> Mp_Call time"
  | (loop) time self where "mp_alloc_op a r (s, mp, m) =
      (case mp_alloc_loop a time self mp m s of (s', mp', m', _, b) \<Rightarrow> Some ((s', mp', m'), ptr b))"
proof (cases r)
  case (Mp_Call time)
  then show ?thesis using loop [of time "rt_thread_self s"] by (simp add: mp_alloc_op_def rt_mp_alloc_call_def)
next
  case (Mp_Return time before_sleep thread)
  then show ?thesis using idle [of s] loop [of "wait_left time before_sleep (rt_tick s)" "Some thread"]
    by (cases "error (thr s thread) = RT_EOK") (simp_all add: mp_alloc_op_def rt_mp_alloc_return_def ptr_def)
next
  case (Mp_Kernel s')
  then show ?thesis using idle [of s'] by (simp add: mp_alloc_op_def ptr_def)
qed

lemma mp_used_take: "x \<in> mp_blocks mp \<Longrightarrow> distinct (x # fr) \<Longrightarrow> mp_blocks mp' = mp_blocks mp \<Longrightarrow> block_size mp' = block_size mp \<Longrightarrow>
    mp_used mp' fr = (mp_used mp (x # fr))(x + 4 \<mapsto> unat (block_size mp))"
  by (auto simp: mp_used_def fun_eq_iff)

lemma mp_used_put: "mp_blocks mp' = mp_blocks mp \<Longrightarrow> block_size mp' = block_size mp \<Longrightarrow>
    mp_used mp' (x # fr) = (mp_used mp fr)(x + 4 := None)"
  by (auto simp: mp_used_def fun_eq_iff)

lemma st32_same_bytes: "x \<in> mp_blocks mp \<Longrightarrow> same_bytes (mp_used mp fr) m (st32 x v m)"
  unfolding same_bytes_def using header_outside by (metis st32_frame)

lemma mp_alloc_holds:
  assumes h: "mp_holds bs st M" and al: "mp_alloc_op a u st = Some (st', p)"
  shows "case p of
      Some x \<Rightarrow> M x = None \<and> same_bytes M (snd (snd st)) (snd (snd st')) \<and> mp_holds bs st' (M(x \<mapsto> bs))
    | None \<Rightarrow> mp_holds bs st' M \<and> same_bytes M (snd (snd st)) (snd (snd st'))"
proof -
  obtain s mp m where st: "st = (s, mp, m)" by (cases st)
  obtain fr where o: "unat (block_size mp) = bs" "mp_rep mp m fr" "M = mp_used mp fr"
    using h by (auto simp: mp_holds_def st)
  have idle: "mp_holds bs (s', mp, m) M \<and> same_bytes M m m" for s'
    using o by (auto simp: mp_holds_def same_bytes_def)
  show ?thesis
  proof (rule mp_alloc_op_cases [of a u s mp m])
    fix s' assume "mp_alloc_op a u (s, mp, m) = Some ((s', mp, m), None)"
    then show ?thesis using al idle [of s'] by (auto simp: st)
  next
    fix time self
    assume l: "mp_alloc_op a u (s, mp, m) =
      (case mp_alloc_loop a time self mp m s of (s', mp', m', _, b) \<Rightarrow> Some ((s', mp', m'), ptr b))"
    show ?thesis
    proof (rule mp_alloc_cases [OF o(2), of a time self s])
      fix s' out assume "mp_alloc_loop a time self mp m s = (s', mp, m, out, 0)"
      then show ?thesis using al l idle [of s'] by (auto simp: st ptr_def)
    next
      fix x fr' mp' assume s: "fr = x # fr'"
        "mp_alloc_loop a time self mp m s = (s, mp', st32 x (mp_self mp) m, Return RT_EOK, word_of_nat x + 4)"
        "mp_rep mp' (st32 x (mp_self mp) m) fr'" "mp_blocks mp' = mp_blocks mp" "block_size mp' = block_size mp"
        "unat (word_of_nat x + 4 :: u32) = x + 4"
      have x: "x \<in> mp_blocks mp" "distinct (x # fr')" using mp_repD(4,5) [OF o(2)] s(1) by auto
      have p: "p = Some (x + 4)" "st' = (s, mp', st32 x (mp_self mp) m)"
        using al l s(2,6) by (auto simp: st ptr_def simp flip: unat_eq_0)
      show ?thesis unfolding p option.case
        using o s(1,3,5) mp_used_take [OF x s(4,5)] st32_same_bytes [OF x(1), of fr] by (auto simp: st mp_holds_def mp_used_def)
    qed
  qed
qed

interpretation mpool: allocator "mp_holds bs" "\<lambda>st. snd (snd st)" "\<lambda>_. True" "\<lambda>_. bs" "mp_alloc_op a" "mp_free_op a" mp_store
  for a bs
proof
  fix st M r st' x n i v
  show "mp_holds bs st M \<Longrightarrow> separate M" by (auto simp: mp_holds_def mp_used_separate)
  show "mp_alloc_op a r st \<noteq> None" by (simp add: mp_alloc_op_def split: prod.splits mp_request.splits)
  show "M x = None \<and> same_bytes M (snd (snd st)) (snd (snd st')) \<and> (\<exists>n \<ge> bs. mp_holds bs st' (M(x \<mapsto> n)))"
    if "mp_holds bs st M" "mp_alloc_op a r st = Some (st', Some x)" using mp_alloc_holds [OF that] by auto
  show "mp_holds bs st' M \<and> same_bytes M (snd (snd st)) (snd (snd st'))"
    if "mp_holds bs st M" "mp_alloc_op a r st = Some (st', None)" using mp_alloc_holds [OF that] by auto
  show "mp_holds bs (mp_free_op a x st) (M(x := None)) \<and> same_bytes (M(x := None)) (snd (snd st)) (snd (snd (mp_free_op a x st)))"
    if h: "mp_holds bs st M" and x: "M x = Some n"
  proof -
    obtain s mp m where st: "st = (s, mp, m)" by (cases st)
    obtain fr where o: "unat (block_size mp) = bs" "mp_rep mp m fr" "M = mp_used mp fr"
      using h by (auto simp: mp_holds_def st)
    obtain y where y: "y \<in> mp_blocks mp" "y \<notin> set fr" "x = y + 4" using x o(3) by (auto simp: mp_used_Some)
    let ?mp = "mp\<lparr>block_free_count := block_free_count mp + 1, block_list := word_of_nat y\<rparr>"
    have e: "mp_free_op a x st = (mp_wake a s, ?mp, st32 y (block_list mp) m)"
      unfolding st y(3) mp_free_op_def by (simp only: prod.case mp_free_state [OF o(2) y(1,2)])
    note P = mp_put_rep [OF o(2) y(1,2)]
    have u: "mp_used ?mp (y # fr) = M(x := None)" unfolding o(3) y(3) by (rule mp_used_put [OF P(2)]) simp
    have "same_bytes (mp_used mp (y # fr)) m (st32 y (block_list mp) m)" by (rule st32_same_bytes [OF y(1)])
    moreover have "mp_used mp (y # fr) = M(x := None)" unfolding o(3) y(3) by (rule mp_used_put) simp_all
    ultimately show ?thesis using P(1) u o(1) unfolding e by (auto simp: mp_holds_def st)
  qed
  show "mp_holds bs (mp_store (x + i) v st) M \<and> snd (snd (mp_store (x + i) v st)) = (snd (snd st))(x + i := v)"
    if "mp_holds bs st M" "M x = Some n" "i < n"
    using that mp_write_rep by (fastforce simp: mp_holds_def mp_store_def split: prod.splits)
qed

text \<open>A pool with a block left serves every call.\<close>

lemma mp_blocks_card: "card (mp_blocks mp) = unat (block_total_count mp)"
proof -
  have "inj_on (\<lambda>i. unat (start_address mp) + i * stride mp) {..<unat (block_total_count mp)}"
    using mp_stride [of mp] by (auto intro!: inj_onI)
  then show ?thesis by (simp add: mp_blocks_def card_image)
qed

lemma mp_used_dom: "dom (mp_used mp fr) = (\<lambda>y. y + 4) ` (mp_blocks mp - set fr)"
  by (auto simp: dom_def mp_used_Some)

lemma mp_call_granted:
  assumes "mp_rep mp m fr" "card (dom (mp_used mp fr)) < unat (block_total_count mp)"
  shows "\<exists>st' x. mp_alloc_op a (Mp_Call time) (s, mp, m) = Some (st', Some x)"
proof -
  have "card (dom (mp_used mp fr)) = card (mp_blocks mp - set fr)"
    unfolding mp_used_dom by (rule card_image) (simp add: inj_on_def)
  then have "fr \<noteq> []" using assms(2) mp_blocks_card [of mp] by auto
  then show ?thesis
    by (rule_tac mp_alloc_cases [OF assms(1), of a time "rt_thread_self s" s])
      (auto simp: mp_alloc_op_def rt_mp_alloc_call_def ptr_def simp flip: unat_eq_0)
qed

section \<open>Properties\<close>

text \<open>Allocation from a memory pool.  With a free block the first one of the free list is handed out and
  only its header changes; without one the call refuses or blocks the caller, who is put in front
  of those that wait already.\<close>

theorem rt_mp_alloc_correct:
  assumes o: "mpool_ok a s" and r: "mp_rep mp m fr" and st: "tstat s t = RT_THREAD_RUNNING" "registered t s"
    and b: "time < 0x7fffffff"
  shows "\<exists>s' mp' m' out blk. rt_mp_alloc_call a time mp m s = (s', mp', m', out, blk) \<and> mpool_ok a s' \<and> fault s' = fault s \<and>
    (case fr of
       x # fr' \<Rightarrow> out = Return RT_EOK \<and> unat blk = x + 4 \<and> mp_rep mp' m' fr' \<and> s' = s \<and> (\<forall>i. i < x \<or> x + 4 \<le> i \<longrightarrow> m' i = m i)
     | [] \<Rightarrow> blk = 0 \<and> mp' = mp \<and> m' = m \<and>
         (if time = 0 then out = Return (- RT_ETIMEOUT)
          else out = Blocked t \<and> blocked_in (mp_list a) time s t s' \<and> tlists s' (mp_list a) = t # tlists s (mp_list a)))"
proof -
  have k: "kinv s" using o by (simp add: mpool_ok_def)
  have c: "rt_thread_self s = Some t" by (simp add: rt_thread_self_def running_thread(4) [OF k st(1)])
  have n: "block_free_count mp = 0 \<longleftrightarrow> fr = []" using mp_repD(6) [OF r] by (metis length_0_conv unat_0 unat_eq_0)
  consider (some) x fr' where "fr = x # fr'" | (no) "fr = []" "time = 0" | (bl) "fr = []" "time \<noteq> 0" by (cases fr) auto
  then show ?thesis
  proof cases
    case some
    show ?thesis
      by (rule mp_take_rep [OF r [unfolded some]])
         (use some n o c in \<open>auto simp: rt_mp_alloc_call_def mp_alloc_loop_def rt_assert_holds\<close>)
  next
    case no
    then show ?thesis using n c error_ok [OF o] by (simp add: rt_mp_alloc_call_def mp_alloc_loop_def give_up_def)
  next
    case bl
    have f: "block_free_count mp = 0" using n bl by simp
    show ?thesis
      by (rule mp_blocks_caller [OF o st b f bl(2), of m]) (use bl c in \<open>simp add: rt_mp_alloc_call_def\<close>)
  qed
qed

definition demo_mp :: rt_mempool where
  "demo_mp = \<lparr>mp_self = 0x20001000, start_address = 0x20000000, mp_size = 24, block_size = 8, block_list = 0x20000000,
     block_total_count = 2, block_free_count = 2\<rparr>"

lemma demo_mp_rep: "mp_rep demo_mp (mp_thread 0x20000000 8 2 m) [0x20000000, 0x2000000c]"
  using mp_thread_rep [where start = "0x20000000" and count = 2 and bs = 8 and mp = demo_mp and m = m] by (simp add: demo_mp_def stride_def upt_rec)

lemma demo_mp_ok: "mpool_ok a (demo_wait (Mempool_Obj a))"
  by (simp add: mpool_ok_def demo_wait_kinv demo_wait_facts demo_wait_registered)

theorem rt_mp_alloc_correct_witness:
  "\<exists>s' mp' m'. rt_mp_alloc_call 3 25 demo_mp (mp_thread 0x20000000 8 2 (\<lambda>_. 0)) (demo_wait (Mempool_Obj 3)) =
     (s', mp', m', Return RT_EOK, 0x20000004) \<and> mp_rep mp' m' [0x2000000c]"
proof -
  have u: "unat (w :: u32) = 0x20000004 \<Longrightarrow> w = 0x20000004" for w by (simp add: word_unat_eq_iff)
  show ?thesis
    using rt_mp_alloc_correct [OF demo_mp_ok [of 3] demo_mp_rep [of "\<lambda>_. 0"] demo_wait_facts(4) demo_wait_registered, of 25]
    by (auto dest!: u)
qed

text \<open>Release to a memory pool.  A block in use becomes the first free block, only its header changes,
  and the thread that started to wait last is woken.\<close>

theorem rt_mp_free_correct:
  assumes o: "mpool_ok a s" and r: "mp_rep mp m fr" and x: "x \<in> mp_blocks mp" "x \<notin> set fr"
  shows "\<exists>s' mp'. rt_mp_free a (word_of_nat (x + 4)) mp m s = (s', mp', st32 x (block_list mp) m) \<and>
    mp_rep mp' (st32 x (block_list mp) m) (x # fr) \<and> mpool_ok a s' \<and> fault s' = fault s \<and>
    (case tlists s (mp_list a) of
       [] \<Rightarrow> s' = s
     | w # ws \<Rightarrow> awake s' w \<and> error (thr s' w) = RT_EOK \<and> tlists s' (mp_list a) = ws)"
  using mp_free_state [OF r x] mp_put_rep(1) [OF r x] mp_wake_ok [OF o] by auto

theorem rt_mp_free_correct_witness:
  "\<exists>s' mp' m1 m'. mp_rep mp' m' [0x20000000, 0x2000000c] \<and>
     rt_mp_free 3 (word_of_nat (0x20000000 + 4)) (fst (mp_take demo_mp (mp_thread 0x20000000 8 2 (\<lambda>_. 0)))) m1 (demo_wait (Mempool_Obj 3)) =
       (s', mp', m') \<and> awake s' 2"
proof (rule mp_take_rep [OF demo_mp_rep [of "\<lambda>_. 0"]])
  fix mp1
  assume t: "mp_take demo_mp (mp_thread 0x20000000 8 2 (\<lambda>_. 0)) =
      (mp1, st32 0x20000000 (mp_self demo_mp) (mp_thread 0x20000000 8 2 (\<lambda>_. 0)), word_of_nat 0x20000000 + 4)"
    "mp_rep mp1 (st32 0x20000000 (mp_self demo_mp) (mp_thread 0x20000000 8 2 (\<lambda>_. 0))) [0x2000000c]"
    "mp_blocks mp1 = mp_blocks demo_mp"
  have x: "0x20000000 \<in> mp_blocks mp1" "0x20000000 \<notin> set [0x2000000c :: nat]"
    using mp_repD(5) [OF demo_mp_rep [of "\<lambda>_. 0"]] t(3) by auto
  show ?thesis using rt_mp_free_correct [OF demo_mp_ok [of 3] t(2) x] unfolding t(1) fst_conv
    by (simp only: demo_wait_facts list.case) blast
qed

text \<open>C36: Integrity of memory pools.  For any history of allocations with any waiting time, of calls that go on after they
  have slept, of releases of held blocks and stores inside held blocks, and whatever the kernel does
  in between, the blocks held never overlap, every byte of them has the value its owner stored
  last, and the next block handed out is held by nobody and overlaps no block that is held; while fewer
  blocks are held than the pool has, every call gets one at once.\<close>

theorem rt_mp_integrity:
  assumes "start_address mp0 \<noteq> 0" "block_total_count mp0 \<noteq> 0" "block_free_count mp0 = block_total_count mp0"
    "block_list mp0 = start_address mp0" "unat (start_address mp0) + unat (block_total_count mp0) * stride mp0 < 2 ^ 32"
    and "alloc_run (\<lambda>_. True) (\<lambda>_. unat (block_size mp0)) (mp_alloc_op a) (mp_free_op a) mp_store
      (s0, mp0, mp_thread (start_address mp0) (block_size mp0) (block_total_count mp0) m0) (s, mp, m) A C"
  shows "separate A \<and> intact A C m \<and>
    (\<forall>r st' x. mp_alloc_op a r (s, mp, m) = Some (st', Some x) \<longrightarrow> unclaimed A x (unat (block_size mp0))) \<and>
    (card (dom A) < unat (block_total_count mp) \<longrightarrow> (\<forall>time. \<exists>st' x. mp_alloc_op a (Mp_Call time) (s, mp, m) = Some (st', Some x)))"
proof -
  let ?fr = "map (\<lambda>i. unat (start_address mp0) + i * stride mp0) [0..<unat (block_total_count mp0)]"
  have r: "mp_rep mp0 (mp_thread (start_address mp0) (block_size mp0) (block_total_count mp0) m0) ?fr"
    by (rule mp_thread_rep) (use assms in \<open>simp_all add: stride_def\<close>)
  have "mp_used mp0 ?fr = Map.empty" by (auto simp: mp_used_def fun_eq_iff mp_blocks_def)
  then have h: "mp_holds (unat (block_size mp0))
      (s0, mp0, mp_thread (start_address mp0) (block_size mp0) (block_total_count mp0) m0) Map.empty"
    using r unfolding mp_holds_def prod.case by metis
  obtain fr where "mp_rep mp m fr" "dom (mp_used mp fr) = dom A"
    using mpool.run_holds [OF assms(6) h] by (auto simp: mp_holds_def grants_def)
  then show ?thesis using mpool.run_integrity [OF assms(6) h] mp_call_granted [of mp m fr a _ s] by auto
qed

lemma demo_mp_alloc:
  "\<exists>st. mp_alloc_op 3 (Mp_Call 25) (demo_wait (Mempool_Obj 3), demo_mp, mp_thread 0x20000000 8 2 (\<lambda>_. 0)) = Some (st, Some 0x20000004)"
proof (rule mp_alloc_cases [OF demo_mp_rep [of "\<lambda>_. 0"], of 3 25 "rt_thread_self (demo_wait (Mempool_Obj 3))" "demo_wait (Mempool_Obj 3)"])
  fix x fr' mp'
  assume "[0x20000000, 0x2000000c] = x # fr'"
    "mp_alloc_loop 3 25 (rt_thread_self (demo_wait (Mempool_Obj 3))) demo_mp (mp_thread 0x20000000 8 2 (\<lambda>_. 0)) (demo_wait (Mempool_Obj 3)) =
      (demo_wait (Mempool_Obj 3), mp', st32 x (mp_self demo_mp) (mp_thread 0x20000000 8 2 (\<lambda>_. 0)), Return RT_EOK, word_of_nat x + 4)"
  then show ?thesis by (auto simp: mp_alloc_op_def rt_mp_alloc_call_def ptr_def)
qed simp

theorem rt_mp_integrity_witness:
  "\<exists>s mp m A C. alloc_run (\<lambda>_. True) (\<lambda>_. unat (block_size demo_mp)) (mp_alloc_op 3) (mp_free_op 3) mp_store
     (demo_wait (Mempool_Obj 3), demo_mp, mp_thread 0x20000000 8 2 (\<lambda>_. 0)) (s, mp, m) A C \<and>
     A 0x20000004 = Some 8 \<and> m (0x20000004 + 5) = 7"
proof -
  let ?st = "(demo_wait (Mempool_Obj 3), demo_mp, mp_thread 0x20000000 8 2 (\<lambda>_. 0))"
  let ?run = "alloc_run (\<lambda>_. True) (\<lambda>_. unat (block_size demo_mp)) (mp_alloc_op 3) (mp_free_op 3) mp_store ?st"
  have f: "start_address demo_mp = 0x20000000" "block_size demo_mp = 8" "block_total_count demo_mp = 2"
    "block_free_count demo_mp = 2" "block_list demo_mp = 0x20000000" by (simp_all add: demo_mp_def)
  have h: "start_address demo_mp \<noteq> 0" "block_total_count demo_mp \<noteq> 0" "block_free_count demo_mp = block_total_count demo_mp"
    "block_list demo_mp = start_address demo_mp" "unat (start_address demo_mp) + unat (block_total_count demo_mp) * stride demo_mp < 2 ^ 32"
    by (simp_all add: f stride_def)
  define A :: block_map where "A = [0x20000004 \<mapsto> 8]"
  obtain st where st: "mp_alloc_op 3 (Mp_Call 25) ?st = Some (st, Some 0x20000004)" using demo_mp_alloc by blast
  obtain C where "?run st A C"
    using alloc_run.grant [where valid = "\<lambda>_. True" and need = "\<lambda>_. unat (block_size demo_mp)" and alloc = "mp_alloc_op 3"
        and release = "mp_free_op 3" and store = mp_store and ?s0.0 = ?st, OF alloc_run.start TrueI st] by (simp add: A_def f)
  then have r: "?run (mp_store (0x20000004 + 5) 7 st) A (C(0x20000004 + 5 \<mapsto> 7))"
    by (rule alloc_run.update [where n = 8]) (simp_all add: A_def)
  obtain s mp m where e: "mp_store (0x20000004 + 5) 7 st = (s, mp, m)" by (rule prod_cases3)
  have "intact A (C(0x20000004 + 5 \<mapsto> 7)) m"
    using rt_mp_integrity [OF h, unfolded f, OF r [unfolded e f]] by blast
  then have "m (0x20000004 + 5) = 7" by (rule intactD [where n = 8]) (simp_all add: A_def)
  moreover have "A 0x20000004 = Some 8" by (simp add: A_def)
  ultimately show ?thesis using r unfolding e by blast
qed

text \<open>Pools on the heap.  For a pool whose total size does not reach $2^{32}$ bytes \<^verbatim>\<open>rt_mp_create\<close>
  either fails and leaves the heap as it was, or returns a pool that lies in one fresh block of the
  heap, with all its blocks free, linked and inside that block, and changes no byte of another block;
  \<^verbatim>\<open>rt_mp_delete\<close> of this pool gives the block back.  The kernel invariant is kept and no fault is raised.\<close>

theorem rt_mp_create_correct:
  fixes block_count block_size0 :: u32
  assumes o: "mpool_ok a s" and e: "tlists s (mp_list a) = []" and h: "heap_holds h M"
    and n: "block_count \<noteq> 0" "block_size0 \<noteq> 0" "unat block_size0 + 3 < 2 ^ 32"
    and f: "unat block_count * (RT_ALIGN (unat block_size0) + 4) \<le> 0xfffffffc"
  shows "\<exists>s' h'. mpool_ok a s' \<and> fault s' = fault s \<and>
    (rt_mp_create (Some a) name self block_count block_size0 h s = Some (s', None, h) \<and> h' = h \<or>
     (\<exists>mp p k. rt_mp_create (Some a) name self block_count block_size0 h s = Some (s', Some (a, mp), h') \<and>
        is_mp a s' \<and> heap_fault h' = heap_fault h \<and>
        unat (start_address mp) = p \<and> M p = None \<and> heap_holds h' (M(p \<mapsto> k)) \<and> same_bytes M (bytes h) (bytes h') \<and>
        unat (block_size mp) = RT_ALIGN (unat block_size0) \<and>
        (\<exists>fr. mp_rep mp (bytes h') fr \<and> length fr = unat block_count \<and> set fr = mp_blocks mp) \<and>
        (\<forall>x \<in> mp_blocks mp. p \<le> x \<and> x + 4 + unat (block_size mp) \<le> p + k) \<and>
        (\<exists>s2 h2. rt_mp_delete 1 a mp h' s' = Some (s2, h2) \<and> mpool_ok a s2 \<and> heap_holds h2 M)))"
proof -
  define s1 where "s1 = fst (rt_object_allocate (Some (Mempool_Obj a)) RT_Object_Class_MemPool name s)"
  note A = mp_allocate_ok [OF o e, of name, folded s1_def]
  let ?bs = "align32 block_size0"
  have bs: "unat ?bs = RT_ALIGN (unat block_size0)" by (rule unat_align32 [OF n(3)])
  have w: "unat ((?bs + 4) * block_count) = unat block_count * (unat ?bs + 4)"
  proof -
    have "(?bs + 4) * block_count = word_of_nat (unat block_count * (unat ?bs + 4))" by (simp add: mult.commute)
    moreover have "unat block_count * (unat ?bs + 4) < 2 ^ 32" using f unfolding bs by simp
    ultimately show ?thesis by (simp only: unat_of_nat) simp
  qed
  have pos: "0 < unat block_count" using n(1) by (simp add: unat_gt_0)
  have v: "heap_valid ((?bs + 4) * block_count)"
  proof -
    have "unat ((?bs + 4) * block_count) \<noteq> 0" using pos unfolding w by simp
    then have "(?bs + 4) * block_count \<noteq> 0" by (metis unat_0)
    then show ?thesis using f by (simp add: heap_valid_def word_le_nat_alt w bs)
  qed
  have as: "rt_assert (block_count > 0 \<and> block_size0 > 0) s = s" using n by (simp add: rt_assert_holds word_gt_0)
  show ?thesis
  proof (rule malloc_holds [OF h v])
    assume m: "rt_malloc ((?bs + 4) * block_count) h = Some (h, None)"
    let ?s' = "rt_object_delete (Mempool_Obj a) s1"
    have "mpool_ok a ?s'" "fault ?s' = fault s"
      using A object_delete_kinv [of s1 "Mempool_Obj a"]
      by (simp_all add: mpool_ok_def rt_object_delete_def rt_object_is_systemobject_def)
    then show ?thesis using m as A(1) by (intro exI [of _ ?s'] exI [of _ h]) (simp add: rt_mp_create_def)
  next
    fix h1 p k
    assume m: "rt_malloc ((?bs + 4) * block_count) h = Some (h1, Some p)" and h1: "heap_holds h1 (M(p \<mapsto> k))"
      and k: "unat ((?bs + 4) * block_count) \<le> k" and p: "M p = None" and sd: "same_data M h h1"
      and hf: "heap_fault h1 = heap_fault h"
    define h' where "h' = upd_bytes (mp_thread (word_of_nat p) ?bs block_count) h1"
    define mp where "mp = \<lparr>mp_self = self, start_address = word_of_nat p, mp_size = (?bs + 4) * block_count, block_size = ?bs,
        block_list = word_of_nat p, block_total_count = block_count, block_free_count = block_count\<rparr>"
    note T = mp_thread_holds [OF h1, of p k block_count ?bs, folded h'_def]
    have T': "heap_holds h' (M(p \<mapsto> k))" "unat (word_of_nat p :: u32) = p" "p \<noteq> 0" "p + unat block_count * (unat ?bs + 4) < 2 ^ 32"
      "same_bytes M (bytes h1) (bytes h')" using T k w n(1) p by (simp_all add: fun_upd_idem)
    have st: "stride mp = unat ?bs + 4" by (simp add: stride_def mp_def)
    have "(word_of_nat p :: u32) \<noteq> 0" using T'(2,3) by (metis unat_0)
    then have r: "mp_rep mp (bytes h') (map (\<lambda>i. p + i * stride mp) [0..<unat block_count])"
      using mp_thread_rep [of "word_of_nat p" block_count ?bs mp "bytes h1"] T'(2-4) n(1)
      by (simp add: mp_def h'_def upd_bytes_def)
    have bl: "set (map (\<lambda>i. p + i * stride mp) [0..<unat block_count]) = mp_blocks mp"
      using T'(2) by (auto simp: mp_blocks_def mp_def)
    have ins: "p \<le> x \<and> x + 4 + unat (block_size mp) \<le> p + k" if "x \<in> mp_blocks mp" for x
      using mp_blocks_inside [OF that] k T'(2) unfolding w st by (simp add: mp_def)
    have "rt_mp_create (Some a) name self block_count block_size0 h s = Some (s1, Some (a, mp), h')"
      using m as A(1,3) by (simp add: rt_mp_create_def Let_def ipc_object_init_empty h'_def mp_def)
    moreover have "same_bytes M (bytes h) (bytes h')" using sd T'(5) by (simp add: same_bytes_def)
    moreover have "heap_fault h' = heap_fault h" using hf by (simp add: h'_def upd_bytes_def)
    moreover have "\<exists>fr. mp_rep mp (bytes h') fr \<and> length fr = unat block_count \<and> set fr = mp_blocks mp"
      by (intro exI conjI, rule r) (use bl in simp_all)
    moreover have "\<exists>s2 h2. rt_mp_delete 1 a mp h' s1 = Some (s2, h2) \<and> mpool_ok a s2 \<and> heap_holds h2 M"
    proof -
      have u: "unat (start_address mp) = p" using T'(2) by (simp add: mp_def)
      show ?thesis
        by (rule mp_delete_state [OF A(2,4,5) _ T'(1), of 1 mp k]) (use A(3) p in \<open>auto simp: u fun_upd_idem\<close>)
    qed
    ultimately show ?thesis using A(2,4,6) T'(1,2) p ins bs
      by (intro exI [of _ s1] exI [of _ h'], intro conjI disjI2 exI [of _ mp] exI [of _ p] exI [of _ k])
         (simp_all add: mp_def)
  qed
qed

theorem rt_mp_create_correct_witness:
  "\<exists>s' r h'. rt_mp_create (Some 3) ''pool'' 0x20001000 4 8 demo_heap demo_typed = Some (s', r, h') \<and>
     \<not> heap_fault h' \<and> kinv s'"
proof (rule demo_heap_holds)
  fix M assume M: "heap_holds demo_heap M"
  have "mpool_ok 3 demo_typed" "tlists demo_typed (mp_list 3) = []"
    by (simp_all add: mpool_ok_def demo_typed_kinv demo_typed_facts) (simp_all add: demo_typed_def demo_base_def kernel0_def)
  from rt_mp_create_correct [OF this M, of 4 8 "''pool''" "0x20001000"] show ?thesis
    by (auto simp: RT_ALIGN_def RT_ALIGN_DOWN_def demo_fields mpool_ok_def)
qed

end
