(* ===== verification/Framing.thy ===== *)
theory Framing
  imports Crc
begin

text \<open>
  The byte layer of the link between the two boards: \<^verbatim>\<open>Packet::Emitter\<close> and \<^verbatim>\<open>Packet::Absorber\<close> of
  \<^verbatim>\<open>components/packet.cxx\<close> over the checksum of \<^verbatim>\<open>utilities/crc16.cxx\<close>.  The emitter holds the bytes it
  has handed to the UART, the absorber the bytes that have arrived and are not yet read.  The upper board
  is built with exceptions, the lower one without (\<^verbatim>\<open>-fno-exceptions\<close>); the operations take the build as their first
  argument.  A read returns, raises an exception, waits for the UART, or aborts the program.
\<close>

section \<open>Definitions\<close>

text \<open>\<^verbatim>\<open>class Crc16\<close>.  \<^verbatim>\<open>update\<close> calls the library with one byte.\<close>

definition crc16_update :: "u8 \<Rightarrow> u16 \<Rightarrow> u16" where
  "crc16_update dat val = the (crc16_cyc_cal crc16_table_A001 val [dat] 1)"

definition crc16_get :: "u16 \<Rightarrow> u16" where
  "crc16_get val = val XOR CRC16_INIT_VAL"

text \<open>\<^verbatim>\<open>enum class ControlChar\<close>, the bytes with a meaning of their own.\<close>

abbreviation (input) Head :: u8 where "Head \<equiv> 0xa5"
abbreviation (input) Escape :: u8 where "Escape \<equiv> 0xff"

text \<open>\<^verbatim>\<open>std::variant<rt_uint8_t, ControlChar>\<close>.\<close>

datatype symbol = Data u8 | Control u8

record emitter =
  sent :: "u8 list"
  ecrc :: u16

definition writeAtom :: "u8 \<Rightarrow> emitter \<Rightarrow> emitter" where
  "writeAtom b e = e\<lparr>sent := sent e @ [b], ecrc := crc16_update b (ecrc e)\<rparr>"

definition writeByte :: "symbol \<Rightarrow> emitter \<Rightarrow> emitter" where
  "writeByte b e =
     (case b of
        Control cc \<Rightarrow> writeAtom cc e
      | Data dat \<Rightarrow> writeAtom dat (if dat = Head \<or> dat = Escape then writeAtom Escape e else e))"

definition writeData :: "u8 list \<Rightarrow> emitter \<Rightarrow> emitter" where
  "writeData data e = fold (\<lambda>b. writeByte (Data b)) data e"

text \<open>Integers are written as they lie in memory, the low byte first.\<close>

definition bytes16 :: "u16 \<Rightarrow> u8 list" where
  "bytes16 w = [ucast w, ucast (drop_bit 8 w)]"

definition bytes32 :: "u32 \<Rightarrow> u8 list" where
  "bytes32 w = [ucast w, ucast (drop_bit 8 w), ucast (drop_bit 16 w), ucast (drop_bit 24 w)]"

definition of_bytes16 :: "u8 list \<Rightarrow> u16" where
  "of_bytes16 bs = ucast (bs ! 0) OR push_bit 8 (ucast (bs ! 1))"

definition of_bytes32 :: "u8 list \<Rightarrow> u32" where
  "of_bytes32 bs = ucast (bs ! 0) OR push_bit 8 (ucast (bs ! 1)) OR push_bit 16 (ucast (bs ! 2)) OR push_bit 24 (ucast (bs ! 3))"

definition Emitter_begin :: "u32 \<Rightarrow> emitter" where
  "Emitter_begin hashCode =
     writeData (bytes32 hashCode) (writeByte (Control Head) \<lparr>sent = [], ecrc = CRC16_INIT_VAL\<rparr>)"

definition Emitter_end :: "emitter \<Rightarrow> emitter" where
  "Emitter_end e = (let crcActual = crc16_get (ecrc e) in writeData (bytes16 crcActual) e)"

text \<open>The exceptions of a read.  \<open>bad_variant_access\<close> is what \<^verbatim>\<open>std::get\<close> raises for the other alternative.\<close>

datatype exn = invalid_escape_error | invalid_frame_error | type_info_not_found_error | bad_variant_access

record absorber =
  pending :: "u8 list"
  acrc :: u16
  invalid :: bool

text \<open>The build: whether \<^verbatim>\<open>__cpp_exceptions\<close> is defined.  Without exceptions a variable may be used that was not
  filled; the function gives the bytes it then has, for each state in which it was declared.\<close>

datatype cpp = Exceptions | No_exceptions "absorber \<Rightarrow> nat \<Rightarrow> u8"

primrec uninit :: "cpp \<Rightarrow> absorber \<Rightarrow> nat \<Rightarrow> u8" where
  "uninit Exceptions a = (\<lambda>_. 0)"
| "uninit (No_exceptions junk) a = junk a"

datatype 'a res = Done 'a absorber | Raise exn absorber | Wait | Abort

fun bind :: "'a res \<Rightarrow> ('a \<Rightarrow> absorber \<Rightarrow> 'b res) \<Rightarrow> 'b res" where
  "bind (Done x a) f = f x a"
| "bind (Raise e a) f = Raise e a"
| "bind Wait f = Wait"
| "bind Abort f = Abort"

text \<open>A \<^verbatim>\<open>throw\<close> under \<^verbatim>\<open>#ifdef __cpp_exceptions\<close>, followed by \<^verbatim>\<open>invalidate()\<close>; and \<^verbatim>\<open>std::get\<close> of the other
  alternative, which aborts when exceptions are off.\<close>

primrec throw_or_invalidate :: "cpp \<Rightarrow> exn \<Rightarrow> 'a \<Rightarrow> absorber \<Rightarrow> 'a res" where
  "throw_or_invalidate Exceptions e x a = Raise e a"
| "throw_or_invalidate (No_exceptions junk) e x a = Done x (a\<lparr>invalid := True\<rparr>)"

primrec bad_get :: "cpp \<Rightarrow> absorber \<Rightarrow> 'a res" where
  "bad_get Exceptions a = Raise bad_variant_access a"
| "bad_get (No_exceptions junk) a = Abort"

definition readAtom :: "absorber \<Rightarrow> u8 res" where
  "readAtom a =
     (case pending a of
        [] \<Rightarrow> Wait
      | b # bs \<Rightarrow> Done b (a\<lparr>pending := bs, acrc := crc16_update b (acrc a)\<rparr>))"

definition readByte :: "cpp \<Rightarrow> absorber \<Rightarrow> symbol res" where
  "readByte c a =
     (if invalid a then Done (Control 0) a
      else
        bind (readAtom a) (\<lambda>b a1.
          if b = Head then Done (Control Head) a1
          else if b = Escape
          then bind (readAtom a1) (\<lambda>b a2.
                 if b \<noteq> Head \<and> b \<noteq> Escape then throw_or_invalidate c invalid_escape_error (Data b) a2 else Done (Data b) a2)
          else Done (Data b) a1))"

text \<open>The result are the bytes that were stored.\<close>

primrec readData :: "cpp \<Rightarrow> nat \<Rightarrow> absorber \<Rightarrow> u8 list res" where
  "readData c 0 = Done []"
| "readData c (Suc len) = (\<lambda>a.
     if invalid a then Done [] a
     else bind (readByte c a) (\<lambda>d a1.
       if invalid a1 then Done [] a1
       else case d of
         Control cc \<Rightarrow> bad_get c a1
       | Data b \<Rightarrow> bind (readData c len a1) (\<lambda>bs. Done (b # bs))))"

text \<open>\<^verbatim>\<open>IStream::read<T>\<close> declares a variable, has it filled and returns it.\<close>

definition IStream_read :: "cpp \<Rightarrow> nat \<Rightarrow> absorber \<Rightarrow> u8 list res" where
  "IStream_read c n a = bind (readData c n a) (\<lambda>bs. Done (bs @ map (uninit c a) [length bs ..< n]))"

text \<open>The constructor of the absorber returns the type number of the frame, which is not set if it gives up.\<close>

definition Absorber_begin :: "cpp \<Rightarrow> absorber \<Rightarrow> u32 res" where
  "Absorber_begin c a =
     bind (readByte c a) (\<lambda>b a1.
       if b = Control Head then bind (IStream_read c 4 a1) (\<lambda>bs. Done (of_bytes32 bs))
       else throw_or_invalidate c invalid_frame_error (of_bytes32 (map (uninit c a1) [0 ..< 4])) a1)"

definition Absorber_check :: "cpp \<Rightarrow> absorber \<Rightarrow> bool res" where
  "Absorber_check c a =
     (let crcExpect = crc16_get (acrc a)
      in bind (IStream_read c 2 a) (\<lambda>bs. Done (crcExpect = of_bytes16 bs)))"

section \<open>Escaping\<close>

text \<open>What the emitter makes of a byte, and of a block.\<close>

definition esc :: "u8 \<Rightarrow> u8 list" where
  "esc b = (if b = Head \<or> b = Escape then [Escape, b] else [b])"

definition escs :: "u8 list \<Rightarrow> u8 list" where
  "escs bs = concat (map esc bs)"

lemma escs_simps [simp]: "escs [] = []" "escs (b # bs) = esc b @ escs bs" "escs (bs @ cs) = escs bs @ escs cs"
  by (simp_all add: escs_def)

definition crc_over :: "u8 list \<Rightarrow> u16 \<Rightarrow> u16" where
  "crc_over bs c = fold crc16_update bs c"

lemma crc_over_simps [simp]:
  "crc_over [] c = c" "crc_over (b # bs) c = crc_over bs (crc16_update b c)"
  "crc_over (bs @ cs) c = crc_over cs (crc_over bs c)"
  by (simp_all add: crc_over_def)

lemma writeData_state: "writeData bs e = e\<lparr>sent := sent e @ escs bs, ecrc := crc_over (escs bs) (ecrc e)\<rparr>"
proof (induction bs arbitrary: e)
  case (Cons b bs)
  have "writeData (b # bs) e = writeData bs (writeByte (Data b) e)" by (simp add: writeData_def)
  then show ?case by (simp add: Cons esc_def writeByte_def writeAtom_def)
qed (simp add: writeData_def)

lemma of_bytes [simp]: "of_bytes16 (bytes16 w) = w" "of_bytes32 (bytes32 v) = v"
proof -
  show "of_bytes16 (bytes16 w) = w"
    by (rule bit_word_eqI) (auto simp: of_bytes16_def bytes16_def bit_simps)
  show "of_bytes32 (bytes32 v) = v"
  proof (rule bit_word_eqI)
    fix n assume "n < LENGTH(32)"
    then consider "n < 8" | "8 \<le> n" "n < 16" | "16 \<le> n" "n < 24" | "24 \<le> n" "n < 32" by (simp, linarith)
    then show "bit (of_bytes32 (bytes32 v)) n = bit v n"
      by cases (auto simp: of_bytes32_def bytes32_def bit_simps)
  qed
qed

lemma length_bytes [simp]: "length (bytes16 w) = 2" "length (bytes32 v) = 4"
  by (simp_all add: bytes16_def bytes32_def)

section \<open>Readers\<close>

text \<open>A reader takes exactly the escaped bytes \<open>bs\<close> and returns \<open>x\<close>; if the bytes are cut short by the head
  of another frame it ends in \<open>bad_get\<close> and has consumed that head.\<close>

abbreviation (input) valid_at :: "u8 list \<Rightarrow> u16 \<Rightarrow> absorber" where
  "valid_at bs c \<equiv> \<lparr>pending = bs, acrc = c, invalid = False\<rparr>"

definition reads :: "cpp \<Rightarrow> (absorber \<Rightarrow> 'a res) \<Rightarrow> u8 list \<Rightarrow> 'a \<Rightarrow> bool" where
  "reads b f bs x \<longleftrightarrow>
     (\<forall>r c. f (valid_at (escs bs @ r) c) = Done x (valid_at r (crc_over (escs bs) c))) \<and>
     (\<forall>k r c. k < length bs \<longrightarrow> (\<exists>c'. f (valid_at (escs (take k bs) @ Head # r) c) = bad_get b (valid_at r c')))"

lemma readsD:
  assumes "reads b f bs x"
  shows "f (valid_at (escs bs @ r) c) = Done x (valid_at r (crc_over (escs bs) c))"
    "k < length bs \<Longrightarrow> \<exists>c'. f (valid_at (escs (take k bs) @ Head # r) c) = bad_get b (valid_at r c')"
  using assms by (simp_all add: reads_def)

lemma reads_done [simp]: "reads b (Done x) [] x"
  by (simp add: reads_def)

lemma bind_bad_get [simp]: "bind (bad_get b a) f = bad_get b a"
  by (cases b) simp_all

lemma reads_bind:
  assumes f: "reads b f bs x" and g: "reads b (g x) cs y"
  shows "reads b (\<lambda>a. bind (f a) g) (bs @ cs) y"
  unfolding reads_def
proof (intro conjI allI impI)
  fix k r c
  assume k: "k < length (bs @ cs)"
  show "\<exists>c'. bind (f (valid_at (escs (take k (bs @ cs)) @ Head # r) c)) g = bad_get b (valid_at r c')"
  proof (cases "k < length bs")
    case True
    then show ?thesis using readsD(2) [OF f True, of r c] by auto
  next
    case False
    then show ?thesis using readsD(1) [OF f, of "escs (take (k - length bs) cs) @ Head # r" c] k
        readsD(2) [OF g, of "k - length bs" r "crc_over (escs bs) c"] by auto
  qed
qed (use readsD(1) [OF f] readsD(1) [OF g] in simp)

lemma reads_map: "reads b f bs x \<Longrightarrow> reads b (\<lambda>a. bind (f a) (\<lambda>y. Done (h y))) bs (h x)"
  using reads_bind [of b f bs x "\<lambda>y. Done (h y)" "[]" "h x"] by simp

text \<open>Readers are run on valid streams only.\<close>

lemma reads_cong: "(\<And>bs c. f (valid_at bs c) = g (valid_at bs c)) \<Longrightarrow> reads b f bs x = reads b g bs x"
  by (simp add: reads_def)

lemma readByte_esc:
  "readByte k (valid_at (esc b @ r) c) = Done (Data b) (valid_at r (crc_over (esc b) c))"
  "readByte k (valid_at (Head # r) c) = Done (Control Head) (valid_at r (crc16_update Head c))"
  by (simp_all add: readByte_def readAtom_def esc_def)

lemma reads_readData: "reads k (readData k (length bs)) bs bs"
proof (induction bs)
  case (Cons b bs)
  show ?case unfolding reads_def
  proof (intro conjI allI impI)
    fix n r c
    assume "n < length (b # bs)"
    then show "\<exists>c'. readData k (length (b # bs)) (valid_at (escs (take n (b # bs)) @ Head # r) c) = bad_get k (valid_at r c')"
    proof (cases n)
      case (Suc j)
      then obtain c' where "readData k (length bs) (valid_at (escs (take j bs) @ Head # r) (crc_over (esc b) c)) =
          bad_get k (valid_at r c')"
        using readsD(2) [OF Cons, of j] \<open>n < length (b # bs)\<close> by auto
      then show ?thesis using Suc by (auto simp: readByte_esc)
    qed (auto simp: readByte_esc)
  qed (use readsD(1) [OF Cons] in \<open>simp add: readByte_esc\<close>)
qed simp

lemma reads_IStream: "reads k (IStream_read k (length bs)) bs bs"
proof -
  note R = readsD [OF reads_readData [of k bs]]
  show ?thesis unfolding reads_def
  proof (intro conjI allI impI)
    fix n r c assume "n < length bs"
    then obtain c' where "readData k (length bs) (valid_at (escs (take n bs) @ Head # r) c) = bad_get k (valid_at r c')"
      using R(2) by blast
    then show "\<exists>c'. IStream_read k (length bs) (valid_at (escs (take n bs) @ Head # r) c) = bad_get k (valid_at r c')"
      by (auto simp: IStream_read_def)
  qed (simp add: IStream_read_def R(1))
qed

lemma reads_bytes: "reads k (IStream_read k 2) (bytes16 w) (bytes16 w)" "reads k (IStream_read k 4) (bytes32 v) (bytes32 v)"
  using reads_IStream [of k "bytes16 w"] reads_IStream [of k "bytes32 v"] by simp_all

end
