(* ===== verification/Serial.thy ===== *)
theory Serial
  imports Framing "HOL-Library.AList"
begin

text \<open>
  \<^verbatim>\<open>class Serializer\<close> and \<^verbatim>\<open>class Deserializer\<close> of \<^verbatim>\<open>utilities/serializer.hxx\<close> and \<^verbatim>\<open>utilities/deserializer.hxx\<close>.
  The overloads of \<^verbatim>\<open>build\<close> and \<^verbatim>\<open>parse\<close> are chosen by the C++ type; here the type is a tree of its own
  and each overload is an equation.  A value of an arithmetic or enumeration type is the list of its
  bytes in memory.  Shared and weak pointers are left out.
\<close>

section \<open>Definitions\<close>

text \<open>\<open>Arith n\<close> stands for the arithmetic and enumeration types of \<open>n\<close> bytes, \<open>Aggregate\<close> for structures,
  \<open>Cont\<close> for vectors, lists and strings.\<close>

datatype ty = Arith nat | Aggregate "ty list" | Cont ty | Optional ty | Map ty ty | Array nat ty

datatype val = V_Arith "u8 list" | V_Aggregate "val list" | V_Cont "val list" | V_Optional "val option" |
  V_Map "(val \<times> val) list" | V_Array "val list"

text \<open>The length prefix is \<^verbatim>\<open>prefix_len_t\<close>, 16 bits; the conversion from \<^verbatim>\<open>size_t\<close> drops the other bits.\<close>

fun build :: "val \<Rightarrow> u8 list" where
  "build (V_Arith bs) = bs"
| "build (V_Aggregate vs) = concat (map build vs)"
| "build (V_Cont vs) = bytes16 (word_of_nat (length vs)) @ concat (map build vs)"
| "build (V_Optional None) = [0]"
| "build (V_Optional (Some v)) = 1 # build v"
| "build (V_Map ps) = bytes16 (word_of_nat (length ps)) @ concat (map (\<lambda>(k, v). build k @ build v) ps)"
| "build (V_Array vs) = concat (map build vs)"

text \<open>Readers one after the other, and the same reader \<open>n\<close> times.\<close>

primrec each :: "(absorber \<Rightarrow> 'a res) list \<Rightarrow> absorber \<Rightarrow> 'a list res" where
  "each [] = Done []"
| "each (f # fs) = (\<lambda>a. bind (f a) (\<lambda>x a1. bind (each fs a1) (\<lambda>xs. Done (x # xs))))"

definition times :: "nat \<Rightarrow> (absorber \<Rightarrow> 'a res) \<Rightarrow> absorber \<Rightarrow> 'a list res" where
  "times n f = each (replicate n f)"

text \<open>The value \<^verbatim>\<open>{}\<close> of a type, which a stream that has become invalid gives.\<close>

primrec zero :: "ty \<Rightarrow> val" where
  "zero (Arith n) = V_Arith (replicate n 0)"
| "zero (Aggregate ts) = V_Aggregate (map zero ts)"
| "zero (Cont t) = V_Cont []"
| "zero (Optional t) = V_Optional None"
| "zero (Map t u) = V_Map []"
| "zero (Array n t) = V_Array (replicate n (zero t))"

definition unless_invalid :: "val \<Rightarrow> (absorber \<Rightarrow> val res) \<Rightarrow> absorber \<Rightarrow> val res" where
  "unless_invalid z f a = (if invalid a then Done z a else f a)"

primrec parse :: "cpp \<Rightarrow> ty \<Rightarrow> absorber \<Rightarrow> val res" where
  "parse c (Arith n) = unless_invalid (zero (Arith n)) (\<lambda>a. bind (IStream_read c n a) (\<lambda>bs. Done (V_Arith bs)))"
| "parse c (Aggregate ts) = unless_invalid (zero (Aggregate ts)) (\<lambda>a. bind (each (map (parse c) ts) a) (\<lambda>vs. Done (V_Aggregate vs)))"
| "parse c (Cont t) = unless_invalid (zero (Cont t)) (\<lambda>a.
     bind (IStream_read c 2 a) (\<lambda>bs a1.
       let size = unat (of_bytes16 bs)
       in bind (times size (parse c t) a1) (\<lambda>vs. Done (V_Cont vs))))"
| "parse c (Optional t) = unless_invalid (zero (Optional t)) (\<lambda>a.
     bind (IStream_read c 1 a) (\<lambda>bs a1.
       let hasValue = bs \<noteq> [0]
       in if hasValue then bind (parse c t a1) (\<lambda>v. Done (V_Optional (Some v))) else Done (V_Optional None) a1))"
| "parse c (Map t u) = unless_invalid (zero (Map t u)) (\<lambda>a.
     bind (IStream_read c 2 a) (\<lambda>bs a1.
       let size = unat (of_bytes16 bs)
       in bind (times size (\<lambda>a. bind (parse c t a) (\<lambda>k a1. bind (parse c u a1) (\<lambda>v. Done (k, v)))) a1)
            (\<lambda>ps. Done (V_Map (fold (\<lambda>(k, v). AList.update k v) ps [])))))"
| "parse c (Array n t) = unless_invalid (zero (Array n t)) (\<lambda>a. bind (times n (parse c t) a) (\<lambda>vs. Done (V_Array vs)))"

section \<open>Well-typed values\<close>

text \<open>The values of a type that the 16-bit length prefix can describe.  A map has each key once.\<close>

fun has_ty :: "ty \<Rightarrow> val \<Rightarrow> bool" where
  "has_ty (Arith n) (V_Arith bs) \<longleftrightarrow> length bs = n"
| "has_ty (Aggregate ts) (V_Aggregate vs) \<longleftrightarrow> list_all2 has_ty ts vs"
| "has_ty (Cont t) (V_Cont vs) \<longleftrightarrow> length vs < 2 ^ 16 \<and> (\<forall>v \<in> set vs. has_ty t v)"
| "has_ty (Optional t) (V_Optional v) \<longleftrightarrow> (case v of None \<Rightarrow> True | Some x \<Rightarrow> has_ty t x)"
| "has_ty (Map t u) (V_Map ps) \<longleftrightarrow> length ps < 2 ^ 16 \<and> distinct (map fst ps) \<and> (\<forall>p \<in> set ps. has_ty t (fst p) \<and> has_ty u (snd p))"
| "has_ty (Array n t) (V_Array vs) \<longleftrightarrow> length vs = n \<and> (\<forall>v \<in> set vs. has_ty t v)"
| "has_ty _ _ \<longleftrightarrow> False"

lemma reads_each:
  assumes "list_all2 (\<lambda>f v. reads z f (b v) v) fs vs"
  shows "reads z (each fs) (concat (map b vs)) vs"
  using assms
proof (induction rule: list_all2_induct)
  case (Cons f fs v vs)
  have "reads z (\<lambda>a. bind (f a) (\<lambda>x a1. bind (each fs a1) (\<lambda>xs. Done (x # xs)))) (b v @ concat (map b vs)) (v # vs)"
    by (rule reads_bind [OF Cons(1)]) (rule reads_map [OF Cons.IH])
  then show ?case by simp
qed simp

lemma reads_times:
  assumes "\<forall>v \<in> set vs. reads z f (b v) v"
  shows "reads z (times (length vs) f) (concat (map b vs)) vs"
  unfolding times_def by (rule reads_each) (use assms in \<open>auto simp: list_all2_conv_all_nth\<close>)

lemma fold_update_distinct:
  assumes "distinct (map fst (qs @ ps))"
  shows "fold (\<lambda>(k, v). AList.update k v) ps qs = qs @ ps"
  using assms
proof (induction ps arbitrary: qs)
  case (Cons p ps)
  have "AList.update (fst p) (snd p) qs = qs @ [p]"
    using Cons.prems by (induction qs) auto
  then show ?case using Cons.IH [of "qs @ [p]"] Cons.prems by (cases p) simp
qed simp

lemma word16_length [simp]: "n < 2 ^ 16 \<Longrightarrow> unat (word_of_nat n :: u16) = n"
  by (simp add: unat_of_nat)

text \<open>Parsing inverts building, on every type.\<close>

lemma reads_unless [simp]: "reads z (unless_invalid y f) bs x = reads z f bs x"
  by (rule reads_cong) (simp add: unless_invalid_def)

lemma reads_parse: "has_ty t v \<Longrightarrow> reads z (parse z t) (build v) v"
proof (induction t arbitrary: v)
  case (Arith n)
  then obtain bs where v: "v = V_Arith bs" "length bs = n" by (cases v) auto
  show ?case using reads_map [OF reads_IStream [of z bs], of V_Arith] v by simp
next
  case (Aggregate ts)
  then obtain vs where v: "v = V_Aggregate vs" "list_all2 has_ty ts vs" by (cases v) auto
  have "list_all2 (\<lambda>f v. reads z f (build v) v) (map (parse z) ts) vs"
    using v(2) Aggregate.IH by (auto simp: list_all2_conv_all_nth)
  then show ?case using reads_map [OF reads_each, of z build _ _ V_Aggregate] v(1) by simp
next
  case (Cont t)
  then obtain vs where v: "v = V_Cont vs" "length vs < 2 ^ 16" "\<forall>v \<in> set vs. has_ty t v" by (cases v) auto
  have r: "reads z (times (length vs) (parse z t)) (concat (map build vs)) vs"
    by (rule reads_times) (use v(3) Cont.IH in blast)
  show ?case
    using reads_bind [OF reads_bytes(1) [of z "word_of_nat (length vs)"], where g = "\<lambda>bs a1. let size = unat (of_bytes16 bs) in bind (times size (parse z t) a1) (\<lambda>vs. Done (V_Cont vs))"
        and cs = "concat (map build vs)" and y = v]
      reads_map [OF r, of V_Cont] v(1,2) by simp
next
  case (Optional t)
  then obtain x where v: "v = V_Optional x" by (cases v) auto
  let ?g = "\<lambda>(bs :: u8 list) a1. let hasValue = bs \<noteq> [0]
       in if hasValue then bind (parse z t a1) (\<lambda>v. Done (V_Optional (Some v))) else Done (V_Optional None) a1"
  show ?case
  proof (cases x)
    case None
    have "reads z (?g [0]) [] (V_Optional None)" by simp
    then show ?thesis using reads_bind [OF reads_IStream [of z "[0]"], of ?g "[]" v] v None by simp
  next
    case (Some y)
    then have "reads z (parse z t) (build y) y" using Optional v by simp
    from reads_map [OF this, of "\<lambda>v. V_Optional (Some v)"]
    have "reads z (?g [1]) (build y) v" using v Some by simp
    then show ?thesis using reads_bind [OF reads_IStream [of z "[1]"], of ?g "build y" v] v Some by simp
  qed
next
  case (Map t u)
  then obtain ps where v: "v = V_Map ps" "length ps < 2 ^ 16" "distinct (map fst ps)"
    "\<forall>p \<in> set ps. has_ty t (fst p) \<and> has_ty u (snd p)" by (cases v) auto
  let ?f = "\<lambda>a. bind (parse z t a) (\<lambda>k a1. bind (parse z u a1) (\<lambda>v. Done (k, v)))"
  have f: "reads z ?f (case p of (k, v) \<Rightarrow> build k @ build v) p" if "p \<in> set ps" for p
  proof -
    obtain k x where p: "p = (k, x)" by (cases p)
    then have "reads z (parse z t) (build k) k" "reads z (parse z u) (build x) x" using Map.IH v(4) that by auto
    then show ?thesis unfolding p by (simp add: reads_bind reads_map)
  qed
  have r: "reads z (times (length ps) ?f) (concat (map (\<lambda>(k, v). build k @ build v) ps)) ps"
    by (rule reads_times) (use f in blast)
  have e: "fold (\<lambda>(k, v). AList.update k v) ps [] = ps" using fold_update_distinct [of "[]" ps] v(3) by simp
  show ?case
    using reads_bind [OF reads_bytes(1) [of z "word_of_nat (length ps)"], where g = "\<lambda>bs a1. let size = unat (of_bytes16 bs)
         in bind (times size ?f a1) (\<lambda>ps. Done (V_Map (fold (\<lambda>(k, v). AList.update k v) ps [])))"
        and cs = "concat (map (\<lambda>(k, v). build k @ build v) ps)" and y = v]
      reads_map [OF r, of "\<lambda>ps. V_Map (fold (\<lambda>(k, v). AList.update k v) ps [])"] v(1,2) by (simp add: e)
next
  case (Array n t)
  then obtain vs where v: "v = V_Array vs" "length vs = n" "\<forall>v \<in> set vs. has_ty t v" by (cases v) auto
  have "reads z (times (length vs) (parse z t)) (concat (map build vs)) vs"
    by (rule reads_times) (use v(3) Array.IH in blast)
  from reads_map [OF this, of V_Array] show ?case using v(1,2) by simp
qed

section \<open>Parsed values are well typed\<close>

lemma bind_Done: "bind r f = Done y b \<longleftrightarrow> (\<exists>x a. r = Done x a \<and> f x a = Done y b)"
  by (cases r) auto

lemma bad_get_not_Done: "bad_get z a = Done x b \<Longrightarrow> False"
  by (cases z) simp_all

lemma zero_typed: "has_ty t (zero t)"
  by (induction t) (simp_all add: list_all2_conv_all_nth)

lemma unless_typed: "unless_invalid (zero t) f a = Done v a' \<Longrightarrow> (f a = Done v a' \<Longrightarrow> has_ty t v) \<Longrightarrow> has_ty t v"
  by (auto simp: unless_invalid_def zero_typed split: if_splits)

lemma readData_length: "readData z n a = Done bs a' \<Longrightarrow> length bs \<le> n"
  by (induction n arbitrary: a bs) (auto simp: bind_Done split: if_splits symbol.splits dest!: bad_get_not_Done)

lemma IStream_length: "IStream_read z n a = Done bs a' \<Longrightarrow> length bs = n"
  using readData_length by (fastforce simp: IStream_read_def bind_Done)

lemma each_results: "each fs a = Done vs a' \<Longrightarrow> list_all2 (\<lambda>f v. \<exists>b b'. f b = Done v b') fs vs"
  by (induction fs arbitrary: a vs) (auto simp: bind_Done)

lemma times_results: "times n f a = Done vs a' \<Longrightarrow> length vs = n \<and> (\<forall>v \<in> set vs. \<exists>b b'. f b = Done v b')"
  unfolding times_def by (drule each_results) (force simp: list_all2_conv_all_nth in_set_conv_nth)

lemma update_props:
  "fst ` set (AList.update k v xs) \<subseteq> insert k (fst ` set xs)" "snd ` set (AList.update k v xs) \<subseteq> insert v (snd ` set xs)"
  "length (AList.update k v xs) \<le> Suc (length xs)"
  by (induction xs) auto

lemma fold_update_length: "length (fold (\<lambda>(k, v). AList.update k v) ps qs) \<le> length qs + length ps"
proof (induction ps arbitrary: qs)
  case (Cons p ps)
  obtain k v where p: "p = (k, v)" by (cases p)
  show ?case using Cons [of "AList.update k v qs"] update_props(3) [of k v qs] unfolding p by simp
qed simp

lemma fold_update_distinct_keys: "distinct (map fst qs) \<Longrightarrow> distinct (map fst (fold (\<lambda>(k, v). AList.update k v) ps qs))"
  by (induction ps arbitrary: qs) (auto simp: distinct_update)

lemma fold_update_sets:
  "fst ` set (fold (\<lambda>(k, v). AList.update k v) ps qs) \<subseteq> fst ` set qs \<union> fst ` set ps"
  "snd ` set (fold (\<lambda>(k, v). AList.update k v) ps qs) \<subseteq> snd ` set qs \<union> snd ` set ps"
proof (induction ps arbitrary: qs)
  case (Cons p ps)
  obtain k v where p: "p = (k, v)" by (cases p)
  case 1
  show ?case using Cons(1) [of "AList.update k v qs"] update_props(1) [of k v qs] unfolding p by auto
  case 2
  show ?case using Cons(2) [of "AList.update k v qs"] update_props(2) [of k v qs] unfolding p by auto
qed simp_all

lemma unat_16: "unat (w :: u16) < 2 ^ 16"
  using unsigned_less [of w] by simp

lemma parse_typed: "parse z t a = Done v a' \<Longrightarrow> has_ty t v"
proof (induction t arbitrary: a v a')
  case (Arith n)
  show ?case by (rule unless_typed [OF Arith [unfolded parse.simps]]) (auto simp: bind_Done dest: IStream_length)
next
  case (Aggregate ts)
  show ?case
  proof (rule unless_typed [OF Aggregate.prems [unfolded parse.simps]])
    assume "bind (each (map (parse z) ts) a) (\<lambda>vs. Done (V_Aggregate vs)) = Done v a'"
    then obtain vs where "v = V_Aggregate vs" "list_all2 (\<lambda>f v. \<exists>b b'. f b = Done v b') (map (parse z) ts) vs"
      by (auto simp: bind_Done dest: each_results)
    then show ?thesis using Aggregate.IH by (simp add: list_all2_conv_all_nth) (metis nth_mem)
  qed
next
  case (Cont t)
  show ?case
  proof (rule unless_typed [OF Cont.prems [unfolded parse.simps]])
    assume "bind (IStream_read z 2 a) (\<lambda>bs a1. let size = unat (of_bytes16 bs)
       in bind (times size (parse z t) a1) (\<lambda>vs. Done (V_Cont vs))) = Done v a'"
    then obtain bs b vs where "v = V_Cont vs" "times (unat (of_bytes16 bs)) (parse z t) b = Done vs a'"
      by (auto simp: bind_Done Let_def)
    then show ?thesis using times_results [of "unat (of_bytes16 bs)" "parse z t" b vs a'] Cont.IH unat_16 [of "of_bytes16 bs"]
      by auto
  qed
next
  case (Optional t)
  show ?case by (rule unless_typed [OF Optional.prems [unfolded parse.simps]])
    (use Optional.IH in \<open>auto simp: bind_Done Let_def split: if_splits\<close>)
next
  case (Map t u)
  let ?f = "\<lambda>a. bind (parse z t a) (\<lambda>k a1. bind (parse z u a1) (\<lambda>v. Done (k, v)))"
  show ?case
  proof (rule unless_typed [OF Map.prems [unfolded parse.simps]])
    assume "bind (IStream_read z 2 a) (\<lambda>bs a1. let size = unat (of_bytes16 bs)
       in bind (times size ?f a1) (\<lambda>ps. Done (V_Map (fold (\<lambda>(k, v). AList.update k v) ps [])))) = Done v a'"
    then obtain bs b ps where v: "v = V_Map (fold (\<lambda>(k, v). AList.update k v) ps [])" "times (unat (of_bytes16 bs)) ?f b = Done ps a'"
      by (auto simp: bind_Done Let_def)
    then have "length ps = unat (of_bytes16 bs)" "\<forall>p \<in> set ps. \<exists>b b'. ?f b = Done p b'" using times_results [OF v(2)] by auto
    moreover have "has_ty t (fst p) \<and> has_ty u (snd p)" if "?f b = Done p b'" for b b' p
      using that Map.IH by (auto simp: bind_Done)
    ultimately have "length ps < 2 ^ 16" "\<forall>p \<in> set ps. has_ty t (fst p) \<and> has_ty u (snd p)"
      using unat_16 [of "of_bytes16 bs"] by auto
    moreover have "fst ` set (fold (\<lambda>(k, v). AList.update k v) ps []) \<subseteq> fst ` set ps"
      "snd ` set (fold (\<lambda>(k, v). AList.update k v) ps []) \<subseteq> snd ` set ps" using fold_update_sets [of ps "[]"] by simp_all
    ultimately have "\<forall>p \<in> set (fold (\<lambda>(k, v). AList.update k v) ps []). has_ty t (fst p) \<and> has_ty u (snd p)" by fastforce
    then show ?thesis using fold_update_length [of ps "[]"] fold_update_distinct_keys [of "[]" ps] \<open>length ps < 2 ^ 16\<close> v(1) by simp
  qed
next
  case (Array n t)
  show ?case
  proof (rule unless_typed [OF Array.prems [unfolded parse.simps]])
    assume "bind (times n (parse z t) a) (\<lambda>vs. Done (V_Array vs)) = Done v a'"
    then obtain vs where "v = V_Array vs" "times n (parse z t) a = Done vs a'" by (auto simp: bind_Done)
    then show ?thesis using times_results [of n "parse z t" a vs a'] Array.IH by auto
  qed
qed

end
