(* ===== verification/Packet.thy ===== *)
theory Packet
  imports Serial
begin

text \<open>
  \<^verbatim>\<open>class Packet\<close> of \<^verbatim>\<open>components/packet.hxx\<close> and \<^verbatim>\<open>components/packet.cxx\<close>: sending a message, handling one
  frame, and the loop of the packet thread.  A message type is its number and the shape of its data; the
  number is the hash of the type's name, which the compiler computes.
\<close>

section \<open>Definitions\<close>

text \<open>The registered types, \<^verbatim>\<open>typeInfos\<close>.\<close>

type_synonym type_infos = "u32 \<rightharpoonup> ty"

text \<open>\<^verbatim>\<open>Packet::on\<close> asserts that the type is new.\<close>

definition on :: "u32 \<Rightarrow> ty \<Rightarrow> type_infos \<Rightarrow> type_infos option" where
  "on hash t typeInfos = (if typeInfos hash = None then Some (typeInfos(hash \<mapsto> t)) else None)"

text \<open>\<open>handshake\<close> is the number of \<^verbatim>\<open>Packets::Handshake\<close>, the only type that may be sent before the two
  boards are connected.  The result is what goes to the UART.\<close>

definition emit :: "bool \<Rightarrow> u32 \<Rightarrow> u32 \<Rightarrow> val \<Rightarrow> u8 list" where
  "emit connected handshake hash t =
     (if \<not> connected \<and> hash \<noteq> handshake then []
      else sent (Emitter_end (writeData (build t) (Emitter_begin hash))))"

text \<open>An error is thrown, or printed and returned from.\<close>

primrec throw_or_return :: "cpp \<Rightarrow> exn \<Rightarrow> absorber \<Rightarrow> 'a option res" where
  "throw_or_return Exceptions e a = Raise e a"
| "throw_or_return (No_exceptions junk) e a = Done None a"

definition handleFrame :: "cpp \<Rightarrow> type_infos \<Rightarrow> absorber \<Rightarrow> (u32 \<times> val) option res" where
  "handleFrame c typeInfos absorber =
     bind (Absorber_begin c absorber) (\<lambda>hash a1.
       if invalid a1 then Done None a1
       else case typeInfos hash of
         None \<Rightarrow> throw_or_return c type_info_not_found_error a1
       | Some t \<Rightarrow>
           bind (parse c t a1) (\<lambda>p a2.
           bind (Absorber_check c a2) (\<lambda>ok a3.
             if \<not> ok then throw_or_return c invalid_frame_error a3 else Done (Some (hash, p)) a3)))"

definition fresh :: "u8 list \<Rightarrow> absorber" where
  "fresh bs = \<lparr>pending = bs, acrc = CRC16_INIT_VAL, invalid = False\<rparr>"

section \<open>Reading makes progress\<close>

text \<open>What a reader consumes is a prefix of what has arrived, its checksum is added up, and a stream becomes
  invalid in a build without exceptions only.\<close>

definition consumes :: "cpp \<Rightarrow> u8 list \<Rightarrow> absorber \<Rightarrow> absorber \<Rightarrow> bool" where
  "consumes z p a a' \<longleftrightarrow> pending a = p @ pending a' \<and> acrc a' = crc_over p (acrc a) \<and> (invalid a' \<longrightarrow> invalid a \<or> z \<noteq> Exceptions)"

definition reader :: "cpp \<Rightarrow> (absorber \<Rightarrow> 'a res) \<Rightarrow> bool" where
  "reader z f \<longleftrightarrow> (\<forall>a. case f a of Done x a' \<Rightarrow> \<exists>p. consumes z p a a' | Raise e a' \<Rightarrow> \<exists>p. consumes z p a a' | _ \<Rightarrow> True)"

lemma consumes_trans: "\<lbrakk>consumes z p a b; consumes z q b c\<rbrakk> \<Longrightarrow> consumes z (p @ q) a c"
  by (auto simp: consumes_def)

lemma consumes_refl [simp]: "consumes z [] a a"
  by (simp add: consumes_def)

lemma readerD:
  assumes "reader z f"
  shows "f a = Done x a' \<Longrightarrow> \<exists>p. consumes z p a a'" "f a = Raise e a' \<Longrightarrow> \<exists>p. consumes z p a a'"
proof -
  have "case f a of Done x a' \<Rightarrow> \<exists>p. consumes z p a a' | Raise e a' \<Rightarrow> \<exists>p. consumes z p a a' | _ \<Rightarrow> True"
    using assms unfolding reader_def by (rule spec)
  then show "f a = Done x a' \<Longrightarrow> \<exists>p. consumes z p a a'" "f a = Raise e a' \<Longrightarrow> \<exists>p. consumes z p a a'" by auto
qed

lemma readerI:
  assumes "\<And>a x a'. f a = Done x a' \<Longrightarrow> \<exists>p. consumes z p a a'" "\<And>a e a'. f a = Raise e a' \<Longrightarrow> \<exists>p. consumes z p a a'"
  shows "reader z f"
  unfolding reader_def by (auto split: res.split intro: assms)

lemma reader_Done [simp]: "reader z (Done x)" "reader z (\<lambda>a. Done x a)" "reader z (Raise e)" "reader z (\<lambda>a. Raise e a)"
  by (rule readerI; force intro: consumes_refl)+

lemma reader_invalidate: "reader (No_exceptions j) (\<lambda>a. Done x (a\<lparr>invalid := True\<rparr>))"
proof -
  have "consumes (No_exceptions j) [] a (a\<lparr>invalid := True\<rparr>)" for a by (simp add: consumes_def)
  then show ?thesis unfolding reader_def by auto
qed

lemma reader_errors: "reader z (bad_get z)" "reader z (throw_or_return z e)" "reader z (throw_or_invalidate z e x)"
proof -
  show "reader z (bad_get z)" by (cases z) (auto simp: reader_def intro: consumes_refl)
  show "reader z (throw_or_return z e)" by (cases z) (auto simp: reader_def intro: consumes_refl)
  show "reader z (throw_or_invalidate z e x)"
    using reader_invalidate by (cases z) (auto simp: reader_def intro: consumes_refl)
qed

lemma reader_bind:
  assumes f: "reader z f" and g: "\<And>x. reader z (g x)"
  shows "reader z (\<lambda>a. bind (f a) g)"
proof (rule readerI)
  fix a x a'
  assume "bind (f a) g = Done x a'"
  then obtain y b where "f a = Done y b" "g y b = Done x a'" by (cases "f a") auto
  then show "\<exists>p. consumes z p a a'" using readerD(1) [OF f] readerD(1) [OF g] consumes_trans by metis
next
  fix a e a'
  assume "bind (f a) g = Raise e a'"
  then consider "f a = Raise e a'" | y b where "f a = Done y b" "g y b = Raise e a'" by (cases "f a") auto
  then show "\<exists>p. consumes z p a a'"
    using readerD [OF f] readerD(2) [OF g] consumes_trans by cases metis+
qed

lemma reader_if: "\<lbrakk>reader z f; reader z g\<rbrakk> \<Longrightarrow> reader z (\<lambda>a. if b then f a else g a)"
  by (cases b) simp_all

lemma reader_cases: "\<lbrakk>reader z f; reader z g\<rbrakk> \<Longrightarrow> reader z (\<lambda>a. if P a then f a else g a)"
  by (rule readerI) (auto split: if_splits dest: readerD)

lemma reader_symbol: "\<lbrakk>\<And>d. reader z (f d); \<And>c. reader z (g c)\<rbrakk> \<Longrightarrow> reader z (\<lambda>a. case x of Data d \<Rightarrow> f d a | Control c \<Rightarrow> g c a)"
  by (cases x) simp_all

text \<open>A function of the first state may be used later.\<close>

lemma reader_state: "(\<And>b. reader z (f b)) \<Longrightarrow> reader z (\<lambda>a. f a a)"
  by (rule readerI) (blast dest: readerD)+

lemma reader_readAtom: "reader z readAtom"
  by (rule readerI) (auto simp: readAtom_def consumes_def split: list.splits)

lemma reader_readByte: "reader z (readByte z)"
  unfolding readByte_def by (intro reader_cases reader_bind reader_readAtom reader_if reader_Done reader_errors)

lemma reader_readData: "reader z (readData z n)"
proof (induction n)
  case (Suc n)
  then show ?case unfolding readData.simps
    by (intro reader_cases reader_bind reader_readByte reader_symbol reader_Done reader_errors)
qed simp

lemma reader_IStream: "reader z (IStream_read z n)"
proof -
  have "reader z (\<lambda>a. bind (readData z n a) (\<lambda>bs. Done (bs @ map (uninit z b) [length bs ..< n])))" for b
    by (intro reader_bind reader_readData reader_Done)
  then show ?thesis unfolding IStream_read_def by (rule reader_state)
qed

lemma reader_each: "\<forall>f \<in> set fs. reader z f \<Longrightarrow> reader z (each fs)"
  by (induction fs) (auto intro!: reader_bind)

lemma reader_times: "reader z f \<Longrightarrow> reader z (times n f)"
  unfolding times_def by (rule reader_each) simp

lemma reader_unless: "reader z f \<Longrightarrow> reader z (unless_invalid y f)"
  unfolding unless_invalid_def by (intro reader_cases reader_Done)

lemma reader_parse: "reader z (parse z t)"
proof (induction t)
  case (Aggregate ts)
  then show ?case by (auto intro!: reader_unless reader_bind reader_each)
next
  case (Optional t)
  then show ?case unfolding parse.simps Let_def
    by (intro reader_unless reader_bind reader_IStream reader_if reader_Done)
qed (auto intro!: reader_unless reader_bind reader_IStream reader_times simp: Let_def)

lemma reader_check: "reader z (Absorber_check z)"
proof -
  have "reader z (\<lambda>a. bind (IStream_read z 2 a) (\<lambda>bs. Done (crc16_get (acrc b) = of_bytes16 bs)))" for b
    by (intro reader_bind reader_IStream reader_Done)
  then show ?thesis unfolding Absorber_check_def Let_def by (rule reader_state)
qed

text \<open>A call of \<^verbatim>\<open>handleFrame\<close> that does not wait has consumed at least one byte.\<close>

definition frame_reader :: "cpp \<Rightarrow> type_infos \<Rightarrow> u32 \<Rightarrow> absorber \<Rightarrow> (u32 \<times> val) option res" where
  "frame_reader z typeInfos hash = (\<lambda>a1.
     if invalid a1 then Done None a1
     else case typeInfos hash of
       None \<Rightarrow> throw_or_return z type_info_not_found_error a1
     | Some t \<Rightarrow>
         bind (parse z t a1) (\<lambda>p a2.
         bind (Absorber_check z a2) (\<lambda>ok a3.
           if \<not> ok then throw_or_return z invalid_frame_error a3 else Done (Some (hash, p)) a3)))"

lemma reader_frame: "reader z (frame_reader z typeInfos hash)"
  by (cases "typeInfos hash")
     (auto simp: frame_reader_def intro!: reader_cases reader_bind reader_parse reader_check reader_if reader_errors)

definition no_frame :: "cpp \<Rightarrow> absorber \<Rightarrow> 'a option res" where
  "no_frame z a = bind (throw_or_invalidate z invalid_frame_error () a) (\<lambda>_ a1. Done None a1)"

lemma reader_no_frame: "reader z (no_frame z)"
  unfolding no_frame_def by (intro reader_bind reader_errors reader_Done)

lemma handleFrame_eq:
  "handleFrame z typeInfos a =
     bind (readByte z a) (\<lambda>b a1.
       if b = Control Head then bind (IStream_read z 4 a1) (\<lambda>bs. frame_reader z typeInfos (of_bytes32 bs)) else no_frame z a1)"
proof -
  have a: "bind (bind r f) g = bind r (\<lambda>x a. bind (f x a) g)" for r f g by (cases r) auto
  show ?thesis unfolding handleFrame_def Absorber_begin_def frame_reader_def [symmetric] a
    by (intro arg_cong [of _ _ "bind (readByte z a)"] ext)
       (cases z; auto simp: a no_frame_def frame_reader_def)
qed

lemma readByte_nonempty:
  assumes "\<not> invalid a"
  shows "readByte z a = Done x a' \<Longrightarrow> length (pending a') < length (pending a)"
    "readByte z a = Raise e a' \<Longrightarrow> length (pending a') < length (pending a)"
  using assms by (cases z; auto simp: readByte_def readAtom_def split: list.splits if_splits)+

lemma handleFrame_progress:
  assumes v: "\<not> invalid a"
  shows "handleFrame z typeInfos a = Done x a' \<Longrightarrow> length (pending a') < length (pending a)"
    "handleFrame z typeInfos a = Raise e a' \<Longrightarrow> length (pending a') < length (pending a)"
proof -
  let ?g = "\<lambda>b a1. if b = Control Head then bind (IStream_read z 4 a1) (\<lambda>bs. frame_reader z typeInfos (of_bytes32 bs)) else no_frame z a1"
  have r: "reader z (?g b)" for b by (intro reader_if reader_bind reader_IStream reader_frame reader_no_frame)
  have le: "length (pending a') \<le> length (pending a1)" if "?g b a1 = Done x a' \<or> ?g b a1 = Raise e a'" for b a1
    using that readerD(1) [OF r [of b], of a1 x a'] readerD(2) [OF r [of b], of a1 e a'] by (auto simp: consumes_def)
  note N = readByte_nonempty [OF v, of z]
  show "handleFrame z typeInfos a = Done x a' \<Longrightarrow> length (pending a') < length (pending a)"
    unfolding handleFrame_eq using le N(1) by (cases "readByte z a") (simp_all, meson le_less_trans)
  show "handleFrame z typeInfos a = Raise e a' \<Longrightarrow> length (pending a') < length (pending a)"
    unfolding handleFrame_eq using le N by (cases "readByte z a") (simp_all, meson le_less_trans)
qed

text \<open>The loop of the packet thread, up to the point where it waits for bytes that have not arrived or the program
  aborts: the messages handed to the callbacks, in order.  An exception ends the call of \<^verbatim>\<open>handleFrame\<close>, not the loop.\<close>

function packet_loop :: "cpp \<Rightarrow> type_infos \<Rightarrow> u8 list \<Rightarrow> (u32 \<times> val) list" where
  "packet_loop c typeInfos bs =
     (case handleFrame c typeInfos (fresh bs) of
        Done None a \<Rightarrow> packet_loop c typeInfos (pending a)
      | Done (Some m) a \<Rightarrow> m # packet_loop c typeInfos (pending a)
      | Raise e a \<Rightarrow> packet_loop c typeInfos (pending a)
      | Wait \<Rightarrow> []
      | Abort \<Rightarrow> [])"
  by pat_completeness auto
termination
  by (relation "measure (\<lambda>(c, typeInfos, bs). length bs)")
     (use handleFrame_progress [of "fresh _"] in \<open>fastforce simp: fresh_def\<close>)+

declare packet_loop.simps [simp del]

section \<open>Frames\<close>

definition frame :: "u32 \<Rightarrow> val \<Rightarrow> u8 list" where
  "frame hash v = sent (Emitter_end (writeData (build v) (Emitter_begin hash)))"

text \<open>The checksum covers the head and the escaped bytes, not the bytes before escaping.\<close>

definition frame_crc :: "u32 \<Rightarrow> val \<Rightarrow> u16" where
  "frame_crc hash v = crc16_get (crc_over (Head # escs (bytes32 hash @ build v)) CRC16_INIT_VAL)"

lemma frame_eq: "frame hash v = Head # escs (bytes32 hash @ build v) @ escs (bytes16 (frame_crc hash v))"
  by (simp add: frame_def frame_crc_def Emitter_end_def Emitter_begin_def writeData_state writeByte_def writeAtom_def Let_def)

lemma emit_frame: "emit True handshake hash v = frame hash v"
  by (simp add: emit_def frame_def)

lemma handleFrame_frame:
  assumes t: "typeInfos hash = Some t" "has_ty t v"
  shows "\<exists>c. handleFrame z typeInfos (fresh (frame hash v @ r)) = Done (Some (hash, v)) (valid_at r c)"
proof -
  let ?c = "crc_over (Head # escs (bytes32 hash @ build v)) CRC16_INIT_VAL"
  note h = readsD(1) [OF reads_bytes(2)] and p = readsD(1) [OF reads_parse [OF t(2)]] and c = readsD(1) [OF reads_bytes(1)]
  have "Absorber_check z (valid_at (escs (bytes16 (crc16_get ?c)) @ r) ?c) =
      Done True (valid_at r (crc_over (escs (bytes16 (crc16_get ?c))) ?c))"
    by (simp add: Absorber_check_def c)
  then show ?thesis
    by (simp add: handleFrame_eq fresh_def frame_eq frame_crc_def readByte_esc(2) h frame_reader_def t(1) p)
qed

lemma packet_loop_frame:
  assumes "typeInfos hash = Some t" "has_ty t v"
  shows "packet_loop z typeInfos (frame hash v @ r) = (hash, v) # packet_loop z typeInfos r"
  using handleFrame_frame [of typeInfos hash t v z r, OF assms] by (subst packet_loop.simps) auto

text \<open>A frame that is cut off, by a head where one of its bytes is due.\<close>

lemma handleFrame_cut:
  assumes t: "typeInfos hash = Some t" "has_ty t v"
    and k: "k < length (bytes32 hash @ build v @ bytes16 (frame_crc hash v))"
  shows "\<exists>c. handleFrame z typeInfos (fresh (Head # escs (take k (bytes32 hash @ build v @ bytes16 (frame_crc hash v))) @ Head # r)) =
    bad_get z (valid_at r c)"
proof -
  let ?h = "bytes32 hash" and ?b = "build v" and ?q = "bytes16 (frame_crc hash v)"
  note R = reads_bytes(2) [of z hash] reads_parse [OF t(2), of z] reads_bytes(1) [of z "frame_crc hash v"]
  consider "k < length ?h" | "length ?h \<le> k" "k - length ?h < length ?b"
    | "length ?h \<le> k" "length ?b \<le> k - length ?h" "k - length ?h - length ?b < length ?q"
    using k by fastforce
  then show ?thesis
  proof cases
    case 1
    then obtain c where "IStream_read z 4 (valid_at (escs (take k ?h) @ Head # r) (crc16_update Head CRC16_INIT_VAL)) = bad_get z (valid_at r c)"
      using readsD(2) [OF R(1) 1] by blast
    then show ?thesis using 1 by (auto simp: handleFrame_eq fresh_def readByte_esc(2))
  next
    case 2
    then show ?thesis
      using readsD(2) [OF R(2) 2(2), of r "crc_over (escs ?h) (crc16_update Head CRC16_INIT_VAL)"] readsD(1) [OF R(1)]
      by (auto simp: handleFrame_eq fresh_def readByte_esc(2) frame_reader_def t(1))
  next
    case 3
    then show ?thesis
      using readsD(2) [OF R(3) 3(3), of r "crc_over (escs ?b) (crc_over (escs ?h) (crc16_update Head CRC16_INIT_VAL))"]
        readsD(1) [OF R(1)] readsD(1) [OF R(2)]
      by (auto simp: handleFrame_eq fresh_def readByte_esc(2) frame_reader_def t(1) Absorber_check_def)
  qed
qed

section \<open>Noise\<close>

text \<open>Bytes without a head of their own; an escape byte takes the next byte with it.\<close>

fun noise :: "u8 list \<Rightarrow> bool" where
  "noise [] \<longleftrightarrow> True"
| "noise [b] \<longleftrightarrow> b \<noteq> Head \<and> b \<noteq> Escape"
| "noise (b # c # bs) \<longleftrightarrow> (if b = Escape then noise bs else b \<noteq> Head \<and> noise (c # bs))"

lemma noise_esc: "noise bs \<Longrightarrow> noise (esc b @ bs)"
  by (cases bs) (auto simp: esc_def)

lemma noise_escs: "noise (escs bs)"
  by (induction bs) (simp_all add: noise_esc)

lemma no_frame_loop:
  assumes "handleFrame z typeInfos (fresh bs) = no_frame z a \<or> (\<exists>e. handleFrame z typeInfos (fresh bs) = Raise e a)"
  shows "packet_loop z typeInfos bs = packet_loop z typeInfos (pending a)"
  using assms by (subst packet_loop.simps, cases z) (auto simp: no_frame_def)

lemma packet_loop_noise: "noise g \<Longrightarrow> packet_loop z typeInfos (g @ r) = packet_loop z typeInfos r"
proof (induction g rule: noise.induct)
  case (2 b)
  then have "handleFrame z typeInfos (fresh (b # r)) = no_frame z (valid_at r (crc16_update b CRC16_INIT_VAL))"
    by (simp add: handleFrame_eq readByte_def readAtom_def fresh_def)
  from no_frame_loop [OF disjI1 [OF this]] show ?case by simp
next
  case (3 b c bs)
  show ?case
  proof (cases "b = Escape")
    case True
    let ?a = "valid_at (bs @ r) (crc16_update c (crc16_update b CRC16_INIT_VAL))"
    have "packet_loop z typeInfos (b # c # bs @ r) = packet_loop z typeInfos (bs @ r)"
    proof (cases "z = Exceptions \<or> c = Head \<or> c = Escape")
      case k: True
      then have "handleFrame z typeInfos (fresh (b # c # bs @ r)) = no_frame z ?a \<or>
          (\<exists>e. handleFrame z typeInfos (fresh (b # c # bs @ r)) = Raise e ?a)"
        using True by (auto simp: handleFrame_eq readByte_def readAtom_def fresh_def)
      from no_frame_loop [OF this] show ?thesis by simp
    next
      case False
      then obtain j where "z = No_exceptions j" by (cases z) auto
      then have "handleFrame z typeInfos (fresh (b # c # bs @ r)) = no_frame z (?a\<lparr>invalid := True\<rparr>)"
        using True False by (simp add: handleFrame_eq readByte_def readAtom_def fresh_def)
      from no_frame_loop [OF disjI1 [OF this]] show ?thesis by simp
    qed
    then show ?thesis using 3 True by simp
  next
    case False
    then have "handleFrame z typeInfos (fresh (b # c # bs @ r)) = no_frame z (valid_at (c # bs @ r) (crc16_update b CRC16_INIT_VAL))"
      using 3 by (simp add: handleFrame_eq readByte_def readAtom_def fresh_def)
    from no_frame_loop [OF disjI1 [OF this]] show ?thesis using 3 False by simp
  qed
qed simp

section \<open>What an accepted frame looks like\<close>

text \<open>A read of bytes that leaves the stream valid has taken them all from it; one that does not is short.\<close>

lemma readData_Suc_Done:
  "readData z (Suc n) a = Done bs a' \<longleftrightarrow>
     (invalid a \<and> bs = [] \<and> a' = a) \<or> (\<not> invalid a \<and> (\<exists>d. readByte z a = Done d a' \<and> invalid a' \<and> bs = [])) \<or>
     (\<not> invalid a \<and> (\<exists>b cs a1. readByte z a = Done (Data b) a1 \<and> \<not> invalid a1 \<and> readData z n a1 = Done cs a' \<and> bs = b # cs))"
proof (cases "invalid a")
  case False
  show ?thesis
  proof (cases "readByte z a")
    case (Done d a1)
    then show ?thesis
      using False by (cases d) (auto simp: bind_Done dest: bad_get_not_Done)
  qed (simp_all add: False)
qed auto

lemma readData_consumed:
  "readData z n a = Done bs a' \<Longrightarrow> \<not> invalid a' \<Longrightarrow> pending a = escs bs @ pending a' \<and> length bs = n"
proof (induction n arbitrary: a bs)
  case (Suc n)
  obtain b cs a1 where s: "\<not> invalid a" "readByte z a = Done (Data b) a1" "\<not> invalid a1" "readData z n a1 = Done cs a'" "bs = b # cs"
    using Suc.prems unfolding readData_Suc_Done by auto
  have "pending a = esc b @ pending a1"
    using s(1-3) by (cases z) (auto simp: readByte_def readAtom_def bind_Done esc_def split: list.splits if_splits)
  then show ?case using Suc.IH [OF s(4) Suc.prems(2)] s(5) by simp
qed simp

lemma readData_short: "readData z n a = Done bs a' \<Longrightarrow> invalid a' \<Longrightarrow> 0 < n \<Longrightarrow> length bs < n"
proof (induction n arbitrary: a bs)
  case (Suc n)
  from Suc.prems(1,2) show ?case unfolding readData_Suc_Done
    by (cases "n = 0") (auto dest: Suc.IH)
qed simp

lemma crc_over_cal: "crc16_cyc_cal crc16_table_A001 c bs (length bs) = Some (crc_over bs c)"
proof (induction bs arbitrary: c)
  case (Cons b bs)
  then show ?case by (simp add: crc16_update_def Let_def)
qed simp

text \<open>The two bytes that the checksum is compared with are those of the frame; without exceptions some of them may be
  left over from the stack, when the stream has become invalid.\<close>

lemma accepted_frame:
  assumes d: "handleFrame z typeInfos (fresh bs) = Done (Some (hash, v)) a"
  obtains p t cs b where "bs = (Head # p) @ escs cs @ pending a" "length cs = 2" "\<not> invalid a"
      "crc16_get (crc_over (Head # p) CRC16_INIT_VAL) = of_bytes16 cs" "typeInfos hash = Some t" "has_ty t v"
    | p q t cs b junk where "z = No_exceptions junk" "bs = (Head # p) @ q @ pending a" "length cs < 2" "invalid a"
      "crc16_get (crc_over (Head # p) CRC16_INIT_VAL) = of_bytes16 (cs @ map (junk b) [length cs ..< 2])" "typeInfos hash = Some t" "has_ty t v"
proof -
  obtain x a1 where 1: "readByte z (fresh bs) = Done x a1"
    and x: "(if x = Control Head then bind (IStream_read z 4 a1) (\<lambda>bs. frame_reader z typeInfos (of_bytes32 bs)) else no_frame z a1) =
      Done (Some (hash, v)) a"
    using d unfolding handleFrame_eq by (auto simp: bind_Done)
  have "no_frame z a1 \<noteq> Done (Some (hash, v)) a" by (cases z) (simp_all add: no_frame_def)
  then obtain hs a2 where 2: "x = Control Head" "IStream_read z 4 a1 = Done hs a2" "frame_reader z typeInfos (of_bytes32 hs) a2 = Done (Some (hash, v)) a"
    using x by (auto simp: bind_Done split: if_splits)
  have c1: "consumes z [Head] (fresh bs) a1"
    using 1 2(1) by (cases z) (auto simp: readByte_def readAtom_def bind_Done consumes_def fresh_def split: list.splits if_splits)
  have "throw_or_return z e b \<noteq> Done (Some y) a" for e b and y :: "u32 \<times> val" by (cases z) simp_all
  then obtain t a3 where 3: "typeInfos hash = Some t" "parse z t a2 = Done v a3" "Absorber_check z a3 = Done True a"
    using 2(3) by (auto simp: frame_reader_def bind_Done split: option.splits if_splits)
  obtain cs where 4: "readData z 2 a3 = Done cs a" "crc16_get (acrc a3) = of_bytes16 (cs @ map (uninit z a3) [length cs ..< 2])"
    using 3(3) by (auto simp: Absorber_check_def IStream_read_def bind_Done)
  obtain p q r where pq: "consumes z p a1 a2" "consumes z q a2 a3" "consumes z r a3 a"
    using readerD(1) [OF reader_IStream 2(2)] readerD(1) [OF reader_parse 3(2)] readerD(1) [OF reader_readData 4(1)] by blast
  have c3: "consumes z ((Head # p) @ q) (fresh bs) a3" using consumes_trans [OF consumes_trans [OF c1 pq(1)] pq(2)] by simp
  then have crc: "crc16_get (crc_over (Head # p @ q) CRC16_INIT_VAL) = of_bytes16 (cs @ map (uninit z a3) [length cs ..< 2])"
    using 4(2) by (simp add: consumes_def fresh_def)
  note T = 3(1) parse_typed [OF 3(2)]
  show ?thesis
  proof (cases "invalid a")
    case False
    then have "pending a3 = escs cs @ pending a" "length cs = 2" using readData_consumed [OF 4(1)] by simp_all
    then show ?thesis using that(1) [of "p @ q" cs t] False crc T c3 by (simp add: consumes_def fresh_def)
  next
    case True
    then obtain junk where z: "z = No_exceptions junk"
      using consumes_trans [OF c3 pq(3)] by (cases z) (auto simp: consumes_def fresh_def)
    have "bs = (Head # p @ q) @ r @ pending a" using c3 pq(3) by (simp add: consumes_def fresh_def)
    then show ?thesis using that(2) [of junk "p @ q" r cs a3 t] z readData_short [OF 4(1) True] True T crc by simp
  qed
qed

lemma packet_loop_messages:
  assumes "noise g" "\<forall>m \<in> set ms. \<exists>t. typeInfos (fst m) = Some t \<and> has_ty t (snd m)"
  shows "packet_loop z typeInfos (g @ concat (map (\<lambda>(hash, v). emit True handshake hash v) ms)) = ms"
proof -
  have "packet_loop z typeInfos (concat (map (\<lambda>(hash, v). emit True handshake hash v) ms)) = ms"
    using assms(2)
  proof (induction ms)
    case Nil
    show ?case by (subst packet_loop.simps) (simp add: handleFrame_eq readByte_def readAtom_def fresh_def)
  next
    case (Cons m ms)
    obtain hash v t where "m = (hash, v)" "typeInfos hash = Some t" "has_ty t v" using Cons.prems by (cases m) auto
    then show ?case using Cons packet_loop_frame [of typeInfos hash t v] by (simp add: emit_frame)
  qed
  then show ?thesis using packet_loop_noise [OF assms(1)] by simp
qed

section \<open>Properties\<close>


text \<open>\<^verbatim>\<open>Packets::Handshake\<close>, a flag and a byte, under a number of its own.\<close>

definition demo_types :: type_infos where
  "demo_types = [0x12a5ff34 \<mapsto> Aggregate [Arith 1, Arith 1], 7 \<mapsto> Aggregate [Arith 1, Optional (Cont (Arith 4))]]"


text \<open>A frame that is cut off costs the next one too.  When a frame breaks off and another follows,
  the head of the second one ends the first: \<^verbatim>\<open>std::get\<close> raises an exception, and since the head has
  been read, the rest of the second frame is skipped as noise.  The third frame is received again.\<close>

theorem packet_cut_loses_next:
  assumes "typeInfos hash = Some t" "has_ty t v" "k < length (bytes32 hash @ build v)"
  shows "packet_loop Exceptions typeInfos ((Head # escs (take k (bytes32 hash @ build v))) @ emit True handshake hash2 v2 @ r) =
    packet_loop Exceptions typeInfos r"
proof -
  let ?tail = "escs (bytes32 hash2 @ build v2 @ bytes16 (frame_crc hash2 v2))"
  have "packet_loop Exceptions typeInfos ((Head # escs (take k (bytes32 hash @ build v))) @ emit True handshake hash2 v2 @ r) =
      packet_loop Exceptions typeInfos (?tail @ r)"
    using handleFrame_cut [of typeInfos hash t v k Exceptions "?tail @ r", OF assms(1,2)] assms(3)
    by (subst packet_loop.simps) (auto simp: emit_frame frame_eq)
  then show ?thesis using packet_loop_noise [OF noise_escs] by simp
qed

theorem packet_cut_loses_next_witness:
  "packet_loop Exceptions demo_types ((0xa5 # escs (take 5 (bytes32 0x12a5ff34 @ build (V_Aggregate [V_Arith [1], V_Arith [0]])))) @
     emit True 0x12a5ff34 7 (V_Aggregate [V_Arith [1], V_Optional None]) @ [1, 2]) = packet_loop Exceptions demo_types [1, 2]"
  by (rule packet_cut_loses_next [where t = "Aggregate [Arith 1, Arith 1]"]) (simp_all add: demo_types_def)

text \<open>The lower board, which is built without exceptions, does not survive this: \<^verbatim>\<open>std::get\<close> aborts the program.\<close>

theorem packet_cut_aborts:
  assumes "typeInfos hash = Some t" "has_ty t v" "k < length (bytes32 hash @ build v)"
  shows "handleFrame (No_exceptions junk) typeInfos (fresh ((Head # escs (take k (bytes32 hash @ build v))) @ Head # r)) = Abort"
  using handleFrame_cut [of typeInfos hash t v k "No_exceptions junk" r, OF assms(1,2)] assms(3) by simp

text \<open>C5: What an accepted message is.  If the handler of either build accepts a message, whatever bytes have
  arrived, the type is registered and the message has that type, and the bytes begin with a head.  Either the two bytes after
  the message are the CRC-16 of everything before them, as the library computes it, which is always so in the
  build of the upper board; or the build has no exceptions, the stream has become invalid (which an escape byte
  before a byte that needs none does to it), and the checksum was compared with at least one byte that was never read.\<close>

theorem packet_checked:
  assumes "handleFrame z typeInfos (fresh bs) = Done (Some (hash, v)) a"
  shows "(\<exists>t. typeInfos hash = Some t \<and> has_ty t v) \<and>
    ((\<exists>p cs. \<not> invalid a \<and> bs = (Head # p) @ escs cs @ pending a \<and> length cs = 2 \<and>
        crc16_cal crc16_table_A001 (Head # p) (length (Head # p)) = Some (of_bytes16 cs)) \<or>
     (\<exists>junk p q cs b. z = No_exceptions junk \<and> invalid a \<and> bs = (Head # p) @ q @ pending a \<and> length cs < 2 \<and>
        crc16_cal crc16_table_A001 (Head # p) (length (Head # p)) = Some (of_bytes16 (cs @ map (junk b) [length cs ..< 2]))))"
proof -
  have c: "crc16_cal crc16_table_A001 (Head # p) (length (Head # p)) = Some (crc16_get (crc_over (Head # p) CRC16_INIT_VAL))" for p
    using crc_over_cal [of CRC16_INIT_VAL "Head # p"] by (simp add: crc16_cal_def crc16_get_def)
  show ?thesis unfolding c by (rule accepted_frame [OF assms]) (blast, metis)
qed

theorem packet_checked_witness:
  "\<exists>a p cs. handleFrame Exceptions demo_types (fresh (frame 7 (V_Aggregate [V_Arith [3], V_Optional None]))) =
      Done (Some (7, V_Aggregate [V_Arith [3], V_Optional None])) a \<and>
    crc16_cal crc16_table_A001 (0xa5 # p) (length (0xa5 # p)) = Some (of_bytes16 cs) \<and> length cs = 2"
proof -
  obtain c where "handleFrame Exceptions demo_types (fresh (frame 7 (V_Aggregate [V_Arith [3], V_Optional None]))) =
      Done (Some (7, V_Aggregate [V_Arith [3], V_Optional None])) (valid_at [] c)"
    using handleFrame_frame [of demo_types 7 "Aggregate [Arith 1, Optional (Cont (Arith 4))]" "V_Aggregate [V_Arith [3], V_Optional None]" Exceptions "[]"]
    by (auto simp: demo_types_def)
  then show ?thesis using packet_checked by fastforce
qed

text \<open>The second case does occur: a frame of two bytes whose second byte is a wrong escape is accepted when
  the stack happens to hold the checksum of what was read; the byte that was not read is then taken from the stack too.\<close>

theorem packet_unchecked:
  "\<exists>junk a. handleFrame (No_exceptions junk) demo_types (fresh (0xa5 # escs (bytes32 0x12a5ff34) @ [1, 0xff, 9])) =
     Done (Some (0x12a5ff34, V_Aggregate [V_Arith [1], V_Arith [77]])) a"
proof -
  define w where "w = crc16_get (crc_over (0xa5 # escs (bytes32 0x12a5ff34) @ [1, 0xff, 9]) CRC16_INIT_VAL)"
  define junk :: "absorber \<Rightarrow> nat \<Rightarrow> u8" where "junk = (\<lambda>a i. if invalid a then bytes16 w ! i else 77)"
  have h: "IStream_read z 4 (valid_at (escs (bytes32 0x12a5ff34) @ r) c) =
      Done (bytes32 0x12a5ff34) (valid_at r (crc_over (escs (bytes32 0x12a5ff34)) c))" for z r c
    by (rule readsD(1) [OF reads_bytes(2)])
  have s: "map (junk a) [0..<2] = bytes16 w" if "invalid a" for a
    by (rule nth_equalityI) (use that in \<open>simp_all add: junk_def\<close>)
  have c: "IStream_read (No_exceptions junk) 2 a = Done (bytes16 w) a" if "invalid a" for a
  proof -
    have "readData (No_exceptions junk) 2 a = Done [] a" using that by (simp add: eval_nat_numeral)
    then show ?thesis using s that by (simp add: IStream_read_def)
  qed
  have j: "junk a i = 77" if "\<not> invalid a" for a i using that by (simp add: junk_def)
  have "\<exists>a. handleFrame (No_exceptions junk) demo_types (fresh (0xa5 # escs (bytes32 0x12a5ff34) @ [1, 0xff, 9])) =
     Done (Some (0x12a5ff34, V_Aggregate [V_Arith [1], V_Arith [77]])) a"
    by (simp add: handleFrame_eq fresh_def readByte_def readAtom_def h frame_reader_def demo_types_def unless_invalid_def
          IStream_read_def [of _ "Suc 0"] Absorber_check_def c j w_def)
  then show ?thesis by blast
qed

end
