(* ===== verification/Pile.thy ===== *)
theory Pile
  imports Prelude
begin

text \<open>
  The lower board's own program: the ports of the charging pile and the functions added to them.  A port is
  a relay, a meter, \<^verbatim>\<open>components/virtual_load_detector.cxx\<close> and \<^verbatim>\<open>components/state_store.cxx\<close>, joined by
  \<^verbatim>\<open>Observable\<close>s as \<^verbatim>\<open>components/charger.cxx\<close> joins them; \<^verbatim>\<open>applications/thing.cxx\<close> adds the functions
  of \<^verbatim>\<open>applications/things/decos\<close> in the order counter, current limiter, no-load detector, backup, data
  report and consumption.  An assignment to an \<^verbatim>\<open>Observable\<close> that changes its value calls the observers in
  the order in which they registered; here the calls are written out in that order.  The operations are
  atomic steps: the callbacks of the timers, the readings of the meter and the commands.
\<close>

section \<open>Definitions\<close>

text \<open>\<^verbatim>\<open>utilities/count_down.hxx\<close> with its default type of one byte.\<close>

record count_down =
  counting :: bool
  currVal :: u8
  initVal :: u8

definition CountDown :: "u8 \<Rightarrow> count_down" where
  "CountDown v = \<lparr>counting = False, currVal = v, initVal = v\<rparr>"

definition cd_reset :: "count_down \<Rightarrow> count_down" where
  "cd_reset c = c\<lparr>counting := False, currVal := initVal c\<rparr>"

definition cd_trigger :: "count_down \<Rightarrow> count_down" where
  "cd_trigger c = c\<lparr>counting := True\<rparr>"

definition cd_forceTrigger :: "count_down \<Rightarrow> count_down" where
  "cd_forceTrigger c = c\<lparr>counting := True, currVal := 1\<rparr>"

definition cd_retrigger :: "count_down \<Rightarrow> count_down" where
  "cd_retrigger c = (let c1 = c\<lparr>counting := True\<rparr> in if currVal c1 = 0 then c1\<lparr>currVal := initVal c1\<rparr> else c1)"

definition cd_updateAndCheck :: "count_down \<Rightarrow> count_down \<times> bool" where
  "cd_updateAndCheck c =
     (if \<not> counting c then (c, False)
      else if currVal c = 0 then (c, False)
      else let c1 = c\<lparr>currVal := currVal c - 1\<rparr> in (c1, currVal c1 = 0))"

text \<open>\<^verbatim>\<open>State::Value\<close> and \<^verbatim>\<open>Relay::Value\<close>.\<close>

datatype state = LoadNotInsert | LoadInserted | Charging | LoadWaitRemove | Error

datatype relay = On | Off

text \<open>One port: relay and output pin, the state and the timer of the load detector (\<open>None\<close> is the null
  pointer, otherwise whether the timer runs), the state store, and the readings of the meter.\<close>

record port =
  relay_value :: "relay option"
  pin :: "bool option"
  load :: "bool option"
  load_timer :: "bool option"
  oState :: "state option"
  current :: "int option"
  voltage :: "int option"

text \<open>What \<^verbatim>\<open>Thing\<close> and the functions keep for a port: \<^verbatim>\<open>ChargerInfo\<close> and the specs of the functions.
  The consumption is a float, kept as its bits.\<close>

record spec =
  timerId :: int
  leftSeconds :: int
  consumption :: u32
  finalState :: state
  limit_count :: count_down
  noloadCount :: count_down
  doneCount :: count_down
  stateHasTransitioned :: bool
  backupCount :: count_down
  fResume :: count_down
  prevCurrMiA :: int
  prevState :: state
  prevConsumption :: u32
  data_count :: count_down
  meas_tick :: u32
  prevCurr :: int
  prevVol :: int

record dev_config =
  currentLimit :: int
  uploadThr :: int
  fuzedThr :: int
  noloadCurrThr :: int
  doneCurrThr :: int

record backup =
  b_leftSeconds :: int
  b_timerId :: int
  b_consumption :: u32

record current_data =
  d_port :: nat
  d_timerId :: int
  d_leftMinutes :: int
  d_state :: state
  d_current :: int
  d_voltage :: int
  d_consumption :: u32

text \<open>What leaves the board.\<close>

datatype event = State_Event nat state | Current_Limit nat | Current_Data current_data

text \<open>\<open>flash\<close> and \<open>flash_conf\<close> are the backup and the configuration partition.  \<open>null_read\<close> tells that the
  detector has called a member of a timer through a null pointer, \<open>bad_port\<close> that a command has indexed the array of
  ports outside its bounds; what the machine does then is undefined, and the model does nothing else.\<close>

record thing =
  ports :: "nat \<Rightarrow> port"
  specs :: "nat \<Rightarrow> spec"
  conf :: dev_config
  noload_port :: nat
  data_port :: nat
  resume_port :: nat
  backup_port :: nat
  nextCount :: count_down
  isFirstCharge :: bool
  flash :: "nat \<Rightarrow> backup"
  flash_conf :: dev_config
  tick :: u32
  events :: "event list"
  null_read :: bool
  bad_port :: bool

abbreviation (input) kPortNum :: nat where "kPortNum \<equiv> 10"

definition upd_port :: "nat \<Rightarrow> (port \<Rightarrow> port) \<Rightarrow> thing \<Rightarrow> thing" where
  "upd_port i f t = t\<lparr>ports := (ports t)(i := f (ports t i))\<rparr>"

definition upd_spec :: "nat \<Rightarrow> (spec \<Rightarrow> spec) \<Rightarrow> thing \<Rightarrow> thing" where
  "upd_spec i f t = t\<lparr>specs := (specs t)(i := f (specs t i))\<rparr>"

definition emit_event :: "event \<Rightarrow> thing \<Rightarrow> thing" where
  "emit_event e t = t\<lparr>events := events t @ [e]\<rparr>"

abbreviation charging :: "nat \<Rightarrow> thing \<Rightarrow> bool" where
  "charging i t \<equiv> oState (ports t i) = Some Charging"

definition value_or0 :: "int option \<Rightarrow> int" where
  "value_or0 x = (case x of None \<Rightarrow> 0 | Some v \<Rightarrow> v)"

subsection \<open>The functions: state changes\<close>

definition Counter_onStateChanged :: "nat \<Rightarrow> state \<Rightarrow> thing \<Rightarrow> thing" where
  "Counter_onStateChanged i st t = (if st \<noteq> LoadWaitRemove then t else upd_spec i (\<lambda>s. s\<lparr>leftSeconds := 0\<rparr>) t)"

definition checkCurrent :: "nat \<Rightarrow> int \<Rightarrow> thing \<Rightarrow> thing" where
  "checkCurrent i val t =
     (let c = conf t;
          t1 = upd_spec i (\<lambda>s. s\<lparr>noloadCount := (if val < noloadCurrThr c then cd_trigger (noloadCount s) else cd_reset (noloadCount s))\<rparr>) t
      in upd_spec i (\<lambda>s. s\<lparr>doneCount := (if val < doneCurrThr c then cd_trigger (doneCount s) else cd_reset (doneCount s))\<rparr>) t1)"

definition NoloadDetecter_onStateChanged :: "nat \<Rightarrow> state \<Rightarrow> thing \<Rightarrow> thing" where
  "NoloadDetecter_onStateChanged i st t =
     (if st \<noteq> Charging
      then upd_spec i (\<lambda>s. s\<lparr>noloadCount := cd_reset (noloadCount s), doneCount := cd_reset (doneCount s)\<rparr>) t
      else checkCurrent i (value_or0 (current (ports t i))) t)"

definition Backuper_onStateChanged :: "nat \<Rightarrow> state \<Rightarrow> thing \<Rightarrow> thing" where
  "Backuper_onStateChanged i st t =
     (if \<not> stateHasTransitioned (specs t i) then upd_spec i (\<lambda>s. s\<lparr>fResume := cd_trigger (fResume s)\<rparr>) t
      else if st = Charging \<or> st = LoadWaitRemove
      then upd_spec i (\<lambda>s. s\<lparr>backupCount := cd_forceTrigger (backupCount s)\<rparr>) t
      else t)"

definition DataSetter_onStateChanged :: "nat \<Rightarrow> state \<Rightarrow> thing \<Rightarrow> thing" where
  "DataSetter_onStateChanged i st t =
     (case st of
        Charging \<Rightarrow> upd_spec i (\<lambda>s. s\<lparr>finalState := LoadWaitRemove, prevCurrMiA := value_or0 (current (ports t i)),
                       prevState := st, data_count := cd_retrigger (data_count s)\<rparr>) t
      | LoadWaitRemove \<Rightarrow> upd_spec i (\<lambda>s. s\<lparr>prevState := st, prevConsumption := consumption s,
                       data_count := cd_retrigger (data_count s)\<rparr>) t
      | _ \<Rightarrow> t)"

definition ConsumptionMeasurer_onStateChanged :: "nat \<Rightarrow> state \<Rightarrow> thing \<Rightarrow> thing" where
  "ConsumptionMeasurer_onStateChanged i st t =
     (case st of
        Charging \<Rightarrow>
          let t1 = (if isFirstCharge t then t\<lparr>isFirstCharge := False\<rparr> else upd_spec i (\<lambda>s. s\<lparr>consumption := 0\<rparr>) t)
          in upd_spec i (\<lambda>s. s\<lparr>meas_tick := tick t1, prevCurr := value_or0 (current (ports t1 i)),
               prevVol := value_or0 (voltage (ports t1 i))\<rparr>) t1
      | LoadNotInsert \<Rightarrow> upd_spec i (\<lambda>s. s\<lparr>consumption := 0\<rparr>) t
      | _ \<Rightarrow> t)"

text \<open>The observers of a port's state: the local state store sends it to the other board, then the
  functions of the thing run.\<close>

definition decos_onStateChanged :: "nat \<Rightarrow> state \<Rightarrow> thing \<Rightarrow> thing" where
  "decos_onStateChanged i st t =
     ConsumptionMeasurer_onStateChanged i st (DataSetter_onStateChanged i st (Backuper_onStateChanged i st
       (NoloadDetecter_onStateChanged i st (Counter_onStateChanged i st t))))"

definition state_changed :: "nat \<Rightarrow> state \<Rightarrow> thing \<Rightarrow> thing" where
  "state_changed i st t = decos_onStateChanged i st (emit_event (State_Event i st) t)"

subsection \<open>The port\<close>

text \<open>Assignment to the state.\<close>

definition set_state :: "nat \<Rightarrow> state \<Rightarrow> thing \<Rightarrow> thing" where
  "set_state i st t =
     (if oState (ports t i) = Some st then t
      else state_changed i st (upd_port i (\<lambda>p. p\<lparr>oState := Some st\<rparr>) t))"

definition StateStore_update :: "nat \<Rightarrow> thing \<Rightarrow> thing" where
  "StateStore_update i t =
     (if relay_value (ports t i) = Some On then set_state i Charging t
      else case load (ports t i) of
             Some False \<Rightarrow> set_state i LoadNotInsert t
           | _ \<Rightarrow> t)"

text \<open>Assignment to the detector's state, observed by the state store.\<close>

definition set_load :: "nat \<Rightarrow> bool \<Rightarrow> thing \<Rightarrow> thing" where
  "set_load i b t =
     (if load (ports t i) = Some b then t
      else let t1 = upd_port i (\<lambda>p. p\<lparr>load := Some b\<rparr>) t
           in if b then set_state i LoadInserted t1 else StateStore_update i t1)"

text \<open>\<open>garbage\<close> is what \<^verbatim>\<open>timer->isRunning()\<close> yields when \<^verbatim>\<open>timer\<close> is the null pointer.\<close>

definition VirtualLoadDetector_update :: "bool \<Rightarrow> nat \<Rightarrow> thing \<Rightarrow> thing" where
  "VirtualLoadDetector_update garbage i t =
     (if relay_value (ports t i) = Some On then set_load i True t
      else case load_timer (ports t i) of
             None \<Rightarrow> let t1 = t\<lparr>null_read := True\<rparr> in if garbage then t1 else set_load i False t1
           | Some running \<Rightarrow> if running then t else set_load i False t)"

text \<open>Assignment to the relay: the pin (the relays switch on at low level), the load detector, the state
  store.\<close>

definition set_relay :: "bool \<Rightarrow> nat \<Rightarrow> relay \<Rightarrow> thing \<Rightarrow> thing" where
  "set_relay garbage i v t =
     (if relay_value (ports t i) = Some v then t
      else
        let t1 = upd_port i (\<lambda>p. p\<lparr>relay_value := Some v\<rparr>) t;
            t2 = upd_port i (\<lambda>p. p\<lparr>pin := Some (case v of On \<Rightarrow> False | Off \<Rightarrow> True)\<rparr>) t1;
            t3 = (if v = Off then upd_port i (\<lambda>p. p\<lparr>load_timer := Some True\<rparr>) t2
                  else VirtualLoadDetector_update garbage i t2)
        in if v = Off then set_state i LoadWaitRemove t3 else StateStore_update i t3)"

text \<open>The one-shot timer of the load detector.\<close>

definition load_timer_run :: "bool \<Rightarrow> nat \<Rightarrow> thing \<Rightarrow> thing" where
  "load_timer_run garbage i t =
     (if load_timer (ports t i) = Some True
      then let t1 = VirtualLoadDetector_update garbage i (upd_port i (\<lambda>p. p\<lparr>load_timer := Some False\<rparr>) t)
           in upd_port i (\<lambda>p. p\<lparr>load_timer := None\<rparr>) t1
      else t)"

definition Charger_start :: "bool \<Rightarrow> nat \<Rightarrow> thing \<Rightarrow> thing" where
  "Charger_start garbage i t = set_relay garbage i On t"

definition Charger_stop :: "bool \<Rightarrow> nat \<Rightarrow> thing \<Rightarrow> thing" where
  "Charger_stop garbage i t = set_relay garbage i Off t"

subsection \<open>The functions: readings of the meter\<close>

definition CurrentLimiter_onCurrentChanged :: "nat \<Rightarrow> int \<Rightarrow> thing \<Rightarrow> thing" where
  "CurrentLimiter_onCurrentChanged i val t =
     upd_spec i (\<lambda>s. s\<lparr>limit_count :=
       (if \<not> charging i t then cd_reset (limit_count s)
        else if val > currentLimit (conf t) then cd_trigger (limit_count s)
        else cd_reset (limit_count s))\<rparr>) t"

definition NoloadDetecter_onCurrentChanged :: "nat \<Rightarrow> int \<Rightarrow> thing \<Rightarrow> thing" where
  "NoloadDetecter_onCurrentChanged i val t = (if \<not> charging i t then t else checkCurrent i val t)"

definition DataSetter_onCurrentChanged :: "nat \<Rightarrow> int \<Rightarrow> thing \<Rightarrow> thing" where
  "DataSetter_onCurrentChanged i val t =
     (if \<not> charging i t then t
      else if \<bar>val - prevCurrMiA (specs t i)\<bar> \<ge> uploadThr (conf t)
      then upd_spec i (\<lambda>s. s\<lparr>prevCurrMiA := val, data_count := cd_retrigger (data_count s)\<rparr>) t
      else t)"

text \<open>\<open>facc\<close> is the float arithmetic \<^verbatim>\<open>c + curr / 1000.f * vol * ticks / 1000.f\<close>.\<close>

definition ConsumptionMeasurer_update :: "(u32 \<Rightarrow> int \<Rightarrow> int \<Rightarrow> u32 \<Rightarrow> u32) \<Rightarrow> nat \<Rightarrow> thing \<Rightarrow> thing" where
  "ConsumptionMeasurer_update facc i t =
     (if \<not> charging i t then t
      else upd_spec i (\<lambda>s. s\<lparr>consumption := facc (consumption s) (prevCurr s) (prevVol s) (tick t - meas_tick s),
             meas_tick := tick t, prevCurr := value_or0 (current (ports t i)), prevVol := value_or0 (voltage (ports t i))\<rparr>) t)"

definition set_current :: "(u32 \<Rightarrow> int \<Rightarrow> int \<Rightarrow> u32 \<Rightarrow> u32) \<Rightarrow> bool \<Rightarrow> nat \<Rightarrow> int \<Rightarrow> thing \<Rightarrow> thing" where
  "set_current facc garbage i val t =
     (if current (ports t i) = Some val then t
      else
        let t1 = upd_port i (\<lambda>p. p\<lparr>current := Some val\<rparr>) t;
            t2 = StateStore_update i (VirtualLoadDetector_update garbage i t1)
        in ConsumptionMeasurer_update facc i (DataSetter_onCurrentChanged i val
             (NoloadDetecter_onCurrentChanged i val (CurrentLimiter_onCurrentChanged i val t2))))"

definition set_voltage :: "(u32 \<Rightarrow> int \<Rightarrow> int \<Rightarrow> u32 \<Rightarrow> u32) \<Rightarrow> bool \<Rightarrow> nat \<Rightarrow> int \<Rightarrow> thing \<Rightarrow> thing" where
  "set_voltage facc garbage i val t =
     (if voltage (ports t i) = Some val then t
      else
        let t1 = upd_port i (\<lambda>p. p\<lparr>voltage := Some val\<rparr>) t;
            t2 = StateStore_update i (VirtualLoadDetector_update garbage i t1)
        in ConsumptionMeasurer_update facc i t2)"

subsection \<open>The functions: timers\<close>

definition Counter_port :: "bool \<Rightarrow> nat \<Rightarrow> thing \<Rightarrow> thing" where
  "Counter_port garbage i t =
     (if charging i t
      then let t1 = upd_spec i (\<lambda>s. s\<lparr>leftSeconds := leftSeconds s - 1\<rparr>) t
           in if leftSeconds (specs t1 i) \<le> 0 then Charger_stop garbage i t1 else t1
      else t)"

definition Counter_run :: "bool \<Rightarrow> thing \<Rightarrow> thing" where
  "Counter_run garbage t = fold (Counter_port garbage) [0..<kPortNum] t"

definition CurrentLimiter_port :: "bool \<Rightarrow> nat \<Rightarrow> thing \<Rightarrow> thing" where
  "CurrentLimiter_port garbage i t =
     (let (c, willStop) = cd_updateAndCheck (limit_count (specs t i));
          t1 = upd_spec i (\<lambda>s. s\<lparr>limit_count := c\<rparr>) t
      in if willStop
         then emit_event (Current_Limit i) (Charger_stop garbage i (upd_spec i (\<lambda>s. s\<lparr>finalState := Error\<rparr>) t1))
         else t1)"

definition CurrentLimiter_run :: "bool \<Rightarrow> thing \<Rightarrow> thing" where
  "CurrentLimiter_run garbage t = fold (CurrentLimiter_port garbage) [0..<kPortNum] t"

definition NoloadDetecter_run :: "bool \<Rightarrow> thing \<Rightarrow> thing" where
  "NoloadDetecter_run garbage t =
     (let i = noload_port t;
          t0 = t\<lparr>noload_port := (noload_port t + 1) mod kPortNum\<rparr>;
          (nc, noloadCond) = cd_updateAndCheck (noloadCount (specs t0 i));
          (dc, doneCond) = cd_updateAndCheck (doneCount (specs t0 i));
          t1 = upd_spec i (\<lambda>s. s\<lparr>noloadCount := nc, doneCount := dc\<rparr>) t0;
          willStop = (noloadCond \<or> doneCond) \<and> charging i t1
      in if willStop
         then Charger_stop garbage i (if noloadCond then upd_spec i (\<lambda>s. s\<lparr>finalState := LoadNotInsert\<rparr>) t1 else t1)
         else t1)"

definition Backuper_resume :: "bool \<Rightarrow> nat \<Rightarrow> thing \<Rightarrow> thing" where
  "Backuper_resume garbage i t =
     (if stateHasTransitioned (specs t i) then t
      else
        let b = flash t i;
            t1 = upd_spec i (\<lambda>s. s\<lparr>stateHasTransitioned := True, timerId := b_timerId b\<rparr>) t
        in if b_leftSeconds b \<noteq> 0
           then Charger_start garbage i (upd_spec i (\<lambda>s. s\<lparr>leftSeconds := b_leftSeconds b, consumption := b_consumption b\<rparr>) t1)
           else upd_spec i (\<lambda>s. s\<lparr>leftSeconds := 0, consumption := 0, backupCount := cd_trigger (backupCount s)\<rparr>) t1)"

definition backup_of :: "spec \<Rightarrow> backup" where
  "backup_of s = \<lparr>b_leftSeconds = leftSeconds s, b_timerId = timerId s, b_consumption = consumption s\<rparr>"

text \<open>One pass of the loop over the ports: \<open>ignore\<close> once a port has been written.\<close>

definition Backuper_port :: "nat \<Rightarrow> bool \<times> nat \<times> thing \<Rightarrow> bool \<times> nat \<times> thing" where
  "Backuper_port i st =
     (let (ignore, nextBackupPort, t) = st;
          (c, due) = cd_updateAndCheck (backupCount (specs t i));
          t1 = upd_spec i (\<lambda>s. s\<lparr>backupCount := c\<rparr>) t
      in if \<not> due then (ignore, nextBackupPort, t1)
         else if ignore then (ignore, nextBackupPort, upd_spec i (\<lambda>s. s\<lparr>backupCount := cd_forceTrigger (backupCount s)\<rparr>) t1)
         else
           let t2 = (if charging i t1 then upd_spec i (\<lambda>s. s\<lparr>backupCount := cd_retrigger (backupCount s)\<rparr>) t1 else t1)
           in (True, (i + 1) mod kPortNum, t2\<lparr>flash := (flash t2)(i := backup_of (specs t2 i))\<rparr>))"

definition Backuper_run :: "bool \<Rightarrow> thing \<Rightarrow> thing" where
  "Backuper_run garbage t =
     (let i = resume_port t;
          t0 = t\<lparr>resume_port := (resume_port t + 1) mod kPortNum\<rparr>;
          (c, due) = cd_updateAndCheck (fResume (specs t0 i));
          t1 = upd_spec i (\<lambda>s. s\<lparr>fResume := c\<rparr>) t0;
          t2 = (if due then Backuper_resume garbage i t1 else t1);
          (nc, now) = cd_updateAndCheck (nextCount t2);
          t3 = t2\<lparr>nextCount := nc\<rparr>
      in if now
         then
           let t4 = t3\<lparr>nextCount := cd_retrigger (nextCount t3)\<rparr>;
               (_, nextBackupPort, t5) =
                 fold (\<lambda>k. Backuper_port ((backup_port t4 + k) mod kPortNum)) [0..<kPortNum] (False, backup_port t4, t4)
           in t5\<lparr>backup_port := nextBackupPort\<rparr>
         else t3)"

definition emitPortData :: "nat \<Rightarrow> thing \<Rightarrow> thing" where
  "emitPortData i t =
     (let s = specs t i;
          st = prevState s;
          vState = (if st = LoadWaitRemove then finalState s else st);
          cons = (if st = LoadWaitRemove then prevConsumption s else consumption s);
          t1 = emit_event (Current_Data \<lparr>d_port = kPortNum - i, d_timerId = timerId s,
                 d_leftMinutes = (if leftSeconds s < 0 then - (- leftSeconds s div 60) else leftSeconds s div 60), d_state = vState, d_current = value_or0 (current (ports t i)),
                 d_voltage = value_or0 (voltage (ports t i)), d_consumption = cons\<rparr>) t
      in if st = LoadWaitRemove
         then upd_spec i (\<lambda>s. s\<lparr>timerId := 0, consumption := 0, finalState := LoadNotInsert, prevState := LoadNotInsert\<rparr>) t1
         else t1)"

definition DataSetter_run :: "thing \<Rightarrow> thing" where
  "DataSetter_run t =
     (let i = data_port t;
          (c, willEmit) = cd_updateAndCheck (data_count (specs t i));
          t1 = (upd_spec i (\<lambda>s. s\<lparr>data_count := c\<rparr>) t)\<lparr>data_port := (data_port t + 1) mod kPortNum\<rparr>
      in if willEmit then emitPortData i t1 else t1)"

definition ConsumptionMeasurer_run :: "(u32 \<Rightarrow> int \<Rightarrow> int \<Rightarrow> u32 \<Rightarrow> u32) \<Rightarrow> thing \<Rightarrow> thing" where
  "ConsumptionMeasurer_run facc t = fold (ConsumptionMeasurer_update facc) [0..<kPortNum] t"

text \<open>The thing as its constructors leave it: the counters start from the numbers of the headers, and
  \<open>u\<close> holds what the fields that no constructor sets happen to be.  The load detectors have run
  \<^verbatim>\<open>update\<close> once, through the null pointer and before the state stores watch them.\<close>

definition spec_new :: "spec \<Rightarrow> spec" where
  "spec_new u = u\<lparr>timerId := 0, leftSeconds := 0, consumption := 0, limit_count := CountDown 10, noloadCount := CountDown 120,
     doneCount := CountDown 125, stateHasTransitioned := False, backupCount := CountDown 20, fResume := CountDown 1,
     prevCurrMiA := 0, data_count := CountDown 1, prevCurr := 0, prevVol := 0\<rparr>"

definition Thing_new :: "bool \<Rightarrow> spec \<Rightarrow> dev_config \<Rightarrow> (nat \<Rightarrow> backup) \<Rightarrow> thing" where
  "Thing_new garbage u c fl =
     \<lparr>ports = (\<lambda>_. \<lparr>relay_value = None, pin = None, load = (if garbage then None else Some False), load_timer = None,
         oState = None, current = None, voltage = None\<rparr>),
      specs = (\<lambda>_. spec_new u), conf = c, noload_port = 0, data_port = 0, resume_port = 0, backup_port = 0,
      nextCount = CountDown 30, isFirstCharge = True, flash = fl, flash_conf = c, tick = 0, events = [], null_read = True, bad_port = False\<rparr>"

subsection \<open>Commands\<close>

text \<open>The start of the thing: the backup's counter runs, and the functions learn the states the ports have.\<close>

definition Thing_init :: "thing \<Rightarrow> thing" where
  "Thing_init t =
     fold (\<lambda>i t. case oState (ports t i) of None \<Rightarrow> t | Some st \<Rightarrow> decos_onStateChanged i st t) [0..<kPortNum]
       (t\<lparr>nextCount := cd_retrigger (nextCount t)\<rparr>)"

text \<open>The port number of a command is used as an index as it arrives.\<close>

definition Thing_control :: "bool \<Rightarrow> nat \<Rightarrow> int \<Rightarrow> int \<Rightarrow> thing \<Rightarrow> thing" where
  "Thing_control garbage i tid minutes t =
     (if kPortNum \<le> i then t\<lparr>bad_port := True\<rparr>
      else Charger_start garbage i (upd_spec i (\<lambda>s. s\<lparr>leftSeconds := minutes * 60, timerId := tid\<rparr>) t))"

definition Thing_stop :: "bool \<Rightarrow> nat \<Rightarrow> int \<Rightarrow> thing \<Rightarrow> thing" where
  "Thing_stop garbage i tid t =
     (if kPortNum \<le> i then t\<lparr>bad_port := True\<rparr> else upd_spec i (\<lambda>s. s\<lparr>timerId := tid\<rparr>) (Charger_stop garbage i t))"

definition Thing_query :: "thing \<Rightarrow> thing" where
  "Thing_query t = fold (\<lambda>i. upd_spec i (\<lambda>s. s\<lparr>data_count := cd_retrigger (data_count s)\<rparr>)) [0..<kPortNum] t"

definition Thing_config :: "dev_config \<Rightarrow> thing \<Rightarrow> thing" where
  "Thing_config c t = t\<lparr>conf := c, flash_conf := c\<rparr>"

subsection \<open>Histories\<close>

text \<open>Readings and load timers are those of the ports there are; commands carry any number.\<close>

datatype op = Op_Counter | Op_Limiter | Op_Noload | Op_Backuper | Op_Data | Op_Measure | Op_Tick
  | Op_Load_Timer nat | Op_Current nat int | Op_Voltage nat int
  | Op_Control nat int int | Op_Stop nat int | Op_Query | Op_Config dev_config

fun exec :: "(u32 \<Rightarrow> int \<Rightarrow> int \<Rightarrow> u32 \<Rightarrow> u32) \<Rightarrow> bool \<Rightarrow> op \<Rightarrow> thing \<Rightarrow> thing" where
  "exec facc g Op_Counter t = Counter_run g t"
| "exec facc g Op_Limiter t = CurrentLimiter_run g t"
| "exec facc g Op_Noload t = NoloadDetecter_run g t"
| "exec facc g Op_Backuper t = Backuper_run g t"
| "exec facc g Op_Data t = DataSetter_run t"
| "exec facc g Op_Measure t = ConsumptionMeasurer_run facc t"
| "exec facc g Op_Tick t = t\<lparr>tick := tick t + 1\<rparr>"
| "exec facc g (Op_Load_Timer i) t = load_timer_run g i t"
| "exec facc g (Op_Current i v) t = set_current facc g i v t"
| "exec facc g (Op_Voltage i v) t = set_voltage facc g i v t"
| "exec facc g (Op_Control i tid m) t = Thing_control g i tid m t"
| "exec facc g (Op_Stop i tid) t = Thing_stop g i tid t"
| "exec facc g Op_Query t = Thing_query t"
| "exec facc g (Op_Config c) t = Thing_config c t"

section \<open>The electrical side\<close>

text \<open>The functions read the port and write their own records only.\<close>

lemma upd_frames [simp]:
  "ports (upd_spec i f t) = ports t" "specs (upd_port i g t) = specs t" "ports (emit_event e t) = ports t"
  "specs (emit_event e t) = specs t" "conf (upd_spec i f t) = conf t" "conf (upd_port i g t) = conf t" "conf (emit_event e t) = conf t"
  "tick (upd_spec i f t) = tick t" "tick (upd_port i g t) = tick t" "tick (emit_event e t) = tick t"
  "noload_port (upd_spec i f t) = noload_port t" "noload_port (upd_port i g t) = noload_port t" "noload_port (emit_event e t) = noload_port t"
  "events (upd_spec i f t) = events t" "events (upd_port i g t) = events t" "events (emit_event e t) = events t @ [e]"
  by (simp_all add: upd_spec_def upd_port_def emit_event_def)

lemma upd_here [simp]:
  "specs (upd_spec i f t) j = (if j = i then f (specs t i) else specs t j)"
  "ports (upd_port i g t) j = (if j = i then g (ports t i) else ports t j)"
  by (simp_all add: upd_spec_def upd_port_def)

lemmas onStateChanged_defs = Counter_onStateChanged_def checkCurrent_def NoloadDetecter_onStateChanged_def
  Backuper_onStateChanged_def DataSetter_onStateChanged_def ConsumptionMeasurer_onStateChanged_def

lemma onStateChanged_ports [simp]:
  "ports (Counter_onStateChanged i st t) = ports t" "ports (checkCurrent i v t) = ports t"
  "ports (NoloadDetecter_onStateChanged i st t) = ports t" "ports (Backuper_onStateChanged i st t) = ports t"
  "ports (DataSetter_onStateChanged i st t) = ports t" "ports (ConsumptionMeasurer_onStateChanged i st t) = ports t"
  "ports (state_changed i st t) = ports t"
  by (simp_all add: onStateChanged_defs state_changed_def decos_onStateChanged_def Let_def split: state.split)

text \<open>So each assignment acts on the port as a function of the port alone.\<close>

definition p_store :: "port \<Rightarrow> port" where
  "p_store p = (if relay_value p = Some On then p\<lparr>oState := Some Charging\<rparr>
     else if load p = Some False then p\<lparr>oState := Some LoadNotInsert\<rparr> else p)"

definition p_load :: "bool \<Rightarrow> port \<Rightarrow> port" where
  "p_load b p = (if load p = Some b then p
     else if b then p\<lparr>load := Some True, oState := Some LoadInserted\<rparr> else p_store (p\<lparr>load := Some False\<rparr>))"

definition p_vld :: "bool \<Rightarrow> port \<Rightarrow> port" where
  "p_vld g p = (if relay_value p = Some On then p_load True p
     else case load_timer p of None \<Rightarrow> if g then p else p_load False p | Some r \<Rightarrow> if r then p else p_load False p)"

definition p_relay :: "bool \<Rightarrow> relay \<Rightarrow> port \<Rightarrow> port" where
  "p_relay g v p = (if relay_value p = Some v then p
     else case v of
       On \<Rightarrow> p_store (p_vld g (p\<lparr>relay_value := Some On, pin := Some False\<rparr>))
     | Off \<Rightarrow> p\<lparr>relay_value := Some Off, pin := Some True, load_timer := Some True, oState := Some LoadWaitRemove\<rparr>)"

lemma set_state_ports: "ports (set_state i st t) = (ports t)(i := (ports t i)\<lparr>oState := Some st\<rparr>)"
proof (cases "oState (ports t i) = Some st")
  case True
  then have e: "(ports t i)\<lparr>oState := Some st\<rparr> = ports t i" by (cases "ports t i") simp
  show ?thesis unfolding e using True by (simp add: set_state_def)
next
  case False
  then show ?thesis by (simp add: set_state_def upd_port_def)
qed

lemma StateStore_update_ports: "ports (StateStore_update i t) = (ports t)(i := p_store (ports t i))"
  by (auto simp: StateStore_update_def p_store_def set_state_ports split: option.split bool.split)

lemma set_load_ports: "ports (set_load i b t) = (ports t)(i := p_load b (ports t i))"
  by (cases b) (auto simp: set_load_def p_load_def set_state_ports StateStore_update_ports upd_port_def Let_def)

lemma vld_ports: "ports (VirtualLoadDetector_update g i t) = (ports t)(i := p_vld g (ports t i))"
  by (auto simp: VirtualLoadDetector_update_def p_vld_def set_load_ports split: option.split)

lemma set_relay_ports: "ports (set_relay g i v t) = (ports t)(i := p_relay g v (ports t i))"
  by (cases v) (auto simp: set_relay_def p_relay_def Let_def vld_ports StateStore_update_ports set_state_ports upd_port_def)

text \<open>The port's invariant: it is charging exactly when the relay is on, the pin drives the relay, and
  while it is on the load detector reports a load.\<close>

definition port_ok :: "port \<Rightarrow> bool" where
  "port_ok p \<longleftrightarrow> (relay_value p = Some On \<longleftrightarrow> oState p = Some Charging) \<and> (relay_value p = Some On \<longrightarrow> load p = Some True) \<and>
     pin p = (case relay_value p of None \<Rightarrow> None | Some On \<Rightarrow> Some False | Some Off \<Rightarrow> Some True)"

lemma p_store_ok: "port_ok p \<Longrightarrow> port_ok (p_store p)" "oState (p_store p) = Some Charging \<Longrightarrow> port_ok p \<Longrightarrow> oState p = Some Charging"
  by (auto simp: port_ok_def p_store_def split: if_splits)

lemma p_vld_off: "relay_value p \<noteq> Some On \<Longrightarrow> p_vld g p = p \<or> p_vld g p = p_store (p\<lparr>load := Some False\<rparr>)"
  by (auto simp: p_vld_def p_load_def split: option.split)

lemma p_vld_ok: assumes "port_ok p" shows "port_ok (p_vld g p)" "oState (p_vld g p) = Some Charging \<Longrightarrow> oState p = Some Charging"
proof -
  have "port_ok (p_vld g p) \<and> (oState (p_vld g p) = Some Charging \<longrightarrow> oState p = Some Charging)"
  proof (cases "relay_value p = Some On")
    case True
    then show ?thesis using assms by (simp add: port_ok_def p_vld_def p_load_def)
  next
    case False
    then have "port_ok (p\<lparr>load := Some False\<rparr>)" using assms by (simp add: port_ok_def)
    then show ?thesis using p_vld_off [OF False, of g] p_store_ok [of "p\<lparr>load := Some False\<rparr>"] assms by auto
  qed
  then show "port_ok (p_vld g p)" "oState (p_vld g p) = Some Charging \<Longrightarrow> oState p = Some Charging" by blast+
qed

lemma p_relay_on: "relay_value p \<noteq> Some On \<Longrightarrow> port_ok p \<Longrightarrow>
    p_relay g On p = p\<lparr>relay_value := Some On, pin := Some False, load := Some True, oState := Some Charging\<rparr>"
  by (cases p) (simp add: p_relay_def p_vld_def p_load_def p_store_def)

lemma p_relay_ok: "port_ok p \<Longrightarrow> port_ok (p_relay g v p)" "port_ok p \<Longrightarrow> oState (p_relay g Off p) \<noteq> Some Charging"
proof -
  assume p: "port_ok p"
  show "port_ok (p_relay g v p)"
  proof (cases v)
    case On
    then show ?thesis using p p_relay_on [OF _ p, of g] by (cases "relay_value p = Some On") (auto simp: p_relay_def port_ok_def)
  next
    case Off
    then show ?thesis using p by (auto simp: p_relay_def port_ok_def)
  qed
  show "oState (p_relay g Off p) \<noteq> Some Charging" using p by (auto simp: p_relay_def port_ok_def)
qed

lemma readings_ok [simp]:
  "port_ok (p\<lparr>current := c\<rparr>) = port_ok p" "port_ok (p\<lparr>voltage := c\<rparr>) = port_ok p" "port_ok (p\<lparr>load_timer := l\<rparr>) = port_ok p"
  by (simp_all add: port_ok_def)

definition ports_ok :: "thing \<Rightarrow> bool" where
  "ports_ok t \<longleftrightarrow> (\<forall>i. port_ok (ports t i))"

lemma ports_okD: "ports_ok t \<Longrightarrow> port_ok (ports t i)"
  by (simp add: ports_ok_def)

lemma ports_ok_cong: "ports t' = ports t \<Longrightarrow> ports_ok t' = ports_ok t"
  by (simp add: ports_ok_def)

lemma ports_ok_upd: "\<lbrakk>ports t' = (ports t)(i := p); ports_ok t; port_ok p\<rbrakk> \<Longrightarrow> ports_ok t'"
  by (simp add: ports_ok_def)

lemma electric_ok:
  assumes "ports_ok t"
  shows "ports_ok (set_relay g i v t)" "ports_ok (StateStore_update i t)" "ports_ok (VirtualLoadDetector_update g i t)"
    "ports_ok (load_timer_run g i t)"
proof -
  note k = ports_okD [OF assms, of i]
  show "ports_ok (set_relay g i v t)" by (rule ports_ok_upd [OF set_relay_ports assms p_relay_ok(1) [OF k]])
  show "ports_ok (StateStore_update i t)" by (rule ports_ok_upd [OF StateStore_update_ports assms p_store_ok(1) [OF k]])
  show "ports_ok (VirtualLoadDetector_update g i t)" by (rule ports_ok_upd [OF vld_ports assms p_vld_ok(1) [OF k]])
  have "port_ok (p_vld g ((ports t i)\<lparr>load_timer := Some False\<rparr>))" by (rule p_vld_ok(1)) (simp add: k)
  then show "ports_ok (load_timer_run g i t)"
    using assms by (simp add: load_timer_run_def ports_ok_def vld_ports)
qed

section \<open>One port at a time\<close>

text \<open>What happens at one port leaves the others alone.\<close>

definition same :: "nat \<Rightarrow> thing \<Rightarrow> thing \<Rightarrow> bool" where
  "same i t t' \<longleftrightarrow> ports t' i = ports t i \<and> specs t' i = specs t i"

lemma same_refl [simp]: "same i t t" and same_trans: "\<lbrakk>same i t t'; same i t' t''\<rbrakk> \<Longrightarrow> same i t t''"
  by (simp_all add: same_def)

lemma onStateChanged_other [simp]:
  assumes "j \<noteq> i"
  shows "specs (Counter_onStateChanged i st t) j = specs t j" "specs (checkCurrent i v t) j = specs t j"
    "specs (NoloadDetecter_onStateChanged i st t) j = specs t j" "specs (Backuper_onStateChanged i st t) j = specs t j"
    "specs (DataSetter_onStateChanged i st t) j = specs t j" "specs (ConsumptionMeasurer_onStateChanged i st t) j = specs t j"
    "specs (state_changed i st t) j = specs t j"
  using assms by (simp_all add: onStateChanged_defs state_changed_def decos_onStateChanged_def Let_def split: state.split)

lemma electric_other:
  assumes "j \<noteq> i"
  shows "same j t (set_state i st t)" "same j t (StateStore_update i t)" "same j t (set_load i b t)"
    "same j t (VirtualLoadDetector_update g i t)" "same j t (set_relay g i v t)" "same j t (load_timer_run g i t)"
proof -
  show s: "same j t (set_state i st t)" for st t using assms by (simp add: same_def set_state_ports) (simp add: set_state_def)
  show u: "same j t (StateStore_update i t)" for t
    using s by (auto simp: StateStore_update_def split: option.split bool.split)
  have p: "same j t (upd_port i f t)" for f t using assms by (simp add: same_def)
  show l: "same j t (set_load i b t)" for b t
    using same_trans [OF p s] same_trans [OF p u] by (simp add: set_load_def Let_def)
  show v: "same j t (VirtualLoadDetector_update g i t)" for t
    using l by (auto simp: VirtualLoadDetector_update_def same_def Let_def split: option.split)
  show "same j t (set_relay g i v t)"
    unfolding set_relay_def Let_def by (auto intro!: same_trans [OF _ s] same_trans [OF _ u] same_trans [OF _ v] p same_trans [OF p p] same_trans [OF same_trans [OF p p] p])
  show "same j t (load_timer_run g i t)"
    unfolding load_timer_run_def Let_def by (auto intro!: same_trans [OF _ p] same_trans [OF _ v] p)
qed

text \<open>While a port is charging, the detector and the state store change nothing, and only a command or
  the resumption after a restart can make it charge.\<close>

lemma electric_charging:
  assumes "ports_ok t" "charging i t"
  shows "VirtualLoadDetector_update g i t = t" "StateStore_update i t = t" "set_relay g i On t = t"
  using ports_okD [OF assms(1), of i] assms(2)
  by (simp_all add: port_ok_def VirtualLoadDetector_update_def StateStore_update_def set_load_def set_state_def set_relay_def)

lemma electric_off:
  assumes "ports_ok t"
  shows "charging i (VirtualLoadDetector_update g i t) \<Longrightarrow> charging i t" "charging i (StateStore_update i t) \<Longrightarrow> charging i t"
    "charging i (load_timer_run g i t) \<Longrightarrow> charging i t" "\<not> charging i (set_relay g i Off t)"
proof -
  note k = ports_okD [OF assms, of i]
  show "charging i (VirtualLoadDetector_update g i t) \<Longrightarrow> charging i t" using p_vld_ok(2) [OF k] by (simp add: vld_ports)
  show "charging i (StateStore_update i t) \<Longrightarrow> charging i t" using p_store_ok(2) [OF _ k] by (simp add: StateStore_update_ports)
  show "charging i (load_timer_run g i t) \<Longrightarrow> charging i t"
    using p_vld_ok(2) [of "(ports t i)\<lparr>load_timer := Some False\<rparr>" g] k by (simp add: load_timer_run_def vld_ports split: if_splits)
  show "\<not> charging i (set_relay g i Off t)" using p_relay_ok(2) [OF k] by (simp add: set_relay_ports)
qed

lemma fold_one:
  assumes "\<And>j t. I t \<Longrightarrow> I (f j t)" "\<And>j t. \<lbrakk>I t; j \<noteq> i\<rbrakk> \<Longrightarrow> same i t (f j t)" "distinct js" "i \<in> set js" "I t"
  obtains t1 where "I t1" "same i t t1" "same i (f i t1) (fold f js t)"
proof -
  have others: "I (fold f ks t) \<and> same i t (fold f ks t)" if "i \<notin> set ks" "I t" for ks t
    using that
  proof (induction ks arbitrary: t)
    case (Cons k ks)
    then show ?case using assms(1) [of t k] assms(2) [of t k] same_trans [of i t "f k t"] by auto
  qed simp
  obtain as bs where js: "js = as @ i # bs" using assms(4) by (meson split_list)
  then have n: "i \<notin> set as" "i \<notin> set bs" using assms(3) by auto
  show ?thesis
    using that [of "fold f as t"] others [OF n(1) assms(5)] others [OF n(2), of "f i (fold f as t)"] assms(1) js by simp
qed

section \<open>Effect of each operation on a port\<close>

text \<open>The parts of a port's record that decide when it is switched off.\<close>

definition watch :: "spec \<Rightarrow> int \<times> count_down \<times> count_down \<times> count_down \<times> bool" where
  "watch s = (leftSeconds s, limit_count s, noloadCount s, doneCount s, stateHasTransitioned s)"

text \<open>An operation is quiet for a port if afterwards the port is off, or it was charging before and
  nothing that decides about its end has changed.\<close>

definition quiet :: "nat \<Rightarrow> thing \<Rightarrow> thing \<Rightarrow> bool" where
  "quiet i t t' \<longleftrightarrow> (charging i t' \<longrightarrow> charging i t \<and> watch (specs t' i) = watch (specs t i))"

lemma quiet_trans: "\<lbrakk>quiet i t t'; quiet i t' t''\<rbrakk> \<Longrightarrow> quiet i t t''"
  by (auto simp: quiet_def)

lemma quiet_same: "same i t t' \<Longrightarrow> quiet i t t'"
  by (simp add: quiet_def same_def)

lemma transitioned_kept:
  "stateHasTransitioned (specs (set_state i st t) j) = stateHasTransitioned (specs t j)"
proof -
  have "stateHasTransitioned (specs (state_changed i st t) j) = stateHasTransitioned (specs t j)" for t
    by (auto simp: onStateChanged_defs state_changed_def decos_onStateChanged_def Let_def split: state.split)
  then show ?thesis by (simp add: set_state_def)
qed

lemma transitioned_electric:
  "stateHasTransitioned (specs (StateStore_update i t) j) = stateHasTransitioned (specs t j)"
  "stateHasTransitioned (specs (set_load i b t) j) = stateHasTransitioned (specs t j)"
  "stateHasTransitioned (specs (VirtualLoadDetector_update g i t) j) = stateHasTransitioned (specs t j)"
  "stateHasTransitioned (specs (set_relay g i v t) j) = stateHasTransitioned (specs t j)"
  "stateHasTransitioned (specs (load_timer_run g i t) j) = stateHasTransitioned (specs t j)"
proof -
  show u: "stateHasTransitioned (specs (StateStore_update i t) j) = stateHasTransitioned (specs t j)" for t
    by (auto simp: StateStore_update_def transitioned_kept split: option.split bool.split)
  show l: "stateHasTransitioned (specs (set_load i b t) j) = stateHasTransitioned (specs t j)" for b t
    by (simp add: set_load_def Let_def transitioned_kept u)
  show v: "stateHasTransitioned (specs (VirtualLoadDetector_update g i t) j) = stateHasTransitioned (specs t j)" for t
    by (simp add: VirtualLoadDetector_update_def Let_def l split: option.split)
  show "stateHasTransitioned (specs (set_relay g i v t) j) = stateHasTransitioned (specs t j)"
    by (simp add: set_relay_def Let_def u v transitioned_kept)
  show "stateHasTransitioned (specs (load_timer_run g i t) j) = stateHasTransitioned (specs t j)"
    by (simp add: load_timer_run_def Let_def v)
qed

text \<open>The invariant of a history, seen from one port: the ports are in order and the port has been
  resumed after the restart.\<close>

definition settled :: "nat \<Rightarrow> thing \<Rightarrow> bool" where
  "settled i t \<longleftrightarrow> ports_ok t \<and> stateHasTransitioned (specs t i)"

lemma settledD: "settled i t \<Longrightarrow> ports_ok t" "settled i t \<Longrightarrow> stateHasTransitioned (specs t i)"
  by (simp_all add: settled_def)

lemma settled_cong: "\<lbrakk>ports t' = ports t; stateHasTransitioned (specs t' i) = stateHasTransitioned (specs t i)\<rbrakk> \<Longrightarrow> settled i t' = settled i t"
  by (simp add: settled_def ports_ok_def)

lemma settled_spec [simp]:
  "stateHasTransitioned (f (specs t i)) = stateHasTransitioned (specs t i) \<Longrightarrow> settled i (upd_spec j f t) = settled i t"
  by (rule settled_cong) auto

lemma settled_electric:
  assumes "settled i t"
  shows "settled i (set_relay g j v t)" "settled i (StateStore_update j t)" "settled i (VirtualLoadDetector_update g j t)"
    "settled i (load_timer_run g j t)"
  using assms electric_ok [of t] by (simp_all add: settled_def transitioned_electric)

lemma quietI: "\<lbrakk>charging i t' \<Longrightarrow> charging i t; charging i t \<Longrightarrow> specs t' i = specs t i\<rbrakk> \<Longrightarrow> quiet i t t'"
  by (simp add: quiet_def)

lemma quiet_electric:
  assumes k: "ports_ok t"
  shows "quiet i t (StateStore_update j t)" "quiet i t (VirtualLoadDetector_update g j t)" "quiet i t (load_timer_run g j t)"
    "quiet i t (set_relay g j Off t)"
proof -
  have "quiet i t (StateStore_update i t)"
    by (rule quietI, erule electric_off(2) [OF k]) (simp add: electric_charging(2) [OF k])
  then show "quiet i t (StateStore_update j t)" by (cases "i = j") (simp_all add: quiet_same electric_other)
  have "quiet i t (VirtualLoadDetector_update g i t)"
    by (rule quietI, erule electric_off(1) [OF k]) (simp add: electric_charging(1) [OF k])
  then show "quiet i t (VirtualLoadDetector_update g j t)" by (cases "i = j") (simp_all add: quiet_same electric_other)
  have "quiet i t (set_relay g i Off t)" using electric_off(4) [OF k, of g i] unfolding quiet_def by blast
  then show "quiet i t (set_relay g j Off t)" by (cases "i = j") (simp_all add: quiet_same electric_other)
  show "quiet i t (load_timer_run g j t)"
  proof (cases "i = j")
    case True
    have "specs (load_timer_run g i t) = specs t" if "charging i t"
    proof -
      let ?t = "upd_port i (\<lambda>p. p\<lparr>load_timer := Some False\<rparr>) t"
      have "VirtualLoadDetector_update g i ?t = ?t"
        by (rule electric_charging(1)) (use k that in \<open>simp_all add: ports_ok_def\<close>)
      then show ?thesis by (simp add: load_timer_run_def)
    qed
    then have "quiet i t (load_timer_run g i t)" by (intro quietI, elim electric_off(3) [OF k]) simp
    then show ?thesis using True by simp
  qed (simp add: quiet_same electric_other)
qed

lemma quiet_spec: "watch (f (specs t j)) = watch (specs t j) \<Longrightarrow> quiet i t (upd_spec j f t)"
  by (auto simp: quiet_def)

lemma update_frames [simp]:
  "conf (set_state i st t) = conf t" "noload_port (set_state i st t) = noload_port t" "tick (set_state i st t) = tick t"
  by (simp_all add: set_state_def state_changed_def decos_onStateChanged_def onStateChanged_defs Let_def split: state.split)

lemma electric_frames [simp]:
  "noload_port (StateStore_update i t) = noload_port t" "noload_port (VirtualLoadDetector_update g i t) = noload_port t"
  "noload_port (set_relay g i v t) = noload_port t" "noload_port (load_timer_run g i t) = noload_port t"
proof -
  show u: "noload_port (StateStore_update i t) = noload_port t" for t
    by (auto simp: StateStore_update_def split: option.split bool.split)
  have l: "noload_port (set_load i b t) = noload_port t" for b t by (simp add: set_load_def Let_def u)
  show v: "noload_port (VirtualLoadDetector_update g i t) = noload_port t" for t
    by (simp add: VirtualLoadDetector_update_def Let_def l split: option.split)
  show "noload_port (set_relay g i v t) = noload_port t" by (simp add: set_relay_def Let_def u v)
  show "noload_port (load_timer_run g i t) = noload_port t" by (simp add: load_timer_run_def Let_def v)
qed

text \<open>The counter.\<close>

lemma Counter_port_effect:
  assumes "settled i t"
  shows "settled i (Counter_port g j t)" "j \<noteq> i \<Longrightarrow> same i t (Counter_port g j t)"
    "charging i (Counter_port g i t) \<Longrightarrow> charging i t \<and> leftSeconds (specs t i) > 1 \<and>
       specs (Counter_port g i t) i = (specs t i)\<lparr>leftSeconds := leftSeconds (specs t i) - 1\<rparr>"
proof -
  let ?t = "upd_spec j (\<lambda>s. s\<lparr>leftSeconds := leftSeconds s - 1\<rparr>) t"
  have s: "settled i ?t" using assms by simp
  show "settled i (Counter_port g j t)"
    using settled_electric(1) [OF s] s assms by (simp add: Counter_port_def Charger_stop_def Let_def)
  show "same i t (Counter_port g j t)" if "j \<noteq> i"
    using that electric_other(5) [of i j ?t g Off] by (simp add: Counter_port_def Charger_stop_def Let_def same_def)
  let ?u = "upd_spec i (\<lambda>s. s\<lparr>leftSeconds := leftSeconds s - 1\<rparr>) t"
  have "ports_ok ?u" using assms by (simp add: settled_def ports_ok_def)
  from electric_off(4) [OF this]
  show "charging i (Counter_port g i t) \<Longrightarrow> charging i t \<and> leftSeconds (specs t i) > 1 \<and>
       specs (Counter_port g i t) i = (specs t i)\<lparr>leftSeconds := leftSeconds (specs t i) - 1\<rparr>"
    by (auto simp: Counter_port_def Charger_stop_def Let_def split: if_splits)
qed

lemma Counter_run_effect:
  assumes s: "settled i t" and i: "i < kPortNum"
  shows "settled i (Counter_run g t)"
    "charging i (Counter_run g t) \<Longrightarrow> charging i t \<and> leftSeconds (specs t i) > 1 \<and>
       specs (Counter_run g t) i = (specs t i)\<lparr>leftSeconds := leftSeconds (specs t i) - 1\<rparr>"
proof -
  show "settled i (Counter_run g t)"
    unfolding Counter_run_def by (rule fold_invariant [where Q = "\<lambda>_. True"]) (use s Counter_port_effect(1) in auto)
  obtain t1 where "settled i t1" "same i t t1" "same i (Counter_port g i t1) (Counter_run g t)"
    unfolding Counter_run_def
    by (rule fold_one [where I = "settled i" and f = "Counter_port g" and i = i and js = "[0..<kPortNum]"])
       (use Counter_port_effect(1,2) s i in auto)
  then show "charging i (Counter_run g t) \<Longrightarrow> charging i t \<and> leftSeconds (specs t i) > 1 \<and>
       specs (Counter_run g t) i = (specs t i)\<lparr>leftSeconds := leftSeconds (specs t i) - 1\<rparr>"
    using Counter_port_effect(3) [of i t1 g] by (simp add: same_def)
qed

text \<open>Operations that keep the invariant and do not decide about a port's end.\<close>

definition calm :: "nat \<Rightarrow> thing \<Rightarrow> thing \<Rightarrow> bool" where
  "calm i t t' \<longleftrightarrow> (settled i t \<longrightarrow> settled i t' \<and> quiet i t t' \<and> noload_port t' = noload_port t)"

lemma calm_trans: "\<lbrakk>calm i t t'; calm i t' t''\<rbrakk> \<Longrightarrow> calm i t t''"
  by (auto simp: calm_def intro: quiet_trans)

lemma calm_refl [simp]: "calm i t t"
  by (simp add: calm_def quiet_def)

lemma calm_frame: "\<lbrakk>ports t' = ports t; specs t' = specs t; noload_port t' = noload_port t\<rbrakk> \<Longrightarrow> calm i t t'"
  by (simp add: calm_def quiet_def settled_def ports_ok_def)

lemma calm_spec: "watch (f (specs t j)) = watch (specs t j) \<Longrightarrow> calm i t (upd_spec j f t)"
proof -
  assume w: "watch (f (specs t j)) = watch (specs t j)"
  then have "stateHasTransitioned (specs (upd_spec j f t) i) = stateHasTransitioned (specs t i)" by (simp add: watch_def)
  then have "settled i (upd_spec j f t) = settled i t" by (intro settled_cong) simp_all
  then show ?thesis using quiet_spec [of f t j i, OF w] by (simp add: calm_def)
qed

lemma calm_electric:
  "calm i t (StateStore_update j t)" "calm i t (VirtualLoadDetector_update g j t)" "calm i t (load_timer_run g j t)"
  "calm i t (set_relay g j Off t)" "j \<noteq> i \<Longrightarrow> calm i t (set_relay g j v t)"
proof -
  show "calm i t (StateStore_update j t)" "calm i t (VirtualLoadDetector_update g j t)" "calm i t (load_timer_run g j t)"
    "calm i t (set_relay g j Off t)"
    by (simp_all add: calm_def quiet_electric settledD settled_electric)
  show "calm i t (set_relay g j v t)" if "j \<noteq> i"
    using that electric_other(5) [of i j t g v] by (simp add: calm_def quiet_same settled_electric)
qed

lemma calm_fold: "(\<And>j t. calm i t (f j t)) \<Longrightarrow> calm i t (fold f js t)"
  by (induction js arbitrary: t) (auto intro: calm_trans)

lemma calm_port_reading: "calm i t (upd_port j (\<lambda>p. p\<lparr>current := c\<rparr>) t)" "calm i t (upd_port j (\<lambda>p. p\<lparr>voltage := c\<rparr>) t)"
  by (auto simp: calm_def quiet_def settled_def ports_ok_def)

lemma calm_measure: "calm i t (ConsumptionMeasurer_update facc j t)"
  by (simp add: ConsumptionMeasurer_update_def calm_spec watch_def)

lemma calm_resume: "settled i t \<Longrightarrow> calm i t (Backuper_resume g j t)"
proof (cases "j = i")
  case True
  then show "settled i t \<Longrightarrow> ?thesis" by (simp add: Backuper_resume_def settled_def)
next
  case False
  have s: "calm i t (upd_spec j f t)" for f t
    using False by (simp add: calm_def quiet_def settled_def ports_ok_def)
  show ?thesis unfolding Backuper_resume_def Charger_start_def Let_def
    by (auto intro!: calm_trans [OF _ calm_electric(5) [OF False]] s calm_trans [OF s s])
qed

lemma calm_backup_port: "calm i (snd (snd st)) (snd (snd (Backuper_port j st)))"
proof -
  obtain b n t where st: "st = (b, n, t)" by (cases st)
  have s: "calm i t (upd_spec k (\<lambda>s. s\<lparr>backupCount := h s\<rparr>) t)" for k h t by (rule calm_spec) (simp add: watch_def)
  have f: "calm i t (t\<lparr>flash := x\<rparr>)" for x t by (rule calm_frame) simp_all
  show ?thesis unfolding st Backuper_port_def Let_def
    by (auto split: prod.split intro!: s calm_trans [OF s s] calm_trans [OF s f] calm_trans [OF calm_trans [OF s s] f])
qed

lemma calm_backup_loop: "calm i t (snd (snd (fold (\<lambda>k. Backuper_port (h k)) ks (b, n, t))))"
proof (induction ks arbitrary: b n t)
  case (Cons k ks)
  obtain b' n' t' where e: "Backuper_port (h k) (b, n, t) = (b', n', t')" by (cases "Backuper_port (h k) (b, n, t)")
  have "calm i t t'" using calm_backup_port [of i "(b, n, t)" "h k"] e by simp
  then show ?case using Cons [of t' b' n'] e by (auto intro: calm_trans)
qed simp

lemma calm_Backuper: "settled i t \<Longrightarrow> calm i t (Backuper_run g t)"
proof -
  assume s: "settled i t"
  define j where "j = resume_port t"
  define t0 where "t0 = t\<lparr>resume_port := (resume_port t + 1) mod kPortNum\<rparr>"
  define t1 where "t1 = upd_spec j (\<lambda>s. s\<lparr>fResume := fst (cd_updateAndCheck (fResume (specs t0 j)))\<rparr>) t0"
  define t2 where "t2 = (if snd (cd_updateAndCheck (fResume (specs t0 j))) then Backuper_resume g j t1 else t1)"
  have 1: "calm i t t1" unfolding t1_def
    by (rule calm_trans [of i t t0]) (simp_all add: t0_def calm_frame calm_spec watch_def)
  then have "settled i t1" using s by (simp add: calm_def)
  then have "calm i t1 t2" unfolding t2_def by (simp add: calm_resume)
  with 1 have 2: "calm i t t2" by (rule calm_trans)
  define t3 where "t3 = t2\<lparr>nextCount := fst (cd_updateAndCheck (nextCount t2))\<rparr>"
  have 3: "calm i t t3" by (rule calm_trans [OF 2]) (simp add: t3_def calm_frame)
  define t4 where "t4 = t3\<lparr>nextCount := cd_retrigger (nextCount t3)\<rparr>"
  have 4: "calm i t t4" by (rule calm_trans [OF 3]) (simp add: t4_def calm_frame)
  have 5: "calm i t (snd (snd (fold (\<lambda>k. Backuper_port ((backup_port t4 + k) mod kPortNum)) [0..<kPortNum] (False, backup_port t4, t4))))"
    by (rule calm_trans [OF 4 calm_backup_loop])
  have "Backuper_run g t = (if snd (cd_updateAndCheck (nextCount t2))
      then case fold (\<lambda>k. Backuper_port ((backup_port t4 + k) mod kPortNum)) [0..<kPortNum] (False, backup_port t4, t4) of
          (_, n, t5) \<Rightarrow> t5\<lparr>backup_port := n\<rparr>
      else t3)"
    unfolding Backuper_run_def Let_def t4_def t3_def t2_def t1_def t0_def j_def by (simp only: case_prod_beta)
  moreover have "calm i t (case r of (x, n, t5) \<Rightarrow> t5\<lparr>backup_port := n\<rparr>)" if "calm i t (snd (snd r))" for r :: "bool \<times> nat \<times> thing"
  proof (cases r)
    case (fields x n t5)
    then have "calm i t t5" using that by simp
    then have "calm i t (t5\<lparr>backup_port := n\<rparr>)" by (rule calm_trans) (simp add: calm_frame)
    then show ?thesis using fields by simp
  qed
  ultimately show ?thesis using 3 5 by simp
qed

lemma calm_Data: "calm i t (DataSetter_run t)"
proof -
  have e: "calm i t (emit_event x t)" for x t by (rule calm_frame) simp_all
  have d: "calm i t (emitPortData j t)" for j t
    unfolding emitPortData_def Let_def by (simp add: e) (auto intro!: calm_trans [OF e calm_spec] simp: watch_def)
  have c: "calm i t ((upd_spec j (\<lambda>s. s\<lparr>data_count := c\<rparr>) t)\<lparr>data_port := n\<rparr>)" for j c n
    by (rule calm_trans [OF calm_spec calm_frame]) (simp_all add: watch_def)
  show ?thesis unfolding DataSetter_run_def Let_def by (simp only: case_prod_beta) (auto intro: calm_trans [OF c d] c)
qed

text \<open>The current limiter and the no-load detector.\<close>

lemma CurrentLimiter_port_effect:
  assumes "settled i t"
  shows "settled i (CurrentLimiter_port g j t)" "j \<noteq> i \<Longrightarrow> same i t (CurrentLimiter_port g j t)"
    "charging i (CurrentLimiter_port g i t) \<Longrightarrow> charging i t \<and> \<not> snd (cd_updateAndCheck (limit_count (specs t i))) \<and>
       specs (CurrentLimiter_port g i t) i = (specs t i)\<lparr>limit_count := fst (cd_updateAndCheck (limit_count (specs t i)))\<rparr>"
proof -
  let ?u = "\<lambda>j. upd_spec j (\<lambda>s. s\<lparr>limit_count := fst (cd_updateAndCheck (limit_count (specs t j)))\<rparr>) t"
  let ?v = "\<lambda>j. upd_spec j (\<lambda>s. s\<lparr>finalState := Error\<rparr>) (?u j)"
  have e: "CurrentLimiter_port g j t = (if snd (cd_updateAndCheck (limit_count (specs t j)))
      then emit_event (Current_Limit j) (set_relay g j Off (?v j)) else ?u j)" for j
    unfolding CurrentLimiter_port_def Charger_stop_def Let_def by (simp only: case_prod_beta)
  have s: "settled i (?u j)" "settled i (?v j)" using assms by simp_all
  have m: "settled i (emit_event x t) = settled i t" for x t by (rule settled_cong) simp_all
  show "settled i (CurrentLimiter_port g j t)" using s settled_electric(1) [OF s(2)] by (simp add: e m)
  show "same i t (CurrentLimiter_port g j t)" if "j \<noteq> i"
    using that electric_other(5) [of i j "?v j" g Off] by (simp add: e same_def)
  have "ports_ok (?v i)" using assms by (simp add: settled_def ports_ok_def)
  from electric_off(4) [OF this, of g i]
  show "charging i (CurrentLimiter_port g i t) \<Longrightarrow> charging i t \<and> \<not> snd (cd_updateAndCheck (limit_count (specs t i))) \<and>
       specs (CurrentLimiter_port g i t) i = (specs t i)\<lparr>limit_count := fst (cd_updateAndCheck (limit_count (specs t i)))\<rparr>"
    by (simp add: e split: if_splits)
qed

lemma CurrentLimiter_run_effect:
  assumes s: "settled i t" and i: "i < kPortNum"
  shows "settled i (CurrentLimiter_run g t)"
    "charging i (CurrentLimiter_run g t) \<Longrightarrow> charging i t \<and> \<not> snd (cd_updateAndCheck (limit_count (specs t i))) \<and>
       specs (CurrentLimiter_run g t) i = (specs t i)\<lparr>limit_count := fst (cd_updateAndCheck (limit_count (specs t i)))\<rparr>"
proof -
  show "settled i (CurrentLimiter_run g t)"
    unfolding CurrentLimiter_run_def by (rule fold_invariant [where Q = "\<lambda>_. True"]) (use s CurrentLimiter_port_effect(1) in auto)
  obtain t1 where "settled i t1" "same i t t1" "same i (CurrentLimiter_port g i t1) (CurrentLimiter_run g t)"
    unfolding CurrentLimiter_run_def
    by (rule fold_one [where I = "settled i" and f = "CurrentLimiter_port g" and i = i and js = "[0..<kPortNum]"])
       (use CurrentLimiter_port_effect(1,2) s i in auto)
  then show "charging i (CurrentLimiter_run g t) \<Longrightarrow> charging i t \<and> \<not> snd (cd_updateAndCheck (limit_count (specs t i))) \<and>
       specs (CurrentLimiter_run g t) i = (specs t i)\<lparr>limit_count := fst (cd_updateAndCheck (limit_count (specs t i)))\<rparr>"
    using CurrentLimiter_port_effect(3) [of i t1 g] by (simp add: same_def)
qed

lemma NoloadDetecter_run_effect:
  fixes g :: bool
  assumes "settled i t"
  defines "t' \<equiv> NoloadDetecter_run g t"
  shows "settled i t'" "noload_port t' = (noload_port t + 1) mod kPortNum" "noload_port t \<noteq> i \<Longrightarrow> same i t t'"
    "\<lbrakk>noload_port t = i; charging i t'\<rbrakk> \<Longrightarrow> charging i t \<and>
       \<not> snd (cd_updateAndCheck (noloadCount (specs t i))) \<and> \<not> snd (cd_updateAndCheck (doneCount (specs t i))) \<and>
       specs t' i = (specs t i)\<lparr>noloadCount := fst (cd_updateAndCheck (noloadCount (specs t i))),
         doneCount := fst (cd_updateAndCheck (doneCount (specs t i)))\<rparr>"
proof -
  define j where "j = noload_port t"
  define nc where "nc = cd_updateAndCheck (noloadCount (specs t j))"
  define dc where "dc = cd_updateAndCheck (doneCount (specs t j))"
  define t0 where "t0 = t\<lparr>noload_port := (noload_port t + 1) mod kPortNum\<rparr>"
  define t1 where "t1 = upd_spec j (\<lambda>s. s\<lparr>noloadCount := fst nc, doneCount := fst dc\<rparr>) t0"
  define t2 where "t2 = (if snd nc then upd_spec j (\<lambda>s. s\<lparr>finalState := LoadNotInsert\<rparr>) t1 else t1)"
  have e: "t' = (if (snd nc \<or> snd dc) \<and> charging j t1 then set_relay g j Off t2 else t1)"
    unfolding t'_def NoloadDetecter_run_def Charger_stop_def Let_def t2_def t1_def t0_def nc_def dc_def j_def
    by (simp add: case_prod_beta)
  have "settled i t0" using assms(1) settled_cong [of t0 t i] by (simp add: t0_def)
  then have s: "settled i t1" "settled i t2" by (simp_all add: t1_def t2_def)
  show "settled i t'" using s settled_electric(1) [OF s(2)] by (simp add: e)
  show "noload_port t' = (noload_port t + 1) mod kPortNum" by (simp add: e t2_def t1_def t0_def)
  show "same i t t'" if "noload_port t \<noteq> i"
    using that electric_other(5) [of i j t2 g Off] by (simp add: e same_def t2_def t1_def t0_def j_def)
  assume i: "noload_port t = i" and c: "charging i t'"
  have "\<not> charging i (set_relay g i Off t2)" by (rule electric_off(4)) (use s(2) in \<open>simp add: settled_def\<close>)
  then have "t' = t1" "\<not> ((snd nc \<or> snd dc) \<and> charging i t1)" using c i unfolding e j_def by (auto split: if_splits)
  then show "charging i t \<and> \<not> snd (cd_updateAndCheck (noloadCount (specs t i))) \<and> \<not> snd (cd_updateAndCheck (doneCount (specs t i))) \<and>
       specs t' i = (specs t i)\<lparr>noloadCount := fst (cd_updateAndCheck (noloadCount (specs t i))),
         doneCount := fst (cd_updateAndCheck (doneCount (specs t i)))\<rparr>"
    using c i by (simp add: t1_def t0_def nc_def dc_def j_def)
qed

text \<open>A new reading of the current.\<close>

lemma calm_reading:
  "calm i t (StateStore_update j (VirtualLoadDetector_update g j (upd_port j (\<lambda>p. p\<lparr>current := c\<rparr>) t)))"
  "calm i t (StateStore_update j (VirtualLoadDetector_update g j (upd_port j (\<lambda>p. p\<lparr>voltage := c\<rparr>) t)))"
  by (rule calm_trans [OF calm_trans [OF calm_port_reading(1) calm_electric(2)] calm_electric(1)],
      rule calm_trans [OF calm_trans [OF calm_port_reading(2) calm_electric(2)] calm_electric(1)])

lemma calm_other_spec: "j \<noteq> i \<Longrightarrow> calm i t (upd_spec j f t)"
  by (simp add: calm_def quiet_def settled_def ports_ok_def)

lemma calm_DataCurrent: "calm i t (DataSetter_onCurrentChanged j v t)"
  by (auto simp: DataSetter_onCurrentChanged_def watch_def intro!: calm_spec)

lemma calm_current_other: "j \<noteq> i \<Longrightarrow> calm i t (set_current facc g j v t)"
proof -
  assume j: "j \<noteq> i"
  have "calm i t (CurrentLimiter_onCurrentChanged j v t)" "calm i t (NoloadDetecter_onCurrentChanged j v t)" for t
    by (auto simp: CurrentLimiter_onCurrentChanged_def NoloadDetecter_onCurrentChanged_def checkCurrent_def Let_def
        intro!: calm_other_spec [OF j] calm_trans [OF calm_other_spec [OF j] calm_other_spec [OF j]])
  note C = calm_trans [OF calm_trans [OF calm_trans [OF calm_trans [OF calm_reading(1) this(1)] this(2)] calm_DataCurrent] calm_measure]
  show ?thesis by (simp add: set_current_def Let_def C)
qed

lemma current_effect:
  fixes g :: bool and v :: int and j :: nat and facc :: "u32 \<Rightarrow> int \<Rightarrow> int \<Rightarrow> u32 \<Rightarrow> u32"
  assumes "settled i t"
  defines "t' \<equiv> set_current facc g j v t"
  shows "settled i t'" "charging i t' \<Longrightarrow> charging i t \<and> leftSeconds (specs t' i) = leftSeconds (specs t i)"
proof -
  define t2 where "t2 = StateStore_update j (VirtualLoadDetector_update g j (upd_port j (\<lambda>p. p\<lparr>current := Some v\<rparr>) t))"
  have 2: "settled i t2" "quiet i t t2" using calm_reading(1) [of i t j g "Some v"] assms(1) by (simp_all add: t2_def calm_def)
  define t4 where "t4 = NoloadDetecter_onCurrentChanged j v (CurrentLimiter_onCurrentChanged j v t2)"
  have 4: "ports t4 = ports t2" "leftSeconds (specs t4 i) = leftSeconds (specs t2 i)"
    "stateHasTransitioned (specs t4 i) = stateHasTransitioned (specs t2 i)"
    by (auto simp: t4_def CurrentLimiter_onCurrentChanged_def NoloadDetecter_onCurrentChanged_def checkCurrent_def Let_def)
  then have s4: "settled i t4" using 2(1) settled_cong [of t4 t2 i] by simp
  have e: "t' = (if current (ports t j) = Some v then t else ConsumptionMeasurer_update facc j (DataSetter_onCurrentChanged j v t4))"
    by (simp add: t'_def set_current_def t4_def t2_def Let_def)
  have c: "calm i t4 (ConsumptionMeasurer_update facc j (DataSetter_onCurrentChanged j v t4))"
    by (rule calm_trans [OF calm_DataCurrent calm_measure])
  show "settled i t'" using c s4 assms(1) by (simp add: e calm_def)
  show "charging i t' \<Longrightarrow> charging i t \<and> leftSeconds (specs t' i) = leftSeconds (specs t i)"
    using c s4 2(2) 4 unfolding e by (auto simp: calm_def quiet_def watch_def split: if_splits)
qed

text \<open>The operations that do not decide about the end of port \<open>i\<close>.\<close>

definition minor :: "nat \<Rightarrow> op \<Rightarrow> bool" where
  "minor i x \<longleftrightarrow> (case x of Op_Counter \<Rightarrow> False | Op_Limiter \<Rightarrow> False | Op_Noload \<Rightarrow> False
     | Op_Current j v \<Rightarrow> j \<noteq> i | Op_Control j tid m \<Rightarrow> j \<noteq> i | _ \<Rightarrow> True)"

lemma exec_minor:
  assumes "settled i t" "minor i x"
  shows "calm i t (exec facc g x t)"
proof (cases x)
  case Op_Measure
  then show ?thesis by (simp add: ConsumptionMeasurer_run_def calm_fold calm_measure)
next
  case (Op_Voltage j v)
  then show ?thesis by (simp add: set_voltage_def Let_def calm_trans [OF calm_reading(2) calm_measure])
next
  case (Op_Control j tid m)
  then have j: "j \<noteq> i" using assms(2) by (simp add: minor_def)
  then show ?thesis using Op_Control
    by (simp add: Thing_control_def Charger_start_def calm_trans [OF calm_other_spec [OF j] calm_electric(5) [OF j]] calm_frame)
next
  case (Op_Stop j tid)
  have "calm i t (upd_spec j (\<lambda>s. s\<lparr>timerId := tid\<rparr>) (set_relay g j Off t))"
    by (rule calm_trans [OF calm_electric(4)], rule calm_spec) (simp add: watch_def)
  then show ?thesis using Op_Stop by (simp add: Thing_stop_def Charger_stop_def calm_frame)
next
  case Op_Query
  have "calm i t (upd_spec j (\<lambda>s. s\<lparr>data_count := cd_retrigger (data_count s)\<rparr>) t)" for j t by (rule calm_spec) (simp add: watch_def)
  then show ?thesis using Op_Query by (simp add: Thing_query_def calm_fold)
qed (use assms in \<open>simp_all add: minor_def calm_Backuper calm_Data calm_frame calm_electric calm_current_other Thing_config_def\<close>)

end
