(* ===== verification/Shutdown.thy ===== *)
theory Shutdown
  imports Pile
begin

text \<open>
  When a port is switched off.  The paid time, the current limit and the two detectors of an idle load
  each run a counter that only goes down while the port is charging; the argument is made once, for
  histories of any operations, and used for each of them.
\<close>

section \<open>Deadlines\<close>

text \<open>How often an operation is due in a history.\<close>

fun turns :: "('o \<Rightarrow> 's \<Rightarrow> 's) \<Rightarrow> ('o \<Rightarrow> 's \<Rightarrow> bool) \<Rightarrow> 'o list \<Rightarrow> 's \<Rightarrow> nat" where
  "turns step due [] s = 0"
| "turns step due (x # xs) s = (if due x s then 1 else 0) + turns step due xs (step x s)"

locale deadline =
  fixes step :: "'o \<Rightarrow> 's \<Rightarrow> 's" and ok :: "'s \<Rightarrow> bool" and allowed :: "'o \<Rightarrow> bool" and on :: "'s \<Rightarrow> bool"
    and left :: "'s \<Rightarrow> nat" and due :: "'o \<Rightarrow> 's \<Rightarrow> bool"
  assumes ok_step: "\<lbrakk>ok s; allowed x\<rbrakk> \<Longrightarrow> ok (step x s)"
    and on_step: "\<lbrakk>ok s; allowed x; on (step x s)\<rbrakk> \<Longrightarrow> on s \<and> left (step x s) + (if due x s then 1 else 0) \<le> left s"
    and on_left: "\<lbrakk>ok s; on s\<rbrakk> \<Longrightarrow> 0 < left s"
begin

lemma still_on:
  assumes "ok s" "\<forall>x \<in> set xs. allowed x" "on (fold step xs s)"
  shows "on s \<and> left (fold step xs s) + turns step due xs s \<le> left s \<and> ok (fold step xs s)"
  using assms
proof (induction xs arbitrary: s)
  case (Cons x xs)
  have o: "ok (step x s)" using Cons.prems ok_step by simp
  have IH: "on (step x s)" "left (fold step xs (step x s)) + turns step due xs (step x s) \<le> left (step x s)" "ok (fold step xs (step x s))"
    using Cons.IH [OF o] Cons.prems by simp_all
  have "on s \<and> left (step x s) + (if due x s then 1 else 0) \<le> left s"
    using on_step [OF Cons.prems(1) _ IH(1)] Cons.prems(2) by simp
  then show ?case using IH(2,3) by auto
qed simp

lemma off_in_time:
  assumes "ok s" "\<forall>x \<in> set xs. allowed x" "left s \<le> turns step due xs s"
  shows "\<not> on (fold step xs s)"
proof
  assume o: "on (fold step xs s)"
  note S = still_on [OF assms(1,2) o]
  then have "0 < left (fold step xs s)" using on_left o by blast
  then show False using S assms(3) by linarith
qed

lemma stays_off:
  assumes "ok s" "\<forall>x \<in> set xs. allowed x" "\<not> on s"
  shows "\<not> on (fold step xs s)"
  using still_on [OF assms(1,2)] assms(3) by blast

end

section \<open>What an operation does to the counters of a charging port\<close>

text \<open>Commands to start the port again are excluded.\<close>

definition no_restart :: "nat \<Rightarrow> op \<Rightarrow> bool" where
  "no_restart i x \<longleftrightarrow> (case x of Op_Control j tid m \<Rightarrow> j \<noteq> i | _ \<Rightarrow> True)"

lemma minor_cases:
  assumes "no_restart i x"
  obtains "minor i x" | "x = Op_Counter" | "x = Op_Limiter" | "x = Op_Noload" | v where "x = Op_Current i v"
  using assms by (cases x) (auto simp: minor_def no_restart_def)

text \<open>The configuration and the port the no-load detector looks at next are changed by their own operations
  only.\<close>

definition ctl :: "thing \<Rightarrow> dev_config \<times> nat" where
  "ctl t = (conf t, noload_port t)"

lemma ctl_upd [simp]: "ctl (upd_spec i f t) = ctl t" "ctl (upd_port i p t) = ctl t" "ctl (emit_event e t) = ctl t"
  by (simp_all add: ctl_def)

lemma ctl_set_state [simp]: "ctl (set_state i st t) = ctl t"
  by (simp add: ctl_def)

lemma ctl_electric [simp]:
  "ctl (StateStore_update i t) = ctl t" "ctl (VirtualLoadDetector_update g i t) = ctl t"
  "ctl (set_relay g i v t) = ctl t" "ctl (load_timer_run g i t) = ctl t"
proof -
  show u: "ctl (StateStore_update i t) = ctl t" for t by (auto simp: StateStore_update_def split: option.split bool.split)
  have l: "ctl (set_load i b t) = ctl t" for b t by (simp add: set_load_def Let_def u)
  have n: "ctl (t\<lparr>null_read := True\<rparr>) = ctl t" for t by (simp add: ctl_def)
  show v: "ctl (VirtualLoadDetector_update g i t) = ctl t" for t
    by (simp add: VirtualLoadDetector_update_def Let_def l n split: option.split)
  show "ctl (set_relay g i v t) = ctl t" by (simp add: set_relay_def Let_def u v)
  show "ctl (load_timer_run g i t) = ctl t" by (simp add: load_timer_run_def Let_def v)
qed

lemma ctl_fold: "(\<And>j t. ctl (f j t) = ctl t) \<Longrightarrow> ctl (fold f js t) = ctl t"
  by (induction js arbitrary: t) auto

lemma ctl_current [simp]: "ctl (ConsumptionMeasurer_update facc i t) = ctl t" "ctl (set_current facc g i v t) = ctl t"
    "ctl (set_voltage facc g i v t) = ctl t"
  by (simp_all add: ConsumptionMeasurer_update_def set_current_def set_voltage_def DataSetter_onCurrentChanged_def
      NoloadDetecter_onCurrentChanged_def checkCurrent_def CurrentLimiter_onCurrentChanged_def Let_def)

lemma ctl_backup: "ctl (snd (snd (fold (\<lambda>k. Backuper_port (h k)) ks (b, n, t)))) = ctl t"
proof (induction ks arbitrary: b n t)
  case (Cons k ks)
  obtain b' n' t' where e: "Backuper_port (h k) (b, n, t) = (b', n', t')" by (cases "Backuper_port (h k) (b, n, t)")
  have f: "ctl (t\<lparr>flash := x\<rparr>) = ctl t" for t x by (simp add: ctl_def)
  have "ctl (snd (snd (Backuper_port (h k) (b, n, t)))) = ctl t"
    by (simp add: Backuper_port_def Let_def case_prod_beta f)
  then show ?case using Cons [of b' n' t'] e by simp
qed simp

lemma ctl_Backuper [simp]: "ctl (Backuper_run g t) = ctl t"
proof -
  have f [simp]: "ctl (t\<lparr>resume_port := n\<rparr>) = ctl t" "ctl (t\<lparr>nextCount := c\<rparr>) = ctl t" "ctl (t\<lparr>backup_port := n\<rparr>) = ctl t" for t n c
    by (simp_all add: ctl_def)
  have "ctl (Backuper_resume g i t) = ctl t" for i t by (simp add: Backuper_resume_def Charger_start_def Let_def)
  then show ?thesis by (simp add: Backuper_run_def Let_def case_prod_beta ctl_backup)
qed

lemma ctl_Data [simp]: "ctl (DataSetter_run t) = ctl t"
proof -
  have f: "ctl (t\<lparr>data_port := n\<rparr>) = ctl t" for t n by (simp add: ctl_def)
  show ?thesis by (simp add: DataSetter_run_def emitPortData_def Let_def case_prod_beta f)
qed

lemma ctl_runs [simp]: "ctl (Counter_run g t) = ctl t" "ctl (CurrentLimiter_run g t) = ctl t"
    "ctl (ConsumptionMeasurer_run facc t) = ctl t" "ctl (Thing_query t) = ctl t"
  unfolding Counter_run_def CurrentLimiter_run_def ConsumptionMeasurer_run_def Thing_query_def
  by (rule ctl_fold; simp add: Counter_port_def CurrentLimiter_port_def Charger_stop_def Let_def case_prod_beta)+

lemma ctl_Noload: "ctl (NoloadDetecter_run g t) = (conf t, (noload_port t + 1) mod kPortNum)"
proof -
  have "ctl (t\<lparr>noload_port := n\<rparr>) = (conf t, n)" for n by (simp add: ctl_def)
  then show ?thesis by (simp add: NoloadDetecter_run_def Charger_stop_def Let_def case_prod_beta)
qed

lemma exec_ctl:
  "conf (exec facc g x t) = (case x of Op_Config c \<Rightarrow> c | _ \<Rightarrow> conf t)"
  "noload_port (exec facc g x t) = (if x = Op_Noload then (noload_port t + 1) mod kPortNum else noload_port t)"
proof -
  have "ctl (exec facc g x t) = (case x of Op_Config c \<Rightarrow> c | _ \<Rightarrow> conf t,
      if x = Op_Noload then (noload_port t + 1) mod kPortNum else noload_port t)"
  proof (cases x)
    case Op_Tick
    then show ?thesis by (simp add: ctl_def)
  next
    case (Op_Control i tid m)
    then show ?thesis by (cases "kPortNum \<le> i") (simp add: Thing_control_def ctl_def, simp add: Thing_control_def Charger_start_def, simp add: ctl_def)
  next
    case (Op_Stop i tid)
    then show ?thesis by (cases "kPortNum \<le> i") (simp add: Thing_stop_def ctl_def, simp add: Thing_stop_def Charger_stop_def, simp add: ctl_def)
  qed (simp_all add: ctl_Noload, simp_all add: ctl_def [symmetric] Thing_control_def Thing_stop_def Thing_config_def
      Charger_start_def Charger_stop_def, simp add: ctl_def)
  then show "conf (exec facc g x t) = (case x of Op_Config c \<Rightarrow> c | _ \<Rightarrow> conf t)"
    "noload_port (exec facc g x t) = (if x = Op_Noload then (noload_port t + 1) mod kPortNum else noload_port t)"
    by (simp_all add: ctl_def)
qed

text \<open>A new reading of the port's current.\<close>

definition reading :: "nat \<Rightarrow> op \<Rightarrow> thing \<Rightarrow> int option" where
  "reading i x t = (case x of Op_Current j v \<Rightarrow> if j = i \<and> current (ports t i) \<noteq> Some v then Some v else None | _ \<Rightarrow> None)"

text \<open>What a reading does to a counter that runs while \<open>P\<close> holds of the current.\<close>

definition cd_read :: "bool \<Rightarrow> count_down \<Rightarrow> count_down" where
  "cd_read b c = (if b then cd_trigger c else cd_reset c)"

text \<open>What remains of a counter after an operation at which it is due or a reading comes in.\<close>

definition cd_step :: "bool \<Rightarrow> bool option \<Rightarrow> count_down \<Rightarrow> count_down" where
  "cd_step due r c = (if due then fst (cd_updateAndCheck c) else case r of None \<Rightarrow> c | Some b \<Rightarrow> cd_read b c)"

lemma current_counts:
  assumes s: "settled i t" and c: "charging i (set_current facc g i v t)"
  shows "charging i t" "leftSeconds (specs (set_current facc g i v t) i) = leftSeconds (specs t i)"
    "limit_count (specs (set_current facc g i v t) i) =
       cd_step False (map_option (\<lambda>v. v > currentLimit (conf t)) (reading i (Op_Current i v) t)) (limit_count (specs t i))"
    "noloadCount (specs (set_current facc g i v t) i) =
       cd_step False (map_option (\<lambda>v. v < noloadCurrThr (conf t)) (reading i (Op_Current i v) t)) (noloadCount (specs t i))"
    "doneCount (specs (set_current facc g i v t) i) =
       cd_step False (map_option (\<lambda>v. v < doneCurrThr (conf t)) (reading i (Op_Current i v) t)) (doneCount (specs t i))"
proof -
  show ch: "charging i t" and "leftSeconds (specs (set_current facc g i v t) i) = leftSeconds (specs t i)"
    using current_effect(2) [OF s c] by simp_all
  let ?t = "upd_port i (\<lambda>p. p\<lparr>current := Some v\<rparr>) t"
  have k: "ports_ok ?t" "charging i ?t" using settledD(1) [OF s] ch by (simp_all add: ports_ok_def)
  have e: "set_current facc g i v t = (if current (ports t i) = Some v then t
      else ConsumptionMeasurer_update facc i (DataSetter_onCurrentChanged i v
        (NoloadDetecter_onCurrentChanged i v (CurrentLimiter_onCurrentChanged i v ?t))))"
    by (simp add: set_current_def Let_def electric_charging [OF k])
  show "limit_count (specs (set_current facc g i v t) i) =
       cd_step False (map_option (\<lambda>v. v > currentLimit (conf t)) (reading i (Op_Current i v) t)) (limit_count (specs t i))"
    "noloadCount (specs (set_current facc g i v t) i) =
       cd_step False (map_option (\<lambda>v. v < noloadCurrThr (conf t)) (reading i (Op_Current i v) t)) (noloadCount (specs t i))"
    "doneCount (specs (set_current facc g i v t) i) =
       cd_step False (map_option (\<lambda>v. v < doneCurrThr (conf t)) (reading i (Op_Current i v) t)) (doneCount (specs t i))"
    using ch by (simp_all add: e reading_def cd_step_def cd_read_def ConsumptionMeasurer_update_def DataSetter_onCurrentChanged_def
        NoloadDetecter_onCurrentChanged_def checkCurrent_def CurrentLimiter_onCurrentChanged_def Let_def)
qed

text \<open>The lemma all bounds rest on: after an operation other than a command to start it, a charging port
  was charging before, no counter has run out, and the counters are as follows.\<close>

definition counted :: "nat \<Rightarrow> op \<Rightarrow> thing \<Rightarrow> thing \<Rightarrow> bool" where
  "counted i x t t' \<longleftrightarrow> charging i t
     \<and> (x = Op_Counter \<longrightarrow> 1 < leftSeconds (specs t i))
     \<and> leftSeconds (specs t' i) = leftSeconds (specs t i) - (if x = Op_Counter then 1 else 0)
     \<and> (x = Op_Limiter \<longrightarrow> \<not> snd (cd_updateAndCheck (limit_count (specs t i))))
     \<and> limit_count (specs t' i) = cd_step (x = Op_Limiter) (map_option (\<lambda>v. v > currentLimit (conf t)) (reading i x t)) (limit_count (specs t i))
     \<and> (x = Op_Noload \<and> noload_port t = i \<longrightarrow>
          \<not> snd (cd_updateAndCheck (noloadCount (specs t i))) \<and> \<not> snd (cd_updateAndCheck (doneCount (specs t i))))
     \<and> noloadCount (specs t' i) = cd_step (x = Op_Noload \<and> noload_port t = i) (map_option (\<lambda>v. v < noloadCurrThr (conf t)) (reading i x t)) (noloadCount (specs t i))
     \<and> doneCount (specs t' i) = cd_step (x = Op_Noload \<and> noload_port t = i) (map_option (\<lambda>v. v < doneCurrThr (conf t)) (reading i x t)) (doneCount (specs t i))"

lemma exec_counted:
  assumes s: "settled i t" and i: "i < kPortNum" and x: "no_restart i x"
  shows "settled i (exec facc g x t)" "charging i (exec facc g x t) \<Longrightarrow> counted i x t (exec facc g x t)"
proof -
  have "settled i (exec facc g x t) \<and> (charging i (exec facc g x t) \<longrightarrow> counted i x t (exec facc g x t))"
    using x
  proof (cases rule: minor_cases)
    case 1
    moreover have "x \<noteq> Op_Counter" "x \<noteq> Op_Limiter" "x \<noteq> Op_Noload" "reading i x t = None"
      using 1 by (auto simp: minor_def reading_def split: op.splits)
    ultimately show ?thesis using exec_minor [OF s, of x facc g] s
      by (simp add: calm_def quiet_def watch_def counted_def cd_step_def)
  next
    case 2
    then show ?thesis using Counter_run_effect [OF s i, of g] by (auto simp: counted_def cd_step_def reading_def)
  next
    case 3
    then show ?thesis using CurrentLimiter_run_effect [OF s i, of g] by (auto simp: counted_def cd_step_def reading_def)
  next
    case 4
    then show ?thesis using NoloadDetecter_run_effect [OF s, of g]
      by (cases "noload_port t = i") (auto simp: counted_def cd_step_def reading_def same_def)
  next
    case (5 v)
    then show ?thesis using current_effect(1) [OF s, of facc g i v] current_counts [OF s, of facc g v] by (auto simp: counted_def)
  qed
  then show "settled i (exec facc g x t)" "charging i (exec facc g x t) \<Longrightarrow> counted i x t (exec facc g x t)" by blast+
qed

section \<open>The paid time\<close>

text \<open>A port that is on has at least one tick left, whatever its record says.\<close>

definition paid :: "nat \<Rightarrow> thing \<Rightarrow> bool" where
  "paid i t \<longleftrightarrow> i < kPortNum \<and> settled i t"

interpretation paid_time: deadline "exec facc g" "paid i" "no_restart i" "charging i" "\<lambda>t. nat (max 1 (leftSeconds (specs t i)))"
    "\<lambda>x t. x = Op_Counter" for facc g i
proof
  fix t x
  assume p: "paid i t" and x: "no_restart i x"
  then have s: "settled i t" "i < kPortNum" by (simp_all add: paid_def)
  note E = exec_counted [OF s x, of facc g]
  show "paid i (exec facc g x t)" using E p by (auto simp: paid_def counted_def)
  show "charging i (exec facc g x t) \<Longrightarrow> charging i t \<and>
      nat (max 1 (leftSeconds (specs (exec facc g x t) i))) + (if x = Op_Counter then 1 else 0) \<le> nat (max 1 (leftSeconds (specs t i)))"
    using E(2) by (auto simp: counted_def)
qed simp

lemma Counter_run_on:
  assumes s: "settled i t" and i: "i < kPortNum" and c: "charging i t" "1 < leftSeconds (specs t i)"
  shows "charging i (Counter_run g t)"
proof -
  obtain t1 where "settled i t1" "same i t t1" "same i (Counter_port g i t1) (Counter_run g t)"
    unfolding Counter_run_def
    by (rule fold_one [where I = "settled i" and f = "Counter_port g" and i = i and js = "[0..<kPortNum]"])
       (use Counter_port_effect(1,2) s i in auto)
  then show ?thesis using c by (simp add: same_def Counter_port_def Let_def)
qed

section \<open>Counters of consecutive readings\<close>

text \<open>A counter that has been triggered runs out after as many turns as it has left.\<close>

definition running :: "count_down \<Rightarrow> bool" where
  "running c \<longleftrightarrow> counting c \<and> currVal c \<noteq> 0"

lemma running_step:
  assumes "running c" "due \<longrightarrow> \<not> snd (cd_updateAndCheck c)" "r \<noteq> Some False"
  shows "running (cd_step due r c)" "unat (currVal (cd_step due r c)) + (if due then 1 else 0) \<le> unat (currVal c)"
proof -
  have *: "currVal c \<noteq> 0" "counting c" using assms(1) by (simp_all add: running_def)
  then have "unat (currVal c - 1) + 1 = unat (currVal c)" by (simp add: unat_minus_one unat_gt_0)
  then show "running (cd_step due r c)" "unat (currVal (cd_step due r c)) + (if due then 1 else 0) \<le> unat (currVal c)"
    using * assms(2,3)
    by (auto simp: running_def cd_step_def cd_read_def cd_updateAndCheck_def cd_trigger_def Let_def split: if_splits option.splits)
qed

text \<open>Histories in which the port is not started again, its readings stay on the side of the threshold
  \<open>lim\<close> that keeps the counter running, and the configuration keeps that threshold.\<close>

definition keeps :: "(int \<Rightarrow> int \<Rightarrow> bool) \<Rightarrow> (dev_config \<Rightarrow> int) \<Rightarrow> int \<Rightarrow> nat \<Rightarrow> op \<Rightarrow> bool" where
  "keeps rel thr lim i x \<longleftrightarrow> (case x of Op_Control j tid m \<Rightarrow> j \<noteq> i | Op_Current j v \<Rightarrow> j = i \<longrightarrow> rel v lim
     | Op_Config c \<Rightarrow> thr c = lim | _ \<Rightarrow> True)"

lemma keepsD:
  assumes "keeps rel thr lim i x" "thr (conf t) = lim"
  shows "no_restart i x" "map_option (\<lambda>v. rel v (thr (conf t))) (reading i x t) \<noteq> Some False" "thr (conf (exec facc g x t)) = lim"
  using assms by (auto simp: keeps_def no_restart_def reading_def exec_ctl split: op.splits)

definition watched :: "(spec \<Rightarrow> count_down) \<Rightarrow> (dev_config \<Rightarrow> int) \<Rightarrow> int \<Rightarrow> nat \<Rightarrow> thing \<Rightarrow> bool" where
  "watched get thr lim i t \<longleftrightarrow> i < kPortNum \<and> settled i t \<and> thr (conf t) = lim \<and> (charging i t \<longrightarrow> running (get (specs t i)))"

locale watchdog =
  fixes facc :: "u32 \<Rightarrow> int \<Rightarrow> int \<Rightarrow> u32 \<Rightarrow> u32" and g :: bool and i :: nat and lim :: int
    and get :: "spec \<Rightarrow> count_down" and thr :: "dev_config \<Rightarrow> int" and rel :: "int \<Rightarrow> int \<Rightarrow> bool" and due :: "op \<Rightarrow> thing \<Rightarrow> bool"
  assumes step: "counted i x t t' \<Longrightarrow>
      get (specs t' i) = cd_step (due x t) (map_option (\<lambda>v. rel v (thr (conf t))) (reading i x t)) (get (specs t i))"
    and out: "\<lbrakk>counted i x t t'; due x t\<rbrakk> \<Longrightarrow> \<not> snd (cd_updateAndCheck (get (specs t i)))"

sublocale watchdog \<subseteq> deadline "exec facc g" "watched get thr lim i" "keeps rel thr lim i" "charging i"
    "\<lambda>t. unat (currVal (get (specs t i)))" due
proof
  fix t x
  assume w: "watched get thr lim i t" and x: "keeps rel thr lim i x"
  then have s: "settled i t" "i < kPortNum" "thr (conf t) = lim" by (simp_all add: watched_def)
  note K = keepsD(1,2) [OF x s(3)] keepsD(3) [OF x s(3), of facc g]
  note E = exec_counted [OF s(1,2) K(1), of facc g]
  have c: "charging i t \<and> running (get (specs (exec facc g x t) i)) \<and>
      unat (currVal (get (specs (exec facc g x t) i))) + (if due x t then 1 else 0) \<le> unat (currVal (get (specs t i)))"
    if ch: "charging i (exec facc g x t)"
  proof -
    note C = E(2) [OF ch]
    have "charging i t" using C by (simp add: counted_def)
    moreover from this have r: "running (get (specs t i))" using w by (simp add: watched_def)
    have "due x t \<longrightarrow> \<not> snd (cd_updateAndCheck (get (specs t i)))" using out [OF C] by blast
    note running_step [OF r this K(2)]
    ultimately show ?thesis by (simp add: step [OF C])
  qed
  show "watched get thr lim i (exec facc g x t)" using E(1) K(3) c s(2) by (simp add: watched_def)
  show "charging i (exec facc g x t) \<Longrightarrow> charging i t \<and>
      unat (currVal (get (specs (exec facc g x t) i))) + (if due x t then 1 else 0) \<le> unat (currVal (get (specs t i)))"
    using c by blast
qed (simp add: watched_def running_def unat_gt_0)

text \<open>From a reading on the wrong side of the threshold on, for as long as the readings stay there.\<close>

context watchdog
begin

lemma off_after_reading:
  assumes s: "settled i t" "i < kPortNum" and c: "charging i t" "currVal (get (specs t i)) \<noteq> 0"
    and v: "current (ports t i) \<noteq> Some v" "rel v lim" "thr (conf t) = lim" "\<not> due (Op_Current i v) t"
    and xs: "\<forall>x \<in> set xs. keeps rel thr lim i x"
    and n: "unat (currVal (get (specs t i))) \<le> turns (exec facc g) due xs (exec facc g (Op_Current i v) t)"
  shows "\<not> charging i (fold (exec facc g) (Op_Current i v # xs) t)"
proof -
  let ?t = "exec facc g (Op_Current i v) t"
  note E = exec_counted [OF s, of "Op_Current i v" facc g]
  have k: "get (specs ?t i) = cd_trigger (get (specs t i))" if "charging i ?t"
    using step [OF E(2) [OF _ that]] v by (simp add: no_restart_def cd_step_def cd_read_def reading_def)
  have w: "watched get thr lim i ?t"
    using E(1) k s(2) c(2) v(3) exec_ctl(1) [of facc g "Op_Current i v" t]
    by (simp add: watched_def no_restart_def running_def cd_trigger_def)
  show ?thesis
  proof (cases "charging i ?t")
    case True
    then show ?thesis using off_in_time [OF w xs] n k by (simp add: cd_trigger_def)
  next
    case False
    then show ?thesis using stays_off [OF w xs] by simp
  qed
qed

end

interpretation limiter: watchdog facc g i lim limit_count currentLimit "(>)" "\<lambda>x t. x = Op_Limiter" for facc g i lim
  by unfold_locales (simp_all add: counted_def)

interpretation noload: watchdog facc g i lim noloadCount noloadCurrThr "(<)" "\<lambda>x t. x = Op_Noload \<and> noload_port t = i" for facc g i lim
  by unfold_locales (simp_all add: counted_def)

interpretation charged: watchdog facc g i lim doneCount doneCurrThr "(<)" "\<lambda>x t. x = Op_Noload \<and> noload_port t = i" for facc g i lim
  by unfold_locales (simp_all add: counted_def)

text \<open>Turns in ticks of a timer: every tick is a turn of a counter that all ports have, and every tenth tick
  one of a detector that looks at the ports in turn.\<close>

lemma turns_filter: "turns step (\<lambda>x s. P x) xs s = length (filter P xs)"
  by (induction xs arbitrary: s) auto

lemma next_port:
  assumes "p < kPortNum" "i < kPortNum" "p \<noteq> i"
  shows "(i + kPortNum - p) mod kPortNum = Suc ((i + kPortNum - (p + 1) mod kPortNum) mod kPortNum)"
  using assms by (auto simp: mod_if)

lemma turns_noload:
  assumes "noload_port t < kPortNum" "i < kPortNum"
  shows "length (filter (\<lambda>x. x = Op_Noload) xs) \<le>
    10 * turns (exec facc g) (\<lambda>x t. x = Op_Noload \<and> noload_port t = i) xs t + (i + kPortNum - noload_port t) mod kPortNum"
  using assms
proof (induction xs arbitrary: t)
  case (Cons x xs)
  let ?T = "turns (exec facc g) (\<lambda>x t. x = Op_Noload \<and> noload_port t = i) xs (exec facc g x t)"
  have n: "noload_port (exec facc g x t) < kPortNum" using Cons.prems(1) by (simp add: exec_ctl)
  note IH = Cons.IH [OF n Cons.prems(2)]
  show ?case
  proof (cases "x = Op_Noload")
    case True
    then have p: "noload_port (exec facc g x t) = (noload_port t + 1) mod kPortNum" using exec_ctl(2) [of facc g x t] by simp
    show ?thesis
    proof (cases "noload_port t = i")
      case same: True
      have "(i + kPortNum - (i + 1) mod kPortNum) mod kPortNum \<le> 9" by (rule less_Suc_eq_le [THEN iffD1]) simp
      then show ?thesis using IH True p same by simp
    next
      case False
      show ?thesis using IH True p next_port [OF Cons.prems False] False by simp
    qed
  next
    case False
    then show ?thesis using IH by (simp add: exec_ctl)
  qed
qed simp

lemma turns_noload_enough:
  assumes "noload_port t < kPortNum" "i < kPortNum" "10 * n \<le> length (filter (\<lambda>x. x = Op_Noload) xs)"
  shows "n \<le> turns (exec facc g) (\<lambda>x t. x = Op_Noload \<and> noload_port t = i) xs t"
proof -
  have "(i + kPortNum - noload_port t) mod kPortNum < 10" by simp
  then show ?thesis using turns_noload [OF assms(1,2), of xs facc g] assms(3) by linarith
qed

section \<open>Every history\<close>

lemma measure_ports: "ports (ConsumptionMeasurer_update facc i t) = ports t"
  by (simp add: ConsumptionMeasurer_update_def)

lemma ports_ok_fold: "\<lbrakk>\<And>j t. ports_ok t \<Longrightarrow> ports_ok (f j t); ports_ok t\<rbrakk> \<Longrightarrow> ports_ok (fold f js t)"
  by (induction js arbitrary: t) auto

lemma ports_ok_spec [simp]: "ports_ok (upd_spec i f t) = ports_ok t" "ports_ok (emit_event e t) = ports_ok t"
  by (simp_all add: ports_ok_def)

lemma ports_ok_reading:
  assumes "ports_ok t"
  shows "ports_ok (set_current facc g i v t)" "ports_ok (set_voltage facc g i v t)"
proof -
  have c: "ports_ok (upd_port i (\<lambda>p. p\<lparr>current := c\<rparr>) t)" "ports_ok (upd_port i (\<lambda>p. p\<lparr>voltage := c\<rparr>) t)" for c
    using assms by (simp_all add: ports_ok_def)
  note r = c [THEN electric_ok(3), THEN electric_ok(2)]
  show "ports_ok (set_current facc g i v t)" "ports_ok (set_voltage facc g i v t)"
    using r assms by (simp_all add: set_current_def set_voltage_def ConsumptionMeasurer_update_def DataSetter_onCurrentChanged_def
      NoloadDetecter_onCurrentChanged_def checkCurrent_def CurrentLimiter_onCurrentChanged_def Let_def)
qed

lemma backup_port_ports: "ports (snd (snd (Backuper_port j st))) = ports (snd (snd st))"
  by (cases st) (simp add: Backuper_port_def Let_def case_prod_beta)

lemma backup_loop_ports: "ports (snd (snd (fold (\<lambda>k. Backuper_port (h k)) ks st))) = ports (snd (snd st))"
  by (induction ks arbitrary: st) (simp_all add: backup_port_ports)

lemma ports_ok_Backuper:
  assumes "ports_ok t"
  shows "ports_ok (Backuper_run g t)"
proof -
  have r: "ports_ok (Backuper_resume g j t)" if "ports_ok t" for j t
    using that electric_ok(1) by (simp add: Backuper_resume_def Charger_start_def Let_def)
  have f: "ports_ok (t\<lparr>resume_port := n\<rparr>) = ports_ok t" "ports_ok (t\<lparr>nextCount := c\<rparr>) = ports_ok t"
    "ports_ok (t\<lparr>backup_port := n\<rparr>) = ports_ok t" for t n c by (simp_all add: ports_ok_def)
  have l: "ports_ok (snd (snd (fold (\<lambda>k. Backuper_port (h k)) ks (b, n, t)))) = ports_ok t" for h ks b n t
    by (rule ports_ok_cong) (simp add: backup_loop_ports)
  show ?thesis using assms r by (simp add: Backuper_run_def Let_def case_prod_beta f l)
qed

lemma exec_ports_ok:
  assumes "ports_ok t"
  shows "ports_ok (exec facc g x t)"
proof (cases x)
  case Op_Counter
  show ?thesis unfolding Op_Counter exec.simps Counter_run_def
    by (rule ports_ok_fold [OF _ assms]) (simp add: Counter_port_def Charger_stop_def Let_def electric_ok)
next
  case Op_Limiter
  show ?thesis unfolding Op_Limiter exec.simps CurrentLimiter_run_def
    by (rule ports_ok_fold [OF _ assms]) (simp add: CurrentLimiter_port_def Charger_stop_def Let_def case_prod_beta electric_ok)
next
  case Op_Noload
  have "ports_ok (t\<lparr>noload_port := n\<rparr>)" for n using assms by (simp add: ports_ok_def)
  then show ?thesis using Op_Noload by (simp add: NoloadDetecter_run_def Charger_stop_def Let_def case_prod_beta electric_ok)
next
  case Op_Data
  have "ports_ok (t\<lparr>data_port := n\<rparr>) = ports_ok t" for n t by (simp add: ports_ok_def)
  then show ?thesis using Op_Data assms by (simp add: DataSetter_run_def emitPortData_def Let_def case_prod_beta)
next
  case Op_Measure
  show ?thesis unfolding Op_Measure exec.simps ConsumptionMeasurer_run_def
    by (rule ports_ok_fold [OF _ assms]) (simp add: ConsumptionMeasurer_update_def)
next
  case Op_Query
  show ?thesis unfolding Op_Query exec.simps Thing_query_def by (rule ports_ok_fold [OF _ assms]) simp
next
  case (Op_Config c)
  then show ?thesis using assms by (simp add: Thing_config_def ports_ok_def)
next
  case Op_Tick
  then show ?thesis using assms by (simp add: ports_ok_def)
next
  case (Op_Control i tid m)
  then show ?thesis using assms by (cases "kPortNum \<le> i") (simp_all add: Thing_control_def Charger_start_def electric_ok, simp add: ports_ok_def)
next
  case (Op_Stop i tid)
  then show ?thesis using assms by (cases "kPortNum \<le> i") (simp_all add: Thing_stop_def Charger_stop_def electric_ok, simp add: ports_ok_def)
qed (use assms in \<open>simp_all add: ports_ok_Backuper ports_ok_reading electric_ok Thing_control_def Thing_stop_def Charger_start_def Charger_stop_def\<close>)

lemma fold_ports_ok: "ports_ok t \<Longrightarrow> ports_ok (fold (exec facc g) xs t)"
  by (induction xs arbitrary: t) (simp_all add: exec_ports_ok)

lemma Thing_new_ok: "ports_ok (Thing_new g u c fl)" "ports_ok (Thing_init (Thing_new g u c fl))"
proof -
  show n: "ports_ok (Thing_new g u c fl)" by (simp add: ports_ok_def port_ok_def Thing_new_def)
  have d: "ports (decos_onStateChanged i st t) = ports t" for i st t by (simp add: decos_onStateChanged_def)
  have "ports_ok (t\<lparr>nextCount := x\<rparr>) = ports_ok t" for t x by (simp add: ports_ok_def)
  then show "ports_ok (Thing_init (Thing_new g u c fl))"
    unfolding Thing_init_def using n by (intro ports_ok_fold) (auto simp: ports_ok_def d split: option.split)
qed

lemma off_pin: "\<lbrakk>ports_ok t; \<not> charging i t\<rbrakk> \<Longrightarrow> relay_value (ports t i) \<noteq> Some On \<and> pin (ports t i) \<noteq> Some False"
  by (drule ports_okD [of _ i]) (auto simp: port_ok_def split: option.splits relay.splits)

section \<open>A counter that has run out\<close>

text \<open>\<^verbatim>\<open>trigger\<close> starts a counter but does not reload it: at zero it stays at zero, and \<^verbatim>\<open>updateAndCheck\<close>
  reports nothing.\<close>

lemma CurrentLimiter_run_on:
  assumes s: "settled i t" and i: "i < kPortNum" and c: "charging i t" "\<not> snd (cd_updateAndCheck (limit_count (specs t i)))"
  shows "charging i (CurrentLimiter_run g t)"
proof -
  obtain t1 where "settled i t1" "same i t t1" "same i (CurrentLimiter_port g i t1) (CurrentLimiter_run g t)"
    unfolding CurrentLimiter_run_def
    by (rule fold_one [where I = "settled i" and f = "CurrentLimiter_port g" and i = i and js = "[0..<kPortNum]"])
       (use CurrentLimiter_port_effect(1,2) s i in auto)
  then show ?thesis using c by (simp add: same_def CurrentLimiter_port_def Let_def case_prod_beta)
qed

lemma current_on:
  assumes "ports_ok t" "charging i t"
  shows "charging i (set_current facc g i v t)"
proof -
  let ?t = "upd_port i (\<lambda>p. p\<lparr>current := Some v\<rparr>) t"
  have k: "ports_ok ?t" "charging i ?t" using assms by (simp_all add: ports_ok_def)
  show ?thesis using assms(2)
    by (simp add: set_current_def Let_def electric_charging [OF k] ConsumptionMeasurer_update_def DataSetter_onCurrentChanged_def
        NoloadDetecter_onCurrentChanged_def checkCurrent_def CurrentLimiter_onCurrentChanged_def)
qed

definition disarmed :: "int \<Rightarrow> nat \<Rightarrow> thing \<Rightarrow> bool" where
  "disarmed lim i t \<longleftrightarrow> settled i t \<and> charging i t \<and> currVal (limit_count (specs t i)) = 0 \<and> currentLimit (conf t) = lim"

definition overload :: "int \<Rightarrow> nat \<Rightarrow> op \<Rightarrow> bool" where
  "overload lim i x \<longleftrightarrow> (case x of Op_Limiter \<Rightarrow> True | Op_Current j v \<Rightarrow> j = i \<and> v > lim | _ \<Rightarrow> False)"

lemma exec_disarmed:
  assumes d: "disarmed lim i t" and i: "i < kPortNum" and x: "overload lim i x"
  shows "disarmed lim i (exec facc g x t)"
proof -
  have s: "settled i t" "charging i t" "currVal (limit_count (specs t i)) = 0" "currentLimit (conf t) = lim"
    using d by (simp_all add: disarmed_def)
  have u: "cd_updateAndCheck (limit_count (specs t i)) = (limit_count (specs t i), False)"
    using s(3) by (simp add: cd_updateAndCheck_def)
  have r: "no_restart i x" using x by (auto simp: overload_def no_restart_def split: op.splits)
  have c: "charging i (exec facc g x t)"
    using x CurrentLimiter_run_on [OF s(1) i s(2)] current_on [OF settledD(1) [OF s(1)] s(2)] u
    by (auto simp: overload_def split: op.splits)
  note E = exec_counted [OF s(1) i r, of facc g]
  have "currVal (limit_count (specs (exec facc g x t) i)) = 0"
    using E(2) [OF c] x u s(3,4)
    by (auto simp: counted_def cd_step_def cd_read_def cd_trigger_def reading_def overload_def split: op.splits)
  moreover have "currentLimit (conf (exec facc g x t)) = lim"
    using x s(4) exec_ctl(1) [of facc g x t] by (auto simp: overload_def split: op.splits)
  ultimately show ?thesis using E(1) c by (simp add: disarmed_def)
qed

section \<open>Resumption\<close>

text \<open>The records of a port when its relay is switched on.\<close>

definition kept :: "spec \<Rightarrow> int \<times> int \<times> bool" where
  "kept s = (timerId s, leftSeconds s, stateHasTransitioned s)"

lemma onStateChanged_kept:
  "st \<noteq> LoadWaitRemove \<Longrightarrow> kept (specs (state_changed i st t) j) = kept (specs t j)"
  by (auto simp: kept_def onStateChanged_defs state_changed_def decos_onStateChanged_def Let_def split: state.split)

lemma onStateChanged_consumption:
  "consumption (specs (state_changed i LoadInserted t) i) = consumption (specs t i)"
  "isFirstCharge (state_changed i LoadInserted t) = isFirstCharge t"
  "consumption (specs (state_changed i Charging t) i) = (if isFirstCharge t then consumption (specs t i) else 0)"
  "\<not> isFirstCharge (state_changed i Charging t)"
  by (auto simp: onStateChanged_defs state_changed_def decos_onStateChanged_def Let_def upd_spec_def emit_event_def)

lemma relay_on:
  assumes "ports_ok t" "\<not> charging i t"
  shows "charging i (set_relay g i On t)" "kept (specs (set_relay g i On t) i) = kept (specs t i)"
    "consumption (specs (set_relay g i On t) i) = (if isFirstCharge t then consumption (specs t i) else 0)"
    "\<not> isFirstCharge (set_relay g i On t)"
proof -
  have r: "relay_value (ports t i) \<noteq> Some On" using ports_okD [OF assms(1), of i] assms(2) by (simp add: port_ok_def)
  show "charging i (set_relay g i On t)"
    using p_relay_on [OF r ports_okD [OF assms(1)], of g] by (simp add: set_relay_ports)
  let ?t = "upd_port i (\<lambda>p. p\<lparr>pin := Some False\<rparr>) (upd_port i (\<lambda>p. p\<lparr>relay_value := Some On\<rparr>) t)"
  define w where "w = (if load (ports t i) = Some True then ?t
     else set_state i LoadInserted (upd_port i (\<lambda>p. p\<lparr>load := Some True\<rparr>) ?t))"
  have fr: "isFirstCharge (upd_port i f t) = isFirstCharge t" for f t by (simp add: upd_port_def)
  have w: "relay_value (ports w i) = Some On" "oState (ports w i) \<noteq> Some Charging" "kept (specs w i) = kept (specs t i)"
    "consumption (specs w i) = consumption (specs t i)" "isFirstCharge w = isFirstCharge t"
    using assms(2) by (auto simp: w_def set_state_def onStateChanged_kept onStateChanged_consumption fr)
  have e: "set_relay g i On t = state_changed i Charging (upd_port i (\<lambda>p. p\<lparr>oState := Some Charging\<rparr>) w)"
  proof -
    have "VirtualLoadDetector_update g i ?t = w" by (simp add: VirtualLoadDetector_update_def set_load_def w_def)
    moreover have "StateStore_update i w = state_changed i Charging (upd_port i (\<lambda>p. p\<lparr>oState := Some Charging\<rparr>) w)"
      using w(1,2) by (simp add: StateStore_update_def set_state_def)
    ultimately show ?thesis using r by (simp add: set_relay_def)
  qed
  show "kept (specs (set_relay g i On t) i) = kept (specs t i)"
    "consumption (specs (set_relay g i On t) i) = (if isFirstCharge t then consumption (specs t i) else 0)"
    "\<not> isFirstCharge (set_relay g i On t)"
    using w(3-5) by (simp_all add: e onStateChanged_kept onStateChanged_consumption fr)
qed

lemma resume_effect:
  fixes i t g
  assumes "ports_ok t" "\<not> charging i t" "\<not> stateHasTransitioned (specs t i)"
  defines "b \<equiv> flash t i" and "t' \<equiv> Backuper_resume g i t"
  shows "timerId (specs t' i) = b_timerId b" "leftSeconds (specs t' i) = b_leftSeconds b"
    "charging i t' \<longleftrightarrow> b_leftSeconds b \<noteq> 0" "stateHasTransitioned (specs t' i)" "ports_ok t'"
    "consumption (specs t' i) = (if b_leftSeconds b \<noteq> 0 \<and> isFirstCharge t then b_consumption b else 0)"
    "isFirstCharge t' \<longleftrightarrow> isFirstCharge t \<and> b_leftSeconds b = 0"
proof -
  define u where "u = upd_spec i (\<lambda>s. s\<lparr>stateHasTransitioned := True, timerId := b_timerId b, leftSeconds := b_leftSeconds b, consumption := b_consumption b\<rparr>) t"
  have k: "ports_ok u" "\<not> charging i u" "isFirstCharge u = isFirstCharge t" using assms(1,2) by (simp_all add: u_def upd_spec_def ports_ok_def)
  have uu: "upd_spec i f (upd_spec i h t) = upd_spec i (\<lambda>s. f (h s)) t" for f h t by (simp add: upd_spec_def)
  have e: "t' = (if b_leftSeconds b \<noteq> 0 then set_relay g i On u
      else upd_spec i (\<lambda>s. s\<lparr>leftSeconds := 0, consumption := 0, backupCount := cd_trigger (backupCount s)\<rparr>) u)"
    using assms(3) by (simp add: t'_def b_def u_def Backuper_resume_def Charger_start_def Let_def uu)
  note R = relay_on [OF k(1,2), of g]
  have fr: "isFirstCharge (upd_spec i f t) = isFirstCharge t" for f t by (simp add: upd_spec_def)
  show "timerId (specs t' i) = b_timerId b" "leftSeconds (specs t' i) = b_leftSeconds b" "stateHasTransitioned (specs t' i)"
    using R(2) by (auto simp: e kept_def u_def)
  show "charging i t' \<longleftrightarrow> b_leftSeconds b \<noteq> 0" using R(1) k(2) by (simp add: e)
  show "ports_ok t'" using electric_ok(1) [OF k(1)] k(1) by (simp add: e)
  show "consumption (specs t' i) = (if b_leftSeconds b \<noteq> 0 \<and> isFirstCharge t then b_consumption b else 0)"
    using R(3) k(3) by (simp add: e) (simp add: u_def)
  show "isFirstCharge t' \<longleftrightarrow> isFirstCharge t \<and> b_leftSeconds b = 0" using R(4) k(3) by (simp add: e fr)
qed

section \<open>Properties\<close>

text \<open>C1: From power-up on, whatever the order of timer callbacks, meter readings and commands, every port
  reports \<open>Charging\<close> exactly when its relay is on, its output pin has the level that drives the relay to
  that position, and while the relay is on the load detector reports a load.\<close>

theorem port_invariant:
  "let p = ports (fold (exec facc g) xs (Thing_init (Thing_new g u c fl))) i
   in (relay_value p = Some On \<longleftrightarrow> oState p = Some Charging) \<and>
      (relay_value p = Some On \<longleftrightarrow> oState p = Some Charging \<and> load p = Some True) \<and>
      (pin p = Some False \<longleftrightarrow> relay_value p = Some On) \<and> (pin p = Some True \<longleftrightarrow> relay_value p = Some Off)"
  using ports_okD [OF fold_ports_ok [OF Thing_new_ok(2)], of facc g xs g u c fl i]
  unfolding Let_def port_ok_def by (auto split: option.splits relay.splits)

text \<open>A port resumed after power-up, then commanded to charge for two minutes.\<close>

definition sample_history :: "op list" where
  "sample_history = [Op_Current 0 0, Op_Backuper, Op_Control 0 7 2]"

definition sample :: thing where
  "sample = fold (exec (\<lambda>c a b d. c) False) sample_history (Thing_init (Thing_new False
     \<lparr>timerId = 0, leftSeconds = 0, consumption = 0, finalState = Error, limit_count = CountDown 1, noloadCount = CountDown 1,
      doneCount = CountDown 1, stateHasTransitioned = False, backupCount = CountDown 1, fResume = CountDown 1, prevCurrMiA = 0,
      prevState = Error, prevConsumption = 0, data_count = CountDown 1, meas_tick = 0, prevCurr = 0, prevVol = 0\<rparr>
     \<lparr>currentLimit = 5000, uploadThr = 100, fuzedThr = 0, noloadCurrThr = 50, doneCurrThr = 100\<rparr>
     (\<lambda>_. \<lparr>b_leftSeconds = 0, b_timerId = 0, b_consumption = 0\<rparr>)))"

lemma sample_charging: "charging 0 sample \<and> stateHasTransitioned (specs sample 0) \<and> leftSeconds (specs sample 0) = 120 \<and> noload_port sample = 0"
  by code_simp

lemma sample_counts: "limit_count (specs sample 0) = CountDown 10 \<and> counting (noloadCount (specs sample 0)) \<and>
   currVal (noloadCount (specs sample 0)) = 120 \<and> current (ports sample 0) = Some 0 \<and> currentLimit (conf sample) = 5000 \<and> noloadCurrThr (conf sample) = 50"
  by code_simp

lemma sample_settled: "settled 0 sample"
  using sample_charging fold_ports_ok [OF Thing_new_ok(2)] unfolding settled_def sample_def by blast

text \<open>C2: The paid time is kept: once the one-second timer has run as often as a settled port has seconds left (at
  least once), the port is off, in every history in which it is not commanded to start again.  Readings, backups,
  reports, other ports' commands and configuration changes cannot prolong it.\<close>

theorem paid_time_bound:
  assumes "settled i t" "i < kPortNum" "\<forall>x \<in> set xs. no_restart i x"
    and "max 1 (leftSeconds (specs t i)) \<le> int (length (filter (\<lambda>x. x = Op_Counter) xs))"
  shows "\<not> charging i (fold (exec facc g) xs t) \<and> relay_value (ports (fold (exec facc g) xs t) i) \<noteq> Some On \<and>
    pin (ports (fold (exec facc g) xs t) i) \<noteq> Some False"
proof -
  have "\<not> charging i (fold (exec facc g) xs t)"
    by (rule paid_time.off_in_time) (use assms in \<open>auto simp: paid_def turns_filter\<close>)
  then show ?thesis using off_pin fold_ports_ok settledD(1) [OF assms(1)] by blast
qed

theorem paid_time_bound_witness:
  "\<not> charging 0 (fold (exec (\<lambda>c a b d. c) False) (Op_Current 0 900 # Op_Control 3 8 60 # replicate 120 Op_Counter @ [Op_Query]) sample)"
  using paid_time_bound [OF sample_settled, of "Op_Current 0 900 # Op_Control 3 8 60 # replicate 120 Op_Counter @ [Op_Query]"] sample_charging
  by (simp add: no_restart_def)

text \<open>The paid time is granted: driven by the one-second timer alone, a charging port is still charging
  after \<open>n\<close> ticks exactly when \<open>n\<close> is less than the seconds it had left (or when \<open>n\<close> is zero).\<close>

theorem paid_time_exact:
  assumes "settled i t" "i < kPortNum" "charging i t"
  shows "charging i ((Counter_run g ^^ n) t) \<longleftrightarrow> int n < max 1 (leftSeconds (specs t i))"
  using assms
proof (induction n arbitrary: t)
  case (Suc n)
  let ?t = "Counter_run g t"
  note E = Counter_run_effect [OF Suc.prems(1,2), of g]
  show ?case
  proof (cases "charging i ?t")
    case True
    have "(Counter_run g ^^ Suc n) t = (Counter_run g ^^ n) ?t" by (simp add: funpow_swap1)
    then show ?thesis using Suc.IH [OF E(1) Suc.prems(2) True] E(2) [OF True] by auto
  next
    case False
    then have l: "leftSeconds (specs t i) \<le> 1" using Counter_run_on [OF Suc.prems, of g] by linarith
    have "\<not> charging i (fold (exec (\<lambda>c a b d. c) g) (replicate n Op_Counter) ?t)"
      by (rule paid_time.stays_off) (use False E(1) Suc.prems(2) in \<open>auto simp: paid_def no_restart_def\<close>)
    moreover have "fold (exec (\<lambda>c a b d. c) g) (replicate n Op_Counter) s = (Counter_run g ^^ n) s" for s
      by (induction n arbitrary: s) (simp_all add: funpow_swap1)
    ultimately show ?thesis using l by (simp add: funpow_swap1)
  qed
qed simp

theorem paid_time_exact_witness: "charging 0 ((Counter_run False ^^ 119) sample) \<and> \<not> charging 0 ((Counter_run False ^^ 120) sample)"
  using paid_time_exact [OF sample_settled, where g = False and n = 119] paid_time_exact [OF sample_settled, where g = False and n = 120] sample_charging by simp





text \<open>The same for a load that has finished charging.\<close>

lemma charged_bound:
  assumes "settled i t" "i < kPortNum" "charging i t" "currVal (doneCount (specs t i)) \<noteq> 0" "noload_port t < kPortNum"
    and "current (ports t i) \<noteq> Some v" "v < doneCurrThr (conf t)"
    and "\<forall>x \<in> set xs. keeps (<) doneCurrThr (doneCurrThr (conf t)) i x"
    and "10 * unat (currVal (doneCount (specs t i))) \<le> length (filter (\<lambda>x. x = Op_Noload) xs)"
  shows "\<not> charging i (fold (exec facc g) (Op_Current i v # xs) t)"
proof -
  let ?t = "exec facc g (Op_Current i v) t"
  have "noload_port ?t < kPortNum" using assms(5) exec_ctl(2) [of facc g "Op_Current i v" t] by simp
  note n = turns_noload_enough [OF this assms(2,9), of facc g]
  show ?thesis by (rule charged.off_after_reading) (use assms n in simp_all)
qed

text \<open>A flaw of the limiter: once its counter has run out, a port that is started again before a reading at
  or below the limit arrives stays on, however many readings exceed the limit and however often the limiter
  runs.  The counter is only reloaded by such a reading, not by the end of the charge.\<close>

theorem over_current_disarmed:
  assumes "settled i t" "i < kPortNum" "charging i t" "currVal (limit_count (specs t i)) = 0"
    and "\<forall>x \<in> set xs. overload (currentLimit (conf t)) i x"
  shows "charging i (fold (exec facc g) xs t)"
proof -
  have "disarmed lim i (fold (exec facc g) ys s)" if "disarmed lim i s" "\<forall>x \<in> set ys. overload lim i x" for lim ys s
    using that by (induction ys arbitrary: s) (auto intro: exec_disarmed [OF _ assms(2)])
  from this [of "currentLimit (conf t)" t xs] show ?thesis using assms by (simp add: disarmed_def)
qed

definition sample_disarmed :: thing where
  "sample_disarmed = fold (exec (\<lambda>c a b d. c) False) (Op_Current 0 9000 # replicate 10 Op_Limiter @ [Op_Control 0 8 2]) sample"

lemma sample_disarmed_state: "charging 0 sample_disarmed \<and> stateHasTransitioned (specs sample_disarmed 0) \<and>
    currVal (limit_count (specs sample_disarmed 0)) = 0 \<and> currentLimit (conf sample_disarmed) = 5000"
  by code_simp

theorem over_current_disarmed_witness:
  "charging 0 (fold (exec (\<lambda>c a b d. c) False) (Op_Current 0 9500 # replicate 1000 Op_Limiter) sample_disarmed)"
proof -
  have "settled 0 sample_disarmed"
    using sample_disarmed_state fold_ports_ok settledD(1) [OF sample_settled] unfolding settled_def sample_disarmed_def by blast
  then show ?thesis
    using over_current_disarmed [of 0 sample_disarmed "Op_Current 0 9500 # replicate 1000 Op_Limiter"] sample_disarmed_state
    by (simp add: overload_def)
qed

text \<open>C38: Power cuts.  When the backup of a port was due and written and a board restarts with the same flash, the
  order's number and the seconds left are those at the time of the backup, and the port charges exactly
  if seconds are left.  The consumption is restored for the first port that charges after the restart only; for the
  others it begins at zero.\<close>

theorem backup_resume:
  assumes "snd (cd_updateAndCheck (backupCount (specs t i)))" "flash t' = flash (snd (snd (Backuper_port i (False, n, t))))"
    and "ports_ok t'" "\<not> charging i t'" "\<not> stateHasTransitioned (specs t' i)"
  shows "let s = specs (Backuper_resume g i t') i
    in timerId s = timerId (specs t i) \<and> leftSeconds s = leftSeconds (specs t i) \<and>
       (charging i (Backuper_resume g i t') \<longleftrightarrow> leftSeconds (specs t i) \<noteq> 0) \<and>
       consumption s = (if leftSeconds (specs t i) \<noteq> 0 \<and> isFirstCharge t' then consumption (specs t i) else 0)"
proof -
  have "flash t' i = backup_of (specs t i)"
    using assms(1,2) by (simp add: Backuper_port_def Let_def case_prod_beta backup_of_def)
  then show ?thesis using resume_effect [OF assms(3-5), of g] by (simp add: backup_of_def Let_def)
qed

definition sample_due :: thing where
  "sample_due = fold (exec (\<lambda>c a b d. c) False) (replicate 5 Op_Counter) sample"

definition sample_restarted :: thing where
  "sample_restarted = Thing_new False (specs sample 0) (conf sample) (flash (snd (snd (Backuper_port 0 (False, 0, sample_due)))))"

lemma sample_due_state: "snd (cd_updateAndCheck (backupCount (specs sample_due 0))) \<and> leftSeconds (specs sample_due 0) = 115 \<and>
    timerId (specs sample_due 0) = 7"
  by code_simp

theorem backup_resume_witness:
  "leftSeconds (specs (Backuper_resume False 0 sample_restarted) 0) = 115 \<and> timerId (specs (Backuper_resume False 0 sample_restarted) 0) = 7 \<and>
   charging 0 (Backuper_resume False 0 sample_restarted)"
proof -
  have "ports_ok sample_restarted" unfolding sample_restarted_def by (rule Thing_new_ok)
  moreover have "\<not> charging 0 sample_restarted" "\<not> stateHasTransitioned (specs sample_restarted 0)"
    "flash sample_restarted = flash (snd (snd (Backuper_port 0 (False, 0, sample_due))))"
    by (simp_all add: sample_restarted_def Thing_new_def spec_new_def)
  ultimately show ?thesis
    using backup_resume [of sample_due 0 sample_restarted 0 False] sample_due_state by (simp add: Let_def)
qed

text \<open>A flaw of the consumption measurement: the flag that keeps a resumed port's consumption from being
  cleared is shared by all ports and used up by the first.  When two ports resume, the second one's
  consumption is zero, whatever the backup says.\<close>

theorem resume_second_consumption:
  assumes "i \<noteq> j" "ports_ok t" "\<not> charging i t" "\<not> charging j t"
    and "\<not> stateHasTransitioned (specs t i)" "\<not> stateHasTransitioned (specs t j)"
    and "b_leftSeconds (flash t i) \<noteq> 0" "isFirstCharge t"
  shows "let t' = Backuper_resume g j (Backuper_resume g i t)
    in consumption (specs (Backuper_resume g i t) i) = b_consumption (flash t i) \<and> consumption (specs t' j) = 0"
proof -
  let ?t = "Backuper_resume g i t"
  note E = resume_effect [OF assms(2,3,5), of g]
  have o: "ports ?t j = ports t j" "stateHasTransitioned (specs ?t j) = stateHasTransitioned (specs t j)"
    using electric_other(5) [OF assms(1) [symmetric]] assms(1)
    by (auto simp: Backuper_resume_def Charger_start_def Let_def same_def)
  have "consumption (specs (Backuper_resume g j ?t) j) = 0"
    using resume_effect(6) [of ?t j g] E(5,7) assms(4,6,7) o by simp
  then show ?thesis using E(6) assms(7,8) by (simp add: Let_def)
qed

lemma Thing_new_fields:
  "\<not> charging i (Thing_new g u c fl)" "\<not> stateHasTransitioned (specs (Thing_new g u c fl) i)"
  "flash (Thing_new g u c fl) = fl" "isFirstCharge (Thing_new g u c fl)"
  by (simp_all add: Thing_new_def spec_new_def)

theorem resume_second_consumption_witness:
  "let t = Thing_new False (specs sample 0) (conf sample) (\<lambda>_. \<lparr>b_leftSeconds = 60, b_timerId = 3, b_consumption = 500\<rparr>);
       t' = Backuper_resume False 1 (Backuper_resume False 0 t)
   in consumption (specs (Backuper_resume False 0 t) 0) = 500 \<and> consumption (specs t' 1) = 0"
  using resume_second_consumption [OF _ Thing_new_ok(1) Thing_new_fields(1,1,2,2), of 0 1
      False "specs sample 0" "conf sample" "\<lambda>_. \<lparr>b_leftSeconds = 60, b_timerId = 3, b_consumption = 500\<rparr>" False]
  by (simp add: Thing_new_fields Let_def)

end
