(* ===== verification/Handshake.thy ===== *)
theory Handshake
  imports Pile
begin

text \<open>
  How the two boards find each other: \<^verbatim>\<open>components/handshake.cxx\<close> on both, \<^verbatim>\<open>components/lower/comm_guard.cxx\<close>
  and \<^verbatim>\<open>components/watch_dog.cxx\<close> on the lower one.  Only a connected board sends anything but handshakes
  (\<^verbatim>\<open>Packet::emit\<close>), so the connection of both is what every other exchange rests on.  The link between
  them is a queue of handshake frames in each direction, which may lose frames.
\<close>

section \<open>Definitions\<close>

datatype handshake_type = Major | Ota

text \<open>\<^verbatim>\<open>Packets::Handshake\<close>.\<close>

record handshake_frame =
  sync :: bool
  hs_type :: handshake_type

text \<open>\<open>told\<close> are the values the observers of \<^verbatim>\<open>connected\<close> have been called with.\<close>

record handshake =
  connected :: bool
  responsed :: bool
  once :: bool
  type_of :: handshake_type
  told :: "bool list"

text \<open>No constructor sets \<^verbatim>\<open>connected\<close>: it starts with what the memory holds.\<close>

definition Handshake_new :: "bool \<Rightarrow> handshake_type \<Rightarrow> handshake" where
  "Handshake_new c ty = \<lparr>connected = c, responsed = False, once = False, type_of = ty, told = []\<rparr>"

definition set_connected :: "bool \<Rightarrow> handshake \<Rightarrow> handshake" where
  "set_connected b h = (if connected h = b then h else h\<lparr>connected := b, told := told h @ [b]\<rparr>)"

definition Handshake_on :: "handshake_frame \<Rightarrow> handshake \<Rightarrow> handshake" where
  "Handshake_on p h =
     (if hs_type p \<noteq> type_of h then h
      else
        let h1 = h\<lparr>responsed := True\<rparr>
        in if sync p then set_connected True (set_connected False h1) else h1)"

definition Handshake_timer :: "handshake \<Rightarrow> handshake \<times> handshake_frame" where
  "Handshake_timer h =
     (let cond = \<not> once h \<and> responsed h;
          h1 = (if cond then h\<lparr>once := True\<rparr> else h)
      in (h1, \<lparr>sync = cond, hs_type = type_of h1\<rparr>))"

subsection \<open>The link\<close>

text \<open>The two boards, and the frames on their way to each.\<close>

record link =
  board :: "bool \<Rightarrow> handshake"
  line :: "bool \<Rightarrow> handshake_frame list"

datatype link_event = Tick bool | Recv bool | Lose bool | Restart bool bool

fun link_step :: "link_event \<Rightarrow> link \<Rightarrow> link" where
  "link_step (Tick s) l =
     (let (h, m) = Handshake_timer (board l s)
      in l\<lparr>board := (board l)(s := h), line := (line l)(\<not> s := line l (\<not> s) @ [m])\<rparr>)"
| "link_step (Recv s) l =
     (case line l s of
        [] \<Rightarrow> l
      | m # ms \<Rightarrow> l\<lparr>board := (board l)(s := Handshake_on m (board l s)), line := (line l)(s := ms)\<rparr>)"
| "link_step (Lose s) l = l\<lparr>line := (line l)(s := tl (line l s))\<rparr>"
| "link_step (Restart s c) l = l\<lparr>board := (board l)(s := Handshake_new c (type_of (board l s)))\<rparr>"

definition link_new :: "(bool \<Rightarrow> bool) \<Rightarrow> handshake_type \<Rightarrow> link" where
  "link_new c ty = \<lparr>board = (\<lambda>s. Handshake_new (c s) ty), line = (\<lambda>_. [])\<rparr>"

subsection \<open>The guard of the lower board\<close>

record watch_dog =
  dog_count :: count_down
  feedCond :: bool

definition cd_setInitial :: "u8 \<Rightarrow> count_down \<Rightarrow> count_down" where
  "cd_setInitial v c = c\<lparr>initVal := v\<rparr>"

definition WatchDog_resetAfter :: "u8 \<Rightarrow> watch_dog \<Rightarrow> watch_dog" where
  "WatchDog_resetAfter durationS w = w\<lparr>dog_count := cd_retrigger (cd_reset (cd_setInitial durationS (dog_count w)))\<rparr>"

definition WatchDog_cancel :: "watch_dog \<Rightarrow> watch_dog" where
  "WatchDog_cancel w = w\<lparr>dog_count := cd_reset (dog_count w)\<rparr>"

text \<open>The hardware resets the board unless it is fed; \<open>feedCond\<close> decides whether it is.\<close>

definition WatchDog_timer :: "watch_dog \<Rightarrow> watch_dog" where
  "WatchDog_timer w =
     (let (c, due) = cd_updateAndCheck (dog_count w)
      in w\<lparr>dog_count := c, feedCond := (if due then False else feedCond w)\<rparr>)"

record guard =
  guard_count :: count_down
  guard_type :: handshake_type
  dog :: watch_dog

definition CommGuard_on :: "handshake_type \<Rightarrow> guard \<Rightarrow> guard" where
  "CommGuard_on ty g = (if ty \<noteq> guard_type g then g else g\<lparr>guard_count := cd_retrigger (cd_reset (guard_count g))\<rparr>)"

definition CommGuard_timer :: "guard \<Rightarrow> guard" where
  "CommGuard_timer g =
     (let (c, due) = cd_updateAndCheck (guard_count g);
          g1 = g\<lparr>guard_count := c\<rparr>
      in if due then g1\<lparr>dog := WatchDog_resetAfter 1 (dog g1)\<rparr> else g1)"

definition guard_new :: "handshake_type \<Rightarrow> guard" where
  "guard_new ty = \<lparr>guard_count = CountDown 3, guard_type = ty, dog = \<lparr>dog_count = CountDown 1, feedCond = True\<rparr>\<rparr>"

datatype guard_event = Hello | Guard_Timer | Dog_Timer

fun guard_step :: "guard_event \<Rightarrow> guard \<Rightarrow> guard" where
  "guard_step Hello g = CommGuard_on (guard_type g) g"
| "guard_step Guard_Timer g = CommGuard_timer g"
| "guard_step Dog_Timer g = g\<lparr>dog := WatchDog_timer (dog g)\<rparr>"

section \<open>Boards that speak the same type\<close>

text \<open>The same type on both boards and in every frame on its way.\<close>

definition tuned :: "handshake_type \<Rightarrow> link \<Rightarrow> bool" where
  "tuned ty l \<longleftrightarrow> (\<forall>s. type_of (board l s) = ty \<and> (\<forall>m \<in> set (line l s). hs_type m = ty))"

lemma on_same [simp]: "type_of (set_connected b h) = type_of h" "type_of (Handshake_on m h) = type_of h"
    "once (set_connected b h) = once h" "once (Handshake_on m h) = once h" "responsed (set_connected b h) = responsed h"
  by (simp_all add: set_connected_def Handshake_on_def Let_def)

lemma on_effect:
  assumes "hs_type m = type_of h"
  shows "responsed (Handshake_on m h)" "connected (Handshake_on m h) \<longleftrightarrow> connected h \<or> sync m"
  using assms by (auto simp: Handshake_on_def set_connected_def Let_def)

lemma timer_effect:
  "Handshake_timer h = (h\<lparr>once := once h \<or> responsed h\<rparr>, \<lparr>sync = (\<not> once h \<and> responsed h), hs_type = type_of h\<rparr>)"
  by (cases h) (auto simp: Handshake_timer_def Let_def)

lemma tuned_step: "tuned ty l \<Longrightarrow> tuned ty (link_step e l)"
proof (cases e)
  case (Tick s)
  then show "tuned ty l \<Longrightarrow> ?thesis" by (auto simp: tuned_def timer_effect)
next
  case (Recv s)
  then show "tuned ty l \<Longrightarrow> ?thesis" by (auto simp: tuned_def split: list.split) (metis list.set_intros(2))
next
  case (Lose s)
  then show "tuned ty l \<Longrightarrow> ?thesis" by (cases "line l s") (auto simp: tuned_def, metis list.set_intros(2))
next
  case (Restart s c)
  then show "tuned ty l \<Longrightarrow> ?thesis" by (auto simp: tuned_def Handshake_new_def)
qed

lemma tuned_fold: "tuned ty l \<Longrightarrow> tuned ty (fold link_step es l)"
  by (induction es arbitrary: l) (auto intro: tuned_step)

lemma tuned_new: "tuned ty (link_new c ty)"
  by (simp add: tuned_def link_new_def Handshake_new_def)

section \<open>Progress on a link that loses nothing\<close>

definition lossless :: "link_event \<Rightarrow> bool" where
  "lossless e \<longleftrightarrow> (case e of Tick s \<Rightarrow> True | Recv s \<Rightarrow> True | Lose s \<Rightarrow> False | Restart s c \<Rightarrow> False)"

text \<open>The other board has heard from \<open>s\<close>, or is about to; it has its connection, or is about to.\<close>

definition heard :: "bool \<Rightarrow> link \<Rightarrow> bool" where
  "heard s l \<longleftrightarrow> line l (\<not> s) \<noteq> [] \<or> responsed (board l (\<not> s))"

definition synced :: "bool \<Rightarrow> link \<Rightarrow> bool" where
  "synced s l \<longleftrightarrow> (\<exists>m \<in> set (line l (\<not> s)). sync m) \<or> connected (board l (\<not> s))"

lemma step_keeps:
  assumes "tuned ty l" "lossless e"
  shows "heard s l \<Longrightarrow> heard s (link_step e l)" "synced s l \<Longrightarrow> synced s (link_step e l)"
    "responsed (board l s) \<Longrightarrow> responsed (board (link_step e l) s)"
proof -
  have o: "hs_type m = type_of (board l s)" if "m \<in> set (line l s)" for m s using assms(1) that by (simp add: tuned_def)
  show "heard s l \<Longrightarrow> heard s (link_step e l)"
    using assms(2) on_effect(1) [OF o]
    by (cases e) (auto simp: heard_def lossless_def timer_effect split: list.split)
  show "synced s l \<Longrightarrow> synced s (link_step e l)"
    using assms(2) on_effect(2) [OF o]
    by (cases e) (auto simp: synced_def lossless_def timer_effect split: list.split)
  show "responsed (board l s) \<Longrightarrow> responsed (board (link_step e l) s)"
    using assms(2) on_effect(1) [OF o]
    by (cases e) (auto simp: lossless_def timer_effect split: list.split)
qed

text \<open>Whoever has sent its one synchronising frame has not lost it.\<close>

definition sound :: "link \<Rightarrow> bool" where
  "sound l \<longleftrightarrow> (\<forall>s. once (board l s) \<longrightarrow> synced s l)"

lemma sound_step:
  assumes "tuned ty l" "lossless e" "sound l"
  shows "sound (link_step e l)"
  unfolding sound_def
proof (intro allI impI)
  fix s
  assume o: "once (board (link_step e l) s)"
  show "synced s (link_step e l)"
  proof (cases "once (board l s)")
    case True
    then show ?thesis using assms step_keeps(2) by (simp add: sound_def)
  next
    case False
    then have "e = Tick s" "responsed (board l s)"
      using o assms(2) by (cases e; auto simp: lossless_def timer_effect split: list.splits if_splits)+
    then show ?thesis using False by (simp add: synced_def timer_effect)
  qed
qed

lemma tick_once: "Tick s = e \<Longrightarrow> responsed (board l s) \<Longrightarrow> once (board (link_step e l) s)"
  by (auto simp: timer_effect)

lemma once_step: "lossless e \<Longrightarrow> once (board l s) \<Longrightarrow> once (board (link_step e l) s)"
  by (cases e) (auto simp: lossless_def timer_effect split: list.split)

lemma progress:
  assumes "tuned ty l" "sound l" "\<forall>e \<in> set es. lossless e"
  shows "sound (fold link_step es l) \<and> (Tick s \<in> set es \<or> heard s l \<longrightarrow> heard s (fold link_step es l)) \<and>
    (responsed (board l s) \<longrightarrow> responsed (board (fold link_step es l) s)) \<and>
    (responsed (board l s) \<and> Tick s \<in> set es \<or> once (board l s) \<longrightarrow> once (board (fold link_step es l) s))"
  using assms
proof (induction es arbitrary: l)
  case (Cons e es)
  have e: "tuned ty (link_step e l)" "sound (link_step e l)" "\<forall>e \<in> set es. lossless e" "lossless e"
    using Cons.prems tuned_step sound_step by simp_all
  note IH = Cons.IH [OF e(1-3)] and k = step_keeps [OF Cons.prems(1) e(4), of s]
  have t: "heard s (link_step (Tick s) l)" by (simp add: heard_def timer_effect)
  have "Tick s \<in> set (e # es) \<or> heard s l \<longrightarrow> Tick s \<in> set es \<or> heard s (link_step e l)" using t k(1) by auto
  moreover have "responsed (board l s) \<and> Tick s \<in> set (e # es) \<or> once (board l s) \<longrightarrow>
      responsed (board (link_step e l) s) \<and> Tick s \<in> set es \<or> once (board (link_step e l) s)"
    using k(3) tick_once [of s e l] once_step [OF e(4), of l s] by auto
  moreover have "fold link_step (e # es) l = fold link_step es (link_step e l)" by simp
  ultimately show ?case using IH k(3) by metis
qed simp

section \<open>A synchronising frame that is lost\<close>

text \<open>Board \<open>s\<close> has sent its frame and it will not arrive.\<close>

definition stuck :: "bool \<Rightarrow> link \<Rightarrow> bool" where
  "stuck s l \<longleftrightarrow> once (board l s) \<and> (\<forall>m \<in> set (line l (\<not> s)). \<not> sync m) \<and> \<not> connected (board l (\<not> s))"

lemma stuck_step:
  assumes "stuck s l" "\<forall>c. e \<noteq> Restart s c" "e \<noteq> Restart (\<not> s) True"
  shows "stuck s (link_step e l)"
proof (cases e)
  case (Tick r)
  then show ?thesis using assms(1) by (cases "r = s") (auto simp: stuck_def timer_effect)
next
  case (Recv r)
  have "\<not> connected (Handshake_on m h)" if "\<not> connected h" "\<not> sync m" for m h
    using that by (simp add: Handshake_on_def Let_def)
  then show ?thesis using Recv assms(1) by (cases "r = s") (auto simp: stuck_def split: list.split)
next
  case (Lose r)
  then show ?thesis using assms(1) by (cases "line l r") (auto simp: stuck_def)
next
  case (Restart r c)
  then show ?thesis using assms by (auto simp: stuck_def Handshake_new_def)
qed

section \<open>The guard\<close>

lemma guard_frames [simp]:
  "guard_type (guard_step e g) = guard_type g"
  by (cases e) (simp_all add: CommGuard_on_def CommGuard_timer_def Let_def case_prod_beta)

text \<open>Without a handshake the guard counts down, then the watch dog is told to stop feeding, and it does.\<close>

definition silent :: "nat \<Rightarrow> guard \<Rightarrow> bool" where
  "silent n g \<longleftrightarrow> \<not> feedCond (dog g)
     \<or> counting (guard_count g) \<and> 0 < unat (currVal (guard_count g)) \<and> unat (currVal (guard_count g)) \<le> n
     \<or> currVal (guard_count g) = 0 \<and> counting (dog_count (dog g)) \<and> currVal (dog_count (dog g)) = 1"

lemma silent_step:
  assumes "silent n g" "e \<noteq> Hello"
  shows "silent (if e = Guard_Timer then n - 1 else n) (guard_step e g)"
proof (cases e)
  case Guard_Timer
  have "unat (currVal (guard_count g) - 1) = unat (currVal (guard_count g)) - 1" if "currVal (guard_count g) \<noteq> 0"
    using that by (simp add: unat_minus_one)
  then show ?thesis using Guard_Timer assms(1)
    by (auto simp: silent_def CommGuard_timer_def cd_updateAndCheck_def WatchDog_resetAfter_def cd_retrigger_def cd_reset_def
        cd_setInitial_def Let_def unat_gt_0 unat_eq_zero)
next
  case Dog_Timer
  then show ?thesis using assms(1) by (auto simp: silent_def WatchDog_timer_def cd_updateAndCheck_def Let_def)
qed (use assms(2) in simp)

lemma silent_fold:
  assumes "silent n g" "Hello \<notin> set es"
  shows "silent (n - length (filter (\<lambda>e. e = Guard_Timer) es)) (fold guard_step es g)"
  using assms
proof (induction es arbitrary: n g)
  case (Cons e es)
  then have "silent (if e = Guard_Timer then n - 1 else n) (guard_step e g)" by (intro silent_step) auto
  from Cons.IH [OF this] show ?case using Cons.prems(2) by (auto split: if_splits)
qed simp

lemma unfed_step: "\<not> feedCond (dog g) \<Longrightarrow> \<not> feedCond (dog (guard_step e g))"
  by (cases e) (simp_all add: CommGuard_on_def CommGuard_timer_def WatchDog_timer_def WatchDog_resetAfter_def Let_def case_prod_beta)

lemma unfed_fold: "\<not> feedCond (dog g) \<Longrightarrow> \<not> feedCond (dog (fold guard_step es g))"
  by (induction es arbitrary: g) (simp_all add: unfed_step)

text \<open>With a handshake after at most every second run of its timer the guard stays quiet.\<close>

fun patient :: "nat \<Rightarrow> guard_event list \<Rightarrow> bool" where
  "patient n [] \<longleftrightarrow> True"
| "patient n (Hello # es) \<longleftrightarrow> patient 2 es"
| "patient n (Guard_Timer # es) \<longleftrightarrow> 0 < n \<and> patient (n - 1) es"
| "patient n (Dog_Timer # es) \<longleftrightarrow> patient n es"

definition content :: "nat \<Rightarrow> guard \<Rightarrow> bool" where
  "content n g \<longleftrightarrow> feedCond (dog g) \<and> \<not> counting (dog_count (dog g)) \<and> initVal (guard_count g) = 3 \<and> n < unat (currVal (guard_count g))"

lemma content_fold: "\<lbrakk>content n g; patient n es\<rbrakk> \<Longrightarrow> feedCond (dog (fold guard_step es g))"
proof (induction n es arbitrary: g rule: patient.induct)
  case (2 n es)
  then have "content 2 (guard_step Hello g)" by (simp add: content_def CommGuard_on_def cd_retrigger_def cd_reset_def Let_def)
  then show ?case using 2 by simp
next
  case (3 n es)
  have "content (n - 1) (guard_step Guard_Timer g)"
  proof -
    have c: "n < unat (currVal (guard_count g))" "0 < n" using 3 by (simp_all add: content_def)
    then have nz: "currVal (guard_count g) \<noteq> 0" by auto
    then have u: "unat (currVal (guard_count g) - 1) = unat (currVal (guard_count g)) - 1" by (simp add: unat_minus_one)
    then have "currVal (guard_count g) - 1 \<noteq> 0" using c by (metis diff_is_0_eq le_antisym less_le_not_le less_one linorder_not_less unat_0 zero_less_diff)
    then show ?thesis using 3 c u nz by (auto simp: content_def CommGuard_timer_def cd_updateAndCheck_def Let_def)
  qed
  then show ?case using 3 by simp
next
  case (4 n es)
  then have "content n (guard_step Dog_Timer g)" by (simp add: content_def WatchDog_timer_def cd_updateAndCheck_def)
  then show ?case using 4 by simp
qed (simp add: content_def)

section \<open>Properties\<close>

text \<open>C11: The boards get connected.  On a link that loses nothing, once both boards have sent a handshake
  and everything sent has arrived, and then both have sent another one and everything has arrived again,
  both are connected, whatever the order of sending and receiving; and they stay connected, whatever is
  lost later, until one of them restarts.\<close>

theorem handshake_connects:
  assumes "\<forall>e \<in> set (es1 @ es2). lossless e" "\<forall>s. Tick s \<in> set es1 \<and> Tick s \<in> set es2" "\<forall>e \<in> set es3. \<forall>r c. e \<noteq> Restart r c"
    and "\<forall>s. line (fold link_step es1 (link_new c ty)) s = []" "\<forall>s. line (fold link_step (es1 @ es2) (link_new c ty)) s = []"
  shows "connected (board (fold link_step (es1 @ es2 @ es3) (link_new c ty)) s)"
proof -
  let ?l0 = "link_new c ty" and ?l1 = "fold link_step es1 (link_new c ty)"
  let ?l2 = "fold link_step es2 ?l1"
  have s0: "sound ?l0" by (simp add: sound_def link_new_def Handshake_new_def)
  have P: "sound ?l1" "heard r ?l1" for r
    using progress [OF tuned_new s0, of es1] assms(1,2) by simp_all
  then have r: "responsed (board ?l1 r)" for r using assms(4) P(2) [of "\<not> r"] by (simp add: heard_def)
  note t1 = tuned_fold [OF tuned_new [of ty c], of es1]
  have Q: "sound ?l2" "once (board ?l2 r)" for r
    using progress [OF t1 P(1), of es2 r] assms(1,2) r by simp_all
  then have c: "connected (board ?l2 r)" for r
  proof -
    have "synced (\<not> r) ?l2" using Q by (simp add: sound_def)
    then show ?thesis using assms(5) by (simp add: synced_def)
  qed
  have "connected (board (link_step e l) r)" if "connected (board l r)" "\<forall>q c. e \<noteq> Restart q c" for e l r
    using that by (cases e) (auto simp: timer_effect Handshake_on_def set_connected_def Let_def split: list.split)
  then have "connected (board (fold link_step es3 l) r)" if "connected (board l r)" for l r
    using that assms(3) by (induction es3 arbitrary: l) auto
  then show ?thesis using c by simp
qed

text \<open>A round: both boards send, both receive.\<close>

abbreviation round :: "link_event list" where
  "round \<equiv> [Tick True, Tick False, Recv False, Recv True]"

theorem handshake_connects_witness: "connected (board (fold link_step (round @ round @ [Tick True, Lose False, Recv False]) (link_new (\<lambda>_. False) Major)) False)"
proof (rule handshake_connects)
  show "\<forall>s. Tick s \<in> set round \<and> Tick s \<in> set round" by (rule allI, case_tac s) simp_all
qed (simp_all add: lossless_def link_new_def timer_effect Handshake_new_def Handshake_on_def)

text \<open>A flaw of the handshake: each board announces its synchronisation in one frame only.  If that frame
  is lost, or the other board restarts after having received it, the other board stays unconnected in every
  history in which the announcing board does not restart as well (unless a restart finds the flag set in
  memory, which no constructor clears).\<close>

theorem handshake_stuck:
  assumes "once (board l s)" "\<forall>m \<in> set (line l (\<not> s)). \<not> sync m" "\<not> connected (board l (\<not> s))" "\<forall>e \<in> set es. (\<forall>c. e \<noteq> Restart s c) \<and> e \<noteq> Restart (\<not> s) True"
  shows "\<not> connected (board (fold link_step es l) (\<not> s))"
proof -
  have "stuck s (fold link_step es l)" if "stuck s l" for l
    using that assms(4) by (induction es arbitrary: l) (auto intro: stuck_step)
  then show ?thesis using assms(1-3) by (simp add: stuck_def)
qed

theorem handshake_stuck_witness:
  "connected (board (fold link_step (round @ round) (link_new (\<lambda>_. False) Major)) False) \<and>
   \<not> connected (board (fold link_step (concat (replicate 100 round)) (fold link_step (round @ round @ [Restart False False]) (link_new (\<lambda>_. False) Major))) False)"
proof -
  let ?l = "fold link_step (round @ round @ [Restart False False]) (link_new (\<lambda>_. False) Major)"
  have "connected (board (fold link_step (round @ round) (link_new (\<lambda>_. False) Major)) False)" by code_simp
  moreover have "\<not> connected (board (fold link_step (concat (replicate 100 round)) ?l) (\<not> True))"
  proof (rule handshake_stuck)
    show "once (board ?l True)" "\<forall>m \<in> set (line ?l (\<not> True)). \<not> sync m" "\<not> connected (board ?l (\<not> True))" by code_simp+
    have "set (concat (replicate n xs)) \<subseteq> set xs" for n and xs :: "link_event list" by (induction n) auto
    from this [of 100 round] show "\<forall>e \<in> set (concat (replicate 100 round)). (\<forall>c. e \<noteq> Restart True c) \<and> e \<noteq> Restart (\<not> True) True" by fastforce
  qed
  ultimately show ?thesis by (simp only: not_True_eq_False) blast
qed

text \<open>The lower board recovers from a silent link: when no handshake follows for three runs of the guard's
  timer, the watch dog is not fed any more after its own next run, and the hardware resets the board.\<close>

theorem comm_guard_resets:
  assumes "Hello \<notin> set (xs @ ys)" "3 \<le> length (filter (\<lambda>e. e = Guard_Timer) xs)" "Dog_Timer \<in> set ys" "initVal (guard_count g) = 3"
  shows "\<not> feedCond (dog (fold guard_step (Hello # xs @ ys) g))"
proof -
  let ?g = "fold guard_step xs (guard_step Hello g)"
  have "silent 3 (guard_step Hello g)"
    using assms(4) by (simp add: silent_def CommGuard_on_def cd_retrigger_def cd_reset_def Let_def)
  from silent_fold [OF this, of xs] have 0: "silent 0 ?g" using assms(1,2) by simp
  obtain as bs where ys: "ys = as @ Dog_Timer # bs" using assms(3) by (meson split_list)
  have "silent 0 (fold guard_step as ?g)" using silent_fold [OF 0, of as] assms(1) ys by simp
  then have "\<not> feedCond (dog (guard_step Dog_Timer (fold guard_step as ?g)))"
    by (auto simp: silent_def WatchDog_timer_def cd_updateAndCheck_def Let_def)
  from unfed_fold [OF this] show ?thesis by (simp add: ys)
qed

theorem comm_guard_resets_witness:
  "\<not> feedCond (dog (fold guard_step (Hello # [Guard_Timer, Dog_Timer, Guard_Timer, Guard_Timer] @ [Guard_Timer, Dog_Timer]) (guard_new Major)))"
  by (rule comm_guard_resets) (simp_all add: guard_new_def CountDown_def)

text \<open>The guard does not reset a board that is talked to: from power-up on, as long as no three runs of its
  timer pass without a handshake, the watch dog is fed.\<close>

theorem comm_guard_patient:
  assumes "patient 2 es"
  shows "feedCond (dog (fold guard_step es (guard_new ty)))"
  by (rule content_fold [OF _ assms]) (simp add: content_def guard_new_def CountDown_def)

theorem comm_guard_patient_witness:
  "feedCond (dog (fold guard_step [Guard_Timer, Hello, Guard_Timer, Dog_Timer, Guard_Timer, Hello, Guard_Timer] (guard_new Ota)))"
  by (rule comm_guard_patient) simp

end
