(* ===== verification/Rpc.thy ===== *)
theory Rpc
  imports Prelude "HOL-Library.Multiset"
begin

text \<open>
  Remote calls between the boards: \<^verbatim>\<open>components/rpc.hxx\<close> and \<^verbatim>\<open>components/rpc.cxx\<close>.  A caller sends a request
  with a one-byte number and keeps its callback under that number until the response, a failure or the
  timeout; the other board runs the procedure and answers under the same number.  The callbacks run as
  part of the step that calls them.  Results that are pointers, and the registration of the message
  types, are left out.

  Both boards are taken to be built with exceptions.  The upper board, which makes the calls of this
  firmware, is; in a build without them a timeout or a failure calls no callback at all, and a procedure that
  fails aborts the program instead of sending \<^verbatim>\<open>Failure\<close>, which the caller sees as a response that is lost.
\<close>

section \<open>Definitions\<close>

text \<open>What a callback is given.\<close>

datatype 'd rpc_outcome = Answer 'd | Failed string | Timeout

record pending =
  cb :: nat
  createdTick :: u32
  timeout :: u32

text \<open>\<open>pendings\<close> is in the order of the numbers, as \<^verbatim>\<open>std::map\<close> is.  \<open>answers\<close> are the calls of callbacks, and
  \<open>sent\<close> the requests handed to the link, each with its data.\<close>

record ('a, 'd) rpc =
  pendings :: "(u8 \<times> pending) list"
  curId :: u8
  answers :: "(nat \<times> 'd rpc_outcome) list"
  sent :: "(u8 \<times> 'a) list"

definition kMaxParallel :: nat where
  "kMaxParallel = 2"

text \<open>\<^verbatim>\<open>invoke\<close>; \<^verbatim>\<open>std::map::insert\<close> leaves an entry alone that is there already.\<close>

definition Rpc_invoke :: "nat \<Rightarrow> 'a \<Rightarrow> u32 \<Rightarrow> u32 \<Rightarrow> ('a, 'd) rpc \<Rightarrow> ('a, 'd) rpc" where
  "Rpc_invoke r t now tmo s =
     (if length (pendings s) > kMaxParallel then s\<lparr>answers := answers s @ [(r, Timeout)]\<rparr>
      else
        let p = \<lparr>cb = r, createdTick = now, timeout = tmo\<rparr>;
            k = curId s;
            s1 = s\<lparr>curId := curId s + 1\<rparr>;
            s2 = (if k \<in> fst ` set (pendings s1) then s1 else s1\<lparr>pendings := insort_key fst (k, p) (pendings s1)\<rparr>)
        in s2\<lparr>sent := sent s2 @ [(k, t)]\<rparr>)"

text \<open>The handlers of \<^verbatim>\<open>Response<T>\<close> and \<^verbatim>\<open>Failure<T>\<close>.\<close>

definition Rpc_finish :: "u8 \<Rightarrow> 'd rpc_outcome \<Rightarrow> ('a, 'd) rpc \<Rightarrow> ('a, 'd) rpc" where
  "Rpc_finish k res s =
     (case map_of (pendings s) k of
        None \<Rightarrow> s
      | Some p \<Rightarrow> s\<lparr>pendings := filter (\<lambda>q. fst q \<noteq> k) (pendings s), answers := answers s @ [(cb p, res)]\<rparr>)"

definition Rpc_onResponse :: "u8 \<Rightarrow> 'd \<Rightarrow> ('a, 'd) rpc \<Rightarrow> ('a, 'd) rpc" where
  "Rpc_onResponse k d s = Rpc_finish k (Answer d) s"

definition Rpc_onFailure :: "u8 \<Rightarrow> string \<Rightarrow> ('a, 'd) rpc \<Rightarrow> ('a, 'd) rpc" where
  "Rpc_onFailure k msg s = Rpc_finish k (Failed msg) s"

text \<open>The loop of the timer over the pending calls: those that remain, and the callbacks that are told of
  a timeout.\<close>

fun expire :: "u32 \<Rightarrow> (u8 \<times> pending) list \<Rightarrow> (u8 \<times> pending) list \<times> nat list" where
  "expire currTick [] = ([], [])"
| "expire currTick ((i, p) # ps) =
     (let (keep, out) = expire currTick ps
      in if currTick - createdTick p > timeout p then (keep, cb p # out) else ((i, p) # keep, out))"

definition Rpc_timer :: "u32 \<Rightarrow> ('a, 'd) rpc \<Rightarrow> ('a, 'd) rpc" where
  "Rpc_timer currTick s =
     (let (keep, out) = expire currTick (pendings s)
      in s\<lparr>pendings := keep, answers := answers s @ map (\<lambda>r. (r, Timeout)) out\<rparr>)"

text \<open>\<^verbatim>\<open>def\<close>: the other board runs the procedure; an exception becomes a failure.\<close>

definition Rpc_serve :: "('a \<Rightarrow> string + 'd) \<Rightarrow> u8 \<times> 'a \<Rightarrow> u8 \<times> (string + 'd)" where
  "Rpc_serve f rq = (fst rq, f (snd rq))"

definition Rpc_receive :: "u8 \<times> (string + 'd) \<Rightarrow> ('a, 'd) rpc \<Rightarrow> ('a, 'd) rpc" where
  "Rpc_receive rs s = (case snd rs of Inl msg \<Rightarrow> Rpc_onFailure (fst rs) msg s | Inr d \<Rightarrow> Rpc_onResponse (fst rs) d s)"

definition Rpc_new :: "('a, 'd) rpc" where
  "Rpc_new = \<lparr>pendings = [], curId = 0, answers = [], sent = []\<rparr>"

subsection \<open>The two boards\<close>

text \<open>The caller, the clock, and the responses on their way back; the requests on their way are those the
  caller has sent and the server has not taken.  Requests and responses may be lost.\<close>

record ('a, 'd) rpc_sys =
  caller :: "('a, 'd) rpc"
  responses :: "(u8 \<times> (string + 'd)) list"
  clock :: u32

datatype rpc_event = Call nat u32 | Serve | Receive | Lose_Request | Lose_Response | Timer | Clock

text \<open>\<open>arg r\<close> is what the caller with callback \<open>r\<close> passes.\<close>

fun rpc_step :: "('a \<Rightarrow> string + 'd) \<Rightarrow> (nat \<Rightarrow> 'a) \<Rightarrow> rpc_event \<Rightarrow> ('a, 'd) rpc_sys \<Rightarrow> ('a, 'd) rpc_sys" where
  "rpc_step f arg (Call r tmo) s = s\<lparr>caller := Rpc_invoke r (arg r) (clock s) tmo (caller s)\<rparr>"
| "rpc_step f arg Serve s =
     (case sent (caller s) of
        [] \<Rightarrow> s
      | rq # rqs \<Rightarrow> s\<lparr>caller := (caller s)\<lparr>sent := rqs\<rparr>, responses := responses s @ [Rpc_serve f rq]\<rparr>)"
| "rpc_step f arg Receive s =
     (case responses s of
        [] \<Rightarrow> s
      | rs # rss \<Rightarrow> s\<lparr>caller := Rpc_receive rs (caller s), responses := rss\<rparr>)"
| "rpc_step f arg Lose_Request s = s\<lparr>caller := (caller s)\<lparr>sent := tl (sent (caller s))\<rparr>\<rparr>"
| "rpc_step f arg Lose_Response s = s\<lparr>responses := tl (responses s)\<rparr>"
| "rpc_step f arg Timer s = s\<lparr>caller := Rpc_timer (clock s) (caller s)\<rparr>"
| "rpc_step f arg Clock s = s\<lparr>clock := clock s + 1\<rparr>"

definition rpc_sys_new :: "u32 \<Rightarrow> ('a, 'd) rpc_sys" where
  "rpc_sys_new now = \<lparr>caller = Rpc_new, responses = [], clock = now\<rparr>"

section \<open>The pending calls\<close>

lemma expire_filter:
  "expire now ps = (filter (\<lambda>q. \<not> now - createdTick (snd q) > timeout (snd q)) ps,
     map (\<lambda>q. cb (snd q)) (filter (\<lambda>q. now - createdTick (snd q) > timeout (snd q)) ps))"
  by (induction now ps rule: expire.induct) (auto simp: Let_def)

definition ids :: "(u8 \<times> 'b) list \<Rightarrow> u8 set" where
  "ids xs = fst ` set xs"

definition waiting :: "('a, 'd) rpc \<Rightarrow> nat multiset" where
  "waiting s = image_mset (\<lambda>q. cb (snd q)) (mset (pendings s))"

definition answered :: "('a, 'd) rpc \<Rightarrow> nat multiset" where
  "answered s = image_mset fst (mset (answers s))"

definition rpc_ok :: "('a, 'd) rpc \<Rightarrow> bool" where
  "rpc_ok s \<longleftrightarrow> distinct (map fst (pendings s)) \<and> length (pendings s) \<le> Suc kMaxParallel"

lemma distinct_remove:
  assumes "distinct (map fst xs)" "map_of xs k = Some v"
  shows "mset xs = add_mset (k, v) (mset (filter (\<lambda>q. fst q \<noteq> k) xs))"
  using assms
proof (induction xs)
  case (Cons x xs)
  show ?case
  proof (cases "fst x = k")
    case True
    then have "\<forall>q \<in> set xs. fst q \<noteq> k" using Cons.prems(1) by (metis distinct.simps(2) image_eqI list.map(2) set_map)
    then have "filter (\<lambda>q. fst q \<noteq> k) xs = xs" by simp
    then show ?thesis using True Cons.prems(2) by (cases x) auto
  next
    case False
    then show ?thesis using Cons by (cases x) auto
  qed
qed simp

lemma ok_filter: "rpc_ok s \<Longrightarrow> rpc_ok (s\<lparr>pendings := filter P (pendings s)\<rparr>)"
  using order_trans [OF length_filter_le [of P "pendings s"]] by (simp add: rpc_ok_def distinct_map_filter)

lemma ok_frame [simp]: "rpc_ok (s\<lparr>sent := x\<rparr>) = rpc_ok s" "rpc_ok (s\<lparr>answers := y\<rparr>) = rpc_ok s"
  by (simp_all add: rpc_ok_def)

lemma finish_waiting:
  assumes "rpc_ok s"
  shows "rpc_ok (Rpc_finish k res s)" "waiting (Rpc_finish k res s) + answered (Rpc_finish k res s) = waiting s + answered s"
proof -
  show "rpc_ok (Rpc_finish k res s)"
    using assms ok_filter [OF assms, of "\<lambda>q. fst q \<noteq> k"] by (auto simp: Rpc_finish_def rpc_ok_def split: option.split)
  show "waiting (Rpc_finish k res s) + answered (Rpc_finish k res s) = waiting s + answered s"
  proof (cases "map_of (pendings s) k")
    case (Some p)
    have d: "distinct (map fst (pendings s))" using assms by (simp add: rpc_ok_def)
    from arg_cong [OF distinct_remove [OF d Some], of "image_mset (\<lambda>q. cb (snd q))"]
    have "waiting s = add_mset (cb p) (waiting (Rpc_finish k res s))" using Some by (simp add: waiting_def Rpc_finish_def)
    then show ?thesis using Some by (simp add: answered_def Rpc_finish_def)
  qed (simp add: Rpc_finish_def)
qed

lemma timer_waiting:
  assumes "rpc_ok s"
  shows "rpc_ok (Rpc_timer now s)" "waiting (Rpc_timer now s) + answered (Rpc_timer now s) = waiting s + answered s"
proof -
  let ?P = "\<lambda>q. now - createdTick (snd q) > timeout (snd q)"
  show "rpc_ok (Rpc_timer now s)"
    using ok_filter [OF assms, of "\<lambda>q. \<not> ?P q"] by (simp add: rpc_ok_def Rpc_timer_def expire_filter)
  have w: "waiting s = image_mset (\<lambda>q. cb (snd q)) (mset (filter (\<lambda>q. \<not> ?P q) (pendings s))) +
      image_mset (\<lambda>q. cb (snd q)) (mset (filter ?P (pendings s)))"
    unfolding waiting_def mset_filter image_mset_union [symmetric]
    using multiset_partition [of "mset (pendings s)" "\<lambda>q. \<not> ?P q"] by simp
  show "waiting (Rpc_timer now s) + answered (Rpc_timer now s) = waiting s + answered s"
    unfolding w by (simp add: waiting_def answered_def Rpc_timer_def expire_filter multiset.map_comp comp_def)
qed

lemma invoke_waiting:
  assumes "rpc_ok s" "length (pendings s) > kMaxParallel \<or> curId s \<notin> ids (pendings s)"
  shows "rpc_ok (Rpc_invoke r t now tmo s)"
    "waiting (Rpc_invoke r t now tmo s) + answered (Rpc_invoke r t now tmo s) = add_mset r (waiting s + answered s)"
proof -
  have m: "mset (map fst (insort_key fst x xs)) = mset (map fst (x # xs))" for x :: "u8 \<times> pending" and xs by simp
  have "distinct (map fst (insort_key fst x xs)) = distinct (map fst (x # xs))" for x :: "u8 \<times> pending" and xs
    using m [THEN mset_eq_imp_distinct_iff] by blast
  then show "rpc_ok (Rpc_invoke r t now tmo s)" using assms
    by (auto simp: rpc_ok_def Rpc_invoke_def Let_def ids_def)
  show "waiting (Rpc_invoke r t now tmo s) + answered (Rpc_invoke r t now tmo s) = add_mset r (waiting s + answered s)"
    using assms(2) by (auto simp: waiting_def answered_def Rpc_invoke_def Let_def ids_def)
qed

section \<open>Answers that fit their calls\<close>

definition fits :: "('a \<Rightarrow> string + 'd) \<Rightarrow> (nat \<Rightarrow> 'a) \<Rightarrow> nat \<times> 'd rpc_outcome \<Rightarrow> bool" where
  "fits f arg a \<longleftrightarrow> snd a = Timeout \<or> snd a = (case f (arg (fst a)) of Inl msg \<Rightarrow> Failed msg | Inr d \<Rightarrow> Answer d)"

lemma fits_Timeout [simp]: "fits f arg (r, Timeout)"
  by (simp add: fits_def)

text \<open>Whatever is on its way under the number of a pending call belongs to that call.\<close>

definition matched :: "('a \<Rightarrow> string + 'd) \<Rightarrow> (nat \<Rightarrow> 'a) \<Rightarrow> ('a, 'd) rpc_sys \<Rightarrow> bool" where
  "matched f arg s \<longleftrightarrow> rpc_ok (caller s)
     \<and> (\<forall>k p t. (k, p) \<in> set (pendings (caller s)) \<longrightarrow> (k, t) \<in> set (sent (caller s)) \<longrightarrow> t = arg (cb p))
     \<and> (\<forall>k p x. (k, p) \<in> set (pendings (caller s)) \<longrightarrow> (k, x) \<in> set (responses s) \<longrightarrow> x = f (arg (cb p)))
     \<and> (\<forall>a \<in> set (answers (caller s)). fits f arg a)"

text \<open>A call is given a number that nothing else uses.\<close>

fun free_ids :: "('a \<Rightarrow> string + 'd) \<Rightarrow> (nat \<Rightarrow> 'a) \<Rightarrow> rpc_event list \<Rightarrow> ('a, 'd) rpc_sys \<Rightarrow> bool" where
  "free_ids f arg [] s \<longleftrightarrow> True"
| "free_ids f arg (e # es) s \<longleftrightarrow>
     (case e of
        Call r tmo \<Rightarrow> length (pendings (caller s)) > kMaxParallel \<or>
          curId (caller s) \<notin> ids (pendings (caller s)) \<union> ids (sent (caller s)) \<union> ids (responses s)
      | _ \<Rightarrow> True) \<and> free_ids f arg es (rpc_step f arg e s)"

lemma not_in_ids: "k \<notin> ids xs \<longleftrightarrow> (\<forall>x. (k, x) \<notin> set xs)"
  by (force simp: ids_def)

lemma matchedI:
  assumes "rpc_ok (caller s)" "\<And>k p t. \<lbrakk>(k, p) \<in> set (pendings (caller s)); (k, t) \<in> set (sent (caller s))\<rbrakk> \<Longrightarrow> t = arg (cb p)"
    "\<And>k p x. \<lbrakk>(k, p) \<in> set (pendings (caller s)); (k, x) \<in> set (responses s)\<rbrakk> \<Longrightarrow> x = f (arg (cb p))"
    "\<And>a. a \<in> set (answers (caller s)) \<Longrightarrow> fits f arg a"
  shows "matched f arg s"
  using assms by (simp add: matched_def)

lemma matchedD:
  assumes "matched f arg s"
  shows "rpc_ok (caller s)" "\<lbrakk>(k, p) \<in> set (pendings (caller s)); (k, t) \<in> set (sent (caller s))\<rbrakk> \<Longrightarrow> t = arg (cb p)"
    "\<lbrakk>(k, p) \<in> set (pendings (caller s)); (k, x) \<in> set (responses s)\<rbrakk> \<Longrightarrow> x = f (arg (cb p))"
    "a \<in> set (answers (caller s)) \<Longrightarrow> fits f arg a"
  using assms unfolding matched_def by blast+

lemma subset_matched:
  assumes "matched f arg s" "rpc_ok (caller s')" "set (pendings (caller s')) \<subseteq> set (pendings (caller s))"
    "set (sent (caller s')) \<subseteq> set (sent (caller s))" "set (responses s') \<subseteq> set (responses s)"
    "\<And>a. a \<in> set (answers (caller s')) \<Longrightarrow> fits f arg a"
  shows "matched f arg s'"
  by (rule matchedI) (use assms matchedD [OF assms(1)] in \<open>blast+\<close>)

lemma set_tl: "set (tl xs) \<subseteq> set xs"
  by (cases xs) auto

lemma matched_call:
  assumes m: "matched f arg s" and fr: "free_ids f arg [Call r tmo] s"
  shows "matched f arg (rpc_step f arg (Call r tmo) s)"
proof -
  let ?c = "Rpc_invoke r (arg r) (clock s) tmo (caller s)"
  note D = matchedD [OF m]
  have i: "rpc_ok ?c" using invoke_waiting(1) [OF D(1)] fr by auto
  show ?thesis
  proof (cases "length (pendings (caller s)) > kMaxParallel")
    case True
    then show ?thesis using i D by (intro matchedI) (auto simp: Rpc_invoke_def)
  next
    case False
    let ?k = "curId (caller s)" and ?p = "\<lparr>cb = r, createdTick = clock s, timeout = tmo\<rparr>"
    have n: "?k \<notin> ids (pendings (caller s))" "\<forall>x. (?k, x) \<notin> set (sent (caller s))" "\<forall>x. (?k, x) \<notin> set (responses s)"
      using fr False by (simp_all add: not_in_ids)
    have c: "set (pendings ?c) = insert (?k, ?p) (set (pendings (caller s)))" "set (sent ?c) = insert (?k, arg r) (set (sent (caller s)))"
        "answers ?c = answers (caller s)"
      using False n(1) by (simp_all add: Rpc_invoke_def Let_def ids_def set_insort_key)
    have n': "\<forall>x. (?k, x) \<notin> set (pendings (caller s))" using n(1) by (simp add: not_in_ids)
    show ?thesis
    proof (rule matchedI)
      fix k p t
      assume "(k, p) \<in> set (pendings (caller (rpc_step f arg (Call r tmo) s)))" "(k, t) \<in> set (sent (caller (rpc_step f arg (Call r tmo) s)))"
      then show "t = arg (cb p)" using n n' D(2) by (auto simp: c)
    next
      fix k p x
      assume "(k, p) \<in> set (pendings (caller (rpc_step f arg (Call r tmo) s)))" "(k, x) \<in> set (responses (rpc_step f arg (Call r tmo) s))"
      then show "x = f (arg (cb p))" using n D(3) by (auto simp: c)
    qed (use i D(4) c(3) in simp_all)
  qed
qed

lemma matched_receive:
  assumes m: "matched f arg s" and c: "responses s = (k, x) # rss"
  shows "matched f arg (rpc_step f arg Receive s)"
proof -
  note D = matchedD [OF m]
  let ?o = "case x of Inl msg \<Rightarrow> Failed msg | Inr d \<Rightarrow> Answer d"
  let ?c = "Rpc_finish k ?o (caller s)"
  have e: "rpc_step f arg Receive s = s\<lparr>caller := ?c, responses := rss\<rparr>"
    using c by (simp add: Rpc_receive_def Rpc_onResponse_def Rpc_onFailure_def split: sum.split)
  have "fits f arg (cb p, ?o)" if "map_of (pendings (caller s)) k = Some p" for p
    using D(3) [OF map_of_SomeD [OF that], of x] c by (simp add: fits_def)
  then have "fits f arg (r, res)" if "(r, res) \<in> set (answers ?c)" for r res
    using that D(4) by (auto simp: Rpc_finish_def split: option.splits)
  moreover have "set (pendings ?c) \<subseteq> set (pendings (caller s))" "sent ?c = sent (caller s)"
    by (auto simp: Rpc_finish_def split: option.splits)
  ultimately show ?thesis unfolding e using finish_waiting(1) [OF D(1)] c by (intro subset_matched [OF m]) auto
qed

lemma matched_step:
  assumes m: "matched f arg s" and fr: "free_ids f arg [e] s"
  shows "matched f arg (rpc_step f arg e s)"
proof -
  note D = matchedD [OF m]
  show ?thesis
  proof (cases e)
    case (Call r tmo)
    then show ?thesis using matched_call [OF m] fr by blast
  next
    case Serve
    show ?thesis
    proof (cases "sent (caller s)")
      case (Cons rq rqs)
      then have e: "rpc_step f arg e s = s\<lparr>caller := (caller s)\<lparr>sent := rqs\<rparr>, responses := responses s @ [(fst rq, f (snd rq))]\<rparr>"
        using Serve by (simp add: Rpc_serve_def)
      show ?thesis unfolding e
      proof (rule matchedI)
        fix k p x
        assume "(k, p) \<in> set (pendings (caller (s\<lparr>caller := (caller s)\<lparr>sent := rqs\<rparr>, responses := responses s @ [(fst rq, f (snd rq))]\<rparr>)))"
          "(k, x) \<in> set (responses (s\<lparr>caller := (caller s)\<lparr>sent := rqs\<rparr>, responses := responses s @ [(fst rq, f (snd rq))]\<rparr>))"
        then show "x = f (arg (cb p))" using D(2) [of k p "snd rq"] D(3) Cons by auto
      qed (use D Cons in \<open>auto simp: rpc_ok_def\<close>)
    qed (use m Serve in simp)
  next
    case Receive
    show ?thesis
    proof (cases "responses s")
      case (Cons rs rss)
      then show ?thesis using matched_receive [OF m, of "fst rs" "snd rs" rss] Receive by simp
    qed (use m Receive in simp)
  next
    case Lose_Request
    then show ?thesis by (intro subset_matched [OF m]) (use D in \<open>simp_all add: set_tl\<close>)
  next
    case Lose_Response
    then show ?thesis by (intro subset_matched [OF m]) (use D in \<open>simp_all add: set_tl\<close>)
  next
    case Timer
    have "fits f arg (r, res)" if "(r, res) \<in> set (answers (Rpc_timer (clock s) (caller s)))" for r res
      using that D(4) by (auto simp: Rpc_timer_def expire_filter)
    moreover have "set (pendings (Rpc_timer (clock s) (caller s))) \<subseteq> set (pendings (caller s))" "sent (Rpc_timer (clock s) (caller s)) = sent (caller s)"
      by (auto simp: Rpc_timer_def expire_filter)
    ultimately show ?thesis using Timer timer_waiting(1) [OF D(1)] by (intro subset_matched [OF m]) auto
  next
    case Clock
    then show ?thesis using D by (intro subset_matched [OF m]) auto
  qed
qed

section \<open>Every call is accounted for\<close>

text \<open>The callbacks of the calls in a history.\<close>

fun calls :: "rpc_event list \<Rightarrow> nat list" where
  "calls [] = []"
| "calls (e # es) = (case e of Call r tmo \<Rightarrow> r # calls es | _ \<Rightarrow> calls es)"

lemma account_step:
  assumes m: "matched f arg s" and fr: "free_ids f arg [e] s"
  shows "waiting (caller (rpc_step f arg e s)) + answered (caller (rpc_step f arg e s)) =
    mset (calls [e]) + (waiting (caller s) + answered (caller s))"
proof -
  note ok = matchedD(1) [OF m]
  have s: "waiting (c\<lparr>sent := x\<rparr>) = waiting c" "answered (c\<lparr>sent := x\<rparr>) = answered c" for c :: "('a, 'd) rpc" and x
    by (simp_all add: waiting_def answered_def)
  show ?thesis
  proof (cases e)
    case (Call r tmo)
    then show ?thesis using invoke_waiting(2) [OF ok, of r "arg r" "clock s" tmo] fr by auto
  next
    case Serve
    then show ?thesis by (simp add: s split: list.split)
  next
    case Receive
    then show ?thesis using finish_waiting(2) [OF ok]
      by (auto simp: Rpc_receive_def Rpc_onResponse_def Rpc_onFailure_def split: list.split sum.split)
  next
    case Timer
    then show ?thesis using timer_waiting(2) [OF ok] by simp
  qed (simp_all add: s)
qed

lemma free_ids_Cons: "free_ids f arg (e # es) s \<longleftrightarrow> free_ids f arg [e] s \<and> free_ids f arg es (rpc_step f arg e s)"
  by simp

lemma account:
  assumes "matched f arg s" "free_ids f arg es s"
  shows "matched f arg (fold (rpc_step f arg) es s)"
    "waiting (caller (fold (rpc_step f arg) es s)) + answered (caller (fold (rpc_step f arg) es s)) =
      mset (calls es) + (waiting (caller s) + answered (caller s))"
proof -
  have "matched f arg (fold (rpc_step f arg) es s) \<and>
    waiting (caller (fold (rpc_step f arg) es s)) + answered (caller (fold (rpc_step f arg) es s)) =
      mset (calls es) + (waiting (caller s) + answered (caller s))"
    using assms
  proof (induction es arbitrary: s)
    case (Cons e es)
    have fr: "free_ids f arg [e] s" "free_ids f arg es (rpc_step f arg e s)" using Cons.prems(2) free_ids_Cons by blast+
    have "mset (calls (e # es)) = mset (calls [e]) + mset (calls es)" by (cases e) simp_all
    then show ?case using Cons.IH [OF matched_step [OF Cons.prems(1) fr(1)] fr(2)] account_step [OF Cons.prems(1) fr(1)]
      by (simp add: add.assoc add.left_commute del: calls.simps)
  qed simp
  then show "matched f arg (fold (rpc_step f arg) es s)"
    "waiting (caller (fold (rpc_step f arg) es s)) + answered (caller (fold (rpc_step f arg) es s)) =
      mset (calls es) + (waiting (caller s) + answered (caller s))" by blast+
qed

text \<open>The numbers in use come before the next one until it wraps around, so the first 256 calls find theirs
  free.\<close>

definition numbered :: "nat \<Rightarrow> ('a, 'd) rpc_sys \<Rightarrow> bool" where
  "numbered n s \<longleftrightarrow> curId (caller s) = word_of_nat n \<and>
     (\<forall>k \<in> ids (pendings (caller s)) \<union> ids (sent (caller s)) \<union> ids (responses s). unat k < n)"

lemma ids_simps [simp]: "ids [] = {}" "ids (x # xs) = insert (fst x) (ids xs)" "ids (xs @ ys) = ids xs \<union> ids ys"
    "ids (insort_key h x xs) = insert (fst x) (ids xs)"
  by (simp_all add: ids_def image_Un set_insort_key)

lemma ids_subset: "set xs \<subseteq> set ys \<Longrightarrow> ids xs \<subseteq> ids ys"
  by (auto simp: ids_def)

lemma numbered_free:
  assumes "numbered n s" "n + length (calls [e]) \<le> 256"
  shows "free_ids f arg [e] s" "\<exists>m \<le> n + length (calls [e]). numbered m (rpc_step f arg e s)"
proof -
  have u: "unat (word_of_nat n :: u8) = n" if "n < 256" using that by (simp add: unat_of_nat)
  have c: "curId (caller s) = word_of_nat n" and k: "\<And>k. k \<in> ids (pendings (caller s)) \<Longrightarrow> unat k < n"
      "\<And>k. k \<in> ids (sent (caller s)) \<Longrightarrow> unat k < n" "\<And>k. k \<in> ids (responses s) \<Longrightarrow> unat k < n"
    using assms(1) by (auto simp: numbered_def)
  then have free: "word_of_nat n \<notin> ids (pendings (caller s)) \<union> ids (sent (caller s)) \<union> ids (responses s)" if "n < 256"
    using u [OF that] by force
  then show "free_ids f arg [e] s" using c assms(2) by (cases e) auto
  have same: "numbered n s'" if "curId (caller s') = curId (caller s)"
      "ids (pendings (caller s')) \<union> ids (sent (caller s')) \<union> ids (responses s') \<subseteq>
       ids (pendings (caller s)) \<union> ids (sent (caller s)) \<union> ids (responses s)" for s' :: "('a, 'd) rpc_sys"
    using that assms(1) unfolding numbered_def by fastforce
  show "\<exists>m \<le> n + length (calls [e]). numbered m (rpc_step f arg e s)"
  proof (cases e)
    case (Call r tmo)
    show ?thesis
    proof (cases "length (pendings (caller s)) > kMaxParallel")
      case True
      then have "numbered n (rpc_step f arg e s)" using Call by (intro same) (simp_all add: Rpc_invoke_def)
      then show ?thesis by (meson le_add1)
    next
      case False
      then have "numbered (Suc n) (rpc_step f arg e s)"
        using Call c k free u assms(2) by (auto simp: numbered_def Rpc_invoke_def Let_def ids_def [symmetric] less_Suc_eq)
      then show ?thesis using Call by (intro exI [of _ "Suc n"]) simp
    qed
  next
    case Serve
    have "numbered n (rpc_step f arg e s)" using Serve
      by (intro same) (auto simp: Rpc_serve_def split: list.split)
    then show ?thesis by (meson le_add1)
  next
    case Receive
    have p: "ids (pendings (Rpc_finish k' res (caller s))) \<subseteq> ids (pendings (caller s))" "sent (Rpc_finish k' res (caller s)) = sent (caller s)"
        "curId (Rpc_finish k' res (caller s)) = curId (caller s)" for k' res
      by (auto simp: Rpc_finish_def ids_def split: option.split)
    have "numbered n (rpc_step f arg e s)" using Receive p
      by (intro same) (auto simp: Rpc_receive_def Rpc_onResponse_def Rpc_onFailure_def split: list.split sum.split)
    then show ?thesis by (meson le_add1)
  next
    case Timer
    have "numbered n (rpc_step f arg e s)" using Timer
      by (intro same) (auto simp: Rpc_timer_def expire_filter ids_def)
    then show ?thesis by (meson le_add1)
  next
    case Lose_Request
    then have "numbered n (rpc_step f arg e s)" using ids_subset [OF set_tl] by (intro same) auto
    then show ?thesis by (meson le_add1)
  next
    case Lose_Response
    then have "numbered n (rpc_step f arg e s)" using ids_subset [OF set_tl] by (intro same) auto
    then show ?thesis by (meson le_add1)
  next
    case Clock
    then have "numbered n (rpc_step f arg e s)" by (intro same) auto
    then show ?thesis by (meson le_add1)
  qed
qed

lemma few_free:
  assumes "numbered n s" "n + length (calls es) \<le> 256"
  shows "free_ids f arg es s"
  using assms
proof (induction es arbitrary: n s)
  case (Cons e es)
  have l: "length (calls (e # es)) = length (calls [e]) + length (calls es)" by (cases e) simp_all
  note N = numbered_free [OF Cons.prems(1), of e f arg]
  obtain m where m: "m \<le> n + length (calls [e])" "numbered m (rpc_step f arg e s)" using N(2) l Cons.prems(2) by force
  have "free_ids f arg es (rpc_step f arg e s)" by (rule Cons.IH [OF m(2)]) (use m(1) l Cons.prems(2) in linarith)
  then show ?case using N(1) l Cons.prems(2) free_ids_Cons by (metis add.assoc add_leD1)
qed simp

lemma new_ok: "numbered 0 (rpc_sys_new now)" "matched f arg (rpc_sys_new now)"
    "waiting (caller (rpc_sys_new now)) = {#}" "answered (caller (rpc_sys_new now)) = {#}"
  by (simp_all add: numbered_def matched_def rpc_sys_new_def Rpc_new_def rpc_ok_def waiting_def answered_def)

section \<open>Timeouts\<close>

text \<open>How often the clock has ticked, and when a pending call began; no timeout is longer than \<open>T\<close>.\<close>

definition aged :: "u32 \<Rightarrow> u32 \<Rightarrow> nat \<Rightarrow> ('a, 'd) rpc_sys \<Rightarrow> bool" where
  "aged now T c s \<longleftrightarrow> clock s = now + word_of_nat c \<and>
     (\<forall>(k, p) \<in> set (pendings (caller s)). timeout p \<le> T \<and> (\<exists>b \<le> c. createdTick p = now + word_of_nat b))"

definition clocks :: "rpc_event list \<Rightarrow> nat" where
  "clocks es = length (filter (\<lambda>e. e = Clock) es)"

definition within :: "u32 \<Rightarrow> rpc_event \<Rightarrow> bool" where
  "within T e \<longleftrightarrow> (case e of Call r tmo \<Rightarrow> tmo \<le> T | _ \<Rightarrow> True)"

lemma aged_mono: "\<lbrakk>aged now T c s; clock s' = clock s; set (pendings (caller s')) \<subseteq> set (pendings (caller s))\<rbrakk> \<Longrightarrow> aged now T c s'"
  by (auto simp: aged_def)

lemma aged_step:
  assumes a: "aged now T c s" and w: "within T e"
  shows "aged now T (c + clocks [e]) (rpc_step f arg e s)"
proof (cases e)
  case (Call r tmo)
  have "set (pendings (Rpc_invoke r (arg r) (clock s) tmo (caller s))) \<subseteq>
      insert (curId (caller s), \<lparr>cb = r, createdTick = clock s, timeout = tmo\<rparr>) (set (pendings (caller s)))"
    by (auto simp: Rpc_invoke_def Let_def set_insort_key)
  then show ?thesis using a w Call by (fastforce simp: aged_def clocks_def within_def)
next
  case Receive
  have "set (pendings (Rpc_finish k res (caller s))) \<subseteq> set (pendings (caller s))" for k res
    by (auto simp: Rpc_finish_def split: option.split)
  then have "aged now T c (rpc_step f arg e s)" using Receive
    by (intro aged_mono [OF a]) (auto simp: Rpc_receive_def Rpc_onResponse_def Rpc_onFailure_def split: list.split sum.split)
  then show ?thesis using Receive by (simp add: clocks_def)
next
  case Timer
  then have "aged now T c (rpc_step f arg e s)" by (intro aged_mono [OF a]) (auto simp: Rpc_timer_def expire_filter)
  then show ?thesis using Timer by (simp add: clocks_def)
next
  case Serve
  then have "aged now T c (rpc_step f arg e s)" by (intro aged_mono [OF a]) (auto split: list.split)
  then show ?thesis using Serve by (simp add: clocks_def)
next
  case Clock
  have "\<exists>b \<le> Suc c. createdTick p = now + word_of_nat b" if "\<exists>b \<le> c. createdTick p = now + word_of_nat b" for p :: pending
    using that le_SucI by blast
  note le = this
  show ?thesis unfolding aged_def
  proof (intro conjI ballI)
    show "clock (rpc_step f arg e s) = now + word_of_nat (c + clocks [e])" using a Clock by (simp add: aged_def clocks_def ac_simps)
    fix q
    assume "q \<in> set (pendings (caller (rpc_step f arg e s)))"
    then have "case q of (k, p) \<Rightarrow> timeout p \<le> T \<and> (\<exists>b \<le> c. createdTick p = now + word_of_nat b)" using a Clock by (simp add: aged_def)
    then show "case q of (k, p) \<Rightarrow> timeout p \<le> T \<and> (\<exists>b \<le> c + clocks [e]. createdTick p = now + word_of_nat b)"
      using le Clock by (simp add: clocks_def split: prod.splits)
  qed
qed (simp_all add: clocks_def aged_mono [OF a])

lemma aged_fold: "\<lbrakk>aged now T c s; \<forall>e \<in> set es. within T e\<rbrakk> \<Longrightarrow> aged now T (c + clocks es) (fold (rpc_step f arg) es s)"
proof (induction es arbitrary: c s)
  case (Cons e es)
  have "aged now T (c + clocks [e] + clocks es) (fold (rpc_step f arg) es (rpc_step f arg e s))"
    using Cons.IH [OF aged_step] Cons.prems by simp
  moreover have "clocks (e # es) = clocks [e] + clocks es" by (simp add: clocks_def)
  ultimately show ?case by (simp add: add.assoc)
qed (simp add: clocks_def)

text \<open>Once the clock has ticked more often than any timeout, the timer ends all pending calls.\<close>

lemma clock_only: "caller (fold (rpc_step f arg) (replicate n Clock) s) = caller s"
    "clock (fold (rpc_step f arg) (replicate n Clock) s) = clock s + word_of_nat n"
  by (induction n arbitrary: s) (simp_all add: add.assoc)

lemma all_expired:
  assumes a: "aged now T c s" and n: "unat T < n" "c + n < 2 ^ 32"
  shows "pendings (caller (rpc_step f arg Timer (fold (rpc_step f arg) (replicate n Clock) s))) = []"
proof -
  let ?s = "fold (rpc_step f arg) (replicate n Clock) s"
  have "clock ?s - createdTick p > timeout p" if kp: "(k, p) \<in> set (pendings (caller s))" for k p
  proof -
    obtain b where b: "b \<le> c" "createdTick p = now + word_of_nat b" "timeout p \<le> T" using a kp by (fastforce simp: aged_def)
    have "clock ?s - createdTick p = word_of_nat c + word_of_nat n - word_of_nat b"
      using a b(2) clock_only(2) [of f arg n s] by (simp add: aged_def)
    also have "\<dots> = word_of_nat (c + n - b)" using b(1) by (simp add: of_nat_diff)
    finally have "unat (clock ?s - createdTick p) = c + n - b" using n(2) by (simp add: unat_of_nat)
    then have "unat (timeout p) < unat (clock ?s - createdTick p)" using b n(1) by (simp add: word_le_nat_alt)
    then show ?thesis by (simp add: word_less_nat_alt)
  qed
  then show ?thesis using clock_only(1) [of f arg n s] by (auto simp: Rpc_timer_def expire_filter filter_empty_conv)
qed

section \<open>Properties\<close>

text \<open>C12: Calls are answered once and correctly.  In any history of at most 256 calls of a caller built with
  exceptions, with requests and responses lost or delayed at will, every call is either pending or its callback has been called exactly
  once; every answer is what the procedure yields for the argument of that call, its failure, or a
  timeout; and at most three calls are pending.\<close>

theorem rpc_once:
  assumes "length (calls es) \<le> 256"
  shows "let c = caller (fold (rpc_step f arg) es (rpc_sys_new now))
    in waiting c + answered c = mset (calls es) \<and> (\<forall>a \<in> set (answers c). fits f arg a) \<and> length (pendings c) \<le> 3"
proof -
  have "free_ids f arg es (rpc_sys_new now)" by (rule few_free [OF new_ok(1)]) (use assms in simp)
  note A = account [OF new_ok(2) this]
  then show ?thesis using matchedD [OF A(1)] by (simp add: Let_def new_ok rpc_ok_def kMaxParallel_def)
qed

theorem rpc_once_witness:
  "let c = caller (fold (rpc_step (\<lambda>x. if x = 0 then Inl ''zero'' else Inr (x + (1 :: nat))) (\<lambda>r. r))
         [Call 5 100, Call 0 100, Call 7 100, Serve, Call 8 100, Lose_Request, Serve, Receive, Receive] (rpc_sys_new 3))
   in waiting c + answered c = mset [5, 0, 7, 8] \<and> (\<forall>a \<in> set (answers c). fits (\<lambda>x. if x = 0 then Inl ''zero'' else Inr (x + (1 :: nat))) (\<lambda>r. r) a)"
  using rpc_once [of "[Call 5 100, Call 0 100, Call 7 100, Serve, Call 8 100, Lose_Request, Serve, Receive, Receive]"
      "\<lambda>x. if x = 0 then Inl ''zero'' else Inr (x + (1 :: nat))" "\<lambda>r. r" 3] by (simp add: Let_def del: fold_simps rpc_step.simps)

text \<open>C13: Calls return.  In any history of at most 256 calls in which the tick counter does not run around, whatever
  happens to requests and responses, once the clock has ticked more often than the longest timeout and the timer
  has run, the callback of every call has been called, exactly once.\<close>

theorem rpc_returns:
  assumes "length (calls es) \<le> 256" "\<forall>e \<in> set es. within T e" "unat T < n" "clocks es + n < 2 ^ 32"
  shows "answered (caller (fold (rpc_step f arg) (es @ replicate n Clock @ [Timer]) (rpc_sys_new now))) = mset (calls es)"
proof -
  let ?es = "es @ replicate n Clock @ [Timer]"
  have c: "calls ?es = calls es"
  proof -
    have "calls (xs @ ys) = calls xs @ calls ys" for xs ys by (induction xs) (auto split: rpc_event.split)
    moreover have "calls (replicate n Clock) = []" by (induction n) simp_all
    ultimately show ?thesis by simp
  qed
  have "free_ids f arg ?es (rpc_sys_new now)" by (rule few_free [OF new_ok(1)]) (use assms(1) c in simp)
  note A = account(2) [OF new_ok(2) this]
  have "aged now T 0 (rpc_sys_new now)" by (simp add: aged_def rpc_sys_new_def Rpc_new_def)
  from aged_fold [OF this assms(2)] have a: "aged now T (clocks es) (fold (rpc_step f arg) es (rpc_sys_new now))" by simp
  have "pendings (caller (fold (rpc_step f arg) ?es (rpc_sys_new now))) = []" using all_expired [OF a assms(3,4), of f arg] by simp
  then have "waiting (caller (fold (rpc_step f arg) ?es (rpc_sys_new now))) = {#}" by (simp add: waiting_def)
  then show ?thesis using A unfolding c new_ok by simp
qed

theorem rpc_returns_witness:
  "answered (caller (fold (rpc_step (\<lambda>x. Inr (x + 1 :: nat)) (\<lambda>r. r)) ([Call 5 10, Call 6 10, Serve, Receive, Lose_Request] @ replicate 11 Clock @ [Timer])
     (rpc_sys_new 0xfffffffe))) = {#5, 6#}"
  using rpc_returns [of "[Call 5 10, Call 6 10, Serve, Receive, Lose_Request]" 10 11, where f = "\<lambda>x. Inr (x + 1 :: nat)" and arg = "\<lambda>r. r" and now = "0xfffffffe"]
  by (simp add: within_def clocks_def del: fold_simps rpc_step.simps)

text \<open>A flaw of the numbering: when the one-byte number comes round to a call that is still pending, the new
  call is not entered, but its request is sent; the response is given to the old call, and the new call
  is never answered.\<close>

theorem rpc_number_reused:
  assumes "map_of (pendings (caller s)) (curId (caller s)) = Some p" "length (pendings (caller s)) \<le> kMaxParallel"
    and "sent (caller s) = []" "responses s = []"
  shows "let s' = fold (rpc_step f arg) [Call r tmo, Serve, Receive] s
    in answers (caller s') = answers (caller s) @ [(cb p, case f (arg r) of Inl msg \<Rightarrow> Failed msg | Inr d \<Rightarrow> Answer d)] \<and>
       set (pendings (caller s')) \<subseteq> set (pendings (caller s))"
proof -
  have "curId (caller s) \<in> fst ` set (pendings (caller s))" using assms(1) by (metis fst_conv image_eqI map_of_SomeD)
  then show ?thesis using assms
    by (auto simp: Rpc_invoke_def Let_def Rpc_serve_def Rpc_receive_def Rpc_onResponse_def Rpc_onFailure_def Rpc_finish_def split: sum.split)
qed

theorem rpc_number_reused_witness:
  "let s = \<lparr>caller = \<lparr>pendings = [(0, \<lparr>cb = 1, createdTick = 0, timeout = 10000\<rparr>)], curId = 0, answers = [], sent = []\<rparr>, responses = [], clock = 900\<rparr>;
       s' = fold (rpc_step (\<lambda>x. Inr (x + 1 :: nat)) (\<lambda>r. r)) [Call 300 10000, Serve, Receive] s
   in answers (caller s') = [(1, Answer 301)]"
  using rpc_number_reused [of "\<lparr>caller = \<lparr>pendings = [(0, \<lparr>cb = 1, createdTick = 0, timeout = 10000\<rparr>)], curId = 0, answers = [], sent = []\<rparr>, responses = [], clock = 900\<rparr>"
      "\<lparr>cb = 1, createdTick = 0, timeout = 10000\<rparr>" "\<lambda>x. Inr (x + 1 :: nat)" "\<lambda>r. r" 300 10000]
  by (simp add: Let_def kMaxParallel_def del: fold_simps rpc_step.simps)

end
