(* ===== verification/Remote.thy ===== *)
theory Remote
  imports Packet Pile
begin

text \<open>
  Commands from the upper to the lower board: \<^verbatim>\<open>applications/remote_thing.cxx\<close> turns the calls of the
  interface \<^verbatim>\<open>ThingBase\<close> into packets, \<^verbatim>\<open>applications/local_thing.cxx\<close> turns the packets into calls of the
  thing.  The events of the other direction and \<^verbatim>\<open>ReadConfig\<close>, a remote call, are left out.
\<close>

section \<open>Definitions\<close>

text \<open>The calls of \<^verbatim>\<open>ThingBase\<close>, and the thing itself.\<close>

datatype command = Query | Control u8 int int | Stop u8 int | Config dev_config

fun Thing_call :: "bool \<Rightarrow> command \<Rightarrow> thing \<Rightarrow> thing" where
  "Thing_call garbage Query t = Thing_query t"
| "Thing_call garbage (Control port tid minutes) t = Thing_control garbage (unat port) tid minutes t"
| "Thing_call garbage (Stop port tid) t = Thing_stop garbage (unat port) tid t"
| "Thing_call garbage (Config c) t = Thing_config c t"

text \<open>An \<^verbatim>\<open>int\<close> of 32 bits in memory.\<close>

definition of_int32 :: "int \<Rightarrow> val" where
  "of_int32 v = V_Arith (bytes32 (word_of_int v))"

fun to_int32 :: "val \<Rightarrow> int" where
  "to_int32 (V_Arith bs) = sint (of_bytes32 bs)"
| "to_int32 _ = 0"

text \<open>The structures of \<^verbatim>\<open>Rpcs::Services\<close>; \<^verbatim>\<open>Port::serialize\<close> writes the one byte of a port.\<close>

datatype service = S_Query | S_Control | S_Stop | S_Config

definition dev_config_ty :: ty where
  "dev_config_ty = Aggregate [Arith 4, Arith 4, Arith 4, Arith 4, Arith 4]"

fun service_ty :: "service \<Rightarrow> ty" where
  "service_ty S_Query = Aggregate []"
| "service_ty S_Control = Aggregate [Arith 1, Arith 4, Arith 4]"
| "service_ty S_Stop = Aggregate [Arith 1, Arith 4]"
| "service_ty S_Config = Aggregate [dev_config_ty]"

definition dev_config_val :: "dev_config \<Rightarrow> val" where
  "dev_config_val c = V_Aggregate [of_int32 (currentLimit c), of_int32 (uploadThr c), of_int32 (fuzedThr c),
     of_int32 (noloadCurrThr c), of_int32 (doneCurrThr c)]"

text \<open>\<open>hash\<close> gives the numbers of the four types.  \<^verbatim>\<open>RemoteThing\<close>: the bytes a call sends.\<close>

fun RemoteThing_call :: "bool \<Rightarrow> (service \<Rightarrow> u32) \<Rightarrow> u32 \<Rightarrow> command \<Rightarrow> u8 list" where
  "RemoteThing_call connected hash handshake Query = emit connected handshake (hash S_Query) (V_Aggregate [])"
| "RemoteThing_call connected hash handshake (Control port tid minutes) =
     emit connected handshake (hash S_Control) (V_Aggregate [V_Arith [port], of_int32 tid, of_int32 minutes])"
| "RemoteThing_call connected hash handshake (Stop port tid) =
     emit connected handshake (hash S_Stop) (V_Aggregate [V_Arith [port], of_int32 tid])"
| "RemoteThing_call connected hash handshake (Config c) =
     emit connected handshake (hash S_Config) (V_Aggregate [dev_config_val c])"

text \<open>\<^verbatim>\<open>LocalThing::LocalThing\<close>: registration, in the order of the source, and the callbacks.\<close>

definition LocalThing_register :: "(service \<Rightarrow> u32) \<Rightarrow> type_infos \<Rightarrow> type_infos option" where
  "LocalThing_register hash ti =
     Option.bind (on (hash S_Control) (service_ty S_Control) ti) (\<lambda>ti.
     Option.bind (on (hash S_Stop) (service_ty S_Stop) ti) (\<lambda>ti.
     Option.bind (on (hash S_Config) (service_ty S_Config) ti) (\<lambda>ti.
       on (hash S_Query) (service_ty S_Query) ti)))"

definition dev_config_of :: "val list \<Rightarrow> dev_config" where
  "dev_config_of vs = \<lparr>currentLimit = to_int32 (vs ! 0), uploadThr = to_int32 (vs ! 1), fuzedThr = to_int32 (vs ! 2),
     noloadCurrThr = to_int32 (vs ! 3), doneCurrThr = to_int32 (vs ! 4)\<rparr>"

definition LocalThing_on :: "bool \<Rightarrow> (service \<Rightarrow> u32) \<Rightarrow> u32 \<times> val \<Rightarrow> thing \<Rightarrow> thing" where
  "LocalThing_on garbage hash p t =
     (case snd p of
        V_Aggregate vs \<Rightarrow>
          if fst p = hash S_Control
          then case vs of [V_Arith [port], tid, minutes] \<Rightarrow> Thing_control garbage (unat port) (to_int32 tid) (to_int32 minutes) t | _ \<Rightarrow> t
          else if fst p = hash S_Stop
          then case vs of [V_Arith [port], tid] \<Rightarrow> Thing_stop garbage (unat port) (to_int32 tid) t | _ \<Rightarrow> t
          else if fst p = hash S_Config
          then case vs of [V_Aggregate us] \<Rightarrow> Thing_config (dev_config_of us) t | _ \<Rightarrow> t
          else if fst p = hash S_Query then Thing_query t
          else t
      | _ \<Rightarrow> t)"

section \<open>Values on their way\<close>

definition is_int32 :: "int \<Rightarrow> bool" where
  "is_int32 v \<longleftrightarrow> - (2 ^ 31) \<le> v \<and> v < 2 ^ 31"

fun command_ok :: "command \<Rightarrow> bool" where
  "command_ok Query \<longleftrightarrow> True"
| "command_ok (Control port tid minutes) \<longleftrightarrow> is_int32 tid \<and> is_int32 minutes"
| "command_ok (Stop port tid) \<longleftrightarrow> is_int32 tid"
| "command_ok (Config c) \<longleftrightarrow> is_int32 (currentLimit c) \<and> is_int32 (uploadThr c) \<and> is_int32 (fuzedThr c)
     \<and> is_int32 (noloadCurrThr c) \<and> is_int32 (doneCurrThr c)"

lemma int32_roundtrip [simp]: "is_int32 v \<Longrightarrow> to_int32 (of_int32 v) = v"
  by (simp add: of_int32_def is_int32_def sint_sbintrunc' signed_take_bit_int_eq_self)

lemma of_int32_ty [simp]: "has_ty (Arith 4) (of_int32 v)"
  by (simp add: of_int32_def bytes32_def)

text \<open>The message of a command.\<close>

fun message :: "(service \<Rightarrow> u32) \<Rightarrow> command \<Rightarrow> u32 \<times> val" where
  "message hash Query = (hash S_Query, V_Aggregate [])"
| "message hash (Control port tid minutes) = (hash S_Control, V_Aggregate [V_Arith [port], of_int32 tid, of_int32 minutes])"
| "message hash (Stop port tid) = (hash S_Stop, V_Aggregate [V_Arith [port], of_int32 tid])"
| "message hash (Config c) = (hash S_Config, V_Aggregate [dev_config_val c])"

lemma call_message: "RemoteThing_call connected hash handshake c = (case message hash c of (h, v) \<Rightarrow> emit connected handshake h v)"
  by (cases c) simp_all

lemma registered:
  assumes "LocalThing_register hash ti = Some ti'"
  shows "ti' (hash s) = Some (service_ty s)" "inj hash"
proof -
  have d: "distinct [hash S_Control, hash S_Stop, hash S_Config, hash S_Query]"
    and t: "ti' = ti(hash S_Control \<mapsto> service_ty S_Control, hash S_Stop \<mapsto> service_ty S_Stop,
      hash S_Config \<mapsto> service_ty S_Config, hash S_Query \<mapsto> service_ty S_Query)"
    using assms by (auto simp: LocalThing_register_def on_def bind_eq_Some_conv split: if_splits)
  show "ti' (hash s) = Some (service_ty s)" using d unfolding t by (cases s) auto
  show "inj hash"
  proof (rule injI)
    fix x y
    assume "hash x = hash y"
    then show "x = y" using d by (cases x; cases y) auto
  qed
qed

lemma message_typed:
  assumes "LocalThing_register hash ti = Some ti'"
  shows "\<exists>t. ti' (fst (message hash c)) = Some t \<and> has_ty t (snd (message hash c))"
  by (cases c) (simp_all add: registered(1) [OF assms] dev_config_ty_def dev_config_val_def)

lemma LocalThing_message:
  assumes "LocalThing_register hash ti = Some ti'" "command_ok c"
  shows "LocalThing_on g hash (message hash c) t = Thing_call g c t"
proof -
  have i: "hash x = hash y \<longleftrightarrow> x = y" for x y using registered(2) [OF assms(1)] by (auto dest: injD)
  show ?thesis using assms(2)
  proof (cases c)
    case (Config d)
    then show ?thesis using assms(2) by (cases d) (simp add: LocalThing_on_def i dev_config_val_def dev_config_of_def)
  qed (simp_all add: LocalThing_on_def i)
qed

lemma remote_commands:
  assumes "LocalThing_register hash ti = Some ti'" "\<forall>c \<in> set cs. command_ok c" "noise gs"
  shows "fold (LocalThing_on garbage hash) (packet_loop z ti' (gs @ concat (map (RemoteThing_call True hash handshake) cs))) t =
    fold (Thing_call garbage) cs t"
proof -
  have "packet_loop z ti' (gs @ concat (map (RemoteThing_call True hash handshake) cs)) = map (message hash) cs"
    using packet_loop_messages [OF assms(3), of "map (message hash) cs" ti' z handshake] message_typed [OF assms(1)]
    by (simp add: call_message [abs_def] comp_def)
  moreover have "fold (LocalThing_on garbage hash) (map (message hash) cs) t = fold (Thing_call garbage) cs t" for t
    using assms(2) by (induction cs arbitrary: t) (simp_all add: LocalThing_message [OF assms(1)])
  ultimately show ?thesis by simp
qed

section \<open>Properties\<close>


definition sample_hash :: "service \<Rightarrow> u32" where
  "sample_hash s = (case s of S_Query \<Rightarrow> 0x1001 | S_Control \<Rightarrow> 0xa5a5a5a5 | S_Stop \<Rightarrow> 0xff | S_Config \<Rightarrow> 4)"


end
