(* ===== verification/Flashdev.thy ===== *)
theory Flashdev
  imports Alloc
begin

text \<open>
  What a flash device promises to the layers above it: the flash abstraction layer and, through it,
  the stored configuration and the firmware update.  An operation returns the number of bytes or a
  negative error code; the promises about the other bytes of the device hold in every case, those
  about the bytes addressed only when the operation reports success.
\<close>

section \<open>Rounding up\<close>

definition up :: "nat \<Rightarrow> nat \<Rightarrow> nat" where
  "up g n = g * ((n + g - 1) div g)"

lemma up_ge: "0 < g \<Longrightarrow> n \<le> up g n"
proof -
  assume g: "0 < g"
  have "n + g - 1 = g * ((n + g - 1) div g) + (n + g - 1) mod g" by simp
  moreover have "(n + g - 1) mod g < g" using g by simp
  ultimately show ?thesis unfolding up_def by linarith
qed

lemma up_less: "0 < g \<Longrightarrow> up g n < n + g"
  using times_div_less_eq_dividend [of g "n + g - 1"] unfolding up_def by linarith

lemma up_dvd [simp]: "g dvd up g n"
  by (simp add: up_def)

lemma up_0 [simp]: "up g 0 = 0"
  by (cases g) (simp_all add: up_def)

lemma up_le: "0 < g \<Longrightarrow> g dvd m \<Longrightarrow> n \<le> m \<Longrightarrow> up g n \<le> m"
proof -
  assume a: "0 < g" "g dvd m" "n \<le> m"
  then obtain k where "m = g * k" by (elim dvdE)
  moreover obtain j where "up g n = g * j" using up_dvd by (metis dvdE)
  ultimately show ?thesis using up_less [OF a(1), of n] a
    by (metis add.commute add_less_cancel_left leD le_add1 linorder_not_le mult_Suc_right mult_le_mono2
        not_less_eq_eq order_less_le_trans)
qed

lemma up_id: "0 < g \<Longrightarrow> g dvd n \<Longrightarrow> up g n = n"
  using up_le [of g n n] up_ge [of g n] by simp

section \<open>The interface\<close>

text \<open>\<open>bytes\<close> is the content of the device, \<open>cap\<close> its size; erasing works in units of \<open>gran\<close> bytes and
  writing in units of \<open>wgran\<close>.  A byte can be written once after an erase.\<close>

locale flash_dev =
  fixes wr :: "nat \<Rightarrow> memory \<Rightarrow> nat \<Rightarrow> 's \<Rightarrow> int \<times> 's"
    and er :: "nat \<Rightarrow> nat \<Rightarrow> 's \<Rightarrow> int \<times> 's"
    and rd :: "nat \<Rightarrow> nat \<Rightarrow> 's \<Rightarrow> int \<times> u8 list"
    and bytes :: "'s \<Rightarrow> memory" and ok :: "'s \<Rightarrow> bool" and gran wgran cap :: nat
  assumes gran_pos: "0 < gran" "0 < wgran" "wgran dvd gran"
    and erase_ok: "\<lbrakk>ok s; er a n s = (r, s'); a + n \<le> cap; gran dvd a\<rbrakk> \<Longrightarrow> ok s'"
    and erase_frame: "\<lbrakk>ok s; er a n s = (r, s'); a + n \<le> cap; gran dvd a; x < a \<or> a + up gran n \<le> x\<rbrakk> \<Longrightarrow>
        bytes s' x = bytes s x"
    and erase_done: "\<lbrakk>ok s; er a n s = (r, s'); a + n \<le> cap; gran dvd a; 0 \<le> r; a \<le> x; x < a + up gran n\<rbrakk> \<Longrightarrow>
        bytes s' x = 0xFF"
    and write_ok: "\<lbrakk>ok s; wr a buf n s = (r, s'); a + n \<le> cap\<rbrakk> \<Longrightarrow> ok s'"
    and write_frame: "\<lbrakk>ok s; wr a buf n s = (r, s'); a + n \<le> cap; x < a \<or> a + up wgran n \<le> x\<rbrakk> \<Longrightarrow>
        bytes s' x = bytes s x"
    and write_done: "\<lbrakk>ok s; wr a buf n s = (r, s'); a + n \<le> cap; 0 \<le> r;
        \<And>j. j < up wgran n \<Longrightarrow> bytes s (a + j) = 0xFF; k < n\<rbrakk> \<Longrightarrow> bytes s' (a + k) = buf k"
    and read_done: "\<lbrakk>ok s; a + n \<le> cap\<rbrakk> \<Longrightarrow> rd a n s = (int n, map (bytes s) [a ..< a + n])"
begin

text \<open>Erasing a range and then writing it stores the data.\<close>

lemma erase_write:
  assumes "ok s" "gran dvd a" "a + n \<le> cap" "er a n s = (r1, s1)" "0 \<le> r1" "wr a buf n s1 = (r2, s2)" "0 \<le> r2"
  shows "ok s2" "rd a n s2 = (int n, map buf [0 ..< n])"
proof -
  have 1: "ok s1" using assms erase_ok by blast
  then show 2: "ok s2" using assms write_ok by blast
  have b: "bytes s1 (a + j) = 0xFF" if "j < up wgran n" for j
  proof -
    have "up wgran n \<le> up gran n"
      using gran_pos up_ge [of gran n] dvd_trans [OF gran_pos(3) up_dvd [of gran n]] by (intro up_le) auto
    then show ?thesis using erase_done [OF assms(1,4,3,2,5), of "a + j"] that by simp
  qed
  have "bytes s2 (a + k) = buf k" if "k < n" for k
    using write_done [OF 1 assms(6,3,7) b that] .
  then show "rd a n s2 = (int n, map buf [0 ..< n])"
    unfolding read_done [OF 2 assms(3)] by (auto intro!: nth_equalityI)
qed

end

text \<open>A device on which no operation fails: \<open>good\<close> is what the state has to keep for that.  Writing the
  content a range already has, which happens when an acknowledgement is lost, does no harm.\<close>

locale good_dev = flash_dev wr er rd bytes ok gran wgran cap
  for wr :: "nat \<Rightarrow> memory \<Rightarrow> nat \<Rightarrow> 's \<Rightarrow> int \<times> 's" and er rd bytes ok gran wgran cap +
  fixes good :: "'s \<Rightarrow> bool"
  assumes good_ok: "good s \<Longrightarrow> ok s"
    and erase_good: "\<lbrakk>good s; er a n s = (r, s'); a + n \<le> cap; gran dvd a\<rbrakk> \<Longrightarrow> good s'"
    and erase_works: "\<lbrakk>good s; a + n \<le> cap; gran dvd a; 0 < n\<rbrakk> \<Longrightarrow> 0 \<le> fst (er a n s)"
    and write_works: "\<lbrakk>good s; a + n \<le> cap; wgran dvd a; \<And>j. j < up wgran n \<Longrightarrow> bytes s (a + j) = 0xFF\<rbrakk> \<Longrightarrow>
        \<exists>s'. wr a buf n s = (int n, s') \<and> good s'"
    and write_again: "\<lbrakk>good s; a + n \<le> cap; wgran dvd a; wgran dvd n; \<And>j. j < n \<Longrightarrow> bytes s (a + j) = buf j;
        wr a buf n s = (r, s')\<rbrakk> \<Longrightarrow> good s' \<and> bytes s' = bytes s"
begin

lemma write_stored:
  assumes "good s" "a + n \<le> cap" "wgran dvd a" "\<And>j. j < up wgran n \<Longrightarrow> bytes s (a + j) = 0xFF" "wr a buf n s = (r, s')"
  shows "good s'" "k < n \<Longrightarrow> bytes s' (a + k) = buf k" "x < a \<or> a + up wgran n \<le> x \<Longrightarrow> bytes s' x = bytes s x"
proof -
  obtain s2 where "wr a buf n s = (int n, s2)" "good s2" using write_works [OF assms(1-4)] by blast
  then have r: "r = int n" "s2 = s'" and g: "good s'" using assms(5) by auto
  show "good s'" by fact
  show "k < n \<Longrightarrow> bytes s' (a + k) = buf k"
    using write_done [OF good_ok [OF assms(1)] assms(5,2) _ assms(4)] r(1) by simp
  show "x < a \<or> a + up wgran n \<le> x \<Longrightarrow> bytes s' x = bytes s x"
    using write_frame [OF good_ok [OF assms(1)] assms(5,2)] by blast
qed

end

end
