(* ===== verification/Onchip.thy ===== *)
theory Onchip
  imports Flashdev
begin

text \<open>
  The driver of the microcontroller's own flash, \<^verbatim>\<open>drivers/drv_flash_f1.c\<close>, with the two routines of
  the vendor library it stands on (\<^verbatim>\<open>HAL_FLASH_Program\<close>, \<^verbatim>\<open>HAL_FLASHEx_Erase\<close>), as built for the
  STM32F103xE: one bank, pages of 2048 bytes.  The flash controller is hardware and therefore a
  parameter: a record of its register accesses.  What the driver relies on is the predicate
  \<open>flash_controller\<close> (what the reference manual says of an operation that ends, well or not), and
  \<open>working_controller\<close> (in addition, that no operation fails).  Addresses and sizes are natural
  numbers; sums are taken modulo \<open>2 ^ 32\<close> wherever the code compares them.
\<close>

section \<open>The flash controller\<close>

datatype hal_status = HAL_OK | HAL_ERROR | HAL_BUSY | HAL_TIMEOUT

text \<open>The bits of the status register that the library looks at.\<close>

record sr =
  EOP :: bool
  WRPERR :: bool
  OPTVERR :: bool
  PGERR :: bool

text \<open>
  Register accesses: \<open>start_program\<close> sets the bit \<^verbatim>\<open>PG\<close> and stores a half-word, \<open>start_erase\<close> sets
  \<^verbatim>\<open>PER\<close>, the page address and \<^verbatim>\<open>STRT\<close>; \<open>settle\<close> polls the busy flag and gives the status register
  once it is clear, or nothing if it is still set when the time-out is over; \<open>clear_sr\<close> and
  \<open>clear_cr\<close> clear flags; \<open>write_keys\<close>, \<open>set_lock\<close> and \<open>lock_bit\<close> belong to the write protection;
  \<open>cells\<close> is the memory as the processor reads it.
\<close>

record 'c hw =
  start_program :: "nat \<Rightarrow> u16 \<Rightarrow> 'c \<Rightarrow> 'c"
  start_erase :: "nat \<Rightarrow> 'c \<Rightarrow> 'c"
  settle :: "'c \<Rightarrow> (sr \<times> 'c) option"
  clear_sr :: "'c \<Rightarrow> 'c"
  clear_cr :: "'c \<Rightarrow> 'c"
  write_keys :: "'c \<Rightarrow> 'c"
  set_lock :: "'c \<Rightarrow> 'c"
  lock_bit :: "'c \<Rightarrow> bool"
  cells :: "'c \<Rightarrow> memory"

text \<open>\<^verbatim>\<open>pFlash\<close>: the software lock of the library, with the controller.\<close>

record 'c flash =
  Lock :: bool
  chip :: 'c

definition FLASH_WaitForLastOperation :: "'c hw \<Rightarrow> 'c \<Rightarrow> hal_status \<times> 'c" where
  "FLASH_WaitForLastOperation hw c =
     (case settle hw c of
        None \<Rightarrow> (HAL_TIMEOUT, c)
      | Some (f, c1) \<Rightarrow>
          (let c2 = (if EOP f then clear_sr hw c1 else c1)
           in if WRPERR f \<or> OPTVERR f \<or> PGERR f then (HAL_ERROR, clear_sr hw c2) else (HAL_OK, c2)))"

section \<open>The vendor library\<close>

definition HAL_FLASH_Unlock :: "'c hw \<Rightarrow> 'c flash \<Rightarrow> hal_status \<times> 'c flash" where
  "HAL_FLASH_Unlock hw s =
     (if lock_bit hw (chip s)
      then (let c = write_keys hw (chip s)
            in (if lock_bit hw c then HAL_ERROR else HAL_OK, s\<lparr>chip := c\<rparr>))
      else (HAL_OK, s))"

definition HAL_FLASH_Lock :: "'c hw \<Rightarrow> 'c flash \<Rightarrow> hal_status \<times> 'c flash" where
  "HAL_FLASH_Lock hw s = (HAL_OK, s\<lparr>chip := set_lock hw (chip s)\<rparr>)"

datatype type_program = HALFWORD | WORD | DOUBLEWORD

fun nbiterations :: "type_program \<Rightarrow> nat" where
  "nbiterations HALFWORD = 1"
| "nbiterations WORD = 2"
| "nbiterations DOUBLEWORD = 4"

text \<open>The half-words from \<open>index\<close> on, \<open>n\<close> of them.\<close>

fun program_halves :: "'c hw \<Rightarrow> nat \<Rightarrow> 64 word \<Rightarrow> nat \<Rightarrow> nat \<Rightarrow> 'c \<Rightarrow> hal_status \<times> 'c" where
  "program_halves hw a d index 0 c = (HAL_OK, c)"
| "program_halves hw a d index (Suc n) c =
     (let c1 = start_program hw (a + 2 * index) (ucast (drop_bit (16 * index) d)) c;
          (status, c2) = FLASH_WaitForLastOperation hw c1;
          c3 = clear_cr hw c2
      in if status \<noteq> HAL_OK then (status, c3) else program_halves hw a d (index + 1) n c3)"

definition HAL_FLASH_Program :: "'c hw \<Rightarrow> type_program \<Rightarrow> nat \<Rightarrow> 64 word \<Rightarrow> 'c flash \<Rightarrow> hal_status \<times> 'c flash" where
  "HAL_FLASH_Program hw ty a d s =
     (if Lock s then (HAL_BUSY, s)
      else (let (status, c) = FLASH_WaitForLastOperation hw (chip s);
                (status', c') = (if status = HAL_OK then program_halves hw a d 0 (nbiterations ty) c else (status, c))
            in (status', s\<lparr>chip := c'\<rparr>)))"

abbreviation (input) FLASH_PAGE_SIZE :: nat where "FLASH_PAGE_SIZE \<equiv> 2048"

text \<open>The pages from \<open>address\<close> up to \<open>stop\<close>; \<open>status\<close> is what the loop has set it to so far.\<close>

function erase_pages :: "'c hw \<Rightarrow> nat \<Rightarrow> nat \<Rightarrow> hal_status \<Rightarrow> 'c \<Rightarrow> hal_status \<times> 'c" where
  "erase_pages hw address stop status c =
     (if address < stop
      then (let c1 = start_erase hw address c;
                (status', c2) = FLASH_WaitForLastOperation hw c1;
                c3 = clear_cr hw c2
            in if status' \<noteq> HAL_OK then (status', c3)
               else erase_pages hw (address + FLASH_PAGE_SIZE) stop status' c3)
      else (status, c))"
  by pat_completeness auto
termination by (relation "measure (\<lambda>(hw, address, stop, status, c). stop - address)") auto

declare erase_pages.simps [simp del]

text \<open>The page branch of \<^verbatim>\<open>HAL_FLASHEx_Erase\<close>.  The end of the range is a 32-bit sum.\<close>

definition HAL_FLASHEx_Erase :: "'c hw \<Rightarrow> nat \<Rightarrow> nat \<Rightarrow> 'c flash \<Rightarrow> hal_status \<times> 'c flash" where
  "HAL_FLASHEx_Erase hw PageAddress NbPages s =
     (if Lock s then (HAL_BUSY, s)
      else (let (status, c) = FLASH_WaitForLastOperation hw (chip s);
                (status', c') = (if status = HAL_OK
                  then erase_pages hw PageAddress ((NbPages * FLASH_PAGE_SIZE + PageAddress) mod 2 ^ 32) HAL_ERROR c
                  else (HAL_ERROR, c))
            in (status', s\<lparr>chip := c'\<rparr>)))"

section \<open>The driver\<close>

abbreviation (input) STM32_FLASH_START_ADRESS :: nat where "STM32_FLASH_START_ADRESS \<equiv> 0x08000000"
abbreviation (input) STM32_FLASH_SIZE :: nat where "STM32_FLASH_SIZE \<equiv> 512 * 1024"
abbreviation (input) STM32_FLASH_END_ADDRESS :: nat where "STM32_FLASH_END_ADDRESS \<equiv> 0x08080000"

definition RT_EINVAL :: rt_err where "RT_EINVAL = 10"

text \<open>A \<^verbatim>\<open>size_t\<close> returned as an \<^verbatim>\<open>int\<close>.\<close>

definition size_int :: "nat \<Rightarrow> int" where "size_int n = sint (word_of_nat n :: u32)"

definition GetPage :: "nat \<Rightarrow> nat" where "GetPage addr = addr - addr mod FLASH_PAGE_SIZE"

definition stm32_flash_read :: "'c hw \<Rightarrow> nat \<Rightarrow> nat \<Rightarrow> 'c flash \<Rightarrow> int \<times> u8 list" where
  "stm32_flash_read hw addr sz s =
     (if STM32_FLASH_END_ADDRESS < (addr + sz) mod 2 ^ 32 then (- RT_EINVAL, [])
      else (size_int sz, map (cells hw (chip s)) [addr ..< addr + sz]))"

text \<open>The words from \<open>addr\<close> up to \<open>end_addr\<close>; \<open>buf\<close> is the memory of the caller from the buffer on.\<close>

function write_words :: "'c hw \<Rightarrow> nat \<Rightarrow> nat \<Rightarrow> memory \<Rightarrow> nat \<Rightarrow> 'c flash \<Rightarrow> rt_err \<times> 'c flash" where
  "write_words hw addr end_addr buf i s =
     (if addr < end_addr
      then (let (status, s1) = HAL_FLASH_Program hw WORD addr (ucast (ld32 buf i)) s
            in if status = HAL_OK
               then (if ld32 (cells hw (chip s1)) addr \<noteq> ld32 buf i then (- RT_ERROR, s1)
                     else write_words hw (addr + 4) end_addr buf (i + 4) s1)
               else (- RT_ERROR, s1))
      else (RT_EOK, s))"
  by pat_completeness auto
termination by (relation "measure (\<lambda>(hw, addr, end_addr, buf, i, s). end_addr - addr)") auto

declare write_words.simps [simp del]

definition stm32_flash_write :: "'c hw \<Rightarrow> nat \<Rightarrow> memory \<Rightarrow> nat \<Rightarrow> 'c flash \<Rightarrow> int \<times> 'c flash" where
  "stm32_flash_write hw addr buf sz s =
     (let end_addr = (addr + sz) mod 2 ^ 32
      in if addr mod 4 \<noteq> 0 then (- RT_EINVAL, s)
         else if STM32_FLASH_END_ADDRESS < end_addr then (- RT_EINVAL, s)
         else (let s1 = snd (HAL_FLASH_Unlock hw s);
                   (result, s2) = write_words hw addr end_addr buf 0 s1;
                   s3 = snd (HAL_FLASH_Lock hw s2)
               in (if result \<noteq> RT_EOK then result else size_int sz, s3)))"

definition stm32_flash_erase_bank :: "'c hw \<Rightarrow> nat \<Rightarrow> nat \<Rightarrow> 'c flash \<Rightarrow> int \<times> 'c flash" where
  "stm32_flash_erase_bank hw addr sz s =
     (if STM32_FLASH_END_ADDRESS < (addr + sz) mod 2 ^ 32 then (- RT_EINVAL, s)
      else (let s1 = snd (HAL_FLASH_Unlock hw s);
                (status, s2) = HAL_FLASHEx_Erase hw (GetPage addr)
                   (((sz + FLASH_PAGE_SIZE - 1) mod 2 ^ 32) div FLASH_PAGE_SIZE) s1;
                s3 = snd (HAL_FLASH_Lock hw s2)
            in (if status \<noteq> HAL_OK then - RT_ERROR else size_int sz, s3)))"

text \<open>One bank only: \<^verbatim>\<open>FLASH_BANK2_END\<close> is not defined for this part.\<close>

definition stm32_flash_erase :: "'c hw \<Rightarrow> nat \<Rightarrow> nat \<Rightarrow> 'c flash \<Rightarrow> int \<times> 'c flash" where
  "stm32_flash_erase hw addr sz s = stm32_flash_erase_bank hw addr sz s"

text \<open>The operations registered with the flash abstraction layer: offsets into the flash.\<close>

definition fal_flash_read :: "'c hw \<Rightarrow> nat \<Rightarrow> nat \<Rightarrow> 'c flash \<Rightarrow> int \<times> u8 list" where
  "fal_flash_read hw offset sz s = stm32_flash_read hw ((STM32_FLASH_START_ADRESS + offset) mod 2 ^ 32) sz s"

definition fal_flash_write :: "'c hw \<Rightarrow> nat \<Rightarrow> memory \<Rightarrow> nat \<Rightarrow> 'c flash \<Rightarrow> int \<times> 'c flash" where
  "fal_flash_write hw offset buf sz s = stm32_flash_write hw ((STM32_FLASH_START_ADRESS + offset) mod 2 ^ 32) buf sz s"

definition fal_flash_erase :: "'c hw \<Rightarrow> nat \<Rightarrow> nat \<Rightarrow> 'c flash \<Rightarrow> int \<times> 'c flash" where
  "fal_flash_erase hw offset sz s = stm32_flash_erase hw ((STM32_FLASH_START_ADRESS + offset) mod 2 ^ 32) sz s"

section \<open>What the driver relies on\<close>

definition no_error :: "sr \<Rightarrow> bool" where
  "no_error f \<longleftrightarrow> \<not> WRPERR f \<and> \<not> OPTVERR f \<and> \<not> PGERR f"

text \<open>
  Programming touches the two bytes of the half-word and erasing the bytes of one page, whether the
  operation succeeds or not; an erase that ends without an error flag, with the controller unlocked,
  has set every byte of the page; the key sequence unlocks; nothing else changes the memory.
\<close>

definition flash_controller :: "'c hw \<Rightarrow> bool" where
  "flash_controller hw \<longleftrightarrow>
     (\<forall>c f c'. settle hw c = Some (f, c') \<longrightarrow> cells hw c' = cells hw c \<and> lock_bit hw c' = lock_bit hw c) \<and>
     (\<forall>c. cells hw (clear_sr hw c) = cells hw c \<and> lock_bit hw (clear_sr hw c) = lock_bit hw c) \<and>
     (\<forall>c. cells hw (clear_cr hw c) = cells hw c \<and> lock_bit hw (clear_cr hw c) = lock_bit hw c) \<and>
     (\<forall>c. cells hw (write_keys hw c) = cells hw c \<and> \<not> lock_bit hw (write_keys hw c)) \<and>
     (\<forall>c. cells hw (set_lock hw c) = cells hw c) \<and>
     (\<forall>a d c. lock_bit hw (start_program hw a d c) = lock_bit hw c) \<and>
     (\<forall>a c. lock_bit hw (start_erase hw a c) = lock_bit hw c) \<and>
     (\<forall>a d c x. x \<noteq> a \<and> x \<noteq> a + 1 \<longrightarrow> cells hw (start_program hw a d c) x = cells hw c x) \<and>
     (\<forall>a c x. x < GetPage a \<or> GetPage a + FLASH_PAGE_SIZE \<le> x \<longrightarrow> cells hw (start_erase hw a c) x = cells hw c x) \<and>
     (\<forall>a c f c' x. \<not> lock_bit hw c \<and> settle hw (start_erase hw a c) = Some (f, c') \<and> no_error f \<and>
         GetPage a \<le> x \<and> x < GetPage a + FLASH_PAGE_SIZE \<longrightarrow> cells hw c' x = 0xFF)"

text \<open>No operation fails: the controller is never found busy at the time-out or with an error flag,
  as long as half-words are programmed only where they are erased.  Programming a half-word with the
  value it has does not change it, even if it ends with an error; errors can be cleared.\<close>

definition ready :: "'c hw \<Rightarrow> 'c \<Rightarrow> bool" where
  "ready hw c \<longleftrightarrow> (\<exists>f c'. settle hw c = Some (f, c') \<and> no_error f)"

definition working_controller :: "'c hw \<Rightarrow> bool" where
  "working_controller hw \<longleftrightarrow> flash_controller hw \<and>
     (\<forall>c f c'. settle hw c = Some (f, c') \<and> no_error f \<longrightarrow> ready hw c') \<and>
     (\<forall>c. ready hw c \<longrightarrow> ready hw (clear_sr hw c) \<and> ready hw (clear_cr hw c) \<and>
        ready hw (write_keys hw c) \<and> ready hw (set_lock hw c)) \<and>
     (\<forall>c f c'. settle hw c = Some (f, c') \<longrightarrow> ready hw (clear_sr hw c')) \<and>
     (\<forall>a c. ready hw c \<and> \<not> lock_bit hw c \<longrightarrow> ready hw (start_erase hw a c)) \<and>
     (\<forall>a d c. ready hw c \<and> \<not> lock_bit hw c \<and> cells hw c a = ucast d \<and> cells hw c (a + 1) = ucast (drop_bit 8 d) \<longrightarrow>
        settle hw (start_program hw a d c) \<noteq> None \<and> cells hw (start_program hw a d c) = cells hw c) \<and>
     (\<forall>a d c. ready hw c \<and> \<not> lock_bit hw c \<and> cells hw c a = 0xFF \<and> cells hw c (a + 1) = 0xFF \<longrightarrow>
        ready hw (start_program hw a d c) \<and> cells hw (start_program hw a d c) = st16 a d (cells hw c))"

lemma flash_controllerD:
  assumes "flash_controller hw"
  shows "settle hw c = Some (f, c') \<Longrightarrow> cells hw c' = cells hw c \<and> lock_bit hw c' = lock_bit hw c"
    and "cells hw (clear_sr hw c) = cells hw c" and "lock_bit hw (clear_sr hw c) = lock_bit hw c"
    and "cells hw (clear_cr hw c) = cells hw c" and "lock_bit hw (clear_cr hw c) = lock_bit hw c"
    and "cells hw (write_keys hw c) = cells hw c" and "\<not> lock_bit hw (write_keys hw c)"
    and "cells hw (set_lock hw c) = cells hw c"
    and "lock_bit hw (start_program hw a d c) = lock_bit hw c"
    and "lock_bit hw (start_erase hw a c) = lock_bit hw c"
    and "x \<noteq> a \<Longrightarrow> x \<noteq> a + 1 \<Longrightarrow> cells hw (start_program hw a d c) x = cells hw c x"
    and "x < GetPage a \<or> GetPage a + FLASH_PAGE_SIZE \<le> x \<Longrightarrow> cells hw (start_erase hw a c) x = cells hw c x"
    and "\<not> lock_bit hw c \<Longrightarrow> settle hw (start_erase hw a c) = Some (f, c') \<Longrightarrow> no_error f \<Longrightarrow>
         GetPage a \<le> x \<Longrightarrow> x < GetPage a + FLASH_PAGE_SIZE \<Longrightarrow> cells hw c' x = 0xFF"
proof -
  note A = assms [unfolded flash_controller_def]
  show "settle hw c = Some (f, c') \<Longrightarrow> cells hw c' = cells hw c \<and> lock_bit hw c' = lock_bit hw c"
    using A [THEN conjunct1] by blast
  show "cells hw (clear_sr hw c) = cells hw c"
    using A [THEN conjunct2, THEN conjunct1] by blast
  show "lock_bit hw (clear_sr hw c) = lock_bit hw c"
    using A [THEN conjunct2, THEN conjunct1] by blast
  show "cells hw (clear_cr hw c) = cells hw c"
    using A [THEN conjunct2, THEN conjunct2, THEN conjunct1] by blast
  show "lock_bit hw (clear_cr hw c) = lock_bit hw c"
    using A [THEN conjunct2, THEN conjunct2, THEN conjunct1] by blast
  show "cells hw (write_keys hw c) = cells hw c"
    using A [THEN conjunct2, THEN conjunct2, THEN conjunct2, THEN conjunct1] by blast
  show "\<not> lock_bit hw (write_keys hw c)"
    using A [THEN conjunct2, THEN conjunct2, THEN conjunct2, THEN conjunct1] by blast
  show "cells hw (set_lock hw c) = cells hw c"
    using A [THEN conjunct2, THEN conjunct2, THEN conjunct2, THEN conjunct2, THEN conjunct1] by blast
  show "lock_bit hw (start_program hw a d c) = lock_bit hw c"
    using A [THEN conjunct2, THEN conjunct2, THEN conjunct2, THEN conjunct2, THEN conjunct2, THEN conjunct1] by blast
  show "lock_bit hw (start_erase hw a c) = lock_bit hw c"
    using A [THEN conjunct2, THEN conjunct2, THEN conjunct2, THEN conjunct2, THEN conjunct2, THEN conjunct2, THEN conjunct1] by blast
  show "x \<noteq> a \<Longrightarrow> x \<noteq> a + 1 \<Longrightarrow> cells hw (start_program hw a d c) x = cells hw c x"
    using A [THEN conjunct2, THEN conjunct2, THEN conjunct2, THEN conjunct2, THEN conjunct2, THEN conjunct2, THEN conjunct2, THEN conjunct1] by blast
  show "x < GetPage a \<or> GetPage a + FLASH_PAGE_SIZE \<le> x \<Longrightarrow> cells hw (start_erase hw a c) x = cells hw c x"
    using A [THEN conjunct2, THEN conjunct2, THEN conjunct2, THEN conjunct2, THEN conjunct2, THEN conjunct2, THEN conjunct2, THEN conjunct2, THEN conjunct1] by blast
  show "\<not> lock_bit hw c \<Longrightarrow> settle hw (start_erase hw a c) = Some (f, c') \<Longrightarrow> no_error f \<Longrightarrow>
         GetPage a \<le> x \<Longrightarrow> x < GetPage a + FLASH_PAGE_SIZE \<Longrightarrow> cells hw c' x = 0xFF"
    using A [THEN conjunct2, THEN conjunct2, THEN conjunct2, THEN conjunct2, THEN conjunct2, THEN conjunct2, THEN conjunct2, THEN conjunct2, THEN conjunct2] by blast
qed

lemma working_controllerD:
  assumes "working_controller hw"
  shows "flash_controller hw"
    and "settle hw c = Some (f, c') \<Longrightarrow> no_error f \<Longrightarrow> ready hw c'"
    and "ready hw c \<Longrightarrow> ready hw (clear_sr hw c)" and "ready hw c \<Longrightarrow> ready hw (clear_cr hw c)"
    and "ready hw c \<Longrightarrow> ready hw (write_keys hw c)" and "ready hw c \<Longrightarrow> ready hw (set_lock hw c)"
    and "ready hw c \<Longrightarrow> \<not> lock_bit hw c \<Longrightarrow> ready hw (start_erase hw a c)"
    and "ready hw c \<Longrightarrow> \<not> lock_bit hw c \<Longrightarrow> cells hw c a = 0xFF \<Longrightarrow> cells hw c (a + 1) = 0xFF \<Longrightarrow>
        ready hw (start_program hw a d c) \<and> cells hw (start_program hw a d c) = st16 a d (cells hw c)"
    and "settle hw c = Some (f, c') \<Longrightarrow> ready hw (clear_sr hw c')"
    and "ready hw c \<Longrightarrow> \<not> lock_bit hw c \<Longrightarrow> cells hw c a = ucast d \<Longrightarrow> cells hw c (a + 1) = ucast (drop_bit 8 d) \<Longrightarrow>
        settle hw (start_program hw a d c) \<noteq> None \<and> cells hw (start_program hw a d c) = cells hw c"
proof -
  note A = assms [unfolded working_controller_def]
  show "flash_controller hw"
    using A [THEN conjunct1] by blast
  show "settle hw c = Some (f, c') \<Longrightarrow> no_error f \<Longrightarrow> ready hw c'"
    using A [THEN conjunct2, THEN conjunct1] by blast
  show "ready hw c \<Longrightarrow> ready hw (clear_sr hw c)"
    using A [THEN conjunct2, THEN conjunct2, THEN conjunct1] by blast
  show "ready hw c \<Longrightarrow> ready hw (clear_cr hw c)"
    using A [THEN conjunct2, THEN conjunct2, THEN conjunct1] by blast
  show "ready hw c \<Longrightarrow> ready hw (write_keys hw c)"
    using A [THEN conjunct2, THEN conjunct2, THEN conjunct1] by blast
  show "ready hw c \<Longrightarrow> ready hw (set_lock hw c)"
    using A [THEN conjunct2, THEN conjunct2, THEN conjunct1] by blast
  show "ready hw c \<Longrightarrow> \<not> lock_bit hw c \<Longrightarrow> ready hw (start_erase hw a c)"
    using A [THEN conjunct2, THEN conjunct2, THEN conjunct2, THEN conjunct2, THEN conjunct1] by blast
  show "ready hw c \<Longrightarrow> \<not> lock_bit hw c \<Longrightarrow> cells hw c a = 0xFF \<Longrightarrow> cells hw c (a + 1) = 0xFF \<Longrightarrow>
        ready hw (start_program hw a d c) \<and> cells hw (start_program hw a d c) = st16 a d (cells hw c)"
    using A [THEN conjunct2, THEN conjunct2, THEN conjunct2, THEN conjunct2, THEN conjunct2, THEN conjunct2] by blast
  show "settle hw c = Some (f, c') \<Longrightarrow> ready hw (clear_sr hw c')"
    using A [THEN conjunct2, THEN conjunct2, THEN conjunct2, THEN conjunct1] by blast
  show "ready hw c \<Longrightarrow> \<not> lock_bit hw c \<Longrightarrow> cells hw c a = ucast d \<Longrightarrow> cells hw c (a + 1) = ucast (drop_bit 8 d) \<Longrightarrow>
        settle hw (start_program hw a d c) \<noteq> None \<and> cells hw (start_program hw a d c) = cells hw c"
    using A [THEN conjunct2, THEN conjunct2, THEN conjunct2, THEN conjunct2, THEN conjunct2, THEN conjunct1] by blast
qed

section \<open>Safety: whatever the controller answers\<close>

lemma wait_same:
  assumes "flash_controller hw" "FLASH_WaitForLastOperation hw c = (status, c')"
  shows "cells hw c' = cells hw c" "lock_bit hw c' = lock_bit hw c"
  using assms(2) flash_controllerD(1-3) [OF assms(1)]
  by (auto simp: FLASH_WaitForLastOperation_def Let_def split: option.splits if_splits)

lemma wait_erased:
  assumes "flash_controller hw" "FLASH_WaitForLastOperation hw (start_erase hw a c) = (HAL_OK, c')" "\<not> lock_bit hw c"
    and "GetPage a \<le> x" "x < GetPage a + FLASH_PAGE_SIZE"
  shows "cells hw c' x = 0xFF"
  using assms(2) flash_controllerD(13) [OF assms(1) assms(3) _ _ assms(4,5)] flash_controllerD(2) [OF assms(1)]
  by (auto simp: FLASH_WaitForLastOperation_def Let_def no_error_def split: option.splits if_splits)

lemma program_halves_frame:
  assumes "flash_controller hw" "program_halves hw a d i n c = (status, c')"
  shows "lock_bit hw c' = lock_bit hw c \<and> (\<forall>x. x < a + 2 * i \<or> a + 2 * (i + n) \<le> x \<longrightarrow> cells hw c' x = cells hw c x)"
  using assms(2)
proof (induction n arbitrary: i c)
  case (Suc n)
  obtain st c2 where w: "FLASH_WaitForLastOperation hw (start_program hw (a + 2 * i) (ucast (drop_bit (16 * i) d)) c) = (st, c2)"
    by fastforce
  note f = flash_controllerD [OF assms(1)]
  have l: "lock_bit hw (clear_cr hw c2) = lock_bit hw c" using wait_same [OF assms(1) w] by (simp add: f)
  have m: "cells hw (clear_cr hw c2) x = cells hw c x" if "x < a + 2 * i \<or> a + 2 * (i + Suc n) \<le> x" for x
  proof -
    have "x \<noteq> a + 2 * i" "x \<noteq> a + 2 * i + 1" using that by auto
    then show ?thesis using wait_same [OF assms(1) w] by (simp add: f(4,11))
  qed
  show ?case using Suc.prems Suc.IH [of "i + 1" "clear_cr hw c2"] l m by (auto simp: w Let_def split: if_splits)
qed simp_all

lemma HAL_FLASH_Program_frame:
  assumes "flash_controller hw" "HAL_FLASH_Program hw WORD a d s = (status, s')"
  shows "Lock s' = Lock s" "lock_bit hw (chip s') = lock_bit hw (chip s)"
    and "x < a \<or> a + 4 \<le> x \<Longrightarrow> cells hw (chip s') x = cells hw (chip s) x"
proof -
  obtain st c where w: "FLASH_WaitForLastOperation hw (chip s) = (st, c)" by fastforce
  obtain st' c' where p: "program_halves hw a d 0 2 c = (st', c')" by fastforce
  note same = wait_same [OF assms(1) w] and fr = program_halves_frame [OF assms(1) p, simplified]
  show "Lock s' = Lock s" "lock_bit hw (chip s') = lock_bit hw (chip s)"
    using assms(2) same fr by (auto simp: HAL_FLASH_Program_def w p Let_def split: if_splits)
  show "x < a \<or> a + 4 \<le> x \<Longrightarrow> cells hw (chip s') x = cells hw (chip s) x"
    using assms(2) same fr by (auto simp: HAL_FLASH_Program_def w p Let_def split: if_splits)
qed

lemma HAL_FLASH_Unlock_same:
  assumes "flash_controller hw"
  shows "\<not> lock_bit hw (chip (snd (HAL_FLASH_Unlock hw s)))" "Lock (snd (HAL_FLASH_Unlock hw s)) = Lock s"
    and "cells hw (chip (snd (HAL_FLASH_Unlock hw s))) = cells hw (chip s)"
  using flash_controllerD(6,7) [OF assms] by (simp_all add: HAL_FLASH_Unlock_def Let_def)

lemma HAL_FLASH_Lock_same:
  assumes "flash_controller hw"
  shows "Lock (snd (HAL_FLASH_Lock hw s)) = Lock s" "cells hw (chip (snd (HAL_FLASH_Lock hw s))) = cells hw (chip s)"
  using flash_controllerD(8) [OF assms] by (simp_all add: HAL_FLASH_Lock_def)

lemma ld32_eqD:
  assumes "ld32 m a = ld32 m' b" "k < 4"
  shows "m (a + k) = m' (b + k)"
proof (rule bit_word_eqI)
  fix n assume "n < LENGTH(8)"
  then have n: "n < 8" by simp
  have key: "bit (ld32 m a) (8 * k + n) = bit (m (a + k)) n" for m :: memory and a
  proof -
    from assms(2) consider "k = 0" | "k = 1" | "k = 2" | "k = 3" by linarith
    then show ?thesis using n by cases (auto simp: ld32_def ld16_def bit_simps numeral_3_eq_3 dest: bit_imp_le_length)
  qed
  show "bit (m (a + k)) n = bit (m' (b + k)) n" using key [of m a] key [of m' b] assms(1) by simp
qed

lemma RT_ALIGN_div: "RT_ALIGN n = 4 * ((n + 3) div 4)"
  by (simp add: RT_ALIGN_def RT_ALIGN_DOWN_def minus_mod_eq_mult_div)

lemma RT_ALIGN_step: assumes "0 < n" shows "RT_ALIGN n = 4 + RT_ALIGN (n - 4)"
proof (cases "n < 4")
  case True
  with assms consider "n = 1" | "n = 2" | "n = 3" by linarith
  then show ?thesis by cases (simp_all add: RT_ALIGN_div)
next
  case False
  then obtain m where "n = m + 4" using le_Suc_ex by (metis add.commute not_less)
  then show ?thesis using div_add_self2 [of 4 "m + 3"] by (simp add: RT_ALIGN_div)
qed

lemma write_words_spec:
  assumes "flash_controller hw" "write_words hw a e buf i s = (r, s')"
  shows "Lock s' = Lock s \<and> lock_bit hw (chip s') = lock_bit hw (chip s) \<and>
    (\<forall>x. x < a \<or> a + RT_ALIGN (e - a) \<le> x \<longrightarrow> cells hw (chip s') x = cells hw (chip s) x) \<and>
    (r = RT_EOK \<longrightarrow> (\<forall>k < RT_ALIGN (e - a). cells hw (chip s') (a + k) = buf (i + k)))"
  using assms(2)
proof (induction "e - a" arbitrary: a i s rule: less_induct)
  case less
  show ?case
  proof (cases "a < e")
    case True
    obtain st s1 where p: "HAL_FLASH_Program hw WORD a (ucast (ld32 buf i)) s = (st, s1)" by fastforce
    note fr = HAL_FLASH_Program_frame [OF assms(1) p]
    have al: "RT_ALIGN (e - a) = 4 + RT_ALIGN (e - (a + 4))" using RT_ALIGN_step [of "e - a"] True by simp
    show ?thesis
    proof (cases "st = HAL_OK \<and> ld32 (cells hw (chip s1)) a = ld32 buf i")
      case ok: True
      have w: "write_words hw (a + 4) e buf (i + 4) s1 = (r, s')"
        using less.prems True ok by (subst (asm) write_words.simps) (simp add: p)
      have IH: "Lock s' = Lock s1" "lock_bit hw (chip s') = lock_bit hw (chip s1)"
        "\<And>x. x < a + 4 \<or> a + 4 + RT_ALIGN (e - (a + 4)) \<le> x \<Longrightarrow> cells hw (chip s') x = cells hw (chip s1) x"
        "\<And>k. r = RT_EOK \<Longrightarrow> k < RT_ALIGN (e - (a + 4)) \<Longrightarrow> cells hw (chip s') (a + 4 + k) = buf (i + 4 + k)"
        using less.hyps [OF _ w] True by auto
      have m: "cells hw (chip s') (a + k) = buf (i + k)" if "r = RT_EOK" "k < RT_ALIGN (e - a)" for k
      proof (cases "k < 4")
        case k: True
        have "cells hw (chip s') (a + k) = cells hw (chip s1) (a + k)" using IH(3) k by simp
        then show ?thesis using ld32_eqD [OF conjunct2 [OF ok] k] by simp
      next
        case False
        then obtain k' where k': "k = 4 + k'" using le_Suc_ex not_less by blast
        then have "cells hw (chip s') (a + 4 + k') = buf (i + 4 + k')" using IH(4) that al by simp
        then show ?thesis by (simp add: k' add.assoc)
      qed
      have f: "cells hw (chip s') x = cells hw (chip s) x" if "x < a \<or> a + RT_ALIGN (e - a) \<le> x" for x
        using that IH(3) [of x] fr(3) [of x] al by auto
      show ?thesis using IH(1,2) fr(1,2) m f by simp
    next
      case False
      then have "s' = s1 \<and> r \<noteq> RT_EOK"
        using less.prems True by (subst (asm) write_words.simps) (auto simp: p rt_err_defs split: if_splits)
      then show ?thesis using fr by (auto simp: al)
    qed
  next
    case False
    then have "s' = s" "RT_ALIGN (e - a) = 0" using less.prems by (auto simp: write_words.simps RT_ALIGN_def RT_ALIGN_DOWN_def)
    then show ?thesis by simp
  qed
qed

lemma write_words_result: "write_words hw a e buf i s = (r, s') \<Longrightarrow> r = RT_EOK \<or> r = - RT_ERROR"
proof (induction hw a e buf i s rule: write_words.induct)
  case (1 hw a e buf i s)
  show ?case using 1(2) by (subst (asm) write_words.simps) (auto split: if_splits prod.splits dest: 1(1))
qed

lemma GetPage_id [simp]: "2048 dvd a \<Longrightarrow> GetPage a = a"
  by (simp add: GetPage_def)

lemma GetPage_dvd [simp]: "2048 dvd GetPage a" "GetPage a \<le> a"
  by (simp_all add: GetPage_def minus_mod_eq_mult_div)

lemma erase_pages_spec:
  assumes "flash_controller hw" "erase_pages hw a e st0 c = (st, c')" "2048 dvd a" "2048 dvd e"
  shows "lock_bit hw c' = lock_bit hw c \<and>
    (\<forall>x. x < a \<or> e \<le> x \<longrightarrow> cells hw c' x = cells hw c x) \<and>
    (a < e \<longrightarrow> st = HAL_OK \<longrightarrow> \<not> lock_bit hw c \<longrightarrow> (\<forall>x. a \<le> x \<and> x < e \<longrightarrow> cells hw c' x = 0xFF)) \<and>
    (\<not> a < e \<longrightarrow> st = st0 \<and> c' = c)"
  using assms(2,3)
proof (induction "e - a" arbitrary: a st0 c rule: less_induct)
  case less
  show ?case
  proof (cases "a < e")
    case True
    obtain st1 c2 where w: "FLASH_WaitForLastOperation hw (start_erase hw a c) = (st1, c2)" by fastforce
    note f = flash_controllerD [OF assms(1)] and ws = wait_same [OF assms(1) w]
    have le: "a + 2048 \<le> e" using True less.prems(2) assms(4) by (auto elim!: dvdE)
    have l: "lock_bit hw (clear_cr hw c2) = lock_bit hw c" using ws by (simp add: f)
    have fr: "cells hw (clear_cr hw c2) x = cells hw c x" if "x < a \<or> a + 2048 \<le> x" for x
      using ws(1) f(12) [of x a] that less.prems(2) by (simp add: f(4))
    have ff: "cells hw (clear_cr hw c2) x = 0xFF" if "st1 = HAL_OK" "\<not> lock_bit hw c" "a \<le> x" "x < a + 2048" for x
      using wait_erased [OF assms(1)] w that less.prems(2) by (simp add: f(4))
    show ?thesis
    proof (cases "st1 = HAL_OK")
      case ok: True
      have w2: "erase_pages hw (a + 2048) e HAL_OK (clear_cr hw c2) = (st, c')"
        using less.prems(1) True ok w by (subst (asm) erase_pages.simps) simp
      have d: "e - (a + 2048) < e - a" "2048 dvd a + 2048" using True less.prems(2) by auto
      note IH = less.hyps [OF d(1) w2 d(2)]
      show ?thesis
      proof (intro conjI allI impI)
        fix x assume x: "x < a \<or> e \<le> x"
        then have "x < a + 2048 \<or> e \<le> x" "x < a \<or> a + 2048 \<le> x" using le by auto
        then show "cells hw c' x = cells hw c x" using IH fr by auto
      next
        fix x assume *: "st = HAL_OK" "\<not> lock_bit hw c" "a \<le> x \<and> x < e"
        show "cells hw c' x = 0xFF"
        proof (cases "x < a + 2048")
          case True
          then show ?thesis using IH ff [OF ok] * by simp
        next
          case False
          then show ?thesis using IH l * by auto
        qed
      qed (use IH l True in auto)
    next
      case False
      then have "st = st1 \<and> c' = clear_cr hw c2"
        using less.prems(1) True w by (subst (asm) erase_pages.simps) auto
      then show ?thesis using l fr False True le by auto
    qed
  next
    case False
    then show ?thesis using less.prems(1) by (auto simp: erase_pages.simps)
  qed
qed

text \<open>The bytes an erase covers: whole pages, as many as the size needs, from the first page on.\<close>

abbreviation pages :: "nat \<Rightarrow> nat" where "pages \<equiv> up 2048"

lemma pages_def: "pages n = 2048 * ((n + 2047) div 2048)"
  by (simp add: up_def)

lemma RT_ALIGN_up: "RT_ALIGN = up 4"
  by (rule ext) (simp add: RT_ALIGN_div up_def add.commute)

lemma size_int_small: "n < 2 ^ 31 \<Longrightarrow> size_int n = int n"
  by (simp add: size_int_def signed_of_nat signed_take_bit_int_eq_self)

lemma erase_range:
  assumes "0x08000000 \<le> a" "a + n \<le> 0x08080000"
  shows "(a + n) mod 2 ^ 32 = a + n" "(n + 2048 - 1) mod 2 ^ 32 = n + 2047"
    and "(pages n + GetPage a) mod 2 ^ 32 = pages n + GetPage a" "size_int n = int n"
proof -
  have "n \<le> 0x80000" using assms by simp
  then show "(a + n) mod 2 ^ 32 = a + n" "(n + 2048 - 1) mod 2 ^ 32 = n + 2047" using assms by simp_all
  have "pages n + GetPage a < 0x08081000" using up_less [of 2048 n] GetPage_dvd(2) [of a] assms by linarith
  then show "(pages n + GetPage a) mod 2 ^ 32 = pages n + GetPage a" by simp
  show "size_int n = int n" using \<open>n \<le> 0x80000\<close> by (simp add: size_int_small)
qed

lemma stm32_flash_erase_spec:
  assumes "flash_controller hw" "stm32_flash_erase hw a n s = (r, s')"
    and "0x08000000 \<le> a" "a + n \<le> 0x08080000"
  shows "Lock s' = Lock s" "x < GetPage a \<or> GetPage a + pages n \<le> x \<Longrightarrow> cells hw (chip s') x = cells hw (chip s) x"
    and "0 \<le> r \<Longrightarrow> r = int n \<and> 0 < n"
    and "0 \<le> r \<Longrightarrow> GetPage a \<le> x \<Longrightarrow> x < GetPage a + pages n \<Longrightarrow> cells hw (chip s') x = 0xFF"
proof -
  define s1 where "s1 = snd (HAL_FLASH_Unlock hw s)"
  note u = HAL_FLASH_Unlock_same [OF assms(1), of s, folded s1_def]
  obtain st2 s2 where e2: "HAL_FLASHEx_Erase hw (GetPage a) ((n + 2047) div 2048) s1 = (st2, s2)" by (meson surj_pair)
  note rg = erase_range [OF assms(3,4)]
  have res: "s' = snd (HAL_FLASH_Lock hw s2)" "r = (if st2 \<noteq> HAL_OK then - RT_ERROR else int n)"
    using assms(2,4) rg(4)
    by (simp_all add: stm32_flash_erase_def stm32_flash_erase_bank_def rg(1,2) Let_def e2 add.commute [of 2047] flip: s1_def)
      (auto split: if_splits)
  obtain st1 c where w: "FLASH_WaitForLastOperation hw (chip s1) = (st1, c)" by (meson surj_pair)
  obtain st c' where e: "erase_pages hw (GetPage a) (pages n + GetPage a) HAL_ERROR c = (st, c')" by (meson surj_pair)
  note ws = wait_same [OF assms(1) w] 
  have hal: "Lock s \<Longrightarrow> st2 = HAL_BUSY \<and> s2 = s1"
    "\<not> Lock s \<Longrightarrow> st1 \<noteq> HAL_OK \<Longrightarrow> st2 = HAL_ERROR \<and> s2 = s1\<lparr>chip := c\<rparr>"
    "\<not> Lock s \<Longrightarrow> st1 = HAL_OK \<Longrightarrow> st2 = st \<and> s2 = s1\<lparr>chip := c'\<rparr>"
    using e2 u(2) by (auto simp: HAL_FLASHEx_Erase_def w Let_def rg(3) [simplified] e mult.commute [of _ 2048] split: if_splits simp flip: pages_def)
  have p: "2048 dvd GetPage a" "2048 dvd pages n + GetPage a" by simp_all
  have es: "\<And>x. x < GetPage a \<or> GetPage a + pages n \<le> x \<Longrightarrow> cells hw c' x = cells hw c x"
    "\<And>x. st = HAL_OK \<Longrightarrow> \<not> lock_bit hw c \<Longrightarrow> GetPage a \<le> x \<Longrightarrow> x < GetPage a + pages n \<Longrightarrow> cells hw c' x = 0xFF"
    "n = 0 \<Longrightarrow> st = HAL_ERROR"
    using erase_pages_spec [OF assms(1) e p] by (auto simp: add.commute)
  show "Lock s' = Lock s"
    using hal u by (cases "Lock s"; cases "st1 = HAL_OK") (simp_all add: res HAL_FLASH_Lock_same [OF assms(1)])
  show "cells hw (chip s') x = cells hw (chip s) x" if "x < GetPage a \<or> GetPage a + pages n \<le> x"
  proof -
    have "cells hw c' x = cells hw (chip s) x" using es(1) that ws(1) u(3) by simp
    then show ?thesis
      using hal u ws by (cases "Lock s"; cases "st1 = HAL_OK") (simp_all add: res HAL_FLASH_Lock_same [OF assms(1)])
  qed
  have ok: "st2 = HAL_OK" "\<not> Lock s" "st1 = HAL_OK" "st = HAL_OK" "0 < n" if "0 \<le> r"
  proof -
    show s: "st2 = HAL_OK" using that by (simp add: res rt_err_defs split: if_splits)
    with hal show "\<not> Lock s" "st1 = HAL_OK" "st = HAL_OK" by force+
    then have "n \<noteq> 0" using es(3) by (intro notI) simp
    then show "0 < n" by simp
  qed
  show "r = int n \<and> 0 < n" if "0 \<le> r" using ok(1,5) [OF that] by (simp add: res(2))
  show "cells hw (chip s') x = 0xFF" if "0 \<le> r" "GetPage a \<le> x" "x < GetPage a + pages n"
  proof -
    have "cells hw c' x = 0xFF" using es(2) ok [OF that(1)] ws(2) u(1) that by simp
    then show ?thesis using hal(3) ok [OF that(1)] by (simp add: res HAL_FLASH_Lock_same [OF assms(1)])
  qed
qed

lemma stm32_flash_write_spec:
  assumes "flash_controller hw" "stm32_flash_write hw a buf n s = (r, s')"
    and "0x08000000 \<le> a" "a + n \<le> 0x08080000"
  shows "Lock s' = Lock s" "x < a \<or> a + RT_ALIGN n \<le> x \<Longrightarrow> cells hw (chip s') x = cells hw (chip s) x"
    and "0 \<le> r \<Longrightarrow> r = int n \<and> a mod 4 = 0"
    and "0 \<le> r \<Longrightarrow> k < n \<Longrightarrow> cells hw (chip s') (a + k) = buf k"
    and "a mod 4 \<noteq> 0 \<Longrightarrow> r = - RT_EINVAL \<and> s' = s"
    and "0 \<le> r \<Longrightarrow> k < RT_ALIGN n \<Longrightarrow> cells hw (chip s') (a + k) = buf k"
proof -
  define al where "al \<longleftrightarrow> a mod 4 = 0"
  define s1 where "s1 = snd (HAL_FLASH_Unlock hw s)"
  note u = HAL_FLASH_Unlock_same [OF assms(1), of s, folded s1_def]
  obtain r2 s2 where w: "write_words hw a (a + n) buf 0 s1 = (r2, s2)" by (meson surj_pair)
  note rg = erase_range [OF assms(3,4)]
  have ws: "Lock s2 = Lock s1" "\<And>x. x < a \<or> a + RT_ALIGN n \<le> x \<Longrightarrow> cells hw (chip s2) x = cells hw (chip s1) x"
    "\<And>k. r2 = RT_EOK \<Longrightarrow> k < RT_ALIGN n \<Longrightarrow> cells hw (chip s2) (a + k) = buf k"
    using write_words_spec [OF assms(1) w] by auto
  have res: "\<not> al \<Longrightarrow> s' = s \<and> r = - RT_EINVAL"
    "al \<Longrightarrow> s' = snd (HAL_FLASH_Lock hw s2) \<and> r = (if r2 \<noteq> RT_EOK then r2 else int n)"
    using assms(2,4) rg(4)
    by (simp_all add: stm32_flash_write_def rg(1) Let_def w flip: s1_def al_def) (auto split: if_splits)
  have r2: "r2 = RT_EOK \<or> r2 = - RT_ERROR" using write_words_result [OF w] .
  show "Lock s' = Lock s" using res u ws(1) by (cases al) (simp_all add: HAL_FLASH_Lock_same [OF assms(1)])
  show "x < a \<or> a + RT_ALIGN n \<le> x \<Longrightarrow> cells hw (chip s') x = cells hw (chip s) x"
    using res u ws(2) [of x] by (cases al) (simp_all add: HAL_FLASH_Lock_same [OF assms(1)])
  show "a mod 4 \<noteq> 0 \<Longrightarrow> r = - RT_EINVAL \<and> s' = s" using res(1) unfolding al_def by blast
  have *: "0 \<le> r \<Longrightarrow> r = int n \<and> al"
    using res r2 by (cases al) (auto simp: rt_err_defs RT_EINVAL_def split: if_splits)
  then show "0 \<le> r \<Longrightarrow> r = int n \<and> a mod 4 = 0" unfolding al_def .
  have full: "cells hw (chip s') (a + k) = buf k" if "0 \<le> r" "k < RT_ALIGN n" for k
  proof -
    have "r2 = RT_EOK" using that(1) * [OF that(1)] res(2) r2 by (auto simp: rt_err_defs split: if_splits)
    then show ?thesis using ws(3) [OF _ that(2)] * [OF that(1)] res(2) by (simp add: HAL_FLASH_Lock_same [OF assms(1)])
  qed
  then show "0 \<le> r \<Longrightarrow> k < RT_ALIGN n \<Longrightarrow> cells hw (chip s') (a + k) = buf k" .
  show "cells hw (chip s') (a + k) = buf k" if "0 \<le> r" "k < n"
    by (rule full [OF that(1) less_le_trans [OF that(2) RT_ALIGN_ge]])
qed

section \<open>Progress: when no operation fails\<close>

lemma wait_works:
  assumes "working_controller hw" "ready hw c"
  shows "\<exists>c'. FLASH_WaitForLastOperation hw c = (HAL_OK, c') \<and> ready hw c' \<and> cells hw c' = cells hw c \<and>
    lock_bit hw c' = lock_bit hw c"
proof -
  note W = working_controllerD [OF assms(1)] note F = flash_controllerD [OF W(1)]
  obtain f c1 where s: "settle hw c = Some (f, c1)" "no_error f" using assms(2) unfolding ready_def by blast
  have "FLASH_WaitForLastOperation hw c = (HAL_OK, if EOP f then clear_sr hw c1 else c1)"
    using s by (simp add: FLASH_WaitForLastOperation_def no_error_def)
  moreover have "ready hw c1" "cells hw c1 = cells hw c" "lock_bit hw c1 = lock_bit hw c"
    using W(2) [OF s] F(1) [OF s(1)] by auto
  ultimately show ?thesis using W(3) F(2,3) by auto
qed

lemma program_halves_works:
  assumes "working_controller hw" "ready hw c" "\<not> lock_bit hw c" "\<And>k. k < 4 \<Longrightarrow> cells hw c (a + k) = 0xFF"
  shows "\<exists>c'. program_halves hw a (ucast (v :: u32)) 0 2 c = (HAL_OK, c') \<and> ready hw c' \<and> \<not> lock_bit hw c' \<and>
    cells hw c' = st32 a v (cells hw c)"
proof -
  note W = working_controllerD [OF assms(1)] note F = flash_controllerD [OF W(1)]
  define v0 :: u16 where "v0 = ucast v"
  define v1 :: u16 where "v1 = ucast (drop_bit 16 v)"
  have e: "ucast (ucast v :: 64 word) = v0" "ucast (drop_bit 16 (ucast v :: 64 word)) = v1"
    by (rule bit_word_eqI, simp add: v0_def v1_def bit_simps; linarith?)+
  have b0: "cells hw c a = 0xFF" "cells hw c (a + 1) = 0xFF" using assms(4) [of 0] assms(4) [of 1] by simp_all
  note p0 = W(8) [OF assms(2,3) b0, of v0]
  obtain c1 where w1: "FLASH_WaitForLastOperation hw (start_program hw a v0 c) = (HAL_OK, c1)" "ready hw c1"
    "cells hw c1 = st16 a v0 (cells hw c)" "\<not> lock_bit hw c1"
    using wait_works [OF assms(1), of "start_program hw a v0 c"] p0 F(9) assms(3) by auto
  define c2 where "c2 = clear_cr hw c1"
  have c2: "ready hw c2" "cells hw c2 = st16 a v0 (cells hw c)" "\<not> lock_bit hw c2"
    using w1 W(4) F(4,5) by (simp_all add: c2_def)
  have b1: "cells hw c2 (a + 2) = 0xFF" "cells hw c2 (a + 2 + 1) = 0xFF"
    using assms(4) [of 2] assms(4) [of 3] by (simp_all add: c2(2) add.commute [of _ a] numeral_3_eq_3)
  note p1 = W(8) [OF c2(1,3) b1, of v1]
  obtain c3 where w3: "FLASH_WaitForLastOperation hw (start_program hw (a + 2) v1 c2) = (HAL_OK, c3)" "ready hw c3"
    "cells hw c3 = st16 (a + 2) v1 (cells hw c2)" "\<not> lock_bit hw c3"
    using wait_works [OF assms(1), of "start_program hw (a + 2) v1 c2"] p1 F(9) c2(3) by auto
  have "program_halves hw a (ucast v) 0 2 c = (HAL_OK, clear_cr hw c3)"
    using w1(1) w3(1) by (simp add: numeral_2_eq_2 e c2_def)
  moreover have "cells hw (clear_cr hw c3) = st32 a v (cells hw c)"
    using w3(3) c2(2) F(4) by (simp add: st32_def v0_def v1_def)
  ultimately show ?thesis using w3(2,4) W(4) F(5) by auto
qed

lemma HAL_FLASH_Program_works:
  assumes "working_controller hw" "ready hw (chip s)" "\<not> lock_bit hw (chip s)" "\<not> Lock s"
    and "\<And>k. k < 4 \<Longrightarrow> cells hw (chip s) (a + k) = 0xFF"
  shows "\<exists>s'. HAL_FLASH_Program hw WORD a (ucast (v :: u32)) s = (HAL_OK, s') \<and> ready hw (chip s') \<and>
    \<not> lock_bit hw (chip s') \<and> \<not> Lock s' \<and> cells hw (chip s') = st32 a v (cells hw (chip s))"
proof -
  obtain c where c: "FLASH_WaitForLastOperation hw (chip s) = (HAL_OK, c)" "ready hw c" "cells hw c = cells hw (chip s)"
    "\<not> lock_bit hw c" using wait_works [OF assms(1,2)] assms(3) by auto
  obtain c' where "program_halves hw a (ucast v) 0 2 c = (HAL_OK, c')" "ready hw c'" "\<not> lock_bit hw c'"
    "cells hw c' = st32 a v (cells hw c)"
    using program_halves_works [OF assms(1) c(2,4), of a v] assms(5) c(3) by auto
  then show ?thesis using assms(4) c by (simp add: HAL_FLASH_Program_def)
qed

lemma write_words_works:
  assumes "working_controller hw" "ready hw (chip s)" "\<not> lock_bit hw (chip s)" "\<not> Lock s"
    and "\<And>k. k < RT_ALIGN (e - a) \<Longrightarrow> cells hw (chip s) (a + k) = 0xFF"
  shows "\<exists>s'. write_words hw a e buf i s = (RT_EOK, s') \<and> ready hw (chip s') \<and> \<not> Lock s'"
  using assms(2-)
proof (induction "e - a" arbitrary: a i s rule: less_induct)
  case less
  show ?case
  proof (cases "a < e")
    case True
    have al: "RT_ALIGN (e - a) = 4 + RT_ALIGN (e - (a + 4))" using RT_ALIGN_step [of "e - a"] True by simp
    obtain s1 where s1: "HAL_FLASH_Program hw WORD a (ucast (ld32 buf i)) s = (HAL_OK, s1)" "ready hw (chip s1)"
      "\<not> lock_bit hw (chip s1)" "\<not> Lock s1" "cells hw (chip s1) = st32 a (ld32 buf i) (cells hw (chip s))"
      using HAL_FLASH_Program_works [OF assms(1) less.prems(1-3), of a "ld32 buf i"] less.prems(4) al by auto
    have b: "cells hw (chip s1) (a + 4 + k) = 0xFF" if "k < RT_ALIGN (e - (a + 4))" for k
      using less.prems(4) [of "4 + k"] that by (simp add: s1(5) al add.assoc)
    have "e - (a + 4) < e - a" using True by simp
    from less.hyps [OF this s1(2,3,4) b] show ?thesis
      using True s1 by (subst write_words.simps) simp
  qed (use less.prems in \<open>simp add: write_words.simps\<close>)
qed

lemma erase_pages_works:
  assumes "working_controller hw" "ready hw c" "\<not> lock_bit hw c"
  shows "\<exists>c'. erase_pages hw a e st0 c = (if a < e then HAL_OK else st0, c') \<and> ready hw c'"
  using assms(2-)
proof (induction "e - a" arbitrary: a st0 c rule: less_induct)
  case less
  note W = working_controllerD [OF assms(1)] note F = flash_controllerD [OF W(1)]
  show ?case
  proof (cases "a < e")
    case True
    obtain c2 where w: "FLASH_WaitForLastOperation hw (start_erase hw a c) = (HAL_OK, c2)" "ready hw c2" "\<not> lock_bit hw c2"
      using wait_works [OF assms(1) W(7) [OF less.prems], of a] F(10) less.prems(2) by auto
    have c3: "ready hw (clear_cr hw c2)" "\<not> lock_bit hw (clear_cr hw c2)" using w W(4) F(5) by auto
    have "e - (a + 2048) < e - a" using True by simp
    from less.hyps [OF this c3, of HAL_OK] show ?thesis using True w by (subst erase_pages.simps) auto
  qed (use less.prems in \<open>simp add: erase_pages.simps\<close>)
qed

lemma stm32_flash_erase_works:
  assumes "working_controller hw" "ready hw (chip s)" "\<not> Lock s" "0x08000000 \<le> a" "a + n \<le> 0x08080000"
  shows "\<exists>s'. stm32_flash_erase hw a n s = (if 0 < n then int n else - RT_ERROR, s') \<and> ready hw (chip s') \<and> \<not> Lock s'"
proof -
  note W = working_controllerD [OF assms(1)]
  define s1 where "s1 = snd (HAL_FLASH_Unlock hw s)"
  note u = HAL_FLASH_Unlock_same [OF W(1), of s, folded s1_def] and rg = erase_range [OF assms(4,5)]
  have "ready hw (chip s1)" using assms(2) W(5) by (simp add: s1_def HAL_FLASH_Unlock_def Let_def)
  then obtain c where c: "FLASH_WaitForLastOperation hw (chip s1) = (HAL_OK, c)" "ready hw c" "\<not> lock_bit hw c"
    using wait_works [OF assms(1)] u(1) by blast
  have "GetPage a < pages n + GetPage a \<longleftrightarrow> 0 < n" using up_ge [of 2048 n] by (cases n) simp_all
  then obtain c' where e: "erase_pages hw (GetPage a) (pages n + GetPage a) HAL_ERROR c = (if 0 < n then HAL_OK else HAL_ERROR, c')" "ready hw c'"
    using erase_pages_works [OF assms(1) c(2,3), of "GetPage a" "pages n + GetPage a" HAL_ERROR] by auto
  have h: "HAL_FLASHEx_Erase hw (GetPage a) ((n + 2047) div 2048) s1 = (if 0 < n then HAL_OK else HAL_ERROR, s1\<lparr>chip := c'\<rparr>)"
    using u(2) assms(3) c(1) e(1) rg(3) [simplified]
    by (simp add: HAL_FLASHEx_Erase_def mult.commute [of _ 2048] flip: pages_def)
  show ?thesis using assms(3,5) rg(4) W(6) [OF e(2)] u(2)
    by (simp add: stm32_flash_erase_def stm32_flash_erase_bank_def rg(1,2) Let_def add.commute [of 2047] h
        HAL_FLASH_Lock_def flip: s1_def)
qed

lemma stm32_flash_write_works:
  assumes "working_controller hw" "ready hw (chip s)" "\<not> Lock s" "0x08000000 \<le> a" "a + n \<le> 0x08080000" "a mod 4 = 0"
    and "\<And>k. k < up 4 n \<Longrightarrow> cells hw (chip s) (a + k) = 0xFF"
  shows "\<exists>s'. stm32_flash_write hw a buf n s = (int n, s') \<and> ready hw (chip s') \<and> \<not> Lock s'"
proof -
  note W = working_controllerD [OF assms(1)]
  define s1 where "s1 = snd (HAL_FLASH_Unlock hw s)"
  note u = HAL_FLASH_Unlock_same [OF W(1), of s, folded s1_def] and rg = erase_range [OF assms(4,5)]
  have r: "ready hw (chip s1)" using assms(2) W(5) by (simp add: s1_def HAL_FLASH_Unlock_def Let_def)
  have l: "\<not> Lock s1" using u(2) assms(3) by simp
  have b: "\<And>k. k < RT_ALIGN (a + n - a) \<Longrightarrow> cells hw (chip s1) (a + k) = 0xFF"
    using assms(7) u(3) by (simp add: RT_ALIGN_up)
  obtain s2 where w: "write_words hw a (a + n) buf 0 s1 = (RT_EOK, s2)" "ready hw (chip s2)" "\<not> Lock s2"
    using write_words_works [OF assms(1) r u(1) l b] by blast
  show ?thesis using assms(5,6) rg(4) W(6) [OF w(2)] w(1,3)
    by (simp add: stm32_flash_write_def rg(1) Let_def HAL_FLASH_Lock_def flip: s1_def)
qed

subsection \<open>Writing what is there already\<close>

lemma wait_settled:
  assumes "working_controller hw" "settle hw c \<noteq> None" "FLASH_WaitForLastOperation hw c = (st, c')"
  shows "ready hw c' \<and> cells hw c' = cells hw c \<and> lock_bit hw c' = lock_bit hw c"
proof -
  note W = working_controllerD [OF assms(1)]
  obtain f c1 where s: "settle hw c = Some (f, c1)" using assms(2) by auto
  have "ready hw c'" using assms(3) W(2) [OF s] W(3) W(9) [OF s]
    by (auto simp: FLASH_WaitForLastOperation_def s Let_def no_error_def split: if_splits)
  then show ?thesis using wait_same [OF W(1) assms(3)] by simp
qed

lemma halves_of_ld32:
  fixes v :: u32
  assumes "ld32 m a = v" "i < 2"
  shows "m (a + 2 * i) = ucast (ucast (drop_bit (16 * i) (ucast v :: 64 word)) :: u16)"
    and "m (a + 2 * i + 1) = ucast (drop_bit 8 (ucast (drop_bit (16 * i) (ucast v :: 64 word)) :: u16))"
proof -
  from assms(2) consider "i = 0" | "i = 1" by linarith
  then have "ucast (drop_bit (16 * i) (ucast v :: 64 word)) = ld16 m (a + 2 * i)"
    by cases (rule bit_word_eqI, auto simp: assms(1) [symmetric] ld32_def ld16_def bit_simps dest: bit_imp_le_length)+
  then show "m (a + 2 * i) = ucast (ucast (drop_bit (16 * i) (ucast v :: 64 word)) :: u16)"
    "m (a + 2 * i + 1) = ucast (drop_bit 8 (ucast (drop_bit (16 * i) (ucast v :: 64 word)) :: u16))"
    by (simp_all) (rule bit_word_eqI, auto simp: ld16_def bit_simps dest: bit_imp_le_length)+
qed

lemma program_halves_again:
  assumes "working_controller hw" "ready hw c" "\<not> lock_bit hw c" "ld32 (cells hw c) a = v" "i + n \<le> 2"
    and "program_halves hw a (ucast v) i n c = (st, c')"
  shows "ready hw c' \<and> \<not> lock_bit hw c' \<and> cells hw c' = cells hw c"
  using assms(2-)
proof (induction n arbitrary: i c)
  case (Suc n)
  note W = working_controllerD [OF assms(1)] note F = flash_controllerD [OF W(1)]
  let ?d = "ucast (drop_bit (16 * i) (ucast v :: 64 word)) :: u16"
  have i: "i < 2" using Suc.prems(4) by simp
  obtain st1 c1 where w: "FLASH_WaitForLastOperation hw (start_program hw (a + 2 * i) ?d c) = (st1, c1)" by (meson surj_pair)
  have p: "settle hw (start_program hw (a + 2 * i) ?d c) \<noteq> None" "cells hw (start_program hw (a + 2 * i) ?d c) = cells hw c"
    using W(10) [OF Suc.prems(1,2) halves_of_ld32 [OF Suc.prems(3) i]] by auto
  have c1: "ready hw (clear_cr hw c1)" "\<not> lock_bit hw (clear_cr hw c1)" "cells hw (clear_cr hw c1) = cells hw c"
    using wait_settled [OF assms(1) p(1) w] W(4) F(4,5,9) p(2) Suc.prems(2) by auto
  show ?case
  proof (cases "st1 = HAL_OK")
    case True
    have "program_halves hw a (ucast v) (i + 1) n (clear_cr hw c1) = (st, c')"
      using Suc.prems(5) w True by simp
    from Suc.IH [OF c1(1,2) _ _ this] c1(3) Suc.prems(3,4) show ?thesis by simp
  next
    case False
    then have "c' = clear_cr hw c1" using Suc.prems(5) w by simp
    then show ?thesis using c1 by simp
  qed
qed simp

lemma write_words_again:
  assumes "working_controller hw" "ready hw (chip s)" "\<not> lock_bit hw (chip s)" "\<not> Lock s"
    and "\<And>k. k < RT_ALIGN (e - a) \<Longrightarrow> cells hw (chip s) (a + k) = buf (i + k)"
    and "write_words hw a e buf i s = (r, s')"
  shows "ready hw (chip s') \<and> \<not> Lock s' \<and> cells hw (chip s') = cells hw (chip s)"
  using assms(2-)
proof (induction "e - a" arbitrary: a i s rule: less_induct)
  case less
  show ?case
  proof (cases "a < e")
    case True
    have al: "RT_ALIGN (e - a) = 4 + RT_ALIGN (e - (a + 4))" using RT_ALIGN_step [of "e - a"] True by simp
    obtain st s1 where p: "HAL_FLASH_Program hw WORD a (ucast (ld32 buf i)) s = (st, s1)" by (meson surj_pair)
    obtain c where c: "FLASH_WaitForLastOperation hw (chip s) = (HAL_OK, c)" "ready hw c" "cells hw c = cells hw (chip s)"
      "\<not> lock_bit hw c" using wait_works [OF assms(1) less.prems(1)] less.prems(2) by auto
    have "cells hw (chip s) (a + k) = buf (i + k)" if "k < 4" for k using less.prems(4) that al by simp
    from this [of 0] this [of 1] this [of 2] this [of 3] have ld: "ld32 (cells hw c) a = ld32 buf i"
      unfolding c(3) ld32_def ld16_def by (simp add: numeral_3_eq_3)
    obtain st' c' where h: "program_halves hw a (ucast (ld32 buf i)) 0 2 c = (st', c')" by (meson surj_pair)
    have g: "ready hw c'" "\<not> lock_bit hw c'" "cells hw c' = cells hw (chip s)"
      using program_halves_again [OF assms(1) c(2,4) ld _ h] c(3) by auto
    have s1: "s1 = s\<lparr>chip := c'\<rparr>" "st = st'" using p c(1) h less.prems(3) by (auto simp: HAL_FLASH_Program_def)
    show ?thesis
    proof (cases "st = HAL_OK")
      case ok: True
      have "write_words hw (a + 4) e buf (i + 4) s1 = (r, s')"
        using less.prems(5) True ok p ld c(3) g(3) by (subst (asm) write_words.simps) (simp add: s1(1))
      moreover have "cells hw (chip s1) (a + 4 + k) = buf (i + 4 + k)" if "k < RT_ALIGN (e - (a + 4))" for k
        using less.prems(4) [of "4 + k"] that al g(3) by (simp add: s1(1) add.assoc)
      moreover have "e - (a + 4) < e - a" using True by simp
      ultimately have "ready hw (chip s') \<and> \<not> Lock s' \<and> cells hw (chip s') = cells hw (chip s1)"
        using less.hyps [of "a + 4" s1 "i + 4"] g less.prems(3) by (simp add: s1(1))
      then show ?thesis using g(3) by (simp add: s1(1))
    next
      case False
      then have "s' = s1" using less.prems(5) True p by (subst (asm) write_words.simps) simp
      then show ?thesis using g less.prems(3) by (simp add: s1(1))
    qed
  qed (use less.prems in \<open>simp add: write_words.simps\<close>)
qed

lemma stm32_flash_write_again:
  assumes "working_controller hw" "ready hw (chip s)" "\<not> Lock s" "0x08000000 \<le> a" "a + n \<le> 0x08080000" "a mod 4 = 0"
    and "\<And>k. k < up 4 n \<Longrightarrow> cells hw (chip s) (a + k) = buf k" "stm32_flash_write hw a buf n s = (r, s')"
  shows "ready hw (chip s') \<and> \<not> Lock s' \<and> cells hw (chip s') = cells hw (chip s)"
proof -
  note W = working_controllerD [OF assms(1)] note F = flash_controllerD [OF W(1)]
  define s1 where "s1 = snd (HAL_FLASH_Unlock hw s)"
  note u = HAL_FLASH_Unlock_same [OF W(1), of s, folded s1_def] and rg = erase_range [OF assms(4,5)]
  have r1: "ready hw (chip s1)" using assms(2) W(5) by (simp add: s1_def HAL_FLASH_Unlock_def Let_def)
  have l: "\<not> Lock s1" using u(2) assms(3) by simp
  obtain r2 s2 where w: "write_words hw a (a + n) buf 0 s1 = (r2, s2)" by (meson surj_pair)
  have b: "\<And>k. k < RT_ALIGN (a + n - a) \<Longrightarrow> cells hw (chip s1) (a + k) = buf (0 + k)"
    using assms(7) u(3) by (simp add: RT_ALIGN_up)
  note ag = write_words_again [OF assms(1) r1 u(1) l b w]
  have "s' = s2\<lparr>chip := set_lock hw (chip s2)\<rparr>" using assms(5,6,8) rg(1) w
    by (auto simp: stm32_flash_write_def HAL_FLASH_Lock_def Let_def simp flip: s1_def)
  then show ?thesis using ag W(6) F(8) u(3) by auto
qed

section \<open>The on-chip flash as a flash device\<close>

definition onchip :: "'c hw \<Rightarrow> 'c flash \<Rightarrow> memory" where
  "onchip hw s x = cells hw (chip s) (0x08000000 + x)"

lemma fal_flash_eqs:
  assumes "a + n \<le> 512 * 1024"
  shows "fal_flash_read hw a n = stm32_flash_read hw (0x08000000 + a) n"
    and "fal_flash_write hw a buf n = stm32_flash_write hw (0x08000000 + a) buf n"
    and "fal_flash_erase hw a n = stm32_flash_erase hw (0x08000000 + a) n"
proof -
  have "(0x08000000 + a) mod 2 ^ 32 = 0x08000000 + a" using assms by simp
  then show "fal_flash_read hw a n = stm32_flash_read hw (0x08000000 + a) n"
    "fal_flash_write hw a buf n = stm32_flash_write hw (0x08000000 + a) buf n"
    "fal_flash_erase hw a n = stm32_flash_erase hw (0x08000000 + a) n"
    by (auto simp: fun_eq_iff fal_flash_read_def fal_flash_write_def fal_flash_erase_def)
qed

interpretation oc: flash_dev "fal_flash_write hw" "fal_flash_erase hw" "fal_flash_read hw" "onchip hw"
  "\<lambda>s. flash_controller hw" 2048 4 "512 * 1024" for hw :: "'c hw"
proof (unfold_locales, goal_cases)
  case (4 s a n r s')
  then show ?case by simp
next
  case (5 s a n r s' x)
  have "2048 dvd 0x08000000 + a" using 5(4) by (simp add: dvd_add)
  then show ?case using 5 stm32_flash_erase_spec(2) [OF 5(1) 5(2) [unfolded fal_flash_eqs(3) [OF 5(3)]], of "0x08000000 + x"]
    by (auto simp: onchip_def)
next
  case (6 s a n r s' x)
  have "2048 dvd 0x08000000 + a" using 6(4) by (simp add: dvd_add)
  then show ?case using 6 stm32_flash_erase_spec(4) [OF 6(1) 6(2) [unfolded fal_flash_eqs(3) [OF 6(3)]], of "0x08000000 + x"]
    by (simp add: onchip_def)
next
  case (8 s a buf n r s' x)
  then show ?case using stm32_flash_write_spec(2) [OF 8(1) 8(2) [unfolded fal_flash_eqs(2) [OF 8(3)]], of "0x08000000 + x"]
    by (auto simp: onchip_def RT_ALIGN_up)
next
  case (9 s a buf n r s' k)
  then show ?case using stm32_flash_write_spec(4) [OF 9(1) 9(2) [unfolded fal_flash_eqs(2) [OF 9(3)]], of k]
    by (simp add: onchip_def add.assoc)
next
  case (10 s a n)
  then have "n \<le> 0x80000" by simp
  then have "size_int n = int n" by (intro size_int_small) simp
  moreover have "map (onchip hw s) [a ..< a + n] = map (cells hw (chip s)) [0x08000000 + a ..< 0x08000000 + a + n]"
    by (rule nth_equalityI) (simp_all add: onchip_def add.assoc)
  ultimately show ?case using 10 by (simp add: fal_flash_eqs stm32_flash_read_def)
qed simp_all

interpretation oc: good_dev "fal_flash_write hw" "fal_flash_erase hw" "fal_flash_read hw" "onchip hw"
  "\<lambda>s. flash_controller hw" 2048 4 "512 * 1024" "\<lambda>s. working_controller hw \<and> ready hw (chip s) \<and> \<not> Lock s"
  for hw :: "'c hw"
proof (unfold_locales, goal_cases)
  case (1 s)
  then show ?case by (simp add: working_controllerD)
next
  case (2 s a n r s')
  then show ?case using stm32_flash_erase_works [of hw s "0x08000000 + a" n] by (auto simp: fal_flash_eqs)
next
  case (3 s a n)
  then show ?case using stm32_flash_erase_works [of hw s "0x08000000 + a" n] by (auto simp: fal_flash_eqs)
next
  case (4 s a n buf)
  then have "\<And>k. k < up 4 n \<Longrightarrow> cells hw (chip s) (0x08000000 + a + k) = 0xFF" by (simp add: onchip_def add.assoc)
  moreover have "(0x08000000 + a) mod 4 = 0" using 4(3) by presburger
  ultimately show ?case
    using 4(1,2) stm32_flash_write_works [of hw s "0x08000000 + a" n buf] by (simp add: fal_flash_eqs)
next
  case (5 s a n buf r s')
  then have "\<And>k. k < up 4 n \<Longrightarrow> cells hw (chip s) (0x08000000 + a + k) = buf k"
    by (simp add: onchip_def add.assoc up_id)
  moreover have "(0x08000000 + a) mod 4 = 0" using 5(3) by presburger
  moreover have "stm32_flash_write hw (0x08000000 + a) buf n s = (r, s')" using 5(2,6) by (simp add: fal_flash_eqs)
  ultimately have "ready hw (chip s') \<and> \<not> Lock s' \<and> cells hw (chip s') = cells hw (chip s)"
    using 5(1,2) stm32_flash_write_again [of hw s "0x08000000 + a" n buf r s'] by simp
  then show ?case using 5(1) by (simp add: onchip_def fun_eq_iff)
qed

section \<open>A reference controller\<close>

text \<open>The behaviour of the reference manual without wear or disturbance: programming a half-word that is
  not erased raises \<^verbatim>\<open>PGERR\<close> unless the new value is zero, any operation raises \<^verbatim>\<open>WRPERR\<close> while
  the controller is locked.\<close>

record sim =
  s_lock :: bool
  s_wrperr :: bool
  s_pgerr :: bool
  s_cells :: memory

definition reference_hw :: "sim hw" where
  "reference_hw =
     \<lparr>start_program = (\<lambda>a d c. if s_lock c then c\<lparr>s_wrperr := True\<rparr>
          else if s_cells c a = 0xFF \<and> s_cells c (a + 1) = 0xFF \<or> d = 0 then c\<lparr>s_cells := st16 a d (s_cells c)\<rparr>
          else c\<lparr>s_pgerr := True\<rparr>),
      start_erase = (\<lambda>a c. if s_lock c then c\<lparr>s_wrperr := True\<rparr>
          else c\<lparr>s_cells := (\<lambda>x. if GetPage a \<le> x \<and> x < GetPage a + 2048 then 0xFF else s_cells c x)\<rparr>),
      settle = (\<lambda>c. Some (\<lparr>EOP = True, WRPERR = s_wrperr c, OPTVERR = False, PGERR = s_pgerr c\<rparr>, c)),
      clear_sr = (\<lambda>c. c\<lparr>s_wrperr := False, s_pgerr := False\<rparr>),
      clear_cr = (\<lambda>c. c),
      write_keys = (\<lambda>c. c\<lparr>s_lock := False\<rparr>),
      set_lock = (\<lambda>c. c\<lparr>s_lock := True\<rparr>),
      lock_bit = s_lock,
      cells = s_cells\<rparr>"

lemma reference_controller: "flash_controller reference_hw"
  unfolding flash_controller_def by (auto simp: reference_hw_def no_error_def st16_def)

lemma reference_same: "m a = ucast (d :: u16) \<Longrightarrow> m (Suc a) = ucast (drop_bit 8 d) \<Longrightarrow> st16 a d m = (m :: memory)"
  by (simp add: st16_def fun_eq_iff)

lemma reference_working: "working_controller reference_hw"
  unfolding working_controller_def using reference_controller
  by (auto simp: reference_hw_def ready_def no_error_def reference_same)

definition blank_chip :: "sim flash" where
  "blank_chip = \<lparr>Lock = False, chip = \<lparr>s_lock = True, s_wrperr = False, s_pgerr = False, s_cells = (\<lambda>x. 0)\<rparr>\<rparr>"

lemma blank_ready: "ready reference_hw (chip blank_chip)"
  by (simp add: ready_def reference_hw_def no_error_def blank_chip_def)

definition erased_chip :: "sim flash" where
  "erased_chip = \<lparr>Lock = False, chip = \<lparr>s_lock = True, s_wrperr = False, s_pgerr = False, s_cells = (\<lambda>x. 0xFF)\<rparr>\<rparr>"

section \<open>Properties\<close>

text \<open>C16: Writes are verified.  Whatever the flash controller does (time-outs, protection and programming
  errors included), a write that reports success has stored every byte; no byte outside the words
  written changes; an unaligned write is refused with no effect.\<close>

theorem stm32_flash_write_correct:
  assumes "flash_controller hw" "stm32_flash_write hw a buf n s = (r, s')"
    and "0x08000000 \<le> a" "a + n \<le> 0x08080000"
  shows "(0 \<le> r \<longrightarrow> r = int n \<and> (\<forall>k < n. cells hw (chip s') (a + k) = buf k)) \<and>
    (\<forall>x. x < a \<or> a + up 4 n \<le> x \<longrightarrow> cells hw (chip s') x = cells hw (chip s) x) \<and>
    (a mod 4 \<noteq> 0 \<longrightarrow> r = - RT_EINVAL \<and> s' = s)"
  using stm32_flash_write_spec [OF assms] unfolding RT_ALIGN_up by blast

theorem stm32_flash_write_correct_witness:
  "\<exists>s'. stm32_flash_write reference_hw 0x08004000 (\<lambda>i. word_of_nat (i + 7)) 6 erased_chip = (6, s') \<and>
     cells reference_hw (chip s') 0x08004005 = 12 \<and> cells reference_hw (chip s') 0x08004009 = 0xFF"
proof -
  have e: "\<And>k. k < up 4 6 \<Longrightarrow> cells reference_hw (chip erased_chip) (0x08004000 + k) = 0xFF"
    by (simp add: erased_chip_def reference_hw_def)
  have "ready reference_hw (chip erased_chip)" by (simp add: ready_def reference_hw_def no_error_def erased_chip_def)
  moreover have "\<not> Lock erased_chip" by (simp add: erased_chip_def)
  ultimately obtain s' where w: "stm32_flash_write reference_hw 0x08004000 (\<lambda>i. word_of_nat (i + 7)) 6 erased_chip = (6, s')"
    using stm32_flash_write_works [OF reference_working _ _ _ _ _ e, where buf = "\<lambda>i. word_of_nat (i + 7)" and n = 6] by auto
  note c = stm32_flash_write_correct [OF reference_controller w]
  have "\<forall>k < 6. cells reference_hw (chip s') (0x08004000 + k) = word_of_nat (k + 7)" using c by simp
  from this [rule_format, of 5] have "cells reference_hw (chip s') (0x08004000 + 5) = word_of_nat (5 + 7)" by simp
  moreover have "cells reference_hw (chip s') 0x08004009 = cells reference_hw (chip erased_chip) 0x08004009"
    using c by (simp add: up_def)
  ultimately show ?thesis using w by (simp add: erased_chip_def reference_hw_def)
qed

text \<open>An erase of no bytes fails: the library's loop leaves its status at the initial error.\<close>

theorem stm32_flash_erase_nothing:
  assumes "flash_controller hw" "0x08000000 \<le> a" "a \<le> 0x08080000"
  shows "fst (stm32_flash_erase hw a 0 s) < 0"
proof -
  obtain r s' where e: "stm32_flash_erase hw a 0 s = (r, s')" by (meson surj_pair)
  then have "\<not> 0 \<le> r" using stm32_flash_erase_spec(3) [OF assms(1) e] assms(2,3) by auto
  then show ?thesis by (simp add: e)
qed

text \<open>An erase that does not start at a page boundary can leave its last page: the number of pages is
  computed from the size alone.\<close>

theorem stm32_flash_erase_short:
  assumes "flash_controller hw" "stm32_flash_erase hw 0x080007FF 2 s = (r, s')"
  shows "cells hw (chip s') 0x08000800 = cells hw (chip s) 0x08000800"
  by (rule stm32_flash_erase_spec(2) [OF assms]) (simp_all add: GetPage_def up_def)

end
