(* ===== verification/Fal.thy ===== *)
theory Fal
  imports Onchip
begin

text \<open>
  The flash abstraction layer, \<^verbatim>\<open>packages/fal-v0.5.0\<close>: the device table, the partition table, and reading,
  writing and erasing inside a partition.  A device is a record of its operations on the state of
  the system.  The partition operations are those of an initialised layer.  The tables are those of
  \<^verbatim>\<open>fal_cfg.h\<close> for the lower board.
\<close>

section \<open>Data\<close>

record 's fal_flash_dev =
  name :: string
  dev_len :: nat
  blk_size :: nat
  op_init :: "('s \<Rightarrow> int \<times> 's) option"
  op_read :: "nat \<Rightarrow> nat \<Rightarrow> 's \<Rightarrow> int \<times> u8 list"
  op_write :: "nat \<Rightarrow> memory \<Rightarrow> nat \<Rightarrow> 's \<Rightarrow> int \<times> 's"
  op_erase :: "nat \<Rightarrow> nat \<Rightarrow> 's \<Rightarrow> int \<times> 's"

record fal_partition =
  part_name :: string
  flash_name :: string
  offset :: nat
  len :: nat

text \<open>The static variables of \<^verbatim>\<open>fal_flash.c\<close>, \<^verbatim>\<open>fal_partition.c\<close> and \<^verbatim>\<open>fal.c\<close>.\<close>

record fal =
  flash_init_ok :: bool
  part_init_ok :: bool
  partition_table_len :: nat
  fal_init_ok :: bool

section \<open>Operations\<close>

abbreviation (input) FAL_DEV_NAME_MAX :: nat where "FAL_DEV_NAME_MAX \<equiv> 24"

definition fal_flash_init :: "'s fal_flash_dev list \<Rightarrow> fal \<Rightarrow> 's \<Rightarrow> int \<times> fal \<times> 's" where
  "fal_flash_init devs f s =
     (if flash_init_ok f then (0, f, s)
      else (0, f\<lparr>flash_init_ok := True\<rparr>,
            fold (\<lambda>d s. case op_init d of None \<Rightarrow> s | Some g \<Rightarrow> snd (g s)) devs s))"

definition fal_flash_device_find :: "'s fal_flash_dev list \<Rightarrow> string \<Rightarrow> 's fal_flash_dev option" where
  "fal_flash_device_find devs nm = find (\<lambda>d. take FAL_DEV_NAME_MAX nm = take FAL_DEV_NAME_MAX (name d)) devs"

fun parts_in_bounds :: "'s fal_flash_dev list \<Rightarrow> fal_partition list \<Rightarrow> bool" where
  "parts_in_bounds devs [] = True"
| "parts_in_bounds devs (p # ps) =
     (case fal_flash_device_find devs (flash_name p) of
        None \<Rightarrow> parts_in_bounds devs ps
      | Some d \<Rightarrow> if dev_len d \<le> offset p then False else parts_in_bounds devs ps)"

definition fal_partition_init :: "'s fal_flash_dev list \<Rightarrow> fal_partition list \<Rightarrow> fal \<Rightarrow> int \<times> fal" where
  "fal_partition_init devs table f =
     (if part_init_ok f then (int (partition_table_len f), f)
      else if parts_in_bounds devs table
      then (int (length table), f\<lparr>partition_table_len := length table, part_init_ok := True\<rparr>)
      else (0, f\<lparr>partition_table_len := 0\<rparr>))"

definition fal_init :: "'s fal_flash_dev list \<Rightarrow> fal_partition list \<Rightarrow> fal \<Rightarrow> 's \<Rightarrow> int \<times> fal \<times> 's" where
  "fal_init devs table f s =
     (let (result, f1, s1) = fal_flash_init devs f s;
          (result', f2) = (if result < 0 then (result, f1) else fal_partition_init devs table f1)
      in (result', f2\<lparr>fal_init_ok := 0 < result'\<rparr>, s1))"

text \<open>The outer \<open>None\<close> is the assertion that never returns.\<close>

definition fal_partition_find :: "fal_partition list \<Rightarrow> fal \<Rightarrow> string \<Rightarrow> fal_partition option option" where
  "fal_partition_find table f nm =
     (if part_init_ok f then Some (find (\<lambda>p. nm = part_name p) (take (partition_table_len f) table)) else None)"

definition fal_partition_read :: "'s fal_flash_dev list \<Rightarrow> fal_partition \<Rightarrow> nat \<Rightarrow> nat \<Rightarrow> 's \<Rightarrow> int \<times> u8 list" where
  "fal_partition_read devs p addr sz s =
     (if len p < (addr + sz) mod 2 ^ 32 then (- 1, [])
      else case fal_flash_device_find devs (flash_name p) of
             None \<Rightarrow> (- 1, [])
           | Some d \<Rightarrow> op_read d ((offset p + addr) mod 2 ^ 32) sz s)"

definition fal_partition_write :: "'s fal_flash_dev list \<Rightarrow> fal_partition \<Rightarrow> nat \<Rightarrow> memory \<Rightarrow> nat \<Rightarrow> 's \<Rightarrow> int \<times> 's" where
  "fal_partition_write devs p addr buf sz s =
     (if len p < (addr + sz) mod 2 ^ 32 then (- 1, s)
      else case fal_flash_device_find devs (flash_name p) of
             None \<Rightarrow> (- 1, s)
           | Some d \<Rightarrow> op_write d ((offset p + addr) mod 2 ^ 32) buf sz s)"

definition fal_partition_erase :: "'s fal_flash_dev list \<Rightarrow> fal_partition \<Rightarrow> nat \<Rightarrow> nat \<Rightarrow> 's \<Rightarrow> int \<times> 's" where
  "fal_partition_erase devs p addr sz s =
     (if len p < (addr + sz) mod 2 ^ 32 then (- 1, s)
      else case fal_flash_device_find devs (flash_name p) of
             None \<Rightarrow> (- 1, s)
           | Some d \<Rightarrow> op_erase d ((offset p + addr) mod 2 ^ 32) sz s)"

definition fal_partition_erase_all :: "'s fal_flash_dev list \<Rightarrow> fal_partition \<Rightarrow> 's \<Rightarrow> int \<times> 's" where
  "fal_partition_erase_all devs p s = fal_partition_erase devs p 0 (len p) s"

section \<open>The tables of the lower board\<close>

definition stm32_onchip_flash :: "'c hw \<Rightarrow> 'c flash fal_flash_dev" where
  "stm32_onchip_flash hw =
     \<lparr>name = ''onchip_flash'', dev_len = STM32_FLASH_SIZE, blk_size = FLASH_PAGE_SIZE, op_init = None,
      op_read = fal_flash_read hw, op_write = fal_flash_write hw, op_erase = fal_flash_erase hw\<rparr>"

definition device_table :: "'c hw \<Rightarrow> 'c flash fal_flash_dev list" where
  "device_table hw = [stm32_onchip_flash hw]"

definition onchip_part :: "string \<Rightarrow> nat \<Rightarrow> nat \<Rightarrow> fal_partition" where
  "onchip_part nm off ln = \<lparr>part_name = nm, flash_name = ''onchip_flash'', offset = off, len = ln\<rparr>"

definition partition_table_def :: "fal_partition list" where
  "partition_table_def =
     [onchip_part ''bl'' 0 (36 * 1024), onchip_part ''app'' (36 * 1024) (200 * 1024),
      onchip_part ''backup'' (236 * 1024) (58 * 1024), onchip_part ''conf'' (294 * 1024) (2 * 1024),
      onchip_part ''download'' (296 * 1024) (216 * 1024)]"

section \<open>A partition of a flash device is a flash device\<close>

locale partition = flash_dev wr er rd bytes ok gran wgran cap
  for wr :: "nat \<Rightarrow> memory \<Rightarrow> nat \<Rightarrow> 's \<Rightarrow> int \<times> 's" and er rd bytes ok gran wgran cap +
  fixes devs :: "'s fal_flash_dev list" and p :: fal_partition and d :: "'s fal_flash_dev"
  assumes device: "fal_flash_device_find devs (flash_name p) = Some d" "op_write d = wr" "op_erase d = er" "op_read d = rd"
    and place: "gran dvd offset p" "offset p + len p \<le> cap" "cap < 2 ^ 32"
begin

lemma ops:
  assumes "a + n \<le> len p"
  shows "fal_partition_write devs p a buf n = wr (offset p + a) buf n"
    and "fal_partition_erase devs p a n = er (offset p + a) n"
    and "fal_partition_read devs p a n = rd (offset p + a) n"
proof -
  have "(a + n) mod 2 ^ 32 = a + n" "(offset p + a) mod 2 ^ 32 = offset p + a"
    using assms place(2,3) by (auto intro!: mod_less)
  then show "fal_partition_write devs p a buf n = wr (offset p + a) buf n"
    "fal_partition_erase devs p a n = er (offset p + a) n" "fal_partition_read devs p a n = rd (offset p + a) n"
    using assms by (auto simp: fun_eq_iff fal_partition_write_def fal_partition_erase_def fal_partition_read_def device)
qed

end

sublocale partition \<subseteq> part: flash_dev "fal_partition_write devs p" "fal_partition_erase devs p" "fal_partition_read devs p"
  "\<lambda>s x. bytes s (offset p + x)" ok gran wgran "len p"
proof (unfold_locales, goal_cases)
  case (4 s a n r s')
  then show ?case using place erase_ok [of s "offset p + a" n r s'] by (simp add: ops)
next
  case (5 s a n r s' x)
  then show ?case using place erase_frame [of s "offset p + a" n r s' "offset p + x"] by (simp add: ops add.assoc)
next
  case (6 s a n r s' x)
  then show ?case using place erase_done [of s "offset p + a" n r s' "offset p + x"] by (simp add: ops add.assoc)
next
  case (7 s a buf n r s')
  then show ?case using place write_ok [of s "offset p + a" buf n r s'] by (simp add: ops)
next
  case (8 s a buf n r s' x)
  then show ?case using place write_frame [of s "offset p + a" buf n r s' "offset p + x"] by (simp add: ops add.assoc)
next
  case (9 s a buf n r s' k)
  then show ?case using place write_done [of s "offset p + a" buf n r s' k] by (simp add: ops add.assoc)
next
  case (10 s a n)
  then have "map (bytes s) [offset p + a ..< offset p + a + n] = map (\<lambda>x. bytes s (offset p + x)) [a ..< a + n]"
    by (intro nth_equalityI) (simp_all add: add.assoc)
  then show ?case using 10 place read_done [of s "offset p + a" n] by (simp add: ops)
qed (use gran_pos in auto)

locale good_partition = partition wr er rd bytes ok gran wgran cap devs p d +
    good_dev wr er rd bytes ok gran wgran cap good
  for wr :: "nat \<Rightarrow> memory \<Rightarrow> nat \<Rightarrow> 's \<Rightarrow> int \<times> 's" and er rd bytes ok gran wgran cap devs p d good

sublocale good_partition \<subseteq> part: good_dev "fal_partition_write devs p" "fal_partition_erase devs p"
  "fal_partition_read devs p" "\<lambda>s x. bytes s (offset p + x)" ok gran wgran "len p" good
proof (unfold_locales, goal_cases)
  case (1 s)
  then show ?case by (rule good_ok)
next
  case (2 s a n r s')
  then show ?case using place erase_good [of s "offset p + a" n r s'] by (simp add: ops)
next
  case (3 s a n)
  then show ?case using place erase_works [of s "offset p + a" n] by (simp add: ops)
next
  case (4 s a n buf)
  have "wgran dvd offset p" using gran_pos(3) place(1) by (rule dvd_trans)
  then show ?case using 4 place write_works [of s "offset p + a" n buf] by (simp add: ops add.assoc)
next
  case (5 s a n buf r s')
  have "wgran dvd offset p" using gran_pos(3) place(1) by (rule dvd_trans)
  then show ?case using 5 place write_again [of s "offset p + a" n buf r s'] by (simp add: ops add.assoc)
qed

section \<open>The partitions of the lower board\<close>

lemma device_find [simp]: "fal_flash_device_find (device_table hw) ''onchip_flash'' = Some (stm32_onchip_flash hw)"
  by (simp add: fal_flash_device_find_def device_table_def stm32_onchip_flash_def)

definition conf_part :: fal_partition where "conf_part = onchip_part ''conf'' (294 * 1024) (2 * 1024)"
definition download_part :: fal_partition where "download_part = onchip_part ''download'' (296 * 1024) (216 * 1024)"

lemma part_sel [simp]:
  "flash_name (onchip_part nm off ln) = ''onchip_flash''" "offset (onchip_part nm off ln) = off" "len (onchip_part nm off ln) = ln"
  "part_name (onchip_part nm off ln) = nm"
  by (simp_all add: onchip_part_def)

interpretation conf: partition "fal_flash_write hw" "fal_flash_erase hw" "fal_flash_read hw" "onchip hw"
  "\<lambda>s. flash_controller hw" 2048 4 "512 * 1024" "device_table hw" conf_part "stm32_onchip_flash hw" for hw :: "'c hw"
  by unfold_locales (simp_all add: conf_part_def stm32_onchip_flash_def)

interpretation download: good_partition "fal_flash_write hw" "fal_flash_erase hw" "fal_flash_read hw" "onchip hw"
  "\<lambda>s. flash_controller hw" 2048 4 "512 * 1024" "device_table hw" download_part "stm32_onchip_flash hw"
  "\<lambda>s. working_controller hw \<and> ready hw (chip s) \<and> \<not> Lock s" for hw :: "'c hw"
  by unfold_locales (simp_all add: download_part_def stm32_onchip_flash_def)

text \<open>After the initialisation every partition of the table is found under its name.\<close>

definition fal_fresh :: fal where
  "fal_fresh = \<lparr>flash_init_ok = False, part_init_ok = False, partition_table_len = 0, fal_init_ok = False\<rparr>"

lemma fal_init_lower:
  "fal_init (device_table hw) partition_table_def fal_fresh s =
     (5, \<lparr>flash_init_ok = True, part_init_ok = True, partition_table_len = 5, fal_init_ok = True\<rparr>, s)"
  by (simp add: fal_init_def fal_flash_init_def fal_partition_init_def partition_table_def_def fal_fresh_def
      device_table_def [of hw, symmetric] fold_simps) (simp add: device_table_def stm32_onchip_flash_def)

lemma fal_find_lower:
  "(case fal_init (device_table hw) partition_table_def fal_fresh s of (r, f, s') \<Rightarrow>
     fal_partition_find partition_table_def f ''conf'' = Some (Some conf_part) \<and>
     fal_partition_find partition_table_def f ''download'' = Some (Some download_part))"
  unfolding fal_init_lower
  by (simp add: fal_partition_find_def partition_table_def_def conf_part_def download_part_def)

text \<open>Pages: erasing up to a page boundary stays below it.\<close>

lemma erase_within:
  assumes "a + n \<le> e" "2048 dvd e"
  shows "GetPage a + pages n \<le> e"
proof -
  have "n \<le> e - GetPage a" using assms(1) GetPage_dvd(2) [of a] by linarith
  moreover have "2048 dvd e - GetPage a" using assms(2) by simp
  ultimately have "pages n \<le> e - GetPage a" by (intro up_le) simp_all
  moreover have "GetPage a \<le> e" using assms(1) GetPage_dvd(2) [of a] by linarith
  ultimately show ?thesis by linarith
qed

lemma table_place:
  assumes "p \<in> set partition_table_def"
  shows "flash_name p = ''onchip_flash''" "offset p + len p \<le> 512 * 1024" "2048 dvd offset p" "2048 dvd len p"
  using assms by (auto simp: partition_table_def_def)

lemma part_isolated:
  assumes "flash_controller hw" "p \<in> set partition_table_def" "addr + sz < 2 ^ 32"
    and "(r, s') = fal_partition_write (device_table hw) p addr buf sz s \<or>
         (r, s') = fal_partition_erase (device_table hw) p addr sz s"
  shows "(x < offset p \<or> offset p + len p \<le> x \<longrightarrow> onchip hw s' x = onchip hw s x) \<and>
         (len p < addr + sz \<longrightarrow> r = - 1 \<and> s' = s)"
proof (cases "len p < addr + sz")
  case True
  then show ?thesis using assms(3,4) by (auto simp: fal_partition_write_def fal_partition_erase_def)
next
  case False
  note tp = table_place [OF assms(2)]
  define a where "a = 0x08000000 + offset p + addr"
  have a: "0x08000000 \<le> a" "a + sz \<le> 0x08080000" using False tp(2) by (auto simp: a_def)
  have m: "(addr + sz) mod 2 ^ 32 = addr + sz" "(offset p + addr) mod 2 ^ 32 = offset p + addr"
    using False tp(2) assms(3) by (auto intro!: mod_less)
  have le: "offset p + addr + sz \<le> 512 * 1024" using False tp(2) by linarith
  have ops: "(r, s') = stm32_flash_write hw a buf sz s \<or> (r, s') = stm32_flash_erase hw a sz s"
    using assms(4) False tp(1) m
    by (simp add: fal_partition_write_def fal_partition_erase_def stm32_onchip_flash_def a_def fal_flash_eqs [OF le]
        add.assoc)
  have "2048 dvd 0x08000000 + (offset p + len p)" using tp by simp
  moreover have "a + sz \<le> 0x08000000 + (offset p + len p)" using False by (simp add: a_def)
  ultimately have pg: "GetPage a + pages sz \<le> 0x08000000 + (offset p + len p)" by (intro erase_within)
  have lo: "0x08000000 + offset p \<le> GetPage a"
  proof -
    have "GetPage (0x08000000 + offset p) = 0x08000000 + offset p" using tp(3) by simp
    moreover have "GetPage (0x08000000 + offset p) \<le> GetPage a"
      by (simp add: GetPage_def a_def minus_mod_eq_mult_div div_le_mono)
    ultimately show ?thesis by simp
  qed
  have wr: "a + up 4 sz \<le> 0x08000000 + (offset p + len p)" if "a mod 4 = 0"
  proof -
    have "4 dvd offset p" "4 dvd len p" using tp(3,4) by (auto intro: dvd_trans [of 4 2048])
    then have "4 dvd 0x08000000 + (offset p + len p)" by (simp add: dvd_add)
    moreover have "4 dvd a" using that by (simp add: dvd_eq_mod_eq_0)
    ultimately have "4 dvd 0x08000000 + (offset p + len p) - a" by (rule dvd_diff_nat)
    moreover have "sz \<le> 0x08000000 + (offset p + len p) - a" using False by (simp add: a_def)
    ultimately have "up 4 sz \<le> 0x08000000 + (offset p + len p) - a" by (intro up_le) simp_all
    then show ?thesis using False by (simp add: a_def)
  qed
  have "onchip hw s' x = onchip hw s x" if x: "x < offset p \<or> offset p + len p \<le> x"
    using ops
  proof
    assume e: "(r, s') = stm32_flash_erase hw a sz s"
    have "0x08000000 + x < GetPage a \<or> GetPage a + pages sz \<le> 0x08000000 + x" using x pg lo by linarith
    then show ?thesis using stm32_flash_erase_spec(2) [OF assms(1) e [symmetric] a] by (simp add: onchip_def)
  next
    assume w: "(r, s') = stm32_flash_write hw a buf sz s"
    note ws = stm32_flash_write_spec [OF assms(1) w [symmetric] a]
    show ?thesis
    proof (cases "a mod 4 = 0")
      case True
      have "0x08000000 + x < a \<or> a + up 4 sz \<le> 0x08000000 + x" using x wr [OF True] unfolding a_def by linarith
      then show ?thesis using ws(2) by (simp add: onchip_def RT_ALIGN_up)
    next
      case False
      then show ?thesis using ws(5) by blast
    qed
  qed
  then show ?thesis using False by simp
qed

text \<open>C15: Partitions are isolated.  Whatever the flash controller answers, a write or erase through one
  partition of the lower board leaves every byte outside that partition as it is, and is refused with
  no effect if it reaches beyond the end of the partition.  The address and the size must not
  overflow 32 bits together: the bounds check of the layer is done in that arithmetic.\<close>

theorem partitions_isolated:
  assumes "flash_controller hw" "p \<in> set partition_table_def" "addr + sz < 2 ^ 32"
    and "(r, s') = fal_partition_write (device_table hw) p addr buf sz s \<or>
         (r, s') = fal_partition_erase (device_table hw) p addr sz s"
  shows "(x < offset p \<or> offset p + len p \<le> x \<longrightarrow> onchip hw s' x = onchip hw s x) \<and>
         (len p < addr + sz \<longrightarrow> r = - 1 \<and> s' = s)"
  using part_isolated [OF assms] .

theorem partitions_isolated_witness:
  "onchip reference_hw (snd (fal_partition_erase (device_table reference_hw) conf_part 0 24 blank_chip)) 5 = 0"
  using partitions_isolated [OF reference_controller, of conf_part 0 24
      "fst (fal_partition_erase (device_table reference_hw) conf_part 0 24 blank_chip)"
      "snd (fal_partition_erase (device_table reference_hw) conf_part 0 24 blank_chip)" "\<lambda>_. 0" blank_chip 5]
  by (simp add: partition_table_def_def conf_part_def) (simp add: onchip_def blank_chip_def reference_hw_def)

text \<open>The bounds check is done in 32-bit arithmetic, so an address just below \<open>2 ^ 32\<close> passes it and
  the write lands in front of the partition.\<close>

theorem fal_check_wraps:
  assumes "working_controller hw" "ready hw (chip s)" "\<not> Lock s"
    and "\<And>k. k < 8 \<Longrightarrow> onchip hw s (294 * 1024 - 4 + k) = 0xFF"
  shows "\<exists>s'. fal_partition_write (device_table hw) conf_part (2 ^ 32 - 4) buf 8 s = (8, s') \<and>
    onchip hw s' (294 * 1024 - 4) = buf 0"
proof -
  have b: "cells hw (chip s) (0x080497FC + k) = 0xFF" if "k < up 4 8" for k
    using assms(4) [of k] that by (simp add: onchip_def up_def)
  obtain s' where w: "stm32_flash_write hw 0x080497FC buf 8 s = (8, s')"
    using stm32_flash_write_works [OF assms(1-3) _ _ _ b, where buf = buf and n = 8] by auto
  then have "fal_partition_write (device_table hw) conf_part (2 ^ 32 - 4) buf 8 s = (8, s')"
    by (simp add: fal_partition_write_def conf_part_def stm32_onchip_flash_def fal_flash_write_def)
  moreover have "onchip hw s' (294 * 1024 - 4) = buf 0"
    using stm32_flash_write_spec(4) [OF working_controllerD(1) [OF assms(1)] w, of 0] by (simp add: onchip_def)
  ultimately show ?thesis by blast
qed

end
