(* ===== verification/Conf.thy ===== *)
theory Conf
  imports Fal Crc Remote Shutdown
begin

text \<open>
  The stored configuration of the lower board, \<^verbatim>\<open>components/lower/lower_conf.cxx\<close>: the five settings with a
  checksum in front of them, in a partition of their own, read at every start.  The theory joins
  the flash driver, the flash abstraction layer, the checksum library and the thing that is
  configured.
\<close>

section \<open>The record in the flash\<close>

text \<open>\<^verbatim>\<open>Meta<DevConfig>\<close>: the checksum, two bytes of padding (zero, as the structure is value-initialised)
  and the settings, as the machine lays them out.\<close>

definition conf_ints :: "dev_config \<Rightarrow> int list" where
  "conf_ints c = [currentLimit c, uploadThr c, fuzedThr c, noloadCurrThr c, doneCurrThr c]"

definition conf_bytes :: "dev_config \<Rightarrow> u8 list" where
  "conf_bytes c = concat (map (\<lambda>i. bytes32 (word_of_int i)) (conf_ints c))"

definition conf_of_bytes :: "u8 list \<Rightarrow> dev_config" where
  "conf_of_bytes bs = (let g = (\<lambda>i. sint (of_bytes32 (take 4 (drop (4 * i) bs))))
     in \<lparr>currentLimit = g 0, uploadThr = g 1, fuzedThr = g 2, noloadCurrThr = g 3, doneCurrThr = g 4\<rparr>)"

definition Meta :: "u16 \<Rightarrow> u8 list \<Rightarrow> u8 list" where
  "Meta hash dat = [ucast hash, ucast (drop_bit 8 hash), 0, 0] @ dat"

definition defualtConf :: dev_config where
  "defualtConf = \<lparr>currentLimit = 4000, uploadThr = 100, fuzedThr = 0, noloadCurrThr = 44, doneCurrThr = 80\<rparr>"

section \<open>Operations\<close>

abbreviation (input) sizeof_data :: nat where "sizeof_data \<equiv> 20"
abbreviation (input) sizeof_meta :: nat where "sizeof_meta \<equiv> 24"

text \<open>A read that fails leaves the zeroes the structure was initialised with.\<close>

definition LowerConf_read :: "'c hw \<Rightarrow> 'c flash \<Rightarrow> dev_config" where
  "LowerConf_read hw s =
     (let (r, bs) = fal_partition_read (device_table hw) conf_part 0 sizeof_meta s;
          meta = (if r < 0 then replicate sizeof_meta 0 else bs);
          crcVal = crc16_cal crc16_table_A001 (drop 4 meta) sizeof_data
      in if crcVal \<noteq> Some (ld16 (\<lambda>i. meta ! i) 0) then defualtConf else conf_of_bytes (drop 4 meta))"

text \<open>The results of the two flash operations are not looked at.\<close>

definition conf_meta :: "dev_config \<Rightarrow> u8 list" where
  "conf_meta c = (case crc16_cal crc16_table_A001 (conf_bytes c) sizeof_data of
     None \<Rightarrow> [] | Some h \<Rightarrow> Meta h (conf_bytes c))"

definition LowerConf_write :: "'c hw \<Rightarrow> dev_config \<Rightarrow> 'c flash \<Rightarrow> 'c flash" where
  "LowerConf_write hw c s =
     (let meta = conf_meta c;
          s1 = snd (fal_partition_erase (device_table hw) conf_part 0 sizeof_meta s)
      in snd (fal_partition_write (device_table hw) conf_part 0 (\<lambda>i. meta ! i) sizeof_meta s1))"

section \<open>Encoding\<close>

lemma conf_bytes_length [simp]: "length (conf_bytes c) = 20"
  by (simp add: conf_bytes_def conf_ints_def bytes32_def)

lemma sint_word_of_int32: "is_int32 v \<Longrightarrow> sint (word_of_int v :: u32) = v"
  by (simp add: is_int32_def sint_sbintrunc' signed_take_bit_int_eq_self)

lemma conf_of_conf_bytes: "command_ok (Config c) \<Longrightarrow> conf_of_bytes (conf_bytes c) = c"
  by (cases c) (simp add: conf_of_bytes_def conf_bytes_def conf_ints_def sint_word_of_int32)

lemma conf_meta_eq:
  obtains h where "conf_meta c = Meta h (conf_bytes c)" "crc16_cal crc16_table_A001 (conf_bytes c) 20 = Some h"
  by (simp add: conf_meta_def crc16_cal_def crc16_cyc_cal_ref [OF crc16_A001.crc_table_axioms])

lemma ld16_Meta: "ld16 (\<lambda>i. Meta h d ! i) 0 = h"
  by (rule bit_word_eqI) (auto simp: Meta_def ld16_def bit_simps)

lemma read_meta:
  assumes "fal_partition_read (device_table hw) conf_part 0 24 s = (24, conf_meta c)" "command_ok (Config c)"
  shows "LowerConf_read hw s = c"
proof -
  obtain h where h: "conf_meta c = Meta h (conf_bytes c)" "crc16_cal crc16_table_A001 (conf_bytes c) 20 = Some h"
    by (rule conf_meta_eq)
  then show ?thesis using assms by (simp add: LowerConf_read_def ld16_Meta conf_of_conf_bytes) (simp add: Meta_def conf_of_conf_bytes)
qed

section \<open>Storing the configuration\<close>

lemma conf_ops:
  assumes "a + n \<le> 2048"
  shows "fal_partition_write (device_table hw) conf_part a buf n = stm32_flash_write hw (0x08049800 + a) buf n"
    and "fal_partition_erase (device_table hw) conf_part a n = stm32_flash_erase hw (0x08049800 + a) n"
  using conf.ops [of a n hw] assms by (simp_all add: conf_part_def fal_flash_eqs add.assoc)

text \<open>The erase and the write report success on a controller that works.\<close>

lemma conf_erase_works:
  assumes "working_controller hw" "ready hw (chip s)" "\<not> Lock s"
  obtains s1 where "fal_partition_erase (device_table hw) conf_part 0 24 s = (24, s1)" "ready hw (chip s1)" "\<not> Lock s1"
    "\<And>x. x < 2048 \<Longrightarrow> onchip hw s1 (294 * 1024 + x) = 0xFF"
proof -
  obtain s1 where s1: "stm32_flash_erase hw 0x08049800 24 s = (24, s1)" "ready hw (chip s1)" "\<not> Lock s1"
    using stm32_flash_erase_works [OF assms, of "0x08049800" 24] by auto
  have e: "fal_partition_erase (device_table hw) conf_part 0 24 s = (24, s1)" using s1(1) by (simp add: conf_ops)
  have "onchip hw s1 (294 * 1024 + x) = 0xFF" if "x < 2048" for x
    using conf.part.erase_done [OF working_controllerD(1) [OF assms(1)] e, of x] that by (simp add: conf_part_def up_def)
  with e s1(2,3) that show ?thesis by blast
qed

lemma conf_write_works:
  assumes "working_controller hw" "ready hw (chip s)" "\<not> Lock s" "\<And>x. x < 2048 \<Longrightarrow> onchip hw s (294 * 1024 + x) = 0xFF"
  obtains s1 where "fal_partition_write (device_table hw) conf_part 0 buf 24 s = (24, s1)" "ready hw (chip s1)" "\<not> Lock s1"
proof -
  have "\<And>k. k < up 4 24 \<Longrightarrow> cells hw (chip s) (0x08049800 + k) = 0xFF"
    using assms(4) by (simp add: onchip_def up_def)
  from stm32_flash_write_works [OF assms(1-3) _ _ _ this, where buf = buf and n = 24] that show ?thesis by (auto simp: conf_ops)
qed

text \<open>An erased record is not a configuration: its checksum is wrong.\<close>

lemma read_erased:
  assumes "flash_controller hw" "\<And>x. x < 2048 \<Longrightarrow> onchip hw s (294 * 1024 + x) = 0xFF"
  shows "LowerConf_read hw s = defualtConf"
proof -
  have "fal_partition_read (device_table hw) conf_part 0 24 s = (24, map (\<lambda>x. onchip hw s (offset conf_part + x)) [0 ..< 0 + 24])"
    using conf.part.read_done [OF assms(1), of 0 24 s] by (simp add: conf_part_def)
  moreover have "map (\<lambda>x. onchip hw s (offset conf_part + x)) [0 ..< 0 + 24] = replicate 24 0xFF"
    using assms(2) by (intro nth_equalityI) (simp_all add: conf_part_def)
  moreover have "crc16_cal crc16_table_A001 (replicate 20 0xFF) 20 \<noteq> Some 0xFFFF" by code_simp
  moreover have "ld16 (\<lambda>i. replicate 24 (0xFF :: u8) ! i) 0 = 0xFFFF" by code_simp
  ultimately show ?thesis by (simp add: LowerConf_read_def)
qed

lemma write_read:
  assumes "working_controller hw" "ready hw (chip s)" "\<not> Lock s" "command_ok (Config c)"
  shows "LowerConf_read hw (LowerConf_write hw c s) = c \<and>
    LowerConf_read hw (snd (fal_partition_erase (device_table hw) conf_part 0 24 s)) = defualtConf \<and>
    ready hw (chip (LowerConf_write hw c s)) \<and> \<not> Lock (LowerConf_write hw c s) \<and>
    (\<forall>x. x < 294 * 1024 \<or> 296 * 1024 \<le> x \<longrightarrow> onchip hw (LowerConf_write hw c s) x = onchip hw s x)"
proof -
  note F = working_controllerD(1) [OF assms(1)]
  obtain s1 where e: "fal_partition_erase (device_table hw) conf_part 0 24 s = (24, s1)" "ready hw (chip s1)" "\<not> Lock s1"
    "\<And>x. x < 2048 \<Longrightarrow> onchip hw s1 (294 * 1024 + x) = 0xFF" using conf_erase_works [OF assms(1-3)] by blast
  obtain s2 where w: "fal_partition_write (device_table hw) conf_part 0 (\<lambda>i. conf_meta c ! i) 24 s1 = (24, s2)"
    "ready hw (chip s2)" "\<not> Lock s2"
    using conf_write_works [OF assms(1) e(2-4)] by blast
  have s2: "LowerConf_write hw c s = s2" using e(1) w(1) by (simp add: LowerConf_write_def)
  have "length (conf_meta c) = 24" by (rule conf_meta_eq [of c]) (simp add: Meta_def)
  then have "map (\<lambda>i. conf_meta c ! i) [0 ..< 24] = conf_meta c" by (metis map_nth)
  then have "fal_partition_read (device_table hw) conf_part 0 24 s2 = (24, conf_meta c)"
    using conf.part.erase_write(2) [OF F _ _ e(1) _ w(1)] by (simp add: conf_part_def)
  then have 1: "LowerConf_read hw s2 = c" using assms(4) by (rule read_meta)
  have 2: "LowerConf_read hw s1 = defualtConf" by (rule read_erased [OF F e(4)])
  have "conf_part \<in> set partition_table_def" by (simp add: partition_table_def_def conf_part_def)
  then have "onchip hw s2 x = onchip hw s x" if "x < 294 * 1024 \<or> 296 * 1024 \<le> x" for x
    using part_isolated [OF F _ _ disjI1 [OF w(1) [symmetric]], of x] part_isolated [OF F _ _ disjI2 [OF e(1) [symmetric]], of x] that
    by (auto simp: conf_part_def)
  with 1 2 s2 e(1) w(2,3) show ?thesis by simp
qed

text \<open>C9: The configuration survives.  On a flash controller that works, a configuration that was written is
  the one read at the next start, and writing it changes no byte outside the configuration's
  partition.  Writing is not atomic: if the power fails between the erase and the write, the next
  start finds the built-in defaults, neither the new configuration nor the old one.\<close>

theorem conf_roundtrip:
  assumes "working_controller hw" "ready hw (chip s)" "\<not> Lock s" "command_ok (Config c)"
  shows "LowerConf_read hw (LowerConf_write hw c s) = c \<and>
    LowerConf_read hw (snd (fal_partition_erase (device_table hw) conf_part 0 24 s)) = defualtConf \<and>
    (\<forall>x. x < 294 * 1024 \<or> 296 * 1024 \<le> x \<longrightarrow> onchip hw (LowerConf_write hw c s) x = onchip hw s x)"
  using write_read [OF assms] by blast

theorem conf_roundtrip_witness:
  "LowerConf_read reference_hw (LowerConf_write reference_hw (defualtConf\<lparr>currentLimit := 2500\<rparr>) blank_chip) =
     defualtConf\<lparr>currentLimit := 2500\<rparr>"
  using conf_roundtrip [OF reference_working blank_ready, of "defualtConf\<lparr>currentLimit := 2500\<rparr>"]
  by (simp add: blank_chip_def defualtConf_def is_int32_def)

section \<open>The configuration in force\<close>

text \<open>What an operation of the thing does to the flash: \<^verbatim>\<open>Thing::config\<close> calls \<^verbatim>\<open>LowerConf::write\<close>.\<close>

fun stored :: "'c hw \<Rightarrow> op \<Rightarrow> 'c flash \<Rightarrow> 'c flash" where
  "stored hw (Op_Config c) s = LowerConf_write hw c s"
| "stored hw _ s = s"

lemma stored_conf:
  assumes "working_controller hw" "\<And>c. Op_Config c \<in> set xs \<Longrightarrow> command_ok (Config c)"
    and "ready hw (chip s)" "\<not> Lock s" "LowerConf_read hw s = conf t"
  shows "LowerConf_read hw (fold (stored hw) xs s) = conf (fold (exec facc g) xs t)"
  using assms(2-)
proof (induction xs arbitrary: s t)
  case (Cons x xs)
  have "ready hw (chip (stored hw x s)) \<and> \<not> Lock (stored hw x s) \<and> LowerConf_read hw (stored hw x s) = conf (exec facc g x t)"
  proof (cases "\<exists>c. x = Op_Config c")
    case True
    then obtain c where c: "x = Op_Config c" by blast
    then show ?thesis using write_read [OF assms(1) Cons.prems(2,3), of c] Cons.prems(1) by (simp add: Thing_config_def)
  next
    case False
    then have "stored hw x s = s" by (cases x) simp_all
    moreover have "conf (exec facc g x t) = conf t" unfolding exec_ctl using False by (cases x) simp_all
    ultimately show ?thesis using Cons.prems by simp
  qed
  then show ?case using Cons.IH [of "stored hw x s" "exec facc g x t"] Cons.prems(1) by simp
qed simp

text \<open>C14: The flash holds the configuration in force.  Over any history of timers, readings and commands, the
  configuration the thing works with is the one its flash partition holds, so that a thing started
  anew from the same flash has it too.  The abstract cell that the model of the thing has for the
  configuration is thus implemented by the flash.\<close>

theorem conf_in_force:
  assumes "working_controller hw" "ready hw (chip s)" "\<not> Lock s"
    and "\<And>c. Op_Config c \<in> set xs \<Longrightarrow> command_ok (Config c)"
  shows "conf (Thing_new g u (LowerConf_read hw (fold (stored hw) xs s)) fl) =
    conf (fold (exec facc g) xs (Thing_new g u (LowerConf_read hw s) fl))"
  using stored_conf [OF assms(1,4,2,3)] by (simp add: Thing_new_def)

theorem conf_in_force_witness:
  "\<forall>u fl. conf (Thing_new False u (LowerConf_read reference_hw
       (fold (stored reference_hw) [Op_Counter, Op_Config (defualtConf\<lparr>currentLimit := 2500\<rparr>)] blank_chip)) fl) =
     defualtConf\<lparr>currentLimit := 2500\<rparr>"
proof (intro allI)
  fix u :: spec and fl :: "nat \<Rightarrow> backup"
  show "conf (Thing_new False u (LowerConf_read reference_hw
       (fold (stored reference_hw) [Op_Counter, Op_Config (defualtConf\<lparr>currentLimit := 2500\<rparr>)] blank_chip)) fl) =
     defualtConf\<lparr>currentLimit := 2500\<rparr>"
    using conf_in_force [OF reference_working blank_ready, of "[Op_Counter, Op_Config (defualtConf\<lparr>currentLimit := 2500\<rparr>)]"
        False u fl "\<lambda>_ _ _ _. 0"]
    by (simp add: blank_chip_def defualtConf_def is_int32_def Thing_config_def)
qed

end
