(* ===== verification/Userinput.thy ===== *)
theory Userinput
  imports Pile
begin

text \<open>
  How a customer orders a charge at the upper board: the touch keys (\<^verbatim>\<open>devices/ttp229.cxx\<close>), the keyboard that
  filters them (\<^verbatim>\<open>components/keyboard.cxx\<close>), the port states reported by the lower board
  (\<^verbatim>\<open>components/app_state.cxx\<close>), and the dialogue of card, port number and confirmation
  (\<^verbatim>\<open>components/user_input.cxx\<close>).
\<close>

section \<open>The touch keys\<close>

text \<open>The sixteen bits read from the device, lowest first.  The word with only the last bit set is dropped;
  every other word with a single bit set is a key code, anything else is no key.\<close>

definition ttp229_keyCode :: "u16 \<Rightarrow> nat" where
  "ttp229_keyCode v = (case find (\<lambda>i. v = push_bit i 1) [0 ..< 16] of None \<Rightarrow> 0 | Some i \<Rightarrow> i + 1)"

definition ttp229_onData :: "u16 \<Rightarrow> nat option" where
  "ttp229_onData v = (if v \<noteq> 0x8000 then Some (ttp229_keyCode v) else None)"

section \<open>The keyboard\<close>

datatype keys = K0 | K1 | K2 | K3 | K4 | K5 | K6 | K7 | K8 | K9 | Ret | Ok

fun key_code :: "keys \<Rightarrow> nat" where
  "key_code K1 = 15" | "key_code K2 = 14" | "key_code K3 = 13"
| "key_code K4 = 10" | "key_code K5 = 11" | "key_code K6 = 12"
| "key_code K7 = 9" | "key_code K8 = 4" | "key_code K9 = 5"
| "key_code Ret = 6" | "key_code K0 = 7" | "key_code Ok = 8"

definition key_values :: "keys list" where
  "key_values = [K1, K2, K3, K4, K5, K6, K7, K8, K9, Ret, K0, Ok]"

fun keyMap :: "keys \<Rightarrow> nat option" where
  "keyMap K0 = Some 0" | "keyMap K1 = Some 1" | "keyMap K2 = Some 2" | "keyMap K3 = Some 3" | "keyMap K4 = Some 4"
| "keyMap K5 = Some 5" | "keyMap K6 = Some 6" | "keyMap K7 = Some 7" | "keyMap K8 = Some 8" | "keyMap K9 = Some 9"
| "keyMap Ret = None" | "keyMap Ok = None"

definition isNumberKey :: "keys \<Rightarrow> bool" where
  "isNumberKey k = (keyMap k \<noteq> None)"

text \<open>\<open>None\<close> is the exception.\<close>

definition keyToNumber :: "keys \<Rightarrow> nat option" where
  "keyToNumber k = keyMap k"

record keyboard =
  kb_i :: nat
  kb_data :: "nat list"
  currData :: nat
  kb_value :: "keys option"

abbreviation (input) validThr :: nat where "validThr \<equiv> 6"

definition Keyboard_new :: keyboard where
  "Keyboard_new = \<lparr>kb_i = 0, kb_data = replicate 8 0, currData = 0, kb_value = None\<rparr>"

definition Keyboard_onData :: "nat \<Rightarrow> keyboard \<Rightarrow> keyboard" where
  "Keyboard_onData d k = k\<lparr>currData := d\<rparr>"

text \<open>The histogram of sixteen counters; \<open>None\<close> is an access outside of it.  All counters are zero before,
  since the array is cleared at the end of every run (the first run falls into the first two seconds).\<close>

fun histogram :: "nat list \<Rightarrow> nat list \<Rightarrow> nat list option" where
  "histogram h [] = Some h"
| "histogram h (d # ds) = (if d < length h then histogram (h[d := h ! d + 1]) ds else None)"

text \<open>\<^verbatim>\<open>std::max_element\<close>: the first of the largest.\<close>

fun max_element :: "nat list \<Rightarrow> nat" where
  "max_element [] = 0"
| "max_element [x] = 0"
| "max_element (x # y # ys) = (let j = max_element (y # ys) in if x < (y # ys) ! j then j + 1 else 0)"

definition key_of :: "nat \<Rightarrow> keys option" where
  "key_of m = find (\<lambda>k. key_code k = m) key_values"

definition Keyboard_run :: "nat \<Rightarrow> keyboard \<Rightarrow> keyboard option" where
  "Keyboard_run now k =
     (let i = (kb_i k + 1) mod length (kb_data k);
          dat = (kb_data k)[i := currData k];
          k1 = k\<lparr>kb_i := i, kb_data := dat\<rparr>
      in case histogram (replicate 16 0) dat of
           None \<Rightarrow> None
         | Some hist \<Rightarrow>
             (let mode = max_element hist; cnt = hist ! mode
              in if cnt < validThr \<or> now < 2000 then Some k1
                 else if mode = 0 then Some (k1\<lparr>kb_value := None\<rparr>)
                 else case key_of mode of None \<Rightarrow> Some k1 | Some key \<Rightarrow> Some (k1\<lparr>kb_value := Some key\<rparr>)))"

section \<open>The dialogue\<close>

text \<open>\<^verbatim>\<open>NatPort\<close> and \<^verbatim>\<open>InnerPort\<close>: numbers of one byte.\<close>

definition inner_port :: "u8 \<Rightarrow> u8" where "inner_port p = 10 - p"

definition NatPort_validate :: "u8 \<Rightarrow> bool" where "NatPort_validate p = (inner_port p < 10)"

record user_input =
  cardInvalid :: count_down
  lastCard :: string
  currPort :: "int option"
  portStates :: "state list"

datatype ui_error = CardRequired | PortSelectRequired | PortInvalidError u8 | PortInUseError u8

datatype ui_event = Card_Swipe string | Confirm u8 string | Admin_ClearConf | Error_Output ui_error

definition UserInput_new :: user_input where
  "UserInput_new = \<lparr>cardInvalid = CountDown 60, lastCard = [], currPort = None, portStates = replicate 10 LoadNotInsert\<rparr>"

definition retrigger :: "user_input \<Rightarrow> user_input" where
  "retrigger u = u\<lparr>cardInvalid := cd_retrigger (cardInvalid u)\<rparr>"

definition on_card :: "string \<Rightarrow> user_input \<Rightarrow> user_input \<times> ui_event list" where
  "on_card c u = ((retrigger (u\<lparr>lastCard := c\<rparr>))\<lparr>currPort := None\<rparr>, [Card_Swipe c])"

definition timer_run :: "user_input \<Rightarrow> user_input" where
  "timer_run u = (let (cd, over) = cd_updateAndCheck (cardInvalid u);
                      u1 = u\<lparr>cardInvalid := cd\<rparr>
                  in if over then u1\<lparr>lastCard := []\<rparr> else u1)"

abbreviation (input) ClearConf :: int where "ClearConf \<equiv> 9527"

definition on_ok :: "user_input \<Rightarrow> user_input \<times> ui_event list" where
  "on_ok u =
     (if currPort u = Some ClearConf then (u\<lparr>currPort := None\<rparr>, [Admin_ClearConf])
      else if lastCard u = [] then (u, [Error_Output CardRequired])
      else case currPort u of
             None \<Rightarrow> (retrigger u, [Error_Output PortSelectRequired])
           | Some n \<Rightarrow>
               (let port = word_of_int n :: u8;
                    (u1, out) =
                      (if n > 255 \<or> \<not> NatPort_validate port then (retrigger u, [Error_Output (PortInvalidError port)])
                       else if portStates u ! unat (inner_port port) = Charging then (retrigger u, [Error_Output (PortInUseError port)])
                       else (u\<lparr>cardInvalid := cd_forceTrigger (cardInvalid u)\<rparr>, [Confirm port (lastCard u)]))
                in (u1\<lparr>currPort := None\<rparr>, out)))"

definition on_number :: "nat \<Rightarrow> user_input \<Rightarrow> user_input" where
  "on_number num u =
     (let n = (case currPort u of None \<Rightarrow> 0 | Some n \<Rightarrow> n)
      in u\<lparr>currPort := Some (if n < 9999 then n * 10 + int num else n)\<rparr>)"

definition on_key :: "keys option \<Rightarrow> user_input \<Rightarrow> user_input \<times> ui_event list" where
  "on_key key u =
     (case key of
        None \<Rightarrow> (u, [])
      | Some k \<Rightarrow>
          if lastCard u = [] then (u, [Error_Output CardRequired])
          else if k = Ret then (u\<lparr>currPort := None\<rparr>, [])
          else if k = Ok then on_ok u
          else case keyToNumber k of None \<Rightarrow> (u, []) | Some num \<Rightarrow> (on_number num u, []))"

text \<open>\<^verbatim>\<open>AppState\<close>: a state packet of the lower board.  Its port is used as an index without a check;
  \<open>None\<close> is the access outside of the array.\<close>

definition on_state :: "u8 \<Rightarrow> state \<Rightarrow> user_input \<Rightarrow> user_input option" where
  "on_state p st u =
     (if unat p < length (portStates u) then Some (u\<lparr>portStates := (portStates u)[unat p := st]\<rparr>) else None)"

datatype ui_op = Swipe string | Second | Key "keys option" | Port_State u8 state

fun ui_step :: "ui_op \<Rightarrow> user_input \<Rightarrow> (user_input \<times> ui_event list) option" where
  "ui_step (Swipe c) u = Some (on_card c u)"
| "ui_step Second u = Some (timer_run u, [])"
| "ui_step (Key k) u = Some (on_key k u)"
| "ui_step (Port_State p st) u = map_option (\<lambda>u1. (u1, [])) (on_state p st u)"

text \<open>A history, the latest operation first.\<close>

fun ui_run :: "ui_op list \<Rightarrow> user_input option" where
  "ui_run [] = Some UserInput_new"
| "ui_run (x # xs) = (case ui_run xs of None \<Rightarrow> None | Some u \<Rightarrow> map_option fst (ui_step x u))"

text \<open>What a history says by itself: the card swiped last, how many seconds ago, the states the lower board
  reported last, and the digits typed since the last swipe, return or confirmation.\<close>

fun last_swipe :: "ui_op list \<Rightarrow> string option" where
  "last_swipe [] = None"
| "last_swipe (Swipe c # xs) = Some c"
| "last_swipe (x # xs) = last_swipe xs"

fun seconds_since :: "ui_op list \<Rightarrow> nat" where
  "seconds_since [] = 0"
| "seconds_since (Swipe c # xs) = 0"
| "seconds_since (Second # xs) = Suc (seconds_since xs)"
| "seconds_since (x # xs) = seconds_since xs"

fun reported :: "ui_op list \<Rightarrow> nat \<Rightarrow> state" where
  "reported [] i = LoadNotInsert"
| "reported (Port_State p st # xs) i = (if unat p = i then st else reported xs i)"
| "reported (x # xs) i = reported xs i"

fun entered :: "ui_op list \<Rightarrow> nat list" where
  "entered [] = []"
| "entered (Swipe c # xs) = []"
| "entered (Key (Some k) # xs) = (case keyMap k of None \<Rightarrow> [] | Some d \<Rightarrow> entered xs @ [d])"
| "entered (x # xs) = entered xs"

definition decimal :: "nat list \<Rightarrow> nat" where
  "decimal = foldl (\<lambda>n d. n * 10 + d) 0"

fun ports_exist :: "ui_op list \<Rightarrow> bool" where
  "ports_exist [] = True"
| "ports_exist (Port_State p st # xs) = (p < 10 \<and> ports_exist xs)"
| "ports_exist (x # xs) = ports_exist xs"

section \<open>The keyboard filters its samples\<close>

lemma keyCode_bound: "v \<noteq> 0x8000 \<Longrightarrow> ttp229_keyCode v < 16"
proof (cases "find (\<lambda>i. v = push_bit i 1) [0 ..< 16]")
  case (Some i)
  assume v: "v \<noteq> 0x8000"
  have i: "i < 16" "v = push_bit i 1"
    using Some by (auto simp: find_Some_iff)
  have "i \<noteq> 15"
    using v i(2) by auto
  then show ?thesis
    using Some i(1) by (simp add: ttp229_keyCode_def)
qed (simp add: ttp229_keyCode_def)

lemma histogram_counts:
  assumes "\<forall>d \<in> set ds. d < length h"
  shows "\<exists>h'. histogram h ds = Some h' \<and> length h' = length h \<and> (\<forall>d < length h. h' ! d = h ! d + count_list ds d)"
  using assms
proof (induction ds arbitrary: h)
  case (Cons d ds)
  from Cons.IH [of "h[d := h ! d + 1]"] Cons.prems show ?case
    by (auto simp: nth_list_update)
qed simp

lemma max_element_max:
  "xs \<noteq> [] \<Longrightarrow> max_element xs < length xs \<and> (\<forall>j < length xs. xs ! j \<le> xs ! max_element xs)"
proof (induction xs rule: max_element.induct)
  case (3 x y ys)
  then have IH: "max_element (y # ys) < length (y # ys)"
    "\<And>j. j < length (y # ys) \<Longrightarrow> (y # ys) ! j \<le> (y # ys) ! max_element (y # ys)"
    by auto
  show ?case
  proof (cases "x < (y # ys) ! max_element (y # ys)")
    case True
    have "(x # y # ys) ! j \<le> (y # ys) ! max_element (y # ys)" if "j < length (x # y # ys)" for j
      using that True IH(2) [of "j - 1"] by (cases j) auto
    then show ?thesis
      using True IH(1) by (simp add: Let_def)
  next
    case False
    have "(x # y # ys) ! j \<le> x" if "j < length (x # y # ys)" for j
      using that False IH(2) [of "j - 1"] by (cases j) auto
    then show ?thesis
      using False by (simp add: Let_def)
  qed
qed auto

text \<open>The eight samples kept, oldest first, are the ring read from the slot written next.\<close>

definition window :: "keyboard \<Rightarrow> nat list" where
  "window k = rotate (kb_i k + 1) (kb_data k)"

definition kb_ok :: "keyboard \<Rightarrow> bool" where
  "kb_ok k = (length (kb_data k) = 8 \<and> kb_i k < 8 \<and> (\<forall>d \<in> set (kb_data k). d < 16) \<and> currData k < 16)"

lemma rotate_update:
  assumes "i < length xs"
  shows "rotate (Suc i) (xs[i := v]) = tl (rotate i xs) @ [v]"
proof -
  have "rotate i (xs[i := v]) = v # tl (rotate i xs)"
    using assms by (simp add: rotate_drop_take drop_update_cancel Cons_nth_drop_Suc [symmetric] tl_drop
      drop_Suc [symmetric] tl_append split: list.split)
  then show ?thesis
    by simp
qed

text \<open>The reference: a value that at least six of the eight samples agree on, if there is one.\<close>

definition agreed :: "nat list \<Rightarrow> nat option" where
  "agreed w = find (\<lambda>c. 6 \<le> count_list w c) [0 ..< 16]"

definition filtered :: "nat list \<Rightarrow> keys option \<Rightarrow> keys option" where
  "filtered w old =
     (case agreed w of None \<Rightarrow> old
      | Some c \<Rightarrow> if c = 0 then None else case key_of c of None \<Rightarrow> old | Some k \<Rightarrow> Some k)"

lemma count_list_pair: "a \<noteq> b \<Longrightarrow> count_list w a + count_list w b \<le> length w"
  by (induction w) auto

lemma agreed_mode:
  assumes len: "length w = 8" and m: "m < 16" "6 \<le> count_list w m"
  shows "agreed w = Some m"
proof (cases "agreed w")
  case None
  then have "\<not> 6 \<le> count_list w m"
    using m(1) by (auto simp: agreed_def find_None_iff)
  then show ?thesis
    using m(2) by simp
next
  case (Some c)
  then have c: "6 \<le> count_list w c"
    by (auto simp: agreed_def find_Some_iff)
  have "c = m"
    using c m(2) len count_list_pair [of c m w] by fastforce
  then show ?thesis
    using Some by simp
qed

lemma agreed_none: "\<forall>c < 16. count_list w c < 6 \<Longrightarrow> agreed w = None"
  by (auto simp: agreed_def find_None_iff)

lemma agreed_rotate: "agreed (rotate n w) = agreed w"
proof -
  have "count_list (rotate n w) c = count_list w c" for c
    unfolding rotate_drop_take by (metis add.commute append_take_drop_id count_list_append)
  then show ?thesis
    by (simp add: agreed_def)
qed

lemma histogram_agreed:
  assumes len: "length w = 8" and rng: "\<forall>d \<in> set w. d < 16"
  obtains h where "histogram (replicate 16 0) w = Some h" "h ! max_element h < 6 \<Longrightarrow> agreed w = None"
    "6 \<le> h ! max_element h \<Longrightarrow> agreed w = Some (max_element h)"
proof -
  obtain h where h: "histogram (replicate 16 0) w = Some h" "length h = 16" "\<forall>d < 16. h ! d = count_list w d"
    using histogram_counts [of w "replicate 16 0"] rng by auto
  have m: "max_element h < 16" "\<forall>j < 16. h ! j \<le> h ! max_element h"
    using max_element_max [of h] h(2) by fastforce+
  show ?thesis
  proof (rule that [OF h(1)])
    show "agreed w = None" if "h ! max_element h < 6"
      using that m h(3) by (intro agreed_none) (metis le_less_trans)
    show "agreed w = Some (max_element h)" if "6 \<le> h ! max_element h"
      using that m h(3) len by (intro agreed_mode) auto
  qed
qed

lemma Keyboard_run_value:
  fixes k :: keyboard
  defines "i \<equiv> (kb_i k + 1) mod 8"
  defines "dat \<equiv> (kb_data k)[i := currData k]"
  assumes len: "length (kb_data k) = 8" and rng: "\<forall>d \<in> set dat. d < 16" and now: "2000 \<le> now"
  shows "Keyboard_run now k = Some (k\<lparr>kb_i := i, kb_data := dat, kb_value := filtered dat (kb_value k)\<rparr>)"
proof -
  have "length dat = 8"
    using len by (simp add: dat_def)
  then obtain h where h: "histogram (replicate 16 0) dat = Some h" "h ! max_element h < 6 \<Longrightarrow> agreed dat = None"
    "6 \<le> h ! max_element h \<Longrightarrow> agreed dat = Some (max_element h)"
    using histogram_agreed [OF _ rng] by blast
  have run: "Keyboard_run now k =
     (if h ! max_element h < 6 then Some (k\<lparr>kb_i := i, kb_data := dat\<rparr>)
      else if max_element h = 0 then Some (k\<lparr>kb_i := i, kb_data := dat, kb_value := None\<rparr>)
      else case key_of (max_element h) of None \<Rightarrow> Some (k\<lparr>kb_i := i, kb_data := dat\<rparr>)
           | Some key \<Rightarrow> Some (k\<lparr>kb_i := i, kb_data := dat, kb_value := Some key\<rparr>))"
    unfolding Keyboard_run_def len i_def [symmetric] Let_def dat_def [symmetric] h(1) using now by simp
  show ?thesis
  proof (cases "h ! max_element h < 6")
    case True
    then show ?thesis
      using h(2) by (simp add: run filtered_def)
  next
    case False
    then have "agreed dat = Some (max_element h)"
      using h(3) by simp
    then show ?thesis
      using False by (simp add: run filtered_def split: option.split)
  qed
qed

lemma Keyboard_run_window:
  assumes ok: "kb_ok k" and now: "2000 \<le> now"
  shows "\<exists>k'. Keyboard_run now k = Some k' \<and> kb_ok k' \<and> window k' = tl (window k) @ [currData k] \<and>
           kb_value k' = filtered (window k') (kb_value k) \<and> currData k' = currData k"
proof -
  define i where "i = (kb_i k + 1) mod 8"
  define dat where "dat = (kb_data k)[i := currData k]"
  have i: "i < 8" and len: "length (kb_data k) = 8" "length dat = 8"
    using ok by (auto simp: i_def kb_ok_def dat_def)
  have rng: "\<forall>d \<in> set dat. d < 16"
    using ok set_update_subset_insert [of "kb_data k" i "currData k"] by (auto simp: dat_def kb_ok_def)
  define k' where "k' = k\<lparr>kb_i := i, kb_data := dat, kb_value := filtered dat (kb_value k)\<rparr>"
  have win: "window k' = tl (window k) @ [currData k]"
    unfolding window_def rotate_conv_mod [of "kb_i k + 1"]
    using rotate_update [of i "kb_data k" "currData k"] i len(1) by (simp add: i_def dat_def k'_def)
  have "agreed (window k') = agreed dat"
    unfolding window_def agreed_rotate by (simp add: k'_def)
  then have "kb_value k' = filtered (window k') (kb_value k)"
    by (simp add: filtered_def k'_def)
  moreover have "kb_ok k'"
    using ok i len(2) rng by (simp add: kb_ok_def k'_def)
  moreover have "Keyboard_run now k = Some k'"
    using Keyboard_run_value [OF len(1) _ now] rng unfolding k'_def dat_def i_def by blast
  ultimately show ?thesis
    using win by (intro exI [of _ k']) (simp add: k'_def)
qed

text \<open>The keyboard over a history: at each of its runs, 50 milliseconds apart, the word the touch chip sent
  last.\<close>

fun Keyboard_runs :: "(nat \<times> u16) list \<Rightarrow> keyboard \<Rightarrow> keyboard option" where
  "Keyboard_runs [] k = Some k"
| "Keyboard_runs ((now, v) # xs) k =
     (case Keyboard_run now (case ttp229_onData v of None \<Rightarrow> k | Some d \<Rightarrow> Keyboard_onData d k) of
        None \<Rightarrow> None | Some k' \<Rightarrow> Keyboard_runs xs k')"

text \<open>The reference: the filter over the list of key codes, each word that is dropped repeating the code
  before.\<close>

fun codes :: "nat \<Rightarrow> u16 list \<Rightarrow> nat list" where
  "codes d [] = []"
| "codes d (v # vs) = (let d' = (if v = 0x8000 then d else ttp229_keyCode v) in d' # codes d' vs)"

fun keys_seen :: "nat list \<Rightarrow> nat list \<Rightarrow> keys option \<Rightarrow> keys option" where
  "keys_seen w [] key = key"
| "keys_seen w (d # ds) key = (let w' = tl w @ [d] in keys_seen w' ds (filtered w' key))"

lemma Keyboard_runs_spec:
  assumes "kb_ok k" "\<forall>(now, v) \<in> set xs. 2000 \<le> now"
  shows "\<exists>k'. Keyboard_runs xs k = Some k' \<and> kb_ok k' \<and>
           kb_value k' = keys_seen (window k) (codes (currData k) (map snd xs)) (kb_value k)"
  using assms
proof (induction xs arbitrary: k)
  case (Cons x xs)
  obtain now v where x: "x = (now, v)"
    by (cases x)
  define k1 where "k1 = (case ttp229_onData v of None \<Rightarrow> k | Some d \<Rightarrow> Keyboard_onData d k)"
  have k1: "kb_ok k1" "window k1 = window k" "kb_value k1 = kb_value k"
    "currData k1 = (if v = 0x8000 then currData k else ttp229_keyCode v)"
    using Cons.prems(1) keyCode_bound [of v]
    by (auto simp: k1_def ttp229_onData_def Keyboard_onData_def kb_ok_def window_def)
  obtain k2 where k2: "Keyboard_run now k1 = Some k2" "kb_ok k2" "window k2 = tl (window k) @ [currData k1]"
    "kb_value k2 = filtered (window k2) (kb_value k)" "currData k2 = currData k1"
    using Keyboard_run_window [OF k1(1), of now] Cons.prems(2) x k1 by auto
  have "\<exists>k'. Keyboard_runs xs k2 = Some k' \<and> kb_ok k' \<and>
          kb_value k' = keys_seen (window k2) (codes (currData k2) (map snd xs)) (kb_value k2)"
    using Cons.IH [OF k2(2)] Cons.prems(2) by simp
  then show ?case
    using x k1(4) k2 by (simp add: k1_def [symmetric] Let_def)
qed simp



section \<open>The dialogue\<close>

definition capped :: "nat list \<Rightarrow> int" where
  "capped = foldl (\<lambda>n d. if n < 9999 then n * 10 + int d else n) 0"

lemma capped_snoc: "capped (ds @ [d]) = (if capped ds < 9999 then capped ds * 10 + int d else capped ds)"
  by (simp add: capped_def)

lemma capped_decimal: "capped ds < 9999 \<Longrightarrow> capped ds = int (decimal ds)"
proof (induction ds rule: rev_induct)
  case (snoc d ds)
  have "capped ds < 9999"
    using snoc.prems by (auto simp: capped_snoc split: if_splits)
  then show ?case
    using snoc.IH by (simp add: capped_snoc decimal_def)
qed (simp add: capped_def decimal_def)

definition card_ok :: "ui_op list \<Rightarrow> user_input \<Rightarrow> bool" where
  "card_ok xs u =
     (counting (cardInvalid u) \<and> 0 < currVal (cardInvalid u) \<and>
      unat (currVal (cardInvalid u)) + seconds_since xs \<le> 60 \<and> last_swipe xs = Some (lastCard u) \<and>
      currPort u = (if entered xs = [] then None else Some (capped (entered xs))))"

definition ui_inv :: "ui_op list \<Rightarrow> user_input \<Rightarrow> bool" where
  "ui_inv xs u =
     (initVal (cardInvalid u) = 60 \<and> currVal (cardInvalid u) \<le> 60 \<and>
      length (portStates u) = 10 \<and>
      (\<forall>i < 10. portStates u ! i = reported xs i) \<and> (lastCard u \<noteq> [] \<longrightarrow> card_ok xs u))"

lemma inv_new: "ui_inv [] UserInput_new"
  by (simp add: ui_inv_def UserInput_new_def CountDown_def)

lemma inv_swipe: "ui_inv xs u \<Longrightarrow> ui_inv (Swipe c # xs) (fst (on_card c u))"
  by (auto simp: ui_inv_def on_card_def retrigger_def cd_retrigger_def Let_def card_ok_def word_le_nat_alt
      word_neq_0_conv)

lemma unat_dec:
  fixes c :: u8
  assumes "c \<noteq> 0"
  shows "unat (c - 1) = unat c - 1" "0 < unat c" "unat c - Suc 0 + n \<le> 59 \<longleftrightarrow> unat c + n \<le> 60"
proof -
  show "unat (c - 1) = unat c - 1"
    using assms by (rule unat_minus_one)
  show "0 < unat c"
    using assms by (simp add: unat_gt_0)
  then show "unat c - Suc 0 + n \<le> 59 \<longleftrightarrow> unat c + n \<le> 60"
    by linarith
qed

lemma inv_second: "ui_inv xs u \<Longrightarrow> ui_inv (Second # xs) (timer_run u)"
  by (auto simp: ui_inv_def timer_run_def cd_updateAndCheck_def Let_def card_ok_def word_le_nat_alt unat_dec
      word_neq_0_conv [symmetric] unat_eq_0 split: if_splits)

lemma inv_state:
  assumes "ui_inv xs u" "on_state p st u = Some u'"
  shows "ui_inv (Port_State p st # xs) u'"
  using assms by (auto simp: ui_inv_def on_state_def card_ok_def nth_list_update split: if_splits)

lemma inv_ok:
  assumes inv: "ui_inv xs u" and card: "lastCard u \<noteq> []"
  shows "ui_inv (Key (Some Ok) # xs) (fst (on_ok u))"
proof -
  have c: "card_ok xs u"
    using assms by (simp add: ui_inv_def)
  then have pos: "currVal (cardInvalid u) \<noteq> 0" "Suc (seconds_since xs) \<le> 60"
    using unat_gt_0 [of "currVal (cardInvalid u)"] by (auto simp: card_ok_def)
  show ?thesis
    using inv c pos unfolding on_ok_def ui_inv_def card_ok_def
    by (auto simp: retrigger_def cd_retrigger_def cd_forceTrigger_def Let_def split: option.splits if_splits)
qed

lemma keyMap_None: "keyMap k = None \<longleftrightarrow> k = Ret \<or> k = Ok"
  by (cases k) auto

lemma inv_key: "ui_inv xs u \<Longrightarrow> ui_inv (Key key # xs) (fst (on_key key u))"
proof (cases "key = None \<or> lastCard u = []")
  case True
  assume inv: "ui_inv xs u"
  then show ?thesis
    using True by (cases key) (auto simp: on_key_def ui_inv_def card_ok_def)
next
  case False
  assume inv: "ui_inv xs u"
  from False obtain k where k: "key = Some k" and card: "lastCard u \<noteq> []"
    by auto
  show ?thesis
  proof (cases "keyMap k")
    case None
    then consider "k = Ret" | "k = Ok"
      by (auto simp: keyMap_None)
    then show ?thesis
      using inv inv_ok [OF inv card] by cases (auto simp: k card on_key_def ui_inv_def card_ok_def)
  next
    case (Some d)
    then have "k \<noteq> Ret" "k \<noteq> Ok"
      by auto
    then show ?thesis
      using inv card Some
      by (auto simp: k on_key_def on_number_def ui_inv_def card_ok_def keyToNumber_def Let_def capped_snoc capped_def)
  qed
qed

lemma ui_run_inv: "ui_run xs = Some u \<Longrightarrow> ui_inv xs u"
proof (induction xs arbitrary: u)
  case Nil
  then show ?case
    using inv_new by simp
next
  case (Cons x xs)
  then obtain u0 where u0: "ui_inv xs u0" "map_option fst (ui_step x u0) = Some u"
    by (auto split: option.splits)
  then show ?case
    using inv_swipe inv_second inv_key inv_state by (cases x) auto
qed

lemma inner_port_nat: "p \<le> 10 \<Longrightarrow> unat (inner_port p) = 10 - unat p"
  unfolding inner_port_def by (subst unat_sub) auto

lemma valid_port: "NatPort_validate p \<longleftrightarrow> 1 \<le> p \<and> p \<le> 10"
proof (cases "p \<le> 10")
  case True
  then show ?thesis
    by (auto simp: NatPort_validate_def word_less_nat_alt word_le_nat_alt inner_port_nat)
next
  case False
  then have "unat (inner_port p) = 266 - unat p"
    by (simp add: inner_port_def unat_sub_if_size word_size word_le_nat_alt)
  moreover have "\<not> 266 - unat p < 10"
    using unat_ucast_u8_less [of p] by linarith
  ultimately show ?thesis
    using False by (simp add: NatPort_validate_def word_less_nat_alt)
qed

lemma on_ok_confirm:
  assumes "Confirm p c \<in> set (snd (on_ok u))"
  shows "lastCard u = c" "c \<noteq> []" "currPort u = Some (uint p) \<or> (\<exists>n < 0. currPort u = Some n)"
    "1 \<le> p" "p \<le> 10" "portStates u ! unat (inner_port p) \<noteq> Charging"
proof -
  from assms obtain n where n: "currPort u = Some n" "lastCard u \<noteq> []" "n \<le> 255" "p = word_of_int n"
    "NatPort_validate p" "portStates u ! unat (inner_port p) \<noteq> Charging" "c = lastCard u"
    by (auto simp: on_ok_def Let_def split: if_splits option.splits)
  show "lastCard u = c" "c \<noteq> []" "portStates u ! unat (inner_port p) \<noteq> Charging"
    using n by auto
  show "1 \<le> p" "p \<le> 10"
    using n(5) by (auto simp: valid_port)
  show "currPort u = Some (uint p) \<or> (\<exists>n < 0. currPort u = Some n)"
    using n(1,3,4) by (cases "n < 0") (auto simp: uint_word_of_int take_bit_eq_mod)
qed

lemma ui_step_confirm:
  assumes "ui_step x u = Some (u', out)" "Confirm p c \<in> set out"
  shows "x = Key (Some Ok)" "lastCard u \<noteq> []" "Confirm p c \<in> set (snd (on_ok u))" "u' = fst (on_ok u)"
proof -
  show "x = Key (Some Ok)"
    using assms by (cases x) (auto simp: on_card_def on_key_def split: if_splits option.splits)
  then show "lastCard u \<noteq> []" "Confirm p c \<in> set (snd (on_ok u))" "u' = fst (on_ok u)"
    using assms by (auto simp: on_key_def split: if_splits)
qed

lemma capped_nonneg: "0 \<le> capped ds"
  by (induction ds rule: rev_induct) (auto simp: capped_snoc capped_def)

lemma card_ok_live: "card_ok xs u \<Longrightarrow> last_swipe xs = Some (lastCard u) \<and> seconds_since xs < 60"
  using unat_gt_0 [of "currVal (cardInvalid u)"] by (auto simp: card_ok_def)

lemma card_ok_port: "card_ok xs u \<Longrightarrow> currPort u = (if entered xs = [] then None else Some (capped (entered xs)))"
  by (simp add: card_ok_def)

text \<open>C8: Every charge the dialogue orders is one the customer asked for: whatever happened before, a confirmation
  is sent only at the Ok key, for the card that was swiped last and less than 60 seconds ago, for the port whose
  number was typed since then (or since the last Ret or Ok), and that port exists and was not reported as
  charging.\<close>

theorem confirm_safe:
  assumes "ui_run xs = Some u" "ui_step x u = Some (u', out)" "Confirm p c \<in> set out"
  shows "x = Key (Some Ok) \<and> last_swipe xs = Some c \<and> seconds_since xs < 60 \<and>
         entered xs \<noteq> [] \<and> decimal (entered xs) = unat p \<and> 1 \<le> p \<and> p \<le> 10 \<and>
         reported xs (10 - unat p) \<noteq> Charging"
proof -
  have inv: "ui_inv xs u"
    using assms(1) by (rule ui_run_inv)
  note st = ui_step_confirm [OF assms(2,3)]
  note ok = on_ok_confirm [OF st(3)]
  have card: "card_ok xs u"
    using inv st(2) by (simp add: ui_inv_def)
  then have live: "last_swipe xs = Some c" "seconds_since xs < 60"
    using ok(1) card_ok_live [of xs u] by auto
  have ent: "entered xs \<noteq> []" "capped (entered xs) = uint p"
    using ok(3) card_ok_port [OF card] capped_nonneg [of "entered xs"] by (auto split: if_splits)
  have "uint p < 9999"
    using uint_bounded [of p] by simp
  then have "decimal (entered xs) = unat p"
    using capped_decimal [of "entered xs"] ent(2) by (simp only: unat_eq_nat_uint nat_int)
  moreover have "10 - unat p < 10"
    using ok(4) by (simp add: word_le_nat_alt)
  then have "reported xs (10 - unat p) \<noteq> Charging"
    using inv ok(6) inner_port_nat [OF ok(5)] by (simp add: ui_inv_def)
  ultimately show ?thesis
    using st(1) live ent(1) ok(4,5) by blast
qed

definition sample_history :: "ui_op list" where
  "sample_history = [Key (Some K3), Second, Key (Some Ret), Key (Some K1), Swipe ''A1'', Port_State 6 Charging]"

lemma sample_history_runs:
  "\<exists>u u'. ui_run sample_history = Some u \<and> ui_step (Key (Some Ok)) u = Some (u', [Confirm 3 ''A1''])"
  by (simp add: sample_history_def UserInput_new_def on_state_def on_card_def on_key_def on_number_def timer_run_def
      on_ok_def retrigger_def cd_retrigger_def cd_updateAndCheck_def CountDown_def Let_def keyToNumber_def
      NatPort_validate_def inner_port_def)

text \<open>The port 3 is ordered with port 4 in use.\<close>

theorem confirm_safe_witness:
  "(\<exists>u u'. ui_run sample_history = Some u \<and> ui_step (Key (Some Ok)) u = Some (u', [Confirm 3 ''A1''])) \<and>
   last_swipe sample_history = Some ''A1'' \<and> decimal (entered sample_history) = 3 \<and>
   reported sample_history 7 \<noteq> Charging"
proof -
  obtain u u' where "ui_run sample_history = Some u" "ui_step (Key (Some Ok)) u = Some (u', [Confirm 3 ''A1''])"
    using sample_history_runs by blast
  then show ?thesis
    using confirm_safe [of sample_history u "Key (Some Ok)" u' "[Confirm 3 ''A1'']" 3 "''A1''"] by auto
qed

lemma ports_run: "ports_exist xs \<Longrightarrow> \<exists>u. ui_run xs = Some u"
proof (induction xs)
  case (Cons x xs)
  then obtain u where u: "ui_run xs = Some u"
    by (cases x) auto
  then have "length (portStates u) = 10"
    using ui_run_inv [OF u] by (simp add: ui_inv_def)
  then show ?case
    using u Cons.prems by (cases x) (auto simp: on_state_def word_less_nat_alt)
qed simp

text \<open>C24: A card left behind is forgotten: in every history in which the lower board reports only ports that exist,
  the dialogue runs, and 60 seconds after the last swipe no card is left, so that every key is answered by the
  request for one, whatever was typed in between.\<close>

theorem card_expires:
  assumes "ports_exist xs" "60 \<le> seconds_since xs"
  shows "\<exists>u. ui_run xs = Some u \<and> lastCard u = [] \<and> on_key (Some k) u = (u, [Error_Output CardRequired])"
proof -
  obtain u where u: "ui_run xs = Some u"
    using ports_run [OF assms(1)] by blast
  have "lastCard u = []"
    using ui_run_inv [OF u] card_ok_live [of xs u] assms(2) by (auto simp: ui_inv_def)
  then show ?thesis
    using u by (simp add: on_key_def)
qed

lemma replicate_seconds: "seconds_since (replicate n Second @ xs) = n + seconds_since xs"
  by (induction n) auto

theorem card_expires_witness:
  "\<exists>u. ui_run (replicate 60 Second @ [Key (Some K1), Swipe ''A1'']) = Some u \<and> lastCard u = [] \<and>
     on_key (Some Ok) u = (u, [Error_Output CardRequired])"
proof (rule card_expires)
  show "ports_exist (replicate 60 Second @ [Key (Some K1), Swipe ''A1''])"
    by (simp add: numeral_eq_Suc)
  show "60 \<le> seconds_since (replicate 60 Second @ [Key (Some K1), Swipe ''A1''])"
    by (simp add: replicate_seconds)
qed

text \<open>The flaw: a swipe sets the count only when it has run out.  After a confirmation the count is 1 until the
  next second, and a card swiped in between does not set it anew.\<close>

definition about_to_expire :: "user_input \<Rightarrow> bool" where
  "about_to_expire u = (counting (cardInvalid u) \<and> currVal (cardInvalid u) = 1)"

lemma confirm_about_to_expire: "Confirm p c \<in> set (snd (on_ok u)) \<Longrightarrow> about_to_expire (fst (on_ok u))"
  by (auto simp: on_ok_def about_to_expire_def cd_forceTrigger_def Let_def split: if_splits option.splits)

lemma on_ok_expire: "about_to_expire u \<Longrightarrow> about_to_expire (fst (on_ok u))"
  by (auto simp: on_ok_def about_to_expire_def cd_forceTrigger_def retrigger_def cd_retrigger_def Let_def
      split: if_splits option.splits)

lemma step_about_to_expire:
  assumes "about_to_expire u" "map_option fst (ui_step x u) = Some u'" "x \<noteq> Second"
  shows "about_to_expire u'"
  using assms on_ok_expire [OF assms(1)]
  by (cases x) (auto simp: on_card_def on_key_def on_number_def on_state_def about_to_expire_def retrigger_def
      cd_retrigger_def Let_def split: if_splits option.splits)

lemma run_about_to_expire:
  assumes "ui_run (ys @ zs) = Some u'" "Second \<notin> set ys" "\<And>u. ui_run zs = Some u \<Longrightarrow> about_to_expire u"
  shows "about_to_expire u'"
  using assms(1,2)
proof (induction ys arbitrary: u')
  case (Cons y ys)
  then obtain u where u: "ui_run (ys @ zs) = Some u" "map_option fst (ui_step y u) = Some u'"
    by (auto split: option.splits)
  then show ?case
    using Cons step_about_to_expire by auto
qed (use assms(3) in simp)

text \<open>A card swiped too soon is lost: once a charge was confirmed, whatever happens before the next second
  (\<open>ys\<close>: in particular another customer's card), that second leaves the dialogue without a card.\<close>

theorem card_short_lived:
  assumes "ui_run xs = Some u" "ui_step x u = Some (u', out)" "Confirm p c \<in> set out"
    "Second \<notin> set ys" "ui_run (Second # ys @ x # xs) = Some u2"
  shows "lastCard u2 = []"
proof -
  note st = ui_step_confirm [OF assms(2,3)]
  have "ui_run (x # xs) = Some (fst (on_ok u))"
    using assms(1,2) st(4) by simp
  then have expire: "about_to_expire u1" if "ui_run (x # xs) = Some u1" for u1
    using that confirm_about_to_expire [OF st(3)] by simp
  obtain u1 where u1: "ui_run (ys @ x # xs) = Some u1" "u2 = timer_run u1"
    using assms(5) by (auto split: option.splits)
  then have "about_to_expire u1"
    using run_about_to_expire [OF u1(1) assms(4) expire] by blast
  then show ?thesis
    by (simp add: u1(2) about_to_expire_def timer_run_def cd_updateAndCheck_def)
qed

text \<open>The next customer's card is gone after less than a second.\<close>

theorem card_short_lived_witness:
  "\<exists>u2. ui_run (Second # [Swipe ''B2''] @ Key (Some Ok) # sample_history) = Some u2 \<and> lastCard u2 = []"
proof -
  obtain u u' where u: "ui_run sample_history = Some u" "ui_step (Key (Some Ok)) u = Some (u', [Confirm 3 ''A1''])"
    using sample_history_runs by blast
  obtain u2 where u2: "ui_run (Second # [Swipe ''B2''] @ Key (Some Ok) # sample_history) = Some u2"
    using ports_run [of "Second # [Swipe ''B2''] @ Key (Some Ok) # sample_history"] by (auto simp: sample_history_def)
  then show ?thesis
    using card_short_lived [OF u, of 3 "''A1''" "[Swipe ''B2'']" u2] by simp
qed

end
