(* ===== verification/Sfud.thy ===== *)
theory Sfud
  imports Flashdev
begin

text \<open>
  The serial flash driver of the upper board: \<^verbatim>\<open>rt-thread/components/drivers/spi/sfud/src/sfud.c\<close> and
  \<^verbatim>\<open>sfud_sfdp.c\<close>, with the bus access of \<^verbatim>\<open>spi_flash_sfud.c\<close>.  The flash chip behind the bus is a parameter:
  a transfer sends some bytes and receives some, and may fail.  What the data sheets of such chips say is the
  predicate \<open>nor_chip\<close>, which allows transfers to fail at any time and with any effect inside the range of
  the command; \<open>working_nor\<close> says in addition that nothing fails.  The lock of the bus is the kernel's mutex and
  makes every operation atomic; the assertions of the driver are not compiled in (\<^verbatim>\<open>SFUD_DEBUG_MODE\<close> is not set).  Addresses and sizes are natural numbers; sums are taken modulo
  \<open>2 ^ 32\<close> where the code compares them.
\<close>

section \<open>The bus\<close>

datatype sfud_err = SFUD_SUCCESS | SFUD_ERR_NOT_FOUND | SFUD_ERR_WRITE | SFUD_ERR_READ | SFUD_ERR_TIMEOUT
  | SFUD_ERR_ADDR_OUT_OF_BOUND

text \<open>\<open>xfer\<close> is the transfer by \<^verbatim>\<open>rt_spi_send_then_recv\<close> or \<^verbatim>\<open>rt_spi_send\<close>: whether it succeeded, the bytes received, and
  the chip afterwards.  The other fields are what the data sheet speaks of: the memory array as it is when the operation in progress has
  ended, the write enable latch, the busy bit, the four-byte address mode, the size of the array, and the block size of
  each erase command.\<close>

record 'c nor =
  xfer :: "u8 list \<Rightarrow> nat \<Rightarrow> 'c \<Rightarrow> bool \<times> u8 list \<times> 'c"
  array :: "'c \<Rightarrow> memory"
  latch :: "'c \<Rightarrow> bool"
  busy :: "'c \<Rightarrow> bool"
  four :: "'c \<Rightarrow> bool"
  array_size :: nat
  block_size :: "u8 \<Rightarrow> nat option"

definition spi_write_read :: "'c nor \<Rightarrow> u8 list \<Rightarrow> nat \<Rightarrow> 'c \<Rightarrow> sfud_err \<times> u8 list \<times> 'c" where
  "spi_write_read b w n c =
     (case xfer b w n c of (done, dat, c1) \<Rightarrow> (if done then SFUD_SUCCESS else SFUD_ERR_TIMEOUT, dat, c1))"

section \<open>The driver's structures\<close>

record sfud_flash_chip =
  chip_name :: "string option"
  mf_id :: u8
  type_id :: u8
  capacity_id :: u8
  capacity :: nat
  write_mode :: u16
  erase_gran :: nat
  erase_gran_cmd :: u8

abbreviation (input) SFUD_WM_PAGE_256B :: u16 where "SFUD_WM_PAGE_256B \<equiv> 1"
abbreviation (input) SFUD_WM_BYTE :: u16 where "SFUD_WM_BYTE \<equiv> 2"
abbreviation (input) SFUD_WM_AAI :: u16 where "SFUD_WM_AAI \<equiv> 4"
abbreviation (input) SFUD_WM_DUAL_BUFFER :: u16 where "SFUD_WM_DUAL_BUFFER \<equiv> 8"

record eraser =
  e_size :: nat
  e_cmd :: u8

record sfud_sfdp =
  available :: bool
  major_rev :: u8
  minor_rev :: u8
  write_gran :: nat
  erase_4k :: bool
  erase_4k_cmd :: u8
  sr_is_non_vola :: bool
  vola_sr_we_cmd :: u8
  addr_3_byte :: bool
  addr_4_byte :: bool
  sfdp_capacity :: nat
  erasers :: "eraser list"

record sfud_flash =
  fchip :: sfud_flash_chip
  sf_init_ok :: bool
  addr_in_4_byte :: bool
  retry_times :: nat
  sfdp :: sfud_sfdp

section \<open>Registers\<close>

definition sfud_read_status :: "'c nor \<Rightarrow> 'c \<Rightarrow> sfud_err \<times> u8 \<times> 'c" where
  "sfud_read_status b c = (case spi_write_read b [0x05] 1 c of (r, dat, c1) \<Rightarrow> (r, (case dat of [] \<Rightarrow> 0 | s # _ \<Rightarrow> s), c1))"

fun wait_loop :: "'c nor \<Rightarrow> nat \<Rightarrow> 'c \<Rightarrow> sfud_err \<times> 'c" where
  "wait_loop b k c =
     (case sfud_read_status b c of (r, status, c1) \<Rightarrow>
        if r = SFUD_SUCCESS \<and> status AND 1 = 0 then (SFUD_SUCCESS, c1)
        else if k = 0 then (SFUD_ERR_TIMEOUT, c1)
        else wait_loop b (k - 1) c1)"

declare wait_loop.simps [simp del]

definition wait_busy :: "'c nor \<Rightarrow> sfud_flash \<Rightarrow> 'c \<Rightarrow> sfud_err \<times> 'c" where
  "wait_busy b f c = wait_loop b (retry_times f) c"

text \<open>The test after disabling compares bit 1 with the number 1.\<close>

definition set_write_enabled :: "'c nor \<Rightarrow> bool \<Rightarrow> 'c \<Rightarrow> sfud_err \<times> 'c" where
  "set_write_enabled b enabled c =
     (case spi_write_read b [if enabled then 0x06 else 0x04] 0 c of (r, _, c1) \<Rightarrow>
        if r \<noteq> SFUD_SUCCESS then (r, c1)
        else case sfud_read_status b c1 of (r, status, c2) \<Rightarrow>
          if r \<noteq> SFUD_SUCCESS then (r, c2)
          else if enabled \<and> status AND 2 = 0 then (SFUD_ERR_WRITE, c2)
          else if \<not> enabled \<and> status AND 2 = 1 then (SFUD_ERR_WRITE, c2)
          else (SFUD_SUCCESS, c2))"

definition make_adress_byte_array :: "sfud_flash \<Rightarrow> nat \<Rightarrow> u8 list" where
  "make_adress_byte_array f a =
     (let n = (if addr_in_4_byte f then 4 else 3) in map (\<lambda>i. word_of_nat (a div 256 ^ (n - (i + 1)))) [0 ..< n])"

definition sfud_write_status :: "'c nor \<Rightarrow> bool \<Rightarrow> u8 \<Rightarrow> 'c \<Rightarrow> sfud_err \<times> 'c" where
  "sfud_write_status b is_volatile status c =
     (case (if is_volatile then (case spi_write_read b [0x50] 0 c of (r, _, c1) \<Rightarrow> (r, c1)) else set_write_enabled b True c) of
        (r, c1) \<Rightarrow> if r \<noteq> SFUD_SUCCESS then (r, c1)
                   else case spi_write_read b [0x01, status] 0 c1 of (r, _, c2) \<Rightarrow> (r, c2))"

section \<open>Reading, erasing, writing\<close>

definition sfud_read :: "'c nor \<Rightarrow> sfud_flash \<Rightarrow> nat \<Rightarrow> nat \<Rightarrow> 'c \<Rightarrow> sfud_err \<times> u8 list \<times> 'c" where
  "sfud_read b f a n c =
     (if capacity (fchip f) < (a + n) mod 2 ^ 32 then (SFUD_ERR_ADDR_OUT_OF_BOUND, [], c)
      else case wait_busy b f c of (r, c1) \<Rightarrow>
             if r \<noteq> SFUD_SUCCESS then (r, [], c1)
             else spi_write_read b (0x03 # make_adress_byte_array f a) n c1)"

text \<open>\<open>finish\<close> is the common end: the write enable latch is cleared whatever the result was.\<close>

definition finish :: "'c nor \<Rightarrow> sfud_err \<times> 'c \<Rightarrow> sfud_err \<times> 'c" where
  "finish b = (\<lambda>(r, c). (r, snd (set_write_enabled b False c)))"

text \<open>One write operation: enable, send the command, wait.\<close>

definition command :: "'c nor \<Rightarrow> sfud_flash \<Rightarrow> u8 list \<Rightarrow> 'c \<Rightarrow> sfud_err \<times> 'c" where
  "command b f w c =
     (case set_write_enabled b True c of (r, c1) \<Rightarrow>
        if r \<noteq> SFUD_SUCCESS then (r, c1)
        else case spi_write_read b w 0 c1 of (r, _, c2) \<Rightarrow>
          if r \<noteq> SFUD_SUCCESS then (r, c2) else wait_busy b f c2)"

definition sfud_chip_erase :: "'c nor \<Rightarrow> sfud_flash \<Rightarrow> 'c \<Rightarrow> sfud_err \<times> 'c" where
  "sfud_chip_erase b f c =
     finish b (command b f (if write_mode (fchip f) AND SFUD_WM_DUAL_BUFFER \<noteq> 0 then [0xC7, 0x94, 0x80, 0x9A] else [0xC7]) c)"

text \<open>The largest eraser that fits, searched from the end of the table.  \<open>None\<close> is the division by an eraser size of zero.\<close>

fun find_eraser :: "eraser list \<Rightarrow> nat \<Rightarrow> nat \<Rightarrow> nat \<Rightarrow> nat" where
  "find_eraser es a n i =
     (if e_size (es ! i) \<noteq> 0 \<and> e_size (es ! i) \<le> n \<and> a mod e_size (es ! i) = 0 then i
      else if i = 0 then 0
      else find_eraser es a n (i - 1))"

declare find_eraser.simps [simp del]

definition sfud_sfdp_get_suitable_eraser :: "sfud_flash \<Rightarrow> nat \<Rightarrow> nat \<Rightarrow> nat option" where
  "sfud_sfdp_get_suitable_eraser f a n =
     (let es = erasers (sfdp f)
      in if e_size (es ! 0) = 0 then None
         else if a mod e_size (es ! 0) \<noteq> 0 then Some 0 else Some (find_eraser es a n 3))"

definition pick_eraser :: "sfud_flash \<Rightarrow> nat \<Rightarrow> nat \<Rightarrow> eraser option" where
  "pick_eraser f a n =
     (if available (sfdp f) then map_option (\<lambda>i. erasers (sfdp f) ! i) (sfud_sfdp_get_suitable_eraser f a n)
      else Some \<lparr>e_size = erase_gran (fchip f), e_cmd = erase_gran_cmd (fchip f)\<rparr>)"

lemma erase_progress: "0 < (e :: nat) \<Longrightarrow> e - a mod e < n \<Longrightarrow> n + a mod e - e < n"
  using mod_less_divisor [of e a] by linarith

function erase_loop :: "'c nor \<Rightarrow> sfud_flash \<Rightarrow> nat \<Rightarrow> nat \<Rightarrow> 'c \<Rightarrow> (sfud_err \<times> 'c) option" where
  "erase_loop b f a n c =
     (if n = 0 then Some (SFUD_SUCCESS, c)
      else
        case pick_eraser f a n of
          None \<Rightarrow> None
        | Some e \<Rightarrow>
            case command b f (e_cmd e # make_adress_byte_array f a) c of (r, c1) \<Rightarrow>
              if r \<noteq> SFUD_SUCCESS then Some (r, c1)
              else if e_size e = 0 then None
              else
                let step = e_size e - a mod e_size e in
                if n > step then erase_loop b f (a + step) (n - step) c1 else Some (SFUD_SUCCESS, c1))"
  by pat_completeness auto

termination
  by (relation "measure (\<lambda>(b, f, a, n, c). n)") (auto intro!: erase_progress)

declare erase_loop.simps [simp del]

definition sfud_erase :: "'c nor \<Rightarrow> sfud_flash \<Rightarrow> nat \<Rightarrow> nat \<Rightarrow> 'c \<Rightarrow> (sfud_err \<times> 'c) option" where
  "sfud_erase b f a n c =
     (if capacity (fchip f) < (a + n) mod 2 ^ 32 then Some (SFUD_ERR_ADDR_OUT_OF_BOUND, c)
      else if a = 0 \<and> n = capacity (fchip f) then Some (sfud_chip_erase b f c)
      else map_option (finish b) (erase_loop b f a n c))"

text \<open>The two granularities the callers use.\<close>

datatype gran = Byte1 | Page256

fun gran_bytes :: "gran \<Rightarrow> nat" where
  "gran_bytes Byte1 = 1"
| "gran_bytes Page256 = 256"

lemma gran_pos [simp]: "0 < gran_bytes g"
  by (cases g) simp_all

definition data_size :: "gran \<Rightarrow> nat \<Rightarrow> nat \<Rightarrow> nat" where
  "data_size g a n =
     (if a mod gran_bytes g \<noteq> 0
      then if n > gran_bytes g - a mod gran_bytes g then gran_bytes g - a mod gran_bytes g else n
      else if n > gran_bytes g then gran_bytes g else n)"

lemma data_size_bounds: "0 < n \<Longrightarrow> 0 < data_size g a n \<and> data_size g a n \<le> n"
  using mod_less_divisor [of "gran_bytes g" a] by (auto simp: data_size_def)

function page_loop :: "'c nor \<Rightarrow> sfud_flash \<Rightarrow> nat \<Rightarrow> nat \<Rightarrow> gran \<Rightarrow> memory \<Rightarrow> 'c \<Rightarrow> sfud_err \<times> 'c" where
  "page_loop b f a n g dat c =
     (if n = 0 then (SFUD_SUCCESS, c)
      else
        let k = data_size g a n in
        case command b f (0x02 # make_adress_byte_array f a @ map dat [0 ..< k]) c of (r, c1) \<Rightarrow>
          if r \<noteq> SFUD_SUCCESS then (r, c1) else page_loop b f (a + k) (n - k) g (\<lambda>i. dat (k + i)) c1)"
  by pat_completeness auto

termination
  by (relation "measure (\<lambda>(b, f, a, n, g, dat, c). n)") (use data_size_bounds in \<open>auto intro!: diff_less\<close>)

declare page_loop.simps [simp del]

definition page256_or_1_byte_write :: "'c nor \<Rightarrow> sfud_flash \<Rightarrow> nat \<Rightarrow> nat \<Rightarrow> gran \<Rightarrow> memory \<Rightarrow> 'c \<Rightarrow> sfud_err \<times> 'c" where
  "page256_or_1_byte_write b f a n g dat c =
     (if capacity (fchip f) < (a + n) mod 2 ^ 32 then (SFUD_ERR_ADDR_OUT_OF_BOUND, c)
      else finish b (page_loop b f a n g dat c))"

text \<open>Auto address increment: the address is sent with the first two bytes only.\<close>

fun aai_loop :: "'c nor \<Rightarrow> sfud_flash \<Rightarrow> nat \<Rightarrow> nat \<Rightarrow> memory \<Rightarrow> bool \<Rightarrow> 'c \<Rightarrow> sfud_err \<times> nat \<times> nat \<times> memory \<times> 'c" where
  "aai_loop b f a n dat first_write c =
     (if n < 2 then (SFUD_SUCCESS, a, n, dat, c)
      else
        let w = (if first_write then 0xAD # make_adress_byte_array f a @ [dat 0, dat 1] else [0xAD, dat 0, dat 1]) in
        case spi_write_read b w 0 c of (r, _, c1) \<Rightarrow>
          if r \<noteq> SFUD_SUCCESS then (r, a, n, dat, c1)
          else case wait_busy b f c1 of (r, c2) \<Rightarrow>
            if r \<noteq> SFUD_SUCCESS then (r, a, n, dat, c2)
            else aai_loop b f (a + 2) (n - 2) (\<lambda>i. dat (2 + i)) False c2)"

declare aai_loop.simps [simp del]

text \<open>An odd first address is written as a single byte; a size of zero then wraps.\<close>

definition aai_rest :: "'c nor \<Rightarrow> sfud_flash \<Rightarrow> nat \<Rightarrow> nat \<Rightarrow> memory \<Rightarrow> 'c \<Rightarrow> sfud_err \<times> 'c" where
  "aai_rest b f a n dat c =
     (case set_write_enabled b True c of (r, c1) \<Rightarrow>
        if r \<noteq> SFUD_SUCCESS then (r, c1)
        else case aai_loop b f a n dat True c1 of (r, a, n, dat, c2) \<Rightarrow>
          if r \<noteq> SFUD_SUCCESS then (r, c2)
          else case set_write_enabled b False c2 of (r, c3) \<Rightarrow>
            if r = SFUD_SUCCESS \<and> n = 1 then page256_or_1_byte_write b f a 1 Byte1 dat c3 else (r, c3))"

definition aai_write :: "'c nor \<Rightarrow> sfud_flash \<Rightarrow> nat \<Rightarrow> nat \<Rightarrow> memory \<Rightarrow> 'c \<Rightarrow> sfud_err \<times> 'c" where
  "aai_write b f a n dat c =
     (if capacity (fchip f) < (a + n) mod 2 ^ 32 then (SFUD_ERR_ADDR_OUT_OF_BOUND, c)
      else
        case (if a mod 2 \<noteq> 0
              then (case page256_or_1_byte_write b f a 1 Byte1 dat c of (r, c1) \<Rightarrow>
                      if r \<noteq> SFUD_SUCCESS then (r, c1)
                      else aai_rest b f (a + 1) ((n + 2 ^ 32 - 1) mod 2 ^ 32) (\<lambda>i. dat (1 + i)) c1)
              else aai_rest b f a n dat c) of
          (r, c1) \<Rightarrow> if r \<noteq> SFUD_SUCCESS then (r, snd (set_write_enabled b False c1)) else (r, c1))"

text \<open>A chip with byte writes only has no branch: nothing is written.\<close>

definition sfud_write :: "'c nor \<Rightarrow> sfud_flash \<Rightarrow> nat \<Rightarrow> nat \<Rightarrow> memory \<Rightarrow> 'c \<Rightarrow> sfud_err \<times> 'c" where
  "sfud_write b f a n dat c =
     (if write_mode (fchip f) AND SFUD_WM_PAGE_256B \<noteq> 0 then page256_or_1_byte_write b f a n Page256 dat c
      else if write_mode (fchip f) AND SFUD_WM_AAI \<noteq> 0 then aai_write b f a n dat c
      else (SFUD_SUCCESS, c))"

definition sfud_erase_write :: "'c nor \<Rightarrow> sfud_flash \<Rightarrow> nat \<Rightarrow> nat \<Rightarrow> memory \<Rightarrow> 'c \<Rightarrow> (sfud_err \<times> 'c) option" where
  "sfud_erase_write b f a n dat c =
     (case sfud_erase b f a n c of
        None \<Rightarrow> None
      | Some (r, c1) \<Rightarrow> if r = SFUD_SUCCESS then Some (sfud_write b f a n dat c1) else Some (r, c1))"

section \<open>Discovery\<close>

definition read_sfdp_data :: "'c nor \<Rightarrow> nat \<Rightarrow> nat \<Rightarrow> 'c \<Rightarrow> sfud_err \<times> u8 list \<times> 'c" where
  "read_sfdp_data b a n c =
     spi_write_read b [0x5A, word_of_nat (a div 2 ^ 16), word_of_nat (a div 2 ^ 8), word_of_nat a, 0xFF] n c"

definition upd_sfdp :: "(sfud_sfdp \<Rightarrow> sfud_sfdp) \<Rightarrow> sfud_flash \<Rightarrow> sfud_flash" where
  "upd_sfdp g f = f\<lparr>sfdp := g (sfdp f)\<rparr>"

definition read_sfdp_header :: "'c nor \<Rightarrow> sfud_flash \<Rightarrow> 'c \<Rightarrow> bool \<times> sfud_flash \<times> 'c" where
  "read_sfdp_header b f c =
     (let f1 = upd_sfdp (\<lambda>s. s\<lparr>available := False\<rparr>) f in
      case read_sfdp_data b 0 8 c of (r, h, c1) \<Rightarrow>
        if r \<noteq> SFUD_SUCCESS then (False, f1, c1)
        else if take 4 h \<noteq> [0x53, 0x46, 0x44, 0x50] then (False, f1, c1)
        else
          let f2 = upd_sfdp (\<lambda>s. s\<lparr>minor_rev := h ! 4, major_rev := h ! 5\<rparr>) f1 in
          if h ! 5 > 1 then (False, f2, c1) else (True, f2, c1))"

record sfdp_para_header =
  ph_id :: u8
  ph_minor_rev :: u8
  ph_major_rev :: u8
  ph_len :: u8
  ptp :: nat

definition read_basic_header :: "'c nor \<Rightarrow> 'c \<Rightarrow> sfdp_para_header option \<times> 'c" where
  "read_basic_header b c =
     (case read_sfdp_data b 8 8 c of (r, h, c1) \<Rightarrow>
        if r \<noteq> SFUD_SUCCESS then (None, c1)
        else if h ! 2 > 1 then (None, c1)
        else if h ! 3 < 9 then (None, c1)
        else (Some \<lparr>ph_id = h ! 0, ph_minor_rev = h ! 1, ph_major_rev = h ! 2, ph_len = h ! 3,
                    ptp = unat (h ! 4) + unat (h ! 5) * 2 ^ 8 + unat (h ! 6) * 2 ^ 16\<rparr>, c1))"

text \<open>The size of the array from the second double word.  Shifts by 32 and more, which C leaves open, give 0.\<close>

definition table2_capacity :: "u8 list \<Rightarrow> nat option" where
  "table2_capacity t =
     (let v = (unat (t ! 7) * 2 ^ 24 + unat (t ! 6) * 2 ^ 16 + unat (t ! 5) * 2 ^ 8 + unat (t ! 4)) in
      if v < 2 ^ 31 then Some (1 + v div 8)
      else
        let v = v - 2 ^ 31 in
        if v > 35 then None else Some (if v < 3 \<or> v = 35 then 0 else 2 ^ (v - 3)))"

definition read_eraser :: "u8 list \<Rightarrow> nat \<Rightarrow> eraser" where
  "read_eraser t i = \<lparr>e_size = unat (push_bit (unat (t ! (28 + 2 * i))) (1 :: u32)), e_cmd = t ! (28 + 2 * i + 1)\<rparr>"

definition read_erasers :: "u8 list \<Rightarrow> eraser list \<Rightarrow> eraser list" where
  "read_erasers t es =
     snd (foldl (\<lambda>(j, es) i. if t ! (28 + 2 * i) \<noteq> 0 then (j + 1, es[j := read_eraser t i]) else (j, es)) (0, es) [0 ..< 4])"

definition sort_inner :: "nat \<Rightarrow> eraser list \<Rightarrow> eraser list" where
  "sort_inner i es =
     foldl (\<lambda>es j. if e_size (es ! j) \<noteq> 0 \<and> e_size (es ! i) > e_size (es ! j) then es[i := es ! j, j := es ! i] else es)
       es [i + 1 ..< 4]"

definition sort_erasers :: "eraser list \<Rightarrow> eraser list" where
  "sort_erasers es = foldl (\<lambda>es i. if e_size (es ! i) \<noteq> 0 then sort_inner i es else es) es [0 ..< 4]"

text \<open>The table is read field by field; each error leaves the fields read so far.\<close>

definition parse_erase_4k :: "u8 list \<Rightarrow> sfud_sfdp \<Rightarrow> bool \<times> sfud_sfdp" where
  "parse_erase_4k t s =
     (let s1 = s\<lparr>erase_4k_cmd := t ! 1\<rparr> in
      if t ! 0 AND 3 = 1 then (True, s1\<lparr>erase_4k := True\<rparr>)
      else if t ! 0 AND 3 = 3 then (True, s1\<lparr>erase_4k := False\<rparr>)
      else (False, s1))"

definition parse_write_gran :: "u8 list \<Rightarrow> sfud_sfdp \<Rightarrow> sfud_sfdp" where
  "parse_write_gran t s = s\<lparr>write_gran := (if t ! 0 AND 4 = 0 then 1 else 256)\<rparr>"

definition parse_volatile :: "u8 list \<Rightarrow> sfud_sfdp \<Rightarrow> sfud_sfdp" where
  "parse_volatile t s =
     (if t ! 0 AND 8 = 0 then s\<lparr>sr_is_non_vola := True\<rparr>
      else s\<lparr>sr_is_non_vola := False, vola_sr_we_cmd := (if t ! 0 AND 16 = 0 then 0x50 else 0x06)\<rparr>)"

definition parse_addr_bytes :: "u8 list \<Rightarrow> sfud_sfdp \<Rightarrow> bool \<times> sfud_sfdp" where
  "parse_addr_bytes t s =
     (if t ! 2 AND 6 = 0 then (True, s\<lparr>addr_3_byte := True, addr_4_byte := False\<rparr>)
      else if t ! 2 AND 6 = 2 then (True, s\<lparr>addr_3_byte := True, addr_4_byte := True\<rparr>)
      else if t ! 2 AND 6 = 4 then (True, s\<lparr>addr_3_byte := False, addr_4_byte := True\<rparr>)
      else (False, s\<lparr>addr_3_byte := False, addr_4_byte := False\<rparr>))"

definition parse_basic_table :: "u8 list \<Rightarrow> sfud_sfdp \<Rightarrow> bool \<times> sfud_sfdp" where
  "parse_basic_table t s =
     (case parse_erase_4k t s of (ok1, s1) \<Rightarrow>
        if \<not> ok1 then (False, s1)
        else case parse_addr_bytes t (parse_volatile t (parse_write_gran t s1)) of (ok2, s2) \<Rightarrow>
          if \<not> ok2 then (False, s2)
          else case table2_capacity t of
            None \<Rightarrow> (False, s2\<lparr>sfdp_capacity := 0\<rparr>)
          | Some n \<Rightarrow> (True, s2\<lparr>sfdp_capacity := n, erasers := sort_erasers (read_erasers t (erasers s2)), available := True\<rparr>))"

definition read_basic_table :: "'c nor \<Rightarrow> sfud_flash \<Rightarrow> sfdp_para_header \<Rightarrow> 'c \<Rightarrow> bool \<times> sfud_flash \<times> 'c" where
  "read_basic_table b f h c =
     (case read_sfdp_data b (ptp h) 36 c of (r, t, c1) \<Rightarrow>
        if r \<noteq> SFUD_SUCCESS then (False, f, c1)
        else case parse_basic_table t (sfdp f) of (good, s) \<Rightarrow> (good, f\<lparr>sfdp := s\<rparr>, c1))"

definition sfud_read_sfdp :: "'c nor \<Rightarrow> sfud_flash \<Rightarrow> 'c \<Rightarrow> bool \<times> sfud_flash \<times> 'c" where
  "sfud_read_sfdp b f c =
     (case read_sfdp_header b f c of (good, f1, c1) \<Rightarrow>
        if \<not> good then (False, f1, c1)
        else case read_basic_header b c1 of (hdr, c2) \<Rightarrow>
          case hdr of None \<Rightarrow> (False, f1, c2) | Some h \<Rightarrow> read_basic_table b f1 h c2)"

section \<open>Initialisation\<close>

definition info :: "string \<Rightarrow> u8 \<Rightarrow> u8 \<Rightarrow> u8 \<Rightarrow> nat \<Rightarrow> u16 \<Rightarrow> nat \<Rightarrow> u8 \<Rightarrow> sfud_flash_chip" where
  "info nm mf ty ci cap wm eg ec =
     \<lparr>chip_name = Some nm, mf_id = mf, type_id = ty, capacity_id = ci, capacity = cap, write_mode = wm, erase_gran = eg, erase_gran_cmd = ec\<rparr>"

definition flash_chip_table :: "sfud_flash_chip list" where
  "flash_chip_table =
     [info ''AT45DB161E'' 0x1F 0x26 0x00 (2 * 1024 * 1024) (2 OR 8) (512) 0x81,
      info ''W25Q40BV'' 0xEF 0x40 0x13 (512 * 1024) (1) (4096) 0x20,
      info ''W25Q16BV'' 0xEF 0x40 0x15 (2 * 1024 * 1024) (1) (4096) 0x20,
      info ''W25Q64DW'' 0xEF 0x60 0x17 (8 * 1024 * 1024) (1) (4096) 0x20,
      info ''W25Q128BV'' 0xEF 0x40 0x18 (16 * 1024 * 1024) (1) (4096) 0x20,
      info ''W25Q256FV'' 0xEF 0x40 0x19 (32 * 1024 * 1024) (1) (4096) 0x20,
      info ''SST25VF016B'' 0xBF 0x25 0x41 (2 * 1024 * 1024) (2 OR 4) (4096) 0x20,
      info ''M25P32'' 0x20 0x20 0x16 (4 * 1024 * 1024) (1) (64 * 1024) 0xD8,
      info ''M25P80'' 0x20 0x20 0x14 (1 * 1024 * 1024) (1) (64 * 1024) 0xD8,
      info ''M25P40'' 0x20 0x20 0x13 (512 * 1024) (1) (64 * 1024) 0xD8,
      info ''EN25Q32B'' 0x1C 0x30 0x16 (4 * 1024 * 1024) (1) (4096) 0x20,
      info ''GD25Q64B'' 0xC8 0x40 0x17 (8 * 1024 * 1024) (1) (4096) 0x20,
      info ''GD25Q16B'' 0xC8 0x40 0x15 (2 * 1024 * 1024) (1) (4096) 0x20,
      info ''S25FL216K'' 0x01 0x40 0x15 (2 * 1024 * 1024) (1) (4096) 0x20,
      info ''S25FL032P'' 0x01 0x02 0x15 (4 * 1024 * 1024) (1) (4096) 0x20,
      info ''A25L080'' 0x37 0x30 0x14 (1 * 1024 * 1024) (1) (4096) 0x20,
      info ''F25L004'' 0x8C 0x20 0x13 (512 * 1024) (2 OR 4) (4096) 0x20,
      info ''PCT25VF016B'' 0xBF 0x25 0x41 (2 * 1024 * 1024) (2 OR 4) (4096) 0x20]"

definition read_jedec_id :: "'c nor \<Rightarrow> sfud_flash \<Rightarrow> 'c \<Rightarrow> sfud_err \<times> sfud_flash \<times> 'c" where
  "read_jedec_id b f c =
     (case spi_write_read b [0x9F] 3 c of (r, d, c1) \<Rightarrow>
        if r = SFUD_SUCCESS
        then (r, f\<lparr>fchip := (fchip f)\<lparr>mf_id := d ! 0, type_id := d ! 1, capacity_id := d ! 2\<rparr>\<rparr>, c1)
        else (r, f, c1))"

definition reset :: "'c nor \<Rightarrow> sfud_flash \<Rightarrow> 'c \<Rightarrow> sfud_err \<times> 'c" where
  "reset b f c =
     (case spi_write_read b [0x66] 0 c of (r, _, c1) \<Rightarrow>
        if r \<noteq> SFUD_SUCCESS then (r, c1)
        else case wait_busy b f c1 of (_, c2) \<Rightarrow>
          case spi_write_read b [0x99] 0 c2 of (r, _, c3) \<Rightarrow>
            if r \<noteq> SFUD_SUCCESS then (r, c3) else wait_busy b f c3)"

definition set_4_byte_address_mode :: "'c nor \<Rightarrow> bool \<Rightarrow> sfud_flash \<Rightarrow> 'c \<Rightarrow> sfud_err \<times> sfud_flash \<times> 'c" where
  "set_4_byte_address_mode b enabled f c =
     (case set_write_enabled b True c of (r, c1) \<Rightarrow>
        if r \<noteq> SFUD_SUCCESS then (r, f, c1)
        else case spi_write_read b [if enabled then 0xB7 else 0xE9] 0 c1 of (r, _, c2) \<Rightarrow>
          if r = SFUD_SUCCESS then (r, f\<lparr>addr_in_4_byte := enabled\<rparr>, c2) else (r, f, c2))"

definition described :: "sfud_flash \<Rightarrow> bool" where
  "described f = (capacity (fchip f) \<noteq> 0 \<and> write_mode (fchip f) \<noteq> 0 \<and> erase_gran (fchip f) \<noteq> 0 \<and> erase_gran_cmd (fchip f) \<noteq> 0)"

text \<open>The smallest eraser of the table.\<close>

definition smallest_eraser :: "eraser list \<Rightarrow> eraser" where
  "smallest_eraser es =
     foldl (\<lambda>m i. if e_size (es ! i) \<noteq> 0 \<and> e_size m > e_size (es ! i) then es ! i else m) (es ! 0) [1 ..< 4]"

definition from_sfdp :: "sfud_flash \<Rightarrow> sfud_flash" where
  "from_sfdp f =
     (let e = smallest_eraser (erasers (sfdp f)) in
      f\<lparr>fchip := (fchip f)\<lparr>chip_name := None, capacity := sfdp_capacity (sfdp f),
          write_mode := (if write_gran (sfdp f) = 1 then SFUD_WM_BYTE else SFUD_WM_PAGE_256B),
          erase_gran := e_size e, erase_gran_cmd := e_cmd e\<rparr>\<rparr>)"

definition from_table :: "sfud_flash \<Rightarrow> sfud_flash" where
  "from_table f =
     (case find (\<lambda>i. mf_id i = mf_id (fchip f) \<and> type_id i = type_id (fchip f) \<and> capacity_id i = capacity_id (fchip f)) flash_chip_table of
        None \<Rightarrow> f
      | Some i \<Rightarrow> f\<lparr>fchip := (fchip f)\<lparr>chip_name := chip_name i, capacity := capacity i, write_mode := write_mode i,
                     erase_gran := erase_gran i, erase_gran_cmd := erase_gran_cmd i\<rparr>\<rparr>)"

definition identify :: "'c nor \<Rightarrow> sfud_flash \<Rightarrow> 'c \<Rightarrow> sfud_err \<times> sfud_flash \<times> 'c" where
  "identify b f c =
     (if described f then (SFUD_SUCCESS, f, c)
      else case read_jedec_id b f c of (r, f1, c1) \<Rightarrow>
        if r \<noteq> SFUD_SUCCESS then (r, f1, c1)
        else case sfud_read_sfdp b f1 c1 of (good, f2, c2) \<Rightarrow>
          (SFUD_SUCCESS, if good then from_sfdp f2 else from_table f2, c2))"

definition prepare :: "'c nor \<Rightarrow> sfud_flash \<Rightarrow> 'c \<Rightarrow> sfud_err \<times> sfud_flash \<times> 'c" where
  "prepare b f c =
     (case reset b f c of (r, c1) \<Rightarrow>
        if r \<noteq> SFUD_SUCCESS then (r, f, c1)
        else case (if write_mode (fchip f) AND SFUD_WM_AAI \<noteq> 0 then sfud_write_status b True 0 c1 else (SFUD_SUCCESS, c1)) of (r, c2) \<Rightarrow>
          if r \<noteq> SFUD_SUCCESS then (r, f, c2)
          else if capacity (fchip f) > 2 ^ 24 then set_4_byte_address_mode b True f c2
          else (SFUD_SUCCESS, f\<lparr>addr_in_4_byte := False\<rparr>, c2))"

definition hardware_init :: "'c nor \<Rightarrow> sfud_flash \<Rightarrow> 'c \<Rightarrow> sfud_err \<times> sfud_flash \<times> 'c" where
  "hardware_init b f c =
     (case identify b (f\<lparr>retry_times := 60 * 10000\<rparr>) c of (r, f1, c1) \<Rightarrow>
        if r \<noteq> SFUD_SUCCESS then (r, f1, c1)
        else if \<not> described f1 then (SFUD_ERR_NOT_FOUND, f1, c1)
        else prepare b f1 c1)"

definition sfud_device_init :: "'c nor \<Rightarrow> sfud_flash \<Rightarrow> 'c \<Rightarrow> sfud_err \<times> sfud_flash \<times> 'c" where
  "sfud_device_init b f c =
     (case hardware_init b f c of (r, f1, c1) \<Rightarrow> (r, f1\<lparr>sf_init_ok := (r = SFUD_SUCCESS)\<rparr>, c1))"

section \<open>What the data sheet says\<close>

definition be_addr :: "u8 list \<Rightarrow> nat" where
  "be_addr = foldl (\<lambda>n x. n * 256 + unat x) 0"

definition addr_len :: "'c nor \<Rightarrow> 'c \<Rightarrow> nat" where
  "addr_len b c = (if four b c then 4 else 3)"

definition quiet :: "'c nor \<Rightarrow> u8 \<Rightarrow> bool" where
  "quiet b e = (e \<notin> {0x02, 0xAD, 0xC7} \<and> block_size b e = None)"

text \<open>The status register shows the busy bit and the latch; commands that neither program nor erase leave the array alone, and
  those for the latch, the status and reading do not make an idle chip busy; the address mode is changed by its own
  commands only.\<close>

definition quiet_step :: "'c nor \<Rightarrow> u8 list \<Rightarrow> nat \<Rightarrow> 'c \<Rightarrow> bool \<Rightarrow> u8 list \<Rightarrow> 'c \<Rightarrow> bool" where
  "quiet_step b w n c ack dat c' =
     ((ack \<longrightarrow> length dat = n) \<and>
      (w \<noteq> [] \<and> quiet b (hd w) \<longrightarrow> array b c' = array b c) \<and>
      (w \<noteq> [] \<and> hd w \<notin> {0xB7, 0xE9, 0x99} \<longrightarrow> four b c' = four b c) \<and>
      (w \<noteq> [] \<and> hd w \<in> {0x03, 0x04, 0x05, 0x06} \<and> \<not> busy b c \<longrightarrow> \<not> busy b c') \<and>
      (w = [0x05] \<and> n = 1 \<and> ack \<longrightarrow> (dat ! 0 AND 1 \<noteq> 0) = busy b c' \<and> (dat ! 0 AND 2 \<noteq> 0) = latch b c'))"

definition read_step :: "'c nor \<Rightarrow> u8 list \<Rightarrow> nat \<Rightarrow> 'c \<Rightarrow> bool \<Rightarrow> u8 list \<Rightarrow> bool" where
  "read_step b w n c ack dat =
     (\<forall>ab. w = 0x03 # ab \<and> length ab = addr_len b c \<and> be_addr ab + n \<le> array_size b \<and> ack \<and> \<not> busy b c \<longrightarrow>
        dat = map (array b c) [be_addr ab ..< be_addr ab + n])"

text \<open>Programming inside one page of 256 bytes can clear bits of the bytes addressed and does so when the chip is idle and enabled.\<close>

definition program_step :: "'c nor \<Rightarrow> u8 list \<Rightarrow> 'c \<Rightarrow> bool \<Rightarrow> 'c \<Rightarrow> bool" where
  "program_step b w c ack c' =
     (\<forall>ab ds. w = 0x02 # ab @ ds \<and> length ab = addr_len b c \<and> be_addr ab mod 256 + length ds \<le> 256 \<and>
        be_addr ab + length ds \<le> array_size b \<longrightarrow>
        (\<forall>x. x < be_addr ab \<or> be_addr ab + length ds \<le> x \<longrightarrow> array b c' x = array b c x) \<and>
        (ack \<and> \<not> busy b c \<and> latch b c \<longrightarrow>
          (\<forall>k < length ds. array b c' (be_addr ab + k) = array b c (be_addr ab + k) AND ds ! k)))"

definition erase_step :: "'c nor \<Rightarrow> u8 list \<Rightarrow> 'c \<Rightarrow> bool \<Rightarrow> 'c \<Rightarrow> bool" where
  "erase_step b w c ack c' =
     ((\<forall>e ab sz. w = e # ab \<and> block_size b e = Some sz \<and> length ab = addr_len b c \<and> be_addr ab < array_size b \<longrightarrow>
        (\<forall>x. x div sz \<noteq> be_addr ab div sz \<longrightarrow> array b c' x = array b c x) \<and>
        (ack \<and> \<not> busy b c \<and> latch b c \<longrightarrow> (\<forall>x. x div sz = be_addr ab div sz \<longrightarrow> array b c' x = 0xFF))) \<and>
      (w = [0xC7] \<and> ack \<and> \<not> busy b c \<and> latch b c \<longrightarrow> (\<forall>x < array_size b. array b c' x = 0xFF)))"

definition nor_chip :: "'c nor \<Rightarrow> bool" where
  "nor_chip b =
     ((\<forall>w n c ack dat c'. xfer b w n c = (ack, dat, c') \<longrightarrow>
        quiet_step b w n c ack dat c' \<and> read_step b w n c ack dat \<and> program_step b w c ack c' \<and> erase_step b w c ack c') \<and>
      (\<forall>e \<in> {0x01, 0x02, 0x03, 0x04, 0x05, 0x06, 0x66, 0x99, 0xAD, 0xB7, 0xC7, 0xE9}. block_size b e = None) \<and>
      (\<forall>e sz. block_size b e = Some sz \<longrightarrow> 0 < sz))"

text \<open>A chip and a bus that always work: transfers succeed, the latch follows its commands while the chip is idle, and
  whatever the chip does is over within the driver's retries.\<close>

definition working_nor :: "'c nor \<Rightarrow> bool" where
  "working_nor b =
     (nor_chip b \<and>
      (\<forall>w n c. fst (xfer b w n c)) \<and>
      (\<forall>c. \<not> busy b c \<longrightarrow> latch b (snd (snd (xfer b [0x06] 0 c)))) \<and>
      (\<forall>c. \<not> busy b c \<longrightarrow> latch b (snd (snd (xfer b [0x05] 1 c))) = latch b c) \<and>
      (\<forall>c. \<exists>k \<le> 60 * 10000. \<not> busy b (((\<lambda>c. snd (snd (xfer b [0x05] 1 c))) ^^ Suc k) c)))"

section \<open>Registers\<close>

lemma nor_quiet: "nor_chip b \<Longrightarrow> xfer b w n c = (ack, dat, c') \<Longrightarrow> quiet_step b w n c ack dat c'"
  by (auto simp: nor_chip_def)

lemma nor_read: "nor_chip b \<Longrightarrow> xfer b w n c = (ack, dat, c') \<Longrightarrow> read_step b w n c ack dat"
  by (auto simp: nor_chip_def)

lemma nor_program: "nor_chip b \<Longrightarrow> xfer b w n c = (ack, dat, c') \<Longrightarrow> program_step b w c ack c'"
  by (auto simp: nor_chip_def)

lemma nor_erase: "nor_chip b \<Longrightarrow> xfer b w n c = (ack, dat, c') \<Longrightarrow> erase_step b w c ack c'"
  by (auto simp: nor_chip_def)

lemma nor_opcodes:
  assumes "nor_chip b"
  shows "quiet b 0x03" "quiet b 0x04" "quiet b 0x05" "quiet b 0x06"
    "block_size b e = Some sz \<Longrightarrow> e \<notin> {0xB7, 0xE9, 0x99}" "block_size b e = Some sz \<Longrightarrow> 0 < sz"
  using assms by (auto simp: nor_chip_def quiet_def)

text \<open>Nothing that matters has changed.\<close>

definition same :: "'c nor \<Rightarrow> 'c \<Rightarrow> 'c \<Rightarrow> bool" where
  "same b c c' = (array b c' = array b c \<and> four b c' = four b c)"

lemma same_chip_refl [simp]: "same b c c"
  by (simp add: same_def)

lemma same_chip_trans [trans]: "same b c c' \<Longrightarrow> same b c' c'' \<Longrightarrow> same b c c''"
  by (simp add: same_def)

lemma quiet_xfer:
  assumes "nor_chip b" "xfer b w n c = (ack, dat, c')" "w \<noteq> []" "hd w \<in> {0x03, 0x04, 0x05, 0x06}"
  shows "same b c c'" "\<not> busy b c \<Longrightarrow> \<not> busy b c'" "ack \<Longrightarrow> length dat = n"
proof -
  have "quiet b (hd w)"
    using nor_opcodes(1-4) [OF assms(1)] assms(4) by auto
  moreover have "hd w \<notin> {0xB7, 0xE9, 0x99}"
    using assms(4) by auto
  ultimately show "same b c c'" "\<not> busy b c \<Longrightarrow> \<not> busy b c'" "ack \<Longrightarrow> length dat = n"
    using nor_quiet [OF assms(1,2)] assms(3,4) unfolding quiet_step_def same_def by blast+
qed

lemma read_status:
  assumes "nor_chip b" "sfud_read_status b c = (r, st, c')"
  shows "same b c c'" "\<not> busy b c \<Longrightarrow> \<not> busy b c'"
    "r = SFUD_SUCCESS \<Longrightarrow> (st AND 1 \<noteq> 0) = busy b c' \<and> (st AND 2 \<noteq> 0) = latch b c'"
proof -
  obtain ack dat c1 where x: "xfer b [0x05] 1 c = (ack, dat, c1)"
    by (metis prod_cases3)
  have e: "c' = c1" "r = SFUD_SUCCESS \<longleftrightarrow> ack" "st = (case dat of [] \<Rightarrow> 0 | s # _ \<Rightarrow> s)"
    using assms(2) x by (auto simp: sfud_read_status_def spi_write_read_def split: if_splits)
  show "same b c c'" "\<not> busy b c \<Longrightarrow> \<not> busy b c'"
    using quiet_xfer [OF assms(1) x] e(1) by auto
  show "(st AND 1 \<noteq> 0) = busy b c' \<and> (st AND 2 \<noteq> 0) = latch b c'" if "r = SFUD_SUCCESS"
  proof -
    have "length dat = 1" "(dat ! 0 AND 1 \<noteq> 0) = busy b c1 \<and> (dat ! 0 AND 2 \<noteq> 0) = latch b c1"
      using nor_quiet [OF assms(1) x] that e(2) by (auto simp: quiet_step_def)
    then show ?thesis
      using e by (cases dat) auto
  qed
qed

lemma wait_loop_step:
  assumes "nor_chip b" "wait_loop b k c = (r, c')"
  shows "\<exists>c1. same b c c1 \<and> (r = SFUD_SUCCESS \<and> c' = c1 \<and> \<not> busy b c1 \<or> r = SFUD_ERR_TIMEOUT \<and> c' = c1 \<or>
           0 < k \<and> wait_loop b (k - 1) c1 = (r, c'))"
proof -
  obtain r1 st c1 where x: "sfud_read_status b c = (r1, st, c1)"
    by (metis prod_cases3)
  note R = read_status [OF assms(1) x]
  have w: "wait_loop b k c = (if r1 = SFUD_SUCCESS \<and> st AND 1 = 0 then (SFUD_SUCCESS, c1)
      else if k = 0 then (SFUD_ERR_TIMEOUT, c1) else wait_loop b (k - 1) c1)"
    by (subst wait_loop.simps) (simp add: x)
  show ?thesis
  proof (cases "r1 = SFUD_SUCCESS \<and> st AND 1 = 0")
    case True
    then show ?thesis
      using R(1,3) assms(2) w by auto
  next
    case False
    then show ?thesis
      using R(1) assms(2) w [unfolded if_not_P [OF False]] by (intro exI [of _ c1]) (cases "k = 0", simp_all)
  qed
qed

lemma wait_loop_spec:
  assumes "nor_chip b" "wait_loop b k c = (r, c')"
  shows "same b c c' \<and> (r = SFUD_SUCCESS \<longrightarrow> \<not> busy b c')"
  using assms(2)
proof (induction k arbitrary: c)
  case 0
  then show ?case
    using wait_loop_step [OF assms(1) 0] by auto
next
  case (Suc k)
  obtain c1 where c1: "same b c c1" "r = SFUD_SUCCESS \<and> c' = c1 \<and> \<not> busy b c1 \<or> r = SFUD_ERR_TIMEOUT \<and> c' = c1 \<or>
      wait_loop b k c1 = (r, c')"
    using wait_loop_step [OF assms(1) Suc.prems] by auto
  then show ?case
    using Suc.IH [of c1] same_chip_trans [OF c1(1), of c'] by auto
qed

lemma wait_busy_spec:
  assumes "nor_chip b" "wait_busy b f c = (r, c')"
  shows "same b c c'" "r = SFUD_SUCCESS \<Longrightarrow> \<not> busy b c'"
  using wait_loop_spec [OF assms(1)] assms(2) by (auto simp: wait_busy_def)

lemma set_write_enabled_spec:
  assumes "nor_chip b" "set_write_enabled b en c = (r, c')"
  shows "same b c c'" "\<not> busy b c \<Longrightarrow> \<not> busy b c'" "en \<Longrightarrow> r = SFUD_SUCCESS \<Longrightarrow> latch b c'"
proof -
  obtain ack dat c1 where x: "xfer b [if en then 0x06 else 0x04] 0 c = (ack, dat, c1)"
    by (metis prod_cases3)
  obtain r2 st c2 where y: "sfud_read_status b c1 = (r2, st, c2)"
    by (metis prod_cases3)
  note X = quiet_xfer [OF assms(1) x] and Y = read_status [OF assms(1) y]
  have X': "same b c c1" "\<not> busy b c \<Longrightarrow> \<not> busy b c1"
    using X by (auto split: if_splits)
  have c': "c' = (if ack then c2 else c1)"
    using assms(2) x y by (auto simp: set_write_enabled_def spi_write_read_def split: if_splits)
  show "same b c c'" "\<not> busy b c \<Longrightarrow> \<not> busy b c'"
    using X' Y c' same_chip_trans by auto
  show "latch b c'" if "en" "r = SFUD_SUCCESS"
    using assms(2) x y Y(3) that by (auto simp: set_write_enabled_def spi_write_read_def split: if_splits)
qed

section \<open>Commands\<close>

lemma unat_byte: "unat (word_of_nat n :: u8) = n mod 256"
  by (simp add: unat_of_nat)

lemma be_addr_bytes:
  assumes "a < (if addr_in_4_byte f then 2 ^ 32 else 2 ^ 24)"
  shows "be_addr (make_adress_byte_array f a) = a" "length (make_adress_byte_array f a) = (if addr_in_4_byte f then 4 else 3)"
proof -
  have 1: "a = a div 256 * 256 + a mod 256" "a div 256 = a div 65536 * 256 + a div 256 mod 256"
    "a div 65536 = a div 16777216 * 256 + a div 65536 mod 256"
    using div_mult_mod_eq [of a 256] div_mult_mod_eq [of "a div 256" 256] div_mult_mod_eq [of "a div 65536" 256]
    by (simp_all add: div_mult2_eq [symmetric])
  show "be_addr (make_adress_byte_array f a) = a"
  proof (cases "addr_in_4_byte f")
    case True
    then have "a div 16777216 < 256"
      using assms by (simp add: div_less_iff_less_mult)
    moreover have "[0 ..< 4] = [0, 1, 2, 3 :: nat]"
      by (simp add: numeral_eq_Suc)
    ultimately have "be_addr (make_adress_byte_array f a) =
        ((a div 16777216 * 256 + a div 65536 mod 256) * 256 + a div 256 mod 256) * 256 + a mod 256"
      using True by (simp add: be_addr_def make_adress_byte_array_def unat_byte)
    then show ?thesis
      using 1 by simp
  next
    case False
    then have "a div 65536 < 256"
      using assms by (simp add: div_less_iff_less_mult)
    moreover have "[0 ..< 3] = [0, 1, 2 :: nat]"
      by (simp add: numeral_eq_Suc)
    ultimately have "be_addr (make_adress_byte_array f a) = (a div 65536 * 256 + a div 256 mod 256) * 256 + a mod 256"
      using False by (simp add: be_addr_def make_adress_byte_array_def unat_byte)
    then show ?thesis
      using 1 by simp
  qed
qed (simp add: make_adress_byte_array_def Let_def)

lemma command_spec:
  assumes "nor_chip b" "command b f w c = (r, c')" "w \<noteq> []" "hd w \<notin> {0xB7, 0xE9, 0x99}"
  shows "four b c' = four b c" "r = SFUD_SUCCESS \<Longrightarrow> \<not> busy b c'"
    "r \<noteq> SFUD_SUCCESS \<and> array b c' = array b c \<or>
     (\<exists>c1 ack dat c2. same b c c1 \<and> (\<not> busy b c \<longrightarrow> \<not> busy b c1) \<and> xfer b w 0 c1 = (ack, dat, c2) \<and> array b c' = array b c2 \<and>
        (r = SFUD_SUCCESS \<longrightarrow> ack \<and> latch b c1))"
proof -
  obtain r1 c1 where e: "set_write_enabled b True c = (r1, c1)"
    by (meson surj_pair)
  obtain ack dat c2 where x: "xfer b w 0 c1 = (ack, dat, c2)"
    by (metis prod_cases3)
  obtain r3 c3 where w: "wait_busy b f c2 = (r3, c3)"
    by (meson surj_pair)
  note E = set_write_enabled_spec [OF assms(1) e] and W = wait_busy_spec [OF assms(1) w]
  have x4: "four b c2 = four b c1"
    using nor_quiet [OF assms(1) x] assms(3,4) by (simp add: quiet_step_def)
  have res: "(r, c') = (if r1 \<noteq> SFUD_SUCCESS then (r1, c1) else if \<not> ack then (SFUD_ERR_TIMEOUT, c2) else (r3, c3))"
    using assms(2) e x w by (auto simp: command_def spi_write_read_def)
  consider "r1 \<noteq> SFUD_SUCCESS" "r = r1" "c' = c1" | "r1 = SFUD_SUCCESS" "\<not> ack" "r = SFUD_ERR_TIMEOUT" "c' = c2"
    | "r1 = SFUD_SUCCESS" "ack" "r = r3" "c' = c3"
    using res by (auto split: if_splits)
  note cases3 = this
  show "four b c' = four b c"
    using E(1) W(1) x4 by (rule_tac cases3) (auto simp: same_def)
  show "\<not> busy b c'" if "r = SFUD_SUCCESS"
    using that W(2) by (rule_tac cases3) auto
  show "r \<noteq> SFUD_SUCCESS \<and> array b c' = array b c \<or>
     (\<exists>c1 ack dat c2. same b c c1 \<and> (\<not> busy b c \<longrightarrow> \<not> busy b c1) \<and> xfer b w 0 c1 = (ack, dat, c2) \<and> array b c' = array b c2 \<and>
        (r = SFUD_SUCCESS \<longrightarrow> ack \<and> latch b c1))"
  proof (rule cases3, goal_cases)
    case 1
    then show ?case
      using E(1) by (simp add: same_def)
  next
    case 2
    then show ?case
      using E x by (intro disjI2 exI [of _ c1] exI [of _ ack] exI [of _ dat] exI [of _ c2]) simp
  next
    case 3
    then show ?case
      using E x W(1) by (intro disjI2 exI [of _ c1] exI [of _ ack] exI [of _ dat] exI [of _ c2]) (simp add: same_def)
  qed
qed

text \<open>The driver's description of the chip is right.\<close>

definition sfud_ok :: "'c nor \<Rightarrow> sfud_flash \<Rightarrow> 'c \<Rightarrow> bool" where
  "sfud_ok b f c =
     (addr_in_4_byte f = four b c \<and> capacity (fchip f) = array_size b \<and>
      array_size b \<le> (if addr_in_4_byte f then 2 ^ 32 - 1 else 2 ^ 24))"

lemma sfud_ok_cong: "four b c' = four b c \<Longrightarrow> sfud_ok b f c' = sfud_ok b f c"
  by (simp add: sfud_ok_def)

lemma sfud_ok_addr:
  assumes "sfud_ok b f c" "a < array_size b"
  shows "be_addr (make_adress_byte_array f a) = a" "length (make_adress_byte_array f a) = addr_len b c"
  using be_addr_bytes [of a f] assms by (auto simp: sfud_ok_def addr_len_def split: if_splits)

lemma command_program:
  assumes "nor_chip b" "sfud_ok b f c" "command b f (0x02 # make_adress_byte_array f a @ ds) c = (r, c')"
    and "a mod 256 + length ds \<le> 256" "a + length ds \<le> array_size b" "a < array_size b"
  shows "x < a \<or> a + length ds \<le> x \<Longrightarrow> array b c' x = array b c x"
    "r = SFUD_SUCCESS \<Longrightarrow> \<not> busy b c \<Longrightarrow> k < length ds \<Longrightarrow> array b c' (a + k) = array b c (a + k) AND ds ! k"
    "sfud_ok b f c'" "r = SFUD_SUCCESS \<Longrightarrow> \<not> busy b c'"
proof -
  note C = command_spec [OF assms(1,3), simplified]
  show "sfud_ok b f c'" "r = SFUD_SUCCESS \<Longrightarrow> \<not> busy b c'"
    using C(2) assms(2) sfud_ok_cong [OF C(1), of f] by simp_all
  have P: "(x < a \<or> a + length ds \<le> x \<longrightarrow> array b c2 x = array b c1 x) \<and>
      (ack \<and> \<not> busy b c1 \<and> latch b c1 \<longrightarrow> (\<forall>k < length ds. array b c2 (a + k) = array b c1 (a + k) AND ds ! k))"
    if "xfer b (0x02 # make_adress_byte_array f a @ ds) 0 c1 = (ack, dat, c2)" "same b c c1" for c1 ack dat c2
  proof -
    have "sfud_ok b f c1"
      using that(2) assms(2) sfud_ok_cong [of b c1 c f] by (simp add: same_def)
    note A = sfud_ok_addr [OF this assms(6)]
    show ?thesis
      using nor_program [OF assms(1) that(1), unfolded program_step_def, rule_format, of "make_adress_byte_array f a" ds] A assms(4,5)
      by auto
  qed
  show "array b c' x = array b c x" if "x < a \<or> a + length ds \<le> x"
    using C(3) P that by (auto simp: same_def)
  show "array b c' (a + k) = array b c (a + k) AND ds ! k" if "r = SFUD_SUCCESS" "\<not> busy b c" "k < length ds"
    using C(3) P that by (auto simp: same_def)
qed

lemma command_erase:
  assumes "nor_chip b" "sfud_ok b f c" "command b f (e # make_adress_byte_array f a) c = (r, c')"
    and "block_size b e = Some sz" "a < array_size b"
  shows "x div sz \<noteq> a div sz \<Longrightarrow> array b c' x = array b c x"
    "r = SFUD_SUCCESS \<Longrightarrow> \<not> busy b c \<Longrightarrow> x div sz = a div sz \<Longrightarrow> array b c' x = 0xFF"
    "sfud_ok b f c'" "r = SFUD_SUCCESS \<Longrightarrow> \<not> busy b c'"
proof -
  note C = command_spec [OF assms(1,3), simplified, OF nor_opcodes(5) [OF assms(1,4), simplified]]
  show "sfud_ok b f c'" "r = SFUD_SUCCESS \<Longrightarrow> \<not> busy b c'"
    using C(2) assms(2) sfud_ok_cong [OF C(1), of f] by simp_all
  have P: "(x div sz \<noteq> a div sz \<longrightarrow> array b c2 x = array b c1 x) \<and>
      (ack \<and> \<not> busy b c1 \<and> latch b c1 \<longrightarrow> x div sz = a div sz \<longrightarrow> array b c2 x = 0xFF)"
    if "xfer b (e # make_adress_byte_array f a) 0 c1 = (ack, dat, c2)" "same b c c1" for c1 ack dat c2
  proof -
    have "sfud_ok b f c1"
      using that(2) assms(2) sfud_ok_cong [of b c1 c f] by (simp add: same_def)
    note A = sfud_ok_addr [OF this assms(5)]
    show ?thesis
      using nor_erase [OF assms(1) that(1), unfolded erase_step_def, THEN conjunct1, rule_format, of e "make_adress_byte_array f a" sz] A assms(4,5)
      by auto
  qed
  show "array b c' x = array b c x" if "x div sz \<noteq> a div sz"
    using C(3) P that by (auto simp: same_def)
  show "array b c' x = 0xFF" if "r = SFUD_SUCCESS" "\<not> busy b c" "x div sz = a div sz"
    using C(3) P that by (auto simp: same_def)
qed

lemma finish_spec:
  assumes "nor_chip b" "finish b (r, c) = (r', c')"
  shows "r' = r" "same b c c'" "\<not> busy b c \<Longrightarrow> \<not> busy b c'"
  using set_write_enabled_spec(1,2) [OF assms(1), of False c "fst (set_write_enabled b False c)"] assms(2)
  by (auto simp: finish_def)

section \<open>Writing\<close>

lemma data_size_page:
  assumes "0 < n"
  shows "a mod gran_bytes g + data_size g a n \<le> gran_bytes g"
  using mod_less_divisor [of "gran_bytes g" a] assms by (auto simp: data_size_def)

lemma data_size_page256: "0 < n \<Longrightarrow> a mod 256 + data_size g a n \<le> 256"
  using data_size_page [of n a g] mod_less_divisor [of 256 a] by (cases g) (auto simp: data_size_def)

lemma page_loop_spec:
  assumes "nor_chip b" "page_loop b f a n g dat c = (r, c')" "sfud_ok b f c" "a + n \<le> array_size b"
  shows "(\<forall>x. x < a \<or> a + n \<le> x \<longrightarrow> array b c' x = array b c x) \<and> sfud_ok b f c' \<and>
    (r = SFUD_SUCCESS \<and> \<not> busy b c \<longrightarrow>
      \<not> busy b c' \<and> (\<forall>k < n. array b c' (a + k) = array b c (a + k) AND dat k))"
  using assms
proof (induction b f a n g dat c rule: page_loop.induct)
  case (1 b f a n g dat c)
  show ?case
  proof (cases "n = 0")
    case True
    then show ?thesis
      using 1 by (simp add: page_loop.simps)
  next
    case False
    define d where "d = data_size g a n"
    obtain r1 c1 where cmd: "command b f (0x02 # make_adress_byte_array f a @ map dat [0 ..< d]) c = (r1, c1)"
      by (meson surj_pair)
    have d: "0 < d" "d \<le> n" "a mod 256 + d \<le> 256"
      using data_size_bounds [of n g a] data_size_page256 [of n a g] False by (auto simp: d_def)
    have fit: "a + d \<le> array_size b" "a < array_size b"
      using d "1.prems"(4) by auto
    note C = command_program [OF "1.prems"(1,3) cmd, simplified, OF d(3) fit]
    have loop: "page_loop b f a n g dat c =
        (if r1 \<noteq> SFUD_SUCCESS then (r1, c1) else page_loop b f (a + d) (n - d) g (\<lambda>i. dat (d + i)) c1)"
      by (subst page_loop.simps) (simp add: False d_def [symmetric] cmd)
    show ?thesis
    proof (cases "r1 = SFUD_SUCCESS")
      case False
      then have "r = r1" "c' = c1"
        using "1.prems"(2) loop by auto
      then show ?thesis
        using False C(1,3) d(2) by auto
    next
      case True
      have next_call: "page_loop b f (a + d) (n - d) g (\<lambda>i. dat (d + i)) c1 = (r, c')"
        using True "1.prems"(2) loop by simp
      have IH: "(\<forall>x. x < a + d \<or> a + n \<le> x \<longrightarrow> array b c' x = array b c1 x) \<and> sfud_ok b f c' \<and>
          (r = SFUD_SUCCESS \<longrightarrow> \<not> busy b c' \<and>
            (\<forall>k < n - d. array b c' (a + d + k) = array b c1 (a + d + k) AND dat (d + k)))"
        using "1.IH" [OF \<open>n \<noteq> 0\<close> d_def cmd [symmetric] _ "1.prems"(1) next_call C(3)] True d(2) "1.prems"(4) C(4)
        by auto
      show ?thesis
      proof (intro conjI allI impI; (elim conjE)?)
        show "array b c' x = array b c x" if "x < a \<or> a + n \<le> x" for x
          using that IH C(1) [of x] d by auto
        show "sfud_ok b f c'"
          using IH by blast
        show "\<not> busy b c'" if "r = SFUD_SUCCESS"
          using that IH by blast
        show "array b c' (a + k) = array b c (a + k) AND dat k" if "k < n" "r = SFUD_SUCCESS" "\<not> busy b c" for k
        proof (cases "k < d")
          case True
          then show ?thesis
            using IH C(2) [of k] that \<open>r1 = SFUD_SUCCESS\<close> by auto
        next
          case False
          have "\<forall>k < n - d. array b c' (a + d + k) = array b c1 (a + d + k) AND dat (d + k)"
            using IH that(2) by blast
          moreover have "k - d < n - d"
            using False that(1) by simp
          ultimately have "array b c' (a + d + (k - d)) = array b c1 (a + d + (k - d)) AND dat (d + (k - d))"
            by blast
          then show ?thesis
            using False C(1) [of "a + k"] by simp
        qed
      qed
    qed
  qed
qed

section \<open>Erasing\<close>

text \<open>The eraser chosen is one of the chip's; it is the smallest one or fits into the range.\<close>

definition erasers_ok :: "'c nor \<Rightarrow> sfud_flash \<Rightarrow> bool" where
  "erasers_ok b f =
     (let g = erase_gran (fchip f); es = erasers (sfdp f) in
      block_size b (erase_gran_cmd (fchip f)) = Some g \<and> g dvd array_size b \<and>
      (available (sfdp f) \<longrightarrow> length es = 4 \<and> e_size (es ! 0) = g \<and>
        (\<forall>e \<in> set es. e_size e \<noteq> 0 \<longrightarrow> block_size b (e_cmd e) = Some (e_size e) \<and> g dvd e_size e)))"

lemma find_eraser_spec:
  "find_eraser es a n i \<le> i \<and> (find_eraser es a n i = 0 \<or>
     e_size (es ! find_eraser es a n i) \<noteq> 0 \<and> e_size (es ! find_eraser es a n i) \<le> n \<and> a mod e_size (es ! find_eraser es a n i) = 0)"
proof (induction i)
  case 0
  then show ?case
    by (simp add: find_eraser.simps)
next
  case (Suc i)
  then show ?case
    by (subst (1 2 3 4 5) find_eraser.simps) auto
qed

lemma pick_eraser_spec:
  fixes a n :: nat
  assumes "nor_chip b" "erasers_ok b f" "0 < n"
  defines "g \<equiv> erase_gran (fchip f)"
  obtains e where "pick_eraser f a n = Some e" "block_size b (e_cmd e) = Some (e_size e)" "0 < g" "g dvd e_size e"
    "e_size e = g \<or> e_size e \<le> n \<and> a mod e_size e = 0"
proof -
  have g: "block_size b (erase_gran_cmd (fchip f)) = Some g"
    using assms(2) by (simp add: erasers_ok_def g_def Let_def)
  then have g0: "0 < g"
    using nor_opcodes(6) [OF assms(1)] by blast
  let ?es = "erasers (sfdp f)"
  have T: "length ?es = 4" "e_size (?es ! 0) = g"
    "\<And>e. e \<in> set ?es \<Longrightarrow> e_size e \<noteq> 0 \<Longrightarrow> block_size b (e_cmd e) = Some (e_size e) \<and> g dvd e_size e"
    if "available (sfdp f)"
    using assms(2) that by (auto simp: erasers_ok_def g_def Let_def)
  show thesis
  proof (cases "available (sfdp f)")
    case False
    then show thesis
      using g g0 that [of "\<lparr>e_size = g, e_cmd = erase_gran_cmd (fchip f)\<rparr>"] by (simp add: pick_eraser_def g_def)
  next
    case True
    obtain i where s: "sfud_sfdp_get_suitable_eraser f a n = Some i"
      and i: "i \<le> 3" "i = 0 \<or> e_size (?es ! i) \<noteq> 0 \<and> e_size (?es ! i) \<le> n \<and> a mod e_size (?es ! i) = 0"
    proof (rule that)
      show "sfud_sfdp_get_suitable_eraser f a n = Some (if a mod e_size (?es ! 0) \<noteq> 0 then 0 else find_eraser ?es a n 3)"
        using T(2) [OF True] g0 by (simp add: sfud_sfdp_get_suitable_eraser_def Let_def)
    qed (use find_eraser_spec [of ?es a n 3] in auto)
    have "?es ! i \<in> set ?es" "e_size (?es ! i) \<noteq> 0"
      using i T(1,2) [OF True] g0 by auto
    then show thesis
      using that [of "?es ! i"] T(2,3) [OF True] i(2) g0 s True by (auto simp: pick_eraser_def)
  qed
qed

lemma div_eq_range: "0 < (s :: nat) \<Longrightarrow> x div s = q \<longleftrightarrow> s * q \<le> x \<and> x < s * q + s"
  by (metis Suc_eq_plus1 add.commute add_mult_distrib2 div_nat_eqI dividend_less_times_div mult.right_neutral mult_Suc_right
      times_div_less_eq_dividend)

lemma eraser_block:
  fixes g s a n :: nat
  assumes "0 < g" "g dvd s" "0 < s" "0 < n" "s = g \<or> s \<le> n \<and> a mod s = 0"
  shows "x div s = a div s \<longleftrightarrow> g * (a div g) \<le> x \<and> x < a + (s - a mod s)" "g dvd a + (s - a mod s)"
    "a + (s - a mod s) \<le> up g (a + n)" "0 < s - a mod s"
proof -
  have m: "a mod s < s" "a = s * (a div s) + a mod s"
    using assms(3) by simp_all
  then have e: "a + (s - a mod s) = s * (a div s) + s"
    by linarith
  have lo: "g * (a div g) = s * (a div s)"
  proof (cases "s = g")
    case False
    then have "a mod s = 0"
      using assms(5) by blast
    then have "s dvd a" "g dvd a"
      using assms(2) dvd_trans by (auto simp: mod_eq_0_iff_dvd)
    then show ?thesis
      by simp
  qed simp
  show "x div s = a div s \<longleftrightarrow> g * (a div g) \<le> x \<and> x < a + (s - a mod s)"
    unfolding lo e by (rule div_eq_range [OF assms(3)])
  have "g dvd s * (a div s) + s"
    using assms(2) by (intro dvd_add) (simp_all add: dvd_mult2)
  then show d: "g dvd a + (s - a mod s)"
    unfolding e .
  show "0 < s - a mod s"
    using m by simp
  show "a + (s - a mod s) \<le> up g (a + n)"
  proof (cases "s = g")
    case True
    obtain j where j: "up g (a + n) = g * j"
      using up_dvd by (metis dvdE)
    have "g * (a div g) < g * j"
      using up_ge [OF assms(1), of "a + n"] assms(4) m(2) j True by (metis add_gr_0 le_add1 less_add_same_cancel1 less_le_trans linorder_not_less not_add_less1 order.strict_trans1 times_div_less_eq_dividend)
    then have "Suc (a div g) \<le> j"
      by simp
    then have "g * Suc (a div g) \<le> g * j"
      by (rule mult_le_mono2)
    then show ?thesis
      using e True j by simp
  next
    case False
    then have "a + (s - a mod s) \<le> a + n"
      using assms(5) by simp
    then show ?thesis
      using up_ge [OF assms(1), of "a + n"] by simp
  qed
qed

lemma erase_loop_spec:
  fixes b :: "'c nor"
  assumes "nor_chip b" "erasers_ok b f" "sfud_ok b f c" "a + n \<le> array_size b" "0 < n"
  shows "\<exists>r c'. erase_loop b f a n c = Some (r, c') \<and> sfud_ok b f c' \<and>
    (\<forall>x. x < erase_gran (fchip f) * (a div erase_gran (fchip f)) \<or> up (erase_gran (fchip f)) (a + n) \<le> x \<longrightarrow> array b c' x = array b c x) \<and>
    (r = SFUD_SUCCESS \<and> \<not> busy b c \<longrightarrow> \<not> busy b c' \<and>
      (\<forall>x. erase_gran (fchip f) * (a div erase_gran (fchip f)) \<le> x \<and> x < up (erase_gran (fchip f)) (a + n) \<longrightarrow> array b c' x = 0xFF))"
  using assms
proof (induction b f a n c rule: erase_loop.induct)
  case (1 b f a n c)
  let ?g = "erase_gran (fchip f)"
  obtain e where e: "pick_eraser f a n = Some e" and P: "block_size b (e_cmd e) = Some (e_size e)" "0 < ?g" "?g dvd e_size e"
      "e_size e = ?g \<or> e_size e \<le> n \<and> a mod e_size e = 0"
    by (rule pick_eraser_spec [OF "1.prems"(1,2,5)])
  define st where "st = e_size e - a mod e_size e"
  obtain r1 c1 where cmd: "command b f (e_cmd e # make_adress_byte_array f a) c = (r1, c1)"
    by (meson surj_pair)
  have s0: "0 < e_size e"
    using nor_opcodes(6) [OF "1.prems"(1) P(1)] .
  note B = eraser_block [OF P(2,3) s0 "1.prems"(5) P(4), folded st_def]
  have "a < array_size b"
    using "1.prems"(4,5) by simp
  note C = command_erase [OF "1.prems"(1,3) cmd P(1) this, unfolded B(1)]
  have loop: "erase_loop b f a n c = (if r1 \<noteq> SFUD_SUCCESS then Some (r1, c1)
      else if n > st then erase_loop b f (a + st) (n - st) c1 else Some (SFUD_SUCCESS, c1))"
    using "1.prems"(5) s0 by (subst erase_loop.simps) (simp add: e cmd st_def [symmetric] Let_def)
  have top: "up ?g (a + n) \<le> a + st" if "\<not> n > st"
    using that B(2) P(2) by (intro up_le) simp_all
  show ?case
  proof (cases "r1 = SFUD_SUCCESS \<and> n > st")
    case False
    then have l: "erase_loop b f a n c = Some (r1, c1)"
      using loop by (auto split: if_splits)
    show ?thesis
    proof (intro exI conjI allI impI; (elim conjE)?)
      show "erase_loop b f a n c = Some (r1, c1)" "sfud_ok b f c1"
        using l C(3) by auto
      show "array b c1 x = array b c x" if "x < ?g * (a div ?g) \<or> up ?g (a + n) \<le> x" for x
        using that B(3) by (intro C(1)) auto
      show "\<not> busy b c1" if "r1 = SFUD_SUCCESS"
        using that C(4) by blast
      show "array b c1 x = 0xFF" if "r1 = SFUD_SUCCESS" "\<not> busy b c" "?g * (a div ?g) \<le> x" "x < up ?g (a + n)" for x
        using that top False by (intro C(2)) auto
    qed
  next
    case True
    then have "a + st + (n - st) \<le> array_size b" "0 < n - st" "a + st + (n - st) = a + n"
      using "1.prems"(4) by auto
    with "1.IH" [OF _ e cmd [symmetric] _ _ st_def _ "1.prems"(1,2) C(3)] True "1.prems"(5) s0
    obtain r c' where IH: "erase_loop b f (a + st) (n - st) c1 = Some (r, c')" "sfud_ok b f c'"
      "\<And>x. x < ?g * ((a + st) div ?g) \<or> up ?g (a + n) \<le> x \<Longrightarrow> array b c' x = array b c1 x"
      "r = SFUD_SUCCESS \<Longrightarrow> \<not> busy b c1 \<Longrightarrow> \<not> busy b c'"
      "\<And>x. r = SFUD_SUCCESS \<Longrightarrow> \<not> busy b c1 \<Longrightarrow> ?g * ((a + st) div ?g) \<le> x \<Longrightarrow> x < up ?g (a + n) \<Longrightarrow> array b c' x = 0xFF"
      by (metis less_numeral_extra(3))
    have lo: "?g * ((a + st) div ?g) = a + st"
      using B(2) by simp
    have c1: "\<not> busy b c1"
      using True C(4) by blast
    show ?thesis
    proof (intro exI conjI allI impI; (elim conjE)?)
      show "erase_loop b f a n c = Some (r, c')" "sfud_ok b f c'"
        using loop True IH(1,2) by auto
      show "array b c' x = array b c x" if "x < ?g * (a div ?g) \<or> up ?g (a + n) \<le> x" for x
      proof -
        have "\<not> (?g * (a div ?g) \<le> x \<and> x < a + st)"
          using that B(3) by auto
        moreover have "x < a + st \<or> up ?g (a + n) \<le> x"
          using that times_div_less_eq_dividend [of ?g a] by linarith
        ultimately show ?thesis
          using C(1) [of x] IH(3) [of x, unfolded lo] by simp
      qed
      show "\<not> busy b c'" if "r = SFUD_SUCCESS"
        using that c1 IH(4) by blast
      show "array b c' x = 0xFF" if "r = SFUD_SUCCESS" "\<not> busy b c" "?g * (a div ?g) \<le> x" "x < up ?g (a + n)" for x
        using that True C(2) [of x] IH(3) [of x, unfolded lo] IH(5) [OF that(1) c1, of x, unfolded lo] by (cases "x < a + st") auto
    qed
  qed
qed

lemma chip_erase_spec:
  assumes "nor_chip b" "sfud_ok b f c" "write_mode (fchip f) AND SFUD_WM_DUAL_BUFFER = 0" "sfud_chip_erase b f c = (r, c')"
  shows "sfud_ok b f c'" "r = SFUD_SUCCESS \<Longrightarrow> \<not> busy b c \<Longrightarrow> \<not> busy b c'"
    "r = SFUD_SUCCESS \<Longrightarrow> \<not> busy b c \<Longrightarrow> x < array_size b \<Longrightarrow> array b c' x = 0xFF"
proof -
  obtain r1 c1 where cmd: "command b f [0xC7] c = (r1, c1)"
    by (meson surj_pair)
  have fin: "finish b (r1, c1) = (r, c')"
    using assms(3,4) cmd by (simp add: sfud_chip_erase_def)
  note C = command_spec [OF assms(1) cmd, simplified] and F = finish_spec [OF assms(1) fin]
  show "sfud_ok b f c'"
    using C(1) F(2) assms(2) sfud_ok_cong [of b c' c f] by (simp add: same_def)
  show "\<not> busy b c'" if "r = SFUD_SUCCESS" "\<not> busy b c"
    using that C(2) F(1,3) by simp
  show "array b c' x = 0xFF" if s: "r = SFUD_SUCCESS" "\<not> busy b c" "x < array_size b"
  proof -
    obtain c2 ack dat c3 where x: "\<not> busy b c2" "xfer b [0xC7] 0 c2 = (ack, dat, c3)" "array b c1 = array b c3" "ack" "latch b c2"
      using C(3) F(1) s by auto
    then have "array b c3 x = 0xFF"
      using nor_erase [OF assms(1) x(2)] s(3) by (auto simp: erase_step_def)
    then show ?thesis
      using F(2) x(3) by (simp add: same_def)
  qed
qed

section \<open>The operations\<close>

lemma bound_check:
  assumes "sfud_ok b f c" "a + n \<le> array_size b"
  shows "\<not> capacity (fchip f) < (a + n) mod 2 ^ 32"
proof -
  have "a + n < 2 ^ 32"
    using assms by (auto simp: sfud_ok_def split: if_splits)
  then show ?thesis
    using assms by (simp add: sfud_ok_def)
qed

lemma sfud_write_spec:
  assumes "nor_chip b" "sfud_ok b f c" "write_mode (fchip f) AND SFUD_WM_PAGE_256B \<noteq> 0" "a + n \<le> array_size b"
    and "sfud_write b f a n dat c = (r, c')"
  shows "(\<forall>x. x < a \<or> a + n \<le> x \<longrightarrow> array b c' x = array b c x) \<and> sfud_ok b f c' \<and>
    (r = SFUD_SUCCESS \<and> \<not> busy b c \<longrightarrow> \<not> busy b c' \<and> (\<forall>k < n. array b c' (a + k) = array b c (a + k) AND dat k))"
proof -
  obtain r1 c1 where l: "page_loop b f a n Page256 dat c = (r1, c1)"
    by (meson surj_pair)
  have "finish b (r1, c1) = (r, c')"
    using assms(3,5) bound_check [OF assms(2,4)] l by (simp add: sfud_write_def page256_or_1_byte_write_def)
  note F = finish_spec [OF assms(1) this]
  have "sfud_ok b f c' = sfud_ok b f c1"
    using F(2) by (intro sfud_ok_cong) (simp add: same_def)
  then show ?thesis
    using page_loop_spec [OF assms(1) l assms(2,4)] F by (simp add: same_def)
qed

lemma sfud_erase_spec:
  fixes f :: sfud_flash
  defines "g \<equiv> erase_gran (fchip f)"
  assumes "nor_chip b" "sfud_ok b f c" "erasers_ok b f" "write_mode (fchip f) AND SFUD_WM_DUAL_BUFFER = 0" "a + n \<le> array_size b"
  shows "\<exists>r c'. sfud_erase b f a n c = Some (r, c') \<and> sfud_ok b f c' \<and>
    (\<forall>x < array_size b. x < g * (a div g) \<or> up g (a + n) \<le> x \<longrightarrow> array b c' x = array b c x) \<and>
    (r = SFUD_SUCCESS \<and> \<not> busy b c \<longrightarrow> \<not> busy b c' \<and>
      (0 < n \<longrightarrow> (\<forall>x. g * (a div g) \<le> x \<and> x < up g (a + n) \<longrightarrow> array b c' x = 0xFF)))"
proof -
  have g: "0 < g" "g dvd array_size b"
    using assms(4) nor_opcodes(6) [OF assms(2)] by (auto simp: erasers_ok_def g_def Let_def)
  have top: "up g (a + n) \<le> array_size b"
    using g assms(6) by (rule up_le)
  note nb = bound_check [OF assms(3,6)]
  show ?thesis
  proof (cases "a = 0 \<and> n = capacity (fchip f)")
    case True
    obtain r c' where ce: "sfud_chip_erase b f c = (r, c')"
      by (meson surj_pair)
    have n: "n = array_size b" "up g (a + n) = array_size b"
      using True assms(3) g by (auto simp: sfud_ok_def up_id)
    note C = chip_erase_spec [OF assms(2,3,5) ce]
    show ?thesis
      using True nb ce C n top by (intro exI [of _ r] exI [of _ c']) (auto simp: sfud_erase_def)
  next
    case False
    show ?thesis
    proof (cases "n = 0")
      case True
      have "erase_loop b f a n c = Some (SFUD_SUCCESS, c)"
        using True by (simp add: erase_loop.simps)
      moreover obtain r c' where fin: "finish b (SFUD_SUCCESS, c) = (r, c')"
        by (meson surj_pair)
      ultimately have "sfud_erase b f a n c = Some (r, c')"
        using False nb by (auto simp: sfud_erase_def)
      moreover note F = finish_spec [OF assms(2) fin]
      moreover have "sfud_ok b f c'"
        using F(2) assms(3) sfud_ok_cong [of b c' c f] by (simp add: same_def)
      ultimately show ?thesis
        using True by (intro exI [of _ r] exI [of _ c']) (auto simp: same_def)
    next
      case n: False
      then obtain r1 c1 where l: "erase_loop b f a n c = Some (r1, c1)" "sfud_ok b f c1"
        "\<And>x. x < g * (a div g) \<or> up g (a + n) \<le> x \<Longrightarrow> array b c1 x = array b c x"
        "r1 = SFUD_SUCCESS \<Longrightarrow> \<not> busy b c \<Longrightarrow> \<not> busy b c1"
        "\<And>x. r1 = SFUD_SUCCESS \<Longrightarrow> \<not> busy b c \<Longrightarrow> g * (a div g) \<le> x \<Longrightarrow> x < up g (a + n) \<Longrightarrow> array b c1 x = 0xFF"
        using erase_loop_spec [OF assms(2,4,3,6)] unfolding g_def by auto
      obtain r c' where fin: "finish b (r1, c1) = (r, c')"
        by (meson surj_pair)
      note F = finish_spec [OF assms(2) fin]
      have "sfud_erase b f a n c = Some (r, c')"
        using False nb l(1) fin by (auto simp: sfud_erase_def)
      moreover have "sfud_ok b f c'"
        using F(2) l(2) sfud_ok_cong [of b c' c1 f] by (simp add: same_def)
      moreover have "array b c' = array b c1"
        using F(2) by (simp add: same_def)
      ultimately show ?thesis
        using l(3-5) F(1,3) by (intro exI [of _ r] exI [of _ c']) auto
    qed
  qed
qed

lemma sfud_read_spec:
  assumes "nor_chip b" "sfud_ok b f c" "a + n \<le> array_size b" "sfud_read b f a n c = (r, dat, c')"
  shows "same b c c'" "r = SFUD_SUCCESS \<Longrightarrow> 0 < n \<Longrightarrow> dat = map (array b c) [a ..< a + n]" "r = SFUD_SUCCESS \<Longrightarrow> \<not> busy b c'"
proof -
  obtain r1 c1 where w: "wait_busy b f c = (r1, c1)"
    by (meson surj_pair)
  obtain ack d c2 where x: "xfer b (0x03 # make_adress_byte_array f a) n c1 = (ack, d, c2)"
    by (metis prod_cases3)
  note W = wait_busy_spec [OF assms(1) w] and X = quiet_xfer [OF assms(1) x, simplified]
  have res: "(r, dat, c') = (if r1 \<noteq> SFUD_SUCCESS then (r1, [], c1) else if ack then (SFUD_SUCCESS, d, c2) else (SFUD_ERR_TIMEOUT, d, c2))"
    using assms(4) bound_check [OF assms(2,3)] w x by (auto simp: sfud_read_def spi_write_read_def)
  show "same b c c'"
    using W(1) X(1) res same_chip_trans by (auto split: if_splits)
  show "\<not> busy b c'" if "r = SFUD_SUCCESS"
    using that W(2) X(2) res by (auto split: if_splits)
  show "dat = map (array b c) [a ..< a + n]" if "r = SFUD_SUCCESS" "0 < n"
  proof -
    have "sfud_ok b f c1"
      using W(1) assms(2) sfud_ok_cong [of b c1 c f] by (simp add: same_def)
    then have "be_addr (make_adress_byte_array f a) = a" "length (make_adress_byte_array f a) = addr_len b c1"
      using sfud_ok_addr [of b f c1 a] assms(3) that(2) by auto
    then have "d = map (array b c1) [a ..< a + n]"
      using nor_read [OF assms(1) x] assms(3) that res W(2) by (auto simp: read_step_def split: if_splits)
    then show ?thesis
      using that res W(1) by (auto simp: same_def split: if_splits)
  qed
qed

lemma sfud_read_length:
  assumes "nor_chip b" "sfud_ok b f c" "a + n \<le> array_size b" "sfud_read b f a n c = (SFUD_SUCCESS, dat, c')"
  shows "length dat = n"
proof -
  obtain r1 c1 where w: "wait_busy b f c = (r1, c1)"
    by (meson surj_pair)
  obtain ack d c2 where x: "xfer b (0x03 # make_adress_byte_array f a) n c1 = (ack, d, c2)"
    by (metis prod_cases3)
  show ?thesis
    using assms(4) bound_check [OF assms(2,3)] w x quiet_xfer(3) [OF assms(1) x]
    by (auto simp: sfud_read_def spi_write_read_def split: if_splits)
qed

section \<open>Nothing fails\<close>

lemma working_norD: "working_nor b \<Longrightarrow> nor_chip b"
  by (simp add: working_nor_def)

lemma working_xfer:
  assumes "working_nor b"
  obtains dat c' where "xfer b w n c = (True, dat, c')"
proof -
  have "fst (xfer b w n c)"
    using assms by (simp add: working_nor_def)
  then show thesis
    using that by (metis prod.exhaust_sel)
qed

lemma working_status:
  assumes "working_nor b"
  obtains st where "sfud_read_status b c = (SFUD_SUCCESS, st, snd (snd (xfer b [0x05] 1 c)))"
  by (rule working_xfer [OF assms, of "[0x05]" 1 c]) (auto simp: sfud_read_status_def spi_write_read_def intro: that)

lemma working_enable:
  assumes "working_nor b" "\<not> busy b c"
  obtains c' where "set_write_enabled b True c = (SFUD_SUCCESS, c')"
proof -
  note chip = working_norD [OF assms(1)]
  obtain dat c1 where x: "xfer b [0x06] 0 c = (True, dat, c1)"
    using working_xfer [OF assms(1)] by blast
  obtain st where st: "sfud_read_status b c1 = (SFUD_SUCCESS, st, snd (snd (xfer b [0x05] 1 c1)))"
    using working_status [OF assms(1)] by blast
  have "\<not> busy b c1"
    using quiet_xfer(2) [OF chip x] assms(2) by simp
  moreover have "latch b c1"
    using assms x unfolding working_nor_def by (metis snd_conv)
  ultimately have "latch b (snd (snd (xfer b [0x05] 1 c1)))"
    using assms(1) unfolding working_nor_def by blast
  then have "st AND 2 \<noteq> 0"
    using read_status(3) [OF chip st] by blast
  then show thesis
    using that x st by (simp add: set_write_enabled_def spi_write_read_def)
qed

lemma working_wait_loop:
  assumes "working_nor b" "\<not> busy b (((\<lambda>c. snd (snd (xfer b [0x05] 1 c))) ^^ Suc j) c)" "j \<le> k"
  shows "fst (wait_loop b k c) = SFUD_SUCCESS"
  using assms(2,3)
proof (induction k arbitrary: j c)
  case 0
  obtain st where st: "sfud_read_status b c = (SFUD_SUCCESS, st, snd (snd (xfer b [0x05] 1 c)))"
    using working_status [OF assms(1)] by blast
  have "st AND 1 = 0"
    using read_status(3) [OF working_norD [OF assms(1)] st] 0 by simp
  then show ?case
    by (subst wait_loop.simps) (simp add: st)
next
  case (Suc k)
  obtain st where st: "sfud_read_status b c = (SFUD_SUCCESS, st, snd (snd (xfer b [0x05] 1 c)))"
    using working_status [OF assms(1)] by blast
  show ?case
  proof (cases "st AND 1 = 0")
    case True
    then show ?thesis
      by (subst wait_loop.simps) (simp add: st)
  next
    case False
    then have busy: "busy b (snd (snd (xfer b [0x05] 1 c)))"
      using read_status(3) [OF working_norD [OF assms(1)] st] by blast
    then obtain i where i: "j = Suc i"
      using Suc.prems(1) by (cases j) auto
    have "\<not> busy b (((\<lambda>c. snd (snd (xfer b [0x05] 1 c))) ^^ Suc i) (snd (snd (xfer b [0x05] 1 c))))"
      using Suc.prems(1) unfolding i funpow_Suc_right [of "Suc i"] o_apply .
    then have "fst (wait_loop b k (snd (snd (xfer b [0x05] 1 c)))) = SFUD_SUCCESS"
      using Suc.IH Suc.prems(2) i by simp
    then show ?thesis
      using False by (subst wait_loop.simps) (simp add: st)
  qed
qed

lemma working_wait:
  assumes "working_nor b" "retry_times f = 60 * 10000"
  shows "fst (wait_busy b f c) = SFUD_SUCCESS"
proof -
  obtain k where "k \<le> 60 * 10000" "\<not> busy b (((\<lambda>c. snd (snd (xfer b [0x05] 1 c))) ^^ Suc k) c)"
    using assms(1) unfolding working_nor_def by blast
  then show ?thesis
    unfolding wait_busy_def assms(2) using working_wait_loop [OF assms(1)] by blast
qed

lemma working_command:
  assumes "working_nor b" "retry_times f = 60 * 10000" "\<not> busy b c"
  shows "fst (command b f w c) = SFUD_SUCCESS"
proof -
  obtain c1 where e: "set_write_enabled b True c = (SFUD_SUCCESS, c1)"
    using working_enable [OF assms(1,3)] by blast
  obtain dat c2 where x: "xfer b w 0 c1 = (True, dat, c2)"
    using working_xfer [OF assms(1)] by blast
  show ?thesis
    using working_wait [OF assms(1,2), of c2] by (simp add: command_def e x spi_write_read_def)
qed

lemma working_page_loop:
  assumes "working_nor b" "retry_times f = 60 * 10000" "\<not> busy b c"
  shows "fst (page_loop b f a n g dat c) = SFUD_SUCCESS"
  using assms
proof (induction b f a n g dat c rule: page_loop.induct)
  case (1 b f a n g dat c)
  show ?case
  proof (cases "n = 0")
    case True
    then show ?thesis
      by (simp add: page_loop.simps)
  next
    case False
    define d where "d = data_size g a n"
    obtain c1 where cmd: "command b f (0x02 # make_adress_byte_array f a @ map dat [0 ..< d]) c = (SFUD_SUCCESS, c1)"
      using working_command [OF "1.prems"] by (metis prod.collapse)
    have "\<not> busy b c1"
      using command_spec(2) [OF working_norD [OF "1.prems"(1)] cmd] by simp
    then have "fst (page_loop b f (a + d) (n - d) g (\<lambda>i. dat (d + i)) c1) = SFUD_SUCCESS"
      using "1.IH" [OF False d_def cmd [symmetric] _ "1.prems"(1,2)] by simp
    then show ?thesis
      by (subst page_loop.simps) (simp add: False d_def [symmetric] cmd)
  qed
qed

lemma working_erase_loop:
  assumes "working_nor b" "retry_times f = 60 * 10000" "\<not> busy b c" "erase_loop b f a n c = Some (r, c')" "erasers_ok b f"
  shows "r = SFUD_SUCCESS"
  using assms
proof (induction b f a n c rule: erase_loop.induct)
  case (1 b f a n c)
  show ?case
  proof (cases "n = 0")
    case True
    then show ?thesis
      using "1.prems"(4) by (simp add: erase_loop.simps)
  next
    case False
    note chip = working_norD [OF "1.prems"(1)]
    have "0 < n" using False by simp
    then obtain e where e: "pick_eraser f a n = Some e" "block_size b (e_cmd e) = Some (e_size e)"
      by (rule pick_eraser_spec [OF chip "1.prems"(5)])
    obtain c1 where cmd: "command b f (e_cmd e # make_adress_byte_array f a) c = (SFUD_SUCCESS, c1)"
      using working_command [OF "1.prems"(1-3)] by (metis prod.collapse)
    have i: "\<not> busy b c1" and s0: "e_size e \<noteq> 0"
      using e(2) command_spec(2) [OF chip cmd] nor_opcodes(5,6) [OF chip] by auto
    have "erase_loop b f a n c = (if n > e_size e - a mod e_size e
        then erase_loop b f (a + (e_size e - a mod e_size e)) (n - (e_size e - a mod e_size e)) c1 else Some (SFUD_SUCCESS, c1))"
      using False s0 by (subst erase_loop.simps) (simp add: e(1) cmd Let_def)
    then show ?thesis
      using "1.IH" [OF False e(1) cmd [symmetric] _ s0 refl _ "1.prems"(1,2) i _ "1.prems"(5)] "1.prems"(4)
      by (auto split: if_splits)
  qed
qed

lemma working_finish: "fst (finish b rc) = fst rc"
  by (cases rc) (simp add: finish_def)

lemma working_write:
  assumes "working_nor b" "retry_times f = 60 * 10000" "\<not> busy b c" "sfud_ok b f c"
    and "write_mode (fchip f) AND SFUD_WM_PAGE_256B \<noteq> 0" "a + n \<le> array_size b"
  shows "fst (sfud_write b f a n dat c) = SFUD_SUCCESS"
  using working_page_loop [OF assms(1-3)] bound_check [OF assms(4,6)] assms(5)
  by (simp add: sfud_write_def page256_or_1_byte_write_def working_finish)

lemma working_erase:
  assumes "working_nor b" "retry_times f = 60 * 10000" "\<not> busy b c" "sfud_ok b f c" "erasers_ok b f"
    and "write_mode (fchip f) AND SFUD_WM_DUAL_BUFFER = 0" "a + n \<le> array_size b" "sfud_erase b f a n c = Some (r, c')"
  shows "r = SFUD_SUCCESS"
proof (cases "a = 0 \<and> n = capacity (fchip f)")
  case True
  then show ?thesis
    using assms(6,8) bound_check [OF assms(4,7)] working_command [OF assms(1-3), of "[0xC7]"]
    by (auto simp: sfud_erase_def sfud_chip_erase_def working_finish dest!: arg_cong [of _ _ fst])
next
  case False
  then obtain r1 c1 where "erase_loop b f a n c = Some (r1, c1)" "finish b (r1, c1) = (r, c')"
    using assms(8) bound_check [OF assms(4,7)] by (auto simp: sfud_erase_def)
  then show ?thesis
    using working_erase_loop [OF assms(1-3) _ assms(5)] finish_spec(1) [OF working_norD [OF assms(1)]] by blast
qed

lemma working_read:
  assumes "working_nor b" "retry_times f = 60 * 10000" "sfud_ok b f c" "a + n \<le> array_size b"
  shows "fst (sfud_read b f a n c) = SFUD_SUCCESS"
proof -
  obtain c1 where w: "wait_busy b f c = (SFUD_SUCCESS, c1)"
    using working_wait [OF assms(1,2)] by (metis prod.collapse)
  obtain dat c2 where x: "xfer b (0x03 # make_adress_byte_array f a) n c1 = (True, dat, c2)"
    using working_xfer [OF assms(1)] by blast
  show ?thesis
    using bound_check [OF assms(3,4)] by (simp add: sfud_read_def w x spi_write_read_def)
qed

section \<open>A reference chip\<close>

text \<open>A chip of two megabytes that does what the data sheet says at once.  \<open>reference_sfdp\<close> is its parameter
  space.\<close>

record nsim =
  n_mem :: memory
  n_latch :: bool

definition reference_blocks :: "u8 \<Rightarrow> nat option" where
  "reference_blocks = [0x20 \<mapsto> 4096, 0x52 \<mapsto> 32768, 0xD8 \<mapsto> 65536]"

definition reference_params :: "u8 list" where
  "reference_params =
     [0x53, 0x46, 0x44, 0x50, 0x00, 0x01, 0x00, 0xFF, 0x00, 0x00, 0x01, 0x09, 0x10, 0x00, 0x00, 0xFF,
               0xE5, 0x20, 0xF1, 0xFF, 0xFF, 0xFF, 0xFF, 0x00, 0x44, 0xEB, 0x08, 0x6B, 0x08, 0x3B, 0x80, 0xBB,
               0xEE, 0xFF, 0xFF, 0xFF, 0xFF, 0xFF, 0x00, 0xFF, 0xFF, 0xFF, 0x00, 0xFF,
               0x0C, 0x20, 0x0F, 0x52, 0x10, 0xD8, 0x00, 0xFF]"

definition reference_sfdp :: "nat \<Rightarrow> u8" where
  "reference_sfdp i = (if i < length reference_params then reference_params ! i else 0xFF)"

definition reference_reply :: "u8 list \<Rightarrow> nat \<Rightarrow> nsim \<Rightarrow> u8 list" where
  "reference_reply w n c =
     (if w = [0x05] then replicate n (if n_latch c then 2 else 0)
      else if w \<noteq> [] \<and> hd w = 0x03 then map (n_mem c) [be_addr (tl w) ..< be_addr (tl w) + n]
      else if w \<noteq> [] \<and> hd w = 0x5A then map reference_sfdp [be_addr (take 3 (tl w)) ..< be_addr (take 3 (tl w)) + n]
      else replicate n 0xFF)"

definition reference_effect :: "u8 list \<Rightarrow> nsim \<Rightarrow> nsim" where
  "reference_effect w c =
     (if w = [] then c
      else if hd w = 0x06 then c\<lparr>n_latch := True\<rparr>
      else if hd w = 0x04 then c\<lparr>n_latch := False\<rparr>
      else if \<not> n_latch c then c
      else if hd w = 0x02
      then c\<lparr>n_mem := (\<lambda>x. let a = be_addr (take 3 (tl w)); ds = drop 3 (tl w) in
               if a \<le> x \<and> x < a + length ds then n_mem c x AND ds ! (x - a) else n_mem c x), n_latch := False\<rparr>
      else if hd w = 0xC7 then c\<lparr>n_mem := (\<lambda>_. 0xFF), n_latch := False\<rparr>
      else case reference_blocks (hd w) of
             None \<Rightarrow> c
           | Some sz \<Rightarrow> c\<lparr>n_mem := (\<lambda>x. if x div sz = be_addr (tl w) div sz then 0xFF else n_mem c x), n_latch := False\<rparr>)"

definition reference_nor :: "nsim nor" where
  "reference_nor =
     \<lparr>xfer = (\<lambda>w n c. (True, reference_reply w n c, reference_effect w c)), array = n_mem, latch = n_latch, busy = (\<lambda>_. False),
      four = (\<lambda>_. False), array_size = 2 * 1024 * 1024, block_size = reference_blocks\<rparr>"

lemma reference_nor_simps [simp]:
  "array reference_nor = n_mem" "latch reference_nor = n_latch" "busy reference_nor c = False" "four reference_nor c = False"
  "array_size reference_nor = 2 * 1024 * 1024" "block_size reference_nor = reference_blocks"
  "xfer reference_nor w n c = (True, reference_reply w n c, reference_effect w c)"
  by (simp_all add: reference_nor_def)

lemma reference_blocks_None [simp]:
  "reference_blocks 0x01 = None" "reference_blocks 0x02 = None" "reference_blocks 0x03 = None" "reference_blocks 0x04 = None"
  "reference_blocks 0x05 = None" "reference_blocks 0x06 = None" "reference_blocks 0x66 = None" "reference_blocks 0x99 = None"
  "reference_blocks 0xAD = None" "reference_blocks 0xB7 = None" "reference_blocks 0xC7 = None" "reference_blocks 0xE9 = None"
  by (simp_all add: reference_blocks_def)

lemma reference_quiet: "quiet_step reference_nor w n c True (reference_reply w n c) (reference_effect w c)"
  by (auto simp: quiet_step_def quiet_def reference_reply_def reference_effect_def split: option.splits)

lemma reference_program: "program_step reference_nor w c True (reference_effect w c)"
  by (auto simp: program_step_def reference_effect_def addr_len_def Let_def)

lemma reference_erase: "erase_step reference_nor w c True (reference_effect w c)"
proof -
  have "e \<notin> {0x02, 0x04, 0x06, 0xC7}" if "reference_blocks e = Some sz" for e sz
    using that by auto
  then show ?thesis
    by (fastforce simp: erase_step_def reference_effect_def)
qed

lemma reference_nor_chip: "nor_chip reference_nor"
  using reference_quiet reference_program reference_erase
  by (auto simp: nor_chip_def read_step_def reference_reply_def reference_blocks_def split: if_splits)

lemma reference_nor_working: "working_nor reference_nor"
  using reference_nor_chip by (auto simp: working_nor_def reference_effect_def intro: exI [of _ 0])

definition reference_flash :: sfud_flash where
  "reference_flash =
     \<lparr>fchip = info ''W25Q16BV'' 0xEF 0x40 0x15 (2 * 1024 * 1024) 1 4096 0x20, sf_init_ok = True, addr_in_4_byte = False,
      retry_times = 60 * 10000,
      sfdp = \<lparr>available = True, major_rev = 1, minor_rev = 0, write_gran = 256, erase_4k = True, erase_4k_cmd = 0x20,
        sr_is_non_vola = True, vola_sr_we_cmd = 0, addr_3_byte = True, addr_4_byte = False, sfdp_capacity = 2 * 1024 * 1024,
        erasers = [\<lparr>e_size = 4096, e_cmd = 0x20\<rparr>, \<lparr>e_size = 32768, e_cmd = 0x52\<rparr>, \<lparr>e_size = 65536, e_cmd = 0xD8\<rparr>, \<lparr>e_size = 0, e_cmd = 0\<rparr>]\<rparr>\<rparr>"

lemma reference_flash_ok: "sfud_ok reference_nor reference_flash c" "erasers_ok reference_nor reference_flash"
  by (simp_all add: sfud_ok_def erasers_ok_def reference_flash_def info_def reference_blocks_def)

section \<open>Properties\<close>

text \<open>C17: Writes of the serial flash, for a chip that is written by pages (\<^verbatim>\<open>SFUD_WM_PAGE_256B\<close>; the byte-wise and
  the word-wise mode are not covered).  Whatever the bus and the chip do (failed transfers, a latch that does not
  set, a chip that stays busy), a write never changes a byte outside the range it was given; and if
  it reports success on a chip that was idle, every byte of the range has been programmed (its
  bits are those of the old byte and the data together, the data itself after an erase) and the chip is idle again.\<close>

theorem sfud_write_correct:
  assumes "nor_chip b" "sfud_ok b f c" "write_mode (fchip f) AND SFUD_WM_PAGE_256B \<noteq> 0" "a + n \<le> array_size b"
    and "sfud_write b f a n dat c = (r, c')"
  shows "(\<forall>x. x < a \<or> a + n \<le> x \<longrightarrow> array b c' x = array b c x) \<and> sfud_ok b f c' \<and>
    (r = SFUD_SUCCESS \<and> \<not> busy b c \<longrightarrow> \<not> busy b c' \<and> (\<forall>k < n. array b c' (a + k) = array b c (a + k) AND dat k))"
  using assms by (rule sfud_write_spec)

text \<open>Programming three bytes over a page boundary of an erased chip.\<close>

theorem sfud_write_correct_witness:
  "let c' = snd (sfud_write reference_nor reference_flash 254 3 (\<lambda>i. word_of_nat (i + 7)) \<lparr>n_mem = (\<lambda>_. 0xFF), n_latch = False\<rparr>)
   in n_mem c' 253 = 0xFF \<and> n_mem c' 254 = 7 \<and> n_mem c' 256 = 9"
proof -
  let ?c = "\<lparr>n_mem = (\<lambda>_. 0xFF), n_latch = False\<rparr>"
  obtain r c' where w: "sfud_write reference_nor reference_flash 254 3 (\<lambda>i. word_of_nat (i + 7)) ?c = (r, c')"
    by (meson surj_pair)
  have "r = SFUD_SUCCESS"
    using working_write [OF reference_nor_working _ _ reference_flash_ok(1), of ?c 254 3 "\<lambda>i. word_of_nat (i + 7)"] w
    by (simp add: reference_flash_def info_def)
  moreover note sfud_write_correct [OF reference_nor_chip reference_flash_ok(1) _ _ w]
  ultimately have "n_mem c' 253 = 0xFF" "\<forall>k < 3. n_mem c' (254 + k) = 0xFF AND word_of_nat (k + 7)"
    by (simp_all add: reference_flash_def info_def)
  then show ?thesis
    using w spec [of "\<lambda>k. k < 3 \<longrightarrow> n_mem c' (254 + k) = 0xFF AND word_of_nat (k + 7)" 0]
      spec [of "\<lambda>k. k < 3 \<longrightarrow> n_mem c' (254 + k) = 0xFF AND word_of_nat (k + 7)" 2] by simp
qed

text \<open>C18: Erasing the serial flash.  Whatever eraser the driver picks for each step, and whatever fails, the loop
  ends without a division by zero, and no byte outside the blocks of the erase granularity that the range touches is
  changed; if it reports success on a chip that was idle, exactly these blocks are erased.\<close>

theorem sfud_erase_correct:
  fixes f :: sfud_flash
  assumes "nor_chip b" "sfud_ok b f c" "erasers_ok b f" "write_mode (fchip f) AND SFUD_WM_DUAL_BUFFER = 0" "a + n \<le> array_size b"
  shows "\<exists>r c'. sfud_erase b f a n c = Some (r, c') \<and>
    (\<forall>x < array_size b. x < erase_gran (fchip f) * (a div erase_gran (fchip f)) \<or> up (erase_gran (fchip f)) (a + n) \<le> x \<longrightarrow>
       array b c' x = array b c x) \<and>
    (r = SFUD_SUCCESS \<and> \<not> busy b c \<and> 0 < n \<longrightarrow> \<not> busy b c' \<and>
      (\<forall>x. erase_gran (fchip f) * (a div erase_gran (fchip f)) \<le> x \<and> x < up (erase_gran (fchip f)) (a + n) \<longrightarrow> array b c' x = 0xFF))"
  using sfud_erase_spec [OF assms] by blast

text \<open>A range from the middle of one block into the next: the bytes before the range are lost too.\<close>

theorem sfud_erase_correct_witness:
  "\<exists>r c'. sfud_erase reference_nor reference_flash 5000 4000 \<lparr>n_mem = (\<lambda>_. 0), n_latch = False\<rparr> = Some (r, c') \<and>
     n_mem c' 4095 = 0 \<and> n_mem c' 12288 = 0"
  using sfud_erase_correct [OF reference_nor_chip reference_flash_ok, of 5000 4000 "\<lparr>n_mem = (\<lambda>_. 0), n_latch = False\<rparr>"]
  by (fastforce simp: reference_flash_def info_def up_def)

text \<open>A chip that only knows single-byte programming: nothing is written, and success is reported.\<close>

theorem sfud_write_byte_mode:
  assumes "write_gran (sfdp f) = 1"
  shows "sfud_write b (from_sfdp f) a n dat c = (SFUD_SUCCESS, c)"
  using assms by (simp add: sfud_write_def from_sfdp_def Let_def)

end
