(* ===== verification/Ota.thy ===== *)
theory Ota
  imports Fal
begin

text \<open>
  The firmware update, \<^verbatim>\<open>applications/ota.cxx\<close> and \<^verbatim>\<open>components/ota_module.cxx\<close>, with its two targets: the upper
  board writes the image into its own flash (\<^verbatim>\<open>ota_upper_module.cxx\<close>), the lower board is written
  through remote calls (\<^verbatim>\<open>ota_lower_module.cxx\<close> and, on the other side, \<^verbatim>\<open>ota_lower.cxx\<close>).  The image comes
  from a server, piece by piece; every ten kilobytes the position reached is stored, so that an
  update that breaks off goes on from there.

  The server, the link and the power are the environment: a run takes a list of events and ends as
  \<open>Cut\<close> when the list is used up, which is a power failure at that point.  A failing erase on the lower board is
  answered with a failure here; that board is built without exceptions and aborts instead, which the upper board
  sees as a lost answer.  Both end the attempt in the same way.
\<close>

section \<open>Checkpoints\<close>

text \<open>\<^verbatim>\<open>Config::OTA::offsets\<close> in the persistent storage: per module a version and an offset.\<close>

type_synonym offsets = "string \<Rightarrow> (string \<times> nat) option"

abbreviation (input) kCheckSize :: nat where "kCheckSize \<equiv> 10 * 1024"

definition getLastOffset :: "offsets \<Rightarrow> string \<Rightarrow> string \<Rightarrow> nat" where
  "getLastOffset offs m v = (case offs m of None \<Rightarrow> 0 | Some (v', off) \<Rightarrow> if v' = v then off else 0)"

definition setLastOffset :: "string \<Rightarrow> string \<Rightarrow> nat \<Rightarrow> offsets \<Rightarrow> offsets" where
  "setLastOffset m v off offs = offs(m \<mapsto> (v, off))"

text \<open>\<open>lastP\<close> is the module object's \<^verbatim>\<open>lastProgress\<close>.\<close>

definition updateProgress :: "string \<Rightarrow> string \<Rightarrow> nat \<Rightarrow> nat \<times> offsets \<Rightarrow> nat \<times> offsets" where
  "updateProgress m v pos = (\<lambda>(lastP, offs).
     if int kCheckSize \<le> int pos - int lastP
     then (let savedPos = pos - pos mod kCheckSize in (savedPos, setLastOffset m v savedPos offs))
     else (lastP, offs))"

section \<open>The environment\<close>

text \<open>
  \<open>Fetch_Fail\<close>: the request to the server fails.  \<open>Fetch n\<close>: the server delivers, if it has them, \<open>n\<close> bytes
  or as many as were asked for.  \<open>Write_Lost\<close>: the call to the lower board is not served in time.
  \<open>Write_Served ack\<close>: it is served, and the answer arrives or not.  The memory that \<open>Fetch\<close> and
  \<open>Write_Served\<close> carry is what lies behind the buffer that is written.
\<close>

datatype ota_event = Fetch_Fail | Fetch nat memory | Write_Lost | Write_Served bool memory

datatype ota_result = Cut | Finished | DownloadFailed | UpdateFailed | Skipped

text \<open>\<^verbatim>\<open>readData\<close> at the position of the stream: at most \<open>kBufSize\<close> bytes.\<close>

definition Stream_readData :: "u8 list \<Rightarrow> nat \<Rightarrow> nat \<Rightarrow> nat \<Rightarrow> u8 list" where
  "Stream_readData img strm kBufSize n = take (min n kBufSize) (drop strm img)"

definition buffer :: "u8 list \<Rightarrow> memory \<Rightarrow> memory" where
  "buffer dat tail i = (if i < length dat then dat ! i else tail i)"

section \<open>The upper board\<close>

text \<open>The download loop.  \<open>wr\<close> writes into the partition; its result is not looked at.  \<^verbatim>\<open>retryFetch\<close> sets
  the stream back after a failure and tries again.\<close>

fun upper_loop :: "(nat \<Rightarrow> memory \<Rightarrow> nat \<Rightarrow> 's \<Rightarrow> int \<times> 's) \<Rightarrow> string \<Rightarrow> u8 list \<Rightarrow> nat \<Rightarrow> ota_event list \<Rightarrow> nat \<Rightarrow> nat \<Rightarrow> nat
    \<Rightarrow> offsets \<Rightarrow> 's \<Rightarrow> ota_result \<times> offsets \<times> 's" where
  "upper_loop wr v img sz [] currPos strm lastP offs s = (Cut, offs, s)"
| "upper_loop wr v img sz (Fetch_Fail # es) currPos strm lastP offs s =
     upper_loop wr v img sz es currPos currPos lastP offs s"
| "upper_loop wr v img sz (Fetch n tail # es) currPos strm lastP offs s =
     (let dat = Stream_readData img strm 100 n
      in if dat = [] then (if currPos = sz then Finished else DownloadFailed, offs, s)
         else (let s1 = snd (wr currPos (buffer dat tail) (length dat) s);
                   pos = currPos + length dat;
                   (lastP1, offs1) = updateProgress ''upper'' v pos (lastP, offs)
               in upper_loop wr v img sz es pos (strm + length dat) lastP1 offs1 s1))"
| "upper_loop wr v img sz (Write_Lost # es) currPos strm lastP offs s =
     upper_loop wr v img sz es currPos strm lastP offs s"
| "upper_loop wr v img sz (Write_Served ack tail # es) currPos strm lastP offs s =
     upper_loop wr v img sz es currPos strm lastP offs s"

text \<open>The size to erase is an \<^verbatim>\<open>int\<close> difference converted to \<^verbatim>\<open>size_t\<close>.\<close>

definition rest :: "nat \<Rightarrow> nat \<Rightarrow> nat" where
  "rest sz off = nat ((int sz - int off) mod 2 ^ 32)"

definition OtaUpperModule_start :: "'s fal_flash_dev list \<Rightarrow> fal_partition option \<Rightarrow> string \<Rightarrow> u8 list \<Rightarrow> nat \<Rightarrow> nat \<Rightarrow> ota_event list
    \<Rightarrow> offsets \<Rightarrow> 's \<Rightarrow> ota_result \<times> offsets \<times> 's" where
  "OtaUpperModule_start devs parti v img sz off es offs s =
     (case parti of
        None \<Rightarrow> (UpdateFailed, offs, s)
      | Some p \<Rightarrow>
          (let (r, s1) = fal_partition_erase devs p off (rest sz off) s
           in if r < 0 then (UpdateFailed, offs, s1)
              else upper_loop (fal_partition_write devs p) v img sz es off off 0 offs s1))"

section \<open>The lower board\<close>

text \<open>The state machine of the callback: \<open>pend\<close> is the piece whose write has not been acknowledged.  A call
  that fails is repeated; the served call writes and always answers with success.\<close>

fun lower_loop :: "(nat \<Rightarrow> memory \<Rightarrow> nat \<Rightarrow> 's \<Rightarrow> int \<times> 's) \<Rightarrow> string \<Rightarrow> u8 list \<Rightarrow> nat \<Rightarrow> ota_event list \<Rightarrow> u8 list option
    \<Rightarrow> nat \<Rightarrow> nat \<Rightarrow> nat \<Rightarrow> offsets \<Rightarrow> 's \<Rightarrow> ota_result \<times> offsets \<times> 's" where
  "lower_loop wr v img sz [] pend currPos strm lastP offs s = (Cut, offs, s)"
| "lower_loop wr v img sz (Fetch_Fail # es) None currPos strm lastP offs s =
     lower_loop wr v img sz es None currPos currPos lastP offs s"
| "lower_loop wr v img sz (Fetch n tail # es) None currPos strm lastP offs s =
     (let dat = Stream_readData img strm 128 n
      in if dat = [] then (if currPos = sz then Finished else DownloadFailed, offs, s)
         else lower_loop wr v img sz es (Some dat) currPos (strm + length dat) lastP offs s)"
| "lower_loop wr v img sz (Write_Lost # es) (Some dat) currPos strm lastP offs s =
     lower_loop wr v img sz es (Some dat) currPos strm lastP offs s"
| "lower_loop wr v img sz (Write_Served ack tail # es) (Some dat) currPos strm lastP offs s =
     (let s1 = snd (wr currPos (buffer dat tail) (length dat) s)
      in if ack
         then (let pos = currPos + length dat;
                   (lastP1, offs1) = updateProgress ''lower'' v pos (lastP, offs)
               in lower_loop wr v img sz es None pos strm lastP1 offs1 s1)
         else lower_loop wr v img sz es (Some dat) currPos strm lastP offs s1)"
| "lower_loop wr v img sz (_ # es) pend currPos strm lastP offs s =
     lower_loop wr v img sz es pend currPos strm lastP offs s"

text \<open>\<open>served\<close> and \<open>ack\<close>: the erase call reaches the lower board, and its answer arrives.\<close>

definition OtaLowerModule_start :: "'s fal_flash_dev list \<Rightarrow> fal_partition \<Rightarrow> string \<Rightarrow> u8 list \<Rightarrow> nat \<Rightarrow> nat \<Rightarrow> bool \<Rightarrow> bool \<Rightarrow> ota_event list
    \<Rightarrow> offsets \<Rightarrow> 's \<Rightarrow> ota_result \<times> offsets \<times> 's" where
  "OtaLowerModule_start devs p v img sz off served ack es offs s =
     (let (r, s1) = (if served then fal_partition_erase devs p off (rest sz off) s else (0, s))
      in if \<not> served \<or> \<not> ack \<or> r < 0 then (UpdateFailed, offs, s1)
         else (let (lastP, offs1) = updateProgress ''lower'' v off (0, offs)
               in lower_loop (fal_partition_write devs p) v img sz es None off off lastP offs1 s1))"

section \<open>Starting an update\<close>

text \<open>\<^verbatim>\<open>Ota::start\<close> for each of the two modules.  \<open>currVer\<close> is the answer of \<^verbatim>\<open>getVersion\<close>; without an answer, or
  if the module has the version already, nothing is done.\<close>

definition Ota_start_upper :: "'s fal_flash_dev list \<Rightarrow> fal_partition option \<Rightarrow> string \<Rightarrow> string \<Rightarrow> u8 list \<Rightarrow> nat \<Rightarrow> ota_event list
    \<Rightarrow> offsets \<Rightarrow> 's \<Rightarrow> ota_result \<times> offsets \<times> 's" where
  "Ota_start_upper devs parti currVer v img sz es offs s =
     (if currVer = v then (Skipped, offs, s)
      else OtaUpperModule_start devs parti v img sz (getLastOffset offs ''upper'' v) es offs s)"

definition Ota_start_lower :: "'s fal_flash_dev list \<Rightarrow> fal_partition \<Rightarrow> string option \<Rightarrow> string \<Rightarrow> u8 list \<Rightarrow> nat \<Rightarrow> bool \<Rightarrow> bool
    \<Rightarrow> ota_event list \<Rightarrow> offsets \<Rightarrow> 's \<Rightarrow> ota_result \<times> offsets \<times> 's" where
  "Ota_start_lower devs p currVer v img sz served ack es offs s =
     (if currVer = None \<or> currVer = Some v then (Skipped, offs, s)
      else OtaLowerModule_start devs p v img sz (getLastOffset offs ''lower'' v) served ack es offs s)"

section \<open>What a checkpoint guarantees\<close>

definition holds :: "memory \<Rightarrow> u8 list \<Rightarrow> nat \<Rightarrow> bool" where
  "holds m img n \<longleftrightarrow> (\<forall>x < n. m x = img ! x)"

definition blank :: "memory \<Rightarrow> nat \<Rightarrow> nat \<Rightarrow> bool" where
  "blank m a b \<longleftrightarrow> (\<forall>x. a \<le> x \<and> x < b \<longrightarrow> m x = 0xFF)"

text \<open>The stored position is a multiple of the checkpoint size, and the image is in the flash up to there.\<close>

definition resumable :: "string \<Rightarrow> string \<Rightarrow> u8 list \<Rightarrow> offsets \<Rightarrow> memory \<Rightarrow> bool" where
  "resumable m v img offs mem \<longleftrightarrow> kCheckSize dvd getLastOffset offs m v \<and> getLastOffset offs m v \<le> length img \<and>
     holds mem img (getLastOffset offs m v)"

definition saved_upto :: "string \<Rightarrow> string \<Rightarrow> offsets \<Rightarrow> nat \<Rightarrow> bool" where
  "saved_upto m v offs pos \<longleftrightarrow> kCheckSize dvd getLastOffset offs m v \<and> getLastOffset offs m v \<le> pos"

lemma saved_resumable: "\<lbrakk>saved_upto m v offs pos; pos \<le> length img; holds mem img pos\<rbrakk> \<Longrightarrow> resumable m v img offs mem"
  by (auto simp: saved_upto_def resumable_def holds_def)

lemma saved_mono: "\<lbrakk>saved_upto m v offs pos; pos \<le> pos'\<rbrakk> \<Longrightarrow> saved_upto m v offs pos'"
  by (auto simp: saved_upto_def)

lemma updateProgress_saved:
  assumes "saved_upto m v offs pos" "updateProgress m v pos (lastP, offs) = (lastP', offs')"
  shows "saved_upto m v offs' pos"
proof (cases "int kCheckSize \<le> int pos - int lastP")
  case True
  then have "offs' = setLastOffset m v (pos - pos mod kCheckSize) offs" using assms(2) by (auto simp: updateProgress_def Let_def)
  then have "getLastOffset offs' m v = pos - pos mod kCheckSize" by (simp add: getLastOffset_def setLastOffset_def)
  then show ?thesis by (simp add: saved_upto_def minus_mod_eq_mult_div)
next
  case False
  then show ?thesis using assms by (simp add: updateProgress_def)
qed

text \<open>A piece of the image.\<close>

lemma piece:
  assumes "dat = Stream_readData img pos b n" "dat \<noteq> []"
  shows "pos + length dat \<le> length img" "j < length dat \<Longrightarrow> dat ! j = img ! (pos + j)"
    and "\<lbrakk>g dvd b; g dvd n; g dvd length img; g dvd pos\<rbrakk> \<Longrightarrow> g dvd length dat"
proof -
  have l: "length dat = min (min n b) (length img - pos)" by (simp add: assms(1) Stream_readData_def min.commute)
  have p: "pos < length img" using assms(2) l by (cases "pos < length img") auto
  then show "pos + length dat \<le> length img" using l by simp
  show "j < length dat \<Longrightarrow> dat ! j = img ! (pos + j)" using p by (simp add: assms(1) Stream_readData_def)
  show "g dvd length dat" if "g dvd b" "g dvd n" "g dvd length img" "g dvd pos"
    using that by (auto simp: l min_def)
qed

lemma holds_extend:
  assumes "holds m img pos" "\<And>x. x < pos \<Longrightarrow> m' x = m x" "\<And>j. j < n \<Longrightarrow> m' (pos + j) = img ! (pos + j)"
  shows "holds m' img (pos + n)"
  unfolding holds_def
proof (intro allI impI)
  fix x assume x: "x < pos + n"
  show "m' x = img ! x"
  proof (cases "x < pos")
    case True
    then show ?thesis using assms(1,2) by (simp add: holds_def)
  next
    case False
    then show ?thesis using assms(3) [of "x - pos"] x by simp
  qed
qed

lemma rest_less:
  assumes "off \<le> sz" "sz < 4294967296"
  shows "rest sz off = sz - off"
proof -
  have e: "int sz - int off = int (sz - off)" using assms(1) by linarith
  have m: "int (sz - off) mod 2 ^ 32 = int (sz - off)"
    by (rule mod_pos_pos_trivial) (use assms in simp_all)
  show ?thesis unfolding rest_def e m by simp
qed

definition fetches :: "nat \<Rightarrow> ota_event list \<Rightarrow> bool" where
  "fetches g es \<longleftrightarrow> (\<forall>n tail. Fetch n tail \<in> set es \<longrightarrow> g dvd n)"

lemma fetches_simps [simp]:
  "fetches g [] = True" "fetches g (Fetch n tail # es) = (g dvd n \<and> fetches g es)" "fetches g (Fetch_Fail # es) = fetches g es"
  "fetches g (Write_Lost # es) = fetches g es" "fetches g (Write_Served b m # es) = fetches g es"
  by (auto simp: fetches_def)

text \<open>The callback's state: what is pending is a piece of the image, written already or not.\<close>

definition pending_ok :: "nat \<Rightarrow> u8 list \<Rightarrow> memory \<Rightarrow> u8 list option \<Rightarrow> nat \<Rightarrow> nat \<Rightarrow> bool" where
  "pending_ok g img m pend pos strm \<longleftrightarrow>
     (case pend of
        None \<Rightarrow> strm = pos \<and> blank m pos (length img)
      | Some dat \<Rightarrow> strm = pos + length dat \<and> pos + length dat \<le> length img \<and> g dvd length dat \<and>
          (\<forall>j < length dat. dat ! j = img ! (pos + j)) \<and> blank m (pos + length dat) (length img) \<and>
          (blank m pos (pos + length dat) \<or> (\<forall>j < length dat. m (pos + j) = dat ! j)))"

context good_dev
begin

lemma write_piece:
  assumes "good s" "wgran dvd pos" "pending_ok wgran img (bytes s) (Some dat) pos strm" "length img \<le> cap"
    and "holds (bytes s) img pos" "wr pos (buffer dat tail) (length dat) s = (r, s')"
  shows "good s'" "holds (bytes s') img (pos + length dat)" "pending_ok wgran img (bytes s') (Some dat) pos strm"
proof -
  have P: "strm = pos + length dat" "pos + length dat \<le> length img" "wgran dvd length dat"
    "\<forall>j < length dat. dat ! j = img ! (pos + j)" "blank (bytes s) (pos + length dat) (length img)"
    "blank (bytes s) pos (pos + length dat) \<or> (\<forall>j < length dat. bytes s (pos + j) = dat ! j)"
    using assms(3) by (auto simp: pending_ok_def)
  have u: "up wgran (length dat) = length dat" using P(3) gran_pos(2) by (rule up_id [rotated])
  have cap: "pos + length dat \<le> cap" using P(2) assms(4) by linarith
  have R: "good s' \<and> (\<forall>x. x < pos \<or> pos + length dat \<le> x \<longrightarrow> bytes s' x = bytes s x) \<and>
      (\<forall>j < length dat. bytes s' (pos + j) = dat ! j)"
    using P(6)
  proof
    assume b: "blank (bytes s) pos (pos + length dat)"
    have bl: "bytes s (pos + j) = 0xFF" if "j < up wgran (length dat)" for j using b that by (simp add: blank_def u)
    note W = write_stored [OF assms(1) cap assms(2) bl assms(6)]
    show ?thesis using W(1,3) W(2) by (auto simp: u buffer_def)
  next
    assume "\<forall>j < length dat. bytes s (pos + j) = dat ! j"
    then have e: "bytes s (pos + j) = buffer dat tail j" if "j < length dat" for j using that by (simp add: buffer_def)
    show ?thesis using write_again [OF assms(1) cap assms(2) P(3) e assms(6)] e by (auto simp: buffer_def)
  qed
  then show "good s'" by blast
  show "holds (bytes s') img (pos + length dat)"
    using assms(5) by (rule holds_extend) (use R P(4) in auto)
  show "pending_ok wgran img (bytes s') (Some dat) pos strm"
    using P R by (auto simp: pending_ok_def blank_def)
qed

lemma lower_loop_resumable:
  assumes "wgran dvd 128" "wgran dvd length img" "length img \<le> cap"
    and "lower_loop wr v img (length img) es pend pos strm lastP offs s = (res, offs', s')"
    and "fetches wgran es" "good s" "wgran dvd pos" "pos \<le> length img" "holds (bytes s) img pos"
    and "pending_ok wgran img (bytes s) pend pos strm" "saved_upto ''lower'' v offs pos"
  shows "good s' \<and> resumable ''lower'' v img offs' (bytes s') \<and> (res = Finished \<longrightarrow> holds (bytes s') img (length img))"
  using assms(4-)
proof (induction es arbitrary: pend pos strm lastP offs s)
  case Nil
  then show ?case by (auto intro: saved_resumable)
next
  case (Cons e es)
  have keep: ?case if "lower_loop wr v img (length img) es pend pos strm lastP offs s = (res, offs', s')" "fetches wgran es"
    by (rule Cons.IH [OF that Cons.prems(3-)])
  show ?case
  proof (cases pend)
    case None
    with Cons.prems(7) have st: "strm = pos" "blank (bytes s) pos (length img)" by (auto simp: pending_ok_def)
    show ?thesis
    proof (cases e)
      case (Fetch n tail)
      define dat where "dat = Stream_readData img pos 128 n"
      show ?thesis
      proof (cases "dat = []")
        case True
        then have "s' = s" "offs' = offs" "res = Finished \<Longrightarrow> pos = length img"
          using Cons.prems(1) by (auto simp: None Fetch st(1) dat_def split: if_splits)
        then show ?thesis using Cons.prems by (auto intro: saved_resumable)
      next
        case False
        note pc = piece [OF dat_def False]
        have P: "pending_ok wgran img (bytes s) (Some dat) pos (pos + length dat)"
          using pc(1,2) pc(3) [of wgran] assms(1,2) Cons.prems(2,4) st(2)
          by (auto simp: pending_ok_def blank_def Fetch)
        have L: "lower_loop wr v img (length img) es (Some dat) pos (pos + length dat) lastP offs s = (res, offs', s')"
          using Cons.prems(1) False by (simp add: None Fetch st(1) Let_def flip: dat_def)
        show ?thesis by (rule Cons.IH [OF L _ Cons.prems(3-6) P Cons.prems(8)]) (use Cons.prems(2) Fetch in simp)
      qed
    qed (use Cons.prems(1,2) None st(1) in \<open>auto intro!: keep\<close>)
  next
    case (Some dat)
    show ?thesis
    proof (cases e)
      case (Write_Served ack tail)
      obtain r s1 where w: "wr pos (buffer dat tail) (length dat) s = (r, s1)" by (meson surj_pair)
      note W = write_piece [OF Cons.prems(3,4) Cons.prems(7) [unfolded Some] assms(3) Cons.prems(6) w]
      have P: "pos + length dat \<le> length img" "strm = pos + length dat" "wgran dvd length dat"
        "blank (bytes s1) (pos + length dat) (length img)" using W(3) by (auto simp: pending_ok_def)
      show ?thesis
      proof (cases ack)
        case True
        obtain lastP1 offs1 where up: "updateProgress ''lower'' v (pos + length dat) (lastP, offs) = (lastP1, offs1)"
          by (meson surj_pair)
        have S: "saved_upto ''lower'' v offs1 (pos + length dat)"
          using updateProgress_saved [OF saved_mono [OF Cons.prems(8)] up] by simp
        have L: "lower_loop wr v img (length img) es None (pos + length dat) strm lastP1 offs1 s1 = (res, offs', s')"
          using Cons.prems(1) w up True by (simp add: Some Write_Served)
        have "pending_ok wgran img (bytes s1) None (pos + length dat) strm" using P by (simp add: pending_ok_def)
        from Cons.IH [OF L _ W(1) _ P(1) W(2) this S] show ?thesis using P(3) Cons.prems(2,4) by (simp add: Write_Served)
      next
        case False
        have L: "lower_loop wr v img (length img) es (Some dat) pos strm lastP offs s1 = (res, offs', s')"
          using Cons.prems(1) w False by (simp add: Some Write_Served)
        have "holds (bytes s1) img pos" using W(2) by (simp add: holds_def)
        from Cons.IH [OF L _ W(1) Cons.prems(4,5) this W(3) Cons.prems(8)] show ?thesis
          using Cons.prems(2) by (simp add: Write_Served)
      qed
    qed (use Cons.prems(1,2) Some in \<open>auto intro!: keep\<close>)
  qed
qed

text \<open>One attempt to update, from wherever the last one got to.\<close>

lemma erase_resumable:
  assumes "gran dvd 10240" "length img \<le> cap" "good s" "resumable m v img offs (bytes s)"
    and "er (getLastOffset offs m v) (length img - getLastOffset offs m v) s = (r, s')"
  shows "good s'" "resumable m v img offs (bytes s')" "holds (bytes s') img (getLastOffset offs m v)"
    and "0 \<le> r \<Longrightarrow> blank (bytes s') (getLastOffset offs m v) (length img)"
proof -
  let ?o = "getLastOffset offs m v"
  have o: "kCheckSize dvd ?o" "?o \<le> length img" "holds (bytes s) img ?o" using assms(4) by (auto simp: resumable_def)
  have g: "gran dvd ?o" using assms(1) o(1) by (auto intro: dvd_trans)
  have c: "?o + (length img - ?o) \<le> cap" using o(2) assms(2) by simp
  note ok = good_ok [OF assms(3)]
  show "good s'" using erase_good [OF assms(3,5) c g] .
  have "bytes s' x = bytes s x" if "x < ?o" for x using erase_frame [OF ok assms(5) c g] that by blast
  then show h: "holds (bytes s') img ?o" using o(3) by (simp add: holds_def)
  then show "resumable m v img offs (bytes s')" using o by (simp add: resumable_def)
  have "length img \<le> ?o + up gran (length img - ?o)" using up_ge [OF gran_pos(1), of "length img - ?o"] o(2) by linarith
  then show "0 \<le> r \<Longrightarrow> blank (bytes s') ?o (length img)"
    using erase_done [OF ok assms(5) c g] by (auto simp: blank_def)
qed

end

text \<open>The same for the lower board's own partition.\<close>

definition download_good :: "'c hw \<Rightarrow> 'c flash \<Rightarrow> bool" where
  "download_good hw s \<longleftrightarrow> working_controller hw \<and> ready hw (chip s) \<and> \<not> Lock s"

definition downloaded :: "'c hw \<Rightarrow> 'c flash \<Rightarrow> memory" where
  "downloaded hw s x = onchip hw s (offset download_part + x)"

lemma lower_attempt:
  assumes "4 dvd length img" "length img \<le> 216 * 1024" "fetches 4 es"
    and "download_good hw s" "resumable ''lower'' v img offs (downloaded hw s)"
    and "Ota_start_lower (device_table hw) download_part currVer v img (length img) served ack es offs s = (res, offs', s')"
  shows "download_good hw s' \<and> resumable ''lower'' v img offs' (downloaded hw s') \<and>
    (res = Finished \<longrightarrow> holds (downloaded hw s') img (length img))"
proof -
  let ?o = "getLastOffset offs ''lower'' v"
  let ?wr = "fal_partition_write (device_table hw) download_part"
  let ?er = "fal_partition_erase (device_table hw) download_part"
  have o: "kCheckSize dvd ?o" "?o \<le> length img" "holds (downloaded hw s) img ?o" using assms(5) by (auto simp: resumable_def)
  have cap: "length img \<le> len download_part" using assms(2) by (simp add: download_part_def)
  have r: "rest (length img) ?o = length img - ?o" using o(2) assms(2) by (intro rest_less) auto
  have d: "(\<lambda>x. onchip hw s (offset download_part + x)) = downloaded hw s" for s by (simp add: downloaded_def fun_eq_iff)
  obtain r1 s1 where e: "?er ?o (length img - ?o) s = (r1, s1)" by (meson surj_pair)
  note E = download.part.erase_resumable [OF _ cap assms(4) [unfolded download_good_def] assms(5) [folded d] e, unfolded d, simplified]
  consider (skip) "s' = s" "offs' = offs" "res \<noteq> Finished"
    | (fail) "s' = s1" "offs' = offs" "res \<noteq> Finished"
    | (run) "0 \<le> r1" "(case updateProgress ''lower'' v ?o (0, offs) of (lastP, offs1) \<Rightarrow>
         lower_loop ?wr v img (length img) es None ?o ?o lastP offs1 s1) = (res, offs', s')"
    using assms(6) e by (auto simp: Ota_start_lower_def OtaLowerModule_start_def r split: if_splits)
  then show ?thesis
  proof cases
    case skip
    then show ?thesis using assms(4,5) by simp
  next
    case fail
    then show ?thesis using E(1,2) by (simp add: download_good_def)
  next
    case run
    obtain lastP offs1 where up: "updateProgress ''lower'' v ?o (0, offs) = (lastP, offs1)" by (meson surj_pair)
    have S: "saved_upto ''lower'' v offs1 ?o"
      by (rule updateProgress_saved [OF _ up]) (use o in \<open>simp add: saved_upto_def\<close>)
    have L: "lower_loop ?wr v img (length img) es None ?o ?o lastP offs1 s1 = (res, offs', s')" using run(2) up by simp
    have P: "pending_ok 4 img (downloaded hw s1) None ?o ?o" using E(4) run(1) by (simp add: pending_ok_def)
    have "4 dvd ?o" using o(1) by (rule dvd_trans [rotated]) simp
    from download.part.lower_loop_resumable [OF _ assms(1) cap L assms(3) _ this o(2) _ _ S] E(1,3) P
    show ?thesis by (simp add: d download_good_def)
  qed
qed

section \<open>Updates over power failures\<close>

text \<open>
  The history of an update to version \<open>v\<close> of the lower board: attempts one after the other, each ending in
  any way, a power failure in the middle included.  Between two attempts the flash may change
  arbitrarily behind the last checkpoint (whatever was being written or erased when the power
  failed), and the board is restarted.
\<close>

inductive update_history :: "'c hw \<Rightarrow> string \<Rightarrow> u8 list \<Rightarrow> offsets \<Rightarrow> 'c flash \<Rightarrow> bool" for hw v img where
  first: "getLastOffset offs ''lower'' v = 0 \<Longrightarrow> download_good hw s \<Longrightarrow> update_history hw v img offs s"
| again: "\<lbrakk>update_history hw v img offs s; fetches 4 es;
     Ota_start_lower (device_table hw) download_part currVer v img (length img) served ack es offs s = (res, offs', s');
     download_good hw s''; \<forall>x < getLastOffset offs' ''lower'' v. downloaded hw s'' x = downloaded hw s' x\<rbrakk>
   \<Longrightarrow> update_history hw v img offs' s''"

lemma history_resumable:
  assumes "update_history hw v img offs s" "4 dvd length img" "length img \<le> 216 * 1024"
  shows "download_good hw s \<and> resumable ''lower'' v img offs (downloaded hw s)"
  using assms(1)
proof (induction rule: update_history.induct)
  case (first offs s)
  then show ?case by (simp add: resumable_def holds_def)
next
  case (again offs s es currVer served ack res offs' s' s'')
  then have "resumable ''lower'' v img offs' (downloaded hw s')"
    using lower_attempt [OF assms(2,3) again.hyps(2) _ _ again.hyps(3)] by blast
  then have "resumable ''lower'' v img offs' (downloaded hw s'')"
    using again.hyps(5) by (simp add: resumable_def holds_def)
  then show ?case using again.hyps(4) by blast
qed

section \<open>Completion\<close>

text \<open>A run without disturbances: \<open>n\<close> pieces, each written at once, and the request that finds the end.\<close>

definition smooth :: "nat \<Rightarrow> ota_event list" where
  "smooth n = concat (replicate n [Fetch 128 (\<lambda>_. 0), Write_Served True (\<lambda>_. 0)]) @ [Fetch 128 (\<lambda>_. 0)]"

lemma smooth_simps [simp]:
  "smooth 0 = [Fetch 128 (\<lambda>_. 0)]" "smooth (Suc n) = Fetch 128 (\<lambda>_. 0) # Write_Served True (\<lambda>_. 0) # smooth n"
  by (simp_all add: smooth_def)

lemma smooth_fetches [simp]: "g dvd 128 \<Longrightarrow> fetches g (smooth n)"
  by (induction n) simp_all

lemma lower_loop_smooth:
  assumes "pos \<le> length img" "length img \<le> pos + 128 * n"
  shows "fst (lower_loop wr v img (length img) (smooth n) None pos pos lastP offs s) = Finished"
  using assms
proof (induction n arbitrary: pos lastP offs s)
  case 0
  then show ?case by (simp add: Stream_readData_def)
next
  case (Suc n)
  define dat where "dat = Stream_readData img pos 128 128"
  show ?case
  proof (cases "dat = []")
    case True
    then have "pos = length img" using Suc.prems(1) by (simp add: dat_def Stream_readData_def)
    then show ?thesis using True by (simp add: dat_def)
  next
    case False
    have l: "length dat = min 128 (length img - pos)" by (simp add: dat_def Stream_readData_def min.commute)
    obtain lastP1 offs1 where up: "updateProgress ''lower'' v (pos + length dat) (lastP, offs) = (lastP1, offs1)"
      by (meson surj_pair)
    have "pos + length dat \<le> length img" "length img \<le> pos + length dat + 128 * n" using l Suc.prems by auto
    from Suc.IH [OF this] show ?thesis using False up by (simp add: Let_def flip: dat_def)
  qed
qed

text \<open>A run does not depend on what lies before the position it starts from.\<close>

lemma lower_loop_cong:
  assumes "drop off img = drop off img'" "off \<le> pos" "off \<le> strm"
  shows "lower_loop wr v img sz es pend pos strm lastP offs s = lower_loop wr v img' sz es pend pos strm lastP offs s"
  using assms(2,3)
proof (induction es arbitrary: pend pos strm lastP offs s)
  case (Cons e es)
  have "drop strm img = drop strm img'" using assms(1) Cons.prems(2) by (metis drop_drop le_add_diff_inverse2)
  then have rd: "Stream_readData img strm b n = Stream_readData img' strm b n" for b n by (simp add: Stream_readData_def)
  show ?case using Cons by (cases e; cases pend) (auto simp: Let_def rd split: prod.splits)
qed simp

section \<open>Properties\<close>

text \<open>C7: The update of the lower board arrives.  Over any history of attempts to update to one version, with the
  power failing anywhere in between, lost calls and lost answers and failing requests to the server, if an attempt
  reports that the update is done, then the partition holds the image byte by byte.  The conditions: the
  version stays the same throughout, the server delivers pieces of whole words, the length of the image is
  divisible by four and fits into the partition, and the flash controller works whenever a board starts.\<close>

theorem lower_update_correct:
  assumes "update_history hw v img offs s" "4 dvd length img" "length img \<le> 216 * 1024" "fetches 4 es"
    and "Ota_start_lower (device_table hw) download_part currVer v img (length img) served ack es offs s = (Finished, offs', s')"
  shows "\<forall>x < length img. onchip hw s' (296 * 1024 + x) = img ! x"
  using lower_attempt [OF assms(2,3,4) _ _ assms(5)] history_resumable [OF assms(1-3)]
  by (auto simp: holds_def downloaded_def download_part_def)

lemma smooth_attempt:
  assumes "download_good hw s" "resumable ''lower'' v img offs (downloaded hw s)" "getLastOffset offs ''lower'' v < length img"
    and "length img \<le> 216 * 1024" "length img \<le> getLastOffset offs ''lower'' v + 128 * n" "w \<noteq> v"
  shows "fst (Ota_start_lower (device_table hw) download_part (Some w) v img (length img) True True (smooth n) offs s) = Finished"
proof -
  let ?o = "getLastOffset offs ''lower'' v"
  have o: "kCheckSize dvd ?o" "?o \<le> length img" using assms(2) by (auto simp: resumable_def)
  have "2048 dvd ?o" using o(1) by (rule dvd_trans [rotated]) simp
  then have e: "0 \<le> fst (fal_partition_erase (device_table hw) download_part ?o (length img - ?o) s)"
    using download.part.erase_works [OF assms(1) [unfolded download_good_def], of ?o "length img - ?o"] assms(3,4)
    by (simp add: download_part_def)
  have r: "rest (length img) ?o = length img - ?o" using o(2) assms(4) by (intro rest_less) auto
  show ?thesis using e lower_loop_smooth [OF o(2) assms(5)] assms(6)
    by (auto simp: Ota_start_lower_def OtaLowerModule_start_def r split: prod.splits)
qed

text \<open>C22: An update goes on.  After any history of attempts that left a checkpoint before the end of the
  image, an attempt without disturbances completes, with no more pieces than the checkpoint leaves.\<close>

theorem lower_update_completes:
  assumes "update_history hw v img offs s" "4 dvd length img" "length img \<le> 216 * 1024" "w \<noteq> v"
    and "getLastOffset offs ''lower'' v < length img" "length img \<le> getLastOffset offs ''lower'' v + 128 * n"
  shows "fst (Ota_start_lower (device_table hw) download_part (Some w) v img (length img) True True (smooth n) offs s) = Finished"
  using smooth_attempt history_resumable [OF assms(1-3)] assms(3-) by blast

definition sample_image :: "u8 list" where
  "sample_image = [1, 2, 3, 4, 5, 6, 7, 8]"

lemma sample_history: "update_history reference_hw ''1.1'' sample_image (\<lambda>_. None) blank_chip"
  by (rule update_history.first)
    (simp_all add: getLastOffset_def download_good_def reference_working blank_ready, simp add: blank_chip_def)

lemma sample_length [simp]: "length sample_image = 8"
  by (simp add: sample_image_def)

theorem lower_update_completes_witness:
  "fst (Ota_start_lower (device_table reference_hw) download_part (Some ''1.0'') ''1.1'' sample_image 8 True True (smooth 1)
     (\<lambda>_. None) blank_chip) = Finished"
  using lower_update_completes [OF sample_history, of "''1.0''" 1] by (simp add: getLastOffset_def del: smooth_simps)

theorem lower_update_correct_witness:
  "\<exists>offs' s'. Ota_start_lower (device_table reference_hw) download_part (Some ''1.0'') ''1.1'' sample_image 8 True True (smooth 1)
     (\<lambda>_. None) blank_chip = (Finished, offs', s') \<and> onchip reference_hw s' (296 * 1024 + 6) = 7"
proof -
  have h: "download_good reference_hw blank_chip \<and> resumable ''lower'' ''1.1'' sample_image (\<lambda>_. None) (downloaded reference_hw blank_chip)"
    by (rule history_resumable [OF sample_history]) simp_all
  then have "fst (Ota_start_lower (device_table reference_hw) download_part (Some ''1.0'') ''1.1'' sample_image (length sample_image)
      True True (smooth 1) (\<lambda>_. None) blank_chip) = Finished"
    by (intro smooth_attempt) (simp_all add: getLastOffset_def)
  then obtain offs' s' where f: "Ota_start_lower (device_table reference_hw) download_part (Some ''1.0'') ''1.1'' sample_image
      (length sample_image) True True (smooth 1) (\<lambda>_. None) blank_chip = (Finished, offs', s')"
    by (metis fst_conv prod.exhaust)
  have "onchip reference_hw s' (296 * 1024 + 6) = sample_image ! 6"
    using lower_update_correct [OF sample_history _ _ _ f, rule_format, of 6] by simp
  then have "onchip reference_hw s' (296 * 1024 + 6) = 7" by (simp add: sample_image_def)
  then show ?thesis using f unfolding sample_length by blast
qed

section \<open>Flaws\<close>

text \<open>C40: An update can get stuck at its end.  When the checkpoint is the end of the image (its length is a
  multiple of the checkpoint size and the power failed before the last request), every further attempt
  fails: the erase of the rest, which is empty, is an error of the flash driver.\<close>

theorem lower_update_stuck:
  assumes "flash_controller hw" "length img \<le> 216 * 1024" "offs ''lower'' = Some (v, length img)"
  shows "fst (Ota_start_lower (device_table hw) download_part currVer v img (length img) served ack es offs s) \<in> {Skipped, UpdateFailed}"
proof -
  have r: "rest (length img) (length img) = 0" using rest_less [of "length img" "length img"] assms(2) by simp
  have "fal_partition_erase (device_table hw) download_part (length img) 0 s =
      stm32_flash_erase hw (0x08000000 + 296 * 1024 + length img) 0 s"
    using download.ops(2) [of "length img" 0 hw] assms(2) by (simp add: download_part_def fal_flash_eqs)
  moreover have "fst (stm32_flash_erase hw (0x08000000 + 296 * 1024 + length img) 0 s) < 0"
    using assms(2) by (intro stm32_flash_erase_nothing [OF assms(1)]) simp_all
  ultimately show ?thesis using assms(3)
    by (auto simp: Ota_start_lower_def OtaLowerModule_start_def getLastOffset_def r split: prod.splits if_splits)
qed

theorem lower_update_stuck_witness:
  "fst (Ota_start_lower (device_table reference_hw) download_part (Some ''1.0'') ''1.1'' (replicate 10240 7) 10240 True True (smooth 80)
     [''lower'' \<mapsto> (''1.1'', 10240)] blank_chip) \<in> {Skipped, UpdateFailed}"
  using lower_update_stuck [OF reference_controller, of "replicate 10240 7" "[''lower'' \<mapsto> (''1.1'', 10240)]" "''1.1''"
      "Some ''1.0''" True True "smooth 80" blank_chip]
  by (simp del: smooth_simps replicate.simps)

text \<open>A checkpoint outlives its data.  A checkpoint of one version stays valid while an attempt with another
  version, broken off before its own first checkpoint, has erased the partition.  The next attempt
  with the first version goes on from the checkpoint, can report that the update is done, and leaves erased bytes
  where the first part of the image should be.\<close>

theorem stale_checkpoint:
  assumes "download_good hw s" "offs ''lower'' = Some (vA, off)" "kCheckSize dvd off" "0 < off" "off \<le> length imgA"
    and "vB \<noteq> vA" "wB \<noteq> vB" "off \<le> length imgB" "length imgB \<le> 216 * 1024"
    and B: "Ota_start_lower (device_table hw) download_part (Some wB) vB imgB (length imgB) True True [] offs s = (resB, offsB, sB)"
    and A: "4 dvd length imgA" "length imgA \<le> 216 * 1024" "fetches 4 es"
      "Ota_start_lower (device_table hw) download_part currVer vA imgA (length imgA) served ack es offsB sB = (Finished, offsA, sA)"
  shows "resB = Cut \<and> (\<forall>x < off. onchip hw sA (296 * 1024 + x) = 0xFF)"
proof -
  have g0: "getLastOffset offs ''lower'' vB = 0" using assms(2,6) by (simp add: getLastOffset_def)
  have rB: "resumable ''lower'' vB imgB offs (downloaded hw s)" by (simp add: resumable_def g0 holds_def)
  have d: "(\<lambda>x. onchip hw s (offset download_part + x)) = downloaded hw s" for s by (simp add: downloaded_def fun_eq_iff)
  obtain r1 s1 where e: "fal_partition_erase (device_table hw) download_part 0 (length imgB) s = (r1, s1)" by (meson surj_pair)
  have "imgB \<noteq> []" using assms(4,8) by auto
  then have r0: "0 \<le> r1"
    using download.part.erase_works [OF assms(1) [unfolded download_good_def], of 0 "length imgB"] assms(4,8,9) e
    by (simp add: download_part_def)
  have cB: "length imgB \<le> len download_part" using assms(9) by (simp add: download_part_def)
  note E = download.part.erase_resumable [OF _ cB assms(1) [unfolded download_good_def] rB [folded d], unfolded g0 d, simplified, OF e]
  have "resB = Cut" "offsB = offs" "sB = s1"
    using B e r0 assms(7) rest_less [of 0 "length imgB"] assms(9)
    by (auto simp: Ota_start_lower_def OtaLowerModule_start_def g0 updateProgress_def)
  moreover have ff: "downloaded hw s1 x = 0xFF" if "x < off" for x using E(4) [OF r0] that assms(8) by (simp add: blank_def)
  moreover define img where "img = replicate off 0xFF @ drop off imgA"
  have len: "length img = length imgA" using assms(5) by (simp add: img_def)
  have "resumable ''lower'' vA img offs (downloaded hw s1)"
    using assms(2,3,5) ff len by (simp add: resumable_def getLastOffset_def holds_def img_def nth_append)
  moreover have "Ota_start_lower (device_table hw) download_part currVer vA img (length img) served ack es offs s1 =
      Ota_start_lower (device_table hw) download_part currVer vA imgA (length imgA) served ack es offs s1"
  proof -
    have o: "getLastOffset offs ''lower'' vA = off" using assms(2) by (simp add: getLastOffset_def)
    have dr: "drop off img = drop off imgA" by (simp add: img_def)
    show ?thesis
      unfolding Ota_start_lower_def OtaLowerModule_start_def len o lower_loop_cong [OF dr order.refl order.refl] ..
  qed
  moreover have "download_good hw s1" using E(1) by (simp add: download_good_def)
  ultimately have "holds (downloaded hw sA) img (length img)"
    using lower_attempt [of img es hw s1 vA offs currVer served ack Finished offsA sA] A len by simp
  then have "onchip hw sA (296 * 1024 + x) = 0xFF" if "x < off" for x
    using that assms(5) len by (simp add: holds_def downloaded_def download_part_def img_def nth_append)
  then show ?thesis using \<open>resB = Cut\<close> by blast
qed

text \<open>Pieces must be whole words.  If the server once delivers a piece that is not a whole number of words,
  the flash driver refuses every later write, nobody looks at that, and the update reports that it
  is done.  Here the first piece has two bytes: the rest of the image is missing, and in its place
  is what lay behind the buffer.\<close>

theorem lower_update_unaligned:
  assumes "download_good hw s" "getLastOffset offs ''lower'' v = 0" "w \<noteq> v"
  shows "\<exists>offs' s'. Ota_start_lower (device_table hw) download_part (Some w) v [b0, b1, b2, b3] 4 True True
      [Fetch 2 t0, Write_Served True tail, Fetch 128 t1, Write_Served True t2, Fetch 128 t3] offs s = (Finished, offs', s') \<and>
    onchip hw s' (296 * 1024 + 2) = tail 2 \<and> onchip hw s' (296 * 1024 + 3) = tail 3"
proof -
  let ?p = "download_part" and ?d = "device_table hw"
  have W: "working_controller hw" "flash_controller hw" using assms(1) working_controllerD(1) by (auto simp: download_good_def)
  obtain r1 s1 where e: "fal_partition_erase ?d ?p 0 4 s = (r1, s1)" by (meson surj_pair)
  have r1: "0 \<le> r1"
    using download.part.erase_works [OF assms(1) [unfolded download_good_def], of 0 4] e by (simp add: download_part_def)
  have g1: "working_controller hw \<and> ready hw (chip s1) \<and> \<not> Lock s1"
    using download.part.erase_good [OF assms(1) [unfolded download_good_def] e] by (simp add: download_part_def)
  have b1: "onchip hw s1 (offset ?p + (0 + j)) = 0xFF" if "j < up 4 2" for j
    using download.part.erase_done [OF W(2) e, of j] r1 that by (simp add: download_part_def up_def)
  define B where "B = buffer [b0, b1] tail"
  obtain s2 where w: "fal_partition_write ?d ?p 0 B 2 s1 = (int 2, s2)"
    using download.part.write_works [OF g1 _ _ b1, where buf = B and n = 2] by (auto simp: download_part_def)
  have "stm32_flash_write hw (0x08000000 + 296 * 1024) B 2 s1 = (2, s2)"
    using w download.ops(1) [of 0 2 hw B] by (simp add: download_part_def fal_flash_eqs)
  note c = stm32_flash_write_spec(6) [OF W(2) this, simplified, unfolded RT_ALIGN_up]
  have m: "onchip hw s2 (296 * 1024 + 2) = tail 2" "onchip hw s2 (296 * 1024 + 3) = tail 3"
    using c [of 2] c [of 3] by (simp_all add: onchip_def up_def B_def buffer_def)
  define C where "C = buffer [b2, b3] t2"
  have "fal_partition_write ?d ?p 2 C 2 s2 = stm32_flash_write hw (0x08000000 + 296 * 1024 + 2) C 2 s2"
    using download.ops(1) [of 2 2 hw C] by (simp add: download_part_def fal_flash_eqs)
  then have w2: "snd (fal_partition_write ?d ?p 2 C 2 s2) = s2" by (simp add: stm32_flash_write_def)
  have "Ota_start_lower ?d ?p (Some w) v [b0, b1, b2, b3] 4 True True
      [Fetch 2 t0, Write_Served True tail, Fetch 128 t1, Write_Served True t2, Fetch 128 t3] offs s = (Finished, offs, s2)"
    using assms(2,3) e r1 w [unfolded numeral_2_eq_2] w2 [unfolded numeral_2_eq_2] rest_less [of 0 4]
    by (simp add: Ota_start_lower_def OtaLowerModule_start_def updateProgress_def Stream_readData_def
        flip: B_def C_def)
  then show ?thesis using m by blast
qed

end
