(* ===== verification/Norflash.thy ===== *)
theory Norflash
  imports Sfud Ota
begin

text \<open>
  The serial flash under the flash abstraction layer of the upper board (\<^verbatim>\<open>fal_flash_sfud_port.c\<close> and the tables of \<^verbatim>\<open>fal_cfg.h\<close>
  for that board), and the firmware update of the upper board over it.
\<close>

section \<open>The port\<close>

text \<open>\<open>sfud_dev\<close> is the static pointer of the port; \<open>halted\<close> is a failed assertion or a division by zero.\<close>

record 'd nordev =
  sfud_dev :: "sfud_flash option"
  nchip :: 'd
  halted :: bool

text \<open>\<open>found\<close> is the result of \<^verbatim>\<open>rt_sfud_flash_find_by_dev_name\<close>.\<close>

definition nor_init :: "sfud_flash option \<Rightarrow> 'd nordev \<Rightarrow> int \<times> 'd nordev" where
  "nor_init found s = (if found = None then - 1 else 0, s\<lparr>sfud_dev := found\<rparr>)"

definition nor_ready :: "'d nordev \<Rightarrow> sfud_flash option" where
  "nor_ready s = (case sfud_dev s of None \<Rightarrow> None | Some f \<Rightarrow> if sf_init_ok f then Some f else None)"

text \<open>The result of the read is not looked at.\<close>

definition nor_read :: "'d nor \<Rightarrow> nat \<Rightarrow> nat \<Rightarrow> 'd nordev \<Rightarrow> int \<times> u8 list \<times> 'd nordev" where
  "nor_read b off n s =
     (case nor_ready s of
        None \<Rightarrow> (0, [], s\<lparr>halted := True\<rparr>)
      | Some f \<Rightarrow> (case sfud_read b f off n (nchip s) of (_, dat, c) \<Rightarrow> (size_int n, dat, s\<lparr>nchip := c\<rparr>)))"

definition nor_write :: "'d nor \<Rightarrow> nat \<Rightarrow> memory \<Rightarrow> nat \<Rightarrow> 'd nordev \<Rightarrow> int \<times> 'd nordev" where
  "nor_write b off buf n s =
     (case nor_ready s of
        None \<Rightarrow> (0, s\<lparr>halted := True\<rparr>)
      | Some f \<Rightarrow> (case sfud_write b f off n buf (nchip s) of (r, c) \<Rightarrow>
          (if r \<noteq> SFUD_SUCCESS then - 1 else size_int n, s\<lparr>nchip := c\<rparr>)))"

definition nor_erase :: "'d nor \<Rightarrow> nat \<Rightarrow> nat \<Rightarrow> 'd nordev \<Rightarrow> int \<times> 'd nordev" where
  "nor_erase b off n s =
     (case nor_ready s of
        None \<Rightarrow> (0, s\<lparr>halted := True\<rparr>)
      | Some f \<Rightarrow> (case sfud_erase b f off n (nchip s) of
            None \<Rightarrow> (0, s\<lparr>halted := True\<rparr>)
          | Some (r, c) \<Rightarrow> (if r \<noteq> SFUD_SUCCESS then - 1 else size_int n, s\<lparr>nchip := c\<rparr>)))"

section \<open>The tables of the upper board\<close>

text \<open>The state of both devices.  A read through the layer gives no new state: what it changes of the chip is
  only how often its status was read.\<close>

definition lift_fst :: "'s fal_flash_dev \<Rightarrow> ('s \<times> 't) fal_flash_dev" where
  "lift_fst d =
     \<lparr>name = name d, dev_len = dev_len d, blk_size = blk_size d,
      op_init = map_option (\<lambda>g (s, t). case g s of (r, s1) \<Rightarrow> (r, s1, t)) (op_init d),
      op_read = (\<lambda>a n (s, t). op_read d a n s),
      op_write = (\<lambda>a buf n (s, t). case op_write d a buf n s of (r, s1) \<Rightarrow> (r, s1, t)),
      op_erase = (\<lambda>a n (s, t). case op_erase d a n s of (r, s1) \<Rightarrow> (r, s1, t))\<rparr>"

definition up_read :: "'d nor \<Rightarrow> nat \<Rightarrow> nat \<Rightarrow> 's \<times> 'd nordev \<Rightarrow> int \<times> u8 list" where
  "up_read b a n = (\<lambda>(s, t). case nor_read b a n t of (r, dat, _) \<Rightarrow> (r, dat))"

definition up_write :: "'d nor \<Rightarrow> nat \<Rightarrow> memory \<Rightarrow> nat \<Rightarrow> 's \<times> 'd nordev \<Rightarrow> int \<times> 's \<times> 'd nordev" where
  "up_write b a buf n = (\<lambda>(s, t). case nor_write b a buf n t of (r, t1) \<Rightarrow> (r, s, t1))"

definition up_erase :: "'d nor \<Rightarrow> nat \<Rightarrow> nat \<Rightarrow> 's \<times> 'd nordev \<Rightarrow> int \<times> 's \<times> 'd nordev" where
  "up_erase b a n = (\<lambda>(s, t). case nor_erase b a n t of (r, t1) \<Rightarrow> (r, s, t1))"

definition nor_flash0 :: "'d nor \<Rightarrow> sfud_flash option \<Rightarrow> ('s \<times> 'd nordev) fal_flash_dev" where
  "nor_flash0 b found =
     \<lparr>name = ''norflash0'',
      dev_len = (case found of None \<Rightarrow> 8 * 1024 * 1024 | Some f \<Rightarrow> capacity (fchip f)),
      blk_size = (case found of None \<Rightarrow> 4096 | Some f \<Rightarrow> erase_gran (fchip f)),
      op_init = Some (\<lambda>(s, t). case nor_init found t of (r, t1) \<Rightarrow> (r, s, t1)),
      op_read = up_read b, op_write = up_write b, op_erase = up_erase b\<rparr>"

definition upper_device_table :: "'c hw \<Rightarrow> 'd nor \<Rightarrow> sfud_flash option \<Rightarrow> ('c flash \<times> 'd nordev) fal_flash_dev list" where
  "upper_device_table hw b found = [lift_fst (stm32_onchip_flash hw), nor_flash0 b found]"

definition nor_part :: "string \<Rightarrow> nat \<Rightarrow> nat \<Rightarrow> fal_partition" where
  "nor_part nm off ln = \<lparr>part_name = nm, flash_name = ''norflash0'', offset = off, len = ln\<rparr>"

definition upper_download :: fal_partition where
  "upper_download = nor_part ''download'' (1024 * 1024) (1024 * 1024)"

definition upper_partition_table :: "fal_partition list" where
  "upper_partition_table =
     [onchip_part ''bl'' 0 (36 * 1024), onchip_part ''app'' (36 * 1024) (476 * 1024), nor_part ''fdb_kvdb'' 0 (8 * 1024),
      nor_part ''download'' (1024 * 1024) (1024 * 1024)]"

section \<open>The serial flash is a flash device\<close>

text \<open>A chip that works, with blocks of four kilobytes and at least the two megabytes the partitions need, as the driver knows it.\<close>

definition nor_good :: "'d nor \<Rightarrow> sfud_flash \<Rightarrow> 'd nordev \<Rightarrow> bool" where
  "nor_good b f s =
     (working_nor b \<and> erasers_ok b f \<and> sf_init_ok f \<and> retry_times f = 60 * 10000 \<and> erase_gran (fchip f) = 4096 \<and>
      write_mode (fchip f) AND SFUD_WM_PAGE_256B \<noteq> 0 \<and> write_mode (fchip f) AND SFUD_WM_DUAL_BUFFER = 0 \<and>
      2 * 1024 * 1024 \<le> array_size b \<and>
      sfud_dev s = Some f \<and> sfud_ok b f (nchip s) \<and> \<not> busy b (nchip s) \<and> \<not> halted s)"

lemma nor_goodD:
  assumes "nor_good b f s"
  shows "working_nor b" "nor_chip b" "erasers_ok b f" "retry_times f = 60 * 10000" "erase_gran (fchip f) = 4096"
    "write_mode (fchip f) AND SFUD_WM_PAGE_256B \<noteq> 0" "write_mode (fchip f) AND SFUD_WM_DUAL_BUFFER = 0"
    "2 * 1024 * 1024 \<le> array_size b" "nor_ready s = Some f" "sfud_ok b f (nchip s)" "\<not> busy b (nchip s)"
  using assms working_norD by (auto simp: nor_good_def nor_ready_def)

lemma nor_good_upd: "nor_good b f s \<Longrightarrow> sfud_ok b f c \<Longrightarrow> \<not> busy b c \<Longrightarrow> nor_good b f (s\<lparr>nchip := c\<rparr>)"
  by (simp add: nor_good_def)

definition nor_bytes :: "'d nor \<Rightarrow> 'd nordev \<Rightarrow> memory" where
  "nor_bytes b s x = (if x < array_size b then array b (nchip s) x else 0)"

lemma nor_erase_good:
  assumes "nor_good b f s" "nor_erase b a n s = (r, s')" "a + n \<le> 2 * 1024 * 1024"
  shows "r = int n" "nor_good b f s'" "x < 4096 * (a div 4096) \<or> up 4096 (a + n) \<le> x \<Longrightarrow> nor_bytes b s' x = nor_bytes b s x"
    "0 < n \<Longrightarrow> 4096 * (a div 4096) \<le> x \<Longrightarrow> x < up 4096 (a + n) \<Longrightarrow> nor_bytes b s' x = 0xFF"
proof -
  note G = nor_goodD [OF assms(1)]
  have fit: "a + n \<le> array_size b"
    using assms(3) G(8) by simp
  obtain r1 c' where e: "sfud_erase b f a n (nchip s) = Some (r1, c')" "sfud_ok b f c'"
    "\<forall>x < array_size b. x < 4096 * (a div 4096) \<or> up 4096 (a + n) \<le> x \<longrightarrow> array b c' x = array b (nchip s) x"
    "r1 = SFUD_SUCCESS \<longrightarrow> \<not> busy b c' \<and> (0 < n \<longrightarrow> (\<forall>x. 4096 * (a div 4096) \<le> x \<and> x < up 4096 (a + n) \<longrightarrow> array b c' x = 0xFF))"
    using sfud_erase_spec [OF G(2,10,3,7) fit] G(5,11) by auto
  have r1: "r1 = SFUD_SUCCESS"
    using working_erase [OF G(1,4,11,10,3,7) fit e(1)] .
  have n: "size_int n = int n"
    using assms(3) by (intro size_int_small) simp
  have rs: "r = int n" "s' = s\<lparr>nchip := c'\<rparr>"
    using assms(2) G(9) e(1) r1 n by (auto simp: nor_erase_def)
  show "r = int n"
    by (rule rs(1))
  show "nor_good b f s'"
    using nor_good_upd [OF assms(1) e(2)] e(4) r1 rs(2) by blast
  show "nor_bytes b s' x = nor_bytes b s x" if "x < 4096 * (a div 4096) \<or> up 4096 (a + n) \<le> x"
    using that e(3) by (auto simp: nor_bytes_def rs(2))
  show "nor_bytes b s' x = 0xFF" if "0 < n" "4096 * (a div 4096) \<le> x" "x < up 4096 (a + n)"
  proof -
    have "4096 dvd array_size b"
      using G(3,5) by (simp add: erasers_ok_def Let_def)
    then have "up 4096 (a + n) \<le> array_size b"
      using fit by (intro up_le) simp_all
    then show ?thesis
      using that e(4) r1 by (simp add: nor_bytes_def rs(2))
  qed
qed

lemma nor_write_good:
  assumes "nor_good b f s" "nor_write b a buf n s = (r, s')" "a + n \<le> 2 * 1024 * 1024"
  shows "r = int n" "nor_good b f s'" "x < a \<or> a + n \<le> x \<Longrightarrow> nor_bytes b s' x = nor_bytes b s x"
    "k < n \<Longrightarrow> nor_bytes b s' (a + k) = nor_bytes b s (a + k) AND buf k"
proof -
  note G = nor_goodD [OF assms(1)]
  have fit: "a + n \<le> array_size b"
    using assms(3) G(8) by simp
  obtain r1 c' where w: "sfud_write b f a n buf (nchip s) = (r1, c')"
    by (meson surj_pair)
  note W = sfud_write_spec [OF G(2,10,6) fit w]
  have r1: "r1 = SFUD_SUCCESS"
    using working_write [OF G(1,4,11,10,6) fit, of buf] w by simp
  have n: "size_int n = int n"
    using assms(3) by (intro size_int_small) simp
  have rs: "r = int n" "s' = s\<lparr>nchip := c'\<rparr>"
    using assms(2) G(9) w r1 n by (auto simp: nor_write_def)
  show "r = int n"
    by (rule rs(1))
  show "nor_good b f s'"
    using nor_good_upd [OF assms(1)] W r1 rs(2) G(11) by blast
  show "nor_bytes b s' x = nor_bytes b s x" if "x < a \<or> a + n \<le> x"
    using that W by (auto simp: nor_bytes_def rs(2))
  show "nor_bytes b s' (a + k) = nor_bytes b s (a + k) AND buf k" if "k < n"
    using that W r1 G(11) fit by (simp add: nor_bytes_def rs(2))
qed

lemma nor_read_good:
  assumes "nor_good b f s" "a + n \<le> 2 * 1024 * 1024"
  shows "\<exists>s'. nor_read b a n s = (int n, map (nor_bytes b s) [a ..< a + n], s')"
proof -
  note G = nor_goodD [OF assms(1)]
  have fit: "a + n \<le> array_size b"
    using assms(2) G(8) by simp
  obtain r1 dat c' where r: "sfud_read b f a n (nchip s) = (r1, dat, c')"
    by (metis prod_cases3)
  have r1: "r1 = SFUD_SUCCESS"
    using working_read [OF G(1,4,10) fit] r by simp
  then have "dat = map (array b (nchip s)) [a ..< a + n]"
    using sfud_read_spec(2) [OF G(2,10) fit r] sfud_read_length [OF G(2,10) fit r [unfolded r1]] by (cases "n = 0") auto
  moreover have "map (array b (nchip s)) [a ..< a + n] = map (nor_bytes b s) [a ..< a + n]"
    using fit by (auto simp: nor_bytes_def)
  moreover have "size_int n = int n"
    using assms(2) by (intro size_int_small) simp
  ultimately show ?thesis
    using r G(9) by (simp add: nor_read_def)
qed

lemma up_shift: "0 < g \<Longrightarrow> g dvd a \<Longrightarrow> up g (a + n) = a + up g n"
proof -
  assume g: "0 < g" "g dvd a"
  then obtain k where k: "a = g * k"
    by (elim dvdE)
  obtain m where m: "n + g = Suc m"
    using g(1) by (cases "n + g") simp_all
  then have "a + n + g - 1 = m + g * k"
    by (simp add: k)
  then show ?thesis
    using g(1) m by (simp add: up_def k add_mult_distrib2)
qed

lemma and_blank [simp]: "0xFF AND (w :: u8) = w"
proof -
  have "(0xFF :: u8) = - 1"
    by simp
  then show ?thesis
    by (simp only: and.left_neutral)
qed

lemma up_erase_works: "nor_good b f (snd s) \<Longrightarrow> a + n \<le> 2 * 1024 * 1024 \<Longrightarrow> 0 \<le> fst (up_erase b a n s)"
  using nor_erase_good(1) [of b f "snd s" a n] by (cases s) (auto simp: up_erase_def split: prod.split)

lemma up_write_works:
  assumes "nor_good b f (snd s)" "a + n \<le> 2 * 1024 * 1024"
  shows "\<exists>s'. up_write b a buf n s = (int n, s') \<and> nor_good b f (snd s')"
  using nor_write_good(1,2) [OF assms(1) _ assms(2), of buf] by (cases s) (auto simp: up_write_def split: prod.split)

lemma up_write_again:
  assumes "nor_good b f (snd s)" "a + n \<le> 2 * 1024 * 1024" "\<And>j. j < n \<Longrightarrow> nor_bytes b (snd s) (a + j) = buf j"
    and "up_write b a buf n s = (r, s')"
  shows "nor_good b f (snd s') \<and> nor_bytes b (snd s') = nor_bytes b (snd s)"
proof -
  have w: "nor_write b a buf n (snd s) = (r, snd s')"
    using assms(4) by (cases s) (auto simp: up_write_def split: prod.splits)
  note W = nor_write_good [OF assms(1) w assms(2)]
  have "nor_bytes b (snd s') x = nor_bytes b (snd s) x" for x
  proof (cases "x < a \<or> a + n \<le> x")
    case False
    then have "x - a < n" "a + (x - a) = x"
      by auto
    then show ?thesis
      using W(4) [of "x - a"] assms(3) [of "x - a"] by simp
  qed (rule W(3))
  then show ?thesis
    using W(2) by blast
qed

interpretation upper: good_partition "up_write b" "up_erase b" "up_read b" "\<lambda>s. nor_bytes b (snd s)"
  "\<lambda>s. nor_good b f (snd s)" 4096 1 "2 * 1024 * 1024" "upper_device_table hw b (Some f)" upper_download "nor_flash0 b (Some f)"
  "\<lambda>s. nor_good b f (snd s)" for b :: "'d nor" and f and hw :: "'c hw"
proof (unfold_locales, goal_cases)
  case (4 s a n r s')
  then show ?case
    using nor_erase_good(2) [of b f "snd s" a n r "snd s'"] by (cases s) (auto simp: up_erase_def split: prod.splits)
next
  case (5 s a n r s' x)
  then show ?case
    using nor_erase_good(3) [of b f "snd s" a n r "snd s'" x]
    by (cases s) (auto simp: up_erase_def up_shift split: prod.splits)
next
  case (6 s a n r s' x)
  have "0 < n"
    using 6(6,7) by (cases n) simp_all
  with 6 show ?case
    using nor_erase_good(4) [of b f "snd s" a n r "snd s'" x]
    by (cases s) (auto simp: up_erase_def up_shift split: prod.splits)
next
  case (7 s a buf n r s')
  then show ?case
    using nor_write_good(2) [of b f "snd s" a buf n r "snd s'"] by (cases s) (auto simp: up_write_def split: prod.splits)
next
  case (8 s a buf n r s' x)
  then show ?case
    using nor_write_good(3) [of b f "snd s" a buf n r "snd s'" x]
    by (cases s) (auto simp: up_write_def up_id split: prod.splits)
next
  case (9 s a buf n r s' k)
  then show ?case
    using nor_write_good(4) [of b f "snd s" a buf n r "snd s'" k]
    by (cases s) (auto simp: up_write_def up_id split: prod.splits)
next
  case (10 s a n)
  then show ?case
    using nor_read_good [of b f "snd s" a n] by (cases s) (auto simp: up_read_def)
next
  case (19 s a n)
  then show ?case
    by (simp add: up_erase_works)
next
  case (20 s a n buf)
  show ?case
    by (rule up_write_works [OF 20(1,2)])
next
  case (21 s a n buf r s')
  then show ?case
    using up_write_again by blast
qed (simp_all add: fal_flash_device_find_def upper_device_table_def upper_download_def nor_part_def nor_flash0_def lift_fst_def
    stm32_onchip_flash_def)

section \<open>The update of the upper board\<close>

context good_dev
begin

lemma upper_loop_stored:
  assumes "wgran dvd 100" "wgran dvd length img" "length img \<le> cap"
    and "upper_loop wr v img (length img) es pos strm lastP offs s = (res, offs', s')"
    and "fetches wgran es" "good s" "wgran dvd pos" "pos \<le> length img" "strm = pos" "blank (bytes s) pos (length img)"
  shows "good s' \<and> (\<forall>x < pos. bytes s' x = bytes s x) \<and>
    (res = Finished \<longrightarrow> (\<forall>x. pos \<le> x \<and> x < length img \<longrightarrow> bytes s' x = img ! x))"
  using assms(4-)
proof (induction es arbitrary: pos strm lastP offs s)
  case (Cons e es)
  show ?case
  proof (cases e)
    case (Fetch n tail)
    define dat where "dat = Stream_readData img pos 100 n"
    show ?thesis
    proof (cases "dat = []")
      case True
      then show ?thesis
        using Cons.prems by (auto simp: Fetch dat_def split: if_splits)
    next
      case False
      note pc = piece [OF dat_def False]
      have d: "wgran dvd length dat"
        using pc(3) [of wgran] assms(1,2) Cons.prems(2,4) by (simp add: Fetch)
      have u: "up wgran (length dat) = length dat"
        using d gran_pos(2) by (rule up_id [rotated])
      obtain r s1 where w: "wr pos (buffer dat tail) (length dat) s = (r, s1)"
        by (meson surj_pair)
      obtain lastP1 offs1 where up: "updateProgress ''upper'' v (pos + length dat) (lastP, offs) = (lastP1, offs1)"
        by (meson surj_pair)
      have bl: "bytes s (pos + j) = 0xFF" if "j < up wgran (length dat)" for j
        using that u pc(1) Cons.prems(7) by (simp add: blank_def)
      have cap: "pos + length dat \<le> cap"
        using pc(1) assms(3) by simp
      note W = write_stored [OF Cons.prems(3) cap Cons.prems(4) bl w]
      have L: "upper_loop wr v img (length img) es (pos + length dat) (pos + length dat) lastP1 offs1 s1 = (res, offs', s')"
        using Cons.prems(1,6) False w up by (simp add: Fetch Let_def flip: dat_def)
      have "blank (bytes s1) (pos + length dat) (length img)"
        using Cons.prems(7) W(3) u by (auto simp: blank_def)
      from Cons.IH [OF L _ W(1) _ pc(1) refl this] d Cons.prems(2,4)
      have IH: "good s'" "\<forall>x < pos + length dat. bytes s' x = bytes s1 x"
        "res = Finished \<longrightarrow> (\<forall>x. pos + length dat \<le> x \<and> x < length img \<longrightarrow> bytes s' x = img ! x)"
        by (auto simp: Fetch)
      have "bytes s' x = img ! x" if "res = Finished" "pos \<le> x" "x < length img" for x
      proof (cases "x < pos + length dat")
        case True
        then have "bytes s1 x = img ! x"
          using W(2) [of "x - pos"] pc(2) [of "x - pos"] that(2) by (simp add: buffer_def)
        then show ?thesis
          using IH(2) True by simp
      qed (use IH(3) that in simp)
      then show ?thesis
        using IH(1,2) W(3) u by auto
    qed
  qed (use Cons in auto)
qed auto

end

text \<open>The partition of the update as the processor reads it.\<close>

definition upper_image :: "'d nor \<Rightarrow> 'c flash \<times> 'd nordev \<Rightarrow> memory" where
  "upper_image b s x = nor_bytes b (snd s) (1024 * 1024 + x)"

lemma upper_sel [simp]: "offset upper_download = 1024 * 1024" "len upper_download = 1024 * 1024"
  by (simp_all add: upper_download_def nor_part_def)

lemma upper_erase:
  assumes "nor_good b f (snd s)" "fal_partition_erase (upper_device_table hw b (Some f)) upper_download off n s = (r, s1)"
    and "off + n \<le> 1024 * 1024"
  shows "0 \<le> r" "nor_good b f (snd s1)" "x < 4096 * (off div 4096) \<Longrightarrow> upper_image b s1 x = upper_image b s x"
    "0 < n \<Longrightarrow> 4096 * (off div 4096) \<le> x \<Longrightarrow> x < off + n \<Longrightarrow> upper_image b s1 x = 0xFF"
proof -
  have e: "nor_erase b (1024 * 1024 + off) n (snd s) = (r, snd s1)"
    using assms(2) upper.ops(2) [of off n hw b f] assms(3) by (cases s) (auto simp: up_erase_def split: prod.splits)
  have fit: "1024 * 1024 + off + n \<le> 2 * 1024 * 1024"
    using assms(3) by simp
  have q: "4096 * ((1024 * 1024 + off) div 4096) = 1024 * 1024 + 4096 * (off div 4096)"
    using div_mult_self3 [of 4096 256 off] by simp
  note E = nor_erase_good [OF assms(1) e fit, unfolded q]
  show "0 \<le> r" "nor_good b f (snd s1)"
    using E(1,2) by simp_all
  show "upper_image b s1 x = upper_image b s x" if "x < 4096 * (off div 4096)"
    using E(3) [of "1024 * 1024 + x"] that by (simp add: upper_image_def)
  show "upper_image b s1 x = 0xFF" if "0 < n" "4096 * (off div 4096) \<le> x" "x < off + n"
    using E(4) [of "1024 * 1024 + x"] that up_ge [of 4096 "1024 * 1024 + off + n"] by (simp add: upper_image_def)
qed

lemma upper_attempt:
  assumes "nor_good b f (snd s)" "length img \<le> 1024 * 1024" "getLastOffset offs ''upper'' v < length img"
    and "Ota_start_upper (upper_device_table hw b (Some f)) (Some upper_download) currVer v img (length img) es offs s = (Finished, offs', s')"
  shows "(\<forall>x < 4096 * (getLastOffset offs ''upper'' v div 4096). upper_image b s' x = upper_image b s x) \<and>
    (\<forall>x. 4096 * (getLastOffset offs ''upper'' v div 4096) \<le> x \<and> x < getLastOffset offs ''upper'' v \<longrightarrow> upper_image b s' x = 0xFF) \<and>
    (\<forall>x. getLastOffset offs ''upper'' v \<le> x \<and> x < length img \<longrightarrow> upper_image b s' x = img ! x)"
proof -
  let ?o = "getLastOffset offs ''upper'' v"
  let ?wr = "fal_partition_write (upper_device_table hw b (Some f)) upper_download"
  obtain r s1 where e: "fal_partition_erase (upper_device_table hw b (Some f)) upper_download ?o (length img - ?o) s = (r, s1)"
    by (meson surj_pair)
  have r: "rest (length img) ?o = length img - ?o"
    using assms(2,3) by (intro rest_less) simp_all
  have n: "?o + (length img - ?o) \<le> 1024 * 1024"
    using assms(2,3) by simp
  note E = upper_erase [OF assms(1) e n]
  have L: "upper_loop ?wr v img (length img) es ?o ?o 0 offs s1 = (Finished, offs', s')"
    using assms(4) e r E(1) by (auto simp: Ota_start_upper_def OtaUpperModule_start_def split: if_splits)
  have d: "(\<lambda>x. nor_bytes b (snd s) (offset upper_download + x)) = upper_image b s" for s
    by (simp add: upper_image_def fun_eq_iff)
  have bl: "blank (upper_image b s1) ?o (length img)"
  proof (unfold blank_def, intro allI impI, elim conjE)
    fix x assume x: "?o \<le> x" "x < length img"
    have "4096 * (?o div 4096) \<le> x"
      using times_div_less_eq_dividend [of 4096 ?o] x(1) by (rule order_trans)
    then show "upper_image b s1 x = 0xFF"
      using x assms(3) by (intro E(4)) simp_all
  qed
  have "(\<forall>x < ?o. upper_image b s' x = upper_image b s1 x) \<and> (\<forall>x. ?o \<le> x \<and> x < length img \<longrightarrow> upper_image b s' x = img ! x)"
    using upper.part.upper_loop_stored [OF _ _ _ L _ E(2) _ _ refl, unfolded d] bl assms(2,3) by (simp add: fetches_def upper_image_def)
  moreover have "4096 * (?o div 4096) \<le> ?o"
    by (rule times_div_less_eq_dividend)
  ultimately show ?thesis
    using E(3,4) assms(3) by auto
qed

text \<open>A run without disturbances.\<close>

lemma upper_loop_smooth:
  assumes "pos \<le> length img" "length img \<le> pos + 100 * n"
  shows "fst (upper_loop wr v img (length img) (replicate (Suc n) (Fetch 100 tail)) pos pos lastP offs s) = Finished"
  using assms
proof (induction n arbitrary: pos lastP offs s)
  case 0
  then show ?case
    by (simp add: Stream_readData_def)
next
  case (Suc n)
  define dat where "dat = Stream_readData img pos 100 100"
  show ?case
  proof (cases "dat = []")
    case True
    then have "pos = length img"
      using Suc.prems(1) by (simp add: dat_def Stream_readData_def)
    then show ?thesis
      using True by (simp add: dat_def)
  next
    case False
    have l: "length dat = min 100 (length img - pos)"
      by (simp add: dat_def Stream_readData_def min.commute)
    obtain lastP1 offs1 where up: "updateProgress ''upper'' v (pos + length dat) (lastP, offs) = (lastP1, offs1)"
      by (meson surj_pair)
    have "pos + length dat \<le> length img" "length img \<le> pos + length dat + 100 * n"
      using l Suc.prems by auto
    from Suc.IH [OF this] show ?thesis
      using False up by (simp add: Let_def flip: dat_def)
  qed
qed

lemma upper_smooth:
  assumes "nor_good b f (snd s)" "length img \<le> 1024 * 1024" "getLastOffset offs ''upper'' v \<le> length img"
    and "length img \<le> getLastOffset offs ''upper'' v + 100 * n" "w \<noteq> v"
  shows "fst (Ota_start_upper (upper_device_table hw b (Some f)) (Some upper_download) w v img (length img)
      (replicate (Suc n) (Fetch 100 tail)) offs s) = Finished"
proof -
  let ?o = "getLastOffset offs ''upper'' v"
  obtain r s1 where e: "fal_partition_erase (upper_device_table hw b (Some f)) upper_download ?o (length img - ?o) s = (r, s1)"
    by (meson surj_pair)
  have r: "rest (length img) ?o = length img - ?o"
    using assms(2,3) by (intro rest_less) simp_all
  have "0 \<le> r"
    using assms(2,3) by (intro upper_erase(1) [OF assms(1) e]) simp
  then show ?thesis
    using upper_loop_smooth [OF assms(3,4), of _ v tail] assms(5) e r
    by (simp add: Ota_start_upper_def OtaUpperModule_start_def del: replicate.simps)
qed

section \<open>Properties\<close>

text \<open>C20: The update of the upper board arrives.  On a serial flash that works, an attempt that starts at the beginning or at a
  checkpoint that is a block boundary, with the part before it in place, and reports that the update is
  done, leaves the whole image in the partition, in whatever pieces the server delivered it.\<close>

theorem upper_update_correct:
  assumes "nor_good b f (snd s)" "length img \<le> 1024 * 1024" "getLastOffset offs ''upper'' v < length img"
    and "4096 dvd getLastOffset offs ''upper'' v" "\<forall>x < getLastOffset offs ''upper'' v. upper_image b s x = img ! x"
    and "Ota_start_upper (upper_device_table hw b (Some f)) (Some upper_download) currVer v img (length img) es offs s = (Finished, offs', s')"
  shows "\<forall>x < length img. upper_image b s' x = img ! x"
proof (intro allI impI)
  fix x assume x: "x < length img"
  have "4096 * (getLastOffset offs ''upper'' v div 4096) = getLastOffset offs ''upper'' v"
    using assms(4) by simp
  then show "upper_image b s' x = img ! x"
    using upper_attempt [OF assms(1-3,6)] assms(5) x by (cases "x < getLastOffset offs ''upper'' v") auto
qed

definition blank_nor :: "nsim nordev" where
  "blank_nor = \<lparr>sfud_dev = Some reference_flash, nchip = \<lparr>n_mem = (\<lambda>_. 0), n_latch = False\<rparr>, halted = False\<rparr>"

lemma blank_nor_good: "nor_good reference_nor reference_flash blank_nor"
  using reference_nor_working reference_flash_ok
  by (simp add: nor_good_def blank_nor_def) (simp add: reference_flash_def info_def)

theorem upper_update_correct_witness:
  "\<exists>offs' s'. Ota_start_upper (upper_device_table reference_hw reference_nor (Some reference_flash)) (Some upper_download)
       ''1.0'' ''1.1'' [1, 2, 3] 3 (replicate 2 (Fetch 100 (\<lambda>_. 0))) (\<lambda>_. None) (blank_chip, blank_nor) = (Finished, offs', s') \<and>
     upper_image reference_nor s' 2 = 3"
proof -
  let ?run = "Ota_start_upper (upper_device_table reference_hw reference_nor (Some reference_flash)) (Some upper_download)
      ''1.0'' ''1.1'' [1, 2, 3] 3 (replicate 2 (Fetch 100 (\<lambda>_. 0))) (\<lambda>_. None) (blank_chip, blank_nor)"
  have "fst ?run = Finished"
    using upper_smooth [of reference_nor reference_flash "(blank_chip, blank_nor)" "[1, 2, 3]" "\<lambda>_. None" "''1.1''" 1 "''1.0''"
        reference_hw "\<lambda>_. 0"] blank_nor_good
    by (simp add: getLastOffset_def numeral_2_eq_2 numeral_3_eq_3 del: replicate.simps)
  then obtain offs' s' where f: "?run = (Finished, offs', s')"
    by (metis prod.collapse)
  have "\<forall>x < length [1 :: u8, 2, 3]. upper_image reference_nor s' x = [1, 2, 3] ! x"
    by (rule upper_update_correct [of reference_nor reference_flash "(blank_chip, blank_nor)" "[1, 2, 3]" "\<lambda>_. None" "''1.1''"
          reference_hw "''1.0''" "replicate 2 (Fetch 100 (\<lambda>_. 0))" offs' s'])
      (use blank_nor_good f in \<open>simp_all add: getLastOffset_def numeral_3_eq_3\<close>)
  from this [rule_format, of 2] show ?thesis
    using f by simp
qed

text \<open>C21: A resumed update of the upper board is broken.  The checkpoints are multiples of ten kilobytes, the blocks of the
  serial flash have four: the erase of the rest starts in the middle of a block at every second checkpoint and
  takes the two kilobytes before the checkpoint with it.  The attempt can report that the update is done, and these
  bytes are erased.\<close>

theorem upper_resume_broken:
  assumes "nor_good b f (snd s)" "length img \<le> 1024 * 1024" "offs ''upper'' = Some (v, 10240 * k)" "odd k" "10240 * k < length img"
    and "Ota_start_upper (upper_device_table hw b (Some f)) (Some upper_download) currVer v img (length img) es offs s = (Finished, offs', s')"
  shows "\<forall>x. 10240 * k - 2048 \<le> x \<and> x < 10240 * k \<longrightarrow> upper_image b s' x = 0xFF"
proof -
  have o: "getLastOffset offs ''upper'' v = 10240 * k"
    using assms(3) by (simp add: getLastOffset_def)
  obtain j where "k = 2 * j + 1"
    using assms(4) by (elim oddE)
  then have "10240 * k = (5 * j + 2) * 4096 + 2048"
    by simp
  then have "4096 * (10240 * k div 4096) = 10240 * k - 2048"
    using div_mult_self3 [of 4096 "5 * j + 2" 2048] by simp
  then show ?thesis
    using upper_attempt [OF assms(1,2) _ assms(6), unfolded o] assms(5) by simp
qed

theorem upper_resume_broken_witness:
  "\<exists>offs' s'. Ota_start_upper (upper_device_table reference_hw reference_nor (Some reference_flash)) (Some upper_download)
       ''1.0'' ''1.1'' (replicate 10241 0) 10241 (replicate 2 (Fetch 100 (\<lambda>_. 0))) [''upper'' \<mapsto> (''1.1'', 10240)] (blank_chip, blank_nor) =
       (Finished, offs', s') \<and> upper_image reference_nor s' 9000 = 0xFF"
proof -
  let ?run = "Ota_start_upper (upper_device_table reference_hw reference_nor (Some reference_flash)) (Some upper_download)
      ''1.0'' ''1.1'' (replicate 10241 0) 10241 (replicate 2 (Fetch 100 (\<lambda>_. 0))) [''upper'' \<mapsto> (''1.1'', 10240)] (blank_chip, blank_nor)"
  have "fst ?run = Finished"
    using upper_smooth [of reference_nor reference_flash "(blank_chip, blank_nor)" "replicate 10241 0" "[''upper'' \<mapsto> (''1.1'', 10240)]"
        "''1.1''" 1 "''1.0''" reference_hw "\<lambda>_. 0"] blank_nor_good
    by (simp add: getLastOffset_def numeral_2_eq_2 del: replicate.simps)
  then obtain offs' s' where f: "?run = (Finished, offs', s')"
    by (metis prod.collapse)
  have "\<forall>x. 10240 * 1 - 2048 \<le> x \<and> x < 10240 * 1 \<longrightarrow> upper_image reference_nor s' x = 0xFF"
    by (rule upper_resume_broken [of reference_nor reference_flash "(blank_chip, blank_nor)" "replicate 10241 0"
          "[''upper'' \<mapsto> (''1.1'', 10240)]" "''1.1''" 1 reference_hw "''1.0''" "replicate 2 (Fetch 100 (\<lambda>_. 0))" offs' s'])
      (use blank_nor_good f in \<open>simp_all del: replicate.simps\<close>)
  from this [rule_format, of 9000] show ?thesis
    using f by simp
qed

end
