(* ===== verification/Sfdp.thy ===== *)
theory Sfdp
  imports Norflash
begin

text \<open>
  The discovery of a serial flash: a chip that describes itself truthfully by the JEDEC parameters (\<^verbatim>\<open>sfud_sfdp.c\<close>)
  is initialised successfully, and what the driver then believes of it is right, so that the theorems on
  reading, writing, erasing and updating apply.
\<close>

section \<open>The table of erasers\<close>

abbreviation (input) no_eraser :: eraser where "no_eraser \<equiv> \<lparr>e_size = 0, e_cmd = 0\<rparr>"

lemma upt4: "[0 ..< 4] = [0, 1, 2, 3 :: nat]"
  by (simp add: numeral_eq_Suc)

lemma read_erasers_spec:
  fixes t :: "u8 list"
  defines "r \<equiv> read_erasers t (replicate 4 no_eraser)"
  shows "length r = 4" "\<forall>e \<in> set r. e = no_eraser \<or> (\<exists>i < 4. t ! (28 + 2 * i) \<noteq> 0 \<and> e = read_eraser t i)"
    "\<exists>i < 4. t ! (28 + 2 * i) \<noteq> 0 \<Longrightarrow> \<exists>i < 4. t ! (28 + 2 * i) \<noteq> 0 \<and> r ! 0 = read_eraser t i"
proof -
  have z: "replicate 4 no_eraser = [no_eraser, no_eraser, no_eraser, no_eraser]"
    by (simp add: numeral_eq_Suc)
  have ex: "(\<exists>i < 4. P i) \<longleftrightarrow> P 0 \<or> P 1 \<or> P 2 \<or> P (3 :: nat)" for P
    by (auto simp: numeral_eq_Suc less_Suc_eq)
  show "length r = 4"
    by (simp add: r_def read_erasers_def upt4 split: prod.split)
  show "\<forall>e \<in> set r. e = no_eraser \<or> (\<exists>i < 4. t ! (28 + 2 * i) \<noteq> 0 \<and> e = read_eraser t i)"
    unfolding ex by (simp add: r_def read_erasers_def upt4 z)
  show "\<exists>i < 4. t ! (28 + 2 * i) \<noteq> 0 \<and> r ! 0 = read_eraser t i" if "\<exists>i < 4. t ! (28 + 2 * i) \<noteq> 0"
    using that unfolding ex by (simp add: r_def read_erasers_def upt4 z)
qed

definition inner_step :: "nat \<Rightarrow> eraser list \<Rightarrow> nat \<Rightarrow> eraser list" where
  "inner_step i es j = (if e_size (es ! j) \<noteq> 0 \<and> e_size (es ! i) > e_size (es ! j) then es[i := es ! j, j := es ! i] else es)"

definition smallest_at :: "nat \<Rightarrow> nat \<Rightarrow> eraser list \<Rightarrow> bool" where
  "smallest_at i m es = (e_size (es ! i) \<noteq> 0 \<and> (\<forall>j. i \<le> j \<and> j < m \<and> e_size (es ! j) \<noteq> 0 \<longrightarrow> e_size (es ! i) \<le> e_size (es ! j)))"

lemma inner_step_spec:
  assumes "length es = 4" "i < j" "j < 4" "smallest_at i j es"
  shows "length (inner_step i es j) = 4" "set (inner_step i es j) = set es" "k < i \<Longrightarrow> inner_step i es j ! k = es ! k"
    "smallest_at i (Suc j) (inner_step i es j)"
proof -
  show "length (inner_step i es j) = 4" "set (inner_step i es j) = set es" "k < i \<Longrightarrow> inner_step i es j ! k = es ! k"
    using assms by (auto simp: inner_step_def set_swap)
  show "smallest_at i (Suc j) (inner_step i es j)"
    using assms by (auto simp: smallest_at_def inner_step_def nth_list_update less_Suc_eq)
qed

lemma sort_inner_spec:
  assumes "length es = 4" "i < 4" "e_size (es ! i) \<noteq> 0"
  shows "length (sort_inner i es) = 4" "set (sort_inner i es) = set es" "k < i \<Longrightarrow> sort_inner i es ! k = es ! k"
    "smallest_at i 4 (sort_inner i es)"
proof -
  have "length (foldl (inner_step i) es [i + 1 ..< m]) = 4 \<and> set (foldl (inner_step i) es [i + 1 ..< m]) = set es \<and>
      (\<forall>k < i. foldl (inner_step i) es [i + 1 ..< m] ! k = es ! k) \<and> smallest_at i m (foldl (inner_step i) es [i + 1 ..< m])"
    if "i < m" "m \<le> 4" for m
    using that
  proof (induction m)
    case (Suc m)
    show ?case
    proof (cases "i = m")
      case True
      then show ?thesis
        using assms by (auto simp: smallest_at_def less_Suc_eq)
    next
      case False
      then have "[i + 1 ..< Suc m] = [i + 1 ..< m] @ [m]"
        using Suc.prems by simp
      then show ?thesis
        using Suc False inner_step_spec [of "foldl (inner_step i) es [i + 1 ..< m]" i m] by simp
    qed
  qed simp
  from this [of 4] show "length (sort_inner i es) = 4" "set (sort_inner i es) = set es" "k < i \<Longrightarrow> sort_inner i es ! k = es ! k"
    "smallest_at i 4 (sort_inner i es)"
    using assms(2) unfolding sort_inner_def inner_step_def by simp_all
qed

lemma sort_erasers_spec:
  assumes "length es = 4" "e_size (es ! 0) \<noteq> 0"
  shows "length (sort_erasers es) = 4" "set (sort_erasers es) = set es" "smallest_at 0 4 (sort_erasers es)"
proof -
  define pass where "pass = (\<lambda>es i. if e_size (es ! i) \<noteq> 0 then sort_inner i es else es)"
  have s: "sort_erasers es = pass (pass (pass (pass es 0) 1) 2) 3"
    by (simp add: sort_erasers_def upt4 pass_def)
  have P: "length (pass r i) = 4 \<and> set (pass r i) = set r \<and> (0 < i \<longrightarrow> pass r i ! 0 = r ! 0)" if "length r = 4" "i < 4" for r i
    using sort_inner_spec [OF that] that by (auto simp: pass_def)
  have 0: "smallest_at 0 4 (pass es 0)" "length (pass es 0) = 4"
    using sort_inner_spec [OF assms(1) _ assms(2)] assms(2) by (auto simp: pass_def)
  have all: "smallest_at 0 4 r \<longleftrightarrow> e_size (r ! 0) \<noteq> 0 \<and> (\<forall>e \<in> set r. e_size e \<noteq> 0 \<longrightarrow> e_size (r ! 0) \<le> e_size e)" if "length r = 4" for r
    using that by (auto simp: smallest_at_def all_set_conv_all_nth)
  have L: "length (pass (pass es 0) 1) = 4" "length (pass (pass (pass es 0) 1) 2) = 4" "length (pass (pass (pass (pass es 0) 1) 2) 3) = 4"
    using 0(2) P by auto
  show "length (sort_erasers es) = 4" "set (sort_erasers es) = set es"
    using P [of es 0] P [of "pass es 0" 1] P [of "pass (pass es 0) 1" 2] P [of "pass (pass (pass es 0) 1) 2" 3] L assms(1) by (auto simp: s)
  show "smallest_at 0 4 (sort_erasers es)"
    using 0 P [of "pass es 0" 1] P [of "pass (pass es 0) 1" 2] P [of "pass (pass (pass es 0) 1) 2" 3] L by (simp add: s all)
qed

lemma smallest_eraser_first:
  assumes "smallest_at 0 4 es"
  shows "smallest_eraser es = es ! 0"
proof -
  have "foldl (\<lambda>m i. if e_size (es ! i) \<noteq> 0 \<and> e_size m > e_size (es ! i) then es ! i else m) (es ! 0) js = es ! 0"
    if "\<forall>i \<in> set js. i < 4" for js
    using that
  proof (induction js)
    case (Cons i js)
    then have "\<not> (e_size (es ! i) \<noteq> 0 \<and> e_size (es ! 0) > e_size (es ! i))"
      using assms by (auto simp: smallest_at_def)
    then show ?case
      using Cons by auto
  qed simp
  then show ?thesis
    by (simp add: smallest_eraser_def)
qed

section \<open>A chip that describes itself\<close>

text \<open>What the data sheet says of the commands used for the discovery: an idle chip answers a read of its
  parameters with them and stays idle, as it does for its identification; a reset ends the four-byte address
  mode and, on chips that need it, the command for it starts it.\<close>

definition self_describing :: "'c nor \<Rightarrow> (nat \<Rightarrow> u8) \<Rightarrow> bool" where
  "self_describing b sp =
     (\<forall>w n c ack dat c'. xfer b w n c = (ack, dat, c') \<longrightarrow>
        (\<forall>x y z. w = [0x5A, x, y, z, 0xFF] \<and> ack \<and> \<not> busy b c \<longrightarrow> dat = map sp [be_addr [x, y, z] ..< be_addr [x, y, z] + n]) \<and>
        (w \<noteq> [] \<and> hd w \<in> {0x5A, 0x9F} \<and> \<not> busy b c \<longrightarrow> \<not> busy b c') \<and>
        (w = [0x99] \<and> ack \<longrightarrow> \<not> four b c') \<and>
        (w = [0xB7] \<and> 2 ^ 24 < array_size b \<and> ack \<and> \<not> busy b c \<and> latch b c \<longrightarrow> four b c' \<and> \<not> busy b c'))"

definition table_ptr :: "(nat \<Rightarrow> u8) \<Rightarrow> nat" where
  "table_ptr sp = unat (sp 12) + unat (sp 13) * 2 ^ 8 + unat (sp 14) * 2 ^ 16"

definition basic_table :: "(nat \<Rightarrow> u8) \<Rightarrow> u8 list" where
  "basic_table sp = map sp [table_ptr sp ..< table_ptr sp + 36]"

text \<open>The parameters are well formed and true of the chip.\<close>

definition truthful :: "'c nor \<Rightarrow> (nat \<Rightarrow> u8) \<Rightarrow> bool" where
  "truthful b sp =
     (let t = basic_table sp in
      [sp 0, sp 1, sp 2, sp 3] = [0x53, 0x46, 0x44, 0x50] \<and> sp 5 \<le> 1 \<and> sp 10 \<le> 1 \<and> 9 \<le> sp 11 \<and>
      (t ! 0 AND 3 = 1 \<or> t ! 0 AND 3 = 3) \<and> t ! 0 AND 4 \<noteq> 0 \<and> (t ! 2 AND 6 = 0 \<or> t ! 2 AND 6 = 2 \<or> t ! 2 AND 6 = 4) \<and>
      table2_capacity t = Some (array_size b) \<and> 0 < array_size b \<and>
      (\<exists>i < 4. t ! (28 + 2 * i) \<noteq> 0) \<and>
      (\<forall>i < 4. t ! (28 + 2 * i) \<noteq> 0 \<longrightarrow> unat (t ! (28 + 2 * i)) < 32 \<and> t ! (29 + 2 * i) \<noteq> 0 \<and>
         block_size b (t ! (29 + 2 * i)) = Some (2 ^ unat (t ! (28 + 2 * i))) \<and> 2 ^ unat (t ! (28 + 2 * i)) dvd array_size b))"

lemma read_sfdp_data:
  assumes "working_nor b" "self_describing b sp" "\<not> busy b c" "a < 2 ^ 24"
  shows "\<exists>c'. read_sfdp_data b a n c = (SFUD_SUCCESS, map sp [a ..< a + n], c') \<and> \<not> busy b c'"
proof -
  let ?w = "[0x5A, word_of_nat (a div 2 ^ 16), word_of_nat (a div 2 ^ 8), word_of_nat a, 0xFF] :: u8 list"
  obtain dat c' where x: "xfer b ?w n c = (True, dat, c')"
    using working_xfer [OF assms(1)] by blast
  have f3: "[0 ..< 3] = [0, 1, 2 :: nat]"
    by (simp add: numeral_eq_Suc)
  have "be_addr [word_of_nat (a div 2 ^ 16), word_of_nat (a div 2 ^ 8), word_of_nat a] = a"
    using be_addr_bytes(1) [of a "reference_flash\<lparr>addr_in_4_byte := False\<rparr>"] assms(4)
    by (simp add: make_adress_byte_array_def f3)
  moreover have "dat = map sp [be_addr [word_of_nat (a div 2 ^ 16), word_of_nat (a div 2 ^ 8), word_of_nat a] ..<
      be_addr [word_of_nat (a div 2 ^ 16), word_of_nat (a div 2 ^ 8), word_of_nat a] + n]"
    using assms(2,3) x unfolding self_describing_def by blast
  moreover have "\<not> busy b c'"
    using assms(2,3) x unfolding self_describing_def by (metis insertI1 list.distinct(1) list.sel(1))
  ultimately show ?thesis
    using x by (simp add: read_sfdp_data_def spi_write_read_def)
qed

lemma read_eraser_size: "unat (t ! (28 + 2 * i)) < 32 \<Longrightarrow> e_size (read_eraser t i) = 2 ^ unat (t ! (28 + 2 * i))"
proof -
  assume a: "unat (t ! (28 + 2 * i)) < 32"
  have "unat (push_bit k (1 :: u32)) = 2 ^ k" if "k < 32" for k
  proof -
    have "push_bit k (1 :: u32) = word_of_nat (2 ^ k)"
      by (simp add: push_bit_eq_mult)
    moreover have "(2 :: nat) ^ k mod 2 ^ LENGTH(32) = 2 ^ k"
      using power_strict_increasing [of k 32 "2 :: nat"] that by simp
    ultimately show ?thesis
      by (simp only: unat_of_nat)
  qed
  then show ?thesis
    using a by (simp add: read_eraser_def)
qed

lemma table_erasers:
  fixes sp :: "nat \<Rightarrow> u8"
  defines "es \<equiv> sort_erasers (read_erasers (basic_table sp) (replicate 4 no_eraser))"
  assumes "truthful b sp"
  shows "length es = 4" "smallest_at 0 4 es"
    "\<forall>e \<in> set es. e_size e \<noteq> 0 \<longrightarrow> block_size b (e_cmd e) = Some (e_size e) \<and> e_cmd e \<noteq> 0 \<and> e_size (es ! 0) dvd e_size e"
    "e_size (es ! 0) dvd array_size b"
proof -
  let ?t = "basic_table sp"
  note R = read_erasers_spec [of ?t]
  have ne: "\<exists>i < 4. ?t ! (28 + 2 * i) \<noteq> 0"
    and T: "\<And>i. i < 4 \<Longrightarrow> ?t ! (28 + 2 * i) \<noteq> 0 \<Longrightarrow> unat (?t ! (28 + 2 * i)) < 32 \<and> ?t ! (29 + 2 * i) \<noteq> 0 \<and>
         block_size b (?t ! (29 + 2 * i)) = Some (2 ^ unat (?t ! (28 + 2 * i))) \<and> 2 ^ unat (?t ! (28 + 2 * i)) dvd array_size b"
    using assms(2) by (simp_all add: truthful_def Let_def)
  have E: "\<exists>k. e_size e = 2 ^ k \<and> block_size b (e_cmd e) = Some (2 ^ k) \<and> e_cmd e \<noteq> 0 \<and> 2 ^ k dvd array_size b"
    if "i < 4" "?t ! (28 + 2 * i) \<noteq> 0" "e = read_eraser ?t i" for i e
    using T [OF that(1,2)] read_eraser_size [of ?t i] that(3) by (auto simp: read_eraser_def)
  have "e_size (read_erasers ?t (replicate 4 no_eraser) ! 0) \<noteq> 0"
    using R(3) [OF ne] E by fastforce
  note S = sort_erasers_spec [OF R(1) this, folded es_def]
  show "length es = 4" "smallest_at 0 4 es"
    by (rule S(1), rule S(3))
  have X: "\<exists>k. e_size e = 2 ^ k \<and> block_size b (e_cmd e) = Some (2 ^ k) \<and> e_cmd e \<noteq> 0 \<and> 2 ^ k dvd array_size b"
    if "e \<in> set es" "e_size e \<noteq> 0" for e
    using R(2) S(2) that E by fastforce
  have 0: "es ! 0 \<in> set es" "e_size (es ! 0) \<noteq> 0"
    using S(1,3) by (auto simp: smallest_at_def)
  show "e_size (es ! 0) dvd array_size b"
    using X [OF 0] by auto
  show "\<forall>e \<in> set es. e_size e \<noteq> 0 \<longrightarrow> block_size b (e_cmd e) = Some (e_size e) \<and> e_cmd e \<noteq> 0 \<and> e_size (es ! 0) dvd e_size e"
  proof (intro ballI impI)
    fix e assume e: "e \<in> set es" "e_size e \<noteq> 0"
    obtain k0 k where k: "e_size (es ! 0) = 2 ^ k0" "e_size e = 2 ^ k" "block_size b (e_cmd e) = Some (e_size e)" "e_cmd e \<noteq> 0"
      using X [OF 0] X [OF e] by auto
    have "e_size (es ! 0) \<le> e_size e"
      using S(1,3) e by (auto simp: smallest_at_def in_set_conv_nth)
    then have "k0 \<le> k"
      using k by simp
    then show "block_size b (e_cmd e) = Some (e_size e) \<and> e_cmd e \<noteq> 0 \<and> e_size (es ! 0) dvd e_size e"
      using k by (simp add: le_imp_power_dvd)
  qed
qed

lemma table2_capacity_bound: "table2_capacity t = Some n \<Longrightarrow> n \<le> 2 ^ 31"
proof -
  have p: "2 ^ m \<le> (2147483648 :: nat)" if "m \<le> 31" for m
    using power_increasing [OF that, of "2 :: nat"] by simp
  show "table2_capacity t = Some n \<Longrightarrow> n \<le> 2 ^ 31"
    by (auto simp: table2_capacity_def Let_def intro!: p split: if_splits)
qed

lemma parse_truthful:
  assumes "truthful b sp" "erasers s = replicate 4 no_eraser"
  shows "\<exists>s'. parse_basic_table (basic_table sp) s = (True, s') \<and> available s' \<and> sfdp_capacity s' = array_size b \<and> write_gran s' = 256 \<and>
    erasers s' = sort_erasers (read_erasers (basic_table sp) (replicate 4 no_eraser))"
  using assms
  by (auto simp: truthful_def Let_def parse_basic_table_def parse_erase_4k_def parse_write_gran_def parse_volatile_def parse_addr_bytes_def)

text \<open>The structure as \<^verbatim>\<open>rt_sfud_flash_probe\<close> clears it.\<close>

definition zero_flash :: sfud_flash where
  "zero_flash =
     \<lparr>fchip = \<lparr>chip_name = None, mf_id = 0, type_id = 0, capacity_id = 0, capacity = 0, write_mode = 0, erase_gran = 0, erase_gran_cmd = 0\<rparr>,
      sf_init_ok = False, addr_in_4_byte = False, retry_times = 0,
      sfdp = \<lparr>available = False, major_rev = 0, minor_rev = 0, write_gran = 0, erase_4k = False, erase_4k_cmd = 0,
        sr_is_non_vola = False, vola_sr_we_cmd = 0, addr_3_byte = False, addr_4_byte = False, sfdp_capacity = 0,
        erasers = replicate 4 no_eraser\<rparr>\<rparr>"

lemma identify_truthful:
  assumes "working_nor b" "self_describing b sp" "truthful b sp" "\<not> busy b c"
  shows "\<exists>f c'. identify b (zero_flash\<lparr>retry_times := 60 * 10000\<rparr>) c = (SFUD_SUCCESS, f, c') \<and> \<not> busy b c' \<and>
    retry_times f = 60 * 10000 \<and> capacity (fchip f) = array_size b \<and> write_mode (fchip f) = SFUD_WM_PAGE_256B \<and>
    erasers_ok b f \<and> described f"
proof -
  let ?f = "zero_flash\<lparr>retry_times := 60 * 10000\<rparr>"
  obtain d c1 where j: "xfer b [0x9F] 3 c = (True, d, c1)"
    using working_xfer [OF assms(1)] by blast
  define f1 where "f1 = ?f\<lparr>fchip := (fchip ?f)\<lparr>mf_id := d ! 0, type_id := d ! 1, capacity_id := d ! 2\<rparr>\<rparr>"
  have jedec: "read_jedec_id b ?f c = (SFUD_SUCCESS, f1, c1)"
    by (simp add: read_jedec_id_def spi_write_read_def j f1_def)
  have c1: "\<not> busy b c1"
    using assms(2,4) j unfolding self_describing_def by (metis insertCI list.distinct(1) list.sel(1))
  obtain c2 where h: "read_sfdp_data b 0 8 c1 = (SFUD_SUCCESS, map sp [0 ..< 0 + 8], c2)" "\<not> busy b c2"
    using read_sfdp_data [OF assms(1,2) c1, of 0 8] by auto
  obtain c3 where bh: "read_sfdp_data b 8 8 c2 = (SFUD_SUCCESS, map sp [8 ..< 8 + 8], c3)" "\<not> busy b c3"
    using read_sfdp_data [OF assms(1,2) h(2), of 8 8] by auto
  have "unat (sp 12) + unat (sp 13) * 256 + unat (sp 14) * 65536 < 16777216"
    using unat_ucast_u8_less [of "sp 12"] unat_ucast_u8_less [of "sp 13"] unat_ucast_u8_less [of "sp 14"] by linarith
  then have "table_ptr sp < 2 ^ 24"
    by (simp add: table_ptr_def)
  then obtain c4 where t: "read_sfdp_data b (table_ptr sp) 36 c3 = (SFUD_SUCCESS, basic_table sp, c4)" "\<not> busy b c4"
    using read_sfdp_data [OF assms(1,2) bh(2), of "table_ptr sp" 36] by (auto simp: basic_table_def)
  have T: "[sp 0, sp 1, sp 2, sp 3] = [0x53, 0x46, 0x44, 0x50]" "\<not> sp 5 > 1" "\<not> sp 10 > 1" "\<not> sp 11 < 9"
    using assms(3) by (simp_all add: truthful_def Let_def not_less)
  define f2 where "f2 = upd_sfdp (\<lambda>s. s\<lparr>minor_rev := sp 4, major_rev := sp 5\<rparr>) (upd_sfdp (\<lambda>s. s\<lparr>available := False\<rparr>) f1)"
  have u: "[0 ..< 8] = [0, 1, 2, 3, 4, 5, 6, 7 :: nat]" "[8 ..< 16] = [8, 9, 10, 11, 12, 13, 14, 15 :: nat]"
    by (simp_all add: numeral_eq_Suc)
  have hdr: "read_sfdp_header b f1 c1 = (True, f2, c2)"
    using T(1,2) h(1) by (simp add: read_sfdp_header_def u f2_def)
  have bhdr: "read_basic_header b c2 = (Some \<lparr>ph_id = sp 8, ph_minor_rev = sp 9, ph_major_rev = sp 10, ph_len = sp 11, ptp = table_ptr sp\<rparr>, c3)"
    using T(3,4) bh(1) by (simp add: read_basic_header_def u table_ptr_def)
  have e2: "erasers (sfdp f2) = replicate 4 no_eraser"
    by (simp add: f2_def upd_sfdp_def f1_def zero_flash_def)
  obtain s' where p: "parse_basic_table (basic_table sp) (sfdp f2) = (True, s')" "available s'" "sfdp_capacity s' = array_size b"
    "write_gran s' = 256" "erasers s' = sort_erasers (read_erasers (basic_table sp) (replicate 4 no_eraser))"
    using parse_truthful [OF assms(3) e2] by blast
  define f where "f = from_sfdp (f2\<lparr>sfdp := s'\<rparr>)"
  have "\<not> described ?f"
    by (simp add: described_def zero_flash_def)
  then have id: "identify b ?f c = (SFUD_SUCCESS, f, c4)"
    using jedec hdr bhdr t(1) p(1) by (simp add: identify_def sfud_read_sfdp_def read_basic_table_def f_def)
  note E = table_erasers [OF assms(3), folded p(5)]
  have 0: "erasers s' ! 0 \<in> set (erasers s')" "e_size (erasers s' ! 0) \<noteq> 0"
    using E(1,2) by (auto simp: smallest_at_def)
  have sm: "smallest_eraser (erasers s') = erasers s' ! 0"
    by (rule smallest_eraser_first [OF E(2)])
  have F: "sfdp f = s'" "capacity (fchip f) = array_size b" "write_mode (fchip f) = SFUD_WM_PAGE_256B" "retry_times f = 60 * 10000"
    "erase_gran (fchip f) = e_size (erasers s' ! 0)" "erase_gran_cmd (fchip f) = e_cmd (erasers s' ! 0)"
    using p(3,4) sm by (simp_all add: f_def from_sfdp_def Let_def f2_def upd_sfdp_def f1_def)
  have "erasers_ok b f"
    using E 0 F by (auto simp: erasers_ok_def Let_def)
  moreover have "described f"
    using F E(3) 0 assms(3) by (auto simp: described_def truthful_def Let_def)
  ultimately show ?thesis
    using id t(2) F by blast
qed

lemma working_reset:
  assumes "working_nor b" "self_describing b sp" "retry_times f = 60 * 10000"
  shows "\<exists>c'. reset b f c = (SFUD_SUCCESS, c') \<and> \<not> busy b c' \<and> \<not> four b c'"
proof -
  obtain d1 c1 where 1: "xfer b [0x66] 0 c = (True, d1, c1)"
    using working_xfer [OF assms(1)] by blast
  obtain c2 where 2: "wait_busy b f c1 = (SFUD_SUCCESS, c2)"
    using working_wait [OF assms(1,3)] by (metis prod.collapse)
  obtain d3 c3 where 3: "xfer b [0x99] 0 c2 = (True, d3, c3)"
    using working_xfer [OF assms(1)] by blast
  obtain c4 where 4: "wait_busy b f c3 = (SFUD_SUCCESS, c4)"
    using working_wait [OF assms(1,3)] by (metis prod.collapse)
  have "\<not> four b c3"
    using assms(2) 3 unfolding self_describing_def by blast
  then show ?thesis
    using 1 2 3 4 wait_busy_spec [OF working_norD [OF assms(1)] 4] by (simp add: reset_def spi_write_read_def same_def)
qed

lemma working_set_4_byte:
  assumes "working_nor b" "self_describing b sp" "\<not> busy b c" "2 ^ 24 < array_size b"
  shows "\<exists>c'. set_4_byte_address_mode b True f c = (SFUD_SUCCESS, f\<lparr>addr_in_4_byte := True\<rparr>, c') \<and> \<not> busy b c' \<and> four b c'"
proof -
  obtain c1 where e: "set_write_enabled b True c = (SFUD_SUCCESS, c1)"
    using working_enable [OF assms(1,3)] by blast
  note E = set_write_enabled_spec(2,3) [OF working_norD [OF assms(1)] e]
  obtain d c2 where x: "xfer b [0xB7] 0 c1 = (True, d, c2)"
    using working_xfer [OF assms(1)] by blast
  have "four b c2 \<and> \<not> busy b c2"
    using assms(2-4) x E unfolding self_describing_def by blast
  then show ?thesis
    using e x by (simp add: set_4_byte_address_mode_def spi_write_read_def)
qed

section \<open>Properties\<close>

text \<open>C19: The driver learns the truth.  A serial flash that works and whose parameter table is well formed and true of
  it, of whatever size up to two gigabytes and with whatever erase commands, is initialised successfully from a cleared structure: the
  driver then knows its size, its address mode, its page programming and its erase blocks, the smallest first, so that everything shown of
  writing and erasing applies to it.\<close>

theorem sfud_device_init_correct:
  assumes "working_nor b" "self_describing b sp" "truthful b sp" "\<not> busy b c"
  shows "\<exists>f c'. sfud_device_init b zero_flash c = (SFUD_SUCCESS, f, c') \<and> sf_init_ok f \<and> sfud_ok b f c' \<and> erasers_ok b f \<and>
    write_mode (fchip f) = SFUD_WM_PAGE_256B \<and> retry_times f = 60 * 10000 \<and> \<not> busy b c'"
proof -
  obtain f c1 where i: "identify b (zero_flash\<lparr>retry_times := 60 * 10000\<rparr>) c = (SFUD_SUCCESS, f, c1)" "\<not> busy b c1"
    "retry_times f = 60 * 10000" "capacity (fchip f) = array_size b" "write_mode (fchip f) = SFUD_WM_PAGE_256B" "erasers_ok b f" "described f"
    using identify_truthful [OF assms] by blast
  obtain c2 where r: "reset b f c1 = (SFUD_SUCCESS, c2)" "\<not> busy b c2" "\<not> four b c2"
    using working_reset [OF assms(1,2) i(3)] by blast
  let ?big = "array_size b > 2 ^ 24"
  obtain c3 where m: "?big \<Longrightarrow> set_4_byte_address_mode b True f c2 = (SFUD_SUCCESS, f\<lparr>addr_in_4_byte := True\<rparr>, c3) \<and> \<not> busy b c3 \<and> four b c3"
    using working_set_4_byte [OF assms(1,2) r(2), of f] by blast
  have h: "hardware_init b zero_flash c = (SFUD_SUCCESS, f\<lparr>addr_in_4_byte := ?big\<rparr>, if ?big then c3 else c2)"
    using i r m by (simp add: hardware_init_def prepare_def)
  have "array_size b \<le> 2 ^ 31"
    using assms(3) table2_capacity_bound by (auto simp: truthful_def Let_def)
  then have "sfud_ok b (f\<lparr>addr_in_4_byte := ?big, sf_init_ok := True\<rparr>) (if ?big then c3 else c2)"
    using i(4) r(3) m by (simp add: sfud_ok_def)
  moreover have "erasers_ok b (f\<lparr>addr_in_4_byte := ?big, sf_init_ok := True\<rparr>)"
    using i(6) by (simp add: erasers_ok_def)
  ultimately show ?thesis
    using h i(3,5) r(2) m by (simp add: sfud_device_init_def)
qed

lemma reference_self_describing: "self_describing reference_nor reference_sfdp"
  by (auto simp: self_describing_def reference_reply_def)

lemma reference_table:
  "basic_table reference_sfdp =
     [0xE5, 0x20, 0xF1, 0xFF, 0xFF, 0xFF, 0xFF, 0x00, 0x44, 0xEB, 0x08, 0x6B, 0x08, 0x3B, 0x80, 0xBB,
      0xEE, 0xFF, 0xFF, 0xFF, 0xFF, 0xFF, 0x00, 0xFF, 0xFF, 0xFF, 0x00, 0xFF, 0x0C, 0x20, 0x0F, 0x52, 0x10, 0xD8, 0x00, 0xFF]"
proof -
  have "table_ptr reference_sfdp = 16"
    by (simp add: table_ptr_def reference_sfdp_def reference_params_def)
  moreover have "map reference_sfdp [16 ..< 52] = drop 16 reference_params"
    by (intro nth_equalityI) (simp_all add: reference_sfdp_def reference_params_def)
  ultimately show ?thesis
    by (simp add: basic_table_def reference_params_def)
qed

lemma reference_truthful: "truthful reference_nor reference_sfdp"
proof -
  have all4: "(\<forall>i < 4. P i) \<longleftrightarrow> P 0 \<and> P 1 \<and> P 2 \<and> P (3 :: nat)" for P
    by (auto simp: numeral_eq_Suc less_Suc_eq)
  have ex4: "(\<exists>i < 4. P i) \<longleftrightarrow> P 0 \<or> P 1 \<or> P 2 \<or> P (3 :: nat)" for P
    by (auto simp: numeral_eq_Suc less_Suc_eq)
  show ?thesis
    unfolding truthful_def reference_table all4 ex4
    by (simp add: reference_sfdp_def reference_params_def reference_blocks_def table2_capacity_def Let_def)
qed

theorem sfud_device_init_correct_witness:
  "\<exists>f c'. sfud_device_init reference_nor zero_flash \<lparr>n_mem = (\<lambda>_. 0), n_latch = False\<rparr> = (SFUD_SUCCESS, f, c') \<and>
     capacity (fchip f) = 2 * 1024 * 1024"
proof -
  obtain f c' where "sfud_device_init reference_nor zero_flash \<lparr>n_mem = (\<lambda>_. 0), n_latch = False\<rparr> = (SFUD_SUCCESS, f, c')"
    "sfud_ok reference_nor f c'"
    using sfud_device_init_correct [OF reference_nor_working reference_self_describing reference_truthful,
        of "\<lparr>n_mem = (\<lambda>_. 0), n_latch = False\<rparr>"] by auto
  then show ?thesis
    by (auto simp: sfud_ok_def)
qed

end
