(* ===== verification/Spec2Isabelle.thy ===== *)
theory Spec2Isabelle
  imports Crc Ringbuffer Semaphore Mutex Event Mailbox Msgqueue Kheap Mempool Packet Shutdown Handshake Rpc Remote
    Conf Userinput Sfdp
begin

text \<open>
  Verification of the charging-pile firmware (repository root \<^verbatim>\<open>src/\<close>).

  \<^bold>\<open>The program.\<close>  The firmware runs on RT-Thread 4.0.2 in two builds.  The lower board switches and measures
  ten charging ports (\<^verbatim>\<open>applications/thing.cxx\<close> and \<^verbatim>\<open>applications/things/decos\<close>); the upper board talks to
  the cloud and to the user.  The boards exchange framed packets over a UART (\<^verbatim>\<open>components/packet.cxx\<close>),
  connect by a handshake (\<^verbatim>\<open>components/handshake.cxx\<close>), and call each other
  (\<^verbatim>\<open>components/rpc.hxx\<close>, \<^verbatim>\<open>applications/remote_thing.cxx\<close>, \<^verbatim>\<open>applications/local_thing.cxx\<close>).  The lower board keeps its
  configuration in flash (\<^verbatim>\<open>components/lower/lower_conf.cxx\<close>), both boards are updated through a flash
  partition (\<^verbatim>\<open>applications/ota.cxx\<close>), and the customer orders with a card and a keyboard
  (\<^verbatim>\<open>components/user_input.cxx\<close>).  All of it rests on
  the kernel (\<^verbatim>\<open>rt-thread/src\<close>): threads, timers, IPC objects, the heap and memory pools, with the ring
  buffer of the device drivers and the CRC library as utilities.

  \<^bold>\<open>How the model is built.\<close>  A C or C++ structure is a record, an enumeration a datatype; fixed-width integers
  are words where they wrap and unbounded integers where the source uses \<^verbatim>\<open>int\<close>, whose overflow is undefined.
  An operation is a function from state to state, with every early return and error code as a branch; a
  failed assertion or an access outside an object sets \<open>fault\<close> or returns \<open>None\<close>.  A call that blocks is
  split at its \<^verbatim>\<open>rt_schedule\<close> into a part that runs until the thread is suspended and a part that
  runs when it is resumed.  A critical section with interrupts off is one atomic step; histories are lists of steps
  in any order.

  The upper board is built with C++ exceptions and the lower board with \<^verbatim>\<open>-fno-exceptions\<close>
  (\<^verbatim>\<open>SConscript\<close>).  The receiving side of the link, where the source has both, takes the build as an argument of
  type \<open>cpp\<close>: without exceptions a stream becomes \<open>invalid\<close> where the other build throws, variables keep what the
  stack held (\<open>junk\<close>, a function of the build), and \<^verbatim>\<open>std::get\<close> of the wrong alternative aborts the program.  Its
  theorems hold for either build, or for the one their text names.  Remote calls are those of a caller with exceptions.
  A command for a port that does not exist indexes the table of ports out of its bounds in the source; the
  model records it in \<open>bad_port\<close>.

  \<^bold>\<open>Theories and the code they model.\<close>

  \<^item> \<open>Prelude\<close>, \<open>Fifo\<close>, \<open>Chain\<close>, \<open>Alloc\<close>: words, lists, options; interfaces as locales: a bounded queue, linked slots,
    an allocator.  They are interpreted where the components provide them.
  \<^item> \<open>Crc\<close> (\<^verbatim>\<open>packages/crclib\<close>), \<open>Ringbuffer\<close> (\<^verbatim>\<open>components/drivers/src/ringbuffer.c\<close>), \<open>Ffs\<close> (\<^verbatim>\<open>__rt_ffs\<close>).
  \<^item> \<open>Kstate\<close>, \<open>Sched\<close>, \<open>Kobject\<close>, \<open>Ktimer\<close>, \<open>Kthread\<close>: the kernel's globals as one record, \<^verbatim>\<open>scheduler.c\<close>,
    \<^verbatim>\<open>object.c\<close>, \<^verbatim>\<open>timer.c\<close>, \<^verbatim>\<open>thread.c\<close> with \<^verbatim>\<open>clock.c\<close> and \<^verbatim>\<open>idle.c\<close>.
  \<^item> \<open>Ipc\<close>, \<open>Semaphore\<close>, \<open>Mutex\<close>, \<open>Event\<close>, \<open>Mailbox\<close>, \<open>Msgqueue\<close>: \<^verbatim>\<open>ipc.c\<close>.
  \<^item> \<open>Kheap\<close> (\<^verbatim>\<open>mem.c\<close>) and \<open>Mempool\<close> (\<^verbatim>\<open>mempool.c\<close>) on the bytes of memory; created pools live on the heap.
  \<^item> \<open>Framing\<close>, \<open>Serial\<close>, \<open>Packet\<close>: escaping and checksum, \<^verbatim>\<open>utilities/serializer.hxx\<close> and \<^verbatim>\<open>deserializer.hxx\<close>, and
    the packet thread.
  \<^item> \<open>Handshake\<close>: \<^verbatim>\<open>components/handshake.cxx\<close>, \<^verbatim>\<open>components/lower/comm_guard.cxx\<close>, \<^verbatim>\<open>components/watch_dog.cxx\<close>, and
    two boards on a link that may lose frames.
  \<^item> \<open>Rpc\<close>: \<^verbatim>\<open>components/rpc.hxx\<close> and \<^verbatim>\<open>rpc.cxx\<close>; caller, server, and a link that may lose requests and responses.
  \<^item> \<open>Pile\<close>: the ports (\<^verbatim>\<open>devices/relay.cxx\<close>, \<^verbatim>\<open>components/virtual_load_detector.cxx\<close>, \<^verbatim>\<open>state_store.cxx\<close>,
    \<^verbatim>\<open>charger.cxx\<close>), the thing and its six functions, with every chain of observers written out.
    \<open>Shutdown\<close>: what the functions together guarantee.
  \<^item> \<open>Remote\<close>: \<^verbatim>\<open>RemoteThing\<close> and \<^verbatim>\<open>LocalThing\<close>, the thing's commands over the link.
  \<^item> \<open>Flashdev\<close>: flash devices as the locales \<open>flash_dev\<close> and \<open>good_dev\<close>.  \<open>Onchip\<close>: \<^verbatim>\<open>drivers/drv_flash_f1.c\<close> with the
    calls it makes of \<^verbatim>\<open>stm32f1xx_hal_flash.c\<close> and \<^verbatim>\<open>stm32f1xx_hal_flash_ex.c\<close>, an interpretation of both.
    \<open>Fal\<close>: \<^verbatim>\<open>packages/fal-v0.5.0\<close>; a partition of a flash device is a flash device again (a sublocale).
  \<^item> \<open>Conf\<close>: \<^verbatim>\<open>components/lower/lower_conf.cxx\<close> over these layers.  \<open>Ota\<close>: \<^verbatim>\<open>applications/ota.cxx\<close> and the modules of
    both boards in \<^verbatim>\<open>components\<close>.
  \<^item> \<open>Sfud\<close>: the serial flash of the upper board (\<^verbatim>\<open>components/drivers/spi/sfud/src/sfud.c\<close>, \<^verbatim>\<open>sfud_sfdp.c\<close> and the bus access
    of \<^verbatim>\<open>spi_flash_sfud.c\<close>).  \<open>Sfdp\<close>: what the driver learns from a chip's parameter table.  \<open>Norflash\<close>:
    \<^verbatim>\<open>fal_flash_sfud_port.c\<close> and the tables of the upper board; its download partition is an interpretation of
    \<open>good_partition\<close>, and so the update of \<open>Ota\<close> runs on it.
  \<^item> \<open>Userinput\<close>: \<^verbatim>\<open>devices/ttp229.cxx\<close>, \<^verbatim>\<open>components/keyboard.cxx\<close>, \<^verbatim>\<open>app_state.cxx\<close>, \<^verbatim>\<open>user_input.cxx\<close>.

  \<^bold>\<open>What the lemmas show.\<close>  Kernel: one invariant (\<open>kinv\<close>) ties ready queues, bitmap, waiting lists and timers
  together, and every operation keeps it; the scheduler runs the highest priority; timers fire in order and wake who is due;
  each IPC object does on every branch what its contract says, and over the histories of their theories semaphore tokens are
  conserved, mutexes exclude, mailboxes are bounded queues, message slots are neither lost nor shared; a heap or
  pool never hands out a block that somebody holds, blocks never overlap and nobody's bytes are changed by another.  Link: what is sent arrives, in order and
  unchanged, noise without a head is skipped, and only well-typed messages are accepted, whose checksum agrees (with what was received, or, without
  exceptions after a wrong escape, with what happens to be on the stack); the boards get connected
  on a link that loses nothing; remote calls are answered exactly once and in time.  Ports: a port reports
  charging exactly when its relay is on; paid time, over-current and idle loads end the charge within the
  bounds of their counters, an argument made once in the locale \<open>deadline\<close> and interpreted for each counter;
  backups are restored after a restart.  Flash: a write that reports success has stored its bytes, partitions are isolated,
  a written configuration is the one in force after a restart, and an update of whole words that reports success has stored the image, over
  any history of power failures and lost messages.  Serial flash: whatever fails on the bus, writes and erases stay in their range, and success means
  that the bytes are programmed or erased; a chip that describes itself truly is driven correctly; the update of the upper board
  stores its image from the beginning and loses two kilobytes at every second checkpoint.  Dialogue: a charge is ordered only for a fresh card and a port that was typed, exists
  and is idle; the keyboard is its filter.  The theorem at the end of this theory joins link, thing and counter.
  Theorems that end in a flaw of the code say so in their text.

  \<^bold>\<open>Fuel and bounds.\<close>  Loops whose end depends on the state take fuel: the resumption of all waiters and the
  reset of a message queue (more rounds than waiters and messages are enough: \<open>ipc_reset\<close>,
  \<open>rt_mq_reset_terminates\<close>), the walks over timers and over heap blocks (more rounds than list elements or than the
  heap has headers; the theorems about them conclude that the result exists).  The packet thread's
  loop has a termination proof, since every frame consumes at least a byte, and so have the loops of the serial flash driver.  Remote calls are considered for
  histories of at most 256 calls, the range of their one-byte numbers; beyond that a number may be reused
  while in use, which is one of the flaws shown.

  \<^bold>\<open>Parameters.\<close>  The float arithmetic of the consumption is an argument (\<open>facc\<close>), as is what
  a member function called through a null pointer returns (\<open>garbage\<close>) and what uninitialised fields hold.  The numbers of the
  packet types are hashes computed by the compiler and an argument of the packet operations.  Memory returned by
  \<^verbatim>\<open>RT_KERNEL_MALLOC\<close> for kernel objects other than pools is an argument.  The flash controller is the argument \<open>hw\<close>, a record
  of register accesses; \<open>flash_controller\<close> and \<open>working_controller\<close> state what its reference manual says, and
  \<open>reference_hw\<close> shows that they can hold.  The serial flash chip is the argument \<open>b\<close>, a record with its transfer function; \<open>nor_chip\<close>, \<open>working_nor\<close>,
  \<open>self_describing\<close> and \<open>truthful\<close> state what data sheets of such chips say, and \<open>reference_nor\<close> shows that they can hold.  The server, the link and the power supply are the events of an update attempt.

  \<^bold>\<open>Not modelled.\<close>  The context switch (assembly), the check of the stack's end markers that \<^verbatim>\<open>rt_schedule\<close> makes
  before it (\<^verbatim>\<open>_rt_scheduler_stack_check\<close>, which halts on an overflow), SMP, drivers and vendor libraries (register accesses);
  shared pointers in the serializer; events from the lower to the upper board and the reading of the
  configuration, whose messages need nothing beyond the packet and call theories; the functions
  that are never added to the thing (event emitter, fuse detector); callbacks that start a new remote call
  while the timer's loop runs; the cloud, modem, voice and light code, which is string traffic with
  external services; the shell; the key-value store of the upper board, whose
  contents are arguments where they are read.
\<close>

section \<open>An order from end to end\<close>

lemma control_effect:
  assumes s: "settled i t" and i: "i < kPortNum"
  shows "settled i (Thing_control g i tid minutes t)" "charging i (Thing_control g i tid minutes t)"
    "leftSeconds (specs (Thing_control g i tid minutes t) i) = minutes * 60"
proof -
  let ?u = "upd_spec i (\<lambda>s. s\<lparr>leftSeconds := minutes * 60, timerId := tid\<rparr>) t"
  have u: "settled i ?u" using s by simp
  have e: "Thing_control g i tid minutes t = set_relay g i On ?u" using i by (simp add: Thing_control_def Charger_start_def)
  show "settled i (Thing_control g i tid minutes t)" using settled_electric(1) [OF u] by (simp add: e)
  have "charging i (set_relay g i On ?u) \<and> leftSeconds (specs (set_relay g i On ?u) i) = minutes * 60"
  proof (cases "charging i ?u")
    case True
    then show ?thesis using electric_charging(3) [OF settledD(1) [OF u] True] by simp
  next
    case False
    then show ?thesis using relay_on(1,2) [OF settledD(1) [OF u] False, of g] by (simp add: kept_def)
  qed
  then show "charging i (Thing_control g i tid minutes t)" "leftSeconds (specs (Thing_control g i tid minutes t) i) = minutes * 60"
    by (simp_all add: e)
qed



end
